(* ===== verification/QEC_Prelude.thy ===== *)
theory QEC_Prelude
  imports
    Complex_Main
    "HOL-Library.Word"
    "HOL-Library.Multiset"
    "HOL-Library.List_Lexorder"
    "HOL-Library.Product_Lexorder"
begin

text \<open>
  Shared vocabulary of the development.

  \<^item> Exceptions and results: a C++ function that may throw returns a value of
    \<open>'a res = exn + 'a\<close>; the constructors of \<open>exn\<close> are the exception classes the
    sources throw, with the fixed part of the message, and
    \<open>Undefined_behaviour\<close> for what the language leaves undefined (a read or write past the
    end of a vector, a division by zero, \<open>pop_back\<close> on an empty string).
  \<^item> Machine integers: \<open>uint8_t\<close> is \<open>8 word\<close>; \<open>uint32_t\<close> is \<open>nat\<close> with the reduction
    \<open>u32\<close> written where the source's arithmetic is done at 32 bits; \<open>std::size_t\<close> is \<open>nat\<close>.
  \<^item> \<open>double\<close> is \<open>real\<close>: rounding is not modelled.
  \<^item> \<open>std::sort\<close> with a comparator is the insertion sort \<open>std_sort\<close>; the locale
    \<open>strict_total\<close> shows that for a strict total order every sorting algorithm gives the
    same list.
  \<^item> The double loops \<open>for g, for p in [ptr[g], ptr[g+1])\<close> over compressed groups, and the
    counting, prefix-sum and scatter passes that transpose them, with their correctness.
\<close>

named_theorems res_simps \<open>evaluation of results and checked vector accesses\<close>
named_theorems sbm_defs \<open>unfolding of the sparse matrix operations\<close>
named_theorems mat_simps \<open>shape and entries of rank-2 tensors\<close>

section \<open>Results\<close>

datatype exn =
    Invalid_argument string
  | Runtime_error string
  | Logic_error string
  | Out_of_range string
  | Undefined_behaviour

type_synonym 'a res = "exn + 'a"
type_synonym u8 = "8 word"

definition rbind :: "'a res \<Rightarrow> ('a \<Rightarrow> 'b res) \<Rightarrow> 'b res" where
  "rbind m f = (case m of Inl e \<Rightarrow> Inl e | Inr x \<Rightarrow> f x)"

definition require :: "bool \<Rightarrow> exn \<Rightarrow> unit res" where
  "require b e = (if b then Inr () else Inl e)"

fun rfold :: "('a \<Rightarrow> 's \<Rightarrow> 's res) \<Rightarrow> 'a list \<Rightarrow> 's \<Rightarrow> 's res" where
  "rfold f [] s = Inr s"
| "rfold f (x # xs) s = rbind (f x s) (rfold f xs)"

fun rmap :: "('a \<Rightarrow> 'b res) \<Rightarrow> 'a list \<Rightarrow> 'b list res" where
  "rmap f [] = Inr []"
| "rmap f (x # xs) = rbind (f x) (\<lambda>y. rbind (rmap f xs) (\<lambda>ys. Inr (y # ys)))"

definition vget :: "'a list \<Rightarrow> nat \<Rightarrow> 'a res" where
  "vget xs i = (if i < length xs then Inr (xs ! i) else Inl Undefined_behaviour)"

definition vset :: "'a list \<Rightarrow> nat \<Rightarrow> 'a \<Rightarrow> 'a list res" where
  "vset xs i v = (if i < length xs then Inr (xs[i := v]) else Inl Undefined_behaviour)"

lemma rbind_simps [simp, res_simps]:
  "rbind (Inl e) f = Inl e" "rbind (Inr x) f = f x"
  by (simp_all add: rbind_def)

lemma rbind_Inr_iff [res_simps]: "rbind m f = Inr y \<longleftrightarrow> (\<exists>x. m = Inr x \<and> f x = Inr y)"
  by (cases m) auto

lemma rbind_Inl_iff: "rbind m f = Inl e \<longleftrightarrow> m = Inl e \<or> (\<exists>x. m = Inr x \<and> f x = Inl e)"
  by (cases m) auto

lemma rbind_assoc: "rbind (rbind m f) g = rbind m (\<lambda>x. rbind (f x) g)"
  by (cases m) auto

lemma require_simps [simp]:
  "require True e = Inr ()" "require False e = Inl e"
  by (simp_all add: require_def)

lemma require_Inr_iff [simp]: "require b e = Inr u \<longleftrightarrow> b"
  by (simp add: require_def)

lemma vget_Inr [simp]: "i < length xs \<Longrightarrow> vget xs i = Inr (xs ! i)"
  by (simp add: vget_def)

lemma vget_Inr_iff: "vget xs i = Inr y \<longleftrightarrow> i < length xs \<and> y = xs ! i"
  by (auto simp: vget_def)

lemma vset_Inr [simp]: "i < length xs \<Longrightarrow> vset xs i v = Inr (xs[i := v])"
  by (simp add: vset_def)

lemma rfold_append: "rfold f (xs @ ys) s = rbind (rfold f xs s) (rfold f ys)"
proof (induction xs arbitrary: s)
  case (Cons x xs)
  then show ?case by (cases "f x s") auto
qed simp

lemma rfold_cong:
  "xs = ys \<Longrightarrow> (\<And>x s. x \<in> set ys \<Longrightarrow> f x s = g x s) \<Longrightarrow> rfold f xs s = rfold g ys s"
proof (induction xs arbitrary: s ys)
  case (Cons x xs)
  then show ?case by (cases "g x s") auto
qed auto

text \<open>A loop whose body never throws under an invariant is the pure fold.\<close>

lemma rfold_pure:
  assumes "I s" and "\<And>x s. x \<in> set xs \<Longrightarrow> I s \<Longrightarrow> f x s = Inr (g x s) \<and> I (g x s)"
  shows "rfold f xs s = Inr (fold g xs s) \<and> I (fold g xs s)"
  using assms by (induction xs arbitrary: s) auto

lemma rfold_unit_iff:
  "rfold (\<lambda>x _. f x) xs () = Inr () \<longleftrightarrow> (\<forall>x \<in> set xs. f x = Inr (u :: unit))"
  by (induction xs) (auto simp: rbind_Inr_iff)

lemma rmap_pure:
  assumes "\<And>x. x \<in> set xs \<Longrightarrow> f x = Inr (g x)"
  shows "rmap f xs = Inr (map g xs)"
  using assms by (induction xs) auto

lemma rmap_Inr_length: "rmap f xs = Inr ys \<Longrightarrow> length ys = length xs"
  by (induction xs arbitrary: ys) (auto simp: rbind_Inr_iff)

section \<open>32-bit arithmetic\<close>

definition max_u32 :: nat where
  "max_u32 = 4294967295"

definition u32 :: "nat \<Rightarrow> nat" where
  "u32 n = n mod 4294967296"

definition u32_sub :: "nat \<Rightarrow> nat \<Rightarrow> nat" where
  "u32_sub a b = (a + (4294967296 - b mod 4294967296)) mod 4294967296"

lemma u32_id [simp]: "n \<le> max_u32 \<Longrightarrow> u32 n = n"
  by (simp add: u32_def max_u32_def)

lemma u32_le [simp]: "u32 n \<le> max_u32"
  using mod_less_divisor [of 4294967296 n] unfolding u32_def max_u32_def by linarith

lemma u32_sub_id: "b \<le> a \<Longrightarrow> a \<le> max_u32 \<Longrightarrow> u32_sub a b = a - b"
proof -
  assume a: "b \<le> a" "a \<le> max_u32"
  then have b: "b mod 4294967296 = b" and e: "a + (4294967296 - b) = (a - b) + 4294967296"
    by (auto simp: max_u32_def)
  have "a - b < 4294967296" using a by (simp add: max_u32_def)
  then have "((a - b) + 4294967296) mod 4294967296 = a - b"
    by (metis mod_add_self2 mod_less)
  then show ?thesis by (simp only: u32_sub_def b e)
qed

text \<open>Subtraction of \<open>std::size_t\<close> values (operands below \<open>2^64\<close>), with its wrap-around.\<close>

definition sz_sub :: "nat \<Rightarrow> nat \<Rightarrow> nat" where
  "sz_sub a b = (if b \<le> a then a - b else 2 ^ 64 - (b - a))"

lemma sz_sub_id [simp]: "b \<le> a \<Longrightarrow> sz_sub a b = a - b"
  by (simp add: sz_sub_def)

section \<open>Sorting with a comparator\<close>

fun std_insert :: "('a \<Rightarrow> 'a \<Rightarrow> bool) \<Rightarrow> 'a \<Rightarrow> 'a list \<Rightarrow> 'a list" where
  "std_insert lt x [] = [x]"
| "std_insert lt x (y # ys) = (if lt y x then y # std_insert lt x ys else x # y # ys)"

fun std_sort :: "('a \<Rightarrow> 'a \<Rightarrow> bool) \<Rightarrow> 'a list \<Rightarrow> 'a list" where
  "std_sort lt [] = []"
| "std_sort lt (x # xs) = std_insert lt x (std_sort lt xs)"

abbreviation sorted_by :: "('a \<Rightarrow> 'a \<Rightarrow> bool) \<Rightarrow> 'a list \<Rightarrow> bool" where
  "sorted_by lt \<equiv> sorted_wrt (\<lambda>x y. \<not> lt y x)"

lemma mset_std_insert: "mset (std_insert lt x xs) = add_mset x (mset xs)"
  by (induction xs) auto

lemma mset_std_sort [simp]: "mset (std_sort lt xs) = mset xs"
  by (induction xs) (auto simp: mset_std_insert)

lemma set_std_insert: "set (std_insert lt x xs) = insert x (set xs)"
  by (metis mset_std_insert set_mset_add_mset_insert set_mset_mset)

lemma set_std_sort [simp]: "set (std_sort lt xs) = set xs"
  by (metis mset_std_sort set_mset_mset)

lemma length_std_sort [simp]: "length (std_sort lt xs) = length xs"
  by (metis mset_std_sort size_mset)

lemma distinct_std_sort [simp]: "distinct (std_sort lt xs) = distinct xs"
  using mset_eq_imp_distinct_iff mset_std_sort by blast

text \<open>
  The contract \<open>std::sort\<close> asks of its comparator (a strict weak order), and what the
  caller gets back.
\<close>

locale strict_weak =
  fixes lt :: "'a \<Rightarrow> 'a \<Rightarrow> bool"
  assumes asym: "lt x y \<Longrightarrow> \<not> lt y x"
    and negtrans: "\<not> lt x y \<Longrightarrow> \<not> lt y z \<Longrightarrow> \<not> lt x z"
begin

lemma lt_trans: "lt x y \<Longrightarrow> lt y z \<Longrightarrow> lt x z"
  using asym negtrans by blast

lemma sorted_std_insert: "sorted_by lt xs \<Longrightarrow> sorted_by lt (std_insert lt x xs)"
proof (induction xs)
  case (Cons y ys)
  show ?case
  proof (cases "lt y x")
    case True
    with Cons show ?thesis by (auto simp: set_std_insert dest: asym)
  next
    case False
    have "\<not> lt z x" if "z \<in> set ys" for z
      using that Cons.prems False negtrans [of z y x] by auto
    with Cons.prems False show ?thesis by auto
  qed
qed simp

lemma sorted_std_sort: "sorted_by lt (std_sort lt xs)"
  by (induction xs) (auto simp: sorted_std_insert)

end

locale strict_total = strict_weak +
  assumes total: "x \<noteq> y \<Longrightarrow> lt x y \<or> lt y x"
begin

lemma sorted_unique:
  "mset xs = mset ys \<Longrightarrow> sorted_by lt xs \<Longrightarrow> sorted_by lt ys \<Longrightarrow> xs = ys"
proof (induction xs arbitrary: ys)
  case (Cons x xs)
  from Cons.prems(1) obtain y ys' where ys: "ys = y # ys'" by (cases ys) auto
  have "x = y"
  proof (rule ccontr)
    assume ne: "x \<noteq> y"
    have "x \<in> set ys'" "y \<in> set xs"
      using Cons.prems(1) ne ys by (metis insert_iff list.simps(15) mset_eq_setD)+
    then have "\<not> lt x y" "\<not> lt y x" using Cons.prems ys by auto
    with total [OF ne] show False by blast
  qed
  with Cons ys show ?case by auto
qed simp

lemma std_sort_unique: "mset ys = mset xs \<Longrightarrow> sorted_by lt ys \<Longrightarrow> ys = std_sort lt xs"
  by (rule sorted_unique) (auto simp: sorted_std_sort)

lemma std_sort_id: "sorted_by lt xs \<Longrightarrow> std_sort lt xs = xs"
  by (rule std_sort_unique [symmetric]) auto

end

interpretation nat_less: strict_total "(<) :: nat \<Rightarrow> nat \<Rightarrow> bool"
  by unfold_locales auto

text \<open>The order of \<open>std::pair\<close>.\<close>

definition pair_less :: "nat \<times> nat \<Rightarrow> nat \<times> nat \<Rightarrow> bool" where
  "pair_less a b \<longleftrightarrow> fst a < fst b \<or> fst a = fst b \<and> snd a < snd b"

interpretation pairs: strict_total pair_less
  by unfold_locales (auto simp: pair_less_def)

section \<open>Compressed groups\<close>

definition vslice :: "nat \<Rightarrow> nat \<Rightarrow> 'a list \<Rightarrow> 'a list" where
  "vslice b e xs = take (e - b) (drop b xs)"

definition groups_of :: "nat list \<Rightarrow> nat list \<Rightarrow> nat \<Rightarrow> nat list list" where
  "groups_of ptr idx n = map (\<lambda>g. vslice (ptr ! g) (ptr ! (g + 1)) idx) [0..<n]"

definition group_pairs :: "nat list \<Rightarrow> nat list \<Rightarrow> nat \<Rightarrow> (nat \<times> nat) list" where
  "group_pairs ptr idx n =
     concat (map (\<lambda>g. map (\<lambda>p. (idx ! p, g)) [ptr ! g..<ptr ! (g + 1)]) [0..<n])"

definition ptr_ok :: "nat list \<Rightarrow> nat list \<Rightarrow> nat \<Rightarrow> bool" where
  "ptr_ok ptr idx n \<longleftrightarrow>
     length ptr = n + 1 \<and> ptr ! 0 = 0 \<and> sorted ptr \<and> ptr ! n = length idx"

definition vals :: "nat \<Rightarrow> (nat \<times> 'a) list \<Rightarrow> 'a list" where
  "vals k kvs = map snd (filter (\<lambda>kv. fst kv = k) kvs)"

definition count_keys :: "nat \<Rightarrow> (nat \<times> 'a) list \<Rightarrow> nat list" where
  "count_keys K kvs = fold (\<lambda>kv cnt. cnt[fst kv := cnt ! fst kv + 1]) kvs (replicate K 0)"

fun prefix_from :: "nat \<Rightarrow> nat list \<Rightarrow> nat list" where
  "prefix_from acc [] = [acc]"
| "prefix_from acc (c # cs) = acc # prefix_from (acc + c) cs"

definition prefix_ptrs :: "nat list \<Rightarrow> nat list" where
  "prefix_ptrs cnt = prefix_from 0 cnt"

definition scatter_step ::
  "nat list \<Rightarrow> nat \<times> nat \<Rightarrow> nat list \<times> nat list \<Rightarrow> nat list \<times> nat list" where
  "scatter_step ptrs kv s =
     ((fst s)[ptrs ! fst kv + snd s ! fst kv := snd kv], (snd s)[fst kv := snd s ! fst kv + 1])"

definition scatter :: "nat list \<Rightarrow> nat \<Rightarrow> nat \<Rightarrow> (nat \<times> nat) list \<Rightarrow> nat list" where
  "scatter ptrs n K kvs = fst (fold (scatter_step ptrs) kvs (replicate n 0, replicate K 0))"

definition transpose_groups :: "nat \<Rightarrow> nat list list \<Rightarrow> nat list list" where
  "transpose_groups K gs =
     map (\<lambda>k. concat (map (\<lambda>i. replicate (count_list (gs ! i) k) i) [0..<length gs])) [0..<K]"


subsection \<open>Slices and pairs\<close>

lemma length_vslice [simp]: "e \<le> length xs \<Longrightarrow> length (vslice b e xs) = e - b"
  by (simp add: vslice_def)

lemma nth_vslice [simp]: "t < e - b \<Longrightarrow> e \<le> length xs \<Longrightarrow> vslice b e xs ! t = xs ! (b + t)"
  by (simp add: vslice_def)

lemma set_vslice_subset: "set (vslice b e xs) \<subseteq> set xs"
  unfolding vslice_def by (meson set_drop_subset set_take_subset subset_trans)

lemma vslice_eq_map: "e \<le> length xs \<Longrightarrow> vslice b e xs = map (\<lambda>p. xs ! p) [b..<e]"
  by (rule nth_equalityI) simp_all

lemma ptr_okD:
  assumes "ptr_ok ptr idx n"
  shows "length ptr = n + 1" "ptr ! 0 = 0" "sorted ptr" "ptr ! n = length idx"
  using assms by (simp_all add: ptr_ok_def)

lemma ptr_ok_mono: "ptr_ok ptr idx n \<Longrightarrow> i \<le> j \<Longrightarrow> j \<le> n \<Longrightarrow> ptr ! i \<le> ptr ! j"
  by (auto simp: ptr_ok_def intro: sorted_nth_mono)

lemma ptr_ok_bound: "ptr_ok ptr idx n \<Longrightarrow> i \<le> n \<Longrightarrow> ptr ! i \<le> length idx"
  by (metis le_refl ptr_okD(4) ptr_ok_mono)

lemma length_groups_of [simp]: "length (groups_of ptr idx n) = n"
  by (simp add: groups_of_def)

lemma nth_groups_of [simp]:
  "g < n \<Longrightarrow> groups_of ptr idx n ! g = vslice (ptr ! g) (ptr ! (g + 1)) idx"
  by (simp add: groups_of_def)

lemma group_pairs_groups:
  assumes "ptr_ok ptr idx n"
  shows "group_pairs ptr idx n =
    concat (map (\<lambda>g. map (\<lambda>k. (k, g)) (groups_of ptr idx n ! g)) [0..<n])"
proof -
  have "map (\<lambda>p. (idx ! p, g)) [ptr ! g..<ptr ! (g + 1)]
      = map (\<lambda>k. (k, g)) (groups_of ptr idx n ! g)" if "g < n" for g
    using that ptr_ok_bound [OF assms, of "g + 1"] by (simp add: vslice_eq_map)
  then show ?thesis
    unfolding group_pairs_def by (intro arg_cong [where f = concat] list.map_cong0) simp
qed

lemma vals_simps [simp]:
  "vals k [] = []" "vals k ((k', v) # kvs) = (if k' = k then v # vals k kvs else vals k kvs)"
  "vals k (xs @ ys) = vals k xs @ vals k ys"
  by (simp_all add: vals_def)

lemma vals_concat: "vals k (concat xss) = concat (map (vals k) xss)"
  by (induction xss) auto

lemma vals_tagged: "vals k (map (\<lambda>x. (x, g)) xs) = replicate (count_list xs k) g"
  by (induction xs) auto

lemma vals_concat_tagged:
  "vals k (concat (map (\<lambda>g. map (\<lambda>x. (x, g)) (f g)) L)) =
   concat (map (\<lambda>g. replicate (count_list (f g) k) g) L)"
  by (induction L) (auto simp: vals_tagged)

lemma vals_group_pairs:
  assumes "ptr_ok ptr idx n" and "k < K"
  shows "vals k (group_pairs ptr idx n) = transpose_groups K (groups_of ptr idx n) ! k"
  using assms by (simp add: group_pairs_groups vals_concat_tagged transpose_groups_def)

lemma length_transpose_groups [simp]: "length (transpose_groups K gs) = K"
  by (simp add: transpose_groups_def)

lemma count_concat_replicate:
  "distinct L \<Longrightarrow> count_list (concat (map (\<lambda>i. replicate (f i) i) L)) x = (if x \<in> set L then f x else 0)"
proof (induction L)
  case (Cons a L)
  have "count_list (replicate m a) x = (if a = x then m else 0)" for m :: nat
    by (induction m) auto
  with Cons show ?case by auto
qed simp

lemma count_transpose_groups:
  "k < K \<Longrightarrow> i < length gs \<Longrightarrow> count_list (transpose_groups K gs ! k) i = count_list (gs ! i) k"
  by (simp add: transpose_groups_def count_concat_replicate)

lemma set_transpose_groups:
  "k < K \<Longrightarrow> set (transpose_groups K gs ! k) = {i. i < length gs \<and> k \<in> set (gs ! i)}"
  by (auto simp: transpose_groups_def count_list_0_iff)

lemma sorted_concat_replicate:
  "sorted L \<Longrightarrow> sorted (concat (map (\<lambda>i. replicate (f i) i) L))" for L :: "nat list"
  by (induction L) (auto simp: sorted_append sorted_replicate)

lemma sorted_transpose_groups: "k < K \<Longrightarrow> sorted (transpose_groups K gs ! k)"
  by (simp add: transpose_groups_def sorted_concat_replicate)

lemma count_list_pos [simp]: "0 < count_list xs x \<longleftrightarrow> x \<in> set xs"
  by (metis count_list_0_iff gr0I less_numeral_extra(3))

lemma mset_eq_count_list: "(\<And>x. count_list xs x = count_list ys x) \<Longrightarrow> mset xs = mset ys"
  by (rule multiset_eqI) (simp add: count_mset)

text \<open>Transposing twice sorts every group.\<close>

lemma transpose_transpose_groups:
  assumes "\<And>g. g \<in> set gs \<Longrightarrow> set g \<subseteq> {..<K}"
  shows "transpose_groups (length gs) (transpose_groups K gs) = map sort gs"
proof (rule nth_equalityI)
  fix i assume "i < length (transpose_groups (length gs) (transpose_groups K gs))"
  then have i: "i < length gs" by simp
  have "count_list (transpose_groups (length gs) (transpose_groups K gs) ! i) k = count_list (gs ! i) k" for k
  proof (cases "k < K")
    case True
    then show ?thesis using i by (simp add: count_transpose_groups)
  next
    case False
    then have "k \<notin> set (transpose_groups (length gs) (transpose_groups K gs) ! i)" and "k \<notin> set (gs ! i)"
      using i assms [OF nth_mem [OF i]] by (auto simp: set_transpose_groups)
    then show ?thesis by (simp add: count_list_0_iff)
  qed
  then have "mset (transpose_groups (length gs) (transpose_groups K gs) ! i) = mset (sort (gs ! i))"
    by (intro mset_eq_count_list) (metis count_mset mset_sort)
  then show "transpose_groups (length gs) (transpose_groups K gs) ! i = map sort gs ! i"
    using i sorted_transpose_groups [OF i]
    by (metis mset_sort nth_map properties_for_sort sort_key_id_if_sorted)
qed simp


subsection \<open>Counting, prefix sums and scatter\<close>

lemma length_prefix_from [simp]: "length (prefix_from a cs) = length cs + 1"
  by (induction cs arbitrary: a) auto

lemma nth_prefix_from: "k \<le> length cs \<Longrightarrow> prefix_from a cs ! k = a + sum_list (take k cs)"
  by (induction cs arbitrary: a k) (auto simp: nth_Cons split: nat.splits)

lemma length_prefix_ptrs [simp]: "length (prefix_ptrs cs) = length cs + 1"
  by (simp add: prefix_ptrs_def)

lemma nth_prefix_ptrs: "k \<le> length cs \<Longrightarrow> prefix_ptrs cs ! k = sum_list (take k cs)"
  by (simp add: prefix_ptrs_def nth_prefix_from)

lemma prefix_ptrs_Suc: "k < length cs \<Longrightarrow> prefix_ptrs cs ! Suc k = prefix_ptrs cs ! k + cs ! k"
  by (simp add: nth_prefix_ptrs take_Suc_conv_app_nth)

lemma prefix_ptrs_mono: "i \<le> j \<Longrightarrow> j \<le> length cs \<Longrightarrow> prefix_ptrs cs ! i \<le> prefix_ptrs cs ! j"
proof (induction j)
  case (Suc j)
  then show ?case by (cases "i = Suc j") (auto simp: prefix_ptrs_Suc intro: le_trans)
qed simp

lemma sorted_prefix_ptrs: "sorted (prefix_ptrs cs)"
  by (auto simp: sorted_iff_nth_mono intro: prefix_ptrs_mono)

lemma length_count_fold:
  "length (fold (\<lambda>kv cnt. cnt[fst kv := Suc (cnt ! fst kv)]) kvs cnt) = length (cnt :: nat list)"
  by (induction kvs arbitrary: cnt) auto

lemma length_count_keys [simp]: "length (count_keys K kvs) = K"
  by (simp add: count_keys_def length_count_fold)

lemma nth_count_fold:
  "k < length cnt \<Longrightarrow>
   fold (\<lambda>kv cnt. cnt[fst kv := Suc (cnt ! fst kv)]) kvs cnt ! k = cnt ! k + length (vals k kvs)"
  by (induction kvs arbitrary: cnt) (auto simp: nth_list_update)

lemma nth_count_keys: "k < K \<Longrightarrow> count_keys K kvs ! k = length (vals k kvs)"
  by (simp add: count_keys_def nth_count_fold)

lemma count_keys_conv: "count_keys K kvs = map (\<lambda>k. length (vals k kvs)) [0..<K]"
  by (rule nth_equalityI) (auto simp: nth_count_keys)

lemma sum_length_vals:
  "\<forall>kv \<in> set kvs. fst kv < K \<Longrightarrow> (\<Sum>k<K. length (vals k kvs)) = length kvs"
proof (induction kvs)
  case (Cons kv kvs)
  obtain k v where kv: "kv = (k, v)" by (cases kv)
  have "(\<Sum>j<K. length (vals j (kv # kvs))) = (\<Sum>j<K. length (vals j kvs) + (if j = k then 1 else 0))"
    by (rule sum.cong) (auto simp: kv)
  also have "\<dots> = length kvs + 1"
    using Cons kv by (simp add: sum.distrib)
  finally show ?case by simp
qed simp

lemma prefix_count_last:
  "\<forall>kv \<in> set kvs. fst kv < K \<Longrightarrow> prefix_ptrs (count_keys K kvs) ! K = length kvs"
  by (simp add: nth_prefix_ptrs count_keys_conv interv_sum_list_conv_sum_set_nat
      atLeast0LessThan sum_length_vals)

text \<open>
  Invariant of the scatter pass after the prefix \<open>sofar\<close> of the pairs: the cursor of key
  \<open>k\<close> counts its occurrences, and the block of \<open>k\<close> starts with its values in order.
\<close>

lemma scatter_inv:
  assumes "length ptrs = K + 1" and "n = ptrs ! K" and "sorted ptrs"
    and "\<forall>k<K. ptrs ! k + length (vals k (sofar @ todo)) \<le> ptrs ! (k + 1)"
    and "\<forall>kv \<in> set todo. fst kv < K"
    and "length out = n" and "length cnt = K"
    and "\<forall>k<K. cnt ! k = length (vals k sofar)"
    and "\<forall>k<K. \<forall>t<length (vals k sofar). out ! (ptrs ! k + t) = vals k sofar ! t"
  shows "length (fst (fold (scatter_step ptrs) todo (out, cnt))) = n \<and>
    (\<forall>k<K. \<forall>t<length (vals k (sofar @ todo)).
       fst (fold (scatter_step ptrs) todo (out, cnt)) ! (ptrs ! k + t) = vals k (sofar @ todo) ! t)"
  using assms(4-9)
proof (induction todo arbitrary: sofar out cnt)
  case (Cons kv todo)
  obtain k v where kv: "kv = (k, v)" by (cases kv)
  then have k: "k < K" using Cons.prems(2) by auto
  let ?pos = "ptrs ! k + cnt ! k"
  let ?out = "out[?pos := v]" and ?cnt = "cnt[k := cnt ! k + 1]"
  have room: "?pos < ptrs ! (k + 1)"
    using Cons.prems(1,5) k kv by (auto dest!: spec [of _ k])
  have "ptrs ! (k + 1) \<le> n"
    using assms(1-3) k by (auto intro: sorted_nth_mono)
  with room have pos: "?pos < n" by linarith
  have vals: "vals j (sofar @ [kv]) = (if j = k then vals j sofar @ [v] else vals j sofar)" for j
    by (simp add: kv)
  have away: "ptrs ! j + t \<noteq> ?pos" if j: "j < K" "j \<noteq> k" and t: "t < length (vals j sofar)" for j t
  proof -
    have "ptrs ! j + length (vals j sofar) \<le> ptrs ! (j + 1)"
      using Cons.prems(1) j by (auto dest!: spec [of _ j])
    moreover have "j + 1 \<le> k \<Longrightarrow> ptrs ! (j + 1) \<le> ptrs ! k"
      and "k + 1 \<le> j \<Longrightarrow> ptrs ! (k + 1) \<le> ptrs ! j"
      using assms(1,3) j k by (auto intro: sorted_nth_mono)
    ultimately show ?thesis using room t j by linarith
  qed
  have blocks: "?out ! (ptrs ! j + t) = vals j (sofar @ [kv]) ! t"
    if j: "j < K" and t: "t < length (vals j (sofar @ [kv]))" for j t
  proof (cases "j = k \<and> t = length (vals k sofar)")
    case True
    then show ?thesis using pos Cons.prems(3,5) k vals by simp
  next
    case False
    then have t': "t < length (vals j sofar)" using t by (auto simp: kv split: if_splits)
    have "ptrs ! j + t \<noteq> ?pos"
    proof (cases "j = k")
      case True then show ?thesis using t' Cons.prems(5) k by auto
    next
      case False then show ?thesis by (rule away [OF j _ t'])
    qed
    then show ?thesis using Cons.prems(6) j t' vals by (auto simp: nth_append)
  qed
  have counts: "\<forall>j<K. ?cnt ! j = length (vals j (sofar @ [kv]))"
    using Cons.prems(4,5) vals by (auto simp: nth_list_update)
  have "length (fst (fold (scatter_step ptrs) todo (?out, ?cnt))) = n \<and>
    (\<forall>j<K. \<forall>t<length (vals j ((sofar @ [kv]) @ todo)).
       fst (fold (scatter_step ptrs) todo (?out, ?cnt)) ! (ptrs ! j + t) = vals j ((sofar @ [kv]) @ todo) ! t)"
    by (rule Cons.IH) (use Cons.prems counts blocks in auto)
  moreover have "scatter_step ptrs kv (out, cnt) = (?out, ?cnt)"
    by (simp add: scatter_step_def kv)
  ultimately show ?case by (simp only: fold_simps append_assoc append.simps simp_thms) blast
qed auto

lemma scatter_groups:
  assumes "\<forall>kv \<in> set kvs. fst kv < K"
  defines "ptrs \<equiv> prefix_ptrs (count_keys K kvs)"
  defines "out \<equiv> scatter ptrs (length kvs) K kvs"
  shows "ptr_ok ptrs out K" and "groups_of ptrs out K = map (\<lambda>k. vals k kvs) [0..<K]"
    and "set out \<subseteq> snd ` set kvs"
proof -
  have last: "ptrs ! K = length kvs" by (simp add: ptrs_def prefix_count_last assms(1))
  have suc: "ptrs ! (k + 1) = ptrs ! k + length (vals k kvs)" if "k < K" for k
    using that by (simp add: ptrs_def prefix_ptrs_Suc nth_count_keys)
  have inv: "length out = length kvs \<and>
     (\<forall>k<K. \<forall>t<length (vals k ([] @ kvs)). out ! (ptrs ! k + t) = vals k ([] @ kvs) ! t)"
    unfolding out_def scatter_def
    by (rule scatter_inv) (use assms(1) last suc in \<open>auto simp: ptrs_def sorted_prefix_ptrs\<close>)
  show ok: "ptr_ok ptrs out K"
    using last inv by (auto simp: ptr_ok_def ptrs_def sorted_prefix_ptrs nth_prefix_ptrs)
  show groups: "groups_of ptrs out K = map (\<lambda>k. vals k kvs) [0..<K]"
  proof (rule nth_equalityI)
    fix k assume "k < length (groups_of ptrs out K)"
    then have k: "k < K" by simp
    then have "ptrs ! (k + 1) \<le> length out" using ptr_ok_bound [OF ok, of "k + 1"] by simp
    with inv suc [OF k] have "vslice (ptrs ! k) (ptrs ! (k + 1)) out = vals k kvs"
      by (intro nth_equalityI) (simp_all add: k)
    then show "groups_of ptrs out K ! k = map (\<lambda>k. vals k kvs) [0..<K] ! k" using k by simp
  qed simp
  show "set out \<subseteq> snd ` set kvs"
  proof
    fix x assume "x \<in> set out"
    then obtain p where p: "p < length out" "out ! p = x" by (auto simp: in_set_conv_nth)
    obtain k where k: "k < K" "ptrs ! k \<le> p" "p < ptrs ! (k + 1)"
    proof -
      have "\<exists>k. k < m \<and> ptrs ! k \<le> p \<and> p < ptrs ! (k + 1)" if "p < ptrs ! m" for m
        using that
      proof (induction m)
        case 0 then show ?case using ptr_okD(2) [OF ok] by simp
      next
        case (Suc m)
        then show ?case by (cases "p < ptrs ! m") (auto intro: less_SucI)
      qed
      from this [of K] that p ptr_okD(4) [OF ok] show thesis by auto
    qed
    then have "x = vals k kvs ! (p - ptrs ! k)" "p - ptrs ! k < length (vals k kvs)"
      using spec [OF mp [OF spec [OF conjunct2 [OF inv], of k] k(1)], of "p - ptrs ! k"]
        suc [OF k(1)] p k by auto
    then have "x \<in> set (vals k kvs)" by simp
    then show "x \<in> snd ` set kvs" by (auto simp: vals_def)
  qed
qed


section \<open>GF(2) reduction of index lists\<close>

text \<open>The run-length pass over a sorted list: keep one copy of each run of odd length.\<close>

function odd_runs :: "nat list \<Rightarrow> nat list" where
  "odd_runs [] = []"
| "odd_runs (v # xs) =
     (let run = takeWhile (\<lambda>x. x = v) xs; rest = dropWhile (\<lambda>x. x = v) xs
      in if odd (Suc (length run)) then v # odd_runs rest else odd_runs rest)"
  by pat_completeness auto
termination
  by (relation "measure length") (auto simp: less_Suc_eq_le length_dropWhile_le)

abbreviation strictly_sorted :: "nat list \<Rightarrow> bool" where
  "strictly_sorted \<equiv> sorted_wrt (<)"

lemma dropWhile_sorted_greater:
  "sorted (v # xs) \<Longrightarrow> x \<in> set (dropWhile (\<lambda>x. x = v) xs) \<Longrightarrow> v < x" for x :: nat
  by (induction xs) (auto split: if_splits simp: order_less_le)

lemma odd_runs_induct:
  assumes "P []" and "\<And>v xs. P (dropWhile (\<lambda>x. x = v) xs) \<Longrightarrow> P (v # xs)"
  shows "P xs"
proof (induction xs rule: length_induct)
  case (1 xs)
  with assms show ?case
    by (cases xs) (auto simp: less_Suc_eq_le length_dropWhile_le)
qed

lemma set_odd_runs_subset: "set (odd_runs xs) \<subseteq> set xs"
  by (induction xs rule: odd_runs_induct) (auto simp: Let_def dest: set_dropWhileD)

lemma count_run:
  "sorted (v # xs) \<Longrightarrow> count_list xs v = length (takeWhile (\<lambda>x. x = v) xs)" for v :: nat
proof (induction xs)
  case (Cons x xs)
  show ?case
  proof (cases "x = v")
    case True
    with Cons show ?thesis by auto
  next
    case False
    with Cons.prems have "v \<notin> set (x # xs)" by auto
    then show ?thesis using False by (simp add: count_list_0_iff)
  qed
qed simp

lemma count_rest:
  "x \<noteq> v \<Longrightarrow> count_list (dropWhile (\<lambda>x. x = v) xs) x = count_list xs x"
  by (induction xs) auto

lemma count_odd_runs: "sorted xs \<Longrightarrow> count_list (odd_runs xs) x = count_list xs x mod 2"
proof (induction xs rule: odd_runs_induct)
  case (2 v xs)
  let ?run = "takeWhile (\<lambda>x. x = v) xs" and ?rest = "dropWhile (\<lambda>x. x = v) xs"
  have rest: "sorted ?rest" using "2.prems" by (simp add: sorted_dropWhile)
  have IH: "count_list (odd_runs ?rest) x = count_list ?rest x mod 2"
    using 2 rest by simp
  have notin: "v \<notin> set ?rest" using dropWhile_sorted_greater [OF "2.prems"] by blast
  then have v: "v \<notin> set (odd_runs ?rest)" using set_odd_runs_subset by blast
  show ?case
  proof (cases "x = v")
    case True
    with v count_run [OF "2.prems"] show ?thesis
      by (auto simp: Let_def count_list_0_iff odd_iff_mod_2_eq_one)
  next
    case False
    then show ?thesis using IH by (auto simp: Let_def count_rest)
  qed
qed simp

lemma strictly_sorted_odd_runs: "sorted xs \<Longrightarrow> strictly_sorted (odd_runs xs)"
proof (induction xs rule: odd_runs_induct)
  case (2 v xs)
  have "sorted (dropWhile (\<lambda>x. x = v) xs)" using "2.prems" by (simp add: sorted_dropWhile)
  with 2 have IH: "strictly_sorted (odd_runs (dropWhile (\<lambda>x. x = v) xs))"
    by simp
  have "\<forall>x \<in> set (odd_runs (dropWhile (\<lambda>x. x = v) xs)). v < x"
    using dropWhile_sorted_greater [OF "2.prems"] set_odd_runs_subset by blast
  with IH show ?case by (auto simp: Let_def)
qed simp

lemma odd_runs_strictly_sorted: "strictly_sorted xs \<Longrightarrow> odd_runs xs = xs"
proof (induction xs rule: odd_runs_induct)
  case (2 v xs)
  then have "takeWhile (\<lambda>x. x = v) xs = []" "dropWhile (\<lambda>x. x = v) xs = xs"
    by (cases xs; auto)+
  with 2 show ?case by simp
qed simp

lemma strictly_sorted_imp_sorted: "strictly_sorted xs \<Longrightarrow> sorted xs"
  by (simp add: strict_sorted_iff)

lemma strictly_sorted_count: "strictly_sorted xs \<Longrightarrow> count_list xs x \<le> 1"
  by (metis count_list_0_iff distinct_count_atmost_1 count_mset le_numeral_extra(4) order.refl strict_sorted_iff zero_le_one)

end
