(* ===== verification/QEC_Tensor.thy ===== *)
theory QEC_Tensor
  imports QEC_Prelude
begin

text \<open>
  Dense tensors (\<open>cudaqx::tensor<uint8_t>\<close>, libs/core): the shape and the flattened data with
  strides growing from right to left, construction, checked element access, transposition.
  Transposition copies what the third-party call \<open>xt::transpose\<close> yields, so that call is the
  parameter \<open>xt\<close> of \<open>tensor_transpose\<close> and of everything that uses it; the predicate
  \<open>xt_transpose_ok\<close> is its documented behaviour. The locale \<open>matrix_store\<close> is what the
  PCM code relies on when it fills matrices element by element.
\<close>

section \<open>Data and operations\<close>

record 'a tensor =
  shape :: "nat list"
  data :: "'a list"

definition tensor_rank :: "'a tensor \<Rightarrow> nat" where
  "tensor_rank t = length (shape t)"

definition tensor_size :: "'a tensor \<Rightarrow> nat" where
  "tensor_size t = (if tensor_rank t = 0 then 0 else prod_list (shape t))"

definition tensor_new :: "nat list \<Rightarrow> u8 tensor" where
  "tensor_new s = (if s = [] then \<lparr>shape = [], data = []\<rparr>
                   else \<lparr>shape = s, data = replicate (prod_list s) 0\<rparr>)"

definition valid_indices :: "nat list \<Rightarrow> nat list \<Rightarrow> bool" where
  "valid_indices s idxs \<longleftrightarrow> length idxs = length s \<and> list_all2 (<) idxs s"

fun flat_index :: "nat list \<Rightarrow> nat list \<Rightarrow> nat" where
  "flat_index (s # ss) (i # is) = i * prod_list ss + flat_index ss is"
| "flat_index _ _ = 0"

definition tensor_at :: "'a tensor \<Rightarrow> nat list \<Rightarrow> 'a res" where
  "tensor_at t idxs =
     (if \<not> valid_indices (shape t) idxs
      then Inl (Runtime_error ''Invalid constant tensor indices'')
      else vget (data t) (flat_index (shape t) idxs))"

definition tensor_set :: "'a tensor \<Rightarrow> nat list \<Rightarrow> 'a \<Rightarrow> 'a tensor res" where
  "tensor_set t idxs v =
     (if length idxs \<noteq> tensor_rank t
      then Inl (Runtime_error ''Invalid indices provided to tensor::at()'')
      else if \<not> valid_indices (shape t) idxs then Inl (Runtime_error ''Invalid tensor indices'')
      else rbind (vset (data t) (flat_index (shape t) idxs) v) (\<lambda>d. Inr (t\<lparr>data := d\<rparr>)))"

text \<open>
  References into the data: \<open>&t.at(idxs)\<close> is the offset of the element (mutable and const access
  differ in their checks and messages), \<open>std::memcpy\<close> copies between two such offsets.
\<close>

definition tensor_ref :: "'a tensor \<Rightarrow> nat list \<Rightarrow> nat res" where
  "tensor_ref t idxs =
     (if length idxs \<noteq> tensor_rank t
      then Inl (Runtime_error ''Invalid indices provided to tensor::at()'')
      else if \<not> valid_indices (shape t) idxs then Inl (Runtime_error ''Invalid tensor indices'')
      else Inr (flat_index (shape t) idxs))"

definition tensor_cref :: "'a tensor \<Rightarrow> nat list \<Rightarrow> nat res" where
  "tensor_cref t idxs =
     (if \<not> valid_indices (shape t) idxs then Inl (Runtime_error ''Invalid constant tensor indices'')
      else Inr (flat_index (shape t) idxs))"

definition mem_copy :: "'a list \<Rightarrow> nat \<Rightarrow> 'a list \<Rightarrow> nat \<Rightarrow> nat \<Rightarrow> 'a list res" where
  "mem_copy dst d src s n =
     (if s + n \<le> length src \<and> d + n \<le> length dst
      then Inr (take d dst @ take n (drop s src) @ drop (d + n) dst)
      else Inl Undefined_behaviour)"

text \<open>Construction from bitstrings: each character minus the character code of zero, at 8 bits.\<close>

definition tensor_from_bitstrings :: "string list \<Rightarrow> u8 tensor res" where
  "tensor_from_bitstrings rows =
     (if rows = [] then Inr \<lparr>shape = [], data = []\<rparr>
      else let num_cols = length (rows ! 0) in
        if list_ex (\<lambda>r. length r \<noteq> num_cols) (tl rows)
        then Inl (Runtime_error ''inconsistent tensor_impl dimensions'')
        else if num_cols = 0 then Inl (Runtime_error ''Invalid tensor indices'')
        else Inr \<lparr>shape = [length rows, num_cols],
                  data = concat (map (map (\<lambda>ch. of_char ch - 48)) rows)\<rparr>)"

definition tensor_transpose ::
  "(nat \<Rightarrow> nat \<Rightarrow> u8 list \<Rightarrow> u8 list) \<Rightarrow> u8 tensor \<Rightarrow> u8 tensor res" where
  "tensor_transpose xt t =
     (if tensor_rank t \<noteq> 2 then Inl (Runtime_error ''Transpose requires rank-2 tensors'')
      else Inr \<lparr>shape = [shape t ! 1, shape t ! 0], data = xt (shape t ! 0) (shape t ! 1) (data t)\<rparr>)"

definition xt_transpose_ok :: "(nat \<Rightarrow> nat \<Rightarrow> u8 list \<Rightarrow> u8 list) \<Rightarrow> bool" where
  "xt_transpose_ok xt \<longleftrightarrow>
     (\<forall>nr nc d. length d = nr * nc \<longrightarrow>
        xt nr nc d = map (\<lambda>k. d ! (k mod nr * nc + k div nr)) [0..<nc * nr])"

text \<open>A function with that behaviour, for instances.\<close>

definition xt_reference :: "nat \<Rightarrow> nat \<Rightarrow> u8 list \<Rightarrow> u8 list" where
  "xt_reference nr nc d = map (\<lambda>k. d ! (k mod nr * nc + k div nr)) [0..<nc * nr]"

lemma xt_reference_ok: "xt_transpose_ok xt_reference"
  by (simp add: xt_transpose_ok_def xt_reference_def)

section \<open>Rank-2 views\<close>

definition is_mat :: "'a tensor \<Rightarrow> nat \<Rightarrow> nat \<Rightarrow> bool" where
  "is_mat t nr nc \<longleftrightarrow> shape t = [nr, nc] \<and> length (data t) = nr * nc"

definition ent :: "'a tensor \<Rightarrow> nat \<Rightarrow> nat \<Rightarrow> 'a" where
  "ent t r c = data t ! (r * shape t ! 1 + c)"

definition mat_upd :: "'a tensor \<Rightarrow> nat \<Rightarrow> nat \<Rightarrow> 'a \<Rightarrow> 'a tensor" where
  "mat_upd t r c v = t\<lparr>data := (data t)[r * shape t ! 1 + c := v]\<rparr>"

definition mk_mat :: "nat \<Rightarrow> nat \<Rightarrow> (nat \<Rightarrow> nat \<Rightarrow> 'a) \<Rightarrow> 'a tensor" where
  "mk_mat nr nc f = \<lparr>shape = [nr, nc], data = map (\<lambda>k. f (k div nc) (k mod nc)) [0..<nr * nc]\<rparr>"

lemma cell_bound: "r < nr \<Longrightarrow> c < nc \<Longrightarrow> r * nc + c < nr * nc" for r c :: nat
proof -
  assume "r < nr" "c < nc"
  then have "r * nc + c < (r + 1) * nc" by simp
  also have "\<dots> \<le> nr * nc" using \<open>r < nr\<close> by (intro mult_le_mono) auto
  finally show ?thesis .
qed

lemma cell_inj: "c < nc \<Longrightarrow> c' < nc \<Longrightarrow> r * nc + c = r' * nc + c' \<longleftrightarrow> r = r' \<and> c = c'" for r r' c c' :: nat
  by (metis add_right_imp_eq div_mult_self3 mod_mult_self3 div_less mod_less add_0 less_nat_zero_code bot_nat_0.not_eq_extremum)

lemma is_matD:
  assumes "is_mat t nr nc"
  shows "shape t = [nr, nc]" "length (data t) = nr * nc" "tensor_rank t = 2"
  using assms by (simp_all add: is_mat_def tensor_rank_def)

lemma is_mat_new [mat_simps]: "is_mat (tensor_new [nr, nc]) nr nc"
  by (simp add: is_mat_def tensor_new_def)

lemma ent_new [mat_simps]: "r < nr \<Longrightarrow> c < nc \<Longrightarrow> ent (tensor_new [nr, nc]) r c = 0"
  using cell_bound [of r nr c nc] by (simp add: ent_def tensor_new_def)

lemma is_mat_mk_mat [mat_simps]: "is_mat (mk_mat nr nc f) nr nc"
  by (simp add: is_mat_def mk_mat_def)

lemma shape_mk_mat [mat_simps]: "shape (mk_mat nr nc f) = [nr, nc]"
  by (simp add: mk_mat_def)

lemma ent_mk_mat [mat_simps]: "r < nr \<Longrightarrow> c < nc \<Longrightarrow> ent (mk_mat nr nc f) r c = f r c"
  using cell_bound [of r nr c nc] by (simp add: ent_def mk_mat_def)

lemma is_mat_upd [mat_simps]: "is_mat t nr nc \<Longrightarrow> is_mat (mat_upd t r c v) nr nc"
  by (simp add: is_mat_def mat_upd_def)

lemma ent_upd:
  assumes "is_mat t nr nc" "r < nr" "c < nc" "r' < nr" "c' < nc"
  shows "ent (mat_upd t r c v) r' c' = (if r' = r \<and> c' = c then v else ent t r' c')"
  using assms cell_bound [of r nr c nc] cell_inj [of c nc c' r r']
  by (auto simp: ent_def mat_upd_def is_mat_def nth_list_update)

lemma tensor_at_ent:
  "is_mat t nr nc \<Longrightarrow> r < nr \<Longrightarrow> c < nc \<Longrightarrow> tensor_at t [r, c] = Inr (ent t r c)"
  using cell_bound [of r nr c nc] by (simp add: tensor_at_def valid_indices_def is_mat_def ent_def)

lemma tensor_at_error:
  "is_mat t nr nc \<Longrightarrow> \<not> (r < nr \<and> c < nc) \<Longrightarrow>
   tensor_at t [r, c] = Inl (Runtime_error ''Invalid constant tensor indices'')"
  by (auto simp: tensor_at_def valid_indices_def is_mat_def)

lemma tensor_set_upd:
  "is_mat t nr nc \<Longrightarrow> r < nr \<Longrightarrow> c < nc \<Longrightarrow> tensor_set t [r, c] v = Inr (mat_upd t r c v)"
  using cell_bound [of r nr c nc]
  by (simp add: tensor_set_def valid_indices_def is_mat_def tensor_rank_def mat_upd_def)

lemma tensor_set_error:
  "is_mat t nr nc \<Longrightarrow> \<not> (r < nr \<and> c < nc) \<Longrightarrow>
   tensor_set t [r, c] v = Inl (Runtime_error ''Invalid tensor indices'')"
  by (auto simp: tensor_set_def valid_indices_def is_mat_def tensor_rank_def)

lemma tensor_cref_mat:
  "is_mat t nr nc \<Longrightarrow> tensor_cref t [r, c] =
    (if r < nr \<and> c < nc then Inr (r * nc + c) else Inl (Runtime_error ''Invalid constant tensor indices''))"
  by (auto simp: tensor_cref_def valid_indices_def is_mat_def)

lemma tensor_ref_mat:
  "is_mat t nr nc \<Longrightarrow> tensor_ref t [r, c] =
    (if r < nr \<and> c < nc then Inr (r * nc + c) else Inl (Runtime_error ''Invalid tensor indices''))"
  by (auto simp: tensor_ref_def valid_indices_def is_mat_def tensor_rank_def)

lemma mat_eqI:
  assumes "is_mat s nr nc" "is_mat t nr nc"
    and "\<And>r c. r < nr \<Longrightarrow> c < nc \<Longrightarrow> ent s r c = ent t r c"
  shows "s = (t :: 'a tensor)"
proof -
  have "data s ! k = data t ! k" if k: "k < nr * nc" for k
  proof -
    have "0 < nc" using k by (cases nc) auto
    then have "k div nc < nr" "k mod nc < nc" and e: "k div nc * nc + k mod nc = k"
      using k by (auto simp: less_mult_imp_div_less)
    with assms(3) [of "k div nc" "k mod nc"] assms(1,2) show ?thesis
      by (simp add: ent_def is_mat_def)
  qed
  then have "data s = data t" using assms(1,2) by (intro nth_equalityI) (auto simp: is_mat_def)
  moreover have "shape s = shape t" using assms(1,2) by (simp add: is_mat_def)
  ultimately show ?thesis by simp
qed

lemma mat_conv_mk_mat: "is_mat t nr nc \<Longrightarrow> t = mk_mat nr nc (ent t)"
  by (rule mat_eqI [of _ nr nc]) (auto simp: mat_simps)

lemma mk_mat_rows: "data (mk_mat m n f) = concat (map (\<lambda>r. map (f r) [0..<n]) [0..<m])"
proof (induction m)
  case (Suc m)
  have "map (\<lambda>k. f (k div n) (k mod n)) [m * n..<m * n + n] = map (f m) [0..<n]"
    by (rule nth_equalityI) (simp_all add: mult.commute)
  then show ?case
    using Suc upt_add_eq_append [of 0 "m * n" n] by (simp add: mk_mat_def add.commute)
qed (simp add: mk_mat_def)

lemma mk_mat_row_slice:
  assumes "r < m" "b + k \<le> n"
  shows "take k (drop (r * n + b) (data (mk_mat m n f))) = map (\<lambda>j. f r (b + j)) [0..<k]"
proof (rule nth_equalityI)
  have "r * n + n \<le> m * n" using assms(1) by (metis Suc_leI add.commute mult_Suc mult_le_mono1)
  then have le: "r * n + b + k \<le> length (data (mk_mat m n f))" using assms(2) by (simp add: mk_mat_def)
  then show "length (take k (drop (r * n + b) (data (mk_mat m n f)))) = length (map (\<lambda>j. f r (b + j)) [0..<k])"
    by simp
  fix j assume "j < length (take k (drop (r * n + b) (data (mk_mat m n f))))"
  then have j: "j < k" by simp
  then have "(r * n + b + j) div n = r" "(r * n + b + j) mod n = b + j" "r * n + b + j < m * n"
    using assms(2) le by (auto simp: mk_mat_def add.assoc)
  then show "take k (drop (r * n + b) (data (mk_mat m n f))) ! j = map (\<lambda>j. f r (b + j)) [0..<k] ! j"
    using j le by (simp add: mk_mat_def)
qed

lemma tensor_transpose_mat:
  assumes "xt_transpose_ok xt" "is_mat t nr nc"
  shows "tensor_transpose xt t = Inr (mk_mat nc nr (\<lambda>c r. ent t r c))"
proof -
  have "xt nr nc (data t) = map (\<lambda>k. data t ! (k mod nr * nc + k div nr)) [0..<nc * nr]"
    using assms by (simp add: xt_transpose_ok_def is_mat_def)
  then show ?thesis
    using assms(2) by (simp add: tensor_transpose_def is_mat_def tensor_rank_def mk_mat_def ent_def)
qed

section \<open>Filling matrices element by element\<close>

text \<open>
  What the loops \<open>t.at({r, c}) = 1\<close> rely on: the store keeps its shape, a write is seen at its
  cell and nowhere else.
\<close>

locale matrix_store =
  fixes inv :: "'t \<Rightarrow> bool" and cells :: "(nat \<times> nat) set"
    and get :: "'t \<Rightarrow> nat \<Rightarrow> nat \<Rightarrow> 'v" and put :: "'t \<Rightarrow> nat \<times> nat \<Rightarrow> 'v \<Rightarrow> 't res"
  assumes put_cell: "inv t \<Longrightarrow> (r, c) \<in> cells \<Longrightarrow>
      \<exists>t'. put t (r, c) v = Inr t' \<and> inv t' \<and>
        (\<forall>(r', c') \<in> cells. get t' r' c' = (if (r', c') = (r, c) then v else get t r' c'))"
begin

lemma fills:
  assumes "inv t" and "set L \<subseteq> cells"
  shows "\<exists>t'. rfold (\<lambda>rc t. put t rc (w rc)) L t = Inr t' \<and> inv t' \<and>
    (\<forall>(r, c) \<in> cells. get t' r c = (if (r, c) \<in> set L then w (r, c) else get t r c))"
  using assms
proof (induction L arbitrary: t)
  case (Cons rc L)
  obtain r c where rc: "rc = (r, c)" by (cases rc)
  from Cons.prems put_cell [of t r c "w rc"] rc obtain t1 where t1: "put t rc (w rc) = Inr t1" "inv t1"
    "\<forall>(r', c') \<in> cells. get t1 r' c' = (if (r', c') = (r, c) then w rc else get t r' c')"
    by auto
  with Cons.IH [of t1] Cons.prems obtain t2 where t2: "rfold (\<lambda>rc t. put t rc (w rc)) L t1 = Inr t2" "inv t2"
    "\<forall>(r, c) \<in> cells. get t2 r c = (if (r, c) \<in> set L then w (r, c) else get t1 r c)"
    by auto
  have "\<forall>(r', c') \<in> cells. get t2 r' c' = (if (r', c') \<in> set (rc # L) then w (r', c') else get t r' c')"
    using t1(3) t2(3) rc by fastforce
  with t1 t2 show ?case by auto
qed auto

end

interpretation ts: matrix_store "\<lambda>t :: 'a tensor. is_mat t nr nc" "{..<nr} \<times> {..<nc}" ent
    "\<lambda>t rc. tensor_set t [fst rc, snd rc]" for nr nc
  by unfold_locales (auto simp: tensor_set_upd ent_upd is_mat_upd)

lemma tensor_fills:
  assumes "is_mat t nr nc" and "\<forall>(r, c) \<in> set L. r < nr \<and> c < nc"
  shows "rfold (\<lambda>rc t. tensor_set t [fst rc, snd rc] (w rc)) L t
    = Inr (mk_mat nr nc (\<lambda>r c. if (r, c) \<in> set L then w (r, c) else ent t r c))"
proof -
  have "set L \<subseteq> {..<nr} \<times> {..<nc}" using assms(2) by auto
  from ts.fills [OF assms(1) this] obtain t' where
    t': "rfold (\<lambda>rc t. tensor_set t [fst rc, snd rc] (w rc)) L t = Inr t'" "is_mat t' nr nc"
    and e: "\<forall>(r, c) \<in> {..<nr} \<times> {..<nc}. ent t' r c = (if (r, c) \<in> set L then w (r, c) else ent t r c)"
    by blast
  have "t' = mk_mat nr nc (\<lambda>r c. if (r, c) \<in> set L then w (r, c) else ent t r c)"
    using e t'(2) by (intro mat_eqI [of _ nr nc]) (auto simp: mat_simps)
  with t'(1) show ?thesis by simp
qed

lemmas tensor_marks = tensor_fills [where w = "\<lambda>_. v" for v]

text \<open>Copying whole rows one after the other into a fresh matrix.\<close>

lemma copy_rows:
  assumes src: "\<And>k. k < m \<Longrightarrow> off k + n \<le> length src" and "0 < n"
  shows "k \<le> m \<Longrightarrow> rfold (\<lambda>k t. rbind (tensor_ref t [k, 0]) (\<lambda>d.
       rbind (mem_copy (data t) d src (off k) n) (\<lambda>ds. Inr (t\<lparr>data := ds\<rparr>)))) [0..<k] (tensor_new [m, n])
    = Inr \<lparr>shape = [m, n], data = concat (map (\<lambda>k. take n (drop (off k) src)) [0..<k]) @ replicate ((m - k) * n) 0\<rparr>"
proof (induction k)
  case 0
  then show ?case by (simp add: tensor_new_def)
next
  case (Suc k)
  define pre where "pre = concat (map (\<lambda>k. take n (drop (off k) src)) [0..<k])"
  have len: "length pre = k * n"
  proof -
    have "length (take n (drop (off j) src)) = n" if "j < k" for j
      using src [of j] that Suc.prems by simp
    then have "length pre = (\<Sum>j\<leftarrow>[0..<k]. n)"
      unfolding pre_def length_concat map_map
      by (intro arg_cong [where f = sum_list] map_cong) auto
    then show ?thesis by (simp add: sum_list_triv)
  qed
  have rest: "(m - k) * n = n + (m - Suc k) * n"
    using Suc.prems by (metis Suc_diff_Suc Suc_le_lessD mult_Suc)
  from Suc src [of k] len rest assms(2) show ?case
    by (simp add: rfold_append pre_def [symmetric] tensor_ref_def valid_indices_def tensor_rank_def
        mem_copy_def)
qed

lemma marks_new:
  assumes "\<forall>(r, c) \<in> set L. r < nr \<and> c < nc"
  shows "rfold (\<lambda>rc t. tensor_set t [fst rc, snd rc] (1 :: u8)) L (tensor_new [nr, nc])
    = Inr (mk_mat nr nc (\<lambda>r c. if (r, c) \<in> set L then 1 else 0))"
  unfolding tensor_marks [OF is_mat_new assms]
  by (rule arg_cong [where f = Inr], rule mat_eqI [of _ nr nc]) (auto simp: mat_simps)

end
