(* ===== verification/QEC_Sparse.thy ===== *)
theory QEC_Sparse
  imports QEC_Tensor
begin

text \<open>
  The sparse parity-check matrix \<open>cudaq::qec::sparse_binary_matrix\<close>
  (libs/qec/lib/sparse_binary_matrix.cpp): compressed column or row storage, validation,
  GF(2) canonicalisation, constructors and conversions. The abstraction of a matrix is
  \<open>mult_at m r c\<close>, how often the cell \<open>(r, c)\<close> is listed; conversions keep it, canonicalisation
  reduces it modulo 2, the dense form is its support.
\<close>

section \<open>Data\<close>

datatype sparse_layout = CSC | CSR

record sparse_binary_matrix =
  sbm_layout :: sparse_layout
  sbm_rows :: nat
  sbm_cols :: nat
  sbm_ptr :: "nat list"
  sbm_idx :: "nat list"

definition num_groups :: "sparse_binary_matrix \<Rightarrow> nat" where
  "num_groups m = (if sbm_layout m = CSC then sbm_cols m else sbm_rows m)"

definition index_bound :: "sparse_binary_matrix \<Rightarrow> nat" where
  "index_bound m = (if sbm_layout m = CSC then sbm_rows m else sbm_cols m)"

definition num_nnz :: "sparse_binary_matrix \<Rightarrow> nat" where
  "num_nnz m = u32 (length (sbm_idx m))"

definition throw_if_nnz_exceeds_index_range :: "nat \<Rightarrow> string \<Rightarrow> unit res" where
  "throw_if_nnz_exceeds_index_range nnz context =
     require (nnz \<le> max_u32) (Invalid_argument (context @ '': nnz exceeds index_type (uint32_t) range''))"

section \<open>Operations\<close>

definition validate_index :: "string \<Rightarrow> string \<Rightarrow> nat \<Rightarrow> nat \<Rightarrow> nat list \<Rightarrow> nat \<Rightarrow> unit res" where
  "validate_index where_msg group_name bound b idx p =
     (if bound \<le> idx ! p then Inl (Invalid_argument (where_msg @ '': sparse index out of range''))
      else if b < p \<and> idx ! p \<le> idx ! (p - 1)
      then Inl (Invalid_argument (where_msg @
             '': sparse indices must be strictly increasing within each '' @ group_name))
      else Inr ())"

definition validate_group :: "string \<Rightarrow> string \<Rightarrow> nat \<Rightarrow> nat list \<Rightarrow> nat list \<Rightarrow> nat \<Rightarrow> unit res" where
  "validate_group where_msg group_name bound ptr idx g =
     (let b = ptr ! g; e = ptr ! (g + 1) in
      if e < b \<or> length idx < e 
      then Inl (Invalid_argument (where_msg @ '': sparse pointer array is not monotonic''))
      else rfold (\<lambda>p _. validate_index where_msg group_name bound b idx p) [b..<e] ())"

definition validate_sorted_unique_indices :: "string option \<Rightarrow> sparse_binary_matrix \<Rightarrow> unit res" where
  "validate_sorted_unique_indices context m =
     (let where_msg = (case context of None \<Rightarrow> ''sparse_binary_matrix'' | Some c \<Rightarrow> c);
          group_name = (if sbm_layout m = CSC then ''column'' else ''row'');
          n = num_groups m; bound = index_bound m; ptr = sbm_ptr m; idx = sbm_idx m in
      if n = 0 \<and> ptr = [] \<and> idx = [] then Inr ()
      else if length ptr \<noteq> n + 1
      then Inl (Invalid_argument (where_msg @ '': sparse pointer array has invalid size''))
      else if ptr \<noteq> [] \<and> hd ptr \<noteq> 0
      then Inl (Invalid_argument (where_msg @ '': sparse pointer array must start at zero''))
      else if ptr \<noteq> [] \<and> last ptr \<noteq> length idx
      then Inl (Invalid_argument (where_msg @ '': sparse pointer array must end at nnz''))
      else rfold (\<lambda>g _. validate_group where_msg group_name bound ptr idx g) [0..<n] ())"

text \<open>
  The checks of \<open>from_csc\<close> and \<open>from_csr\<close> are the same up to the names in the messages
  (\<open>P\<close> the pointer array, \<open>D\<close> the dimension, \<open>I\<close> the index array, \<open>K\<close> the kind of index):
  \<open>n\<close> compressed groups, indices below \<open>bound\<close>.
\<close>

definition check_compressed ::
  "string \<Rightarrow> string \<Rightarrow> string \<Rightarrow> string \<Rightarrow> string \<Rightarrow> nat \<Rightarrow> nat \<Rightarrow> nat list \<Rightarrow> nat list \<Rightarrow> unit res" where
  "check_compressed f P D I K n bound ptr idx =
     (if length ptr \<noteq> n + 1
      then Inl (Invalid_argument (f @ '': '' @ P @ ''s must have size '' @ D @ '' + 1''))
      else if hd ptr \<noteq> 0 then Inl (Invalid_argument (f @ '': '' @ P @ ''s[0] must be zero''))
      else if list_ex (\<lambda>j. ptr ! j < ptr ! (j - 1)) [1..<n + 1]
      then Inl (Invalid_argument (f @ '': '' @ P @ ''s must be non-decreasing''))
      else rbind (throw_if_nnz_exceeds_index_range (length idx) f) (\<lambda>_.
        if last ptr \<noteq> u32 (length idx)
        then Inl (Invalid_argument (f @ '': last '' @ P @ '' must equal nnz ('' @ I @ ''.size())''))
        else if list_ex (\<lambda>i. bound \<le> i) idx
        then Inl (Invalid_argument (f @ '': '' @ K @ '' index out of range''))
        else Inr ()))"

definition from_csc :: "nat \<Rightarrow> nat \<Rightarrow> nat list \<Rightarrow> nat list \<Rightarrow> sparse_binary_matrix res" where
  "from_csc num_rows num_cols col_ptrs row_indices =
     rbind (check_compressed ''sparse_binary_matrix::from_csc'' ''col_ptr'' ''num_cols'' ''row_indices''
              ''row'' num_cols num_rows col_ptrs row_indices)
       (\<lambda>_. Inr \<lparr>sbm_layout = CSC, sbm_rows = num_rows, sbm_cols = num_cols,
                 sbm_ptr = col_ptrs, sbm_idx = row_indices\<rparr>)"

definition from_csr :: "nat \<Rightarrow> nat \<Rightarrow> nat list \<Rightarrow> nat list \<Rightarrow> sparse_binary_matrix res" where
  "from_csr num_rows num_cols row_ptrs col_indices =
     rbind (check_compressed ''sparse_binary_matrix::from_csr'' ''row_ptr'' ''num_rows'' ''col_indices''
              ''column'' num_rows num_cols row_ptrs col_indices)
       (\<lambda>_. Inr \<lparr>sbm_layout = CSR, sbm_rows = num_rows, sbm_cols = num_cols,
                 sbm_ptr = row_ptrs, sbm_idx = col_indices\<rparr>)"

definition vrange :: "nat \<Rightarrow> nat \<Rightarrow> 'a list \<Rightarrow> 'a list res" where
  "vrange b e xs = (if b \<le> e \<and> e \<le> length xs then Inr (vslice b e xs) else Inl Undefined_behaviour)"

definition canonicalize_group ::
  "sparse_binary_matrix \<Rightarrow> nat \<Rightarrow> nat list \<times> nat list \<Rightarrow> (nat list \<times> nat list) res" where
  "canonicalize_group m g s =
     rbind (vrange (sbm_ptr m ! g) (sbm_ptr m ! (g + 1)) (sbm_idx m)) (\<lambda>scratch.
       let new_idx = snd s @ odd_runs (sort scratch)
       in Inr ((fst s)[g + 1 := u32 (length new_idx)], new_idx))"

definition canonicalize :: "sparse_binary_matrix \<Rightarrow> sparse_binary_matrix res" where
  "canonicalize m =
     (let n = num_groups m; new0 = (replicate (n + 1) 0, []) in
      rbind (if length (sbm_ptr m) = n + 1 then rfold (canonicalize_group m) [0..<n] new0 else Inr new0)
        (\<lambda>(new_ptr, new_idx).
           if sbm_layout m = CSC then from_csc (sbm_rows m) (sbm_cols m) new_ptr new_idx
           else from_csr (sbm_rows m) (sbm_cols m) new_ptr new_idx))"

text \<open>
  \<open>from_nested_csc\<close> and \<open>from_nested_csr\<close>: the pointer array is allocated with
  \<open>num_cols + 1\<close> (\<open>num_rows + 1\<close>) computed at 32 bits, then filled while the groups are
  flattened.
\<close>

definition flatten_group ::
  "string \<Rightarrow> string \<Rightarrow> nat \<Rightarrow> nat list list \<Rightarrow> nat \<Rightarrow> nat list \<times> nat list \<Rightarrow> (nat list \<times> nat list) res" where
  "flatten_group f K bound nested j s =
     rbind (vget nested j) (\<lambda>col.
     rbind (rfold (\<lambda>r acc. if bound \<le> r then Inl (Invalid_argument (f @ '': '' @ K @ '' index out of range''))
                           else Inr (acc @ [r])) col (snd s)) (\<lambda>idx.
     rbind (vset (fst s) (j + 1) (u32 (length idx))) (\<lambda>ptrs. Inr (ptrs, idx))))"

definition flatten_nested ::
  "string \<Rightarrow> string \<Rightarrow> string \<Rightarrow> nat \<Rightarrow> nat \<Rightarrow> nat list list \<Rightarrow> (nat list \<times> nat list) res" where
  "flatten_nested f D K n bound nested =
     (if length nested \<noteq> n then Inl (Invalid_argument (f @ '': nested.size() must equal '' @ D))
      else rbind (vset (replicate (u32 (n + 1)) 0) 0 0) (\<lambda>ptrs.
        rbind (throw_if_nnz_exceeds_index_range (sum_list (map length nested)) f) (\<lambda>_.
        rfold (flatten_group f K bound nested) [0..<n] (ptrs, []))))"

definition from_nested_csc :: "nat \<Rightarrow> nat \<Rightarrow> nat list list \<Rightarrow> sparse_binary_matrix res" where
  "from_nested_csc num_rows num_cols nested =
     rbind (flatten_nested ''sparse_binary_matrix::from_nested_csc'' ''num_cols'' ''row'' num_cols num_rows nested)
       (\<lambda>(ptrs, idx). Inr \<lparr>sbm_layout = CSC, sbm_rows = num_rows, sbm_cols = num_cols,
                            sbm_ptr = ptrs, sbm_idx = idx\<rparr>)"

definition from_nested_csr :: "nat \<Rightarrow> nat \<Rightarrow> nat list list \<Rightarrow> sparse_binary_matrix res" where
  "from_nested_csr num_rows num_cols nested =
     rbind (flatten_nested ''sparse_binary_matrix::from_nested_csr'' ''num_rows'' ''column'' num_rows num_cols nested)
       (\<lambda>(ptrs, idx). Inr \<lparr>sbm_layout = CSR, sbm_rows = num_rows, sbm_cols = num_cols,
                            sbm_ptr = ptrs, sbm_idx = idx\<rparr>)"

text \<open>Construction from a dense tensor: count, prefix sums, scatter.\<close>

definition dense_pairs :: "u8 tensor \<Rightarrow> nat \<Rightarrow> nat \<Rightarrow> sparse_layout \<Rightarrow> (nat \<times> nat) list" where
  "dense_pairs t nr nc lay =
     concat (map (\<lambda>r. map (\<lambda>c. if lay = CSC then (c, r) else (r, c))
                       (filter (\<lambda>c. ent t r c \<noteq> 0) [0..<nc])) [0..<nr])"

definition sparse_from_dense :: "u8 tensor \<Rightarrow> sparse_layout \<Rightarrow> sparse_binary_matrix res" where
  "sparse_from_dense t lay =
     (if tensor_rank t \<noteq> 2 then Inl (Invalid_argument ''sparse_binary_matrix: dense PCM tensor must have rank 2'')
      else let nr = shape t ! 0; nc = shape t ! 1; n = (if lay = CSC then nc else nr) in
      if max_u32 < nr \<or> max_u32 < nc
      then Inl (Invalid_argument ''sparse_binary_matrix: dense PCM dimensions exceed index_type range'')
      else if nr = 0 \<or> nc = 0
      then Inr \<lparr>sbm_layout = lay, sbm_rows = nr, sbm_cols = nc, sbm_ptr = replicate (n + 1) 0, sbm_idx = []\<rparr>
      else let kvs = dense_pairs t nr nc lay; nnz = count_keys n kvs in
        rbind (throw_if_nnz_exceeds_index_range (sum_list nnz)
                 (if lay = CSC then ''sparse_binary_matrix(dense,to CSC)'' else ''sparse_binary_matrix(dense,to CSR)'')) (\<lambda>_.
          let ptrs = prefix_ptrs nnz in
          Inr \<lparr>sbm_layout = lay, sbm_rows = nr, sbm_cols = nc, sbm_ptr = ptrs,
               sbm_idx = scatter ptrs (last ptrs) n kvs\<rparr>))"

text \<open>Change of layout: the same passes over the stored pairs.\<close>

definition swap_layout :: "sparse_binary_matrix \<Rightarrow> sparse_binary_matrix" where
  "swap_layout m =
     (let K = index_bound m; kvs = group_pairs (sbm_ptr m) (sbm_idx m) (num_groups m);
          ptrs = prefix_ptrs (count_keys K kvs)
      in \<lparr>sbm_layout = (if sbm_layout m = CSC then CSR else CSC), sbm_rows = sbm_rows m,
          sbm_cols = sbm_cols m, sbm_ptr = ptrs, sbm_idx = scatter ptrs (length (sbm_idx m)) K kvs\<rparr>)"

definition to_csc :: "sparse_binary_matrix \<Rightarrow> sparse_binary_matrix" where
  "to_csc m = (if sbm_layout m = CSC then m else swap_layout m)"

definition to_csr :: "sparse_binary_matrix \<Rightarrow> sparse_binary_matrix" where
  "to_csr m = (if sbm_layout m = CSR then m else swap_layout m)"

definition to_dense :: "sparse_binary_matrix \<Rightarrow> u8 tensor res" where
  "to_dense m =
     (let dense = tensor_new [sbm_rows m, sbm_cols m];
          kvs = group_pairs (sbm_ptr m) (sbm_idx m) (num_groups m);
          cells = map (\<lambda>(i, g). if sbm_layout m = CSC then (i, g) else (g, i)) kvs
      in if sbm_cols m = 0 then Inr dense
         else rfold (\<lambda>rc t. tensor_set t [fst rc, snd rc] 1) cells dense)"

definition push_groups :: "nat \<Rightarrow> (nat \<times> nat) list \<Rightarrow> nat list list" where
  "push_groups K kvs = fold (\<lambda>kv out. out[fst kv := out ! fst kv @ [snd kv]]) kvs (replicate K [])"

definition to_nested_csc :: "sparse_binary_matrix \<Rightarrow> nat list list" where
  "to_nested_csc m =
     (if sbm_layout m = CSC then groups_of (sbm_ptr m) (sbm_idx m) (sbm_cols m)
      else push_groups (sbm_cols m) (group_pairs (sbm_ptr m) (sbm_idx m) (sbm_rows m)))"

definition to_nested_csr :: "sparse_binary_matrix \<Rightarrow> nat list list" where
  "to_nested_csr m =
     (if sbm_layout m = CSR then groups_of (sbm_ptr m) (sbm_idx m) (sbm_rows m)
      else push_groups (sbm_rows m) (group_pairs (sbm_ptr m) (sbm_idx m) (sbm_cols m)))"

section \<open>Invariant and abstraction\<close>

definition groups :: "sparse_binary_matrix \<Rightarrow> nat list list" where
  "groups m = groups_of (sbm_ptr m) (sbm_idx m) (num_groups m)"

definition sbm_ok :: "sparse_binary_matrix \<Rightarrow> bool" where
  "sbm_ok m \<longleftrightarrow>
     ptr_ok (sbm_ptr m) (sbm_idx m) (num_groups m) \<and> (\<forall>i \<in> set (sbm_idx m). i < index_bound m) \<and>
     sbm_rows m \<le> max_u32 \<and> sbm_cols m \<le> max_u32 \<and> length (sbm_idx m) \<le> max_u32"

definition mult_at :: "sparse_binary_matrix \<Rightarrow> nat \<Rightarrow> nat \<Rightarrow> nat" where
  "mult_at m r c = (if sbm_layout m = CSC then count_list (groups m ! c) r else count_list (groups m ! r) c)"

definition canonical :: "sparse_binary_matrix \<Rightarrow> bool" where
  "canonical m \<longleftrightarrow> sbm_ok m \<and> (\<forall>g \<in> set (groups m). strictly_sorted g)"

section \<open>Groups\<close>

lemma length_groups [simp]: "length (groups m) = num_groups m"
  by (simp add: groups_def)

lemma sbm_okD:
  assumes "sbm_ok m"
  shows "ptr_ok (sbm_ptr m) (sbm_idx m) (num_groups m)" "\<And>i. i \<in> set (sbm_idx m) \<Longrightarrow> i < index_bound m"
    "sbm_rows m \<le> max_u32" "sbm_cols m \<le> max_u32" "length (sbm_idx m) \<le> max_u32"
  using assms by (auto simp: sbm_ok_def)

lemma set_group_bound: "sbm_ok m \<Longrightarrow> g < num_groups m \<Longrightarrow> i \<in> set (groups m ! g) \<Longrightarrow> i < index_bound m"
  using set_vslice_subset by (fastforce simp: groups_def dest: sbm_okD(2))

lemma groups_bound: "sbm_ok m \<Longrightarrow> g \<in> set (groups m) \<Longrightarrow> set g \<subseteq> {..<index_bound m}"
  by (auto simp: in_set_conv_nth [of g] dest: set_group_bound)

lemma length_group_pairs:
  assumes "ptr_ok ptr idx n"
  shows "length (group_pairs ptr idx n) = length idx"
proof -
  have "length (group_pairs ptr idx k) = ptr ! k" if "k \<le> n" for k
    using that
  proof (induction k)
    case 0 then show ?case using ptr_okD(2) [OF assms] by (simp add: group_pairs_def)
  next
    case (Suc k)
    then show ?case using ptr_ok_mono [OF assms, of k "Suc k"] by (simp add: group_pairs_def)
  qed
  from this [of n] ptr_okD(4) [OF assms] show ?thesis by simp
qed

lemma group_pairs_bound:
  assumes "sbm_ok m" and "kv \<in> set (group_pairs (sbm_ptr m) (sbm_idx m) (num_groups m))"
  shows "fst kv < index_bound m" "snd kv < num_groups m" "fst kv \<in> set (groups m ! snd kv)"
  using assms(2) set_group_bound [OF assms(1)]
  by (auto simp: group_pairs_groups [OF sbm_okD(1) [OF assms(1)]] groups_def)

lemma nested_ptrs:
  shows "ptr_ok (prefix_ptrs (map length gs)) (concat gs) (length gs)"
    and "groups_of (prefix_ptrs (map length gs)) (concat gs) (length gs) = gs"
proof -
  show ok: "ptr_ok (prefix_ptrs (map length gs)) (concat gs) (length gs)"
    by (simp add: ptr_ok_def sorted_prefix_ptrs nth_prefix_ptrs length_concat)
  have at: "prefix_ptrs (map length gs) ! k = length (concat (take k gs))" if "k \<le> length gs" for k
    using that by (simp add: nth_prefix_ptrs length_concat take_map)
  have "vslice (prefix_ptrs (map length gs) ! k) (prefix_ptrs (map length gs) ! (k + 1)) (concat gs) = gs ! k"
    if k: "k < length gs" for k
  proof -
    have "concat gs = concat (take k gs) @ gs ! k @ concat (drop (Suc k) gs)"
      by (metis k append_take_drop_id Cons_nth_drop_Suc concat.simps(2) concat_append)
    then show ?thesis using k at [of k] at [of "k + 1"]
      by (simp add: vslice_def take_Suc_conv_app_nth)
  qed
  then show "groups_of (prefix_ptrs (map length gs)) (concat gs) (length gs) = gs"
    by (intro nth_equalityI) simp_all
qed

text \<open>
  Appending group after group while recording the running length at the next pointer slot
  yields the compressed form of the groups.
\<close>

lemma build_groups:
  assumes "sum_list (map length gs) \<le> max_u32"
    and step: "\<And>k s. k < length gs \<Longrightarrow> length (fst s) = length gs + 1 \<Longrightarrow>
       step k s = Inr ((fst s)[k + 1 := u32 (length (snd s @ gs ! k))], snd s @ gs ! k)"
  shows "rfold step [0..<length gs] (replicate (length gs + 1) 0, [])
    = Inr (prefix_ptrs (map length gs), concat gs)"
proof -
  let ?n = "length gs" and ?P = "prefix_ptrs (map length gs)"
  have at: "?P ! k = length (concat (take k gs))" if "k \<le> ?n" for k
    using that by (simp add: nth_prefix_ptrs length_concat take_map)
  have le: "length (concat (take k gs)) \<le> max_u32" for k
  proof -
    have "length (concat (take k gs)) \<le> length (concat gs)"
      by (metis append_take_drop_id concat_append length_append le_add1)
    then show ?thesis using assms(1) by (simp add: length_concat)
  qed
  have "rfold step [0..<k] (replicate (?n + 1) 0, [])
      = Inr (take (k + 1) ?P @ replicate (?n - k) 0, concat (take k gs))" if "k \<le> ?n" for k
    using that
  proof (induction k)
    case 0
    have "?P = 0 # tl ?P" by (simp add: prefix_ptrs_def list.expand hd_conv_nth nth_prefix_from length_0_conv [symmetric] del: length_0_conv)
    then have "take 1 ?P = [0]" by (metis One_nat_def take_Suc_Cons take0)
    then show ?case by simp
  next
    case (Suc k)
    let ?ps = "take (k + 1) ?P @ replicate (?n - k) 0"
    have len: "length ?ps = ?n + 1" using Suc.prems by simp
    have "concat (take k gs) @ gs ! k = concat (take (Suc k) gs)"
      using Suc.prems by (simp add: take_Suc_conv_app_nth)
    moreover have "?ps[k + 1 := ?P ! (k + 1)] = take (k + 2) ?P @ replicate (?n - Suc k) 0"
      using Suc.prems
      by (simp add: list_update_append take_Suc_conv_app_nth [of "Suc k"] Suc_diff_Suc [symmetric])
    ultimately show ?case
      using Suc step [of k "(?ps, concat (take k gs))"] len at [of "k + 1"] le [of "k + 1"]
      by (simp add: rfold_append)
  qed
  from this [of ?n] show ?thesis by simp
qed

section \<open>Constructors\<close>

lemma ptr_ok_iff_step:
  "length ptr = n + 1 \<Longrightarrow>
   sorted ptr \<longleftrightarrow> \<not> list_ex (\<lambda>j. ptr ! j < ptr ! (j - 1)) [1..<n + 1]" for ptr :: "nat list"
proof -
  assume len: "length ptr = n + 1"
  have "sorted ptr \<longleftrightarrow> (\<forall>i. Suc i < length ptr \<longrightarrow> ptr ! i \<le> ptr ! Suc i)"
    by (rule sorted_iff_nth_Suc)
  also have "\<dots> \<longleftrightarrow> (\<forall>j \<in> {1..<n + 1}. ptr ! (j - 1) \<le> ptr ! j)"
    using len by (auto simp: Ball_def) (metis Suc_le_eq Suc_pred diff_Suc_Suc diff_zero less_Suc_eq_le)
  finally show ?thesis by (auto simp: list_ex_iff not_less)
qed

lemma check_compressed_iff:
  "check_compressed f P D I K n bound ptr idx = Inr () \<longleftrightarrow>
   ptr_ok ptr idx n \<and> length idx \<le> max_u32 \<and> (\<forall>i \<in> set idx. i < bound)"
proof (cases "length ptr = n + 1")
  case True
  then have hd: "hd ptr = ptr ! 0" and last: "last ptr = ptr ! n"
    by (auto simp: hd_conv_nth last_conv_nth simp flip: length_greater_0_conv)
  have range: "list_ex (\<lambda>i. bound \<le> i) idx \<longleftrightarrow> \<not> (\<forall>i \<in> set idx. i < bound)"
    by (auto simp: list_ex_iff not_less)
  have steps: "list_ex (\<lambda>j. ptr ! j < ptr ! (j - 1)) [1..<n + 1] \<longleftrightarrow> \<not> sorted ptr"
    using ptr_ok_iff_step [OF True] by blast
  show ?thesis
    unfolding check_compressed_def throw_if_nnz_exceeds_index_range_def ptr_ok_def hd last range steps
    by (cases "length idx \<le> max_u32") (auto simp add: True)
qed (simp add: check_compressed_def ptr_ok_def)

lemma check_compressed_unit: "check_compressed f P D I K n bound ptr idx = Inr u \<longleftrightarrow> check_compressed f P D I K n bound ptr idx = Inr ()"
  by simp

lemma from_csc_iff:
  assumes "num_rows \<le> max_u32" "num_cols \<le> max_u32"
  shows "from_csc num_rows num_cols p i = Inr m \<longleftrightarrow>
    m = \<lparr>sbm_layout = CSC, sbm_rows = num_rows, sbm_cols = num_cols, sbm_ptr = p, sbm_idx = i\<rparr> \<and> sbm_ok m"
  using assms by (auto simp: from_csc_def rbind_Inr_iff check_compressed_iff sbm_ok_def num_groups_def index_bound_def)

lemma from_csr_iff:
  assumes "num_rows \<le> max_u32" "num_cols \<le> max_u32"
  shows "from_csr num_rows num_cols p i = Inr m \<longleftrightarrow>
    m = \<lparr>sbm_layout = CSR, sbm_rows = num_rows, sbm_cols = num_cols, sbm_ptr = p, sbm_idx = i\<rparr> \<and> sbm_ok m"
  using assms by (auto simp: from_csr_def rbind_Inr_iff check_compressed_iff sbm_ok_def num_groups_def index_bound_def)

lemma flatten_group_step:
  assumes "j < length nested" "\<forall>r \<in> set (nested ! j). r < bound" "j + 1 < length (fst s)"
  shows "flatten_group f K bound nested j s
    = Inr ((fst s)[j + 1 := u32 (length (snd s @ nested ! j))], snd s @ nested ! j)"
proof -
  have "rfold (\<lambda>r acc. if bound \<le> r then Inl (Invalid_argument (f @ '': '' @ K @ '' index out of range''))
      else Inr (acc @ [r])) col acc = Inr (acc @ col)" if "\<forall>r \<in> set col. r < bound" for col acc
    using that by (induction col arbitrary: acc) auto
  with assms show ?thesis by (simp add: flatten_group_def)
qed

lemma flatten_nested_ok:
  assumes "length nested = n" "n < max_u32" "sum_list (map length nested) \<le> max_u32"
    and "\<forall>g \<in> set nested. \<forall>r \<in> set g. r < bound"
  shows "flatten_nested f D K n bound nested = Inr (prefix_ptrs (map length nested), concat nested)"
proof -
  have "rfold (flatten_group f K bound nested) [0..<length nested] (replicate (length nested + 1) 0, [])
      = Inr (prefix_ptrs (map length nested), concat nested)"
    by (rule build_groups [OF assms(3)], rule flatten_group_step)
      (use assms(4) in \<open>auto dest: nth_mem\<close>)
  moreover have "(replicate (n + 1) (0::nat))[0 := 0] = replicate (n + 1) 0" by simp
  ultimately show ?thesis
    using assms(1-3) by (simp add: flatten_nested_def throw_if_nnz_exceeds_index_range_def)
qed

lemma from_nested_csc_groups:
  assumes "length nested = num_cols" "num_cols < max_u32" "num_rows \<le> max_u32"
    and "sum_list (map length nested) \<le> max_u32" "\<forall>g \<in> set nested. \<forall>r \<in> set g. r < num_rows"
  shows "\<exists>m. from_nested_csc num_rows num_cols nested = Inr m \<and> sbm_ok m \<and> sbm_layout m = CSC \<and>
    sbm_rows m = num_rows \<and> sbm_cols m = num_cols \<and> groups m = nested"
  using assms nested_ptrs [of nested]
  by (auto simp: from_nested_csc_def flatten_nested_ok sbm_ok_def groups_def num_groups_def
      index_bound_def length_concat)

lemma from_nested_csr_groups:
  assumes "length nested = num_rows" "num_rows < max_u32" "num_cols \<le> max_u32"
    and "sum_list (map length nested) \<le> max_u32" "\<forall>g \<in> set nested. \<forall>r \<in> set g. r < num_cols"
  shows "\<exists>m. from_nested_csr num_rows num_cols nested = Inr m \<and> sbm_ok m \<and> sbm_layout m = CSR \<and>
    sbm_rows m = num_rows \<and> sbm_cols m = num_cols \<and> groups m = nested"
  using assms nested_ptrs [of nested]
  by (auto simp: from_nested_csr_def flatten_nested_ok sbm_ok_def groups_def num_groups_def
      index_bound_def length_concat)

section \<open>Change of layout\<close>

lemma groups_swap_layout:
  assumes "sbm_ok m"
  shows "groups (swap_layout m) = transpose_groups (index_bound m) (groups m)"
    and "sbm_ok (swap_layout m)"
proof -
  let ?K = "index_bound m" and ?kvs = "group_pairs (sbm_ptr m) (sbm_idx m) (num_groups m)"
  have keys: "\<forall>kv \<in> set ?kvs. fst kv < ?K" using group_pairs_bound(1) [OF assms] by blast
  have len: "length ?kvs = length (sbm_idx m)" by (rule length_group_pairs [OF sbm_okD(1) [OF assms]])
  note sc = scatter_groups [OF keys, unfolded len]
  have n: "num_groups (swap_layout m) = ?K" and b: "index_bound (swap_layout m) = num_groups m"
    by (cases "sbm_layout m"; simp add: swap_layout_def num_groups_def index_bound_def Let_def)+
  have ptr: "sbm_ptr (swap_layout m) = prefix_ptrs (count_keys ?K ?kvs)"
    and idx: "sbm_idx (swap_layout m) =
      scatter (prefix_ptrs (count_keys ?K ?kvs)) (length (sbm_idx m)) ?K ?kvs"
    by (simp_all add: swap_layout_def Let_def)
  have "groups (swap_layout m) = map (\<lambda>k. vals k ?kvs) [0..<?K]"
    unfolding groups_def n ptr idx by (rule sc(2))
  also have "\<dots> = transpose_groups ?K (groups m)"
    by (rule nth_equalityI)
      (simp_all add: vals_group_pairs [OF sbm_okD(1) [OF assms], of _ ?K] groups_def)
  finally show "groups (swap_layout m) = transpose_groups ?K (groups m)" .
  have "\<forall>i \<in> set (sbm_idx (swap_layout m)). i < num_groups m"
    using sc(3) group_pairs_bound(2) [OF assms] unfolding idx by fastforce
  moreover have "length (sbm_idx (swap_layout m)) = length (sbm_idx m)"
    using ptr_okD(4) [OF sc(1)] prefix_count_last [OF keys] len unfolding idx by simp
  moreover have "sbm_rows (swap_layout m) = sbm_rows m" "sbm_cols (swap_layout m) = sbm_cols m"
    by (simp_all add: swap_layout_def Let_def)
  ultimately show "sbm_ok (swap_layout m)"
    unfolding sbm_ok_def n b using sc(1) sbm_okD(3-5) [OF assms] by (simp add: ptr idx)
qed

lemma swap_layout_fields [simp]:
  "sbm_rows (swap_layout m) = sbm_rows m" "sbm_cols (swap_layout m) = sbm_cols m"
  "sbm_layout (swap_layout m) = (if sbm_layout m = CSC then CSR else CSC)"
  by (simp_all add: swap_layout_def Let_def)

lemma mult_swap_layout:
  assumes "sbm_ok m" "r < sbm_rows m" "c < sbm_cols m"
  shows "mult_at (swap_layout m) r c = mult_at m r c"
  using assms by (cases "sbm_layout m")
    (simp_all add: mult_at_def groups_swap_layout count_transpose_groups num_groups_def index_bound_def)

lemma sorted_swap_layout:
  "sbm_ok m \<Longrightarrow> g \<in> set (groups (swap_layout m)) \<Longrightarrow> sorted g"
  by (auto simp: groups_swap_layout in_set_conv_nth [of g] sorted_transpose_groups)

lemma to_csc_props:
  assumes "sbm_ok m"
  shows "sbm_ok (to_csc m)" "sbm_layout (to_csc m) = CSC"
    "sbm_rows (to_csc m) = sbm_rows m" "sbm_cols (to_csc m) = sbm_cols m"
    "\<And>r c. r < sbm_rows m \<Longrightarrow> c < sbm_cols m \<Longrightarrow> mult_at (to_csc m) r c = mult_at m r c"
  using assms by (auto simp: to_csc_def groups_swap_layout mult_swap_layout
      intro: sparse_layout.exhaust [of "sbm_layout m"])

lemma to_csr_props:
  assumes "sbm_ok m"
  shows "sbm_ok (to_csr m)" "sbm_layout (to_csr m) = CSR"
    "sbm_rows (to_csr m) = sbm_rows m" "sbm_cols (to_csr m) = sbm_cols m"
    "\<And>r c. r < sbm_rows m \<Longrightarrow> c < sbm_cols m \<Longrightarrow> mult_at (to_csr m) r c = mult_at m r c"
  using assms by (cases "sbm_layout m"; simp add: to_csr_def groups_swap_layout mult_swap_layout)+

section \<open>Canonicalisation and validation\<close>

lemma canonicalize_group_step:
  assumes "sbm_ok m" "g < num_groups m"
  shows "canonicalize_group m g s = Inr ((fst s)[g + 1 := u32 (length (snd s @ odd_runs (sort (groups m ! g))))],
    snd s @ odd_runs (sort (groups m ! g)))"
  using assms ptr_ok_mono [OF sbm_okD(1) [OF assms(1)], of g "g + 1"]
    ptr_ok_bound [OF sbm_okD(1) [OF assms(1)], of "g + 1"]
  by (simp add: canonicalize_group_def vrange_def groups_def Let_def)

lemma length_odd_runs: "length (odd_runs xs) \<le> length xs"
proof (induction xs rule: odd_runs_induct)
  case (2 v xs)
  then show ?case using length_dropWhile_le [of "\<lambda>x. x = v" xs] by (auto simp: Let_def)
qed simp

lemma sum_odd_runs_le:
  "sum_list (map length (map (\<lambda>g. odd_runs (sort g)) gs)) \<le> sum_list (map length gs)"
proof (induction gs)
  case (Cons g gs)
  then show ?case using length_odd_runs [of "sort g"] by simp
qed simp

lemma sum_length_groups: "sbm_ok m \<Longrightarrow> sum_list (map length (groups m)) = length (sbm_idx m)"
proof -
  assume ok: "sbm_ok m"
  have "length (group_pairs (sbm_ptr m) (sbm_idx m) (num_groups m)) =
      sum_list (map length (map (\<lambda>g. groups m ! g) [0..<num_groups m]))"
    by (simp add: group_pairs_groups [OF sbm_okD(1) [OF ok]] length_concat groups_def o_def)
  moreover have "map (\<lambda>g. groups m ! g) [0..<num_groups m] = groups m"
    by (metis length_groups map_nth)
  ultimately show ?thesis by (simp add: length_group_pairs [OF sbm_okD(1) [OF ok]])
qed

text \<open>The result of canonicalisation: the same shape with every group GF(2)-reduced.\<close>

definition reduced :: "sparse_binary_matrix \<Rightarrow> sparse_binary_matrix" where
  "reduced m = (let gs = map (\<lambda>g. odd_runs (sort g)) (groups m)
     in m\<lparr>sbm_ptr := prefix_ptrs (map length gs), sbm_idx := concat gs\<rparr>)"

lemma reduced_props:
  assumes "sbm_ok m"
  shows "groups (reduced m) = map (\<lambda>g. odd_runs (sort g)) (groups m)" "sbm_ok (reduced m)"
    "sbm_layout (reduced m) = sbm_layout m" "sbm_rows (reduced m) = sbm_rows m"
    "sbm_cols (reduced m) = sbm_cols m"
proof -
  let ?gs = "map (\<lambda>g. odd_runs (sort g)) (groups m)"
  have f: "num_groups (reduced m) = length ?gs" "index_bound (reduced m) = index_bound m"
    "sbm_ptr (reduced m) = prefix_ptrs (map length ?gs)" "sbm_idx (reduced m) = concat ?gs"
    by (simp_all add: reduced_def num_groups_def index_bound_def Let_def)
  show "groups (reduced m) = ?gs" unfolding groups_def f by (rule nested_ptrs(2))
  show "sbm_layout (reduced m) = sbm_layout m" "sbm_rows (reduced m) = sbm_rows m"
    "sbm_cols (reduced m) = sbm_cols m" by (simp_all add: reduced_def Let_def)
  have "\<forall>i \<in> set (concat ?gs). i < index_bound m"
    using groups_bound [OF assms] set_odd_runs_subset by fastforce
  moreover have "length (concat ?gs) \<le> max_u32"
    using sum_odd_runs_le [of "groups m"] sum_length_groups [OF assms] sbm_okD(5) [OF assms]
    by (simp add: length_concat)
  ultimately show "sbm_ok (reduced m)"
    unfolding sbm_ok_def f(1,2) using nested_ptrs(1) [of ?gs] sbm_okD(3,4) [OF assms]
    by (simp add: reduced_def Let_def)
qed

lemma canonicalize_eq_reduced:
  assumes "sbm_ok m"
  shows "canonicalize m = Inr (reduced m)"
proof -
  let ?gs = "map (\<lambda>g. odd_runs (sort g)) (groups m)"
  have "rfold (canonicalize_group m) [0..<length ?gs] (replicate (length ?gs + 1) 0, [])
      = Inr (prefix_ptrs (map length ?gs), concat ?gs)"
  proof (rule build_groups)
    show "sum_list (map length ?gs) \<le> max_u32"
      using sum_odd_runs_le [of "groups m"] sum_length_groups [OF assms] sbm_okD(5) [OF assms] by simp
  qed (simp add: canonicalize_group_step [OF assms])
  moreover have "length (sbm_ptr m) = num_groups m + 1" using ptr_okD(1) [OF sbm_okD(1) [OF assms]] .
  moreover have "sbm_layout m = CSC \<Longrightarrow>
      from_csc (sbm_rows m) (sbm_cols m) (prefix_ptrs (map length ?gs)) (concat ?gs) = Inr (reduced m)"
    using reduced_props [OF assms]
    by (subst from_csc_iff) (auto simp: sbm_okD [OF assms] reduced_def Let_def)
  moreover have "sbm_layout m \<noteq> CSC \<Longrightarrow>
      from_csr (sbm_rows m) (sbm_cols m) (prefix_ptrs (map length ?gs)) (concat ?gs) = Inr (reduced m)"
    using reduced_props [OF assms] by (cases "sbm_layout m")
      (simp, subst from_csr_iff, auto simp: sbm_okD [OF assms] reduced_def Let_def)
  ultimately show ?thesis by (simp add: canonicalize_def Let_def)
qed

lemma canonical_reduced: "sbm_ok m \<Longrightarrow> canonical (reduced m)"
  by (auto simp: canonical_def reduced_props strictly_sorted_odd_runs)

lemma mult_reduced:
  assumes "sbm_ok m" "r < sbm_rows m" "c < sbm_cols m"
  shows "mult_at (reduced m) r c = mult_at m r c mod 2"
proof -
  have cnt: "count_list (odd_runs (sort g)) x = count_list g x mod 2" for g x
    by (simp add: count_odd_runs) (metis count_mset mset_sort)
  show ?thesis using assms
    by (cases "sbm_layout m") (simp_all add: mult_at_def reduced_props cnt num_groups_def)
qed

lemma reduced_canonical: "canonical m \<Longrightarrow> groups (reduced m) = groups m"
proof -
  assume c: "canonical m"
  then have "odd_runs (sort g) = g" if "g \<in> set (groups m)" for g
    using that by (simp add: canonical_def strictly_sorted_imp_sorted sorted_sort_id odd_runs_strictly_sorted)
  then show ?thesis using c by (simp add: canonical_def reduced_props map_idI)
qed

lemma sbm_eqI:
  assumes "sbm_ok m" "sbm_ok m'" "groups m = groups m'" "sbm_layout m = sbm_layout m'"
    "sbm_rows m = sbm_rows m'" "sbm_cols m = sbm_cols m'"
  shows "m = (m' :: sparse_binary_matrix)"
proof -
  have n: "num_groups m = num_groups m'" using assms by (simp add: num_groups_def)
  have concat: "sbm_idx x = concat (groups x)" if "sbm_ok x" for x
  proof -
    note ok = sbm_okD(1) [OF that]
    have "concat (map (\<lambda>g. vslice (sbm_ptr x ! g) (sbm_ptr x ! (g + 1)) (sbm_idx x)) [0..<k])
        = take (sbm_ptr x ! k) (sbm_idx x)" if "k \<le> num_groups x" for k
      using that
    proof (induction k)
      case 0 then show ?case using ptr_okD(2) [OF ok] by simp
    next
      case (Suc k)
      then show ?case using ptr_ok_mono [OF ok, of k "Suc k"]
        by (simp add: vslice_def take_add [symmetric])
    qed
    from this [of "num_groups x"] show ?thesis using ptr_okD(4) [OF ok] by (simp add: groups_def groups_of_def)
  qed
  have "sbm_ptr m = sbm_ptr m'"
  proof (rule nth_equalityI)
    show "length (sbm_ptr m) = length (sbm_ptr m')"
      using sbm_okD(1) [OF assms(1)] sbm_okD(1) [OF assms(2)] n by (simp add: ptr_ok_def)
    have "sbm_ptr m ! k = sbm_ptr m' ! k" if "k \<le> num_groups m" for k
      using that
    proof (induction k)
      case 0 then show ?case using sbm_okD(1) [OF assms(1)] sbm_okD(1) [OF assms(2)] by (simp add: ptr_ok_def)
    next
      case (Suc k)
      have "length (groups x ! k) = sbm_ptr x ! Suc k - sbm_ptr x ! k" "sbm_ptr x ! k \<le> sbm_ptr x ! Suc k"
        if "sbm_ok x" "k < num_groups x" for x
        using that ptr_ok_bound [OF sbm_okD(1) [OF that(1)], of "Suc k"]
          ptr_ok_mono [OF sbm_okD(1) [OF that(1)], of k "Suc k"] by (simp_all add: groups_def)
      from this [OF assms(1)] this [OF assms(2)] Suc assms(3) n show ?case by simp
    qed
    then show "sbm_ptr m ! i = sbm_ptr m' ! i" if "i < length (sbm_ptr m)" for i
      using that ptr_okD(1) [OF sbm_okD(1) [OF assms(1)]] by simp
  qed
  with concat assms show ?thesis by simp
qed

lemma checked_group_iff:
  assumes "e \<le> length idx"
  shows "(\<forall>p \<in> {b..<e}. idx ! p < bound \<and> (b < p \<longrightarrow> idx ! (p - 1) < idx ! p)) \<longleftrightarrow>
    set (vslice b e idx) \<subseteq> {..<bound} \<and> strictly_sorted (vslice b e idx)" (is "?L \<longleftrightarrow> ?R")
proof -
  have "strictly_sorted (vslice b e idx) \<longleftrightarrow>
      (\<forall>t. Suc t < e - b \<longrightarrow> idx ! (b + t) < idx ! (b + Suc t))"
    using assms by (subst sorted_wrt_iff_nth_Suc_transp) auto
  also have "\<dots> \<longleftrightarrow> (\<forall>p \<in> {b..<e}. b < p \<longrightarrow> idx ! (p - 1) < idx ! p)"
  proof (intro iffI ballI impI allI)
    fix p assume a: "\<forall>t. Suc t < e - b \<longrightarrow> idx ! (b + t) < idx ! (b + Suc t)" "p \<in> {b..<e}" "b < p"
    then show "idx ! (p - 1) < idx ! p" using a(1) [rule_format, of "p - 1 - b"] by auto
  next
    fix t assume a: "\<forall>p \<in> {b..<e}. b < p \<longrightarrow> idx ! (p - 1) < idx ! p" "Suc t < e - b"
    then show "idx ! (b + t) < idx ! (b + Suc t)" using a(1) [rule_format, of "b + Suc t"] by auto
  qed
  finally have st: "strictly_sorted (vslice b e idx) \<longleftrightarrow>
      (\<forall>p \<in> {b..<e}. b < p \<longrightarrow> idx ! (p - 1) < idx ! p)" .
  have "set (vslice b e idx) = (\<lambda>p. idx ! p) ` {b..<e}" using assms by (simp add: vslice_eq_map)
  then show ?thesis unfolding st by auto
qed

definition checked_groups :: "sparse_binary_matrix \<Rightarrow> bool" where
  "checked_groups m \<longleftrightarrow>
     ptr_ok (sbm_ptr m) (sbm_idx m) (num_groups m) \<and>
     (\<forall>g \<in> set (groups m). strictly_sorted g \<and> set g \<subseteq> {..<index_bound m})"

lemma validate_index_iff:
  "validate_index w k bound b idx p = Inr () \<longleftrightarrow> idx ! p < bound \<and> (b < p \<longrightarrow> idx ! (p - 1) < idx ! p)"
  by (auto simp: validate_index_def)

lemma validate_group_iff:
  "validate_group where_msg group_name bound ptr idx g = Inr () \<longleftrightarrow> ptr ! g \<le> ptr ! (g + 1) \<and> ptr ! (g + 1) \<le> length idx \<and>
     (\<forall>p \<in> {ptr ! g..<ptr ! (g + 1)}. idx ! p < bound \<and> (ptr ! g < p \<longrightarrow> idx ! (p - 1) < idx ! p))"
  by (auto simp: validate_group_def Let_def rfold_unit_iff [of _ _ "()"] validate_index_iff)

lemma validate_iff_checked:
  "validate_sorted_unique_indices ctx m = Inr () \<longleftrightarrow>
   (num_groups m = 0 \<and> sbm_ptr m = [] \<and> sbm_idx m = []) \<or> checked_groups m"
proof (cases "length (sbm_ptr m) = num_groups m + 1")
  case False
  then show ?thesis by (auto simp: validate_sorted_unique_indices_def checked_groups_def ptr_ok_def Let_def)
next
  case True
  let ?n = "num_groups m" and ?ptr = "sbm_ptr m" and ?idx = "sbm_idx m"
  have hd: "hd ?ptr = ?ptr ! 0" and last: "last ?ptr = ?ptr ! ?n" and ne: "?ptr \<noteq> []"
    using True by (auto simp: hd_conv_nth last_conv_nth simp flip: length_greater_0_conv)
  have loop: "validate_sorted_unique_indices ctx m = Inr () \<longleftrightarrow>
      ?ptr ! 0 = 0 \<and> ?ptr ! ?n = length ?idx \<and>
      (\<forall>g < ?n. ?ptr ! g \<le> ?ptr ! (g + 1) \<and> ?ptr ! (g + 1) \<le> length ?idx \<and>
        (\<forall>p \<in> {?ptr ! g..<?ptr ! (g + 1)}. ?idx ! p < index_bound m \<and>
           (?ptr ! g < p \<longrightarrow> ?idx ! (p - 1) < ?idx ! p)))"
    unfolding validate_sorted_unique_indices_def Let_def hd last
    by (simp add: True ne rfold_unit_iff [of _ _ "()"] validate_group_iff Ball_def)
  have sorted: "sorted ?ptr \<longleftrightarrow> (\<forall>g < ?n. ?ptr ! g \<le> ?ptr ! (g + 1))"
    by (simp add: sorted_iff_nth_Suc True)
  have groups: "(\<forall>g \<in> set (groups m). P g) \<longleftrightarrow> (\<forall>g < ?n. P (vslice (?ptr ! g) (?ptr ! (g + 1)) ?idx))" for P
    by (simp add: all_set_conv_all_nth groups_def)
  show ?thesis
  proof (cases "sorted ?ptr \<and> ?ptr ! ?n = length ?idx \<and> ?ptr ! 0 = 0")
    case False
    then show ?thesis unfolding loop checked_groups_def ptr_ok_def sorted using ne by auto
  next
    case ok: True
    then have "ptr_ok ?ptr ?idx ?n" using True by (simp add: ptr_ok_def)
    then have bound: "?ptr ! (g + 1) \<le> length ?idx" "?ptr ! g \<le> ?ptr ! (g + 1)" if "g < ?n" for g
      using ptr_ok_bound ptr_ok_mono that by simp_all
    have "(\<forall>g < ?n. ?ptr ! g \<le> ?ptr ! (g + 1) \<and> ?ptr ! (g + 1) \<le> length ?idx \<and>
        (\<forall>p \<in> {?ptr ! g..<?ptr ! (g + 1)}. ?idx ! p < index_bound m \<and>
           (?ptr ! g < p \<longrightarrow> ?idx ! (p - 1) < ?idx ! p))) \<longleftrightarrow>
      (\<forall>g < ?n. strictly_sorted (vslice (?ptr ! g) (?ptr ! (g + 1)) ?idx) \<and>
         set (vslice (?ptr ! g) (?ptr ! (g + 1)) ?idx) \<subseteq> {..<index_bound m})"
      using bound checked_group_iff [of _ ?idx _ "index_bound m"] by meson
    with ok True ne show ?thesis unfolding loop checked_groups_def ptr_ok_def groups by simp
  qed
qed

section \<open>Dense and nested forms\<close>

lemma count_list_filter_upt: "count_list (filter P [0..<n]) x = (if x < n \<and> P x then 1 else 0)"
  by (induction n) auto

lemma vals_dense_pairs:
  "vals k (dense_pairs t nr nc CSC) = filter (\<lambda>r. k < nc \<and> ent t r k \<noteq> 0) [0..<nr]"
  "vals k (dense_pairs t nr nc CSR) = (if k < nr then filter (\<lambda>c. ent t k c \<noteq> 0) [0..<nc] else [])"
proof -
  show "vals k (dense_pairs t nr nc CSC) = filter (\<lambda>r. k < nc \<and> ent t r k \<noteq> 0) [0..<nr]"
    by (induction nr) (auto simp: dense_pairs_def vals_tagged count_list_filter_upt)
  have "vals k (map (\<lambda>c. (r, c)) xs) = (if r = k then xs else [])" for r and xs :: "nat list"
    by (induction xs) auto
  then show "vals k (dense_pairs t nr nc CSR) = (if k < nr then filter (\<lambda>c. ent t k c \<noteq> 0) [0..<nc] else [])"
    by (induction nr) (auto simp: dense_pairs_def)
qed

lemma dense_pairs_keys:
  "\<forall>kv \<in> set (dense_pairs t nr nc lay). fst kv < (if lay = CSC then nc else nr) \<and>
     snd kv < (if lay = CSC then nr else nc)"
  by (auto simp: dense_pairs_def)

lemma length_dense_pairs: "length (dense_pairs t nr nc lay) \<le> nr * nc"
proof (induction nr)
  case (Suc nr)
  have "length (filter (\<lambda>c. ent t nr c \<noteq> 0) [0..<nc]) \<le> nc"
    using length_filter_le [of "\<lambda>c. ent t nr c \<noteq> 0" "[0..<nc]"] by simp
  with Suc show ?case by (simp add: dense_pairs_def)
qed (simp add: dense_pairs_def)

lemma sum_count_keys:
  "\<forall>kv \<in> set kvs. fst kv < K \<Longrightarrow> sum_list (count_keys K kvs) = length kvs"
  using prefix_count_last [of kvs K] by (simp add: nth_prefix_ptrs)

lemma sparse_from_dense_ok:
  assumes "is_mat t nr nc" "nr \<le> max_u32" "nc \<le> max_u32" "length (dense_pairs t nr nc lay) \<le> max_u32"
  shows "\<exists>m. sparse_from_dense t lay = Inr m \<and> canonical m \<and> sbm_layout m = lay \<and> sbm_rows m = nr \<and>
    sbm_cols m = nc \<and> (\<forall>r<nr. \<forall>c<nc. mult_at m r c = (if ent t r c \<noteq> 0 then 1 else 0))"
proof (cases "nr = 0 \<or> nc = 0")
  case True
  let ?n = "if lay = CSC then nc else nr"
  define m where "m = \<lparr>sbm_layout = lay, sbm_rows = nr, sbm_cols = nc, sbm_ptr = replicate (?n + 1) 0, sbm_idx = []\<rparr>"
  have "sparse_from_dense t lay = Inr m"
    using assms True by (simp add: sparse_from_dense_def is_mat_def tensor_rank_def Let_def m_def)
  moreover have "sbm_ok m" using assms(2,3)
    by (auto simp: sbm_ok_def num_groups_def ptr_ok_def sorted_replicate m_def simp del: replicate.simps)
  moreover have "\<forall>g \<in> set (groups m). strictly_sorted g"
    by (auto simp: groups_def groups_of_def vslice_def m_def)
  ultimately show ?thesis using True by (intro exI [of _ m]) (auto simp: canonical_def, auto simp: m_def)
next
  case False
  let ?n = "if lay = CSC then nc else nr" and ?kvs = "dense_pairs t nr nc lay"
  let ?ptrs = "prefix_ptrs (count_keys ?n ?kvs)"
  define m where "m = \<lparr>sbm_layout = lay, sbm_rows = nr, sbm_cols = nc, sbm_ptr = ?ptrs,
     sbm_idx = scatter ?ptrs (length ?kvs) ?n ?kvs\<rparr>"
  have keys: "\<forall>kv \<in> set ?kvs. fst kv < ?n" using dense_pairs_keys by blast
  note sc = scatter_groups [OF keys]
  have last: "last ?ptrs = length ?kvs"
    using prefix_count_last [OF keys] by (simp add: last_conv_nth flip: length_greater_0_conv)
  have "sparse_from_dense t lay = Inr m"
    using assms False last sum_count_keys [OF keys]
    by (simp add: sparse_from_dense_def is_mat_def tensor_rank_def Let_def throw_if_nnz_exceeds_index_range_def m_def)
  moreover have n: "num_groups m = ?n" by (simp add: num_groups_def m_def)
  have gs: "groups m = map (\<lambda>k. vals k ?kvs) [0..<?n]"
    unfolding groups_def n using sc(2) by (simp add: m_def)
  have "\<forall>i \<in> set (sbm_idx m). i < index_bound m"
    using sc(3) dense_pairs_keys [of t nr nc lay] by (fastforce simp: index_bound_def m_def)
  moreover have "length (sbm_idx m) = length ?kvs"
    using ptr_okD(4) [OF sc(1)] prefix_count_last [OF keys] by (simp add: m_def)
  moreover have "ptr_ok (sbm_ptr m) (sbm_idx m) ?n" "sbm_rows m = nr" "sbm_cols m = nc"
    using sc(1) by (simp_all add: m_def)
  ultimately have "sbm_ok m" using assms(2-4) by (simp add: sbm_ok_def n)
  moreover have "strictly_sorted (vals k ?kvs)" for k
    by (cases lay) (auto simp: vals_dense_pairs sorted_wrt_filter)
  moreover have "mult_at m r c = (if ent t r c \<noteq> 0 then 1 else 0)" if "r < nr" "c < nc" for r c
    using that by (cases lay) (simp_all add: mult_at_def gs vals_dense_pairs count_list_filter_upt, simp_all add: m_def)
  ultimately show ?thesis
    using \<open>sparse_from_dense t lay = Inr m\<close> by (intro exI [of _ m]) (auto simp: canonical_def gs, auto simp: m_def)
qed

lemma to_dense_mult:
  assumes "sbm_ok m"
  shows "to_dense m = Inr (mk_mat (sbm_rows m) (sbm_cols m) (\<lambda>r c. if mult_at m r c > 0 then 1 else 0))"
proof -
  let ?kvs = "group_pairs (sbm_ptr m) (sbm_idx m) (num_groups m)"
  let ?cells = "map (\<lambda>(i, g). if sbm_layout m = CSC then (i, g) else (g, i)) ?kvs"
  have mem: "(i, g) \<in> set ?kvs \<longleftrightarrow> g < num_groups m \<and> i \<in> set (groups m ! g)" for i g
    unfolding group_pairs_groups [OF sbm_okD(1) [OF assms]] groups_def [symmetric] by auto
  have cell: "(r, c) \<in> set ?cells \<longleftrightarrow> mult_at m r c > 0" if "r < sbm_rows m" "c < sbm_cols m" for r c
    using that mem by (cases "sbm_layout m")
      (auto simp: mult_at_def num_groups_def image_iff Bex_def)
  have bound: "\<forall>(r, c) \<in> set ?cells. r < sbm_rows m \<and> c < sbm_cols m"
    using group_pairs_bound [OF assms]
    by (cases "sbm_layout m") (fastforce simp: index_bound_def num_groups_def)+
  have "mk_mat (sbm_rows m) (sbm_cols m) (\<lambda>r c. if (r, c) \<in> set ?cells then 1 else 0 :: u8)
      = mk_mat (sbm_rows m) (sbm_cols m) (\<lambda>r c. if mult_at m r c > 0 then 1 else 0)"
    by (rule mat_eqI [of _ "sbm_rows m" "sbm_cols m"]) (simp_all add: mat_simps cell del: set_map)
  then show ?thesis
    using marks_new [OF bound]
    by (auto simp: to_dense_def Let_def tensor_new_def mk_mat_def)
qed

lemma push_groups_vals:
  assumes "\<forall>kv \<in> set kvs. fst kv < K"
  shows "push_groups K kvs = map (\<lambda>k. vals k kvs) [0..<K]"
proof -
  have "fold (\<lambda>kv out. out[fst kv := out ! fst kv @ [snd kv]]) kvs out
      = map (\<lambda>k. out ! k @ vals k kvs) [0..<K]" if "length out = K" for out
    using that assms
  proof (induction kvs arbitrary: out)
    case Nil then show ?case by (auto intro: map_nth [symmetric])
  next
    case (Cons kv kvs)
    then show ?case by (cases kv) (auto simp: nth_list_update)
  qed
  from this [of "replicate K []"] show ?thesis by (simp add: push_groups_def)
qed

lemma groups_swap_vals:
  assumes "sbm_ok m"
  shows "push_groups (index_bound m) (group_pairs (sbm_ptr m) (sbm_idx m) (num_groups m)) = groups (swap_layout m)"
proof -
  have "\<forall>kv \<in> set (group_pairs (sbm_ptr m) (sbm_idx m) (num_groups m)). fst kv < index_bound m"
    using group_pairs_bound(1) [OF assms] by blast
  then show ?thesis
    unfolding groups_swap_layout(1) [OF assms] groups_def [of m] push_groups_vals
    by (intro nth_equalityI)
      (simp_all add: push_groups_vals vals_group_pairs [OF sbm_okD(1) [OF assms], of _ "index_bound m"])
qed

lemma to_nested_csc_groups: "sbm_ok m \<Longrightarrow> to_nested_csc m = groups (to_csc m)"
  using groups_swap_vals [of m]
  by (auto simp: to_nested_csc_def to_csc_def groups_def num_groups_def index_bound_def)

lemma to_nested_csr_groups: "sbm_ok m \<Longrightarrow> to_nested_csr m = groups (to_csr m)"
  using groups_swap_vals [of m] by (cases "sbm_layout m")
    (auto simp: to_nested_csr_def to_csr_def groups_def num_groups_def index_bound_def)

section \<open>Properties\<close>

lemma to_csc_canonical: "canonical m \<Longrightarrow> canonical (to_csc m)"
  and to_csr_canonical: "canonical m \<Longrightarrow> canonical (to_csr m)"
proof -
  have swap: "canonical (swap_layout m)" if "canonical m"
  proof -
    have ok: "sbm_ok m" using that by (simp add: canonical_def)
    have "strictly_sorted g" if g: "g \<in> set (groups (swap_layout m))" for g
    proof -
      obtain k where k: "k < index_bound m" "g = transpose_groups (index_bound m) (groups m) ! k"
        using g by (auto simp: groups_swap_layout(1) [OF ok] in_set_conv_nth)
      have "count_list g i \<le> 1" for i
      proof (cases "i < num_groups m")
        case True
        then have "strictly_sorted (groups m ! i)" using \<open>canonical m\<close> by (auto simp: canonical_def)
        then show ?thesis using True k strictly_sorted_count [of "groups m ! i" k] by (simp add: count_transpose_groups)
      next
        case False
        then have "i \<notin> set g" using k by (simp add: set_transpose_groups)
        then show ?thesis by (simp add: count_list_0_iff)
      qed
      then have "distinct g" by (metis count_list_0_iff count_mset distinct_count_atmost_1 le_antisym
            le_zero_eq less_one not_le)
      then show ?thesis using sorted_swap_layout [OF ok g] by (simp add: strict_sorted_iff)
    qed
    then show ?thesis using groups_swap_layout(2) [OF ok] by (simp add: canonical_def)
  qed
  show "canonical m \<Longrightarrow> canonical (to_csc m)" "canonical m \<Longrightarrow> canonical (to_csr m)"
    using swap by (auto simp: to_csc_def to_csr_def)
qed

text \<open>
  C25: Changing the storage layout does not change the matrix: \<open>to_csc\<close> and \<open>to_csr\<close> of a
  well-formed matrix are well-formed, have the requested layout and the same shape, and list
  every cell exactly as often as before.
\<close>

theorem conversion_keeps_matrix:
  assumes "sbm_ok m"
  shows "sbm_ok (to_csc m) \<and> sbm_layout (to_csc m) = CSC \<and> sbm_ok (to_csr m) \<and> sbm_layout (to_csr m) = CSR \<and>
    sbm_rows (to_csc m) = sbm_rows m \<and> sbm_cols (to_csc m) = sbm_cols m \<and>
    sbm_rows (to_csr m) = sbm_rows m \<and> sbm_cols (to_csr m) = sbm_cols m \<and>
    (\<forall>r < sbm_rows m. \<forall>c < sbm_cols m. mult_at (to_csc m) r c = mult_at m r c \<and> mult_at (to_csr m) r c = mult_at m r c)"
  using to_csc_props [OF assms] to_csr_props [OF assms] by simp

abbreviation demo_csc :: sparse_binary_matrix where
  "demo_csc \<equiv> \<lparr>sbm_layout = CSC, sbm_rows = 2, sbm_cols = 3, sbm_ptr = [0, 1, 3, 4], sbm_idx = [1, 0, 1, 0]\<rparr>"

lemma demo_csc_ok: "sbm_ok demo_csc"
  by (auto simp: sbm_ok_def ptr_ok_def num_groups_def index_bound_def max_u32_def)

lemma demo_csc_canonical: "canonical demo_csc"
  using demo_csc_ok by (auto simp: canonical_def groups_def groups_of_def num_groups_def vslice_def upt_rec)

theorem conversion_keeps_matrix_witness:
  "to_csr demo_csc = \<lparr>sbm_layout = CSR, sbm_rows = 2, sbm_cols = 3, sbm_ptr = [0, 2, 4], sbm_idx = [1, 2, 0, 1]\<rparr> \<and>
   mult_at (to_csr demo_csc) 1 0 = mult_at demo_csc 1 0"
proof
  show "to_csr demo_csc = \<lparr>sbm_layout = CSR, sbm_rows = 2, sbm_cols = 3, sbm_ptr = [0, 2, 4], sbm_idx = [1, 2, 0, 1]\<rparr>"
    by code_simp
  show "mult_at (to_csr demo_csc) 1 0 = mult_at demo_csc 1 0"
    using conversion_keeps_matrix [OF demo_csc_ok] by simp
qed

text \<open>
  C29: The layout change is a round trip: a canonical matrix (sorted, duplicate-free groups)
  converted to the other layout is canonical, and converting it back yields the very same
  record, pointers and indices included.
\<close>

theorem layout_roundtrip:
  assumes "canonical m"
  shows "canonical (to_csr m) \<and> canonical (to_csc m) \<and>
    (sbm_layout m = CSC \<longrightarrow> to_csc (to_csr m) = m) \<and> (sbm_layout m = CSR \<longrightarrow> to_csr (to_csc m) = m)"
proof -
  have ok: "sbm_ok m" using assms by (simp add: canonical_def)
  have "groups (swap_layout (swap_layout m)) = map sort (groups m)"
    unfolding groups_swap_layout(1) [OF groups_swap_layout(2) [OF ok]] groups_swap_layout(1) [OF ok]
    using transpose_transpose_groups [of "groups m" "index_bound m"] groups_bound [OF ok]
    by (simp add: index_bound_def num_groups_def split: if_splits)
  also have "\<dots> = groups m"
    using assms by (auto simp: canonical_def intro!: map_idI sort_key_id_if_sorted dest: strictly_sorted_imp_sorted)
  finally have "groups (swap_layout (swap_layout m)) = groups m" .
  moreover have "sbm_layout (swap_layout (swap_layout m)) = sbm_layout m"
    by (cases "sbm_layout m") simp_all
  ultimately have "swap_layout (swap_layout m) = m"
    using groups_swap_layout(2) [OF groups_swap_layout(2) [OF ok]] ok by (intro sbm_eqI) simp_all
  then show ?thesis
    using to_csc_canonical [OF assms] to_csr_canonical [OF assms] by (auto simp: to_csc_def to_csr_def)
qed

theorem layout_roundtrip_witness: "to_csc (to_csr demo_csc) = demo_csc"
  using layout_roundtrip [OF demo_csc_canonical] by simp

text \<open>
  C26: \<open>canonicalize\<close> succeeds on every well-formed matrix; its result has the same shape and
  layout, passes \<open>validate_sorted_unique_indices\<close>, holds each cell with the GF(2) value of the
  input (listed once iff it was listed an odd number of times), and is a fixed point.
\<close>

theorem canonicalize_gf2:
  assumes "sbm_ok m"
  shows "\<exists>m'. canonicalize m = Inr m' \<and> canonical m' \<and> sbm_layout m' = sbm_layout m \<and>
    sbm_rows m' = sbm_rows m \<and> sbm_cols m' = sbm_cols m \<and>
    validate_sorted_unique_indices ctx m' = Inr () \<and> canonicalize m' = Inr m' \<and>
    (\<forall>r < sbm_rows m. \<forall>c < sbm_cols m. mult_at m' r c = mult_at m r c mod 2)"
proof -
  have can: "canonical (reduced m)" by (rule canonical_reduced [OF assms])
  then have ok: "sbm_ok (reduced m)" by (simp add: canonical_def)
  have same: "sbm_layout (reduced x) = sbm_layout x \<and> sbm_rows (reduced x) = sbm_rows x \<and>
      sbm_cols (reduced x) = sbm_cols x" for x :: sparse_binary_matrix
    by (simp add: reduced_def Let_def)
  have "reduced (reduced m) = reduced m"
    by (rule sbm_eqI) (simp_all add: ok same reduced_props(2) reduced_canonical [OF can])
  moreover have "validate_sorted_unique_indices ctx (reduced m) = Inr ()"
    using can sbm_okD(1) [OF ok] groups_bound [OF ok]
    by (auto simp: validate_iff_checked checked_groups_def canonical_def)
  ultimately show ?thesis
    using can same canonicalize_eq_reduced [OF assms] canonicalize_eq_reduced [OF ok] mult_reduced [OF assms] by auto
qed

abbreviation demo_dup :: sparse_binary_matrix where
  "demo_dup \<equiv> \<lparr>sbm_layout = CSC, sbm_rows = 3, sbm_cols = 2, sbm_ptr = [0, 4, 6], sbm_idx = [2, 0, 2, 2, 1, 1]\<rparr>"

theorem canonicalize_gf2_witness:
  "canonicalize demo_dup =
     Inr \<lparr>sbm_layout = CSC, sbm_rows = 3, sbm_cols = 2, sbm_ptr = [0, 2, 2], sbm_idx = [0, 2]\<rparr> \<and>
   (\<exists>m'. canonicalize demo_dup = Inr m' \<and> mult_at m' 2 0 = mult_at demo_dup 2 0 mod 2)"
proof
  show "canonicalize demo_dup =
     Inr \<lparr>sbm_layout = CSC, sbm_rows = 3, sbm_cols = 2, sbm_ptr = [0, 2, 2], sbm_idx = [0, 2]\<rparr>"
    by (simp add: canonicalize_def canonicalize_group_def num_groups_def vrange_def vslice_def
        from_csc_def check_compressed_def throw_if_nnz_exceeds_index_range_def max_u32_def u32_def
        upt_rec Let_def, simp add: numeral_2_eq_2)
  have "sbm_ok demo_dup"
    by (auto simp: sbm_ok_def ptr_ok_def num_groups_def index_bound_def max_u32_def)
  from canonicalize_gf2 [OF this, of None] obtain m' where "canonicalize demo_dup = Inr m'"
    "\<forall>r < 3. \<forall>c < 2. mult_at m' r c = mult_at demo_dup r c mod 2"
    unfolding sparse_binary_matrix.simps by blast
  then show "\<exists>m'. canonicalize demo_dup = Inr m' \<and> mult_at m' 2 0 = mult_at demo_dup 2 0 mod 2"
    by (intro exI [of _ m']) simp
qed

text \<open>
  C30: \<open>from_csc\<close> and \<open>from_csr\<close> accept exactly the compressed forms that are well-formed
  (pointer array of the right length from zero to nnz and non-decreasing, nnz within 32 bits,
  indices in range), return them unchanged, and reject everything else with
  \<open>std::invalid_argument\<close>.
\<close>

theorem compressed_constructors_exact:
  assumes "num_rows \<le> max_u32" "num_cols \<le> max_u32"
  shows "(from_csc num_rows num_cols p i = Inr m \<longleftrightarrow>
      m = \<lparr>sbm_layout = CSC, sbm_rows = num_rows, sbm_cols = num_cols, sbm_ptr = p, sbm_idx = i\<rparr> \<and> sbm_ok m) \<and>
    (from_csr num_rows num_cols p i = Inr m \<longleftrightarrow>
      m = \<lparr>sbm_layout = CSR, sbm_rows = num_rows, sbm_cols = num_cols, sbm_ptr = p, sbm_idx = i\<rparr> \<and> sbm_ok m) \<and>
    (\<forall>e. from_csc num_rows num_cols p i = Inl e \<or> from_csr num_rows num_cols p i = Inl e \<longrightarrow>
      (\<exists>msg. e = Invalid_argument msg))"
proof -
  have "\<exists>msg. e = Invalid_argument msg" if "check_compressed f P D I K n bound p i = Inl e" for e f P D I K n bound
    using that by (auto simp: check_compressed_def throw_if_nnz_exceeds_index_range_def require_def rbind_Inl_iff
        split: if_splits)
  then have "\<exists>msg. e = Invalid_argument msg"
    if "from_csc num_rows num_cols p i = Inl e \<or> from_csr num_rows num_cols p i = Inl e" for e
    using that by (auto simp: from_csc_def from_csr_def rbind_Inl_iff)
  then show ?thesis
    using from_csc_iff [OF assms] from_csr_iff [OF assms] by blast
qed

theorem compressed_constructors_exact_witness:
  "from_csc 2 3 [0, 1, 3, 4] [1, 0, 1, 0] = Inr demo_csc"
  using compressed_constructors_exact [of 2 3 "[0, 1, 3, 4]" "[1, 0, 1, 0]" demo_csc] demo_csc_ok
  by (simp add: max_u32_def)

text \<open>
  C31: Dense to sparse to dense: for a 32-bit-sized dense matrix with fewer than \<open>2\<^sup>3\<^sup>2\<close> entries, the
  constructor succeeds in either layout with a canonical matrix, and \<open>to_dense\<close> of it is the
  input with every nonzero entry replaced by 1; a 0/1 matrix comes back unchanged.
\<close>

theorem dense_roundtrip:
  assumes "is_mat t nr nc" "nr \<le> max_u32" "nc \<le> max_u32" "nr * nc \<le> max_u32"
  shows "\<exists>m. sparse_from_dense t lay = Inr m \<and> canonical m \<and> sbm_layout m = lay \<and>
    to_dense m = Inr (mk_mat nr nc (\<lambda>r c. if ent t r c \<noteq> 0 then 1 else 0)) \<and>
    (set (data t) \<subseteq> {0, 1} \<longrightarrow> to_dense m = Inr t)"
proof -
  have "length (dense_pairs t nr nc lay) \<le> max_u32"
    using length_dense_pairs assms(4) by (rule le_trans)
  from sparse_from_dense_ok [OF assms(1-3) this] obtain m where m: "sparse_from_dense t lay = Inr m"
    "canonical m" "sbm_layout m = lay" "sbm_rows m = nr" "sbm_cols m = nc"
    and e: "\<forall>r<nr. \<forall>c<nc. mult_at m r c = (if ent t r c \<noteq> 0 then 1 else 0)" by auto
  have "to_dense m = Inr (mk_mat nr nc (\<lambda>r c. if mult_at m r c > 0 then 1 else 0))"
    using to_dense_mult [of m] m by (simp add: canonical_def)
  moreover have "mk_mat nr nc (\<lambda>r c. if mult_at m r c > 0 then 1 else 0 :: u8)
      = mk_mat nr nc (\<lambda>r c. if ent t r c \<noteq> 0 then 1 else 0)"
    by (rule mat_eqI [of _ nr nc]) (simp_all add: mat_simps e)
  moreover have "mk_mat nr nc (\<lambda>r c. if ent t r c \<noteq> 0 then 1 else 0) = t" if "set (data t) \<subseteq> {0, 1}"
  proof (rule mat_eqI [of _ nr nc])
    fix r c assume rc: "r < nr" "c < nc"
    then have "ent t r c \<in> set (data t)"
      using assms(1) cell_bound [of r nr c nc] by (simp add: ent_def is_mat_def)
    then have "ent t r c = 0 \<or> ent t r c = 1" using that by blast
    then show "ent (mk_mat nr nc (\<lambda>r c. if ent t r c \<noteq> 0 then 1 else 0)) r c = ent t r c"
      using rc by (auto simp: mat_simps)
  qed (auto simp: mat_simps assms(1))
  ultimately show ?thesis using m by auto
qed

theorem dense_roundtrip_witness:
  "\<exists>m. sparse_from_dense \<lparr>shape = [2, 2], data = [1, 0, 1, 1]\<rparr> CSR = Inr m \<and>
     to_dense m = Inr \<lparr>shape = [2, 2], data = [1, 0, 1, 1]\<rparr>"
  using dense_roundtrip [of "\<lparr>shape = [2, 2], data = [1, 0, 1, 1]\<rparr>" 2 2 CSR]
  by (auto simp: is_mat_def max_u32_def)

text \<open>
  C32: Nested lists to sparse to nested lists: with fewer than \<open>2^32 - 1\<close> groups, in-range
  indices and a 32-bit nnz, \<open>from_nested_csc\<close> succeeds and \<open>to_nested_csc\<close> gives back the same
  lists in the same order, duplicates included; \<open>to_nested_csr\<close> gives for each row the sorted
  list of the columns that contain it.
\<close>

theorem nested_roundtrip:
  assumes "length nested = num_cols" "num_cols < max_u32" "num_rows \<le> max_u32"
    and "sum_list (map length nested) \<le> max_u32" "\<forall>g \<in> set nested. \<forall>r \<in> set g. r < num_rows"
  shows "\<exists>m. from_nested_csc num_rows num_cols nested = Inr m \<and> sbm_ok m \<and> to_nested_csc m = nested \<and>
    to_nested_csr m = map (\<lambda>r. concat (map (\<lambda>c. replicate (count_list (nested ! c) r) c) [0..<num_cols])) [0..<num_rows]"
proof -
  from from_nested_csc_groups [OF assms] obtain m where m: "from_nested_csc num_rows num_cols nested = Inr m"
    "sbm_ok m" "sbm_layout m = CSC" "sbm_rows m = num_rows" "sbm_cols m = num_cols" "groups m = nested" by auto
  then have "to_nested_csc m = nested" "to_nested_csr m = transpose_groups num_rows nested"
    by (auto simp: to_nested_csc_groups to_nested_csr_groups to_csc_def to_csr_def groups_swap_layout index_bound_def)
  with m(1,2) assms(1) show ?thesis by (auto simp: transpose_groups_def)
qed

theorem nested_roundtrip_witness:
  "\<exists>m. from_nested_csc 3 2 [[2, 0], [1, 2]] = Inr m \<and> to_nested_csc m = [[2, 0], [1, 2]] \<and>
     to_nested_csr m = [[0], [1], [0, 1]]"
  using nested_roundtrip [of "[[2, 0], [1, 2]]" 2 3]
  by (auto simp: max_u32_def upt_rec)

text \<open>
  The pointer array of \<open>from_nested_csc\<close> is sized by \<open>num_cols + 1\<close> at 32 bits, so with
  \<open>num_cols = 2^32 - 1\<close> it is empty and the following write \<open>col_ptrs[0] = 0\<close> is out of
  bounds; the same holds for \<open>from_nested_csr\<close> and \<open>num_rows\<close>. (\<open>from_csc\<close> and the dense
  constructor compute the size as \<open>std::size_t\<close>.)
\<close>

lemma from_nested_pointer_wrap:
  assumes "length nested = max_u32"
  shows "from_nested_csc k max_u32 nested = Inl Undefined_behaviour \<and>
    from_nested_csr max_u32 k nested = Inl Undefined_behaviour"
proof -
  have "u32 (max_u32 + 1) = 0" by (simp add: u32_def max_u32_def)
  then show ?thesis
    using assms by (simp only: from_nested_csc_def from_nested_csr_def flatten_nested_def vset_def) simp
qed

lemma from_nested_pointer_wrap_witness:
  "from_nested_csc 1 max_u32 (replicate max_u32 []) = Inl Undefined_behaviour"
  using from_nested_pointer_wrap [of "replicate max_u32 []" 1] by simp

end
