(* ===== verification/QEC_Round_Layout.thy ===== *)
theory QEC_Round_Layout
  imports QEC_Sparse
begin

text \<open>
  Rounds and rows (libs/qec/lib/round_layout.h and the \<open>round_layout\<close> part of pcm_utils.cpp):
  the detector rows of a parity-check matrix are laid out as \<open>[B | S | \<dots> | S | B]\<close>, and the
  layout object maps rounds to row ranges and rows to rounds. The locale \<open>round_partition\<close>
  is what its clients rely on (the rounds cut the rows into consecutive non-empty ranges);
  it is interpreted on the layouts that the clients' validation admits.
\<close>

section \<open>Data and operations\<close>

record round_layout =
  rl_S :: nat
  rl_B :: nat
  rl_num_rows :: nat
  rl_num_rounds :: nat
  rl_boundary :: bool

definition round_layout_new :: "nat \<Rightarrow> nat \<Rightarrow> nat \<Rightarrow> round_layout res" where
  "round_layout_new S B total_rows =
     (let boundary = (B \<noteq> 0 \<and> B \<noteq> S);
          mk = (\<lambda>n. \<lparr>rl_S = S, rl_B = B, rl_num_rows = total_rows, rl_num_rounds = n, rl_boundary = boundary\<rparr>)
      in if \<not> boundary
         then (if S = 0 then Inl Undefined_behaviour else Inr (mk (total_rows div S)))
         else if 2 * B \<le> total_rows
         then (if S = 0 then Inl Undefined_behaviour else Inr (mk ((total_rows - 2 * B) div S + 2)))
         else Inr (mk 0))"

definition round_start :: "round_layout \<Rightarrow> nat \<Rightarrow> nat" where
  "round_start l r =
     (if \<not> rl_boundary l then r * rl_S l
      else if r = 0 then 0
      else if rl_num_rounds l \<le> r then rl_num_rows l
      else rl_B l + (r - 1) * rl_S l)"

definition round_width :: "round_layout \<Rightarrow> nat \<Rightarrow> nat" where
  "round_width l r = sz_sub (round_start l (r + 1)) (round_start l r)"

definition row_to_round :: "round_layout \<Rightarrow> nat \<Rightarrow> nat" where
  "row_to_round l row =
     (if \<not> rl_boundary l then row div rl_S l
      else if row < rl_B l then 0
      else if sz_sub (rl_num_rows l) (rl_B l) \<le> row then sz_sub (rl_num_rounds l) 1
      else 1 + (row - rl_B l) div rl_S l)"

section \<open>Partitions of the rows into rounds\<close>

locale round_partition =
  fixes ok :: "'l \<Rightarrow> bool" and start :: "'l \<Rightarrow> nat \<Rightarrow> nat" and round_of :: "'l \<Rightarrow> nat \<Rightarrow> nat"
    and n_rounds :: "'l \<Rightarrow> nat" and n_rows :: "'l \<Rightarrow> nat"
  assumes start_0: "ok l \<Longrightarrow> start l 0 = 0"
    and start_end: "ok l \<Longrightarrow> start l (n_rounds l) = n_rows l"
    and start_step: "ok l \<Longrightarrow> r < n_rounds l \<Longrightarrow> start l r < start l (Suc r)"
    and round_of_row: "ok l \<Longrightarrow> row < n_rows l \<Longrightarrow>
      round_of l row < n_rounds l \<and> start l (round_of l row) \<le> row \<and> row < start l (Suc (round_of l row))"
begin

lemma start_mono: "ok l \<Longrightarrow> r \<le> r' \<Longrightarrow> r' \<le> n_rounds l \<Longrightarrow> start l r \<le> start l r'"
proof (induction r')
  case (Suc r')
  then show ?case using start_step [of l r'] by (cases "r = Suc r'") auto
qed simp

lemma start_less: "ok l \<Longrightarrow> r < r' \<Longrightarrow> r' \<le> n_rounds l \<Longrightarrow> start l r < start l r'"
  using start_step [of l r] start_mono [of l "Suc r" r'] by simp

lemma round_of_iff:
  assumes "ok l" "row < n_rows l"
  shows "round_of l row = r \<longleftrightarrow> r < n_rounds l \<and> start l r \<le> row \<and> row < start l (Suc r)"
proof
  assume r: "r < n_rounds l \<and> start l r \<le> row \<and> row < start l (Suc r)"
  note q = round_of_row [OF assms]
  show "round_of l row = r"
  proof (rule linorder_cases [of "round_of l row" r])
    assume "round_of l row < r"
    then have "start l (Suc (round_of l row)) \<le> start l r" using r assms(1) by (intro start_mono) auto
    then show ?thesis using q r by linarith
  next
    assume "r < round_of l row"
    then have "start l (Suc r) \<le> start l (round_of l row)" using q assms(1) by (intro start_mono) auto
    then show ?thesis using q r by linarith
  qed
qed (use round_of_row [OF assms] in auto)

lemma round_of_less_iff:
  assumes "ok l" "row < n_rows l" "r \<le> n_rounds l"
  shows "round_of l row < r \<longleftrightarrow> row < start l r"
proof
  note q = round_of_row [OF assms(1,2)]
  assume "round_of l row < r"
  then have "start l (Suc (round_of l row)) \<le> start l r" using assms by (intro start_mono) auto
  then show "row < start l r" using q by linarith
next
  note q = round_of_row [OF assms(1,2)]
  assume row: "row < start l r"
  show "round_of l row < r"
  proof (rule ccontr)
    assume "\<not> round_of l row < r"
    then have "start l r \<le> start l (round_of l row)" using q assms(1) by (intro start_mono) auto
    then show False using q row by linarith
  qed
qed

lemma rounds_between_iff:
  assumes "ok l" "row < n_rows l" "s \<le> e" "e < n_rounds l"
  shows "s \<le> round_of l row \<and> round_of l row \<le> e \<longleftrightarrow> start l s \<le> row \<and> row < start l (Suc e)"
  using round_of_less_iff [OF assms(1,2), of s] round_of_less_iff [OF assms(1,2), of "Suc e"] assms(3,4)
  by auto

lemma round_of_mono: "ok l \<Longrightarrow> row \<le> row' \<Longrightarrow> row' < n_rows l \<Longrightarrow> round_of l row \<le> round_of l row'"
  using round_of_less_iff [of l row "Suc (round_of l row')"] round_of_row [of l row'] by auto

lemma widths_sum: "ok l \<Longrightarrow> (\<Sum>r<n_rounds l. start l (Suc r) - start l r) = n_rows l"
proof -
  assume ok: "ok l"
  have "(\<Sum>r<k. start l (Suc r) - start l r) = start l k" if "k \<le> n_rounds l" for k
    using that
  proof (induction k)
    case 0 then show ?case using start_0 [OF ok] by simp
  next
    case (Suc k) then show ?case using start_step [OF ok, of k] by simp
  qed
  from this [of "n_rounds l"] show ?thesis using start_end [OF ok] by simp
qed

end

text \<open>The layouts that \<open>validate_pcm_for_rounds_params\<close> admits, with whole uniform rounds.\<close>

definition layout_ok :: "round_layout \<Rightarrow> bool" where
  "layout_ok l \<longleftrightarrow> 0 < rl_S l \<and> rl_B l \<le> rl_S l \<and> rl_boundary l = (rl_B l \<noteq> 0 \<and> rl_B l \<noteq> rl_S l) \<and>
     (if rl_boundary l
      then 2 \<le> rl_num_rounds l \<and> rl_num_rows l = 2 * rl_B l + (rl_num_rounds l - 2) * rl_S l
      else rl_num_rows l = rl_num_rounds l * rl_S l)"

definition layout_params_ok :: "nat \<Rightarrow> nat \<Rightarrow> nat \<Rightarrow> bool" where
  "layout_params_ok S B rows \<longleftrightarrow> 0 < S \<and> B \<le> S \<and>
     (if B \<noteq> 0 \<and> B \<noteq> S then 2 * B \<le> rows \<and> S dvd (rows - 2 * B) else S dvd rows)"

lemma round_layout_new_ok:
  assumes "layout_params_ok S B rows"
  shows "\<exists>l. round_layout_new S B rows = Inr l \<and> layout_ok l \<and>
    rl_S l = S \<and> rl_B l = B \<and> rl_num_rows l = rows"
  using assms by (auto simp: layout_params_ok_def round_layout_new_def layout_ok_def Let_def)

lemma layout_boundaryE:
  assumes "layout_ok l" "rl_boundary l"
  obtains k where "rl_num_rounds l = k + 2" "rl_num_rows l = 2 * rl_B l + k * rl_S l" "0 < rl_B l" "0 < rl_S l"
proof (rule that [of "rl_num_rounds l - 2"])
  have "2 \<le> rl_num_rounds l" using assms by (simp add: layout_ok_def)
  then show "rl_num_rounds l = rl_num_rounds l - 2 + 2" by simp
qed (use assms in \<open>auto simp: layout_ok_def\<close>)

lemma row_to_round_range:
  assumes "layout_ok l" "row < rl_num_rows l"
  shows "row_to_round l row < rl_num_rounds l \<and> round_start l (row_to_round l row) \<le> row \<and>
    row < round_start l (Suc (row_to_round l row))"
proof (cases "rl_boundary l")
  case False
  then have "0 < rl_S l" "row < rl_num_rounds l * rl_S l" using assms by (auto simp: layout_ok_def)
  then show ?thesis
    using False dividend_less_div_times [of "rl_S l" row]
    by (simp add: row_to_round_def round_start_def less_mult_imp_div_less)
next
  case True
  then obtain k where k: "rl_num_rounds l = k + 2" "rl_num_rows l = 2 * rl_B l + k * rl_S l" "0 < rl_B l" "0 < rl_S l"
    using layout_boundaryE [OF assms(1)] by blast
  consider "row < rl_B l" | "rl_B l + k * rl_S l \<le> row" | "rl_B l \<le> row" "row < rl_B l + k * rl_S l"
    by linarith
  then show ?thesis
  proof cases
    case 3
    define q where "q = (row - rl_B l) div rl_S l"
    have "q < k" using 3 unfolding q_def by (intro less_mult_imp_div_less) auto
    moreover have "q * rl_S l \<le> row - rl_B l" "row - rl_B l < Suc q * rl_S l"
      using dividend_less_div_times [OF k(4), of "row - rl_B l"]
      by (simp_all add: q_def)
    ultimately show ?thesis
      using 3 True k by (auto simp: row_to_round_def round_start_def q_def [symmetric])
  qed (use True k assms(2) in \<open>auto simp: row_to_round_def round_start_def\<close>)
qed

interpretation rl: round_partition layout_ok round_start row_to_round rl_num_rounds rl_num_rows
proof
  fix l r assume l: "layout_ok l"
  show "round_start l 0 = 0" by (simp add: round_start_def)
  show "round_start l (rl_num_rounds l) = rl_num_rows l"
    using l by (auto simp: round_start_def layout_ok_def)
  show "round_start l r < round_start l (Suc r)" if r: "r < rl_num_rounds l"
  proof (cases "rl_boundary l")
    case True
    then obtain k where k: "rl_num_rounds l = k + 2" "rl_num_rows l = 2 * rl_B l + k * rl_S l"
      and pos: "0 < rl_B l" "0 < rl_S l"
      using layout_boundaryE [OF l] by blast
    consider "r = 0" | "r = Suc k" | j where "r = Suc j" "j < k"
      using r k(1) by (cases r) (auto simp: less_Suc_eq)
    then show ?thesis
      by cases (use True k pos in \<open>auto simp: round_start_def\<close>)
  qed (use l in \<open>simp add: round_start_def layout_ok_def\<close>)
qed (rule row_to_round_range)


section \<open>Properties\<close>

text \<open>
  C33: The layout is a partition: for admitted parameters the constructor succeeds, and every
  row of the matrix lies in exactly one round, the one \<open>row_to_round\<close> computes, namely the
  round whose half-open range \<open>[round_start r, round_start r + round_width r)\<close> contains it;
  the first and last rounds are \<open>B\<close> wide when \<open>B\<close> is a distinct boundary width, all others \<open>S\<close>;
  the widths sum to the number of rows.
\<close>

theorem round_layout_partition:
  assumes "layout_params_ok S B rows"
  shows "\<exists>l. round_layout_new S B rows = Inr l \<and>
    (\<forall>row < rows. \<forall>r. row_to_round l row = r \<longleftrightarrow>
       r < rl_num_rounds l \<and> round_start l r \<le> row \<and> row < round_start l r + round_width l r) \<and>
    (\<forall>r < rl_num_rounds l. round_width l r =
       (if B \<noteq> 0 \<and> B \<noteq> S \<and> (r = 0 \<or> r = rl_num_rounds l - 1) then B else S)) \<and>
    (\<Sum>r < rl_num_rounds l. round_width l r) = rows"
proof -
  from round_layout_new_ok [OF assms] obtain l where l: "round_layout_new S B rows = Inr l" "layout_ok l"
    "rl_S l = S" "rl_B l = B" "rl_num_rows l = rows" by blast
  have w: "round_width l r = round_start l (Suc r) - round_start l r"
    "round_start l r + round_width l r = round_start l (Suc r)" if "r < rl_num_rounds l" for r
    using rl.start_step [OF l(2) that] by (simp_all add: round_width_def)
  have "\<forall>row < rows. \<forall>r. row_to_round l row = r \<longleftrightarrow>
       r < rl_num_rounds l \<and> round_start l r \<le> row \<and> row < round_start l r + round_width l r"
    using rl.round_of_iff [OF l(2)] l(5) w(2) by metis
  moreover have "(\<Sum>r < rl_num_rounds l. round_width l r) = rows"
    using rl.widths_sum [OF l(2)] l(5) w(1) by simp
  moreover have "round_width l r = (if B \<noteq> 0 \<and> B \<noteq> S \<and> (r = 0 \<or> r = rl_num_rounds l - 1) then B else S)"
    if r: "r < rl_num_rounds l" for r
  proof (cases "rl_boundary l")
    case False
    then show ?thesis using l w(1) [OF r] by (auto simp: round_start_def layout_ok_def)
  next
    case True
    obtain k where k: "rl_num_rounds l = k + 2" "rl_num_rows l = 2 * rl_B l + k * rl_S l"
      using layout_boundaryE [OF l(2) True] by blast
    have B: "B \<noteq> 0" "B \<noteq> S" using l True by (auto simp: layout_ok_def)
    consider "r = 0" | "r = Suc k" | j where "r = Suc j" "j < k"
      using r k(1) by (cases r) (auto simp: less_Suc_eq)
    then show ?thesis
      by cases (use True k B l(3,4) w(1) [OF r] in \<open>auto simp: round_start_def\<close>)
  qed
  ultimately show ?thesis using l(1) by blast
qed

theorem round_layout_partition_witness:
  "\<exists>l. round_layout_new 4 2 12 = Inr l \<and> (\<Sum>r < rl_num_rounds l. round_width l r) = 12"
  using round_layout_partition [of 4 2 12] by (auto simp: layout_params_ok_def)

end
