(* ===== verification/QEC_Pcm_Sort.thy ===== *)
theory QEC_Pcm_Sort
  imports QEC_Round_Layout
begin

text \<open>
  Topological column order of parity-check matrices (libs/qec/lib/pcm_utils.cpp,
  \<open>sorted_pcm_column_indices_impl\<close> and its callers). The comparator is modelled as the code
  has it, a ping-pong between the heads and the tails of two columns; it is shown to be the
  lexicographic order of an explicit key, hence a strict total order, so that \<open>std::sort\<close>
  has exactly one possible result.
\<close>

section \<open>The comparator\<close>

text \<open>
  The \<open>do\<close> loop: the lists are the elements between the head and tail iterators, \<open>tie\<close> is the
  result of \<open>a < b\<close>.
\<close>

function ping_pong :: "bool \<Rightarrow> nat list \<Rightarrow> nat list \<Rightarrow> bool" where
  "ping_pong tie a b =
     (if a = [] \<or> b = [] then tie
      else if hd a \<noteq> hd b then hd a < hd b
      else if length a = 1 \<and> length b \<noteq> 1 then True
      else if length a \<noteq> 1 \<and> length b = 1 then False
      else if length a = 1 \<and> length b = 1 then tie
      else if last a \<noteq> last b then last a < last b
      else if length (tl a) = 1 \<and> length (tl b) \<noteq> 1 then True
      else if length (tl a) \<noteq> 1 \<and> length (tl b) = 1 then False
      else if length (tl a) = 1 \<and> length (tl b) = 1 then tie
      else ping_pong tie (butlast (tl a)) (butlast (tl b)))"
  by pat_completeness auto
termination
  by (relation "measure (\<lambda>(_, a, _). length a)") (auto simp: less_Suc_eq)

declare ping_pong.simps [simp del]

definition column_less ::
  "nat list list \<Rightarrow> bool \<Rightarrow> (nat \<Rightarrow> nat) \<Rightarrow> nat \<Rightarrow> nat \<Rightarrow> bool" where
  "column_less row_indices use_rounds round_of a b =
     (let a_vec = row_indices ! a; b_vec = row_indices ! b in
      if a_vec = [] \<and> b_vec \<noteq> [] then True
      else if a_vec \<noteq> [] \<and> b_vec = [] then False
      else if a_vec = [] \<and> b_vec = [] then a < b
      else let a_first = round_of (hd a_vec); a_last = round_of (last a_vec);
               b_first = round_of (hd b_vec); b_last = round_of (last b_vec) in
        if use_rounds \<and> a_first \<noteq> b_first then a_first < b_first
        else if use_rounds \<and> a_last \<noteq> b_last then a_last < b_last
        else ping_pong (a < b) a_vec b_vec)"

text \<open>
  \<open>std::iota\<close> into 32-bit indices. The counter of the algorithm is an \<open>int\<close>, so that the code is defined for fewer than
  \<open>2\<^sup>3\<^sup>1\<close> columns; beyond \<open>2\<^sup>3\<^sup>2\<close> the stored indices repeat.
\<close>

definition iota_u32 :: "nat \<Rightarrow> nat list" where
  "iota_u32 n = map u32 [0..<n]"

definition sorted_pcm_column_indices_impl ::
  "nat list list \<Rightarrow> bool \<Rightarrow> (nat \<Rightarrow> nat) \<Rightarrow> nat list" where
  "sorted_pcm_column_indices_impl row_indices use_rounds round_of =
     std_sort (column_less row_indices use_rounds round_of) (iota_u32 (length row_indices))"

definition get_sorted_pcm_column_indices :: "nat list list \<Rightarrow> nat \<Rightarrow> nat list" where
  "get_sorted_pcm_column_indices row_indices num_syndromes_per_round =
     sorted_pcm_column_indices_impl row_indices (0 < num_syndromes_per_round)
       (\<lambda>r. r div num_syndromes_per_round)"

definition boundary_round :: "nat \<Rightarrow> nat \<Rightarrow> nat \<Rightarrow> nat" where
  "boundary_round S B r = (if r < B then 0 else 1 + (r - B) div S)"

definition get_sorted_pcm_column_indices_boundary ::
  "nat list list \<Rightarrow> nat \<Rightarrow> nat \<Rightarrow> nat list res" where
  "get_sorted_pcm_column_indices_boundary row_indices S B =
     (if S = 0 then Inl (Invalid_argument ''get_sorted_pcm_column_indices: num_syndromes_per_round must be non-zero when num_boundary_syndromes is specified'')
      else if S < B then Inl (Invalid_argument ''get_sorted_pcm_column_indices: num_boundary_syndromes must be <= num_syndromes_per_round'')
      else Inr (sorted_pcm_column_indices_impl row_indices True (boundary_round S B)))"

definition is_iota :: "nat list \<Rightarrow> nat \<Rightarrow> bool" where
  "is_iota column_indices num_cols = list_all (\<lambda>c. column_indices ! c = c) [0..<num_cols]"

definition pcm_is_sorted :: "nat list list \<Rightarrow> nat \<Rightarrow> bool" where
  "pcm_is_sorted sparse_pcm num_syndromes_per_round =
     is_iota (get_sorted_pcm_column_indices sparse_pcm num_syndromes_per_round) (length sparse_pcm)"

definition pcm_is_sorted_boundary :: "nat list list \<Rightarrow> nat \<Rightarrow> nat \<Rightarrow> bool res" where
  "pcm_is_sorted_boundary sparse_pcm S B =
     rbind (get_sorted_pcm_column_indices_boundary sparse_pcm S B)
       (\<lambda>column_indices. Inr (is_iota column_indices (length sparse_pcm)))"

section \<open>The comparator as a key order\<close>

text \<open>First, last, second, second to last, and so on.\<close>

fun zigzag :: "nat list \<Rightarrow> nat list" where
  "zigzag [] = []"
| "zigzag [x] = [x]"
| "zigzag (x # y # xs) = x # last (y # xs) # zigzag (butlast (y # xs))"

definition column_key ::
  "nat list list \<Rightarrow> bool \<Rightarrow> (nat \<Rightarrow> nat) \<Rightarrow> nat \<Rightarrow> nat \<times> nat \<times> nat \<times> nat list \<times> nat" where
  "column_key rows use_rounds round_of c =
     (let v = rows ! c in
      if v = [] then (0, 0, 0, [], c)
      else if use_rounds then (1, round_of (hd v), round_of (last v), zigzag v, c)
      else (1, 0, 0, zigzag v, c))"

lemma zigzag_Cons: "xs \<noteq> [] \<Longrightarrow> zigzag (x # xs) = x # last xs # zigzag (butlast xs)"
  by (cases xs) simp_all

lemma zigzag_eq_Nil [simp]: "zigzag xs = [] \<longleftrightarrow> xs = []"
  by (cases xs rule: zigzag.cases) auto

lemma length_zigzag [simp]: "length (zigzag xs) = length xs"
  by (induction xs rule: zigzag.induct) auto

lemma ping_pong_zigzag:
  "a \<noteq> [] \<Longrightarrow> b \<noteq> [] \<Longrightarrow> ping_pong tie a b \<longleftrightarrow> zigzag a < zigzag b \<or> zigzag a = zigzag b \<and> tie"
proof (induction tie a b rule: ping_pong.induct)
  case (1 tie a b)
  obtain x xs y ys where ab: "a = x # xs" "b = y # ys"
    using "1.prems" by (cases a; cases b) auto
  show ?case
  proof (cases "xs = [] \<or> ys = []")
    case True
    then show ?thesis
      by (subst ping_pong.simps) (cases xs; cases ys; auto simp: ab)
  next
    case ne: False
    have one: "length zs = 1 \<longleftrightarrow> butlast zs = []" if "zs \<noteq> []" for zs :: "nat list"
      using that by (cases zs) auto
    note zz = zigzag_Cons [of xs x] zigzag_Cons [of ys y] one [of xs] one [of ys]
    have IH: "ping_pong tie (butlast xs) (butlast ys) \<longleftrightarrow> zigzag (butlast xs) < zigzag (butlast ys) \<or>
        zigzag (butlast xs) = zigzag (butlast ys) \<and> tie"
      if "x = y" "last xs = last ys" "butlast xs \<noteq> []" "butlast ys \<noteq> []"
      using "1.IH" that ne zz(3,4) by (simp add: ab)
    have step: "ping_pong tie a b =
       (if x \<noteq> y then x < y else if last xs \<noteq> last ys then last xs < last ys
        else if butlast xs = [] then butlast ys \<noteq> [] \<or> tie
        else butlast ys \<noteq> [] \<and> ping_pong tie (butlast xs) (butlast ys))"
      by (subst ping_pong.simps) (use ne zz(3,4) in \<open>simp add: ab del: One_nat_def\<close>)
    have nil: "[] < zigzag zs \<longleftrightarrow> zs \<noteq> []" "\<not> zigzag zs < []" "[] = zigzag zs \<longleftrightarrow> zs = []" for zs
      by (cases zs rule: zigzag.cases; simp)+
    show ?thesis
    proof (cases "butlast xs = [] \<or> butlast ys = []")
      case True
      then show ?thesis unfolding step using ne zz(1,2) by (auto simp: ab nil)
    next
      case False
      then show ?thesis unfolding step using ne IH zz(1,2) by (auto simp: ab)
    qed
  qed
qed

lemma column_less_key:
  "column_less rows ur ro a b \<longleftrightarrow> column_key rows ur ro a < column_key rows ur ro b"
  by (auto simp: column_less_def column_key_def Let_def less_prod_def' ping_pong_zigzag)

lemma column_key_index: "column_key rows ur ro a = column_key rows ur ro b \<Longrightarrow> a = b"
  by (auto simp: column_key_def Let_def split: if_splits)

interpretation cols: strict_total "column_less rows ur ro" for rows ur ro
proof
  fix x y z
  show "\<not> column_less rows ur ro y x" if "column_less rows ur ro x y"
    using that by (auto simp: column_less_key)
  show "\<not> column_less rows ur ro x z" if "\<not> column_less rows ur ro x y" "\<not> column_less rows ur ro y z"
    using that by (auto simp: column_less_key)
  show "column_less rows ur ro x y \<or> column_less rows ur ro y x" if "x \<noteq> y"
    unfolding column_less_key using that column_key_index by (metis neq_iff)
qed


text \<open>The part of the key that depends on the column's contents only.\<close>

definition content_key :: "bool \<Rightarrow> (nat \<Rightarrow> nat) \<Rightarrow> nat list \<Rightarrow> nat \<times> nat \<times> nat \<times> nat list" where
  "content_key use_rounds round_of v =
     (if v = [] then (0, 0, 0, [])
      else if use_rounds then (1, round_of (hd v), round_of (last v), zigzag v)
      else (1, 0, 0, zigzag v))"

lemma column_key_content:
  "column_key rows ur ro c < column_key rows ur ro d \<longleftrightarrow>
     content_key ur ro (rows ! c) < content_key ur ro (rows ! d) \<or>
     content_key ur ro (rows ! c) = content_key ur ro (rows ! d) \<and> c < d"
  by (auto simp: column_key_def content_key_def Let_def less_prod_def')

lemma zigzag_inject: "zigzag xs = zigzag ys \<Longrightarrow> xs = ys"
proof (induction xs arbitrary: ys rule: zigzag.induct)
  case (3 x y xs)
  have "length ys = length (x # y # xs)" using "3.prems" by (metis length_zigzag)
  then obtain x' ys' where ys: "ys = x' # ys'" "ys' \<noteq> []"
    by (cases ys; cases "tl ys") auto
  from "3.prems" have *: "x = x'" "last (y # xs) = last ys'" "zigzag (butlast (y # xs)) = zigzag (butlast ys')"
    by (simp_all add: ys zigzag_Cons)
  from "3.IH" [OF *(3)] *(2) have "y # xs = ys'"
    by (metis append_butlast_last_id list.distinct(1) ys(2))
  with * ys show ?case by simp
qed (metis length_zigzag length_0_conv, metis length_zigzag length_Suc_conv length_0_conv zigzag.simps(2) list.size(3))

lemma content_key_inject: "content_key ur ro v = content_key ur ro v' \<longleftrightarrow> v = v'"
  by (auto simp: content_key_def split: if_splits dest: zigzag_inject)

section \<open>Properties\<close>

lemma is_iota_iff: "length xs = n \<Longrightarrow> is_iota xs n \<longleftrightarrow> xs = [0..<n]"
proof
  assume "length xs = n" "is_iota xs n"
  then show "xs = [0..<n]" by (intro nth_equalityI) (auto simp: is_iota_def list_all_iff)
next
  show "is_iota xs n" if "xs = [0..<n]" using that by (simp add: is_iota_def list_all_iff)
qed

lemma iota_u32_id: "n \<le> max_u32 \<Longrightarrow> iota_u32 n = [0..<n]"
  by (auto simp: iota_u32_def intro!: map_idI)

lemma length_iota_u32 [simp]: "length (iota_u32 n) = n"
  by (simp add: iota_u32_def)

lemma sorted_pcm_column_indices_facts:
  "length rows \<le> max_u32 \<Longrightarrow> mset (sorted_pcm_column_indices_impl rows ur ro) = mset [0..<length rows]"
  "sorted_by (column_less rows ur ro) (sorted_pcm_column_indices_impl rows ur ro)"
  "length (sorted_pcm_column_indices_impl rows ur ro) = length rows"
  by (simp_all add: sorted_pcm_column_indices_impl_def iota_u32_id cols.sorted_std_sort del: mset_upt)

lemma set_sorted_pcm_column_indices [simp]:
  "length rows \<le> max_u32 \<Longrightarrow> set (get_sorted_pcm_column_indices rows S) = {0..<length rows}"
  "length rows \<le> max_u32 \<Longrightarrow> distinct (get_sorted_pcm_column_indices rows S)"
  by (simp_all add: get_sorted_pcm_column_indices_def sorted_pcm_column_indices_impl_def iota_u32_id)

lemma length_get_sorted [simp]: "length (get_sorted_pcm_column_indices rows S) = length rows"
  by (simp add: get_sorted_pcm_column_indices_def sorted_pcm_column_indices_facts)

lemma is_iota_impl_iff:
  assumes n: "length rows \<le> max_u32"
  shows "is_iota (sorted_pcm_column_indices_impl rows ur ro) (length rows) \<longleftrightarrow>
   (\<forall>c. Suc c < length rows \<longrightarrow> column_key rows ur ro c < column_key rows ur ro (Suc c))"
proof -
  have "is_iota (sorted_pcm_column_indices_impl rows ur ro) (length rows) \<longleftrightarrow>
      sorted_pcm_column_indices_impl rows ur ro = [0..<length rows]"
    by (rule is_iota_iff) (simp add: sorted_pcm_column_indices_facts)
  also have "\<dots> \<longleftrightarrow> sorted_by (column_less rows ur ro) [0..<length rows]"
    using cols.std_sort_id sorted_pcm_column_indices_facts(2) [of rows ur ro]
    by (metis sorted_pcm_column_indices_impl_def iota_u32_id n)
  also have "\<dots> \<longleftrightarrow> sorted_wrt (\<lambda>c d. column_key rows ur ro c \<le> column_key rows ur ro d) [0..<length rows]"
    by (simp add: column_less_key not_less)
  also have "\<dots> \<longleftrightarrow> (\<forall>c. Suc c < length rows \<longrightarrow> column_key rows ur ro c \<le> column_key rows ur ro (Suc c))"
    by (subst sorted_wrt_iff_nth_Suc_transp) (auto simp: transp_def intro: order_trans)
  also have "\<dots> \<longleftrightarrow> (\<forall>c. Suc c < length rows \<longrightarrow> column_key rows ur ro c < column_key rows ur ro (Suc c))"
    using column_key_index [of rows ur ro] by (metis n_not_Suc_n order_le_less)
  finally show ?thesis .
qed

text \<open>
  C27: The comparator passed to \<open>std::sort\<close> is a strict total order on column indices, so the
  sort is well-defined: whatever sorting algorithm is used, for fewer than \<open>2\<^sup>3\<^sup>1\<close> columns the returned
  order is the one permutation of \<open>0, \<dots>, n - 1\<close> whose keys (empty columns first, then first round, last round,
  the row indices in ping-pong order, the column index) increase.
\<close>

theorem sorted_column_order_unique:
  assumes "length rows < 2 ^ 31" "mset order = mset [0..<length rows]"
    and "sorted_wrt (\<lambda>c d. \<not> column_less rows use_rounds round_of d c) order"
  shows "order = sorted_pcm_column_indices_impl rows use_rounds round_of \<and>
    sorted_wrt (\<lambda>c d. column_key rows use_rounds round_of c < column_key rows use_rounds round_of d) order"
proof
  show eq: "order = sorted_pcm_column_indices_impl rows use_rounds round_of"
    using assms(1) unfolding sorted_pcm_column_indices_impl_def
    by (subst iota_u32_id) (auto simp: max_u32_def intro: cols.std_sort_unique [OF assms(2,3)])
  have "distinct order" using assms(2) by (metis distinct_upt mset_eq_imp_distinct_iff)
  then show "sorted_wrt (\<lambda>c d. column_key rows use_rounds round_of c < column_key rows use_rounds round_of d) order"
    using assms(3) unfolding column_less_key not_less sorted_wrt_iff_nth_less
    by (metis column_key_index nat_neq_iff nth_eq_iff_index_eq order_less_le order_less_trans)
qed

theorem sorted_column_order_unique_witness:
  "[2, 1, 0] = sorted_pcm_column_indices_impl [[0, 2], [0, 1], []] True (\<lambda>r. r div 2)"
proof -
  have "mset [2, 1, 0] = mset [0..<length [[0, 2], [0, 1], [] :: nat list]]" by (simp add: upt_rec)
  moreover have "sorted_wrt (\<lambda>c d. \<not> column_less [[0, 2], [0, 1], []] True (\<lambda>r. r div 2) d c) [2, 1, 0]"
    by (simp add: column_less_def Let_def)
  ultimately show ?thesis using sorted_column_order_unique [of "[[0, 2], [0, 1], []]"] by simp
qed

text \<open>
  \<open>pcm_is_sorted\<close> answers true exactly when the keys of the columns increase from each column
  to the next, in both the uniform and the boundary-aware form; the latter rejects a zero
  round width and a boundary wider than a round.
\<close>

theorem pcm_is_sorted_iff:
  assumes "length rows \<le> max_u32"
  shows "(pcm_is_sorted rows S \<longleftrightarrow>
     (\<forall>c. Suc c < length rows \<longrightarrow> column_key rows (0 < S) (\<lambda>r. r div S) c < column_key rows (0 < S) (\<lambda>r. r div S) (Suc c))) \<and>
   (0 < S \<and> B \<le> S \<longrightarrow> pcm_is_sorted_boundary rows S B = Inr
     (\<forall>c. Suc c < length rows \<longrightarrow> column_key rows True (boundary_round S B) c < column_key rows True (boundary_round S B) (Suc c))) \<and>
   (S = 0 \<or> S < B \<longrightarrow> (\<exists>msg. pcm_is_sorted_boundary rows S B = Inl (Invalid_argument msg)))"
  by (auto simp: pcm_is_sorted_def get_sorted_pcm_column_indices_def pcm_is_sorted_boundary_def
      get_sorted_pcm_column_indices_boundary_def is_iota_impl_iff [OF assms])

theorem pcm_is_sorted_iff_witness:
  "pcm_is_sorted [[0], [0, 2], [2]] 2 \<and> \<not> pcm_is_sorted [[2], [0]] 2"
  using pcm_is_sorted_iff [of "[[0], [0, 2], [2]]" 2 0] pcm_is_sorted_iff [of "[[2], [0]]" 2 0]
  by (auto simp: column_key_def less_Suc_eq numeral_2_eq_2 max_u32_def)

text \<open>
  On the layouts the boundary-aware functions admit, the comparator's map from rows to
  rounds is \<open>round_layout::row_to_round\<close>; without a boundary width it is one more, which
  leaves every comparison unchanged.
\<close>

lemma boundary_round_agrees:
  assumes "layout_params_ok S B rows" "row < rows"
  shows "\<exists>l. round_layout_new S B rows = Inr l \<and>
    boundary_round S B row = row_to_round l row + (if B = 0 then 1 else 0)"
proof -
  from round_layout_new_ok [OF assms(1)] obtain l where l: "round_layout_new S B rows = Inr l" "layout_ok l"
    "rl_S l = S" "rl_B l = B" "rl_num_rows l = rows" by blast
  have S: "0 < S" using assms(1) by (simp add: layout_params_ok_def)
  have "boundary_round S B row = row_to_round l row + (if B = 0 then 1 else 0)"
  proof (cases "rl_boundary l")
    case False
    then have "B = 0 \<or> B = S" using l by (auto simp: layout_ok_def)
    then show ?thesis using False S l(3) le_div_geq [of S row]
      by (auto simp: boundary_round_def row_to_round_def not_less)
  next
    case True
    obtain k where k: "rl_num_rounds l = k + 2" "rows = 2 * B + k * S" "0 < B"
      using layout_boundaryE [OF l(2) True] l(3-5) by metis
    have BS: "B \<le> S" using assms(1) by (simp add: layout_params_ok_def)
    show ?thesis
    proof (cases "row < B + k * S")
      case False
      then have "(row - B) div S = k"
        using assms(2) k(2) BS S by (intro div_nat_eqI) (auto simp: algebra_simps)
      then show ?thesis using False True k l by (simp add: boundary_round_def row_to_round_def)
    qed (use True k l in \<open>auto simp: boundary_round_def row_to_round_def\<close>)
  qed
  with l(1) show ?thesis by blast
qed

lemma boundary_round_agrees_witness:
  "\<exists>l. round_layout_new 4 2 12 = Inr l \<and> boundary_round 4 2 10 = row_to_round l 10 + (if (2::nat) = 0 then 1 else 0)"
  by (rule boundary_round_agrees) (simp_all add: layout_params_ok_def)

end
