(* ===== verification/QEC_Pcm_Utils.thy ===== *)
theory QEC_Pcm_Utils
  imports QEC_Pcm_Sort
begin

text \<open>
  Parity-check matrix utilities (libs/qec/lib/pcm_utils.cpp): validation of parameters, column
  selection by rounds, dense and sparse column reordering, simplification with combination of
  error probabilities, and extraction of the matrix of a range of rounds. Results: the dense
  and sparse forms agree, the reordered matrix has exactly the requested entries, and
  simplification keeps the parity statistics of every distinct column.
\<close>

section \<open>Validation\<close>

definition validate_random_pcm_sparse_params :: "nat \<Rightarrow> nat \<Rightarrow> nat \<Rightarrow> int \<Rightarrow> unit res" where
  "validate_random_pcm_sparse_params n_rounds n_errs_per_round n_syndromes_per_round weight =
     (if weight < 0 \<or> n_syndromes_per_round < nat weight
      then Inl (Invalid_argument ''generate_random_pcm_sparse: weight must be in [0, n_syndromes_per_round]'')
      else if n_rounds \<noteq> 0 \<and> (max_u32 div n_rounds < n_errs_per_round \<or> max_u32 div n_rounds < n_syndromes_per_round)
      then Inl (Invalid_argument ''generate_random_pcm_sparse: n_rounds * n_errs_per_round and n_rounds * n_syndromes_per_round must each fit in sparse_binary_matrix::index_type (uint32_t)'')
      else let n_cols = n_rounds * n_errs_per_round; w = nat weight in
        if n_cols \<noteq> 0 \<and> max_u32 div n_cols < w
        then Inl (Invalid_argument ''generate_random_pcm_sparse: total nnz (n_rounds * n_errs_per_round * weight) must fit in sparse_binary_matrix::index_type (uint32_t)'')
        else Inr ())"

definition to_canonical_nested_csr :: "sparse_binary_matrix \<Rightarrow> nat list list res" where
  "to_canonical_nested_csr pcm = rbind (canonicalize pcm) (\<lambda>m. Inr (to_nested_csr m))"

record reorder_pcm_columns_bounds =
  rb_row_end :: nat
  rb_num_rows_to_copy :: nat

definition validate_reorder_pcm_columns_rows :: "nat \<Rightarrow> nat \<Rightarrow> nat \<Rightarrow> reorder_pcm_columns_bounds res" where
  "validate_reorder_pcm_columns_rows num_rows row_begin row_end =
     (if row_end < row_begin
      then Inl (Invalid_argument ''reorder_pcm_columns: row_begin must be less than or equal to row_end'')
      else if num_rows = 0
      then (if row_begin \<noteq> 0
            then Inl (Invalid_argument ''reorder_pcm_columns: row_begin is greater than the number of rows in PCM'')
            else Inr \<lparr>rb_row_end = 0, rb_num_rows_to_copy = 0\<rparr>)
      else if num_rows \<le> row_begin
      then Inl (Invalid_argument ''reorder_pcm_columns: row_begin is greater than the number of rows in PCM'')
      else let last_row = (if max_u32 < num_rows - 1 then max_u32 else num_rows - 1);
               clamped_row_end = min row_end last_row
        in Inr \<lparr>rb_row_end = clamped_row_end,
                rb_num_rows_to_copy = u32 (u32_sub clamped_row_end row_begin + 1)\<rparr>)"

definition validate_reorder_pcm_columns_column_order :: "nat list \<Rightarrow> nat \<Rightarrow> unit res" where
  "validate_reorder_pcm_columns_column_order column_order num_cols =
     require (\<not> list_ex (\<lambda>c. num_cols \<le> c) column_order)
       (Invalid_argument ''reorder_pcm_columns: column_order contains a column index that is greater than the number of columns in PCM'')"

definition validate_pcm_for_rounds_params :: "nat \<Rightarrow> nat \<Rightarrow> nat \<Rightarrow> nat \<Rightarrow> nat \<Rightarrow> unit res" where
  "validate_pcm_for_rounds_params S B start_round end_round num_rows =
     (if S = 0 then Inl (Invalid_argument ''get_pcm_for_rounds: num_syndromes_per_round must be greater than 0'')
      else if S < B then Inl (Invalid_argument ''get_pcm_for_rounds: num_boundary_syndromes must be <= num_syndromes_per_round'')
      else rbind (round_layout_new S B num_rows) (\<lambda>layout.
        if rl_boundary layout \<and> (num_rows < u32 (2 * B) \<or> (num_rows - u32 (2 * B)) mod S \<noteq> 0)
        then Inl (Invalid_argument ''get_pcm_for_rounds: number of PCM rows is inconsistent with the given num_syndromes_per_round and num_boundary_syndromes'')
        else if rl_num_rounds layout \<le> end_round
        then Inl (Invalid_argument ''get_pcm_for_rounds: end_round is greater than the last round index'')
        else if num_rows \<le> round_start layout start_round
        then Inl (Invalid_argument ''get_pcm_for_rounds: first_row_to_keep is greater than the number of rows in PCM'')
        else Inr ()))"

section \<open>Column selection\<close>

definition column_in_round_range ::
  "round_layout \<Rightarrow> nat \<Rightarrow> nat \<Rightarrow> bool \<Rightarrow> bool \<Rightarrow> nat list \<Rightarrow> bool" where
  "column_in_round_range layout start_round end_round straddle_start straddle_end col =
     (if col = [] then False
      else let first_round = row_to_round layout (hd col); last_round = row_to_round layout (last col) in
        if last_round < start_round \<or> end_round < first_round then False
        else (start_round \<le> first_round \<and> last_round \<le> end_round) \<or>
             (straddle_start \<and> first_round \<le> start_round \<and> start_round \<le> last_round) \<or>
             (straddle_end \<and> first_round \<le> end_round \<and> end_round \<le> last_round))"

definition select_pcm_columns_for_round_range ::
  "nat list list \<Rightarrow> round_layout \<Rightarrow> nat \<Rightarrow> nat \<Rightarrow> bool \<Rightarrow> bool \<Rightarrow> nat list \<times> nat \<times> nat" where
  "select_pcm_columns_for_round_range row_indices layout start_round end_round ss se =
     (let cols = map u32 (filter (\<lambda>c. column_in_round_range layout start_round end_round ss se (row_indices ! c))
                            [0..<length row_indices])
      in (cols, if cols \<noteq> [] then hd cols else max_u32, if cols \<noteq> [] then last cols else 0))"

section \<open>Dense matrices\<close>

definition dense_to_sparse :: "u8 tensor \<Rightarrow> nat list list res" where
  "dense_to_sparse pcm =
     (if tensor_rank pcm \<noteq> 2 then Inl (Invalid_argument ''dense_to_sparse: PCM must be a 2D tensor'')
      else let num_rows = shape pcm ! 0; num_cols = shape pcm ! 1 in
        rfold (\<lambda>r row_indices. rbind (tensor_cref pcm [r, 0]) (\<lambda>row.
            Inr (fold (\<lambda>c rows. if data pcm ! (row + c) \<noteq> 0 then rows[c := rows ! c @ [u32 r]] else rows)
                   [0..<num_cols] row_indices)))
          [0..<num_rows] (replicate num_cols []))"

definition get_sorted_pcm_column_indices_dense :: "u8 tensor \<Rightarrow> nat \<Rightarrow> nat list res" where
  "get_sorted_pcm_column_indices_dense pcm S =
     (if tensor_rank pcm \<noteq> 2 then Inl (Invalid_argument ''get_sorted_pcm_column_indices: PCM must be a 2D tensor'')
      else rbind (dense_to_sparse pcm) (\<lambda>row_indices. Inr (get_sorted_pcm_column_indices row_indices S)))"

definition pcm_is_sorted_dense :: "u8 tensor \<Rightarrow> nat \<Rightarrow> bool res" where
  "pcm_is_sorted_dense pcm S =
     (if tensor_rank pcm \<noteq> 2 then Inl (Invalid_argument ''pcm_is_sorted: PCM must be a 2D tensor'')
      else rbind (get_sorted_pcm_column_indices_dense pcm S) (\<lambda>column_indices.
        Inr (is_iota column_indices (shape pcm ! 1))))"

definition reorder_pcm_columns ::
  "(nat \<Rightarrow> nat \<Rightarrow> u8 list \<Rightarrow> u8 list) \<Rightarrow> u8 tensor \<Rightarrow> nat list \<Rightarrow> nat \<Rightarrow> nat \<Rightarrow> u8 tensor res" where
  "reorder_pcm_columns xt pcm column_order row_begin row_end =
     (if tensor_rank pcm \<noteq> 2 then Inl (Invalid_argument ''reorder_pcm_columns: PCM must be a 2D tensor'')
      else let num_rows = shape pcm ! 0; num_cols = shape pcm ! 1; new_num_cols = length column_order in
        rbind (validate_reorder_pcm_columns_rows num_rows row_begin row_end) (\<lambda>bounds.
        rbind (validate_reorder_pcm_columns_column_order column_order num_cols) (\<lambda>_.
          let n = rb_num_rows_to_copy bounds in
          if n = 0 then Inr (tensor_new [0, new_num_cols])
          else rbind (tensor_transpose xt pcm) (\<lambda>transposed_pcm.
            rbind (rfold (\<lambda>c new_pcm_t.
                rbind (tensor_ref transposed_pcm [column_order ! c, row_begin]) (\<lambda>orig_col.
                rbind (tensor_ref new_pcm_t [c, 0]) (\<lambda>new_col.
                rbind (mem_copy (data new_pcm_t) new_col (data transposed_pcm) orig_col n) (\<lambda>d.
                  Inr (new_pcm_t\<lparr>data := d\<rparr>)))))
              [0..<new_num_cols] (tensor_new [new_num_cols, n])) (tensor_transpose xt)))))"

definition reorder_pcm_columns_sparse ::
  "sparse_binary_matrix \<Rightarrow> nat list \<Rightarrow> nat \<Rightarrow> nat \<Rightarrow> sparse_binary_matrix res" where
  "reorder_pcm_columns_sparse pcm column_order row_begin row_end =
     (if max_u32 < length column_order
      then Inl (Invalid_argument ''reorder_pcm_columns: output column count exceeds index_type range'')
      else rbind (validate_reorder_pcm_columns_rows (sbm_rows pcm) row_begin row_end) (\<lambda>bounds.
        rbind (validate_reorder_pcm_columns_column_order column_order (sbm_cols pcm)) (\<lambda>_.
          if rb_num_rows_to_copy bounds = 0
          then from_nested_csc 0 (length column_order) (replicate (length column_order) [])
          else let csc = to_csc pcm;
                   nested = map (\<lambda>orig_c. map (\<lambda>row. row - row_begin)
                       (filter (\<lambda>row. row_begin \<le> row \<and> row \<le> rb_row_end bounds)
                          (map (\<lambda>p. sbm_idx csc ! p) [sbm_ptr csc ! orig_c..<sbm_ptr csc ! (orig_c + 1)]))) column_order
            in from_nested_csc (u32 (rb_num_rows_to_copy bounds)) (length column_order) nested)))"

definition default_row_end :: nat where
  "default_row_end = max_u32"

definition sort_pcm_columns ::
  "(nat \<Rightarrow> nat \<Rightarrow> u8 list \<Rightarrow> u8 list) \<Rightarrow> u8 tensor \<Rightarrow> nat \<Rightarrow> u8 tensor res" where
  "sort_pcm_columns xt pcm S =
     rbind (get_sorted_pcm_column_indices_dense pcm S) (\<lambda>column_order.
       reorder_pcm_columns xt pcm column_order 0 default_row_end)"

section \<open>Simplification\<close>

definition simplify_step ::
  "nat list list \<Rightarrow> real list \<Rightarrow> nat \<Rightarrow> nat list list \<times> real list \<Rightarrow> (nat list list \<times> real list) res" where
  "simplify_step row_indices weights column_index s =
     (let curr = row_indices ! column_index; new_rows = fst s; new_weights = snd s in
      if curr = [] then Inr s
      else rbind (vget weights column_index) (\<lambda>w.
        if w = 0 then Inr s
        else if new_rows = [] then Inr (new_rows @ [curr], new_weights @ [w])
        else if last new_rows = curr
        then let prev_weight = last new_weights
             in Inr (new_rows, butlast new_weights @ [prev_weight + w - 2 * prev_weight * w])
        else Inr (new_rows @ [curr], new_weights @ [w])))"

definition columns_cells :: "nat list list \<Rightarrow> (nat \<times> nat) list" where
  "columns_cells cols = concat (map (\<lambda>c. map (\<lambda>r. (r, c)) (cols ! c)) [0..<length cols])"

definition simplify_pcm :: "u8 tensor \<Rightarrow> real list \<Rightarrow> nat \<Rightarrow> (u8 tensor \<times> real list) res" where
  "simplify_pcm pcm weights S =
     rbind (dense_to_sparse pcm) (\<lambda>row_indices.
     rbind (get_sorted_pcm_column_indices_dense pcm S) (\<lambda>column_order.
     rbind (rfold (simplify_step row_indices weights) column_order ([], [])) (\<lambda>(new_rows, new_weights).
     rbind (rfold (\<lambda>rc t. tensor_set t [fst rc, snd rc] 1) (columns_cells new_rows)
              (tensor_new [shape pcm ! 0, length new_rows])) (\<lambda>new_pcm.
       Inr (new_pcm, new_weights)))))"

section \<open>The matrix of a range of rounds\<close>

definition get_pcm_for_rounds ::
  "(nat \<Rightarrow> nat \<Rightarrow> u8 list \<Rightarrow> u8 list) \<Rightarrow> u8 tensor \<Rightarrow> nat \<Rightarrow> nat \<Rightarrow> nat \<Rightarrow> bool \<Rightarrow> bool \<Rightarrow> nat \<Rightarrow>
   (u8 tensor \<times> nat \<times> nat) res" where
  "get_pcm_for_rounds xt pcm S start_round end_round ss se B =
     rbind (vget (shape pcm) 0) (\<lambda>num_rows.
     rbind (validate_pcm_for_rounds_params S B start_round end_round num_rows) (\<lambda>_.
     rbind (round_layout_new S B num_rows) (\<lambda>layout.
       let first_row_to_keep = round_start layout start_round;
           last_row_to_keep = sz_sub (round_start layout (u32 (end_round + 1))) 1
       in rbind (dense_to_sparse pcm) (\<lambda>row_indices.
         let (columns_in_range, first_column, last_column) =
               select_pcm_columns_for_round_range row_indices layout start_round end_round ss se
         in rbind (reorder_pcm_columns xt pcm columns_in_range (u32 first_row_to_keep) (u32 last_row_to_keep))
              (\<lambda>sub. Inr (sub, first_column, last_column))))))"

definition get_pcm_for_rounds_sparse ::
  "sparse_binary_matrix \<Rightarrow> nat \<Rightarrow> nat \<Rightarrow> nat \<Rightarrow> bool \<Rightarrow> bool \<Rightarrow> bool \<Rightarrow> nat \<Rightarrow> (u8 tensor \<times> nat \<times> nat) res" where
  "get_pcm_for_rounds_sparse pcm S start_round end_round ss se pcm_is_canonical B =
     rbind (validate_pcm_for_rounds_params S B start_round end_round (sbm_rows pcm)) (\<lambda>_.
     rbind (round_layout_new S B (sbm_rows pcm)) (\<lambda>layout.
       let first_row_to_keep = u32 (round_start layout start_round);
           last_row_to_keep = u32 (sz_sub (round_start layout (u32 (end_round + 1))) 1)
       in rbind (if pcm_is_canonical then Inr (to_nested_csc pcm)
                 else rbind (canonicalize pcm) (\<lambda>m. Inr (to_nested_csc m))) (\<lambda>row_indices.
         let (columns_in_range, first_column, last_column) =
               select_pcm_columns_for_round_range row_indices layout start_round end_round ss se;
             num_rows_to_copy = u32 (u32_sub last_row_to_keep first_row_to_keep + 1);
             cells = concat (map (\<lambda>out_c.
                 map (\<lambda>row. (u32_sub row first_row_to_keep, out_c))
                   (filter (\<lambda>row. first_row_to_keep \<le> row \<and> row \<le> last_row_to_keep)
                      (row_indices ! (columns_in_range ! out_c)))) [0..<length columns_in_range])
         in rbind (rfold (\<lambda>rc t. tensor_set t [fst rc, snd rc] 1) cells
                     (tensor_new [num_rows_to_copy, length columns_in_range]))
              (\<lambda>dense_sub. Inr (dense_sub, first_column, last_column)))))"

section \<open>Dense to sparse\<close>

lemma push_row:
  assumes "length rows = nc" "k \<le> nc"
  shows "fold (\<lambda>c rows. if P c then rows[c := rows ! c @ [v]] else rows) [0..<k] rows
    = map (\<lambda>c. if c < k \<and> P c then rows ! c @ [v] else rows ! c) [0..<nc]"
  using assms
proof (induction k)
  case 0 then show ?case by (auto intro: map_nth [symmetric])
next
  case (Suc k)
  then show ?case by (auto intro!: nth_equalityI simp: nth_list_update less_Suc_eq)
qed

definition columns_of :: "u8 tensor \<Rightarrow> nat \<Rightarrow> nat \<Rightarrow> nat list list" where
  "columns_of t nr nc = map (\<lambda>c. filter (\<lambda>r. ent t r c \<noteq> 0) [0..<nr]) [0..<nc]"

lemma dense_to_sparse_columns:
  assumes "is_mat t nr nc" "nr \<le> max_u32"
  shows "dense_to_sparse t =
    (if 0 < nr \<and> nc = 0 then Inl (Runtime_error ''Invalid constant tensor indices'') else Inr (columns_of t nr nc))"
proof (cases "0 < nr \<and> nc = 0")
  case True
  then obtain k where "nr = Suc k" by (cases nr) auto
  then have "[0..<nr] = 0 # [1..<nr]" by (simp add: upt_conv_Cons)
  then show ?thesis using True is_matD [OF assms(1)]
    by (simp add: dense_to_sparse_def tensor_cref_mat [OF assms(1)])
next
  case False
  let ?step = "\<lambda>r row_indices. rbind (tensor_cref t [r, 0]) (\<lambda>row.
            Inr (fold (\<lambda>c rows. if data t ! (row + c) \<noteq> 0 then rows[c := rows ! c @ [u32 r]] else rows)
                   [0..<nc] row_indices))"
  have "rfold ?step [0..<k] (replicate nc []) = Inr (columns_of t k nc)" if "k \<le> nr" for k
    using that
  proof (induction k)
    case 0 then show ?case by (simp add: columns_of_def map_replicate_const)
  next
    case (Suc k)
    have "?step k (columns_of t k nc) = Inr (columns_of t (Suc k) nc)"
      using Suc.prems assms(2) False is_matD [OF assms(1)]
      by (simp add: tensor_cref_mat [OF assms(1)])
        (subst push_row [of _ nc], auto simp: columns_of_def ent_def)
    then show ?case using Suc by (simp add: rfold_append)
  qed
  from this [of nr] show ?thesis using is_matD [OF assms(1)] False by (auto simp: dense_to_sparse_def)
qed

lemma strictly_sorted_columns_of: "v \<in> set (columns_of t nr nc) \<Longrightarrow> strictly_sorted v"
  by (auto simp: columns_of_def sorted_wrt_filter)

lemma length_columns_of [simp]: "length (columns_of t nr nc) = nc"
  by (simp add: columns_of_def)

lemma set_columns_of: "c < nc \<Longrightarrow> set (columns_of t nr nc ! c) = {r. r < nr \<and> ent t r c \<noteq> 0}"
  by (auto simp: columns_of_def)

text \<open>A canonical column-major matrix with the same support has the same columns.\<close>

lemma groups_columns_of:
  assumes "canonical m" "sbm_rows m = nr" "sbm_cols m = nc"
    and "\<And>r c. r < nr \<Longrightarrow> c < nc \<Longrightarrow> mult_at m r c = (if ent t r c \<noteq> 0 then 1 else 0)"
  shows "to_nested_csc m = columns_of t nr nc"
proof -
  have ok: "sbm_ok m" using assms(1) by (simp add: canonical_def)
  have can: "canonical (to_csc m)" by (rule to_csc_canonical [OF assms(1)])
  have lay: "sbm_layout (to_csc m) = CSC" "sbm_cols (to_csc m) = nc" "sbm_rows (to_csc m) = nr"
    using to_csc_props [OF ok] assms(2,3) by simp_all
  then have n: "num_groups (to_csc m) = nc" by (simp add: num_groups_def)
  have mult: "mult_at (to_csc m) r c = (if ent t r c \<noteq> 0 then 1 else 0)" if "r < nr" "c < nc" for r c
    using to_csc_props [OF ok] that assms(2-4) by simp
  show ?thesis
    unfolding to_nested_csc_groups [OF ok]
  proof (rule nth_equalityI)
    fix c assume "c < length (groups (to_csc m))"
    then have c: "c < nc" using n by simp
    have "set (groups (to_csc m) ! c) = {r. r < nr \<and> ent t r c \<noteq> 0}"
    proof (intro equalityI subsetI)
      fix r assume r: "r \<in> set (groups (to_csc m) ! c)"
      have "r < nr" using set_group_bound [of "to_csc m" c r] can r n c lay by (simp add: canonical_def index_bound_def)
      moreover have "0 < mult_at (to_csc m) r c" using r lay by (simp add: mult_at_def)
      ultimately show "r \<in> {r. r < nr \<and> ent t r c \<noteq> 0}" using mult [of r c] c by (auto split: if_splits)
    next
      fix r assume "r \<in> {r. r < nr \<and> ent t r c \<noteq> 0}"
      then have "0 < mult_at (to_csc m) r c" using mult [of r c] c by simp
      then show "r \<in> set (groups (to_csc m) ! c)" using lay by (simp add: mult_at_def)
    qed
    moreover have "strictly_sorted (groups (to_csc m) ! c)" using can c n by (simp add: canonical_def)
    moreover have "strictly_sorted (columns_of t nr nc ! c)"
      using c by (intro strictly_sorted_columns_of [of _ t nr nc]) simp
    ultimately show "groups (to_csc m) ! c = columns_of t nr nc ! c"
      using set_columns_of [OF c, of t nr] by (metis strict_sorted_equal)
  qed (simp add: n)
qed

section \<open>Reordering\<close>

lemma validate_rows_ok:
  assumes "row_begin \<le> row_end" "row_begin < num_rows" "num_rows \<le> max_u32"
  shows "validate_reorder_pcm_columns_rows num_rows row_begin row_end =
    Inr \<lparr>rb_row_end = min row_end (num_rows - 1), rb_num_rows_to_copy = min row_end (num_rows - 1) - row_begin + 1\<rparr>"
proof -
  let ?e = "min row_end (num_rows - 1)"
  have le: "row_begin \<le> ?e" "?e < max_u32" using assms by auto
  then have "u32_sub ?e row_begin = ?e - row_begin" by (intro u32_sub_id) auto
  moreover have "u32 (?e - row_begin + 1) = ?e - row_begin + 1" using le by (intro u32_id) auto
  moreover have "\<not> max_u32 < num_rows - 1" using assms by auto
  ultimately show ?thesis using assms by (simp add: validate_reorder_pcm_columns_rows_def Let_def)
qed

lemma validate_column_order_iff:
  "validate_reorder_pcm_columns_column_order order nc = (if \<forall>c \<in> set order. c < nc then Inr () else
     Inl (Invalid_argument ''reorder_pcm_columns: column_order contains a column index that is greater than the number of columns in PCM''))"
  by (auto simp: validate_reorder_pcm_columns_column_order_def require_def list_ex_iff not_le)

lemma reorder_pcm_columns_entries:
  assumes "xt_transpose_ok xt" "is_mat t nr nc" "nr \<le> max_u32" "\<forall>c \<in> set order. c < nc"
    and "row_begin \<le> row_end" "row_begin < nr"
  shows "reorder_pcm_columns xt t order row_begin row_end =
    Inr (mk_mat (min row_end (nr - 1) - row_begin + 1) (length order) (\<lambda>r c. ent t (row_begin + r) (order ! c)))"
proof -
  define n where "n = min row_end (nr - 1) - row_begin + 1"
  have n: "0 < n" "row_begin + n \<le> nr" using assms(5,6) by (auto simp: n_def)
  define tr where "tr = mk_mat nc nr (\<lambda>c r. ent t r c)"
  have trm: "is_mat tr nc nr" by (simp add: tr_def mat_simps)
  have trt: "tensor_transpose xt t = Inr tr" unfolding tr_def by (rule tensor_transpose_mat [OF assms(1,2)])
  have src: "order ! k * nr + row_begin + n \<le> length (data tr)" if "k < length order" for k
  proof -
    have "order ! k < nc" using that assms(4) by simp
    then have "order ! k * nr + nr \<le> nc * nr" by (metis Suc_leI add.commute mult_Suc mult_le_mono1)
    then show ?thesis using n trm by (simp add: is_mat_def)
  qed
  have slice: "take n (drop (order ! k * nr + row_begin) (data tr)) = map (\<lambda>r. ent t (row_begin + r) (order ! k)) [0..<n]"
    if "k < length order" for k
    unfolding tr_def using that assms(4) n by (subst mk_mat_row_slice) auto
  have "rfold (\<lambda>c new_pcm_t.
                rbind (tensor_ref tr [order ! c, row_begin]) (\<lambda>orig_col.
                rbind (tensor_ref new_pcm_t [c, 0]) (\<lambda>new_col.
                rbind (mem_copy (data new_pcm_t) new_col (data tr) orig_col n) (\<lambda>d.
                  Inr (new_pcm_t\<lparr>data := d\<rparr>)))))
              [0..<length order] (tensor_new [length order, n])
      = rfold (\<lambda>k t. rbind (tensor_ref t [k, 0]) (\<lambda>d.
            rbind (mem_copy (data t) d (data tr) (order ! k * nr + row_begin) n) (\<lambda>ds. Inr (t\<lparr>data := ds\<rparr>))))
          [0..<length order] (tensor_new [length order, n])"
    by (rule rfold_cong) (use assms(4,6) in \<open>auto simp: tensor_ref_mat [OF trm]\<close>)
  also have "\<dots> = Inr (mk_mat (length order) n (\<lambda>c r. ent t (row_begin + r) (order ! c)))"
  proof -
    have "concat (map (\<lambda>k. take n (drop (order ! k * nr + row_begin) (data tr))) [0..<length order])
        = data (mk_mat (length order) n (\<lambda>c r. ent t (row_begin + r) (order ! c)))"
      unfolding mk_mat_rows by (intro arg_cong [where f = concat] map_cong) (auto simp: slice)
    then show ?thesis
      using copy_rows [of "length order" "\<lambda>k. order ! k * nr + row_begin" n "data tr" "length order", OF src n(1)]
      by (simp add: mk_mat_def)
  qed
  finally have loop: "rfold (\<lambda>c new_pcm_t.
                rbind (tensor_ref tr [order ! c, row_begin]) (\<lambda>orig_col.
                rbind (tensor_ref new_pcm_t [c, 0]) (\<lambda>new_col.
                rbind (mem_copy (data new_pcm_t) new_col (data tr) orig_col n) (\<lambda>d.
                  Inr (new_pcm_t\<lparr>data := d\<rparr>)))))
              [0..<length order] (tensor_new [length order, n])
      = Inr (mk_mat (length order) n (\<lambda>c r. ent t (row_begin + r) (order ! c)))" .
  have tr2: "tensor_transpose xt (mk_mat (length order) n (\<lambda>c r. ent t (row_begin + r) (order ! c)))
      = Inr (mk_mat n (length order) (\<lambda>r c. ent t (row_begin + r) (order ! c)))"
    unfolding tensor_transpose_mat [OF assms(1) is_mat_mk_mat]
    by (rule arg_cong [where f = Inr], rule mat_eqI [of _ n "length order"]) (simp_all add: mat_simps)
  have "validate_reorder_pcm_columns_rows nr row_begin row_end =
      Inr \<lparr>rb_row_end = min row_end (nr - 1), rb_num_rows_to_copy = n\<rparr>"
    unfolding n_def by (rule validate_rows_ok [OF assms(5,6,3)])
  then show ?thesis
    using is_matD [OF assms(2)] trt assms(4) loop tr2 n(1)
    by (simp add: reorder_pcm_columns_def validate_column_order_iff Let_def n_def [symmetric] del: One_nat_def)
qed

lemma reorder_pcm_columns_errors:
  assumes "is_mat t nr nc"
  shows "row_end < row_begin \<Longrightarrow> \<exists>msg. reorder_pcm_columns xt t order row_begin row_end = Inl (Invalid_argument msg)"
    and "nr \<le> row_begin \<Longrightarrow> 0 < row_begin \<Longrightarrow> \<exists>msg. reorder_pcm_columns xt t order row_begin row_end = Inl (Invalid_argument msg)"
    and "\<exists>c \<in> set order. nc \<le> c \<Longrightarrow> \<exists>msg. reorder_pcm_columns xt t order row_begin row_end = Inl (Invalid_argument msg)"
proof -
  show "row_end < row_begin \<Longrightarrow> \<exists>msg. reorder_pcm_columns xt t order row_begin row_end = Inl (Invalid_argument msg)"
    "nr \<le> row_begin \<Longrightarrow> 0 < row_begin \<Longrightarrow> \<exists>msg. reorder_pcm_columns xt t order row_begin row_end = Inl (Invalid_argument msg)"
    using is_matD [OF assms]
    by (auto simp: reorder_pcm_columns_def validate_reorder_pcm_columns_rows_def Let_def)
  show "\<exists>msg. reorder_pcm_columns xt t order row_begin row_end = Inl (Invalid_argument msg)"
    if "\<exists>c \<in> set order. nc \<le> c"
  proof (cases "validate_reorder_pcm_columns_rows nr row_begin row_end")
    case (Inl e)
    then have "\<exists>msg. e = Invalid_argument msg"
      by (auto simp: validate_reorder_pcm_columns_rows_def Let_def split: if_splits)
    then show ?thesis using Inl is_matD [OF assms] by (auto simp: reorder_pcm_columns_def Let_def)
  next
    case (Inr b)
    then show ?thesis using that is_matD [OF assms]
      by (auto simp: reorder_pcm_columns_def validate_column_order_iff Let_def not_less)
  qed
qed

lemma reorder_sparse_mult:
  assumes "sbm_ok m" "\<forall>c \<in> set order. c < sbm_cols m" "length order < max_u32"
    and "row_begin \<le> row_end" "row_begin < sbm_rows m"
    and "sum_list (map (\<lambda>c. length (groups (to_csc m) ! c)) order) \<le> max_u32"
  shows "\<exists>m'. reorder_pcm_columns_sparse m order row_begin row_end = Inr m' \<and> sbm_ok m' \<and>
    sbm_rows m' = min row_end (sbm_rows m - 1) - row_begin + 1 \<and> sbm_cols m' = length order \<and>
    (\<forall>r < sbm_rows m'. \<forall>c < length order. mult_at m' r c = mult_at m (row_begin + r) (order ! c))"
proof -
  let ?n = "min row_end (sbm_rows m - 1) - row_begin + 1"
  have rows: "sbm_rows m \<le> max_u32" using assms(1) by (simp add: sbm_ok_def)
  have csc: "sbm_ok (to_csc m)" "sbm_layout (to_csc m) = CSC" "sbm_cols (to_csc m) = sbm_cols m"
    "sbm_rows (to_csc m) = sbm_rows m" using to_csc_props [OF assms(1)] by simp_all
  have ng: "num_groups (to_csc m) = sbm_cols m" using csc by (simp add: num_groups_def)
  have grp: "map (\<lambda>p. sbm_idx (to_csc m) ! p) [sbm_ptr (to_csc m) ! c..<sbm_ptr (to_csc m) ! (c + 1)] = groups (to_csc m) ! c"
    if "c < sbm_cols m" for c
    using that ng ptr_ok_bound [OF sbm_okD(1) [OF csc(1)], of "c + 1"] by (simp add: groups_def vslice_eq_map)
  define pick where "pick g = map (\<lambda>row. row - row_begin) (filter (\<lambda>row. row_begin \<le> row \<and> row \<le> min row_end (sbm_rows m - 1)) g)" for g
  define nested where "nested = map (\<lambda>c. pick (groups (to_csc m) ! c)) order"
  have "sum_list (map length nested) \<le> sum_list (map (\<lambda>c. length (groups (to_csc m) ! c)) order)"
    unfolding nested_def map_map by (rule sum_list_mono) (simp add: pick_def)
  then have "\<exists>m'. from_nested_csc ?n (length order) nested = Inr m' \<and> sbm_ok m' \<and> sbm_layout m' = CSC \<and>
      sbm_rows m' = ?n \<and> sbm_cols m' = length order \<and> groups m' = nested"
    by (intro from_nested_csc_groups) (use assms rows in \<open>auto simp: nested_def pick_def\<close>)
  then obtain m' where m': "from_nested_csc ?n (length order) nested = Inr m'" "sbm_ok m'" "sbm_layout m' = CSC"
      "sbm_rows m' = ?n" "sbm_cols m' = length order" "groups m' = nested" by blast
  have cnt: "count_list (pick g) r = count_list g (row_begin + r)" if "r < ?n" for g r
    using that assms(4,5) unfolding pick_def by (induction g) auto
  have "reorder_pcm_columns_sparse m order row_begin row_end = Inr m'"
  proof -
    have "map (\<lambda>orig_c. map (\<lambda>row. row - row_begin) (filter (\<lambda>row. row_begin \<le> row \<and> row \<le> min row_end (sbm_rows m - 1))
        (map (\<lambda>p. sbm_idx (to_csc m) ! p) [sbm_ptr (to_csc m) ! orig_c..<sbm_ptr (to_csc m) ! (orig_c + 1)]))) order = nested"
      unfolding nested_def by (rule map_cong) (use assms(2) grp in \<open>auto simp: pick_def\<close>)
    then show ?thesis
      using assms(2,3) rows m'(1)
      by (simp add: reorder_pcm_columns_sparse_def validate_rows_ok [OF assms(4,5) rows] validate_column_order_iff Let_def)
  qed
  moreover have "mult_at m' r c = mult_at m (row_begin + r) (order ! c)" if "r < ?n" "c < length order" for r c
  proof -
    have "order ! c < sbm_cols m" "row_begin + r < sbm_rows m" using that assms by auto
    then have "mult_at m (row_begin + r) (order ! c) = mult_at (to_csc m) (row_begin + r) (order ! c)"
      using to_csc_props [OF assms(1)] by simp
    then show ?thesis using that csc(2) m'(3,6) cnt by (simp add: mult_at_def nested_def)
  qed
  ultimately show ?thesis using m' by auto
qed

section \<open>Ranges of rounds\<close>

lemma validated_rounds:
  assumes "validate_pcm_for_rounds_params S B s e nr = Inr ()" "nr \<le> max_u32" "s \<le> e"
  obtains l where "round_layout_new S B nr = Inr l" "u32 (e + 1) = e + 1"
    "round_start l s < round_start l (e + 1)" "round_start l (e + 1) \<le> nr"
proof -
  from assms(1) obtain l where l: "round_layout_new S B nr = Inr l" and S: "0 < S" "B \<le> S"
    and b: "\<not> (rl_boundary l \<and> (nr < u32 (2 * B) \<or> (nr - u32 (2 * B)) mod S \<noteq> 0))"
    and e: "e < rl_num_rounds l" and s: "round_start l s < nr"
    by (auto simp: validate_pcm_for_rounds_params_def rbind_Inr_iff split: if_splits)
  show thesis
  proof (cases "rl_boundary l")
    case False
    then have n: "rl_num_rounds l = nr div S" and "rl_S l = S"
      using l S by (auto simp: round_layout_new_def Let_def split: if_splits)
    have "(e + 1) * S \<le> nr div S * S" using e n by (intro mult_le_mono1) simp
    also have "\<dots> \<le> nr" by simp
    finally have "(e + 1) * S \<le> nr" .
    moreover have "s * S < (e + 1) * S" using assms(3) S(1) by (intro mult_less_mono1) simp_all
    moreover have "e + 1 \<le> nr" using e n div_le_dividend [of nr S] by linarith
    ultimately show thesis using that [of l] l False \<open>rl_S l = S\<close> assms(2) by (simp add: round_start_def)
  next
    case True
    then have B: "B \<noteq> 0" "B \<noteq> S" using l by (auto simp: round_layout_new_def Let_def split: if_splits)
    have "2 * B \<le> nr" using l e B by (auto simp: round_layout_new_def Let_def split: if_splits)
    then have "u32 (2 * B) = 2 * B" using assms(2) by simp
    then have "S dvd (nr - 2 * B)" using b True by (simp add: mod_eq_0_iff_dvd)
    then have "layout_params_ok S B nr" using S B \<open>2 * B \<le> nr\<close> by (simp add: layout_params_ok_def)
    then have ok: "layout_ok l" "rl_num_rows l = nr" using round_layout_new_ok l by fastforce+
    have "round_start l s < round_start l (e + 1)" using rl.start_less [OF ok(1)] assms(3) e by simp
    moreover have "round_start l (e + 1) \<le> nr" using rl.start_mono [OF ok(1), of "e + 1" "rl_num_rounds l"]
        rl.start_end [OF ok(1)] ok(2) e by simp
    moreover have "rl_num_rounds l = (nr - 2 * B) div S + 2"
      using l B \<open>2 * B \<le> nr\<close> S by (auto simp: round_layout_new_def Let_def)
    then have "e + 1 \<le> nr" using e B(1) \<open>2 * B \<le> nr\<close> div_le_dividend [of "nr - 2 * B" S] by linarith
    ultimately show thesis using that [of l] l assms(2) by simp
  qed
qed

lemma select_columns:
  assumes "length rows \<le> max_u32"
  shows "fst (select_pcm_columns_for_round_range rows l s e ss se)
    = filter (\<lambda>c. column_in_round_range l s e ss se (rows ! c)) [0..<length rows]"
  using assms by (auto simp: select_pcm_columns_for_round_range_def Let_def intro!: map_idI)

text \<open>The common value of the two overloads.\<close>

definition rounds_submatrix ::
  "u8 tensor \<Rightarrow> nat \<Rightarrow> nat \<Rightarrow> round_layout \<Rightarrow> nat \<Rightarrow> nat \<Rightarrow> bool \<Rightarrow> bool \<Rightarrow> u8 tensor \<times> nat \<times> nat" where
  "rounds_submatrix t nr nc l s e ss se =
     (let (cols, first_column, last_column) = select_pcm_columns_for_round_range (columns_of t nr nc) l s e ss se
      in (mk_mat (round_start l (e + 1) - round_start l s) (length cols) (\<lambda>r c. ent t (round_start l s + r) (cols ! c)),
          first_column, last_column))"

lemma get_pcm_for_rounds_value:
  assumes "xt_transpose_ok xt" "is_mat t nr nc" "nr \<le> max_u32" "0 < nc" "nc \<le> max_u32" "s \<le> e"
    and val: "validate_pcm_for_rounds_params S B s e nr = Inr ()"
    and l: "round_layout_new S B nr = Inr l"
  shows "get_pcm_for_rounds xt t S s e ss se B = Inr (rounds_submatrix t nr nc l s e ss se)"
proof -
  have u: "u32 (e + 1) = e + 1" and lt: "round_start l s < round_start l (e + 1)" and le: "round_start l (e + 1) \<le> nr"
    using validated_rounds [OF val assms(3,6)] l by auto
  obtain cols fc lc where sel: "select_pcm_columns_for_round_range (columns_of t nr nc) l s e ss se = (cols, fc, lc)"
    by (cases "select_pcm_columns_for_round_range (columns_of t nr nc) l s e ss se") auto
  have cols: "\<forall>c \<in> set cols. c < nc"
    using select_columns [of "columns_of t nr nc" l s e ss se] sel assms(5) by auto
  let ?f = "round_start l s" and ?e = "round_start l (e + 1) - 1"
  have n: "min ?e (nr - 1) - ?f + 1 = round_start l (e + 1) - ?f" using lt le by auto
  have "reorder_pcm_columns xt t cols ?f ?e
      = Inr (mk_mat (round_start l (e + 1) - ?f) (length cols) (\<lambda>r c. ent t (?f + r) (cols ! c)))"
    unfolding n [symmetric] by (rule reorder_pcm_columns_entries) (use assms lt le cols in auto)
  moreover have "u32 ?f = ?f" "u32 ?e = ?e" using lt le assms(3) by (auto intro!: u32_id)
  moreover have "dense_to_sparse t = Inr (columns_of t nr nc)"
    using dense_to_sparse_columns [OF assms(2,3)] assms(4) by simp
  ultimately show ?thesis
    using val l u lt sel is_matD [OF assms(2)]
    by (simp add: get_pcm_for_rounds_def rounds_submatrix_def Let_def)
qed

lemma get_pcm_for_rounds_sparse_value:
  assumes "canonical m" "sbm_rows m = nr" "sbm_cols m = nc" "is_mat t nr nc" "s \<le> e"
    and bits: "set (data t) \<subseteq> {0, 1}"
    and same: "\<And>r c. r < nr \<Longrightarrow> c < nc \<Longrightarrow> mult_at m r c = (if ent t r c \<noteq> 0 then 1 else 0)"
    and val: "validate_pcm_for_rounds_params S B s e nr = Inr ()"
    and l: "round_layout_new S B nr = Inr l"
  shows "get_pcm_for_rounds_sparse m S s e ss se True B = Inr (rounds_submatrix t nr nc l s e ss se)"
proof -
  have nr: "nr \<le> max_u32" "nc \<le> max_u32" using assms(1-3) by (auto simp: canonical_def sbm_ok_def)
  have u: "u32 (e + 1) = e + 1" and lt: "round_start l s < round_start l (e + 1)" and le: "round_start l (e + 1) \<le> nr"
    using validated_rounds [OF val nr(1) assms(5)] l by auto
  obtain cols fc lc where sel: "select_pcm_columns_for_round_range (columns_of t nr nc) l s e ss se = (cols, fc, lc)"
    by (cases "select_pcm_columns_for_round_range (columns_of t nr nc) l s e ss se") auto
  have cols: "\<forall>c \<in> set cols. c < nc"
    using select_columns [of "columns_of t nr nc" l s e ss se] sel nr(2) by auto
  let ?f = "round_start l s" and ?e = "round_start l (e + 1) - 1"
  let ?n = "round_start l (e + 1) - ?f"
  have f: "u32 ?f = ?f" "u32 ?e = ?e" using lt le nr(1) by (auto intro!: u32_id)
  have sub: "u32_sub r ?f = r - ?f" if "?f \<le> r" "r \<le> ?e" for r
    using that le nr(1) by (intro u32_sub_id) auto
  have n: "u32 (u32_sub ?e ?f + 1) = ?n" using sub [of ?e] lt le nr(1) by simp
  define cells where "cells = concat (map (\<lambda>out_c. map (\<lambda>row. (u32_sub row ?f, out_c))
      (filter (\<lambda>row. ?f \<le> row \<and> row \<le> ?e) (columns_of t nr nc ! (cols ! out_c)))) [0..<length cols])"
  have mem: "(r, c) \<in> set cells \<longleftrightarrow> r < ?n \<and> c < length cols \<and> ent t (?f + r) (cols ! c) \<noteq> 0" for r c
  proof -
    have "(r, c) \<in> set cells \<longleftrightarrow> c < length cols \<and>
        (\<exists>row. ?f \<le> row \<and> row \<le> ?e \<and> row < nr \<and> ent t row (cols ! c) \<noteq> 0 \<and> r = row - ?f)"
      using cols set_columns_of [of _ nc t nr] sub by (auto simp: cells_def image_iff)
    also have "\<dots> \<longleftrightarrow> r < ?n \<and> c < length cols \<and> ent t (?f + r) (cols ! c) \<noteq> 0"
      using lt le by (auto intro!: exI [of _ "?f + r"])
    finally show ?thesis .
  qed
  have "rfold (\<lambda>rc t. tensor_set t [fst rc, snd rc] 1) cells (tensor_new [?n, length cols])
      = Inr (mk_mat ?n (length cols) (\<lambda>r c. if (r, c) \<in> set cells then 1 else 0))"
    by (rule marks_new) (auto simp: mem)
  moreover have "mk_mat ?n (length cols) (\<lambda>r c. if (r, c) \<in> set cells then 1 else 0)
      = mk_mat ?n (length cols) (\<lambda>r c. ent t (?f + r) (cols ! c))"
  proof (rule mat_eqI [of _ ?n "length cols"])
    fix r c assume rc: "r < ?n" "c < length cols"
    then have "?f + r < nr" "cols ! c < nc" using le cols by auto
    then have "ent t (?f + r) (cols ! c) \<in> set (data t)"
      using assms(4) cell_bound [of "?f + r" nr "cols ! c" nc] by (simp add: ent_def is_mat_def)
    then have "ent t (?f + r) (cols ! c) \<in> {0, 1}" using bits by blast
    then show "ent (mk_mat ?n (length cols) (\<lambda>r c. if (r, c) \<in> set cells then 1 else 0)) r c
        = ent (mk_mat ?n (length cols) (\<lambda>r c. ent t (?f + r) (cols ! c))) r c"
      using rc mem [of r c] by (auto simp: mat_simps)
  qed (simp_all add: mat_simps)
  ultimately have fill: "rfold (\<lambda>rc t. tensor_set t [fst rc, snd rc] 1) cells (tensor_new [?n, length cols])
      = Inr (mk_mat ?n (length cols) (\<lambda>r c. ent t (?f + r) (cols ! c)))" by simp
  have nested: "to_nested_csc m = columns_of t nr nc"
    by (rule groups_columns_of [OF assms(1-3) same])
  have e1: "sz_sub (round_start l (u32 (e + 1))) 1 = ?e" using u lt by simp
  show ?thesis
    unfolding get_pcm_for_rounds_sparse_def assms(2) val l rbind_simps Let_def e1 f if_True nested sel prod.case n
      cells_def [symmetric] fill rounds_submatrix_def ..
qed

end
