(* ===== verification/QEC_Pcm_Theorems.thy ===== *)
theory QEC_Pcm_Theorems
  imports QEC_Pcm_Utils
begin

text \<open>
  Properties of the parity-check matrix utilities: parameter validation, column reordering,
  the matrix of a range of rounds in its dense and sparse overloads, and simplification.
\<close>

section \<open>Simplification\<close>

text \<open>
  Invariant of the march through the sorted columns after the prefix \<open>P\<close>: the kept columns are
  strictly increasing in content, are the kept contents of \<open>P\<close>, and carry the parity statistics
  of their occurrences in \<open>P\<close>.
\<close>

definition simplify_inv ::
  "nat list list \<Rightarrow> real list \<Rightarrow> (nat list \<Rightarrow> 'k::order) \<Rightarrow> nat list \<Rightarrow> nat list list \<times> real list \<Rightarrow> bool" where
  "simplify_inv rows w key P s \<longleftrightarrow>
     length (fst s) = length (snd s) \<and>
     set (fst s) = {rows ! c | c. c \<in> set P \<and> rows ! c \<noteq> [] \<and> w ! c \<noteq> 0} \<and>
     sorted_wrt (\<lambda>a b. key a < key b) (fst s) \<and>
     (\<forall>i < length (fst s). 1 - 2 * snd s ! i =
        prod_list (map (\<lambda>c. 1 - 2 * w ! c) (filter (\<lambda>c. rows ! c = fst s ! i) P)))"

lemma simplify_step_inv:
  fixes key :: "nat list \<Rightarrow> 'k::linorder"
  assumes inv: "simplify_inv rows w key P s"
    and c: "c < length w" and inj: "\<And>u v. key u = key v \<Longrightarrow> u = v"
    and above: "\<And>d. d \<in> set P \<Longrightarrow> key (rows ! d) \<le> key (rows ! c)"
  shows "\<exists>s'. simplify_step rows w c s = Inr s' \<and> simplify_inv rows w key (P @ [c]) s'"
proof -
  obtain R W where s: "s = (R, W)" by (cases s)
  have len: "length R = length W" and mem: "set R = {rows ! c | c. c \<in> set P \<and> rows ! c \<noteq> [] \<and> w ! c \<noteq> 0}"
    and sorted: "sorted_wrt (\<lambda>a b. key a < key b) R"
    and stat: "\<And>i. i < length R \<Longrightarrow> 1 - 2 * W ! i = prod_list (map (\<lambda>c. 1 - 2 * w ! c) (filter (\<lambda>c. rows ! c = R ! i) P))"
    using inv by (auto simp: simplify_inv_def s)
  let ?v = "rows ! c" and ?w = "w ! c"
  have le: "key u \<le> key ?v" if "u \<in> set R" for u using that mem above by auto
  have split: "prod_list (map (\<lambda>c. 1 - 2 * w ! c) (filter (\<lambda>c. rows ! c = u) (P @ [c])))
      = prod_list (map (\<lambda>c. 1 - 2 * w ! c) (filter (\<lambda>c. rows ! c = u) P)) * (if u = ?v then 1 - 2 * ?w else 1)" for u
    by simp
  show ?thesis
  proof (cases "?v = [] \<or> ?w = 0")
    case True
    have "[] \<notin> set R" using mem by auto
    then have "R ! i \<noteq> []" if "i < length R" for i using that by (metis nth_mem)
    then have "simplify_inv rows w key (P @ [c]) s"
      using True len mem sorted stat by (auto simp: simplify_inv_def s)
    moreover have "simplify_step rows w c s = Inr s" using True c by (auto simp: simplify_step_def Let_def)
    ultimately show ?thesis by blast
  next
    case keep: False
    show ?thesis
    proof (cases "R \<noteq> [] \<and> last R = ?v")
      case True
      define W' where "W' = butlast W @ [last W + ?w - 2 * last W * ?w]"
      have W: "W \<noteq> []" using True len by auto
      have W': "W' ! i = (if i = length R - 1 then W ! i + ?w - 2 * W ! i * ?w else W ! i)" if "i < length R" for i
        using that len W by (auto simp: W'_def nth_append nth_butlast last_conv_nth)
      have new: "R ! i = ?v \<longleftrightarrow> i = length R - 1" if i: "i < length R" for i
      proof -
        have "key (R ! i) < key (R ! (length R - 1))" if "i < length R - 1"
          using sorted that by (auto simp: sorted_wrt_iff_nth_less)
        then show ?thesis using i True by (auto simp: last_conv_nth) (metis less_irrefl linorder_neqE_nat Suc_pred not_less_eq length_greater_0_conv)
      qed
      have "simplify_inv rows w key (P @ [c]) (R, W')"
        unfolding simplify_inv_def fst_conv snd_conv
      proof (intro conjI allI impI)
        show "length R = length W'" using len W by (simp add: W'_def)
        have "?v \<in> set R" using True last_in_set by metis
        then show "set R = {rows ! d | d. d \<in> set (P @ [c]) \<and> rows ! d \<noteq> [] \<and> w ! d \<noteq> 0}"
          using mem keep by auto
        show "sorted_wrt (\<lambda>a b. key a < key b) R" by (rule sorted)
        fix i assume i: "i < length R"
        have alg: "1 - 2 * (p + ?w - 2 * p * ?w) = (1 - 2 * p) * (1 - 2 * ?w)" for p :: real
          by (simp add: algebra_simps)
        show "1 - 2 * W' ! i = prod_list (map (\<lambda>c. 1 - 2 * w ! c) (filter (\<lambda>c. rows ! c = R ! i) (P @ [c])))"
          unfolding split W' [OF i] using new [OF i] stat [OF i] alg [of "W ! i"] by auto
      qed
      then show ?thesis using True keep c by (auto simp: simplify_step_def s W'_def Let_def)
    next
      case False
      have notin: "?v \<notin> set R"
      proof
        assume "?v \<in> set R"
        then obtain i where i: "i < length R" "R ! i = ?v" by (auto simp: in_set_conv_nth)
        have R: "R \<noteq> []" using i by auto
        then have "last R \<noteq> ?v" using False by blast
        then have "i \<noteq> length R - 1" using i R by (auto simp: last_conv_nth)
        then have "i < length R - 1" using i by linarith
        then have "key (R ! i) < key (R ! (length R - 1))"
          using sorted_wrt_nth_less [OF sorted, of i "length R - 1"] R by simp
        moreover have "key (R ! (length R - 1)) \<le> key ?v" using R by (intro le) simp
        ultimately show False using i by simp
      qed
      then have less: "key u < key ?v" if "u \<in> set R" for u
        using le [OF that] inj [of u ?v] that by (auto simp: order_less_le)
      have "simplify_inv rows w key (P @ [c]) (R @ [?v], W @ [?w])"
        unfolding simplify_inv_def fst_conv snd_conv
      proof (intro conjI allI impI)
        show "length (R @ [?v]) = length (W @ [?w])" using len by simp
        show "set (R @ [?v]) = {rows ! d | d. d \<in> set (P @ [c]) \<and> rows ! d \<noteq> [] \<and> w ! d \<noteq> 0}"
          using mem keep by auto
        show "sorted_wrt (\<lambda>a b. key a < key b) (R @ [?v])"
          using sorted less by (auto simp: sorted_wrt_append)
        fix i assume i: "i < length (R @ [?v])"
        show "1 - 2 * (W @ [?w]) ! i =
            prod_list (map (\<lambda>c. 1 - 2 * w ! c) (filter (\<lambda>c. rows ! c = (R @ [?v]) ! i) (P @ [c])))"
        proof (cases "i < length R")
          case True
          then have "R ! i \<noteq> ?v" using notin by (metis nth_mem)
          then show ?thesis unfolding split using True stat len by (simp add: nth_append)
        next
          case False
          have "w ! d = 0" if "d \<in> set P" "rows ! d = ?v" for d
            using that notin mem keep by auto
          then have "prod_list (map (\<lambda>c. 1 - 2 * w ! c) (filter (\<lambda>c. rows ! c = ?v) P)) = 1"
            by (induction P) auto
          then show ?thesis unfolding split using False i len by (simp add: nth_append)
        qed
      qed
      then show ?thesis using False keep c by (auto simp: simplify_step_def s Let_def)
    qed
  qed
qed

lemma simplify_fold_inv:
  fixes key :: "nat list \<Rightarrow> 'k::linorder"
  assumes "\<And>c. c \<in> set L \<Longrightarrow> c < length w" and "\<And>u v. key u = key v \<Longrightarrow> u = v"
    and "sorted_wrt (\<lambda>c d. key (rows ! c) \<le> key (rows ! d)) L"
  shows "\<exists>s. rfold (simplify_step rows w) L ([], []) = Inr s \<and> simplify_inv rows w key L s"
  using assms(1,3)
proof (induction L rule: rev_induct)
  case Nil then show ?case by (simp add: simplify_inv_def)
next
  case (snoc c P)
  then obtain s where s: "rfold (simplify_step rows w) P ([], []) = Inr s" "simplify_inv rows w key P s"
    by (auto simp: sorted_wrt_append)
  from simplify_step_inv [OF s(2) _ assms(2), of c] snoc.prems obtain s' where
    "simplify_step rows w c s = Inr s'" "simplify_inv rows w key (P @ [c]) s'"
    by (auto simp: sorted_wrt_append)
  with s(1) show ?case by (auto simp: rfold_append)
qed

lemma columns_cells_marks:
  assumes "\<forall>v \<in> set cols. \<forall>r \<in> set v. r < nr"
  shows "rfold (\<lambda>rc t. tensor_set t [fst rc, snd rc] 1) (columns_cells cols) (tensor_new [nr, length cols])
    = Inr (mk_mat nr (length cols) (\<lambda>r c. if r \<in> set (cols ! c) then 1 else 0))"
proof -
  have mem: "(r, c) \<in> set (columns_cells cols) \<longleftrightarrow> c < length cols \<and> r \<in> set (cols ! c)" for r c
    by (auto simp: columns_cells_def)
  have "rfold (\<lambda>rc t. tensor_set t [fst rc, snd rc] 1) (columns_cells cols) (tensor_new [nr, length cols])
    = Inr (mk_mat nr (length cols) (\<lambda>r c. if (r, c) \<in> set (columns_cells cols) then 1 else 0))"
    by (rule marks_new) (use assms nth_mem in \<open>fastforce simp: mem\<close>)
  moreover have "mk_mat nr (length cols) (\<lambda>r c. if (r, c) \<in> set (columns_cells cols) then 1 else 0 :: u8)
      = mk_mat nr (length cols) (\<lambda>r c. if r \<in> set (cols ! c) then 1 else 0)"
    by (rule mat_eqI [of _ nr "length cols"]) (simp_all add: mat_simps mem)
  ultimately show ?thesis by simp
qed

lemma sorted_order_content:
  "sorted_wrt (\<lambda>c d. content_key (0 < S) (\<lambda>r. r div S) (rows ! c) \<le> content_key (0 < S) (\<lambda>r. r div S) (rows ! d))
     (get_sorted_pcm_column_indices rows S)"
proof -
  have "sorted_by (column_less rows (0 < S) (\<lambda>r. r div S)) (get_sorted_pcm_column_indices rows S)"
    unfolding get_sorted_pcm_column_indices_def by (rule sorted_pcm_column_indices_facts)
  then show ?thesis
    by (rule sorted_wrt_mono_rel [rotated]) (auto simp: column_less_key column_key_content not_less)
qed

section \<open>Properties\<close>

text \<open>
  C34: \<open>simplify_pcm\<close> on a matrix with at least one and fewer than \<open>2\<^sup>3\<^sup>1\<close> columns, with one weight per column, succeeds.
  The new columns are exactly the distinct non-empty columns of nonzero weight, in topological
  order (\<open>pcm_is_sorted\<close>) and without duplicates, and each new weight \<open>w\<close> is the probability
  that an odd number of the merged independent errors occurs: \<open>1 - 2 w\<close> is the product of
  \<open>1 - 2 p\<close> over all original columns with that content.
\<close>

theorem simplify_pcm_statistics:
  assumes "is_mat t nr nc" "nr \<le> max_u32" "0 < nc" "length weights = nc" "nc < 2 ^ 31"
  shows "\<exists>R W. simplify_pcm t weights S = Inr (mk_mat nr (length R) (\<lambda>r c. if r \<in> set (R ! c) then 1 else 0), W) \<and>
    length W = length R \<and> distinct R \<and> pcm_is_sorted R S \<and>
    set R = {columns_of t nr nc ! c | c. c < nc \<and> columns_of t nr nc ! c \<noteq> [] \<and> weights ! c \<noteq> 0} \<and>
    (\<forall>i < length R. 1 - 2 * W ! i = (\<Prod>c | c < nc \<and> columns_of t nr nc ! c = R ! i. 1 - 2 * weights ! c))"
proof -
  define rows where "rows = columns_of t nr nc"
  define L where "L = get_sorted_pcm_column_indices rows S"
  let ?key = "content_key (0 < S) (\<lambda>r. r div S)"
  have n: "length rows \<le> max_u32" using assms(5) by (simp add: rows_def max_u32_def)
  have L: "set L = {0..<nc}" "distinct L" using n by (simp_all add: L_def rows_def)
  have "\<exists>s. rfold (simplify_step rows weights) L ([], []) = Inr s \<and> simplify_inv rows weights ?key L s"
    by (rule simplify_fold_inv)
      (use L assms(4) sorted_order_content [of S rows] in \<open>auto simp: content_key_inject L_def\<close>)
  then obtain R W where fold: "rfold (simplify_step rows weights) L ([], []) = Inr (R, W)"
    and inv: "simplify_inv rows weights ?key L (R, W)" by auto
  have d2s: "dense_to_sparse t = Inr rows"
    using dense_to_sparse_columns [OF assms(1,2)] assms(3) by (simp add: rows_def)
  have order: "get_sorted_pcm_column_indices_dense t S = Inr L"
    using d2s is_matD [OF assms(1)] by (simp add: get_sorted_pcm_column_indices_dense_def L_def)
  have setR: "set R = {rows ! c | c. c < nc \<and> rows ! c \<noteq> [] \<and> weights ! c \<noteq> 0}"
    using inv L by (auto simp: simplify_inv_def)
  have "\<forall>v \<in> set R. \<forall>r \<in> set v. r < nr"
    using setR set_columns_of [of _ nc t nr] by (auto simp: rows_def)
  then have "simplify_pcm t weights S = Inr (mk_mat nr (length R) (\<lambda>r c. if r \<in> set (R ! c) then 1 else 0), W)"
    using d2s order fold is_matD [OF assms(1)] by (simp add: simplify_pcm_def columns_cells_marks)
  moreover have keys: "sorted_wrt (\<lambda>a b. ?key a < ?key b) R" using inv by (simp add: simplify_inv_def)
  then have "distinct R" by (auto simp: distinct_conv_nth sorted_wrt_iff_nth_less) (metis less_irrefl nat_neq_iff)
  moreover have "length R \<le> max_u32"
  proof -
    have "length R = card (set R)" using \<open>distinct R\<close> by (simp add: distinct_card)
    also have "\<dots> \<le> card ((!) rows ` {..<nc})" unfolding setR by (intro card_mono) auto
    also have "\<dots> \<le> nc" using card_image_le [of "{..<nc}" "(!) rows"] by simp
    finally show ?thesis using n by (simp add: rows_def)
  qed
  then have "pcm_is_sorted R S"
    unfolding pcm_is_sorted_def get_sorted_pcm_column_indices_def is_iota_impl_iff [OF \<open>length R \<le> max_u32\<close>] column_key_content
    using keys by (auto simp: sorted_wrt_iff_nth_less)
  moreover have "1 - 2 * W ! i = (\<Prod>c | c < nc \<and> rows ! c = R ! i. 1 - 2 * weights ! c)" if "i < length R" for i
  proof -
    have "prod_list (map (\<lambda>c. 1 - 2 * weights ! c) (filter (\<lambda>c. rows ! c = R ! i) L))
        = (\<Prod>c \<in> set (filter (\<lambda>c. rows ! c = R ! i) L). 1 - 2 * weights ! c)"
      using L(2) by (intro prod.distinct_set_conv_list [symmetric]) simp
    also have "set (filter (\<lambda>c. rows ! c = R ! i) L) = {c. c < nc \<and> rows ! c = R ! i}" using L(1) by auto
    finally show ?thesis using inv that by (simp add: simplify_inv_def)
  qed
  moreover have "length W = length R" using inv by (simp add: simplify_inv_def)
  ultimately show ?thesis using setR unfolding rows_def by blast
qed

text \<open>Columns \<open>{0}\<close>, \<open>{1}\<close>, \<open>{0}\<close> with error rates 1/10, 1/5, 3/10.\<close>

theorem simplify_pcm_statistics_witness:
  "\<exists>R W. simplify_pcm \<lparr>shape = [2, 3], data = [1, 0, 1, 0, 1, 0]\<rparr> [1/10, 1/5, 3/10] 0
      = Inr (mk_mat 2 (length R) (\<lambda>r c. if r \<in> set (R ! c) then 1 else 0), W) \<and> set R = {[0], [1]} \<and>
     (\<forall>i < length R. R ! i = [0] \<longrightarrow> 1 - 2 * W ! i = (1 - 2 * (1/10)) * (1 - 2 * (3/10)))"
proof -
  let ?t = "\<lparr>shape = [2, 3], data = [1, 0, 1, 0, 1, 0]\<rparr> :: u8 tensor" and ?w = "[1/10, 1/5, 3/10] :: real list"
  have cols: "columns_of ?t 2 3 = [[0], [1], [0]]"
    by (simp add: columns_of_def ent_def upt_rec)
  have lt: "c < 3 \<longleftrightarrow> c = 0 \<or> c = 1 \<or> c = 2" for c :: nat by linarith
  have set: "{[[0], [1], [0]] ! c |c. c < 3 \<and> [[0], [1], [0]] ! c \<noteq> [] \<and> ?w ! c \<noteq> 0} = {[0], [1]}"
    by (auto simp: lt intro: exI [of _ 0] exI [of _ 1])
  have prod: "{c :: nat. c < 3 \<and> [[0], [1], [0]] ! c = [0 :: nat]} = {0, 2}" by (auto simp: lt)
  have "is_mat ?t 2 3" "2 \<le> max_u32" "(0::nat) < 3" "length ?w = 3" "3 < (2 :: nat) ^ 31" by (simp_all add: is_mat_def max_u32_def)
  from simplify_pcm_statistics [OF this, of 0] obtain R W where
    eq: "simplify_pcm ?t ?w 0 = Inr (mk_mat 2 (length R) (\<lambda>r c. if r \<in> set (R ! c) then 1 else 0), W)"
    and R: "set R = {[0], [1]}"
    and st: "\<forall>i < length R. 1 - 2 * W ! i = (\<Prod>c | c < 3 \<and> [[0], [1], [0]] ! c = R ! i. 1 - 2 * ?w ! c)"
    unfolding cols set by blast
  have "1 - 2 * W ! i = (1 - 2 * (1/10)) * (1 - 2 * (3/10))" if "i < length R" "R ! i = [0]" for i
    using st [rule_format, OF that(1)] unfolding that(2) prod by simp
  with eq R show ?thesis by blast
qed

text \<open>
  Column reordering, dense: on a 32-bit-sized matrix with in-range columns and rows, the result
  has rows \<open>row_begin\<close> to the last row of the clamped range and, at column \<open>c\<close>, the entries of the
  original column \<open>column_order[c]\<close>; an empty row range or an out-of-range row or column is
  rejected with \<open>std::invalid_argument\<close>.
\<close>

theorem reorder_pcm_columns_correct:
  assumes "xt_transpose_ok xt" "is_mat t nr nc" "nr \<le> max_u32" "0 < nr"
  shows "(row_begin \<le> row_end \<and> row_begin < nr \<and> (\<forall>c \<in> set order. c < nc) \<longrightarrow>
       reorder_pcm_columns xt t order row_begin row_end =
         Inr (mk_mat (min row_end (nr - 1) - row_begin + 1) (length order) (\<lambda>r c. ent t (row_begin + r) (order ! c)))) \<and>
    (\<not> (row_begin \<le> row_end \<and> row_begin < nr \<and> (\<forall>c \<in> set order. c < nc)) \<longrightarrow>
       (\<exists>msg. reorder_pcm_columns xt t order row_begin row_end = Inl (Invalid_argument msg)))"
proof -
  have "\<exists>msg. reorder_pcm_columns xt t order row_begin row_end = Inl (Invalid_argument msg)"
    if "\<not> (row_begin \<le> row_end \<and> row_begin < nr \<and> (\<forall>c \<in> set order. c < nc))"
    using that reorder_pcm_columns_errors [OF assms(2), where xt = xt and order = order and row_begin = row_begin and row_end = row_end] assms(4)
    by (cases "row_begin = 0") (auto simp: not_le not_less)
  then show ?thesis using reorder_pcm_columns_entries [OF assms(1-3)] by auto
qed

theorem reorder_pcm_columns_correct_witness:
  "reorder_pcm_columns xt_reference \<lparr>shape = [2, 3], data = [1, 0, 0, 0, 1, 1]\<rparr> [2, 0] 1 5
   = Inr \<lparr>shape = [1, 2], data = [1, 0]\<rparr>"
  using reorder_pcm_columns_correct [of xt_reference "\<lparr>shape = [2, 3], data = [1, 0, 0, 0, 1, 1]\<rparr>" 2 3 1 5 "[2, 0]"]
  by (simp add: xt_reference_ok is_mat_def max_u32_def mk_mat_def ent_def upt_rec)

text \<open>
  The sparse overload of \<open>reorder_pcm_columns\<close> yields a well-formed matrix of the same shape as
  the dense one, whose every cell is listed as often as the corresponding cell of the source
  matrix, when the selected columns' entries fit 32 bits.
\<close>

theorem reorder_sparse_correct:
  assumes "sbm_ok m" "\<forall>c \<in> set order. c < sbm_cols m" "length order < max_u32"
    and "row_begin \<le> row_end" "row_begin < sbm_rows m"
    and "sum_list (map (\<lambda>c. length (groups (to_csc m) ! c)) order) \<le> max_u32"
  shows "\<exists>m'. reorder_pcm_columns_sparse m order row_begin row_end = Inr m' \<and> sbm_ok m' \<and>
    sbm_rows m' = min row_end (sbm_rows m - 1) - row_begin + 1 \<and> sbm_cols m' = length order \<and>
    (\<forall>r < sbm_rows m'. \<forall>c < length order. mult_at m' r c = mult_at m (row_begin + r) (order ! c))"
  by (rule reorder_sparse_mult [OF assms])

theorem reorder_sparse_correct_witness:
  "\<exists>m'. reorder_pcm_columns_sparse demo_csc [2, 1] 0 9 = Inr m' \<and> sbm_rows m' = 2 \<and> sbm_cols m' = 2"
proof -
  have "to_csc demo_csc = demo_csc" by (simp add: to_csc_def)
  moreover have "groups demo_csc = [[1], [0, 1], [0]]"
    by (simp add: groups_def groups_of_def num_groups_def vslice_def upt_rec)
  ultimately show ?thesis
    using reorder_sparse_correct [OF demo_csc_ok, of "[2, 1]" 0 9] by (auto simp: max_u32_def)
qed

text \<open>
  C28: The two overloads of \<open>get_pcm_for_rounds\<close> agree: for a 0/1 dense matrix and any well-formed
  sparse matrix with the same GF(2) entries, and \<open>start_round \<le> end_round\<close>, both throw the same
  exception or both return the same dense sub-matrix and the same first and last column. The
  caller may claim that the input is canonical only if it is.
\<close>

theorem get_pcm_for_rounds_agree:
  assumes "xt_transpose_ok xt" "is_mat t nr nc" "0 < nc" "set (data t) \<subseteq> {0, 1}"
    and m: "sbm_ok m" "sbm_rows m = nr" "sbm_cols m = nc" "is_canonical \<Longrightarrow> canonical m"
    and same: "\<And>r c. r < nr \<Longrightarrow> c < nc \<Longrightarrow> mult_at m r c mod 2 = (if ent t r c \<noteq> 0 then 1 else 0)"
    and "s \<le> e"
  shows "get_pcm_for_rounds_sparse m S s e ss se is_canonical B = get_pcm_for_rounds xt t S s e ss se B"
proof (cases "validate_pcm_for_rounds_params S B s e nr")
  case (Inl err)
  then show ?thesis using is_matD [OF assms(2)] m(2)
    by (simp add: get_pcm_for_rounds_sparse_def get_pcm_for_rounds_def)
next
  case (Inr u)
  then have val: "validate_pcm_for_rounds_params S B s e nr = Inr ()" by simp
  have nr: "nr \<le> max_u32" "nc \<le> max_u32" using m by (auto simp: sbm_ok_def)
  from validated_rounds [OF val nr(1) \<open>s \<le> e\<close>] obtain l where l: "round_layout_new S B nr = Inr l" by blast
  have dense: "get_pcm_for_rounds xt t S s e ss se B = Inr (rounds_submatrix t nr nc l s e ss se)"
    by (rule get_pcm_for_rounds_value) (use assms nr val l in auto)
  have dims: "sbm_rows (reduced m) = nr" "sbm_cols (reduced m) = nc" using m by (simp_all add: reduced_def Let_def)
  show ?thesis
  proof (cases is_canonical)
    case True
    have can: "canonical m" using m(4) True by simp
    have "mult_at m r c = (if ent t r c \<noteq> 0 then 1 else 0)" if "r < nr" "c < nc" for r c
    proof -
      have "mult_at m r c \<le> 1"
      proof (cases "sbm_layout m")
        case CSC
        then have "groups m ! c \<in> set (groups m)" using that m by (simp add: num_groups_def)
        then show ?thesis using can CSC strictly_sorted_count by (auto simp: canonical_def mult_at_def)
      next
        case CSR
        then have "groups m ! r \<in> set (groups m)" using that m by (simp add: num_groups_def)
        then show ?thesis using can CSR strictly_sorted_count by (auto simp: canonical_def mult_at_def)
      qed
      then show ?thesis using same [OF that] by (cases "mult_at m r c") auto
    qed
    then show ?thesis
      unfolding dense using True can m val l assms by (simp add: get_pcm_for_rounds_sparse_value)
  next
    case False
    have "get_pcm_for_rounds_sparse m S s e ss se False B = get_pcm_for_rounds_sparse (reduced m) S s e ss se True B"
      using m(2) dims by (simp add: get_pcm_for_rounds_sparse_def canonicalize_eq_reduced [OF m(1)])
    moreover have "get_pcm_for_rounds_sparse (reduced m) S s e ss se True B = Inr (rounds_submatrix t nr nc l s e ss se)"
    proof (rule get_pcm_for_rounds_sparse_value [OF canonical_reduced [OF m(1)] dims assms(2) \<open>s \<le> e\<close> assms(4) _ val l])
      show "mult_at (reduced m) r c = (if ent t r c \<noteq> 0 then 1 else 0)" if "r < nr" "c < nc" for r c
        using mult_reduced [OF m(1), of r c] that m same [OF that] by simp
    qed
    ultimately show ?thesis using False dense by simp
  qed
qed

abbreviation demo_dense :: "u8 tensor" where
  "demo_dense \<equiv> \<lparr>shape = [2, 3], data = [0, 1, 1, 1, 1, 0]\<rparr>"

lemma demo_mult:
  assumes "r < 2" "c < 3"
  shows "mult_at demo_csc r c mod 2 = (if ent demo_dense r c \<noteq> 0 then 1 else 0)"
proof -
  have groups: "groups demo_csc = [[1], [0, 1], [0]]"
    by (simp add: groups_def groups_of_def num_groups_def vslice_def upt_rec)
  have "r = 0 \<or> r = 1" "c = 0 \<or> c = 1 \<or> c = 2" using assms by linarith+
  then show ?thesis unfolding mult_at_def groups by (auto simp: ent_def)
qed

theorem get_pcm_for_rounds_agree_witness:
  "get_pcm_for_rounds_sparse demo_csc 1 1 1 False True False 0
   = get_pcm_for_rounds xt_reference demo_dense 1 1 1 False True 0"
  by (rule get_pcm_for_rounds_agree [OF xt_reference_ok, of _ 2 3])
    (use demo_csc_ok demo_mult in \<open>auto simp: is_mat_def\<close>)

text \<open>
  The overloads differ on a reversed range: with \<open>start_round = end_round + 1\<close> and a row count the
  validation accepts, the dense overload throws, while the sparse overload returns a matrix
  without rows.
\<close>

lemma get_pcm_for_rounds_reversed_range:
  "(\<exists>msg. get_pcm_for_rounds xt demo_dense 1 1 0 True True 0 = Inl (Invalid_argument msg)) \<and>
   (\<exists>sub f l. get_pcm_for_rounds_sparse demo_csc 1 1 0 True True True 0 = Inr (sub, f, l) \<and> shape sub ! 0 = 0)"
proof
  have mat: "is_mat demo_dense 2 3" by (simp add: is_mat_def)
  have v: "validate_pcm_for_rounds_params 1 0 1 0 2 = Inr ()"
    by (simp add: validate_pcm_for_rounds_params_def round_layout_new_def round_start_def)
  obtain cols f l where sel: "select_pcm_columns_for_round_range (columns_of demo_dense 2 3)
      \<lparr>rl_S = 1, rl_B = 0, rl_num_rows = 2, rl_num_rounds = 2, rl_boundary = False\<rparr> 1 0 True True = (cols, f, l)"
    by (cases "select_pcm_columns_for_round_range (columns_of demo_dense 2 3)
      \<lparr>rl_S = 1, rl_B = 0, rl_num_rows = 2, rl_num_rounds = 2, rl_boundary = False\<rparr> 1 0 True True") auto
  have "dense_to_sparse demo_dense = Inr (columns_of demo_dense 2 3)"
    using dense_to_sparse_columns [OF mat] by (simp add: max_u32_def)
  moreover obtain msg where "reorder_pcm_columns xt demo_dense cols 1 0 = Inl (Invalid_argument msg)"
    using reorder_pcm_columns_errors(1) [OF mat, of 0 1 xt cols] by auto
  ultimately show "\<exists>msg. get_pcm_for_rounds xt demo_dense 1 1 0 True True 0 = Inl (Invalid_argument msg)"
    using v sel by (simp add: get_pcm_for_rounds_def round_layout_new_def round_start_def u32_def)
next
  obtain cols f l where sel: "select_pcm_columns_for_round_range (to_nested_csc demo_csc)
      \<lparr>rl_S = 1, rl_B = 0, rl_num_rows = 2, rl_num_rounds = 2, rl_boundary = False\<rparr> 1 0 True True = (cols, f, l)"
    by (cases "select_pcm_columns_for_round_range (to_nested_csc demo_csc)
      \<lparr>rl_S = 1, rl_B = 0, rl_num_rows = 2, rl_num_rounds = 2, rl_boundary = False\<rparr> 1 0 True True") auto
  have "filter (\<lambda>row. Suc 0 \<le> row \<and> row = 0) xs = []" for xs :: "nat list"
    by (induction xs) auto
  then show "\<exists>sub f l. get_pcm_for_rounds_sparse demo_csc 1 1 0 True True True 0 = Inr (sub, f, l) \<and> shape sub ! 0 = 0"
    using sel by (simp add: get_pcm_for_rounds_sparse_def validate_pcm_for_rounds_params_def round_layout_new_def
        round_start_def u32_def u32_sub_def tensor_new_def map_replicate_const)
qed

text \<open>
  What the straddle flags mean. For a column with strictly increasing rows inside an admitted
  layout: with both flags off it is selected iff all its rows lie in the rows of the requested
  rounds; with both on, iff its span from first to last row meets them.
\<close>

theorem straddle_flags_meaning:
  assumes "layout_ok l" "strictly_sorted col" "\<forall>r \<in> set col. r < rl_num_rows l" "s \<le> e" "e < rl_num_rounds l"
  shows "(column_in_round_range l s e False False col \<longleftrightarrow>
      col \<noteq> [] \<and> (\<forall>r \<in> set col. round_start l s \<le> r \<and> r < round_start l (e + 1))) \<and>
    (column_in_round_range l s e True True col \<longleftrightarrow>
      col \<noteq> [] \<and> hd col < round_start l (e + 1) \<and> round_start l s \<le> last col)"
proof (cases "col = []")
  case False
  have hl: "hd col \<le> r" "r \<le> last col" if "r \<in> set col" for r
    using that assms(2) False strictly_sorted_imp_sorted [OF assms(2)]
    by (auto simp: in_set_conv_nth hd_conv_nth last_conv_nth intro!: sorted_nth_mono)
  have ends: "hd col < rl_num_rows l" "last col < rl_num_rows l" "hd col \<le> last col"
    using assms(3) False hl hd_in_set last_in_set by blast+
  have lt: "row_to_round l r < s \<longleftrightarrow> r < round_start l s" "e < row_to_round l r \<longleftrightarrow> round_start l (e + 1) \<le> r"
    if "r < rl_num_rows l" for r
    using rl.round_of_less_iff [OF assms(1) that, of s] rl.round_of_less_iff [OF assms(1) that, of "e + 1"] assms(4,5)
    by auto
  have in1: "(\<forall>r \<in> set col. round_start l s \<le> r \<and> r < round_start l (e + 1)) \<longleftrightarrow>
      round_start l s \<le> hd col \<and> last col < round_start l (e + 1)"
    using hl False hd_in_set last_in_set by (meson le_trans le_less_trans)
  have mono: "row_to_round l (hd col) \<le> row_to_round l (last col)"
    by (rule rl.round_of_mono [OF assms(1) ends(3,2)])
  show ?thesis
    unfolding in1 column_in_round_range_def Let_def
    using False mono lt [OF ends(1)] lt [OF ends(2)] assms(4) by (auto simp: not_less not_le)
qed (simp add: column_in_round_range_def)

theorem straddle_flags_meaning_witness:
  "column_in_round_range \<lparr>rl_S = 2, rl_B = 0, rl_num_rows = 6, rl_num_rounds = 3, rl_boundary = False\<rparr> 1 1 True True [1, 4] \<and>
   \<not> column_in_round_range \<lparr>rl_S = 2, rl_B = 0, rl_num_rows = 6, rl_num_rounds = 3, rl_boundary = False\<rparr> 1 1 False False [1, 4]"
  using straddle_flags_meaning [of "\<lparr>rl_S = 2, rl_B = 0, rl_num_rows = 6, rl_num_rounds = 3, rl_boundary = False\<rparr>" "[1, 4]" 1 1]
  by (simp add: layout_ok_def round_start_def)

text \<open>
  C35: The guards of \<open>generate_random_pcm_sparse\<close> are exact: the parameters pass iff the weight is
  between 0 and the syndromes per round and the three products (columns, rows, nonzeros) fit in
  32 bits, although the products themselves are never computed before the check.
\<close>

theorem random_pcm_params_exact:
  "validate_random_pcm_sparse_params n_rounds n_errs n_synd weight = Inr () \<longleftrightarrow>
   0 \<le> weight \<and> nat weight \<le> n_synd \<and> n_rounds * n_errs \<le> max_u32 \<and> n_rounds * n_synd \<le> max_u32 \<and>
   n_rounds * n_errs * nat weight \<le> max_u32"
proof -
  have div: "\<not> max_u32 div a < b \<longleftrightarrow> a * b \<le> max_u32" if "a \<noteq> 0" for a b :: nat
    using that by (simp add: not_less less_eq_div_iff_mult_less_eq mult.commute)
  show ?thesis
  proof (cases "n_rounds = 0 \<or> n_errs = 0")
    case True
    then show ?thesis using div [of n_rounds]
      by (cases "n_rounds = 0") (auto simp: validate_random_pcm_sparse_params_def Let_def)
  next
    case False
    then show ?thesis using div [of n_rounds] div [of "n_rounds * n_errs"]
      by (auto simp: validate_random_pcm_sparse_params_def Let_def)
  qed
qed

end
