(* ===== verification/QEC_Pcm_Formats.thy ===== *)
theory QEC_Pcm_Formats
  imports QEC_Pcm_Utils
begin

text \<open>
  Textual and integer-list forms of parity-check matrices, the time-like detector matrices, and
  the extension of a matrix to more rounds (libs/qec/lib/pcm_utils.cpp, second half). The string
  form prints and parses decimal numbers separated by commas, with \<open>-1\<close> at the end of every
  row; \<open>std::getline\<close> with a delimiter and \<open>std::stoul\<close> are modelled as the standard defines
  them.
\<close>

section \<open>Standard library pieces\<close>

definition digit_char :: "nat \<Rightarrow> char" where
  "digit_char d = char_of (48 + d)"

definition digit_value :: "char \<Rightarrow> nat option" where
  "digit_value ch = (let k = (of_char ch :: nat) in if 48 \<le> k \<and> k \<le> 57 then Some (k - 48) else None)"

fun string_of_nat :: "nat \<Rightarrow> string" where
  "string_of_nat n = (if n < 10 then [digit_char n] else string_of_nat (n div 10) @ [digit_char (n mod 10)])"

declare string_of_nat.simps [simp del]

fun parse_digits :: "string \<Rightarrow> nat \<Rightarrow> nat" where
  "parse_digits [] acc = acc"
| "parse_digits (ch # s) acc =
     (case digit_value ch of Some d \<Rightarrow> parse_digits s (10 * acc + d) | None \<Rightarrow> acc)"

definition is_space :: "char \<Rightarrow> bool" where
  "is_space ch = (let k = (of_char ch :: nat) in k = 32 \<or> (9 \<le> k \<and> k \<le> 13))"

definition stoul :: "string \<Rightarrow> nat res" where
  "stoul s =
     (let s1 = dropWhile is_space s;
          neg = (s1 \<noteq> [] \<and> hd s1 = CHR ''-'');
          s2 = (if s1 \<noteq> [] \<and> (hd s1 = CHR ''-'' \<or> hd s1 = CHR ''+'') then tl s1 else s1)
      in if s2 = [] \<or> digit_value (hd s2) = None then Inl (Invalid_argument ''stoul'')
         else let v = parse_digits s2 0 in
           if 2 ^ 64 \<le> v then Inl (Out_of_range ''stoul'')
           else Inr (if neg then (2 ^ 64 - v) mod 2 ^ 64 else v))"

text \<open>\<open>while (std::getline(ss, item, ','))\<close>: no item after a trailing comma.\<close>

fun split_commas :: "string \<Rightarrow> string \<Rightarrow> string list" where
  "split_commas item [] = (if item = [] then [] else [item])"
| "split_commas item (ch # s) = (if ch = CHR '','' then item # split_commas [] s else split_commas (item @ [ch]) s)"

section \<open>Operations\<close>

definition pop_back :: "string \<Rightarrow> string res" where
  "pop_back s = (if s = [] then Inl Undefined_behaviour else Inr (butlast s))"

definition row_string :: "nat list \<Rightarrow> string" where
  "row_string cols = concat (map (\<lambda>c. string_of_nat c @ '','') cols) @ ''-1,''"

definition pcm_to_sparse_string :: "u8 tensor \<Rightarrow> string res" where
  "pcm_to_sparse_string pcm =
     rbind (vget (shape pcm) 0) (\<lambda>num_rows.
     rbind (rmap (\<lambda>r. rbind (tensor_cref pcm [r, 0]) (\<lambda>row.
         Inr (row_string (filter (\<lambda>c. data pcm ! (row + c) = 1) [0..<shape pcm ! 1])))) [0..<num_rows])
       (\<lambda>rows. pop_back (concat rows)))"

definition pcm_to_sparse_string_sparse :: "sparse_binary_matrix \<Rightarrow> string res" where
  "pcm_to_sparse_string_sparse pcm =
     rbind (to_canonical_nested_csr pcm) (\<lambda>rows.
       let result = concat (map row_string rows)
       in if result \<noteq> [] then pop_back result else Inr result)"

definition pcm_to_sparse_vec :: "u8 tensor \<Rightarrow> int list res" where
  "pcm_to_sparse_vec pcm =
     rbind (vget (shape pcm) 0) (\<lambda>num_rows.
     rbind (rmap (\<lambda>r.
         rbind (rmap (\<lambda>c. rbind (tensor_at pcm [r, c]) (\<lambda>v. Inr (if v = 1 then [int c] else [])))
                  [0..<shape pcm ! 1]) (\<lambda>cols. Inr (concat cols @ [-1]))) [0..<num_rows])
       (\<lambda>rows. Inr (concat rows)))"

definition pcm_to_sparse_vec_sparse :: "sparse_binary_matrix \<Rightarrow> int list res" where
  "pcm_to_sparse_vec_sparse pcm =
     rbind (to_canonical_nested_csr pcm) (\<lambda>rows. Inr (concat (map (\<lambda>row. map int row @ [-1]) rows)))"

definition from_string_step :: "string \<Rightarrow> u8 tensor \<times> nat \<Rightarrow> (u8 tensor \<times> nat) res" where
  "from_string_step item s =
     (if item = ''-1'' then Inr (fst s, u32 (snd s + 1))
      else rbind (stoul item) (\<lambda>v.
        rbind (tensor_set (fst s) [snd s, u32 v] 1) (\<lambda>pcm. Inr (pcm, snd s))))"

definition pcm_from_sparse_string :: "string \<Rightarrow> nat \<Rightarrow> nat \<Rightarrow> u8 tensor res" where
  "pcm_from_sparse_string sparse_str num_rows num_cols =
     rbind (rfold from_string_step (split_commas [] sparse_str) (tensor_new [num_rows, num_cols], 0))
       (\<lambda>s. Inr (fst s))"

definition from_vec_step :: "int \<Rightarrow> u8 tensor \<times> nat \<Rightarrow> (u8 tensor \<times> nat) res" where
  "from_vec_step col s =
     (if col < 0 then Inr (fst s, snd s + 1)
      else rbind (tensor_set (fst s) [snd s, nat col] 1) (\<lambda>pcm. Inr (pcm, snd s)))"

definition pcm_from_sparse_vec :: "int list \<Rightarrow> nat \<Rightarrow> nat \<Rightarrow> u8 tensor res" where
  "pcm_from_sparse_vec sparse_vec num_rows num_cols =
     rbind (rfold from_vec_step sparse_vec (tensor_new [num_rows, num_cols], 0)) (\<lambda>s. Inr (fst s))"

text \<open>The rounds after the first: products and sums at 32 bits.\<close>

definition timelike_rounds :: "nat \<Rightarrow> nat \<Rightarrow> int list" where
  "timelike_rounds S num_rounds =
     concat (map (\<lambda>i. concat (map (\<lambda>j.
         [int (u32 (u32 ((i - 1) * S) + j)), int (u32 (u32 (i * S) + j)), -1]) [0..<S])) [1..<num_rounds])"

definition generate_timelike_sparse_detector_matrix :: "nat \<Rightarrow> nat \<Rightarrow> bool \<Rightarrow> int list" where
  "generate_timelike_sparse_detector_matrix S num_rounds include_first_round =
     (if include_first_round then concat (map (\<lambda>i. [int i, -1]) [0..<S]) else []) @
     timelike_rounds S num_rounds"

definition generate_timelike_from_first_round :: "nat \<Rightarrow> nat \<Rightarrow> int list \<Rightarrow> int list res" where
  "generate_timelike_from_first_round S num_rounds first_round_matrix =
     (if first_round_matrix = []
      then Inl (Invalid_argument ''generate_timelike_sparse_detector_matrix: first_round_matrix must be non-empty'')
      else if list_ex (\<lambda>i. (even i \<and> first_round_matrix ! i < 0) \<or> (odd i \<and> first_round_matrix ! i \<noteq> -1))
                [0..<length first_round_matrix]
      then Inl (Invalid_argument ''generate_timelike_sparse_detector_matrix: first_round_matrix should have one index per row (row end indicated by -1)'')
      else Inr (first_round_matrix @ timelike_rounds S num_rounds))"

text \<open>
  \<open>std::shuffle\<close> draws from the caller's generator: the permutation it applies is the parameter
  \<open>shuffle\<close>.
\<close>

definition shuffle_pcm_columns ::
  "(nat list \<Rightarrow> nat list) \<Rightarrow> (nat \<Rightarrow> nat \<Rightarrow> u8 list \<Rightarrow> u8 list) \<Rightarrow> u8 tensor \<Rightarrow> u8 tensor res" where
  "shuffle_pcm_columns shuffle xt pcm =
     rbind (vget (shape pcm) 1) (\<lambda>num_cols.
       reorder_pcm_columns xt pcm (shuffle (iota_u32 num_cols)) 0 default_row_end)"

definition shuffle_pcm_columns_sparse ::
  "(nat list \<Rightarrow> nat list) \<Rightarrow> sparse_binary_matrix \<Rightarrow> sparse_binary_matrix res" where
  "shuffle_pcm_columns_sparse shuffle pcm =
     reorder_pcm_columns_sparse pcm (shuffle (iota_u32 (sbm_cols pcm))) 0 default_row_end"

section \<open>Extension to more rounds\<close>

record round_scan =
  rs_prior :: "u8 tensor"
  rs_first_match :: nat
  rs_last_match :: nat
  rs_first_columns :: "nat list"
  rs_last_columns :: "nat list"
  rs_break :: bool

definition scan_round ::
  "(nat \<Rightarrow> nat \<Rightarrow> u8 list \<Rightarrow> u8 list) \<Rightarrow> u8 tensor \<Rightarrow> nat \<Rightarrow> nat \<Rightarrow> round_scan \<Rightarrow> round_scan res" where
  "scan_round xt pcm S w st =
     (if rs_break st then Inr st
      else rbind (get_pcm_for_rounds xt pcm (u32 S) w w True True 0) (\<lambda>(sub_pcm, first_column, last_column).
        let st1 = st\<lparr>rs_first_columns := rs_first_columns st @ [first_column],
                     rs_last_columns := rs_last_columns st @ [last_column]\<rparr>
        in if shape sub_pcm = shape (rs_prior st) \<and>
              take (tensor_size sub_pcm) (data sub_pcm) = take (tensor_size sub_pcm) (data (rs_prior st))
           then Inr (st1\<lparr>rs_first_match := min (rs_first_match st) w, rs_last_match := max (rs_last_match st) w,
                         rs_prior := sub_pcm\<rparr>)
           else if rs_first_match st \<noteq> max_u32 then Inr (st1\<lparr>rs_break := True\<rparr>)
           else Inr (st1\<lparr>rs_prior := sub_pcm\<rparr>)))"

definition copy_sub_pcm_into_big_pcm :: "u8 tensor \<Rightarrow> nat \<Rightarrow> nat \<Rightarrow> u8 tensor \<Rightarrow> u8 tensor res" where
  "copy_sub_pcm_into_big_pcm sub_pcm starting_row starting_col big_pcm =
     (if shape big_pcm ! 0 < starting_row + shape sub_pcm ! 0 \<or> shape big_pcm ! 1 < starting_col + shape sub_pcm ! 1
      then Inl Undefined_behaviour
      else rfold (\<lambda>r big.
        rbind (tensor_cref sub_pcm [r, 0]) (\<lambda>sub_row.
        rbind (tensor_ref big [u32 (starting_row + r), starting_col]) (\<lambda>big_row.
        rbind (mem_copy (data big) big_row (data sub_pcm) sub_row (shape sub_pcm ! 1)) (\<lambda>d.
          Inr (big\<lparr>data := d\<rparr>))))) [0..<shape sub_pcm ! 0] big_pcm)"

record extension =
  ex_pcm :: "u8 tensor"
  ex_columns :: "nat list"
  ex_rows_populated :: nat
  ex_cols_populated :: nat

definition pcm_extend_to_n_rounds ::
  "(nat \<Rightarrow> nat \<Rightarrow> u8 list \<Rightarrow> u8 list) \<Rightarrow> u8 tensor \<Rightarrow> nat \<Rightarrow> nat \<Rightarrow> (u8 tensor \<times> nat list) res" where
  "pcm_extend_to_n_rounds xt pcm S n_rounds =
     rbind (vget (shape pcm) 0) (\<lambda>num_rows.
     if S = 0 then Inl Undefined_behaviour
     else let orig_num_rounds = num_rows div S; last_round = u32 (sz_sub orig_num_rounds 1);
              rounds = (\<lambda>a b. get_pcm_for_rounds xt pcm (u32 S) a b True True 0) in
     if n_rounds < orig_num_rounds
     then Inl (Invalid_argument ''extend_pcm_to_n_rounds: original number of rounds must be less than or equal to n_rounds'')
     else rbind (pcm_is_sorted_dense pcm (u32 S)) (\<lambda>is_sorted.
     if \<not> is_sorted then Inl (Invalid_argument ''extend_pcm_to_n_rounds: input PCM is not sorted'')
     else rbind (rounds 0 last_round) (\<lambda>(all_pcm, _, _).
     rbind (rounds 0 0) (\<lambda>(prior_sub_pcm, prior_first_column, prior_last_column).
     rbind (rfold (scan_round xt pcm S) [1..<orig_num_rounds]
              \<lparr>rs_prior = prior_sub_pcm, rs_first_match = max_u32, rs_last_match = 0,
               rs_first_columns = [prior_first_column], rs_last_columns = [prior_last_column], rs_break = False\<rparr>) (\<lambda>st.
     if rs_first_match st = max_u32
     then Inl (Invalid_argument ''extend_pcm_to_n_rounds: PCM round analysis determined that consecutive rounds never matched each other, so we don't know how to insert more rounds'')
     else let num_orig_non_zero_cols = u32 (shape all_pcm ! 1);
              first_match = rs_first_match st; last_match = rs_last_match st;
              num_overlap = u32_sub (u32 (rs_last_columns st ! (first_match - 1) + 1)) (rs_first_columns st ! first_match);
              per_round = u32 (sz_sub (shape (rs_prior st) ! 1) num_overlap);
              num_added_rounds = u32 (n_rounds - orig_num_rounds);
              num_added_cols = u32 (per_round * num_added_rounds);
              num_added_rows = u32 (S * num_added_rounds);
              new_rows = num_rows + num_added_rows;
              new_cols = u32 (num_orig_non_zero_cols + num_added_cols) in
     rbind (rounds 0 (u32_sub last_match 1)) (\<lambda>(head_pcm, _, head_last).
     rbind (copy_sub_pcm_into_big_pcm head_pcm 0 0 (tensor_new [new_rows, new_cols])) (\<lambda>pcm1.
     rbind (rounds first_match first_match) (\<lambda>(mid_pcm, mid_first, mid_last).
     rbind (rfold (\<lambda>_ ex.
         rbind (copy_sub_pcm_into_big_pcm mid_pcm (ex_rows_populated ex) (u32_sub (ex_cols_populated ex) num_overlap) (ex_pcm ex))
           (\<lambda>big. Inr \<lparr>ex_pcm = big,
                        ex_columns = ex_columns ex @ [u32 (mid_first + num_overlap)..<mid_last + 1],
                        ex_rows_populated = u32 (ex_rows_populated ex + S),
                        ex_cols_populated = u32 (ex_cols_populated ex + per_round)\<rparr>))
       [0..<num_added_rounds]
       \<lparr>ex_pcm = pcm1, ex_columns = [0..<head_last + 1], ex_rows_populated = u32 (shape head_pcm ! 0),
        ex_cols_populated = u32 (shape head_pcm ! 1)\<rparr>) (\<lambda>ex.
     rbind (rounds last_match last_round) (\<lambda>(tail_pcm, tail_first, tail_last).
     let col_insert_start = u32 (sz_sub new_cols (sz_sub (shape pcm ! 1) tail_first));
         first_orig_col = u32 (tail_first + num_overlap);
         column_list = ex_columns ex @ [first_orig_col..<tail_last + 1] in
     rbind (copy_sub_pcm_into_big_pcm tail_pcm (ex_rows_populated ex) col_insert_start (ex_pcm ex)) (\<lambda>new_pcm.
     if length column_list \<noteq> shape new_pcm ! 1
     then Inl (Runtime_error ''extend_pcm_to_n_rounds: column_list.size() != new_pcm.shape()[1]'')
     else Inr (new_pcm, column_list))))))))))))"

section \<open>Integer lists\<close>

fun vec_cells :: "int list \<Rightarrow> nat \<Rightarrow> (nat \<times> nat) list" where
  "vec_cells [] row = []"
| "vec_cells (x # xs) row = (if x < 0 then vec_cells xs (row + 1) else (row, nat x) # vec_cells xs row)"

lemma from_vec_cells:
  "rbind (rfold from_vec_step v (t, row)) (\<lambda>s. Inr (fst s))
   = rfold (\<lambda>rc t. tensor_set t [fst rc, snd rc] 1) (vec_cells v row) t"
proof (induction v arbitrary: t row)
  case (Cons x xs)
  show ?case
  proof (cases "x < 0")
    case True
    then show ?thesis using Cons [of t "row + 1"] by (simp add: from_vec_step_def rbind_assoc)
  next
    case False
    then show ?thesis using Cons
      by (cases "tensor_set t [row, nat x] 1") (simp_all add: from_vec_step_def rbind_assoc)
  qed
qed simp

lemma marks_error:
  assumes "is_mat t nr nc" "\<not> (\<forall>(r, c) \<in> set L. r < nr \<and> c < nc)"
  shows "rfold (\<lambda>rc t. tensor_set t [fst rc, snd rc] v) L t = Inl (Runtime_error ''Invalid tensor indices'')"
  using assms
proof (induction L arbitrary: t)
  case (Cons rc L)
  show ?case
  proof (cases "fst rc < nr \<and> snd rc < nc")
    case True
    then have "\<not> (\<forall>(r, c) \<in> set L. r < nr \<and> c < nc)" using Cons.prems(2) by (cases rc) auto
    then show ?thesis using True Cons.IH [OF is_mat_upd [OF Cons.prems(1)]] Cons.prems(1)
      by (simp add: tensor_set_upd)
  next
    case False
    then show ?thesis using Cons.prems(1) by (simp add: tensor_set_error)
  qed
qed auto

lemma pcm_from_sparse_vec_cells:
  "pcm_from_sparse_vec v nr nc =
    (if \<forall>(r, c) \<in> set (vec_cells v 0). r < nr \<and> c < nc
     then Inr (mk_mat nr nc (\<lambda>r c. if (r, c) \<in> set (vec_cells v 0) then 1 else 0))
     else Inl (Runtime_error ''Invalid tensor indices''))"
  using marks_new [of "vec_cells v 0" nr nc] marks_error [OF is_mat_new, where nr = nr and nc = nc and L = "vec_cells v 0" and v = 1]
  by (auto simp: pcm_from_sparse_vec_def from_vec_cells)

definition rows_vec :: "nat list list \<Rightarrow> int list" where
  "rows_vec rows = concat (map (\<lambda>row. map int row @ [-1]) rows)"

lemma vec_cells_row: "vec_cells (map int row @ v) k = map (\<lambda>c. (k, c)) row @ vec_cells v k"
  by (induction row) auto

lemma vec_cells_rows:
  "(r, c) \<in> set (vec_cells (rows_vec rows) k) \<longleftrightarrow> (\<exists>i < length rows. r = k + i \<and> c \<in> set (rows ! i))"
proof (induction rows arbitrary: k)
  case (Cons row rows)
  have "(r, c) \<in> set (vec_cells (rows_vec (row # rows)) k) \<longleftrightarrow>
      r = k \<and> c \<in> set row \<or> (r, c) \<in> set (vec_cells (rows_vec rows) (k + 1))"
    by (auto simp: rows_vec_def vec_cells_row)
  also have "\<dots> \<longleftrightarrow> (\<exists>i < length (row # rows). r = k + i \<and> c \<in> set ((row # rows) ! i))"
  proof -
    have ex: "(\<exists>i < Suc n. P i) \<longleftrightarrow> P 0 \<or> (\<exists>i < n. P (Suc i))" for n P
      by (metis less_Suc_eq_0_disj not_less_eq zero_less_Suc)
    show ?thesis unfolding Cons length_Cons ex by auto
  qed
  finally show ?case .
qed (simp add: rows_vec_def)

definition rows_of :: "u8 tensor \<Rightarrow> nat \<Rightarrow> nat \<Rightarrow> nat list list" where
  "rows_of t nr nc = map (\<lambda>r. filter (\<lambda>c. ent t r c = 1) [0..<nc]) [0..<nr]"

lemma pcm_to_sparse_vec_rows:
  assumes "is_mat t nr nc"
  shows "pcm_to_sparse_vec t = Inr (rows_vec (rows_of t nr nc))"
proof -
  have cols: "rmap (\<lambda>c. rbind (tensor_at t [r, c]) (\<lambda>v. Inr (if v = 1 then [int c] else []))) [0..<nc]
      = Inr (map (\<lambda>c. if ent t r c = 1 then [int c] else []) [0..<nc])" if "r < nr" for r
    using that by (intro rmap_pure) (simp add: tensor_at_ent [OF assms])
  have pick: "concat (map (\<lambda>c. if P c then [int c] else []) xs) = map int (filter P xs)" for P xs
    by (induction xs) auto
  have "rmap (\<lambda>r. rbind (rmap (\<lambda>c. rbind (tensor_at t [r, c]) (\<lambda>v. Inr (if v = 1 then [int c] else []))) [0..<nc])
        (\<lambda>cols. Inr (concat cols @ [-1]))) [0..<nr]
      = Inr (map (\<lambda>r. map int (filter (\<lambda>c. ent t r c = 1) [0..<nc]) @ [-1]) [0..<nr])"
    by (intro rmap_pure) (simp add: cols pick)
  then show ?thesis
    using is_matD [OF assms] by (simp add: pcm_to_sparse_vec_def rows_vec_def rows_of_def comp_def)
qed

lemma pcm_from_rows:
  assumes "is_mat t nr nc" "set (data t) \<subseteq> {0, 1}"
  shows "(\<forall>(r, c) \<in> set (vec_cells (rows_vec (rows_of t nr nc)) 0). r < nr \<and> c < nc)"
    and "mk_mat nr nc (\<lambda>r c. if (r, c) \<in> set (vec_cells (rows_vec (rows_of t nr nc)) 0) then 1 else 0) = t"
proof -
  have mem: "(r, c) \<in> set (vec_cells (rows_vec (rows_of t nr nc)) 0) \<longleftrightarrow> r < nr \<and> c < nc \<and> ent t r c = 1" for r c
    unfolding vec_cells_rows by (auto simp: rows_of_def)
  then show "\<forall>(r, c) \<in> set (vec_cells (rows_vec (rows_of t nr nc)) 0). r < nr \<and> c < nc" by auto
  show "mk_mat nr nc (\<lambda>r c. if (r, c) \<in> set (vec_cells (rows_vec (rows_of t nr nc)) 0) then 1 else 0) = t"
  proof (rule mat_eqI [of _ nr nc])
    fix r c assume rc: "r < nr" "c < nc"
    then have "ent t r c \<in> set (data t)"
      using assms(1) cell_bound [of r nr c nc] by (simp add: ent_def is_mat_def)
    then have "ent t r c = 0 \<or> ent t r c = 1" using assms(2) by blast
    then show "ent (mk_mat nr nc (\<lambda>r c. if (r, c) \<in> set (vec_cells (rows_vec (rows_of t nr nc)) 0) then 1 else 0)) r c
        = ent t r c"
      using rc by (auto simp: mat_simps mem)
  qed (simp_all add: mat_simps assms(1))
qed

section \<open>Strings\<close>

lemma digit_value_char: "d < 10 \<Longrightarrow> digit_value (digit_char d) = Some d"
  by (simp add: digit_value_def digit_char_def)

lemma digit_char_facts:
  assumes "d < 10"
  shows "digit_char d \<noteq> CHR '',''" "digit_char d \<noteq> CHR ''-''" "digit_char d \<noteq> CHR ''+''" "\<not> is_space (digit_char d)"
proof -
  have code: "(of_char (digit_char d) :: nat) = 48 + d" using assms by (simp add: digit_char_def)
  then have "digit_char d \<noteq> ch" if "(of_char ch :: nat) < 48" for ch using that by auto
  then show "digit_char d \<noteq> CHR '',''" "digit_char d \<noteq> CHR ''-''" "digit_char d \<noteq> CHR ''+''"
    by simp_all
  show "\<not> is_space (digit_char d)" using code by (simp add: is_space_def)
qed

lemma string_of_nat_digits:
  "\<exists>ds. ds \<noteq> [] \<and> (\<forall>d \<in> set ds. d < 10) \<and> string_of_nat n = map digit_char ds \<and>
     (\<forall>s acc. parse_digits (map digit_char ds @ s) acc = parse_digits s (10 ^ length ds * acc + n))"
proof (induction n rule: string_of_nat.induct)
  case (1 n)
  show ?case
  proof (cases "n < 10")
    case True
    then show ?thesis
      by (intro exI [of _ "[n]"]) (simp add: string_of_nat.simps digit_value_char)
  next
    case False
    from 1 [OF False] obtain ds where ds: "ds \<noteq> []" "\<forall>d \<in> set ds. d < 10" "string_of_nat (n div 10) = map digit_char ds"
      "\<And>s acc. parse_digits (map digit_char ds @ s) acc = parse_digits s (10 ^ length ds * acc + n div 10)" by auto
    have "parse_digits (map digit_char (ds @ [n mod 10]) @ s) acc = parse_digits s (10 ^ length (ds @ [n mod 10]) * acc + n)" for s acc
      using ds(4) [of "digit_char (n mod 10) # s" acc] by (simp add: digit_value_char algebra_simps)
    with ds False show ?thesis
      by (intro exI [of _ "ds @ [n mod 10]"]) (simp add: string_of_nat.simps [of n])
  qed
qed

lemma stoul_string_of_nat: "n < 2 ^ 64 \<Longrightarrow> stoul (string_of_nat n) = Inr n"
proof -
  assume n: "n < 2 ^ 64"
  obtain ds where ds: "ds \<noteq> []" "\<forall>d \<in> set ds. d < 10" "string_of_nat n = map digit_char ds"
    "\<And>s acc. parse_digits (map digit_char ds @ s) acc = parse_digits s (10 ^ length ds * acc + n)"
    using string_of_nat_digits [of n] by auto
  obtain d ds' where dd: "ds = d # ds'" using ds(1) by (cases ds) auto
  have "parse_digits (map digit_char ds) 0 = n" using ds(4) [of "[]" 0] by simp
  moreover have "d < 10" using ds(2) dd by simp
  ultimately show ?thesis
    using n dd digit_char_facts [of d] unfolding stoul_def ds(3)
    by (simp add: digit_value_char)
qed

lemma string_of_nat_chars: "string_of_nat n \<noteq> []" "CHR '','' \<notin> set (string_of_nat n)" "string_of_nat n \<noteq> ''-1''"
proof -
  obtain ds where ds: "ds \<noteq> []" "\<forall>d \<in> set ds. d < 10" "string_of_nat n = map digit_char ds"
    using string_of_nat_digits [of n] by auto
  show "string_of_nat n \<noteq> []" "CHR '','' \<notin> set (string_of_nat n)"
    using ds digit_char_facts(1) by fastforce+
  have "hd (string_of_nat n) = digit_char (hd ds)" "hd ds < 10" using ds by (auto simp: list.map_sel(1))
  then show "string_of_nat n \<noteq> ''-1''" using digit_char_facts(2) [of "hd ds"] by auto
qed

lemma split_commas_token:
  "CHR '','' \<notin> set w \<Longrightarrow> split_commas item (w @ CHR '','' # s) = (item @ w) # split_commas [] s"
  by (induction w arbitrary: item) auto

lemma split_commas_last: "CHR '','' \<notin> set w \<Longrightarrow> w \<noteq> [] \<Longrightarrow> split_commas item w = [item @ w]"
proof (induction w arbitrary: item)
  case (Cons ch w)
  then show ?case by (cases "w = []") auto
qed simp

lemma split_commas_tokens:
  "ws \<noteq> [] \<Longrightarrow> \<forall>w \<in> set ws. w \<noteq> [] \<and> CHR '','' \<notin> set w \<Longrightarrow>
   split_commas [] (butlast (concat (map (\<lambda>w. w @ '','') ws))) = ws"
proof (induction ws)
  case (Cons w ws)
  show ?case
  proof (cases "ws = []")
    case True
    then show ?thesis using Cons.prems by (simp add: split_commas_last butlast_append)
  next
    case False
    then have "concat (map (\<lambda>w. w @ '','') ws) \<noteq> []" by auto
    then show ?thesis using Cons False by (simp add: butlast_append split_commas_token)
  qed
qed simp

definition row_tokens :: "nat list \<Rightarrow> string list" where
  "row_tokens row = map string_of_nat row @ [''-1'']"

lemma row_string_tokens: "row_string row = concat (map (\<lambda>w. w @ '','') (row_tokens row))"
  by (simp add: row_string_def row_tokens_def comp_def)

lemma from_string_row:
  assumes "\<forall>c \<in> set row. c \<le> max_u32"
  shows "rfold from_string_step (map string_of_nat row @ ws) (t, k) =
    rbind (rfold from_vec_step (map int row) (t, k)) (rfold from_string_step ws)"
  using assms
proof (induction row arbitrary: t)
  case (Cons c row)
  have "c < 2 ^ 64" using Cons.prems by (simp add: max_u32_def)
  then have step: "from_string_step (string_of_nat c) (t, k) = from_vec_step (int c) (t, k)"
    using Cons.prems by (simp add: from_string_step_def from_vec_step_def string_of_nat_chars stoul_string_of_nat)
  show ?case
  proof (cases "tensor_set t [k, c] 1")
    case (Inr t')
    then have "from_vec_step (int c) (t, k) = Inr (t', k)" by (simp add: from_vec_step_def)
    then show ?thesis using Cons step by simp
  qed (simp add: step, simp add: from_vec_step_def)
qed simp

lemma from_string_rows:
  assumes "\<forall>row \<in> set rows. \<forall>c \<in> set row. c \<le> max_u32" "k + length rows \<le> max_u32"
  shows "rfold from_string_step (concat (map row_tokens rows)) (t, k) = rfold from_vec_step (rows_vec rows) (t, k)"
  using assms
proof (induction rows arbitrary: t k)
  case (Cons row rows)
  have snd: "snd s = k" if "rfold from_vec_step (map int row) (t, k) = Inr s" for s t
    using that by (induction row arbitrary: t) (auto simp: from_vec_step_def rbind_Inr_iff)
  have dash: "from_string_step ''-1'' s = from_vec_step (-1) s" if "snd s = k" for s
    using that Cons.prems by (simp add: from_string_step_def from_vec_step_def)
  have "rfold from_string_step (concat (map row_tokens (row # rows))) (t, k)
      = rbind (rfold from_vec_step (map int row) (t, k)) (rfold from_string_step (''-1'' # concat (map row_tokens rows)))"
    using from_string_row [of row] Cons.prems(1) by (simp add: row_tokens_def)
  also have "\<dots> = rbind (rfold from_vec_step (map int row) (t, k)) (rfold from_vec_step (-1 # rows_vec rows))"
  proof (cases "rfold from_vec_step (map int row) (t, k)")
    case (Inr s)
    then obtain t' where s: "s = (t', k)" using snd by (cases s) auto
    have "from_vec_step (-1) (t', k) = Inr (t', Suc k)" by (simp add: from_vec_step_def)
    then show ?thesis using Inr s dash [of s] Cons.IH [of "Suc k" t'] Cons.prems by simp
  qed simp
  also have "\<dots> = rfold from_vec_step (rows_vec (row # rows)) (t, k)"
    by (simp add: rows_vec_def rfold_append)
  finally show ?case .
qed (simp add: rows_vec_def)

lemma pcm_to_sparse_string_rows:
  assumes "is_mat t nr nc" "0 < nc"
  shows "pcm_to_sparse_string t = pop_back (concat (map row_string (rows_of t nr nc)))"
proof -
  have "rmap (\<lambda>r. rbind (tensor_cref t [r, 0]) (\<lambda>row. Inr (row_string (filter (\<lambda>c. data t ! (row + c) = 1) [0..<nc])))) [0..<nr]
      = Inr (map (\<lambda>r. row_string (filter (\<lambda>c. ent t r c = 1) [0..<nc])) [0..<nr])"
    by (rule rmap_pure) (use assms is_matD [OF assms(1)] in \<open>simp add: tensor_cref_mat ent_def\<close>)
  then show ?thesis using is_matD [OF assms(1)]
    by (simp add: pcm_to_sparse_string_def rows_of_def comp_def)
qed

section \<open>Detector matrices\<close>

lemma timelike_round_rows:
  assumes "i * S + S \<le> max_u32" "0 < i"
  shows "concat (map (\<lambda>j. [int (u32 (u32 ((i - 1) * S) + j)), int (u32 (u32 (i * S) + j)), -1]) [0..<S])
    = rows_vec (map (\<lambda>k. [k - S, k]) [i * S..<i * S + S])"
proof -
  have "(i - 1) * S \<le> i * S" by (intro mult_le_mono1) simp
  then have "(i - 1) * S \<le> max_u32" "i * S \<le> max_u32" using assms(1) by linarith+
  then have le: "u32 ((i - 1) * S) = (i - 1) * S" "u32 (i * S) = i * S" using u32_id by blast+
  have prev: "(i - 1) * S = i * S - S" using assms(2) by (simp add: diff_mult_distrib)
  have "S \<le> i * S" using assms(2) by (cases i) auto
  have "concat (map (\<lambda>j. [int (u32 (u32 ((i - 1) * S) + j)), int (u32 (u32 (i * S) + j)), -1]) [0..<n])
      = rows_vec (map (\<lambda>k. [k - S, k]) [i * S..<i * S + n])" if "n \<le> S" for n
    using that
  proof (induction n)
    case (Suc n)
    have "u32 (i * S - S + n) = i * S + n - S" "u32 (i * S + n) = i * S + n"
      using Suc.prems assms(1) \<open>S \<le> i * S\<close> by simp_all
    then show ?case using Suc le prev by (simp add: rows_vec_def)
  qed (simp add: rows_vec_def)
  then show ?thesis by simp
qed

lemma timelike_rows:
  assumes "S * R \<le> max_u32" "0 < R"
  shows "generate_timelike_sparse_detector_matrix S R True
    = rows_vec (map (\<lambda>k. if k < S then [k] else [k - S, k]) [0..<S * R])"
proof -
  have rv: "rows_vec (xs @ ys) = rows_vec xs @ rows_vec ys" for xs ys by (simp add: rows_vec_def)
  have "timelike_rounds S r = rows_vec (map (\<lambda>k. [k - S, k]) [S..<S * r])" if "0 < r" "r \<le> R" for r
    using that
  proof (induction r)
    case (Suc r)
    show ?case
    proof (cases "r = 0")
      case True then show ?thesis by (simp add: timelike_rounds_def rows_vec_def)
    next
      case False
      have "r * S + S \<le> S * R" using Suc.prems by (metis Suc_le_eq add.commute mult.commute mult_Suc mult_le_mono2)
      then have le: "r * S + S \<le> max_u32" using assms(1) by simp
      have "timelike_rounds S (Suc r) = timelike_rounds S r @
          concat (map (\<lambda>j. [int (u32 (u32 ((r - 1) * S) + j)), int (u32 (u32 (r * S) + j)), -1]) [0..<S])"
        using False by (simp add: timelike_rounds_def)
      also have "\<dots> = rows_vec (map (\<lambda>k. [k - S, k]) ([S..<r * S] @ [r * S..<r * S + S]))"
        using Suc False timelike_round_rows [OF le] by (simp add: rv mult.commute)
      also have "[S..<r * S] @ [r * S..<r * S + S] = [S..<S * Suc r]"
      proof -
        have "S \<le> r * S" using False by (cases r) auto
        then show ?thesis using upt_add_eq_append [of S "r * S" S] by (simp add: algebra_simps)
      qed
      finally show ?thesis .
    qed
  qed simp
  from this [of R] have later: "timelike_rounds S R = rows_vec (map (\<lambda>k. [k - S, k]) [S..<S * R])" using assms(2) by simp
  have first: "concat (map (\<lambda>i. [int i, -1]) xs) = rows_vec (map (\<lambda>k. [k]) xs)" for xs
    by (induction xs) (simp_all add: rows_vec_def)
  have "S \<le> S * R" using assms(2) by (cases R) auto
  then have "[0..<S * R] = [0..<S] @ [S..<S * R]"
    using upt_add_eq_append [of 0 S "S * R - S"] by simp
  then have "map (\<lambda>k. if k < S then [k] else [k - S, k]) [0..<S * R]
      = map (\<lambda>k. [k]) [0..<S] @ map (\<lambda>k. [k - S, k]) [S..<S * R]" by simp
  then show ?thesis
    by (simp add: generate_timelike_sparse_detector_matrix_def later first rv)
qed

section \<open>Properties\<close>

text \<open>
  Integer-list form: a 0/1 matrix of any shape survives \<open>pcm_to_sparse_vec\<close> followed by
  \<open>pcm_from_sparse_vec\<close>, and \<open>pcm_from_sparse_vec\<close> of an arbitrary list sets exactly the cells
  listed for each row, or throws when one of them lies outside the requested shape.
\<close>

theorem sparse_vec_roundtrip:
  assumes "is_mat t nr nc" "set (data t) \<subseteq> {0, 1}"
  shows "(\<exists>v. pcm_to_sparse_vec t = Inr v \<and> pcm_from_sparse_vec v nr nc = Inr t) \<and>
    (\<forall>w. pcm_from_sparse_vec w nr nc =
       (if \<forall>(r, c) \<in> set (vec_cells w 0). r < nr \<and> c < nc
        then Inr (mk_mat nr nc (\<lambda>r c. if (r, c) \<in> set (vec_cells w 0) then 1 else 0))
        else Inl (Runtime_error ''Invalid tensor indices'')))"
  using pcm_to_sparse_vec_rows [OF assms(1)] pcm_from_rows [OF assms] by (simp add: pcm_from_sparse_vec_cells)

theorem sparse_vec_roundtrip_witness:
  "\<exists>v. pcm_to_sparse_vec \<lparr>shape = [2, 2], data = [0, 1, 1, 1]\<rparr> = Inr v \<and>
     pcm_from_sparse_vec v 2 2 = Inr \<lparr>shape = [2, 2], data = [0, 1, 1, 1]\<rparr>"
proof -
  let ?t = "\<lparr>shape = [2, 2], data = [0, 1, 1, 1]\<rparr> :: u8 tensor"
  have "is_mat ?t 2 2" "set (data ?t) \<subseteq> {0, 1}" by (simp_all add: is_mat_def)
  from sparse_vec_roundtrip [OF this] show ?thesis by blast
qed

text \<open>
  C36: String form: a non-empty 0/1 matrix whose dimensions fit 32 bits survives
  \<open>pcm_to_sparse_string\<close> followed by \<open>pcm_from_sparse_string\<close> (decimal printing, comma
  splitting and \<open>std::stoul\<close> included).
\<close>

theorem sparse_string_roundtrip:
  assumes "is_mat t nr nc" "set (data t) \<subseteq> {0, 1}" "0 < nr" "0 < nc" "nr \<le> max_u32" "nc \<le> max_u32"
  shows "\<exists>str. pcm_to_sparse_string t = Inr str \<and> pcm_from_sparse_string str nr nc = Inr t"
proof -
  let ?rows = "rows_of t nr nc" and ?ws = "concat (map row_tokens (rows_of t nr nc))"
  have printed: "concat (map row_string rows) = concat (map (\<lambda>w. w @ '','') (concat (map row_tokens rows)))" for rows
    by (induction rows) (simp_all add: row_string_tokens)
  have ne: "?ws \<noteq> []" using assms(3) by (auto simp: row_tokens_def rows_of_def)
  then have "concat (map (\<lambda>w. w @ '','') ?ws) \<noteq> []" by (cases ?ws) auto
  then have str: "pcm_to_sparse_string t = Inr (butlast (concat (map (\<lambda>w. w @ '','') ?ws)))"
    using pcm_to_sparse_string_rows [OF assms(1,4)] printed by (simp add: pop_back_def)
  have split: "split_commas [] (butlast (concat (map (\<lambda>w. w @ '','') ?ws))) = ?ws"
    by (rule split_commas_tokens [OF ne]) (auto simp: row_tokens_def string_of_nat_chars)
  have "rfold from_string_step ?ws (tensor_new [nr, nc], 0) = rfold from_vec_step (rows_vec ?rows) (tensor_new [nr, nc], 0)"
    by (rule from_string_rows) (use assms(5,6) in \<open>auto simp: rows_of_def\<close>)
  then have "pcm_from_sparse_string (butlast (concat (map (\<lambda>w. w @ '','') ?ws))) nr nc = pcm_from_sparse_vec (rows_vec ?rows) nr nc"
    by (simp add: pcm_from_sparse_string_def pcm_from_sparse_vec_def split)
  also have "\<dots> = Inr t" using pcm_from_rows [OF assms(1,2)] by (simp add: pcm_from_sparse_vec_cells)
  finally show ?thesis using str by blast
qed

theorem sparse_string_roundtrip_witness:
  "\<exists>str. pcm_to_sparse_string \<lparr>shape = [1, 2], data = [1, 1]\<rparr> = Inr str \<and>
     pcm_from_sparse_string str 1 2 = Inr \<lparr>shape = [1, 2], data = [1, 1]\<rparr>"
  using sparse_string_roundtrip [of "\<lparr>shape = [1, 2], data = [1, 1]\<rparr>" 1 2] by (simp add: is_mat_def max_u32_def)

text \<open>
  A matrix without rows: the dense \<open>pcm_to_sparse_string\<close> calls \<open>pop_back\<close> on an empty string,
  which is undefined; the sparse overload guards the call and returns the empty string.
\<close>

lemma empty_matrix_string:
  assumes "is_mat t 0 nc" "sbm_ok m" "sbm_rows m = 0"
  shows "pcm_to_sparse_string t = Inl Undefined_behaviour \<and> pcm_to_sparse_string_sparse m = Inr []"
proof -
  have ok: "sbm_ok (reduced m)" by (rule reduced_props(2) [OF assms(2)])
  have "sbm_rows (reduced m) = 0" using assms(3) by (simp add: reduced_def Let_def)
  then have "length (to_nested_csr (reduced m)) = 0"
    unfolding to_nested_csr_groups [OF ok] using to_csr_props [OF ok] by (simp add: num_groups_def)
  then have "to_canonical_nested_csr m = Inr []"
    by (simp add: to_canonical_nested_csr_def canonicalize_eq_reduced [OF assms(2)])
  then show ?thesis using is_matD [OF assms(1)]
    by (simp add: pcm_to_sparse_string_def pcm_to_sparse_string_sparse_def pop_back_def)
qed

lemma empty_matrix_string_witness:
  "pcm_to_sparse_string \<lparr>shape = [0, 2], data = []\<rparr> = Inl Undefined_behaviour"
  using empty_matrix_string [of "\<lparr>shape = [0, 2], data = []\<rparr>" 2
      "\<lparr>sbm_layout = CSR, sbm_rows = 0, sbm_cols = 2, sbm_ptr = [0], sbm_idx = []\<rparr>"]
  by (simp add: is_mat_def sbm_ok_def ptr_ok_def num_groups_def max_u32_def)

text \<open>
  The time-like detector matrix with the first round included: when the syndrome count fits
  32 bits, reading it back with \<open>pcm_from_sparse_vec\<close> gives the square matrix with a one at
  detector \<open>k\<close> and measurement \<open>c\<close> iff \<open>c = k\<close> or \<open>c + S = k\<close>: every detector is the XOR of a
  syndrome with the same syndrome one round earlier, the first round's syndromes being
  compared with zero.
\<close>

theorem timelike_detector_matrix:
  assumes "S * R \<le> max_u32" "0 < R"
  shows "pcm_from_sparse_vec (generate_timelike_sparse_detector_matrix S R True) (S * R) (S * R)
    = Inr (mk_mat (S * R) (S * R) (\<lambda>k c. if c = k \<or> c + S = k then 1 else 0))"
proof -
  let ?v = "generate_timelike_sparse_detector_matrix S R True"
  have mem: "(k, c) \<in> set (vec_cells ?v 0) \<longleftrightarrow> k < S * R \<and> (c = k \<or> c + S = k)" for k c
    unfolding timelike_rows [OF assms] vec_cells_rows by (auto split: if_splits)
  have "mk_mat (S * R) (S * R) (\<lambda>k c. if (k, c) \<in> set (vec_cells ?v 0) then 1 else 0 :: u8)
      = mk_mat (S * R) (S * R) (\<lambda>k c. if c = k \<or> c + S = k then 1 else 0)"
    by (rule mat_eqI [of _ "S * R" "S * R"]) (simp_all add: mat_simps mem)
  moreover have "\<forall>(r, c) \<in> set (vec_cells ?v 0). r < S * R \<and> c < S * R" by (auto simp: mem)
  ultimately show ?thesis by (simp add: pcm_from_sparse_vec_cells)
qed

theorem timelike_detector_matrix_witness:
  "pcm_from_sparse_vec (generate_timelike_sparse_detector_matrix 1 2 True) 2 2
   = Inr (mk_mat 2 2 (\<lambda>k c. if c = k \<or> c + 1 = k then 1 else 0))"
  using timelike_detector_matrix [of 1 2] by (simp add: max_u32_def)

end
