(* ===== verification/QEC_Dem.thy ===== *)
theory QEC_Dem
  imports QEC_Pcm_Utils
begin

text \<open>
  Detector error models (libs/qec/lib/detector_error_model.cpp): the projections of a Stim model
  to dense and to sparse matrices, and canonicalisation for round-based decoding, which merges
  error mechanisms with the same detector and observable signature. Parsing Stim text is
  third-party code: the parameter \<open>stim\<close> maps a text to the flattened model or to the message
  of the exception. Warnings are not modelled. A method that throws half-way leaves the object
  changed, so canonicalisation returns the exception together with the object.
\<close>

section \<open>Stim models\<close>

datatype dem_target = Relative_detector nat | Observable_id nat | Separator | Other_target

record dem_instruction =
  arg_data :: "real list"
  target_data :: "dem_target list"

record stim_model =
  count_detectors :: nat
  count_observables :: nat
  flat_errors :: "dem_instruction list"

type_synonym stim_parser = "string \<Rightarrow> string + stim_model"

record parsed_stim_dem =
  pd_num_detectors :: nat
  pd_num_observables :: nat
  pd_detector_hits :: "nat list list"
  pd_observable_hits :: "nat list list"
  pd_error_rates :: "real list"

text \<open>The \<open>std::set\<close>s of one instruction are sorted lists.\<close>

record hit_state =
  hs_dets :: "nat list"
  hs_obs :: "nat list"
  hs_detector_hits :: "nat list list"
  hs_observable_hits :: "nat list list"
  hs_error_rates :: "real list"

definition toggle :: "nat \<Rightarrow> nat list \<Rightarrow> nat list" where
  "toggle v s = (if v \<in> set s then remove1 v s else insort v s)"

definition flush_hits :: "real \<Rightarrow> hit_state \<Rightarrow> hit_state" where
  "flush_hits prob s =
     (if hs_dets s \<noteq> [] \<or> hs_obs s \<noteq> []
      then s\<lparr>hs_detector_hits := hs_detector_hits s @ [hs_dets s],
             hs_observable_hits := hs_observable_hits s @ [hs_obs s],
             hs_error_rates := hs_error_rates s @ [prob], hs_dets := [], hs_obs := []\<rparr>
      else s)"

definition push_target :: "bool \<Rightarrow> real \<Rightarrow> dem_target \<Rightarrow> hit_state \<Rightarrow> hit_state res" where
  "push_target use_decomp prob target s =
     (case target of
        Separator \<Rightarrow> Inr (if use_decomp then flush_hits prob s else s)
      | Relative_detector v \<Rightarrow> Inr (s\<lparr>hs_dets := toggle v (hs_dets s)\<rparr>)
      | Observable_id v \<Rightarrow> Inr (s\<lparr>hs_obs := toggle v (hs_obs s)\<rparr>)
      | Other_target \<Rightarrow> Inl (Runtime_error ''Stim DEM error instruction contains an unsupported target kind''))"

definition push_instruction :: "bool \<Rightarrow> dem_instruction \<Rightarrow> hit_state \<Rightarrow> hit_state res" where
  "push_instruction use_decomp inst s =
     (if arg_data inst = [] then Inl (Runtime_error ''Stim DEM error instruction missing probability argument'')
      else let prob = arg_data inst ! 0 in
        if \<not> (0 \<le> prob \<and> prob \<le> 1) then Inl (Runtime_error ''Stim DEM error probability out of range [0, 1]'')
        else rbind (rfold (push_target use_decomp prob) (target_data inst) (s\<lparr>hs_dets := [], hs_obs := []\<rparr>))
          (\<lambda>s. Inr (flush_hits prob s)))"

definition parse_stim_dem :: "stim_parser \<Rightarrow> string \<Rightarrow> bool \<Rightarrow> parsed_stim_dem res" where
  "parse_stim_dem stim dem_text use_decomp =
     (case stim dem_text of
        Inl e \<Rightarrow> Inl (Runtime_error (''Stim DEM parse failed: '' @ e))
      | Inr dem \<Rightarrow>
          rbind (rfold (push_instruction use_decomp) (flat_errors dem)
                   \<lparr>hs_dets = [], hs_obs = [], hs_detector_hits = [], hs_observable_hits = [], hs_error_rates = []\<rparr>)
            (\<lambda>s. if hs_detector_hits s = []
                 then Inl (Runtime_error ''Stim DEM contains no error mechanisms after flattening'')
                 else Inr \<lparr>pd_num_detectors = count_detectors dem, pd_num_observables = count_observables dem,
                           pd_detector_hits = hs_detector_hits s, pd_observable_hits = hs_observable_hits s,
                           pd_error_rates = hs_error_rates s\<rparr>))"

definition validate_hit_ids :: "parsed_stim_dem \<Rightarrow> unit res" where
  "validate_hit_ids p =
     (if list_ex (list_ex (\<lambda>det. pd_num_detectors p \<le> det)) (pd_detector_hits p)
      then Inl (Runtime_error ''Stim DEM detector id out of range while extracting H'')
      else if list_ex (list_ex (\<lambda>ob. pd_num_observables p \<le> ob)) (pd_observable_hits p)
      then Inl (Runtime_error ''Stim DEM observable id out of range while extracting O'')
      else Inr ())"

section \<open>Detector error models\<close>

record detector_error_model =
  detector_error_matrix :: "u8 tensor"
  error_rates :: "real list"
  observables_flips_matrix :: "u8 tensor"
  error_ids :: "nat list option"

text \<open>\<open>t.at(idxs) ^= 1\<close>\<close>

definition tensor_flip :: "u8 tensor \<Rightarrow> nat list \<Rightarrow> u8 tensor res" where
  "tensor_flip t idxs = rbind (tensor_ref t idxs) (\<lambda>i.
     rbind (vget (data t) i) (\<lambda>v. Inr (t\<lparr>data := (data t)[i := xor v 1]\<rparr>)))"

definition hits_cells :: "nat list list \<Rightarrow> (nat \<times> nat) list" where
  "hits_cells hits = concat (map (\<lambda>err. map (\<lambda>v. (v, err)) (hits ! err)) [0..<length hits])"

definition dem_from_stim_text :: "stim_parser \<Rightarrow> string \<Rightarrow> bool \<Rightarrow> detector_error_model res" where
  "dem_from_stim_text stim dem_text use_decomp =
     rbind (parse_stim_dem stim dem_text use_decomp) (\<lambda>parsed.
     rbind (validate_hit_ids parsed) (\<lambda>_.
       let num_cols = length (pd_detector_hits parsed) in
       rbind (rfold (\<lambda>rc t. tensor_flip t [fst rc, snd rc]) (hits_cells (pd_detector_hits parsed))
                (tensor_new [pd_num_detectors parsed, num_cols])) (\<lambda>H.
       rbind (rfold (\<lambda>rc t. tensor_flip t [fst rc, snd rc]) (hits_cells (pd_observable_hits parsed))
                (tensor_new [pd_num_observables parsed, num_cols])) (\<lambda>obs.
         Inr \<lparr>detector_error_matrix = H, error_rates = pd_error_rates parsed,
              observables_flips_matrix = obs, error_ids = None\<rparr>))))"

record sparse_dem =
  sd_detector_error_matrix :: sparse_binary_matrix
  sd_observables_flips_matrix :: sparse_binary_matrix
  sd_error_rates :: "real list"

definition cursor_step :: "nat \<times> nat \<Rightarrow> nat list \<times> nat list \<Rightarrow> nat list \<times> nat list" where
  "cursor_step kv s = ((fst s)[snd s ! fst kv := snd kv], (snd s)[fst kv := snd s ! fst kv + 1])"

definition sparse_dem_from_stim_text :: "stim_parser \<Rightarrow> string \<Rightarrow> sparse_dem res" where
  "sparse_dem_from_stim_text stim dem_text =
     rbind (parse_stim_dem stim dem_text False) (\<lambda>parsed.
     rbind (validate_hit_ids parsed) (\<lambda>_.
       let num_cols = length (pd_detector_hits parsed); num_obs = pd_num_observables parsed;
           h_nnz = sum_list (map length (pd_detector_hits parsed));
           o_nnz = sum_list (map length (pd_observable_hits parsed)) in
       if max_u32 < num_cols \<or> max_u32 < pd_num_detectors parsed \<or> max_u32 < num_obs
       then Inl (Runtime_error ''Stim DEM dimensions exceed the sparse matrix index type'')
       else if max_u32 < h_nnz \<or> max_u32 < o_nnz
       then Inl (Runtime_error ''Stim DEM nonzero count exceeds the sparse matrix index type'')
       else let col_ptrs = prefix_ptrs (map length (pd_detector_hits parsed));
                row_indices = concat (pd_detector_hits parsed);
                pairs = hits_cells (pd_observable_hits parsed);
                row_ptrs = prefix_ptrs (count_keys num_obs pairs);
                col_indices = fst (fold cursor_step pairs (replicate o_nnz 0, butlast row_ptrs)) in
         rbind (from_csc (pd_num_detectors parsed) num_cols col_ptrs row_indices) (\<lambda>H.
         rbind (from_csr num_obs num_cols row_ptrs col_indices) (\<lambda>obs.
           Inr \<lparr>sd_detector_error_matrix = H, sd_observables_flips_matrix = obs,
                sd_error_rates = pd_error_rates parsed\<rparr>))))"

definition dem_num_detectors :: "detector_error_model \<Rightarrow> nat" where
  "dem_num_detectors dem =
     (if length (shape (detector_error_matrix dem)) = 2 then shape (detector_error_matrix dem) ! 0 else 0)"

definition num_error_mechanisms :: "detector_error_model \<Rightarrow> nat" where
  "num_error_mechanisms dem =
     (if length (shape (detector_error_matrix dem)) = 2 then shape (detector_error_matrix dem) ! 1 else 0)"

definition num_observables :: "detector_error_model \<Rightarrow> nat" where
  "num_observables dem =
     (if length (shape (observables_flips_matrix dem)) = 2 then shape (observables_flips_matrix dem) ! 0 else 0)"

section \<open>Canonicalisation\<close>

type_synonym signature = "nat list \<times> nat list"

record merge_state =
  ms_sig_to_out :: "(signature \<times> nat) list"
  ms_final_column_order :: "nat list"
  ms_out_exclusive :: "(nat \<times> real) list list"

definition has_error_ids :: "detector_error_model \<Rightarrow> bool" where
  "has_error_ids dem =
     (case error_ids dem of Some ids \<Rightarrow> length ids = length (error_rates dem) | None \<Rightarrow> False)"

text \<open>\<open>std::map<std::size_t, double>\<close> in key order, and \<open>m[key] += rate\<close>.\<close>

fun exclusive_add :: "nat \<Rightarrow> real \<Rightarrow> (nat \<times> real) list \<Rightarrow> (nat \<times> real) list" where
  "exclusive_add key rate [] = [(key, 0 + rate)]"
| "exclusive_add key rate ((k, p) # m) =
     (if key = k then (k, p + rate) # m
      else if key < k then (key, 0 + rate) # (k, p) # m
      else (k, p) # exclusive_add key rate m)"

definition obs_signature :: "u8 tensor \<Rightarrow> nat \<Rightarrow> nat \<Rightarrow> nat list res" where
  "obs_signature obs num_obs column =
     rbind (rmap (\<lambda>r. rbind (tensor_ref obs [r, column]) (\<lambda>i. rbind (vget (data obs) i) (\<lambda>v.
                Inr (if v \<noteq> 0 then [u32 r] else [])))) [0..<num_obs])
       (\<lambda>xs. Inr (concat xs))"

definition merge_column ::
  "detector_error_model \<Rightarrow> nat list list \<Rightarrow> bool \<Rightarrow> nat \<Rightarrow> merge_state \<Rightarrow> merge_state res" where
  "merge_column dem row_indices remove_zero_syndrome_errors column_index st =
     (let curr = row_indices ! column_index; rate = error_rates dem ! column_index in
      rbind (obs_signature (observables_flips_matrix dem) (num_observables dem) column_index) (\<lambda>obs_indices.
        if rate = 0 \<or> (curr = [] \<and> obs_indices = []) \<or> (remove_zero_syndrome_errors \<and> curr = []) then Inr st
        else let sig = (curr, obs_indices);
                 n = length (ms_out_exclusive st);
                 st1 = (case map_of (ms_sig_to_out st) sig of
                          Some _ \<Rightarrow> st
                        | None \<Rightarrow> st\<lparr>ms_sig_to_out := ms_sig_to_out st @ [(sig, n)],
                                     ms_out_exclusive := ms_out_exclusive st @ [[]],
                                     ms_final_column_order := ms_final_column_order st @ [column_index]\<rparr>);
                 i = (case map_of (ms_sig_to_out st) sig of Some i \<Rightarrow> i | None \<Rightarrow> n);
                 exclusive_key = (if has_error_ids dem then the (error_ids dem) ! column_index else column_index)
          in Inr (st1\<lparr>ms_out_exclusive := (ms_out_exclusive st1)[i := exclusive_add exclusive_key rate (ms_out_exclusive st1 ! i)]\<rparr>)))"

definition xor_weight :: "(nat \<times> real) list \<Rightarrow> real" where
  "xor_weight m = fold (\<lambda>(id, p) weight. weight + p - 2 * weight * p) m 0"

definition canonicalize_for_rounds_impl ::
  "(nat \<Rightarrow> nat \<Rightarrow> u8 list \<Rightarrow> u8 list) \<Rightarrow> nat list list \<Rightarrow> nat list \<Rightarrow> bool \<Rightarrow> detector_error_model \<Rightarrow>
   exn option \<times> detector_error_model" where
  "canonicalize_for_rounds_impl xt row_indices column_order remove_zero dem =
     (if length (error_rates dem) < length row_indices
      then (Some (Runtime_error ''canonicalize_for_rounds: row_indices size is greater than the number of error rates''), dem)
      else case rfold (merge_column dem row_indices remove_zero) column_order
                  \<lparr>ms_sig_to_out = [], ms_final_column_order = [], ms_out_exclusive = []\<rparr> of
        Inl e \<Rightarrow> (Some e, dem)
      | Inr st \<Rightarrow>
          let dem1 = dem\<lparr>error_rates := map xor_weight (ms_out_exclusive st),
                         error_ids := (if has_error_ids dem then Some [0..<length (ms_out_exclusive st)] else error_ids dem)\<rparr>
          in case reorder_pcm_columns xt (detector_error_matrix dem1) (ms_final_column_order st) 0 default_row_end of
               Inl e \<Rightarrow> (Some e, dem1)
             | Inr H \<Rightarrow>
                 let dem2 = dem1\<lparr>detector_error_matrix := H\<rparr>
                 in case reorder_pcm_columns xt (observables_flips_matrix dem2) (ms_final_column_order st) 0 default_row_end of
                      Inl e \<Rightarrow> (Some e, dem2)
                    | Inr obs \<Rightarrow> (None, dem2\<lparr>observables_flips_matrix := obs\<rparr>))"

definition canonicalize_for_rounds ::
  "(nat \<Rightarrow> nat \<Rightarrow> u8 list \<Rightarrow> u8 list) \<Rightarrow> nat \<Rightarrow> bool \<Rightarrow> detector_error_model \<Rightarrow> exn option \<times> detector_error_model" where
  "canonicalize_for_rounds xt S remove_zero dem =
     (case dense_to_sparse (detector_error_matrix dem) of
        Inl e \<Rightarrow> (Some e, dem)
      | Inr row_indices \<Rightarrow>
          canonicalize_for_rounds_impl xt row_indices (get_sorted_pcm_column_indices row_indices S) remove_zero dem)"

definition canonicalize_for_rounds_with_boundary ::
  "(nat \<Rightarrow> nat \<Rightarrow> u8 list \<Rightarrow> u8 list) \<Rightarrow> nat \<Rightarrow> nat \<Rightarrow> bool \<Rightarrow> detector_error_model \<Rightarrow> exn option \<times> detector_error_model" where
  "canonicalize_for_rounds_with_boundary xt S B remove_zero dem =
     (if S < B
      then (Some (Invalid_argument ''canonicalize_for_rounds_with_boundary: num_boundary_syndromes must be <= num_syndromes_per_round''), dem)
      else case dense_to_sparse (detector_error_matrix dem) of
        Inl e \<Rightarrow> (Some e, dem)
      | Inr row_indices \<Rightarrow>
          (case get_sorted_pcm_column_indices_boundary row_indices S B of
             Inl e \<Rightarrow> (Some e, dem)
           | Inr column_order \<Rightarrow> canonicalize_for_rounds_impl xt row_indices column_order remove_zero dem))"

section \<open>Parity of targets\<close>

lemma toggle_props:
  assumes "strictly_sorted s"
  shows "strictly_sorted (toggle v s)" "set (toggle v s) = (if v \<in> set s then set s - {v} else insert v (set s))"
  using assms
  by (auto simp: toggle_def strict_sorted_iff sorted_remove1 sorted_insort distinct_insort set_insort_key)

lemma fold_toggle:
  assumes "strictly_sorted s"
  shows "strictly_sorted (fold toggle xs s) \<and>
    (\<forall>v. v \<in> set (fold toggle xs s) \<longleftrightarrow> (v \<in> set s) \<noteq> odd (count_list xs v))"
  using assms
proof (induction xs arbitrary: s)
  case (Cons x xs)
  from Cons.IH [OF toggle_props(1) [OF Cons.prems, of x]] toggle_props(2) [OF Cons.prems, of x]
  show ?case by auto
qed simp

lemma fold_toggle_odd_runs: "fold toggle xs [] = odd_runs (sort xs)"
proof (rule strict_sorted_equal)
  show "strictly_sorted (fold toggle xs [])" using fold_toggle [of "[]"] by simp
  show "strictly_sorted (odd_runs (sort xs))" by (simp add: strictly_sorted_odd_runs)
  have "v \<in> set (odd_runs (sort xs)) \<longleftrightarrow> odd (count_list xs v)" for v
  proof -
    have "v \<in> set (odd_runs (sort xs)) \<longleftrightarrow> 0 < count_list (odd_runs (sort xs)) v" by simp
    also have "\<dots> \<longleftrightarrow> odd (count_list (sort xs) v)" by (simp only: count_odd_runs [OF sorted_sort]) presburger
    also have "count_list (sort xs) v = count_list xs v" by (metis count_mset mset_sort)
    finally show ?thesis .
  qed
  then show "set (fold toggle xs []) = set (odd_runs (sort xs))" using fold_toggle [of "[]" xs] by auto
qed

fun detector_ids :: "dem_target list \<Rightarrow> nat list" where
  "detector_ids [] = []"
| "detector_ids (Relative_detector v # ts) = v # detector_ids ts"
| "detector_ids (_ # ts) = detector_ids ts"

fun observable_ids :: "dem_target list \<Rightarrow> nat list" where
  "observable_ids [] = []"
| "observable_ids (Observable_id v # ts) = v # observable_ids ts"
| "observable_ids (_ # ts) = observable_ids ts"

definition valid_instruction :: "dem_instruction \<Rightarrow> bool" where
  "valid_instruction inst \<longleftrightarrow> arg_data inst \<noteq> [] \<and> 0 \<le> hd (arg_data inst) \<and> hd (arg_data inst) \<le> 1 \<and>
     Other_target \<notin> set (target_data inst)"

definition instruction_column :: "dem_instruction \<Rightarrow> nat list \<times> nat list \<times> real" where
  "instruction_column inst =
     (odd_runs (sort (detector_ids (target_data inst))), odd_runs (sort (observable_ids (target_data inst))), hd (arg_data inst))"

definition model_columns :: "stim_model \<Rightarrow> (nat list \<times> nat list \<times> real) list" where
  "model_columns dem = filter (\<lambda>(d, ob, p). d \<noteq> [] \<or> ob \<noteq> []) (map instruction_column (flat_errors dem))"

lemma push_targets:
  "Other_target \<notin> set ts \<Longrightarrow> rfold (push_target False prob) ts s =
     Inr (s\<lparr>hs_dets := fold toggle (detector_ids ts) (hs_dets s), hs_obs := fold toggle (observable_ids ts) (hs_obs s)\<rparr>)"
proof (induction ts arbitrary: s)
  case (Cons t ts)
  then show ?case by (cases t) (simp_all add: push_target_def)
qed simp

lemma push_instructions:
  assumes "\<forall>inst \<in> set insts. valid_instruction inst" "hs_dets s = []" "hs_obs s = []"
  shows "\<exists>s'. rfold (push_instruction False) insts s = Inr s' \<and>
    hs_detector_hits s' = hs_detector_hits s @ map fst (filter (\<lambda>(d, ob, p). d \<noteq> [] \<or> ob \<noteq> []) (map instruction_column insts)) \<and>
    hs_observable_hits s' = hs_observable_hits s @ map (fst \<circ> snd) (filter (\<lambda>(d, ob, p). d \<noteq> [] \<or> ob \<noteq> []) (map instruction_column insts)) \<and>
    hs_error_rates s' = hs_error_rates s @ map (snd \<circ> snd) (filter (\<lambda>(d, ob, p). d \<noteq> [] \<or> ob \<noteq> []) (map instruction_column insts))"
  using assms
proof (induction insts arbitrary: s)
  case (Cons inst insts)
  obtain d ob p where c: "instruction_column inst = (d, ob, p)" by (cases "instruction_column inst")
  have valid: "valid_instruction inst" using Cons.prems by simp
  define s1 where "s1 = flush_hits p (s\<lparr>hs_dets := d, hs_obs := ob\<rparr>)"
  have step: "push_instruction False inst s = Inr s1"
    using valid c Cons.prems(2,3) fold_toggle_odd_runs
    by (auto simp: push_instruction_def valid_instruction_def push_targets instruction_column_def hd_conv_nth s1_def)
  have clear: "hs_dets s1 = []" "hs_obs s1 = []" by (auto simp: s1_def flush_hits_def)
  from Cons.IH [OF _ clear] Cons.prems(1) obtain s' where s': "rfold (push_instruction False) insts s1 = Inr s'"
    "hs_detector_hits s' = hs_detector_hits s1 @ map fst (filter (\<lambda>(d, ob, p). d \<noteq> [] \<or> ob \<noteq> []) (map instruction_column insts))"
    "hs_observable_hits s' = hs_observable_hits s1 @ map (fst \<circ> snd) (filter (\<lambda>(d, ob, p). d \<noteq> [] \<or> ob \<noteq> []) (map instruction_column insts))"
    "hs_error_rates s' = hs_error_rates s1 @ map (snd \<circ> snd) (filter (\<lambda>(d, ob, p). d \<noteq> [] \<or> ob \<noteq> []) (map instruction_column insts))"
    by auto
  then show ?case using step c by (auto simp: s1_def flush_hits_def)
qed simp

lemma parse_columns:
  assumes "stim dem_text = Inr dem" "\<forall>inst \<in> set (flat_errors dem). valid_instruction inst" "model_columns dem \<noteq> []"
  shows "parse_stim_dem stim dem_text False = Inr \<lparr>pd_num_detectors = count_detectors dem, pd_num_observables = count_observables dem,
    pd_detector_hits = map fst (model_columns dem), pd_observable_hits = map (fst \<circ> snd) (model_columns dem),
    pd_error_rates = map (snd \<circ> snd) (model_columns dem)\<rparr>"
proof -
  obtain s' where "rfold (push_instruction False) (flat_errors dem)
      \<lparr>hs_dets = [], hs_obs = [], hs_detector_hits = [], hs_observable_hits = [], hs_error_rates = []\<rparr> = Inr s'"
    "hs_detector_hits s' = map fst (model_columns dem)" "hs_observable_hits s' = map (fst \<circ> snd) (model_columns dem)"
    "hs_error_rates s' = map (snd \<circ> snd) (model_columns dem)"
    using push_instructions [OF assms(2), of "\<lparr>hs_dets = [], hs_obs = [], hs_detector_hits = [], hs_observable_hits = [], hs_error_rates = []\<rparr>"]
    by (auto simp: model_columns_def)
  then show ?thesis using assms by (simp add: parse_stim_dem_def)
qed

lemma model_columns_sorted: "(d, ob, p) \<in> set (model_columns dem) \<Longrightarrow> strictly_sorted d \<and> strictly_sorted ob"
  by (auto simp: model_columns_def instruction_column_def strictly_sorted_odd_runs)

section \<open>Matrices of hit lists\<close>

lemma tensor_flip_mat:
  "is_mat t nr nc \<Longrightarrow> r < nr \<Longrightarrow> c < nc \<Longrightarrow> tensor_flip t [r, c] = Inr (mat_upd t r c (xor (ent t r c) 1))"
  using cell_bound [of r nr c nc]
  by (simp add: tensor_flip_def tensor_ref_mat is_mat_def mat_upd_def ent_def)

lemma flips_new:
  assumes "\<forall>(r, c) \<in> set L. r < nr \<and> c < nc" "distinct L"
  shows "rfold (\<lambda>rc t. tensor_flip t [fst rc, snd rc]) L (tensor_new [nr, nc])
    = Inr (mk_mat nr nc (\<lambda>r c. if (r, c) \<in> set L then 1 else 0))"
  using assms
proof (induction L rule: rev_induct)
  case Nil
  have "tensor_new [nr, nc] = mk_mat nr nc (\<lambda>r c. 0)"
    by (rule mat_eqI [of _ nr nc]) (simp_all add: mat_simps)
  then show ?case by simp
next
  case (snoc rc L)
  obtain r c where rc: "rc = (r, c)" by (cases rc)
  let ?t = "mk_mat nr nc (\<lambda>r c. if (r, c) \<in> set L then 1 else 0) :: u8 tensor"
  have b: "r < nr" "c < nc" "(r, c) \<notin> set L" using snoc.prems rc by auto
  have "tensor_flip ?t [r, c] = Inr (mat_upd ?t r c 1)"
    using b by (simp add: tensor_flip_mat [OF is_mat_mk_mat] ent_mk_mat)
  moreover have "mat_upd ?t r c 1 = mk_mat nr nc (\<lambda>r c. if (r, c) \<in> set (L @ [rc]) then 1 else 0)"
    using b rc by (intro mat_eqI [of _ nr nc])
      (auto simp: mat_simps ent_upd [OF is_mat_mk_mat])
  moreover have "rfold (\<lambda>rc t. tensor_flip t [fst rc, snd rc]) L (tensor_new [nr, nc]) = Inr ?t"
    using snoc by auto
  ultimately show ?case by (simp add: rfold_append rc)
qed

lemma hits_cells_mem: "(v, e) \<in> set (hits_cells hits) \<longleftrightarrow> e < length hits \<and> v \<in> set (hits ! e)"
  by (auto simp: hits_cells_def)

lemma distinct_hits_cells:
  assumes "\<forall>h \<in> set hits. distinct h"
  shows "distinct (hits_cells hits)"
proof -
  have "distinct (concat (map (\<lambda>err. map (\<lambda>v. (v, err)) (hits ! err)) [0..<k]))" if "k \<le> length hits" for k
    using that
  proof (induction k)
    case (Suc k)
    then have "distinct (hits ! k)" using assms by simp
    then show ?case using Suc by (auto simp: distinct_map inj_on_def)
  qed simp
  then show ?thesis by (simp add: hits_cells_def)
qed

lemma cursor_is_scatter:
  assumes "\<forall>kv \<in> set kvs. fst kv < K" "length ptrs = K + 1" "length cnt = K"
  shows "fst (fold cursor_step kvs (out, map (\<lambda>k. ptrs ! k + cnt ! k) [0..<K]))
    = fst (fold (scatter_step ptrs) kvs (out, cnt))"
  using assms
proof (induction kvs arbitrary: out cnt)
  case (Cons kv kvs)
  let ?cnt = "cnt[fst kv := cnt ! fst kv + 1]"
  have "(map (\<lambda>k. ptrs ! k + cnt ! k) [0..<K])[fst kv := ptrs ! fst kv + cnt ! fst kv + 1]
      = map (\<lambda>k. ptrs ! k + ?cnt ! k) [0..<K]"
    using Cons.prems by (intro nth_equalityI) (auto simp: nth_list_update)
  then show ?case using Cons by (simp add: cursor_step_def scatter_step_def)
qed simp

lemma cursor_scatter:
  assumes "\<forall>kv \<in> set kvs. fst kv < K"
  shows "fst (fold cursor_step kvs (replicate n 0, butlast (prefix_ptrs (count_keys K kvs))))
    = scatter (prefix_ptrs (count_keys K kvs)) n K kvs"
proof -
  let ?p = "prefix_ptrs (count_keys K kvs)"
  have "butlast ?p = map (\<lambda>k. ?p ! k + replicate K 0 ! k) [0..<K]"
    by (intro nth_equalityI) (auto simp: nth_butlast)
  then show ?thesis using cursor_is_scatter [OF assms, of ?p "replicate K 0"] by (simp add: scatter_def)
qed

section \<open>Exclusive groups\<close>

lemma exclusive_add_props:
  assumes "strictly_sorted (map fst m)"
  shows "set (map fst (exclusive_add key rate m)) = insert key (set (map fst m))"
    and "strictly_sorted (map fst (exclusive_add key rate m))"
    and "map_of (exclusive_add key rate m) = (map_of m)(key \<mapsto> (case map_of m key of None \<Rightarrow> 0 | Some p \<Rightarrow> p) + rate)"
proof -
  show keys: "set (map fst (exclusive_add key rate m)) = insert key (set (map fst m))"
    by (induction m rule: exclusive_add.induct) auto
  show "strictly_sorted (map fst (exclusive_add key rate m))"
    using assms
  proof (induction m)
    case (Cons kp m)
    obtain k p where kp: "kp = (k, p)" by (cases kp)
    have "set (map fst (exclusive_add key rate m)) = insert key (set (map fst m))"
      by (induction m rule: exclusive_add.induct) auto
    then show ?case using Cons by (auto simp: kp)
  qed simp
  show "map_of (exclusive_add key rate m) = (map_of m)(key \<mapsto> (case map_of m key of None \<Rightarrow> 0 | Some p \<Rightarrow> p) + rate)"
    using assms
  proof (induction m)
    case (Cons kp m)
    obtain k p where kp: "kp = (k, p)" by (cases kp)
    have "map_of m key = None" if "key < k"
      using Cons.prems that by (auto simp: kp map_of_eq_None_iff)
    then show ?case using Cons by (auto simp: kp fun_eq_iff split: option.splits)
  qed (auto simp: fun_eq_iff)
qed

lemma xor_weight_prod: "1 - 2 * xor_weight m = prod_list (map (\<lambda>(id, p). 1 - 2 * p) m)"
proof -
  have "1 - 2 * fold (\<lambda>(id, p) weight. weight + p - 2 * weight * p) m w
      = (1 - 2 * w) * prod_list (map (\<lambda>(id, p). 1 - 2 * p) m)" for w
  proof (induction m arbitrary: w)
    case (Cons kp m)
    obtain k p where kp: "kp = (k, p)" by (cases kp)
    have "1 - 2 * (w + p - 2 * w * p) = (1 - 2 * w) * (1 - 2 * p)" by (simp add: algebra_simps)
    then show ?case using Cons [of "w + p - 2 * w * p"] by (simp add: kp)
  qed simp
  from this [of 0] show ?thesis by (simp add: xor_weight_def)
qed

text \<open>The map of one output column after the columns \<open>cs\<close>: one entry per exclusive set, its rates added.\<close>

definition exclusive_ok :: "(nat \<Rightarrow> nat) \<Rightarrow> (nat \<Rightarrow> real) \<Rightarrow> (nat \<times> real) list \<Rightarrow> nat list \<Rightarrow> bool" where
  "exclusive_ok xid rate m cs \<longleftrightarrow> strictly_sorted (map fst m) \<and>
     (\<forall>id. map_of m id = (if id \<in> xid ` set cs then Some (sum_list (map rate (filter (\<lambda>c. xid c = id) cs))) else None))"

lemma exclusive_ok_add:
  assumes "exclusive_ok xid rate m cs"
  shows "exclusive_ok xid rate (exclusive_add (xid c) (rate c) m) (cs @ [c])"
proof -
  have sorted: "strictly_sorted (map fst m)"
    and m: "\<And>id. map_of m id = (if id \<in> xid ` set cs then Some (sum_list (map rate (filter (\<lambda>c. xid c = id) cs))) else None)"
    using assms by (auto simp: exclusive_ok_def)
  have none: "xid c \<notin> xid ` set cs \<Longrightarrow> filter (\<lambda>d. xid d = xid c) cs = []"
    by (rule filter_False) (metis imageI)
  show ?thesis
    unfolding exclusive_ok_def exclusive_add_props(3) [OF sorted]
    using exclusive_add_props(2) [OF sorted] m none by (auto simp: fun_upd_def)
qed

lemma exclusive_ok_weight:
  assumes "exclusive_ok xid rate m cs" "distinct cs"
  shows "1 - 2 * xor_weight m = (\<Prod>id \<in> xid ` set cs. 1 - 2 * (\<Sum>c | c \<in> set cs \<and> xid c = id. rate c))"
proof -
  have dist: "distinct (map fst m)"
    and m: "\<And>id. id \<in> xid ` set cs \<Longrightarrow> map_of m id = Some (sum_list (map rate (filter (\<lambda>c. xid c = id) cs)))"
    using assms(1) by (auto simp: exclusive_ok_def strict_sorted_iff)
  have "dom (map_of m) = xid ` set cs" using assms(1) by (auto simp: exclusive_ok_def dom_def)
  then have keys: "set (map fst m) = xid ` set cs" by (simp add: dom_map_of_conv_image_fst)
  have conv: "map (\<lambda>(id, p). 1 - 2 * p) m = map (\<lambda>id. 1 - 2 * the (map_of m id)) (map fst m)"
    using dist by (auto simp: map_of_is_SomeI)
  have "1 - 2 * xor_weight m = (\<Prod>id \<in> set (map fst m). 1 - 2 * the (map_of m id))"
    unfolding xor_weight_prod conv using dist by (rule prod.distinct_set_conv_list [symmetric])
  also have "\<dots> = (\<Prod>id \<in> xid ` set cs. 1 - 2 * (\<Sum>c | c \<in> set cs \<and> xid c = id. rate c))"
    unfolding keys
  proof (rule prod.cong)
    fix id assume "id \<in> xid ` set cs"
    moreover have "sum_list (map rate (filter (\<lambda>c. xid c = id) cs)) = (\<Sum>c | c \<in> set cs \<and> xid c = id. rate c)"
      using assms(2) by (subst sum.distinct_set_conv_list [symmetric]) auto
    ultimately show "1 - 2 * the (map_of m id) = 1 - 2 * (\<Sum>c | c \<in> set cs \<and> xid c = id. rate c)" using m by simp
  qed simp
  finally show ?thesis .
qed

section \<open>Merging\<close>

lemma obs_signature_column:
  assumes "is_mat obs no nc" "no \<le> max_u32" "c < nc"
  shows "obs_signature obs no c = Inr (columns_of obs no nc ! c)"
proof -
  have "rmap (\<lambda>r. rbind (tensor_ref obs [r, c]) (\<lambda>i. rbind (vget (data obs) i) (\<lambda>v. Inr (if v \<noteq> 0 then [u32 r] else [])))) [0..<no]
      = Inr (map (\<lambda>r. if ent obs r c \<noteq> 0 then [r] else []) [0..<no])"
    using assms cell_bound [of _ no c nc]
    by (intro rmap_pure) (auto simp: tensor_ref_mat [OF assms(1)] is_mat_def ent_def)
  moreover have "concat (map (\<lambda>r. if P r then [r] else []) xs) = filter P xs" for P and xs :: "nat list"
    by (induction xs) auto
  ultimately show ?thesis using assms(3) by (simp add: obs_signature_def columns_of_def)
qed

definition dem_sig :: "detector_error_model \<Rightarrow> nat \<Rightarrow> nat \<Rightarrow> nat \<Rightarrow> nat \<Rightarrow> signature" where
  "dem_sig dem nd no nc c =
     (columns_of (detector_error_matrix dem) nd nc ! c, columns_of (observables_flips_matrix dem) no nc ! c)"

definition dem_keep :: "detector_error_model \<Rightarrow> nat \<Rightarrow> nat \<Rightarrow> nat \<Rightarrow> bool \<Rightarrow> nat \<Rightarrow> bool" where
  "dem_keep dem nd no nc rm c \<longleftrightarrow> error_rates dem ! c \<noteq> 0 \<and> dem_sig dem nd no nc c \<noteq> ([], []) \<and>
     \<not> (rm \<and> fst (dem_sig dem nd no nc c) = [])"

definition dem_xid :: "detector_error_model \<Rightarrow> nat \<Rightarrow> nat" where
  "dem_xid dem c = (if has_error_ids dem then the (error_ids dem) ! c else c)"

definition merge_inv ::
  "(nat \<Rightarrow> signature) \<Rightarrow> (nat \<Rightarrow> bool) \<Rightarrow> (nat \<Rightarrow> nat) \<Rightarrow> (nat \<Rightarrow> real) \<Rightarrow> (nat \<Rightarrow> nat \<Rightarrow> bool) \<Rightarrow> nat list \<Rightarrow> merge_state \<Rightarrow> bool" where
  "merge_inv sig keep xid rate R P st \<longleftrightarrow>
     (let F = ms_final_column_order st in
      ms_sig_to_out st = zip (map sig F) [0..<length F] \<and> distinct (map sig F) \<and>
      length (ms_out_exclusive st) = length F \<and> set F \<subseteq> set P \<and> sorted_wrt R F \<and>
      sig ` set F = sig ` {c \<in> set P. keep c} \<and>
      (\<forall>i < length F. exclusive_ok xid rate (ms_out_exclusive st ! i) (filter (\<lambda>c. keep c \<and> sig c = sig (F ! i)) P)))"

lemma merge_column_inv:
  assumes H: "is_mat (detector_error_matrix dem) nd nc"
    and O: "is_mat (observables_flips_matrix dem) no nc" "no \<le> max_u32"
    and c: "c < nc" "length (error_rates dem) = nc"
    and inv: "merge_inv (dem_sig dem nd no nc) (dem_keep dem nd no nc rm) (dem_xid dem) (\<lambda>c. error_rates dem ! c) R P st"
    and R: "\<And>d. d \<in> set P \<Longrightarrow> R d c"
  shows "\<exists>st'. merge_column dem (columns_of (detector_error_matrix dem) nd nc) rm c st = Inr st' \<and>
    merge_inv (dem_sig dem nd no nc) (dem_keep dem nd no nc rm) (dem_xid dem) (\<lambda>c. error_rates dem ! c) R (P @ [c]) st'"
proof -
  define sig where "sig = dem_sig dem nd no nc"
  define keep where "keep = dem_keep dem nd no nc rm"
  define rate where "rate = (\<lambda>c. error_rates dem ! c)"
  define F where "F = ms_final_column_order st"
  define outs where "outs = ms_out_exclusive st"
  have inv': "ms_sig_to_out st = zip (map sig F) [0..<length F]" "distinct (map sig F)" "length outs = length F"
    "set F \<subseteq> set P" "sorted_wrt R F" "sig ` set F = sig ` {c \<in> set P. keep c}"
    "\<And>i. i < length F \<Longrightarrow> exclusive_ok (dem_xid dem) rate (outs ! i) (filter (\<lambda>c. keep c \<and> sig c = sig (F ! i)) P)"
    using inv by (auto simp: merge_inv_def Let_def sig_def keep_def rate_def F_def outs_def)
  have num: "num_observables dem = no" using is_matD [OF O(1)] by (simp add: num_observables_def)
  have obs: "obs_signature (observables_flips_matrix dem) no c = Inr (snd (sig c))"
    using obs_signature_column [OF O c(1)] by (simp add: sig_def dem_sig_def)
  have det: "columns_of (detector_error_matrix dem) nd nc ! c = fst (sig c)" by (simp add: sig_def dem_sig_def)
  have skip: "(rate c = 0 \<or> (fst (sig c) = [] \<and> snd (sig c) = []) \<or> (rm \<and> fst (sig c) = [])) \<longleftrightarrow> \<not> keep c"
    by (auto simp: keep_def dem_keep_def rate_def sig_def prod_eq_iff)
  show ?thesis
  proof (cases "keep c")
    case False
    have "merge_column dem (columns_of (detector_error_matrix dem) nd nc) rm c st = Inr st"
      using False skip by (simp add: merge_column_def num obs det rate_def Let_def)
    moreover have "merge_inv sig keep (dem_xid dem) rate R (P @ [c]) st"
      using False inv' by (auto simp: merge_inv_def F_def [symmetric] outs_def [symmetric] Let_def)
    ultimately show ?thesis by (auto simp: sig_def keep_def rate_def)
  next
    case True
    then have k: "(error_rates dem ! c = 0 \<or> (fst (sig c) = [] \<and> snd (sig c) = []) \<or> (rm \<and> fst (sig c) = [])) = False"
      using skip by (simp add: rate_def)
    show ?thesis
    proof (cases "sig c \<in> sig ` set F")
      case old: True
      then obtain i where i: "i < length F" "sig (F ! i) = sig c" by (auto simp: in_set_conv_nth image_iff)
      have lookup: "map_of (ms_sig_to_out st) (sig c) = Some i"
        using map_of_zip_nth [of "map sig F" "[0..<length F]" i] inv'(1,2) i by simp
      define st' where "st' = st\<lparr>ms_out_exclusive := outs[i := exclusive_add (dem_xid dem c) (rate c) (outs ! i)]\<rparr>"
      have "merge_column dem (columns_of (detector_error_matrix dem) nd nc) rm c st = Inr st'"
        unfolding merge_column_def Let_def num obs det rbind_simps k if_False
        using lookup by (simp add: rate_def st'_def outs_def dem_xid_def)
      moreover have "merge_inv sig keep (dem_xid dem) rate R (P @ [c]) st'"
      proof -
        have other: "sig (F ! j) \<noteq> sig c" if "j < length F" "j \<noteq> i" for j
          using that i inv'(2) by (metis length_map nth_eq_iff_index_eq nth_map)
        have "exclusive_ok (dem_xid dem) rate (outs[i := exclusive_add (dem_xid dem c) (rate c) (outs ! i)] ! j)
            (filter (\<lambda>d. keep d \<and> sig d = sig (F ! j)) (P @ [c]))" if j: "j < length F" for j
        proof (cases "j = i")
          case True
          then show ?thesis using exclusive_ok_add [OF inv'(7) [OF i(1)], of c] i \<open>keep c\<close> inv'(3) by simp
        next
          case False
          then show ?thesis using inv'(7) [OF j] other [OF j False] by auto
        qed
        then show ?thesis
          using inv' old True
          by (auto simp: merge_inv_def st'_def F_def [symmetric] outs_def [symmetric] Let_def)
      qed
      ultimately show ?thesis by (auto simp: sig_def keep_def rate_def)
    next
      case new: False
      have lookup: "map_of (ms_sig_to_out st) (sig c) = None"
        using new inv'(1) by (auto simp: map_of_zip_is_None)
      define st' where "st' = st\<lparr>ms_sig_to_out := ms_sig_to_out st @ [(sig c, length F)],
         ms_final_column_order := F @ [c], ms_out_exclusive := outs @ [exclusive_add (dem_xid dem c) (rate c) []]\<rparr>"
      have "merge_column dem (columns_of (detector_error_matrix dem) nd nc) rm c st = Inr st'"
        unfolding merge_column_def Let_def num obs det rbind_simps k if_False
        using lookup inv'(3) [symmetric] by (simp add: rate_def st'_def outs_def dem_xid_def F_def)
      moreover have "merge_inv sig keep (dem_xid dem) rate R (P @ [c]) st'"
      proof -
        have none: "filter (\<lambda>d. keep d \<and> sig d = sig c) P = []"
        proof (rule filter_False, intro ballI notI)
          fix d assume "d \<in> set P" "keep d \<and> sig d = sig c"
          then have "sig c \<in> sig ` {c \<in> set P. keep c}" by (metis (mono_tags, lifting) image_eqI mem_Collect_eq)
          then show False using new inv'(6) by simp
        qed
        have "exclusive_ok (dem_xid dem) rate [] []" by (simp add: exclusive_ok_def)
        from exclusive_ok_add [OF this, of c] none True
        have last: "exclusive_ok (dem_xid dem) rate (exclusive_add (dem_xid dem c) (rate c) [])
            (filter (\<lambda>d. keep d \<and> sig d = sig c) (P @ [c]))" by simp
        have "exclusive_ok (dem_xid dem) rate ((outs @ [exclusive_add (dem_xid dem c) (rate c) []]) ! j)
            (filter (\<lambda>d. keep d \<and> sig d = sig ((F @ [c]) ! j)) (P @ [c]))" if j: "j < length (F @ [c])" for j
        proof (cases "j < length F")
          case True
          then have "sig (F ! j) \<noteq> sig c" using new by (metis image_eqI nth_mem)
          then show ?thesis using inv'(3) inv'(7) [OF True] True by (auto simp: nth_append)
        next
          case False
          then have "j = length F" using j by simp
          then show ?thesis using last inv'(3) by (simp add: nth_append)
        qed
        moreover have "ms_sig_to_out st' = zip (map sig (F @ [c])) [0..<length (F @ [c])]"
          using inv'(1) by (simp add: st'_def)
        moreover have "sig ` set (F @ [c]) = sig ` {d \<in> set (P @ [c]). keep d}" using inv'(6) True by auto
        moreover have "distinct (map sig (F @ [c]))" using inv'(2) new by simp
        moreover have "sorted_wrt R (F @ [c])" using inv'(4,5) R by (auto simp: sorted_wrt_append)
        ultimately show ?thesis
          unfolding merge_inv_def Let_def using inv'(3,4) by (auto simp: st'_def)
      qed
      ultimately show ?thesis by (auto simp: sig_def keep_def rate_def)
    qed
  qed
qed

lemma merge_columns_inv:
  assumes H: "is_mat (detector_error_matrix dem) nd nc"
    and O: "is_mat (observables_flips_matrix dem) no nc" "no \<le> max_u32"
    and "length (error_rates dem) = nc" "sorted_wrt R L" "set L \<subseteq> {..<nc}"
  shows "\<exists>st. rfold (merge_column dem (columns_of (detector_error_matrix dem) nd nc) rm) L
      \<lparr>ms_sig_to_out = [], ms_final_column_order = [], ms_out_exclusive = []\<rparr> = Inr st \<and>
    merge_inv (dem_sig dem nd no nc) (dem_keep dem nd no nc rm) (dem_xid dem) (\<lambda>c. error_rates dem ! c) R L st"
  using assms(5,6)
proof (induction L rule: rev_induct)
  case Nil then show ?case by (simp add: merge_inv_def)
next
  case (snoc c P)
  then obtain st where st: "rfold (merge_column dem (columns_of (detector_error_matrix dem) nd nc) rm) P
      \<lparr>ms_sig_to_out = [], ms_final_column_order = [], ms_out_exclusive = []\<rparr> = Inr st"
    "merge_inv (dem_sig dem nd no nc) (dem_keep dem nd no nc rm) (dem_xid dem) (\<lambda>c. error_rates dem ! c) R P st"
    by (auto simp: sorted_wrt_append)
  from merge_column_inv [OF H O _ assms(4) st(2), of c] snoc.prems st(1) show ?case
    by (auto simp: sorted_wrt_append rfold_append)
qed

lemma reorder_all_rows:
  assumes "xt_transpose_ok xt" "is_mat t nr nc" "nr \<le> max_u32" "\<forall>c \<in> set order. c < nc"
  shows "reorder_pcm_columns xt t order 0 default_row_end = Inr (mk_mat nr (length order) (\<lambda>r c. ent t r (order ! c)))"
proof (cases "nr = 0")
  case True
  then show ?thesis using assms is_matD [OF assms(2)]
    by (simp add: reorder_pcm_columns_def validate_reorder_pcm_columns_rows_def validate_column_order_iff
        tensor_new_def mk_mat_def)
next
  case False
  then have "min default_row_end (nr - 1) - 0 + 1 = nr" using assms(3) by (simp add: default_row_end_def)
  then show ?thesis using reorder_pcm_columns_entries [OF assms, of 0 default_row_end] False by simp
qed

section \<open>Properties\<close>

text \<open>
  C8: Canonicalisation keeps the error model. For a detector error model with at least one error
  mechanism and fewer than \<open>2\<^sup>3\<^sup>1\<close>, one rate per mechanism and numbers of detectors and observables of 32 bits, \<open>canonicalize_for_rounds\<close>
  succeeds. The new columns are original columns \<open>F\<close>, in topological order, one for each
  (detector, observable) signature that some kept mechanism has; both matrices are restricted
  to them; and each new rate \<open>w\<close> satisfies \<open>1 - 2 w = \<Prod> (1 - 2 p\<^sub>i)\<close> over the exclusive sets \<open>i\<close> of the
  mechanisms with that signature, \<open>p\<^sub>i\<close> the sum of the rates in the set (each mechanism is its own
  set when the model has no error ids).
\<close>

theorem canonicalize_keeps_model:
  assumes "xt_transpose_ok xt" "is_mat (detector_error_matrix dem) nd nc" "nd \<le> max_u32" "0 < nc"
    and "is_mat (observables_flips_matrix dem) no nc" "no \<le> max_u32" "length (error_rates dem) = nc" "nc < 2 ^ 31"
  shows "\<exists>F W. canonicalize_for_rounds xt S rm dem =
      (None, \<lparr>detector_error_matrix = mk_mat nd (length F) (\<lambda>r c. ent (detector_error_matrix dem) r (F ! c)),
              error_rates = W,
              observables_flips_matrix = mk_mat no (length F) (\<lambda>r c. ent (observables_flips_matrix dem) r (F ! c)),
              error_ids = (if has_error_ids dem then Some [0..<length F] else error_ids dem)\<rparr>) \<and>
    set F \<subseteq> {..<nc} \<and> length W = length F \<and> distinct (map (dem_sig dem nd no nc) F) \<and>
    dem_sig dem nd no nc ` set F = dem_sig dem nd no nc ` {c. c < nc \<and> dem_keep dem nd no nc rm c} \<and>
    sorted_wrt (\<lambda>c d. content_key (0 < S) (\<lambda>r. r div S) (fst (dem_sig dem nd no nc c))
                    \<le> content_key (0 < S) (\<lambda>r. r div S) (fst (dem_sig dem nd no nc d))) F \<and>
    (\<forall>i < length F. 1 - 2 * W ! i =
       (\<Prod>id \<in> dem_xid dem ` {c. c < nc \<and> dem_keep dem nd no nc rm c \<and> dem_sig dem nd no nc c = dem_sig dem nd no nc (F ! i)}.
          1 - 2 * (\<Sum>c | c < nc \<and> dem_keep dem nd no nc rm c \<and> dem_sig dem nd no nc c = dem_sig dem nd no nc (F ! i) \<and>
                        dem_xid dem c = id. error_rates dem ! c)))"
proof -
  define rows where "rows = columns_of (detector_error_matrix dem) nd nc"
  define L where "L = get_sorted_pcm_column_indices rows S"
  let ?sig = "dem_sig dem nd no nc" and ?keep = "dem_keep dem nd no nc rm"
  let ?R = "\<lambda>c d. content_key (0 < S) (\<lambda>r. r div S) (fst (?sig c)) \<le> content_key (0 < S) (\<lambda>r. r div S) (fst (?sig d))"
  have "length rows \<le> max_u32" using assms(8) by (simp add: rows_def max_u32_def)
  then have L: "set L = {..<nc}" "distinct L" by (simp_all add: L_def rows_def atLeast0LessThan)
  have "sorted_by (column_less rows (0 < S) (\<lambda>r. r div S)) L"
    unfolding L_def get_sorted_pcm_column_indices_def by (rule sorted_pcm_column_indices_facts)
  then have R: "sorted_wrt ?R L"
    by (rule sorted_wrt_mono_rel [rotated])
      (auto simp: column_less_key column_key_content not_less dem_sig_def rows_def)
  obtain st where st: "rfold (merge_column dem rows rm) L
      \<lparr>ms_sig_to_out = [], ms_final_column_order = [], ms_out_exclusive = []\<rparr> = Inr st"
    and inv: "merge_inv ?sig ?keep (dem_xid dem) (\<lambda>c. error_rates dem ! c) ?R L st"
    using merge_columns_inv [OF assms(2,5,6,7) R] L(1) by (auto simp: rows_def)
  define F where "F = ms_final_column_order st"
  have F: "set F \<subseteq> {..<nc}" "length (ms_out_exclusive st) = length F" "distinct (map ?sig F)" "sorted_wrt ?R F"
    "?sig ` set F = ?sig ` {c \<in> set L. ?keep c}"
    "\<And>i. i < length F \<Longrightarrow> exclusive_ok (dem_xid dem) (\<lambda>c. error_rates dem ! c) (ms_out_exclusive st ! i)
        (filter (\<lambda>c. ?keep c \<and> ?sig c = ?sig (F ! i)) L)"
    using inv L(1) by (auto simp: merge_inv_def Let_def F_def)
  have d2s: "dense_to_sparse (detector_error_matrix dem) = Inr rows"
    using dense_to_sparse_columns [OF assms(2,3)] assms(4) by (simp add: rows_def)
  have lt: "\<forall>c \<in> set F. c < nc" using F(1) by auto
  have "canonicalize_for_rounds xt S rm dem =
      (None, \<lparr>detector_error_matrix = mk_mat nd (length F) (\<lambda>r c. ent (detector_error_matrix dem) r (F ! c)),
              error_rates = map xor_weight (ms_out_exclusive st),
              observables_flips_matrix = mk_mat no (length F) (\<lambda>r c. ent (observables_flips_matrix dem) r (F ! c)),
              error_ids = (if has_error_ids dem then Some [0..<length F] else error_ids dem)\<rparr>)"
    using st d2s F(2) assms(7)
      reorder_all_rows [OF assms(1,2,3) lt] reorder_all_rows [OF assms(1,5,6) lt]
    by (simp add: canonicalize_for_rounds_def canonicalize_for_rounds_impl_def Let_def L_def [symmetric] F_def [symmetric])
      (simp add: rows_def)
  moreover have "1 - 2 * map xor_weight (ms_out_exclusive st) ! i =
       (\<Prod>id \<in> dem_xid dem ` {c. c < nc \<and> ?keep c \<and> ?sig c = ?sig (F ! i)}.
          1 - 2 * (\<Sum>c | c < nc \<and> ?keep c \<and> ?sig c = ?sig (F ! i) \<and> dem_xid dem c = id. error_rates dem ! c))"
    if i: "i < length F" for i
  proof -
    have set: "set (filter (\<lambda>c. ?keep c \<and> ?sig c = ?sig (F ! i)) L) = {c. c < nc \<and> ?keep c \<and> ?sig c = ?sig (F ! i)}"
      using L(1) by auto
    show ?thesis
      using exclusive_ok_weight [OF F(6) [OF i] distinct_filter [OF L(2)]] i F(2)
      unfolding set by (simp add: conj_assoc)
  qed
  moreover have "?sig ` set F = ?sig ` {c. c < nc \<and> ?keep c}" using F(5) L(1) by simp
  ultimately show ?thesis using F(1-4) by (intro exI [of _ F] exI [of _ "map xor_weight (ms_out_exclusive st)"]) auto
qed

abbreviation demo_dem :: detector_error_model where
  "demo_dem \<equiv> \<lparr>detector_error_matrix = \<lparr>shape = [1, 2], data = [1, 1]\<rparr>, error_rates = [1/10, 1/5],
     observables_flips_matrix = \<lparr>shape = [1, 2], data = [0, 0]\<rparr>, error_ids = None\<rparr>"

theorem canonicalize_keeps_model_witness:
  "\<exists>F W. canonicalize_for_rounds xt_reference 1 False demo_dem =
      (None, \<lparr>detector_error_matrix = mk_mat 1 (length F) (\<lambda>r c. ent (detector_error_matrix demo_dem) r (F ! c)),
              error_rates = W,
              observables_flips_matrix = mk_mat 1 (length F) (\<lambda>r c. ent (observables_flips_matrix demo_dem) r (F ! c)),
              error_ids = None\<rparr>) \<and> length W = length F"
proof -
  have "is_mat (detector_error_matrix demo_dem) 1 2" "1 \<le> max_u32" "(0::nat) < 2"
    "is_mat (observables_flips_matrix demo_dem) 1 2" "length (error_rates demo_dem) = 2" "2 < (2 :: nat) ^ 31"
    by (simp_all add: is_mat_def max_u32_def)
  from canonicalize_keeps_model [OF xt_reference_ok this(1-4) this(2,5,6), of 1 False]
  show ?thesis by (auto simp: has_error_ids_def)
qed

text \<open>
  A model without an observables matrix (the default empty tensor, which \<open>num_observables\<close> counts
  as no observables) makes \<open>canonicalize_for_rounds\<close> throw, but only after the rates, the ids and
  the detector matrix have been replaced: the object is left as canonicalisation with an empty
  observables matrix would leave it, in an exception path that a caller takes for a failure.
\<close>

lemma canonicalize_without_observables:
  assumes "xt_transpose_ok xt" "is_mat (detector_error_matrix dem) nd nc" "nd \<le> max_u32" "0 < nc"
    and "shape (observables_flips_matrix dem) = []" "length (error_rates dem) = nc" "nc < 2 ^ 31"
  shows "canonicalize_for_rounds xt S rm dem =
    (Some (Invalid_argument ''reorder_pcm_columns: PCM must be a 2D tensor''),
     (snd (canonicalize_for_rounds xt S rm (dem\<lparr>observables_flips_matrix := tensor_new [0, nc]\<rparr>)))
       \<lparr>observables_flips_matrix := observables_flips_matrix dem\<rparr>)"
proof -
  define dem' where "dem' = dem\<lparr>observables_flips_matrix := tensor_new [0, nc]\<rparr>"
  define rows where "rows = columns_of (detector_error_matrix dem) nd nc"
  define L where "L = get_sorted_pcm_column_indices rows S"
  have no: "num_observables dem = 0" "num_observables dem' = 0"
    using assms(5) by (simp_all add: num_observables_def dem'_def tensor_new_def)
  have ids: "has_error_ids dem' = has_error_ids dem" by (simp add: has_error_ids_def dem'_def split: option.splits)
  have step: "merge_column dem rows rm = merge_column dem' rows rm"
    using ids by (intro ext) (simp add: merge_column_def obs_signature_def no Let_def, simp add: dem'_def)
  have "length rows \<le> max_u32" using assms(7) by (simp add: rows_def max_u32_def)
  then have L: "set L = {..<nc}" by (simp add: L_def rows_def atLeast0LessThan)
  have tot: "sorted_wrt (\<lambda>_ _. True) L" by (induction L) auto
  have mat: "is_mat (detector_error_matrix dem') nd nc" "is_mat (observables_flips_matrix dem') 0 nc"
    "length (error_rates dem') = nc"
    using assms(2,6) by (simp_all add: dem'_def is_mat_new)
  obtain st where st: "rfold (merge_column dem' rows rm) L
      \<lparr>ms_sig_to_out = [], ms_final_column_order = [], ms_out_exclusive = []\<rparr> = Inr st"
    and inv: "merge_inv (dem_sig dem' nd 0 nc) (dem_keep dem' nd 0 nc rm) (dem_xid dem') (\<lambda>c. error_rates dem' ! c) (\<lambda>_ _. True) L st"
    using merge_columns_inv [OF mat(1,2) _ mat(3) tot, of rm] L by (auto simp: rows_def dem'_def)
  have lt: "\<forall>c \<in> set (ms_final_column_order st). c < nc" using inv L by (auto simp: merge_inv_def Let_def)
  have d2s: "dense_to_sparse (detector_error_matrix dem) = Inr rows"
    using dense_to_sparse_columns [OF assms(2,3)] assms(4) by (simp add: rows_def)
  have lr: "length rows = nc" by (simp add: rows_def)
  have "reorder_pcm_columns xt (observables_flips_matrix dem) order b e
      = Inl (Invalid_argument ''reorder_pcm_columns: PCM must be a 2D tensor'')" for order b e
    using assms(5) by (simp add: reorder_pcm_columns_def tensor_rank_def)
  moreover have st': "rfold (merge_column dem rows rm) L
      \<lparr>ms_sig_to_out = [], ms_final_column_order = [], ms_out_exclusive = []\<rparr> = Inr st" using st step by simp
  define H where "H = mk_mat nd (length (ms_final_column_order st)) (\<lambda>r c. ent (detector_error_matrix dem) r (ms_final_column_order st ! c))"
  have H: "reorder_pcm_columns xt (detector_error_matrix dem) (ms_final_column_order st) 0 default_row_end = Inr H"
    unfolding H_def by (rule reorder_all_rows [OF assms(1,2,3) lt])
  ultimately have lhs: "canonicalize_for_rounds xt S rm dem = (Some (Invalid_argument ''reorder_pcm_columns: PCM must be a 2D tensor''),
      dem\<lparr>error_rates := map xor_weight (ms_out_exclusive st),
          error_ids := (if has_error_ids dem then Some [0..<length (ms_out_exclusive st)] else error_ids dem),
          detector_error_matrix := H\<rparr>)"
    using d2s lr assms(6) H st'
    by (simp add: canonicalize_for_rounds_def canonicalize_for_rounds_impl_def L_def [symmetric] Let_def)
  have d2s': "dense_to_sparse (detector_error_matrix dem') = Inr rows" and H': "detector_error_matrix dem' = detector_error_matrix dem"
    and eid: "error_ids dem' = error_ids dem"
    using d2s by (simp_all add: dem'_def)
  have O': "reorder_pcm_columns xt (observables_flips_matrix dem') (ms_final_column_order st) 0 default_row_end
      = Inr (mk_mat 0 (length (ms_final_column_order st)) (\<lambda>r c. ent (observables_flips_matrix dem') r (ms_final_column_order st ! c)))"
    by (rule reorder_all_rows [OF assms(1) mat(2) _ lt]) simp
  have "snd (canonicalize_for_rounds xt S rm dem') =
      dem'\<lparr>error_rates := map xor_weight (ms_out_exclusive st),
           error_ids := (if has_error_ids dem then Some [0..<length (ms_out_exclusive st)] else error_ids dem),
           detector_error_matrix := H,
           observables_flips_matrix := mk_mat 0 (length (ms_final_column_order st)) (\<lambda>r c. ent (observables_flips_matrix dem') r (ms_final_column_order st ! c))\<rparr>"
    using d2s' st lr mat(3) H O' H' ids eid
    by (simp add: canonicalize_for_rounds_def canonicalize_for_rounds_impl_def L_def [symmetric] Let_def)
  then show ?thesis unfolding lhs dem'_def [symmetric] by (simp add: dem'_def)
qed

lemma canonicalize_without_observables_witness:
  "fst (canonicalize_for_rounds xt_reference 1 False (demo_dem\<lparr>observables_flips_matrix := \<lparr>shape = [], data = []\<rparr>\<rparr>))
   = Some (Invalid_argument ''reorder_pcm_columns: PCM must be a 2D tensor'')"
  by (subst canonicalize_without_observables [of _ _ 1 2])
    (simp_all add: xt_reference_ok is_mat_def max_u32_def)

text \<open>
  C9: The two projections of a Stim model agree. For a model whose error instructions have a
  probability in \<open>[0, 1]\<close> and only detector and observable targets in range, and whose sizes fit
  32 bits: \<open>dem_from_stim_text\<close> gives one column per instruction with an odd target, holding
  exactly the detectors (observables) listed an odd number of times, and the sparse projection
  \<open>sparse_dem_from_stim_text\<close> has the same rates and expands to the same dense matrices.
\<close>

theorem stim_projections_agree:
  assumes "stim dem_text = Inr dem" "\<forall>inst \<in> set (flat_errors dem). valid_instruction inst" "model_columns dem \<noteq> []"
    and range: "\<forall>(d, ob, p) \<in> set (model_columns dem). (\<forall>v \<in> set d. v < count_detectors dem) \<and> (\<forall>v \<in> set ob. v < count_observables dem)"
    and size: "length (model_columns dem) \<le> max_u32" "count_detectors dem \<le> max_u32" "count_observables dem \<le> max_u32"
      "sum_list (map (length \<circ> fst) (model_columns dem)) \<le> max_u32"
      "sum_list (map (length \<circ> fst \<circ> snd) (model_columns dem)) \<le> max_u32"
  shows "\<exists>d s. dem_from_stim_text stim dem_text False = Inr d \<and> sparse_dem_from_stim_text stim dem_text = Inr s \<and>
    detector_error_matrix d = mk_mat (count_detectors dem) (length (model_columns dem))
      (\<lambda>r c. if r \<in> set (fst (model_columns dem ! c)) then 1 else 0) \<and>
    observables_flips_matrix d = mk_mat (count_observables dem) (length (model_columns dem))
      (\<lambda>r c. if r \<in> set (fst (snd (model_columns dem ! c))) then 1 else 0) \<and>
    error_rates d = map (snd \<circ> snd) (model_columns dem) \<and> sd_error_rates s = error_rates d \<and>
    to_dense (sd_detector_error_matrix s) = Inr (detector_error_matrix d) \<and>
    to_dense (sd_observables_flips_matrix s) = Inr (observables_flips_matrix d)"
proof -
  let ?cols = "model_columns dem" and ?nd = "count_detectors dem" and ?no = "count_observables dem"
  let ?nc = "length ?cols"
  define D where "D = map fst ?cols"
  define OB where "OB = map (fst \<circ> snd) ?cols"
  have len: "length D = ?nc" "length OB = ?nc" by (simp_all add: D_def OB_def)
  have bound: "\<forall>g \<in> set D. \<forall>v \<in> set g. v < ?nd" "\<forall>g \<in> set OB. \<forall>v \<in> set g. v < ?no"
    using range by (auto simp: D_def OB_def)
  have dist: "\<forall>h \<in> set D. distinct h" "\<forall>h \<in> set OB. distinct h"
    using model_columns_sorted by (fastforce simp: D_def OB_def strict_sorted_iff)+
  have parse: "parse_stim_dem stim dem_text False = Inr \<lparr>pd_num_detectors = ?nd, pd_num_observables = ?no,
      pd_detector_hits = D, pd_observable_hits = OB, pd_error_rates = map (snd \<circ> snd) ?cols\<rparr>"
    unfolding D_def OB_def by (rule parse_columns [of stim dem_text dem, OF assms(1-3)])
  have valid: "validate_hit_ids \<lparr>pd_num_detectors = ?nd, pd_num_observables = ?no,
      pd_detector_hits = D, pd_observable_hits = OB, pd_error_rates = map (snd \<circ> snd) ?cols\<rparr> = Inr ()"
    using bound by (auto simp: validate_hit_ids_def list_ex_iff not_le)
  have cells: "\<forall>(r, c) \<in> set (hits_cells D). r < ?nd \<and> c < ?nc" "\<forall>(r, c) \<in> set (hits_cells OB). r < ?no \<and> c < ?nc"
    using bound len by (auto simp: hits_cells_mem) (metis nth_mem)+
  define H where "H = (mk_mat ?nd ?nc (\<lambda>r c. if (r, c) \<in> set (hits_cells D) then 1 else 0) :: u8 tensor)"
  define OM where "OM = (mk_mat ?no ?nc (\<lambda>r c. if (r, c) \<in> set (hits_cells OB) then 1 else 0) :: u8 tensor)"
  have dense: "dem_from_stim_text stim dem_text False = Inr \<lparr>detector_error_matrix = H, error_rates = map (snd \<circ> snd) ?cols,
      observables_flips_matrix = OM, error_ids = None\<rparr>"
    using flips_new [OF cells(1) distinct_hits_cells [OF dist(1)]] flips_new [OF cells(2) distinct_hits_cells [OF dist(2)]]
    by (simp add: dem_from_stim_text_def parse valid Let_def len H_def OM_def)
  have HM: "H = mk_mat ?nd ?nc (\<lambda>r c. if r \<in> set (fst (?cols ! c)) then 1 else 0)"
    unfolding H_def by (rule mat_eqI [of _ ?nd ?nc]) (simp_all add: mat_simps hits_cells_mem len, simp add: D_def)
  have OMM: "OM = mk_mat ?no ?nc (\<lambda>r c. if r \<in> set (fst (snd (?cols ! c))) then 1 else 0)"
    unfolding OM_def by (rule mat_eqI [of _ ?no ?nc]) (simp_all add: mat_simps hits_cells_mem len, simp add: OB_def)
  define h where "h = \<lparr>sbm_layout = CSC, sbm_rows = ?nd, sbm_cols = ?nc, sbm_ptr = prefix_ptrs (map length D), sbm_idx = concat D\<rparr>"
  have nnz: "sum_list (map length D) \<le> max_u32" "sum_list (map length OB) \<le> max_u32"
    using size(4,5) by (simp_all add: D_def OB_def comp_assoc)
  have hok: "sbm_ok h" "groups h = D"
    using nested_ptrs [of D] len bound size nnz
    by (auto simp: h_def sbm_ok_def groups_def num_groups_def index_bound_def length_concat)
  have csc: "from_csc ?nd ?nc (prefix_ptrs (map length D)) (concat D) = Inr h"
    using hok(1) size by (simp add: from_csc_iff) (simp add: h_def)
  let ?prs = "hits_cells OB"
  let ?ptrs = "prefix_ptrs (count_keys ?no ?prs)"
  have keys: "\<forall>kv \<in> set ?prs. fst kv < ?no" using cells(2) by auto
  have lprs: "length ?prs = sum_list (map length OB)"
  proof -
    have "length (concat (map (\<lambda>err. map (\<lambda>v. (v, err)) (OB ! err)) [0..<k])) = sum_list (map length (take k OB))" if "k \<le> length OB" for k
      using that by (induction k) (simp_all add: take_Suc_conv_app_nth)
    from this [of "length OB"] show ?thesis by (simp add: hits_cells_def)
  qed
  define ob where "ob = \<lparr>sbm_layout = CSR, sbm_rows = ?no, sbm_cols = ?nc, sbm_ptr = ?ptrs, sbm_idx = scatter ?ptrs (length ?prs) ?no ?prs\<rparr>"
  note sc = scatter_groups [OF keys]
  have ng: "num_groups ob = ?no" by (simp add: ob_def num_groups_def)
  have lidx: "length (sbm_idx ob) = length ?prs"
    using ptr_okD(4) [OF sc(1)] prefix_count_last [OF keys] by (simp add: ob_def)
  have "\<forall>i \<in> set (sbm_idx ob). i < ?nc" using sc(3) cells(2) by (fastforce simp: ob_def)
  moreover have "ptr_ok (sbm_ptr ob) (sbm_idx ob) ?no" using sc(1) by (simp add: ob_def)
  moreover have "sbm_rows ob = ?no" "sbm_cols ob = ?nc" "index_bound ob = ?nc" by (simp_all add: ob_def index_bound_def)
  ultimately have ook: "sbm_ok ob" using size nnz lprs lidx by (simp add: sbm_ok_def ng)
  have ogr: "groups ob = map (\<lambda>k. vals k ?prs) [0..<?no]" unfolding groups_def ng using sc(2) by (simp add: ob_def)
  have csr: "from_csr ?no ?nc ?ptrs (fst (fold cursor_step ?prs (replicate (sum_list (map length OB)) 0, butlast ?ptrs))) = Inr ob"
    unfolding cursor_scatter [OF keys] lprs [symmetric]
    using ook size by (simp add: from_csr_iff) (simp add: ob_def)
  have sparse: "sparse_dem_from_stim_text stim dem_text = Inr \<lparr>sd_detector_error_matrix = h, sd_observables_flips_matrix = ob,
      sd_error_rates = map (snd \<circ> snd) ?cols\<rparr>"
    unfolding sparse_dem_from_stim_text_def parse rbind_simps valid Let_def
    using csc csr size nnz len by simp
  have toH: "to_dense h = Inr H"
    unfolding to_dense_mult [OF hok(1)] H_def
    by (rule arg_cong [where f = Inr], rule mat_eqI [of _ ?nd ?nc])
      (simp_all add: h_def [THEN arg_cong [where f = sbm_rows]] h_def [THEN arg_cong [where f = sbm_cols]] mat_simps
        mult_at_def hok(2) h_def [THEN arg_cong [where f = sbm_layout]] hits_cells_mem len)
  have mo: "mult_at ob r c > 0 \<longleftrightarrow> (r, c) \<in> set ?prs" if "r < ?no" for r c
    using that by (simp add: mult_at_def ogr ob_def [THEN arg_cong [where f = sbm_layout]]) (force simp: vals_def image_iff)
  have toO: "to_dense ob = Inr OM"
    unfolding to_dense_mult [OF ook] OM_def
    by (rule arg_cong [where f = Inr], rule mat_eqI [of _ ?no ?nc])
      (simp_all add: ob_def [THEN arg_cong [where f = sbm_rows]] ob_def [THEN arg_cong [where f = sbm_cols]] mat_simps mo)
  show ?thesis
    using dense sparse HM OMM toH toO by simp
qed

definition demo_stim :: stim_model where
  "demo_stim = \<lparr>count_detectors = 2, count_observables = 1, flat_errors =
     [\<lparr>arg_data = [1/10], target_data = [Relative_detector 1, Relative_detector 0, Observable_id 0, Relative_detector 1]\<rparr>]\<rparr>"

theorem stim_projections_agree_witness:
  "\<exists>d s. dem_from_stim_text (\<lambda>_. Inr demo_stim) ''error(0.1) D1 D0 L0 D1'' False = Inr d \<and>
     sparse_dem_from_stim_text (\<lambda>_. Inr demo_stim) ''error(0.1) D1 D0 L0 D1'' = Inr s \<and>
     to_dense (sd_detector_error_matrix s) = Inr (detector_error_matrix d) \<and>
     detector_error_matrix d = mk_mat 2 1 (\<lambda>r c. if r \<in> set (fst ([([0], [0 :: nat], 1/10 :: real)] ! c)) then 1 else 0)"
proof -
  have cols: "model_columns demo_stim = [([0], [0], 1/10)]"
    by (simp add: model_columns_def instruction_column_def demo_stim_def)
  have valid: "\<forall>inst \<in> set (flat_errors demo_stim). valid_instruction inst" "count_detectors demo_stim = 2" "count_observables demo_stim = 1"
    by (simp_all add: demo_stim_def valid_instruction_def)
  show ?thesis
    using stim_projections_agree [of "\<lambda>_. Inr demo_stim" "''error(0.1) D1 D0 L0 D1''" demo_stim]
    by (auto simp: cols valid max_u32_def)
qed

end
