(* ===== verification/QEC_Graph.thy ===== *)
theory QEC_Graph
  imports QEC_Prelude "HOL-Library.AList"
begin

text \<open>
  The weighted undirected graph of libs/core (graph.h, graph.cpp). The two hash maps are
  association lists; their order stands for the unspecified iteration order of
  \<open>std::unordered_map\<close>, and no result below depends on it. The recursive depth-first search is
  run on an explicit stack of pending neighbours. Results: all operations keep the invariant
  that adjacency is symmetric and duplicate-free, \<open>num_edges\<close> counts edges, and \<open>is_connected\<close>
  decides connectedness.
\<close>

section \<open>Data and operations\<close>

record graph =
  adjacency_list :: "(int \<times> (int \<times> real) list) list"
  node_weights :: "(int \<times> real) list"

definition graph_new :: graph where
  "graph_new = \<lparr>adjacency_list = [], node_weights = []\<rparr>"

definition adj :: "graph \<Rightarrow> int \<Rightarrow> (int \<times> real) list" where
  "adj g u = (case map_of (adjacency_list g) u of Some ns \<Rightarrow> ns | None \<Rightarrow> [])"

text \<open>\<open>adjacency_list[u]\<close> creates a missing entry.\<close>

definition touch :: "int \<Rightarrow> graph \<Rightarrow> graph" where
  "touch u g = (if map_of (adjacency_list g) u = None
                then g\<lparr>adjacency_list := AList.update u [] (adjacency_list g)\<rparr> else g)"

definition put_adj :: "int \<Rightarrow> (int \<times> real) list \<Rightarrow> graph \<Rightarrow> graph" where
  "put_adj u ns g = g\<lparr>adjacency_list := AList.update u ns (adjacency_list g)\<rparr>"

definition add_edge :: "int \<Rightarrow> int \<Rightarrow> real \<Rightarrow> graph \<Rightarrow> graph" where
  "add_edge u v weight g =
     (let g1 = touch u g in
      if \<not> list_ex (\<lambda>p. fst p = v) (adj g1 u)
      then let g2 = put_adj u (adj g1 u @ [(v, weight)]) g1 in
           put_adj v (adj g2 v @ [(u, weight)]) g2
      else g1)"

definition graph_clear :: "graph \<Rightarrow> graph" where
  "graph_clear g = g\<lparr>adjacency_list := [], node_weights := []\<rparr>"

definition add_node :: "int \<Rightarrow> real \<Rightarrow> graph \<Rightarrow> graph" where
  "add_node node weight g =
     (if map_of (adjacency_list g) node = None
      then g\<lparr>adjacency_list := AList.update node [] (adjacency_list g),
             node_weights := AList.update node weight (node_weights g)\<rparr>
      else g)"

definition set_node_weight :: "int \<Rightarrow> real \<Rightarrow> graph \<Rightarrow> graph" where
  "set_node_weight node weight g = g\<lparr>node_weights := AList.update node weight (node_weights g)\<rparr>"

definition get_node_weight :: "graph \<Rightarrow> int \<Rightarrow> real" where
  "get_node_weight g node = (case map_of (node_weights g) node of Some w \<Rightarrow> w | None \<Rightarrow> 0)"

definition edge_exists :: "graph \<Rightarrow> int \<Rightarrow> int \<Rightarrow> bool" where
  "edge_exists g i j =
     (case map_of (adjacency_list g) i of Some ns \<Rightarrow> list_ex (\<lambda>p. fst p = j) ns | None \<Rightarrow> False)"

definition get_nodes :: "graph \<Rightarrow> int list" where
  "get_nodes g = map fst (adjacency_list g)"

definition get_disconnected_vertices :: "graph \<Rightarrow> (int \<times> int) list" where
  "get_disconnected_vertices g =
     sort (concat (map (\<lambda>ni. concat (map (\<lambda>nj.
       if ni < nj \<and> \<not> edge_exists g ni nj then [(ni, nj)] else []) (get_nodes g))) (get_nodes g)))"

definition get_neighbors :: "graph \<Rightarrow> int \<Rightarrow> int list" where
  "get_neighbors g node =
     (case map_of (adjacency_list g) node of Some ns \<Rightarrow> sort (map fst ns) | None \<Rightarrow> [])"

definition get_weighted_neighbors :: "graph \<Rightarrow> int \<Rightarrow> (int \<times> real) list" where
  "get_weighted_neighbors g node =
     (case map_of (adjacency_list g) node of Some ns \<Rightarrow> ns | None \<Rightarrow> [])"

definition num_nodes :: "graph \<Rightarrow> nat" where
  "num_nodes g = length (adjacency_list g)"

definition num_edges :: "graph \<Rightarrow> nat" where
  "num_edges g = sum_list (map (\<lambda>p. length (snd p)) (adjacency_list g)) div 2"

definition drop_neighbor :: "int \<Rightarrow> (int \<times> real) list \<Rightarrow> (int \<times> real) list" where
  "drop_neighbor v ns = filter (\<lambda>p. fst p \<noteq> v) ns"

definition remove_edge :: "int \<Rightarrow> int \<Rightarrow> graph \<Rightarrow> graph" where
  "remove_edge u v g =
     (let g1 = (if map_of (adjacency_list g) u \<noteq> None then put_adj u (drop_neighbor v (adj g u)) g else g) in
      if map_of (adjacency_list g) v \<noteq> None then put_adj v (drop_neighbor u (adj g1 v)) g1 else g1)"

definition remove_node :: "int \<Rightarrow> graph \<Rightarrow> graph" where
  "remove_node node g =
     g\<lparr>adjacency_list := map (\<lambda>p. (fst p, drop_neighbor node (snd p))) (AList.delete node (adjacency_list g)),
       node_weights := AList.delete node (node_weights g)\<rparr>"

definition get_degree :: "graph \<Rightarrow> int \<Rightarrow> nat" where
  "get_degree g node = (case map_of (adjacency_list g) node of Some ns \<Rightarrow> length ns | None \<Rightarrow> 0)"

definition get_edge_weight :: "graph \<Rightarrow> int \<Rightarrow> int \<Rightarrow> real" where
  "get_edge_weight g u v =
     (case map_of (adjacency_list g) u of
        Some ns \<Rightarrow> (case List.find (\<lambda>p. fst p = v) ns of Some p \<Rightarrow> snd p | None \<Rightarrow> -1)
      | None \<Rightarrow> -1)"

fun set_first :: "int \<Rightarrow> real \<Rightarrow> (int \<times> real) list \<Rightarrow> (int \<times> real) list" where
  "set_first v weight [] = []"
| "set_first v weight (p # ns) = (if fst p = v then (v, weight) # ns else p # set_first v weight ns)"

definition update_edge_weight :: "int \<Rightarrow> int \<Rightarrow> real \<Rightarrow> graph \<Rightarrow> graph \<times> bool" where
  "update_edge_weight u v weight g =
     (let hit_u = list_ex (\<lambda>p. fst p = v) (adj g u);
          g1 = (if hit_u then put_adj u (set_first v weight (adj g u)) g else g);
          hit_v = list_ex (\<lambda>p. fst p = u) (adj g1 v);
          g2 = (if hit_v then put_adj v (set_first u weight (adj g1 v)) g1 else g1)
      in (g2, hit_u \<or> hit_v))"

definition neighbor_universe :: "graph \<Rightarrow> int set" where
  "neighbor_universe g = (\<Union>p \<in> set (adjacency_list g). fst ` set (snd p))"

lemma get_neighbors_universe: "set (get_neighbors g u) \<subseteq> neighbor_universe g"
proof (cases "map_of (adjacency_list g) u")
  case (Some ns)
  then have "(u, ns) \<in> set (adjacency_list g)" by (rule map_of_SomeD)
  then show ?thesis using Some by (force simp: get_neighbors_def neighbor_universe_def)
qed (simp add: get_neighbors_def)

lemma finite_neighbor_universe [simp]: "finite (neighbor_universe g)"
  by (simp add: neighbor_universe_def)

text \<open>
  The stack holds, innermost call first, the neighbours each open call of \<open>dfs\<close> has still to look at.
\<close>

function dfs :: "graph \<Rightarrow> int list \<Rightarrow> int list \<Rightarrow> int list" where
  "dfs g [] visited = visited"
| "dfs g (node # pending) visited =
     (if node \<in> set visited then dfs g pending visited
      else dfs g (get_neighbors g node @ pending) (node # visited))"
  by pat_completeness auto
termination
proof (relation "measures [\<lambda>(g, st, vis). card (neighbor_universe g \<union> set st - set vis), \<lambda>(g, st, vis). length st]")
  fix g :: graph and node :: int and pending visited :: "int list"
  assume "node \<in> set visited"
  then have "neighbor_universe g \<union> set (node # pending) - set visited = neighbor_universe g \<union> set pending - set visited"
    by auto
  then show "((g, pending, visited), (g, node # pending, visited))
      \<in> measures [\<lambda>(g, st, vis). card (neighbor_universe g \<union> set st - set vis), \<lambda>(g, st, vis). length st]"
    by simp
next
  fix g :: graph and node :: int and pending visited :: "int list"
  assume n: "node \<notin> set visited"
  let ?new = "neighbor_universe g \<union> set (get_neighbors g node @ pending) - set (node # visited)"
  let ?old = "neighbor_universe g \<union> set (node # pending) - set visited"
  have "?new \<subset> ?old" using n get_neighbors_universe [of g node] by auto
  then have "card ?new < card ?old" by (intro psubset_card_mono) simp_all
  then show "((g, get_neighbors g node @ pending, node # visited), (g, node # pending, visited))
      \<in> measures [\<lambda>(g, st, vis). card (neighbor_universe g \<union> set st - set vis), \<lambda>(g, st, vis). length st]"
    by simp
qed simp

definition is_connected :: "graph \<Rightarrow> bool" where
  "is_connected g =
     (if adjacency_list g = [] then True
      else length (dfs g [fst (hd (adjacency_list g))] []) = length (adjacency_list g))"

section \<open>Invariant\<close>

definition nbr_count :: "graph \<Rightarrow> int \<Rightarrow> int \<Rightarrow> nat" where
  "nbr_count g u v = count_list (map fst (adj g u)) v"

text \<open>
  Every node is stored once, neighbours are nodes, adjacency is symmetric, an edge between two
  nodes is listed once at either end and a self-loop twice at its node.
\<close>

definition graph_ok :: "graph \<Rightarrow> bool" where
  "graph_ok g \<longleftrightarrow> distinct (get_nodes g) \<and> (\<forall>u v. nbr_count g u v = nbr_count g v u) \<and>
     (\<forall>u v. u \<noteq> v \<longrightarrow> nbr_count g u v \<le> 1) \<and> (\<forall>u. nbr_count g u u \<in> {0, 2}) \<and>
     (\<forall>u v. 0 < nbr_count g u v \<longrightarrow> v \<in> set (get_nodes g))"

lemma graph_okD:
  assumes "graph_ok g"
  shows "distinct (get_nodes g)" "nbr_count g u v = nbr_count g v u" "u \<noteq> v \<Longrightarrow> nbr_count g u v \<le> 1"
    "nbr_count g u u = 0 \<or> nbr_count g u u = 2" "0 < nbr_count g u v \<Longrightarrow> v \<in> set (get_nodes g)"
  using assms unfolding graph_ok_def by blast+

lemma graph_okI:
  assumes "distinct (get_nodes g)" "\<And>u v. nbr_count g u v = nbr_count g v u" "\<And>u v. u \<noteq> v \<Longrightarrow> nbr_count g u v \<le> 1"
    "\<And>u. nbr_count g u u = 0 \<or> nbr_count g u u = 2" "\<And>u v. 0 < nbr_count g u v \<Longrightarrow> v \<in> set (get_nodes g)"
  shows "graph_ok g"
  using assms unfolding graph_ok_def by blast

lemma nodes_iff: "map_of (adjacency_list g) u = None \<longleftrightarrow> u \<notin> set (get_nodes g)"
  by (simp add: get_nodes_def map_of_eq_None_iff)

lemma adj_not_node: "u \<notin> set (get_nodes g) \<Longrightarrow> adj g u = []"
  using nodes_iff [of g u] by (simp add: adj_def)

lemma adj_put [simp]: "adj (put_adj u ns g) w = (if w = u then ns else adj g w)"
  by (simp add: adj_def put_adj_def update_conv')

lemma nodes_put [simp]: "set (get_nodes (put_adj u ns g)) = insert u (set (get_nodes g))"
  by (simp add: get_nodes_def put_adj_def dom_update)

lemma distinct_put [simp]: "distinct (get_nodes g) \<Longrightarrow> distinct (get_nodes (put_adj u ns g))"
  by (simp add: get_nodes_def put_adj_def distinct_update)

lemma touch_conv: "touch u g = (if u \<in> set (get_nodes g) then g else put_adj u [] g)"
  using nodes_iff [of g u] by (auto simp: touch_def put_adj_def)

lemma adj_touch [simp]: "adj (touch u g) w = adj g w"
  by (auto simp: touch_conv adj_not_node)

lemma nodes_touch [simp]: "set (get_nodes (touch u g)) = insert u (set (get_nodes g))"
  by (auto simp: touch_conv)

lemma distinct_touch [simp]: "distinct (get_nodes g) \<Longrightarrow> distinct (get_nodes (touch u g))"
  by (simp add: touch_conv)

lemma edge_exists_count: "edge_exists g u v \<longleftrightarrow> 0 < nbr_count g u v"
  by (auto simp: edge_exists_def nbr_count_def adj_def list_ex_iff split: option.splits)

lemma list_ex_adj: "list_ex (\<lambda>p. fst p = v) (adj g u) \<longleftrightarrow> 0 < nbr_count g u v"
  by (auto simp: nbr_count_def list_ex_iff)

lemma count_append [simp]: "count_list (xs @ ys) x = count_list xs x + count_list ys x"
  by (induction xs) auto

lemma count_drop: "count_list (map fst (drop_neighbor v ns)) x = (if x = v then 0 else count_list (map fst ns) x)"
  by (induction ns) (auto simp: drop_neighbor_def)

lemma count_set_first: "map fst (set_first v w ns) = map fst ns"
  by (induction ns) auto

lemma nbr_count_add_edge:
  "nbr_count (add_edge u v w g) x y = nbr_count g x y +
     (if nbr_count g u v = 0 then (if x = u \<and> y = v then 1 else 0) + (if x = v \<and> y = u then 1 else 0) else 0)"
proof (cases "nbr_count g u v = 0")
  case True
  then have no: "\<not> list_ex (\<lambda>p. fst p = v) (adj g u)" by (simp add: list_ex_adj)
  show ?thesis
  proof (cases "u = v")
    case self: True
    then have "adj (add_edge u v w g) x = (if x = u then adj g u @ [(u, w), (u, w)] else adj g x)"
      using no by (simp add: add_edge_def Let_def)
    then show ?thesis using True self by (simp add: nbr_count_def)
  next
    case False
    then have "adj (add_edge u v w g) x =
        (if x = u then adj g u @ [(v, w)] else if x = v then adj g v @ [(u, w)] else adj g x)"
      using no by (simp add: add_edge_def Let_def)
    then show ?thesis using True False by (simp add: nbr_count_def)
  qed
next
  case False
  then have "list_ex (\<lambda>p. fst p = v) (adj g u)" by (simp add: list_ex_adj)
  then have "adj (add_edge u v w g) x = adj g x" by (simp add: add_edge_def Let_def)
  then show ?thesis using False by (simp add: nbr_count_def)
qed

lemma nodes_add_edge:
  "graph_ok g \<Longrightarrow> set (get_nodes (add_edge u v w g)) = insert u (insert v (set (get_nodes g)))"
proof -
  assume ok: "graph_ok g"
  have "v \<in> set (get_nodes g)" if "0 < nbr_count g u v" using ok that by (auto simp: graph_ok_def)
  moreover have "list_ex (\<lambda>p. fst p = v) (adj (touch u g) u) \<longleftrightarrow> 0 < nbr_count g u v" by (simp add: list_ex_adj)
  ultimately show ?thesis by (auto simp: add_edge_def Let_def)
qed

lemma nbr_count_remove_edge:
  "nbr_count (remove_edge u v g) x y = (if x = u \<and> y = v \<or> x = v \<and> y = u then 0 else nbr_count g x y)"
proof -
  have missing: "nbr_count g a b = 0" if "map_of (adjacency_list g) a = None" for a b
    using that by (simp add: nbr_count_def adj_def)
  show ?thesis
    using missing [of u y] missing [of v y]
    by (auto simp: remove_edge_def Let_def nbr_count_def count_drop)
qed

lemma nodes_remove_edge: "set (get_nodes (remove_edge u v g)) = set (get_nodes g)"
  using nodes_iff [of g u] nodes_iff [of g v] by (auto simp: remove_edge_def Let_def simp del: map_of_eq_None_iff)

lemma adj_remove_node: "adj (remove_node n g) x = (if x = n then [] else drop_neighbor n (adj g x))"
proof -
  have m: "map_of (map (\<lambda>p. (fst p, drop_neighbor n (snd p))) xs) k = map_option (drop_neighbor n) (map_of xs k)" for xs k
    by (induction xs) auto
  show ?thesis
    by (simp add: adj_def remove_node_def m delete_conv' split: option.splits) (simp add: drop_neighbor_def)
qed

lemma nodes_remove_node: "get_nodes (remove_node n g) = filter (\<lambda>u. u \<noteq> n) (get_nodes g)"
  by (simp add: get_nodes_def remove_node_def comp_def delete_keys removeAll_filter_not_eq) (rule filter_cong, auto)

lemma nbr_count_remove_node:
  "nbr_count (remove_node n g) x y = (if x = n \<or> y = n then 0 else nbr_count g x y)"
  by (auto simp: nbr_count_def adj_remove_node count_drop)

lemma nbr_count_update_edge_weight: "nbr_count (fst (update_edge_weight u v w g)) x y = nbr_count g x y"
  by (auto simp: update_edge_weight_def Let_def nbr_count_def count_set_first)

lemma nodes_update_edge_weight:
  "set (get_nodes (fst (update_edge_weight u v w g))) = set (get_nodes g)"
proof -
  have "a \<in> set (get_nodes h)" if "list_ex P (adj h a)" for a h P
    using that adj_not_node [of a h] by (cases "a \<in> set (get_nodes h)") auto
  from this [of _ g] this [of _ "put_adj u (set_first v w (adj g u)) g"] show ?thesis
    by (auto simp: update_edge_weight_def Let_def split: if_splits)
qed

section \<open>Connectedness\<close>

definition reaches :: "graph \<Rightarrow> int \<Rightarrow> int \<Rightarrow> bool" where
  "reaches g u v \<longleftrightarrow> (u, v) \<in> {(a, b). edge_exists g a b}\<^sup>*"

lemma neighbors_edge: "v \<in> set (get_neighbors g u) \<longleftrightarrow> edge_exists g u v"
  by (auto simp: get_neighbors_def edge_exists_def list_ex_iff split: option.splits)

lemma dfs_distinct: "distinct visited \<Longrightarrow> distinct (dfs g st visited)"
  by (induction g st visited rule: dfs.induct) auto

lemma dfs_sound:
  "v \<in> set (dfs g st visited) \<Longrightarrow> v \<in> set visited \<or> (\<exists>u \<in> set st. reaches g u v)"
proof (induction g st visited rule: dfs.induct)
  case (2 g node pending visited)
  show ?case
  proof (cases "node \<in> set visited")
    case False
    then consider "v \<in> set (node # visited)" | u where "u \<in> set (get_neighbors g node @ pending)" "reaches g u v"
      using 2 by auto
    then show ?thesis
    proof cases
      case 1 then show ?thesis by (auto simp: reaches_def)
    next
      case 2
      then show ?thesis
        by (auto simp: reaches_def neighbors_edge intro: converse_rtrancl_into_rtrancl)
    qed
  qed (use 2 in auto)
qed simp

lemma dfs_complete:
  assumes "\<forall>u \<in> set visited. set (get_neighbors g u) \<subseteq> set visited \<union> set st"
  shows "set visited \<union> set st \<subseteq> set (dfs g st visited) \<and>
    (\<forall>u \<in> set (dfs g st visited). set (get_neighbors g u) \<subseteq> set (dfs g st visited))"
  using assms
proof (induction g st visited rule: dfs.induct)
  case (2 g node pending visited)
  show ?case
  proof (cases "node \<in> set visited")
    case True
    then show ?thesis using 2 by auto
  next
    case False
    have "\<forall>u \<in> set (node # visited). set (get_neighbors g u) \<subseteq> set (node # visited) \<union> set (get_neighbors g node @ pending)"
      using "2.prems" by auto
    from "2.IH"(2) [OF False this] False show ?thesis by auto
  qed
qed simp

lemma dfs_reach: "set (dfs g [s] []) = {v. reaches g s v}"
proof
  show "set (dfs g [s] []) \<subseteq> {v. reaches g s v}" using dfs_sound [of _ g "[s]" "[]"] by auto
  have closed: "s \<in> set (dfs g [s] [])" "\<And>u. u \<in> set (dfs g [s] []) \<Longrightarrow> set (get_neighbors g u) \<subseteq> set (dfs g [s] [])"
    using dfs_complete [of "[]" g "[s]"] by auto
  have "v \<in> set (dfs g [s] [])" if "(s, v) \<in> {(a, b). edge_exists g a b}\<^sup>*" for v
    using that
  proof (induction rule: rtrancl_induct)
    case (step y z)
    then show ?case using closed(2) [of y] by (auto simp: neighbors_edge)
  qed (rule closed)
  then show "{v. reaches g s v} \<subseteq> set (dfs g [s] [])" by (auto simp: reaches_def)
qed

section \<open>Edges\<close>

lemma graph_ok_edges:
  assumes "graph_ok g"
  shows "edge_exists g u v \<longleftrightarrow> edge_exists g v u" "edge_exists g u v \<Longrightarrow> u \<in> set (get_nodes g) \<and> v \<in> set (get_nodes g)"
  using assms unfolding edge_exists_count graph_ok_def by (metis)+

lemma reaches_nodes:
  assumes "graph_ok g" "reaches g u v" "u \<in> set (get_nodes g)"
  shows "v \<in> set (get_nodes g)"
  using assms(2) unfolding reaches_def
  by (induction rule: rtrancl_induct) (use assms(3) graph_ok_edges(2) [OF assms(1)] in auto)

lemma reaches_sym: "graph_ok g \<Longrightarrow> reaches g u v \<Longrightarrow> reaches g v u"
proof -
  assume "graph_ok g"
  then have "sym {(a, b). edge_exists g a b}" using graph_ok_edges(1) by (auto simp: sym_def)
  then show "reaches g u v \<Longrightarrow> reaches g v u"
    unfolding reaches_def by (meson sym_rtrancl symD)
qed

lemma sum_degrees:
  assumes "graph_ok g"
  shows "sum_list (map (\<lambda>p. length (snd p)) (adjacency_list g)) =
    (\<Sum>u \<in> set (get_nodes g). \<Sum>v \<in> set (get_nodes g). nbr_count g u v)"
proof -
  have dist: "distinct (map fst (adjacency_list g))" using assms by (simp add: graph_ok_def get_nodes_def)
  have "length (snd p) = length (adj g (fst p))" if "p \<in> set (adjacency_list g)" for p
  proof -
    have "map_of (adjacency_list g) (fst p) = Some (snd p)"
      by (rule map_of_is_SomeI [OF dist]) (use that in simp)
    then show ?thesis by (simp add: adj_def)
  qed
  then have eq: "map (\<lambda>p. length (snd p)) (adjacency_list g) = map (\<lambda>u. length (adj g u)) (get_nodes g)"
    by (simp add: get_nodes_def)
  have "distinct (get_nodes g)" using dist by (simp add: get_nodes_def)
  then have "sum_list (map (\<lambda>p. length (snd p)) (adjacency_list g)) = (\<Sum>u \<in> set (get_nodes g). length (adj g u))"
    unfolding eq by (rule sum_list_distinct_conv_sum_set)
  also have "\<dots> = (\<Sum>u \<in> set (get_nodes g). \<Sum>v \<in> set (get_nodes g). nbr_count g u v)"
  proof (rule sum.cong)
    fix u
    have "set (map fst (adj g u)) \<subseteq> set (get_nodes g)"
    proof
      fix v
      assume "v \<in> set (map fst (adj g u))"
      then have "0 < nbr_count g u v" by (simp add: nbr_count_def)
      then show "v \<in> set (get_nodes g)" by (rule graph_okD [OF assms])
    qed
    then show "length (adj g u) = (\<Sum>v \<in> set (get_nodes g). nbr_count g u v)"
      using sum_count_set [of "map fst (adj g u)" "set (get_nodes g)"] by (simp add: nbr_count_def)
  qed simp
  finally show ?thesis .
qed

lemma sum_indicator_card: "finite A \<Longrightarrow> (\<Sum>x \<in> A. if P x then 1 else 0 :: nat) = card {x \<in> A. P x}"
  by (simp add: sum.If_cases Int_def)

lemma sum_split_order:
  fixes f :: "int \<Rightarrow> int \<Rightarrow> nat"
  assumes "finite N" "\<And>u v. f u v = f v u"
  shows "(\<Sum>u \<in> N. \<Sum>v \<in> N. f u v) = 2 * (\<Sum>(u, v) \<in> {(u, v) \<in> N \<times> N. u < v}. f u v) + (\<Sum>u \<in> N. f u u)"
proof -
  let ?A = "{(u, v) \<in> N \<times> N. u < v}" and ?B = "{(u, v) \<in> N \<times> N. v < u}" and ?C = "(\<lambda>u. (u, u)) ` N"
  have fin: "finite ?A" "finite ?B" "finite ?C"
    using assms(1) by (auto intro: finite_subset [of _ "N \<times> N"])
  have part: "N \<times> N = ?A \<union> (?B \<union> ?C)" by auto
  have "(\<Sum>u \<in> N. \<Sum>v \<in> N. f u v) = (\<Sum>(u, v) \<in> N \<times> N. f u v)" by (rule sum.cartesian_product)
  also have "\<dots> = (\<Sum>(u, v) \<in> ?A \<union> (?B \<union> ?C). f u v)" by (rule sum.cong [OF part refl])
  also have "\<dots> = (\<Sum>(u, v) \<in> ?A. f u v) + (\<Sum>(u, v) \<in> ?B \<union> ?C. f u v)"
    by (rule sum.union_disjoint) (use fin in auto)
  also have "(\<Sum>(u, v) \<in> ?B \<union> ?C. f u v) = (\<Sum>(u, v) \<in> ?B. f u v) + (\<Sum>(u, v) \<in> ?C. f u v)"
    by (rule sum.union_disjoint) (use fin in auto)
  also have "(\<Sum>(u, v) \<in> ?B. f u v) = (\<Sum>(u, v) \<in> ?A. f u v)"
    by (rule sum.reindex_bij_witness [of _ prod.swap prod.swap]) (auto simp: assms(2))
  also have "(\<Sum>(u, v) \<in> ?C. f u v) = (\<Sum>u \<in> N. f u u)"
    by (subst sum.reindex) (auto simp: inj_on_def)
  finally show ?thesis by simp
qed

section \<open>Properties\<close>

lemma graph_ok_cong:
  assumes "graph_ok g" "\<And>u v. nbr_count g' u v = nbr_count g u v" "set (get_nodes g) \<subseteq> set (get_nodes g')"
    "distinct (get_nodes g')"
  shows "graph_ok g'"
  using assms(1,3,4) unfolding graph_ok_def assms(2) by blast

lemma graph_ok_new: "graph_ok graph_new"
  by (simp add: graph_ok_def graph_new_def get_nodes_def nbr_count_def adj_def)

lemma graph_ok_add_edge:
  assumes ok: "graph_ok g"
  shows "graph_ok (add_edge u v w g)"
proof (rule graph_okI)
  note count = nbr_count_add_edge [of u v w g]
  have swap: "nbr_count g v u = 0 \<longleftrightarrow> nbr_count g u v = 0" by (simp add: graph_okD(2) [OF ok, of v u])
  show "distinct (get_nodes (add_edge u v w g))" using graph_okD(1) [OF ok] by (simp add: add_edge_def Let_def)
  show "nbr_count (add_edge u v w g) x y = nbr_count (add_edge u v w g) y x" for x y
    unfolding count graph_okD(2) [OF ok, of y x] by (simp add: conj_commute)
  show "nbr_count (add_edge u v w g) x y \<le> 1" if "x \<noteq> y" for x y
    unfolding count using graph_okD(3) [OF ok that] that swap by auto
  show "nbr_count (add_edge u v w g) x x = 0 \<or> nbr_count (add_edge u v w g) x x = 2" for x
    unfolding count using graph_okD(4) [OF ok, of x] by auto
  show "y \<in> set (get_nodes (add_edge u v w g))" if "0 < nbr_count (add_edge u v w g) x y" for x y
    using that graph_okD(5) [OF ok, of x y] unfolding count nodes_add_edge [OF ok] by (auto split: if_splits)
qed

lemma graph_ok_remove_edge:
  assumes ok: "graph_ok g"
  shows "graph_ok (remove_edge u v g)"
proof (rule graph_okI)
  note count = nbr_count_remove_edge [of u v g]
  show "distinct (get_nodes (remove_edge u v g))" using graph_okD(1) [OF ok] by (simp add: remove_edge_def Let_def)
  show "nbr_count (remove_edge u v g) x y = nbr_count (remove_edge u v g) y x" for x y
    unfolding count using graph_okD(2) [OF ok, of x y] by auto
  show "nbr_count (remove_edge u v g) x y \<le> 1" if "x \<noteq> y" for x y
    unfolding count using graph_okD(3) [OF ok that] by simp
  show "nbr_count (remove_edge u v g) x x = 0 \<or> nbr_count (remove_edge u v g) x x = 2" for x
    unfolding count using graph_okD(4) [OF ok, of x] by simp
  show "y \<in> set (get_nodes (remove_edge u v g))" if "0 < nbr_count (remove_edge u v g) x y" for x y
    using that graph_okD(5) [OF ok, of x y] unfolding count nodes_remove_edge by (simp split: if_splits)
qed

lemma graph_ok_remove_node:
  assumes ok: "graph_ok g"
  shows "graph_ok (remove_node u g)"
proof (rule graph_okI)
  note count = nbr_count_remove_node [of u g]
  show "distinct (get_nodes (remove_node u g))" using graph_okD(1) [OF ok] by (simp add: nodes_remove_node)
  show "nbr_count (remove_node u g) x y = nbr_count (remove_node u g) y x" for x y
    unfolding count using graph_okD(2) [OF ok, of x y] by auto
  show "nbr_count (remove_node u g) x y \<le> 1" if "x \<noteq> y" for x y
    unfolding count using graph_okD(3) [OF ok that] by simp
  show "nbr_count (remove_node u g) x x = 0 \<or> nbr_count (remove_node u g) x x = 2" for x
    unfolding count using graph_okD(4) [OF ok, of x] by simp
  show "y \<in> set (get_nodes (remove_node u g))" if "0 < nbr_count (remove_node u g) x y" for x y
    using that graph_okD(5) [OF ok, of x y] unfolding count nodes_remove_node by (simp split: if_splits)
qed

text \<open>
  C37: Every mutating operation of the graph keeps the invariant (nodes stored once, adjacency
  symmetric, no parallel edges, neighbours are nodes), which the empty graph satisfies.
\<close>

theorem graph_operations_keep_invariant:
  "graph_ok graph_new \<and>
   (graph_ok g \<longrightarrow>
     graph_ok (add_edge u v w g) \<and> graph_ok (add_node u w g) \<and> graph_ok (remove_edge u v g) \<and>
     graph_ok (remove_node u g) \<and> graph_ok (set_node_weight u w g) \<and>
     graph_ok (fst (update_edge_weight u v w g)) \<and> graph_ok (graph_clear g))"
proof (intro conjI impI)
  show "graph_ok graph_new" by (rule graph_ok_new)
  show "graph_ok (graph_clear g)" if "graph_ok g"
    by (simp add: graph_ok_def graph_clear_def get_nodes_def nbr_count_def adj_def)
  assume ok: "graph_ok g"
  then have dist: "distinct (get_nodes g)" by (simp add: graph_ok_def)
  show "graph_ok (add_edge u v w g)" by (rule graph_ok_add_edge [OF ok])
  show "graph_ok (add_node u w g)"
  proof (rule graph_ok_cong [OF ok])
    show "nbr_count (add_node u w g) x y = nbr_count g x y" for x y
      by (auto simp: nbr_count_def adj_def add_node_def update_conv')
    show "set (get_nodes g) \<subseteq> set (get_nodes (add_node u w g))"
      by (auto simp: get_nodes_def add_node_def dom_update)
    show "distinct (get_nodes (add_node u w g))"
      using dist by (auto simp: get_nodes_def add_node_def distinct_update)
  qed
  show "graph_ok (remove_edge u v g)" by (rule graph_ok_remove_edge [OF ok])
  show "graph_ok (remove_node u g)" by (rule graph_ok_remove_node [OF ok])
  show "graph_ok (set_node_weight u w g)"
    by (rule graph_ok_cong [OF ok])
      (use dist in \<open>auto simp: set_node_weight_def nbr_count_def adj_def get_nodes_def\<close>)
  show "graph_ok (fst (update_edge_weight u v w g))"
    by (rule graph_ok_cong [OF ok nbr_count_update_edge_weight])
      (use dist nodes_update_edge_weight [of u v w g] in \<open>auto simp: update_edge_weight_def Let_def\<close>)
qed

theorem graph_operations_keep_invariant_witness: "graph_ok (add_edge 1 2 (5/2) graph_new)"
  using graph_operations_keep_invariant [of graph_new 1 2 "5/2"] by blast

text \<open>
  Edge operations mean what they say: after \<open>add_edge u v\<close> exactly the old edges and the edge
  \<open>{u, v}\<close> exist; after \<open>remove_edge u v\<close> exactly the old edges without it; after \<open>remove_node\<close>
  exactly the old edges not touching the node, and the node is gone.
\<close>

theorem edge_operations_meaning:
  "(edge_exists (add_edge u v w g) x y \<longleftrightarrow>
      edge_exists g x y \<or> (\<not> edge_exists g u v \<and> (x = u \<and> y = v \<or> x = v \<and> y = u))) \<and>
   (edge_exists (remove_edge u v g) x y \<longleftrightarrow> edge_exists g x y \<and> \<not> (x = u \<and> y = v \<or> x = v \<and> y = u)) \<and>
   (edge_exists (remove_node u g) x y \<longleftrightarrow> edge_exists g x y \<and> x \<noteq> u \<and> y \<noteq> u) \<and>
   set (get_nodes (remove_node u g)) = set (get_nodes g) - {u}"
  unfolding edge_exists_count nbr_count_add_edge nbr_count_remove_edge nbr_count_remove_node nodes_remove_node
  by auto

text \<open>
  \<open>num_edges\<close> counts edges: on every graph that satisfies the invariant it is the number of
  unordered pairs (self-loops included) joined by an edge.
\<close>

theorem num_edges_counts:
  assumes "graph_ok g"
  shows "num_edges g = card {(u, v). u \<le> v \<and> edge_exists g u v}"
proof -
  let ?N = "set (get_nodes g)"
  let ?A = "{(u, v) \<in> ?N \<times> ?N. u < v}"
  have cnt: "nbr_count g u v = (if edge_exists g u v then 1 else 0)" if "u \<noteq> v" for u v
    using assms that unfolding edge_exists_count graph_ok_def by (metis One_nat_def Suc_leI le_antisym neq0_conv)
  have self: "nbr_count g u u = 2 * (if edge_exists g u u then 1 else 0)" for u
  proof -
    have "nbr_count g u u = 0 \<or> nbr_count g u u = 2" by (rule graph_okD [OF assms])
    then show ?thesis by (auto simp: edge_exists_count)
  qed
  have "(\<Sum>(u, v) \<in> ?A. nbr_count g u v) = (\<Sum>p \<in> ?A. if edge_exists g (fst p) (snd p) then 1 else 0)"
    by (rule sum.cong) (auto simp: cnt)
  also have "\<dots> = card {p \<in> ?A. edge_exists g (fst p) (snd p)}"
    by (rule sum_indicator_card) (rule finite_subset [of _ "?N \<times> ?N"], auto)
  also have "{p \<in> ?A. edge_exists g (fst p) (snd p)} = {(u, v). u < v \<and> edge_exists g u v}"
    using graph_ok_edges(2) [OF assms] by fastforce
  finally have lt: "(\<Sum>(u, v) \<in> ?A. nbr_count g u v) = card {(u, v). u < v \<and> edge_exists g u v}" .
  have "(\<Sum>u \<in> ?N. nbr_count g u u) = 2 * (\<Sum>u \<in> ?N. if edge_exists g u u then 1 else 0)"
    by (simp add: self sum_distrib_left)
  also have "(\<Sum>u \<in> ?N. if edge_exists g u u then 1 else 0 :: nat) = card {u \<in> ?N. edge_exists g u u}"
    by (rule sum_indicator_card) simp
  also have "\<dots> = card ((\<lambda>u. (u, u)) ` {u. edge_exists g u u})"
  proof -
    have "{u \<in> ?N. edge_exists g u u} = {u. edge_exists g u u}" using graph_ok_edges(2) [OF assms] by blast
    then show ?thesis by (simp add: card_image inj_on_def)
  qed
  finally have eq: "(\<Sum>u \<in> ?N. nbr_count g u u) = 2 * card ((\<lambda>u. (u, u)) ` {u. edge_exists g u u})" .
  have fin: "finite {(u, v). u < v \<and> edge_exists g u v}" "finite ((\<lambda>u. (u, u)) ` {u. edge_exists g u u})"
  proof -
    have "{(u, v). u < v \<and> edge_exists g u v} \<subseteq> ?N \<times> ?N" "{u. edge_exists g u u} \<subseteq> ?N"
      using graph_ok_edges(2) [OF assms] by blast+
    then show "finite {(u, v). u < v \<and> edge_exists g u v}" "finite ((\<lambda>u. (u, u)) ` {u. edge_exists g u u})"
      by (meson finite_SigmaI finite_set finite_subset finite_imageI)+
  qed
  have "{(u, v). u \<le> v \<and> edge_exists g u v} = {(u, v). u < v \<and> edge_exists g u v} \<union> (\<lambda>u. (u, u)) ` {u. edge_exists g u u}"
    by auto
  then have "card {(u, v). u \<le> v \<and> edge_exists g u v}
      = card {(u, v). u < v \<and> edge_exists g u v} + card ((\<lambda>u. (u, u)) ` {u. edge_exists g u u})"
    using fin by (simp only:) (rule card_Un_disjoint, auto)
  moreover have "sum_list (map (\<lambda>p. length (snd p)) (adjacency_list g))
      = 2 * (card {(u, v). u < v \<and> edge_exists g u v} + card ((\<lambda>u. (u, u)) ` {u. edge_exists g u u}))"
    unfolding sum_degrees [OF assms]
    using sum_split_order [of ?N "nbr_count g"] assms lt eq by (simp add: graph_ok_def)
  ultimately show ?thesis by (simp add: num_edges_def)
qed

text \<open>
  C38: \<open>is_connected\<close> decides connectedness: on a graph that satisfies the invariant it returns true
  iff any two nodes are joined by a path, whatever node the hash map yields first; the search
  terminates on every graph.
\<close>

theorem is_connected_correct:
  assumes "graph_ok g"
  shows "is_connected g \<longleftrightarrow> (\<forall>u \<in> set (get_nodes g). \<forall>v \<in> set (get_nodes g). reaches g u v)"
proof (cases "adjacency_list g")
  case Nil
  then show ?thesis by (simp add: is_connected_def get_nodes_def)
next
  case (Cons p ps)
  define s where "s = fst p"
  let ?vis = "dfs g [s] []" and ?N = "set (get_nodes g)"
  have s: "s \<in> ?N" using Cons by (simp add: s_def get_nodes_def)
  have vis: "set ?vis = {v. reaches g s v}" "distinct ?vis" using dfs_reach dfs_distinct by auto
  have sub: "set ?vis \<subseteq> ?N" using vis(1) reaches_nodes [OF assms _ s] by auto
  have card: "card ?N = length (adjacency_list g)" using assms by (simp add: graph_ok_def get_nodes_def distinct_card flip: set_map)
  have "is_connected g \<longleftrightarrow> card (set ?vis) = card ?N"
    using vis(2) card Cons by (simp add: is_connected_def s_def distinct_card)
  also have "\<dots> \<longleftrightarrow> set ?vis = ?N" using sub card_subset_eq [of ?N "set ?vis"] by auto
  also have "\<dots> \<longleftrightarrow> (\<forall>u \<in> ?N. \<forall>v \<in> ?N. reaches g u v)"
  proof
    assume "set ?vis = ?N"
    then have r: "reaches g s v" if "v \<in> ?N" for v using that vis(1) by auto
    show "\<forall>u \<in> ?N. \<forall>v \<in> ?N. reaches g u v"
      using r reaches_sym [OF assms] unfolding reaches_def by (meson rtrancl_trans)
  qed (use sub vis(1) s in auto)
  finally show ?thesis .
qed

lemma demo_graph_ok: "graph_ok (add_edge 2 3 1 (add_edge 1 2 1 graph_new))"
  by (intro graph_ok_add_edge graph_ok_new)

theorem num_edges_counts_witness:
  "num_edges (add_edge 2 3 1 (add_edge 1 2 1 graph_new))
   = card {(u, v). u \<le> v \<and> edge_exists (add_edge 2 3 1 (add_edge 1 2 1 graph_new)) u v}"
  by (rule num_edges_counts [OF demo_graph_ok])

theorem is_connected_correct_witness:
  "is_connected (add_edge 2 3 1 (add_edge 1 2 1 graph_new)) \<longleftrightarrow>
   (\<forall>u \<in> set (get_nodes (add_edge 2 3 1 (add_edge 1 2 1 graph_new))).
      \<forall>v \<in> set (get_nodes (add_edge 2 3 1 (add_edge 1 2 1 graph_new))). reaches (add_edge 2 3 1 (add_edge 1 2 1 graph_new)) u v)"
  by (rule is_connected_correct [OF demo_graph_ok])

text \<open>
  Adding an edge before its end points leaves them without a weight: \<open>get_node_weight\<close> of such a
  node is 0 and a later \<open>add_node\<close> with a weight is ignored, because it only looks at the
  adjacency map.
\<close>

lemma add_node_after_edge_ignored:
  assumes "u \<notin> set (map fst (node_weights g))"
  shows "get_node_weight (add_node u weight (add_edge u v w g)) u = 0 \<and>
    add_node u weight (add_edge u v w g) = add_edge u v w g"
proof -
  have nw: "node_weights (add_edge u v w g) = node_weights g"
    by (simp add: add_edge_def Let_def put_adj_def touch_def)
  have "u \<in> set (get_nodes (add_edge u v w g))" by (auto simp: add_edge_def Let_def)
  then have "add_node u weight (add_edge u v w g) = add_edge u v w g"
    using nodes_iff [of "add_edge u v w g" u] by (auto simp: add_node_def)
  moreover have "map_of (node_weights g) u = None" using assms by (simp add: map_of_eq_None_iff)
  ultimately show ?thesis using nw by (simp add: get_node_weight_def)
qed

end
