(* ===== verification/QEC_Stabilizers.thy ===== *)
theory QEC_Stabilizers
  imports QEC_Tensor
begin

text \<open>
  Stabilizer words and parity matrices (stabilizer_utils.cpp, the matrix getters of code.cpp).
  The operator type \<open>cudaq::spin_op_term\<close> is a type variable; its two third-party functions are the
  parameters \<open>get_pauli_word\<close> and \<open>from_word\<close>, with the behaviour \<open>pauli_word_ok\<close>. The comparator
  is a strict weak order with ties, so \<open>std::sort\<close> is a parameter \<open>srt\<close> too, of which only
  \<open>sorts\<close> is known: nothing below depends on how ties are resolved.
  Result: the matrix is the block matrix of Z words over X words, with rows ordered by their first
  factor, and the single-type matrices are its blocks.
\<close>

section \<open>Words\<close>

fun find_first_of :: "char \<Rightarrow> string \<Rightarrow> nat option" where
  "find_first_of ch [] = None"
| "find_first_of ch (x # s) = (if x = ch then Some 0 else map_option Suc (find_first_of ch s))"

text \<open>Comparison of two results of \<open>find_first_of\<close>: \<open>npos\<close> is the greatest \<open>size_t\<close>.\<close>

definition pos_less :: "nat option \<Rightarrow> nat option \<Rightarrow> bool" where
  "pos_less a b = (case a of None \<Rightarrow> False | Some i \<Rightarrow> (case b of None \<Rightarrow> True | Some j \<Rightarrow> i < j))"

definition spinOpComparatorStr :: "string \<Rightarrow> string \<Rightarrow> bool" where
  "spinOpComparatorStr astr bstr =
     (let zIdxA = find_first_of CHR ''Z'' astr; zIdxB = find_first_of CHR ''Z'' bstr in
      if zIdxA = None
      then if zIdxB \<noteq> None then False
           else pos_less (find_first_of CHR ''X'' astr) (find_first_of CHR ''X'' bstr)
      else if zIdxB = None then True else pos_less zIdxA zIdxB)"

definition spinOpComparator :: "('op \<Rightarrow> string) \<Rightarrow> 'op \<Rightarrow> 'op \<Rightarrow> bool" where
  "spinOpComparator get_pauli_word a b = spinOpComparatorStr (get_pauli_word a) (get_pauli_word b)"

fun isStabilizerSorted :: "('op \<Rightarrow> string) \<Rightarrow> 'op list \<Rightarrow> bool" where
  "isStabilizerSorted get_pauli_word (a # b # ops) =
     (\<not> spinOpComparator get_pauli_word b a \<and> isStabilizerSorted get_pauli_word (b # ops))"
| "isStabilizerSorted get_pauli_word _ = True"

text \<open>What \<open>std::sort\<close> promises for a strict weak order.\<close>

definition sorts :: "('a \<Rightarrow> 'a \<Rightarrow> bool) \<Rightarrow> ('a list \<Rightarrow> 'a list) \<Rightarrow> bool" where
  "sorts lt srt \<longleftrightarrow> (\<forall>xs. mset (srt xs) = mset xs \<and> sorted_by lt (srt xs))"

type_synonym sort_fn = "string list \<Rightarrow> string list"

definition sortStabilizerOps :: "('op list \<Rightarrow> 'op list) \<Rightarrow> 'op list \<Rightarrow> 'op list" where
  "sortStabilizerOps srt_ops ops = srt_ops ops"

section \<open>Parity matrices\<close>

datatype stabilizer_type = XZ | X_type | Z_type

text \<open>Reading a character of a \<open>std::string\<close>: position \<open>size()\<close> is the terminating null.\<close>

definition str_get :: "string \<Rightarrow> nat \<Rightarrow> char res" where
  "str_get s i = (if i < length s then Inr (s ! i)
                  else if i = length s then Inr (CHR 0x00) else Inl Undefined_behaviour)"

definition count_z_rows :: "string list \<Rightarrow> nat" where
  "count_z_rows stab_strings = length (takeWhile (\<lambda>s. find_first_of CHR ''Z'' s \<noteq> None) stab_strings)"

text \<open>
  The loop nest that marks in \<open>t\<close>, from row \<open>r0\<close> and column \<open>c0\<close> on, where the \<open>n\<close> words from
  \<open>first\<close> on have the factor \<open>ch\<close>.
\<close>

definition mark_words ::
  "string list \<Rightarrow> char \<Rightarrow> nat \<Rightarrow> nat \<Rightarrow> nat \<Rightarrow> nat \<Rightarrow> nat \<Rightarrow> u8 tensor \<Rightarrow> u8 tensor res" where
  "mark_words stab_strings ch first n numQubits r0 c0 =
     rfold (\<lambda>row. rfold (\<lambda>i t.
         rbind (vget stab_strings (first + row)) (\<lambda>w.
         rbind (str_get w i) (\<lambda>c.
           if c = ch then tensor_set t [r0 + row, c0 + i] 1 else Inr t))) [0..<numQubits]) [0..<n]"

definition to_parity_matrix ::
  "sort_fn \<Rightarrow> ('op \<Rightarrow> string) \<Rightarrow> 'op list \<Rightarrow> stabilizer_type \<Rightarrow> u8 tensor res" where
  "to_parity_matrix srt get_pauli_word stabilizers type =
     (if stabilizers = [] then Inr (tensor_new [])
      else let stab_strings = srt (map get_pauli_word stabilizers);
               numQubits = length (stab_strings ! 0);
               numStabilizers = length stab_strings;
               numZRows = count_z_rows stab_strings;
               numXRows = numStabilizers - numZRows
           in case type of
             XZ \<Rightarrow> rbind (mark_words stab_strings CHR ''Z'' 0 numZRows numQubits 0 0
                            (tensor_new [numStabilizers, 2 * numQubits]))
                    (mark_words stab_strings CHR ''X'' numZRows numXRows numQubits numZRows numQubits)
           | Z_type \<Rightarrow> if numZRows = 0 then Inr (tensor_new [])
                       else mark_words stab_strings CHR ''Z'' 0 numZRows numQubits 0 0
                              (tensor_new [numZRows, numQubits])
           | X_type \<Rightarrow> if numXRows = 0 then Inr (tensor_new [])
                       else mark_words stab_strings CHR ''X'' numZRows numXRows numQubits 0 0
                              (tensor_new [numXRows, numQubits]))"

definition to_parity_matrix_words ::
  "sort_fn \<Rightarrow> ('op list \<Rightarrow> 'op list) \<Rightarrow> ('op \<Rightarrow> string) \<Rightarrow> (string \<Rightarrow> 'op) \<Rightarrow>
   string list \<Rightarrow> stabilizer_type \<Rightarrow> u8 tensor res" where
  "to_parity_matrix_words srt srt_ops get_pauli_word from_word words type =
     (let ops = sortStabilizerOps srt_ops (map from_word words) in
      to_parity_matrix srt get_pauli_word ops type)"

text \<open>The base class \<open>code\<close>: its operators and the matrices read off them.\<close>

record 'op code =
  m_stabilizers :: "'op list"
  m_pauli_observables :: "'op list"

definition get_parity :: "sort_fn \<Rightarrow> ('op \<Rightarrow> string) \<Rightarrow> ('op, 'm) code_scheme \<Rightarrow> u8 tensor res" where
  "get_parity srt get_pauli_word q = to_parity_matrix srt get_pauli_word (m_stabilizers q) XZ"

definition get_parity_x :: "sort_fn \<Rightarrow> ('op \<Rightarrow> string) \<Rightarrow> ('op, 'm) code_scheme \<Rightarrow> u8 tensor res" where
  "get_parity_x srt get_pauli_word q = to_parity_matrix srt get_pauli_word (m_stabilizers q) X_type"

definition get_parity_z :: "sort_fn \<Rightarrow> ('op \<Rightarrow> string) \<Rightarrow> ('op, 'm) code_scheme \<Rightarrow> u8 tensor res" where
  "get_parity_z srt get_pauli_word q = to_parity_matrix srt get_pauli_word (m_stabilizers q) Z_type"

definition get_pauli_observables_matrix ::
  "sort_fn \<Rightarrow> ('op \<Rightarrow> string) \<Rightarrow> ('op, 'm) code_scheme \<Rightarrow> u8 tensor res" where
  "get_pauli_observables_matrix srt get_pauli_word q =
     to_parity_matrix srt get_pauli_word (m_pauli_observables q) XZ"

definition get_observables_x :: "sort_fn \<Rightarrow> ('op \<Rightarrow> string) \<Rightarrow> ('op, 'm) code_scheme \<Rightarrow> u8 tensor res" where
  "get_observables_x srt get_pauli_word q =
     to_parity_matrix srt get_pauli_word (m_pauli_observables q) X_type"

definition get_observables_z :: "sort_fn \<Rightarrow> ('op \<Rightarrow> string) \<Rightarrow> ('op, 'm) code_scheme \<Rightarrow> u8 tensor res" where
  "get_observables_z srt get_pauli_word q =
     to_parity_matrix srt get_pauli_word (m_pauli_observables q) Z_type"

section \<open>Order of words\<close>

abbreviation has_z :: "string \<Rightarrow> bool" where
  "has_z w \<equiv> CHR ''Z'' \<in> set w"

lemma find_first_of_None: "find_first_of ch s = None \<longleftrightarrow> ch \<notin> set s"
  by (induction s) auto

lemma find_first_of_Some:
  "find_first_of ch s = Some i \<longleftrightarrow> i < length s \<and> s ! i = ch \<and> (\<forall>j < i. s ! j \<noteq> ch)"
proof (induction s arbitrary: i)
  case (Cons x s)
  then show ?case by (cases i) (auto simp: All_less_Suc2)
qed simp

text \<open>The order compares a class (with Z, only X, neither), then the first position.\<close>

definition word_class :: "string \<Rightarrow> nat" where
  "word_class w = (if has_z w then 0 else if CHR ''X'' \<in> set w then 1 else 2)"

definition word_pos :: "string \<Rightarrow> nat" where
  "word_pos w = (case find_first_of (if has_z w then CHR ''Z'' else CHR ''X'') w of Some i \<Rightarrow> i | None \<Rightarrow> 0)"

lemma spinOpComparatorStr_iff:
  "spinOpComparatorStr a b \<longleftrightarrow> word_class a < word_class b \<or> word_class a = word_class b \<and> word_pos a < word_pos b"
proof -
  have z: "has_z w \<longleftrightarrow> find_first_of CHR ''Z'' w \<noteq> None" "CHR ''X'' \<in> set w \<longleftrightarrow> find_first_of CHR ''X'' w \<noteq> None" for w
    by (simp_all add: find_first_of_None)
  show ?thesis
    unfolding spinOpComparatorStr_def word_class_def word_pos_def pos_less_def Let_def z
    by (cases "find_first_of CHR ''Z'' a"; cases "find_first_of CHR ''Z'' b";
        cases "find_first_of CHR ''X'' a"; cases "find_first_of CHR ''X'' b") simp_all
qed

interpretation words: strict_weak spinOpComparatorStr
  by unfold_locales (unfold spinOpComparatorStr_iff, linarith+)

interpretation ops: strict_weak "spinOpComparator gpw" for gpw
  by unfold_locales (unfold spinOpComparator_def, fact words.asym, fact words.negtrans)

lemma sorts_std_sort: "sorts spinOpComparatorStr (std_sort spinOpComparatorStr)"
  by (simp add: sorts_def words.sorted_std_sort)

lemma isStabilizerSorted_iff: "isStabilizerSorted gpw xs \<longleftrightarrow> sorted_by (spinOpComparator gpw) xs"
proof (induction gpw xs rule: isStabilizerSorted.induct)
  case (1 gpw a b xs)
  then show ?case using ops.negtrans [of gpw _ b a] by auto
qed auto

text \<open>In an ordered list the words with a Z come first.\<close>

lemma z_words_first:
  "sorted_by spinOpComparatorStr ws \<Longrightarrow> takeWhile has_z ws = filter has_z ws \<and> dropWhile has_z ws = filter (\<lambda>w. \<not> has_z w) ws"
proof (induction ws)
  case (Cons w ws)
  show ?case
  proof (cases "has_z w")
    case False
    then have "\<not> has_z v" if "v \<in> set ws" for v
      using Cons.prems that by (auto simp: spinOpComparatorStr_iff word_class_def split: if_splits)
    with False show ?thesis by (auto simp: filter_False filter_id_conv)
  qed (use Cons in auto)
qed simp

lemma count_z_rows_eq: "count_z_rows ws = length (takeWhile has_z ws)"
  by (simp add: count_z_rows_def find_first_of_None cong: takeWhile_cong)

section \<open>Block structure\<close>

definition block_cells :: "string list \<Rightarrow> char \<Rightarrow> nat \<Rightarrow> nat \<Rightarrow> nat \<Rightarrow> nat \<Rightarrow> nat \<Rightarrow> (nat \<times> nat) list" where
  "block_cells ws ch first n q r0 c0 =
     concat (map (\<lambda>row. map (\<lambda>i. (r0 + row, c0 + i)) (filter (\<lambda>i. ws ! (first + row) ! i = ch) [0..<q])) [0..<n])"

lemma set_block_cells:
  "(r, c) \<in> set (block_cells ws ch first n q r0 c0) \<longleftrightarrow>
   r0 \<le> r \<and> r < r0 + n \<and> c0 \<le> c \<and> c < c0 + q \<and> ws ! (first + (r - r0)) ! (c - c0) = ch"
proof
  assume "r0 \<le> r \<and> r < r0 + n \<and> c0 \<le> c \<and> c < c0 + q \<and> ws ! (first + (r - r0)) ! (c - c0) = ch"
  then show "(r, c) \<in> set (block_cells ws ch first n q r0 c0)"
    by (auto simp: block_cells_def intro!: bexI [of _ "r - r0"] image_eqI [of _ _ "c - c0"])
qed (auto simp: block_cells_def)

lemma rfold_filter_map:
  assumes "\<And>x s. x \<in> set xs \<Longrightarrow> f x s = (if P x then g (h x) s else Inr s)"
  shows "rfold f xs s = rfold g (map h (filter P xs)) s"
  using assms
proof (induction xs arbitrary: s)
  case (Cons x xs)
  then have "f x s = (if P x then g (h x) s else Inr s)" by simp
  with Cons show ?case by (cases "g (h x) s") auto
qed simp

lemma rfold_concat: "rfold (\<lambda>x. rfold g (h x)) xs s = rfold g (concat (map h xs)) s"
proof (induction xs arbitrary: s)
  case (Cons x xs)
  then show ?case by (cases "rfold g (h x) s") (auto simp: rfold_append)
qed simp

lemma mark_words_cells:
  assumes "first + n \<le> length ws" "\<forall>w \<in> set ws. length w = q"
  shows "mark_words ws ch first n q r0 c0 t
    = rfold (\<lambda>rc t. tensor_set t [fst rc, snd rc] 1) (block_cells ws ch first n q r0 c0) t"
proof -
  let ?g = "\<lambda>rc t. tensor_set t [fst rc, snd rc] (1 :: u8)"
  have "mark_words ws ch first n q r0 c0 t = rfold (\<lambda>row. rfold ?g (map (\<lambda>i. (r0 + row, c0 + i))
      (filter (\<lambda>i. ws ! (first + row) ! i = ch) [0..<q]))) [0..<n] t"
    unfolding mark_words_def
  proof (rule rfold_cong [OF refl])
    fix row s assume "row \<in> set [0..<n]"
    then have "first + row < length ws" using assms(1) by simp
    then have "length (ws ! (first + row)) = q" using assms(2) by simp
    with \<open>first + row < length ws\<close>
    show "rfold (\<lambda>i t. rbind (vget ws (first + row)) (\<lambda>w. rbind (str_get w i) (\<lambda>c.
          if c = ch then tensor_set t [r0 + row, c0 + i] 1 else Inr t))) [0..<q] s
       = rfold ?g (map (\<lambda>i. (r0 + row, c0 + i)) (filter (\<lambda>i. ws ! (first + row) ! i = ch) [0..<q])) s"
      by (intro rfold_filter_map) (simp add: str_get_def)
  qed
  then show ?thesis by (simp add: rfold_concat block_cells_def)
qed

lemma mark_words_mat:
  assumes "is_mat t nr nc" "first + n \<le> length ws" "\<forall>w \<in> set ws. length w = q" "r0 + n \<le> nr" "c0 + q \<le> nc"
  shows "mark_words ws ch first n q r0 c0 t = Inr (mk_mat nr nc (\<lambda>r c.
    if r0 \<le> r \<and> r < r0 + n \<and> c0 \<le> c \<and> c < c0 + q \<and> ws ! (first + (r - r0)) ! (c - c0) = ch then 1 else ent t r c))"
  unfolding mark_words_cells [OF assms(2,3)]
  using assms(4,5) by (subst tensor_marks [OF assms(1)]) (auto simp: set_block_cells)

text \<open>The ordered words split into those with a Z and the rest; the matrices in terms of the two parts.\<close>

definition z_rows :: "sort_fn \<Rightarrow> string list \<Rightarrow> string list" where
  "z_rows srt ws = filter has_z (srt ws)"

definition x_rows :: "sort_fn \<Rightarrow> string list \<Rightarrow> string list" where
  "x_rows srt ws = filter (\<lambda>w. \<not> has_z w) (srt ws)"

lemma split_rows:
  assumes "sorts spinOpComparatorStr srt"
  shows "srt ws = z_rows srt ws @ x_rows srt ws" "count_z_rows (srt ws) = length (z_rows srt ws)"
proof -
  have "sorted_by spinOpComparatorStr (srt ws)" using assms by (simp add: sorts_def)
  from z_words_first [OF this] takeWhile_dropWhile_id [of has_z "srt ws"]
  show "srt ws = z_rows srt ws @ x_rows srt ws" "count_z_rows (srt ws) = length (z_rows srt ws)"
    unfolding z_rows_def x_rows_def count_z_rows_eq by metis+
qed

lemma mset_rows:
  assumes "sorts spinOpComparatorStr srt"
  shows "mset (z_rows srt ws) = mset (filter has_z ws)" "mset (x_rows srt ws) = mset (filter (\<lambda>w. \<not> has_z w) ws)"
  using assms by (simp_all add: z_rows_def x_rows_def sorts_def)

lemma parity_matrix_rows:
  assumes srt: "sorts spinOpComparatorStr srt" and ne: "stabs \<noteq> []"
    and len: "\<forall>s \<in> set stabs. length (gpw s) = q"
  defines "zs \<equiv> z_rows srt (map gpw stabs)" and "xs \<equiv> x_rows srt (map gpw stabs)"
  shows "to_parity_matrix srt gpw stabs Z_type = Inr (if zs = [] then tensor_new []
      else mk_mat (length zs) q (\<lambda>r c. if zs ! r ! c = CHR ''Z'' then 1 else 0))" (is ?Z)
    and "to_parity_matrix srt gpw stabs X_type = Inr (if xs = [] then tensor_new []
      else mk_mat (length xs) q (\<lambda>r c. if xs ! r ! c = CHR ''X'' then 1 else 0))" (is ?X)
    and "to_parity_matrix srt gpw stabs XZ = Inr (mk_mat (length zs + length xs) (2 * q) (\<lambda>r c.
      if r < length zs then (if c < q \<and> zs ! r ! c = CHR ''Z'' then 1 else 0)
      else (if q \<le> c \<and> xs ! (r - length zs) ! (c - q) = CHR ''X'' then 1 else 0)))" (is ?XZ)
proof -
  let ?ws = "map gpw stabs"
  have ss: "srt ?ws = zs @ xs" unfolding zs_def xs_def by (rule split_rows [OF srt])
  have cz: "count_z_rows (zs @ xs) = length zs" using split_rows(2) [OF srt, of ?ws] ss by (simp add: zs_def)
  have "mset (srt ?ws) = mset ?ws" using srt by (simp add: sorts_def)
  then have set: "set (srt ?ws) = set ?ws" and cnt: "length (srt ?ws) = length ?ws"
    by (metis set_mset_mset, metis size_mset)
  then have lens: "\<forall>w \<in> set (zs @ xs). length w = q" using len ss by auto
  have q: "length ((zs @ xs) ! 0) = q" using lens ne cnt ss by (metis length_map length_greater_0_conv nth_mem)
  note mark = mark_words_mat [OF is_mat_new _ lens]
  show ?Z
    using ne unfolding to_parity_matrix_def Let_def ss cz q
    by (auto simp: mark intro!: mat_eqI [of _ "length zs" q] simp: mat_simps nth_append)
  show ?X
    using ne unfolding to_parity_matrix_def Let_def ss cz q
    by (auto simp: mark intro!: mat_eqI [of _ "length xs" q] simp: mat_simps nth_append)
  show ?XZ
    using ne unfolding to_parity_matrix_def Let_def ss cz q
    by (auto simp: mark mark_words_mat [OF is_mat_mk_mat _ lens] intro!: mat_eqI [of _ "length zs + length xs" "2 * q"]
        simp: mat_simps nth_append)
qed

lemma z_rows_sorted:
  assumes "sorts spinOpComparatorStr srt"
  shows "sorted (map word_pos (z_rows srt ws))"
proof -
  have "sorted_by spinOpComparatorStr (z_rows srt ws)"
    using assms unfolding z_rows_def sorts_def by (auto intro: sorted_wrt_filter)
  then show ?thesis
    by (auto simp: sorted_wrt_map z_rows_def spinOpComparatorStr_iff word_class_def elim!: sorted_wrt_mono_rel [rotated])
qed

lemma x_rows_sorted:
  assumes "sorts spinOpComparatorStr srt" "\<forall>w \<in> set ws. has_z w \<or> CHR ''X'' \<in> set w"
  shows "sorted (map word_pos (x_rows srt ws))"
proof -
  have set: "set (srt ws) = set ws" using assms(1) unfolding sorts_def by (metis set_mset_mset)
  have "sorted_by spinOpComparatorStr (x_rows srt ws)"
    using assms(1) unfolding x_rows_def sorts_def by (auto intro: sorted_wrt_filter)
  then show ?thesis
    using assms(2) set
    by (auto simp: sorted_wrt_map x_rows_def spinOpComparatorStr_iff word_class_def split: if_splits
        elim!: sorted_wrt_mono_rel [rotated])
qed

section \<open>Property\<close>

text \<open>
  C39: For words of one length, each with a Z or an X factor (so neither the identity nor a word with only Y
  factors besides), the parity matrix is the block
  matrix with the Z factors of the words containing a Z in the upper left and the X factors of the
  others in the lower right; the single-type matrices are exactly these blocks (the empty tensor
  when there are no rows). Each block has one row per word, ordered by the position of its first
  factor, however \<open>std::sort\<close> resolves ties.
\<close>

theorem parity_matrix_blocks:
  assumes "sorts spinOpComparatorStr srt" "stabs \<noteq> []" "\<forall>s \<in> set stabs. length (gpw s) = q"
    "\<forall>s \<in> set stabs. has_z (gpw s) \<or> CHR ''X'' \<in> set (gpw s)"
  shows "\<exists>zs xs. mset zs = mset (filter has_z (map gpw stabs)) \<and>
    mset xs = mset (filter (\<lambda>w. \<not> has_z w) (map gpw stabs)) \<and>
    sorted (map word_pos zs) \<and> sorted (map word_pos xs) \<and>
    to_parity_matrix srt gpw stabs Z_type = Inr (if zs = [] then tensor_new []
      else mk_mat (length zs) q (\<lambda>r c. if zs ! r ! c = CHR ''Z'' then 1 else 0)) \<and>
    to_parity_matrix srt gpw stabs X_type = Inr (if xs = [] then tensor_new []
      else mk_mat (length xs) q (\<lambda>r c. if xs ! r ! c = CHR ''X'' then 1 else 0)) \<and>
    to_parity_matrix srt gpw stabs XZ = Inr (mk_mat (length zs + length xs) (2 * q) (\<lambda>r c.
      if r < length zs then (if c < q \<and> zs ! r ! c = CHR ''Z'' then 1 else 0)
      else (if q \<le> c \<and> xs ! (r - length zs) ! (c - q) = CHR ''X'' then 1 else 0)))"
proof (intro exI conjI)
  show "mset (z_rows srt (map gpw stabs)) = mset (filter has_z (map gpw stabs))"
    "mset (x_rows srt (map gpw stabs)) = mset (filter (\<lambda>w. \<not> has_z w) (map gpw stabs))"
    by (rule mset_rows [OF assms(1)])+
  show "sorted (map word_pos (z_rows srt (map gpw stabs)))" by (rule z_rows_sorted [OF assms(1)])
  show "sorted (map word_pos (x_rows srt (map gpw stabs)))"
    using assms(4) by (intro x_rows_sorted [OF assms(1)]) auto
qed (rule parity_matrix_rows [OF assms(1-3)])+

theorem parity_matrix_blocks_witness:
  "\<exists>zs xs. mset zs = {#''ZZI'', ''IZZ''#} \<and> mset xs = {#''XXX''#} \<and>
    to_parity_matrix (std_sort spinOpComparatorStr) (\<lambda>w. w) [''XXX'', ''IZZ'', ''ZZI''] X_type
      = Inr (mk_mat (length xs) 3 (\<lambda>r c. if xs ! r ! c = CHR ''X'' then 1 else 0))"
proof -
  have m: "mset xs = {#''XXX''#} \<Longrightarrow> xs \<noteq> []" for xs :: "string list" by auto
  show ?thesis
    using parity_matrix_blocks [OF sorts_std_sort, of "[''XXX'', ''IZZ'', ''ZZI'']" "\<lambda>w. w" 3] m
    by (auto simp: add_mset_commute)
qed

end
