(* ===== verification/QEC_Surface_Code.thy ===== *)
theory QEC_Surface_Code
  imports QEC_Stabilizers
begin

text \<open>
  The rotated surface code (codes/surface_code.cpp): orientations, the grid of stabilizer sites and
  its roles, coordinates and supports, logical observables, CNOT schedules and the code object.
  The row and column loops with stride \<open>grid_length - 1\<close> are a partial function, because they never
  end for \<open>grid_length = 1\<close>; the constructor is therefore \<open>None\<close> when it does not return. The
  32-bit products of the source are kept (\<open>u32\<close>); coordinates are \<open>int\<close>.
\<close>

section \<open>Orientation\<close>

datatype surface_role = amx | amz | empty

datatype sc_orientation = XV | XH | ZV | ZH

definition is_blank :: "char \<Rightarrow> bool" where
  "is_blank ch \<longleftrightarrow> ch \<in> {CHR '' '', CHR 0x09, CHR 0x0A, CHR 0x0B, CHR 0x0C, CHR 0x0D}"

definition to_upper :: "char \<Rightarrow> char" where
  "to_upper ch = (if 97 \<le> (of_char ch :: nat) \<and> (of_char ch :: nat) \<le> 122
                  then char_of (of_char ch - 32 :: nat) else ch)"

definition normalize_orientation :: "string \<Rightarrow> string" where
  "normalize_orientation s = map to_upper (rev (dropWhile is_blank (rev (dropWhile is_blank s))))"

definition sc_orientation_from_str :: "string \<Rightarrow> sc_orientation res" where
  "sc_orientation_from_str s =
     (let orientation = normalize_orientation s in
      if orientation = ''XV'' \<or> orientation = ''O1'' then Inr XV
      else if orientation = ''XH'' \<or> orientation = ''O2'' then Inr XH
      else if orientation = ''ZV'' \<or> orientation = ''O3'' then Inr ZV
      else if orientation = ''ZH'' \<or> orientation = ''O4'' then Inr ZH
      else Inl (Runtime_error (''Invalid surface-code orientation '' @ [CHR 0x27] @ s @ [CHR 0x27] @
                  ''. Expected XV(O1), XH(O2), ZV(O3), or ZH(O4).'')))"

definition role_for_parity :: "sc_orientation \<Rightarrow> bool \<Rightarrow> surface_role res" where
  "role_for_parity orientation odd_parity =
     (let x_on_even_parity = (orientation = XV \<or> orientation = XH);
          z_on_even_parity = (orientation = ZV \<or> orientation = ZH) in
      if \<not> x_on_even_parity \<and> \<not> z_on_even_parity
      then Inl (Runtime_error ''Unhandled surface-code orientation.'')
      else Inr (if x_on_even_parity \<noteq> odd_parity then amx else amz))"

section \<open>Coordinates\<close>

datatype vec2d = Vec2d (vrow: int) (vcol: int)

definition vec2d_add :: "vec2d \<Rightarrow> vec2d \<Rightarrow> vec2d" where
  "vec2d_add lhs rhs = Vec2d (vrow lhs + vrow rhs) (vcol lhs + vcol rhs)"

definition vec2d_sub :: "vec2d \<Rightarrow> vec2d \<Rightarrow> vec2d" where
  "vec2d_sub lhs rhs = Vec2d (vrow lhs - vrow rhs) (vcol lhs - vcol rhs)"

definition vec2d_less :: "vec2d \<Rightarrow> vec2d \<Rightarrow> bool" where
  "vec2d_less lhs rhs = (if vrow lhs \<noteq> vrow rhs then vrow lhs < vrow rhs else vcol lhs < vcol rhs)"

text \<open>The order \<open>std::map<vec2d, size_t>\<close> uses is a linear order.\<close>

instantiation vec2d :: linorder
begin

definition less_vec2d :: "vec2d \<Rightarrow> vec2d \<Rightarrow> bool" where
  "less_vec2d = vec2d_less"

definition less_eq_vec2d :: "vec2d \<Rightarrow> vec2d \<Rightarrow> bool" where
  "less_eq_vec2d lhs rhs \<longleftrightarrow> lhs = rhs \<or> lhs < rhs"

instance
  by standard (auto simp: less_vec2d_def vec2d_less_def less_eq_vec2d_def vec2d.expand split: if_splits)

end

section \<open>The grid\<close>

record stabilizer_grid =
  distance :: nat
  grid_length :: nat
  orientation :: sc_orientation
  roles :: "surface_role list"
  x_stab_coords :: "vec2d list"
  z_stab_coords :: "vec2d list"
  x_stab_indices :: "vec2d \<rightharpoonup> nat"
  z_stab_indices :: "vec2d \<rightharpoonup> nat"
  data_coords :: "vec2d list"
  data_indices :: "vec2d \<rightharpoonup> nat"
  x_stabilizers :: "nat list list"
  z_stabilizers :: "nat list list"

text \<open>\<open>for (r = r0; r < r1; ++r) for (c = c0; c < c1; ++c)\<close>\<close>

definition cells :: "nat list \<Rightarrow> nat list \<Rightarrow> (nat \<times> nat) list" where
  "cells rows cols = concat (map (\<lambda>r. map (Pair r) cols) rows)"

text \<open>The values \<open>i\<close> takes in \<open>for (; i < n; i += s)\<close>; \<open>None\<close> when the loop does not end.\<close>

partial_function (option) stride_indices :: "nat \<Rightarrow> nat \<Rightarrow> nat \<Rightarrow> nat list option" where
  "stride_indices i n s =
     (if i < n then Option.bind (stride_indices (i + s) n s) (\<lambda>is. Some (i # is)) else Some [])"

declare stride_indices.simps [code]

definition put_role :: "sc_orientation \<Rightarrow> nat \<Rightarrow> nat \<times> nat \<Rightarrow> surface_role list \<Rightarrow> surface_role list res" where
  "put_role orient len rc rs =
     rbind (role_for_parity orient (odd (fst rc + snd rc))) (vset rs (fst rc * len + snd rc))"

definition horizontal_boundaries_use_even_parity :: "sc_orientation \<Rightarrow> bool" where
  "horizontal_boundaries_use_even_parity orient \<longleftrightarrow> orient = XH \<or> orient = ZH"

definition generate_grid_roles :: "nat \<Rightarrow> sc_orientation \<Rightarrow> surface_role list \<Rightarrow> surface_role list res option" where
  "generate_grid_roles len orient rs0 =
     (let inner = [1..<u32_sub len 1];
          h = horizontal_boundaries_use_even_parity orient;
          bulk = rbind (rfold (\<lambda>rc rs. vset rs (fst rc * len + snd rc) empty) (cells [0..<len] [0..<len]) rs0)
                   (rfold (put_role orient len) (cells inner inner))
      in case bulk of
           Inl e \<Rightarrow> Some (Inl e)
         | Inr rs \<Rightarrow> Option.bind (stride_indices 0 len (u32_sub len 1)) (\<lambda>edges. Some (
             rbind (rfold (\<lambda>rc rs. if odd (fst rc + snd rc) \<noteq> h then put_role orient len rc rs else Inr rs)
                      (cells edges inner) rs)
               (rfold (\<lambda>rc rs. if odd (fst rc + snd rc) = h then put_role orient len rc rs else Inr rs)
                      (cells inner edges)))))"

definition push_site :: "nat \<times> nat \<Rightarrow> stabilizer_grid \<Rightarrow> stabilizer_grid res" where
  "push_site rc g =
     (let v = Vec2d (int (fst rc)) (int (snd rc)) in
      rbind (vget (roles g) (fst rc * grid_length g + snd rc)) (\<lambda>role.
        Inr (case role of
          amz \<Rightarrow> g\<lparr>z_stab_coords := z_stab_coords g @ [v],
                   z_stab_indices := (z_stab_indices g)(v \<mapsto> length (z_stab_coords g))\<rparr>
        | amx \<Rightarrow> g\<lparr>x_stab_coords := x_stab_coords g @ [v],
                   x_stab_indices := (x_stab_indices g)(v \<mapsto> length (x_stab_coords g))\<rparr>
        | empty \<Rightarrow> g)))"

definition push_data :: "nat \<times> nat \<Rightarrow> stabilizer_grid \<Rightarrow> stabilizer_grid" where
  "push_data rc g =
     (let v = Vec2d (int (fst rc)) (int (snd rc)) in
      g\<lparr>data_coords := data_coords g @ [v],
        data_indices := (data_indices g)(v \<mapsto> fst rc * distance g + snd rc)\<rparr>)"

definition generate_grid_indices :: "stabilizer_grid \<Rightarrow> stabilizer_grid res" where
  "generate_grid_indices g =
     rbind (rfold push_site (cells [0..<grid_length g] [0..<grid_length g]) g) (\<lambda>g1.
       Inr (fold push_data (cells [0..<distance g] [0..<distance g]) g1))"

definition stabilizer_support :: "(vec2d \<rightharpoonup> nat) \<Rightarrow> vec2d \<Rightarrow> nat list" where
  "stabilizer_support indices v =
     sort (concat (map (\<lambda>row_offset. concat (map (\<lambda>col_offset.
       (case indices (Vec2d (vrow v + row_offset) (vcol v + col_offset)) of Some i \<Rightarrow> [i] | None \<Rightarrow> []))
       [-1, 0])) [-1, 0]))"

definition generate_stabilizers :: "stabilizer_grid \<Rightarrow> stabilizer_grid" where
  "generate_stabilizers g =
     (let g1 = g\<lparr>x_stabilizers := x_stabilizers g @ map (stabilizer_support (data_indices g)) (x_stab_coords g)\<rparr>
      in g1\<lparr>z_stabilizers := z_stabilizers g1 @ map (stabilizer_support (data_indices g1)) (z_stab_coords g1)\<rparr>)"

definition stabilizer_grid_new :: "nat \<Rightarrow> sc_orientation \<Rightarrow> stabilizer_grid res option" where
  "stabilizer_grid_new d_in orient =
     (let len = u32 (d_in + 1);
          g0 = \<lparr>distance = d_in, grid_length = len, orientation = orient, roles = replicate (u32 (len * len)) amx,
                x_stab_coords = [], z_stab_coords = [], x_stab_indices = Map.empty, z_stab_indices = Map.empty,
                data_coords = [], data_indices = Map.empty, x_stabilizers = [], z_stabilizers = []\<rparr>
      in Option.bind (generate_grid_roles len orient (roles g0)) (\<lambda>rres. Some (
           rbind rres (\<lambda>rs. rbind (generate_grid_indices (g0\<lparr>roles := rs\<rparr>)) (\<lambda>g. Inr (generate_stabilizers g))))))"

section \<open>Pauli words of stabilizers and observables\<close>

definition mark_word :: "nat \<Rightarrow> char \<Rightarrow> nat list \<Rightarrow> string res" where
  "mark_word n ch elems = rfold (\<lambda>e s. vset s e ch) elems (replicate n CHR ''I'')"

definition get_spin_op_stabilizers :: "(string \<Rightarrow> 'op) \<Rightarrow> stabilizer_grid \<Rightarrow> 'op list res" where
  "get_spin_op_stabilizers from_word g =
     rbind (rmap (\<lambda>st. rbind (mark_word (length (data_coords g)) CHR ''X'' st) (\<lambda>w. Inr (from_word w))) (x_stabilizers g)) (\<lambda>xs.
     rbind (rmap (\<lambda>st. rbind (mark_word (length (data_coords g)) CHR ''Z'' st) (\<lambda>w. Inr (from_word w))) (z_stabilizers g)) (\<lambda>zs.
       Inr (xs @ zs)))"

definition x_logical_on_top_row :: "sc_orientation \<Rightarrow> bool" where
  "x_logical_on_top_row orient \<longleftrightarrow> orient = XV \<or> orient = ZH"

definition get_spin_op_observables :: "(string \<Rightarrow> 'op) \<Rightarrow> stabilizer_grid \<Rightarrow> 'op list res option" where
  "get_spin_op_observables from_word g =
     Option.bind (stride_indices 0 (length (data_coords g)) (distance g)) (\<lambda>left_col. Some (
       let n = length (data_coords g); top_row = [0..<distance g] in
       if x_logical_on_top_row (orientation g)
       then rbind (mark_word n CHR ''X'' top_row) (\<lambda>top_row_obs.
            rbind (mark_word n CHR ''Z'' left_col) (\<lambda>left_col_obs.
              Inr [from_word top_row_obs, from_word left_col_obs]))
       else rbind (mark_word n CHR ''X'' left_col) (\<lambda>left_col_obs.
            rbind (mark_word n CHR ''Z'' top_row) (\<lambda>top_row_obs.
              Inr [from_word left_col_obs, from_word top_row_obs]))))"

section \<open>CNOT schedules\<close>

definition row_major_order :: "(int \<times> int) list" where
  "row_major_order = [(-1, -1), (-1, 0), (0, -1), (0, 0)]"

definition col_major_order :: "(int \<times> int) list" where
  "col_major_order = [(-1, -1), (0, -1), (-1, 0), (0, 0)]"

definition schedule_row :: "(vec2d \<rightharpoonup> nat) \<Rightarrow> nat \<Rightarrow> (int \<times> int) list \<Rightarrow> vec2d \<Rightarrow> u8 list res" where
  "schedule_row indices num_data order sc =
     rfold (\<lambda>step row.
       (case indices (Vec2d (vrow sc + fst (order ! step)) (vcol sc + snd (order ! step))) of
          Some i \<Rightarrow> vset row i (of_nat (step + 1))
        | None \<Rightarrow> Inr row)) [0..<4] (replicate num_data 0)"

definition first_support :: "u8 list \<Rightarrow> nat" where
  "first_support row = length (takeWhile (\<lambda>v. v = 0) row)"

definition build_cnot_schedule :: "vec2d list \<Rightarrow> (vec2d \<rightharpoonup> nat) \<Rightarrow> nat \<Rightarrow> bool \<Rightarrow> u8 tensor res" where
  "build_cnot_schedule stab_coords indices num_data use_col_major_order =
     (let order = (if use_col_major_order then col_major_order else row_major_order) in
      rbind (rmap (schedule_row indices num_data order) stab_coords) (\<lambda>rows.
      let keyed = std_sort pair_less (map (\<lambda>r. (first_support (rows ! r), r)) [0..<length rows]) in
      if list_ex (\<lambda>r. fst (keyed ! r) = fst (keyed ! (r - 1))) [1..<length keyed]
      then Inl (Runtime_error (''surface-code CNOT schedule: two same-type stabilizers share their first supported data qubit, so the schedule rows cannot be aligned with the parity-matrix rows.''))
      else rfold (\<lambda>r. rfold (\<lambda>c t. rbind (vget (rows ! snd (keyed ! r)) c) (\<lambda>v. tensor_set t [r, c] v)) [0..<num_data])
             [0..<length rows] (tensor_new [length rows, num_data])))"

definition get_cnot_schedule_x :: "stabilizer_grid \<Rightarrow> u8 tensor res" where
  "get_cnot_schedule_x g =
     build_cnot_schedule (x_stab_coords g) (data_indices g) (u32 (distance g * distance g))
       (x_logical_on_top_row (orientation g))"

definition get_cnot_schedule_z :: "stabilizer_grid \<Rightarrow> u8 tensor res" where
  "get_cnot_schedule_z g =
     build_cnot_schedule (z_stab_coords g) (data_indices g) (u32 (distance g * distance g))
       (\<not> x_logical_on_top_row (orientation g))"

definition step_less :: "u8 \<times> nat \<Rightarrow> u8 \<times> nat \<Rightarrow> bool" where
  "step_less a b \<longleftrightarrow> fst a < fst b \<or> fst a = fst b \<and> snd a < snd b"

definition schedule_to_pairs :: "u8 tensor \<Rightarrow> nat list res" where
  "schedule_to_pairs sched =
     rbind (vget (shape sched) 0) (\<lambda>num_stabs. rbind (vget (shape sched) 1) (\<lambda>num_data.
       rfold (\<lambda>s pairs.
         rbind (rfold (\<lambda>d row. rbind (tensor_at sched [s, d]) (\<lambda>v. Inr (if v \<noteq> 0 then row @ [(v, d)] else row)))
                  [0..<num_data] []) (\<lambda>row.
           Inr (pairs @ concat (map (\<lambda>p. [s, snd p]) (std_sort step_less row)))))
         [0..<num_stabs] []))"

definition get_cnot_schedule_pairs_x :: "stabilizer_grid \<Rightarrow> nat list res" where
  "get_cnot_schedule_pairs_x g = rbind (get_cnot_schedule_x g) schedule_to_pairs"

definition get_cnot_schedule_pairs_z :: "stabilizer_grid \<Rightarrow> nat list res" where
  "get_cnot_schedule_pairs_z g = rbind (get_cnot_schedule_z g) schedule_to_pairs"

section \<open>The code object\<close>

record 'op surface_code = "'op code" +
  code_distance :: nat
  grid :: stabilizer_grid

text \<open>
  The constructor reads the entries \<open>distance\<close> and \<open>orientation\<close> of the option map; the table of
  device kernels it registers is not part of the model.
\<close>

definition surface_code_new ::
  "(string \<Rightarrow> 'op) \<Rightarrow> ('op list \<Rightarrow> 'op list) \<Rightarrow> nat option \<Rightarrow> string option \<Rightarrow> 'op surface_code res option" where
  "surface_code_new from_word srt_ops dist_opt orient_opt =
     (case dist_opt of
        None \<Rightarrow> Some (Inl (Runtime_error ''[surface_code] distance not provided. distance must be provided via qec::get_code(..., options) options map.''))
      | Some d_in \<Rightarrow>
         (case sc_orientation_from_str (case orient_opt of Some s \<Rightarrow> s | None \<Rightarrow> ''ZH'') of
            Inl e \<Rightarrow> Some (Inl e)
          | Inr orient \<Rightarrow>
             Option.bind (stabilizer_grid_new (u32 d_in) orient) (\<lambda>gres.
               case gres of
                 Inl e \<Rightarrow> Some (Inl e)
               | Inr g \<Rightarrow>
                  (case get_spin_op_stabilizers from_word g of
                     Inl e \<Rightarrow> Some (Inl e)
                   | Inr stabs \<Rightarrow>
                      Option.bind (get_spin_op_observables from_word g) (\<lambda>ores. Some (
                        rbind ores (\<lambda>obs. Inr \<lparr>m_stabilizers = sortStabilizerOps srt_ops stabs,
                          m_pauli_observables = sortStabilizerOps srt_ops obs, code_distance = d_in, grid = g\<rparr>)))))))"

definition get_num_data_qubits :: "'op surface_code \<Rightarrow> nat" where
  "get_num_data_qubits q = code_distance q * code_distance q"

definition get_num_ancilla_qubits :: "'op surface_code \<Rightarrow> nat" where
  "get_num_ancilla_qubits q = sz_sub (code_distance q * code_distance q) 1"

definition get_num_ancilla_x_qubits :: "'op surface_code \<Rightarrow> nat" where
  "get_num_ancilla_x_qubits q = sz_sub (code_distance q * code_distance q) 1 div 2"

definition get_num_ancilla_z_qubits :: "'op surface_code \<Rightarrow> nat" where
  "get_num_ancilla_z_qubits q = sz_sub (code_distance q * code_distance q) 1 div 2"

definition get_num_x_stabilizers :: "'op surface_code \<Rightarrow> nat" where
  "get_num_x_stabilizers q = sz_sub (code_distance q * code_distance q) 1 div 2"

definition get_num_z_stabilizers :: "'op surface_code \<Rightarrow> nat" where
  "get_num_z_stabilizers q = sz_sub (code_distance q * code_distance q) 1 div 2"

definition get_stabilizer_schedule_x :: "'op surface_code \<Rightarrow> u8 tensor res" where
  "get_stabilizer_schedule_x q = get_cnot_schedule_x (grid q)"

definition get_stabilizer_schedule_z :: "'op surface_code \<Rightarrow> u8 tensor res" where
  "get_stabilizer_schedule_z q = get_cnot_schedule_z (grid q)"


section \<open>Closed form of the grid\<close>

definition vec :: "nat \<times> nat \<Rightarrow> vec2d" where
  "vec rc = Vec2d (int (fst rc)) (int (snd rc))"

definition parity_role :: "sc_orientation \<Rightarrow> bool \<Rightarrow> surface_role" where
  "parity_role orient odd_parity = (if (orient = XV \<or> orient = XH) \<noteq> odd_parity then amx else amz)"

text \<open>
  The sites that carry a stabilizer: the interior, on the top and bottom edge one parity class, on
  the left and right edge the other.
\<close>

definition is_site :: "sc_orientation \<Rightarrow> nat \<Rightarrow> nat \<Rightarrow> nat \<Rightarrow> bool" where
  "is_site orient d r c \<longleftrightarrow>
     0 < r \<and> r < d \<and> 0 < c \<and> c < d \<or>
     (r = 0 \<or> r = d) \<and> 0 < c \<and> c < d \<and> odd (r + c) \<noteq> horizontal_boundaries_use_even_parity orient \<or>
     (c = 0 \<or> c = d) \<and> 0 < r \<and> r < d \<and> odd (r + c) = horizontal_boundaries_use_even_parity orient"

definition site_role :: "sc_orientation \<Rightarrow> nat \<Rightarrow> nat \<Rightarrow> nat \<Rightarrow> surface_role" where
  "site_role orient d r c = (if is_site orient d r c then parity_role orient (odd (r + c)) else empty)"

definition sites :: "sc_orientation \<Rightarrow> nat \<Rightarrow> surface_role \<Rightarrow> (nat \<times> nat) list" where
  "sites orient d role = filter (\<lambda>rc. site_role orient d (fst rc) (snd rc) = role) (cells [0..<d + 1] [0..<d + 1])"

definition data_ix :: "nat \<Rightarrow> vec2d \<rightharpoonup> nat" where
  "data_ix d v = (if 0 \<le> vrow v \<and> vrow v < int d \<and> 0 \<le> vcol v \<and> vcol v < int d
                  then Some (nat (vrow v) * d + nat (vcol v)) else None)"

definition index_map :: "vec2d list \<Rightarrow> vec2d \<rightharpoonup> nat" where
  "index_map vs = map_of (rev (zip vs [0..<length vs]))"

definition grid_of :: "sc_orientation \<Rightarrow> nat \<Rightarrow> stabilizer_grid" where
  "grid_of orient d =
     \<lparr>distance = d, grid_length = d + 1, orientation = orient,
      roles = map (\<lambda>rc. site_role orient d (fst rc) (snd rc)) (cells [0..<d + 1] [0..<d + 1]),
      x_stab_coords = map vec (sites orient d amx), z_stab_coords = map vec (sites orient d amz),
      x_stab_indices = index_map (map vec (sites orient d amx)),
      z_stab_indices = index_map (map vec (sites orient d amz)),
      data_coords = map vec (cells [0..<d] [0..<d]), data_indices = data_ix d,
      x_stabilizers = map (\<lambda>rc. stabilizer_support (data_ix d) (vec rc)) (sites orient d amx),
      z_stabilizers = map (\<lambda>rc. stabilizer_support (data_ix d) (vec rc)) (sites orient d amz)\<rparr>"

text \<open>Distances for which the 32-bit size of the role table does not wrap.\<close>

definition valid_distance :: "nat \<Rightarrow> bool" where
  "valid_distance d \<longleftrightarrow> 0 < d \<and> (d + 1) * (d + 1) \<le> max_u32"

lemma role_for_parity_eq: "role_for_parity orient b = Inr (parity_role orient b)"
  by (cases orient) (simp_all add: role_for_parity_def parity_role_def)

lemma set_cells [simp]: "set (cells rows cols) = set rows \<times> set cols"
  by (auto simp: cells_def)

lemma distinct_cells: "distinct rows \<Longrightarrow> distinct cols \<Longrightarrow> distinct (cells rows cols)"
  by (induction rows) (auto simp: cells_def distinct_map inj_on_def)

lemma length_cells [simp]: "length (cells rows cols) = length rows * length cols"
  by (induction rows) (auto simp: cells_def)

lemma nth_cells: "r < m \<Longrightarrow> c < n \<Longrightarrow> cells [0..<m] [0..<n] ! (r * n + c) = (r, c)"
proof (induction m)
  case (Suc m)
  have split: "cells [0..<Suc m] cs = cells [0..<m] cs @ map (Pair m) cs" for cs :: "nat list" by (simp add: cells_def)
  show ?case
  proof (cases "r = m")
    case True
    then show ?thesis using Suc.prems by (simp add: split nth_append del: upt_Suc)
  next
    case False
    then show ?thesis using Suc cell_bound [of r m c n] by (simp add: split nth_append del: upt_Suc)
  qed
qed simp

lemma vec_eq [simp]: "vec a = vec b \<longleftrightarrow> a = b"
  by (auto simp: vec_def prod_eq_iff)

lemma stride_end: "n \<le> i \<Longrightarrow> stride_indices i n s = Some []"
  by (simp add: stride_indices.simps)

lemma stride_edges: "0 < d \<Longrightarrow> stride_indices 0 (d + 1) d = Some [0, d]"
  by (simp add: stride_indices.simps [of 0] stride_indices.simps [of d] stride_end)

lemma stride_stuck:
  assumes "stride_indices i n s = Some xs"
  shows "s = 0 \<longrightarrow> n \<le> i"
  using assms
proof (rule stride_indices.raw_induct [rotated])
  fix f :: "nat \<Rightarrow> nat \<Rightarrow> nat \<Rightarrow> nat list option" and i n s xs
  assume f: "\<And>i n s ys. f i n s = Some ys \<Longrightarrow> s = 0 \<longrightarrow> n \<le> i"
    and "(if i < n then Option.bind (f (i + s) n s) (\<lambda>is. Some (i # is)) else Some []) = Some xs"
  then show "s = 0 \<longrightarrow> n \<le> i" using f [of "i + s" n s] by (auto split: if_splits bind_splits)
qed

text \<open>A loop that writes roles cell by cell.\<close>

lemma role_loop:
  assumes "length rs = m * m" "\<forall>rc \<in> set ks. fst rc < m \<and> snd rc < m"
    "\<And>rc rs. rc \<in> set ks \<Longrightarrow> f rc rs = (if P rc then vset rs (fst rc * m + snd rc) (w rc) else Inr rs)"
  shows "\<exists>rs'. rfold f ks rs = Inr rs' \<and> length rs' = m * m \<and>
    (\<forall>r < m. \<forall>c < m. rs' ! (r * m + c) = (if (r, c) \<in> set ks \<and> P (r, c) then w (r, c) else rs ! (r * m + c)))"
  using assms
proof (induction ks arbitrary: rs)
  case (Cons k ks)
  define rs1 where "rs1 = (if P k then rs[fst k * m + snd k := w k] else rs)"
  have k: "fst k < m" "snd k < m" using Cons.prems(2) by auto
  then have "f k rs = Inr rs1" and len: "length rs1 = m * m"
    using Cons.prems(1,3) cell_bound [OF k] by (simp_all add: rs1_def)
  moreover obtain rs' where rs': "rfold f ks rs1 = Inr rs'" "length rs' = m * m"
    "\<forall>r < m. \<forall>c < m. rs' ! (r * m + c) = (if (r, c) \<in> set ks \<and> P (r, c) then w (r, c) else rs1 ! (r * m + c))"
    using Cons.IH [OF len] Cons.prems(2,3) by auto
  moreover have "rs1 ! (r * m + c) = (if (r, c) = k \<and> P k then w k else rs ! (r * m + c))" if "r < m" "c < m" for r c
    using cell_inj [of "snd k" m c "fst k" r] k that Cons.prems(1) cell_bound [OF k]
    by (cases k) (auto simp: rs1_def nth_list_update)
  ultimately show ?case by auto
qed auto

lemma generate_grid_roles_cells:
  assumes m: "m = d + 1" "0 < d" "u32_sub m 1 = d" and len: "length rs0 = m * m"
  shows "\<exists>rs. generate_grid_roles m orient rs0 = Some (Inr rs) \<and> length rs = m * m \<and>
    (\<forall>r < m. \<forall>c < m. rs ! (r * m + c) = site_role orient d r c)"
proof -
  let ?h = "horizontal_boundaries_use_even_parity orient" and ?inner = "[1..<d]"
  define w where "w = (\<lambda>rc :: nat \<times> nat. parity_role orient (odd (fst rc + snd rc)))"
  have put: "put_role orient m rc rs = vset rs (fst rc * m + snd rc) (w rc)" for rc rs
    by (simp add: put_role_def role_for_parity_eq w_def)
  have in_grid: "\<forall>rc \<in> set (cells ?inner ?inner). fst rc < m \<and> snd rc < m"
    "\<forall>rc \<in> set (cells [0, d] ?inner). fst rc < m \<and> snd rc < m"
    "\<forall>rc \<in> set (cells ?inner [0, d]). fst rc < m \<and> snd rc < m"
    "\<forall>rc \<in> set (cells [0..<m] [0..<m]). fst rc < m \<and> snd rc < m"
    using m by auto
  from role_loop [OF len in_grid(4), of "\<lambda>rc rs. vset rs (fst rc * m + snd rc) empty" "\<lambda>_. True" "\<lambda>_. empty"]
  obtain rs1 where rs1: "rfold (\<lambda>rc rs. vset rs (fst rc * m + snd rc) empty) (cells [0..<m] [0..<m]) rs0 = Inr rs1"
      "length rs1 = m * m" "\<forall>r < m. \<forall>c < m. rs1 ! (r * m + c) = empty"
    by auto
  from role_loop [OF rs1(2) in_grid(1), of "put_role orient m" "\<lambda>_. True" w]
  obtain rs2 where rs2: "rfold (put_role orient m) (cells ?inner ?inner) rs1 = Inr rs2" "length rs2 = m * m"
      "\<forall>r < m. \<forall>c < m. rs2 ! (r * m + c) = (if (r, c) \<in> set (cells ?inner ?inner) then w (r, c) else rs1 ! (r * m + c))"
    by (auto simp: put)
  let ?tb = "\<lambda>rc rs. if odd (fst rc + snd rc) \<noteq> ?h then put_role orient m rc rs else Inr rs"
  from role_loop [OF rs2(2) in_grid(2), of ?tb "\<lambda>rc. odd (fst rc + snd rc) \<noteq> ?h" w]
  obtain rs3 where rs3: "rfold ?tb (cells [0, d] ?inner) rs2 = Inr rs3" "length rs3 = m * m"
      "\<forall>r < m. \<forall>c < m. rs3 ! (r * m + c) =
        (if (r, c) \<in> set (cells [0, d] ?inner) \<and> odd (r + c) \<noteq> ?h then w (r, c) else rs2 ! (r * m + c))"
    unfolding put by auto
  let ?lr = "\<lambda>rc rs. if odd (fst rc + snd rc) = ?h then put_role orient m rc rs else Inr rs"
  from role_loop [OF rs3(2) in_grid(3), of ?lr "\<lambda>rc. odd (fst rc + snd rc) = ?h" w]
  obtain rs4 where rs4: "rfold ?lr (cells ?inner [0, d]) rs3 = Inr rs4" "length rs4 = m * m"
      "\<forall>r < m. \<forall>c < m. rs4 ! (r * m + c) =
        (if (r, c) \<in> set (cells ?inner [0, d]) \<and> odd (r + c) = ?h then w (r, c) else rs3 ! (r * m + c))"
    unfolding put by auto
  have "rs4 ! (r * m + c) = site_role orient d r c" if "r < m" "c < m" for r c
    using rs1(3) rs2(3) rs3(3) rs4(3) that by (auto simp: site_role_def is_site_def w_def)
  moreover have "generate_grid_roles m orient rs0 = Some (Inr rs4)"
    unfolding generate_grid_roles_def Let_def m(3) using rs1(1) rs2(1) rs3(1) rs4(1) stride_edges [OF m(2)] m(1)
    by simp
  ultimately show ?thesis using rs4(2) by blast
qed

lemma generate_grid_roles_eq:
  assumes "valid_distance d" "length rs0 = (d + 1) * (d + 1)"
  shows "generate_grid_roles (d + 1) orient rs0 = Some (Inr (roles (grid_of orient d)))"
proof -
  define m where "m = d + 1"
  have "(d + 1) * 1 \<le> (d + 1) * (d + 1)" by (rule mult_le_mono2) simp
  then have d: "0 < d" "u32_sub m 1 = d" "length rs0 = m * m"
    using assms u32_sub_id [of 1 m] by (simp_all add: valid_distance_def m_def)
  obtain rs where rs: "generate_grid_roles m orient rs0 = Some (Inr rs)" "length rs = m * m"
    "\<forall>r < m. \<forall>c < m. rs ! (r * m + c) = site_role orient d r c"
    using generate_grid_roles_cells [OF m_def d] by blast
  have "rs = map (\<lambda>rc. site_role orient d (fst rc) (snd rc)) (cells [0..<m] [0..<m])"
  proof (rule nth_equalityI)
    fix k assume k: "k < length rs"
    then have "k div m < m" "k mod m < m" using rs(2) by (simp_all add: less_mult_imp_div_less m_def)
    from rs(3) nth_cells [OF this] this show "rs ! k = map (\<lambda>rc. site_role orient d (fst rc) (snd rc)) (cells [0..<m] [0..<m]) ! k"
      using k rs(2) by (metis div_mult_mod_eq fst_conv length_cells length_upt minus_nat.diff_0 nth_map snd_conv)
  qed (simp add: rs(2))
  then show ?thesis using rs(1) by (simp add: grid_of_def m_def)
qed


lemma index_map_snoc: "index_map (vs @ [v]) = (index_map vs)(v \<mapsto> length vs)"
  by (simp add: index_map_def)

lemma index_map_lookup:
  assumes "distinct vs"
  shows "index_map vs v = Some i \<longleftrightarrow> i < length vs \<and> vs ! i = v"
  using assms
proof (induction vs rule: rev_induct)
  case (snoc x vs)
  then show ?case by (auto simp: index_map_snoc nth_append less_Suc_eq)
qed (simp add: index_map_def)

lemma push_sites:
  assumes "\<forall>rc \<in> set ks. fst rc * grid_length g + snd rc < length (roles g) \<and>
      roles g ! (fst rc * grid_length g + snd rc) = f (fst rc) (snd rc)"
    "x_stab_coords g = []" "z_stab_coords g = []" "x_stab_indices g = Map.empty" "z_stab_indices g = Map.empty"
  shows "rfold push_site ks g = Inr (g\<lparr>
      x_stab_coords := map vec (filter (\<lambda>rc. f (fst rc) (snd rc) = amx) ks),
      z_stab_coords := map vec (filter (\<lambda>rc. f (fst rc) (snd rc) = amz) ks),
      x_stab_indices := index_map (map vec (filter (\<lambda>rc. f (fst rc) (snd rc) = amx) ks)),
      z_stab_indices := index_map (map vec (filter (\<lambda>rc. f (fst rc) (snd rc) = amz) ks))\<rparr>)"
  using assms
proof (induction ks rule: rev_induct)
  case Nil
  then show ?case by (simp add: index_map_def)
next
  case (snoc k ks)
  then show ?case
    by (cases g; cases "f (fst k) (snd k)") (simp_all add: rfold_append push_site_def Let_def index_map_snoc fun_upd_def flip: vec_def)
qed

lemma push_datas:
  "fold push_data ks g = g\<lparr>data_coords := data_coords g @ map vec ks,
     data_indices := (\<lambda>v. if v \<in> vec ` set ks then Some (nat (vrow v) * distance g + nat (vcol v)) else data_indices g v)\<rparr>"
proof (induction ks arbitrary: g)
  case (Cons k ks)
  show ?case
    unfolding fold_simps comp_apply Cons
    by (intro stabilizer_grid.equality) (auto simp: push_data_def Let_def vec_def fun_eq_iff)
qed simp

lemma data_ix_eq: "(\<lambda>v. if v \<in> vec ` set (cells [0..<d] [0..<d]) then Some (nat (vrow v) * d + nat (vcol v)) else None) = data_ix d"
proof
  fix v
  have "v \<in> vec ` set (cells [0..<d] [0..<d]) \<longleftrightarrow> 0 \<le> vrow v \<and> vrow v < int d \<and> 0 \<le> vcol v \<and> vcol v < int d"
  proof (cases v)
    case (Vec2d r c)
    have "v \<in> vec ` set (cells [0..<d] [0..<d])" if "0 \<le> r" "r < int d" "0 \<le> c" "c < int d"
      by (rule image_eqI [of _ _ "(nat r, nat c)"]) (use that Vec2d in \<open>auto simp: vec_def\<close>)
    then show ?thesis using Vec2d by (auto simp: vec_def)
  qed
  then show "(if v \<in> vec ` set (cells [0..<d] [0..<d]) then Some (nat (vrow v) * d + nat (vcol v)) else None) = data_ix d v"
    by (simp add: data_ix_def)
qed

theorem stabilizer_grid_new_eq:
  assumes "valid_distance d"
  shows "stabilizer_grid_new d orient = Some (Inr (grid_of orient d))"
proof -
  have "(d + 1) * 1 \<le> (d + 1) * (d + 1)" by (rule mult_le_mono2) simp
  then have u: "u32 (d + 1) = d + 1" "u32 ((d + 1) * (d + 1)) = (d + 1) * (d + 1)"
    using assms by (simp_all add: valid_distance_def)
  define rs where "rs = map (\<lambda>rc. site_role orient d (fst rc) (snd rc)) (cells [0..<d + 1] [0..<d + 1])"
  define g0 where "g0 = \<lparr>distance = d, grid_length = d + 1, orientation = orient, roles = rs,
      x_stab_coords = [], z_stab_coords = [], x_stab_indices = Map.empty, z_stab_indices = Map.empty,
      data_coords = [], data_indices = Map.empty, x_stabilizers = [], z_stabilizers = []\<rparr>"
  have cell: "\<forall>rc \<in> set (cells [0..<d + 1] [0..<d + 1]). fst rc * (d + 1) + snd rc < length rs \<and>
      rs ! (fst rc * (d + 1) + snd rc) = site_role orient d (fst rc) (snd rc)"
  proof
    fix rc assume "rc \<in> set (cells [0..<d + 1] [0..<d + 1])"
    then have "fst rc < d + 1" "snd rc < d + 1" by (auto simp del: upt_Suc)
    from cell_bound [OF this] nth_cells [OF this]
    show "fst rc * (d + 1) + snd rc < length rs \<and> rs ! (fst rc * (d + 1) + snd rc) = site_role orient d (fst rc) (snd rc)"
      unfolding rs_def by (simp del: upt_Suc)
  qed
  have "generate_grid_indices g0 = Inr (grid_of orient d\<lparr>x_stabilizers := [], z_stabilizers := []\<rparr>)"
    unfolding generate_grid_indices_def
    by (subst push_sites [where f = "site_role orient d"])
      (use cell in \<open>auto simp: g0_def push_datas grid_of_def data_ix_eq sites_def rs_def comp_def cong: if_cong simp del: set_cells upt_Suc\<close>)
  moreover have "generate_stabilizers (grid_of orient d\<lparr>x_stabilizers := [], z_stabilizers := []\<rparr>) = grid_of orient d"
    by (simp add: generate_stabilizers_def Let_def grid_of_def comp_def)
  moreover have "generate_grid_roles (d + 1) orient (replicate ((d + 1) * (d + 1)) amx) = Some (Inr rs)"
    using generate_grid_roles_eq [OF assms, of "replicate ((d + 1) * (d + 1)) amx" orient]
    by (simp add: grid_of_def rs_def)
  ultimately show ?thesis
    unfolding stabilizer_grid_new_def Let_def u by (simp add: g0_def)
qed

text \<open>For distance 0 the constructor does not return.\<close>

lemma stabilizer_grid_new_0: "stabilizer_grid_new 0 orient = None"
proof -
  have "stride_indices 0 1 0 = None" using stride_stuck [of 0 1 0] by (cases "stride_indices 0 1 0") auto
  then show ?thesis
    by (simp add: stabilizer_grid_new_def generate_grid_roles_def Let_def u32_sub_id cells_def max_u32_def)
qed

end
