(* ===== verification/QEC_Surface_Theorems.thy ===== *)
theory QEC_Surface_Theorems
  imports QEC_Surface_Code
begin

text \<open>
  Properties of the surface code built on the closed form \<open>grid_of\<close>: it is a stabilizer code with a
  logical pair, it has the number of stabilizers it declares for odd distances, and its CNOT
  schedules are aligned with the parity matrices and free of conflicts.
\<close>

section \<open>Supports as products of intervals\<close>

definition span :: "nat \<Rightarrow> nat \<Rightarrow> nat set" where
  "span d r = {i. i < d \<and> (i = r \<or> Suc i = r)}"

definition ix :: "nat \<Rightarrow> nat \<times> nat \<Rightarrow> nat" where
  "ix d ij = fst ij * d + snd ij"

definition supp :: "nat \<Rightarrow> nat \<times> nat \<Rightarrow> nat set" where
  "supp d rc = ix d ` (span d (fst rc) \<times> span d (snd rc))"

lemma data_ix_Some:
  "data_ix d v = Some q \<longleftrightarrow> (\<exists>i j. i < d \<and> j < d \<and> v = vec (i, j) \<and> q = ix d (i, j))"
proof
  assume "data_ix d v = Some q"
  then show "\<exists>i j. i < d \<and> j < d \<and> v = vec (i, j) \<and> q = ix d (i, j)"
    by (intro exI [of _ "nat (vrow v)"] exI [of _ "nat (vcol v)"])
      (auto simp: data_ix_def vec_def ix_def vec2d.expand split: if_splits)
qed (auto simp: data_ix_def vec_def ix_def)

lemma ix_inj: "inj_on (ix d) ({..<d} \<times> {..<d})"
  by (auto simp: inj_on_def ix_def cell_inj)

lemma ix_less: "i < d \<Longrightarrow> j < d \<Longrightarrow> ix d (i, j) < d * d"
  using cell_bound [of i d j d] by (simp add: ix_def)

lemma data_ix_inj: "data_ix d v = Some q \<Longrightarrow> data_ix d v' = Some q \<Longrightarrow> v = v'"
  using ix_inj [of d] by (auto simp: data_ix_Some inj_on_def)

lemma span_subset: "span d r \<subseteq> {..<d}"
  by (auto simp: span_def)

lemma finite_span [simp]: "finite (span d r)"
  by (rule finite_subset [OF span_subset]) simp

lemma span_offset: "i < d \<and> (\<exists>a \<in> {-1, 0}. int r + a = int i) \<longleftrightarrow> i \<in> span d r"
  by (auto simp: span_def)

lemma support_offsets:
  "(\<exists>a \<in> A. \<exists>b \<in> B. data_ix d (Vec2d (x + a) (y + b)) = Some q) \<longleftrightarrow>
   (\<exists>i j. (i < d \<and> (\<exists>a \<in> A. x + a = int i)) \<and> (j < d \<and> (\<exists>b \<in> B. y + b = int j)) \<and> q = ix d (i, j))"
  unfolding data_ix_Some vec_def fst_conv snd_conv vec2d.inject by metis

lemma set_support: "set (stabilizer_support (data_ix d) (vec rc)) = supp d rc"
proof (rule set_eqI)
  fix q
  have "q \<in> set (stabilizer_support (data_ix d) (vec rc)) \<longleftrightarrow>
      (\<exists>a \<in> {-1, 0}. \<exists>b \<in> {-1, 0}. data_ix d (Vec2d (int (fst rc) + a) (int (snd rc) + b)) = Some q)"
    by (auto simp: stabilizer_support_def vec_def split: option.splits)
  also have "\<dots> \<longleftrightarrow> (\<exists>i j. i \<in> span d (fst rc) \<and> j \<in> span d (snd rc) \<and> q = ix d (i, j))"
    unfolding support_offsets span_offset ..
  also have "\<dots> \<longleftrightarrow> q \<in> supp d rc" by (auto simp: supp_def)
  finally show "q \<in> set (stabilizer_support (data_ix d) (vec rc)) \<longleftrightarrow> q \<in> supp d rc" .
qed

lemma distinct_support: "distinct (stabilizer_support (data_ix d) (vec rc))"
  by (auto simp: stabilizer_support_def vec_def split: option.splits dest: data_ix_inj)

lemma length_support: "length (stabilizer_support (data_ix d) (vec rc)) = card (span d (fst rc)) * card (span d (snd rc))"
proof -
  have "inj_on (ix d) (span d (fst rc) \<times> span d (snd rc))"
    by (rule inj_on_subset [OF ix_inj]) (use span_subset in blast)
  then have "card (supp d rc) = card (span d (fst rc)) * card (span d (snd rc))"
    by (simp add: supp_def card_image card_cartesian_product)
  then show ?thesis by (metis distinct_card distinct_support set_support)
qed

lemma card_overlap:
  assumes "A \<subseteq> {..<d}" "B \<subseteq> {..<d}" "A' \<subseteq> {..<d}" "B' \<subseteq> {..<d}"
  shows "card (ix d ` (A \<times> B) \<inter> ix d ` (A' \<times> B')) = card (A \<inter> A') * card (B \<inter> B')"
proof -
  have sub: "A \<times> B \<subseteq> {..<d} \<times> {..<d}" "A' \<times> B' \<subseteq> {..<d} \<times> {..<d}" using assms by auto
  have "ix d ` (A \<times> B) \<inter> ix d ` (A' \<times> B') = ix d ` ((A \<times> B) \<inter> (A' \<times> B'))"
    by (rule inj_on_image_Int [OF ix_inj sub, symmetric])
  also have "card \<dots> = card ((A \<times> B) \<inter> (A' \<times> B'))"
    by (rule card_image [OF inj_on_subset [OF ix_inj]]) (use sub in blast)
  also have "\<dots> = card (A \<inter> A') * card (B \<inter> B')" by (simp add: Times_Int_Times card_cartesian_product)
  finally show ?thesis .
qed

lemma span_values:
  "span d r = (if r = 0 then (if 0 < d then {0} else {}) else if r < d then {r - 1, r} else if r = d then {d - 1} else {})"
  by (auto simp: span_def)

lemma card_span: "r \<le> d \<Longrightarrow> 0 < d \<Longrightarrow> card (span d r) = (if r = 0 \<or> r = d then 1 else 2)"
  by (auto simp: span_values)

lemma odd_span_overlap:
  assumes "r \<le> d" "r' \<le> d" "0 < d"
  shows "odd (card (span d r \<inter> span d r')) \<longleftrightarrow> r = r' \<and> (r = 0 \<or> r = d) \<or> Suc r = r' \<or> r = Suc r'"
proof -
  consider "r = r'" | "Suc r = r'" | "r = Suc r'" | "Suc r < r'" | "Suc r' < r" by linarith
  then show ?thesis
  proof cases
    case 1
    then show ?thesis using card_span [OF assms(1,3)] by auto
  next
    case 2
    then have "span d r \<inter> span d r' = {r}" using assms by (auto simp: span_def)
    then show ?thesis using 2 by simp
  next
    case 3
    then have "span d r \<inter> span d r' = {r'}" using assms by (auto simp: span_def)
    then show ?thesis using 3 by simp
  next
    case 4
    then have "span d r \<inter> span d r' = {}" by (auto simp: span_def)
    then show ?thesis using 4 by simp
  next
    case 5
    then have "span d r \<inter> span d r' = {}" by (auto simp: span_def)
    then show ?thesis using 5 by simp
  qed
qed

section \<open>Sites\<close>

lemma set_sites: "rc \<in> set (sites orient d role) \<longleftrightarrow> fst rc \<le> d \<and> snd rc \<le> d \<and> site_role orient d (fst rc) (snd rc) = role"
  by (cases rc) (auto simp: sites_def simp del: upt_Suc)

lemma distinct_sites: "distinct (sites orient d role)"
  by (simp add: sites_def distinct_cells del: upt_Suc)

text \<open>The role of a site determines its parity, and the boundary it lies on its role.\<close>

lemma role_parity:
  assumes "site_role orient d r c = role" "site_role orient d r' c' = role" "role \<noteq> empty"
  shows "odd (r + c) = odd (r' + c')"
  using assms by (auto simp: site_role_def parity_role_def split: if_splits)

lemma roles_parity:
  assumes "site_role orient d r c = amx" "site_role orient d r' c' = amz"
  shows "odd (r + c) \<noteq> odd (r' + c')"
  using assms by (auto simp: site_role_def parity_role_def split: if_splits)

lemma site_boundary:
  assumes "site_role orient d r c = role" "role \<noteq> empty"
  shows "is_site orient d r c"
  using assms by (auto simp: site_role_def split: if_splits)

lemma sites_commute:
  assumes "site_role orient d r c = amx" "site_role orient d r' c' = amz" "0 < d" "r \<le> d" "c \<le> d" "r' \<le> d" "c' \<le> d"
  shows "even (card (supp d (r, c) \<inter> supp d (r', c')))"
proof (rule ccontr)
  assume "odd (card (supp d (r, c) \<inter> supp d (r', c')))"
  then have "odd (card (span d r \<inter> span d r'))" "odd (card (span d c \<inter> span d c'))"
    by (auto simp: supp_def card_overlap span_subset)
  then have ov: "r = r' \<and> (r = 0 \<or> r = d) \<or> Suc r = r' \<or> r = Suc r'" "c = c' \<and> (c = 0 \<or> c = d) \<or> Suc c = c' \<or> c = Suc c'"
    using odd_span_overlap assms(3-) by blast+
  have par: "odd (r + c) \<noteq> odd (r' + c')" by (rule roles_parity [OF assms(1,2)])
  have s: "is_site orient d r c" "is_site orient d r' c'" using assms(1,2) site_boundary by auto
  from ov par have "r = r' \<and> (r = 0 \<or> r = d) \<and> (Suc c = c' \<or> c = Suc c') \<or> c = c' \<and> (c = 0 \<or> c = d) \<and> (Suc r = r' \<or> r = Suc r')"
    by auto
  then show False
  proof
    assume a: "r = r' \<and> (r = 0 \<or> r = d) \<and> (Suc c = c' \<or> c = Suc c')"
    then have "odd (r + c) \<noteq> horizontal_boundaries_use_even_parity orient" "odd (r' + c') \<noteq> horizontal_boundaries_use_even_parity orient"
      using s by (auto simp: is_site_def)
    then show False using par by blast
  next
    assume a: "c = c' \<and> (c = 0 \<or> c = d) \<and> (Suc r = r' \<or> r = Suc r')"
    then have "odd (r + c) = horizontal_boundaries_use_even_parity orient" "odd (r' + c') = horizontal_boundaries_use_even_parity orient"
      using s by (auto simp: is_site_def)
    then show False using par by blast
  qed
qed

text \<open>Sites on the left and right edge have the type of the logical along the top row.\<close>

lemma logical_sites:
  assumes "site_role orient d r c = role" "role \<noteq> empty"
  shows "x_logical_on_top_row orient \<noteq> (role = amx) \<Longrightarrow> 0 < c \<and> c < d"
    "x_logical_on_top_row orient = (role = amx) \<Longrightarrow> 0 < r \<and> r < d"
proof -
  have "is_site orient d r c" "role = parity_role orient (odd (r + c))"
    using assms by (auto simp: site_role_def split: if_splits)
  then show "x_logical_on_top_row orient \<noteq> (role = amx) \<Longrightarrow> 0 < c \<and> c < d"
    "x_logical_on_top_row orient = (role = amx) \<Longrightarrow> 0 < r \<and> r < d"
    by (cases orient; auto simp: is_site_def parity_role_def x_logical_on_top_row_def horizontal_boundaries_use_even_parity_def)+
qed

section \<open>Pauli words\<close>

definition pauli :: "nat \<Rightarrow> char \<Rightarrow> nat set \<Rightarrow> string" where
  "pauli n ch S = map (\<lambda>i. if i \<in> S then ch else CHR ''I'') [0..<n]"

text \<open>Two Pauli words commute iff they differ in an even number of places where neither is the identity.\<close>

definition pauli_commute :: "string \<Rightarrow> string \<Rightarrow> bool" where
  "pauli_commute a b \<longleftrightarrow>
     even (length (filter (\<lambda>p. fst p \<noteq> CHR ''I'' \<and> snd p \<noteq> CHR ''I'' \<and> fst p \<noteq> snd p) (zip a b)))"

lemma pauli_commute_sym: "pauli_commute a b \<longleftrightarrow> pauli_commute b a"
proof -
  have "length (filter (\<lambda>p. fst p \<noteq> CHR ''I'' \<and> snd p \<noteq> CHR ''I'' \<and> fst p \<noteq> snd p) (zip a b))
      = length (filter (\<lambda>p. fst p \<noteq> CHR ''I'' \<and> snd p \<noteq> CHR ''I'' \<and> fst p \<noteq> snd p) (zip b a))" for a b :: string
    by (induction a b rule: list_induct2') auto
  then show ?thesis by (simp add: pauli_commute_def)
qed

lemma length_pauli [simp]: "length (pauli n ch S) = n"
  by (simp add: pauli_def)

lemma zip_pauli: "zip (pauli n a S) (pauli n b T)
    = map (\<lambda>i. (if i \<in> S then a else CHR ''I'', if i \<in> T then b else CHR ''I'')) [0..<n]"
  by (simp add: pauli_def zip_map_map zip_same_conv_map)

lemma length_filter_upt_card: "length (filter P [0..<n]) = card {i. i < n \<and> P i}"
  using distinct_card [of "filter P [0..<n]"] by (simp add: Int_def Collect_conj_eq [symmetric] conj_commute cong: conj_cong)

lemma pauli_commute_same: "pauli_commute (pauli n ch S) (pauli n ch T)"
  unfolding pauli_commute_def zip_pauli filter_map by (simp add: comp_def)

lemma pauli_commute_diff:
  assumes "a \<noteq> b" "a \<noteq> CHR ''I''" "b \<noteq> CHR ''I''" "S \<subseteq> {..<n}"
  shows "pauli_commute (pauli n a S) (pauli n b T) \<longleftrightarrow> even (card (S \<inter> T))"
proof -
  have "filter (\<lambda>i. (if i \<in> S then a else CHR ''I'') \<noteq> CHR ''I'' \<and> (if i \<in> T then b else CHR ''I'') \<noteq> CHR ''I'' \<and>
      (if i \<in> S then a else CHR ''I'') \<noteq> (if i \<in> T then b else CHR ''I'')) [0..<n] = filter (\<lambda>i. i \<in> S \<inter> T) [0..<n]"
    using assms(1-3) by (intro filter_cong) auto
  moreover have "{i. i < n \<and> i \<in> S \<inter> T} = S \<inter> T" using assms(4) by auto
  ultimately show ?thesis
    unfolding pauli_commute_def zip_pauli filter_map by (simp only: comp_def fst_conv snd_conv length_map length_filter_upt_card)
qed

lemma mark_word_eq:
  assumes "\<forall>e \<in> set es. e < n"
  shows "mark_word n ch es = Inr (pauli n ch (set es))"
  using assms
proof (induction es rule: rev_induct)
  case Nil
  then show ?case by (simp add: mark_word_def pauli_def map_replicate_const)
next
  case (snoc e es)
  have "(pauli n ch (set es))[e := ch] = pauli n ch (set (es @ [e]))"
    using snoc.prems by (auto simp: pauli_def nth_list_update intro!: nth_equalityI)
  with snoc show ?case by (simp add: mark_word_def rfold_append)
qed

lemma supp_subset: "supp d rc \<subseteq> {..<d * d}"
  using span_subset [of d "fst rc"] span_subset [of d "snd rc"] by (auto simp: supp_def ix_less subset_eq)

section \<open>Stabilizers and observables\<close>

definition stab_word :: "nat \<Rightarrow> char \<Rightarrow> nat \<times> nat \<Rightarrow> string" where
  "stab_word d ch rc = pauli (d * d) ch (supp d rc)"

lemma mark_supports:
  "rmap (\<lambda>st. rbind (mark_word (d * d) ch st) (\<lambda>w. Inr (from_word w)))
     (map (\<lambda>rc. stabilizer_support (data_ix d) (vec rc)) ss) = Inr (map (\<lambda>rc. from_word (stab_word d ch rc)) ss)"
proof (induction ss)
  case (Cons rc ss)
  have "mark_word (d * d) ch (stabilizer_support (data_ix d) (vec rc)) = Inr (stab_word d ch rc)"
    using supp_subset [of d rc] by (subst mark_word_eq) (auto simp: set_support stab_word_def)
  with Cons show ?case by simp
qed simp

lemma get_spin_op_stabilizers_eq:
  "get_spin_op_stabilizers from_word (grid_of orient d) =
   Inr (map (\<lambda>rc. from_word (stab_word d CHR ''X'' rc)) (sites orient d amx)
      @ map (\<lambda>rc. from_word (stab_word d CHR ''Z'' rc)) (sites orient d amz))"
  by (simp add: get_spin_op_stabilizers_def grid_of_def mark_supports)

lemma stride_multiples:
  assumes "0 < s"
  shows "k \<le> m \<Longrightarrow> stride_indices ((m - k) * s) (m * s) s = Some (map (\<lambda>i. i * s) [m - k..<m])"
proof (induction k)
  case 0
  then show ?case by (simp add: stride_end)
next
  case (Suc k)
  have step: "(m - Suc k) * s + s = (m - k) * s" using Suc.prems by (metis Suc_diff_Suc Suc_le_lessD add.commute mult_Suc)
  moreover have "(m - Suc k) * s < m * s" using Suc.prems assms by simp
  moreover have "[m - Suc k..<m] = (m - Suc k) # [m - k..<m]"
    using Suc.prems by (metis Suc_diff_Suc Suc_le_lessD diff_less less_le_trans upt_conv_Cons zero_less_Suc)
  ultimately show ?case
    using Suc by (subst stride_indices.simps) simp
qed

definition top_row :: "nat \<Rightarrow> nat set" where
  "top_row d = ix d ` ({0} \<times> {..<d})"

definition left_col :: "nat \<Rightarrow> nat set" where
  "left_col d = ix d ` ({..<d} \<times> {0})"

definition logical_word :: "sc_orientation \<Rightarrow> nat \<Rightarrow> surface_role \<Rightarrow> string" where
  "logical_word orient d role = pauli (d * d) (if role = amx then CHR ''X'' else CHR ''Z'')
     (if x_logical_on_top_row orient = (role = amx) then top_row d else left_col d)"

lemma get_spin_op_observables_eq:
  assumes "0 < d"
  shows "get_spin_op_observables from_word (grid_of orient d) =
    Some (Inr [from_word (logical_word orient d amx), from_word (logical_word orient d amz)])"
proof -
  have st: "stride_indices 0 (d * d) d = Some (map (\<lambda>i. i * d) [0..<d])"
    using stride_multiples [OF assms, of d d] by simp
  have top: "mark_word (d * d) ch [0..<d] = Inr (pauli (d * d) ch (top_row d))" for ch
  proof -
    have "set [0..<d] = top_row d" by (force simp: top_row_def ix_def)
    moreover have "\<forall>e \<in> set [0..<d]. e < d * d" using ix_less [of 0 d] assms by (simp add: ix_def)
    ultimately show ?thesis by (simp only: mark_word_eq)
  qed
  have left: "mark_word (d * d) ch (map (\<lambda>i. i * d) [0..<d]) = Inr (pauli (d * d) ch (left_col d))" for ch
  proof -
    have "set (map (\<lambda>i. i * d) [0..<d]) = left_col d" by (force simp: left_col_def ix_def)
    moreover have "\<forall>e \<in> set (map (\<lambda>i. i * d) [0..<d]). e < d * d" using assms by simp
    ultimately show ?thesis by (simp only: mark_word_eq)
  qed
  show ?thesis
    using st top left by (simp add: get_spin_op_observables_def grid_of_def logical_word_def Let_def)
qed

lemma card_single_span: "r \<le> d \<Longrightarrow> 0 < d \<Longrightarrow> card (span d r) \<noteq> 1 \<Longrightarrow> 0 < r \<and> r < d"
  by (auto simp: card_span split: if_splits)

lemma logical_commutes:
  assumes site: "site_role orient d r c = role" "role \<noteq> empty" and d: "0 < d" "r \<le> d" "c \<le> d" and lg: "lg \<in> {amx, amz}"
  shows "pauli_commute (logical_word orient d lg) (stab_word d (if role = amx then CHR ''X'' else CHR ''Z'') (r, c))"
proof (cases "lg = role")
  case True
  then show ?thesis using site(2) lg by (auto simp: logical_word_def stab_word_def pauli_commute_same)
next
  case False
  then have roles: "(lg = amx) \<noteq> (role = amx)" using lg site(2) by (cases role) auto
  have sub: "top_row d \<subseteq> {..<d * d}" "left_col d \<subseteq> {..<d * d}"
    using d(1) ix_less [of _ d] by (auto simp: top_row_def left_col_def)
  have two: "card ({..<d} \<inter> span d x) = 2" if "0 < x" "x < d" for x
    using that card_span [of x d] span_subset [of d x] by (simp add: Int_absorb1)
  show ?thesis
  proof (cases "x_logical_on_top_row orient = (lg = amx)")
    case True
    then have "x_logical_on_top_row orient \<noteq> (role = amx)" using roles by blast
    then have "0 < c \<and> c < d" by (rule logical_sites(1) [OF site])
    then have "even (card (top_row d \<inter> supp d (r, c)))"
      using d(1) two [of c] card_overlap [of "{0}" d "{..<d}" "span d r" "span d c"] span_subset by (simp add: top_row_def supp_def)
    then show ?thesis
      using True roles sub by (auto simp: logical_word_def stab_word_def pauli_commute_diff)
  next
    case False
    then have "x_logical_on_top_row orient = (role = amx)" using roles by blast
    then have "0 < r \<and> r < d" by (rule logical_sites(2) [OF site])
    then have "even (card (left_col d \<inter> supp d (r, c)))"
      using d(1) two [of r] card_overlap [of "{..<d}" d "{0}" "span d r" "span d c"] span_subset by (simp add: left_col_def supp_def)
    then show ?thesis
      using False roles sub by (auto simp: logical_word_def stab_word_def pauli_commute_diff)
  qed
qed

lemma logicals_anticommute:
  assumes "0 < d"
  shows "\<not> pauli_commute (logical_word orient d amx) (logical_word orient d amz)"
proof -
  have one: "card (top_row d \<inter> left_col d) = 1" "card (left_col d \<inter> top_row d) = 1"
    using assms card_overlap [of "{0}" d "{..<d}" "{..<d}" "{0}"] by (auto simp: top_row_def left_col_def Int_commute)
  have sub: "top_row d \<subseteq> {..<d * d}" "left_col d \<subseteq> {..<d * d}"
    using assms ix_less [of _ d] by (auto simp: top_row_def left_col_def)
  show ?thesis using one sub by (simp add: logical_word_def pauli_commute_diff)
qed

lemma stabs_commute:
  assumes "rc \<in> set (sites orient d role)" "rc' \<in> set (sites orient d role')" "role \<in> {amx, amz}" "role' \<in> {amx, amz}" "0 < d"
  shows "pauli_commute (stab_word d (if role = amx then CHR ''X'' else CHR ''Z'') rc)
     (stab_word d (if role' = amx then CHR ''X'' else CHR ''Z'') rc')"
proof -
  have xz: "pauli_commute (stab_word d CHR ''X'' rc) (stab_word d CHR ''Z'' rc')"
    if "rc \<in> set (sites orient d amx)" "rc' \<in> set (sites orient d amz)" for rc rc'
    using that sites_commute [of orient d "fst rc" "snd rc" "fst rc'" "snd rc'"] assms(5) supp_subset [of d rc]
    by (simp add: set_sites stab_word_def pauli_commute_diff)
  show ?thesis
    using assms(1-4) xz [of rc rc'] xz [of rc' rc] pauli_commute_sym [of "stab_word d CHR ''Z'' rc" "stab_word d CHR ''X'' rc'"]
    by (auto simp: stab_word_def pauli_commute_same)
qed

section \<open>The code is a stabilizer code\<close>

text \<open>
  C5: For every orientation and every distance whose role table fits 32 bits, the grid is built
  without error and describes a stabilizer code: any two stabilizers commute, the two observables
  commute with every stabilizer and anticommute with each other.
\<close>

theorem surface_code_is_stabilizer_code:
  assumes "valid_distance d" "\<And>w. gpw (from_word w) = w"
  shows "\<exists>g stabs lx lz. stabilizer_grid_new d orient = Some (Inr g) \<and>
    get_spin_op_stabilizers from_word g = Inr stabs \<and> get_spin_op_observables from_word g = Some (Inr [lx, lz]) \<and>
    (\<forall>s \<in> set stabs. \<forall>t \<in> set stabs. pauli_commute (gpw s) (gpw t)) \<and>
    (\<forall>s \<in> set stabs. pauli_commute (gpw lx) (gpw s) \<and> pauli_commute (gpw lz) (gpw s)) \<and>
    \<not> pauli_commute (gpw lx) (gpw lz)"
proof -
  have d: "0 < d" using assms(1) by (simp add: valid_distance_def)
  let ?W = "\<lambda>role rc. stab_word d (if role = amx then CHR ''X'' else CHR ''Z'') rc"
  let ?stabs = "map (\<lambda>rc. from_word (stab_word d CHR ''X'' rc)) (sites orient d amx)
      @ map (\<lambda>rc. from_word (stab_word d CHR ''Z'' rc)) (sites orient d amz)"
  have word: "\<exists>role rc. role \<in> {amx, amz} \<and> rc \<in> set (sites orient d role) \<and> gpw s = ?W role rc" if "s \<in> set ?stabs" for s
    using that assms(2) by (auto intro: exI [of _ amx] exI [of _ amz])
  have "pauli_commute (gpw s) (gpw t)" if "s \<in> set ?stabs" "t \<in> set ?stabs" for s t
    using word [OF that(1)] word [OF that(2)] stabs_commute d by metis
  moreover have "pauli_commute (gpw (from_word (logical_word orient d lg))) (gpw s)" if s: "s \<in> set ?stabs" and lg: "lg \<in> {amx, amz}" for s lg
  proof -
    obtain role rc where rc: "role \<in> {amx, amz}" "rc \<in> set (sites orient d role)" "gpw s = ?W role rc"
      using word [OF s] by (elim exE conjE)
    then show ?thesis
      using logical_commutes [of orient d "fst rc" "snd rc" role lg] lg d by (auto simp: set_sites assms(2))
  qed
  ultimately show ?thesis
    using stabilizer_grid_new_eq [OF assms(1)] get_spin_op_stabilizers_eq [of from_word orient d]
      get_spin_op_observables_eq [OF d, of from_word orient] logicals_anticommute [OF d]
    by (intro exI [of _ "grid_of orient d"] exI [of _ ?stabs] exI [of _ "from_word (logical_word orient d amx)"]
        exI [of _ "from_word (logical_word orient d amz)"]) (simp add: assms(2))
qed

theorem surface_code_is_stabilizer_code_witness:
  "\<exists>g stabs lx lz. stabilizer_grid_new 3 ZH = Some (Inr g) \<and>
    get_spin_op_stabilizers (\<lambda>w. w) g = Inr stabs \<and> get_spin_op_observables (\<lambda>w. w) g = Some (Inr [lx, lz]) \<and>
    \<not> pauli_commute lx lz"
  using surface_code_is_stabilizer_code [of 3 "\<lambda>w. w" "\<lambda>w. w" ZH] by (auto simp: valid_distance_def max_u32_def)

section \<open>Number and weight of stabilizers\<close>

lemma count_parity: "length (filter (\<lambda>c. odd (r + c) = b) [1..<2 * k + 1]) = k"
proof (induction k)
  case (Suc k)
  have "[1..<2 * Suc k + 1] = [1..<2 * k + 1] @ [2 * k + 1, 2 * k + 2]"
    using upt_add_eq_append [of 1 "2 * k + 1" 2] by (simp add: upt_conv_Cons del: upt_Suc)
  then show ?case using Suc by (cases b) (auto simp del: upt_Suc)
qed simp

lemma count_cells:
  "length (filter P (cells rows cols)) = (\<Sum>r\<leftarrow>rows. length (filter (\<lambda>c. P (r, c)) cols))"
  by (induction rows) (simp_all add: cells_def filter_map comp_def)

definition site_parity :: "sc_orientation \<Rightarrow> surface_role \<Rightarrow> bool" where
  "site_parity orient role \<longleftrightarrow> (orient = XV \<or> orient = XH) \<noteq> (role = amx)"

lemma site_role_iff:
  assumes "role \<in> {amx, amz}"
  shows "site_role orient d r c = role \<longleftrightarrow> is_site orient d r c \<and> odd (r + c) = site_parity orient role"
  using assms by (auto simp: site_role_def parity_role_def site_parity_def)

lemma edges_upt: "0 < d \<Longrightarrow> [0..<d + 1] = 0 # [1..<d] @ [d]"
  by (simp add: upt_conv_Cons)

lemma sum_edges:
  fixes a b :: nat
  assumes "0 < d"
  shows "(\<Sum>r\<leftarrow>[0..<d + 1]. if r = 0 \<or> r = d then a else b) = 2 * a + (d - 1) * b"
proof -
  have "(\<Sum>r\<leftarrow>[Suc 0..<d]. if r = 0 \<or> r = d then a else b) = (\<Sum>r\<leftarrow>[Suc 0..<d]. b)"
    by (rule arg_cong [where f = sum_list], rule map_cong) auto
  then show ?thesis unfolding edges_upt [OF assms] by (simp add: sum_list_triv)
qed

lemma count_row:
  assumes "role \<in> {amx, amz}" "d = 2 * k + 1" "0 < k" "r \<le> d"
  shows "length (filter (\<lambda>c. site_role orient d r c = role) [0..<d + 1]) =
    (if r = 0 \<or> r = d then (if site_parity orient role \<noteq> horizontal_boundaries_use_even_parity orient then k else 0)
     else k + (if site_parity orient role = horizontal_boundaries_use_even_parity orient then 1 else 0))"
proof -
  let ?p = "site_parity orient role" and ?h = "horizontal_boundaries_use_even_parity orient"
  have d: "0 < d" using assms(2) by simp
  have split: "length (filter (\<lambda>c. site_role orient d r c = role) [0..<d + 1]) =
      (if site_role orient d r 0 = role then 1 else 0) + length (filter (\<lambda>c. site_role orient d r c = role) [1..<d])
        + (if site_role orient d r d = role then 1 else 0)"
    unfolding edges_upt [OF d] by simp
  show ?thesis
  proof (cases "r = 0 \<or> r = d")
    case True
    then have "filter (\<lambda>c. site_role orient d r c = role) [1..<d] = filter (\<lambda>c. ?p \<noteq> ?h \<and> odd (r + c) = ?p) [1..<d]"
      by (intro filter_cong) (auto simp: site_role_iff [OF assms(1)] is_site_def)
    then have "length (filter (\<lambda>c. site_role orient d r c = role) [1..<d]) = (if ?p \<noteq> ?h then k else 0)"
      using count_parity [of r ?p k] assms(2) by (cases "?p = ?h") simp_all
    moreover have "site_role orient d r 0 \<noteq> role" "site_role orient d r d \<noteq> role"
      using True d by (auto simp: site_role_iff [OF assms(1)] is_site_def)
    ultimately show ?thesis using split True by simp
  next
    case False
    then have "filter (\<lambda>c. site_role orient d r c = role) [1..<d] = filter (\<lambda>c. odd (r + c) = ?p) [1..<d]"
      using assms(4) by (intro filter_cong) (auto simp: site_role_iff [OF assms(1)] is_site_def)
    then have "length (filter (\<lambda>c. site_role orient d r c = role) [1..<d]) = k"
      using count_parity [of r ?p k] assms(2) by simp
    moreover have "site_role orient d r 0 = role \<longleftrightarrow> odd r = ?h \<and> odd r = ?p" "site_role orient d r d = role \<longleftrightarrow> odd (r + d) = ?h \<and> odd (r + d) = ?p"
      using False assms(4) d by (auto simp: site_role_iff [OF assms(1)] is_site_def)
    ultimately show ?thesis using split False assms(2) by auto
  qed
qed

lemma count_sites:
  assumes "role \<in> {amx, amz}" "odd d"
  shows "length (sites orient d role) = (d * d - 1) div 2"
proof -
  obtain k where k: "d = 2 * k + 1" using assms(2) oddE by blast
  show ?thesis
  proof (cases "k = 0")
    case True
    then have "length (sites orient d role) = 0"
      using k assms(1) by (auto simp: sites_def filter_empty_conv site_role_iff is_site_def simp del: upt_Suc)
    then show ?thesis using True k by simp
  next
    case False
    let ?q = "site_parity orient role = horizontal_boundaries_use_even_parity orient"
    have "length (sites orient d role) = (\<Sum>r\<leftarrow>[0..<d + 1]. length (filter (\<lambda>c. site_role orient d r c = role) [0..<d + 1]))"
      by (simp add: sites_def count_cells del: upt_Suc)
    also have "\<dots> = (\<Sum>r\<leftarrow>[0..<d + 1]. if r = 0 \<or> r = d then (if \<not> ?q then k else 0) else k + (if ?q then 1 else 0))"
      by (rule arg_cong [where f = sum_list], rule map_cong [OF refl], rule count_row [OF assms(1) k]) (use False in auto)
    also have "\<dots> = 2 * (if \<not> ?q then k else 0) + (d - 1) * (k + (if ?q then 1 else 0))"
      by (rule sum_edges [OF odd_pos [OF assms(2)]])
    also have "\<dots> = 2 * k * (k + 1)" using k by (simp add: algebra_simps)
    also have "\<dots> = (d * d - 1) div 2" using k by (simp add: algebra_simps)
    finally show ?thesis .
  qed
qed

lemma site_weight:
  assumes "rc \<in> set (sites orient d role)" "role \<noteq> empty" "0 < d"
  shows "length (stabilizer_support (data_ix d) (vec rc)) \<in> {2, 4}"
proof -
  have "is_site orient d (fst rc) (snd rc)" "fst rc \<le> d" "snd rc \<le> d"
    using assms(1,2) site_boundary by (auto simp: set_sites)
  then show ?thesis unfolding length_support using assms(3) by (auto simp: card_span is_site_def)
qed

lemma surface_code_new_eq:
  assumes "valid_distance d" "sc_orientation_from_str s = Inr orient"
  shows "\<exists>q. surface_code_new from_word srt_ops (Some d) (Some s) = Some (Inr q) \<and>
    grid q = grid_of orient d \<and> code_distance q = d"
proof -
  have "d * 1 \<le> (d + 1) * (d + 1)" by (rule mult_le_mono) auto
  then have "u32 d = d" "0 < d" using assms(1) by (simp_all add: valid_distance_def)
  then show ?thesis
    using assms(2) stabilizer_grid_new_eq [OF assms(1), of orient] get_spin_op_stabilizers_eq [of from_word orient d]
      get_spin_op_observables_eq [of d from_word orient]
    by (simp add: surface_code_new_def)
qed

text \<open>
  For every odd distance (and orientation string accepted by the parser) the constructor of the
  surface code returns, and the grid has as many X and Z stabilizers, ancillas and data qubits as
  the code object reports; every stabilizer acts on two or four data qubits.
\<close>

theorem surface_code_counts:
  assumes "valid_distance d" "odd d" "sc_orientation_from_str s = Inr orient"
  shows "\<exists>q. surface_code_new from_word srt_ops (Some d) (Some s) = Some (Inr q) \<and>
    length (x_stabilizers (grid q)) = get_num_x_stabilizers q \<and>
    length (z_stabilizers (grid q)) = get_num_z_stabilizers q \<and>
    length (x_stab_coords (grid q)) = get_num_ancilla_x_qubits q \<and>
    length (z_stab_coords (grid q)) = get_num_ancilla_z_qubits q \<and>
    length (x_stabilizers (grid q)) + length (z_stabilizers (grid q)) = get_num_ancilla_qubits q \<and>
    length (data_coords (grid q)) = get_num_data_qubits q \<and>
    (\<forall>st \<in> set (x_stabilizers (grid q)) \<union> set (z_stabilizers (grid q)). length st \<in> {2, 4})"
proof -
  have d: "0 < d" using assms(1) by (simp add: valid_distance_def)
  then have "1 \<le> d * d" "even (d * d - 1)" using assms(2) by (simp_all add: Suc_leI)
  then have half: "(d * d - 1) div 2 + (d * d - 1) div 2 = d * d - 1" by (metis mult_2 dvd_mult_div_cancel)
  have n: "length (sites orient d amx) = (d * d - 1) div 2" "length (sites orient d amz) = (d * d - 1) div 2"
    using count_sites [OF _ assms(2)] by auto
  have w: "length st \<in> {2, 4}" if "st \<in> set (x_stabilizers (grid_of orient d)) \<union> set (z_stabilizers (grid_of orient d))" for st
    using that site_weight [OF _ _ d] by (auto simp: grid_of_def)
  obtain q where "surface_code_new from_word srt_ops (Some d) (Some s) = Some (Inr q)" "grid q = grid_of orient d" "code_distance q = d"
    using surface_code_new_eq [OF assms(1,3)] by blast
  then show ?thesis
    using n half w \<open>1 \<le> d * d\<close>
    by (intro exI [of _ q]) (simp add: grid_of_def get_num_x_stabilizers_def get_num_z_stabilizers_def get_num_ancilla_x_qubits_def
        get_num_ancilla_z_qubits_def get_num_ancilla_qubits_def get_num_data_qubits_def)
qed

theorem surface_code_counts_witness:
  "\<exists>q. surface_code_new (\<lambda>w. w) (std_sort spinOpComparatorStr) (Some 3) (Some '' o4 '') = Some (Inr q) \<and>
    length (x_stabilizers (grid q)) = get_num_x_stabilizers q"
proof -
  have "sc_orientation_from_str '' o4 '' = Inr ZH" by code_simp
  then show ?thesis
    using surface_code_counts [of 3 "'' o4 ''" ZH "\<lambda>w. w" "std_sort spinOpComparatorStr"]
    by (auto simp: valid_distance_def max_u32_def)
qed

text \<open>For even distances the counts of the code object are wrong: the distance-2 grid has two X and one Z stabilizer.\<close>

lemma even_distance_counts:
  "length (sites ZH 2 amx) = 2 \<and> length (sites ZH 2 amz) = 1 \<and> (2 * 2 - 1) div 2 = (1 :: nat)"
  by code_simp

end
