(* ===== verification/QEC_Surface_Schedule.thy ===== *)
theory QEC_Surface_Schedule
  imports QEC_Surface_Theorems
begin

text \<open>
  CNOT schedules of the surface code: every row lists the corners of one site with their time step,
  the row order is that of the parity matrices, and no data qubit is used twice in a time step.
\<close>

section \<open>One row\<close>

definition schedule_order :: "bool \<Rightarrow> (int \<times> int) list" where
  "schedule_order col_major = (if col_major then col_major_order else row_major_order)"

text \<open>The data qubit that the ancilla at site \<open>rc\<close> meets in step \<open>k\<close>, if there is one.\<close>

definition corner :: "bool \<Rightarrow> nat \<Rightarrow> nat \<times> nat \<Rightarrow> nat \<Rightarrow> nat option" where
  "corner b d rc k = data_ix d (Vec2d (int (fst rc) + fst (schedule_order b ! k)) (int (snd rc) + snd (schedule_order b ! k)))"

definition step_at :: "bool \<Rightarrow> nat \<Rightarrow> nat \<times> nat \<Rightarrow> nat \<Rightarrow> nat \<Rightarrow> u8" where
  "step_at b d rc m q = (case List.find (\<lambda>k. corner b d rc k = Some q) [0..<m] of Some k \<Rightarrow> of_nat (k + 1) | None \<Rightarrow> 0)"

lemma less_4_cases: "k < 4 \<Longrightarrow> k = 0 \<or> k = 1 \<or> k = 2 \<or> k = (3 :: nat)"
  by linarith

lemma order_offsets:
  assumes "k < 4" "k' < 4" "schedule_order b ! k = schedule_order b ! k'"
  shows "k = k'"
  using less_4_cases [OF assms(1)] less_4_cases [OF assms(2)] assms(3)
  by (auto simp: schedule_order_def row_major_order_def col_major_order_def nth_Cons' split: if_splits)

lemma corner_inj:
  assumes "corner b d rc k = Some q" "corner b d rc k' = Some q" "k < 4" "k' < 4"
  shows "k = k'"
proof -
  have "schedule_order b ! k = schedule_order b ! k'"
    using data_ix_inj [OF assms(1,2) [unfolded corner_def]] by (simp add: prod_eq_iff)
  then show ?thesis by (rule order_offsets [OF assms(3,4)])
qed

lemma corner_less: "corner b d rc k = Some q \<Longrightarrow> q < d * d"
  by (auto simp: corner_def data_ix_Some ix_less)

lemma find_snoc: "List.find P (xs @ [x]) = (case List.find P xs of None \<Rightarrow> if P x then Some x else None | Some y \<Rightarrow> Some y)"
  by (induction xs) auto

lemma step_at_Suc:
  assumes "m < 4"
  shows "step_at b d rc (Suc m) q = (if corner b d rc m = Some q then of_nat (m + 1) else step_at b d rc m q)"
proof (cases "List.find (\<lambda>k. corner b d rc k = Some q) [0..<m]")
  case None
  then show ?thesis by (simp add: step_at_def find_snoc)
next
  case (Some k)
  then have "k < m" "corner b d rc k = Some q" by (auto simp: find_Some_iff)
  then have "corner b d rc m \<noteq> Some q" using corner_inj [of b d rc k q m] assms by auto
  then show ?thesis using Some by (simp add: step_at_def find_snoc)
qed

lemma schedule_row_eq:
  "schedule_row (data_ix d) (d * d) (schedule_order b) (vec rc) = Inr (map (step_at b d rc 4) [0..<d * d])"
proof -
  have at: "data_ix d (Vec2d (vrow (vec rc) + fst (schedule_order b ! k)) (vcol (vec rc) + snd (schedule_order b ! k))) = corner b d rc k" for k
    by (simp add: corner_def vec_def)
  let ?f = "\<lambda>step row. (case corner b d rc step of Some i \<Rightarrow> vset row i (of_nat (step + 1)) | None \<Rightarrow> Inr row)"
  have "m \<le> 4 \<Longrightarrow> rfold ?f [0..<m] (replicate (d * d) 0) = Inr (map (step_at b d rc m) [0..<d * d])" for m
  proof (induction m)
    case 0
    then show ?case by (simp add: step_at_def map_replicate_const)
  next
    case (Suc m)
    have "?f m (map (step_at b d rc m) [0..<d * d]) = Inr (map (step_at b d rc (Suc m)) [0..<d * d])"
    proof (cases "corner b d rc m")
      case None
      then show ?thesis using Suc.prems by (simp add: step_at_Suc)
    next
      case (Some i)
      then show ?thesis
        using Suc.prems corner_less [OF Some]
        by (auto simp: step_at_Suc nth_list_update intro!: nth_equalityI)
    qed
    then show ?case using Suc by (simp add: rfold_append)
  qed
  from this [of 4] show ?thesis by (simp add: schedule_row_def at)
qed

lemma step_at_eq:
  assumes "k < 4"
  shows "step_at b d rc 4 q = of_nat (k + 1) \<longleftrightarrow> corner b d rc k = Some q"
proof
  assume "corner b d rc k = Some q"
  moreover from this obtain k' where "List.find (\<lambda>k. corner b d rc k = Some q) [0..<4] = Some k'"
    using assms by (cases "List.find (\<lambda>k. corner b d rc k = Some q) [0..<4]") (auto simp: find_None_iff)
  moreover from this have "k' < 4" "corner b d rc k' = Some q" by (auto simp: find_Some_iff)
  ultimately show "step_at b d rc 4 q = of_nat (k + 1)" using corner_inj [of b d rc k q k'] assms by (simp add: step_at_def)
next
  assume s: "step_at b d rc 4 q = of_nat (k + 1)"
  show "corner b d rc k = Some q"
  proof (cases "List.find (\<lambda>k. corner b d rc k = Some q) [0..<4]")
    case None
    then have "of_nat (k + 1) = (0 :: u8)" using s by (simp add: step_at_def)
    then show ?thesis using less_4_cases [OF assms] by auto
  next
    case (Some k')
    then have k': "k' < 4" "corner b d rc k' = Some q" by (auto simp: find_Some_iff)
    moreover have "of_nat (k + 1) = (of_nat (k' + 1) :: u8)" using s Some by (simp add: step_at_def)
    ultimately show ?thesis using less_4_cases [OF assms] less_4_cases [OF k'(1)] by auto
  qed
qed

lemma step_at_nonzero: "step_at b d rc 4 q \<noteq> 0 \<longleftrightarrow> q \<in> supp d rc"
proof -
  have nz: "of_nat (k + 1) \<noteq> (0 :: u8)" if "k < 4" for k using less_4_cases [OF that] by auto
  have "step_at b d rc 4 q \<noteq> 0 \<longleftrightarrow> (\<exists>k < 4. corner b d rc k = Some q)"
    using nz by (auto simp: step_at_def find_None_iff find_Some_iff split: option.splits)
  also have "\<dots> \<longleftrightarrow> (\<exists>a \<in> {-1, 0}. \<exists>c \<in> {-1, 0}. data_ix d (Vec2d (int (fst rc) + a) (int (snd rc) + c)) = Some q)"
  proof -
    have "(\<exists>k < 4. P (schedule_order b ! k)) \<longleftrightarrow> (\<exists>a \<in> {-1, 0}. \<exists>c \<in> {-1, 0}. P (a, c))" for P
      by (cases b) (auto simp: schedule_order_def row_major_order_def col_major_order_def numeral_eq_Suc Ex_less_Suc)
    from this [of "\<lambda>off. data_ix d (Vec2d (int (fst rc) + fst off) (int (snd rc) + snd off)) = Some q"] show ?thesis
      by (simp add: corner_def)
  qed
  also have "\<dots> \<longleftrightarrow> q \<in> supp d rc" unfolding support_offsets span_offset supp_def by (auto simp: image_iff)
  finally show ?thesis .
qed

section \<open>Order of the rows\<close>

definition first_ix :: "nat \<Rightarrow> nat \<times> nat \<Rightarrow> nat" where
  "first_ix d rc = ix d (fst rc - 1, snd rc - 1)"

lemma first_ix_supp:
  assumes "rc \<in> set (sites orient d role)" "0 < d"
  shows "first_ix d rc \<in> supp d rc" "q \<in> supp d rc \<Longrightarrow> first_ix d rc \<le> q"
proof -
  have le: "fst rc \<le> d" "snd rc \<le> d" using assms(1) by (simp_all add: set_sites)
  then have "fst rc - 1 \<in> span d (fst rc)" "snd rc - 1 \<in> span d (snd rc)" using assms(2) by (auto simp: span_def)
  then show "first_ix d rc \<in> supp d rc" unfolding first_ix_def supp_def by blast
  assume "q \<in> supp d rc"
  then obtain i j where "q = i * d + j" "fst rc - 1 \<le> i" "snd rc - 1 \<le> j" by (auto simp: supp_def ix_def span_def)
  then show "first_ix d rc \<le> q" by (simp add: first_ix_def ix_def add_mono)
qed

lemma first_ix_inj:
  assumes "rc \<in> set (sites orient d role)" "rc' \<in> set (sites orient d role)" "role \<noteq> empty" "first_ix d rc = first_ix d rc'" "0 < d"
  shows "rc = rc'"
proof -
  obtain r c r' c' where rc: "rc = (r, c)" "rc' = (r', c')" by (cases rc, cases rc')
  have s: "site_role orient d r c = role" "site_role orient d r' c' = role" "r \<le> d" "c \<le> d" "r' \<le> d" "c' \<le> d"
    using assms(1,2) by (simp_all add: set_sites rc)
  then have si: "is_site orient d r c" "is_site orient d r' c'" using site_boundary assms(3) by auto
  have par: "odd (r + c) = odd (r' + c')" by (rule role_parity [OF s(1,2) assms(3)])
  have "(r - 1, c - 1) = (r' - 1, c' - 1)"
    by (rule inj_onD [OF ix_inj [of d] assms(4) [unfolded first_ix_def rc fst_conv snd_conv]]) (use s assms(5) in auto)
  then have "r - 1 = r' - 1" "c - 1 = c' - 1" by auto
  then show ?thesis
  proof (cases "r = r' \<or> c = c'")
    case True
    then show ?thesis
      using par \<open>r - 1 = r' - 1\<close> \<open>c - 1 = c' - 1\<close> by (cases r; cases r'; cases c; cases c') (auto simp: rc)
  next
    case False
    then have "r + c = 1 \<and> r' + c' = 1 \<or> r + c = 0 \<or> r' + c' = 0"
      using \<open>r - 1 = r' - 1\<close> \<open>c - 1 = c' - 1\<close> by linarith
    then show ?thesis using False si par by (auto simp: is_site_def add_is_1)
  qed
qed

lemma length_takeWhile_first:
  assumes "k < n" "\<not> P (f k)" "\<And>j. j < k \<Longrightarrow> P (f j)"
  shows "length (takeWhile P (map f [0..<n])) = k"
proof -
  have "takeWhile P (map f [0..<n]) = take k (map f [0..<n])"
    by (rule takeWhile_eq_take_P_nth) (use assms in auto)
  then show ?thesis using assms(1) by simp
qed

lemma first_support_row:
  assumes "rc \<in> set (sites orient d role)" "0 < d"
  shows "first_support (map (step_at b d rc 4) [0..<d * d]) = first_ix d rc"
  unfolding first_support_def
proof (rule length_takeWhile_first)
  show "first_ix d rc < d * d" using first_ix_supp(1) [OF assms] supp_subset [of d rc] by blast
  show "step_at b d rc 4 (first_ix d rc) \<noteq> 0" using first_ix_supp(1) [OF assms] by (simp add: step_at_nonzero)
  show "step_at b d rc 4 j = 0" if "j < first_ix d rc" for j
    using first_ix_supp(2) [OF assms, of j] step_at_nonzero [of b d rc j] that by auto
qed

lemma sorted_keyed: "sorted (map fst (std_sort pair_less ks))"
  using pairs.sorted_std_sort [of ks] by (auto simp: sorted_wrt_map pair_less_def elim!: sorted_wrt_mono_rel [rotated])

definition ordered_sites :: "sc_orientation \<Rightarrow> nat \<Rightarrow> surface_role \<Rightarrow> (nat \<times> nat) list" where
  "ordered_sites orient d role = sort_key (first_ix d) (sites orient d role)"

lemma ordered_sites_simps [simp]:
  "length (ordered_sites orient d role) = length (sites orient d role)" "set (ordered_sites orient d role) = set (sites orient d role)"
  "distinct (ordered_sites orient d role)"
  by (simp_all add: ordered_sites_def distinct_sites)

lemma keyed_sites:
  fixes orient :: sc_orientation
  assumes "role \<noteq> empty" "0 < d"
  defines "ss \<equiv> sites orient d role"
  defines "keyed \<equiv> std_sort pair_less (map (\<lambda>r. (first_ix d (ss ! r), r)) [0..<length ss])"
  shows "map (\<lambda>p. ss ! snd p) keyed = ordered_sites orient d role"
    and "\<forall>p \<in> set keyed. snd p < length ss \<and> fst p = first_ix d (ss ! snd p)" and "length keyed = length ss"
proof -
  show p: "\<forall>p \<in> set keyed. snd p < length ss \<and> fst p = first_ix d (ss ! snd p)" by (auto simp: keyed_def)
  show "length keyed = length ss" by (simp add: keyed_def)
  have "mset (map (\<lambda>p. ss ! snd p) keyed) = mset (map (\<lambda>r. ss ! r) [0..<length ss])"
    by (simp add: keyed_def image_mset.compositionality comp_def)
  then have "mset (map (\<lambda>p. ss ! snd p) keyed) = mset ss" by (simp add: map_nth)
  moreover have "inj_on (first_ix d) (set ss)"
    using first_ix_inj [OF _ _ assms(1) _ assms(2)] by (auto simp: inj_on_def ss_def)
  moreover have "map (first_ix d) (map (\<lambda>p. ss ! snd p) keyed) = map fst keyed" using p by simp
  moreover have "sorted (map fst keyed)" unfolding keyed_def by (rule sorted_keyed)
  ultimately show "map (\<lambda>p. ss ! snd p) keyed = ordered_sites orient d role"
    unfolding ordered_sites_def ss_def [symmetric] using sort_key_inj_key_eq [of ss _ "first_ix d"] by metis
qed

text \<open>Copying rows of numbers into a fresh matrix, cell by cell.\<close>

lemma fill_rows:
  assumes "\<And>r. r < m \<Longrightarrow> length (row r) = n"
  shows "rfold (\<lambda>r. rfold (\<lambda>c t. rbind (vget (row r) c) (\<lambda>v. tensor_set t [r, c] v)) [0..<n]) [0..<m] (tensor_new [m, n])
    = Inr (mk_mat m n (\<lambda>r c. row r ! c))"
proof -
  let ?g = "\<lambda>rc t. tensor_set t [fst rc, snd rc] (row (fst rc) ! snd rc)"
  have "rfold (\<lambda>r. rfold (\<lambda>c t. rbind (vget (row r) c) (\<lambda>v. tensor_set t [r, c] v)) [0..<n]) [0..<m] (tensor_new [m, n])
      = rfold (\<lambda>r. rfold ?g (map (Pair r) (filter (\<lambda>_. True) [0..<n]))) [0..<m] (tensor_new [m, n])"
    by (rule rfold_cong [OF refl], rule rfold_filter_map) (use assms in auto)
  also have "\<dots> = Inr (mk_mat m n (\<lambda>r c. row r ! c))"
    unfolding rfold_concat filter_True [OF ballI [OF TrueI]] cells_def [symmetric]
    by (subst tensor_fills [OF is_mat_new]) (auto intro!: mat_eqI [of _ m n] simp: mat_simps)
  finally show ?thesis .
qed

lemma build_cnot_schedule_eq:
  assumes "role \<noteq> empty" "0 < d"
  shows "build_cnot_schedule (map vec (sites orient d role)) (data_ix d) (d * d) b
    = Inr (mk_mat (length (sites orient d role)) (d * d) (\<lambda>i q. step_at b d (ordered_sites orient d role ! i) 4 q))"
proof -
  define ss where "ss = sites orient d role"
  define os where "os = ordered_sites orient d role"
  define rows where "rows = map (\<lambda>rc. map (step_at b d rc 4) [0..<d * d]) ss"
  define keyed where "keyed = std_sort pair_less (map (\<lambda>r. (first_ix d (ss ! r), r)) [0..<length ss])"
  have rows: "rmap (schedule_row (data_ix d) (d * d) (schedule_order b)) (map vec ss) = Inr rows"
    unfolding rows_def by (induction ss) (simp_all add: schedule_row_eq)
  have "map (\<lambda>r. (first_support (rows ! r), r)) [0..<length rows] = map (\<lambda>r. (first_ix d (ss ! r), r)) [0..<length ss]"
    using first_support_row [OF _ assms(2), of _ orient role b] by (auto simp: rows_def ss_def)
  then have key: "std_sort pair_less (map (\<lambda>r. (first_support (rows ! r), r)) [0..<length rows]) = keyed"
    by (simp add: keyed_def)
  note ks = keyed_sites [OF assms, of orient, folded ss_def, folded keyed_def]
  have dist: "distinct os" and len: "length os = length ss" by (simp_all add: os_def ss_def)
  have at: "os ! r = ss ! snd (keyed ! r)" "fst (keyed ! r) = first_ix d (os ! r)" "snd (keyed ! r) < length ss" if "r < length ss" for r
    using ks(1) ks(2) ks(3) that nth_map [of r keyed "\<lambda>p. ss ! snd p"] nth_mem [of r keyed] by (auto simp: os_def)
  have "fst (keyed ! r) \<noteq> fst (keyed ! (r - 1))" if "1 \<le> r" "r < length ss" for r
  proof
    assume "fst (keyed ! r) = fst (keyed ! (r - 1))"
    then have "first_ix d (os ! r) = first_ix d (os ! (r - 1))" using at(2) [of r] at(2) [of "r - 1"] that by simp
    moreover have "os ! r \<in> set (sites orient d role)" "os ! (r - 1) \<in> set (sites orient d role)"
      using that len nth_mem [of r os] nth_mem [of "r - 1" os] by (simp_all add: os_def)
    ultimately have "os ! r = os ! (r - 1)" using first_ix_inj [OF _ _ assms(1) _ assms(2)] by blast
    then show False using dist that len nth_eq_iff_index_eq [of os r "r - 1"] by linarith
  qed
  then have no_throw: "\<not> list_ex (\<lambda>r. fst (keyed ! r) = fst (keyed ! (r - 1))) [1..<length rows]"
    by (auto simp: list_ex_iff rows_def)
  have "rows ! snd (keyed ! r) = map (step_at b d (os ! r) 4) [0..<d * d]" if "r < length ss" for r
    using at [OF that] by (simp add: rows_def)
  then have "rfold (\<lambda>r. rfold (\<lambda>c t. rbind (vget (rows ! snd (keyed ! r)) c) (\<lambda>v. tensor_set t [r, c] v)) [0..<d * d])
        [0..<length rows] (tensor_new [length rows, d * d]) = Inr (mk_mat (length ss) (d * d) (\<lambda>i q. step_at b d (os ! i) 4 q))"
    by (subst fill_rows) (auto simp: rows_def mat_simps intro!: mat_eqI [of _ "length ss" "d * d"])
  then show ?thesis
    using rows no_throw key unfolding build_cnot_schedule_def schedule_order_def [symmetric] ss_def [symmetric] os_def [symmetric]
    by (simp add: Let_def)
qed

section \<open>Alignment with the parity matrices\<close>

abbreviation pauli_of :: "surface_role \<Rightarrow> char" where
  "pauli_of role \<equiv> if role = amx then CHR ''X'' else CHR ''Z''"

lemma pauli_mem: "S \<noteq> {} \<Longrightarrow> S \<subseteq> {..<n} \<Longrightarrow> ch \<in> set (pauli n ch S)"
  by (auto simp: pauli_def image_iff subset_eq)

lemma pauli_other: "ch' \<noteq> ch \<Longrightarrow> ch' \<noteq> CHR ''I'' \<Longrightarrow> ch' \<notin> set (pauli n ch S)"
  by (auto simp: pauli_def)

lemma find_first_pauli:
  assumes "q \<in> S" "q < n" "\<And>j. j \<in> S \<Longrightarrow> q \<le> j" "ch \<noteq> CHR ''I''"
  shows "find_first_of ch (pauli n ch S) = Some q"
  unfolding find_first_of_Some using assms by (force simp: pauli_def)

lemma stab_word_pos:
  assumes "rc \<in> set (sites orient d role)" "role \<in> {amx, amz}" "0 < d"
  shows "word_pos (stab_word d (pauli_of role) rc) = first_ix d rc" "has_z (stab_word d (pauli_of role) rc) \<longleftrightarrow> role = amz"
proof -
  note f = first_ix_supp [OF assms(1,3)]
  have q: "first_ix d rc < d * d" using f(1) supp_subset [of d rc] by blast
  show z: "has_z (stab_word d (pauli_of role) rc) \<longleftrightarrow> role = amz"
    using assms(2) f(1) pauli_mem [of "supp d rc" "d * d" "CHR ''Z''"] supp_subset [of d rc]
      pauli_other [of "CHR ''Z''" "CHR ''X''" "d * d" "supp d rc"] by (auto simp: stab_word_def)
  have "find_first_of (pauli_of role) (stab_word d (pauli_of role) rc) = Some (first_ix d rc)"
    unfolding stab_word_def by (rule find_first_pauli [OF f(1) q f(2)]) simp_all
  then show "word_pos (stab_word d (pauli_of role) rc) = first_ix d rc"
    using z assms(2) by (auto simp: word_pos_def)
qed

lemma stab_words_ordered:
  assumes "role \<in> {amx, amz}" "0 < d" "mset ws = mset (map (stab_word d (pauli_of role)) (sites orient d role))" "sorted (map word_pos ws)"
  shows "ws = map (stab_word d (pauli_of role)) (ordered_sites orient d role)"
proof -
  let ?w = "stab_word d (pauli_of role)" and ?ss = "sites orient d role" and ?os = "ordered_sites orient d role"
  have pos: "word_pos (?w rc) = first_ix d rc" if "rc \<in> set ?ss" for rc by (rule stab_word_pos [OF that assms(1,2)])
  have inj: "inj_on word_pos (set (map ?w ?ss))"
  proof -
    have "rc = rc'" if "rc \<in> set ?ss" "rc' \<in> set ?ss" "first_ix d rc = first_ix d rc'" for rc rc'
      by (rule first_ix_inj [OF that(1,2) _ that(3) assms(2)]) (use assms(1) in auto)
    then have "inj_on (word_pos \<circ> ?w) (set ?ss)" by (intro inj_onI) (simp only: comp_apply pos)
    then show ?thesis unfolding set_map by (rule inj_on_imageI)
  qed
  have "sorted (map (first_ix d) ?os)" by (simp add: ordered_sites_def)
  moreover have "map word_pos (map ?w ?os) = map (first_ix d) ?os" using pos by simp
  ultimately have "sorted (map word_pos (map ?w ?os))" by (simp only:)
  moreover have "mset (map ?w ?os) = mset (map ?w ?ss)" by (simp add: ordered_sites_def)
  ultimately have "sort_key word_pos (map ?w ?ss) = map ?w ?os"
    using inj sort_key_inj_key_eq [of "map ?w ?ss" "map ?w ?os" word_pos] by metis
  moreover have "sort_key word_pos (map ?w ?ss) = ws"
    using inj assms(3,4) sort_key_inj_key_eq [of "map ?w ?ss" ws word_pos] by metis
  ultimately show ?thesis by simp
qed

lemma sites_nonempty:
  assumes "2 \<le> d" "role \<in> {amx, amz}"
  shows "sites orient d role \<noteq> []"
proof -
  define rc where "rc = (if \<not> site_parity orient role then (1, 1) else if horizontal_boundaries_use_even_parity orient then (1, 0) else (0 :: nat, 1 :: nat))"
  have "site_role orient d (fst rc) (snd rc) = role"
    using assms by (auto simp: rc_def site_role_iff is_site_def)
  then have "rc \<in> set (sites orient d role)" using assms(1) by (auto simp: set_sites rc_def)
  then show ?thesis by auto
qed

lemma ordered_nonempty: "2 \<le> d \<Longrightarrow> role \<in> {amx, amz} \<Longrightarrow> ordered_sites orient d role \<noteq> []"
  using sites_nonempty [of d role orient] by (metis ordered_sites_simps(2) set_empty)

text \<open>The words of both types, and the parity blocks they give.\<close>

lemma surface_parity_blocks:
  assumes "sorts spinOpComparatorStr srt" "\<And>w. gpw (from_word w) = w" "2 \<le> d" "role \<in> {amx, amz}"
    "get_spin_op_stabilizers from_word (grid_of orient d) = Inr stabs"
  shows "to_parity_matrix srt gpw stabs (if role = amx then X_type else Z_type)
    = Inr (mk_mat (length (sites orient d role)) (d * d) (\<lambda>r c. if c \<in> supp d (ordered_sites orient d role ! r) then 1 else 0))"
proof -
  let ?X = "map (stab_word d CHR ''X'') (sites orient d amx)" and ?Z = "map (stab_word d CHR ''Z'') (sites orient d amz)"
  have d: "0 < d" using assms(3) by simp
  have words: "map gpw stabs = ?X @ ?Z"
    using assms(5) unfolding get_spin_op_stabilizers_eq by (auto simp: assms(2) comp_def)
  have hz: "\<not> has_z (stab_word d CHR ''X'' rc)" if "rc \<in> set (sites orient d amx)" for rc
    using stab_word_pos(2) [OF that _ d] by simp
  have hz': "has_z (stab_word d CHR ''Z'' rc)" if "rc \<in> set (sites orient d amz)" for rc
    using stab_word_pos(2) [OF that _ d] by simp
  have flt: "filter has_z (map gpw stabs) = ?Z" "filter (\<lambda>w. \<not> has_z w) (map gpw stabs) = ?X"
    unfolding words using hz hz' by (auto simp: filter_id_conv filter_empty_conv)
  have xmem: "\<forall>w \<in> set (map gpw stabs). has_z w \<or> CHR ''X'' \<in> set w"
  proof -
    have "CHR ''X'' \<in> set (stab_word d CHR ''X'' rc)" if "rc \<in> set (sites orient d amx)" for rc
      using first_ix_supp(1) [OF that d] supp_subset [of d rc] by (auto simp: stab_word_def intro!: pauli_mem)
    then show ?thesis unfolding words using hz' by auto
  qed
  let ?zs = "z_rows srt (map gpw stabs)" and ?xs = "x_rows srt (map gpw stabs)"
  have zs: "?zs = map (stab_word d CHR ''Z'') (ordered_sites orient d amz)"
    using stab_words_ordered [of amz d ?zs orient] mset_rows(1) [OF assms(1), of "map gpw stabs"] z_rows_sorted [OF assms(1)] d
    by (simp add: flt)
  have xs: "?xs = map (stab_word d CHR ''X'') (ordered_sites orient d amx)"
    using stab_words_ordered [of amx d ?xs orient] mset_rows(2) [OF assms(1), of "map gpw stabs"] x_rows_sorted [OF assms(1) xmem] d
    by (simp add: flt)
  have "stabs \<noteq> []" using words sites_nonempty [OF assms(3), of amx orient] by auto
  moreover have "\<forall>s \<in> set stabs. length (gpw s) = d * d"
  proof
    fix s assume "s \<in> set stabs"
    then have "gpw s \<in> set (?X @ ?Z)" using words by (metis image_eqI set_map)
    then show "length (gpw s) = d * d" by (auto simp: stab_word_def)
  qed
  moreover have ne: "?zs \<noteq> []" "?xs \<noteq> []"
    unfolding zs xs map_is_Nil_conv using ordered_nonempty [OF assms(3)] by blast+
  ultimately have rows: "to_parity_matrix srt gpw stabs Z_type = Inr (mk_mat (length ?zs) (d * d) (\<lambda>r c. if ?zs ! r ! c = CHR ''Z'' then 1 else 0))"
    "to_parity_matrix srt gpw stabs X_type = Inr (mk_mat (length ?xs) (d * d) (\<lambda>r c. if ?xs ! r ! c = CHR ''X'' then 1 else 0))"
    using parity_matrix_rows(1,2) [OF assms(1), of stabs gpw "d * d"] by simp_all
  have "stab_word d (pauli_of role) (ordered_sites orient d role ! r) ! c = pauli_of role \<longleftrightarrow> c \<in> supp d (ordered_sites orient d role ! r)"
    if "c < d * d" for r c using that by (simp add: stab_word_def pauli_def)
  then show ?thesis
    using rows assms(4) unfolding zs xs by (auto intro!: mat_eqI [of _ "length (sites orient d role)" "d * d"] simp: mat_simps)
qed

lemma get_cnot_schedule_eq:
  assumes "valid_distance d"
  shows "get_cnot_schedule_x (grid_of orient d) = Inr (mk_mat (length (sites orient d amx)) (d * d)
      (\<lambda>i q. step_at (x_logical_on_top_row orient) d (ordered_sites orient d amx ! i) 4 q))"
    "get_cnot_schedule_z (grid_of orient d) = Inr (mk_mat (length (sites orient d amz)) (d * d)
      (\<lambda>i q. step_at (\<not> x_logical_on_top_row orient) d (ordered_sites orient d amz ! i) 4 q))"
proof -
  have "d * d \<le> (d + 1) * (d + 1)" by (rule mult_le_mono) auto
  then have "u32 (d * d) = d * d" "0 < d" using assms by (simp_all add: valid_distance_def)
  then show "get_cnot_schedule_x (grid_of orient d) = Inr (mk_mat (length (sites orient d amx)) (d * d)
      (\<lambda>i q. step_at (x_logical_on_top_row orient) d (ordered_sites orient d amx ! i) 4 q))"
    "get_cnot_schedule_z (grid_of orient d) = Inr (mk_mat (length (sites orient d amz)) (d * d)
      (\<lambda>i q. step_at (\<not> x_logical_on_top_row orient) d (ordered_sites orient d amz ! i) 4 q))"
    by (simp_all add: get_cnot_schedule_x_def get_cnot_schedule_z_def grid_of_def build_cnot_schedule_eq)
qed

text \<open>
  C23: The CNOT schedules never throw, and their rows are those of the parity matrices of the same
  type: the schedule and the parity matrix have the same shape, and an entry of the schedule is a
  time step (non-zero) exactly where the parity matrix has a one, however the stabilizer words are
  sorted.
\<close>

theorem schedule_matches_parity:
  assumes "valid_distance d" "2 \<le> d" "sorts spinOpComparatorStr srt" "\<And>w. gpw (from_word w) = w"
    "stabilizer_grid_new d orient = Some (Inr g)" "get_spin_op_stabilizers from_word g = Inr stabs"
  shows "\<exists>sx sz px pz m n. get_cnot_schedule_x g = Inr sx \<and> get_cnot_schedule_z g = Inr sz \<and>
    to_parity_matrix srt gpw stabs X_type = Inr px \<and> to_parity_matrix srt gpw stabs Z_type = Inr pz \<and>
    is_mat sx m (d * d) \<and> is_mat px m (d * d) \<and> is_mat sz n (d * d) \<and> is_mat pz n (d * d) \<and>
    (\<forall>r < m. \<forall>c < d * d. ent sx r c \<noteq> 0 \<longleftrightarrow> ent px r c = 1) \<and>
    (\<forall>r < n. \<forall>c < d * d. ent sz r c \<noteq> 0 \<longleftrightarrow> ent pz r c = 1)"
proof -
  have g: "g = grid_of orient d" using stabilizer_grid_new_eq [OF assms(1), of orient] assms(5) by simp
  note stabs = assms(6) [unfolded g]
  have px: "to_parity_matrix srt gpw stabs X_type = Inr (mk_mat (length (sites orient d amx)) (d * d)
      (\<lambda>r c. if c \<in> supp d (ordered_sites orient d amx ! r) then 1 else 0))"
    using surface_parity_blocks [OF assms(3,4,2) _ stabs, of amx] by simp
  have pz: "to_parity_matrix srt gpw stabs Z_type = Inr (mk_mat (length (sites orient d amz)) (d * d)
      (\<lambda>r c. if c \<in> supp d (ordered_sites orient d amz ! r) then 1 else 0))"
    using surface_parity_blocks [OF assms(3,4,2) _ stabs, of amz] by simp
  show ?thesis
    unfolding g
    by (intro exI conjI, rule get_cnot_schedule_eq(1) [OF assms(1)], rule get_cnot_schedule_eq(2) [OF assms(1)], rule px, rule pz)
      (rule is_mat_mk_mat | simp add: mat_simps step_at_nonzero)+
qed

lemma demo_grid_3: "valid_distance 3"
  by (simp add: valid_distance_def max_u32_def)

theorem schedule_matches_parity_witness:
  "\<exists>sx (px :: u8 tensor) m. get_cnot_schedule_x (grid_of ZH 3) = Inr sx \<and> is_mat sx m 9 \<and> is_mat px m 9 \<and>
     (\<forall>r < m. \<forall>c < 9. ent sx r c \<noteq> 0 \<longleftrightarrow> ent px r c = 1)"
proof -
  obtain stabs where s: "get_spin_op_stabilizers (\<lambda>w. w) (grid_of ZH 3) = Inr stabs"
    using get_spin_op_stabilizers_eq [of "\<lambda>w. w" ZH 3] by blast
  have "2 \<le> (3 :: nat)" "w = w" for w :: string by simp_all
  from schedule_matches_parity [OF demo_grid_3 this(1) sorts_std_sort this(2) stabilizer_grid_new_eq [OF demo_grid_3] s]
  obtain sx and px :: "u8 tensor" and m where "get_cnot_schedule_x (grid_of ZH 3) = Inr sx" "is_mat sx m (3 * 3)" "is_mat px m (3 * 3)"
    "\<forall>r < m. \<forall>c < 3 * 3. ent sx r c \<noteq> 0 \<longleftrightarrow> ent px r c = 1"
    by metis
  then show ?thesis by (intro exI [of _ sx] exI [of _ px] exI [of _ m]) simp
qed

section \<open>Conflicts\<close>

lemma corner_conflict:
  assumes "corner b d rc k = Some q" "corner (\<not> b) d rc' k = Some q" "k < 4"
  shows "even (fst rc + snd rc) = even (fst rc' + snd rc')"
proof -
  have "int (fst rc) + fst (schedule_order b ! k) = int (fst rc') + fst (schedule_order (\<not> b) ! k)"
    "int (snd rc) + snd (schedule_order b ! k) = int (snd rc') + snd (schedule_order (\<not> b) ! k)"
    using data_ix_inj [OF assms(1,2) [unfolded corner_def]] by simp_all
  then have "int (fst rc + snd rc) - int (fst rc' + snd rc') = 0"
    using less_4_cases [OF assms(3)]
    by (cases b) (auto simp: schedule_order_def row_major_order_def col_major_order_def)
  then have "fst rc + snd rc = fst rc' + snd rc'" by linarith
  then show ?thesis by simp
qed

lemma corner_same:
  assumes "corner b d rc k = Some q" "corner b d rc' k = Some q"
  shows "rc = rc'"
  using data_ix_inj [OF assms [unfolded corner_def]] by (simp add: prod_eq_iff)

lemma step_value:
  assumes "step_at b d rc 4 q \<noteq> 0"
  obtains k where "k < 4" "step_at b d rc 4 q = of_nat (k + 1)" "corner b d rc k = Some q"
  using assms by (auto simp: step_at_def find_Some_iff split: option.splits)

text \<open>
  C24: The two schedules can be interleaved without conflict: in every time step a data qubit meets
  at most one ancilla, whether of the same or of the other type; and an ancilla meets at most one
  data qubit per step. All steps are between 1 and 4.
\<close>

theorem schedule_conflict_free:
  assumes "valid_distance d" "stabilizer_grid_new d orient = Some (Inr g)"
    "get_cnot_schedule_x g = Inr sx" "get_cnot_schedule_z g = Inr sz" "is_mat sx m (d * d)" "is_mat sz n (d * d)"
    "r < m" "r' < m" "u < n" "u' < n" "q < d * d" "q' < d * d"
  shows "ent sx r q \<le> 4 \<and> ent sz u q \<le> 4 \<and>
    (ent sx r q \<noteq> 0 \<longrightarrow> ent sx r q \<noteq> ent sz u q) \<and>
    (ent sx r q \<noteq> 0 \<longrightarrow> ent sx r q = ent sx r' q \<longrightarrow> r = r') \<and>
    (ent sz u q \<noteq> 0 \<longrightarrow> ent sz u q = ent sz u' q \<longrightarrow> u = u') \<and>
    (ent sx r q \<noteq> 0 \<longrightarrow> ent sx r q = ent sx r q' \<longrightarrow> q = q') \<and>
    (ent sz u q \<noteq> 0 \<longrightarrow> ent sz u q = ent sz u q' \<longrightarrow> q = q')"
proof -
  let ?b = "x_logical_on_top_row orient"
  define X where "X = ordered_sites orient d amx"
  define Z where "Z = ordered_sites orient d amz"
  have g: "g = grid_of orient d" using stabilizer_grid_new_eq [OF assms(1), of orient] assms(2) by simp
  have sx: "sx = mk_mat (length X) (d * d) (\<lambda>i q. step_at ?b d (X ! i) 4 q)"
    and sz: "sz = mk_mat (length Z) (d * d) (\<lambda>i q. step_at (\<not> ?b) d (Z ! i) 4 q)"
    using assms(3,4) unfolding g get_cnot_schedule_eq [OF assms(1)] by (simp_all add: X_def Z_def)
  have len: "m = length X" "n = length Z" using assms(5,6) sx sz by (simp_all add: is_mat_def mk_mat_def)
  have ex: "ent sx i j = step_at ?b d (X ! i) 4 j" if "i < m" "j < d * d" for i j using that len by (simp add: sx mat_simps)
  have ez: "ent sz i j = step_at (\<not> ?b) d (Z ! i) 4 j" if "i < n" "j < d * d" for i j using that len by (simp add: sz mat_simps)
  have le: "step_at c d rc 4 j \<le> 4" for c rc j
  proof (cases "step_at c d rc 4 j = 0")
    case False
    then obtain k where "k < 4" "step_at c d rc 4 j = of_nat (k + 1)" by (rule step_value)
    then show ?thesis using less_4_cases [of k] by auto
  qed simp
  have once: "q = q'" if "step_at c d rc 4 q \<noteq> 0" "step_at c d rc 4 q = step_at c d rc 4 q'" for c rc
    using that step_value [of c d rc q] step_at_eq [of _ c d rc q'] by (metis option.inject)
  have same: "rc = rc'" if "step_at c d rc 4 q \<noteq> 0" "step_at c d rc 4 q = step_at c d rc' 4 q" for c rc rc'
    using that step_value [of c d rc q] step_at_eq [of _ c d rc' q] corner_same by metis
  have roles: "site_role orient d (fst (X ! r)) (snd (X ! r)) = amx" "site_role orient d (fst (Z ! u)) (snd (Z ! u)) = amz"
    using nth_mem [of r X] nth_mem [of u Z] assms(7,9) len by (simp_all add: X_def Z_def set_sites)
  have mixed: "step_at ?b d (X ! r) 4 q \<noteq> step_at (\<not> ?b) d (Z ! u) 4 q" if nz: "step_at ?b d (X ! r) 4 q \<noteq> 0"
  proof
    assume eq: "step_at ?b d (X ! r) 4 q = step_at (\<not> ?b) d (Z ! u) 4 q"
    obtain k where k: "k < 4" "step_at ?b d (X ! r) 4 q = of_nat (k + 1)" "corner ?b d (X ! r) k = Some q"
      using nz by (rule step_value)
    then have "corner (\<not> ?b) d (Z ! u) k = Some q" using eq step_at_eq [OF k(1)] by metis
    then show False using corner_conflict [OF k(3) _ k(1)] roles_parity [OF roles] by blast
  qed
  have "distinct X" "distinct Z" by (simp_all add: X_def Z_def)
  then show ?thesis
    using le mixed once same assms(7-12) len
    by (simp add: ex ez) (metis nth_eq_iff_index_eq)
qed

theorem schedule_conflict_free_witness:
  "\<exists>sx sz. get_cnot_schedule_x (grid_of XV 3) = Inr sx \<and> get_cnot_schedule_z (grid_of XV 3) = Inr sz \<and>
     (ent sx 0 4 \<noteq> 0 \<longrightarrow> ent sx 0 4 \<noteq> ent sz 1 4)"
proof -
  define sx where "sx = mk_mat 4 (3 * 3) (\<lambda>i q. step_at (x_logical_on_top_row XV) 3 (ordered_sites XV 3 amx ! i) 4 q)"
  define sz where "sz = mk_mat 4 (3 * 3) (\<lambda>i q. step_at (\<not> x_logical_on_top_row XV) 3 (ordered_sites XV 3 amz ! i) 4 q)"
  have s: "get_cnot_schedule_x (grid_of XV 3) = Inr sx" "get_cnot_schedule_z (grid_of XV 3) = Inr sz"
    "is_mat sx 4 (3 * 3)" "is_mat sz 4 (3 * 3)"
    using get_cnot_schedule_eq [OF demo_grid_3, of XV] count_sites [of amx 3 XV] count_sites [of amz 3 XV]
    by (simp_all add: sx_def sz_def is_mat_mk_mat)
  from schedule_conflict_free [OF demo_grid_3 stabilizer_grid_new_eq [OF demo_grid_3] s, of 0 0 1 1 4 4] s show ?thesis
    by (intro exI [of _ sx] exI [of _ sz]) simp
qed

end
