(* ===== verification/QEC_Hetmap.thy ===== *)
theory QEC_Hetmap
  imports QEC_Prelude "HOL-Library.AList"
begin

text \<open>
  The parameter map of decoders and codes (heterogeneous_map.h, type_traits.h). A \<open>std::any\<close> is a
  value of the datatype \<open>any\<close>, one constructor per type the library stores; integers keep the
  width of their C++ type. A float is given by the real it was rounded from. The map is an
  association list with one entry per key; its iteration order is the list's.
\<close>

section \<open>Values and types\<close>

datatype any =
    Any_bool bool
  | Any_int "32 word"
  | Any_size "64 word"
  | Any_long "64 word"
  | Any_short "16 word"
  | Any_double real
  | Any_float real
  | Any_string string
  | Any_char_ptr string
  | Any_doubles "real list"
  | Any_sizes "64 word list"
  | Any_map "(string \<times> any) list"

datatype any_type =
    T_bool | T_int | T_size | T_long | T_short | T_double | T_float | T_string | T_char_ptr | T_doubles | T_sizes | T_map

fun type_of :: "any \<Rightarrow> any_type" where
  "type_of (Any_bool _) = T_bool"
| "type_of (Any_int _) = T_int"
| "type_of (Any_size _) = T_size"
| "type_of (Any_long _) = T_long"
| "type_of (Any_short _) = T_short"
| "type_of (Any_double _) = T_double"
| "type_of (Any_float _) = T_float"
| "type_of (Any_string _) = T_string"
| "type_of (Any_char_ptr _) = T_char_ptr"
| "type_of (Any_doubles _) = T_doubles"
| "type_of (Any_sizes _) = T_sizes"
| "type_of (Any_map _) = T_map"

fun RelatedTypesMap :: "any_type \<Rightarrow> any_type list" where
  "RelatedTypesMap T_bool = [T_int, T_long, T_size]"
| "RelatedTypesMap T_int = [T_size, T_long, T_short]"
| "RelatedTypesMap T_size = [T_int, T_long, T_short]"
| "RelatedTypesMap T_long = [T_int, T_size, T_short]"
| "RelatedTypesMap T_short = [T_int, T_long, T_size]"
| "RelatedTypesMap T_double = [T_float]"
| "RelatedTypesMap T_float = [T_double]"
| "RelatedTypesMap T_string = [T_char_ptr]"
| "RelatedTypesMap _ = []"

definition isCastable :: "any_type \<Rightarrow> any \<Rightarrow> bool" where
  "isCastable T v \<longleftrightarrow> type_of v = T"

text \<open>
  The implicit conversion of a related value to the requested type: integers are sign-extended or
  truncated, a boolean is true for every non-zero integer.
\<close>

fun integer_of :: "any \<Rightarrow> int option" where
  "integer_of (Any_int w) = Some (sint w)"
| "integer_of (Any_size w) = Some (uint w)"
| "integer_of (Any_long w) = Some (sint w)"
| "integer_of (Any_short w) = Some (sint w)"
| "integer_of _ = None"

fun any_convert :: "any_type \<Rightarrow> any \<Rightarrow> any option" where
  "any_convert T_bool v = map_option (\<lambda>i. Any_bool (i \<noteq> 0)) (integer_of v)"
| "any_convert T_int v = map_option (\<lambda>i. Any_int (word_of_int i)) (integer_of v)"
| "any_convert T_size v = map_option (\<lambda>i. Any_size (word_of_int i)) (integer_of v)"
| "any_convert T_long v = map_option (\<lambda>i. Any_long (word_of_int i)) (integer_of v)"
| "any_convert T_short v = map_option (\<lambda>i. Any_short (word_of_int i)) (integer_of v)"
| "any_convert T_double (Any_float x) = Some (Any_double x)"
| "any_convert T_float (Any_double x) = Some (Any_float x)"
| "any_convert T_string (Any_char_ptr s) = Some (Any_string s)"
| "any_convert _ _ = None"

section \<open>Operations\<close>

type_synonym heterogeneous_map = "(string \<times> any) list"

definition het_insert :: "string \<Rightarrow> any \<Rightarrow> heterogeneous_map \<Rightarrow> heterogeneous_map" where
  "het_insert key v m = AList.update key v m"

text \<open>A bounded char array is stored as a string.\<close>

definition het_insert_chars :: "string \<Rightarrow> string \<Rightarrow> heterogeneous_map \<Rightarrow> heterogeneous_map" where
  "het_insert_chars key s m = AList.update key (Any_string s) m"

definition het_of_list :: "(string \<times> any) list \<Rightarrow> heterogeneous_map" where
  "het_of_list l = fold (\<lambda>(k, v). het_insert k v) l []"

definition het_get :: "any_type \<Rightarrow> string \<Rightarrow> heterogeneous_map \<Rightarrow> any res" where
  "het_get T key m =
     (case map_of m key of
        None \<Rightarrow> Inl (Runtime_error ''Invalid key.'')
      | Some v \<Rightarrow>
          if isCastable T v then Inr v
          else case find (\<lambda>S. isCastable S v) (RelatedTypesMap T) of
              Some S \<Rightarrow> (case any_convert T v of Some w \<Rightarrow> Inr w | None \<Rightarrow> Inl Undefined_behaviour)
            | None \<Rightarrow> Inl (Runtime_error (''heterogeneous_map::get() error - Invalid type or key ('' @ key @ '').'')))"

fun het_get_keys :: "any_type \<Rightarrow> string list \<Rightarrow> heterogeneous_map \<Rightarrow> any option" where
  "het_get_keys T [] m = None"
| "het_get_keys T (key # keys) m = (case het_get T key m of Inr v \<Rightarrow> Some v | Inl _ \<Rightarrow> het_get_keys T keys m)"

definition join_keys :: "string list \<Rightarrow> string" where
  "join_keys keys = fold (\<lambda>s ss. if ss = [] then s else ss @ '','' @ s) keys []"

definition het_get_any :: "any_type \<Rightarrow> string list \<Rightarrow> heterogeneous_map \<Rightarrow> any res" where
  "het_get_any T keys m =
     (case het_get_keys T keys m of
        Some v \<Rightarrow> Inr v
      | None \<Rightarrow> Inl (Runtime_error (''heterogeneous_map::get(keys) error - Invalid keys ('' @ join_keys keys @ '').'')))"

definition het_get_any_default :: "any_type \<Rightarrow> string list \<Rightarrow> any \<Rightarrow> heterogeneous_map \<Rightarrow> any" where
  "het_get_any_default T keys dflt m = (case het_get_keys T keys m of Some v \<Rightarrow> v | None \<Rightarrow> dflt)"

definition het_get_default :: "any_type \<Rightarrow> string \<Rightarrow> any \<Rightarrow> heterogeneous_map \<Rightarrow> any" where
  "het_get_default T key dflt m = (case het_get T key m of Inr v \<Rightarrow> v | Inl _ \<Rightarrow> dflt)"

definition het_size :: "heterogeneous_map \<Rightarrow> nat" where
  "het_size m = length m"

definition het_empty :: "heterogeneous_map \<Rightarrow> bool" where
  "het_empty m \<longleftrightarrow> m = []"

definition het_contains :: "string \<Rightarrow> heterogeneous_map \<Rightarrow> bool" where
  "het_contains key m \<longleftrightarrow> map_of m key \<noteq> None"

definition het_contains_any :: "string list \<Rightarrow> heterogeneous_map \<Rightarrow> bool" where
  "het_contains_any keys m \<longleftrightarrow> list_ex (\<lambda>key. het_contains key m) keys"

definition het_clear :: "heterogeneous_map \<Rightarrow> heterogeneous_map" where
  "het_clear m = []"

definition validate_config_parameters :: "heterogeneous_map \<Rightarrow> string list \<Rightarrow> string list" where
  "validate_config_parameters config acceptable_types = filter (\<lambda>key. key \<notin> set acceptable_types) (map fst config)"

section \<open>Facts\<close>

definition het_ok :: "heterogeneous_map \<Rightarrow> bool" where
  "het_ok m \<longleftrightarrow> distinct (map fst m)"

lemma het_ok_ops: "het_ok (het_clear m)" "het_ok m \<Longrightarrow> het_ok (het_insert key v m)"
  by (simp_all add: het_ok_def het_clear_def het_insert_def distinct_update)

lemma het_ok_of_list: "het_ok (het_of_list l)"
proof -
  have "het_ok (fold (\<lambda>(k, v). het_insert k v) l m)" if "het_ok m" for m
    using that by (induction l arbitrary: m) (auto simp: het_ok_ops)
  then show ?thesis by (simp add: het_of_list_def het_ok_def)
qed

lemma map_of_het_insert: "map_of (het_insert key v m) = (map_of m)(key \<mapsto> v)"
  by (simp add: het_insert_def update_conv')

lemma het_get_insert_same: "het_get (type_of v) key (het_insert key v m) = Inr v"
  by (simp add: het_get_def map_of_het_insert isCastable_def)

lemma het_get_insert_other: "key' \<noteq> key \<Longrightarrow> het_get T key' (het_insert key v m) = het_get T key' m"
  by (simp add: het_get_def map_of_het_insert)

text \<open>Every related type has a conversion, and the result has the requested type.\<close>

lemma related_convert:
  assumes "type_of v \<in> set (RelatedTypesMap T)"
  shows "\<exists>w. any_convert T v = Some w \<and> type_of w = T"
  using assms by (cases T; cases v) simp_all

lemma find_castable: "find (\<lambda>S. isCastable S v) Ts = (if type_of v \<in> set Ts then Some (type_of v) else None)"
  by (induction Ts) (auto simp: isCastable_def)

lemma het_get_cases:
  "het_get T key m =
     (case map_of m key of
        None \<Rightarrow> Inl (Runtime_error ''Invalid key.'')
      | Some v \<Rightarrow> if type_of v = T then Inr v
          else if type_of v \<in> set (RelatedTypesMap T) then Inr (the (any_convert T v))
          else Inl (Runtime_error (''heterogeneous_map::get() error - Invalid type or key ('' @ key @ '').'')))"
proof (cases "map_of m key")
  case (Some v)
  then show ?thesis using related_convert [of v T] by (auto simp: het_get_def isCastable_def find_castable [unfolded isCastable_def])
qed (simp add: het_get_def)

lemma het_get_type: "het_get T key m = Inr v \<Longrightarrow> type_of v = T"
  using related_convert by (fastforce simp: het_get_cases split: option.splits if_splits)

section \<open>Property\<close>

text \<open>
  The parameter map gives back what was inserted under the same type, leaves other keys alone,
  keeps one entry per key, converts a value of a related type to the requested type and rejects
  every other type; a lookup that succeeds always has the type that was asked for.
\<close>

theorem hetmap_lookup:
  assumes "het_ok m"
  shows "het_ok (het_insert key v m) \<and> het_get (type_of v) key (het_insert key v m) = Inr v \<and>
    (\<forall>key' T. key' \<noteq> key \<longrightarrow> het_get T key' (het_insert key v m) = het_get T key' m) \<and>
    (\<forall>T. T \<noteq> type_of v \<longrightarrow> ((\<exists>w. het_get T key (het_insert key v m) = Inr w) \<longleftrightarrow> type_of v \<in> set (RelatedTypesMap T))) \<and>
    (\<forall>T key' w. het_get T key' (het_insert key v m) = Inr w \<longrightarrow> type_of w = T)"
proof (intro conjI allI impI)
  show "(\<exists>w. het_get T key (het_insert key v m) = Inr w) \<longleftrightarrow> type_of v \<in> set (RelatedTypesMap T)" if "T \<noteq> type_of v" for T
    using that by (simp add: het_get_cases map_of_het_insert)
qed (simp_all add: assms het_ok_ops het_get_insert_same het_get_insert_other het_get_type)

theorem hetmap_lookup_witness:
  "het_get T_size ''depth'' (het_insert ''depth'' (Any_int 3) []) = Inr (Any_size 3) \<and>
   (\<exists>e. het_get T_double ''depth'' (het_insert ''depth'' (Any_int 3) []) = Inl e)"
  using hetmap_lookup [of "[]" "''depth''" "Any_int 3"] by (simp add: het_ok_def het_get_cases map_of_het_insert)

end
