(* ===== verification/QEC_Decoder_Init.thy ===== *)
theory QEC_Decoder_Init
  imports QEC_Dem
begin

text \<open>
  The construction input of decoders (decoder_init.cpp): a handle on an immutable model state built
  from matrices, a detector error model or Stim text. The chunked source is carried as an opaque
  value of type \<open>'c\<close>; building one is not modelled here, and the operation that clears the
  observables of a chunk specification is the parameter \<open>clear_observables\<close>.
\<close>

section \<open>State and construction\<close>

datatype decoder_model_source = Matrices | Stim_dem | Dem_chunks

record 'c decoder_init =
  di_source :: decoder_model_source
  di_num_detectors :: nat
  di_num_error_mechanisms :: nat
  di_num_observables :: nat
  di_has_matrices :: bool
  di_H :: sparse_binary_matrix
  di_O :: "sparse_binary_matrix option"
  di_rates :: "real list"
  di_ids :: "nat list option"
  di_D :: "sparse_binary_matrix option"
  di_raw_stim_dem :: "string option"
  di_chunks :: "'c option"

definition matrices_guard :: "string \<Rightarrow> 'c decoder_init \<Rightarrow> 'c decoder_init res" where
  "matrices_guard accessor st =
     (if \<not> di_has_matrices st
      then Inl (Logic_error (''decoder_init::'' @ accessor @
             '': this dem_chunks source was built without its closed model; construct it with decoder_init::from_dem_chunks_closed()''))
      else Inr st)"

definition validate_model ::
  "sparse_binary_matrix \<Rightarrow> sparse_binary_matrix option \<Rightarrow> real list \<Rightarrow> nat list option \<Rightarrow>
   sparse_binary_matrix option \<Rightarrow> unit res" where
  "validate_model H obs rates ids D =
     rbind (require (case obs of Some m \<Rightarrow> sbm_cols m = sbm_cols H | None \<Rightarrow> True)
              (Invalid_argument ''decoder_init: O column count must match H column count'')) (\<lambda>_.
     rbind (require (rates = [] \<or> length rates = sbm_cols H)
              (Invalid_argument ''decoder_init: error_rates size must match H column count'')) (\<lambda>_.
     rbind (require (case ids of Some xs \<Rightarrow> length xs = sbm_cols H | None \<Rightarrow> True)
              (Invalid_argument ''decoder_init: error_ids size must match H column count'')) (\<lambda>_.
     require (case D of Some m \<Rightarrow> sbm_rows m = sbm_rows H | None \<Rightarrow> True)
       (Invalid_argument ''decoder_init: D row count must match H row count''))))"

definition make_matrix_state ::
  "decoder_model_source \<Rightarrow> sparse_binary_matrix \<Rightarrow> sparse_binary_matrix option \<Rightarrow> real list \<Rightarrow>
   nat list option \<Rightarrow> sparse_binary_matrix option \<Rightarrow> string option \<Rightarrow> 'c decoder_init res" where
  "make_matrix_state source H0 O0 rates ids D0 raw =
     (let H = to_csc H0; obs = map_option to_csr O0; D = map_option to_csr D0 in
      rbind (validate_model H obs rates ids D) (\<lambda>_.
        Inr \<lparr>di_source = source, di_num_detectors = sbm_rows H, di_num_error_mechanisms = sbm_cols H,
             di_num_observables = (case obs of Some m \<Rightarrow> sbm_rows m | None \<Rightarrow> 0), di_has_matrices = True,
             di_H = H, di_O = obs, di_rates = rates, di_ids = ids, di_D = D, di_raw_stim_dem = raw,
             di_chunks = None\<rparr>))"

definition decoder_init_of_H :: "sparse_binary_matrix \<Rightarrow> 'c decoder_init res" where
  "decoder_init_of_H H = make_matrix_state Matrices H None [] None None None"

definition decoder_init_of_matrices ::
  "sparse_binary_matrix \<Rightarrow> sparse_binary_matrix option \<Rightarrow> real list \<Rightarrow> sparse_binary_matrix option \<Rightarrow>
   nat list option \<Rightarrow> 'c decoder_init res" where
  "decoder_init_of_matrices H obs rates measurement_to_detectors ids =
     make_matrix_state Matrices H obs rates ids measurement_to_detectors None"

definition decoder_init_of_dem ::
  "detector_error_model \<Rightarrow> sparse_binary_matrix option \<Rightarrow> 'c decoder_init res" where
  "decoder_init_of_dem model measurement_to_detectors =
     rbind (sparse_from_dense (detector_error_matrix model) CSC) (\<lambda>H.
     rbind (sparse_from_dense (observables_flips_matrix model) CSC) (\<lambda>obs.
       make_matrix_state Matrices H (Some obs) (error_rates model) (error_ids model)
         measurement_to_detectors None))"

definition from_stim_dem ::
  "stim_parser \<Rightarrow> string \<Rightarrow> sparse_binary_matrix option \<Rightarrow> 'c decoder_init res" where
  "from_stim_dem stim stim_dem_text measurement_to_detectors =
     rbind (sparse_dem_from_stim_text stim stim_dem_text) (\<lambda>sd.
       make_matrix_state Stim_dem (sd_detector_error_matrix sd) (Some (sd_observables_flips_matrix sd))
         (sd_error_rates sd) None measurement_to_detectors (Some stim_dem_text))"

section \<open>Accessors\<close>

definition init_detector_error_matrix :: "'c decoder_init \<Rightarrow> sparse_binary_matrix res" where
  "init_detector_error_matrix st = rbind (matrices_guard ''detector_error_matrix'' st) (\<lambda>s. Inr (di_H s))"

definition has_observable_model :: "'c decoder_init \<Rightarrow> bool" where
  "has_observable_model st = (if di_has_matrices st then di_O st \<noteq> None else 0 < di_num_observables st)"

definition observable_flips_matrix :: "'c decoder_init \<Rightarrow> sparse_binary_matrix res" where
  "observable_flips_matrix st =
     (if \<not> has_observable_model st
      then Inl (Logic_error ''decoder_init: no observable mapping was supplied'')
      else rbind (matrices_guard ''observable_flips_matrix'' st) (\<lambda>s.
             case di_O s of Some m \<Rightarrow> Inr m | None \<Rightarrow> Inl Undefined_behaviour))"

definition init_error_rates :: "'c decoder_init \<Rightarrow> real list res" where
  "init_error_rates st = rbind (matrices_guard ''error_rates'' st) (\<lambda>s. Inr (di_rates s))"

definition has_stim_dem :: "'c decoder_init \<Rightarrow> bool" where
  "has_stim_dem st \<longleftrightarrow> di_raw_stim_dem st \<noteq> None"

definition stim_dem :: "'c decoder_init \<Rightarrow> string res" where
  "stim_dem st = (case di_raw_stim_dem st of
     None \<Rightarrow> Inl (Logic_error ''decoder_init: authoritative source is not a Stim DEM'') | Some s \<Rightarrow> Inr s)"

definition has_dem_chunks :: "'c decoder_init \<Rightarrow> bool" where
  "has_dem_chunks st \<longleftrightarrow> di_chunks st \<noteq> None"

definition init_dem_chunks :: "'c decoder_init \<Rightarrow> 'c res" where
  "init_dem_chunks st = (case di_chunks st of
     None \<Rightarrow> Inl (Logic_error ''decoder_init: authoritative source is not a chunked DEM'') | Some c \<Rightarrow> Inr c)"

section \<open>Derived handles\<close>

definition canonicalize_H :: "'c decoder_init \<Rightarrow> 'c decoder_init res" where
  "canonicalize_H st =
     (if di_chunks st \<noteq> None then Inr st
      else rbind (canonicalize (di_H st)) (\<lambda>m.
        make_matrix_state (di_source st) (to_csc m) (di_O st) (di_rates st) (di_ids st) (di_D st) (di_raw_stim_dem st)))"

definition decoder_init_without_d :: "'c decoder_init \<Rightarrow> 'c decoder_init" where
  "decoder_init_without_d st = st\<lparr>di_D := None\<rparr>"

definition without_observables :: "('c \<Rightarrow> 'c) \<Rightarrow> 'c decoder_init \<Rightarrow> 'c decoder_init" where
  "without_observables clear_observables st =
     (let s1 = st\<lparr>di_O := None, di_num_observables := 0\<rparr>;
          s2 = (case di_chunks s1 of Some c \<Rightarrow> s1\<lparr>di_chunks := Some (clear_observables c)\<rparr> | None \<Rightarrow> s1)
      in case di_raw_stim_dem s2 of
           Some _ \<Rightarrow> s2\<lparr>di_raw_stim_dem := None, di_source := Matrices\<rparr>
         | None \<Rightarrow> s2)"

section \<open>Invariant\<close>

text \<open>What a decoder may rely on in a handle: shapes agree and every matrix has the layout it is read in.\<close>

definition opt_all :: "('a \<Rightarrow> bool) \<Rightarrow> 'a option \<Rightarrow> bool" where
  "opt_all P x = (case x of Some y \<Rightarrow> P y | None \<Rightarrow> True)"

lemma opt_all_simps [simp]: "opt_all P None" "opt_all P (Some y) \<longleftrightarrow> P y"
  by (simp_all add: opt_all_def)

definition init_ok :: "'c decoder_init \<Rightarrow> bool" where
  "init_ok st \<longleftrightarrow>
     (di_has_matrices st \<longrightarrow>
        sbm_ok (di_H st) \<and> sbm_layout (di_H st) = CSC \<and> sbm_rows (di_H st) = di_num_detectors st \<and>
        sbm_cols (di_H st) = di_num_error_mechanisms st \<and>
        opt_all (\<lambda>m. sbm_ok m \<and> sbm_layout m = CSR \<and> sbm_cols m = di_num_error_mechanisms st \<and> sbm_rows m = di_num_observables st) (di_O st) \<and>
        (di_O st = None \<longrightarrow> di_num_observables st = 0) \<and>
        (di_rates st = [] \<or> length (di_rates st) = di_num_error_mechanisms st) \<and>
        opt_all (\<lambda>xs. length xs = di_num_error_mechanisms st) (di_ids st)) \<and>
     opt_all (\<lambda>m. sbm_ok m \<and> sbm_layout m = CSR \<and> sbm_rows m = di_num_detectors st) (di_D st)"

lemma validate_model_iff:
  "validate_model H obs rates ids D = Inr u \<longleftrightarrow>
     opt_all (\<lambda>m. sbm_cols m = sbm_cols H) obs \<and> (rates = [] \<or> length rates = sbm_cols H) \<and>
     opt_all (\<lambda>xs. length xs = sbm_cols H) ids \<and> opt_all (\<lambda>m. sbm_rows m = sbm_rows H) D"
  by (auto simp: validate_model_def opt_all_def rbind_Inr_iff)

lemma opt_all_map: "opt_all P (map_option f x) \<longleftrightarrow> opt_all (\<lambda>y. P (f y)) x"
  by (cases x) simp_all

lemma opt_all_cong: "(\<And>y. x = Some y \<Longrightarrow> P y = Q y) \<Longrightarrow> opt_all P x \<longleftrightarrow> opt_all Q x"
  by (cases x) simp_all

lemma make_matrix_state_iff:
  assumes "sbm_ok H" "opt_all sbm_ok obs" "opt_all sbm_ok D"
  shows "(\<exists>st. make_matrix_state src H obs rates ids D raw = Inr st) \<longleftrightarrow>
     opt_all (\<lambda>m. sbm_cols m = sbm_cols H) obs \<and> (rates = [] \<or> length rates = sbm_cols H) \<and>
     opt_all (\<lambda>xs. length xs = sbm_cols H) ids \<and> opt_all (\<lambda>m. sbm_rows m = sbm_rows H) D"
proof -
  have "opt_all (\<lambda>m. sbm_cols (to_csr m) = sbm_cols H) obs \<longleftrightarrow> opt_all (\<lambda>m. sbm_cols m = sbm_cols H) obs"
    "opt_all (\<lambda>m. sbm_rows (to_csr m) = sbm_rows H) D \<longleftrightarrow> opt_all (\<lambda>m. sbm_rows m = sbm_rows H) D"
    using assms(2,3) by (cases obs; cases D; simp add: to_csr_props)+
  then show ?thesis
    by (simp add: make_matrix_state_def Let_def rbind_Inr_iff validate_model_iff opt_all_map to_csc_props [OF assms(1)])
qed

lemma make_matrix_state_ok:
  assumes "sbm_ok H" "opt_all sbm_ok obs" "opt_all sbm_ok D" "make_matrix_state src H obs rates ids D raw = Inr st"
  shows "init_ok st" "di_H st = to_csc H" "di_O st = map_option to_csr obs" "di_D st = map_option to_csr D"
    "di_rates st = rates" "di_ids st = ids" "di_raw_stim_dem st = raw" "di_source st = src" "di_chunks st = None" "di_has_matrices st"
proof -
  have st: "st = \<lparr>di_source = src, di_num_detectors = sbm_rows (to_csc H), di_num_error_mechanisms = sbm_cols (to_csc H),
             di_num_observables = (case map_option to_csr obs of Some m \<Rightarrow> sbm_rows m | None \<Rightarrow> 0), di_has_matrices = True,
             di_H = to_csc H, di_O = map_option to_csr obs, di_rates = rates, di_ids = ids, di_D = map_option to_csr D,
             di_raw_stim_dem = raw, di_chunks = None\<rparr>"
    and v: "validate_model (to_csc H) (map_option to_csr obs) rates ids (map_option to_csr D) = Inr ()"
    using assms(4) by (auto simp: make_matrix_state_def Let_def rbind_Inr_iff)
  show "di_H st = to_csc H" "di_O st = map_option to_csr obs" "di_D st = map_option to_csr D" "di_rates st = rates"
    "di_ids st = ids" "di_raw_stim_dem st = raw" "di_source st = src" "di_chunks st = None" "di_has_matrices st"
    by (simp_all add: st)
  show "init_ok st"
    using v assms(2,3) to_csc_props [OF assms(1)]
    by (cases obs; cases D) (simp_all add: st init_ok_def validate_model_iff to_csr_props)
qed

lemma canonicalize_H_ok:
  assumes "init_ok st" "di_has_matrices st" "di_chunks st = None"
  shows "\<exists>st'. canonicalize_H st = Inr st' \<and> init_ok st' \<and> canonical (di_H st') \<and>
    (\<forall>r < di_num_detectors st. \<forall>c < di_num_error_mechanisms st. mult_at (di_H st') r c = mult_at (di_H st) r c mod 2)"
proof -
  let ?H = "di_H st"
  have ok: "sbm_ok ?H" "sbm_layout ?H = CSC" "sbm_rows ?H = di_num_detectors st" "sbm_cols ?H = di_num_error_mechanisms st"
    "opt_all sbm_ok (di_O st)" "opt_all sbm_ok (di_D st)"
    using assms(1,2) by (cases "di_O st"; cases "di_D st"; simp add: init_ok_def)+
  have r: "to_csc (reduced ?H) = reduced ?H" "sbm_ok (reduced ?H)" using reduced_props [OF ok(1)] ok(2) by (simp_all add: to_csc_def)
  have "\<exists>st'. make_matrix_state (di_source st) (reduced ?H) (di_O st) (di_rates st) (di_ids st) (di_D st) (di_raw_stim_dem st)
      = (Inr st' :: 'a decoder_init res)"
    unfolding make_matrix_state_iff [OF r(2) ok(5,6)]
    using assms(1,2) reduced_props [OF ok(1)] ok by (cases "di_O st"; cases "di_D st") (simp_all add: init_ok_def)
  then obtain st' :: "'a decoder_init" where st':
    "make_matrix_state (di_source st) (reduced ?H) (di_O st) (di_rates st) (di_ids st) (di_D st) (di_raw_stim_dem st) = Inr st'" by blast
  then have "canonicalize_H st = Inr st'"
    using assms(3) by (simp add: canonicalize_H_def canonicalize_eq_reduced [OF ok(1)] r(1))
  moreover have "di_H st' = reduced ?H" using make_matrix_state_ok(2) [OF r(2) ok(5,6) st'] r(1) by simp
  ultimately show ?thesis
    using make_matrix_state_ok(1) [OF r(2) ok(5,6) st'] canonical_reduced [OF ok(1)] mult_reduced [OF ok(1)] ok(3,4) by auto
qed

lemma init_ok_without_d: "init_ok st \<Longrightarrow> init_ok (decoder_init_without_d st)"
  by (simp add: init_ok_def decoder_init_without_d_def)

lemma init_ok_without_observables: "init_ok st \<Longrightarrow> init_ok (without_observables f st)"
  by (auto simp: init_ok_def without_observables_def Let_def split: option.splits)

lemma has_observable_model_without: "\<not> has_observable_model (without_observables f st)"
  by (auto simp: has_observable_model_def without_observables_def Let_def split: option.splits)

section \<open>Property\<close>

text \<open>
  C22: A decoder input is built from matrices exactly when their shapes agree, and every handle built
  or derived (dropping the measurement map, dropping the observables, canonicalising H) satisfies the
  invariant the decoders rely on. Canonicalising always succeeds and keeps H over GF(2); a handle
  without observables reports none.
\<close>

theorem decoder_init_invariant:
  assumes "sbm_ok H" "opt_all sbm_ok obs" "opt_all sbm_ok D"
  shows "((\<exists>st :: 'c decoder_init. make_matrix_state src H obs rates ids D raw = Inr st) \<longleftrightarrow>
      opt_all (\<lambda>m. sbm_cols m = sbm_cols H) obs \<and> (rates = [] \<or> length rates = sbm_cols H) \<and>
      opt_all (\<lambda>xs. length xs = sbm_cols H) ids \<and> opt_all (\<lambda>m. sbm_rows m = sbm_rows H) D) \<and>
    (\<forall>st :: 'c decoder_init. make_matrix_state src H obs rates ids D raw = Inr st \<longrightarrow>
      init_ok st \<and> init_ok (decoder_init_without_d st) \<and> init_ok (without_observables f st) \<and>
      \<not> has_observable_model (without_observables f st) \<and>
      (\<exists>st'. canonicalize_H st = Inr st' \<and> init_ok st' \<and> canonical (di_H st') \<and>
        (\<forall>r < sbm_rows H. \<forall>c < sbm_cols H. mult_at (di_H st') r c = mult_at H r c mod 2)))"
proof (intro conjI allI impI)
  show "(\<exists>st :: 'c decoder_init. make_matrix_state src H obs rates ids D raw = Inr st) \<longleftrightarrow>
      opt_all (\<lambda>m. sbm_cols m = sbm_cols H) obs \<and> (rates = [] \<or> length rates = sbm_cols H) \<and>
      opt_all (\<lambda>xs. length xs = sbm_cols H) ids \<and> opt_all (\<lambda>m. sbm_rows m = sbm_rows H) D"
    by (rule make_matrix_state_iff [OF assms])
  fix st :: "'c decoder_init"
  assume st: "make_matrix_state src H obs rates ids D raw = Inr st"
  note ok = make_matrix_state_ok [OF assms st]
  show "init_ok st" "init_ok (decoder_init_without_d st)" "init_ok (without_observables f st)"
    "\<not> has_observable_model (without_observables f st)"
    using ok(1) by (simp_all add: init_ok_without_d init_ok_without_observables has_observable_model_without)
  have "di_num_detectors st = sbm_rows H" "di_num_error_mechanisms st = sbm_cols H"
    using ok(1,2,10) to_csc_props [OF assms(1)] by (simp_all add: init_ok_def)
  then show "\<exists>st'. canonicalize_H st = Inr st' \<and> init_ok st' \<and> canonical (di_H st') \<and>
      (\<forall>r < sbm_rows H. \<forall>c < sbm_cols H. mult_at (di_H st') r c = mult_at H r c mod 2)"
    using canonicalize_H_ok [OF ok(1,10,9)] ok(2) to_csc_props(5) [OF assms(1)] by auto
qed

theorem decoder_init_invariant_witness:
  "\<exists>st :: unit decoder_init. make_matrix_state Matrices demo_csc None [] None None None = Inr st"
  using decoder_init_invariant [OF demo_csc_ok, of None None Matrices "[]" None None "id :: unit \<Rightarrow> unit"] by simp

end
