(* ===== verification/QEC_Decoder.thy ===== *)
theory QEC_Decoder
  imports QEC_Decoder_Init QEC_Hetmap
begin

text \<open>
  The decoder base class (decoder.h, decoder.cpp): conversions between hard and soft values, the
  realtime buffer that collects measurements round by round and decodes when a shot is complete,
  the projection of error frames onto observables, and the factory. The virtual \<open>decode\<close> of the
  concrete decoder is the parameter \<open>dec\<close>, acting on a plug-in state \<open>'p\<close>; the map from a
  chunk specification to its observable map is the parameter \<open>o_chunked\<close>. Logging and timing are
  left out. A thrown exception ends the call; the partially updated object is not described.
\<close>

unbundle bit_operations_syntax

section \<open>Conversions\<close>

definition convert_soft_to_hard :: "real \<Rightarrow> real \<Rightarrow> bool" where
  "convert_soft_to_hard x thresh \<longleftrightarrow> thresh \<le> x"

definition convert_vec_soft_to_hard :: "real list \<Rightarrow> real \<Rightarrow> u8 list" where
  "convert_vec_soft_to_hard xs thresh = map (\<lambda>x. if convert_soft_to_hard x thresh then 1 else 0) xs"

definition convert_vec_soft_to_tensor_hard :: "real list \<Rightarrow> u8 tensor \<Rightarrow> real \<Rightarrow> u8 tensor res" where
  "convert_vec_soft_to_tensor_hard xs out0 thresh =
     (let out = (if shape out0 = [] then tensor_new [length xs] else out0) in
      if tensor_rank out \<noteq> 1 then Inl (Runtime_error ''Vector to tensor conversion requires rank-1 tensor'')
      else if shape out ! 0 \<noteq> length xs
      then Inl (Runtime_error ''Vector to tensor conversion requires tensor dim == vector length'')
      else Inr (out\<lparr>data := convert_vec_soft_to_hard xs thresh\<rparr>))"

definition convert_vec_hard_to_soft :: "u8 list \<Rightarrow> real \<Rightarrow> real \<Rightarrow> real list" where
  "convert_vec_hard_to_soft xs true_val false_val = map (\<lambda>x. if x \<noteq> 0 then true_val else false_val) xs"

definition convert_mat_soft_to_hard :: "real list list \<Rightarrow> real \<Rightarrow> u8 list list" where
  "convert_mat_soft_to_hard rows thresh = map (\<lambda>r. convert_vec_soft_to_hard r thresh) rows"

definition convert_mat_hard_to_soft :: "u8 list list \<Rightarrow> real \<Rightarrow> real \<Rightarrow> real list list" where
  "convert_mat_hard_to_soft rows true_val false_val = map (\<lambda>r. convert_vec_hard_to_soft r true_val false_val) rows"

section \<open>Observable map of a chunked model\<close>

record chunked_observable_map =
  com_columns :: "sparse_binary_matrix list"
  com_repeating :: nat
  com_repeat_count :: nat

text \<open>The pairs \<open>(column, observable)\<close> for which \<open>on_flip\<close> is called, in order.\<close>

fun walk_chunks :: "nat \<Rightarrow> (nat \<Rightarrow> bool) \<Rightarrow> sparse_binary_matrix list \<Rightarrow> nat \<Rightarrow> (nat \<times> nat) list" where
  "walk_chunks num_columns is_set [] column = []"
| "walk_chunks num_columns is_set (chunk # chunks) column =
     concat (map (\<lambda>loc. if num_columns \<le> column + loc \<or> \<not> is_set (column + loc) then []
                        else map (Pair (column + loc)) (vslice (sbm_ptr chunk ! loc) (sbm_ptr chunk ! (loc + 1)) (sbm_idx chunk)))
               [0..<sbm_cols chunk]) @ walk_chunks num_columns is_set chunks (column + sbm_cols chunk)"

definition visits :: "chunked_observable_map \<Rightarrow> sparse_binary_matrix list" where
  "visits m = concat (map (\<lambda>e. replicate (if e = com_repeating m then com_repeat_count m else 1) (com_columns m ! e))
     [0..<length (com_columns m)])"

definition for_each_flip :: "chunked_observable_map \<Rightarrow> nat \<Rightarrow> (nat \<Rightarrow> bool) \<Rightarrow> (nat \<times> nat) list" where
  "for_each_flip m num_columns is_set = walk_chunks num_columns is_set (visits m) 0"

definition num_error_columns :: "chunked_observable_map \<Rightarrow> nat" where
  "num_error_columns m = sum_list (map (\<lambda>e. sbm_cols (com_columns m ! e) *
     (if e = com_repeating m then com_repeat_count m else 1)) [0..<length (com_columns m)])"

section \<open>State\<close>

datatype decode_result_type = Errors | Observables

text \<open>The auxiliary outputs are a set of flags; \<open>residual_detectors\<close> is the only one there is.\<close>

record decoder_output_request =
  primary :: decode_result_type
  auxiliary :: u8

definition residual_detectors :: u8 where
  "residual_detectors = 1"

definition requests :: "u8 \<Rightarrow> decoder_output_request \<Rightarrow> bool" where
  "requests output rq \<longleftrightarrow> output \<noteq> 0 \<and> auxiliary rq AND output = output"

definition has_auxiliary_outputs :: "decoder_output_request \<Rightarrow> bool" where
  "has_auxiliary_outputs rq \<longleftrightarrow> auxiliary rq \<noteq> 0"

record decoder_result =
  converged :: bool
  decoded :: "real list"
  opt_results :: "heterogeneous_map option"

text \<open>The equality operator of results: a non-empty map of optional results makes them different.\<close>

definition result_equal :: "decoder_result \<Rightarrow> decoder_result \<Rightarrow> bool" where
  "result_equal r s \<longleftrightarrow> converged r = converged s \<and> decoded r = decoded s \<and>
     (case opt_results r of None \<Rightarrow> True | Some m \<Rightarrow> het_size m = 0) \<and>
     (case opt_results s of None \<Rightarrow> True | Some m \<Rightarrow> het_size m = 0)"

type_synonym 'p decode_fn = "'p \<Rightarrow> real list \<Rightarrow> (decoder_result \<times> 'p) res"

record rt_impl =
  num_msyn_per_decode :: nat
  msyn_buffer_index :: nat
  msyn_buffer :: "u8 list"
  corrections :: "u8 list"
  persistent_detector_buffer :: "u8 list"
  persistent_soft_detector_buffer :: "real list"
  chunk_observables :: "chunked_observable_map option"
  detector_ready_order :: "(nat \<times> nat) list"
  detector_ready_cursor :: nat
  decoder_id :: nat
  round_streaming_initialized :: bool
  measurement_to_detectors :: "nat list list"
  num_syndromes_per_round :: nat
  has_first_round_detectors :: bool
  current_round :: nat
  detector_layer_offsets :: "nat list"
  detector_layer_index :: nat

record ('c, 'p) decoder =
  pimpl :: rt_impl
  inputs :: "'c decoder_init"
  output_primary :: decode_result_type
  syndrome_size :: nat
  block_size :: nat
  plugin :: 'p

definition get_num_observables :: "('c, 'p) decoder \<Rightarrow> nat" where
  "get_num_observables d = di_num_observables (inputs d)"

definition get_num_msyn_per_decode :: "('c, 'p) decoder \<Rightarrow> nat" where
  "get_num_msyn_per_decode d = num_msyn_per_decode (pimpl d)"

definition set_decoder_id :: "nat \<Rightarrow> ('c, 'p) decoder \<Rightarrow> ('c, 'p) decoder" where
  "set_decoder_id i d = d\<lparr>pimpl := (pimpl d)\<lparr>decoder_id := i\<rparr>\<rparr>"

definition get_decoder_id :: "('c, 'p) decoder \<Rightarrow> nat" where
  "get_decoder_id d = decoder_id (pimpl d)"

definition get_obs_corrections :: "('c, 'p) decoder \<Rightarrow> u8 list" where
  "get_obs_corrections d = corrections (pimpl d)"

definition clear_corrections :: "('c, 'p) decoder \<Rightarrow> ('c, 'p) decoder" where
  "clear_corrections d = d\<lparr>pimpl := (pimpl d)\<lparr>corrections := replicate (get_num_observables d) 0\<rparr>\<rparr>"

definition reset_decoder :: "('c, 'p) decoder \<Rightarrow> ('c, 'p) decoder" where
  "reset_decoder d = d\<lparr>pimpl := (pimpl d)\<lparr>msyn_buffer_index := 0, current_round := 0, detector_layer_index := 0,
     detector_ready_cursor := 0, msyn_buffer := replicate (num_msyn_per_decode (pimpl d)) 0,
     corrections := replicate (get_num_observables d) 0\<rparr>\<rparr>"

definition columns_needed :: "nat list \<Rightarrow> nat" where
  "columns_needed cols = fold (\<lambda>column need. max need (u32 (column + 1))) cols 0"

definition ready_order :: "nat list list \<Rightarrow> (nat \<times> nat) list" where
  "ready_order rows = std_sort pair_less (map (\<lambda>det. (columns_needed (rows ! det), det)) [0..<length rows])"

definition decoder_new ::
  "('c \<Rightarrow> chunked_observable_map res) \<Rightarrow> 'c decoder_init \<Rightarrow> decode_result_type \<Rightarrow> 'p \<Rightarrow> ('c, 'p) decoder res" where
  "decoder_new o_chunked init result_type p =
     (let rows = (case di_D init of Some D \<Rightarrow> to_nested_csr D | None \<Rightarrow> []);
          n = (case di_D init of Some D \<Rightarrow> sbm_cols D | None \<Rightarrow> 0);
          order = (case di_D init of Some D \<Rightarrow> ready_order rows | None \<Rightarrow> [])
      in rbind (if \<not> di_has_matrices init \<and> has_observable_model init \<and> has_dem_chunks init
                then rbind (init_dem_chunks init) (\<lambda>c. rbind (o_chunked c) (\<lambda>m. Inr (Some m)))
                else Inr None) (\<lambda>chunk_obs.
         Inr (reset_decoder
           \<lparr>pimpl = \<lparr>num_msyn_per_decode = n, msyn_buffer_index = 0, msyn_buffer = [], corrections = [],
               persistent_detector_buffer = replicate (di_num_detectors init) 0,
               persistent_soft_detector_buffer = replicate (di_num_detectors init) 0,
               chunk_observables = chunk_obs, detector_ready_order = order, detector_ready_cursor = 0, decoder_id = 0,
               round_streaming_initialized = False, measurement_to_detectors = rows, num_syndromes_per_round = 0,
               has_first_round_detectors = False, current_round = 0, detector_layer_offsets = [], detector_layer_index = 0\<rparr>,
            inputs = init, output_primary = result_type, syndrome_size = di_num_detectors init,
            block_size = di_num_error_mechanisms init, plugin = p\<rparr>)))"

section \<open>Decode calls\<close>

definition decode_tensor :: "'p decode_fn \<Rightarrow> u8 tensor \<Rightarrow> ('c, 'p) decoder \<Rightarrow> (decoder_result \<times> ('c, 'p) decoder) res" where
  "decode_tensor dec syndrome d =
     (if tensor_rank syndrome \<noteq> 1 then Inl (Runtime_error ''Decode requires rank-1 tensors'')
      else rbind (dec (plugin d) (convert_vec_hard_to_soft (take (shape syndrome ! 0) (data syndrome)) 1 0)) (\<lambda>(r, p).
        Inr (r, d\<lparr>plugin := p\<rparr>)))"

fun decode_batch :: "'p decode_fn \<Rightarrow> real list list \<Rightarrow> ('c, 'p) decoder \<Rightarrow> (decoder_result list \<times> ('c, 'p) decoder) res" where
  "decode_batch dec [] d = Inr ([], d)"
| "decode_batch dec (s # ss) d =
     rbind (dec (plugin d) s) (\<lambda>(r, p). rbind (decode_batch dec ss (d\<lparr>plugin := p\<rparr>)) (\<lambda>(rs, d'). Inr (r # rs, d')))"

text \<open>The parity of the error frame on each row of O; \<open>old\<close> is the previous content of the buffer.\<close>

definition row_parity :: "(nat \<Rightarrow> real res) \<Rightarrow> nat list \<Rightarrow> bool res" where
  "row_parity err cols = rfold (\<lambda>c parity. rbind (err c) (\<lambda>e. Inr (parity \<noteq> convert_soft_to_hard e (1/2)))) cols False"

definition toggle_observable :: "nat \<times> nat \<Rightarrow> real list \<Rightarrow> real list" where
  "toggle_observable co obs =
     (if snd co < length obs then obs[snd co := (if obs ! snd co \<noteq> 0 then 0 else 1)] else obs)"

definition project_errors_to_observables :: "real list \<Rightarrow> nat \<Rightarrow> ('c, 'p) decoder \<Rightarrow> real list res" where
  "project_errors_to_observables errors observables_size d =
     (if \<not> has_observable_model (inputs d)
      then Inl (Runtime_error ''decoder was asked to project an error frame onto observables but its model supplies no observable mapping'')
      else case chunk_observables (pimpl d) of
        Some m \<Rightarrow> if length errors < block_size d then Inl Undefined_behaviour
                  else Inr (fold toggle_observable
                    (for_each_flip m (block_size d) (\<lambda>c. convert_soft_to_hard (errors ! c) (1/2)))
                    (replicate observables_size 0))
      | None \<Rightarrow> rbind (observable_flips_matrix (inputs d)) (\<lambda>obs.
          rfold (\<lambda>row out. rbind (vget (sbm_ptr obs) row) (\<lambda>b. rbind (vget (sbm_ptr obs) (row + 1)) (\<lambda>e.
              rbind (row_parity (vget errors) (vslice b e (sbm_idx obs))) (\<lambda>parity.
                vset out row (if parity then 1 else 0)))))
            [0..<sbm_rows obs] (replicate observables_size 0)))"

section \<open>Realtime syndromes\<close>

definition detector_value :: "u8 list \<Rightarrow> nat list \<Rightarrow> u8 res" where
  "detector_value buf cols = rfold (\<lambda>col v. rbind (vget buf col) (\<lambda>m. Inr (v XOR m))) cols 0"

definition resolve_one :: "rt_impl \<Rightarrow> rt_impl res" where
  "resolve_one p =
     (let det = snd (detector_ready_order p ! detector_ready_cursor p) in
      rbind (vget (measurement_to_detectors p) det) (\<lambda>cols.
      rbind (detector_value (msyn_buffer p) cols) (\<lambda>v.
      rbind (vset (persistent_detector_buffer p) det v) (\<lambda>buf.
        Inr (p\<lparr>persistent_detector_buffer := buf, detector_ready_cursor := detector_ready_cursor p + 1\<rparr>)))))"

lemma resolve_one_progress:
  "resolve_one p = Inr p' \<Longrightarrow> detector_ready_cursor p' = detector_ready_cursor p + 1 \<and> detector_ready_order p' = detector_ready_order p"
  by (auto simp: resolve_one_def Let_def rbind_Inr_iff)

function resolve_ready_detectors :: "nat \<Rightarrow> rt_impl \<Rightarrow> rt_impl res" where
  "resolve_ready_detectors columns_available p =
     (if detector_ready_cursor p < length (detector_ready_order p) \<and>
         fst (detector_ready_order p ! detector_ready_cursor p) \<le> columns_available
      then (case resolve_one p of Inl e \<Rightarrow> Inl e | Inr p' \<Rightarrow> resolve_ready_detectors columns_available p')
      else Inr p)"
  by pat_completeness auto
termination
  by (relation "measure (\<lambda>(c, p). length (detector_ready_order p) - detector_ready_cursor p)")
    (auto dest!: resolve_one_progress)

declare resolve_ready_detectors.simps [simp del]

definition initialize_streaming_layout :: "nat \<Rightarrow> nat list \<Rightarrow> ('c, 'p) decoder \<Rightarrow> ('c, 'p) decoder res" where
  "initialize_streaming_layout num_syndromes offsets d =
     (let p = pimpl d in
      if round_streaming_initialized p
      then Inl (Logic_error ''initialize_streaming_layout() is construction state and may be called only once'')
      else if offsets = []
      then Inl (Invalid_argument ''initialize_streaming_layout() requires at least one detector layer'')
      else if last offsets \<noteq> syndrome_size d
      then Inl (Invalid_argument ''detector layer offsets end at {} but the model has {} detectors'')
      else Inr (d\<lparr>pimpl := p\<lparr>num_syndromes_per_round := num_syndromes,
             has_first_round_detectors := (measurement_to_detectors p \<noteq> [] \<and> length (measurement_to_detectors p ! 0) = 1),
             detector_layer_offsets := offsets, detector_layer_index := 0, current_round := 0,
             persistent_detector_buffer := take num_syndromes (persistent_detector_buffer p @ replicate num_syndromes 0),
             persistent_soft_detector_buffer := take num_syndromes (persistent_soft_detector_buffer p @ replicate num_syndromes 0),
             detector_ready_cursor := 0, round_streaming_initialized := True\<rparr>\<rparr>))"

text \<open>The detector layer of the current round, in the streaming layout.\<close>

definition next_layer :: "rt_impl \<Rightarrow> rt_impl res" where
  "next_layer p =
     (let k = detector_layer_index p in
      rbind (vget (detector_layer_offsets p) k) (\<lambda>off.
      rbind (vget (detector_layer_offsets p) (k + 1)) (\<lambda>off_end.
      rbind (rmap (\<lambda>j. rbind (vget (measurement_to_detectors p) (off + j)) (detector_value (msyn_buffer p)))
               [0..<sz_sub off_end off]) (\<lambda>buf.
        Inr (p\<lparr>detector_layer_index := k + 1, persistent_detector_buffer := buf\<rparr>)))))"

definition flip_correction :: "nat \<Rightarrow> u8 list \<Rightarrow> u8 list res" where
  "flip_correction i cs = rbind (vget cs i) (\<lambda>c. vset cs i (c XOR 1))"

text \<open>Applying a decoded result to the corrections.\<close>

definition apply_result :: "real list \<Rightarrow> ('c, 'p) decoder \<Rightarrow> u8 list \<Rightarrow> u8 list res" where
  "apply_result frame d cs =
     (case output_primary d of
        Observables \<Rightarrow> rfold (\<lambda>i cs. rbind (vget frame i) (\<lambda>v. if v \<noteq> 0 then flip_correction i cs else Inr cs))
                         [0..<get_num_observables d] cs
      | Errors \<Rightarrow>
         (if \<not> has_observable_model (inputs d)
          then Inl (Runtime_error ''Error-frame decoders need an observable model to project through; this one was constructed without one'')
          else case chunk_observables (pimpl d) of
            Some m \<Rightarrow> rfold (\<lambda>co cs. if snd co < get_num_observables d then flip_correction (snd co) cs else Inr cs)
                        (for_each_flip m (length frame) (\<lambda>c. frame ! c \<noteq> 0)) cs
          | None \<Rightarrow> rbind (observable_flips_matrix (inputs d)) (\<lambda>obs.
              rfold (\<lambda>i cs. rbind (vget (sbm_ptr obs) i) (\<lambda>b. rbind (vget (sbm_ptr obs) (i + 1)) (\<lambda>e.
                  rfold (\<lambda>c cs. rbind (vget frame c) (\<lambda>v. if v \<noteq> 0 then flip_correction i cs else Inr cs))
                    (vslice b e (sbm_idx obs)) cs)))
                [0..<get_num_observables d] cs)))"

definition decode_now :: "'p decode_fn \<Rightarrow> rt_impl \<Rightarrow> ('c, 'p) decoder \<Rightarrow> (bool \<times> ('c, 'p) decoder) res" where
  "decode_now dec p d =
     rbind (if \<not> round_streaming_initialized p then resolve_ready_detectors (num_msyn_per_decode p) p else next_layer p) (\<lambda>p1.
     let soft = convert_vec_hard_to_soft (persistent_detector_buffer p1) 1 0;
         p2 = p1\<lparr>persistent_soft_detector_buffer := soft\<rparr> in
     rbind (dec (plugin d) soft) (\<lambda>(r, plug).
       let frame = decoded r; streaming = round_streaming_initialized p2;
           expected = (case output_primary d of Errors \<Rightarrow> block_size d | Observables \<Rightarrow> get_num_observables d) in
       if streaming \<and> frame = [] then Inr (False, d\<lparr>pimpl := p2, plugin := plug\<rparr>)
       else if \<not> streaming \<and> length frame \<noteq> expected \<or> streaming \<and> frame \<noteq> [] \<and> length frame \<noteq> expected
       then Inl (Runtime_error ''Decoder result size ({}) does not match expected size ({}) for result type {}'')
       else rbind (apply_result frame d (corrections p2)) (\<lambda>cs.
         Inr (True, d\<lparr>pimpl := p2\<lparr>corrections := cs, msyn_buffer_index := 0, current_round := 0,
                       detector_layer_index := 0, detector_ready_cursor := 0\<rparr>, plugin := plug\<rparr>))))"

definition enqueue_syndrome :: "'p decode_fn \<Rightarrow> u8 list \<Rightarrow> ('c, 'p) decoder \<Rightarrow> (bool \<times> ('c, 'p) decoder) res" where
  "enqueue_syndrome dec syndrome d =
     (let p = pimpl d in
      if length (msyn_buffer p) < msyn_buffer_index p + length syndrome then Inr (False, d)
      else
        let p1 = p\<lparr>current_round := u32 (current_round p + 1)\<rparr> in
        rbind (if syndrome \<noteq> []
               then rbind (mem_copy (msyn_buffer p1) (msyn_buffer_index p1) syndrome 0 (length syndrome)) (\<lambda>buf.
                      Inr (p1\<lparr>msyn_buffer := buf, msyn_buffer_index := u32 (msyn_buffer_index p1 + length syndrome)\<rparr>))
               else Inr p1) (\<lambda>p2.
        rbind (if \<not> round_streaming_initialized p2
               then resolve_ready_detectors (msyn_buffer_index p2) p2 else Inr p2) (\<lambda>p3.
        let should_decode =
          (if \<not> round_streaming_initialized p3 then msyn_buffer_index p3 = length (msyn_buffer p3)
           else 2 \<le> current_round p3 \<or> current_round p3 = 1 \<and> has_first_round_detectors p3) in
        if should_decode then decode_now dec p3 d else Inr (False, d\<lparr>pimpl := p3\<rparr>))))"

end
