(* ===== verification/QEC_Decoder_Theorems.thy ===== *)
theory QEC_Decoder_Theorems
  imports QEC_Decoder
begin

text \<open>
  The realtime path of the decoder base class: whatever way a shot is split into rounds, the
  concrete decoder sees the detector values of the whole shot, and the corrections change by
  the projection of its result. The locale \<open>decode_plugin\<close> is the contract a concrete decoder
  has to meet for the base class to serve any sequence of shots without error.
\<close>

unbundle bit_operations_syntax

section \<open>Detector values\<close>

definition xor_at :: "u8 list \<Rightarrow> nat list \<Rightarrow> u8" where
  "xor_at buf cols = fold (\<lambda>c v. v XOR buf ! c) cols 0"

lemma detector_value_eq:
  assumes "\<forall>c \<in> set cols. c < length buf"
  shows "detector_value buf cols = Inr (xor_at buf cols)"
proof -
  have "rfold (\<lambda>col v. rbind (vget buf col) (\<lambda>m. Inr (v XOR m))) cols v = Inr (fold (\<lambda>c v. v XOR buf ! c) cols v)" for v
    using assms by (induction cols arbitrary: v) auto
  then show ?thesis by (simp add: detector_value_def xor_at_def)
qed

lemma xor_at_cong: "(\<And>c. c \<in> set cols \<Longrightarrow> buf ! c = buf' ! c) \<Longrightarrow> xor_at buf cols = xor_at buf' cols"
  unfolding xor_at_def by (rule fold_cong) auto

lemma columns_needed_bounds:
  assumes "\<forall>c \<in> set cols. c < n" "n \<le> max_u32"
  shows "columns_needed cols \<le> n" "c \<in> set cols \<Longrightarrow> c < columns_needed cols"
proof -
  have u: "u32 (c + 1) = c + 1" if "c \<in> set cols" for c using assms that by (intro u32_id) auto
  have gen: "fold (\<lambda>column need. max need (u32 (column + 1))) cs a = fold (\<lambda>column need. max need (column + 1)) cs a"
    if "set cs \<subseteq> set cols" for cs a
    using that u by (intro fold_cong) (auto simp: fun_eq_iff)
  have le: "fold (\<lambda>column need. max need (column + 1)) cs a \<le> n" if "a \<le> n" "\<forall>c \<in> set cs. c < n" for cs a
    using that by (induction cs arbitrary: a) auto
  have ge: "a \<le> fold (\<lambda>column need. max need (column + 1)) cs a \<and> (\<forall>c \<in> set cs. c < fold (\<lambda>column need. max need (column + 1)) cs a)" for cs and a :: nat
  proof (induction cs arbitrary: a)
    case (Cons c cs)
    have "a \<le> max a (c + 1) \<and> c < max a (c + 1)" by auto
    then show ?case using Cons [of "max a (c + 1)"] by (auto intro: order_trans less_le_trans)
  qed simp
  show "columns_needed cols \<le> n" using gen [of cols 0] le [of 0 cols] assms(1) by (simp add: columns_needed_def)
  show "c \<in> set cols \<Longrightarrow> c < columns_needed cols" using gen [of cols 0] ge [of 0 cols] by (simp add: columns_needed_def)
qed

lemma ready_order_props:
  shows "length (ready_order rows) = length rows" "sorted (map fst (ready_order rows))"
    "set (ready_order rows) = {(columns_needed (rows ! det), det) |det. det < length rows}"
    "distinct (map snd (ready_order rows))"
proof -
  let ?ps = "map (\<lambda>det. (columns_needed (rows ! det), det)) [0..<length rows]"
  show "length (ready_order rows) = length rows" by (simp add: ready_order_def)
  show "sorted (map fst (ready_order rows))"
    using pairs.sorted_std_sort [of ?ps] unfolding ready_order_def
    by (auto simp: sorted_wrt_map pair_less_def elim!: sorted_wrt_mono_rel [rotated])
  show "set (ready_order rows) = {(columns_needed (rows ! det), det) |det. det < length rows}"
    by (auto simp: ready_order_def)
  have "mset (map snd (ready_order rows)) = mset (map snd ?ps)" unfolding ready_order_def mset_map mset_std_sort ..
  moreover have "distinct (map snd ?ps)" by (simp add: comp_def)
  ultimately show "distinct (map snd (ready_order rows))" using mset_eq_imp_distinct_iff by blast
qed

section \<open>Invariant of the realtime buffer\<close>

text \<open>Detectors are resolved in the order in which their measurements arrive.\<close>

definition resolved :: "rt_impl \<Rightarrow> nat \<Rightarrow> bool" where
  "resolved p k \<longleftrightarrow> fst (detector_ready_order p ! k) \<le> msyn_buffer_index p \<and>
     persistent_detector_buffer p ! snd (detector_ready_order p ! k)
       = xor_at (msyn_buffer p) (measurement_to_detectors p ! snd (detector_ready_order p ! k))"

definition buffer_ok :: "rt_impl \<Rightarrow> bool" where
  "buffer_ok p \<longleftrightarrow>
     \<not> round_streaming_initialized p \<and> length (msyn_buffer p) = num_msyn_per_decode p \<and> num_msyn_per_decode p \<le> max_u32 \<and>
     msyn_buffer_index p \<le> num_msyn_per_decode p \<and>
     (\<forall>cols \<in> set (measurement_to_detectors p). \<forall>c \<in> set cols. c < num_msyn_per_decode p) \<and>
     detector_ready_order p = ready_order (measurement_to_detectors p) \<and>
     length (persistent_detector_buffer p) = length (measurement_to_detectors p) \<and>
     detector_ready_cursor p \<le> length (measurement_to_detectors p) \<and> (\<forall>k < detector_ready_cursor p. resolved p k)"

lemma buffer_okD:
  assumes "buffer_ok p"
  shows "\<not> round_streaming_initialized p" "length (msyn_buffer p) = num_msyn_per_decode p" "num_msyn_per_decode p \<le> max_u32"
    "msyn_buffer_index p \<le> num_msyn_per_decode p"
    "\<And>det c. det < length (measurement_to_detectors p) \<Longrightarrow> c \<in> set (measurement_to_detectors p ! det) \<Longrightarrow> c < num_msyn_per_decode p"
    "detector_ready_order p = ready_order (measurement_to_detectors p)"
    "length (persistent_detector_buffer p) = length (measurement_to_detectors p)"
    "detector_ready_cursor p \<le> length (measurement_to_detectors p)" "\<And>k. k < detector_ready_cursor p \<Longrightarrow> resolved p k"
  using assms by (auto simp: buffer_ok_def)

lemma order_entry:
  assumes "buffer_ok p" "k < length (measurement_to_detectors p)"
  obtains det where "detector_ready_order p ! k = (columns_needed (measurement_to_detectors p ! det), det)"
    "det < length (measurement_to_detectors p)"
  using assms nth_mem [of k "detector_ready_order p"] ready_order_props(1,3) [of "measurement_to_detectors p"]
  by (auto simp: buffer_ok_def)

lemma order_det_inj:
  assumes "buffer_ok p" "k < length (measurement_to_detectors p)" "k' < length (measurement_to_detectors p)"
    "snd (detector_ready_order p ! k) = snd (detector_ready_order p ! k')"
  shows "k = k'"
  using assms ready_order_props(1,4) [of "measurement_to_detectors p"]
  by (metis buffer_ok_def length_map nth_eq_iff_index_eq nth_map)

lemma resolve_one_ok:
  assumes ok: "buffer_ok p" and c: "detector_ready_cursor p < length (detector_ready_order p)"
    and need: "fst (detector_ready_order p ! detector_ready_cursor p) \<le> msyn_buffer_index p"
  shows "\<exists>p'. resolve_one p = Inr p' \<and> buffer_ok p' \<and>
    p' = p\<lparr>persistent_detector_buffer := persistent_detector_buffer p', detector_ready_cursor := detector_ready_cursor p + 1\<rparr>"
proof -
  let ?k = "detector_ready_cursor p" and ?rows = "measurement_to_detectors p"
  have len: "length (detector_ready_order p) = length ?rows" using ok ready_order_props(1) by (simp add: buffer_ok_def)
  then obtain det where det: "detector_ready_order p ! ?k = (columns_needed (?rows ! det), det)" "det < length ?rows"
    using order_entry [OF ok, of ?k] c by metis
  define v where "v = xor_at (msyn_buffer p) (?rows ! det)"
  define p' where "p' = p\<lparr>persistent_detector_buffer := (persistent_detector_buffer p)[det := v], detector_ready_cursor := ?k + 1\<rparr>"
  have "\<forall>c \<in> set (?rows ! det). c < length (msyn_buffer p)" using ok det(2) by (auto simp: buffer_ok_def)
  then have r: "resolve_one p = Inr p'"
    using det ok by (simp add: resolve_one_def Let_def detector_value_eq v_def p'_def buffer_ok_def)
  have "resolved p' k" if "k < ?k + 1" for k
  proof (cases "k = ?k")
    case True
    then show ?thesis using det need ok by (simp add: resolved_def p'_def v_def buffer_ok_def)
  next
    case False
    then have "k < ?k" using that by simp
    moreover have "snd (detector_ready_order p ! k) \<noteq> det"
      using order_det_inj [OF ok, of k ?k] \<open>k < ?k\<close> c len det(1) by auto
    ultimately show ?thesis using buffer_okD(9) [OF ok, of k] by (simp add: resolved_def p'_def)
  qed
  then have "buffer_ok p'" using ok c len unfolding buffer_ok_def by (simp add: p'_def resolved_def)
  then show ?thesis using r by (auto simp: p'_def)
qed

lemma resolve_ready_ok:
  assumes "buffer_ok p" "c \<le> msyn_buffer_index p"
  shows "\<exists>p'. resolve_ready_detectors c p = Inr p' \<and> buffer_ok p' \<and>
    p' = p\<lparr>persistent_detector_buffer := persistent_detector_buffer p', detector_ready_cursor := detector_ready_cursor p'\<rparr> \<and>
    (\<forall>k. detector_ready_cursor p' \<le> k \<and> k < length (detector_ready_order p) \<longrightarrow> c < fst (detector_ready_order p ! k))"
  using assms
proof (induction c p rule: resolve_ready_detectors.induct)
  case (1 c p)
  let ?more = "detector_ready_cursor p < length (detector_ready_order p) \<and> fst (detector_ready_order p ! detector_ready_cursor p) \<le> c"
  show ?case
  proof (cases ?more)
    case True
    with 1(2,3) obtain p1 where p1: "resolve_one p = Inr p1" "buffer_ok p1"
      "p1 = p\<lparr>persistent_detector_buffer := persistent_detector_buffer p1, detector_ready_cursor := detector_ready_cursor p + 1\<rparr>"
      using resolve_one_ok [of p] by auto
    have f: "msyn_buffer_index p1 = msyn_buffer_index p" "detector_ready_order p1 = detector_ready_order p"
      by (subst p1(3), simp)+
    from 1(1) [OF True p1(1) p1(2)] 1(3) f obtain p' where p': "resolve_ready_detectors c p1 = Inr p'" "buffer_ok p'"
      "p' = p1\<lparr>persistent_detector_buffer := persistent_detector_buffer p', detector_ready_cursor := detector_ready_cursor p'\<rparr>"
      "\<forall>k. detector_ready_cursor p' \<le> k \<and> k < length (detector_ready_order p) \<longrightarrow> c < fst (detector_ready_order p ! k)"
      by auto
    have "p' = p\<lparr>persistent_detector_buffer := persistent_detector_buffer p', detector_ready_cursor := detector_ready_cursor p'\<rparr>"
      by (subst p'(3), subst p1(3)) simp
    then show ?thesis using True p1(1) p'(1,2,4) by (subst resolve_ready_detectors.simps) auto
  next
    case False
    have "c < fst (detector_ready_order p ! k)" if "detector_ready_cursor p \<le> k" "k < length (detector_ready_order p)" for k
    proof -
      have "sorted (map fst (detector_ready_order p))" using 1(2) ready_order_props(2) by (simp add: buffer_ok_def)
      then have "fst (detector_ready_order p ! detector_ready_cursor p) \<le> fst (detector_ready_order p ! k)"
        using that sorted_nth_mono [of "map fst (detector_ready_order p)" "detector_ready_cursor p" k] by simp
      then show ?thesis using False that by linarith
    qed
    then show ?thesis using False 1(2) by (subst resolve_ready_detectors.simps) auto
  qed
qed

text \<open>With all measurements present every detector is resolved.\<close>

lemma resolve_all:
  assumes "buffer_ok p" "msyn_buffer_index p = num_msyn_per_decode p"
  shows "\<exists>p'. resolve_ready_detectors (num_msyn_per_decode p) p = Inr p' \<and> buffer_ok p' \<and>
    p' = p\<lparr>persistent_detector_buffer := map (xor_at (msyn_buffer p)) (measurement_to_detectors p),
           detector_ready_cursor := length (measurement_to_detectors p)\<rparr>"
proof -
  let ?rows = "measurement_to_detectors p"
  obtain p' where p': "resolve_ready_detectors (num_msyn_per_decode p) p = Inr p'" "buffer_ok p'"
    "p' = p\<lparr>persistent_detector_buffer := persistent_detector_buffer p', detector_ready_cursor := detector_ready_cursor p'\<rparr>"
    "\<forall>k. detector_ready_cursor p' \<le> k \<and> k < length (detector_ready_order p) \<longrightarrow> num_msyn_per_decode p < fst (detector_ready_order p ! k)"
    using resolve_ready_ok [OF assms(1), of "num_msyn_per_decode p"] assms(2) by auto
  have f: "measurement_to_detectors p' = ?rows" "detector_ready_order p' = detector_ready_order p" "msyn_buffer p' = msyn_buffer p"
    by (subst p'(3), simp)+
  have len: "length (detector_ready_order p) = length ?rows" using assms(1) ready_order_props(1) by (simp add: buffer_ok_def)
  have need: "fst (detector_ready_order p ! k) \<le> num_msyn_per_decode p" if k: "k < length ?rows" for k
  proof -
    obtain det where "detector_ready_order p ! k = (columns_needed (?rows ! det), det)" "det < length ?rows"
      using order_entry [OF assms(1) k] .
    moreover from this have "\<forall>c \<in> set (?rows ! det). c < num_msyn_per_decode p" using buffer_okD(5) [OF assms(1)] by blast
    ultimately show ?thesis using columns_needed_bounds(1) [of "?rows ! det" "num_msyn_per_decode p"] assms(1) by (simp add: buffer_ok_def)
  qed
  have cur: "detector_ready_cursor p' = length ?rows"
    using p'(2,4) need len f by (metis buffer_ok_def le_neq_implies_less not_less order_refl)
  have "persistent_detector_buffer p' = map (xor_at (msyn_buffer p)) ?rows"
  proof (rule nth_equalityI)
    show l: "length (persistent_detector_buffer p') = length (map (xor_at (msyn_buffer p)) ?rows)"
      using p'(2) f by (simp add: buffer_ok_def)
    fix det assume "det < length (persistent_detector_buffer p')"
    then have det: "det < length ?rows" using l by simp
    then have "(columns_needed (?rows ! det), det) \<in> set (detector_ready_order p)"
      using assms(1) ready_order_props(3) [of ?rows] by (auto simp: buffer_ok_def)
    then obtain k where "k < length ?rows" "detector_ready_order p ! k = (columns_needed (?rows ! det), det)"
      using len by (auto simp: in_set_conv_nth)
    then show "persistent_detector_buffer p' ! det = map (xor_at (msyn_buffer p)) ?rows ! det"
      using p'(2) cur f det by (auto simp: buffer_ok_def resolved_def)
  qed
  then show ?thesis using p'(1,2,3) cur by metis
qed

section \<open>Receiving measurements\<close>

lemma write_measurements:
  assumes ok: "buffer_ok p" and room: "msyn_buffer_index p + length r \<le> num_msyn_per_decode p"
  defines "buf \<equiv> take (msyn_buffer_index p) (msyn_buffer p) @ r @ drop (msyn_buffer_index p + length r) (msyn_buffer p)"
  shows "mem_copy (msyn_buffer p) (msyn_buffer_index p) r 0 (length r) = Inr buf"
    "buffer_ok (p\<lparr>msyn_buffer := buf, msyn_buffer_index := msyn_buffer_index p + length r\<rparr>)"
    "take (msyn_buffer_index p + length r) buf = take (msyn_buffer_index p) (msyn_buffer p) @ r"
proof -
  note D = buffer_okD [OF ok]
  show "mem_copy (msyn_buffer p) (msyn_buffer_index p) r 0 (length r) = Inr buf"
    using room D(2) by (simp add: mem_copy_def buf_def)
  show "take (msyn_buffer_index p + length r) buf = take (msyn_buffer_index p) (msyn_buffer p) @ r"
    using room D(2) by (simp add: buf_def)
  let ?q = "p\<lparr>msyn_buffer := buf, msyn_buffer_index := msyn_buffer_index p + length r\<rparr>"
  have len: "length buf = num_msyn_per_decode p" using room D(2) by (simp add: buf_def)
  have low: "buf ! c = msyn_buffer p ! c" if "c < msyn_buffer_index p" for c
    using that D(2,4) by (simp add: buf_def nth_append)
  have "resolved ?q k" if k: "k < detector_ready_cursor p" for k
  proof -
    have kl: "k < length (measurement_to_detectors p)" using k D(8) by simp
    obtain det where det: "detector_ready_order p ! k = (columns_needed (measurement_to_detectors p ! det), det)"
      "det < length (measurement_to_detectors p)" using order_entry [OF ok kl] .
    have res: "columns_needed (measurement_to_detectors p ! det) \<le> msyn_buffer_index p"
      "persistent_detector_buffer p ! det = xor_at (msyn_buffer p) (measurement_to_detectors p ! det)"
      using D(9) [OF k] det(1) by (simp_all add: resolved_def)
    have "xor_at buf (measurement_to_detectors p ! det) = xor_at (msyn_buffer p) (measurement_to_detectors p ! det)"
    proof (rule xor_at_cong, rule low)
      fix c assume c: "c \<in> set (measurement_to_detectors p ! det)"
      have "c < columns_needed (measurement_to_detectors p ! det)"
        by (rule columns_needed_bounds(2) [OF _ D(3) c]) (use D(5) det(2) in blast)
      then show "c < msyn_buffer_index p" using res(1) by simp
    qed
    then show ?thesis using det(1) res by (simp add: resolved_def)
  qed
  then show "buffer_ok ?q" using D len room ok unfolding buffer_ok_def by simp
qed

text \<open>The decoder \<open>d\<close> is \<open>d0\<close> after it has received the measurements \<open>m\<close> of an incomplete shot.\<close>

definition shot :: "('c, 'p) decoder \<Rightarrow> u8 list \<Rightarrow> ('c, 'p) decoder \<Rightarrow> bool" where
  "shot d0 m d \<longleftrightarrow> buffer_ok (pimpl d) \<and> msyn_buffer_index (pimpl d) = length m \<and> take (length m) (msyn_buffer (pimpl d)) = m \<and>
     length m < num_msyn_per_decode (pimpl d0) \<and> inputs d = inputs d0 \<and> plugin d = plugin d0 \<and> output_primary d = output_primary d0 \<and>
     block_size d = block_size d0 \<and> syndrome_size d = syndrome_size d0 \<and> corrections (pimpl d) = corrections (pimpl d0) \<and>
     num_msyn_per_decode (pimpl d) = num_msyn_per_decode (pimpl d0) \<and>
     measurement_to_detectors (pimpl d) = measurement_to_detectors (pimpl d0) \<and>
     chunk_observables (pimpl d) = chunk_observables (pimpl d0)"

text \<open>The first part of \<open>enqueue_syndrome\<close>, up to the decision whether to decode.\<close>

lemma buffer_ok_round: "buffer_ok (p\<lparr>current_round := x\<rparr>) = buffer_ok p"
  by (simp add: buffer_ok_def resolved_def)

lemma enqueue_receives:
  assumes sh: "shot d0 m d" and room: "length m + length r \<le> num_msyn_per_decode (pimpl d0)"
  shows "\<exists>p. buffer_ok p \<and> msyn_buffer_index p = length (m @ r) \<and> take (length (m @ r)) (msyn_buffer p) = m @ r \<and>
    corrections p = corrections (pimpl d0) \<and> num_msyn_per_decode p = num_msyn_per_decode (pimpl d0) \<and>
    measurement_to_detectors p = measurement_to_detectors (pimpl d0) \<and> chunk_observables p = chunk_observables (pimpl d0) \<and>
    enqueue_syndrome dec r d =
      (if length (m @ r) = num_msyn_per_decode (pimpl d0) then decode_now dec p d else Inr (False, d\<lparr>pimpl := p\<rparr>))"
proof -
  define p1 where "p1 = (pimpl d)\<lparr>current_round := u32 (current_round (pimpl d) + 1)\<rparr>"
  have ok1: "buffer_ok p1" and sh1: "msyn_buffer_index p1 = length m" "take (length m) (msyn_buffer p1) = m"
    "corrections p1 = corrections (pimpl d0)" "num_msyn_per_decode p1 = num_msyn_per_decode (pimpl d0)"
    "measurement_to_detectors p1 = measurement_to_detectors (pimpl d0)" "chunk_observables p1 = chunk_observables (pimpl d0)"
    using sh by (simp_all add: shot_def p1_def buffer_ok_round)
  define p2 where "p2 = p1\<lparr>msyn_buffer := take (length m) (msyn_buffer p1) @ r @ drop (length m + length r) (msyn_buffer p1),
      msyn_buffer_index := length m + length r\<rparr>"
  note w = write_measurements [OF ok1, unfolded sh1, OF room]
  have w1: "mem_copy (msyn_buffer p1) (length m) r 0 (length r) = Inr (m @ r @ drop (length m + length r) (msyn_buffer p1))"
    and ok2: "buffer_ok p2" and m2: "take (length m + length r) (msyn_buffer p2) = m @ r"
    using w sh1 by (simp_all add: p2_def)
  have u: "u32 (length m + length r) = length m + length r"
    using room buffer_okD(3) [OF ok1] sh1(4) by simp
  have p2: "(if r \<noteq> [] then rbind (mem_copy (msyn_buffer p1) (msyn_buffer_index p1) r 0 (length r)) (\<lambda>buf.
        Inr (p1\<lparr>msyn_buffer := buf, msyn_buffer_index := u32 (msyn_buffer_index p1 + length r)\<rparr>)) else Inr p1) = Inr p2"
  proof (cases "r = []")
    case True
    have "p2 = p1\<lparr>msyn_buffer := msyn_buffer p1, msyn_buffer_index := msyn_buffer_index p1\<rparr>"
      using True sh1(1) by (simp add: p2_def)
    then show ?thesis using True by simp
  next
    case False
    then show ?thesis using w1 sh1(1,2) u by (simp add: p2_def)
  qed
  obtain p where p: "resolve_ready_detectors (msyn_buffer_index p2) p2 = Inr p" "buffer_ok p"
    "p = p2\<lparr>persistent_detector_buffer := persistent_detector_buffer p, detector_ready_cursor := detector_ready_cursor p\<rparr>"
    using resolve_ready_ok [OF ok2 order_refl] by blast
  have f: "msyn_buffer p = msyn_buffer p2" "msyn_buffer_index p = length m + length r" "corrections p = corrections p1"
    "num_msyn_per_decode p = num_msyn_per_decode p1" "measurement_to_detectors p = measurement_to_detectors p1"
    "chunk_observables p = chunk_observables p1"
    by (subst p(3), simp add: p2_def)+
  have "\<not> length (msyn_buffer (pimpl d)) < msyn_buffer_index (pimpl d) + length r"
    using sh room buffer_okD(2) [of "pimpl d"] by (simp add: shot_def)
  then have "enqueue_syndrome dec r d = (if length (m @ r) = num_msyn_per_decode (pimpl d0) then decode_now dec p d else Inr (False, d\<lparr>pimpl := p\<rparr>))"
    unfolding enqueue_syndrome_def Let_def p1_def [symmetric] p2
    using buffer_okD(1) [OF ok2] buffer_okD(1,2) [OF p(2)] p(1) f sh1 by simp
  then show ?thesis using p(2) f m2 sh1 by (intro exI [of _ p]) simp
qed

lemma enqueue_partial:
  assumes "shot d0 m d" "length m + length r < num_msyn_per_decode (pimpl d0)"
  shows "\<exists>d'. enqueue_syndrome dec r d = Inr (False, d') \<and> shot d0 (m @ r) d'"
proof -
  have "length m + length r \<le> num_msyn_per_decode (pimpl d0)" using assms(2) by simp
  from enqueue_receives [OF assms(1) this, of dec] obtain p where p: "buffer_ok p" "msyn_buffer_index p = length (m @ r)"
    "take (length (m @ r)) (msyn_buffer p) = m @ r" "corrections p = corrections (pimpl d0)"
    "num_msyn_per_decode p = num_msyn_per_decode (pimpl d0)" "measurement_to_detectors p = measurement_to_detectors (pimpl d0)"
    "chunk_observables p = chunk_observables (pimpl d0)" "enqueue_syndrome dec r d = Inr (False, d\<lparr>pimpl := p\<rparr>)"
    using assms(2) by auto
  then show ?thesis using assms by (intro exI [of _ "d\<lparr>pimpl := p\<rparr>"]) (simp add: shot_def)
qed

section \<open>Applying the result\<close>

definition frame_flips :: "('c, 'p) decoder \<Rightarrow> real list \<Rightarrow> nat \<Rightarrow> bool" where
  "frame_flips d frame i = (case output_primary d of
      Observables \<Rightarrow> frame ! i \<noteq> 0
    | Errors \<Rightarrow> odd (length (filter (\<lambda>c. frame ! c \<noteq> 0) (groups (the (di_O (inputs d))) ! i))))"

definition apply_flips :: "(nat \<Rightarrow> bool) \<Rightarrow> u8 list \<Rightarrow> u8 list" where
  "apply_flips F cs = map (\<lambda>i. if F i then cs ! i XOR 1 else cs ! i) [0..<length cs]"

lemma length_apply_flips [simp]: "length (apply_flips F cs) = length cs"
  by (simp add: apply_flips_def)

lemma flip_twice: "(x XOR 1) XOR 1 = (x :: u8)"
  by (simp add: xor.assoc)

lemma flip_correction_eq: "i < length cs \<Longrightarrow> flip_correction i cs = Inr (cs[i := cs ! i XOR 1])"
  by (simp add: flip_correction_def)

lemma flip_loop:
  assumes "\<And>i cs. i < n \<Longrightarrow> length cs = n \<Longrightarrow> f i cs = Inr (if F i then cs[i := cs ! i XOR 1] else cs)" "length cs = n"
  shows "rfold f [0..<n] cs = Inr (apply_flips F cs)"
proof -
  have "m \<le> n \<Longrightarrow> rfold f [0..<m] cs = Inr (map (\<lambda>i. if i < m \<and> F i then cs ! i XOR 1 else cs ! i) [0..<n])" for m
  proof (induction m)
    case 0
    then show ?case using map_nth [of cs] assms(2) by simp
  next
    case (Suc m)
    then show ?case
      using assms(1) [of m "map (\<lambda>i. if i < m \<and> F i then cs ! i XOR 1 else cs ! i) [0..<n]"]
      by (auto simp: rfold_append nth_list_update less_Suc_eq intro!: nth_equalityI)
  qed
  from this [of n] show ?thesis using assms(2) by (auto simp: apply_flips_def)
qed

lemma flip_columns:
  assumes "\<forall>c \<in> set cols. c < length frame" "i < length cs"
  shows "rfold (\<lambda>c cs. rbind (vget frame c) (\<lambda>v. if v \<noteq> 0 then flip_correction i cs else Inr cs)) cols cs
    = Inr (if odd (length (filter (\<lambda>c. frame ! c \<noteq> 0) cols)) then cs[i := cs ! i XOR 1] else cs)"
  using assms
proof (induction cols arbitrary: cs)
  case (Cons c cols)
  then show ?case by (auto simp: flip_correction_eq flip_twice list_update_overwrite)
qed simp

text \<open>A decoder that serves shots: its buffer is empty and its model is consistent.\<close>

definition serving :: "('c, 'p) decoder \<Rightarrow> bool" where
  "serving d \<longleftrightarrow> buffer_ok (pimpl d) \<and> msyn_buffer_index (pimpl d) = 0 \<and> 0 < num_msyn_per_decode (pimpl d) \<and>
     length (corrections (pimpl d)) = get_num_observables d \<and> init_ok (inputs d) \<and> di_has_matrices (inputs d) \<and>
     chunk_observables (pimpl d) = None \<and> block_size d = di_num_error_mechanisms (inputs d) \<and>
     (output_primary d = Errors \<longrightarrow> di_O (inputs d) \<noteq> None)"

definition frame_size :: "('c, 'p) decoder \<Rightarrow> nat" where
  "frame_size d = (case output_primary d of Errors \<Rightarrow> block_size d | Observables \<Rightarrow> get_num_observables d)"

lemma apply_result_eq:
  assumes "init_ok (inputs d)" "di_has_matrices (inputs d)" "chunk_observables (pimpl d) = None"
    "block_size d = di_num_error_mechanisms (inputs d)" "output_primary d = Errors \<longrightarrow> di_O (inputs d) \<noteq> None"
    "length frame = frame_size d" "length cs = get_num_observables d"
  shows "apply_result frame d cs = Inr (apply_flips (frame_flips d frame) cs)"
proof (cases "output_primary d")
  case Observables
  show ?thesis
    unfolding apply_result_def Observables decode_result_type.case
    using assms(6,7) Observables by (intro flip_loop) (auto simp: flip_correction_eq frame_flips_def frame_size_def)
next
  case Errors
  then obtain M where M: "di_O (inputs d) = Some M" using assms(5) by auto
  have ok: "sbm_ok M" "sbm_layout M = CSR" "sbm_cols M = di_num_error_mechanisms (inputs d)" "sbm_rows M = get_num_observables d"
    using assms(1,2) M by (simp_all add: init_ok_def get_num_observables_def)
  then have n: "num_groups M = get_num_observables d" by (simp add: num_groups_def)
  have row: "vslice (sbm_ptr M ! i) (sbm_ptr M ! (i + 1)) (sbm_idx M) = groups M ! i"
    and bnd: "i + 1 < length (sbm_ptr M)" "i < length (sbm_ptr M)" and cols: "\<forall>c \<in> set (groups M ! i). c < length frame"
    if "i < get_num_observables d" for i
  proof -
    show "vslice (sbm_ptr M ! i) (sbm_ptr M ! (i + 1)) (sbm_idx M) = groups M ! i" using that n by (simp add: groups_def)
    show "i + 1 < length (sbm_ptr M)" "i < length (sbm_ptr M)" using that n ptr_okD(1) [OF sbm_okD(1) [OF ok(1)]] by simp_all
    show "\<forall>c \<in> set (groups M ! i). c < length frame"
      using that n set_group_bound [OF ok(1), of i] ok(2,3) assms(4,6) Errors by (auto simp: index_bound_def frame_size_def)
  qed
  have "observable_flips_matrix (inputs d) = Inr M" "has_observable_model (inputs d)"
    using assms(2) M by (simp_all add: observable_flips_matrix_def has_observable_model_def matrices_guard_def)
  then show ?thesis
    unfolding apply_result_def Errors decode_result_type.case assms(3)
    using row bnd cols assms(7) M Errors
    by (simp, intro flip_loop) (auto simp: flip_columns frame_flips_def)
qed

section \<open>Whole shots\<close>

lemma servingD:
  assumes "serving d"
  shows "buffer_ok (pimpl d)" "msyn_buffer_index (pimpl d) = 0" "0 < num_msyn_per_decode (pimpl d)"
    "length (corrections (pimpl d)) = get_num_observables d" "init_ok (inputs d)" "di_has_matrices (inputs d)"
    "chunk_observables (pimpl d) = None" "block_size d = di_num_error_mechanisms (inputs d)"
    "output_primary d = Errors \<longrightarrow> di_O (inputs d) \<noteq> None"
  using assms by (simp_all add: serving_def)

lemma shot_start: "serving d \<Longrightarrow> shot d [] d"
  by (simp add: shot_def serving_def)

text \<open>What the concrete decoder is given for the measurements \<open>m\<close> of a shot.\<close>

definition detectors_of :: "('c, 'p) decoder \<Rightarrow> u8 list \<Rightarrow> real list" where
  "detectors_of d m = convert_vec_hard_to_soft (map (xor_at m) (measurement_to_detectors (pimpl d))) 1 0"

text \<open>The decoder \<open>d'\<close> serves the next shot: only the corrections and the plug-in have changed.\<close>

definition ready_again :: "('c, 'p) decoder \<Rightarrow> ('c, 'p) decoder \<Rightarrow> bool" where
  "ready_again d d' \<longleftrightarrow> serving d' \<and> inputs d' = inputs d \<and> output_primary d' = output_primary d \<and> block_size d' = block_size d \<and>
     syndrome_size d' = syndrome_size d \<and> num_msyn_per_decode (pimpl d') = num_msyn_per_decode (pimpl d) \<and>
     measurement_to_detectors (pimpl d') = measurement_to_detectors (pimpl d)"

lemma buffer_ok_emptied:
  "buffer_ok p \<Longrightarrow> buffer_ok (p\<lparr>persistent_soft_detector_buffer := s, corrections := cs, msyn_buffer_index := 0, current_round := 0,
     detector_layer_index := 0, detector_ready_cursor := 0\<rparr>)"
  by (simp add: buffer_ok_def)

lemma enqueue_last:
  assumes sv: "serving d0" and sh: "shot d0 m d" and full: "length m + length r = num_msyn_per_decode (pimpl d0)"
    and dec: "dec (plugin d0) (detectors_of d0 (m @ r)) = Inr (res, plug)" and len: "length (decoded res) = frame_size d0"
  shows "\<exists>d'. enqueue_syndrome dec r d = Inr (True, d') \<and> ready_again d0 d' \<and> plugin d' = plug \<and>
    corrections (pimpl d') = apply_flips (frame_flips d0 (decoded res)) (corrections (pimpl d0))"
proof -
  note S = servingD [OF sv]
  have d: "inputs d = inputs d0" "plugin d = plugin d0" "output_primary d = output_primary d0" "block_size d = block_size d0"
    "syndrome_size d = syndrome_size d0" using sh by (simp_all add: shot_def)
  have g: "get_num_observables d = get_num_observables d0" "frame_size d = frame_size d0" using d
    by (simp_all add: get_num_observables_def frame_size_def split: decode_result_type.split)
  from enqueue_receives [OF sh, of r dec] full obtain p where p: "buffer_ok p" "msyn_buffer_index p = length (m @ r)"
    "take (length (m @ r)) (msyn_buffer p) = m @ r" "corrections p = corrections (pimpl d0)"
    "num_msyn_per_decode p = num_msyn_per_decode (pimpl d0)" "measurement_to_detectors p = measurement_to_detectors (pimpl d0)"
    "chunk_observables p = chunk_observables (pimpl d0)" "enqueue_syndrome dec r d = decode_now dec p d" by auto
  have buf: "msyn_buffer p = m @ r" using p(3,5) buffer_okD(2) [OF p(1)] full by simp
  obtain q where q: "resolve_ready_detectors (num_msyn_per_decode p) p = Inr q" "buffer_ok q"
    "q = p\<lparr>persistent_detector_buffer := map (xor_at (m @ r)) (measurement_to_detectors (pimpl d0)),
           detector_ready_cursor := length (measurement_to_detectors p)\<rparr>"
    using resolve_all [OF p(1)] p(2,5,6) buf full by auto
  let ?cs = "apply_flips (frame_flips d0 (decoded res)) (corrections (pimpl d0))"
  have ff: "frame_flips d = frame_flips d0" using d by (intro ext) (simp add: frame_flips_def cong: decode_result_type.case_cong)
  have app: "apply_result (decoded res) d (corrections (pimpl d0)) = Inr ?cs"
    unfolding ff [symmetric] using S d g len sh by (intro apply_result_eq) (simp_all add: shot_def)
  define q' where "q' = q\<lparr>persistent_soft_detector_buffer := detectors_of d0 (m @ r), corrections := ?cs, msyn_buffer_index := 0,
    current_round := 0, detector_layer_index := 0, detector_ready_cursor := 0\<rparr>"
  have exp: "(case output_primary d of Errors \<Rightarrow> block_size d | Observables \<Rightarrow> get_num_observables d) = length (decoded res)"
    using len g by (simp add: frame_size_def)
  have str: "\<not> round_streaming_initialized p" "\<not> round_streaming_initialized q"
    using buffer_okD(1) p(1) q(2) by blast+
  have cq: "corrections q = corrections (pimpl d0)" using q(3) p(4) by simp
  have soft: "convert_vec_hard_to_soft (persistent_detector_buffer q) 1 0 = detectors_of d0 (m @ r)"
    using q(3) by (simp add: detectors_of_def)
  have "decode_now dec p d = Inr (True, d\<lparr>pimpl := q', plugin := plug\<rparr>)"
    unfolding decode_now_def Let_def using str q(1) soft d(2) dec exp app cq by (simp add: q'_def)
  moreover have "ready_again d0 (d\<lparr>pimpl := q', plugin := plug\<rparr>)"
  proof -
    have "buffer_ok q'" unfolding q'_def by (rule buffer_ok_emptied [OF q(2)])
    moreover have "num_msyn_per_decode q' = num_msyn_per_decode (pimpl d0)"
      "measurement_to_detectors q' = measurement_to_detectors (pimpl d0)" "chunk_observables q' = None"
      using q(3) p(5,6,7) S(7) by (simp_all add: q'_def)
    ultimately show ?thesis
      using S d by (simp add: ready_again_def serving_def get_num_observables_def q'_def)
  qed
  ultimately show ?thesis using p(8) by (intro exI [of _ "d\<lparr>pimpl := q', plugin := plug\<rparr>"]) (simp add: q'_def)
qed

text \<open>The realtime loop: a shot arrives round by round.\<close>

fun enqueue_rounds :: "'p decode_fn \<Rightarrow> u8 list list \<Rightarrow> ('c, 'p) decoder \<Rightarrow> (bool list \<times> ('c, 'p) decoder) res" where
  "enqueue_rounds dec [] d = Inr ([], d)"
| "enqueue_rounds dec (r # rs) d =
     rbind (enqueue_syndrome dec r d) (\<lambda>(b, d1). rbind (enqueue_rounds dec rs d1) (\<lambda>(bs, d2). Inr (b # bs, d2)))"

lemma enqueue_rounds_append:
  assumes "enqueue_rounds dec rs d = Inr (bs, d1)" "enqueue_rounds dec rs' d1 = Inr (bs', d2)"
  shows "enqueue_rounds dec (rs @ rs') d = Inr (bs @ bs', d2)"
  using assms by (induction rs arbitrary: d bs) (auto simp: rbind_Inr_iff)

lemma enqueue_rounds_shot:
  assumes sv: "serving d0" and sh: "shot d0 m d" and full: "length (m @ concat rs @ r) = num_msyn_per_decode (pimpl d0)" "r \<noteq> []"
    and dec: "dec (plugin d0) (detectors_of d0 (m @ concat rs @ r)) = Inr (res, plug)" "length (decoded res) = frame_size d0"
  shows "\<exists>d'. enqueue_rounds dec (rs @ [r]) d = Inr (replicate (length rs) False @ [True], d') \<and> ready_again d0 d' \<and> plugin d' = plug \<and>
    corrections (pimpl d') = apply_flips (frame_flips d0 (decoded res)) (corrections (pimpl d0))"
  using sh full(1) dec(1)
proof (induction rs arbitrary: m d)
  case Nil
  then have "length m + length r = num_msyn_per_decode (pimpl d0)" "dec (plugin d0) (detectors_of d0 (m @ r)) = Inr (res, plug)" by simp_all
  from enqueue_last [where dec = dec, OF sv Nil(1) this dec(2)] show ?case by auto
next
  case (Cons x rs)
  have "length m + length x < num_msyn_per_decode (pimpl d0)" using Cons.prems(2) full(2) by (cases r) simp_all
  from enqueue_partial [OF Cons.prems(1) this, of dec] obtain d1 where
    d1: "enqueue_syndrome dec x d = Inr (False, d1)" "shot d0 (m @ x) d1" by blast
  from Cons.IH [OF d1(2)] Cons.prems d1(1) show ?case by (fastforce simp: rbind_Inr_iff)
qed

section \<open>The constructor\<close>

lemma decoder_new_serving:
  assumes "init_ok init" "di_has_matrices init" "di_D init = Some D" "0 < sbm_cols D" "rtype = Errors \<longrightarrow> di_O init \<noteq> None"
  shows "\<exists>d. decoder_new o_chunked init rtype pl = Inr d \<and> serving d \<and> inputs d = init \<and> output_primary d = rtype \<and>
    plugin d = pl \<and> syndrome_size d = di_num_detectors init \<and> num_msyn_per_decode (pimpl d) = sbm_cols D \<and>
    measurement_to_detectors (pimpl d) = groups D \<and> corrections (pimpl d) = replicate (di_num_observables init) 0"
proof -
  have ok: "sbm_ok D" "sbm_layout D = CSR" "sbm_rows D = di_num_detectors init" using assms(1,3) by (simp_all add: init_ok_def)
  then have rows: "to_nested_csr D = groups D" "length (groups D) = di_num_detectors init"
    by (simp_all add: to_nested_csr_groups to_csr_def groups_def num_groups_def)
  have bnd: "\<forall>cols \<in> set (groups D). \<forall>c \<in> set cols. c < sbm_cols D" and u: "sbm_cols D \<le> max_u32"
    using groups_bound [OF ok(1)] ok(2) sbm_okD(4) [OF ok(1)] by (auto simp: index_bound_def)
  show ?thesis
    using assms rows bnd u
    by (simp add: decoder_new_def Let_def reset_decoder_def serving_def buffer_ok_def get_num_observables_def)
qed

section \<open>The contract of a concrete decoder\<close>

text \<open>
  A concrete decoder keeps its own invariant and answers every syndrome of the right length with
  a frame of the right length. The base class then serves any sequence of shots.
\<close>

definition serves :: "('p \<Rightarrow> bool) \<Rightarrow> nat \<Rightarrow> nat \<Rightarrow> ('c, 'p) decoder \<Rightarrow> bool" where
  "serves plugin_ok nsyn nframe d \<longleftrightarrow>
     serving d \<and> plugin_ok (plugin d) \<and> length (measurement_to_detectors (pimpl d)) = nsyn \<and> frame_size d = nframe"

locale decode_plugin =
  fixes dec :: "'p decode_fn" and plugin_ok :: "'p \<Rightarrow> bool" and nsyn nframe :: nat
  assumes decode_total: "plugin_ok p \<Longrightarrow> length s = nsyn \<Longrightarrow> \<exists>r p'. dec p s = Inr (r, p') \<and> plugin_ok p' \<and> length (decoded r) = nframe"
begin

lemma one_shot:
  assumes "serves plugin_ok nsyn nframe d" "length (concat rs @ r) = num_msyn_per_decode (pimpl d)" "r \<noteq> []"
  shows "\<exists>res d'. dec (plugin d) (detectors_of d (concat rs @ r)) = Inr (res, plugin d') \<and>
    enqueue_rounds dec (rs @ [r]) d = Inr (replicate (length rs) False @ [True], d') \<and> serves plugin_ok nsyn nframe d' \<and> ready_again d d' \<and>
    corrections (pimpl d') = apply_flips (frame_flips d (decoded res)) (corrections (pimpl d))"
proof -
  have d: "serving d" "plugin_ok (plugin d)" "length (measurement_to_detectors (pimpl d)) = nsyn" "frame_size d = nframe"
    using assms(1) by (simp_all add: serves_def)
  then have "length (detectors_of d (concat rs @ r)) = nsyn" by (simp add: detectors_of_def convert_vec_hard_to_soft_def)
  from decode_total [OF d(2) this] obtain res pl where
    r: "dec (plugin d) (detectors_of d (concat rs @ r)) = Inr (res, pl)" "plugin_ok pl" "length (decoded res) = frame_size d" using d(4) by auto
  have "length ([] @ concat rs @ r) = num_msyn_per_decode (pimpl d)" "dec (plugin d) (detectors_of d ([] @ concat rs @ r)) = Inr (res, pl)"
    using assms(2) r(1) by simp_all
  from enqueue_rounds_shot [where dec = dec, OF d(1) shot_start [OF d(1)] this(1) assms(3) this(2) r(3)] obtain d' where
    d': "enqueue_rounds dec (rs @ [r]) d = Inr (replicate (length rs) False @ [True], d')" "ready_again d d'" "plugin d' = pl"
    "corrections (pimpl d') = apply_flips (frame_flips d (decoded res)) (corrections (pimpl d))" by auto
  moreover from this have "serves plugin_ok nsyn nframe d'"
    using d r(2) by (auto simp: serves_def ready_again_def frame_size_def get_num_observables_def split: decode_result_type.split)
  ultimately show ?thesis using r(1) by blast
qed

lemma many_shots:
  assumes "serves plugin_ok nsyn nframe d" "\<forall>(rs, r) \<in> set shots. length (concat rs @ r) = num_msyn_per_decode (pimpl d) \<and> r \<noteq> []"
  shows "\<exists>d'. enqueue_rounds dec (concat (map (\<lambda>(rs, r). rs @ [r]) shots)) d
      = Inr (concat (map (\<lambda>(rs, r). replicate (length rs) False @ [True]) shots), d') \<and> serves plugin_ok nsyn nframe d' \<and> ready_again d d'"
  using assms
proof (induction shots arbitrary: d)
  case Nil
  then show ?case by (simp add: serves_def ready_again_def)
next
  case (Cons shot shots)
  obtain rs r where sh: "shot = (rs, r)" by (cases shot)
  have pre: "length (concat rs @ r) = num_msyn_per_decode (pimpl d)" "r \<noteq> []" using Cons.prems(2) sh by auto
  from one_shot [OF Cons.prems(1) this] obtain d1 where
    d1: "enqueue_rounds dec (rs @ [r]) d = Inr (replicate (length rs) False @ [True], d1)" "serves plugin_ok nsyn nframe d1" "ready_again d d1" by blast
  have "\<forall>(rs, r) \<in> set shots. length (concat rs @ r) = num_msyn_per_decode (pimpl d1) \<and> r \<noteq> []"
    using Cons.prems(2) d1(3) by (auto simp: ready_again_def)
  from Cons.IH [OF d1(2) this] obtain d2 where
    d2: "enqueue_rounds dec (concat (map (\<lambda>(rs, r). rs @ [r]) shots)) d1
      = Inr (concat (map (\<lambda>(rs, r). replicate (length rs) False @ [True]) shots), d2)" "serves plugin_ok nsyn nframe d2" "ready_again d1 d2" by blast
  have "ready_again d d2" using d1(3) d2(3) by (simp add: ready_again_def)
  then show ?case using d1(1) d2 sh enqueue_rounds_append by fastforce
qed

end

section \<open>Error frames and observables\<close>

lemma row_parity_eq:
  assumes "\<forall>c \<in> set cols. c < length errors"
  shows "row_parity (vget errors) cols = Inr (odd (length (filter (\<lambda>c. 1/2 \<le> errors ! c) cols)))"
proof -
  have "rfold (\<lambda>c parity. rbind (vget errors c) (\<lambda>e. Inr (parity \<noteq> convert_soft_to_hard e (1/2)))) cols b
      = Inr (b \<noteq> odd (length (filter (\<lambda>c. 1/2 \<le> errors ! c) cols)))" for b
    using assms by (induction cols arbitrary: b) (auto simp: convert_soft_to_hard_def)
  from this [of False] show ?thesis by (simp add: row_parity_def)
qed

lemma set_loop:
  assumes "\<And>i xs. i < n \<Longrightarrow> length xs = n \<Longrightarrow> f i xs = Inr (xs[i := g i])" "length xs = n"
  shows "rfold f [0..<n] xs = Inr (map g [0..<n])"
proof -
  have "m \<le> n \<Longrightarrow> rfold f [0..<m] xs = Inr (map (\<lambda>i. if i < m then g i else xs ! i) [0..<n])" for m
  proof (induction m)
    case 0
    then show ?case using map_nth [of xs] assms(2) by simp
  next
    case (Suc m)
    then show ?case
      using assms(1) [of m "map (\<lambda>i. if i < m then g i else xs ! i) [0..<n]"]
      by (auto simp: rfold_append nth_list_update less_Suc_eq intro!: nth_equalityI)
  qed
  from this [of n] show ?thesis by (auto intro!: nth_equalityI)
qed

lemma project_eq:
  assumes "init_ok (inputs d)" "di_has_matrices (inputs d)" "chunk_observables (pimpl d) = None"
    "block_size d = di_num_error_mechanisms (inputs d)" "di_O (inputs d) = Some M" "length errors = block_size d"
  shows "project_errors_to_observables errors (get_num_observables d) d
    = Inr (map (\<lambda>i. if odd (length (filter (\<lambda>c. 1/2 \<le> errors ! c) (groups M ! i))) then 1 else 0) [0..<get_num_observables d])"
proof -
  have ok: "sbm_ok M" "sbm_layout M = CSR" "sbm_cols M = block_size d" "sbm_rows M = get_num_observables d"
    using assms(1,2,4,5) by (simp_all add: init_ok_def get_num_observables_def)
  then have n: "num_groups M = get_num_observables d" by (simp add: num_groups_def)
  note L = ptr_okD(1) [OF sbm_okD(1) [OF ok(1)]]
  have par: "row_parity (vget errors) (vslice (sbm_ptr M ! i) (sbm_ptr M ! Suc i) (sbm_idx M))
      = Inr (odd (length (filter (\<lambda>c. 1/2 \<le> errors ! c) (groups M ! i))))" if "i < get_num_observables d" for i
    using that n set_group_bound [OF ok(1), of i] ok(2,3) assms(6) row_parity_eq [of "groups M ! i" errors]
    by (auto simp: groups_def index_bound_def)
  have "observable_flips_matrix (inputs d) = Inr M" "has_observable_model (inputs d)"
    using assms(2,5) by (simp_all add: observable_flips_matrix_def has_observable_model_def matrices_guard_def)
  then show ?thesis
    unfolding project_errors_to_observables_def assms(3)
    using par n L ok(4) by (simp, intro set_loop) simp_all
qed

section \<open>A small decoder\<close>

abbreviation demo_O :: sparse_binary_matrix where
  "demo_O \<equiv> \<lparr>sbm_layout = CSR, sbm_rows = 1, sbm_cols = 3, sbm_ptr = [0, 2], sbm_idx = [0, 2]\<rparr>"

abbreviation demo_D :: sparse_binary_matrix where
  "demo_D \<equiv> \<lparr>sbm_layout = CSR, sbm_rows = 2, sbm_cols = 4, sbm_ptr = [0, 2, 4], sbm_idx = [0, 3, 1, 2]\<rparr>"

definition demo_init :: "unit decoder_init" where
  "demo_init = \<lparr>di_source = Matrices, di_num_detectors = 2, di_num_error_mechanisms = 3, di_num_observables = 1,
     di_has_matrices = True, di_H = demo_csc, di_O = Some demo_O, di_rates = [], di_ids = None, di_D = Some demo_D,
     di_raw_stim_dem = None, di_chunks = None\<rparr>"

lemma demo_OD_ok: "sbm_ok demo_O" "sbm_ok demo_D"
  by (auto simp: sbm_ok_def ptr_ok_def num_groups_def index_bound_def max_u32_def less_Suc_eq nth_Cons')

lemma demo_init_built: "make_matrix_state Matrices demo_csc (Some demo_O) [] None (Some demo_D) None = Inr demo_init"
  by (simp add: make_matrix_state_def to_csc_def to_csr_def validate_model_def demo_init_def)

lemma demo_init_ok: "init_ok demo_init" "di_has_matrices demo_init" "di_D demo_init = Some demo_D" "di_O demo_init = Some demo_O"
  "di_num_observables demo_init = 1" "di_num_error_mechanisms demo_init = 3" "di_num_detectors demo_init = 2"
  using make_matrix_state_ok(1) [OF demo_csc_ok _ _ demo_init_built] demo_OD_ok by (simp_all add: demo_init_def)

lemma demo_groups: "groups demo_O = [[0, 2]]" "groups demo_D = [[0, 3], [1, 2]]"
  by (simp_all add: groups_def groups_of_def num_groups_def vslice_def upt_rec)

lemma demo_decoder:
  obtains d where "decoder_new o_chunked demo_init rtype pl = Inr d" "serving d" "inputs d = demo_init" "output_primary d = rtype"
    "plugin d = pl" "num_msyn_per_decode (pimpl d) = 4" "measurement_to_detectors (pimpl d) = [[0, 3], [1, 2]]"
    "corrections (pimpl d) = [0]" "block_size d = 3" "get_num_observables d = 1" "frame_size d = (case rtype of Errors \<Rightarrow> 3 | Observables \<Rightarrow> 1)"
proof -
  from decoder_new_serving [OF demo_init_ok(1,2,3), of rtype o_chunked pl] demo_init_ok(4) obtain d where
    d: "decoder_new o_chunked demo_init rtype pl = Inr d" "serving d" "inputs d = demo_init" "output_primary d = rtype"
    "plugin d = pl" "num_msyn_per_decode (pimpl d) = sbm_cols demo_D" "measurement_to_detectors (pimpl d) = groups demo_D"
    "corrections (pimpl d) = replicate (di_num_observables demo_init) 0" by auto
  moreover have "block_size d = 3" using servingD(8) [OF d(2)] d(3) demo_init_ok(6) by simp
  moreover have "get_num_observables d = 1" using d(3) demo_init_ok(5) by (simp add: get_num_observables_def)
  moreover from calculation have "frame_size d = (case rtype of Errors \<Rightarrow> 3 | Observables \<Rightarrow> 1)"
    by (cases rtype) (simp_all add: frame_size_def)
  ultimately show thesis using that [of d] demo_init_ok(5) demo_groups(2) by simp
qed

section \<open>Properties\<close>

text \<open>
  C4: In realtime decoding, whatever way the measurements of a shot are split into rounds (empty
  rounds included), every call but the last reports no decode; the last one decodes the
  detector values of the whole shot, although detectors were resolved as soon as their last
  measurement arrived, flips exactly the corrections the result calls for, and leaves the decoder
  ready for the next shot.
\<close>

theorem realtime_shot:
  assumes "serving d" "length (concat rs @ r) = num_msyn_per_decode (pimpl d)" "r \<noteq> []"
    "dec (plugin d) (detectors_of d (concat rs @ r)) = Inr (res, plug)" "length (decoded res) = frame_size d"
  shows "\<exists>d'. enqueue_rounds dec (rs @ [r]) d = Inr (replicate (length rs) False @ [True], d') \<and> ready_again d d' \<and>
    plugin d' = plug \<and> (\<forall>i < get_num_observables d.
      get_obs_corrections d' ! i = (if frame_flips d (decoded res) i then get_obs_corrections d ! i XOR 1 else get_obs_corrections d ! i))"
proof -
  have "length ([] @ concat rs @ r) = num_msyn_per_decode (pimpl d)" "dec (plugin d) (detectors_of d ([] @ concat rs @ r)) = Inr (res, plug)"
    using assms(2,4) by simp_all
  from enqueue_rounds_shot [where dec = dec, OF assms(1) shot_start [OF assms(1)] this(1) assms(3) this(2) assms(5)]
  show ?thesis using servingD(4) [OF assms(1)] by (auto simp: apply_flips_def get_obs_corrections_def)
qed

theorem realtime_shot_witness:
  "\<exists>d d'. decoder_new (\<lambda>_. Inl Undefined_behaviour) demo_init Errors () = Inr d \<and>
     enqueue_rounds (\<lambda>_ s. Inr (\<lparr>converged = True, decoded = [s ! 0, 0, 0], opt_results = None\<rparr>, ())) [[1], [], [0, 1], [0]] d
       = Inr ([False, False, False, True], d') \<and> get_obs_corrections d' ! 0 = 1"
proof -
  obtain d where d: "decoder_new (\<lambda>_. Inl Undefined_behaviour) demo_init Errors () = Inr d" "serving d" "inputs d = demo_init"
    "output_primary d = Errors" "num_msyn_per_decode (pimpl d) = 4" "measurement_to_detectors (pimpl d) = [[0, 3], [1, 2]]"
    "corrections (pimpl d) = [0]" "get_num_observables d = 1" "frame_size d = 3"
    by (rule demo_decoder [of "\<lambda>_. Inl Undefined_behaviour" Errors "()"]) simp
  have "detectors_of d [1, 0, 1, 0] = [1, 1]" using d(6) by (simp add: detectors_of_def xor_at_def convert_vec_hard_to_soft_def)
  moreover have "frame_flips d [1, 0, 0] 0" using d(3,4) demo_init_ok(4) demo_groups(1) by (simp add: frame_flips_def)
  ultimately show ?thesis
    using realtime_shot [of d "[[1], [], [0, 1]]" "[0]" "\<lambda>_ s. Inr (\<lparr>converged = True, decoded = [s ! 0, 0, 0], opt_results = None\<rparr>, ())"
        "\<lparr>converged = True, decoded = [1, 0, 0], opt_results = None\<rparr>" "()"] d
    by (auto simp: get_obs_corrections_def)
qed

text \<open>
  C21: A decoder that reports errors and one that projects its errors onto observables first give the
  same corrections, provided the reported error values are 0 or 1.
\<close>

theorem projection_agrees:
  assumes "serving d" "output_primary d = Errors" "length frame = block_size d" "set frame \<subseteq> {0, 1}" "length cs = get_num_observables d"
  shows "\<exists>obs cs'. project_errors_to_observables frame (get_num_observables d) d = Inr obs \<and> length obs = get_num_observables d \<and>
    apply_result frame d cs = Inr cs' \<and> apply_result obs (d\<lparr>output_primary := Observables\<rparr>) cs = Inr cs'"
proof -
  note S = servingD [OF assms(1)]
  obtain M where M: "di_O (inputs d) = Some M" using S(9) assms(2) by auto
  define obs :: "real list" where
    "obs = map (\<lambda>i. if odd (length (filter (\<lambda>c. 1/2 \<le> frame ! c) (groups M ! i))) then 1 else 0) [0..<get_num_observables d]"
  let ?d = "d\<lparr>output_primary := Observables\<rparr>"
  have o1: "project_errors_to_observables frame (get_num_observables d) d = Inr obs"
    unfolding obs_def by (rule project_eq [OF S(5-8) M assms(3)])
  have a1: "apply_result frame d cs = Inr (apply_flips (frame_flips d frame) cs)"
    using S assms by (intro apply_result_eq) (simp_all add: frame_size_def)
  have a2: "apply_result obs ?d cs = Inr (apply_flips (frame_flips ?d obs) cs)"
    using S assms by (intro apply_result_eq) (simp_all add: frame_size_def obs_def get_num_observables_def)
  have bit: "1/2 \<le> frame ! c \<longleftrightarrow> frame ! c \<noteq> 0" if "c < length frame" for c
    using nth_mem [OF that] assms(4) by auto
  have "frame_flips ?d obs i = frame_flips d frame i" if i: "i < get_num_observables d" for i
  proof -
    have ok: "sbm_ok M" "num_groups M = get_num_observables d" "index_bound M = length frame"
      using S(5,6,8) M assms(3) by (simp_all add: init_ok_def get_num_observables_def num_groups_def index_bound_def)
    have "filter (\<lambda>c. 1/2 \<le> frame ! c) (groups M ! i) = filter (\<lambda>c. frame ! c \<noteq> 0) (groups M ! i)"
      using set_group_bound [OF ok(1), of i] i ok(2,3) bit by (intro filter_cong) auto
    then show ?thesis using i assms(2) M by (simp add: frame_flips_def obs_def)
  qed
  then have "apply_flips (frame_flips ?d obs) cs = apply_flips (frame_flips d frame) cs"
    using assms(5) by (simp add: apply_flips_def)
  then show ?thesis using o1 a1 a2 by (simp add: obs_def)
qed

theorem projection_agrees_witness:
  "\<exists>d :: (unit, unit) decoder. decoder_new (\<lambda>_. Inl Undefined_behaviour) demo_init Errors () = Inr d \<and>
    (\<exists>obs. project_errors_to_observables [1, 0, 1] 1 d = Inr obs \<and> length obs = 1)"
proof -
  obtain d where d: "decoder_new (\<lambda>_. Inl Undefined_behaviour) demo_init Errors () = Inr d" "serving d"
    "output_primary d = Errors" "block_size d = 3" "get_num_observables d = 1"
    by (rule demo_decoder [of "\<lambda>_. Inl Undefined_behaviour" Errors "()"]) simp
  then show ?thesis using projection_agrees [of d "[1, 0, 1]" "[0]"] by auto
qed

text \<open>
  For soft error values the two paths differ: a value of a quarter is no error to the projection,
  but the error-frame path of \<open>enqueue_syndrome\<close> flips the correction for it.
\<close>

lemma soft_frames_disagree:
  assumes "decoder_new o_chunked demo_init Errors pl = Inr d"
  shows "project_errors_to_observables [1/4, 0, 0] 1 d = Inr [0]" "apply_result [1/4, 0, 0] d [0] = Inr [1]"
proof -
  obtain d' where d': "decoder_new o_chunked demo_init Errors pl = Inr d'" "serving d'" "inputs d' = demo_init"
    "output_primary d' = Errors" "block_size d' = 3" "get_num_observables d' = 1" "frame_size d' = 3"
    by (rule demo_decoder [of o_chunked Errors pl]) simp
  then have d: "d' = d" using assms by simp
  note S = servingD [OF d'(2), unfolded d]
  have M: "di_O (inputs d) = Some demo_O" using d'(3) d demo_init_ok(4) by simp
  have n: "get_num_observables d = 1" "length [1/4, 0, 0 :: real] = block_size d" "length [1/4, 0, 0 :: real] = frame_size d"
    using d'(5-7) d by simp_all
  show "project_errors_to_observables [1/4, 0, 0] 1 d = Inr [0]"
    using project_eq [OF S(5-8) M n(2)] demo_groups(1) unfolding n(1) by simp
  show "apply_result [1/4, 0, 0] d [0] = Inr [1]"
    using apply_result_eq [OF S(5-9) n(3), of "[0]"] n(1) d'(4) d M demo_groups(1)
    by (simp add: apply_flips_def frame_flips_def)
qed

end
