(* ===== verification/QEC_Lut.thy ===== *)
theory QEC_Lut
  imports QEC_Decoder_Theorems
begin

text \<open>
  The lookup-table decoder (lut.cpp): its constructor enumerates every set of at most
  \<open>lut_error_depth\<close> errors with \<open>std::prev_permutation\<close> and stores the first set found for each
  error signature; \<open>decode\<close> looks the syndrome up. The random access into the signature string
  is checked in the model. The bound on the table size is the exact binomial coefficient where
  the source computes it from the beta function. The measured decoding time is a parameter.
\<close>

section \<open>Enumeration of error sets\<close>

text \<open>\<open>std::prev_permutation\<close>: \<open>None\<close> when the list is already sorted.\<close>

fun prev_permutation :: "'a :: linorder list \<Rightarrow> 'a list option" where
  "prev_permutation [] = None"
| "prev_permutation (x # xs) =
     (case prev_permutation xs of
        Some ys \<Rightarrow> Some (x # ys)
      | None \<Rightarrow>
          (let smaller = takeWhile (\<lambda>y. y < x) xs; rest = dropWhile (\<lambda>y. y < x) xs in
           if smaller = [] then None else Some (last smaller # rev (butlast smaller @ x # rest))))"

fun mask_value :: "bool list \<Rightarrow> nat" where
  "mask_value [] = 0"
| "mask_value (b # bs) = (if b then 2 ^ length bs else 0) + mask_value bs"

lemma mask_value_less: "mask_value bs < 2 ^ length bs"
  by (induction bs) auto

lemma prev_permutation_decreases:
  "prev_permutation m = Some m' \<Longrightarrow> length m' = length m \<and> mask_value m' < mask_value m"
proof (induction m arbitrary: m')
  case (Cons x xs)
  show ?case
  proof (cases "prev_permutation xs")
    case None
    let ?s = "takeWhile (\<lambda>y. y < x) xs" and ?r = "dropWhile (\<lambda>y. y < x) xs"
    have s: "?s \<noteq> []" and m': "m' = last ?s # rev (butlast ?s @ x # ?r)"
      using Cons.prems None by (auto simp: Let_def split: if_splits)
    have "last ?s < x" using last_in_set [OF s] by (auto dest: set_takeWhileD)
    then have x: "x" "\<not> last ?s" by auto
    have "length (butlast ?s) + length ?r + 1 = length xs"
      using s length_append [of ?s ?r] by (cases "length ?s") simp_all
    then have "length m' = length (x # xs)" "mask_value m' < 2 ^ length xs"
      using m' x(2) mask_value_less [of "rev (butlast ?s @ x # ?r)"] by (simp_all add: add.commute)
    then show ?thesis using x(1) by simp
  qed (use Cons in auto)
qed simp

text \<open>The bitmasks of the loop \<open>do ... while (std::prev_permutation(bitmask))\<close>, from the first one on.\<close>

function masks_from :: "bool list \<Rightarrow> bool list list" where
  "masks_from m = m # (case prev_permutation m of None \<Rightarrow> [] | Some m' \<Rightarrow> masks_from m')"
  by pat_completeness auto
termination
  by (relation "measure mask_value") (auto dest: prev_permutation_decreases)

declare masks_from.simps [simp del]

section \<open>Construction\<close>

record lut_entry =
  error_list :: "nat list"
  entry_p :: real

record lut =
  error_signatures :: "string \<rightharpoonup> lut_entry"
  lut_error_depth :: int
  error_rate_vec :: "real list"
  has_opt_results :: bool
  error_probability :: bool
  syndrome_weight :: bool
  decoding_time :: bool

definition available_result_types :: "string list" where
  "available_result_types = [''error_probability'', ''syndrome_weight'', ''decoding_time'']"

definition toggleSynForError :: "nat list list \<Rightarrow> nat \<Rightarrow> string \<Rightarrow> string res" where
  "toggleSynForError H_e2d qErr err_sig =
     rbind (vget H_e2d qErr) (\<lambda>rows. rfold (\<lambda>r s. rbind (vget s r) (\<lambda>c. vset s r (if c = CHR ''1'' then CHR ''0'' else CHR ''1''))) rows err_sig)"

definition mask_entry :: "nat list list \<Rightarrow> real list \<Rightarrow> nat \<Rightarrow> nat \<Rightarrow> bool list \<Rightarrow> (string \<times> lut_entry) res" where
  "mask_entry H_e2d rates nsyn nblock bitmask =
     rfold (\<lambda>qErr (err_sig, e). rbind (vget bitmask qErr) (\<lambda>b.
         if b then rbind (toggleSynForError H_e2d qErr err_sig) (\<lambda>s.
                Inr (s, \<lparr>error_list = error_list e @ [qErr],
                         entry_p = (if qErr < length rates then entry_p e * rates ! qErr else entry_p e)\<rparr>))
         else Inr (err_sig, e)))
       [0..<nblock] (replicate nsyn (CHR ''0''), \<lparr>error_list = [], entry_p = 1\<rparr>)"

definition add_mask :: "nat list list \<Rightarrow> real list \<Rightarrow> nat \<Rightarrow> nat \<Rightarrow> bool list \<Rightarrow> (string \<rightharpoonup> lut_entry) \<Rightarrow> (string \<rightharpoonup> lut_entry) res" where
  "add_mask H_e2d rates nsyn nblock bitmask table =
     rbind (mask_entry H_e2d rates nsyn nblock bitmask) (\<lambda>(err_sig, e).
       Inr (if table err_sig \<noteq> None then table else table(err_sig \<mapsto> e)))"

definition fill_table :: "nat list list \<Rightarrow> real list \<Rightarrow> nat \<Rightarrow> nat \<Rightarrow> nat \<Rightarrow> (string \<rightharpoonup> lut_entry) res" where
  "fill_table H_e2d rates nsyn nblock depth =
     rfold (\<lambda>k table.
         if nblock < k then Inl Undefined_behaviour
         else rfold (add_mask H_e2d rates nsyn nblock)
                (masks_from (replicate k True @ replicate (nblock - k) False)) table)
       [1..<depth + 1] Map.empty"

definition read_depth :: "heterogeneous_map \<Rightarrow> nat \<Rightarrow> int res" where
  "read_depth params nblock =
     (if het_contains ''lut_error_depth'' params
      then rbind (het_get T_int ''lut_error_depth'' params) (\<lambda>v. case v of
          Any_int w \<Rightarrow>
            if sint w < 1 then Inl (Runtime_error ''lut_error_depth must be >= 1'')
            else if int nblock < sint w then Inl (Runtime_error ''lut_error_depth must be <= block_size'')
            else Inr (sint w)
        | _ \<Rightarrow> Inl Undefined_behaviour)
      else Inr 1)"

definition check_rates :: "real list \<Rightarrow> nat \<Rightarrow> unit res" where
  "check_rates rates nblock =
     (if rates = [] then Inr ()
      else if length rates \<noteq> nblock then Inl (Runtime_error ''error_rate_vec must be of size block_size'')
      else if list_ex (\<lambda>x. x < 0 \<or> 1 < x) rates then Inl (Runtime_error ''error_rate_vec value is out of range [0, 1]'')
      else Inr ())"

definition read_opt_results :: "heterogeneous_map \<Rightarrow> lut \<Rightarrow> lut res" where
  "read_opt_results params st =
     (if het_contains ''opt_results'' params
      then rbind (het_get T_map ''opt_results'' params) (\<lambda>v. case v of
          Any_map requested \<Rightarrow>
            let invalid_types = validate_config_parameters requested available_result_types in
            if invalid_types \<noteq> []
            then Inl (Runtime_error (''Requested result types not available in LUT decoder: '' @
                   concat (map (\<lambda>i. invalid_types ! i @ (if i < length invalid_types - 1 then '', '' else [])) [0..<length invalid_types])))
            else let flag = (\<lambda>key b. het_get_default T_bool key (Any_bool b) requested = Any_bool True) in
              Inr (st\<lparr>has_opt_results := True,
                      error_probability := flag ''error_probability'' (error_probability st),
                      syndrome_weight := flag ''syndrome_weight'' (syndrome_weight st),
                      decoding_time := flag ''decoding_time'' (decoding_time st)\<rparr>)
        | _ \<Rightarrow> Inl Undefined_behaviour)
      else Inr st)"

definition multi_error_lut ::
  "('c \<Rightarrow> chunked_observable_map res) \<Rightarrow> 'c decoder_init \<Rightarrow> decoder_output_request \<Rightarrow> heterogeneous_map \<Rightarrow> ('c, lut) decoder res" where
  "multi_error_lut o_chunked init request params =
     rbind (decoder_new o_chunked init (primary request)
         \<lparr>error_signatures = Map.empty, lut_error_depth = 1, error_rate_vec = [], has_opt_results = False,
          error_probability = False, syndrome_weight = False, decoding_time = False\<rparr>) (\<lambda>d.
     if has_auxiliary_outputs request then Inl (Invalid_argument ''lut decoder does not produce auxiliary outputs'')
     else if primary request = Observables \<and> \<not> has_observable_model (inputs d)
     then Inl (Invalid_argument ''lut decoder was constructed for observable output but its model supplies no observable mapping'')
     else
       rbind (init_detector_error_matrix (inputs d)) (\<lambda>H.
       rbind (init_error_rates (inputs d)) (\<lambda>rates.
       rbind (read_depth params (block_size d)) (\<lambda>depth.
       rbind (check_rates rates (block_size d)) (\<lambda>_.
       if 10 ^ 9 < block_size d choose nat depth then Inl (Runtime_error ''lut_error_depth is too large for LUT decoder'')
       else
         rbind (read_opt_results params ((plugin d)\<lparr>lut_error_depth := depth, error_rate_vec := rates\<rparr>)) (\<lambda>st.
         rbind (fill_table (to_nested_csc H) rates (syndrome_size d) (block_size d) (nat depth)) (\<lambda>table.
           Inr (d\<lparr>plugin := st\<lparr>error_signatures := table\<rparr>\<rparr>))))))))"

text \<open>\<open>single_error_lut\<close> inherits everything; both \<open>create\<close> functions ask for errors by default.\<close>

definition lut_create ::
  "('c \<Rightarrow> chunked_observable_map res) \<Rightarrow> 'c decoder_init \<Rightarrow> decoder_output_request option \<Rightarrow> heterogeneous_map \<Rightarrow> ('c, lut) decoder res" where
  "lut_create o_chunked init output params =
     multi_error_lut o_chunked init (case output of Some rq \<Rightarrow> rq | None \<Rightarrow> \<lparr>primary = Errors, auxiliary = 0\<rparr>) params"

section \<open>Decoding\<close>

definition check_syndrome_size :: "nat \<Rightarrow> ('c, 'p) decoder \<Rightarrow> unit res" where
  "check_syndrome_size n d =
     require (n = syndrome_size d) (Invalid_argument ''Syndrome has length {} but this decoder expects {} (the number of detectors)'')"

definition lut_finish :: "('c, 'p) decoder \<Rightarrow> decoder_result \<Rightarrow> decoder_result res" where
  "lut_finish d r =
     (if output_primary d = Observables
      then rbind (project_errors_to_observables (decoded r) (get_num_observables d) d) (\<lambda>obs. Inr (r\<lparr>decoded := obs\<rparr>))
      else Inr r)"

definition lut_opt_results :: "lut \<Rightarrow> lut_entry option \<Rightarrow> nat \<Rightarrow> real \<Rightarrow> heterogeneous_map option" where
  "lut_opt_results st entry weight duration =
     (if has_opt_results st then
        let m1 = (if error_probability st then het_insert ''error_probability'' (Any_double (case entry of Some e \<Rightarrow> entry_p e | None \<Rightarrow> 0)) [] else []);
            m2 = (if syndrome_weight st then het_insert ''syndrome_weight'' (Any_int (of_nat weight)) m1 else m1)
        in Some (if decoding_time st then het_insert ''decoding_time'' (Any_double duration) m2 else m2)
      else None)"

definition lut_decode :: "real \<Rightarrow> ('c, lut) decoder \<Rightarrow> real list \<Rightarrow> decoder_result res" where
  "lut_decode duration d syndrome =
     rbind (check_syndrome_size (length syndrome) d) (\<lambda>_.
     let hard = map (\<lambda>i. convert_soft_to_hard (syndrome ! i) (1/2)) [0..<syndrome_size d];
         syndrome_str = map (\<lambda>b. if b then CHR ''1'' else CHR ''0'') hard;
         zeros = replicate (block_size d) 0
     in if True \<notin> set hard then lut_finish d \<lparr>converged = True, decoded = zeros, opt_results = None\<rparr>
        else
          let entry = error_signatures (plugin d) syndrome_str in
          rbind (case entry of
              Some e \<Rightarrow> rfold (\<lambda>qErr r. rbind (vget r qErr) (\<lambda>x. vset r qErr (1 - x))) (error_list e) zeros
            | None \<Rightarrow> Inr zeros) (\<lambda>frame.
            lut_finish d \<lparr>converged = (entry \<noteq> None), decoded = frame,
              opt_results = lut_opt_results (plugin d) entry (length (filter id hard)) duration\<rparr>))"

text \<open>The virtual \<open>decode\<close> of the object \<open>d\<close>, on the part of the state that is its own.\<close>

definition lut_dec :: "real \<Rightarrow> ('c, lut) decoder \<Rightarrow> lut decode_fn" where
  "lut_dec duration d p syndrome = rbind (lut_decode duration (d\<lparr>plugin := p\<rparr>) syndrome) (\<lambda>r. Inr (r, p))"

end
