(* ===== verification/QEC_Lut_Theorems.thy ===== *)
theory QEC_Lut_Theorems
  imports QEC_Lut
begin

text \<open>
  The lookup-table decoder: the enumeration visits every error set of each size once, in order of
  size, so a decode that converges returns an error set of minimum weight with the observed
  syndrome. The decoder meets the contract \<open>decode_plugin\<close>, which gives its behaviour in realtime.
\<close>

unbundle bit_operations_syntax

section \<open>The enumeration is complete\<close>

fun kmasks :: "nat \<Rightarrow> nat \<Rightarrow> bool list list" where
  "kmasks 0 0 = [[]]"
| "kmasks 0 (Suc k) = []"
| "kmasks (Suc n) 0 = map ((#) False) (kmasks n 0)"
| "kmasks (Suc n) (Suc k) = map ((#) True) (kmasks n k) @ map ((#) False) (kmasks n (Suc k))"

abbreviation weight :: "bool list \<Rightarrow> nat" where
  "weight m \<equiv> count_list m True"

lemma kmasks_empty: "n < k \<Longrightarrow> kmasks n k = []"
  by (induction n k rule: kmasks.induct) simp_all

lemma mem_kmasks: "m \<in> set (kmasks n k) \<longleftrightarrow> length m = n \<and> weight m = k"
proof (induction n k arbitrary: m rule: kmasks.induct)
  case (3 n)
  then show ?case by (cases m) auto
next
  case (4 n k)
  then show ?case by (cases m) auto
qed auto

lemma prev_permutation_sorted: "sorted xs \<Longrightarrow> prev_permutation xs = None"
proof (induction xs)
  case (Cons x xs)
  then have "takeWhile (\<lambda>y. y < x) xs = []" by (cases xs) auto
  then show ?case using Cons by simp
qed simp

lemma sorted_low_high: "sorted (replicate a False @ replicate b True)"
  by (simp add: sorted_append)

lemma prev_permutation_step:
  "0 < a \<Longrightarrow> prev_permutation (True # replicate a False @ replicate b True)
    = Some (False # replicate (Suc b) True @ replicate (a - 1) False)"
proof -
  assume a: "0 < a"
  let ?xs = "replicate a False @ replicate b True"
  have "takeWhile (\<lambda>y. y < True) ?xs = replicate a False" "dropWhile (\<lambda>y. y < True) ?xs = replicate b True"
    by (simp_all add: takeWhile_append dropWhile_append takeWhile_replicate)
  then show ?thesis
    using a prev_permutation_sorted [OF sorted_low_high, of a b] butlast_conv_take [of "replicate a False"]
    by (simp add: Let_def last_replicate rev_append replicate_append_same)
qed

lemma kmasks_chain:
  "k \<le> n \<Longrightarrow> successively (\<lambda>a b. prev_permutation a = Some b) (kmasks n k) \<and> kmasks n k \<noteq> [] \<and>
    hd (kmasks n k) = replicate k True @ replicate (n - k) False \<and> last (kmasks n k) = replicate (n - k) False @ replicate k True"
proof (induction n k rule: kmasks.induct)
  case (3 n)
  then show ?case by (auto simp: successively_map hd_map last_map elim!: successively_mono)
next
  case (4 n k)
  have ext: "successively (\<lambda>a b. prev_permutation a = Some b) (map ((#) x) ms)"
    if "successively (\<lambda>a b. prev_permutation a = Some b) ms" for x ms
    using that by (auto simp: successively_map elim!: successively_mono)
  have k: "k \<le> n" using 4(3) by simp
  note A = 4(1) [OF k]
  show ?case
  proof (cases "Suc k \<le> n")
    case True
    note B = 4(2) [OF True]
    have "prev_permutation (True # last (kmasks n k)) = Some (False # hd (kmasks n (Suc k)))"
      using A B True prev_permutation_step [of "n - k" k] by simp
    then show ?thesis
      using A B ext [of "kmasks n k" True] ext [of "kmasks n (Suc k)" False]
      by (simp add: successively_append_iff hd_map last_map, simp add: True Suc_diff_Suc [symmetric] Suc_le_lessD)
  next
    case False
    then have n: "n = k" using k by simp
    then show ?thesis using A ext [of "kmasks n k" True] kmasks_empty [of n "Suc n"] by (simp add: hd_map last_map)
  qed
qed simp_all

lemma masks_from_chain:
  "ms \<noteq> [] \<Longrightarrow> successively (\<lambda>a b. prev_permutation a = Some b) ms \<Longrightarrow> prev_permutation (last ms) = None \<Longrightarrow> masks_from (hd ms) = ms"
proof (induction ms)
  case (Cons m ms)
  then show ?case by (cases ms) (simp_all add: masks_from.simps [of m])
qed simp

lemma masks_from_eq: "k \<le> n \<Longrightarrow> masks_from (replicate k True @ replicate (n - k) False) = kmasks n k"
  using kmasks_chain [of k n] masks_from_chain [of "kmasks n k"] prev_permutation_sorted [OF sorted_low_high] by simp

section \<open>The table\<close>

definition bits :: "nat \<Rightarrow> (nat \<Rightarrow> bool) \<Rightarrow> string" where
  "bits n f = map (\<lambda>r. if f r then CHR ''1'' else CHR ''0'') [0..<n]"

lemma bits_eq_iff: "bits n f = bits n g \<longleftrightarrow> (\<forall>r < n. f r = g r)"
  by (auto simp: bits_def split: if_splits)

definition parity :: "nat list list \<Rightarrow> bool list \<Rightarrow> nat \<Rightarrow> bool" where
  "parity cols m r \<longleftrightarrow> odd (\<Sum>q \<leftarrow> filter (\<lambda>q. m ! q) [0..<length cols]. count_list (cols ! q) r)"

definition entry_of :: "real list \<Rightarrow> bool list \<Rightarrow> lut_entry" where
  "entry_of rates m =
     (let qs = filter (\<lambda>q. m ! q) [0..<length m]
      in \<lparr>error_list = qs, entry_p = fold (\<lambda>q p. if q < length rates then p * rates ! q else p) qs 1\<rparr>)"

lemma toggle_bit: "r < n \<Longrightarrow> (bits n f)[r := (if bits n f ! r = CHR ''1'' then CHR ''0'' else CHR ''1'')] = bits n (f(r := \<not> f r))"
  by (rule nth_equalityI) (auto simp: bits_def nth_list_update)

lemma toggle_eq:
  assumes "q < length cols" "\<forall>r \<in> set (cols ! q). r < n"
  shows "toggleSynForError cols q (bits n f) = Inr (bits n (\<lambda>r. f r \<noteq> odd (count_list (cols ! q) r)))"
proof -
  have "rfold (\<lambda>r s. rbind (vget s r) (\<lambda>c. vset s r (if c = CHR ''1'' then CHR ''0'' else CHR ''1''))) rows (bits n f)
      = Inr (bits n (\<lambda>r. f r \<noteq> odd (count_list rows r)))" if "\<forall>r \<in> set rows. r < n" for rows
    using that
  proof (induction rows arbitrary: f)
    case (Cons r rows)
    have l: "length (bits n f) = n" by (simp add: bits_def)
    have "bits n (\<lambda>x. (f(r := \<not> f r)) x \<noteq> odd (count_list rows x)) = bits n (\<lambda>x. f x \<noteq> odd (count_list (r # rows) x))"
      unfolding bits_eq_iff by auto
    moreover have "rbind (vget (bits n f) r) (\<lambda>c. vset (bits n f) r (if c = CHR ''1'' then CHR ''0'' else CHR ''1'')) = Inr (bits n (f(r := \<not> f r)))"
      using Cons.prems l toggle_bit [of r n f] by simp
    moreover have "\<forall>r \<in> set rows. r < n" using Cons.prems by simp
    ultimately show ?case unfolding rfold.simps by (simp only: rbind_simps Cons.IH)
  qed simp
  then show ?thesis using assms by (simp add: toggleSynForError_def)
qed

definition cols_ok :: "nat list list \<Rightarrow> nat \<Rightarrow> bool" where
  "cols_ok cols n \<longleftrightarrow> (\<forall>c \<in> set cols. \<forall>r \<in> set c. r < n)"

lemma mask_entry_eq:
  assumes "cols_ok cols n" "length m = length cols"
  shows "mask_entry cols rates n (length cols) m = Inr (bits n (parity cols m), entry_of rates m)"
proof -
  let ?step = "\<lambda>qErr (err_sig, e). rbind (vget m qErr) (\<lambda>b.
         if b then rbind (toggleSynForError cols qErr err_sig) (\<lambda>s.
                Inr (s, \<lparr>error_list = error_list e @ [qErr],
                         entry_p = (if qErr < length rates then entry_p e * rates ! qErr else entry_p e)\<rparr>))
         else Inr (err_sig, e))"
  let ?qs = "\<lambda>j. filter (\<lambda>q. m ! q) [0..<j]"
  have "j \<le> length cols \<Longrightarrow> rfold ?step [0..<j] (replicate n (CHR ''0''), \<lparr>error_list = [], entry_p = 1\<rparr>)
      = Inr (bits n (\<lambda>r. odd (\<Sum>q \<leftarrow> ?qs j. count_list (cols ! q) r)),
             \<lparr>error_list = ?qs j, entry_p = fold (\<lambda>q p. if q < length rates then p * rates ! q else p) (?qs j) 1\<rparr>)" for j
  proof (induction j)
    case 0
    then show ?case by (simp add: bits_def map_replicate_const)
  next
    case (Suc j)
    then have j: "j < length cols" "\<forall>r \<in> set (cols ! j). r < n" using assms(1) nth_mem [of j cols] by (auto simp: cols_ok_def)
    then show ?case using Suc assms(2) toggle_eq [OF j] by (auto simp: rfold_append bits_eq_iff)
  qed
  from this [of "length cols"] show ?thesis
    using assms(2) by (simp add: mask_entry_def parity_def [abs_def] entry_of_def Let_def)
qed

lemma add_masks_eq:
  assumes "cols_ok cols n" "\<forall>m \<in> set ms. length m = length cols"
  shows "rfold (add_mask cols rates n (length cols)) ms table
    = Inr (\<lambda>s. case table s of Some e \<Rightarrow> Some e | None \<Rightarrow> map_option (entry_of rates) (find (\<lambda>m. bits n (parity cols m) = s) ms))"
  using assms(2)
proof (induction ms arbitrary: table)
  case Nil
  then show ?case by (auto split: option.splits)
next
  case (Cons m ms)
  let ?t = "if table (bits n (parity cols m)) \<noteq> None then table else table(bits n (parity cols m) \<mapsto> entry_of rates m)"
  have "add_mask cols rates n (length cols) m table = Inr ?t"
    using Cons.prems mask_entry_eq [OF assms(1), of m] by (simp add: add_mask_def)
  then have "rfold (add_mask cols rates n (length cols)) (m # ms) table
      = Inr (\<lambda>s. case ?t s of Some e \<Rightarrow> Some e | None \<Rightarrow> map_option (entry_of rates) (find (\<lambda>m. bits n (parity cols m) = s) ms))"
    using Cons.IH [of ?t] Cons.prems by simp
  also have "\<dots> = Inr (\<lambda>s. case table s of Some e \<Rightarrow> Some e | None \<Rightarrow> map_option (entry_of rates) (find (\<lambda>m. bits n (parity cols m) = s) (m # ms)))"
    by (auto simp: fun_eq_iff split: option.splits)
  finally show ?case .
qed

definition table_masks :: "nat \<Rightarrow> nat \<Rightarrow> bool list list" where
  "table_masks n depth = concat (map (kmasks n) [1..<depth + 1])"

lemma mem_table_masks: "m \<in> set (table_masks n depth) \<longleftrightarrow> length m = n \<and> 1 \<le> weight m \<and> weight m \<le> depth"
  by (auto simp: table_masks_def mem_kmasks)

lemma find_append: "find P (xs @ ys) = (case find P xs of Some x \<Rightarrow> Some x | None \<Rightarrow> find P ys)"
  by (induction xs) auto

lemma fill_table_eq:
  assumes "cols_ok cols n" "depth \<le> length cols"
  shows "fill_table cols rates n (length cols) depth
    = Inr (\<lambda>s. map_option (entry_of rates) (find (\<lambda>m. bits n (parity cols m) = s) (table_masks (length cols) depth)))"
  using assms(2)
proof (induction depth)
  case 0
  then show ?case by (simp add: fill_table_def table_masks_def)
next
  case (Suc d)
  have "rfold (add_mask cols rates n (length cols)) (kmasks (length cols) (Suc d)) t = Inr (\<lambda>s. case t s of Some e \<Rightarrow> Some e
      | None \<Rightarrow> map_option (entry_of rates) (find (\<lambda>m. bits n (parity cols m) = s) (kmasks (length cols) (Suc d))))" for t
    by (rule add_masks_eq [OF assms(1)]) (simp add: mem_kmasks)
  moreover have "table_masks (length cols) (Suc d) = table_masks (length cols) d @ kmasks (length cols) (Suc d)"
    by (simp add: table_masks_def)
  ultimately show ?case
    using Suc masks_from_eq [of "Suc d" "length cols"]
    by (auto simp: fill_table_def rfold_append find_append fun_eq_iff split: option.splits)
qed

section \<open>The constructed decoder\<close>

abbreviation lut_cols :: "('c, lut) decoder \<Rightarrow> nat list list" where
  "lut_cols d \<equiv> groups (di_H (inputs d))"

definition lut_ok :: "('c, lut) decoder \<Rightarrow> bool" where
  "lut_ok d \<longleftrightarrow> init_ok (inputs d) \<and> di_has_matrices (inputs d) \<and> chunk_observables (pimpl d) = None \<and>
     block_size d = di_num_error_mechanisms (inputs d) \<and> syndrome_size d = di_num_detectors (inputs d) \<and>
     (output_primary d = Observables \<longrightarrow> di_O (inputs d) \<noteq> None) \<and>
     1 \<le> lut_error_depth (plugin d) \<and> lut_error_depth (plugin d) \<le> int (block_size d) \<and>
     error_signatures (plugin d) = (\<lambda>s. map_option (entry_of (error_rate_vec (plugin d)))
       (find (\<lambda>m. bits (syndrome_size d) (parity (lut_cols d) m) = s) (table_masks (block_size d) (nat (lut_error_depth (plugin d))))))"

lemma lut_okD:
  assumes "lut_ok d"
  shows "init_ok (inputs d)" "di_has_matrices (inputs d)" "chunk_observables (pimpl d) = None"
    "block_size d = di_num_error_mechanisms (inputs d)" "syndrome_size d = di_num_detectors (inputs d)"
    "output_primary d = Observables \<Longrightarrow> di_O (inputs d) \<noteq> None"
    "1 \<le> lut_error_depth (plugin d)" "lut_error_depth (plugin d) \<le> int (block_size d)"
    "error_signatures (plugin d) = (\<lambda>s. map_option (entry_of (error_rate_vec (plugin d)))
       (find (\<lambda>m. bits (syndrome_size d) (parity (lut_cols d) m) = s) (table_masks (block_size d) (nat (lut_error_depth (plugin d))))))"
  using assms by (simp_all add: lut_ok_def)

lemma init_cols:
  assumes "init_ok init" "di_has_matrices init"
  shows "to_nested_csc (di_H init) = groups (di_H init)" "length (groups (di_H init)) = di_num_error_mechanisms init"
    "cols_ok (groups (di_H init)) (di_num_detectors init)"
proof -
  have H: "sbm_ok (di_H init)" "sbm_layout (di_H init) = CSC" "sbm_rows (di_H init) = di_num_detectors init"
    "sbm_cols (di_H init) = di_num_error_mechanisms init" using assms by (simp_all add: init_ok_def)
  show "to_nested_csc (di_H init) = groups (di_H init)" using H(1,2) by (simp add: to_nested_csc_groups to_csc_def)
  show "length (groups (di_H init)) = di_num_error_mechanisms init" using H(2,4) by (simp add: num_groups_def)
  show "cols_ok (groups (di_H init)) (di_num_detectors init)"
    using groups_bound [OF H(1)] H(2,3) by (auto simp: cols_ok_def index_bound_def)
qed

lemma read_depth_ok:
  assumes "read_depth params n = Inr depth"
  shows "1 \<le> depth \<and> (depth \<le> int n \<or> depth = 1)"
proof (cases "het_contains ''lut_error_depth'' params")
  case True
  then obtain v where "(case v of Any_int w \<Rightarrow>
            if sint w < 1 then Inl (Runtime_error ''lut_error_depth must be >= 1'')
            else if int n < sint w then Inl (Runtime_error ''lut_error_depth must be <= block_size'')
            else Inr (sint w) | _ \<Rightarrow> Inl Undefined_behaviour) = Inr depth"
    using assms by (auto simp: read_depth_def rbind_Inr_iff)
  then show ?thesis by (cases v) (auto split: if_splits)
qed (use assms in \<open>simp add: read_depth_def\<close>)

lemma read_opt_results_ok:
  assumes "read_opt_results params st = Inr st'"
  shows "lut_error_depth st' = lut_error_depth st \<and> error_rate_vec st' = error_rate_vec st"
proof (cases "het_contains ''opt_results'' params")
  case True
  then obtain v where v: "het_get T_map ''opt_results'' params = Inr v" using assms by (auto simp: read_opt_results_def rbind_Inr_iff)
  then obtain m where "v = Any_map m" using het_get_type [OF v] by (cases v) simp_all
  then show ?thesis using assms True v by (auto simp: read_opt_results_def Let_def split: if_splits)
qed (use assms in \<open>simp add: read_opt_results_def\<close>)

lemma fill_table_needs:
  assumes "fill_table cols rates n nb k = Inr t" "0 < k"
  shows "1 \<le> nb"
proof -
  have "[1..<k + 1] = 1 # [2..<k + 1]" using assms(2) upt_conv_Cons [of 1 "k + 1"] by (simp add: numeral_2_eq_2)
  then show ?thesis using assms(1) by (auto simp: fill_table_def rbind_Inr_iff simp del: upt_Suc split: if_splits)
qed

lemma decoder_new_fields:
  assumes "di_has_matrices init" "decoder_new oc init rt p = Inr d"
  shows "inputs d = init" "output_primary d = rt" "block_size d = di_num_error_mechanisms init"
    "syndrome_size d = di_num_detectors init" "chunk_observables (pimpl d) = None" "plugin d = p"
  using assms by (auto simp: decoder_new_def Let_def reset_decoder_def)

lemma multi_error_lut_ok:
  assumes init: "init_ok init" "di_has_matrices init" and new: "multi_error_lut oc init rq params = Inr d"
  shows "lut_ok d" "inputs d = init" "output_primary d = primary rq"
    "\<exists>p. decoder_new oc init (primary rq) p = Inr (d\<lparr>plugin := p\<rparr>)"
proof -
  define p0 :: lut where "p0 = \<lparr>error_signatures = Map.empty, lut_error_depth = 1, error_rate_vec = [], has_opt_results = False,
          error_probability = False, syndrome_weight = False, decoding_time = False\<rparr>"
  from new obtain b depth st table where b: "decoder_new oc init (primary rq) p0 = Inr b"
    and obs: "\<not> (primary rq = Observables \<and> \<not> has_observable_model (inputs b))"
    and depth: "read_depth params (block_size b) = Inr depth"
    and st: "read_opt_results params ((plugin b)\<lparr>lut_error_depth := depth, error_rate_vec := di_rates init\<rparr>) = Inr st"
    and table: "fill_table (to_nested_csc (di_H init)) (di_rates init) (syndrome_size b) (block_size b) (nat depth) = Inr table"
    and d: "d = b\<lparr>plugin := st\<lparr>error_signatures := table\<rparr>\<rparr>"
    using decoder_new_fields(1) [OF init(2), of oc "primary rq" p0] init(2)
    by (auto simp: multi_error_lut_def p0_def [symmetric] rbind_Inr_iff init_detector_error_matrix_def init_error_rates_def
        matrices_guard_def split: if_splits)
  note f = decoder_new_fields [OF init(2) b] and c = init_cols [OF init]
  have st': "lut_error_depth st = depth" "error_rate_vec st = di_rates init" using read_opt_results_ok [OF st] by simp_all
  have dp: "1 \<le> depth" "depth \<le> int (block_size b)"
    using read_depth_ok [OF depth] fill_table_needs [OF table] by auto
  have le: "nat depth \<le> length (groups (di_H init))" using dp(2) f(3) c(2) by simp
  have t: "table = (\<lambda>s. map_option (entry_of (di_rates init))
       (find (\<lambda>m. bits (di_num_detectors init) (parity (groups (di_H init)) m) = s) (table_masks (di_num_error_mechanisms init) (nat depth))))"
    using table fill_table_eq [OF c(3) le, of "di_rates init"] f c by simp
  show "inputs d = init" "output_primary d = primary rq" using d f by simp_all
  show "\<exists>p. decoder_new oc init (primary rq) p = Inr (d\<lparr>plugin := p\<rparr>)" using b f(6) d by (intro exI [of _ p0]) simp
  have "primary rq = Observables \<Longrightarrow> di_O init \<noteq> None" using obs init(2) f(1) by (auto simp: has_observable_model_def)
  then show "lut_ok d" using init f st' dp t d by (simp add: lut_ok_def)
qed

section \<open>Decoding\<close>

text \<open>An error set with the observed syndrome.\<close>

definition explains :: "('c, 'p) decoder \<Rightarrow> bool list \<Rightarrow> real list \<Rightarrow> bool" where
  "explains d m s \<longleftrightarrow> length m = block_size d \<and>
     (\<forall>r < syndrome_size d. (1/2 \<le> s ! r) = odd (\<Sum>q < block_size d. if m ! q then mult_at (di_H (inputs d)) r q else 0))"

definition frame_of :: "bool list \<Rightarrow> real list" where
  "frame_of m = map (\<lambda>b. if b then 1 else 0) m"

definition hard_syndrome :: "real list \<Rightarrow> nat \<Rightarrow> bool" where
  "hard_syndrome s r \<longleftrightarrow> 1/2 \<le> s ! r"

definition lut_mask :: "('c, lut) decoder \<Rightarrow> real list \<Rightarrow> bool list option" where
  "lut_mask d s =
     (if \<forall>r < syndrome_size d. \<not> hard_syndrome s r then Some (replicate (block_size d) False)
      else find (\<lambda>m. bits (syndrome_size d) (parity (lut_cols d) m) = bits (syndrome_size d) (hard_syndrome s))
             (table_masks (block_size d) (nat (lut_error_depth (plugin d)))))"

lemma sum_list_filter_upt: "(\<Sum>q \<leftarrow> filter P [0..<n]. f q) = (\<Sum>q < n. if P q then f q else (0 :: nat))"
  by (induction n) simp_all

lemma explains_iff:
  assumes "lut_ok d"
  shows "explains d m s \<longleftrightarrow> length m = block_size d \<and>
    bits (syndrome_size d) (parity (lut_cols d) m) = bits (syndrome_size d) (hard_syndrome s)"
proof -
  note D = lut_okD [OF assms]
  have "sbm_layout (di_H (inputs d)) = CSC" using D(1,2) by (simp add: init_ok_def)
  then have "parity (lut_cols d) m r = odd (\<Sum>q < block_size d. if m ! q then mult_at (di_H (inputs d)) r q else 0)" for r
    using init_cols(2) [OF D(1,2)] D(4) by (simp add: parity_def sum_list_filter_upt mult_at_def cong: if_cong)
  then show ?thesis by (auto simp: explains_def bits_eq_iff hard_syndrome_def)
qed

lemma flip_frame:
  "rfold (\<lambda>qErr r. rbind (vget r qErr) (\<lambda>x. vset r qErr (1 - x))) (filter ((!) m) [0..<length m]) (replicate (length m) 0)
    = Inr (frame_of m)"
proof -
  have "j \<le> length m \<Longrightarrow> rfold (\<lambda>qErr r. rbind (vget r qErr) (\<lambda>x. vset r qErr (1 - x))) (filter ((!) m) [0..<j]) (replicate (length m) (0 :: real))
      = Inr (map (\<lambda>q. if q < j \<and> m ! q then 1 else 0) [0..<length m])" for j
  proof (induction j)
    case (Suc j)
    then show ?case by (auto simp: rfold_append nth_list_update less_Suc_eq intro!: nth_equalityI)
  qed (simp add: map_replicate_const)
  from this [of "length m"] show ?thesis by (auto simp: frame_of_def intro!: nth_equalityI)
qed

lemma lut_mask_length: "lut_mask d s = Some m \<Longrightarrow> length m = block_size d"
  by (auto simp: lut_mask_def find_Some_iff split: if_splits dest!: nth_mem simp: mem_table_masks)

lemma lut_decode_eq:
  assumes "lut_ok d" "length s = syndrome_size d"
  shows "\<exists>opt. lut_decode duration d s = lut_finish d
    \<lparr>converged = lut_mask d s \<noteq> None, decoded = (case lut_mask d s of Some m \<Rightarrow> frame_of m | None \<Rightarrow> replicate (block_size d) 0), opt_results = opt\<rparr>"
proof -
  let ?hard = "map (\<lambda>i. convert_soft_to_hard (s ! i) (1/2)) [0..<syndrome_size d]"
  have str: "map (\<lambda>b. if b then CHR ''1'' else CHR ''0'') ?hard = bits (syndrome_size d) (hard_syndrome s)"
    by (simp add: bits_def hard_syndrome_def convert_soft_to_hard_def)
  have any: "True \<notin> set ?hard \<longleftrightarrow> (\<forall>r < syndrome_size d. \<not> hard_syndrome s r)"
    by (auto simp: hard_syndrome_def convert_soft_to_hard_def)
  show ?thesis
  proof (cases "True \<in> set ?hard")
    case False
    then show ?thesis using any assms(2)
      by (intro exI [of _ None]) (simp add: lut_decode_def check_syndrome_size_def lut_mask_def frame_of_def Let_def)
  next
    case True
    define entry where "entry = error_signatures (plugin d) (bits (syndrome_size d) (hard_syndrome s))"
    have entry: "entry = map_option (entry_of (error_rate_vec (plugin d))) (lut_mask d s)"
      unfolding entry_def lut_mask_def lut_okD(9) [OF assms(1)] using True any by (simp only: if_False not_True_eq_False simp_thms)
    have frame: "(case entry of Some e \<Rightarrow> rfold (\<lambda>qErr r. rbind (vget r qErr) (\<lambda>x. vset r qErr (1 - x))) (error_list e) (replicate (block_size d) 0)
            | None \<Rightarrow> Inr (replicate (block_size d) 0))
        = Inr (case lut_mask d s of Some m \<Rightarrow> frame_of m | None \<Rightarrow> replicate (block_size d) 0)"
      using flip_frame lut_mask_length [of d s]
      by (cases "lut_mask d s") (simp_all add: entry entry_of_def Let_def, metis)
    have "(entry \<noteq> None) = (lut_mask d s \<noteq> None)" by (simp add: entry)
    then show ?thesis
      using True assms(2) frame unfolding lut_decode_def check_syndrome_size_def Let_def str entry_def [symmetric]
      by (auto simp del: map_map)
  qed
qed

lemma sorted_table_masks: "sorted (map weight (table_masks n depth))"
proof (induction depth)
  case (Suc d)
  have "table_masks n (Suc d) = table_masks n d @ kmasks n (Suc d)" by (simp add: table_masks_def)
  moreover have "map weight (kmasks n (Suc d)) = replicate (length (kmasks n (Suc d))) (Suc d)"
    by (rule replicate_eqI) (auto simp: mem_kmasks)
  ultimately show ?case using Suc by (auto simp: sorted_append mem_table_masks)
qed (simp add: table_masks_def)

lemma find_first:
  "find P xs = Some x \<Longrightarrow> sorted (map f xs) \<Longrightarrow> y \<in> set xs \<Longrightarrow> P y \<Longrightarrow> f x \<le> f y"
  by (induction xs) (auto split: if_splits)

lemma find_mem: "find P xs = Some x \<Longrightarrow> x \<in> set xs \<and> P x"
  by (induction xs) (auto split: if_splits)

lemma no_errors_explain:
  assumes "length m = block_size d" "weight m = 0"
  shows "explains d m s \<longleftrightarrow> (\<forall>r < syndrome_size d. \<not> hard_syndrome s r)"
proof -
  have "\<not> m ! q" if "q < block_size d" for q
    using that assms nth_mem [of q m] by (metis count_list_0_iff)
  then show ?thesis using assms(1) by (simp add: explains_def hard_syndrome_def)
qed

lemma lut_mask_min:
  assumes ok: "lut_ok d"
  shows "lut_mask d s = Some m \<Longrightarrow> explains d m s \<and> (\<forall>m'. explains d m' s \<longrightarrow> weight m \<le> weight m')" (is "_ \<Longrightarrow> ?opt")
    "lut_mask d s = None \<longleftrightarrow> (\<nexists>m. explains d m s \<and> int (weight m) \<le> lut_error_depth (plugin d))" (is "?none")
proof -
  let ?D = "lut_error_depth (plugin d)" and ?P = "\<lambda>m. bits (syndrome_size d) (parity (lut_cols d) m) = bits (syndrome_size d) (hard_syndrome s)"
  note D = lut_okD [OF ok]
  have z: "weight (replicate (block_size d) False) = 0" by (simp add: count_list_0_iff)
  have "(lut_mask d s = Some m \<longrightarrow> ?opt) \<and> ?none"
  proof (cases "\<forall>r < syndrome_size d. \<not> hard_syndrome s r")
    case True
    then have "lut_mask d s = Some (replicate (block_size d) False)" by (simp add: lut_mask_def)
    moreover have "explains d (replicate (block_size d) False) s" using True no_errors_explain [OF _ z, of d] by simp
    ultimately show ?thesis using z D(7) by (metis zero_le int_ops(1) option.sel option.simps(3) order_trans zero_le_one)
  next
    case False
    then have mask: "lut_mask d s = find ?P (table_masks (block_size d) (nat ?D))" unfolding lut_mask_def by (rule if_not_P)
    have pos: "1 \<le> weight m'" if "explains d m' s" for m'
      using that False no_errors_explain [of m' d s] explains_iff [OF ok, of m' s] by (metis One_nat_def Suc_leI neq0_conv)
    have lim: "int w \<le> ?D \<longleftrightarrow> w \<le> nat ?D" for w using D(7) by linarith
    have tab: "explains d m' s \<and> int (weight m') \<le> ?D \<longleftrightarrow> m' \<in> set (table_masks (block_size d) (nat ?D)) \<and> ?P m'" for m'
      unfolding mem_table_masks lim using pos [of m'] explains_iff [OF ok, of m' s] by blast
    have ?none unfolding mask find_None_iff using tab by blast
    moreover have ?opt if m: "lut_mask d s = Some m"
    proof -
      have m': "m \<in> set (table_masks (block_size d) (nat ?D))" "?P m" using find_mem [OF m [unfolded mask]] by simp_all
      have "weight m \<le> weight m'" if e: "explains d m' s" for m'
      proof (cases "int (weight m') \<le> ?D")
        case True
        then show ?thesis using tab e find_first [OF m [unfolded mask] sorted_table_masks] by blast
      next
        case False
        moreover have "int (weight m) \<le> ?D" using tab m' by blast
        ultimately show ?thesis by linarith
      qed
      then show ?thesis using tab m' by blast
    qed
    ultimately show ?thesis by blast
  qed
  then show "lut_mask d s = Some m \<Longrightarrow> ?opt" ?none by blast+
qed

section \<open>The contract\<close>

lemma frame_of_props: "length (frame_of m) = length m" "set (frame_of m) \<subseteq> {0, 1}"
  "q < length m \<Longrightarrow> (1/2 \<le> frame_of m ! q) = m ! q" "q < length m \<Longrightarrow> (frame_of m ! q \<noteq> 0) = m ! q"
  by (auto simp: frame_of_def)

definition lut_errors :: "('c, lut) decoder \<Rightarrow> real list \<Rightarrow> bool list" where
  "lut_errors d s = (case lut_mask d s of Some m \<Rightarrow> m | None \<Rightarrow> replicate (block_size d) False)"

lemma length_lut_errors: "length (lut_errors d s) = block_size d"
  using lut_mask_length [of d s] by (simp add: lut_errors_def split: option.split)

definition obs_flips :: "('c, 'p) decoder \<Rightarrow> bool list \<Rightarrow> nat \<Rightarrow> bool" where
  "obs_flips d m i \<longleftrightarrow> odd (length (filter (\<lambda>c. m ! c) (groups (the (di_O (inputs d))) ! i)))"

lemma lut_decode_result:
  assumes ok: "lut_ok d" and s: "length s = syndrome_size d"
  shows "\<exists>r. lut_decode duration d s = Inr r \<and> converged r = (lut_mask d s \<noteq> None) \<and> length (decoded r) = frame_size d \<and>
    decoded r = (case output_primary d of Errors \<Rightarrow> frame_of (lut_errors d s)
      | Observables \<Rightarrow> map (\<lambda>i. if obs_flips d (lut_errors d s) i then 1 else 0) [0..<get_num_observables d])"
proof -
  note D = lut_okD [OF ok]
  obtain opt where r: "lut_decode duration d s = lut_finish d \<lparr>converged = lut_mask d s \<noteq> None, decoded = frame_of (lut_errors d s), opt_results = opt\<rparr>"
    using lut_decode_eq [OF assms, of duration] by (auto simp: lut_errors_def frame_of_def split: option.splits)
  have l: "length (frame_of (lut_errors d s)) = block_size d" by (simp add: frame_of_props length_lut_errors)
  show ?thesis
  proof (cases "output_primary d")
    case Errors
    then show ?thesis using r l by (simp add: lut_finish_def frame_size_def)
  next
    case Observables
    then obtain M where M: "di_O (inputs d) = Some M" using D(6) by auto
    have ok: "sbm_ok M" "num_groups M = get_num_observables d" "index_bound M = block_size d"
      using D(1,2,4) M by (simp_all add: init_ok_def get_num_observables_def num_groups_def index_bound_def)
    have "filter (\<lambda>c. 1/2 \<le> frame_of (lut_errors d s) ! c) (groups M ! i) = filter ((!) (lut_errors d s)) (groups M ! i)"
      if "i < get_num_observables d" for i
      using set_group_bound [OF ok(1), of i] that ok(2,3) by (intro filter_cong) (auto simp: frame_of_def length_lut_errors)
    then show ?thesis
      using r Observables M project_eq [OF D(1-4) M l] by (simp add: lut_finish_def frame_size_def obs_flips_def cong: map_cong)
  qed
qed

lemma frame_size_plugin [simp]: "frame_size (d\<lparr>plugin := p\<rparr>) = frame_size d"
  by (simp add: frame_size_def get_num_observables_def split: decode_result_type.split)

interpretation lut: decode_plugin "lut_dec duration d" "\<lambda>p. lut_ok (d\<lparr>plugin := p\<rparr>)" "syndrome_size d" "frame_size d"
  for duration :: real and d :: "('c, lut) decoder"
proof
  fix p :: lut and s :: "real list"
  assume "lut_ok (d\<lparr>plugin := p\<rparr>)" "length s = syndrome_size d"
  then show "\<exists>r p'. lut_dec duration d p s = Inr (r, p') \<and> lut_ok (d\<lparr>plugin := p'\<rparr>) \<and> length (decoded r) = frame_size d"
    using lut_decode_result [of "d\<lparr>plugin := p\<rparr>" s duration] by (auto simp: lut_dec_def frame_size_plugin)
qed

lemma lut_frame_flips:
  assumes ok: "lut_ok d" and O: "di_O (inputs d) \<noteq> None" and i: "i < get_num_observables d" and
    r: "decoded r = (case output_primary d of Errors \<Rightarrow> frame_of m
      | Observables \<Rightarrow> map (\<lambda>i. if obs_flips d m i then 1 else 0) [0..<get_num_observables d])" "length m = block_size d"
  shows "frame_flips d (decoded r) i = obs_flips d m i"
proof (cases "output_primary d")
  case Errors
  note D = lut_okD [OF ok]
  obtain M where M: "di_O (inputs d) = Some M" using O by auto
  have M': "sbm_ok M" "num_groups M = get_num_observables d" "index_bound M = block_size d"
    using D(1,2,4) M by (simp_all add: init_ok_def get_num_observables_def num_groups_def index_bound_def)
  have "filter (\<lambda>c. frame_of m ! c \<noteq> 0) (groups M ! i) = filter ((!) m) (groups M ! i)"
    using set_group_bound [OF M'(1), of i] i M'(2,3) r(2) by (intro filter_cong) (auto simp: frame_of_def)
  then show ?thesis using Errors r(1) M by (simp add: frame_flips_def obs_flips_def)
qed (use i r in \<open>simp add: frame_flips_def\<close>)

lemma serving_plugin: "serving (d\<lparr>plugin := p\<rparr>) = serving d"
  by (simp add: serving_def get_num_observables_def)

lemma lut_serves:
  assumes "init_ok init" "di_has_matrices init" "di_D init = Some D" "0 < sbm_cols D" "di_O init \<noteq> None"
    and new: "multi_error_lut oc init rq params = Inr d"
  shows "serves (\<lambda>p. lut_ok (d\<lparr>plugin := p\<rparr>)) (syndrome_size d) (frame_size d) d" "num_msyn_per_decode (pimpl d) = sbm_cols D"
proof -
  note d = multi_error_lut_ok [OF assms(1,2) new]
  obtain p where p: "decoder_new oc init (primary rq) p = Inr (d\<lparr>plugin := p\<rparr>)" using d(4) ..
  from decoder_new_serving [OF assms(1-4), of "primary rq" oc p] assms(5) p have
    s: "serving (d\<lparr>plugin := p\<rparr>)" "syndrome_size d = di_num_detectors init" "num_msyn_per_decode (pimpl d) = sbm_cols D"
    "measurement_to_detectors (pimpl d) = groups D" by auto
  have "length (groups D) = di_num_detectors init" using assms(1,3) by (simp add: init_ok_def num_groups_def)
  then show "serves (\<lambda>p. lut_ok (d\<lparr>plugin := p\<rparr>)) (syndrome_size d) (frame_size d) d"
    using s d(1) by (simp add: serves_def serving_plugin)
  show "num_msyn_per_decode (pimpl d) = sbm_cols D" by (rule s(3))
qed

lemma demo_lut: obtains d where "multi_error_lut (\<lambda>_. Inl Undefined_behaviour) demo_init \<lparr>primary = rt, auxiliary = 0\<rparr> [] = Inr d"
proof -
  obtain d where d: "decoder_new (\<lambda>_. Inl Undefined_behaviour) demo_init rt
      \<lparr>error_signatures = Map.empty, lut_error_depth = 1, error_rate_vec = [], has_opt_results = False,
          error_probability = False, syndrome_weight = False, decoding_time = False\<rparr> = Inr d"
    by (rule demo_decoder)
  note f = decoder_new_fields [OF demo_init_ok(2) d] and c = init_cols [OF demo_init_ok(1,2)]
  have t: "fill_table (to_nested_csc (di_H demo_init)) [] 2 3 1 = Inr (\<lambda>s. map_option (entry_of [])
      (find (\<lambda>m. bits 2 (parity (groups (di_H demo_init)) m) = s) (table_masks 3 1)))"
    using fill_table_eq [OF c(3), of 1 "[]"] c demo_init_ok by simp
  show thesis
    using d f t demo_init_ok(2,4) that
    by (simp add: multi_error_lut_def has_auxiliary_outputs_def has_observable_model_def init_detector_error_matrix_def
        init_error_rates_def matrices_guard_def read_depth_def het_contains_def check_rates_def read_opt_results_def
        demo_init_ok) (simp add: demo_init_def)
qed

section \<open>Properties\<close>

text \<open>
  C3: A constructed lookup-table decoder answers every syndrome. It converges exactly when some set of
  at most \<open>lut_error_depth\<close> errors has that syndrome; its answer is then an error set with exactly
  that syndrome and of minimum weight among all error sets that have it. Otherwise it reports no
  error at all.
\<close>

theorem lut_minimum_weight:
  assumes "init_ok init" "di_has_matrices init" "multi_error_lut oc init rq params = Inr d" "primary rq = Errors"
    "length s = syndrome_size d"
  shows "\<exists>r m. lut_decode duration d s = Inr r \<and> decoded r = frame_of m \<and> length m = block_size d \<and>
    (converged r \<longleftrightarrow> (\<exists>m'. explains d m' s \<and> int (weight m') \<le> lut_error_depth (plugin d))) \<and>
    (converged r \<longrightarrow> explains d m s \<and> (\<forall>m'. explains d m' s \<longrightarrow> weight m \<le> weight m')) \<and>
    (\<not> converged r \<longrightarrow> decoded r = replicate (block_size d) 0)"
proof -
  note d = multi_error_lut_ok [OF assms(1-3)]
  obtain r where r: "lut_decode duration d s = Inr r" "converged r = (lut_mask d s \<noteq> None)" "decoded r = frame_of (lut_errors d s)"
    using lut_decode_result [OF d(1) assms(5), of duration] d(3) assms(4) by auto
  note min = lut_mask_min [OF d(1), of s]
  have "converged r \<longleftrightarrow> (\<exists>m'. explains d m' s \<and> int (weight m') \<le> lut_error_depth (plugin d))" unfolding r(2) min(2) not_not ..
  moreover have "explains d (lut_errors d s) s \<and> (\<forall>m'. explains d m' s \<longrightarrow> weight (lut_errors d s) \<le> weight m')" if c: "converged r"
  proof -
    obtain m where "lut_mask d s = Some m" using c r(2) by auto
    then show ?thesis using min(1) by (simp add: lut_errors_def)
  qed
  moreover have "decoded r = replicate (block_size d) 0" if "\<not> converged r"
    using that r(2,3) by (simp add: lut_errors_def frame_of_def)
  ultimately show ?thesis using r(1,3) length_lut_errors [of d s] by blast
qed

theorem lut_minimum_weight_witness:
  "\<exists>d r m. multi_error_lut (\<lambda>_. Inl Undefined_behaviour) demo_init \<lparr>primary = Errors, auxiliary = 0\<rparr> [] = Inr d \<and>
    lut_decode 0 d [1, 1] = Inr r \<and> decoded r = frame_of m"
proof -
  obtain d where d: "multi_error_lut (\<lambda>_. Inl Undefined_behaviour) demo_init \<lparr>primary = Errors, auxiliary = 0\<rparr> [] = Inr d"
    by (rule demo_lut)
  have "syndrome_size d = 2"
    using lut_okD(5) [OF multi_error_lut_ok(1) [OF demo_init_ok(1,2) d]] multi_error_lut_ok(2) [OF demo_init_ok(1,2) d] demo_init_ok(7) by simp
  then show ?thesis using lut_minimum_weight [OF demo_init_ok(1,2) d, of "[1, 1]" 0] d by auto
qed

text \<open>
  C20: In realtime, a lookup-table decoder whose input has a nonempty measurement-to-detector matrix and an
  observable matrix never fails, whatever sequence of shots it receives and
  however each is split into rounds; it decodes once per shot. The corrections of a shot change by
  the observables that its error set flips, whether the decoder was asked for errors or for
  observables.
\<close>

theorem lut_realtime:
  assumes "init_ok init" "di_has_matrices init" "di_D init = Some D" "0 < sbm_cols D" "di_O init \<noteq> None"
    "multi_error_lut oc init rq params = Inr d"
    "\<forall>(rs, r) \<in> set shots. length (concat rs @ r) = sbm_cols D \<and> r \<noteq> []" "length (concat rs @ r) = sbm_cols D" "r \<noteq> []"
  shows "(\<exists>d'. enqueue_rounds (lut_dec duration d) (concat (map (\<lambda>(rs, r). rs @ [r]) shots)) d
        = Inr (concat (map (\<lambda>(rs, r). replicate (length rs) False @ [True]) shots), d') \<and> ready_again d d') \<and>
    (\<exists>d'. enqueue_rounds (lut_dec duration d) (rs @ [r]) d = Inr (replicate (length rs) False @ [True], d') \<and>
      (\<forall>i < get_num_observables d. get_obs_corrections d' ! i =
         (if obs_flips d (lut_errors d (detectors_of d (concat rs @ r))) i then get_obs_corrections d ! i XOR 1 else get_obs_corrections d ! i)))"
proof
  note d = multi_error_lut_ok [OF assms(1,2,6)] and sv = lut_serves [OF assms(1-6)]
  show "\<exists>d'. enqueue_rounds (lut_dec duration d) (concat (map (\<lambda>(rs, r). rs @ [r]) shots)) d
        = Inr (concat (map (\<lambda>(rs, r). replicate (length rs) False @ [True]) shots), d') \<and> ready_again d d'"
    using lut.many_shots [OF sv(1)] sv(2) assms(7) by fastforce
  have "length (concat rs @ r) = num_msyn_per_decode (pimpl d)" using assms(8) sv(2) by simp
  from lut.one_shot [OF sv(1) this assms(9), of duration] obtain res d' where
    d': "lut_dec duration d (plugin d) (detectors_of d (concat rs @ r)) = Inr (res, plugin d')"
    "enqueue_rounds (lut_dec duration d) (rs @ [r]) d = Inr (replicate (length rs) False @ [True], d')"
    "corrections (pimpl d') = apply_flips (frame_flips d (decoded res)) (corrections (pimpl d))" by blast
  have "length (detectors_of d (concat rs @ r)) = syndrome_size d"
    using sv(1) by (simp add: serves_def detectors_of_def convert_vec_hard_to_soft_def)
  from lut_decode_result [OF d(1) this, of duration] d'(1) have
    "decoded res = (case output_primary d of Errors \<Rightarrow> frame_of (lut_errors d (detectors_of d (concat rs @ r)))
      | Observables \<Rightarrow> map (\<lambda>i. if obs_flips d (lut_errors d (detectors_of d (concat rs @ r))) i then 1 else 0) [0..<get_num_observables d])"
    by (auto simp: lut_dec_def)
  from lut_frame_flips [OF d(1) _ _ this length_lut_errors] have
    "frame_flips d (decoded res) i = obs_flips d (lut_errors d (detectors_of d (concat rs @ r))) i" if "i < get_num_observables d" for i
    using that assms(5) d(2) by simp
  moreover have "length (corrections (pimpl d)) = get_num_observables d" using sv(1) servingD(4) by (auto simp: serves_def)
  ultimately show "\<exists>d'. enqueue_rounds (lut_dec duration d) (rs @ [r]) d = Inr (replicate (length rs) False @ [True], d') \<and>
      (\<forall>i < get_num_observables d. get_obs_corrections d' ! i =
         (if obs_flips d (lut_errors d (detectors_of d (concat rs @ r))) i then get_obs_corrections d ! i XOR 1 else get_obs_corrections d ! i))"
    using d'(2,3) by (intro exI [of _ d']) (simp add: get_obs_corrections_def apply_flips_def)
qed

theorem lut_realtime_witness:
  "\<exists>d d'. multi_error_lut (\<lambda>_. Inl Undefined_behaviour) demo_init \<lparr>primary = Observables, auxiliary = 0\<rparr> [] = Inr d \<and>
    enqueue_rounds (lut_dec 0 d) [[1], [0, 1], [1], [0, 0, 1, 1]] d = Inr ([False, False, True, True], d')"
proof -
  obtain d where d: "multi_error_lut (\<lambda>_. Inl Undefined_behaviour) demo_init \<lparr>primary = Observables, auxiliary = 0\<rparr> [] = Inr d"
    by (rule demo_lut)
  show ?thesis
    using lut_realtime [OF demo_init_ok(1,2,3) _ _ d, of "[([[1], [0, 1]], [1]), ([], [0, 0, 1, 1])]" "[[1], [0, 1]]" "[1]" 0] demo_init_ok(4) d
    by auto
qed

text \<open>
  A model without error mechanisms is not rejected by the constructor: with the default depth of 1
  it fills one character of an empty bitmask.
\<close>

lemma lut_empty_block:
  assumes "init_ok init" "di_has_matrices init" "di_num_error_mechanisms init = 0" "di_rates init = []"
  shows "multi_error_lut oc init \<lparr>primary = Errors, auxiliary = 0\<rparr> [] = Inl Undefined_behaviour"
proof -
  obtain d where d: "decoder_new oc init Errors \<lparr>error_signatures = Map.empty, lut_error_depth = 1, error_rate_vec = [], has_opt_results = False,
          error_probability = False, syndrome_weight = False, decoding_time = False\<rparr> = Inr d"
    using assms(2) by (simp add: decoder_new_def Let_def)
  note f = decoder_new_fields [OF assms(2) d]
  have "fill_table cols [] n 0 1 = Inl Undefined_behaviour" for cols n by (simp add: fill_table_def)
  then show ?thesis
    using d f assms
    by (simp add: multi_error_lut_def has_auxiliary_outputs_def init_detector_error_matrix_def init_error_rates_def matrices_guard_def
        read_depth_def het_contains_def check_rates_def read_opt_results_def)
qed

end
