(* ===== verification/QEC_Factory.thy ===== *)
theory QEC_Factory
  imports QEC_Lut_Theorems "HOL-Library.Char_ord"
begin

text \<open>
  The decoder factory (\<open>get_impl\<close>, decoder.cpp) and the registry of natively read model sources.
  The CUDA runtime is a parameter: a record of three calls on a state \<open>'w\<close> (which device the
  calling thread is on, and everything else a plug-in may change). A registered plug-in is a
  creator that may change that state and may throw, so results are paired with the state after
  the call. Locks are left out: each call is one step.
\<close>

section \<open>Device selection\<close>

record 'w cuda =
  cudaGetDeviceCount :: "'w \<Rightarrow> int option"
  cudaGetDevice :: "'w \<Rightarrow> int option"
  cudaSetDevice :: "int \<Rightarrow> 'w \<Rightarrow> 'w option"

type_synonym ('c, 'd, 'w) creator =
  "'c decoder_init \<Rightarrow> decoder_output_request option \<Rightarrow> heterogeneous_map \<Rightarrow> 'w \<Rightarrow> 'd res \<times> 'w"

definition read_cuda_device_id :: "'w cuda \<Rightarrow> heterogeneous_map \<Rightarrow> 'w \<Rightarrow> int res" where
  "read_cuda_device_id cu params w =
     (if \<not> het_contains ''cuda_device_id'' params then Inr (- 1)
      else rbind (het_get T_int ''cuda_device_id'' params) (\<lambda>v. case v of
          Any_int x \<Rightarrow>
            if sint x < 0 then Inl (Runtime_error ''cuda_device_id must be >= 0'')
            else (case cudaGetDeviceCount cu w of
                None \<Rightarrow> Inl (Runtime_error ''cuda_device_id is out of range'')
              | Some ndev \<Rightarrow> if ndev \<le> sint x then Inl (Runtime_error ''cuda_device_id is out of range'') else Inr (sint x))
        | _ \<Rightarrow> Inl Undefined_behaviour))"

text \<open>\<open>ConstructionDevicePin\<close>: the constructor gives the previous device, the destructor restores it.\<close>

definition device_pin :: "'w cuda \<Rightarrow> int \<Rightarrow> 'w \<Rightarrow> (int \<times> 'w) res" where
  "device_pin cu target w =
     (case cudaGetDevice cu w of
        None \<Rightarrow> Inl (Runtime_error ''cuda_device_id could not be selected because cudaGetDevice() failed'')
      | Some previous \<Rightarrow>
          (case cudaSetDevice cu target w of
             None \<Rightarrow> Inl (Runtime_error ''cudaSetDevice() failed'')
           | Some w' \<Rightarrow> Inr (previous, w')))"

definition device_unpin :: "'w cuda \<Rightarrow> int \<Rightarrow> int \<Rightarrow> bool \<Rightarrow> 'w \<Rightarrow> 'w" where
  "device_unpin cu target previous committed w =
     (if \<not> committed \<and> previous \<noteq> target
      then (case cudaSetDevice cu previous w of Some w' \<Rightarrow> w' | None \<Rightarrow> w)
      else w)"

definition reserved_keys :: "string list" where
  "reserved_keys = [''H'', ''O'', ''D'', ''error_rate_vec'']"

definition plugin_params :: "heterogeneous_map \<Rightarrow> heterogeneous_map" where
  "plugin_params params = fold (\<lambda>(k, v) m. if k \<noteq> ''cuda_device_id'' then het_insert k v m else m) params []"

text \<open>The result carries the device the decoder remembers; -1 when none was asked for.\<close>

definition get_impl ::
  "'w cuda \<Rightarrow> (string \<rightharpoonup> ('c, 'd, 'w) creator) \<Rightarrow> string \<Rightarrow> 'c decoder_init \<Rightarrow> decoder_output_request option \<Rightarrow>
   heterogeneous_map \<Rightarrow> 'w \<Rightarrow> ('d \<times> int) res \<times> 'w" where
  "get_impl cu registry name init rq params w =
     (case find (\<lambda>key. het_contains key params) reserved_keys of
        Some key \<Rightarrow> (Inl (Runtime_error (key @ '' is framework model data; provide it through decoder_init instead of decoder custom parameters'')), w)
      | None \<Rightarrow>
          (case registry name of
             None \<Rightarrow> (Inl (Runtime_error (''invalid decoder requested: '' @ name)), w)
           | Some create \<Rightarrow>
               (case read_cuda_device_id cu params w of
                  Inl e \<Rightarrow> (Inl e, w)
                | Inr dev \<Rightarrow>
                    if dev < 0 then (case create init rq params w of
                        (Inl e, w') \<Rightarrow> (Inl e, w')
                      | (Inr d, w') \<Rightarrow> (Inr (d, - 1), w'))
                    else (case device_pin cu dev w of
                        Inl e \<Rightarrow> (Inl e, w)
                      | Inr (previous, w1) \<Rightarrow>
                          (case create init rq (plugin_params params) w1 of
                             (Inl e, w2) \<Rightarrow> (Inl e, device_unpin cu dev previous False w2)
                           | (Inr d, w2) \<Rightarrow> (Inr (d, dev), device_unpin cu dev previous True w2))))))"

section \<open>Registry of natively read model sources\<close>

record native_model_sources =
  nm_sources :: "decoder_model_source set"
  nm_checked :: bool
  nm_warned :: bool

type_synonym source_registry = "(string \<times> native_model_sources) list"

text \<open>The map is ordered by name; \<open>registry[name]\<close> inserts a fresh entry for a missing name.\<close>

definition registry_at :: "string \<Rightarrow> source_registry \<Rightarrow> source_registry" where
  "registry_at name reg =
     (if map_of reg name = None then insort_key fst (name, \<lparr>nm_sources = {}, nm_checked = False, nm_warned = False\<rparr>) reg else reg)"

definition register_decoder_native_model_source :: "string \<Rightarrow> decoder_model_source \<Rightarrow> source_registry \<Rightarrow> source_registry" where
  "register_decoder_native_model_source name source reg =
     map (\<lambda>(k, e). if k = name then (k, e\<lparr>nm_sources := insert source (nm_sources e)\<rparr>) else (k, e)) (registry_at name reg)"

text \<open>One round of \<open>reconcile_declared_names\<close>: the new registry and the names warned about, in order.\<close>

definition reconcile_entry :: "(string \<Rightarrow> bool) \<Rightarrow> string \<times> native_model_sources \<Rightarrow> (string \<times> native_model_sources) \<times> string list" where
  "reconcile_entry is_registered ke =
     (let k = fst ke; e = snd ke in
      if nm_checked e then ((k, e), [])
      else if is_registered k then ((k, e\<lparr>nm_checked := True\<rparr>), [])
      else if nm_warned e then ((k, e), [])
      else ((k, e\<lparr>nm_warned := True\<rparr>), [k]))"

definition reconcile_declared_names :: "(string \<Rightarrow> bool) \<Rightarrow> source_registry \<Rightarrow> source_registry \<times> string list" where
  "reconcile_declared_names is_registered reg =
     (map (fst \<circ> reconcile_entry is_registered) reg, concat (map (snd \<circ> reconcile_entry is_registered) reg))"

definition decoder_needs_model_matrices ::
  "(string \<Rightarrow> bool) \<Rightarrow> string \<Rightarrow> decoder_model_source \<Rightarrow> source_registry \<Rightarrow> bool \<times> source_registry \<times> string list" where
  "decoder_needs_model_matrices is_registered name source reg =
     (let (reg', warnings) = (if is_registered name then reconcile_declared_names is_registered reg else (reg, []))
      in (case map_of reg' name of None \<Rightarrow> True | Some e \<Rightarrow> source \<notin> nm_sources e, reg', warnings))"

section \<open>Defaults from a detector error model\<close>

definition dem_defaults_for_missing_keys :: "(string \<Rightarrow> bool) \<Rightarrow> detector_error_model \<Rightarrow> u8 tensor option \<times> real list option" where
  "dem_defaults_for_missing_keys contains_user_key dem =
     (if \<not> contains_user_key ''O'' \<and> 0 < num_observables dem then Some (observables_flips_matrix dem) else None,
      if \<not> contains_user_key ''error_rate_vec'' then Some (error_rates dem) else None)"

section \<open>Facts\<close>

lemma read_cuda_device_id_ok:
  assumes "read_cuda_device_id cu params w = Inr dev"
  shows "dev = - 1 \<and> \<not> het_contains ''cuda_device_id'' params \<or>
    0 \<le> dev \<and> het_contains ''cuda_device_id'' params \<and> (\<exists>n. cudaGetDeviceCount cu w = Some n \<and> dev < n)"
proof (cases "het_contains ''cuda_device_id'' params")
  case True
  then obtain v where v: "het_get T_int ''cuda_device_id'' params = Inr v" using assms by (auto simp: read_cuda_device_id_def rbind_Inr_iff)
  then obtain x where "v = Any_int x" using het_get_type [OF v] by (cases v) simp_all
  then show ?thesis using assms True v by (auto simp: read_cuda_device_id_def split: option.splits if_splits)
qed (use assms in \<open>simp add: read_cuda_device_id_def\<close>)

lemma plugin_params_lookup:
  assumes "het_ok params"
  shows "map_of (plugin_params params) = (map_of params)(''cuda_device_id'' := None)"
proof
  fix k
  have "map_of (fold (\<lambda>(k, v) m. if k \<noteq> c then het_insert k v m else m) ps m) k
      = (if k \<noteq> c \<and> k \<in> fst ` set ps then map_of ps k else map_of m k)" if "distinct (map fst ps)" for ps m c
    using that
  proof (induction ps arbitrary: m)
    case (Cons p ps)
    obtain a v where p: "p = (a, v)" by (cases p)
    have "a \<notin> fst ` set ps" "distinct (map fst ps)" using Cons.prems p by auto
    then show ?case using Cons.IH p by (auto simp: map_of_het_insert)
  qed simp
  from this [of params "''cuda_device_id''" "[]"] show "map_of (plugin_params params) k = ((map_of params)(''cuda_device_id'' := None)) k"
    using assms map_of_eq_None_iff [of params k, THEN iffD2] by (auto simp: plugin_params_def het_ok_def)
qed

lemma map_of_insort_key: "k \<notin> fst ` set xs \<Longrightarrow> map_of (insort_key fst (k, v) xs) = (map_of xs)(k \<mapsto> v)"
  by (induction xs) (auto simp: fun_eq_iff)

lemma map_of_registry_at:
  "map_of (registry_at name reg) = (case map_of reg name of
     None \<Rightarrow> (map_of reg)(name \<mapsto> \<lparr>nm_sources = {}, nm_checked = False, nm_warned = False\<rparr>) | Some _ \<Rightarrow> map_of reg)"
  using map_of_insort_key [of name reg] map_of_eq_None_iff [of reg name, THEN iffD1]
  by (cases "map_of reg name") (simp_all add: registry_at_def)

lemma map_of_map_entries: "map_of (map (\<lambda>(k, e). (k, f k e)) xs) k = map_option (f k) (map_of xs k)"
  by (induction xs) auto

lemma map_of_register:
  "map_of (register_decoder_native_model_source name source reg) k =
     (if k = name then Some (case map_of reg name of
          None \<Rightarrow> \<lparr>nm_sources = {source}, nm_checked = False, nm_warned = False\<rparr>
        | Some e \<Rightarrow> e\<lparr>nm_sources := insert source (nm_sources e)\<rparr>)
      else map_of reg k)"
proof -
  have f: "(\<lambda>(k, e). if k = name then (k, e\<lparr>nm_sources := insert source (nm_sources e)\<rparr>) else (k, e))
    = (\<lambda>(k, e). (k, if k = name then e\<lparr>nm_sources := insert source (nm_sources e)\<rparr> else e))" by auto
  show ?thesis unfolding register_decoder_native_model_source_def f map_of_map_entries map_of_registry_at
    by (auto simp: option.map_ident split: option.split)
qed

definition reconciled :: "(string \<Rightarrow> bool) \<Rightarrow> string \<Rightarrow> native_model_sources \<Rightarrow> native_model_sources" where
  "reconciled R k e = snd (fst (reconcile_entry R (k, e)))"

lemma reconciled_sources [simp]: "nm_sources (reconciled R k e) = nm_sources e"
  by (simp add: reconciled_def reconcile_entry_def Let_def)

lemma map_of_reconcile: "map_of (fst (reconcile_declared_names R reg)) k = map_option (reconciled R k) (map_of reg k)"
proof -
  have "fst \<circ> reconcile_entry R = (\<lambda>(k, e). (k, reconciled R k e))"
    by (auto simp: fun_eq_iff reconciled_def reconcile_entry_def Let_def)
  then show ?thesis by (simp add: reconcile_declared_names_def map_of_map_entries)
qed

lemma reconcile_warnings:
  assumes "distinct (map fst reg)"
  shows "distinct (snd (reconcile_declared_names R reg))"
    "n \<in> set (snd (reconcile_declared_names R reg)) \<longleftrightarrow>
       (\<exists>e. map_of reg n = Some e \<and> \<not> nm_checked e \<and> \<not> R n \<and> \<not> nm_warned e)"
proof -
  have "snd (reconcile_declared_names R reg) = map fst (filter (\<lambda>(k, e). \<not> nm_checked e \<and> \<not> R k \<and> \<not> nm_warned e) reg)"
    unfolding reconcile_declared_names_def snd_conv by (induction reg) (auto simp: reconcile_entry_def Let_def)
  then show "distinct (snd (reconcile_declared_names R reg))"
    "n \<in> set (snd (reconcile_declared_names R reg)) \<longleftrightarrow> (\<exists>e. map_of reg n = Some e \<and> \<not> nm_checked e \<and> \<not> R n \<and> \<not> nm_warned e)"
    using assms by (auto simp: distinct_map_filter image_iff map_of_eq_Some_iff)
qed

text \<open>Everything that can happen to the registry, with the log of warnings.\<close>

inductive registry_run :: "source_registry \<Rightarrow> string list \<Rightarrow> bool" where
  start: "registry_run [] []"
| register: "registry_run reg ws \<Longrightarrow> registry_run (register_decoder_native_model_source name source reg) ws"
| query: "registry_run reg ws \<Longrightarrow> decoder_needs_model_matrices R name source reg = (b, reg', ws') \<Longrightarrow> registry_run reg' (ws @ ws')"

lemma distinct_register:
  assumes "distinct (map fst reg)"
  shows "distinct (map fst (register_decoder_native_model_source name source reg))"
proof -
  have "map fst (register_decoder_native_model_source name source reg) = map fst (registry_at name reg)"
    unfolding register_decoder_native_model_source_def by (simp add: comp_def case_prod_beta if_distrib)
  moreover have "distinct (map fst (registry_at name reg))"
    using assms map_of_eq_None_iff [of reg name, THEN iffD1] by (simp add: registry_at_def distinct_insort_key)
  ultimately show ?thesis by simp
qed

lemma distinct_reconcile: "distinct (map fst reg) \<Longrightarrow> distinct (map fst (fst (reconcile_declared_names R reg)))"
proof -
  have "map fst (fst (reconcile_declared_names R reg)) = map fst reg"
    by (simp add: reconcile_declared_names_def reconcile_entry_def Let_def)
  then show "distinct (map fst reg) \<Longrightarrow> distinct (map fst (fst (reconcile_declared_names R reg)))" by simp
qed

lemma registry_run_invariant:
  "registry_run reg ws \<Longrightarrow> distinct (map fst reg) \<and> distinct ws \<and> (\<forall>n \<in> set ws. \<exists>e. map_of reg n = Some e \<and> nm_warned e)"
proof (induction rule: registry_run.induct)
  case (register reg ws name source)
  then show ?case using distinct_register by (fastforce simp: map_of_register)
next
  case (query reg ws R name source b reg' ws')
  show ?case
  proof (cases "R name")
    case True
    then have r: "reg' = fst (reconcile_declared_names R reg)" "ws' = snd (reconcile_declared_names R reg)"
      using query.hyps(2) by (auto simp: decoder_needs_model_matrices_def Let_def split: prod.splits)
    note W = reconcile_warnings [OF conjunct1 [OF query.IH], where R = R]
    have w: "nm_warned (reconciled R n e)" if "nm_warned e \<or> \<not> nm_checked e \<and> \<not> R n" for n e
      using that by (auto simp: reconciled_def reconcile_entry_def Let_def)
    have "n \<notin> set ws'" if n: "n \<in> set ws" for n
    proof -
      obtain e where "map_of reg n = Some e" "nm_warned e" using query.IH n by blast
      then show ?thesis using W(2) [of n] r(2) by simp
    qed
    then have "set ws \<inter> set ws' = {}" by blast
    moreover have "\<forall>n \<in> set (ws @ ws'). \<exists>e. map_of reg' n = Some e \<and> nm_warned e"
      using query.IH W(2) r w by (fastforce simp: map_of_reconcile)
    ultimately show ?thesis using query.IH W(1) r distinct_reconcile by auto
  qed (use query in \<open>auto simp: decoder_needs_model_matrices_def\<close>)
qed simp

lemma needs_matrices_eq:
  "fst (decoder_needs_model_matrices R name source reg) = (case map_of reg name of None \<Rightarrow> True | Some e \<Rightarrow> source \<notin> nm_sources e)"
  by (auto simp: decoder_needs_model_matrices_def map_of_reconcile Let_def case_prod_beta split: option.splits)

lemma reserved_key_refused:
  assumes "\<exists>key \<in> {''H'', ''O'', ''D'', ''error_rate_vec''}. het_contains key params"
  shows "\<exists>msg. get_impl cu registry name init rq params w = (Inl (Runtime_error msg), w)"
proof -
  have "find (\<lambda>key. het_contains key params) reserved_keys \<noteq> None" using assms by (auto simp: find_None_iff reserved_keys_def)
  then show ?thesis by (auto simp: get_impl_def)
qed

lemma read_device:
  assumes "het_contains ''cuda_device_id'' params"
  shows "read_cuda_device_id cu params w = Inr dev \<longleftrightarrow>
    0 \<le> dev \<and> (\<exists>x n. het_get T_int ''cuda_device_id'' params = Inr (Any_int x) \<and> dev = sint x \<and> cudaGetDeviceCount cu w = Some n \<and> dev < n)"
proof (cases "het_get T_int ''cuda_device_id'' params")
  case (Inr v)
  then obtain x where "v = Any_int x" using het_get_type [OF Inr] by (cases v) simp_all
  then show ?thesis using assms Inr by (auto simp: read_cuda_device_id_def split: option.splits)
qed (use assms in \<open>simp add: read_cuda_device_id_def\<close>)

text \<open>The device and the state of the runtime a construction starts from, when it asks for a device.\<close>

definition device_ready :: "'w cuda \<Rightarrow> heterogeneous_map \<Rightarrow> 'w \<Rightarrow> int \<Rightarrow> int \<Rightarrow> 'w \<Rightarrow> bool" where
  "device_ready cu params w dev previous w1 \<longleftrightarrow>
     (\<exists>x n. het_get T_int ''cuda_device_id'' params = Inr (Any_int x) \<and> dev = sint x \<and> 0 \<le> dev \<and> cudaGetDeviceCount cu w = Some n \<and> dev < n) \<and>
     cudaGetDevice cu w = Some previous \<and> cudaSetDevice cu dev w = Some w1"

lemma device_ready_iff:
  assumes "het_contains ''cuda_device_id'' params"
  shows "device_ready cu params w dev previous w1 \<longleftrightarrow>
    read_cuda_device_id cu params w = Inr dev \<and> device_pin cu dev w = Inr (previous, w1)"
  unfolding device_ready_def read_device [OF assms] by (auto simp: device_pin_def split: option.splits)

section \<open>Properties\<close>

text \<open>
  C40: What the factory does with the device and the parameters of a construction. A reserved key or
  an unknown name is refused before anything happens. Without a device key the plug-in gets the
  parameters as they are, in the caller's state, and the decoder remembers no device. With the key, unless
  it is an integer that names an existing device which can be selected, the call is refused and the
  state unchanged. Otherwise the plug-in runs on that device with every parameter except the key: when it succeeds
  the thread is left where the plug-in left it and the decoder remembers the device; when it fails the device
  of the caller is selected again, if it was another one. The plug-in may itself change the device,
  and the second selection may fail: then its state is left.
\<close>

theorem factory_device:
  fixes cu :: "'w cuda" and registry :: "string \<rightharpoonup> ('c, 'd, 'w) creator"
  assumes set_selects: "\<forall>i w w'. cudaSetDevice cu i w = Some w' \<longrightarrow> cudaGetDevice cu w' = Some i" and ok: "het_ok params"
  shows "((\<exists>key \<in> {''H'', ''O'', ''D'', ''error_rate_vec''}. het_contains key params) \<or> registry name = None \<longrightarrow>
      (\<exists>msg. get_impl cu registry name init rq params w = (Inl (Runtime_error msg), w))) \<and>
    (\<forall>create. \<not> (\<exists>key \<in> {''H'', ''O'', ''D'', ''error_rate_vec''}. het_contains key params) \<and> registry name = Some create \<longrightarrow>
      (\<not> het_contains ''cuda_device_id'' params \<longrightarrow>
         get_impl cu registry name init rq params w = (case create init rq params w of (Inr d, w') \<Rightarrow> (Inr (d, - 1), w') | (Inl e, w') \<Rightarrow> (Inl e, w'))) \<and>
      (het_contains ''cuda_device_id'' params \<and> (\<nexists>dev previous w1. device_ready cu params w dev previous w1) \<longrightarrow>
         (\<exists>e. get_impl cu registry name init rq params w = (Inl e, w))) \<and>
      (\<forall>dev previous w1. het_contains ''cuda_device_id'' params \<and> device_ready cu params w dev previous w1 \<longrightarrow>
         cudaGetDevice cu w1 = Some dev \<and>
         (\<exists>ps. map_of ps = (map_of params)(''cuda_device_id'' := None) \<and>
           (case create init rq ps w1 of
              (Inr d, w2) \<Rightarrow> get_impl cu registry name init rq params w = (Inr (d, dev), w2)
            | (Inl e, w2) \<Rightarrow> (\<exists>w3. get_impl cu registry name init rq params w = (Inl e, w3) \<and>
                (if previous = dev then w3 = w2
                 else case cudaSetDevice cu previous w2 of None \<Rightarrow> w3 = w2 | Some w' \<Rightarrow> w3 = w' \<and> cudaGetDevice cu w3 = Some previous))))))"
    (is "(?res \<or> _ \<longrightarrow> ?refused) \<and> (\<forall>create. \<not> ?res \<and> _ \<longrightarrow> (?nokey \<longrightarrow> ?plain create) \<and> (?key \<and> _ \<longrightarrow> ?fails) \<and> (\<forall>dev previous w1. ?key \<and> ?ready dev previous w1 \<longrightarrow> ?made create dev previous w1))")
proof (intro conjI impI allI)
  assume "?res \<or> registry name = None"
  then show ?refused using reserved_key_refused [of params cu registry name init rq w] by (auto simp: get_impl_def split: option.split)
next
  fix create assume c: "\<not> ?res \<and> registry name = Some create"
  then have key: "find (\<lambda>key. het_contains key params) reserved_keys = None" by (simp add: find_None_iff reserved_keys_def)
  note get = get_impl_def [of cu registry name init rq params w, unfolded key option.case conjunct2 [OF c]]
  show "?plain create" if ?nokey using that unfolding get by (simp add: read_cuda_device_id_def)
  show ?fails if k: "?key \<and> (\<nexists>dev previous w1. ?ready dev previous w1)"
  proof (cases "read_cuda_device_id cu params w")
    case (Inr dev)
    then have "\<not> dev < 0" using read_device [of params cu w dev] k by simp
    moreover obtain e where "device_pin cu dev w = Inl e"
      using k Inr device_ready_iff [of params cu w dev] by (cases "device_pin cu dev w") auto
    ultimately show ?thesis using Inr unfolding get by simp
  qed (simp add: get)
  fix dev previous w1 assume r: "?key \<and> ?ready dev previous w1"
  then have rd: "read_cuda_device_id cu params w = Inr dev" and pin: "device_pin cu dev w = Inr (previous, w1)"
    using device_ready_iff [of params cu w dev previous w1] by simp_all
  have nn: "\<not> dev < 0" using r by (auto simp: device_ready_def)
  show "cudaGetDevice cu w1 = Some dev" using r set_selects by (auto simp: device_ready_def)
  show "\<exists>ps. map_of ps = (map_of params)(''cuda_device_id'' := None) \<and>
      (case create init rq ps w1 of
         (Inr d, w2) \<Rightarrow> get_impl cu registry name init rq params w = (Inr (d, dev), w2)
       | (Inl e, w2) \<Rightarrow> (\<exists>w3. get_impl cu registry name init rq params w = (Inl e, w3) \<and>
           (if previous = dev then w3 = w2
            else case cudaSetDevice cu previous w2 of None \<Rightarrow> w3 = w2 | Some w' \<Rightarrow> w3 = w' \<and> cudaGetDevice cu w3 = Some previous)))"
  proof (intro exI [of _ "plugin_params params"] conjI plugin_params_lookup [OF ok])
    obtain r w2 where c: "create init rq (plugin_params params) w1 = (r, w2)" by fastforce
    show "case create init rq (plugin_params params) w1 of
         (Inr d, w2) \<Rightarrow> get_impl cu registry name init rq params w = (Inr (d, dev), w2)
       | (Inl e, w2) \<Rightarrow> (\<exists>w3. get_impl cu registry name init rq params w = (Inl e, w3) \<and>
           (if previous = dev then w3 = w2
            else case cudaSetDevice cu previous w2 of None \<Rightarrow> w3 = w2 | Some w' \<Rightarrow> w3 = w' \<and> cudaGetDevice cu w3 = Some previous))"
      using rd pin nn set_selects by (cases r; cases "cudaSetDevice cu previous w2") (simp_all add: get c device_unpin_def)
  qed
qed

definition two_gpus :: "int cuda" where
  "two_gpus = \<lparr>cudaGetDeviceCount = (\<lambda>_. Some 2), cudaGetDevice = Some, cudaSetDevice = (\<lambda>i _. Some i)\<rparr>"

definition lut_registry :: "string \<rightharpoonup> (unit, (unit, lut) decoder, int) creator" where
  "lut_registry = [''multi_error_lut'' \<mapsto> (\<lambda>init rq ps w. (lut_create (\<lambda>_. Inl Undefined_behaviour) init rq ps, w))]"

theorem factory_device_witness:
  "(case lut_create (\<lambda>_. Inl Undefined_behaviour) demo_init None [] of
      Inr d \<Rightarrow> get_impl two_gpus lut_registry ''multi_error_lut'' demo_init None [(''cuda_device_id'', Any_int 1)] 0 = (Inr (d, 1), 1)
    | Inl e \<Rightarrow> get_impl two_gpus lut_registry ''multi_error_lut'' demo_init None [(''cuda_device_id'', Any_int 1)] 0 = (Inl e, 0))"
proof -
  let ?ps = "[(''cuda_device_id'', Any_int 1)]"
  have sel: "\<forall>i w w'. cudaSetDevice two_gpus i w = Some w' \<longrightarrow> cudaGetDevice two_gpus w' = Some i" by (simp add: two_gpus_def)
  have ok: "het_ok ?ps" by (simp add: het_ok_def)
  have key: "het_contains ''cuda_device_id'' ?ps" "\<not> (\<exists>key \<in> {''H'', ''O'', ''D'', ''error_rate_vec''}. het_contains key ?ps)"
    by (simp_all add: het_contains_def)
  have ready: "device_ready two_gpus ?ps 0 1 0 1" by (simp add: device_ready_def two_gpus_def het_get_def isCastable_def)
  define create :: "(unit, (unit, lut) decoder, int) creator"
    where "create = (\<lambda>init rq ps w. (lut_create (\<lambda>_. Inl Undefined_behaviour) init rq ps, w))"
  have reg: "lut_registry ''multi_error_lut'' = Some create" by (simp add: lut_registry_def create_def)
  obtain ps where ps: "map_of ps = (map_of ?ps)(''cuda_device_id'' := None)" and made: "
      (case create demo_init None ps 1 of
         (Inr d, w2) \<Rightarrow> get_impl two_gpus lut_registry ''multi_error_lut'' demo_init None ?ps 0 = (Inr (d, 1), w2)
       | (Inl e, w2) \<Rightarrow> (\<exists>w3. get_impl two_gpus lut_registry ''multi_error_lut'' demo_init None ?ps 0 = (Inl e, w3) \<and>
           (if 0 = (1 :: int) then w3 = w2
            else case cudaSetDevice two_gpus 0 w2 of None \<Rightarrow> w3 = w2 | Some w' \<Rightarrow> w3 = w' \<and> cudaGetDevice two_gpus w3 = Some 0)))"
    using factory_device [OF sel ok, where registry = lut_registry and name = "''multi_error_lut''" and init = demo_init and rq = None and w = 0,
        THEN conjunct2, THEN spec, of create, THEN mp, OF conjI [OF key(2) reg], THEN conjunct2, THEN conjunct2, THEN spec, THEN spec, THEN spec, of 1 0 1,
        THEN mp, OF conjI [OF key(1) ready]]
    by (elim conjE exE) (rule that)
  have "map_of ps = Map.empty" unfolding ps by (simp add: fun_eq_iff)
  then have "ps = []" by simp
  then show ?thesis using made by (cases "lut_create (\<lambda>_. Inl Undefined_behaviour) demo_init None []") (simp_all add: create_def two_gpus_def)
qed

text \<open>
  Whatever sequence of declarations and queries happens, and whichever decoders are registered at
  the time, a warning is logged at most once per name; a declaration makes exactly the queries
  for that decoder and that source answer that no matrices are needed.
\<close>

theorem native_sources_registry:
  assumes "registry_run reg ws"
  shows "distinct ws \<and> (\<forall>R name source name' source'.
      fst (decoder_needs_model_matrices R name' source' (register_decoder_native_model_source name source reg))
        = (fst (decoder_needs_model_matrices R name' source' reg) \<and> (name', source') \<noteq> (name, source))) \<and>
    (\<forall>R R' name source name' source'. fst (decoder_needs_model_matrices R' name' source' (fst (snd (decoder_needs_model_matrices R name source reg))))
        = fst (decoder_needs_model_matrices R' name' source' reg))"
proof (intro conjI allI)
  show "distinct ws" using registry_run_invariant [OF assms] by blast
  show "fst (decoder_needs_model_matrices R name' source' (register_decoder_native_model_source name source reg))
        = (fst (decoder_needs_model_matrices R name' source' reg) \<and> (name', source') \<noteq> (name, source))" for R name source name' source'
    by (auto simp: needs_matrices_eq map_of_register split: option.split)
  have "fst (snd (decoder_needs_model_matrices R name source reg)) = (if R name then fst (reconcile_declared_names R reg) else reg)" for R name source
    by (simp add: decoder_needs_model_matrices_def Let_def case_prod_beta)
  then show "fst (decoder_needs_model_matrices R' name' source' (fst (snd (decoder_needs_model_matrices R name source reg))))
        = fst (decoder_needs_model_matrices R' name' source' reg)" for R R' name source name' source'
    by (auto simp: needs_matrices_eq map_of_reconcile split: option.split)
qed

theorem native_sources_registry_witness:
  "distinct ([] :: string list) \<and>
   \<not> fst (decoder_needs_model_matrices (\<lambda>_. False) ''lut'' Stim_dem (register_decoder_native_model_source ''lut'' Stim_dem []))"
  using native_sources_registry [OF registry_run.start] by blast

end
