(* ===== verification/QEC_Sliding_Window.thy ===== *)
theory QEC_Sliding_Window
  imports QEC_Decoder_Theorems
begin

text \<open>
  The sliding-window decoder (sliding_window.cpp): rounds of a syndrome are buffered, every full
  window is given to an inner decoder, the leading part of its answer is committed and its effect
  on the next window is backed out of that window's syndrome. The factory that creates the inner
  decoders (\<open>create\<close>, a name, an input and parameters) and their batch decode call
  (\<open>inner\<close>, whose answer \<open>None\<close> means that the call was abandoned on a stop request) are parameters.
  Timing data and logging are left out.

  \<open>decode_batch\<close> calls itself once per detector layer when it is given whole syndromes. A layer that
  is itself a whole syndrome would make that recursion endless; the model gives \<open>Undefined_behaviour\<close>
  there, and the constructor's checks exclude it.
\<close>

unbundle bit_operations_syntax

section \<open>State\<close>

record 'p sliding_window =
  window_size :: nat
  step_size :: nat
  sw_S :: nat
  sw_B :: nat
  straddle_start_round :: bool
  straddle_end_round :: bool
  sw_rates :: "real list"
  inner_decoder_name :: string
  inner_decoder_params :: heterogeneous_map
  num_windows :: nat
  num_detector_layers :: nat
  inner_decoders :: "'p list"
  first_columns :: "nat list"
  sw_layout :: round_layout
  window_rounds :: "real list list list"
  rounds_since_last_reset :: nat
  batch_size :: nat
  num_windows_decoded :: nat
  syndrome_mods :: "bool list list"
  rw_results :: "decoder_result list"

type_synonym 'p inner_batch = "'p \<Rightarrow> real list list \<Rightarrow> (decoder_result list option \<times> 'p) res"

section \<open>Construction\<close>

definition sw_defaults :: "'p sliding_window" where
  "sw_defaults = \<lparr>window_size = 1, step_size = 1, sw_S = 0, sw_B = 0, straddle_start_round = False, straddle_end_round = True,
     sw_rates = [], inner_decoder_name = [], inner_decoder_params = [], num_windows = 0, num_detector_layers = 0,
     inner_decoders = [], first_columns = [],
     sw_layout = \<lparr>rl_S = 0, rl_B = 0, rl_num_rows = 0, rl_num_rounds = 0, rl_boundary = False\<rparr>,
     window_rounds = [], rounds_since_last_reset = 0, batch_size = 1, num_windows_decoded = 0, syndrome_mods = [], rw_results = []\<rparr>"

definition get_size :: "string \<Rightarrow> nat \<Rightarrow> heterogeneous_map \<Rightarrow> nat" where
  "get_size key dflt params = (case het_get T_size key params of Inr (Any_size w) \<Rightarrow> unat w | _ \<Rightarrow> dflt)"

definition get_bool :: "string \<Rightarrow> bool \<Rightarrow> heterogeneous_map \<Rightarrow> bool" where
  "get_bool key dflt params = (case het_get T_bool key params of Inr (Any_bool b) \<Rightarrow> b | _ \<Rightarrow> dflt)"

definition get_string :: "string \<Rightarrow> string \<Rightarrow> heterogeneous_map \<Rightarrow> string" where
  "get_string key dflt params = (case het_get T_string key params of Inr (Any_string s) \<Rightarrow> s | _ \<Rightarrow> dflt)"

definition get_map :: "string \<Rightarrow> heterogeneous_map \<Rightarrow> heterogeneous_map \<Rightarrow> heterogeneous_map" where
  "get_map key dflt params = (case het_get T_map key params of Inr (Any_map m) \<Rightarrow> m | _ \<Rightarrow> dflt)"

definition read_params :: "heterogeneous_map \<Rightarrow> real list \<Rightarrow> 'p sliding_window \<Rightarrow> 'p sliding_window" where
  "read_params params rates sw = sw\<lparr>
     window_size := get_size ''window_size'' (window_size sw) params,
     step_size := get_size ''step_size'' (step_size sw) params,
     sw_S := get_size ''num_syndromes_per_round'' (sw_S sw) params,
     sw_B := get_size ''num_boundary_syndromes'' (sw_B sw) params,
     straddle_start_round := get_bool ''straddle_start_round'' (straddle_start_round sw) params,
     straddle_end_round := get_bool ''straddle_end_round'' (straddle_end_round sw) params,
     sw_rates := rates,
     inner_decoder_name := get_string ''inner_decoder_name'' (inner_decoder_name sw) params,
     inner_decoder_params := get_map ''inner_decoder_params'' (inner_decoder_params sw) params\<rparr>"

text \<open>The doubled widths \<open>2 * S\<close> and \<open>2 * B\<close> are taken to stay below \<open>2\<^sup>6\<^sup>4\<close>.\<close>

definition validate_inputs :: "sparse_binary_matrix \<Rightarrow> 'p sliding_window \<Rightarrow> unit res" where
  "validate_inputs H sw =
     (let num_rows = sbm_rows H; S = sw_S sw; B = sw_B sw; W = window_size sw; st = step_size sw; n = num_detector_layers sw in
      rbind (require (B \<le> S) (Invalid_argument ''sliding_window constructor: num_boundary_syndromes must be <= num_syndromes_per_round'')) (\<lambda>_.
      rbind (require (2 * S \<le> num_rows) (Invalid_argument ''sliding_window constructor: num_rows must be >= 2 * num_syndromes_per_round; memory circuits always produce at least a lock-in and a read-out round'')) (\<lambda>_.
      rbind (if num_rows < 2 * B then Inl (Invalid_argument ''sliding_window constructor: number of PCM rows is inconsistent with the given num_syndromes_per_round and num_boundary_syndromes'')
             else if S = 0 then Inl Undefined_behaviour
             else require ((num_rows - 2 * B) mod S = 0) (Invalid_argument ''sliding_window constructor: number of PCM rows is inconsistent with the given num_syndromes_per_round and num_boundary_syndromes'')) (\<lambda>_.
      rbind (require (1 \<le> W \<and> W \<le> n) (Invalid_argument ''sliding_window constructor: window_size must be between 1 and the number of detector layers'')) (\<lambda>_.
      rbind (require (1 \<le> st \<and> st \<le> W) (Invalid_argument ''sliding_window constructor: step_size must be between 1 and window_size'')) (\<lambda>_.
      rbind (require ((n - W) mod st = 0) (Invalid_argument ''sliding_window constructor: detector layers - window_size must be divisible by step_size'')) (\<lambda>_.
      rbind (require (S \<noteq> 0) (Invalid_argument ''sliding_window constructor: num_syndromes_per_round must be non-zero'')) (\<lambda>_.
      rbind (require (inner_decoder_name sw \<noteq> []) (Invalid_argument ''sliding_window constructor: inner_decoder_name must be non-empty'')) (\<lambda>_.
      rbind (require (sw_rates sw \<noteq> []) (Invalid_argument ''sliding_window constructor: error_rate_vec must be non-empty'')) (\<lambda>_.
      rbind (pcm_is_sorted_boundary (to_nested_csc H) S B) (\<lambda>sorted.
        require sorted (Invalid_argument ''sliding_window constructor: PCM must be sorted. See cudaq::qec::simplify_pcm.''))))))))))))"

definition window_input ::
  "'c decoder_init \<Rightarrow> sparse_binary_matrix \<Rightarrow> 'p sliding_window \<Rightarrow> nat \<Rightarrow> (nat \<times> 'c decoder_init) res" where
  "window_input init H sw w =
     (let start_round = w * step_size sw; end_round = start_round + window_size sw - 1 in
      rbind (get_pcm_for_rounds_sparse H (sw_S sw) start_round end_round (straddle_start_round sw) (straddle_end_round sw) True (sw_B sw))
        (\<lambda>(H_round, first_column, last_column).
      rbind (vrange first_column (last_column + 1) (sw_rates sw)) (\<lambda>error_vec_mod.
      rbind (require (sz_sub last_column first_column + 1 = shape H_round ! 1)
               (Invalid_argument ''last_column - first_column + 1 must be equal to the number of columns in H_round'')) (\<lambda>_.
      rbind (from_csr 0 (shape H_round ! 1) [0] []) (\<lambda>inner_O.
      rbind (case di_ids init of None \<Rightarrow> Inr None | Some ids \<Rightarrow> rbind (vrange first_column (last_column + 1) ids) (\<lambda>x. Inr (Some x))) (\<lambda>inner_ids.
      rbind (sparse_from_dense H_round CSC) (\<lambda>inner_H.
      rbind (decoder_init_of_matrices inner_H (Some inner_O) error_vec_mod None inner_ids) (\<lambda>inner_init.
        Inr (first_column, inner_init)))))))))"

definition add_window ::
  "(string \<Rightarrow> 'c decoder_init \<Rightarrow> heterogeneous_map \<Rightarrow> 'p res) \<Rightarrow> 'c decoder_init \<Rightarrow> sparse_binary_matrix \<Rightarrow> nat \<Rightarrow>
   'p sliding_window \<Rightarrow> 'p sliding_window res" where
  "add_window create init H w sw =
     rbind (window_input init H sw w) (\<lambda>(first_column, inner_init).
     rbind (create (inner_decoder_name sw) inner_init (inner_decoder_params sw)) (\<lambda>p.
       Inr (sw\<lparr>first_columns := first_columns sw @ [first_column], inner_decoders := inner_decoders sw @ [p]\<rparr>)))"

definition sliding_window_new ::
  "('c \<Rightarrow> chunked_observable_map res) \<Rightarrow> (string \<Rightarrow> 'c decoder_init \<Rightarrow> heterogeneous_map \<Rightarrow> 'p res) \<Rightarrow>
   'c decoder_init \<Rightarrow> decoder_output_request \<Rightarrow> heterogeneous_map \<Rightarrow> ('c, 'p sliding_window) decoder res" where
  "sliding_window_new o_chunked create init0 request params =
     rbind (canonicalize_H init0) (\<lambda>init.
     rbind (decoder_new o_chunked init (primary request) sw_defaults) (\<lambda>d.
     rbind (init_detector_error_matrix (inputs d)) (\<lambda>H.
     if has_auxiliary_outputs request then Inl (Invalid_argument ''sliding_window does not produce auxiliary outputs'')
     else if primary request = Observables \<and> \<not> has_observable_model (inputs d)
     then Inl (Invalid_argument ''sliding_window was constructed for observable output but its model supplies no observable mapping'')
     else
       rbind (init_error_rates (inputs d)) (\<lambda>rates.
       let sw0 = read_params params rates (plugin d) in
       if sw_S sw0 = 0 then Inl (Invalid_argument ''sliding_window constructor: num_syndromes_per_round must be non-zero'')
       else
         let sw1 = (if sw_B sw0 = 0 then sw0\<lparr>sw_B := sw_S sw0\<rparr> else sw0) in
         rbind (round_layout_new (sw_S sw1) (sw_B sw1) (sbm_rows H)) (\<lambda>layout.
         if step_size sw1 = 0 then Inl Undefined_behaviour
         else
           let sw2 = sw1\<lparr>sw_layout := layout, num_detector_layers := rl_num_rounds layout,
                         num_windows := sz_sub (rl_num_rounds layout) (window_size sw1) div step_size sw1 + 1\<rparr> in
           rbind (validate_inputs H sw2) (\<lambda>_.
           rbind (if primary request = Observables \<or> has_observable_model (inputs d)
                  then initialize_streaming_layout (sw_S sw2) (map (round_start layout) [0..<rl_num_rounds layout + 1]) d
                  else Inr d) (\<lambda>d1.
           rbind (rfold (add_window create (inputs d) H) [0..<num_windows sw2] sw2) (\<lambda>sw3.
             Inr (d1\<lparr>plugin := sw3\<rparr>)))))))))"

section \<open>Decoding\<close>

definition initialize_window :: "nat \<Rightarrow> ('c, 'p sliding_window) decoder \<Rightarrow> ('c, 'p sliding_window) decoder" where
  "initialize_window n d = d\<lparr>plugin := (plugin d)\<lparr>
     syndrome_mods := replicate n (replicate (syndrome_size d) False),
     rw_results := replicate n \<lparr>converged = True, decoded = replicate (block_size d) 0, opt_results = None\<rparr>,
     batch_size := n, window_rounds := [], rounds_since_last_reset := 0, num_windows_decoded := 0\<rparr>\<rparr>"

definition reset_stream :: "'p sliding_window \<Rightarrow> 'p sliding_window" where
  "reset_stream sw = sw\<lparr>window_rounds := [], rw_results := [], syndrome_mods := [], rounds_since_last_reset := 0, num_windows_decoded := 0\<rparr>"

definition sw_reset_decoder :: "('c, 'p sliding_window) decoder \<Rightarrow> ('c, 'p sliding_window) decoder" where
  "sw_reset_decoder d = (reset_decoder d)\<lparr>plugin := reset_stream (plugin d)\<rparr>"

text \<open>\<open>static_cast<uint8_t>\<close> of a floating-point value truncates towards zero.\<close>

definition to_u8 :: "real \<Rightarrow> u8 res" where
  "to_u8 x = (if - 1 < x \<and> x < 256 then Inr (word_of_int (if x < 0 then 0 else \<lfloor>x\<rfloor>)) else Inl Undefined_behaviour)"

definition window_syndrome :: "'p sliding_window \<Rightarrow> nat \<Rightarrow> real list res" where
  "window_syndrome sw s =
     (let w = num_windows_decoded sw; syndrome_start = round_start (sw_layout sw) (w * step_size sw);
          num_window_syndromes = sz_sub (round_start (sw_layout sw) (w * step_size sw + window_size sw)) syndrome_start in
      rbind (rmap (\<lambda>slot. rbind (vget (window_rounds sw) slot) (\<lambda>round. vget round s)) [0..<window_size sw]) (\<lambda>parts.
      if 0 < w
      then rbind (vget (syndrome_mods sw) s) (\<lambda>mods.
        rfold (\<lambda>r syn. rbind (vget syn r) (\<lambda>x. rbind (to_u8 x) (\<lambda>u. rbind (vget mods (syndrome_start + r)) (\<lambda>m.
            vset syn r (real (unat (u XOR (if m then 1 else 0))))))))
          [0..<num_window_syndromes] (concat parts))
      else Inr (concat parts)))"

definition commit_bits :: "nat \<Rightarrow> nat \<Rightarrow> u8 list \<Rightarrow> real list \<Rightarrow> real list res" where
  "commit_bits first num_to_commit window_result result =
     rfold (\<lambda>c res. rbind (vget window_result c) (\<lambda>b. vset res (c + first) (real (unat b)))) [0..<num_to_commit] result"

definition back_out :: "sparse_binary_matrix \<Rightarrow> nat \<Rightarrow> nat \<Rightarrow> nat \<Rightarrow> nat \<Rightarrow> real list \<Rightarrow> bool list \<Rightarrow> bool list res" where
  "back_out H lo hi first num_to_commit result mods =
     rfold (\<lambda>c mods. rbind (vget result (c + first)) (\<lambda>x.
         if x = 0 then Inr mods
         else rbind (vget (sbm_ptr H) (c + first)) (\<lambda>b. rbind (vget (sbm_ptr H) (c + first + 1)) (\<lambda>e.
           rfold (\<lambda>r mods. if lo \<le> r \<and> r \<le> hi then rbind (vget mods r) (\<lambda>m. vset mods r (\<not> m)) else Inr mods)
             (vslice b e (sbm_idx H)) mods))))
       [0..<num_to_commit] mods"

definition decode_window ::
  "'p inner_batch \<Rightarrow> sparse_binary_matrix \<Rightarrow> 'p sliding_window \<Rightarrow> (bool \<times> 'p sliding_window) res" where
  "decode_window inner H sw =
     (let w = num_windows_decoded sw; st = step_size sw in
      rbind (rmap (window_syndrome sw) [0..<batch_size sw]) (\<lambda>window_syndromes.
      rbind (vget (inner_decoders sw) w) (\<lambda>p.
      rbind (inner p window_syndromes) (\<lambda>(answer, p').
      let sw1 = sw\<lparr>inner_decoders := (inner_decoders sw)[w := p']\<rparr> in
      case answer of
        None \<Rightarrow> Inr (False, sw1)
      | Some inner_results \<Rightarrow>
          rbind (rmap (\<lambda>s. rbind (vget (rw_results sw) s) (\<lambda>r. rbind (vget inner_results s) (\<lambda>i.
              Inr (r\<lparr>converged := converged r \<and> converged i\<rparr>, convert_vec_soft_to_hard (decoded i) (1/2)))))
            [0..<batch_size sw]) (\<lambda>rs.
          rbind (vget (first_columns sw) w) (\<lambda>this_first.
          if w < sz_sub (num_windows sw) 1
          then rbind (vget (first_columns sw) (w + 1)) (\<lambda>next_first.
            let num_to_commit = sz_sub next_first this_first;
                lo = round_start (sw_layout sw) ((w + 1) * st);
                hi = sz_sub (round_start (sw_layout sw) ((w + 1) * st + 1)) 1 in
            rbind (rmap (\<lambda>(r, bits). rbind (commit_bits this_first num_to_commit bits (decoded r)) (\<lambda>res. Inr (r\<lparr>decoded := res\<rparr>))) rs) (\<lambda>results.
            rbind (rmap (\<lambda>s. rbind (vget results s) (\<lambda>r. rbind (vget (syndrome_mods sw) s)
                (back_out H lo hi this_first num_to_commit (decoded r)))) [0..<batch_size sw]) (\<lambda>mods.
              Inr (True, sw1\<lparr>rw_results := results, syndrome_mods := mods\<rparr>))))
          else rbind (vget rs 0) (\<lambda>r0.
            rbind (rmap (\<lambda>(r, bits). rbind (commit_bits this_first (length (snd r0)) bits (decoded r)) (\<lambda>res. Inr (r\<lparr>decoded := res\<rparr>))) rs) (\<lambda>results.
              Inr (True, sw1\<lparr>rw_results := results\<rparr>)))))))))"

text \<open>The last part of \<open>decode_batch\<close>: the composed frames, projected when observables were asked for.\<close>

definition finish_results :: "('c, 'p) decoder \<Rightarrow> decoder_result list \<Rightarrow> decoder_result list res" where
  "finish_results d results =
     (if output_primary d = Observables
      then rmap (\<lambda>r. if decoded r = [] then Inr r
             else rbind (project_errors_to_observables (decoded r) (get_num_observables d) d) (\<lambda>obs. Inr (r\<lparr>decoded := obs\<rparr>))) results
      else Inr results)"

text \<open>One detector layer: buffer it and decode when the window is full.\<close>

definition feed_layer ::
  "'p inner_batch \<Rightarrow> real list list \<Rightarrow> ('c, 'p sliding_window) decoder \<Rightarrow>
   (decoder_result list option \<times> ('c, 'p sliding_window) decoder) res" where
  "feed_layer inner syndromes d =
     (let sw = plugin d in
      if length syndromes \<noteq> batch_size sw then Inl (Invalid_argument ''sliding_window: batch size changed mid-stream'')
      else if list_ex (\<lambda>r. length r \<noteq> round_width (sw_layout sw) (rounds_since_last_reset sw)) syndromes
      then Inl (Invalid_argument ''sliding_window: every row in a call must be either the full syndrome or the width of the round'')
      else
        let sw1 = sw\<lparr>window_rounds := window_rounds sw @ [syndromes], rounds_since_last_reset := rounds_since_last_reset sw + 1\<rparr> in
        if length (window_rounds sw1) < window_size sw1 then Inr (Some [], d\<lparr>plugin := sw1\<rparr>)
        else
          rbind (decode_window inner (di_H (inputs d)) sw1) (\<lambda>(complete, sw2).
          if \<not> complete then Inr (None, d\<lparr>plugin := reset_stream sw2\<rparr>)
          else
            let sw3 = sw2\<lparr>num_windows_decoded := num_windows_decoded sw2 + 1\<rparr> in
            if num_windows_decoded sw3 = num_windows sw3
            then rbind (finish_results d (rw_results sw3)) (\<lambda>results. Inr (Some results, d\<lparr>plugin := reset_stream sw3\<rparr>))
            else if length (window_rounds sw3) < step_size sw3 then Inl Undefined_behaviour
            else Inr (Some [], d\<lparr>plugin := sw3\<lparr>window_rounds := drop (step_size sw3) (window_rounds sw3)\<rparr>\<rparr>)))"

definition decode_layer ::
  "'p inner_batch \<Rightarrow> real list list \<Rightarrow> ('c, 'p sliding_window) decoder \<Rightarrow>
   (decoder_result list option \<times> ('c, 'p sliding_window) decoder) res" where
  "decode_layer inner syndromes d =
     feed_layer inner syndromes (if rounds_since_last_reset (plugin d) = 0 then initialize_window (length syndromes) d else d)"

fun decode_layers ::
  "'p inner_batch \<Rightarrow> real list list list \<Rightarrow> decoder_result list option \<Rightarrow> ('c, 'p sliding_window) decoder \<Rightarrow>
   (decoder_result list option \<times> ('c, 'p sliding_window) decoder) res" where
  "decode_layers inner [] results d = Inr (results, d)"
| "decode_layers inner (layer # layers) results d =
     rbind (decode_layer inner layer d) (\<lambda>(answer, d'). case answer of
         None \<Rightarrow> Inr (None, d')
       | Some rs \<Rightarrow> decode_layers inner layers (Some rs) d')"

definition sw_decode_batch ::
  "'p inner_batch \<Rightarrow> real list list \<Rightarrow> ('c, 'p sliding_window) decoder \<Rightarrow>
   (decoder_result list option \<times> ('c, 'p sliding_window) decoder) res" where
  "sw_decode_batch inner syndromes d =
     (if syndromes = [] then Inr (Some [], d)
      else if length (hd syndromes) = syndrome_size d
      then
        if list_ex (\<lambda>s. length s \<noteq> syndrome_size d) syndromes
        then Inl (Invalid_argument ''Syndrome has length {} but this decoder expects {} (the number of detectors)'')
        else
          let layout = sw_layout (plugin d); rounds = [0..<num_detector_layers (plugin d)] in
          if list_ex (\<lambda>r. round_width layout r = syndrome_size d) rounds then Inl Undefined_behaviour
          else decode_layers inner
            (map (\<lambda>r. map (\<lambda>s. vslice (round_start layout r) (round_start layout r + round_width layout r) s) syndromes) rounds) None d
      else decode_layer inner syndromes d)"

definition sw_decode ::
  "'p inner_batch \<Rightarrow> real list \<Rightarrow> ('c, 'p sliding_window) decoder \<Rightarrow> (decoder_result option \<times> ('c, 'p sliding_window) decoder) res" where
  "sw_decode inner syndrome d =
     rbind (sw_decode_batch inner [syndrome] d) (\<lambda>(results, d'). case results of
         None \<Rightarrow> Inr (None, d')
       | Some [] \<Rightarrow> Inr (Some \<lparr>converged = False, decoded = [], opt_results = None\<rparr>, d')
       | Some (r # rs) \<Rightarrow> Inr (Some r, d'))"

text \<open>
  What a call that throws leaves behind. The arguments are checked after a new stream was initialised; a layer is
  buffered and counted before its window is decoded, so an exception of the inner decoder, which leaves that
  decoder in some state \<open>p\<close>, leaves a full window undecoded (the number returned with the state); a
  projection that throws does so after the reset of the stream.
\<close>

definition decode_layer_left ::
  "'p inner_batch \<Rightarrow> 'p \<Rightarrow> real list list \<Rightarrow> ('c, 'p sliding_window) decoder \<Rightarrow> nat \<times> ('c, 'p sliding_window) decoder" where
  "decode_layer_left inner p syndromes d =
     (let d0 = if rounds_since_last_reset (plugin d) = 0 then initialize_window (length syndromes) d else d; sw = plugin d0 in
      if length syndromes \<noteq> batch_size sw \<or>
         list_ex (\<lambda>r. length r \<noteq> round_width (sw_layout sw) (rounds_since_last_reset sw)) syndromes then (0, d0)
      else
        let sw1 = sw\<lparr>window_rounds := window_rounds sw @ [syndromes], rounds_since_last_reset := rounds_since_last_reset sw + 1\<rparr> in
        case decode_window inner (di_H (inputs d)) sw1 of
          Inl e \<Rightarrow> (1, d0\<lparr>plugin := sw1\<lparr>inner_decoders := (inner_decoders sw1)[num_windows_decoded sw1 := p]\<rparr>\<rparr>)
        | Inr (decoded_all, sw2) \<Rightarrow> (0, d0\<lparr>plugin := reset_stream sw2\<rparr>))"

fun decode_layers_left ::
  "'p inner_batch \<Rightarrow> 'p \<Rightarrow> real list list list \<Rightarrow> ('c, 'p sliding_window) decoder \<Rightarrow> nat \<times> ('c, 'p sliding_window) decoder" where
  "decode_layers_left inner p [] d = (0, d)"
| "decode_layers_left inner p (l # layers) d =
     (case decode_layer inner l d of
        Inl e \<Rightarrow> decode_layer_left inner p l d
      | Inr (answer, d') \<Rightarrow> if answer = None then (0, d') else decode_layers_left inner p layers d')"

definition sw_decode_batch_left ::
  "'p inner_batch \<Rightarrow> 'p \<Rightarrow> real list list \<Rightarrow> ('c, 'p sliding_window) decoder \<Rightarrow> nat \<times> ('c, 'p sliding_window) decoder" where
  "sw_decode_batch_left inner p syndromes d =
     (if length (hd syndromes) = syndrome_size d
      then
        if list_ex (\<lambda>s. length s \<noteq> syndrome_size d) syndromes then (0, d)
        else
          let layout = sw_layout (plugin d) in
          decode_layers_left inner p
            (map (\<lambda>r. map (\<lambda>s. vslice (round_start layout r) (round_start layout r + round_width layout r) s) syndromes)
              [0..<num_detector_layers (plugin d)]) d
      else decode_layer_left inner p syndromes d)"

section \<open>Accessors\<close>

definition get_num_syndromes_per_round :: "('c, 'p sliding_window) decoder \<Rightarrow> nat" where
  "get_num_syndromes_per_round d = sw_S (plugin d)"

definition get_num_boundary_syndromes :: "('c, 'p sliding_window) decoder \<Rightarrow> nat" where
  "get_num_boundary_syndromes d = sw_B (plugin d)"

definition get_layer_offset :: "nat \<Rightarrow> ('c, 'p sliding_window) decoder \<Rightarrow> nat" where
  "get_layer_offset r d = round_start (sw_layout (plugin d)) r"

definition get_num_detector_layers :: "('c, 'p sliding_window) decoder \<Rightarrow> nat" where
  "get_num_detector_layers d = num_detector_layers (plugin d)"

text \<open>The cross-field checks of the parameter schema.\<close>

definition schema_validate :: "heterogeneous_map \<Rightarrow> unit res" where
  "schema_validate args =
     rbind (if het_contains ''window_size'' args \<and> het_contains ''step_size'' args
            then rbind (het_get T_size ''window_size'' args) (\<lambda>_. rbind (het_get T_size ''step_size'' args) (\<lambda>_.
              require (1 \<le> get_size ''step_size'' 0 args \<and> get_size ''step_size'' 0 args \<le> get_size ''window_size'' 0 args)
                (Runtime_error ''sliding_window parameters: step_size must be between 1 and window_size'')))
            else Inr ()) (\<lambda>_.
     if het_contains ''num_boundary_syndromes'' args \<and> het_contains ''num_syndromes_per_round'' args
     then rbind (het_get T_size ''num_boundary_syndromes'' args) (\<lambda>_. rbind (het_get T_size ''num_syndromes_per_round'' args) (\<lambda>_.
       require (get_size ''num_boundary_syndromes'' 0 args \<le> get_size ''num_syndromes_per_round'' 0 args)
         (Runtime_error ''sliding_window parameters: num_boundary_syndromes must be <= num_syndromes_per_round'')))
     else Inr ())"

end
