(* ===== verification/QEC_Sliding_Geometry.thy ===== *)
theory QEC_Sliding_Geometry
  imports QEC_Sliding_Window
begin

text \<open>
  The geometry of sliding windows: which columns belong to which window, the matrix each inner
  decoder is given, the loops that commit bits and back them out, and the bookkeeping that makes
  the committed parts fit together when every error mechanism spans at most two consecutive rounds.
\<close>

unbundle bit_operations_syntax

section \<open>Columns and rounds\<close>

definition first_round :: "round_layout \<Rightarrow> nat list \<Rightarrow> nat" where
  "first_round l col = row_to_round l (hd col)"

definition last_round :: "round_layout \<Rightarrow> nat list \<Rightarrow> nat" where
  "last_round l col = row_to_round l (last col)"

text \<open>The columns are in topological order of their rounds; empty columns come first.\<close>

definition rounds_sorted :: "round_layout \<Rightarrow> nat list list \<Rightarrow> bool" where
  "rounds_sorted l cols \<longleftrightarrow> (\<forall>c c'. c \<le> c' \<and> c' < length cols \<and> cols ! c \<noteq> [] \<longrightarrow>
     cols ! c' \<noteq> [] \<and> first_round l (cols ! c) \<le> first_round l (cols ! c'))"

lemma sorted_keys:
  assumes "\<forall>c. Suc c < n \<longrightarrow> key c < (key (Suc c) :: 'k :: order)" "c \<le> c'" "c' < n"
  shows "key c \<le> key c'"
  using assms(2,3)
proof (induction c')
  case (Suc c')
  show ?case
  proof (cases "c = Suc c'")
    case False
    then have "key c \<le> key c'" using Suc by simp
    also have "key c' < key (Suc c')" using assms(1) Suc.prems by blast
    finally show ?thesis by simp
  qed simp
qed simp

lemma pcm_sorted_rounds:
  assumes "pcm_is_sorted_boundary cols S B = Inr True" "layout_params_ok S B rows" "round_layout_new S B rows = Inr l" "B \<noteq> 0"
    and bound: "\<forall>col \<in> set cols. \<forall>r \<in> set col. r < rows" and n: "length cols \<le> max_u32"
  shows "rounds_sorted l cols"
  unfolding rounds_sorted_def
proof (intro allI impI)
  fix c c' assume c: "c \<le> c' \<and> c' < length cols \<and> cols ! c \<noteq> []"
  have SB: "S \<noteq> 0" "\<not> S < B" using assms(2) by (auto simp: layout_params_ok_def)
  then have "\<forall>c. Suc c < length cols \<longrightarrow> column_key cols True (boundary_round S B) c < column_key cols True (boundary_round S B) (Suc c)"
    using assms(1) by (simp add: pcm_is_sorted_boundary_def get_sorted_pcm_column_indices_boundary_def is_iota_impl_iff [OF n])
  then have key: "column_key cols True (boundary_round S B) c \<le> column_key cols True (boundary_round S B) c'"
    using c sorted_keys [of "length cols" "column_key cols True (boundary_round S B)" c c'] by blast
  have rnd: "boundary_round S B r = row_to_round l r" if "r < rows" for r
    using boundary_round_agrees [OF assms(2) that] assms(3,4) by simp
  have ne: "cols ! c' \<noteq> []" using key c by (auto simp: column_key_def Let_def split: if_splits)
  have "hd (cols ! c) < rows" "hd (cols ! c') < rows"
    using bound c ne nth_mem [of c cols] nth_mem [of c' cols] hd_in_set by force+
  then show "cols ! c' \<noteq> [] \<and> first_round l (cols ! c) \<le> first_round l (cols ! c')"
    using key c ne rnd by (auto simp: column_key_def first_round_def Let_def)
qed

definition col_bound :: "round_layout \<Rightarrow> nat list list \<Rightarrow> nat \<Rightarrow> nat" where
  "col_bound l cols k = length (takeWhile (\<lambda>c. cols ! c = [] \<or> first_round l (cols ! c) < k) [0..<length cols])"

lemma col_bound_le: "col_bound l cols k \<le> length cols"
  using length_takeWhile_le [of _ "[0..<length cols]"] by (simp add: col_bound_def)

lemma less_col_bound_iff:
  assumes "rounds_sorted l cols" "c < length cols"
  shows "c < col_bound l cols k \<longleftrightarrow> cols ! c = [] \<or> first_round l (cols ! c) < k"
proof
  let ?P = "\<lambda>c. cols ! c = [] \<or> first_round l (cols ! c) < k"
  show "?P c" if "c < col_bound l cols k"
    using nth_mem [of c "takeWhile ?P [0..<length cols]"] that assms(2)
    by (auto simp: col_bound_def takeWhile_nth dest: set_takeWhileD)
  show "c < col_bound l cols k" if P: "?P c"
  proof (rule ccontr)
    assume "\<not> c < col_bound l cols k"
    then have le: "col_bound l cols k \<le> c" by simp
    then have "\<not> ?P ([0..<length cols] ! col_bound l cols k)"
      unfolding col_bound_def by (intro nth_length_takeWhile) (use assms(2) le col_bound_def in auto)
    then have "\<not> ?P (col_bound l cols k)" using le assms(2) by simp
    then show False using assms(1) P le assms(2) unfolding rounds_sorted_def by (meson le_less_trans)
  qed
qed

lemma col_bound_mono: "rounds_sorted l cols \<Longrightarrow> k \<le> k' \<Longrightarrow> col_bound l cols k \<le> col_bound l cols k'"
proof (rule ccontr)
  assume a: "rounds_sorted l cols" "k \<le> k'" "\<not> col_bound l cols k \<le> col_bound l cols k'"
  let ?c = "col_bound l cols k'"
  have "?c < length cols" using a(3) col_bound_le [of l cols k] by simp
  then show False using less_col_bound_iff [OF a(1), of ?c] a(2,3) by (meson less_irrefl less_le_trans not_le)
qed

text \<open>Every mechanism spans at most two consecutive rounds.\<close>

definition two_rounds :: "round_layout \<Rightarrow> nat list list \<Rightarrow> bool" where
  "two_rounds l cols \<longleftrightarrow> (\<forall>col \<in> set cols. col \<noteq> [] \<longrightarrow> last_round l col \<le> first_round l col + 1)"

lemma window_column_iff:
  assumes "col \<noteq> [] \<Longrightarrow> first_round l col \<le> last_round l col \<and> last_round l col \<le> first_round l col + 1" "s < e"
  shows "column_in_round_range l s e False True col \<longleftrightarrow> col \<noteq> [] \<and> s \<le> first_round l col \<and> first_round l col \<le> e"
  using assms by (auto simp: column_in_round_range_def first_round_def last_round_def Let_def)

lemma filter_upt_interval: "filter (\<lambda>c. a \<le> c \<and> c < b) [0..<n] = [a..<min b n]"
  by (induction n) (auto simp: min_def not_less_eq_eq le_Suc_eq)

lemma window_columns:
  assumes "rounds_sorted l cols" "two_rounds l cols" "s < e" "length cols \<le> max_u32"
    "\<forall>col \<in> set cols. col \<noteq> [] \<longrightarrow> first_round l col \<le> last_round l col"
  shows "fst (select_pcm_columns_for_round_range cols l s e False True) = [col_bound l cols s..<col_bound l cols (e + 1)]"
proof -
  have "column_in_round_range l s e False True (cols ! c) \<longleftrightarrow> col_bound l cols s \<le> c \<and> c < col_bound l cols (e + 1)"
    if "c < length cols" for c
  proof -
    have "column_in_round_range l s e False True (cols ! c) \<longleftrightarrow>
        cols ! c \<noteq> [] \<and> s \<le> first_round l (cols ! c) \<and> first_round l (cols ! c) \<le> e"
      using assms(2,3,5) nth_mem [OF that] by (intro window_column_iff) (auto simp: two_rounds_def)
    then show ?thesis
      using less_col_bound_iff [OF assms(1) that, of s] less_col_bound_iff [OF assms(1) that, of "e + 1"] by (simp add: not_less [symmetric]) linarith
  qed
  then have "fst (select_pcm_columns_for_round_range cols l s e False True)
      = filter (\<lambda>c. col_bound l cols s \<le> c \<and> c < col_bound l cols (e + 1)) [0..<length cols]"
    unfolding select_columns [OF assms(4)] by (intro filter_cong) auto
  also have "\<dots> = [col_bound l cols s..<col_bound l cols (e + 1)]" using filter_upt_interval col_bound_le [of l cols "e + 1"] by (simp add: min_def)
  finally show ?thesis .
qed

section \<open>The matrix of a window\<close>

lemma sparse_from_dense_mult:
  assumes "is_mat t nr nc" "sparse_from_dense t lay = Inr m"
  shows "canonical m" "sbm_layout m = lay" "sbm_rows m = nr" "sbm_cols m = nc"
    "\<And>r c. r < nr \<Longrightarrow> c < nc \<Longrightarrow> mult_at m r c = (if ent t r c \<noteq> 0 then 1 else 0)"
proof -
  have sh: "shape t ! 0 = nr" "shape t ! 1 = nc" using assms(1) by (simp_all add: is_mat_def)
  have "nr \<le> max_u32" "nc \<le> max_u32" "length (dense_pairs t nr nc lay) \<le> max_u32"
  proof -
    show "nr \<le> max_u32" "nc \<le> max_u32" using assms(2) sh by (auto simp: sparse_from_dense_def Let_def split: if_splits)
    show "length (dense_pairs t nr nc lay) \<le> max_u32"
    proof (cases "nr = 0 \<or> nc = 0")
      case True
      then show ?thesis using length_dense_pairs [of t nr nc lay] by auto
    next
      case False
      then have "sum_list (count_keys (if lay = CSC then nc else nr) (dense_pairs t nr nc lay)) \<le> max_u32"
        using assms(2) sh by (auto simp: sparse_from_dense_def Let_def rbind_Inr_iff throw_if_nnz_exceeds_index_range_def split: if_splits)
      moreover have "\<forall>kv \<in> set (dense_pairs t nr nc lay). fst kv < (if lay = CSC then nc else nr)" by (auto simp: dense_pairs_def)
      ultimately show ?thesis using sum_count_keys by metis
    qed
  qed
  from sparse_from_dense_ok [OF assms(1) this] assms(2) show "canonical m" "sbm_layout m = lay" "sbm_rows m = nr" "sbm_cols m = nc"
    "\<And>r c. r < nr \<Longrightarrow> c < nc \<Longrightarrow> mult_at m r c = (if ent t r c \<noteq> 0 then 1 else 0)" by auto
qed

definition dense_of :: "sparse_binary_matrix \<Rightarrow> u8 tensor" where
  "dense_of m = mk_mat (sbm_rows m) (sbm_cols m) (\<lambda>r c. if mult_at m r c \<noteq> 0 then 1 else 0)"

lemma canonical_mult_le:
  assumes "canonical m" "r < sbm_rows m" "c < sbm_cols m"
  shows "mult_at m r c \<le> 1"
proof -
  have "strictly_sorted (groups m ! c)" if "sbm_layout m = CSC"
    using assms(1,3) that nth_mem [of c "groups m"] by (simp add: canonical_def num_groups_def)
  moreover have "strictly_sorted (groups m ! r)" if "sbm_layout m \<noteq> CSC"
    using assms(1,2) that nth_mem [of r "groups m"] by (simp add: canonical_def num_groups_def)
  ultimately show ?thesis using strictly_sorted_count by (simp add: mult_at_def)
qed

lemma dense_of_facts:
  assumes "canonical m"
  shows "is_mat (dense_of m) (sbm_rows m) (sbm_cols m)" "set (data (dense_of m)) \<subseteq> {0, 1}"
    "\<And>r c. r < sbm_rows m \<Longrightarrow> c < sbm_cols m \<Longrightarrow> mult_at m r c = (if ent (dense_of m) r c \<noteq> 0 then 1 else 0)"
    "to_nested_csc m = columns_of (dense_of m) (sbm_rows m) (sbm_cols m)"
proof -
  show "is_mat (dense_of m) (sbm_rows m) (sbm_cols m)" by (simp add: dense_of_def mat_simps)
  show "set (data (dense_of m)) \<subseteq> {0, 1}" by (auto simp: dense_of_def mk_mat_def)
  show *: "\<And>r c. r < sbm_rows m \<Longrightarrow> c < sbm_cols m \<Longrightarrow> mult_at m r c = (if ent (dense_of m) r c \<noteq> 0 then 1 else 0)"
    using canonical_mult_le [OF assms] by (auto simp: dense_of_def mat_simps intro!: le_antisym)
  show "to_nested_csc m = columns_of (dense_of m) (sbm_rows m) (sbm_cols m)"
    by (rule groups_columns_of [OF assms refl refl *])
qed

text \<open>The input of window \<open>w\<close>: its matrix is the block of H in the window's rows and columns.\<close>

definition window_block :: "sparse_binary_matrix \<Rightarrow> round_layout \<Rightarrow> nat \<Rightarrow> nat \<Rightarrow> 'c decoder_init \<Rightarrow> bool" where
  "window_block H l s e init \<longleftrightarrow> init_ok init \<and> di_has_matrices init \<and>
     di_num_detectors init = round_start l (e + 1) - round_start l s \<and>
     di_num_error_mechanisms init = col_bound l (groups H) (e + 1) - col_bound l (groups H) s \<and>
     (\<forall>r < di_num_detectors init. \<forall>c < di_num_error_mechanisms init.
        mult_at (di_H init) r c = mult_at H (round_start l s + r) (col_bound l (groups H) s + c))"

lemma from_csr_empty: "n \<le> max_u32 \<Longrightarrow> from_csr 0 n [0] [] = Inr m \<Longrightarrow> sbm_ok m \<and> sbm_cols m = n"
  by (auto simp: from_csr_iff)

text \<open>What the constructor has established about the parameters, the layout and the columns.\<close>

definition window_params :: "sparse_binary_matrix \<Rightarrow> 'p sliding_window \<Rightarrow> bool" where
  "window_params H sw \<longleftrightarrow> canonical H \<and> sbm_layout H = CSC \<and> layout_ok (sw_layout sw) \<and> rl_num_rows (sw_layout sw) = sbm_rows H \<and>
     num_detector_layers sw = rl_num_rounds (sw_layout sw) \<and> round_layout_new (sw_S sw) (sw_B sw) (sbm_rows H) = Inr (sw_layout sw) \<and>
     0 < sw_S sw \<and> sw_B sw \<le> sw_S sw \<and> 1 \<le> step_size sw \<and> step_size sw \<le> window_size sw \<and> window_size sw \<le> num_detector_layers sw \<and>
     num_detector_layers sw = (num_windows sw - 1) * step_size sw + window_size sw \<and> 1 \<le> num_windows sw \<and>
     rounds_sorted (sw_layout sw) (groups H)"

text \<open>The conditions under which the composed frame is exact.\<close>

definition exact_setting :: "sparse_binary_matrix \<Rightarrow> 'p sliding_window \<Rightarrow> bool" where
  "exact_setting H sw \<longleftrightarrow> 2 \<le> window_size sw \<and> \<not> straddle_start_round sw \<and> straddle_end_round sw \<and> two_rounds (sw_layout sw) (groups H)"

lemma column_rounds:
  assumes "canonical H" "sbm_layout H = CSC" "layout_ok l" "rl_num_rows l = sbm_rows H" "col \<in> set (groups H)" "r \<in> set col"
  shows "r < rl_num_rows l" "first_round l col \<le> row_to_round l r" "row_to_round l r \<le> last_round l col"
proof -
  have s: "strictly_sorted col" and b: "\<forall>r \<in> set col. r < rl_num_rows l"
    using assms groups_bound [of H col] by (auto simp: canonical_def index_bound_def)
  show "r < rl_num_rows l" using b assms(6) by blast
  have ne: "col \<noteq> []" using assms(6) by auto
  have "hd col \<le> r" "r \<le> last col"
    using assms(6) strictly_sorted_imp_sorted [OF s] ne by (auto simp: in_set_conv_nth hd_conv_nth last_conv_nth intro!: sorted_nth_mono)
  then show "first_round l col \<le> row_to_round l r" "row_to_round l r \<le> last_round l col"
    unfolding first_round_def last_round_def using b assms(6) last_in_set [OF ne] by (auto intro!: rl.round_of_mono [OF assms(3)])
qed

lemma window_input_block:
  assumes wp: "window_params H sw" and ex: "exact_setting H sw" and w: "w < num_windows sw"
    and new: "window_input init H sw w = Inr (fc, ii)"
  shows "fc = col_bound (sw_layout sw) (groups H) (w * step_size sw)"
    "window_block H (sw_layout sw) (w * step_size sw) (w * step_size sw + window_size sw - 1) ii"
proof -
  let ?l = "sw_layout sw" and ?s = "w * step_size sw" and ?e = "w * step_size sw + window_size sw - 1"
  let ?t = "dense_of H" and ?cb = "col_bound (sw_layout sw) (groups H)"
  have p: "canonical H" "sbm_layout H = CSC" "layout_ok ?l" "rl_num_rows ?l = sbm_rows H" "rounds_sorted ?l (groups H)"
    "round_layout_new (sw_S sw) (sw_B sw) (sbm_rows H) = Inr ?l"
    using wp by (simp_all add: window_params_def)
  have e: "2 \<le> window_size sw" "\<not> straddle_start_round sw" "straddle_end_round sw" "two_rounds ?l (groups H)"
    using ex by (simp_all add: exact_setting_def)
  have se: "?s < ?e" using e(1) by simp
  have ok: "sbm_ok H" using p(1) by (simp add: canonical_def)
  have nested: "columns_of ?t (sbm_rows H) (sbm_cols H) = groups H"
    using dense_of_facts(4) [OF p(1)] to_nested_csc_groups [OF ok] p(2) by (simp add: to_csc_def)
  have val: "validate_pcm_for_rounds_params (sw_S sw) (sw_B sw) ?s ?e (sbm_rows H) = Inr ()"
    using new by (auto simp: window_input_def Let_def rbind_Inr_iff get_pcm_for_rounds_sparse_def)
  have sub: "get_pcm_for_rounds_sparse H (sw_S sw) ?s ?e False True True (sw_B sw)
      = Inr (rounds_submatrix ?t (sbm_rows H) (sbm_cols H) ?l ?s ?e False True)"
    by (rule get_pcm_for_rounds_sparse_value [OF p(1) refl refl dense_of_facts(1) [OF p(1)] _ dense_of_facts(2) [OF p(1)]
          dense_of_facts(3) [OF p(1)] val p(6)]) (use se in simp_all)
  have n: "length (groups H) \<le> max_u32" using p(2) sbm_okD(4) [OF ok] by (simp add: num_groups_def)
  have fl: "\<forall>col \<in> set (groups H). col \<noteq> [] \<longrightarrow> first_round ?l col \<le> last_round ?l col"
    using column_rounds [OF p(1-4)] hd_in_set by (metis order_trans)
  have cols: "fst (select_pcm_columns_for_round_range (groups H) ?l ?s ?e False True) = [?cb ?s..<?cb (?e + 1)]"
    by (rule window_columns [OF p(5) e(4) se n fl])
  define C where "C = [?cb ?s..<?cb (?e + 1)]"
  define T where "T = mk_mat (round_start ?l (?e + 1) - round_start ?l ?s) (length C) (\<lambda>r c. ent ?t (round_start ?l ?s + r) (C ! c))"
  have sel: "select_pcm_columns_for_round_range (groups H) ?l ?s ?e False True
      = (C, if C \<noteq> [] then hd C else max_u32, if C \<noteq> [] then last C else 0)"
    using cols unfolding C_def [symmetric] by (simp add: select_pcm_columns_for_round_range_def Let_def)
  have sub': "get_pcm_for_rounds_sparse H (sw_S sw) ?s ?e False True True (sw_B sw)
      = Inr (T, if C \<noteq> [] then hd C else max_u32, if C \<noteq> [] then last C else 0)"
    unfolding sub rounds_submatrix_def nested sel T_def by simp
  from new e(2,3) obtain ir ids iO iH where
    r: "vrange (if C \<noteq> [] then hd C else max_u32) ((if C \<noteq> [] then last C else 0) + 1) (sw_rates sw) = Inr ir"
    and iO: "from_csr 0 (shape T ! 1) [0] [] = Inr iO" and iH: "sparse_from_dense T CSC = Inr iH"
    and ii: "decoder_init_of_matrices iH (Some iO) ir None ids = Inr ii" and fc: "fc = (if C \<noteq> [] then hd C else max_u32)"
    by (auto simp: window_input_def Let_def rbind_Inr_iff sub' [unfolded One_nat_def])
  have C: "C \<noteq> []"
  proof
    assume "C = []"
    then show False using r by (simp add: vrange_def max_u32_def split: if_splits)
  qed
  then show "fc = ?cb ?s" using fc by (auto simp: C_def)
  have T: "is_mat T (round_start ?l (?e + 1) - round_start ?l ?s) (length C)" "shape T ! 1 = length C" by (simp_all add: T_def mat_simps)
  note S = sparse_from_dense_mult [OF T(1) iH]
  have lenC: "length C \<le> max_u32" using S(1,4) by (simp add: canonical_def sbm_ok_def)
  have ok': "sbm_ok iH" "opt_all sbm_ok (Some iO)" "opt_all sbm_ok None"
    using S(1) from_csr_empty [OF lenC] iO T(2) by (simp_all add: canonical_def opt_all_def)
  note st = make_matrix_state_ok [OF ok' ii [unfolded decoder_init_of_matrices_def]]
  have H': "di_H ii = iH" using st(2) S(2) by (simp add: to_csc_def)
  have dims: "di_num_detectors ii = round_start ?l (?e + 1) - round_start ?l ?s" "di_num_error_mechanisms ii = length C"
    using st(1,10) H' S(3,4) by (simp_all add: init_ok_def)
  have "mult_at iH r c = mult_at H (round_start ?l ?s + r) (?cb ?s + c)"
    if rc: "r < round_start ?l (?e + 1) - round_start ?l ?s" "c < length C" for r c
  proof -
    have "round_start ?l (?e + 1) \<le> sbm_rows H"
      using validated_rounds [OF val sbm_okD(3) [OF ok]] se p(6) by (metis less_imp_le_nat sum.inject(2))
    then have "round_start ?l ?s + r < sbm_rows H" using rc(1) by simp
    moreover have "C ! c = ?cb ?s + c" "C ! c < sbm_cols H"
      using rc(2) nth_mem [OF rc(2)] col_bound_le [of ?l "groups H" "?e + 1"] p(2) by (auto simp: C_def num_groups_def)
    ultimately show ?thesis
      using rc S(5) [OF rc] dense_of_facts(3) [OF p(1)] by (simp add: T_def mat_simps)
  qed
  then show "window_block H ?l ?s ?e ii" using st(1,10) dims H' by (simp add: window_block_def C_def)
qed

section \<open>The loops of \<open>decode_window\<close>\<close>

lemma point_loop:
  assumes "\<And>i xs'. i < n \<Longrightarrow> length xs' = length xs \<Longrightarrow> xs' ! (b + i) = xs ! (b + i) \<Longrightarrow> f i xs' = Inr (xs'[b + i := g i])" "b + n \<le> length xs"
  shows "rfold f [0..<n] xs = Inr (map (\<lambda>j. if b \<le> j \<and> j < b + n then g (j - b) else xs ! j) [0..<length xs])"
proof -
  have "m \<le> n \<Longrightarrow> rfold f [0..<m] xs = Inr (map (\<lambda>j. if b \<le> j \<and> j < b + m then g (j - b) else xs ! j) [0..<length xs])" for m
  proof (induction m)
    case 0
    have "(\<lambda>j. if b \<le> j \<and> j < b then g (j - b) else xs ! j) = (!) xs" by (intro ext) auto
    then show ?case by (simp add: map_nth)
  next
    case (Suc m)
    let ?ys = "map (\<lambda>j. if b \<le> j \<and> j < b + m then g (j - b) else xs ! j) [0..<length xs]"
    have "f m ?ys = Inr (?ys[b + m := g m])" using assms(2) Suc.prems by (intro assms(1)) auto
    moreover have "?ys[b + m := g m] = map (\<lambda>j. if b \<le> j \<and> j < b + Suc m then g (j - b) else xs ! j) [0..<length xs]"
      using assms(2) Suc.prems by (auto intro!: nth_equalityI simp: nth_list_update)
    ultimately show ?case using Suc by (simp add: rfold_append)
  qed
  from this [of n] show ?thesis by simp
qed

lemma commit_bits_eq:
  assumes "n \<le> length wr" "first + n \<le> length res"
  shows "commit_bits first n wr res
    = Inr (map (\<lambda>j. if first \<le> j \<and> j < first + n then real (unat (wr ! (j - first))) else res ! j) [0..<length res])"
  unfolding commit_bits_def using assms by (intro point_loop) (simp_all add: add.commute)

lemma flip_rows:
  assumes "\<forall>r \<in> set rs. r < length mods"
  shows "rfold (\<lambda>r mods. if lo \<le> r \<and> r \<le> hi then rbind (vget mods r) (\<lambda>m. vset mods r (\<not> m)) else Inr mods) rs mods
    = Inr (map (\<lambda>r. mods ! r \<noteq> (lo \<le> r \<and> r \<le> hi \<and> odd (count_list rs r))) [0..<length mods])"
  using assms
proof (induction rs arbitrary: mods)
  case Nil
  then show ?case by (simp add: map_nth)
next
  case (Cons x rs)
  let ?m = "if lo \<le> x \<and> x \<le> hi then mods[x := \<not> mods ! x] else mods"
  have "rfold (\<lambda>r mods. if lo \<le> r \<and> r \<le> hi then rbind (vget mods r) (\<lambda>m. vset mods r (\<not> m)) else Inr mods) (x # rs) mods
      = Inr (map (\<lambda>r. ?m ! r \<noteq> (lo \<le> r \<and> r \<le> hi \<and> odd (count_list rs r))) [0..<length ?m])"
  proof -
    have "(if lo \<le> x \<and> x \<le> hi then rbind (vget mods x) (\<lambda>m. vset mods x (\<not> m)) else Inr mods) = Inr ?m"
      using Cons.prems by simp
    moreover have "\<forall>r \<in> set rs. r < length ?m" using Cons.prems by simp
    ultimately show ?thesis unfolding rfold.simps by (simp only: rbind_simps Cons.IH)
  qed
  also have "map (\<lambda>r. ?m ! r \<noteq> (lo \<le> r \<and> r \<le> hi \<and> odd (count_list rs r))) [0..<length ?m]
      = map (\<lambda>r. mods ! r \<noteq> (lo \<le> r \<and> r \<le> hi \<and> odd (count_list (x # rs) r))) [0..<length mods]"
    using Cons.prems by (auto simp: nth_list_update)
  finally show ?case .
qed

lemma back_out_eq:
  assumes H: "sbm_ok H" "sbm_layout H = CSC" and n: "first + n \<le> sbm_cols H" "first + n \<le> length res" and m: "length mods = sbm_rows H"
  shows "back_out H lo hi first n res mods = Inr (map (\<lambda>r. mods ! r \<noteq> (lo \<le> r \<and> r \<le> hi \<and>
    odd (\<Sum>q < n. if res ! (first + q) \<noteq> 0 then mult_at H r (first + q) else 0))) [0..<sbm_rows H])"
  using n
proof (induction n)
  case 0
  then show ?case using m map_nth [of mods] by (simp add: back_out_def)
next
  case (Suc n)
  let ?step = "\<lambda>c mods. rbind (vget res (c + first)) (\<lambda>x.
         if x = 0 then Inr mods
         else rbind (vget (sbm_ptr H) (c + first)) (\<lambda>b. rbind (vget (sbm_ptr H) (c + first + 1)) (\<lambda>e.
           rfold (\<lambda>r mods. if lo \<le> r \<and> r \<le> hi then rbind (vget mods r) (\<lambda>m. vset mods r (\<not> m)) else Inr mods)
             (vslice b e (sbm_idx H)) mods)))"
  let ?par = "\<lambda>n r. odd (\<Sum>q < n. if res ! (first + q) \<noteq> 0 then mult_at H r (first + q) else 0)"
  let ?M = "\<lambda>n. map (\<lambda>r. mods ! r \<noteq> (lo \<le> r \<and> r \<le> hi \<and> ?par n r)) [0..<sbm_rows H]"
  have IH: "rfold ?step [0..<n] mods = Inr (?M n)" using Suc unfolding back_out_def by simp
  have g: "num_groups H = sbm_cols H" "index_bound H = sbm_rows H" using H(2) by (simp_all add: num_groups_def index_bound_def)
  have col: "vslice (sbm_ptr H ! (first + n)) (sbm_ptr H ! (first + n + 1)) (sbm_idx H) = groups H ! (first + n)"
    using Suc.prems g(1) by (simp add: groups_def)
  have len: "first + n + 1 < length (sbm_ptr H)" using ptr_okD(1) [OF sbm_okD(1) [OF H(1)]] g(1) Suc.prems by simp
  have bound: "\<forall>r \<in> set (groups H ! (first + n)). r < length (?M n)"
    using set_group_bound [OF H(1), of "first + n"] g Suc.prems by auto
  have "?step n (?M n) = Inr (?M (Suc n))"
  proof (cases "res ! (first + n) = 0")
    case True
    then show ?thesis using Suc.prems by (simp add: add.commute)
  next
    case False
    have "?step n (?M n) = Inr (map (\<lambda>r. ?M n ! r \<noteq> (lo \<le> r \<and> r \<le> hi \<and> odd (count_list (groups H ! (first + n)) r))) [0..<sbm_rows H])"
      using flip_rows [OF bound, of lo hi] False Suc.prems len col by (simp add: add.commute)
    also have "map (\<lambda>r. ?M n ! r \<noteq> (lo \<le> r \<and> r \<le> hi \<and> odd (count_list (groups H ! (first + n)) r))) [0..<sbm_rows H] = ?M (Suc n)"
    proof (rule map_cong [OF refl])
      fix r assume "r \<in> set [0..<sbm_rows H]"
      then have M: "?M n ! r \<longleftrightarrow> mods ! r \<noteq> (lo \<le> r \<and> r \<le> hi \<and> ?par n r)" by (simp cong: if_cong)
      have P: "?par (Suc n) r \<longleftrightarrow> ?par n r \<noteq> odd (count_list (groups H ! (first + n)) r)" using False H(2) by (simp add: mult_at_def)
      show "(?M n ! r \<noteq> (lo \<le> r \<and> r \<le> hi \<and> odd (count_list (groups H ! (first + n)) r)))
          = (mods ! r \<noteq> (lo \<le> r \<and> r \<le> hi \<and> ?par (Suc n) r))"
        unfolding M P by blast
    qed
    finally show ?thesis .
  qed
  then have "rfold ?step [0..<Suc n] mods = Inr (?M (Suc n))"
    by (simp only: upt_Suc_append [OF le0] rfold_append IH rbind_simps rfold.simps)
  then show ?case unfolding back_out_def .
qed

lemma concat_slices:
  assumes "layout_ok l" "length s = rl_num_rows l" "a \<le> b" "b \<le> rl_num_rounds l"
  shows "concat (map (\<lambda>r. vslice (round_start l r) (round_start l r + round_width l r) s) [a..<b]) = vslice (round_start l a) (round_start l b) s"
  using assms(3,4)
proof (induction b)
  case (Suc b)
  show ?case
  proof (cases "a = Suc b")
    case False
    then have ab: "a \<le> b" using Suc.prems by simp
    have w: "round_start l b + round_width l b = round_start l (Suc b)"
      using rl.start_step [OF assms(1), of b] Suc.prems by (simp add: round_width_def)
    have m: "round_start l a \<le> round_start l b" "round_start l b \<le> round_start l (Suc b)"
      using ab Suc.prems by (auto intro!: rl.start_mono [OF assms(1)])
    have "vslice (round_start l a) (round_start l b) s @ vslice (round_start l b) (round_start l (Suc b)) s
        = vslice (round_start l a) (round_start l (Suc b)) s"
    proof -
      have "round_start l (Suc b) \<le> length s"
        using rl.start_mono [OF assms(1), of "Suc b" "rl_num_rounds l"] rl.start_end [OF assms(1)] assms(2) Suc.prems by simp
      moreover have "[round_start l a..<round_start l (Suc b)] = [round_start l a..<round_start l b] @ [round_start l b..<round_start l (Suc b)]"
        using upt_add_eq_append [OF m(1), of "round_start l (Suc b) - round_start l b"] m(2) by simp
      ultimately show ?thesis using m by (simp add: vslice_eq_map)
    qed
    then show ?thesis using Suc ab w by simp
  qed (simp add: vslice_def)
qed (simp add: vslice_def)

lemma to_u8_bits: "to_u8 0 = Inr 0" "to_u8 1 = Inr 1"
  by (simp_all add: to_u8_def)

definition layer :: "round_layout \<Rightarrow> real list \<Rightarrow> nat \<Rightarrow> real list list" where
  "layer l s r = [vslice (round_start l r) (round_start l r + round_width l r) s]"

lemma rmap_Inr: "(\<And>x. x \<in> set xs \<Longrightarrow> f x = Inr (g x)) \<Longrightarrow> rmap f xs = Inr (map g xs)"
  by (induction xs) auto

lemma window_syndrome_eq:
  assumes l: "layout_ok (sw_layout sw)" "length s = rl_num_rows (sw_layout sw)" "set s \<subseteq> {0, 1}"
    and a: "a = num_windows_decoded sw * step_size sw" "a + window_size sw \<le> rl_num_rounds (sw_layout sw)"
    and w: "window_rounds sw = map (layer (sw_layout sw) s) [a..<a + window_size sw]"
    and m: "syndrome_mods sw = [mods]" "length mods = rl_num_rows (sw_layout sw)"
  defines "lo \<equiv> round_start (sw_layout sw) a" and "hi \<equiv> round_start (sw_layout sw) (a + window_size sw)"
  shows "\<exists>x. window_syndrome sw 0 = Inr x \<and> length x = hi - lo \<and>
    (\<forall>i < hi - lo. (1/2 \<le> x ! i) = ((1/2 \<le> s ! (lo + i)) \<noteq> (0 < num_windows_decoded sw \<and> mods ! (lo + i))))"
proof -
  let ?l = "sw_layout sw" and ?y = "vslice lo hi s"
  have le: "lo \<le> hi" "hi \<le> length s"
    using rl.start_mono [OF l(1)] a(2) rl.start_end [OF l(1)] l(2) by (metis le_add1 lo_def hi_def order_trans, metis hi_def order_refl)
  have "rmap (\<lambda>slot. rbind (vget (window_rounds sw) slot) (\<lambda>round. vget round 0)) [0..<window_size sw]
      = Inr (map (\<lambda>slot. vslice (round_start ?l (a + slot)) (round_start ?l (a + slot) + round_width ?l (a + slot)) s) [0..<window_size sw])"
    by (intro rmap_Inr) (auto simp: w layer_def)
  also have "map (\<lambda>slot. vslice (round_start ?l (a + slot)) (round_start ?l (a + slot) + round_width ?l (a + slot)) s) [0..<window_size sw]
      = map (\<lambda>r. vslice (round_start ?l r) (round_start ?l r + round_width ?l r) s) [a..<a + window_size sw]"
    by (rule nth_equalityI) auto
  finally have parts: "rmap (\<lambda>slot. rbind (vget (window_rounds sw) slot) (\<lambda>round. vget round 0)) [0..<window_size sw]
      = Inr (map (\<lambda>r. vslice (round_start ?l r) (round_start ?l r + round_width ?l r) s) [a..<a + window_size sw])" .
  have cat: "concat (map (\<lambda>r. vslice (round_start ?l r) (round_start ?l r + round_width ?l r) s) [a..<a + window_size sw]) = ?y"
    unfolding lo_def hi_def by (rule concat_slices [OF l(1,2) _ a(2)]) simp
  have y: "length ?y = hi - lo" "\<And>i. i < hi - lo \<Longrightarrow> ?y ! i = s ! (lo + i)" using le by simp_all
  have bit: "s ! j = 0 \<or> s ! j = 1" if "j < length s" for j using nth_mem [OF that] l(3) by auto
  show ?thesis
  proof (cases "0 < num_windows_decoded sw")
    case False
    then have "window_syndrome sw 0 = Inr ?y" using parts cat by (simp add: window_syndrome_def Let_def)
    then show ?thesis using False y by (intro exI [of _ ?y]) simp
  next
    case True
    let ?f = "\<lambda>r syn. rbind (vget syn r) (\<lambda>x. rbind (to_u8 x) (\<lambda>u. rbind (vget mods (lo + r)) (\<lambda>m. vset syn r (real (unat (u XOR (if m then 1 else 0)))))))"
    let ?g = "\<lambda>i. if (s ! (lo + i) = 1) \<noteq> mods ! (lo + i) then 1 else 0 :: real"
    have "rfold ?f [0..<hi - lo] ?y = Inr (map (\<lambda>j. if 0 \<le> j \<and> j < 0 + (hi - lo) then ?g (j - 0) else ?y ! j) [0..<length ?y])"
    proof (rule point_loop)
      fix i :: nat and xs' assume i: "i < hi - lo" "length xs' = length ?y" "xs' ! (0 + i) = ?y ! (0 + i)"
      then have x: "xs' ! i = s ! (lo + i)" "i < length xs'" "lo + i < length mods" using y le(2) l(2) m(2) by simp_all
      have "s ! (lo + i) = 0 \<or> s ! (lo + i) = 1" using bit i(1) le(2) by simp
      then show "?f i xs' = Inr (xs'[0 + i := ?g i])" using x by (auto simp: to_u8_bits)
    qed (simp add: y)
    then have x: "rfold ?f [0..<hi - lo] ?y = Inr (map ?g [0..<hi - lo])" using y(1) by (simp cong: map_cong)
    have "window_syndrome sw 0 = Inr (map ?g [0..<hi - lo])"
      unfolding window_syndrome_def Let_def a(1) [symmetric] parts rbind_simps cat lo_def [symmetric] hi_def [symmetric] if_P [OF True]
      using x le(1) m(1) by simp
    moreover have "(1/2 \<le> s ! (lo + i)) = (s ! (lo + i) = 1)" if "i < hi - lo" for i
      using bit [of "lo + i"] that le(2) by auto
    ultimately show ?thesis using True by (intro exI [of _ "map ?g [0..<hi - lo]"]) auto
  qed
qed

section \<open>Committed errors\<close>

definition par :: "sparse_binary_matrix \<Rightarrow> real list \<Rightarrow> nat \<Rightarrow> bool" where
  "par H e r \<longleftrightarrow> odd (\<Sum>c < length e. if e ! c \<noteq> 0 then mult_at H r c else 0)"

text \<open>
  After \<open>w\<close> windows: nothing is committed from the first column of window \<open>w\<close> on; the committed errors
  reach into the next window only in its first round, where the syndrome modification is their
  parity; earlier rounds are explained if every window so far converged.
\<close>

definition committed :: "sparse_binary_matrix \<Rightarrow> round_layout \<Rightarrow> real list \<Rightarrow> nat \<Rightarrow> real list \<Rightarrow> bool list \<Rightarrow> bool \<Rightarrow> bool" where
  "committed H l s k e mods conv \<longleftrightarrow> length e = sbm_cols H \<and> set e \<subseteq> {0, 1} \<and> length mods = sbm_rows H \<and>
     (\<forall>c. col_bound l (groups H) k \<le> c \<and> c < sbm_cols H \<longrightarrow> e ! c = 0) \<and>
     (\<forall>r < sbm_rows H. k = row_to_round l r \<longrightarrow> mods ! r = par H e r) \<and>
     (\<forall>r < sbm_rows H. k < row_to_round l r \<longrightarrow> \<not> mods ! r \<and> \<not> par H e r) \<and>
     (conv \<longrightarrow> (\<forall>r < sbm_rows H. row_to_round l r < k \<longrightarrow> par H e r = (1/2 \<le> s ! r)))"

lemma mult_zero:
  assumes "canonical H" "sbm_layout H = CSC" "layout_ok l" "rl_num_rows l = sbm_rows H" "c < sbm_cols H"
    and "groups H ! c = [] \<or> row_to_round l r < first_round l (groups H ! c) \<or> last_round l (groups H ! c) < row_to_round l r"
  shows "mult_at H r c = 0"
proof (rule ccontr)
  assume "mult_at H r c \<noteq> 0"
  then have "r \<in> set (groups H ! c)" using assms(2) by (simp add: mult_at_def count_list_0_iff)
  moreover have "groups H ! c \<in> set (groups H)" using assms(2,5) by (simp add: num_groups_def)
  ultimately show False using column_rounds [OF assms(1-4)] assms(6) by fastforce
qed

lemma sum_split: "(\<Sum>c < m + k. f c) = (\<Sum>c < m. f c) + (\<Sum>q < k. f (m + q))" for f :: "nat \<Rightarrow> nat"
  by (induction k) simp_all

lemma odd_sum_split:
  fixes f :: "nat \<Rightarrow> nat"
  assumes "a \<le> b" "b \<le> n"
  shows "odd (\<Sum>c < n. f c) \<longleftrightarrow> (odd (\<Sum>c < a. f c) \<noteq> odd (\<Sum>q < b - a. f (a + q))) \<noteq> odd (\<Sum>q < n - b. f (b + q))"
proof -
  have "(\<Sum>c < n. f c) = (\<Sum>c < a. f c) + (\<Sum>q < b - a. f (a + q)) + (\<Sum>q < n - b. f (b + q))"
    using sum_split [of f a "b - a"] sum_split [of f b "n - b"] assms by simp
  then show ?thesis by auto
qed

text \<open>
  One commit: the bits \<open>v\<close> of a window that explains its syndrome \<open>x\<close> are stored from column
  \<open>a\<close> up to column \<open>b\<close>.
\<close>

definition commit_frame :: "nat \<Rightarrow> nat \<Rightarrow> bool list \<Rightarrow> real list \<Rightarrow> real list" where
  "commit_frame a b v e = map (\<lambda>j. if a \<le> j \<and> j < b then (if v ! (j - a) then 1 else 0) else e ! j) [0..<length e]"

lemma commit_frame_bits: "set e \<subseteq> {0, 1} \<Longrightarrow> set (commit_frame a b v e) \<subseteq> {0, 1}"
  by (auto simp: commit_frame_def split: if_splits dest!: nth_mem [of _ e])

lemma par_commit:
  assumes "a \<le> b" "b \<le> length e" "\<forall>c. a \<le> c \<and> c < length e \<longrightarrow> e ! c = 0"
  shows "par H (commit_frame a b v e) r \<longleftrightarrow> par H e r \<noteq> odd (\<Sum>q < b - a. if v ! q then mult_at H r (a + q) else 0)"
proof -
  let ?f = "\<lambda>c. if commit_frame a b v e ! c \<noteq> 0 then mult_at H r c else 0"
  let ?g = "\<lambda>c. if e ! c \<noteq> 0 then mult_at H r c else 0"
  have nth: "commit_frame a b v e ! j = (if a \<le> j \<and> j < b then (if v ! (j - a) then 1 else 0) else e ! j)" if "j < length e" for j
    using that by (simp add: commit_frame_def)
  have "(\<Sum>c < a. ?f c) = (\<Sum>c < a. ?g c)" using assms(1,2) nth by (intro sum.cong) auto
  moreover have "(\<Sum>q < b - a. ?f (a + q)) = (\<Sum>q < b - a. if v ! q then mult_at H r (a + q) else 0)"
    using assms(1,2) nth by (intro sum.cong) auto
  moreover have "(\<Sum>q < length e - b. ?f (b + q)) = 0" "(\<Sum>q < b - a. ?g (a + q)) = 0" "(\<Sum>q < length e - b. ?g (b + q)) = 0"
    using assms nth by (intro sum.neutral; auto)+
  ultimately show ?thesis
    unfolding par_def using odd_sum_split [OF assms(1,2), of ?f] odd_sum_split [OF assms(1,2), of ?g]
    by (simp add: commit_frame_def)
qed

text \<open>The geometry: a canonical matrix in topological column order whose mechanisms span at most two rounds.\<close>

definition geometry :: "sparse_binary_matrix \<Rightarrow> round_layout \<Rightarrow> bool" where
  "geometry H l \<longleftrightarrow> canonical H \<and> sbm_layout H = CSC \<and> layout_ok l \<and> rl_num_rows l = sbm_rows H \<and>
     rounds_sorted l (groups H) \<and> two_rounds l (groups H)"

lemma geometryD:
  assumes "geometry H l"
  shows "canonical H" "sbm_layout H = CSC" "layout_ok l" "rl_num_rows l = sbm_rows H" "rounds_sorted l (groups H)" "two_rounds l (groups H)"
    "length (groups H) = sbm_cols H"
  using assms by (simp_all add: geometry_def num_groups_def)

lemma late_column:
  assumes "geometry H l" "col_bound l (groups H) k \<le> c" "c < sbm_cols H" "row_to_round l r < k"
  shows "mult_at H r c = 0"
proof -
  note G = geometryD [OF assms(1)]
  have "k \<le> first_round l (groups H ! c)" using less_col_bound_iff [OF G(5), of c k] assms(2,3) G(7) by auto
  then show ?thesis using assms(3,4) by (intro mult_zero [OF G(1-4)]) auto
qed

lemma early_column:
  assumes "geometry H l" "c < col_bound l (groups H) k" "k < row_to_round l r"
  shows "mult_at H r c = 0"
proof -
  note G = geometryD [OF assms(1)]
  have c: "c < sbm_cols H" using assms(2) col_bound_le [of l "groups H" k] G(7) by simp
  have "groups H ! c \<in> set (groups H)" using c G(7) by simp
  then have "groups H ! c = [] \<or> last_round l (groups H ! c) \<le> k"
    using less_col_bound_iff [OF G(5), of c k] assms(2) c G(6,7) by (fastforce simp: two_rounds_def)
  then show ?thesis using assms(3) c by (intro mult_zero [OF G(1-4)]) auto
qed

lemma committed_mods:
  assumes "committed H l s k e mods conv" "r < sbm_rows H" "k \<le> row_to_round l r"
  shows "mods ! r = par H e r"
proof (cases "k = row_to_round l r")
  case False
  then have "k < row_to_round l r" using assms(3) by simp
  then show ?thesis using assms(1,2) unfolding committed_def by blast
qed (use assms in \<open>simp add: committed_def\<close>)

lemma commit_explains:
  assumes geo: "geometry H l" and com: "committed H l s k e mods conv" and kk: "k \<le> kk" "kk \<le> k + W" "k + W \<le> rl_num_rounds l"
    and expl: "\<And>r. round_start l k \<le> r \<Longrightarrow> r < round_start l (k + W) \<Longrightarrow> ((1/2 \<le> s ! r) \<noteq> mods ! r)
      = odd (\<Sum>q < col_bound l (groups H) (k + W) - col_bound l (groups H) k. if v ! q then mult_at H r (col_bound l (groups H) k + q) else 0)"
    and conv: conv and r: "r < sbm_rows H" "row_to_round l r < kk"
  shows "par H (commit_frame (col_bound l (groups H) k) (col_bound l (groups H) kk) v e) r = (1/2 \<le> s ! r)"
proof -
  note G = geometryD [OF geo]
  let ?cb = "col_bound l (groups H)"
  let ?B = "\<lambda>n. odd (\<Sum>q < n. if v ! q then mult_at H r (?cb k + q) else 0)"
  have m: "?cb k \<le> ?cb kk" "?cb kk \<le> ?cb (k + W)" "?cb (k + W) \<le> sbm_cols H"
    using col_bound_mono [OF G(5)] kk col_bound_le [of l "groups H"] G(7) by auto
  have e: "length e = sbm_cols H" "\<forall>c. ?cb k \<le> c \<and> c < length e \<longrightarrow> e ! c = 0" using com by (simp_all add: committed_def)
  have P: "par H (commit_frame (?cb k) (?cb kk) v e) r \<longleftrightarrow> par H e r \<noteq> ?B (?cb kk - ?cb k)"
    using m e by (intro par_commit) auto
  show ?thesis
  proof (cases "row_to_round l r < k")
    case True
    have "(\<Sum>q < ?cb kk - ?cb k. if v ! q then mult_at H r (?cb k + q) else 0) = 0"
      using late_column [OF geo _ _ True] m by (intro sum.neutral) auto
    then show ?thesis using P com conv r(1) True unfolding committed_def by auto
  next
    case False
    then have "round_start l k \<le> r" "r < round_start l (k + W)"
      using rl.round_of_less_iff [OF G(3), of r k] rl.round_of_less_iff [OF G(3), of r "k + W"] r kk G(4) by auto
    note E = expl [OF this]
    have "(\<Sum>q < ?cb (k + W) - ?cb k. if v ! q then mult_at H r (?cb k + q) else 0)
        = (\<Sum>q < ?cb kk - ?cb k. if v ! q then mult_at H r (?cb k + q) else 0)
          + (\<Sum>q < ?cb (k + W) - ?cb kk. if v ! (?cb kk - ?cb k + q) then mult_at H r (?cb k + (?cb kk - ?cb k + q)) else 0)"
      using sum_split [of "\<lambda>q. if v ! q then mult_at H r (?cb k + q) else 0" "?cb kk - ?cb k" "?cb (k + W) - ?cb kk"] m by simp
    also have "(\<Sum>q < ?cb (k + W) - ?cb kk. if v ! (?cb kk - ?cb k + q) then mult_at H r (?cb k + (?cb kk - ?cb k + q)) else 0) = 0"
      using late_column [OF geo _ _ r(2)] m by (intro sum.neutral) auto
    finally have "?B (?cb (k + W) - ?cb k) = ?B (?cb kk - ?cb k)" by simp
    moreover have "mods ! r = par H e r" using committed_mods [OF com r(1)] False by simp
    ultimately show ?thesis using P E by blast
  qed
qed

lemma committed_step:
  assumes geo: "geometry H l" and com: "committed H l s k e mods conv" and st: "1 \<le> st" "st \<le> W" "k + st + W \<le> rl_num_rounds l"
    and expl: "conv' \<Longrightarrow> (\<And>r. round_start l k \<le> r \<Longrightarrow> r < round_start l (k + W) \<Longrightarrow> ((1/2 \<le> s ! r) \<noteq> mods ! r)
      = odd (\<Sum>q < col_bound l (groups H) (k + W) - col_bound l (groups H) k. if v ! q then mult_at H r (col_bound l (groups H) k + q) else 0))"
  defines "a \<equiv> col_bound l (groups H) k" and "b \<equiv> col_bound l (groups H) (k + st)"
  defines "e' \<equiv> commit_frame a b v e"
  defines "mods' \<equiv> map (\<lambda>r. mods ! r \<noteq> (round_start l (k + st) \<le> r \<and> r \<le> round_start l (k + st + 1) - 1 \<and>
      odd (\<Sum>q < b - a. if e' ! (a + q) \<noteq> 0 then mult_at H r (a + q) else 0))) [0..<sbm_rows H]"
  shows "committed H l s (k + st) e' mods' (conv \<and> conv')"
proof -
  note G = geometryD [OF geo]
  have m: "a \<le> b" "b \<le> sbm_cols H" using col_bound_mono [OF G(5)] col_bound_le [of l "groups H"] G(7) by (auto simp: a_def b_def)
  have e: "length e = sbm_cols H" "\<forall>c. a \<le> c \<and> c < length e \<longrightarrow> e ! c = 0" using com by (simp_all add: committed_def a_def)
  let ?B = "\<lambda>r. odd (\<Sum>q < b - a. if v ! q then mult_at H r (a + q) else 0)"
  have P: "par H e' r \<longleftrightarrow> par H e r \<noteq> ?B r" for r unfolding e'_def using m e by (intro par_commit) auto
  have e'n: "(e' ! (a + q) \<noteq> 0) = v ! q" if "q < b - a" for q using that m e by (auto simp: e'_def commit_frame_def)
  have mods: "mods' ! r = (mods ! r \<noteq> (k + st = row_to_round l r \<and> ?B r))" if r: "r < sbm_rows H" for r
  proof -
    have "round_start l (k + st) < round_start l (k + st + 1)" using rl.start_step [OF G(3), of "k + st"] st by simp
    then have "round_start l (k + st) \<le> r \<and> r \<le> round_start l (k + st + 1) - 1 \<longleftrightarrow> row_to_round l r = k + st"
      using rl.round_of_iff [OF G(3), of r "k + st"] r G(4) st by auto
    moreover have "(\<Sum>q < b - a. if e' ! (a + q) \<noteq> 0 then mult_at H r (a + q) else 0) = (\<Sum>q < b - a. if v ! q then mult_at H r (a + q) else 0)"
      using e'n by (intro sum.cong) auto
    ultimately show ?thesis using r by (auto simp: mods'_def cong: if_cong)
  qed
  have late: "\<not> mods ! r \<and> \<not> par H e r" if "r < sbm_rows H" "k + st \<le> row_to_round l r" for r
    using com that st(1) by (simp add: committed_def)
  have far: "\<not> par H e' r" if "k + st < row_to_round l r" for r
  proof -
    have "(if e' ! c \<noteq> 0 then mult_at H r c else 0) = 0" if "c < length e'" for c
      using that early_column [OF geo, of c "k + st" r] \<open>k + st < row_to_round l r\<close> m e
      by (auto simp: e'_def commit_frame_def b_def)
    then show ?thesis unfolding par_def by simp
  qed
  show ?thesis
    unfolding committed_def
  proof (intro conjI allI impI)
    show "set e' \<subseteq> {0, 1}" unfolding e'_def using com by (intro commit_frame_bits) (simp add: committed_def)
    show "length e' = sbm_cols H" "length mods' = sbm_rows H" using e(1) by (simp_all add: e'_def commit_frame_def mods'_def)
    show "e' ! c = 0" if "col_bound l (groups H) (k + st) \<le> c \<and> c < sbm_cols H" for c
      using that e m by (simp add: e'_def commit_frame_def b_def)
    show "mods' ! r = par H e' r" if "r < sbm_rows H" "k + st = row_to_round l r" for r
      using mods [OF that(1)] late [OF that(1)] that(2) P by simp
    show "\<not> mods' ! r" if "r < sbm_rows H" "k + st < row_to_round l r" for r
      using mods [OF that(1)] late [OF that(1)] that(2) by simp
    show "\<not> par H e' r" if "r < sbm_rows H" "k + st < row_to_round l r" for r using far that(2) .
    show "par H e' r = (1/2 \<le> s ! r)" if c: "conv \<and> conv'" and "r < sbm_rows H" "row_to_round l r < k + st" for r
      unfolding e'_def a_def b_def
      by (rule commit_explains [OF geo com _ _ _ expl]) (use that st in auto)
  qed
qed

end
