(* ===== verification/QEC_Sliding_Theorems.thy ===== *)
theory QEC_Sliding_Theorems
  imports QEC_Sliding_Geometry QEC_Factory
begin

text \<open>
  Correctness of sliding-window decoding. When every error mechanism spans at most two consecutive
  rounds, windows have at least two rounds and columns are selected as by default (errors that reach
  past the end of a window belong to it, errors that start before it do not), the frame that is
  composed of the committed parts has exactly the syndrome that was decoded, provided the inner
  decoders explain the syndromes of their windows. The locale \<open>inner_decoder\<close> is what the
  sliding window relies on; it is interpreted by the lookup-table decoder.
\<close>

unbundle bit_operations_syntax

section \<open>The contract of inner decoders\<close>

definition explained_by :: "'c decoder_init \<Rightarrow> bool list \<Rightarrow> real list \<Rightarrow> bool" where
  "explained_by init m s \<longleftrightarrow> length m = di_num_error_mechanisms init \<and>
     (\<forall>r < di_num_detectors init. (1/2 \<le> s ! r)
        = odd (\<Sum>q < di_num_error_mechanisms init. if m ! q then mult_at (di_H init) r q else 0))"

abbreviation hard_bits :: "real list \<Rightarrow> bool list" where
  "hard_bits xs \<equiv> map (\<lambda>x. 1/2 \<le> x) xs"

definition built :: "('c decoder_init \<Rightarrow> 'p \<Rightarrow> bool) \<Rightarrow> sparse_binary_matrix \<Rightarrow> 'p sliding_window \<Rightarrow> bool" where
  "built good H sw \<longleftrightarrow> window_params H sw \<and> exact_setting H sw \<and>
     length (first_columns sw) = num_windows sw \<and> length (inner_decoders sw) = num_windows sw \<and>
     (\<forall>w < num_windows sw. first_columns sw ! w = col_bound (sw_layout sw) (groups H) (w * step_size sw) \<and>
        (\<exists>init. window_block H (sw_layout sw) (w * step_size sw) (w * step_size sw + window_size sw - 1) init \<and> good init (inner_decoders sw ! w)))"

lemma built_geometry: "built good H sw \<Longrightarrow> geometry H (sw_layout sw)"
  by (simp add: built_def window_params_def exact_setting_def geometry_def)

text \<open>The fields of the construction do not depend on the streaming state.\<close>

lemma built_stream:
  "built good H (sw\<lparr>window_rounds := a, rounds_since_last_reset := b, batch_size := c, num_windows_decoded := f, syndrome_mods := g, rw_results := h\<rparr>)
    = built good H sw"
  by (simp add: built_def window_params_def exact_setting_def)

lemma built_inner:
  assumes "built good H sw" "w < num_windows sw"
    "window_block H (sw_layout sw) (w * step_size sw) (w * step_size sw + window_size sw - 1) init" "good init p"
  shows "built good H (sw\<lparr>inner_decoders := (inner_decoders sw)[w := p]\<rparr>)"
  using assms by (auto simp: built_def window_params_def exact_setting_def nth_list_update)

lemma window_rounds_bound:
  assumes "built good H sw" "w < num_windows sw"
  shows "w * step_size sw + window_size sw \<le> rl_num_rounds (sw_layout sw)"
    "w + 1 < num_windows sw \<Longrightarrow> (w + 1) * step_size sw + window_size sw \<le> rl_num_rounds (sw_layout sw)"
    "w + 1 = num_windows sw \<Longrightarrow> w * step_size sw + window_size sw = rl_num_rounds (sw_layout sw)"
proof -
  have n: "rl_num_rounds (sw_layout sw) = (num_windows sw - 1) * step_size sw + window_size sw"
    using assms(1) by (simp add: built_def window_params_def)
  have "w \<le> num_windows sw - 1" using assms(2) by simp
  then show "w * step_size sw + window_size sw \<le> rl_num_rounds (sw_layout sw)" unfolding n by (intro add_mono mult_le_mono1) simp_all
  show "(w + 1) * step_size sw + window_size sw \<le> rl_num_rounds (sw_layout sw)" if "w + 1 < num_windows sw"
  proof -
    have "w + 1 \<le> num_windows sw - 1" using that by simp
    then show ?thesis unfolding n by (intro add_mono mult_le_mono1) simp_all
  qed
  show "w * step_size sw + window_size sw = rl_num_rounds (sw_layout sw)" if "w + 1 = num_windows sw"
    unfolding n that [symmetric] by simp
qed

lemma committed_start:
  assumes "geometry H l" "committed H l s 0 e mods conv" "r < sbm_rows H"
  shows "\<not> mods ! r"
proof -
  note G = geometryD [OF assms(1)]
  have "(if e ! c \<noteq> 0 then mult_at H r c else 0) = 0" if c: "c < length e" for c
  proof (cases "c < col_bound l (groups H) 0")
    case True
    then have "groups H ! c = []" using less_col_bound_iff [OF G(5), of c 0] c G(7) assms(2) by (simp add: committed_def)
    then show ?thesis using G(2) by (simp add: mult_at_def)
  qed (use assms(2) c in \<open>simp add: committed_def\<close>)
  then have "\<not> par H e r" unfolding par_def by simp
  then show ?thesis using committed_mods [OF assms(2,3)] by simp
qed

lemma commit_bits_frame:
  assumes "a \<le> b" "b - a \<le> length xs" "b \<le> length e"
  shows "commit_bits a (b - a) (convert_vec_soft_to_hard xs (1/2)) e = Inr (commit_frame a b (hard_bits xs) e)"
proof -
  have "commit_bits a (b - a) (convert_vec_soft_to_hard xs (1/2)) e = Inr (map (\<lambda>j. if a \<le> j \<and> j < a + (b - a)
      then real (unat (convert_vec_soft_to_hard xs (1/2) ! (j - a))) else e ! j) [0..<length e])"
    using assms by (intro commit_bits_eq) (simp_all add: convert_vec_soft_to_hard_def)
  also have "\<dots> = Inr (commit_frame a b (hard_bits xs) e)"
    using assms by (auto simp: commit_frame_def convert_vec_soft_to_hard_def convert_soft_to_hard_def)
  finally show ?thesis .
qed

section \<open>One window\<close>

locale inner_decoder =
  fixes create :: "string \<Rightarrow> 'c decoder_init \<Rightarrow> heterogeneous_map \<Rightarrow> 'p res"
    and inner :: "'p inner_batch" and good :: "'c decoder_init \<Rightarrow> 'p \<Rightarrow> bool"
  assumes create_good: "create name init ps = Inr p \<Longrightarrow> init_ok init \<Longrightarrow> di_has_matrices init \<Longrightarrow> good init p"
    and decode_good: "good init p \<Longrightarrow> \<forall>s \<in> set syns. length s = di_num_detectors init \<Longrightarrow>
      \<exists>rs p'. inner p syns = Inr (Some rs, p') \<and> good init p' \<and> length rs = length syns \<and>
        (\<forall>i < length syns. length (decoded (rs ! i)) = di_num_error_mechanisms init \<and>
          (converged (rs ! i) \<longrightarrow> explained_by init (hard_bits (decoded (rs ! i))) (syns ! i)))"
begin

lemma decode_good_one:
  assumes "good init p" "length x = di_num_detectors init"
  shows "\<exists>r p'. inner p [x] = Inr (Some [r], p') \<and> good init p' \<and> length (decoded r) = di_num_error_mechanisms init \<and>
    (converged r \<longrightarrow> explained_by init (hard_bits (decoded r)) x)"
proof -
  obtain rs p' where r: "inner p [x] = Inr (Some rs, p')" "good init p'" "length rs = 1"
    "length (decoded (rs ! 0)) = di_num_error_mechanisms init" "converged (rs ! 0) \<longrightarrow> explained_by init (hard_bits (decoded (rs ! 0))) x"
    using decode_good [OF assms(1), of "[x]"] assms(2) by auto
  then obtain r where "rs = [r]" by (cases rs) auto
  then show ?thesis using r by auto
qed

text \<open>What the answer of window \<open>w\<close> says about the rows of the window.\<close>

lemma window_answer:
  assumes blk: "window_block H l k (k + W - 1) init" and W: "1 \<le> W" and x: "length x = round_start l (k + W) - round_start l k"
    and X: "\<forall>i < length x. (1/2 \<le> x ! i) = ((1/2 \<le> s ! (round_start l k + i)) \<noteq> mods ! (round_start l k + i))"
    and ex: "explained_by init v x" and r: "round_start l k \<le> r" "r < round_start l (k + W)"
  shows "((1/2 \<le> s ! r) \<noteq> mods ! r)
      = odd (\<Sum>q < col_bound l (groups H) (k + W) - col_bound l (groups H) k. if v ! q then mult_at H r (col_bound l (groups H) k + q) else 0)"
proof -
  have W': "k + W - 1 + 1 = k + W" using W by simp
  have d: "di_num_detectors init = length x" "di_num_error_mechanisms init = col_bound l (groups H) (k + W) - col_bound l (groups H) k"
    using blk x unfolding window_block_def W' by simp_all
  have i: "r - round_start l k < length x" "round_start l k + (r - round_start l k) = r" using r x by simp_all
  have M: "mult_at (di_H init) (r - round_start l k) q = mult_at H r (col_bound l (groups H) k + q)" if "q < di_num_error_mechanisms init" for q
    using blk that i d(1) unfolding window_block_def by metis
  have "((1/2 \<le> s ! r) \<noteq> mods ! r) = (1/2 \<le> x ! (r - round_start l k))" using X i by simp
  also have "\<dots> = odd (\<Sum>q < di_num_error_mechanisms init. if v ! q then mult_at (di_H init) (r - round_start l k) q else 0)"
    using ex i(1) d(1) by (simp add: explained_by_def)
  also have "(\<Sum>q < di_num_error_mechanisms init. if v ! q then mult_at (di_H init) (r - round_start l k) q else 0)
      = (\<Sum>q < di_num_error_mechanisms init. if v ! q then mult_at H r (col_bound l (groups H) k + q) else 0)"
    using M by (intro sum.cong) auto
  finally show ?thesis unfolding d(2) .
qed

lemma decode_window_step:
  assumes bt: "built good H sw" and s: "length s = sbm_rows H" "set s \<subseteq> {0, 1}"
    and st: "num_windows_decoded sw < num_windows sw" "batch_size sw = 1"
      "window_rounds sw = map (layer (sw_layout sw) s) [num_windows_decoded sw * step_size sw..<num_windows_decoded sw * step_size sw + window_size sw]"
      "rw_results sw = [\<lparr>converged = conv, decoded = e, opt_results = None\<rparr>]" "syndrome_mods sw = [mods]"
    and com: "committed H (sw_layout sw) s (num_windows_decoded sw * step_size sw) e mods conv"
  shows "\<exists>p' e' mods' conv'. decode_window inner H sw = Inr (True, sw\<lparr>inner_decoders := (inner_decoders sw)[num_windows_decoded sw := p'],
        rw_results := [\<lparr>converged = conv', decoded = e', opt_results = None\<rparr>], syndrome_mods := [mods']\<rparr>) \<and>
      built good H (sw\<lparr>inner_decoders := (inner_decoders sw)[num_windows_decoded sw := p']\<rparr>) \<and>
      (num_windows_decoded sw + 1 < num_windows sw \<longrightarrow> committed H (sw_layout sw) s ((num_windows_decoded sw + 1) * step_size sw) e' mods' conv') \<and>
      (num_windows_decoded sw + 1 = num_windows sw \<longrightarrow> length e' = sbm_cols H \<and> set e' \<subseteq> {0, 1} \<and>
         (conv' \<longrightarrow> (\<forall>r < sbm_rows H. par H e' r = (1/2 \<le> s ! r))))"
proof -
  define w where "w = num_windows_decoded sw"
  define k where "k = w * step_size sw"
  let ?l = "sw_layout sw" and ?W = "window_size sw" and ?st = "step_size sw" and ?cb = "col_bound (sw_layout sw) (groups H)"
  note geo = built_geometry [OF bt] note G = geometryD [OF geo]
  have wp: "1 \<le> ?st" "?st \<le> ?W" "1 \<le> num_windows sw" using bt by (auto simp: built_def window_params_def)
  have wn: "w < num_windows sw" using st(1) by (simp add: w_def)
  note WB = window_rounds_bound [OF bt wn, folded k_def]
  have com': "committed H ?l s k e mods conv" using com by (simp add: k_def w_def)
  then have e: "length e = sbm_cols H" "length mods = sbm_rows H" "set e \<subseteq> {0, 1}" by (simp_all add: committed_def)
  obtain x where x: "window_syndrome sw 0 = Inr x" "length x = round_start ?l (k + ?W) - round_start ?l k"
    "\<forall>i < length x. (1/2 \<le> x ! i) = ((1/2 \<le> s ! (round_start ?l k + i)) \<noteq> (0 < w \<and> mods ! (round_start ?l k + i)))"
    using window_syndrome_eq [of sw s k mods] G(3,4) s st(3,5) e(2) WB(1) by (auto simp: k_def w_def)
  have rows: "round_start ?l (k + ?W) \<le> sbm_rows H"
    using rl.start_mono [OF G(3), of "k + ?W" "rl_num_rounds ?l"] rl.start_end [OF G(3)] WB(1) G(4) by simp
  have X: "\<forall>i < length x. (1/2 \<le> x ! i) = ((1/2 \<le> s ! (round_start ?l k + i)) \<noteq> mods ! (round_start ?l k + i))"
  proof (cases "w = 0")
    case True
    then have "committed H ?l s 0 e mods conv" using com' by (simp add: k_def)
    from committed_start [OF geo this] show ?thesis using x(2,3) True rows by simp
  qed (use x(3) in simp)
  obtain init where blk: "window_block H ?l k (k + ?W - 1) init" and gd: "good init (inner_decoders sw ! w)"
    using bt wn by (auto simp: built_def k_def)
  have W1: "1 \<le> ?W" using wp by simp
  have dims: "length x = di_num_detectors init" "di_num_error_mechanisms init = ?cb (k + ?W) - ?cb k"
    using blk x(2) W1 by (simp_all add: window_block_def)
  obtain i p' where i: "inner (inner_decoders sw ! w) [x] = Inr (Some [i], p')" "good init p'" "length (decoded i) = di_num_error_mechanisms init"
    "converged i \<longrightarrow> explained_by init (hard_bits (decoded i)) x"
    using decode_good_one [OF gd dims(1)] by blast
  have len: "length (inner_decoders sw) = num_windows sw" "length (first_columns sw) = num_windows sw"
    "\<And>w. w < num_windows sw \<Longrightarrow> first_columns sw ! w = ?cb (w * ?st)" using bt by (simp_all add: built_def)
  have fc: "first_columns sw ! w = ?cb k" using len(3) [OF wn] by (simp add: k_def)
  note ans = window_answer [OF blk W1 x(2) X]
  have bt': "built good H (sw\<lparr>inner_decoders := (inner_decoders sw)[w := p']\<rparr>)"
    using built_inner [OF bt wn _ i(2)] blk by (simp add: k_def)
  have mono: "?cb k \<le> ?cb (k + ?st)" "?cb (k + ?st) \<le> ?cb (k + ?W)" "?cb (k + ?W) \<le> sbm_cols H"
    using col_bound_mono [OF G(5)] wp(2) col_bound_le [of ?l "groups H"] G(7) by auto
  let ?sw1 = "sw\<lparr>inner_decoders := (inner_decoders sw)[w := p']\<rparr>"
  have pre: "rmap (window_syndrome sw) [0..<batch_size sw] = Inr [x]" "vget (inner_decoders sw) w = Inr (inner_decoders sw ! w)"
    "vget (first_columns sw) w = Inr (?cb k)" "sz_sub (num_windows sw) 1 = num_windows sw - 1"
    using st(2) x(1) wn len fc wp(3) by simp_all
  show ?thesis
  proof (cases "w + 1 < num_windows sw")
    case True
    let ?e = "commit_frame (?cb k) (?cb (k + ?st)) (hard_bits (decoded i)) e"
    let ?lo = "round_start ?l (k + ?st)" and ?hi = "round_start ?l (k + ?st + 1) - 1"
    let ?m = "map (\<lambda>r. mods ! r \<noteq> (?lo \<le> r \<and> r \<le> ?hi \<and>
        odd (\<Sum>q < ?cb (k + ?st) - ?cb k. if ?e ! (?cb k + q) \<noteq> 0 then mult_at H r (?cb k + q) else 0))) [0..<sbm_rows H]"
    have k': "(w + 1) * ?st = k + ?st" by (simp add: k_def)
    have next_fc: "vget (first_columns sw) (w + 1) = Inr (?cb (k + ?st))" using True len(2) len(3) [OF True] unfolding k' by simp
    have nat: "sz_sub (?cb (k + ?st)) (?cb k) = ?cb (k + ?st) - ?cb k" using mono by simp
    have hi: "sz_sub (round_start ?l (k + ?st + 1)) 1 = ?hi"
      using rl.start_step [OF G(3), of "k + ?st"] WB(2) [OF True] k' W1 by simp
    have cb: "commit_bits (?cb k) (?cb (k + ?st) - ?cb k) (convert_vec_soft_to_hard (decoded i) (1/2)) e = Inr ?e"
      using mono e(1) i(3) dims(2) by (intro commit_bits_frame) simp_all
    have le: "length ?e = sbm_cols H" using e(1) by (simp add: commit_frame_def)
    have bo: "back_out H ?lo ?hi (?cb k) (?cb (k + ?st) - ?cb k) ?e mods = Inr ?m"
      using G(1,2) mono e(2) le by (intro back_out_eq) (simp_all add: canonical_def)
    have "w < num_windows sw - 1" using True by simp
    then have "decode_window inner H sw = Inr (True, ?sw1\<lparr>rw_results := [\<lparr>converged = conv \<and> converged i, decoded = ?e, opt_results = None\<rparr>],
        syndrome_mods := [?m]\<rparr>)"
      unfolding decode_window_def Let_def w_def [symmetric] pre rbind_simps i(1) k' next_fc nat hi
      using st(2,4,5) cb bo next_fc by simp
    moreover have "committed H ?l s (k + ?st) ?e ?m (conv \<and> converged i)"
      by (rule committed_step [OF geo com' wp(1,2)]) (use WB(2) [OF True] k' i(4) ans in auto)
    ultimately show ?thesis using bt' True unfolding w_def [symmetric] k'
      by (intro exI [of _ p'] exI [of _ ?e] exI [of _ ?m] exI [of _ "conv \<and> converged i"]) simp
  next
    case False
    then have last: "w + 1 = num_windows sw" "w = num_windows sw - 1" using wn by simp_all
    let ?e = "commit_frame (?cb k) (?cb (k + ?W)) (hard_bits (decoded i)) e"
    have cb: "commit_bits (?cb k) (?cb (k + ?W) - ?cb k) (convert_vec_soft_to_hard (decoded i) (1/2)) e = Inr ?e"
      using mono e(1) i(3) dims(2) by (intro commit_bits_frame) simp_all
    have "length (convert_vec_soft_to_hard (decoded i) (1/2)) = ?cb (k + ?W) - ?cb k"
      using i(3) dims(2) by (simp add: convert_vec_soft_to_hard_def)
    then have "decode_window inner H sw = Inr (True, ?sw1\<lparr>rw_results := [\<lparr>converged = conv \<and> converged i, decoded = ?e, opt_results = None\<rparr>]\<rparr>)"
      unfolding decode_window_def Let_def w_def [symmetric] pre rbind_simps i(1)
      using st(2,4,5) cb last(2) by simp
    then have "decode_window inner H sw = Inr (True, ?sw1\<lparr>rw_results := [\<lparr>converged = conv \<and> converged i, decoded = ?e, opt_results = None\<rparr>],
        syndrome_mods := [mods]\<rparr>)"
      using st(5) by simp
    moreover have "par H ?e r = (1/2 \<le> s ! r)" if c: "conv \<and> converged i" and r: "r < sbm_rows H" for r
    proof (rule commit_explains [OF geo com' _ _ WB(1)])
      show "row_to_round ?l r < k + ?W" using rl.round_of_row [OF G(3), of r] r G(4) WB(3) [OF last(1)] by simp
    qed (use c r i(4) ans in auto)
    moreover have "length ?e = sbm_cols H" "set ?e \<subseteq> {0, 1}" using e commit_frame_bits [OF e(3)] by (simp_all add: commit_frame_def)
    ultimately show ?thesis using bt' last(1) unfolding w_def [symmetric]
      by (intro exI [of _ p'] exI [of _ ?e] exI [of _ mods] exI [of _ "conv \<and> converged i"]) simp
  qed
qed

end

section \<open>The stream\<close>

text \<open>The decoder \<open>d\<close> has received the first \<open>k\<close> detector layers of the syndrome \<open>s\<close>.\<close>

definition sizes_ok :: "('c, 'p sliding_window) decoder \<Rightarrow> bool" where
  "sizes_ok d \<longleftrightarrow> syndrome_size d = sbm_rows (di_H (inputs d)) \<and> block_size d = sbm_cols (di_H (inputs d))"

definition stream_at :: "('c decoder_init \<Rightarrow> 'p \<Rightarrow> bool) \<Rightarrow> real list \<Rightarrow> nat \<Rightarrow> ('c, 'p sliding_window) decoder \<Rightarrow> bool" where
  "stream_at good s k d \<longleftrightarrow> (let sw = plugin d; H = di_H (inputs d); a = num_windows_decoded sw * step_size sw in
     built good H sw \<and> sizes_ok d \<and> rounds_since_last_reset sw = k \<and> batch_size sw = 1 \<and>
     num_windows_decoded sw < num_windows sw \<and> a \<le> k \<and> k < a + window_size sw \<and> window_rounds sw = map (layer (sw_layout sw) s) [a..<k] \<and>
     (\<exists>e mods conv. rw_results sw = [\<lparr>converged = conv, decoded = e, opt_results = None\<rparr>] \<and> syndrome_mods sw = [mods] \<and>
        committed H (sw_layout sw) s a e mods conv))"

definition sw_ready :: "('c decoder_init \<Rightarrow> 'p \<Rightarrow> bool) \<Rightarrow> ('c, 'p sliding_window) decoder \<Rightarrow> bool" where
  "sw_ready good d \<longleftrightarrow> built good (di_H (inputs d)) (plugin d) \<and> sizes_ok d \<and> rounds_since_last_reset (plugin d) = 0"

lemma stream_start:
  assumes "sw_ready good d"
  shows "stream_at good s 0 (initialize_window 1 d)"
proof -
  let ?H = "di_H (inputs d)"
  have bt: "built good ?H (plugin d)" "sizes_ok d" using assms by (simp_all add: sw_ready_def)
  have "\<not> par ?H (replicate n 0) r" for n r by (simp add: par_def)
  then have "committed ?H (sw_layout (plugin d)) s 0 (replicate (block_size d) 0) (replicate (syndrome_size d) False) True"
    using bt(2) by (auto simp: committed_def sizes_ok_def)
  moreover have "built good ?H (plugin (initialize_window 1 d))"
    using bt(1) by (simp add: initialize_window_def built_def window_params_def exact_setting_def)
  moreover have "0 < num_windows (plugin d)" "0 < window_size (plugin d)" using bt(1) by (auto simp: built_def window_params_def)
  ultimately show ?thesis using bt(2) unfolding stream_at_def initialize_window_def Let_def sizes_ok_def
    by (intro conjI exI [of _ "replicate (block_size d) 0"] exI [of _ "replicate (syndrome_size d) False"] exI [of _ True]) simp_all
qed

lemma layer_width:
  assumes "layout_ok l" "length s = rl_num_rows l" "k < rl_num_rounds l"
  shows "\<forall>x \<in> set (layer l s k). length x = round_width l k"
proof -
  have "round_start l k + round_width l k = round_start l (Suc k)"
    using rl.start_step [OF assms(1,3)] by (simp add: round_width_def)
  moreover have "round_start l (Suc k) \<le> length s"
    using rl.start_mono [OF assms(1), of "Suc k" "rl_num_rounds l"] rl.start_end [OF assms(1)] assms by simp
  ultimately show ?thesis by (simp add: layer_def)
qed

context inner_decoder
begin

lemma feed_layer_step:
  assumes sa: "stream_at good s k d" and s: "length s = syndrome_size d" "set s \<subseteq> {0, 1}" and k: "k < rl_num_rounds (sw_layout (plugin d))"
    and out: "output_primary d = Errors"
  shows "\<exists>answer d'. feed_layer inner (layer (sw_layout (plugin d)) s k) d = Inr (Some answer, d') \<and> d' = d\<lparr>plugin := plugin d'\<rparr> \<and>
    sw_layout (plugin d') = sw_layout (plugin d) \<and>
    (k + 1 < rl_num_rounds (sw_layout (plugin d)) \<longrightarrow> answer = [] \<and> stream_at good s (k + 1) d') \<and>
    (k + 1 = rl_num_rounds (sw_layout (plugin d)) \<longrightarrow> sw_ready good d' \<and> (\<exists>e conv. answer = [\<lparr>converged = conv, decoded = e, opt_results = None\<rparr>] \<and>
       length e = block_size d \<and> set e \<subseteq> {0, 1} \<and> (conv \<longrightarrow> (\<forall>r < syndrome_size d. par (di_H (inputs d)) e r = (1/2 \<le> s ! r)))))"
proof -
  define sw where "sw = plugin d"
  define a where "a = num_windows_decoded sw * step_size sw"
  let ?H = "di_H (inputs d)" and ?l = "sw_layout sw" and ?n = "num_windows_decoded sw"
  obtain e mods conv where S: "built good ?H sw" "sizes_ok d" "rounds_since_last_reset sw = k" "batch_size sw = 1" "?n < num_windows sw"
      "a \<le> k" "k < a + window_size sw" "window_rounds sw = map (layer ?l s) [a..<k]"
      "rw_results sw = [\<lparr>converged = conv, decoded = e, opt_results = None\<rparr>]" "syndrome_mods sw = [mods]" "committed ?H ?l s a e mods conv"
    using sa unfolding stream_at_def Let_def sw_def [symmetric] a_def [symmetric] by blast
  note G = geometryD [OF built_geometry [OF S(1)]]
  note WB = window_rounds_bound [OF S(1,5), folded a_def]
  have sH: "length s = sbm_rows ?H" "block_size d = sbm_cols ?H" "syndrome_size d = sbm_rows ?H" using s(1) S(2) by (simp_all add: sizes_ok_def)
  let ?sw1 = "sw\<lparr>window_rounds := map (layer ?l s) [a..<k + 1], rounds_since_last_reset := k + 1\<rparr>"
  have feed: "feed_layer inner (layer ?l s k) d = (if k + 1 < a + window_size sw then Inr (Some [], d\<lparr>plugin := ?sw1\<rparr>)
      else rbind (decode_window inner ?H ?sw1) (\<lambda>(complete, sw2).
          if \<not> complete then Inr (None, d\<lparr>plugin := reset_stream sw2\<rparr>)
          else
            let sw3 = sw2\<lparr>num_windows_decoded := num_windows_decoded sw2 + 1\<rparr> in
            if num_windows_decoded sw3 = num_windows sw3
            then rbind (finish_results d (rw_results sw3)) (\<lambda>results. Inr (Some results, d\<lparr>plugin := reset_stream sw3\<rparr>))
            else if length (window_rounds sw3) < step_size sw3 then Inl Undefined_behaviour
            else Inr (Some [], d\<lparr>plugin := sw3\<lparr>window_rounds := drop (step_size sw3) (window_rounds sw3)\<rparr>\<rparr>)))"
  proof -
    have "\<not> list_ex (\<lambda>r. length r \<noteq> round_width ?l k) (layer ?l s k)"
      using layer_width [OF G(3), of s k] k G(4) sH(1) by (auto simp: list_ex_iff sw_def)
    moreover have "length (layer ?l s k) = 1" by (simp add: layer_def)
    moreover have "window_rounds sw @ [layer ?l s k] = map (layer ?l s) [a..<k + 1]" using S(6,8) by simp
    moreover have "k + 1 - a < window_size sw \<longleftrightarrow> k + 1 < a + window_size sw" using S(6) by linarith
    ultimately show ?thesis using S(3,4,6) unfolding feed_layer_def Let_def sw_def [symmetric] by (simp del: upt_Suc)
  qed
  show ?thesis
  proof (cases "k + 1 < a + window_size sw")
    case True
    have "built good ?H ?sw1" using S(1) by (simp add: built_def window_params_def exact_setting_def)
    then have "stream_at good s (k + 1) (d\<lparr>plugin := ?sw1\<rparr>)"
      using S True unfolding stream_at_def Let_def sizes_ok_def by (simp add: a_def del: upt_Suc)
    then show ?thesis using feed True WB(1) unfolding sw_def [symmetric]
      by (intro exI [of _ "[]"] exI [of _ "d\<lparr>plugin := ?sw1\<rparr>"]) simp
  next
    case False
    then have k1: "k + 1 = a + window_size sw" using S(7) by simp
    have bt1: "built good ?H ?sw1" using S(1) by (simp add: built_def window_params_def exact_setting_def)
    obtain p' e' mods' conv' where D: "decode_window inner ?H ?sw1 = Inr (True, ?sw1\<lparr>inner_decoders := (inner_decoders sw)[?n := p'],
          rw_results := [\<lparr>converged = conv', decoded = e', opt_results = None\<rparr>], syndrome_mods := [mods']\<rparr>)"
        "built good ?H (?sw1\<lparr>inner_decoders := (inner_decoders sw)[?n := p']\<rparr>)"
        "?n + 1 < num_windows sw \<longrightarrow> committed ?H ?l s ((?n + 1) * step_size sw) e' mods' conv'"
        "?n + 1 = num_windows sw \<longrightarrow> length e' = sbm_cols ?H \<and> set e' \<subseteq> {0, 1} \<and> (conv' \<longrightarrow> (\<forall>r < sbm_rows ?H. par ?H e' r = (1/2 \<le> s ! r)))"
      using decode_window_step [OF bt1 sH(1) s(2), of conv e mods] S k1 by (auto simp: a_def simp del: upt_Suc)
    let ?sw3 = "?sw1\<lparr>inner_decoders := (inner_decoders sw)[?n := p'], rw_results := [\<lparr>converged = conv', decoded = e', opt_results = None\<rparr>],
          syndrome_mods := [mods'], num_windows_decoded := ?n + 1\<rparr>"
    show ?thesis
    proof (cases "?n + 1 = num_windows sw")
      case True
      have "sw_ready good (d\<lparr>plugin := reset_stream ?sw3\<rparr>)"
        using D(2) S(2) by (simp add: sw_ready_def reset_stream_def sizes_ok_def built_def window_params_def exact_setting_def)
      then show ?thesis using feed False D(1,4) True out WB(3) [OF True] k1 sH unfolding sw_def [symmetric]
        by (intro exI [of _ "[\<lparr>converged = conv', decoded = e', opt_results = None\<rparr>]"] exI [of _ "d\<lparr>plugin := reset_stream ?sw3\<rparr>"])
          (simp add: finish_results_def reset_stream_def del: upt_Suc)
    next
      case False2: False
      then have n1: "?n + 1 < num_windows sw" using S(5) by simp
      have a': "(?n + 1) * step_size sw = a + step_size sw" by (simp add: a_def)
      have wp: "1 \<le> step_size sw" "step_size sw \<le> window_size sw" using S(1) by (auto simp: built_def window_params_def)
      let ?sw4 = "?sw3\<lparr>window_rounds := map (layer ?l s) [a + step_size sw..<k + 1]\<rparr>"
      have dr: "drop (step_size sw) (map (layer ?l s) [a..<k + 1]) = map (layer ?l s) [a + step_size sw..<k + 1]"
        by (simp add: drop_map del: upt_Suc)
      have "built good ?H ?sw4" using D(2) by (simp add: built_def window_params_def exact_setting_def)
      then have "stream_at good s (k + 1) (d\<lparr>plugin := ?sw4\<rparr>)"
        using D(3) n1 a' k1 wp S(2,4) unfolding stream_at_def Let_def sizes_ok_def by (simp add: add.commute [of a] del: upt_Suc)
      moreover have "feed_layer inner (layer ?l s k) d = Inr (Some [], d\<lparr>plugin := ?sw4\<rparr>)"
        using feed False D(1) n1 dr k1 wp by (simp del: upt_Suc)
      moreover have "k + 1 < rl_num_rounds ?l" using WB(2) [OF n1] a' k1 wp by simp
      ultimately show ?thesis unfolding sw_def [symmetric]
        by (intro exI [of _ "[]"] exI [of _ "d\<lparr>plugin := ?sw4\<rparr>"]) simp
    qed
  qed
qed

text \<open>Before the first layer the window is initialised; afterwards the stream goes on.\<close>

lemma decode_layer_step:
  assumes sa: "if k = 0 then sw_ready good d else stream_at good s k d" and s: "length s = syndrome_size d" "set s \<subseteq> {0, 1}"
    and k: "k < rl_num_rounds (sw_layout (plugin d))" and out: "output_primary d = Errors"
  shows "\<exists>answer d'. decode_layer inner (layer (sw_layout (plugin d)) s k) d = Inr (Some answer, d') \<and> d' = d\<lparr>plugin := plugin d'\<rparr> \<and>
    sw_layout (plugin d') = sw_layout (plugin d) \<and>
    (k + 1 < rl_num_rounds (sw_layout (plugin d)) \<longrightarrow> answer = [] \<and> stream_at good s (k + 1) d') \<and>
    (k + 1 = rl_num_rounds (sw_layout (plugin d)) \<longrightarrow> sw_ready good d' \<and> (\<exists>e conv. answer = [\<lparr>converged = conv, decoded = e, opt_results = None\<rparr>] \<and>
       length e = block_size d \<and> set e \<subseteq> {0, 1} \<and> (conv \<longrightarrow> (\<forall>r < syndrome_size d. par (di_H (inputs d)) e r = (1/2 \<le> s ! r)))))"
proof -
  define d0 where "d0 = (if k = 0 then initialize_window 1 d else d)"
  have at: "stream_at good s k d0" using sa stream_start by (auto simp: d0_def)
  have f: "syndrome_size d0 = syndrome_size d" "block_size d0 = block_size d" "inputs d0 = inputs d" "output_primary d0 = output_primary d"
    "sw_layout (plugin d0) = sw_layout (plugin d)" "d0\<lparr>plugin := p\<rparr> = d\<lparr>plugin := p\<rparr>" for p
    by (simp_all add: d0_def initialize_window_def)
  have "rounds_since_last_reset (plugin d) = k" using sa by (auto simp: sw_ready_def stream_at_def Let_def split: if_splits)
  then have "decode_layer inner (layer (sw_layout (plugin d)) s k) d = feed_layer inner (layer (sw_layout (plugin d)) s k) d0"
    by (simp add: decode_layer_def d0_def layer_def)
  then show ?thesis using feed_layer_step [OF at] s k out unfolding f by simp
qed

lemma decode_layers_stream:
  assumes "if k = 0 then sw_ready good d else stream_at good s k d" "length s = syndrome_size d" "set s \<subseteq> {0, 1}"
    "k < rl_num_rounds (sw_layout (plugin d))" "output_primary d = Errors"
  shows "\<exists>e conv d'. decode_layers inner (map (layer (sw_layout (plugin d)) s) [k..<rl_num_rounds (sw_layout (plugin d))]) res d
      = Inr (Some [\<lparr>converged = conv, decoded = e, opt_results = None\<rparr>], d') \<and> d' = d\<lparr>plugin := plugin d'\<rparr> \<and> sw_ready good d' \<and>
      length e = block_size d \<and> set e \<subseteq> {0, 1} \<and> (conv \<longrightarrow> (\<forall>r < syndrome_size d. par (di_H (inputs d)) e r = (1/2 \<le> s ! r)))"
  using assms
proof (induction "rl_num_rounds (sw_layout (plugin d)) - k" arbitrary: k res d)
  case (Suc n)
  let ?l = "sw_layout (plugin d)"
  obtain answer d' where D: "decode_layer inner (layer ?l s k) d = Inr (Some answer, d')" "d' = d\<lparr>plugin := plugin d'\<rparr>" "sw_layout (plugin d') = ?l"
      "k + 1 < rl_num_rounds ?l \<longrightarrow> answer = [] \<and> stream_at good s (k + 1) d'"
      "k + 1 = rl_num_rounds ?l \<longrightarrow> sw_ready good d' \<and> (\<exists>e conv. answer = [\<lparr>converged = conv, decoded = e, opt_results = None\<rparr>] \<and>
       length e = block_size d \<and> set e \<subseteq> {0, 1} \<and> (conv \<longrightarrow> (\<forall>r < syndrome_size d. par (di_H (inputs d)) e r = (1/2 \<le> s ! r))))"
    using decode_layer_step [OF Suc.prems] by blast
  obtain p where p: "d' = d\<lparr>plugin := p\<rparr>" using D(2) by blast
  have upt: "[k..<rl_num_rounds ?l] = k # [k + 1..<rl_num_rounds ?l]" using Suc.prems(4) by (simp add: upt_conv_Cons)
  have step: "decode_layers inner (map (layer ?l s) [k..<rl_num_rounds ?l]) res d
      = decode_layers inner (map (layer ?l s) [k + 1..<rl_num_rounds ?l]) (Some answer) d'"
    unfolding upt list.map decode_layers.simps D(1) rbind_simps by simp
  show ?case
  proof (cases "k + 1 = rl_num_rounds ?l")
    case True
    then show ?thesis using step D(2,5) by auto
  next
    case False
    then have k1: "k + 1 < rl_num_rounds ?l" using Suc.prems(4) by simp
    have "\<exists>e conv d''. decode_layers inner (map (layer (sw_layout (plugin d')) s) [k + 1..<rl_num_rounds (sw_layout (plugin d'))]) (Some answer) d'
      = Inr (Some [\<lparr>converged = conv, decoded = e, opt_results = None\<rparr>], d'') \<and> d'' = d'\<lparr>plugin := plugin d''\<rparr> \<and> sw_ready good d'' \<and>
      length e = block_size d' \<and> set e \<subseteq> {0, 1} \<and> (conv \<longrightarrow> (\<forall>r < syndrome_size d'. par (di_H (inputs d')) e r = (1/2 \<le> s ! r)))"
      by (rule Suc.hyps(1)) (use Suc.hyps(2) Suc.prems D(3,4) k1 p in simp_all)
    then show ?thesis unfolding D(3) step using p by auto
  qed
qed simp

lemma sw_decode_ready:
  assumes rd: "sw_ready good d" and s: "length s = syndrome_size d" "set s \<subseteq> {0, 1}" and out: "output_primary d = Errors"
  shows "\<exists>r d'. sw_decode inner s d = Inr (Some r, d') \<and> d' = d\<lparr>plugin := plugin d'\<rparr> \<and> sw_ready good d' \<and> length (decoded r) = block_size d \<and>
    set (decoded r) \<subseteq> {0, 1} \<and> (converged r \<longrightarrow> (\<forall>i < syndrome_size d. par (di_H (inputs d)) (decoded r) i = (1/2 \<le> s ! i)))"
proof -
  let ?l = "sw_layout (plugin d)"
  have bt: "built good (di_H (inputs d)) (plugin d)" "sizes_ok d" using rd by (simp_all add: sw_ready_def)
  note G = geometryD [OF built_geometry [OF bt(1)]]
  have n: "num_detector_layers (plugin d) = rl_num_rounds ?l" "2 \<le> rl_num_rounds ?l"
    using bt(1) by (auto simp: built_def window_params_def exact_setting_def)
  have W: "round_width ?l r \<noteq> syndrome_size d" if r: "r < rl_num_rounds ?l" for r
  proof -
    have st: "round_start ?l r + round_width ?l r = round_start ?l (Suc r)" using rl.start_step [OF G(3) r] by (simp add: round_width_def)
    have tot: "round_start ?l (rl_num_rounds ?l) = syndrome_size d" using rl.start_end [OF G(3)] G(4) bt(2) by (simp add: sizes_ok_def)
    have z: "round_start ?l 0 < round_start ?l r" if "0 < r" using rl.start_less [OF G(3), of 0 r] that r by simp
    have "round_start ?l (Suc r) < round_start ?l (rl_num_rounds ?l)" if "r = 0"
      using rl.start_less [OF G(3), of "Suc r" "rl_num_rounds ?l"] that n(2) by simp
    moreover have "round_start ?l (Suc r) \<le> round_start ?l (rl_num_rounds ?l)" using rl.start_mono [OF G(3), of "Suc r" "rl_num_rounds ?l"] r by simp
    ultimately show ?thesis using st tot z by (cases "r = 0") auto
  qed
  have "\<not> list_ex (\<lambda>r. round_width ?l r = syndrome_size d) [0..<num_detector_layers (plugin d)]" using W n(1) by (auto simp: list_ex_iff)
  moreover have "map (\<lambda>r. map (\<lambda>s. vslice (round_start ?l r) (round_start ?l r + round_width ?l r) s) [s]) [0..<num_detector_layers (plugin d)]
      = map (layer ?l s) [0..<rl_num_rounds ?l]" using n(1) by (simp add: layer_def)
  ultimately have "sw_decode_batch inner [s] d = decode_layers inner (map (layer ?l s) [0..<rl_num_rounds ?l]) None d"
    unfolding sw_decode_batch_def Let_def using s(1) by simp
  moreover obtain e conv d' where "decode_layers inner (map (layer ?l s) [0..<rl_num_rounds ?l]) None d
      = Inr (Some [\<lparr>converged = conv, decoded = e, opt_results = None\<rparr>], d')" "d' = d\<lparr>plugin := plugin d'\<rparr>" "sw_ready good d'"
      "length e = block_size d" "set e \<subseteq> {0, 1}" "conv \<longrightarrow> (\<forall>r < syndrome_size d. par (di_H (inputs d)) e r = (1/2 \<le> s ! r))"
    using decode_layers_stream [of 0 d s None] rd s out n(2) by auto
  ultimately show ?thesis
    by (intro exI [of _ "\<lparr>converged = conv, decoded = e, opt_results = None\<rparr>"] exI [of _ d']) (simp add: sw_decode_def)
qed

end

end
