(* ===== verification/QEC_Sliding_Exact.thy ===== *)
theory QEC_Sliding_Exact
  imports QEC_Sliding_Theorems "HOL-Library.Code_Target_Nat"
begin

text \<open>
  The constructor of the sliding-window decoder establishes what decoding relies on, and the
  lookup-table decoder, created through the factory, is an inner decoder in the sense of the
  contract. Together: whole shots decoded through windows of lookup-table decoders have the
  syndromes that were measured.
\<close>

section \<open>Construction\<close>

lemma rfold_invariant:
  "rfold f xs s = Inr s' \<Longrightarrow> P s \<Longrightarrow> (\<And>x s s'. P s \<Longrightarrow> f x s = Inr s' \<Longrightarrow> P s') \<Longrightarrow> P s'"
  by (induction xs arbitrary: s) (auto simp: rbind_Inr_iff)

lemma canonicalize_H_fields:
  assumes "init_ok init" "di_has_matrices init" "di_chunks init = None" "canonicalize_H init = Inr st"
  shows "init_ok st" "canonical (di_H st)" "di_has_matrices st" "di_num_detectors st = di_num_detectors init"
    "di_num_error_mechanisms st = di_num_error_mechanisms init"
    "\<And>r c. r < di_num_detectors init \<Longrightarrow> c < di_num_error_mechanisms init \<Longrightarrow> mult_at (di_H st) r c = mult_at (di_H init) r c mod 2"
proof -
  show ok: "init_ok st" "canonical (di_H st)"
    "\<And>r c. r < di_num_detectors init \<Longrightarrow> c < di_num_error_mechanisms init \<Longrightarrow> mult_at (di_H st) r c = mult_at (di_H init) r c mod 2"
    using canonicalize_H_ok [OF assms(1-3)] assms(4) by auto
  have H: "sbm_ok (di_H init)" "sbm_layout (di_H init) = CSC" "sbm_rows (di_H init) = di_num_detectors init"
    "sbm_cols (di_H init) = di_num_error_mechanisms init" using assms(1,2) by (simp_all add: init_ok_def)
  note R = reduced_props [OF H(1)]
  have "make_matrix_state (di_source init) (reduced (di_H init)) (di_O init) (di_rates init) (di_ids init) (di_D init) (di_raw_stim_dem init) = Inr st"
    using assms(3,4) R H(2) by (simp add: canonicalize_H_def canonicalize_eq_reduced [OF H(1)] to_csc_def)
  then show "di_has_matrices st" "di_num_detectors st = di_num_detectors init" "di_num_error_mechanisms st = di_num_error_mechanisms init"
    using R H by (auto simp: make_matrix_state_def Let_def rbind_Inr_iff to_csc_def)
qed

lemma validate_inputsD:
  assumes "validate_inputs H sw = Inr u" "sw_S sw \<noteq> 0"
  shows "sw_B sw \<le> sw_S sw" "2 * sw_S sw \<le> sbm_rows H" "(sbm_rows H - 2 * sw_B sw) mod sw_S sw = 0"
    "1 \<le> window_size sw" "window_size sw \<le> num_detector_layers sw" "1 \<le> step_size sw" "step_size sw \<le> window_size sw"
    "(num_detector_layers sw - window_size sw) mod step_size sw = 0" "pcm_is_sorted_boundary (to_nested_csc H) (sw_S sw) (sw_B sw) = Inr True"
  using assms by (auto simp: validate_inputs_def Let_def rbind_Inr_iff split: if_splits)

text \<open>The steps of a construction that succeeds.\<close>

lemma sliding_window_newE:
  assumes new: "sliding_window_new oc create init rq params = Inr (d :: ('c, 'p sliding_window) decoder)"
  obtains st b H d1 sw2 sw3 where "canonicalize_H init = Inr st" "decoder_new oc st (primary rq) (sw_defaults :: 'p sliding_window) = Inr b"
    "init_detector_error_matrix (inputs b) = Inr H" "round_layout_new (sw_S sw2) (sw_B sw2) (sbm_rows H) = Inr (sw_layout sw2)"
    "sw_S sw2 \<noteq> 0" "sw_B sw2 \<noteq> 0" "validate_inputs H sw2 = Inr ()" "num_detector_layers sw2 = rl_num_rounds (sw_layout sw2)"
    "num_windows sw2 = sz_sub (rl_num_rounds (sw_layout sw2)) (window_size sw2) div step_size sw2 + 1"
    "first_columns sw2 = []" "inner_decoders sw2 = []" "rounds_since_last_reset sw2 = 0" "window_rounds sw2 = []" "num_windows_decoded sw2 = 0"
    "d1 = b \<or> initialize_streaming_layout (sw_S sw2) (map (round_start (sw_layout sw2)) [0..<rl_num_rounds (sw_layout sw2) + 1]) b = Inr d1"
    "rfold (add_window create (inputs b) H) [0..<num_windows sw2] sw2 = Inr sw3" "d = d1\<lparr>plugin := sw3\<rparr>"
proof -
  obtain st b H rates where st: "canonicalize_H init = Inr st" "decoder_new oc st (primary rq) (sw_defaults :: 'p sliding_window) = Inr b"
    "init_detector_error_matrix (inputs b) = Inr H" "init_error_rates (inputs b) = Inr rates"
    using new by (auto simp: sliding_window_new_def rbind_Inr_iff split: if_splits)
  have pb: "plugin b = sw_defaults" using st(2) by (auto simp: decoder_new_def Let_def rbind_Inr_iff reset_decoder_def)
  define sw0 where "sw0 = read_params params rates (plugin b)"
  define sw1 where "sw1 = (if sw_B sw0 = 0 then sw0\<lparr>sw_B := sw_S sw0\<rparr> else sw0)"
  note new' = new [unfolded sliding_window_new_def st rbind_simps Let_def, folded sw0_def, folded sw1_def]
  from new' obtain l where l: "round_layout_new (sw_S sw1) (sw_B sw1) (sbm_rows H) = Inr l" and S: "sw_S sw0 \<noteq> 0"
    by (auto simp: rbind_Inr_iff simp del: upt_Suc split: if_splits)
  define sw2 where "sw2 = sw1\<lparr>sw_layout := l, num_detector_layers := rl_num_rounds l,
                         num_windows := sz_sub (rl_num_rounds l) (window_size sw1) div step_size sw1 + 1\<rparr>"
  from new' [unfolded l rbind_simps, folded sw2_def] obtain d1 sw3 where val: "validate_inputs H sw2 = Inr ()"
    and d1: "d1 = b \<or> initialize_streaming_layout (sw_S sw2) (map (round_start l) [0..<rl_num_rounds l + 1]) b = Inr d1"
    and loop: "rfold (add_window create (inputs b) H) [0..<num_windows sw2] sw2 = Inr sw3" and d: "d = d1\<lparr>plugin := sw3\<rparr>"
    by (auto simp: rbind_Inr_iff simp del: upt_Suc split: if_splits)
  have sw2: "sw_S sw2 \<noteq> 0" "sw_B sw2 \<noteq> 0" "first_columns sw2 = []" "inner_decoders sw2 = []" "rounds_since_last_reset sw2 = 0"
    "window_rounds sw2 = []" "num_windows_decoded sw2 = 0"
    using S pb by (simp_all add: sw2_def sw1_def sw0_def read_params_def sw_defaults_def)
  show thesis by (rule that [OF st(1-3) _ sw2(1,2) val _ _ sw2(3-7) _ loop d]) (use l d1 in \<open>simp_all add: sw2_def del: upt_Suc\<close>)
qed

lemma add_windows_fields:
  assumes "rfold (add_window create init H) ws sw = Inr sw'"
  shows "\<exists>fcs ps. sw' = sw\<lparr>first_columns := fcs, inner_decoders := ps\<rparr>"
  using assms
proof (rule rfold_invariant)
  fix w s s' assume "\<exists>fcs ps. s = sw\<lparr>first_columns := fcs, inner_decoders := ps\<rparr>" "add_window create init H w s = Inr s'"
  then obtain fcs ps where "s' = sw\<lparr>first_columns := fcs, inner_decoders := ps\<rparr>" by (auto simp: add_window_def rbind_Inr_iff)
  then show "\<exists>fcs ps. s' = sw\<lparr>first_columns := fcs, inner_decoders := ps\<rparr>" by blast
qed (intro exI [of _ "first_columns sw"] exI [of _ "inner_decoders sw"], simp)

lemma window_paramsI:
  assumes H: "canonical H" "sbm_layout H = CSC" and new: "round_layout_new (sw_S sw) (sw_B sw) (sbm_rows H) = Inr (sw_layout sw)"
    and SB: "sw_S sw \<noteq> 0" "sw_B sw \<noteq> 0" and val: "validate_inputs H sw = Inr u"
    and n: "num_detector_layers sw = rl_num_rounds (sw_layout sw)"
      "num_windows sw = sz_sub (rl_num_rounds (sw_layout sw)) (window_size sw) div step_size sw + 1"
  shows "window_params H sw"
proof -
  note V = validate_inputsD [OF val SB(1)]
  have ok: "sbm_ok H" using H(1) by (simp add: canonical_def)
  have "sw_S sw dvd sbm_rows H - 2 * sw_B sw" using V(3) by auto
  moreover have "sw_S sw dvd sbm_rows H" if "sw_B sw = sw_S sw"
  proof -
    have "sw_S sw dvd (sbm_rows H - 2 * sw_S sw) + 2 * sw_S sw" using calculation that by (intro dvd_add) simp_all
    then show ?thesis using V(2) by simp
  qed
  ultimately have lp: "layout_params_ok (sw_S sw) (sw_B sw) (sbm_rows H)" using SB V(1,2) by (auto simp: layout_params_ok_def)
  then have l: "layout_ok (sw_layout sw)" "rl_num_rows (sw_layout sw) = sbm_rows H" using round_layout_new_ok [OF lp] new by auto
  have "to_nested_csc H = groups H" using to_nested_csc_groups [OF ok] H(2) by (simp add: to_csc_def)
  moreover have "\<forall>col \<in> set (groups H). \<forall>r \<in> set col. r < sbm_rows H"
    using groups_bound [OF ok] H(2) by (auto simp: index_bound_def)
  moreover have "length (groups H) \<le> max_u32" using ok H(2) by (simp add: sbm_ok_def num_groups_def)
  ultimately have "rounds_sorted (sw_layout sw) (groups H)" using pcm_sorted_rounds [OF _ lp new SB(2)] V(9) by simp
  moreover have "num_detector_layers sw = (num_windows sw - 1) * step_size sw + window_size sw"
    using V(5,8) n by auto
  ultimately show ?thesis using H l n V new SB unfolding window_params_def by simp
qed

text \<open>A sequence of shots, one whole syndrome each.\<close>

fun sw_shots ::
  "'p inner_batch \<Rightarrow> real list list \<Rightarrow> ('c, 'p sliding_window) decoder \<Rightarrow> (decoder_result option list \<times> ('c, 'p sliding_window) decoder) res" where
  "sw_shots inner [] d = Inr ([], d)"
| "sw_shots inner (s # shots) d =
     rbind (sw_decode inner s d) (\<lambda>(r, d1). rbind (sw_shots inner shots d1) (\<lambda>(rs, d2). Inr (r # rs, d2)))"

context inner_decoder
begin

lemma add_windows:
  assumes "window_params H sw" "exact_setting H sw" "first_columns sw = []" "inner_decoders sw = []" "n \<le> num_windows sw"
    "rfold (add_window create init H) [0..<n] sw = Inr sw'"
  shows "\<exists>fcs ps. sw' = sw\<lparr>first_columns := fcs, inner_decoders := ps\<rparr> \<and> length fcs = n \<and> length ps = n \<and>
    (\<forall>w < n. fcs ! w = col_bound (sw_layout sw) (groups H) (w * step_size sw) \<and>
       (\<exists>ii. window_block H (sw_layout sw) (w * step_size sw) (w * step_size sw + window_size sw - 1) ii \<and> good ii (ps ! w)))"
  using assms(5,6)
proof (induction n arbitrary: sw')
  case 0
  then show ?case using assms(3,4) by (intro exI [of _ "[]"]) simp
next
  case (Suc n)
  obtain sw1 where r: "rfold (add_window create init H) [0..<n] sw = Inr sw1" "add_window create init H n sw1 = Inr sw'"
    using Suc.prems(2) by (auto simp: rfold_append rbind_Inr_iff)
  obtain fcs ps where f: "sw1 = sw\<lparr>first_columns := fcs, inner_decoders := ps\<rparr>" "length fcs = n" "length ps = n"
    "\<forall>w < n. fcs ! w = col_bound (sw_layout sw) (groups H) (w * step_size sw) \<and>
       (\<exists>ii. window_block H (sw_layout sw) (w * step_size sw) (w * step_size sw + window_size sw - 1) ii \<and> good ii (ps ! w))"
    using Suc.IH [OF _ r(1)] Suc.prems(1) by auto
  obtain fc ii p where w: "window_input init H sw1 n = Inr (fc, ii)" "create (inner_decoder_name sw1) ii (inner_decoder_params sw1) = Inr p"
    and sw': "sw' = sw1\<lparr>first_columns := first_columns sw1 @ [fc], inner_decoders := inner_decoders sw1 @ [p]\<rparr>"
    using r(2) by (auto simp: add_window_def rbind_Inr_iff)
  have "window_params H sw1" "exact_setting H sw1" "n < num_windows sw1"
    using assms(1,2) Suc.prems(1) by (simp_all add: f(1) window_params_def exact_setting_def)
  from window_input_block [OF this w(1)] have b: "fc = col_bound (sw_layout sw) (groups H) (n * step_size sw)"
    "window_block H (sw_layout sw) (n * step_size sw) (n * step_size sw + window_size sw - 1) ii" by (simp_all add: f(1))
  have "good ii p" using create_good [OF w(2)] b(2) by (simp add: window_block_def)
  then have "\<forall>w < Suc n. (fcs @ [fc]) ! w = col_bound (sw_layout sw) (groups H) (w * step_size sw) \<and>
       (\<exists>ii. window_block H (sw_layout sw) (w * step_size sw) (w * step_size sw + window_size sw - 1) ii \<and> good ii ((ps @ [p]) ! w))"
    using f(2-4) b by (auto simp: less_Suc_eq nth_append)
  then show ?case using f(1-3) sw' by (intro exI [of _ "fcs @ [fc]"] exI [of _ "ps @ [p]"]) simp
qed

lemma sliding_window_new_ready:
  assumes init: "init_ok init" "di_has_matrices init" "di_chunks init = None"
    and new: "sliding_window_new oc create init rq params = Inr d" and ex: "exact_setting (di_H (inputs d)) (plugin d)"
  shows "sw_ready good d" "output_primary d = primary rq" "canonicalize_H init = Inr (inputs d)"
proof -
  obtain st b H d1 sw2 sw3 where st0: "canonicalize_H init = Inr st" and b: "decoder_new oc st (primary rq) (sw_defaults :: 'p sliding_window) = Inr b"
    and H0: "init_detector_error_matrix (inputs b) = Inr H" and l: "round_layout_new (sw_S sw2) (sw_B sw2) (sbm_rows H) = Inr (sw_layout sw2)"
    and S: "sw_S sw2 \<noteq> 0" "sw_B sw2 \<noteq> 0" and val: "validate_inputs H sw2 = Inr ()"
    and n: "num_detector_layers sw2 = rl_num_rounds (sw_layout sw2)"
      "num_windows sw2 = sz_sub (rl_num_rounds (sw_layout sw2)) (window_size sw2) div step_size sw2 + 1"
    and fresh: "first_columns sw2 = []" "inner_decoders sw2 = []" "rounds_since_last_reset sw2 = 0"
    and d1: "d1 = b \<or> initialize_streaming_layout (sw_S sw2) (map (round_start (sw_layout sw2)) [0..<rl_num_rounds (sw_layout sw2) + 1]) b = Inr d1"
    and loop: "rfold (add_window create (inputs b) H) [0..<num_windows sw2] sw2 = Inr sw3" and d: "d = d1\<lparr>plugin := sw3\<rparr>"
    using sliding_window_newE [OF new] by metis
  note st = st0 canonicalize_H_fields(1-3) [OF init st0]
  have CSC: "sbm_layout (di_H st) = CSC" "sbm_rows (di_H st) = di_num_detectors st" "sbm_cols (di_H st) = di_num_error_mechanisms st"
    using st(2,4) by (simp_all add: init_ok_def)
  note f = decoder_new_fields [OF st(4) b]
  have H: "H = di_H st" using H0 f(1) st(4) by (simp add: init_detector_error_matrix_def matrices_guard_def)
  have d1': "inputs d1 = st" "output_primary d1 = primary rq" "syndrome_size d1 = di_num_detectors st" "block_size d1 = di_num_error_mechanisms st"
    using d1 f by (auto simp: initialize_streaming_layout_def Let_def split: if_splits)
  then show "output_primary d = primary rq" "canonicalize_H init = Inr (inputs d)" using d st(1) by simp_all
  have wp: "window_params (di_H st) sw2"
    using l by (intro window_paramsI [OF st(3) CSC(1) _ S _ n]) (use val in \<open>simp_all add: H\<close>)
  have "\<exists>fcs ps. sw3 = sw2\<lparr>first_columns := fcs, inner_decoders := ps\<rparr>" by (rule add_windows_fields [OF loop])
  then have ex2: "exact_setting (di_H st) sw2" using ex d d1'(1) by (auto simp: exact_setting_def)
  from add_windows [OF wp ex2 fresh(1,2) order_refl loop [unfolded H]] have "built good (di_H st) sw3" "rounds_since_last_reset sw3 = 0"
    using wp ex2 fresh(3) by (auto simp: built_def window_params_def exact_setting_def)
  then show "sw_ready good d" using d d1' CSC by (simp add: sw_ready_def sizes_ok_def)
qed

text \<open>Shot after shot on the same decoder.\<close>

lemma sw_shots_ready:
  assumes "sw_ready good d" "\<forall>s \<in> set shots. length s = syndrome_size d \<and> set s \<subseteq> {0, 1}" "output_primary d = Errors"
  shows "\<exists>rs d'. sw_shots inner shots d = Inr (map Some rs, d') \<and> length rs = length shots \<and>
    (\<forall>i < length shots. length (decoded (rs ! i)) = block_size d \<and> set (decoded (rs ! i)) \<subseteq> {0, 1} \<and>
       (converged (rs ! i) \<longrightarrow> (\<forall>r < syndrome_size d. par (di_H (inputs d)) (decoded (rs ! i)) r = (1/2 \<le> shots ! i ! r))))"
  using assms
proof (induction shots arbitrary: d)
  case (Cons s shots)
  obtain r d1 where r: "sw_decode inner s d = Inr (Some r, d1)" "d1 = d\<lparr>plugin := plugin d1\<rparr>" "sw_ready good d1"
    "length (decoded r) = block_size d" "set (decoded r) \<subseteq> {0, 1}"
    "converged r \<longrightarrow> (\<forall>i < syndrome_size d. par (di_H (inputs d)) (decoded r) i = (1/2 \<le> s ! i))"
    using sw_decode_ready [of d s] Cons.prems by auto
  obtain p where p: "d1 = d\<lparr>plugin := p\<rparr>" using r(2) by blast
  obtain rs d' where "sw_shots inner shots d1 = Inr (map Some rs, d')" "length rs = length shots"
    "\<forall>i < length shots. length (decoded (rs ! i)) = block_size d \<and> set (decoded (rs ! i)) \<subseteq> {0, 1} \<and>
       (converged (rs ! i) \<longrightarrow> (\<forall>r < syndrome_size d. par (di_H (inputs d)) (decoded (rs ! i)) r = (1/2 \<le> shots ! i ! r)))"
    using Cons.IH [OF r(3)] Cons.prems p by auto
  then show ?case using r by (intro exI [of _ "r # rs"] exI [of _ d']) (auto simp: nth_Cons split: nat.split)
qed simp

end

section \<open>The lookup-table decoder as inner decoder\<close>

text \<open>
  The registered creators, called through the factory for a decoder of errors. Every
  inner decoder is created in the same state \<open>w\<close> of the CUDA runtime, although the code threads the state that
  the creations before it leave: the tables do not depend on it, and whether a requested device exists and can be
  selected is taken to be the same for all of them.
\<close>

definition lut_registry :: "('c \<Rightarrow> chunked_observable_map res) \<Rightarrow> string \<rightharpoonup> ('c, ('c, lut) decoder, 'w) creator" where
  "lut_registry oc = [''multi_error_lut'' \<mapsto> (\<lambda>init rq ps w. (lut_create oc init rq ps, w)),
                      ''single_error_lut'' \<mapsto> (\<lambda>init rq ps w. (lut_create oc init rq ps, w))]"

definition lut_get ::
  "('c \<Rightarrow> chunked_observable_map res) \<Rightarrow> 'w cuda \<Rightarrow> 'w \<Rightarrow> string \<Rightarrow> 'c decoder_init \<Rightarrow> heterogeneous_map \<Rightarrow> ('c, lut) decoder res" where
  "lut_get oc cu w name init ps =
     rbind (fst (get_impl cu (lut_registry oc) name init (Some \<lparr>primary = Errors, auxiliary = 0\<rparr>) ps w)) (\<lambda>(d, _). Inr d)"

text \<open>The base class's batch call with a token: decode one by one, never abandoned.\<close>

definition lut_batch :: "real \<Rightarrow> ('c, lut) decoder inner_batch" where
  "lut_batch duration d syndromes =
     rbind (decode_batch (lut_dec duration d) syndromes d) (\<lambda>(rs, d'). Inr (Some rs, d'))"

definition good_lut :: "'c decoder_init \<Rightarrow> ('c, lut) decoder \<Rightarrow> bool" where
  "good_lut init d \<longleftrightarrow> lut_ok d \<and> inputs d = init \<and> output_primary d = Errors"

lemma lut_get_ok:
  assumes "lut_get oc cu w name init ps = Inr d"
  shows "\<exists>ps'. multi_error_lut oc init \<lparr>primary = Errors, auxiliary = 0\<rparr> ps' = Inr d"
proof -
  obtain dev w' where g: "get_impl cu (lut_registry oc) name init (Some \<lparr>primary = Errors, auxiliary = 0\<rparr>) ps w = (Inr (d, dev), w')"
    using assms by (cases "get_impl cu (lut_registry oc) name init (Some \<lparr>primary = Errors, auxiliary = 0\<rparr>) ps w")
      (auto simp: lut_get_def rbind_Inr_iff)
  have reg: "create init (Some \<lparr>primary = Errors, auxiliary = 0\<rparr>) ps' v = (multi_error_lut oc init \<lparr>primary = Errors, auxiliary = 0\<rparr> ps', v)"
    if "lut_registry oc name = Some create" for create ps' v
    using that by (auto simp: lut_registry_def lut_create_def split: if_splits)
  show ?thesis using g by (auto simp: get_impl_def reg split: option.splits sum.splits prod.splits if_splits)
qed

lemma lut_batch_eq:
  assumes "lut_ok d" "\<forall>s \<in> set syns. length s = syndrome_size d"
  shows "\<exists>rs. lut_batch duration d syns = Inr (Some rs, d) \<and> length rs = length syns \<and> (\<forall>i < length syns. lut_decode duration d (syns ! i) = Inr (rs ! i))"
proof -
  have "\<exists>rs. decode_batch (lut_dec duration d) syns d = Inr (rs, d) \<and> length rs = length syns \<and>
      (\<forall>i < length syns. lut_decode duration d (syns ! i) = Inr (rs ! i))"
    using assms(2)
  proof (induction syns)
    case (Cons s syns)
    then obtain r rs where "lut_decode duration d s = Inr r" "decode_batch (lut_dec duration d) syns d = Inr (rs, d)" "length rs = length syns"
      "\<forall>i < length syns. lut_decode duration d (syns ! i) = Inr (rs ! i)"
      using lut_decode_result [OF assms(1), of s duration] by auto
    moreover from this(1) have "lut_dec duration d (plugin d) s = Inr (r, plugin d)" by (simp add: lut_dec_def)
    ultimately show ?case by (intro exI [of _ "r # rs"]) (auto simp: nth_Cons split: nat.split)
  qed simp
  then show ?thesis by (auto simp: lut_batch_def)
qed

interpretation sw_lut: inner_decoder "lut_get oc cu w" "lut_batch duration" good_lut
proof unfold_locales
  fix name and init :: "'a decoder_init" and ps p
  assume "lut_get oc cu w name init ps = Inr p" "init_ok init" "di_has_matrices init"
  then show "good_lut init p" using lut_get_ok multi_error_lut_ok unfolding good_lut_def by (metis decoder_output_request.select_convs(1))
next
  fix init :: "'a decoder_init" and p and syns :: "real list list"
  assume g: "good_lut init p" "\<forall>s \<in> set syns. length s = di_num_detectors init"
  then have p: "lut_ok p" "inputs p = init" "output_primary p = Errors" by (simp_all add: good_lut_def)
  note D = lut_okD [OF p(1)]
  have syns: "\<forall>s \<in> set syns. length s = syndrome_size p" using g(2) D(5) p(2) by simp
  obtain rs where rs: "lut_batch duration p syns = Inr (Some rs, p)" "length rs = length syns"
    "\<forall>i < length syns. lut_decode duration p (syns ! i) = Inr (rs ! i)"
    using lut_batch_eq [OF p(1) syns] by blast
  have "length (decoded (rs ! i)) = di_num_error_mechanisms init \<and>
      (converged (rs ! i) \<longrightarrow> explained_by init (hard_bits (decoded (rs ! i))) (syns ! i))" if i: "i < length syns" for i
  proof -
    have s: "length (syns ! i) = syndrome_size p" using syns i by simp
    have r: "converged (rs ! i) = (lut_mask p (syns ! i) \<noteq> None)" "decoded (rs ! i) = frame_of (lut_errors p (syns ! i))"
      using lut_decode_result [OF p(1) s, of duration] rs(3) i p(3) by auto
    have hb: "hard_bits (frame_of m) = m" for m by (induction m) (simp_all add: frame_of_def)
    have "explains p (lut_errors p (syns ! i)) (syns ! i)" if "converged (rs ! i)"
      using that r(1) lut_mask_min(1) [OF p(1)] by (auto simp: lut_errors_def)
    then show ?thesis using r(2) D(4,5) p(2) hb by (auto simp: explains_def explained_by_def frame_of_def length_lut_errors)
  qed
  then show "\<exists>rs p'. lut_batch duration p syns = Inr (Some rs, p') \<and> good_lut init p' \<and> length rs = length syns \<and>
        (\<forall>i < length syns. length (decoded (rs ! i)) = di_num_error_mechanisms init \<and>
          (converged (rs ! i) \<longrightarrow> explained_by init (hard_bits (decoded (rs ! i))) (syns ! i)))"
    using rs g(1) by blast
qed

section \<open>Property\<close>

lemma odd_sum_cong:
  fixes f g :: "nat \<Rightarrow> nat"
  shows "(\<And>c. c < n \<Longrightarrow> odd (f c) = odd (g c)) \<Longrightarrow> odd (\<Sum>c < n. f c) = odd (\<Sum>c < n. g c)"
  by (induction n) auto

text \<open>The parity of a frame in the canonical matrix is its parity in the matrix the decoder was given.\<close>

lemma par_explained:
  assumes "init_ok init" "di_has_matrices init" "di_chunks init = None" "canonicalize_H init = Inr st"
    "length e = di_num_error_mechanisms init" "set e \<subseteq> {0, 1}" "\<forall>r < di_num_detectors init. par (di_H st) e r = (1/2 \<le> s ! r)"
  shows "explained_by init (hard_bits e) s"
proof -
  note F = canonicalize_H_fields [OF assms(1-4)]
  have "par (di_H st) e r = odd (\<Sum>q < di_num_error_mechanisms init. if hard_bits e ! q then mult_at (di_H init) r q else 0)"
    if r: "r < di_num_detectors init" for r
    unfolding par_def assms(5)
  proof (rule odd_sum_cong)
    fix q assume q: "q < di_num_error_mechanisms init"
    then have "e ! q \<in> set e" using assms(5) by simp
    then have "e ! q = 0 \<or> e ! q = 1" using assms(6) by auto
    then show "odd (if e ! q \<noteq> 0 then mult_at (di_H st) r q else 0) = odd (if hard_bits e ! q then mult_at (di_H init) r q else 0)"
      using q F(6) [OF r q] assms(5) by auto
  qed
  then show ?thesis using assms(5,7) by (simp add: explained_by_def)
qed

text \<open>
  C1: Sliding-window decoding through lookup-table inner decoders is exact. If every error mechanism
  spans at most two consecutive rounds, windows have at least two rounds and the straddling options
  have their defaults, then every sequence of hard whole-block shots is decoded without an exception
  and without being abandoned, each shot independently of the ones before; every answer is a 0/1
  frame over all error mechanisms, and whenever the answer says that all windows converged, the frame
  composed of the committed parts has exactly the measured syndrome under the original
  parity-check matrix.
\<close>

theorem sliding_window_exact:
  assumes init: "init_ok init" "di_has_matrices init" "di_chunks init = None"
    and new: "sliding_window_new oc (lut_get oc' cu w) init \<lparr>primary = Errors, auxiliary = 0\<rparr> params = Inr d"
    and setting: "2 \<le> window_size (plugin d)" "\<not> straddle_start_round (plugin d)" "straddle_end_round (plugin d)"
      "two_rounds (sw_layout (plugin d)) (groups (di_H (inputs d)))"
    and shots: "\<forall>s \<in> set shots. length s = di_num_detectors init \<and> set s \<subseteq> {0, 1}"
  shows "\<exists>rs d'. sw_shots (lut_batch duration) shots d = Inr (map Some rs, d') \<and> length rs = length shots \<and>
    (\<forall>i < length shots. length (decoded (rs ! i)) = di_num_error_mechanisms init \<and> set (decoded (rs ! i)) \<subseteq> {0, 1} \<and>
       (converged (rs ! i) \<longrightarrow> explained_by init (hard_bits (decoded (rs ! i))) (shots ! i)))"
proof -
  have "exact_setting (di_H (inputs d)) (plugin d)" using setting by (simp add: exact_setting_def)
  note R = sw_lut.sliding_window_new_ready [OF init new this]
  note F = canonicalize_H_fields [OF init R(3)]
  have sz: "syndrome_size d = di_num_detectors init" "block_size d = di_num_error_mechanisms init"
    using R(1) F(1,3-5) by (simp_all add: sw_ready_def sizes_ok_def init_ok_def)
  obtain rs d' where "sw_shots (lut_batch duration) shots d = Inr (map Some rs, d')" "length rs = length shots"
    "\<forall>i < length shots. length (decoded (rs ! i)) = block_size d \<and> set (decoded (rs ! i)) \<subseteq> {0, 1} \<and>
       (converged (rs ! i) \<longrightarrow> (\<forall>r < syndrome_size d. par (di_H (inputs d)) (decoded (rs ! i)) r = (1/2 \<le> shots ! i ! r)))"
    using sw_lut.sw_shots_ready [OF R(1), of shots duration] shots sz R(2) by auto
  then show ?thesis using par_explained [OF init R(3)] unfolding sz by (intro exI [of _ rs] exI [of _ d']) simp
qed

definition sw_demo_params :: heterogeneous_map where
  "sw_demo_params = [(''window_size'', Any_size 2), (''step_size'', Any_size 1), (''num_syndromes_per_round'', Any_size 1),
     (''inner_decoder_name'', Any_string ''multi_error_lut'')]"

definition sw_demo_init :: "unit decoder_init" where
  "sw_demo_init = \<lparr>di_source = Matrices, di_num_detectors = 3, di_num_error_mechanisms = 3, di_num_observables = 0,
     di_has_matrices = True,
     di_H = \<lparr>sbm_layout = CSC, sbm_rows = 3, sbm_cols = 3, sbm_ptr = [0, 2, 4, 5], sbm_idx = [0, 1, 1, 2, 2]\<rparr>,
     di_O = None, di_rates = [1/10, 1/10, 1/10], di_ids = None, di_D = None, di_raw_stim_dem = None, di_chunks = None\<rparr>"

definition no_cuda :: "unit cuda" where
  "no_cuda = \<lparr>cudaGetDeviceCount = \<lambda>_. None, cudaGetDevice = \<lambda>_. None, cudaSetDevice = \<lambda>_ _. None\<rparr>"

definition sw_demo :: "(unit, (unit, lut) decoder sliding_window) decoder res" where
  "sw_demo = sliding_window_new (\<lambda>_. Inl Undefined_behaviour) (lut_get (\<lambda>_. Inl Undefined_behaviour) no_cuda ()) sw_demo_init
     \<lparr>primary = Errors, auxiliary = 0\<rparr> sw_demo_params"

lemma sw_demo_ok:
  "case sw_demo of Inl e \<Rightarrow> False
   | Inr d \<Rightarrow> 2 \<le> window_size (plugin d) \<and> \<not> straddle_start_round (plugin d) \<and> straddle_end_round (plugin d) \<and>
       two_rounds (sw_layout (plugin d)) (groups (di_H (inputs d)))"
  by code_simp

lemma sw_demo_init_ok: "init_ok sw_demo_init" "di_has_matrices sw_demo_init" "di_chunks sw_demo_init = None" "di_num_detectors sw_demo_init = 3"
  by (simp_all add: sw_demo_init_def init_ok_def sbm_ok_def ptr_ok_def num_groups_def index_bound_def max_u32_def)

theorem sliding_window_exact_witness:
  "\<exists>d rs d'. sw_demo = Inr d \<and> sw_shots (lut_batch 0) [[1, 1, 1], [0, 0, 0]] d = Inr (map Some rs, d') \<and> length rs = 2"
proof -
  obtain d where d: "sw_demo = Inr d" "2 \<le> window_size (plugin d)" "\<not> straddle_start_round (plugin d)" "straddle_end_round (plugin d)"
    "two_rounds (sw_layout (plugin d)) (groups (di_H (inputs d)))"
    using sw_demo_ok by (auto split: sum.splits)
  have "\<forall>s \<in> set [[1, 1, 1], [0, 0, 0 :: real]]. length s = di_num_detectors sw_demo_init \<and> set s \<subseteq> {0, 1}" by (simp add: sw_demo_init_ok(4))
  from sliding_window_exact [OF sw_demo_init_ok(1-3) d(1) [unfolded sw_demo_def] d(2-5) this, of 0] d(1) show ?thesis by auto
qed

end
