(* ===== verification/QEC_Sliding_Stream.thy ===== *)
theory QEC_Sliding_Stream
  imports QEC_Sliding_Exact
begin

text \<open>
  The stream of a sliding-window decoder as a state machine: construction, calls of
  \<open>decode_batch\<close> with whole syndromes or single detector layers, also ones that throw, and resets, for any
  factory of inner decoders and any inner decoder, also one that abandons a window.
\<close>

section \<open>Runs\<close>

text \<open>
  The number bounds the exceptions of inner decoders since the stream last started. An exception
  leaves an inner decoder in any state \<open>p\<close>.
\<close>

inductive sw_run ::
  "('c \<Rightarrow> chunked_observable_map res) \<Rightarrow> (string \<Rightarrow> 'c decoder_init \<Rightarrow> heterogeneous_map \<Rightarrow> 'p res) \<Rightarrow> 'p inner_batch \<Rightarrow>
   nat \<Rightarrow> ('c, 'p sliding_window) decoder \<Rightarrow> bool"
  for oc create inner where
  construct: "sliding_window_new oc create init rq params = Inr d \<Longrightarrow> sw_run oc create inner 0 d"
| decode: "sw_run oc create inner f d \<Longrightarrow> sw_decode_batch inner syndromes d = Inr (answer, d') \<Longrightarrow> sw_run oc create inner f d'"
| throw: "sw_run oc create inner f d \<Longrightarrow> sw_decode_batch inner syndromes d = Inl e \<Longrightarrow> e \<noteq> Undefined_behaviour \<Longrightarrow>
    sw_decode_batch_left inner p syndromes d = (n, d') \<Longrightarrow> sw_run oc create inner (f + n) d'"
| reset: "sw_run oc create inner f d \<Longrightarrow> sw_run oc create inner 0 (sw_reset_decoder d)"
| restart: "sw_run oc create inner f d \<Longrightarrow> rounds_since_last_reset (plugin d) = 0 \<Longrightarrow> sw_run oc create inner 0 d"

text \<open>
  The bookkeeping: the buffered rounds are those after the windows that were decoded, each as wide as its detector
  layer and as long as the batch, and fewer than a window but for one for each exception of an inner decoder.
\<close>

definition stream_inv :: "nat \<Rightarrow> ('c, 'p sliding_window) decoder \<Rightarrow> bool" where
  "stream_inv f d \<longleftrightarrow> (let sw = plugin d; first = num_windows_decoded sw * step_size sw in
     1 \<le> step_size sw \<and> step_size sw \<le> window_size sw \<and> 1 \<le> num_windows sw \<and>
     num_detector_layers sw = (num_windows sw - 1) * step_size sw + window_size sw \<and> num_windows_decoded sw < num_windows sw \<and>
     rounds_since_last_reset sw = first + length (window_rounds sw) \<and> length (window_rounds sw) < window_size sw + f \<and>
     (\<forall>i < length (window_rounds sw). length (window_rounds sw ! i) = batch_size sw \<and>
        (\<forall>x \<in> set (window_rounds sw ! i). length x = round_width (sw_layout sw) (first + i))))"

lemma stream_inv_new:
  assumes "sliding_window_new oc create init rq params = Inr d"
  shows "stream_inv f d"
proof -
  from assms obtain H d1 sw2 sw3 ib where S: "sw_S sw2 \<noteq> 0" and val: "validate_inputs H sw2 = Inr ()"
    and n: "num_detector_layers sw2 = rl_num_rounds (sw_layout sw2)"
      "num_windows sw2 = sz_sub (rl_num_rounds (sw_layout sw2)) (window_size sw2) div step_size sw2 + 1"
    and fresh: "rounds_since_last_reset sw2 = 0" "window_rounds sw2 = []" "num_windows_decoded sw2 = 0"
    and loop: "rfold (add_window create ib H) [0..<num_windows sw2] sw2 = Inr sw3" and d: "d = d1\<lparr>plugin := sw3\<rparr>"
    by (rule sliding_window_newE) metis
  note V = validate_inputsD [OF val S]
  have "num_detector_layers sw2 = (num_windows sw2 - 1) * step_size sw2 + window_size sw2" using V(5,8) n by auto
  moreover obtain fcs ps where "sw3 = sw2\<lparr>first_columns := fcs, inner_decoders := ps\<rparr>" using add_windows_fields [OF loop] by blast
  ultimately show ?thesis using d V n(2) fresh by (simp add: stream_inv_def)
qed

lemma rmap_length: "rmap f xs = Inr ys \<Longrightarrow> length ys = length xs"
  by (induction xs arbitrary: ys) (auto simp: rbind_Inr_iff)

text \<open>A predicate of every value a computation can return.\<close>

definition res_all :: "('a \<Rightarrow> bool) \<Rightarrow> 'a res \<Rightarrow> bool" where
  "res_all P x \<longleftrightarrow> (\<forall>y. x = Inr y \<longrightarrow> P y)"

lemma res_all_bind: "(\<And>y. x = Inr y \<Longrightarrow> res_all P (f y)) \<Longrightarrow> res_all P (rbind x f)"
  by (auto simp: res_all_def rbind_Inr_iff)

lemma res_all_Inr [simp]: "res_all P (Inr y) \<longleftrightarrow> P y"
  by (simp add: res_all_def)

text \<open>What decoding a window changes.\<close>

definition window_update :: "'p sliding_window \<Rightarrow> bool \<times> 'p sliding_window \<Rightarrow> bool" where
  "window_update sw r \<longleftrightarrow> (\<exists>ps rs ms. snd r = sw\<lparr>inner_decoders := ps, rw_results := rs, syndrome_mods := ms\<rparr> \<and> (fst r \<longrightarrow> length rs = batch_size sw))"

lemma window_updateI:
  "window_update sw (False, sw\<lparr>inner_decoders := ps\<rparr>)"
  "length rs = batch_size sw \<Longrightarrow> window_update sw (True, sw\<lparr>inner_decoders := ps, rw_results := rs\<rparr>)"
  "length rs = batch_size sw \<Longrightarrow> window_update sw (True, sw\<lparr>inner_decoders := ps, rw_results := rs, syndrome_mods := ms\<rparr>)"
proof -
  have "sw\<lparr>inner_decoders := ps\<rparr> = sw\<lparr>inner_decoders := ps, rw_results := rw_results sw, syndrome_mods := syndrome_mods sw\<rparr>" by simp
  then show "window_update sw (False, sw\<lparr>inner_decoders := ps\<rparr>)" unfolding window_update_def by (metis fst_conv snd_conv)
  have "sw\<lparr>inner_decoders := ps, rw_results := rs\<rparr> = sw\<lparr>inner_decoders := ps, rw_results := rs, syndrome_mods := syndrome_mods sw\<rparr>" by simp
  then show "length rs = batch_size sw \<Longrightarrow> window_update sw (True, sw\<lparr>inner_decoders := ps, rw_results := rs\<rparr>)"
    unfolding window_update_def by (metis snd_conv)
qed (auto simp: window_update_def)

lemma decode_window_update: "res_all (window_update sw) (decode_window inner H sw)"
  unfolding decode_window_def Let_def
  by (auto intro!: res_all_bind window_updateI split: option.split dest!: rmap_length)

section \<open>One detector layer\<close>

text \<open>
  What a call with one detector layer does to the stream, in terms of the number of layers
  received so far: an abandoned window and a complete block start a new stream, every other
  layer is counted and answered with no results.
\<close>

definition layer_effect ::
  "('c, 'p sliding_window) decoder \<Rightarrow> real list list \<Rightarrow> decoder_result list option \<times> ('c, 'p sliding_window) decoder \<Rightarrow> bool" where
  "layer_effect d syndromes r \<longleftrightarrow> (let k = rounds_since_last_reset (plugin d); k' = rounds_since_last_reset (plugin (snd r)) in
     case fst r of
       None \<Rightarrow> k' = 0
     | Some results \<Rightarrow>
         if k + 1 = num_detector_layers (plugin d) then k' = 0 \<and> length results = length syndromes else k' = k + 1 \<and> results = [])"

lemma stream_bound:
  assumes "stream_inv f d"
  shows "num_windows_decoded (plugin d) * step_size (plugin d) + window_size (plugin d) \<le> num_detector_layers (plugin d)"
    "num_windows_decoded (plugin d) + 1 < num_windows (plugin d) \<longleftrightarrow>
       num_windows_decoded (plugin d) * step_size (plugin d) + window_size (plugin d) < num_detector_layers (plugin d)"
    "f = 0 \<Longrightarrow> rounds_since_last_reset (plugin d) < num_detector_layers (plugin d)"
proof -
  let ?w = "num_windows_decoded (plugin d)" and ?s = "step_size (plugin d)" and ?n = "num_windows (plugin d)"
  have n: "num_detector_layers (plugin d) = (?n - 1) * ?s + window_size (plugin d)" "?w < ?n" "1 \<le> ?s"
    "rounds_since_last_reset (plugin d) = ?w * ?s + length (window_rounds (plugin d))" "length (window_rounds (plugin d)) < window_size (plugin d) + f"
    using assms by (simp_all add: stream_inv_def Let_def)
  have "?w \<le> ?n - 1" using n(2) by simp
  then have le: "?w * ?s \<le> (?n - 1) * ?s" by (rule mult_le_mono1)
  then show "?w * ?s + window_size (plugin d) \<le> num_detector_layers (plugin d)" "f = 0 \<Longrightarrow> rounds_since_last_reset (plugin d) < num_detector_layers (plugin d)"
    using n(1,4,5) by linarith+
  have "?w * ?s < (?n - 1) * ?s \<longleftrightarrow> ?w < ?n - 1" using n(3) by simp
  then show "?w + 1 < ?n \<longleftrightarrow> ?w * ?s + window_size (plugin d) < num_detector_layers (plugin d)" using n(1) by auto
qed

lemma feed_layer_inv:
  assumes inv: "stream_inv f d"
  shows "res_all (\<lambda>r. stream_inv f (snd r) \<and> (f = 0 \<longrightarrow> layer_effect d syndromes r)) (feed_layer inner syndromes d)"
proof (cases "length syndromes = batch_size (plugin d) \<and> \<not> list_ex (\<lambda>r. length r \<noteq> round_width (sw_layout (plugin d)) (rounds_since_last_reset (plugin d))) syndromes")
  case False
  then show ?thesis by (auto simp: feed_layer_def Let_def res_all_def)
next
  case True
  define sw where "sw = plugin d"
  let ?first = "num_windows_decoded sw * step_size sw"
  let ?sw1 = "sw\<lparr>window_rounds := window_rounds sw @ [syndromes], rounds_since_last_reset := rounds_since_last_reset sw + 1\<rparr>"
  note I = inv [unfolded stream_inv_def Let_def, folded sw_def]
  note B = stream_bound [OF inv, folded sw_def]
  have syn: "length syndromes = batch_size sw" "\<forall>x \<in> set syndromes. length x = round_width (sw_layout sw) (rounds_since_last_reset sw)"
    using True by (auto simp: list_ex_iff sw_def)
  have rnd: "rounds_since_last_reset sw = ?first + length (window_rounds sw)" using I by blast
  have buf: "\<forall>i < length (window_rounds ?sw1). length (window_rounds ?sw1 ! i) = batch_size sw \<and>
      (\<forall>x \<in> set (window_rounds ?sw1 ! i). length x = round_width (sw_layout sw) (?first + i))"
    using I syn by (auto simp: nth_append less_Suc_eq)
  have feed: "feed_layer inner syndromes d = (if length (window_rounds sw) + 1 < window_size sw then Inr (Some [], d\<lparr>plugin := ?sw1\<rparr>)
      else rbind (decode_window inner (di_H (inputs d)) ?sw1) (\<lambda>(ok, sw2).
          if \<not> ok then Inr (None, d\<lparr>plugin := reset_stream sw2\<rparr>)
          else
            let sw3 = sw2\<lparr>num_windows_decoded := num_windows_decoded sw2 + 1\<rparr> in
            if num_windows_decoded sw3 = num_windows sw3
            then rbind (finish_results d (rw_results sw3)) (\<lambda>results. Inr (Some results, d\<lparr>plugin := reset_stream sw3\<rparr>))
            else if length (window_rounds sw3) < step_size sw3 then Inl Undefined_behaviour
            else Inr (Some [], d\<lparr>plugin := sw3\<lparr>window_rounds := drop (step_size sw3) (window_rounds sw3)\<rparr>\<rparr>)))"
    using True unfolding feed_layer_def Let_def sw_def by simp
  show ?thesis
  proof (cases "length (window_rounds sw) + 1 < window_size sw")
    case short: True
    then have "stream_inv f (d\<lparr>plugin := ?sw1\<rparr>)" using I buf by (auto simp: stream_inv_def Let_def)
    moreover have "rounds_since_last_reset sw + 1 \<noteq> num_detector_layers sw" using rnd short B(1) by linarith
    ultimately show ?thesis using feed short by (simp add: layer_effect_def sw_def [symmetric])
  next
    case full: False
    have k: "f = 0 \<Longrightarrow> rounds_since_last_reset sw + 1 = ?first + window_size sw" using I full by simp
    show ?thesis unfolding feed if_not_P [OF full]
    proof (rule res_all_bind)
      fix y assume "decode_window inner (di_H (inputs d)) ?sw1 = Inr y"
      then have "window_update ?sw1 y" using decode_window_update [of ?sw1 inner "di_H (inputs d)"] by (simp add: res_all_def)
      then obtain ok ps rs ms where y: "y = (ok, ?sw1\<lparr>inner_decoders := ps, rw_results := rs, syndrome_mods := ms\<rparr>)" "ok \<longrightarrow> length rs = batch_size sw"
        unfolding window_update_def by (cases y) auto
      let ?sw2 = "?sw1\<lparr>inner_decoders := ps, rw_results := rs, syndrome_mods := ms\<rparr>"
      let ?sw3 = "?sw2\<lparr>num_windows_decoded := num_windows_decoded sw + 1\<rparr>"
      have inv0: "stream_inv f (d\<lparr>plugin := reset_stream sw'\<rparr>)" if "sw' = ?sw2 \<or> sw' = ?sw3" for sw'
        using I that by (auto simp: stream_inv_def Let_def reset_stream_def)
      have nxt: "f = 0 \<Longrightarrow> rounds_since_last_reset sw + 1 = num_detector_layers sw \<longleftrightarrow> num_windows_decoded sw + 1 = num_windows sw"
        using k B(1,2) I by linarith
      have fin: "res_all (\<lambda>r. stream_inv f (snd r) \<and> (f = 0 \<longrightarrow> layer_effect d syndromes r))
          (rbind (finish_results d rs) (\<lambda>results. Inr (Some results, d\<lparr>plugin := reset_stream ?sw3\<rparr>)))"
        if "ok" "num_windows_decoded sw + 1 = num_windows sw"
      proof (rule res_all_bind)
        fix results assume "finish_results d rs = Inr results"
        then have "length results = length rs" by (auto simp: finish_results_def dest: rmap_length split: if_splits)
        then show "res_all (\<lambda>r. stream_inv f (snd r) \<and> (f = 0 \<longrightarrow> layer_effect d syndromes r)) (Inr (Some results, d\<lparr>plugin := reset_stream ?sw3\<rparr>))"
          using inv0 [of ?sw3] y(2) that syn(1) nxt by (simp add: layer_effect_def sw_def [symmetric] reset_stream_def)
      qed
      have go: "stream_inv f (d\<lparr>plugin := ?sw3\<lparr>window_rounds := drop (step_size sw) (window_rounds ?sw1)\<rparr>\<rparr>)"
        if w: "num_windows_decoded sw + 1 < num_windows sw"
      proof -
        define wr where "wr = window_rounds sw @ [syndromes]"
        have lwr: "window_size sw \<le> length wr" "length wr \<le> window_size sw + f" "step_size sw \<le> window_size sw" "1 \<le> step_size sw"
          using full I by (auto simp: wr_def)
        have "length (drop (step_size sw) wr ! i) = batch_size sw \<and>
            (\<forall>x \<in> set (drop (step_size sw) wr ! i). length x = round_width (sw_layout sw) ((num_windows_decoded sw + 1) * step_size sw + i))"
          if "i < length (drop (step_size sw) wr)" for i
          using buf [folded wr_def, simplified, folded wr_def, rule_format, of "step_size sw + i"] that lwr by (simp add: ac_simps)
        moreover have "(num_windows_decoded sw + 1) * step_size sw + length (drop (step_size sw) wr) = rounds_since_last_reset sw + 1" using lwr rnd by (simp add: wr_def)
        ultimately show ?thesis using I w lwr unfolding stream_inv_def Let_def by (simp add: wr_def [symmetric] del: drop_append mult_Suc)
      qed
      have st: "step_size sw \<le> length (window_rounds sw) + 1" using I full by simp
      show "res_all (\<lambda>r. stream_inv f (snd r) \<and> (f = 0 \<longrightarrow> layer_effect d syndromes r)) (case y of (ok, sw2) \<Rightarrow>
          if \<not> ok then Inr (None, d\<lparr>plugin := reset_stream sw2\<rparr>)
          else
            let sw3 = sw2\<lparr>num_windows_decoded := num_windows_decoded sw2 + 1\<rparr> in
            if num_windows_decoded sw3 = num_windows sw3
            then rbind (finish_results d (rw_results sw3)) (\<lambda>results. Inr (Some results, d\<lparr>plugin := reset_stream sw3\<rparr>))
            else if length (window_rounds sw3) < step_size sw3 then Inl Undefined_behaviour
            else Inr (Some [], d\<lparr>plugin := sw3\<lparr>window_rounds := drop (step_size sw3) (window_rounds sw3)\<rparr>\<rparr>))"
      proof (cases "ok \<and> num_windows_decoded sw + 1 = num_windows sw")
        case True
        then show ?thesis using fin unfolding y(1) Let_def by simp
      next
        case False
        show ?thesis
        proof (cases ok)
          case True
          then have w: "num_windows_decoded sw + 1 < num_windows sw" using False I by linarith
          then show ?thesis using go [OF w] True st nxt unfolding y(1) Let_def by (simp add: layer_effect_def sw_def [symmetric])
        next
          case False
          then show ?thesis using inv0 [of ?sw2] unfolding y(1) by (simp add: layer_effect_def reset_stream_def)
        qed
      qed
    qed
  qed
qed

lemma initialize_window_inv:
  "stream_inv f d \<Longrightarrow> stream_inv f (if rounds_since_last_reset (plugin d) = 0 then initialize_window n d else d)"
  by (auto simp: stream_inv_def initialize_window_def Let_def)

lemma decode_layer_inv:
  assumes "stream_inv f d"
  shows "res_all (\<lambda>r. stream_inv f (snd r) \<and> (f = 0 \<longrightarrow> layer_effect d syndromes r)) (decode_layer inner syndromes d)"
proof -
  let ?d = "if rounds_since_last_reset (plugin d) = 0 then initialize_window (length syndromes) d else d"
  have "layer_effect ?d syndromes r = layer_effect d syndromes r" for r
    by (auto simp: layer_effect_def initialize_window_def split: option.split)
  then show ?thesis using feed_layer_inv [OF initialize_window_inv [OF assms], of "length syndromes" syndromes inner] by (simp add: decode_layer_def)
qed

lemma decode_layers_inv: "stream_inv f d \<Longrightarrow> res_all (\<lambda>r. stream_inv f (snd r)) (decode_layers inner layers results d)"
proof (induction layers arbitrary: results d)
  case (Cons l layers)
  show ?case unfolding decode_layers.simps
  proof (rule res_all_bind)
    fix y assume "decode_layer inner l d = Inr y"
    then have "stream_inv f (snd y)" using decode_layer_inv [OF Cons.prems, of l inner] by (simp add: res_all_def)
    then show "res_all (\<lambda>r. stream_inv f (snd r)) (case y of (answer, d') \<Rightarrow> case answer of
        None \<Rightarrow> Inr (None, d') | Some rs \<Rightarrow> decode_layers inner layers (Some rs) d')"
      using Cons.IH by (cases y) (auto split: option.split)
  qed
qed simp

lemma sw_decode_batch_inv:
  assumes "stream_inv f d" "sw_decode_batch inner syndromes d = Inr (answer, d')"
  shows "stream_inv f d'"
proof -
  have "res_all (\<lambda>r. stream_inv f (snd r)) (decode_layer inner syndromes d)"
    using decode_layer_inv [OF assms(1), of syndromes inner] by (auto simp: res_all_def)
  then have "res_all (\<lambda>r. stream_inv f (snd r)) (sw_decode_batch inner syndromes d)"
    using decode_layers_inv [OF assms(1), of inner] assms(1) by (auto simp: sw_decode_batch_def Let_def res_all_def)
  then show ?thesis using assms(2) by (auto simp: res_all_def)
qed

section \<open>Calls that throw\<close>

lemma reset_stream_inv: "stream_inv f d \<Longrightarrow> sw' = (plugin d)\<lparr>window_rounds := wr, rounds_since_last_reset := k, inner_decoders := ps, rw_results := rs, syndrome_mods := ms\<rparr> \<Longrightarrow>
   stream_inv g (d\<lparr>plugin := reset_stream sw'\<rparr>)"
  by (auto simp: stream_inv_def reset_stream_def Let_def)

lemma decode_layer_left_inv:
  assumes inv: "stream_inv f d" and left: "decode_layer_left inner p syndromes d = (n, d')"
  shows "stream_inv (f + n) d'"
proof -
  define d0 where "d0 = (if rounds_since_last_reset (plugin d) = 0 then initialize_window (length syndromes) d else d)"
  have inv0: "stream_inv f d0" unfolding d0_def by (rule initialize_window_inv [OF inv])
  define sw where "sw = plugin d0"
  let ?sw1 = "sw\<lparr>window_rounds := window_rounds sw @ [syndromes], rounds_since_last_reset := rounds_since_last_reset sw + 1\<rparr>"
  note I = inv0 [unfolded stream_inv_def Let_def, folded sw_def]
  note L = left [unfolded decode_layer_left_def Let_def, folded d0_def, folded sw_def]
  show ?thesis
  proof (cases "length syndromes \<noteq> batch_size sw \<or> list_ex (\<lambda>r. length r \<noteq> round_width (sw_layout sw) (rounds_since_last_reset sw)) syndromes")
    case True
    then show ?thesis using L inv0 by auto
  next
    case ok: False
    show ?thesis
    proof (cases "decode_window inner (di_H (inputs d)) ?sw1")
      case (Inl e)
      then have d': "n = 1" "d' = d0\<lparr>plugin := ?sw1\<lparr>inner_decoders := (inner_decoders sw)[num_windows_decoded sw := p]\<rparr>\<rparr>" using L ok by auto
      have syn: "length syndromes = batch_size sw" "\<forall>x \<in> set syndromes. length x = round_width (sw_layout sw) (rounds_since_last_reset sw)"
        using ok by (auto simp: list_ex_iff)
      show ?thesis unfolding d' using I syn by (auto simp: stream_inv_def Let_def nth_append less_Suc_eq)
    next
      case (Inr y)
      then have "window_update ?sw1 y" using decode_window_update [of ?sw1 inner "di_H (inputs d)"] by (simp add: res_all_def)
      then obtain c ps rs ms where y: "y = (c, ?sw1\<lparr>inner_decoders := ps, rw_results := rs, syndrome_mods := ms\<rparr>)"
        unfolding window_update_def by (cases y) auto
      then have "d' = d0\<lparr>plugin := reset_stream (?sw1\<lparr>inner_decoders := ps, rw_results := rs, syndrome_mods := ms\<rparr>)\<rparr>" using L ok Inr by auto
      then show ?thesis using I by (simp add: stream_inv_def reset_stream_def Let_def)
    qed
  qed
qed

lemma decode_layers_left_inv: "stream_inv f d \<Longrightarrow> decode_layers_left inner p layers d = (n, d') \<Longrightarrow> stream_inv (f + n) d'"
proof (induction layers arbitrary: d)
  case (Cons l layers)
  show ?case
  proof (cases "decode_layer inner l d")
    case (Inl e)
    then show ?thesis using Cons.prems decode_layer_left_inv by auto
  next
    case (Inr y)
    then have "stream_inv f (snd y)" using decode_layer_inv [OF Cons.prems(1), of l inner] by (simp add: res_all_def)
    then show ?thesis using Cons.IH [of "snd y"] Cons.prems(2) Inr by (cases y) (auto split: if_splits)
  qed
qed simp

lemma sw_decode_batch_left_inv: "stream_inv f d \<Longrightarrow> sw_decode_batch_left inner p syndromes d = (n, d') \<Longrightarrow> stream_inv (f + n) d'"
  using decode_layers_left_inv decode_layer_left_inv by (auto simp: sw_decode_batch_left_def Let_def split: if_splits)

lemma sw_run_inv: "sw_run oc create inner f d \<Longrightarrow> stream_inv f d"
proof (induction rule: sw_run.induct)
  case (reset f d)
  then show ?case by (auto simp: stream_inv_def sw_reset_decoder_def reset_stream_def Let_def)
next
  case (restart f d)
  then show ?case by (auto simp: stream_inv_def Let_def)
qed (auto intro: stream_inv_new sw_decode_batch_inv sw_decode_batch_left_inv)

text \<open>The three ways in which a call with one layer throws, and what each leaves.\<close>

lemma decode_layer_throws:
  assumes inv: "stream_inv f d" and thrown: "decode_layer inner syndromes d = Inl e" and left: "decode_layer_left inner p syndromes d = (n, d')"
  shows "n = 0 \<and> rounds_since_last_reset (plugin d') = rounds_since_last_reset (plugin d) \<and> window_rounds (plugin d') = window_rounds (plugin d) \<or>
    n = 0 \<and> rounds_since_last_reset (plugin d') = 0 \<or>
    n = 1 \<and> rounds_since_last_reset (plugin d') = rounds_since_last_reset (plugin d) + 1 \<and>
      window_rounds (plugin d') = window_rounds (plugin d) @ [syndromes] \<and> window_size (plugin d') \<le> length (window_rounds (plugin d'))"
proof -
  define d0 where "d0 = (if rounds_since_last_reset (plugin d) = 0 then initialize_window (length syndromes) d else d)"
  have same: "rounds_since_last_reset (plugin d0) = rounds_since_last_reset (plugin d)" "window_rounds (plugin d0) = window_rounds (plugin d)" "inputs d0 = inputs d"
    using inv by (auto simp: d0_def initialize_window_def stream_inv_def Let_def)
  note L = left [unfolded decode_layer_left_def Let_def, folded d0_def]
  note T = thrown [unfolded decode_layer_def feed_layer_def Let_def, folded d0_def]
  show ?thesis
    using L T same by (auto simp: reset_stream_def rbind_def split: if_splits sum.splits prod.splits)
qed

section \<open>Property\<close>

text \<open>
  C19: In every state a sliding-window decoder can reach through construction, resets and decode calls with
  whole syndromes or single layers that return or throw, with any inner decoders, the buffered rounds are
  exactly those received after the decoded windows, each as wide as its detector layer; there are fewer than a window
  of them, and at most one more for each exception of an inner decoder since the stream started. Without such
  exceptions fewer layers were received than a block has, and the next layer is answered
  with no results until it completes the block; then there is one result per syndrome of the
  batch and a new stream starts, as it does when an inner decoder abandons its window. A layer
  of another width is rejected. A call that throws either leaves the buffered rounds as they were or starts a new
  stream, unless the inner decoder threw: then the layer stays buffered and counted and a full window waits.
\<close>

theorem sliding_window_stream:
  assumes "sw_run oc create inner f d"
  shows "stream_inv f d \<and>
    (f = 0 \<longrightarrow> rounds_since_last_reset (plugin d) < num_detector_layers (plugin d) \<and>
      (\<forall>syndromes answer. decode_layer inner syndromes d = Inr answer \<longrightarrow> layer_effect d syndromes answer)) \<and>
    (\<forall>syndromes. (\<exists>x \<in> set syndromes. length x \<noteq> round_width (sw_layout (plugin d)) (rounds_since_last_reset (plugin d))) \<longrightarrow>
       (\<exists>msg. decode_layer inner syndromes d = Inl (Invalid_argument msg))) \<and>
    (\<forall>syndromes e p n d'. decode_layer inner syndromes d = Inl e \<and> decode_layer_left inner p syndromes d = (n, d') \<longrightarrow>
       n = 0 \<and> rounds_since_last_reset (plugin d') = rounds_since_last_reset (plugin d) \<and> window_rounds (plugin d') = window_rounds (plugin d) \<or>
       n = 0 \<and> rounds_since_last_reset (plugin d') = 0 \<or>
       n = 1 \<and> rounds_since_last_reset (plugin d') = rounds_since_last_reset (plugin d) + 1 \<and>
         window_rounds (plugin d') = window_rounds (plugin d) @ [syndromes] \<and> window_size (plugin d') \<le> length (window_rounds (plugin d')))"
proof (intro conjI allI impI)
  show inv: "stream_inv f d" by (rule sw_run_inv [OF assms])
  show "rounds_since_last_reset (plugin d) < num_detector_layers (plugin d)" if "f = 0" using stream_bound(3) [OF inv that] .
  show "layer_effect d syndromes answer" if "f = 0" "decode_layer inner syndromes d = Inr answer" for syndromes answer
    using decode_layer_inv [OF inv, of syndromes inner] that by (simp add: res_all_def)
  show "\<exists>msg. decode_layer inner syndromes d = Inl (Invalid_argument msg)"
    if "\<exists>x \<in> set syndromes. length x \<noteq> round_width (sw_layout (plugin d)) (rounds_since_last_reset (plugin d))" for syndromes
    using that by (auto simp: decode_layer_def feed_layer_def initialize_window_def Let_def list_ex_iff)
qed (elim conjE, rule decode_layer_throws [OF sw_run_inv [OF assms]])

theorem sliding_window_stream_witness:
  "\<exists>d :: (unit, (unit, lut) decoder sliding_window) decoder. sw_run (\<lambda>_. Inl Undefined_behaviour) (lut_get (\<lambda>_. Inl Undefined_behaviour) no_cuda ()) (lut_batch 0) 0 d \<and>
     rounds_since_last_reset (plugin d) < num_detector_layers (plugin d)"
proof -
  obtain d where "sw_demo = Inr d" using sw_demo_ok by (auto split: sum.splits)
  then have "sw_run (\<lambda>_. Inl Undefined_behaviour) (lut_get (\<lambda>_. Inl Undefined_behaviour) no_cuda ()) (lut_batch 0) 0 d"
    by (intro sw_run.construct) (simp add: sw_demo_def)
  moreover from sliding_window_stream [OF this, THEN conjunct2, THEN conjunct1]
  have "rounds_since_last_reset (plugin d) < num_detector_layers (plugin d)" by simp
  ultimately show ?thesis by blast
qed

end
