(* ===== verification/QEC_Chunks.thy ===== *)
theory QEC_Chunks
  imports QEC_Decoder
begin

text \<open>
  Chunks of a detector error model (\<open>libs/qec/lib/extended_dem.cpp\<close> and
  \<open>include/cudaq/qec/extended_dem.h\<close>). A chunk keeps one matrix \<open>H\<close> whose rows are the detectors,
  a matrix \<open>O\<close> of observable flips, one rate per fault column and a list of named seams, each a band of
  rows of \<open>H\<close>. This theory holds the operations that compose chunks: the pairwise \<open>dem_stitch\<close>, the one-pass
  \<open>dem_stitch_all\<close>, \<open>dem_close_all\<close> and \<open>dem_chunks_to_pcm\<close>, the streaming helpers and the merge of equal
  fault columns. Messages keep their fixed text; \<open>std::overflow_error\<close> is a \<open>Runtime_error\<close>. Row numbers and
  widths of the type \<open>uint32_t\<close> are natural numbers with \<open>u32\<close> where the code adds or casts.
\<close>

section \<open>Names of seams\<close>

text \<open>A \<open>seam_id\<close> is the FNV1a-32 hash of a name.\<close>

type_synonym seam_id = "32 word"

fun fnv1a_32 :: "string \<Rightarrow> 32 word \<Rightarrow> 32 word" where
  "fnv1a_32 [] h = h"
| "fnv1a_32 (c # s) h = fnv1a_32 s (xor h (of_char c) * 16777619)"

definition seam_id_of :: "string \<Rightarrow> seam_id" where
  "seam_id_of name = fnv1a_32 name 2166136261"

definition prev_round :: seam_id where
  "prev_round = seam_id_of ''prev_round''"

definition next_round :: seam_id where
  "next_round = seam_id_of ''next_round''"

section \<open>Chunks\<close>

record seam =
  seam_ident :: seam_id
  row_begin :: nat
  row_end :: nat

definition seam_num_rows :: "seam \<Rightarrow> nat" where
  "seam_num_rows s = u32_sub (row_end s) (row_begin s)"

record extended_dem =
  ed_H :: sparse_binary_matrix
  ed_O :: sparse_binary_matrix
  ed_rates :: "real list"
  seams :: "seam list"
  tags :: "nat list"

text \<open>A default-constructed matrix: no rows, no columns, and not even a first column pointer.\<close>

definition sbm_default :: sparse_binary_matrix where
  "sbm_default = \<lparr>sbm_layout = CSC, sbm_rows = 0, sbm_cols = 0, sbm_ptr = [], sbm_idx = []\<rparr>"

definition ed_num_faults :: "extended_dem \<Rightarrow> nat" where
  "ed_num_faults d = u32 (length (ed_rates d))"

definition ed_num_observables :: "extended_dem \<Rightarrow> nat" where
  "ed_num_observables d = sbm_rows (ed_O d)"

definition seam_total :: "seam list \<Rightarrow> nat" where
  "seam_total ss = fold (\<lambda>s t. u32 (t + seam_num_rows s)) ss 0"

definition num_interior_rows :: "extended_dem \<Rightarrow> nat" where
  "num_interior_rows d =
     (let total = seam_total (seams d); h_rows = sbm_rows (ed_H d) in if total < h_rows then h_rows - total else 0)"

definition has_seam :: "extended_dem \<Rightarrow> seam_id \<Rightarrow> bool" where
  "has_seam d i \<longleftrightarrow> list_ex (\<lambda>s. seam_ident s = i) (seams d)"

definition get_seam :: "extended_dem \<Rightarrow> seam_id \<Rightarrow> seam res" where
  "get_seam d i = (case find (\<lambda>s. seam_ident s = i) (seams d) of
     Some s \<Rightarrow> Inr s | None \<Rightarrow> Inl (Out_of_range ''extended_dem::get_seam: no seam with id''))"

definition add_seam :: "seam_id \<Rightarrow> nat \<Rightarrow> nat \<Rightarrow> extended_dem \<Rightarrow> extended_dem res" where
  "add_seam i b e d =
     (if has_seam d i then Inl (Invalid_argument ''extended_dem::add_seam: duplicate seam'')
      else Inr (d\<lparr>seams := seams d @ [\<lparr>seam_ident = i, row_begin = b, row_end = e\<rparr>]\<rparr>))"

definition ed_bands :: "extended_dem \<Rightarrow> (nat \<times> nat) list" where
  "ed_bands d = std_sort pair_less (map (\<lambda>s. (row_begin s, row_end s)) (filter (\<lambda>s. 0 < seam_num_rows s) (seams d)))"

definition ed_validate :: "extended_dem \<Rightarrow> unit res" where
  "ed_validate d =
     (let n = ed_num_faults d; n_rows = sbm_rows (ed_H d); bands = ed_bands d in
      if sbm_cols (ed_H d) \<noteq> n then Inl (Invalid_argument ''H column count does not match the faults of the chunk'')
      else if (0 < sbm_rows (ed_O d) \<or> 0 < sbm_cols (ed_O d)) \<and> sbm_cols (ed_O d) \<noteq> n
      then Inl (Invalid_argument ''O column count does not match the faults of the chunk'')
      else rbind (rfold (\<lambda>s _. if n_rows < row_end s then Inl (Invalid_argument ''seam row_end > H.num_rows()'')
                              else if row_end s < row_begin s then Inl (Invalid_argument ''seam has row_begin > row_end'')
                              else Inr ()) (seams d) ()) (\<lambda>_.
      if list_ex (\<lambda>i. fst (bands ! i) < snd (bands ! (i - 1))) [1..<length bands]
      then Inl (Invalid_argument ''seam row bands overlap'')
      else if length (tags d) \<noteq> seam_total (seams d)
      then Inl (Invalid_argument ''tags.size() != sum of seam rows'')
      else Inr ()))"

section \<open>Matrix helpers\<close>

text \<open>\<open>cols[off + j] = src[j]\<close> for every column of the source.\<close>

definition write_cols :: "nat \<Rightarrow> nat list list \<Rightarrow> nat list list \<Rightarrow> nat list list res" where
  "write_cols off src cols = rfold (\<lambda>j cols. vset cols (off + j) (src ! j)) [0..<length src] cols"

definition hcat :: "sparse_binary_matrix \<Rightarrow> sparse_binary_matrix \<Rightarrow> sparse_binary_matrix res" where
  "hcat a b =
     (let cols = to_nested_csc a @ to_nested_csc b; n_total = sbm_cols a + sbm_cols b in
      if max_u32 < n_total then Inl (Runtime_error ''hcat: combined column count exceeds uint32_t'')
      else from_nested_csc (sbm_rows a) n_total cols)"

definition vstack :: "sparse_binary_matrix \<Rightarrow> sparse_binary_matrix \<Rightarrow> sparse_binary_matrix res" where
  "vstack a b =
     (if sbm_cols b \<noteq> sbm_cols a then Inl (Invalid_argument ''vstack: column count mismatch'')
      else let a_rows = sbm_rows a; total_rows = a_rows + sbm_rows b in
        if max_u32 < total_rows then Inl (Runtime_error ''vstack: combined row count exceeds uint32_t'')
        else let a_csc = to_nested_csc a; b_csc = to_nested_csc b;
                 combined = map (\<lambda>c. a_csc ! c @ map (\<lambda>r. u32 (a_rows + r)) (b_csc ! c)) [0..<sbm_cols a]
             in from_nested_csc total_rows (sbm_cols a) combined)"

definition pad_right :: "sparse_binary_matrix \<Rightarrow> nat \<Rightarrow> sparse_binary_matrix res" where
  "pad_right m n_total =
     (let cols = to_nested_csc m
      in from_nested_csc (sbm_rows m) n_total (take n_total cols @ replicate (n_total - length cols) []))"

definition pad_left :: "sparse_binary_matrix \<Rightarrow> nat \<Rightarrow> nat \<Rightarrow> sparse_binary_matrix res" where
  "pad_left m n_left n_total =
     rbind (write_cols n_left (to_nested_csc m) (replicate n_total [])) (\<lambda>cols.
       from_nested_csc (sbm_rows m) n_total cols)"

definition zero_matrix :: "nat \<Rightarrow> nat \<Rightarrow> sparse_binary_matrix res" where
  "zero_matrix nrows ncols = from_nested_csc nrows ncols (replicate ncols [])"

definition write_sparse_block :: "u8 tensor \<Rightarrow> sparse_binary_matrix \<Rightarrow> nat \<Rightarrow> nat \<Rightarrow> u8 tensor res" where
  "write_sparse_block dst src row_offset col_offset =
     rfold (\<lambda>rc t. tensor_flip t [row_offset + fst rc, col_offset + snd rc]) (hits_cells (to_nested_csc src)) dst"

definition extract_row_band :: "sparse_binary_matrix \<Rightarrow> nat \<Rightarrow> nat \<Rightarrow> sparse_binary_matrix res" where
  "extract_row_band H b e =
     (let n_rows = u32_sub e b; n_cols = sbm_cols H in
      if n_rows = 0 then zero_matrix 0 n_cols
      else let csr = to_nested_csr H in
        rbind (rmap (\<lambda>r. vget csr (u32 (b + r))) [0..<n_rows]) (\<lambda>selected.
          from_nested_csr n_rows n_cols selected))"

definition in_some_seam :: "seam list \<Rightarrow> nat \<Rightarrow> bool" where
  "in_some_seam ss r \<longleftrightarrow> list_ex (\<lambda>s. row_begin s \<le> r \<and> r < row_end s) ss"

definition extract_interior_rows :: "sparse_binary_matrix \<Rightarrow> seam list \<Rightarrow> sparse_binary_matrix res" where
  "extract_interior_rows H ss =
     (let csr = to_nested_csr H;
          interior = map (\<lambda>r. csr ! r) (filter (\<lambda>r. \<not> in_some_seam ss r) [0..<sbm_rows H])
      in from_nested_csr (u32 (length interior)) (sbm_cols H) interior)"

fun seam_tag_offset_from :: "seam_id \<Rightarrow> seam list \<Rightarrow> nat \<Rightarrow> nat res" where
  "seam_tag_offset_from i [] offset = Inl (Out_of_range ''seam_tag_offset: seam not found'')"
| "seam_tag_offset_from i (s # ss) offset =
     (if seam_ident s = i then Inr offset else seam_tag_offset_from i ss (u32 (offset + seam_num_rows s)))"

definition seam_tag_offset :: "extended_dem \<Rightarrow> seam_id \<Rightarrow> nat res" where
  "seam_tag_offset d i = seam_tag_offset_from i (seams d) 0"

text \<open>\<open>chunk.has_seam(id) ? chunk.get_seam(id).num_rows() : 0\<close>, which the code writes out in several places.\<close>

definition seam_rows_or_zero :: "extended_dem \<Rightarrow> seam_id \<Rightarrow> nat res" where
  "seam_rows_or_zero d i = (if has_seam d i then rbind (get_seam d i) (\<lambda>s. Inr (seam_num_rows s)) else Inr 0)"

definition check_seam_boundary :: "extended_dem \<Rightarrow> extended_dem \<Rightarrow> seam_id \<Rightarrow> seam_id \<Rightarrow> unit res" where
  "check_seam_boundary a b from_seam to_seam =
     rbind (seam_rows_or_zero a from_seam) (\<lambda>from_w. rbind (seam_rows_or_zero b to_seam) (\<lambda>to_w.
       if from_w = 0 \<and> to_w = 0 then Inr ()
       else if from_w \<noteq> to_w then Inl (Invalid_argument ''seam width mismatch'')
       else rbind (seam_tag_offset a from_seam) (\<lambda>off_a. rbind (seam_tag_offset b to_seam) (\<lambda>off_b.
         rfold (\<lambda>k _. rbind (vget (tags a) (u32 (off_a + k))) (\<lambda>x. rbind (vget (tags b) (u32 (off_b + k))) (\<lambda>y.
             if x \<noteq> y then Inl (Invalid_argument ''tag mismatch at seam row'') else Inr ())))
           [0..<from_w] ()))))"

definition reject_extra_seams :: "extended_dem \<Rightarrow> seam_id \<Rightarrow> seam_id \<Rightarrow> unit res" where
  "reject_extra_seams d from_seam to_seam =
     rfold (\<lambda>s _. if seam_ident s = from_seam \<or> seam_ident s = to_seam \<or> seam_num_rows s = 0 then Inr ()
                  else Inl (Invalid_argument ''composing chunks that carry additional named seams is not supported''))
       (seams d) ()"

section \<open>Stitching two chunks\<close>

text \<open>The rows of a seam that may be absent, and the tags of its rows.\<close>

definition band_or_empty :: "extended_dem \<Rightarrow> seam_id \<Rightarrow> sparse_binary_matrix res" where
  "band_or_empty d i =
     (if has_seam d i then rbind (get_seam d i) (\<lambda>s. extract_row_band (ed_H d) (row_begin s) (row_end s))
      else zero_matrix 0 (ed_num_faults d))"

definition seam_tags :: "extended_dem \<Rightarrow> seam_id \<Rightarrow> nat \<Rightarrow> nat list res" where
  "seam_tags d i n =
     (if has_seam d i then rbind (seam_tag_offset d i) (\<lambda>off. rmap (\<lambda>k. vget (tags d) (u32 (off + k))) [0..<n])
      else Inr [])"

definition push_rows :: "sparse_binary_matrix \<Rightarrow> sparse_binary_matrix \<Rightarrow> sparse_binary_matrix res" where
  "push_rows m result_H = (if 0 < sbm_rows m then if 0 < sbm_rows result_H then vstack result_H m else Inr m
     else Inr result_H)"

definition dem_stitch :: "extended_dem \<Rightarrow> extended_dem \<Rightarrow> seam_id \<Rightarrow> seam_id \<Rightarrow> extended_dem res" where
  "dem_stitch a b from_seam to_seam =
     rbind (ed_validate a) (\<lambda>_. rbind (ed_validate b) (\<lambda>_.
     if ed_num_observables a \<noteq> ed_num_observables b
     then Inl (Invalid_argument ''dem_stitch: observable count mismatch'')
     else if \<not> has_seam a from_seam
     then Inl (Invalid_argument ''dem_stitch: left chunk has no seam with id (from_seam); cannot contract'')
     else if \<not> has_seam b to_seam
     then Inl (Invalid_argument ''dem_stitch: right chunk has no seam with id (to_seam); cannot contract'')
     else rbind (reject_extra_seams a from_seam to_seam) (\<lambda>_. rbind (reject_extra_seams b from_seam to_seam) (\<lambda>_.
     rbind (check_seam_boundary a b from_seam to_seam) (\<lambda>_.
     rbind (get_seam a from_seam) (\<lambda>a_from. rbind (get_seam b to_seam) (\<lambda>b_to.
     let seam_d = seam_num_rows a_from; n_A = ed_num_faults a; n_total = n_A + ed_num_faults b in
     if max_u32 < n_total then Inl (Runtime_error ''dem_stitch: combined fault count exceeds uint32_t'')
     else
       rbind (band_or_empty a to_seam) (\<lambda>a_to_rows.
       rbind (extract_interior_rows (ed_H a) (seams a)) (\<lambda>a_int_rows.
       rbind (extract_row_band (ed_H a) (row_begin a_from) (row_end a_from)) (\<lambda>a_from_rows.
       rbind (extract_row_band (ed_H b) (row_begin b_to) (row_end b_to)) (\<lambda>b_to_rows.
       rbind (extract_interior_rows (ed_H b) (seams b)) (\<lambda>b_int_rows.
       rbind (band_or_empty b from_seam) (\<lambda>b_from_rows.
       rbind (hcat a_from_rows b_to_rows) (\<lambda>contracted.
       rbind (pad_right a_to_rows n_total) (\<lambda>top.
       rbind (pad_right a_int_rows n_total) (\<lambda>top_int.
       rbind (pad_left b_int_rows n_A n_total) (\<lambda>bot_int.
       rbind (pad_left b_from_rows n_A n_total) (\<lambda>bot.
       rbind (zero_matrix 0 n_total) (\<lambda>H0.
       rbind (rfold push_rows [top, top_int, contracted, bot_int, bot] H0) (\<lambda>H1.
       rbind (if sbm_cols H1 = 0 then zero_matrix 0 n_total else Inr H1) (\<lambda>result_H.
       rbind (hcat (ed_O a) (ed_O b)) (\<lambda>OM.
       let r0 = \<lparr>ed_H = result_H, ed_O = OM, ed_rates = ed_rates a @ ed_rates b, seams = [], tags = []\<rparr>;
           a_to_n = sbm_rows a_to_rows; b_from_n = sbm_rows b_from_rows;
           b_from_start = u32 (a_to_n + num_interior_rows a + seam_d + num_interior_rows b) in
       rbind (add_seam to_seam 0 a_to_n r0) (\<lambda>r1.
       rbind (add_seam from_seam b_from_start (u32 (b_from_start + b_from_n)) r1) (\<lambda>r2.
       rbind (seam_tags a to_seam a_to_n) (\<lambda>lead_tags. rbind (seam_tags b from_seam b_from_n) (\<lambda>trail_tags.
         Inr (r2\<lparr>tags := lead_tags @ trail_tags\<rparr>)))))))))))))))))))))))))))"

section \<open>Stitching and closing a chain\<close>

definition nested_csc :: "sparse_binary_matrix \<Rightarrow> nat list list" where
  "nested_csc m = (if sbm_layout m = CSC then to_nested_csc m else to_nested_csc (to_csc m))"

definition dem_chunks_to_fault_offsets :: "extended_dem list \<Rightarrow> nat list" where
  "dem_chunks_to_fault_offsets chunks = fold (\<lambda>c offsets. offsets @ [last offsets + ed_num_faults c]) chunks [0]"

record chain_layout =
  col_off :: "nat list"
  interior_row :: "nat list"
  seam_row :: "nat list"
  cl_lead :: nat
  cl_trail :: nat
  trail_row :: nat
  cl_num_faults :: nat

text \<open>The loop of \<open>plan_chain\<close>: the starts of the interior bands, of the contracted bands, and the next free row.\<close>

fun plan_rows :: "seam_id \<Rightarrow> extended_dem list \<Rightarrow> nat \<Rightarrow> (nat list \<times> nat list \<times> nat) res" where
  "plan_rows from_seam [] rows = Inr ([], [], rows)"
| "plan_rows from_seam (c # cs) rows =
     (let rows1 = rows + num_interior_rows c in
      if cs = [] then Inr ([rows], [], rows1)
      else rbind (seam_rows_or_zero c from_seam) (\<lambda>w. rbind (plan_rows from_seam cs (rows1 + w)) (\<lambda>(ints, ss, n).
        Inr (rows # ints, rows1 # ss, n))))"

definition plan_chain :: "extended_dem list \<Rightarrow> seam_id \<Rightarrow> seam_id \<Rightarrow> chain_layout res" where
  "plan_chain chunks from_seam to_seam =
     (let offs = dem_chunks_to_fault_offsets chunks in
      rbind (seam_rows_or_zero (hd chunks) to_seam) (\<lambda>lead. rbind (seam_rows_or_zero (last chunks) from_seam) (\<lambda>trail.
      rbind (plan_rows from_seam chunks lead) (\<lambda>(ints, ss, rows).
        Inr \<lparr>col_off = offs, interior_row = ints, seam_row = ss, cl_lead = lead, cl_trail = trail,
             trail_row = rows, cl_num_faults = last offs\<rparr>))))"

text \<open>One step of the row loop of \<open>chain_row_map\<close>; the bands of absent seams are empty.\<close>

definition row_map_step ::
  "nat \<times> nat \<Rightarrow> nat \<times> nat \<Rightarrow> nat \<Rightarrow> nat \<Rightarrow> nat \<Rightarrow> nat \<Rightarrow> nat list \<times> nat \<Rightarrow> nat list \<times> nat" where
  "row_map_step to_band from_band to_base from_base int_base r s =
     (if fst to_band \<le> r \<and> r < snd to_band then (fst s @ [u32 (to_base + (r - fst to_band))], snd s)
      else if fst from_band \<le> r \<and> r < snd from_band then (fst s @ [u32 (from_base + (r - fst from_band))], snd s)
      else (fst s @ [u32 (int_base + snd s)], snd s + 1))"

definition seam_band :: "extended_dem \<Rightarrow> seam_id \<Rightarrow> (nat \<times> nat) res" where
  "seam_band d i = (if has_seam d i then rbind (get_seam d i) (\<lambda>s. Inr (row_begin s, row_end s)) else Inr (0, 0))"

definition chain_row_map ::
  "extended_dem \<Rightarrow> nat \<Rightarrow> nat \<Rightarrow> chain_layout \<Rightarrow> seam_id \<Rightarrow> seam_id \<Rightarrow> nat list res" where
  "chain_row_map chunk i T plan from_seam to_seam =
     (let to_base = (if i = 0 then 0 else seam_row plan ! (i - 1));
          from_base = (if i + 1 < T then seam_row plan ! i else trail_row plan) in
      rbind (seam_band chunk to_seam) (\<lambda>to_band. rbind (seam_band chunk from_seam) (\<lambda>from_band.
        Inr (fst (fold (row_map_step to_band from_band to_base from_base (interior_row plan ! i))
                    [0..<sbm_rows (ed_H chunk)] ([], 0))))))"

definition map_column :: "nat list \<Rightarrow> nat \<Rightarrow> nat list \<Rightarrow> nat list res" where
  "map_column row_map row_limit rows =
     rbind (rmap (vget row_map) rows) (\<lambda>rs. Inr (filter (\<lambda>r. r < row_limit) rs))"

definition chain_h_columns ::
  "extended_dem list \<Rightarrow> chain_layout \<Rightarrow> seam_id \<Rightarrow> seam_id \<Rightarrow> nat \<Rightarrow> nat list list res" where
  "chain_h_columns chunks plan from_seam to_seam row_limit =
     rfold (\<lambda>i cols.
         rbind (chain_row_map (chunks ! i) i (length chunks) plan from_seam to_seam) (\<lambda>row_map.
         rbind (rmap (map_column row_map row_limit) (nested_csc (ed_H (chunks ! i)))) (\<lambda>local.
           write_cols (col_off plan ! i) local cols)))
       [0..<length chunks] (replicate (cl_num_faults plan) [])"

definition chain_o_columns :: "extended_dem list \<Rightarrow> chain_layout \<Rightarrow> nat list list res" where
  "chain_o_columns chunks plan =
     rfold (\<lambda>i cols.
         if sbm_cols (ed_O (chunks ! i)) = 0 then Inr cols
         else write_cols (col_off plan ! i) (nested_csc (ed_O (chunks ! i))) cols)
       [0..<length chunks] (replicate (cl_num_faults plan) [])"

definition validate_chain :: "extended_dem list \<Rightarrow> seam_id \<Rightarrow> seam_id \<Rightarrow> unit res" where
  "validate_chain chunks from_seam to_seam =
     rbind (rfold (\<lambda>c _. rbind (ed_validate c) (\<lambda>_. reject_extra_seams c from_seam to_seam)) chunks ()) (\<lambda>_.
     rbind (rfold (\<lambda>i _. if ed_num_observables (chunks ! i) \<noteq> ed_num_observables (chunks ! 0)
                        then Inl (Invalid_argument ''observable count mismatch at chunk'') else Inr ())
              [1..<length chunks] ()) (\<lambda>_.
     rfold (\<lambda>i _. if \<not> has_seam (chunks ! i) from_seam
                 then Inl (Invalid_argument ''no seam with id (from_seam); cannot contract'')
                 else if \<not> has_seam (chunks ! (i + 1)) to_seam
                 then Inl (Invalid_argument ''no seam with id (to_seam); cannot contract'')
                 else check_seam_boundary (chunks ! i) (chunks ! (i + 1)) from_seam to_seam)
       [0..<length chunks - 1] ()))"

definition dem_stitch_all :: "extended_dem list \<Rightarrow> seam_id \<Rightarrow> seam_id \<Rightarrow> extended_dem res" where
  "dem_stitch_all chunks from_seam to_seam =
     (if chunks = [] then Inl (Invalid_argument ''dem_stitch_all: dem_chunks must be non-empty'')
      else if length chunks = 1 then rbind (ed_validate (chunks ! 0)) (\<lambda>_. Inr (chunks ! 0))
      else
        rbind (validate_chain chunks from_seam to_seam) (\<lambda>_.
        rbind (plan_chain chunks from_seam to_seam) (\<lambda>plan.
        let T = length chunks; n_rows = trail_row plan + cl_trail plan; n_faults = u32 (cl_num_faults plan) in
        rbind (chain_h_columns chunks plan from_seam to_seam n_rows) (\<lambda>h_cols.
        rbind (rbind (from_nested_csc (u32 n_rows) n_faults h_cols) canonicalize) (\<lambda>H.
        rbind (chain_o_columns chunks plan) (\<lambda>o_cols.
        rbind (from_nested_csc (ed_num_observables (chunks ! 0)) n_faults o_cols) (\<lambda>OM.
        let r0 = \<lparr>ed_H = H, ed_O = OM, ed_rates = concat (map ed_rates chunks), seams = [], tags = []\<rparr> in
        rbind (add_seam to_seam 0 (u32 (cl_lead plan)) r0) (\<lambda>r1.
        rbind (add_seam from_seam (u32 (trail_row plan)) (u32 (trail_row plan + cl_trail plan)) r1) (\<lambda>r2.
        rbind (seam_tags (chunks ! 0) to_seam (cl_lead plan)) (\<lambda>lead_tags.
        rbind (seam_tags (chunks ! (T - 1)) from_seam (cl_trail plan)) (\<lambda>trail_tags.
          Inr (r2\<lparr>tags := lead_tags @ trail_tags\<rparr>))))))))))))"

definition dem_chunks_to_pcm :: "extended_dem list \<Rightarrow> seam_id \<Rightarrow> seam_id \<Rightarrow> sparse_binary_matrix res" where
  "dem_chunks_to_pcm chunks from_seam to_seam =
     (if chunks = [] then Inl (Invalid_argument ''dem_chunks_to_pcm: dem_chunks must be non-empty'')
      else
        rbind (validate_chain chunks from_seam to_seam) (\<lambda>_.
        rbind (plan_chain chunks from_seam to_seam) (\<lambda>plan.
        rbind (chain_h_columns chunks plan from_seam to_seam (trail_row plan)) (\<lambda>h_cols.
        rbind (from_nested_csc (u32 (trail_row plan)) (u32 (cl_num_faults plan)) h_cols) canonicalize))))"

definition dem_close :: "extended_dem \<Rightarrow> seam_id \<Rightarrow> seam_id \<Rightarrow> detector_error_model res" where
  "dem_close d to_seam from_seam =
     rbind (ed_validate d) (\<lambda>_. rbind (reject_extra_seams d from_seam to_seam) (\<lambda>_.
     rbind (seam_rows_or_zero d to_seam) (\<lambda>n_lead.
     let n_faults = ed_num_faults d; n_det = u32 (n_lead + num_interior_rows d);
         M0 = tensor_new [n_det, n_faults] in
     rbind (if 0 < n_lead
            then rbind (get_seam d to_seam) (\<lambda>ls. rbind (extract_row_band (ed_H d) (row_begin ls) (row_end ls)) (\<lambda>lead_H.
                   write_sparse_block M0 lead_H 0 0))
            else Inr M0) (\<lambda>M1.
     rbind (extract_interior_rows (ed_H d) (seams d)) (\<lambda>interior.
     rbind (write_sparse_block M1 interior n_lead 0) (\<lambda>M.
     rbind (write_sparse_block (tensor_new [ed_num_observables d, n_faults]) (ed_O d) 0 0) (\<lambda>OM.
       Inr \<lparr>detector_error_matrix = M, error_rates = ed_rates d, observables_flips_matrix = OM, error_ids = None\<rparr>)))))))"

text \<open>The loop of \<open>dem_close_all\<close> over the chunks, with the column offset and the row cursor.\<close>

definition write_contracted ::
  "extended_dem \<Rightarrow> extended_dem \<Rightarrow> seam_id \<Rightarrow> seam_id \<Rightarrow> nat \<Rightarrow> nat \<Rightarrow> u8 tensor \<Rightarrow> (u8 tensor \<times> nat) res" where
  "write_contracted c d from_seam to_seam cur off M =
     (if has_seam c from_seam \<and> has_seam d to_seam
      then rbind (get_seam c from_seam) (\<lambda>fs. rbind (get_seam d to_seam) (\<lambda>ts.
           rbind (extract_row_band (ed_H c) (row_begin fs) (row_end fs)) (\<lambda>from_H.
           rbind (extract_row_band (ed_H d) (row_begin ts) (row_end ts)) (\<lambda>to_H.
           rbind (write_sparse_block M from_H cur off) (\<lambda>M1.
           rbind (write_sparse_block M1 to_H cur (off + ed_num_faults c)) (\<lambda>M2.
             Inr (M2, cur + seam_num_rows fs)))))))
      else Inr (M, cur))"

fun close_loop ::
  "seam_id \<Rightarrow> seam_id \<Rightarrow> extended_dem list \<Rightarrow> nat \<Rightarrow> nat \<Rightarrow> detector_error_model \<Rightarrow> detector_error_model res" where
  "close_loop from_seam to_seam [] cur off res = Inr res"
| "close_loop from_seam to_seam (c # cs) cur off res =
     rbind (extract_interior_rows (ed_H c) (seams c)) (\<lambda>interior.
     rbind (if 0 < sbm_rows interior
            then rbind (write_sparse_block (detector_error_matrix res) interior cur off) (\<lambda>M. Inr (M, cur + sbm_rows interior))
            else Inr (detector_error_matrix res, cur)) (\<lambda>(M1, cur1).
     rbind (case cs of [] \<Rightarrow> Inr (M1, cur1) | d # _ \<Rightarrow> write_contracted c d from_seam to_seam cur1 off M1) (\<lambda>(M2, cur2).
     rbind (write_sparse_block (observables_flips_matrix res) (ed_O c) 0 off) (\<lambda>OM.
       close_loop from_seam to_seam cs cur2 (off + ed_num_faults c)
         (res\<lparr>detector_error_matrix := M2, observables_flips_matrix := OM, error_rates := error_rates res @ ed_rates c\<rparr>)))))"

definition dem_close_all :: "extended_dem list \<Rightarrow> seam_id \<Rightarrow> seam_id \<Rightarrow> detector_error_model res" where
  "dem_close_all chunks from_seam to_seam =
     (if chunks = [] then Inl (Invalid_argument ''dem_close_all: dem_chunks must be non-empty'')
      else
        rbind (rfold (\<lambda>c _. rbind (ed_validate c) (\<lambda>_. reject_extra_seams c from_seam to_seam)) chunks ()) (\<lambda>_.
        let k = ed_num_observables (chunks ! 0) in
        rbind (rfold (\<lambda>i _. if ed_num_observables (chunks ! i) \<noteq> k
                           then Inl (Invalid_argument ''dem_close_all: observable count mismatch at chunk'') else Inr ())
                 [1..<length chunks] ()) (\<lambda>_.
        rbind (rfold (\<lambda>i _. check_seam_boundary (chunks ! i) (chunks ! (i + 1)) from_seam to_seam)
                 [0..<length chunks - 1] ()) (\<lambda>_.
        let offs = dem_chunks_to_fault_offsets chunks; n_faults = last offs in
        rbind (seam_rows_or_zero (chunks ! 0) to_seam) (\<lambda>lead.
        rbind (rmap (\<lambda>c. seam_rows_or_zero c from_seam) (butlast chunks)) (\<lambda>ws.
        let n_det = lead + sum_list (map num_interior_rows chunks) + sum_list ws;
            M0 = tensor_new [n_det, n_faults] in
        rbind (if 0 < lead \<and> has_seam (chunks ! 0) to_seam
               then rbind (get_seam (chunks ! 0) to_seam) (\<lambda>s.
                    rbind (extract_row_band (ed_H (chunks ! 0)) (row_begin s) (row_end s)) (\<lambda>lead_H.
                      write_sparse_block M0 lead_H 0 0))
               else Inr M0) (\<lambda>M1.
          close_loop from_seam to_seam chunks lead 0
            \<lparr>detector_error_matrix = M1, error_rates = [], observables_flips_matrix = tensor_new [k, n_faults],
             error_ids = None\<rparr>)))))))"

section \<open>Rounds and observables of a chain\<close>

definition chunk_seam_width :: "extended_dem \<Rightarrow> seam_id \<Rightarrow> seam_id \<Rightarrow> nat res" where
  "chunk_seam_width c from_seam to_seam =
     rbind (seam_rows_or_zero c to_seam) (\<lambda>t. if 0 < t then Inr t
       else rbind (seam_rows_or_zero c from_seam) (\<lambda>f. Inr f))"

definition validate_dem_chunk_sequence :: "extended_dem list \<Rightarrow> seam_id \<Rightarrow> seam_id \<Rightarrow> unit res" where
  "validate_dem_chunk_sequence chunks from_seam to_seam =
     (if chunks = [] then Inl (Invalid_argument ''dem_chunks must be non-empty'')
      else rbind (chunk_seam_width (chunks ! 0) from_seam to_seam) (\<lambda>d.
        if d = 0 then Inl (Invalid_argument ''chunk 0 has no seam rows'')
        else rfold (\<lambda>c _.
            if num_interior_rows c mod d \<noteq> 0
            then Inl (Invalid_argument ''interior rows not a whole number of rounds'')
            else if list_ex (\<lambda>s. seam_num_rows s \<noteq> 0 \<and> seam_num_rows s \<noteq> d) (seams c)
            then Inl (Invalid_argument ''seam width != sequence width'')
            else Inr ()) chunks ()))"

definition dem_chunk_rounds :: "extended_dem \<Rightarrow> seam_id \<Rightarrow> seam_id \<Rightarrow> nat res" where
  "dem_chunk_rounds c from_seam to_seam =
     rbind (chunk_seam_width c from_seam to_seam) (\<lambda>d.
       if d = 0 then Inl (Invalid_argument ''dem_chunk_rounds: chunk has no seam rows on either side'')
       else if num_interior_rows c mod d \<noteq> 0
       then Inl (Invalid_argument ''dem_chunk_rounds: interior rows not a whole number of rounds'')
       else rbind (seam_rows_or_zero c to_seam) (\<lambda>t.
         Inr (u32 ((if 0 < t then 1 else 0) + num_interior_rows c div d))))"

definition dem_chunks_to_rounds :: "extended_dem list \<Rightarrow> seam_id \<Rightarrow> seam_id \<Rightarrow> nat res" where
  "dem_chunks_to_rounds chunks from_seam to_seam =
     rbind (validate_dem_chunk_sequence chunks from_seam to_seam) (\<lambda>_.
     rfold (\<lambda>c rounds. rbind (dem_chunk_rounds c from_seam to_seam) (\<lambda>r. Inr (rounds + r))) chunks 0)"

text \<open>The round counter is an \<open>int32_t\<close>; incrementing it past its range is undefined.\<close>

definition dem_chunks_to_detector_round :: "extended_dem list \<Rightarrow> seam_id \<Rightarrow> seam_id \<Rightarrow> nat list res" where
  "dem_chunks_to_detector_round chunks from_seam to_seam =
     rbind (validate_dem_chunk_sequence chunks from_seam to_seam) (\<lambda>_.
     rbind (chunk_seam_width (chunks ! 0) from_seam to_seam) (\<lambda>d.
     rbind (rfold (\<lambda>c s. rbind (dem_chunk_rounds c from_seam to_seam) (\<lambda>rounds.
         rfold (\<lambda>_ (result, round). if round < 2147483647 then Inr (result @ replicate d round, round + 1)
                                     else Inl Undefined_behaviour) [0..<rounds] s)) chunks ([], 0)) (\<lambda>(result, round).
       Inr result)))"

definition dem_chunks_to_o_sparse :: "extended_dem list \<Rightarrow> nat list list res" where
  "dem_chunks_to_o_sparse chunks =
     (if chunks = [] then Inl (Invalid_argument ''dem_chunks_to_o_sparse: dem_chunks must be non-empty'')
      else
        rbind (rfold (\<lambda>c _. ed_validate c) chunks ()) (\<lambda>_.
        let k_obs = ed_num_observables (chunks ! 0) in
        rbind (rfold (\<lambda>i _. if ed_num_observables (chunks ! i) \<noteq> k_obs
                           then Inl (Invalid_argument ''dem_chunks_to_o_sparse: observable count mismatch at chunk'') else Inr ())
                 [1..<length chunks] ()) (\<lambda>_.
        rbind (rfold (\<lambda>c (o_sparse, col_off).
            let nc = ed_num_faults c in
            if 0 < nc \<and> max_u32 < col_off + nc - 1
            then Inl (Runtime_error ''dem_chunks_to_o_sparse: global fault column exceeds uint32_t'')
            else if sbm_cols (ed_O c) = 0 then Inr (o_sparse, col_off + nc)
            else let m = to_csc (ed_O c) in
              rbind (rfold (\<lambda>fc os. rbind (vget (sbm_ptr m) fc) (\<lambda>b. rbind (vget (sbm_ptr m) (fc + 1)) (\<lambda>e.
                  rfold (\<lambda>row os. rbind (vget os row) (\<lambda>l. vset os row (l @ [u32 (col_off + fc)])))
                    (vslice b e (sbm_idx m)) os))) [0..<nc] o_sparse) (\<lambda>os.
                Inr (os, col_off + nc))) chunks (replicate k_obs [], 0)) (\<lambda>(o_sparse, col_off).
          Inr o_sparse))))"

definition dem_chunks_to_o_chunked :: "extended_dem list \<Rightarrow> nat \<Rightarrow> nat \<Rightarrow> nat \<Rightarrow> chunked_observable_map res" where
  "dem_chunks_to_o_chunked chain rep copies rep_rounds =
     (if chain = [] then Inl (Invalid_argument ''dem_chunks_to_o_chunked: chain must be non-empty'')
      else let k_obs = ed_num_observables (chain ! 0) in
        rbind (rfold (\<lambda>i _. if ed_num_observables (chain ! i) \<noteq> k_obs
                           then Inl (Invalid_argument ''dem_chunks_to_o_chunked: observable count mismatch at chunk'') else Inr ())
                 [1..<length chain] ()) (\<lambda>_.
        if copies = 0 then Inl (Invalid_argument ''dem_chunks_to_o_chunked: repeated_copies must be at least 1'')
        else if rep < length chain \<and> length chain < rep + copies
        then Inl (Invalid_argument ''dem_chunks_to_o_chunked: the repeating chunk's copies run past the end of the chain'')
        else if length chain < rep
        then Inl (Invalid_argument ''dem_chunks_to_o_chunked: repeating must index the chain, or equal its size when nothing repeats'')
        else if rep_rounds < copies
        then Inl (Invalid_argument ''dem_chunks_to_o_chunked: the repeating chunk cannot stand for fewer rounds than the copies the chain carries'')
        else
          rbind (rmap (\<lambda>i. let c = chain ! i in
              if sbm_cols (ed_O c) = 0 then from_nested_csc k_obs (ed_num_faults c) (replicate (ed_num_faults c) [])
              else Inr (to_csc (ed_O c)))
            (filter (\<lambda>i. \<not> (1 < copies \<and> rep < i \<and> i < rep + copies)) [0..<length chain])) (\<lambda>cols.
            Inr \<lparr>com_columns = cols, com_repeating = rep, com_repeat_count = rep_rounds\<rparr>)))"

section \<open>Equal fault columns\<close>

datatype prior_combine_mode = or_combine | sum_combine

definition canonical_columns :: "sparse_binary_matrix \<Rightarrow> nat list list res" where
  "canonical_columns m = rbind (canonicalize (to_csc m)) (\<lambda>c. Inr (to_nested_csc c))"

record dem_column_supports =
  H_cols :: "nat list list"
  O_cols :: "nat list list"
  flat_cols :: "nat list list"

text \<open>The support of column \<open>j\<close> is the slice \<open>[off[j], off[j+1])\<close> of the flat array; here the list of the slices.\<close>

definition dem_column_supports_new :: "extended_dem \<Rightarrow> dem_column_supports res" where
  "dem_column_supports_new d =
     rbind (canonical_columns (ed_H d)) (\<lambda>hc. rbind (canonical_columns (ed_O d)) (\<lambda>oc0.
     let n = ed_num_faults d; oc = (if oc0 = [] then replicate n [] else oc0); obs_base = sbm_rows (ed_H d) in
     rbind (rmap (\<lambda>j. rbind (vget hc j) (\<lambda>h. rbind (vget oc j) (\<lambda>ob.
         Inr (h @ map (\<lambda>r. u32 (obs_base + r)) ob)))) [0..<n]) (\<lambda>flat.
       Inr \<lparr>H_cols = hc, O_cols = oc, flat_cols = flat\<rparr>)))"

record column_group =
  cg_representative :: nat
  cg_accumulator :: real
  cg_members :: nat

text \<open>\<open>std::map\<close> with the lexicographic order of its vector keys: a sorted association list.\<close>

definition vec_less :: "nat list \<Rightarrow> nat list \<Rightarrow> bool" where
  "vec_less xs ys \<longleftrightarrow> ord_class.lexordp xs ys"

fun map_emplace :: "nat list \<Rightarrow> 'v \<Rightarrow> (nat list \<times> 'v) list \<Rightarrow> (nat list \<times> 'v) list" where
  "map_emplace k v [] = [(k, v)]"
| "map_emplace k v ((k', v') # m) =
     (if vec_less k k' then (k, v) # (k', v') # m
      else if k = k' then (k', v') # m else (k', v') # map_emplace k v m)"

fun map_update :: "nat list \<Rightarrow> ('v \<Rightarrow> 'v) \<Rightarrow> (nat list \<times> 'v) list \<Rightarrow> (nat list \<times> 'v) list" where
  "map_update k f [] = []"
| "map_update k f ((k', v') # m) = (if k = k' then (k', f v') # m else (k', v') # map_update k f m)"

definition merge_step ::
  "prior_combine_mode \<Rightarrow> nat list list \<Rightarrow> real list \<Rightarrow> nat \<Rightarrow> (nat list \<times> column_group) list \<Rightarrow> (nat list \<times> column_group) list" where
  "merge_step mode sups rates j m =
     (let sup = sups ! j; p = rates ! j in
      case map_of m sup of
        None \<Rightarrow> map_emplace sup \<lparr>cg_representative = j,
                  cg_accumulator = (if mode = or_combine then 1 - 2 * p else p), cg_members = 1\<rparr> m
      | Some _ \<Rightarrow> map_update sup (\<lambda>g. g\<lparr>cg_accumulator := (if mode = or_combine then cg_accumulator g * (1 - 2 * p)
                     else cg_accumulator g + p), cg_members := cg_members g + 1\<rparr>) m)"

definition merged_rate :: "prior_combine_mode \<Rightarrow> real list \<Rightarrow> column_group \<Rightarrow> real" where
  "merged_rate mode rates g =
     (if cg_members g = 1 then rates ! cg_representative g
      else if mode = or_combine then (1 - cg_accumulator g) / 2 else min 1 (cg_accumulator g))"

definition dem_merge_duplicate_columns :: "extended_dem \<Rightarrow> prior_combine_mode \<Rightarrow> extended_dem res" where
  "dem_merge_duplicate_columns d mode =
     rbind (ed_validate d) (\<lambda>_.
     let n = ed_num_faults d in
     if n = 0 then Inr d
     else rbind (dem_column_supports_new d) (\<lambda>cols.
       let sup_map = fold (merge_step mode (flat_cols cols) (ed_rates d)) [0..<n] [];
           new_n = u32 (length sup_map) in
       rbind (from_nested_csc (sbm_rows (ed_H d)) new_n
                (map (\<lambda>kg. H_cols cols ! cg_representative (snd kg)) sup_map)) (\<lambda>H.
       rbind (from_nested_csc (ed_num_observables d) new_n
                (map (\<lambda>kg. O_cols cols ! cg_representative (snd kg)) sup_map)) (\<lambda>OM.
         Inr \<lparr>ed_H = H, ed_O = OM, ed_rates = map (\<lambda>kg. merged_rate mode (ed_rates d) (snd kg)) sup_map,
              seams = seams d, tags = tags d\<rparr>))))"

definition are_dem_columns_unique :: "extended_dem \<Rightarrow> bool res" where
  "are_dem_columns_unique d =
     rbind (ed_validate d) (\<lambda>_. rbind (dem_column_supports_new d) (\<lambda>cols. Inr (distinct (flat_cols cols))))"

definition assert_dem_columns_unique :: "extended_dem \<Rightarrow> unit res" where
  "assert_dem_columns_unique d =
     rbind (ed_validate d) (\<lambda>_. rbind (are_dem_columns_unique d) (\<lambda>u.
       if u then Inr ()
       else Inl (Invalid_argument ''extended_dem has duplicate fault columns; call dem_merge_duplicate_columns() to merge them.'')))"

definition dem_stitch_merged :: "extended_dem list \<Rightarrow> seam_id \<Rightarrow> seam_id \<Rightarrow> prior_combine_mode \<Rightarrow> extended_dem res" where
  "dem_stitch_merged chunks from_seam to_seam mode =
     rbind (dem_stitch_all chunks from_seam to_seam) (\<lambda>d. dem_merge_duplicate_columns d mode)"

end
