(* ===== verification/QEC_Chunk_Matrix.thy ===== *)
theory QEC_Chunk_Matrix
  imports QEC_Chunks
begin

text \<open>
  The matrix helpers of the chunk operations, through one representation relation: \<open>rep m nr nc f\<close> says that
  the sparse matrix \<open>m\<close> is well formed, has shape \<open>nr\<close> by \<open>nc\<close> and multiplicity \<open>f r c\<close> at every cell. Every
  helper is shown to succeed on represented matrices within the 32-bit bounds and to compute the cells one
  expects; \<open>nnz\<close> counts the stored entries.
\<close>

section \<open>Representation\<close>

definition nnz :: "nat \<Rightarrow> nat \<Rightarrow> (nat \<Rightarrow> nat \<Rightarrow> nat) \<Rightarrow> nat" where
  "nnz nr nc f = (\<Sum>r<nr. \<Sum>c<nc. f r c)"

definition rep :: "sparse_binary_matrix \<Rightarrow> nat \<Rightarrow> nat \<Rightarrow> (nat \<Rightarrow> nat \<Rightarrow> nat) \<Rightarrow> bool" where
  "rep m nr nc f \<longleftrightarrow> sbm_ok m \<and> sbm_rows m = nr \<and> sbm_cols m = nc \<and> (\<forall>r<nr. \<forall>c<nc. mult_at m r c = f r c)"

lemma repD:
  assumes "rep m nr nc f"
  shows "sbm_ok m" "sbm_rows m = nr" "sbm_cols m = nc" "\<And>r c. r < nr \<Longrightarrow> c < nc \<Longrightarrow> mult_at m r c = f r c"
    "nr \<le> max_u32" "nc \<le> max_u32"
  using assms sbm_okD(3,4) [of m] by (auto simp: rep_def)

lemma rep_self: "sbm_ok m \<Longrightarrow> rep m (sbm_rows m) (sbm_cols m) (mult_at m)"
  by (simp add: rep_def)

lemma rep_cong: "rep m nr nc f \<Longrightarrow> (\<And>r c. r < nr \<Longrightarrow> c < nc \<Longrightarrow> f r c = g r c) \<Longrightarrow> rep m nr nc g"
  by (simp add: rep_def)

lemma nnz_cong: "(\<And>r c. r < nr \<Longrightarrow> c < nc \<Longrightarrow> f r c = g r c) \<Longrightarrow> nnz nr nc f = nnz nr nc g"
  by (simp add: nnz_def)

lemma nnz_swap: "nnz nr nc f = (\<Sum>c<nc. \<Sum>r<nr. f r c)"
  unfolding nnz_def by (rule sum.swap)

lemma nnz_0 [simp]: "nnz 0 nc f = 0" "nnz nr nc (\<lambda>r c. 0) = 0" "nnz nr 0 f = 0"
  by (simp_all add: nnz_def)

lemma sum_lessThan_add: "(\<Sum>i<m + n. g i) = (\<Sum>i<m. g i) + (\<Sum>i<n. g (m + i :: nat) :: nat)"
  by (induction n) (simp_all add: add.assoc)

lemma nnz_hcat:
  "nnz nr (m + n) (\<lambda>r c. if c < m then f r c else g r (c - m)) = nnz nr m f + nnz nr n g"
  by (simp add: nnz_def sum_lessThan_add sum.distrib)

lemma nnz_vstack:
  "nnz (m + n) nc (\<lambda>r c. if r < m then f r c else g (r - m) c) = nnz m nc f + nnz n nc g"
  by (simp add: nnz_def sum_lessThan_add)

lemma nnz_select: "nnz (length xs) nc (\<lambda>i. f (xs ! i)) = sum_list (map (\<lambda>r. \<Sum>c<nc. f r c) xs)"
  by (simp add: nnz_def sum_list_sum_nth atLeast0LessThan)

lemma length_by_counts: "set g \<subseteq> {..<n :: nat} \<Longrightarrow> length g = (\<Sum>i<n. count_list g i)"
  by (rule sum_count_set [symmetric]) auto

lemma num_entries:
  assumes "sbm_ok m"
  shows "length (sbm_idx m) = nnz (sbm_rows m) (sbm_cols m) (mult_at m)"
proof -
  have "length (sbm_idx m) = (\<Sum>g<num_groups m. length (groups m ! g))"
    using sum_length_groups [OF assms] by (simp add: sum_list_sum_nth atLeast0LessThan)
  also have "\<dots> = (\<Sum>g<num_groups m. \<Sum>i<index_bound m. count_list (groups m ! g) i)"
    using groups_bound [OF assms] by (intro sum.cong refl length_by_counts) simp
  also have "\<dots> = nnz (sbm_rows m) (sbm_cols m) (mult_at m)"
  proof (cases "sbm_layout m")
    case CSC
    then show ?thesis unfolding nnz_swap by (simp add: num_groups_def index_bound_def mult_at_def)
  next
    case CSR
    then show ?thesis unfolding nnz_def by (simp add: num_groups_def index_bound_def mult_at_def)
  qed
  finally show ?thesis .
qed

lemma rep_nnz: "rep m nr nc f \<Longrightarrow> nnz nr nc f = length (sbm_idx m)"
  using num_entries [of m] by (auto simp: rep_def intro: nnz_cong)

lemma rep_nnz_le: "rep m nr nc f \<Longrightarrow> nnz nr nc f \<le> max_u32"
  using rep_nnz [of m nr nc f] sbm_okD(5) [OF repD(1)] by simp

section \<open>Nested forms\<close>

lemma nested_csc_rep:
  assumes "rep m nr nc f"
  shows "length (to_nested_csc m) = nc"
    and "\<And>c r. c < nc \<Longrightarrow> r < nr \<Longrightarrow> count_list (to_nested_csc m ! c) r = f r c"
    and "\<And>c. c < nc \<Longrightarrow> set (to_nested_csc m ! c) \<subseteq> {..<nr}"
proof -
  note p = to_csc_props [OF repD(1) [OF assms]] and d = repD [OF assms]
  have g: "to_nested_csc m = groups (to_csc m)" by (rule to_nested_csc_groups [OF d(1)])
  have n: "num_groups (to_csc m) = nc" "index_bound (to_csc m) = nr"
    using p(2-4) d(2,3) by (simp_all add: num_groups_def index_bound_def)
  show "length (to_nested_csc m) = nc" by (simp add: g n)
  show "count_list (to_nested_csc m ! c) r = f r c" if "c < nc" "r < nr" for c r
    using p(5) [of r c] that d by (simp add: g mult_at_def p(2))
  show "set (to_nested_csc m ! c) \<subseteq> {..<nr}" if "c < nc" for c
    using groups_bound [OF p(1), of "groups (to_csc m) ! c"] that by (simp add: g n)
qed

lemma nested_csr_rep:
  assumes "rep m nr nc f"
  shows "length (to_nested_csr m) = nr"
    and "\<And>c r. c < nc \<Longrightarrow> r < nr \<Longrightarrow> count_list (to_nested_csr m ! r) c = f r c"
    and "\<And>r. r < nr \<Longrightarrow> set (to_nested_csr m ! r) \<subseteq> {..<nc}"
proof -
  note p = to_csr_props [OF repD(1) [OF assms]] and d = repD [OF assms]
  have g: "to_nested_csr m = groups (to_csr m)" by (rule to_nested_csr_groups [OF d(1)])
  have n: "num_groups (to_csr m) = nr" "index_bound (to_csr m) = nc"
    using p(2-4) d(2,3) by (simp_all add: num_groups_def index_bound_def)
  show "length (to_nested_csr m) = nr" by (simp add: g n)
  show "count_list (to_nested_csr m ! r) c = f r c" if "c < nc" "r < nr" for c r
    using p(5) [of r c] that d by (simp add: g mult_at_def p(2))
  show "set (to_nested_csr m ! r) \<subseteq> {..<nc}" if "r < nr" for r
    using groups_bound [OF p(1), of "groups (to_csr m) ! r"] that by (simp add: g n)
qed

lemma nested_csc_eq: "sbm_ok m \<Longrightarrow> nested_csc m = to_nested_csc m"
  using to_csc_props(1,2) [of m] by (cases "sbm_layout m")
    (simp_all add: nested_csc_def to_nested_csc_groups to_csc_def)

text \<open>Columns with the right counts make a matrix that represents them, as long as nothing leaves 32 bits.\<close>

definition cols_rep :: "nat list list \<Rightarrow> nat \<Rightarrow> nat \<Rightarrow> (nat \<Rightarrow> nat \<Rightarrow> nat) \<Rightarrow> bool" where
  "cols_rep nested nr nc f \<longleftrightarrow> length nested = nc \<and>
     (\<forall>c<nc. set (nested ! c) \<subseteq> {..<nr} \<and> (\<forall>r<nr. count_list (nested ! c) r = f r c))"

lemma cols_rep_nested: "rep m nr nc f \<Longrightarrow> cols_rep (to_nested_csc m) nr nc f"
  using nested_csc_rep [of m nr nc f] by (simp add: cols_rep_def)

lemma cols_rep_length: "cols_rep nested nr nc f \<Longrightarrow> sum_list (map length nested) = nnz nr nc f"
  by (auto simp: cols_rep_def nnz_swap sum_list_sum_nth atLeast0LessThan length_by_counts intro!: sum.cong)

lemma from_csc_rep:
  assumes "cols_rep nested nr nc f" "nc < max_u32" "nr \<le> max_u32" "nnz nr nc f \<le> max_u32"
  shows "\<exists>m. from_nested_csc nr nc nested = Inr m \<and> rep m nr nc f \<and> sbm_layout m = CSC \<and> groups m = nested"
proof -
  have c: "length nested = nc" "\<And>c. c < nc \<Longrightarrow> set (nested ! c) \<subseteq> {..<nr}"
    "\<And>c r. c < nc \<Longrightarrow> r < nr \<Longrightarrow> count_list (nested ! c) r = f r c"
    using assms(1) by (auto simp: cols_rep_def)
  have "\<forall>g \<in> set nested. \<forall>r \<in> set g. r < nr"
    using c(1,2) by (fastforce simp: in_set_conv_nth [of _ nested])
  from from_nested_csc_groups [OF c(1) assms(2,3) _ this]
  obtain m where m: "from_nested_csc nr nc nested = Inr m" "sbm_ok m" "sbm_layout m = CSC"
    "sbm_rows m = nr" "sbm_cols m = nc" "groups m = nested"
    using cols_rep_length [OF assms(1)] assms(4) by auto
  then have "rep m nr nc f" using c(3) by (simp add: rep_def mult_at_def)
  then show ?thesis using m by blast
qed

lemma from_csr_rep:
  assumes "length nested = nr" "nr < max_u32" "nc \<le> max_u32" "nnz nr nc f \<le> max_u32"
    and "\<And>r. r < nr \<Longrightarrow> set (nested ! r) \<subseteq> {..<nc}"
    and "\<And>r c. r < nr \<Longrightarrow> c < nc \<Longrightarrow> count_list (nested ! r) c = f r c"
  shows "\<exists>m. from_nested_csr nr nc nested = Inr m \<and> rep m nr nc f"
proof -
  have "sum_list (map length nested) = nnz nr nc f"
    using assms(1,5,6)
    by (auto simp: nnz_def sum_list_sum_nth atLeast0LessThan length_by_counts [OF assms(5)] intro!: sum.cong)
  moreover have "\<forall>g \<in> set nested. \<forall>r \<in> set g. r < nc"
    using assms(1,5) by (fastforce simp: in_set_conv_nth [of _ nested])
  ultimately obtain m where "from_nested_csr nr nc nested = Inr m" "sbm_ok m" "sbm_layout m = CSR"
    "sbm_rows m = nr" "sbm_cols m = nc" "groups m = nested"
    using from_nested_csr_groups [OF assms(1-3)] assms(4) by auto
  then show ?thesis using assms(6) by (auto simp: rep_def mult_at_def)
qed

section \<open>The helpers\<close>

lemma write_cols_eq:
  "length mid = length src \<Longrightarrow> write_cols (length pre) src (pre @ mid @ post) = Inr (pre @ src @ post)"
proof -
  assume len: "length mid = length src"
  have "rfold (\<lambda>j cols. vset cols (length pre + j) (src ! j)) [0..<k] (pre @ mid @ post)
      = Inr (pre @ take k src @ drop k mid @ post)" if "k \<le> length src" for k
    using that
  proof (induction k)
    case (Suc k)
    then have "pre @ take k src @ drop k mid @ post =
        pre @ take k src @ mid ! k # drop (Suc k) mid @ post" using len by (simp add: Cons_nth_drop_Suc)
    then show ?case using Suc len by (simp add: rfold_append list_update_append take_Suc_conv_app_nth)
  qed simp
  from this [of "length src"] show ?thesis using len by (simp add: write_cols_def)
qed

lemma zero_matrix_rep: "nc < max_u32 \<Longrightarrow> \<exists>m. zero_matrix 0 nc = Inr m \<and> rep m 0 nc f"
  using from_csc_rep [of "replicate nc []" 0 nc "\<lambda>r c. 0"]
  by (auto simp: zero_matrix_def cols_rep_def rep_def)

lemma select_rep:
  assumes "rep H nr nc f" "set xs \<subseteq> {..<nr}" "length xs < max_u32"
    and "sum_list (map (\<lambda>r. \<Sum>c<nc. f r c) xs) \<le> max_u32"
  shows "\<exists>m. from_nested_csr (length xs) nc (map ((!) (to_nested_csr H)) xs) = Inr m \<and>
    rep m (length xs) nc (\<lambda>i. f (xs ! i))"
proof (rule from_csr_rep)
  have b: "r < length xs \<Longrightarrow> xs ! r < nr" for r using assms(2) nth_mem by blast
  show "nc \<le> max_u32" by (rule repD(6) [OF assms(1)])
  show "nnz (length xs) nc (\<lambda>i. f (xs ! i)) \<le> max_u32" using assms(4) by (simp add: nnz_select)
  show "set (map ((!) (to_nested_csr H)) xs ! r) \<subseteq> {..<nc}" if "r < length xs" for r
    using nested_csr_rep(3) [OF assms(1) b [OF that]] that by simp
  show "count_list (map ((!) (to_nested_csr H)) xs ! r) c = f (xs ! r) c" if "r < length xs" "c < nc" for r c
    using nested_csr_rep(2) [OF assms(1) _ b] that by simp
qed (use assms in auto)

lemma hcat_rep:
  assumes "rep a nr m f" "rep b nr n g" "m + n < max_u32" "nnz nr m f + nnz nr n g \<le> max_u32"
  shows "\<exists>x. hcat a b = Inr x \<and> rep x nr (m + n) (\<lambda>r c. if c < m then f r c else g r (c - m))"
proof -
  have "cols_rep (to_nested_csc a @ to_nested_csc b) nr (m + n) (\<lambda>r c. if c < m then f r c else g r (c - m))"
    using cols_rep_nested [OF assms(1)] cols_rep_nested [OF assms(2)] by (auto simp: cols_rep_def nth_append)
  from from_csc_rep [OF this assms(3)] show ?thesis
    using assms repD(2,3,5) [OF assms(1)] repD(2,3) [OF assms(2)] by (auto simp: hcat_def nnz_hcat)
qed

lemma count_list_shift:
  "set g \<subseteq> {..<n} \<Longrightarrow> m + n \<le> max_u32 \<Longrightarrow>
   count_list (map (\<lambda>r. u32 (m + r)) g) x = (if m \<le> x then count_list g (x - m) else 0)"
  by (induction g) auto

lemma count_list_zero: "set g \<subseteq> {..<n :: nat} \<Longrightarrow> n \<le> x \<Longrightarrow> count_list g x = 0"
  by (auto simp: count_list_0_iff)

lemma vstack_rep:
  assumes "rep a m nc f" "rep b n nc g" "m + n \<le> max_u32" "nc < max_u32" "nnz m nc f + nnz n nc g \<le> max_u32"
  shows "\<exists>x. vstack a b = Inr x \<and> rep x (m + n) nc (\<lambda>r c. if r < m then f r c else g (r - m) c)"
proof -
  let ?cols = "map (\<lambda>c. to_nested_csc a ! c @ map (\<lambda>r. u32 (m + r)) (to_nested_csc b ! c)) [0..<nc]"
  have "cols_rep ?cols (m + n) nc (\<lambda>r c. if r < m then f r c else g (r - m) c)"
  proof (unfold cols_rep_def, intro conjI allI impI)
    fix c assume c: "c < nc"
    note A = nested_csc_rep(2,3) [OF assms(1) c] and B = nested_csc_rep(2,3) [OF assms(2) c]
    show "set (?cols ! c) \<subseteq> {..<m + n}"
    proof
      fix x assume "x \<in> set (?cols ! c)"
      then consider "x \<in> set (to_nested_csc a ! c)" | y where "y \<in> set (to_nested_csc b ! c)" "x = u32 (m + y)"
        using c by auto
      then show "x \<in> {..<m + n}" using A(2) B(2) assms(3) by cases auto
    qed
    fix r assume r: "r < m + n"
    show "count_list (?cols ! c) r = (if r < m then f r c else g (r - m) c)"
      using c r A B count_list_zero [OF A(2), of r]
      by (auto simp: count_list_shift [OF B(2) assms(3)])
  qed simp
  from from_csc_rep [OF this assms(4,3)] show ?thesis
    using assms repD(2,3) [OF assms(1)] repD(2,3) [OF assms(2)] by (auto simp: vstack_def nnz_vstack)
qed

lemma pad_right_rep:
  assumes "rep a nr m f" "m + n < max_u32"
  shows "\<exists>x. pad_right a (m + n) = Inr x \<and> rep x nr (m + n) (\<lambda>r c. if c < m then f r c else 0)"
proof -
  let ?cols = "take (m + n) (to_nested_csc a) @ replicate n []"
  have "cols_rep ?cols nr (m + n) (\<lambda>r c. if c < m then f r c else 0)"
    using cols_rep_nested [OF assms(1)] by (auto simp: cols_rep_def nth_append)
  moreover have "nnz nr (m + n) (\<lambda>r c. if c < m then f r c else 0) \<le> max_u32"
    using nnz_hcat [of nr m n f "\<lambda>r c. 0"] rep_nnz_le [OF assms(1)] by simp
  ultimately show ?thesis
    using from_csc_rep [of ?cols nr "m + n"] assms repD(2,5) [OF assms(1)] nested_csc_rep(1) [OF assms(1)]
    by (simp add: pad_right_def Let_def) blast
qed

lemma pad_left_rep:
  assumes "rep a nr n f" "m + n < max_u32"
  shows "\<exists>x. pad_left a m (m + n) = Inr x \<and> rep x nr (m + n) (\<lambda>r c. if c < m then 0 else f r (c - m))"
proof -
  let ?cols = "replicate m [] @ to_nested_csc a"
  have "write_cols m (to_nested_csc a) (replicate (m + n) []) = Inr ?cols"
    using write_cols_eq [of "replicate n []" "to_nested_csc a" "replicate m []" "[]"] nested_csc_rep(1) [OF assms(1)]
    by (simp add: replicate_add)
  moreover have "cols_rep ?cols nr (m + n) (\<lambda>r c. if c < m then 0 else f r (c - m))"
    using cols_rep_nested [OF assms(1)] by (auto simp: cols_rep_def nth_append)
  moreover have "nnz nr (m + n) (\<lambda>r c. if c < m then 0 else f r (c - m)) \<le> max_u32"
    using nnz_hcat [of nr m n "\<lambda>r c. 0" f] rep_nnz_le [OF assms(1)] by simp
  ultimately show ?thesis
    using from_csc_rep [of ?cols nr "m + n"] assms repD(2,5) [OF assms(1)] by (auto simp: pad_left_def)
qed

lemma push_rows_rep:
  assumes "rep b n nc g" "rep a m nc f" "m + n \<le> max_u32" "nc < max_u32" "nnz m nc f + nnz n nc g \<le> max_u32"
  shows "\<exists>x. push_rows b a = Inr x \<and> rep x (m + n) nc (\<lambda>r c. if r < m then f r c else g (r - m) c)"
proof (cases "0 < n \<and> 0 < m")
  case True
  then show ?thesis using vstack_rep [OF assms(2,1,3-5)] repD(2) [OF assms(1)] repD(2) [OF assms(2)]
    by (simp add: push_rows_def)
next
  case False
  then show ?thesis using assms(1,2) repD(2) [OF assms(1)] repD(2) [OF assms(2)]
    by (auto simp: push_rows_def rep_def)
qed

section \<open>Blocks of a dense matrix\<close>

definition bit_mat :: "nat \<Rightarrow> nat \<Rightarrow> (nat \<Rightarrow> nat \<Rightarrow> bool) \<Rightarrow> u8 tensor" where
  "bit_mat nr nc P = mk_mat nr nc (\<lambda>r c. if P r c then 1 else 0)"

lemma bit_mat_cong: "(\<And>r c. r < nr \<Longrightarrow> c < nc \<Longrightarrow> P r c = Q r c) \<Longrightarrow> bit_mat nr nc P = bit_mat nr nc Q"
  unfolding bit_mat_def by (rule mat_eqI [of _ nr nc]) (simp_all add: mat_simps)

lemma tensor_new_bit_mat: "tensor_new [nr, nc] = bit_mat nr nc (\<lambda>r c. False)"
  unfolding bit_mat_def by (rule mat_eqI [of _ nr nc]) (simp_all add: mat_simps)

lemma flip_bit_mat:
  assumes "r < nr" "c < nc"
  shows "tensor_flip (bit_mat nr nc P) [r, c] = Inr (bit_mat nr nc (\<lambda>r' c'. P r' c' \<noteq> (r' = r \<and> c' = c)))"
proof -
  have "tensor_flip (bit_mat nr nc P) [r, c] = Inr (mat_upd (bit_mat nr nc P) r c (xor (if P r c then 1 else 0) 1))"
    using assms by (simp add: bit_mat_def tensor_flip_mat [OF is_mat_mk_mat] mat_simps)
  also have "mat_upd (bit_mat nr nc P) r c (xor (if P r c then 1 else 0) 1)
      = bit_mat nr nc (\<lambda>r' c'. P r' c' \<noteq> (r' = r \<and> c' = c))"
    unfolding bit_mat_def using assms
    by (intro mat_eqI [of _ nr nc]) (auto simp: mat_simps ent_upd [OF is_mat_mk_mat])
  finally show ?thesis .
qed

lemma flips_bit_mat:
  assumes "\<forall>rc \<in> set L. ro + fst rc < nr \<and> co + snd rc < nc"
  shows "rfold (\<lambda>rc t. tensor_flip t [ro + fst rc, co + snd rc]) L (bit_mat nr nc P)
    = Inr (bit_mat nr nc (\<lambda>r c. P r c \<noteq> (ro \<le> r \<and> co \<le> c \<and> odd (count_list L (r - ro, c - co)))))"
  using assms
proof (induction L arbitrary: P)
  case (Cons rc L)
  let ?P' = "\<lambda>r c. P r c \<noteq> (r = ro + fst rc \<and> c = co + snd rc)"
  have "rfold (\<lambda>rc t. tensor_flip t [ro + fst rc, co + snd rc]) L (bit_mat nr nc ?P')
      = Inr (bit_mat nr nc (\<lambda>r c. ?P' r c \<noteq> (ro \<le> r \<and> co \<le> c \<and> odd (count_list L (r - ro, c - co)))))"
    by (rule Cons.IH) (use Cons.prems in auto)
  moreover have "(?P' r c \<noteq> (ro \<le> r \<and> co \<le> c \<and> odd (count_list L (r - ro, c - co))))
      = (P r c \<noteq> (ro \<le> r \<and> co \<le> c \<and> odd (count_list (rc # L) (r - ro, c - co))))" for r c
    by (cases rc) auto
  ultimately show ?case using Cons.prems by (simp add: flip_bit_mat)
qed simp

lemma count_hits_cells:
  "count_list (hits_cells hits) (r, c) = (if c < length hits then count_list (hits ! c) r else 0)"
proof -
  have one: "count_list (map (\<lambda>v. (v, e)) h) (r, c) = (if e = c then count_list h r else 0)" for e h
    by (induction h) auto
  have "count_list (concat (map (\<lambda>e. map (\<lambda>v. (v, e)) (hits ! e)) [0..<k])) (r, c)
      = (if c < k then count_list (hits ! c) r else 0)" for k
    by (induction k) (auto simp: one)
  then show ?thesis by (simp add: hits_cells_def)
qed

definition block_at :: "nat \<Rightarrow> nat \<Rightarrow> nat \<Rightarrow> nat \<Rightarrow> (nat \<Rightarrow> nat \<Rightarrow> nat) \<Rightarrow> nat \<Rightarrow> nat \<Rightarrow> bool" where
  "block_at n m ro co f r c \<longleftrightarrow> ro \<le> r \<and> r < ro + n \<and> co \<le> c \<and> c < co + m \<and> odd (f (r - ro) (c - co))"

lemma write_block_rep:
  assumes "rep a n m f" "ro + n \<le> nr" "co + m \<le> nc"
  shows "write_sparse_block (bit_mat nr nc P) a ro co = Inr (bit_mat nr nc (\<lambda>r c. P r c \<noteq> block_at n m ro co f r c))"
proof -
  note nst = nested_csc_rep [OF assms(1)]
  have "\<forall>rc \<in> set (hits_cells (to_nested_csc a)). ro + fst rc < nr \<and> co + snd rc < nc"
    using nst(1,3) assms(2,3) by (fastforce simp: hits_cells_mem)
  note W = flips_bit_mat [OF this, of P]
  have "(ro \<le> r \<and> co \<le> c \<and> odd (count_list (hits_cells (to_nested_csc a)) (r - ro, c - co))) = block_at n m ro co f r c"
    if "r < nr" "c < nc" for r c
  proof (cases "c - co < m")
    case True
    note nst' = nst(2,3) [OF True]
    show ?thesis
    proof (cases "r - ro < n")
      case False
      then show ?thesis using True nst(1) count_list_zero [OF nst'(2)] by (auto simp: count_hits_cells block_at_def)
    qed (use True nst(1) nst' in \<open>auto simp: count_hits_cells block_at_def\<close>)
  qed (auto simp: count_hits_cells nst(1) block_at_def)
  then show ?thesis unfolding write_sparse_block_def W by (auto intro: bit_mat_cong)
qed

lemma write_block_default: "write_sparse_block t sbm_default ro co = Inr t"
  by (simp add: write_sparse_block_def sbm_default_def to_nested_csc_def hits_cells_def groups_of_def)

end
