(* ===== verification/QEC_Chunk_Geometry.thy ===== *)
theory QEC_Chunk_Geometry
  imports QEC_Chunk_Matrix
begin

text \<open>
  The rows of one chunk. Under the checks of \<open>validate\<close> and \<open>reject_extra_seams\<close> the row numbers of \<open>H\<close> are, in
  the order in which the chunk operations emit them, the band of the incoming seam, the interior rows and the
  band of the outgoing seam, each exactly once. The abstract chunk \<open>chain_model\<close> numbers the rows this way, and
  \<open>contract\<close> is the specification of a stitch on it.
\<close>

section \<open>Specification\<close>

record chain_model =
  cm_lead :: nat
  cm_body :: nat
  cm_trail :: nat
  cm_faults :: nat
  cm_bit :: "nat \<Rightarrow> nat \<Rightarrow> bool"
  cm_obs :: nat
  cm_flip :: "nat \<Rightarrow> nat \<Rightarrow> bool"
  cm_rates :: "real list"
  cm_lead_tags :: "nat list"
  cm_trail_tags :: "nat list"

text \<open>
  Contraction: the trailing band of the left chunk and the leading band of the right one become the same rows,
  the fault columns of the right chunk follow those of the left one, and nothing else changes.
\<close>

definition contract :: "chain_model \<Rightarrow> chain_model \<Rightarrow> chain_model" where
  "contract A B =
     (let n = cm_faults A; k = cm_lead A + cm_body A in
      \<lparr>cm_lead = cm_lead A, cm_body = cm_body A + cm_trail A + cm_body B, cm_trail = cm_trail B,
       cm_faults = n + cm_faults B,
       cm_bit = (\<lambda>r c. if c < n then cm_bit A r c else k \<le> r \<and> cm_bit B (r - k) (c - n)),
       cm_obs = cm_obs A,
       cm_flip = (\<lambda>r c. if c < n then cm_flip A r c else cm_flip B r (c - n)),
       cm_rates = cm_rates A @ cm_rates B, cm_lead_tags = cm_lead_tags A, cm_trail_tags = cm_trail_tags B\<rparr>)"

text \<open>The detector error model of a closed chunk: the trailing band is dropped.\<close>

definition closed_model :: "chain_model \<Rightarrow> detector_error_model" where
  "closed_model A =
     \<lparr>detector_error_matrix = bit_mat (cm_lead A + cm_body A) (cm_faults A) (cm_bit A), error_rates = cm_rates A,
      observables_flips_matrix = bit_mat (cm_obs A) (cm_faults A) (cm_flip A), error_ids = None\<rparr>"

section \<open>Abstraction\<close>

definition band_of :: "extended_dem \<Rightarrow> seam_id \<Rightarrow> nat list" where
  "band_of d i = (case find (\<lambda>s. seam_ident s = i) (seams d) of Some s \<Rightarrow> [row_begin s..<row_end s] | None \<Rightarrow> [])"

definition interior_of :: "extended_dem \<Rightarrow> nat list" where
  "interior_of d = filter (\<lambda>r. \<not> in_some_seam (seams d) r) [0..<sbm_rows (ed_H d)]"

definition rows_of :: "extended_dem \<Rightarrow> seam_id \<Rightarrow> seam_id \<Rightarrow> nat list" where
  "rows_of d from_seam to_seam = band_of d to_seam @ interior_of d @ band_of d from_seam"

definition tags_of :: "extended_dem \<Rightarrow> seam_id \<Rightarrow> nat list" where
  "tags_of d i = (case seam_tag_offset d i of Inr off \<Rightarrow> take (length (band_of d i)) (drop off (tags d)) | Inl _ \<Rightarrow> [])"

definition abs_chunk :: "seam_id \<Rightarrow> seam_id \<Rightarrow> extended_dem \<Rightarrow> chain_model" where
  "abs_chunk from_seam to_seam d =
     (let rows = rows_of d from_seam to_seam in
      \<lparr>cm_lead = length (band_of d to_seam), cm_body = length (interior_of d), cm_trail = length (band_of d from_seam),
       cm_faults = length (ed_rates d),
       cm_bit = (\<lambda>r c. r < length rows \<and> c < length (ed_rates d) \<and> odd (mult_at (ed_H d) (rows ! r) c)),
       cm_obs = sbm_rows (ed_O d),
       cm_flip = (\<lambda>r c. r < sbm_rows (ed_O d) \<and> c < sbm_cols (ed_O d) \<and> odd (mult_at (ed_O d) r c)),
       cm_rates = ed_rates d, cm_lead_tags = tags_of d to_seam, cm_trail_tags = tags_of d from_seam\<rparr>)"

text \<open>
  The data invariant of a chunk: its matrices are well formed (\<open>O\<close> may be default-constructed), the counts fit
  32 bits and no two seams share a name, which \<open>add_seam\<close> ensures.
\<close>

definition chunk_wf :: "extended_dem \<Rightarrow> bool" where
  "chunk_wf d \<longleftrightarrow> sbm_ok (ed_H d) \<and> (sbm_ok (ed_O d) \<or> ed_O d = sbm_default) \<and> length (ed_rates d) \<le> max_u32 \<and>
     distinct (map seam_ident (seams d))"

definition composable :: "seam_id \<Rightarrow> seam_id \<Rightarrow> extended_dem \<Rightarrow> bool" where
  "composable from_seam to_seam d \<longleftrightarrow> ed_validate d = Inr () \<and> reject_extra_seams d from_seam to_seam = Inr ()"

section \<open>Widths\<close>

lemma u32_u32_add: "u32 (u32 a + b) = u32 (a + b)"
  by (simp add: u32_def mod_add_left_eq)

lemma seam_total_sum: "seam_total ss = u32 (sum_list (map seam_num_rows ss))"
proof -
  have "fold (\<lambda>s t. u32 (t + seam_num_rows s)) ss (u32 t) = u32 (t + sum_list (map seam_num_rows ss))" for t
  proof (induction ss arbitrary: t)
    case (Cons s ss)
    then show ?case by (simp add: u32_u32_add add.assoc)
  qed simp
  from this [of 0] show ?thesis by (simp add: seam_total_def)
qed

lemma ed_validate_iff:
  "ed_validate d = Inr () \<longleftrightarrow>
     sbm_cols (ed_H d) = ed_num_faults d \<and>
     (0 < sbm_rows (ed_O d) \<or> 0 < sbm_cols (ed_O d) \<longrightarrow> sbm_cols (ed_O d) = ed_num_faults d) \<and>
     (\<forall>s \<in> set (seams d). row_begin s \<le> row_end s \<and> row_end s \<le> sbm_rows (ed_H d)) \<and>
     (\<forall>i \<in> {1..<length (ed_bands d)}. snd (ed_bands d ! (i - 1)) \<le> fst (ed_bands d ! i)) \<and>
     length (tags d) = seam_total (seams d)"
proof -
  have rng: "rfold (\<lambda>s _. if n < row_end s then Inl (Invalid_argument e1)
        else if row_end s < row_begin s then Inl (Invalid_argument e2) else Inr ()) ss () = Inr ()
      \<longleftrightarrow> (\<forall>s \<in> set ss. row_begin s \<le> row_end s \<and> row_end s \<le> n)" for n e1 e2 ss
    by (subst rfold_unit_iff) (auto simp: not_less)
  have ov: "list_ex (\<lambda>i. fst (bs ! i) < snd (bs ! (i - 1))) [1..<length bs] \<longleftrightarrow>
      \<not> (\<forall>i \<in> {1..<length bs}. snd (bs ! (i - 1)) \<le> fst (bs ! i))" for bs :: "(nat \<times> nat) list"
    by (auto simp: list_ex_iff not_less [symmetric])
  show ?thesis by (auto simp: ed_validate_def Let_def rbind_Inr_iff ov rng simp del: One_nat_def)
qed

lemma ed_validate_unit: "ed_validate d = Inr u \<longleftrightarrow> ed_validate d = Inr ()"
  by simp

lemma reject_extra_seams_iff:
  "reject_extra_seams d f t = Inr () \<longleftrightarrow>
     (\<forall>s \<in> set (seams d). seam_ident s = f \<or> seam_ident s = t \<or> seam_num_rows s = 0)"
  unfolding reject_extra_seams_def by (subst rfold_unit_iff) auto

lemma seam_num_rows_eq: "row_begin s \<le> row_end s \<Longrightarrow> row_end s \<le> max_u32 \<Longrightarrow> seam_num_rows s = row_end s - row_begin s"
  by (simp add: seam_num_rows_def u32_sub_id)

text \<open>Pairs of bands: sorted and without overlap of neighbours, hence disjoint throughout.\<close>

abbreviation apart :: "nat \<times> nat \<Rightarrow> nat \<times> nat \<Rightarrow> bool" where
  "apart p q \<equiv> snd p \<le> fst q \<or> snd q \<le> fst p"

lemma neighbours_apart:
  fixes bs :: "(nat \<times> nat) list"
  assumes "\<forall>i \<in> {1..<length bs}. snd (bs ! (i - 1)) \<le> fst (bs ! i)" "\<forall>p \<in> set bs. fst p < snd p"
  shows "sorted_wrt (\<lambda>p q. snd p \<le> fst q) bs"
  unfolding sorted_wrt_iff_nth_less
proof (intro allI impI)
  fix i j assume ij: "i < j" "j < length bs"
  then show "snd (bs ! i) \<le> fst (bs ! j)"
  proof (induction j)
    case (Suc j)
    have s: "snd (bs ! j) \<le> fst (bs ! Suc j)" using assms(1) Suc.prems(2) by force
    show ?case
    proof (cases "i = j")
      case False
      then have "snd (bs ! i) \<le> fst (bs ! j)" using Suc by simp
      moreover have "fst (bs ! j) < snd (bs ! j)" using assms(2) Suc.prems(2) by simp
      ultimately show ?thesis using s by simp
    qed (use s in simp)
  qed simp
qed

lemma apart_mset:
  "sorted_wrt (\<lambda>p q. snd p \<le> fst q) bs \<Longrightarrow> p \<in># mset bs \<Longrightarrow> q \<in># mset bs - {#p#} \<Longrightarrow> apart p q"
proof (induction bs)
  case (Cons b bs)
  show ?case
  proof (cases "b = p")
    case True
    then show ?thesis using Cons.prems by auto
  next
    case False
    then have p: "p \<in> set bs" using Cons.prems by auto
    then have "q \<in># mset bs - {#p#} \<or> q = b" using Cons.prems(3) False by (auto simp: insert_DiffM2)
    then show ?thesis using Cons p by auto
  qed
qed simp

lemma two_seams_mset:
  assumes "s \<in> set ss" "t \<in> set ss" "s \<noteq> t"
  shows "h s \<in># mset (map h ss)" "h t \<in># mset (map h ss) - {#h s#}"
proof -
  obtain xs ys where ss: "ss = xs @ s # ys" using assms(1) by (meson split_list)
  show "h s \<in># mset (map h ss)" using assms(1) by simp
  show "h t \<in># mset (map h ss) - {#h s#}" using assms(2,3) ss by auto
qed

lemma valid_apart:
  assumes "ed_validate d = Inr ()" "s \<in> set (seams d)" "t \<in> set (seams d)" "s \<noteq> t" "0 < seam_num_rows s" "0 < seam_num_rows t"
    and "sbm_rows (ed_H d) \<le> max_u32"
  shows "apart (row_begin s, row_end s) (row_begin t, row_end t)"
proof -
  let ?h = "\<lambda>s. (row_begin s, row_end s)" and ?ss = "filter (\<lambda>s. 0 < seam_num_rows s) (seams d)"
  have m: "mset (ed_bands d) = mset (map ?h ?ss)"
    by (simp add: ed_bands_def )
  have v: "row_begin s \<le> row_end s" "row_end s \<le> max_u32" if "s \<in> set (seams d)" for s
    using assms(1,7) that by (auto simp: ed_validate_iff)
  have "fst p < snd p" if "p \<in> set (ed_bands d)" for p
  proof -
    have "p \<in> set (map ?h ?ss)" using that mset_eq_setD [OF m] by simp
    then show ?thesis using v seam_num_rows_eq by fastforce
  qed
  then have "sorted_wrt (\<lambda>p q. snd p \<le> fst q) (ed_bands d)"
    using assms(1) by (intro neighbours_apart) (auto simp: ed_validate_iff)
  from apart_mset [OF this, of "?h s" "?h t"] show ?thesis
    unfolding m using two_seams_mset [of s ?ss t ?h] assms by auto
qed

section \<open>The rows of a chunk\<close>

lemma find_seam:
  "find (\<lambda>s. seam_ident s = i) ss = Some s \<Longrightarrow> s \<in> set ss \<and> seam_ident s = i"
  by (auto simp: find_Some_iff)

lemma find_seam_iff:
  "distinct (map seam_ident ss) \<Longrightarrow> s \<in> set ss \<Longrightarrow> find (\<lambda>x. seam_ident x = seam_ident s) ss = Some s"
proof (induction ss)
  case (Cons x ss)
  then show ?case by (auto simp: image_iff)
qed simp

lemma has_seam_find: "has_seam d i \<longleftrightarrow> find (\<lambda>s. seam_ident s = i) (seams d) \<noteq> None"
  by (auto simp: has_seam_def list_ex_iff find_None_iff)

lemma sum_two_seams:
  assumes "distinct (map seam_ident ss)" "f \<noteq> t"
    and "\<forall>s \<in> set ss. seam_ident s = f \<or> seam_ident s = t \<or> w s = (0::nat)"
  shows "sum_list (map w ss) =
    (case find (\<lambda>s. seam_ident s = t) ss of Some s \<Rightarrow> w s | None \<Rightarrow> 0) +
    (case find (\<lambda>s. seam_ident s = f) ss of Some s \<Rightarrow> w s | None \<Rightarrow> 0)"
  using assms
proof (induction ss)
  case (Cons s ss)
  have "find (\<lambda>x. seam_ident x = seam_ident s) ss = None"
    using Cons.prems(1) by (auto simp: find_None_iff image_iff)
  then show ?case using Cons by auto
qed simp

lemma chunk_rows:
  assumes wf: "chunk_wf d" and c: "composable f t d" and ft: "f \<noteq> t"
  shows "distinct (rows_of d f t)" "set (rows_of d f t) = {..<sbm_rows (ed_H d)}"
    "length (rows_of d f t) = sbm_rows (ed_H d)"
    "num_interior_rows d = length (interior_of d)"
    "seam_rows_or_zero d t = Inr (length (band_of d t))" "seam_rows_or_zero d f = Inr (length (band_of d f))"
    "length (tags d) = length (band_of d t) + length (band_of d f)"
    "ed_num_faults d = length (ed_rates d)" "sbm_cols (ed_H d) = length (ed_rates d)"
proof -
  let ?n = "sbm_rows (ed_H d)"
  have n: "?n \<le> max_u32" using wf by (auto simp: chunk_wf_def dest: sbm_okD)
  have val: "ed_validate d = Inr ()" and ext: "\<forall>s \<in> set (seams d). seam_ident s = f \<or> seam_ident s = t \<or> seam_num_rows s = 0"
    using c by (auto simp: composable_def reject_extra_seams_iff)
  have v: "row_begin s \<le> row_end s" "row_end s \<le> ?n" "row_end s \<le> max_u32" if "s \<in> set (seams d)" for s
    using val that n by (auto simp: ed_validate_iff)
  have w: "seam_num_rows s = row_end s - row_begin s" if "s \<in> set (seams d)" for s
    using v [OF that] seam_num_rows_eq by blast
  have band: "band_of d i = (case find (\<lambda>s. seam_ident s = i) (seams d) of Some s \<Rightarrow> [row_begin s..<row_end s] | None \<Rightarrow> [])" for i
    by (simp add: band_of_def)
  have wband: "length (band_of d i) = (case find (\<lambda>s. seam_ident s = i) (seams d) of Some s \<Rightarrow> seam_num_rows s | None \<Rightarrow> 0)" for i
    by (cases "find (\<lambda>s. seam_ident s = i) (seams d)") (auto simp: band w dest: find_seam)
  have inb: "r \<in> set (band_of d i) \<Longrightarrow> r < ?n \<and> in_some_seam (seams d) r" for r i
  proof (cases "find (\<lambda>s. seam_ident s = i) (seams d)")
    case (Some s)
    then show "r \<in> set (band_of d i) \<Longrightarrow> r < ?n \<and> in_some_seam (seams d) r"
      using find_seam [OF Some] v [of s] by (auto simp: band in_some_seam_def list_ex_iff)
  qed (simp add: band)
  have dj: "set (band_of d t) \<inter> set (band_of d f) = {}"
  proof (cases "find (\<lambda>s. seam_ident s = t) (seams d)"; cases "find (\<lambda>s. seam_ident s = f) (seams d)")
    fix s s' assume s: "find (\<lambda>s. seam_ident s = t) (seams d) = Some s" and s': "find (\<lambda>s. seam_ident s = f) (seams d) = Some s'"
    have m: "s \<in> set (seams d)" "s' \<in> set (seams d)" "s \<noteq> s'" using find_seam [OF s] find_seam [OF s'] ft by auto
    show ?thesis
    proof (cases "0 < seam_num_rows s \<and> 0 < seam_num_rows s'")
      case True
      then show ?thesis using valid_apart [OF val m _ _ n] s s' by (auto simp: band)
    qed (use w m s s' in \<open>auto simp: band\<close>)
  qed (auto simp: band)
  have cover: "r \<in> set (band_of d t) \<or> r \<in> set (band_of d f)" if inseam: "in_some_seam (seams d) r" for r
  proof -
    obtain s where s: "s \<in> set (seams d)" "row_begin s \<le> r" "r < row_end s"
      using inseam by (auto simp: in_some_seam_def list_ex_iff)
    then have "seam_ident s = f \<or> seam_ident s = t" using ext w by force
    then show ?thesis using find_seam_iff [of "seams d" s] wf s by (auto simp: band chunk_wf_def)
  qed
  have distinct_band: "distinct (band_of d i)" for i by (simp add: band split: option.split)
  show "distinct (rows_of d f t)"
    using dj inb distinct_band by (auto simp: rows_of_def interior_of_def)
  show set: "set (rows_of d f t) = {..<?n}"
    using inb cover by (auto simp: rows_of_def interior_of_def)
  show len: "length (rows_of d f t) = ?n"
    using distinct_card [OF \<open>distinct (rows_of d f t)\<close>] set by simp
  have tot: "sum_list (map seam_num_rows (seams d)) = length (band_of d t) + length (band_of d f)"
    using sum_two_seams [of "seams d" f t seam_num_rows] wf ext ft by (simp add: wband chunk_wf_def)
  then have st: "seam_total (seams d) = length (band_of d t) + length (band_of d f)"
    using len n by (simp add: seam_total_sum rows_of_def)
  then show "length (tags d) = length (band_of d t) + length (band_of d f)"
    using val by (simp add: ed_validate_iff)
  show "num_interior_rows d = length (interior_of d)"
    using len unfolding num_interior_rows_def st rows_of_def Let_def length_append by presburger
  show "seam_rows_or_zero d t = Inr (length (band_of d t))" "seam_rows_or_zero d f = Inr (length (band_of d f))"
    by (auto simp: seam_rows_or_zero_def has_seam_find get_seam_def wband split: option.split)
  show "ed_num_faults d = length (ed_rates d)" using wf by (simp add: ed_num_faults_def chunk_wf_def)
  then show "sbm_cols (ed_H d) = length (ed_rates d)" using val by (simp add: ed_validate_iff)
qed


section \<open>Bands and tags\<close>

lemma nnz_rows:
  assumes "distinct xs" "set xs \<subseteq> {..<n}"
  shows "sum_list (map (\<lambda>r. \<Sum>c<nc. g r c) xs) \<le> nnz n nc g"
proof -
  have "sum_list (map (\<lambda>r. \<Sum>c<nc. g r c) xs) = (\<Sum>r\<in>set xs. \<Sum>c<nc. g r c)"
    by (rule sum_list_distinct_conv_sum_set [OF assms(1)])
  also have "\<dots> \<le> nnz n nc g" unfolding nnz_def by (rule sum_mono2) (use assms(2) in auto)
  finally show ?thesis .
qed

lemma nnz_chunk:
  assumes "chunk_wf d" "composable f t d" "f \<noteq> t"
  shows "nnz (length (band_of d t)) n (\<lambda>i. g (band_of d t ! i)) + nnz (length (interior_of d)) n (\<lambda>i. g (interior_of d ! i))
    + nnz (length (band_of d f)) n (\<lambda>i. g (band_of d f ! i)) = nnz (sbm_rows (ed_H d)) n g"
proof -
  note c = chunk_rows [OF assms]
  have "nnz (sbm_rows (ed_H d)) n g = (\<Sum>r\<in>set (rows_of d f t). \<Sum>c<n. g r c)"
    unfolding nnz_def c(2) ..
  also have "\<dots> = sum_list (map (\<lambda>r. \<Sum>c<n. g r c) (rows_of d f t))"
    by (rule sum_list_distinct_conv_sum_set [symmetric, OF c(1)])
  finally show ?thesis unfolding nnz_select by (simp add: rows_of_def)
qed

lemma extract_row_band_rep:
  assumes "rep H nr nc g" "b \<le> e" "e \<le> nr" "nr < max_u32" "nc < max_u32"
  shows "\<exists>m. extract_row_band H b e = Inr m \<and> rep m (e - b) nc (\<lambda>i. g ([b..<e] ! i))"
proof (cases "e = b")
  case True
  then show ?thesis
    using zero_matrix_rep [OF assms(5), of "\<lambda>i. g ([b..<e] ! i)"] assms repD(3) [OF assms(1)]
    by (simp add: extract_row_band_def u32_sub_id Let_def)
next
  case False
  have "rmap (\<lambda>r. vget (to_nested_csr H) (u32 (b + r))) [0..<e - b] = Inr (map ((!) (to_nested_csr H)) [b..<e])"
    using assms nested_csr_rep(1) [OF assms(1)]
    by (subst rmap_pure [where g = "\<lambda>r. to_nested_csr H ! (b + r)"]) (auto intro: nth_equalityI)
  moreover have "sum_list (map (\<lambda>r. \<Sum>c<nc. g r c) [b..<e]) \<le> max_u32"
    using nnz_rows [of "[b..<e]" nr g nc] assms(3) rep_nnz_le [OF assms(1)] by force
  then have "\<exists>m. from_nested_csr (length [b..<e]) nc (map ((!) (to_nested_csr H)) [b..<e]) = Inr m \<and>
      rep m (length [b..<e]) nc (\<lambda>i. g ([b..<e] ! i))"
    using assms by (intro select_rep [OF assms(1)]) auto
  ultimately show ?thesis using False assms repD(3) [OF assms(1)]
    by (simp add: extract_row_band_def u32_sub_id Let_def)
qed

lemma chunk_bands:
  assumes "chunk_wf d" "composable f t d" "f \<noteq> t" "sbm_rows (ed_H d) < max_u32" "length (ed_rates d) < max_u32"
  shows "has_seam d i \<Longrightarrow> \<exists>s m. get_seam d i = Inr s \<and> seam_num_rows s = length (band_of d i) \<and>
      extract_row_band (ed_H d) (row_begin s) (row_end s) = Inr m \<and>
      rep m (length (band_of d i)) (length (ed_rates d)) (\<lambda>r. mult_at (ed_H d) (band_of d i ! r))"
    and "\<exists>m. band_or_empty d i = Inr m \<and>
      rep m (length (band_of d i)) (length (ed_rates d)) (\<lambda>r. mult_at (ed_H d) (band_of d i ! r))"
    and "\<exists>m. extract_interior_rows (ed_H d) (seams d) = Inr m \<and>
      rep m (length (interior_of d)) (length (ed_rates d)) (\<lambda>r. mult_at (ed_H d) (interior_of d ! r))"
proof -
  note c = chunk_rows [OF assms(1-3)]
  have H: "rep (ed_H d) (sbm_rows (ed_H d)) (length (ed_rates d)) (mult_at (ed_H d))"
    using rep_self [of "ed_H d"] assms(1) c(9) by (simp add: chunk_wf_def)
  show seam: "\<exists>s m. get_seam d i = Inr s \<and> seam_num_rows s = length (band_of d i) \<and>
      extract_row_band (ed_H d) (row_begin s) (row_end s) = Inr m \<and>
      rep m (length (band_of d i)) (length (ed_rates d)) (\<lambda>r. mult_at (ed_H d) (band_of d i ! r))"
    if has: "has_seam d i"
  proof -
    obtain s where s: "find (\<lambda>s. seam_ident s = i) (seams d) = Some s" using has by (auto simp: has_seam_find)
    then have b: "row_begin s \<le> row_end s" "row_end s \<le> sbm_rows (ed_H d)" "band_of d i = [row_begin s..<row_end s]"
      using find_seam [OF s] assms(2) by (auto simp: composable_def ed_validate_iff band_of_def)
    then show ?thesis using extract_row_band_rep [OF H b(1,2) assms(4,5)] s assms(4)
      by (simp add: get_seam_def seam_num_rows_eq)
  qed
  show "\<exists>m. band_or_empty d i = Inr m \<and>
      rep m (length (band_of d i)) (length (ed_rates d)) (\<lambda>r. mult_at (ed_H d) (band_of d i ! r))"
  proof (cases "has_seam d i")
    case True
    then show ?thesis using seam by (auto simp: band_or_empty_def)
  next
    case False
    then have "band_of d i = []" by (simp add: has_seam_find band_of_def)
    then show ?thesis using False zero_matrix_rep [OF assms(5)] c(8) by (simp add: band_or_empty_def)
  qed
  have I: "distinct (interior_of d)" "set (interior_of d) \<subseteq> {..<sbm_rows (ed_H d)}"
    "length (interior_of d) \<le> sbm_rows (ed_H d)"
    using c(3) by (auto simp: interior_of_def rows_of_def)
  have "\<exists>m. from_nested_csr (length (interior_of d)) (length (ed_rates d)) (map ((!) (to_nested_csr (ed_H d))) (interior_of d)) = Inr m \<and>
      rep m (length (interior_of d)) (length (ed_rates d)) (\<lambda>r. mult_at (ed_H d) (interior_of d ! r))"
  proof (rule select_rep [OF H I(2)])
    show "length (interior_of d) < max_u32" using I(3) assms(4) by linarith
    show "(\<Sum>r\<leftarrow>interior_of d. sum (mult_at (ed_H d) r) {..<length (ed_rates d)}) \<le> max_u32"
      using rep_nnz_le [OF H] nnz_rows [OF I(1,2), where nc = "length (ed_rates d)" and g = "mult_at (ed_H d)"]
      by linarith
  qed
  then show "\<exists>m. extract_interior_rows (ed_H d) (seams d) = Inr m \<and>
      rep m (length (interior_of d)) (length (ed_rates d)) (\<lambda>r. mult_at (ed_H d) (interior_of d ! r))"
    using I(3) assms(4) c(9) by (simp add: extract_interior_rows_def interior_of_def [symmetric] Let_def)
qed

lemma seam_tag_offset_le:
  "find (\<lambda>s. seam_ident s = i) ss = Some s \<Longrightarrow> off + sum_list (map seam_num_rows ss) \<le> max_u32 \<Longrightarrow>
   \<exists>k. seam_tag_offset_from i ss off = Inr k \<and> k + seam_num_rows s \<le> off + sum_list (map seam_num_rows ss)"
proof (induction ss arbitrary: off)
  case (Cons x ss)
  show ?case
  proof (cases "seam_ident x = i")
    case False
    then have "\<exists>k. seam_tag_offset_from i ss (off + seam_num_rows x) = Inr k \<and>
        k + seam_num_rows s \<le> off + seam_num_rows x + sum_list (map seam_num_rows ss)"
      using Cons.IH [of "off + seam_num_rows x"] Cons.prems by (simp add: add.assoc)
    then show ?thesis using False Cons.prems(2) by (auto simp: add.assoc)
  qed (use Cons.prems in auto)
qed simp

lemma chunk_tags:
  assumes "chunk_wf d" "composable f t d" "f \<noteq> t" "i = f \<or> i = t"
  shows "length (tags_of d i) = length (band_of d i)"
    and "seam_tags d i (length (band_of d i)) = Inr (tags_of d i)"
    and "has_seam d i \<Longrightarrow> \<exists>off. seam_tag_offset d i = Inr off \<and> off + length (band_of d i) \<le> length (tags d) \<and>
      length (tags d) \<le> max_u32 \<and> tags_of d i = take (length (band_of d i)) (drop off (tags d))"
proof -
  note c = chunk_rows [OF assms(1-3)]
  show off: "\<exists>off. seam_tag_offset d i = Inr off \<and> off + length (band_of d i) \<le> length (tags d) \<and>
      length (tags d) \<le> max_u32 \<and> tags_of d i = take (length (band_of d i)) (drop off (tags d))"
    if has: "has_seam d i"
  proof -
    obtain s where s: "find (\<lambda>s. seam_ident s = i) (seams d) = Some s" using has by (auto simp: has_seam_find)
    have rows: "row_begin s \<le> row_end s" "row_end s \<le> sbm_rows (ed_H d)" "sbm_rows (ed_H d) \<le> max_u32"
      using find_seam [OF s] assms(1,2) by (auto simp: composable_def ed_validate_iff chunk_wf_def dest: sbm_okD)
    have w: "seam_num_rows s = length (band_of d i)"
      using rows s by (simp add: seam_num_rows_eq band_of_def)
    have sums: "sum_list (map seam_num_rows (seams d)) = length (tags d)" "length (tags d) \<le> max_u32"
    proof -
      have e: "(case find (\<lambda>s. seam_ident s = j) (seams d) of Some s \<Rightarrow> seam_num_rows s | None \<Rightarrow> 0) = x"
        if "seam_rows_or_zero d j = Inr x" for j x
        using that by (auto simp: seam_rows_or_zero_def has_seam_find get_seam_def split: option.splits)
      have "sum_list (map seam_num_rows (seams d)) = length (band_of d t) + length (band_of d f)"
        using sum_two_seams [of "seams d" f t seam_num_rows] assms e [OF c(5)] e [OF c(6)]
        by (auto simp: chunk_wf_def composable_def reject_extra_seams_iff)
      then show "sum_list (map seam_num_rows (seams d)) = length (tags d)" using c(7) by simp
      have "length (tags d) \<le> sbm_rows (ed_H d)" using c(3,7) by (simp add: rows_of_def)
      then show "length (tags d) \<le> max_u32" using rows(3) by linarith
    qed
    then show ?thesis using seam_tag_offset_le [OF s, of 0] w sums by (auto simp: seam_tag_offset_def tags_of_def)
  qed
  show "length (tags_of d i) = length (band_of d i)"
  proof (cases "has_seam d i")
    case False
    then show ?thesis by (auto simp: tags_of_def band_of_def has_seam_find split: sum.split)
  qed (use off in auto)
  show "seam_tags d i (length (band_of d i)) = Inr (tags_of d i)"
  proof (cases "has_seam d i")
    case True
    then obtain k where k: "seam_tag_offset d i = Inr k" "k + length (band_of d i) \<le> length (tags d)"
      "length (tags d) \<le> max_u32" "tags_of d i = take (length (band_of d i)) (drop k (tags d))" using off by blast
    have "rmap (\<lambda>j. vget (tags d) (u32 (k + j))) [0..<length (band_of d i)] = Inr (tags_of d i)"
      using k by (subst rmap_pure [where g = "\<lambda>j. tags d ! (k + j)"]) (auto intro: nth_equalityI)
    then show ?thesis using True k by (simp add: seam_tags_def)
  next
    case False
    then have "band_of d i = []" by (simp add: has_seam_find band_of_def)
    then show ?thesis using False by (auto simp: seam_tags_def tags_of_def split: sum.split)
  qed
qed

lemma check_seam_boundary_iff:
  assumes "chunk_wf a" "composable f t a" "chunk_wf b" "composable f t b" "f \<noteq> t"
  shows "check_seam_boundary a b f t = Inr () \<longleftrightarrow> tags_of a f = tags_of b t"
proof -
  note A = chunk_rows(6) [OF assms(1,2,5)] and B = chunk_rows(5) [OF assms(3,4,5)]
  note tA = chunk_tags [OF assms(1,2,5), of f, simplified] and tB = chunk_tags [OF assms(3,4,5), of t, simplified]
  let ?w = "length (band_of a f)"
  show ?thesis
  proof (cases "?w = length (band_of b t) \<and> ?w \<noteq> 0")
    case False
    then show ?thesis using tA(1) tB(1) A B by (auto simp: check_seam_boundary_def)
  next
    case True
    then have "has_seam a f" "has_seam b t" by (auto simp: has_seam_find band_of_def split: option.splits)
    then obtain x y where x: "seam_tag_offset a f = Inr x" "x + ?w \<le> length (tags a)"
        "length (tags a) \<le> max_u32" "tags_of a f = take ?w (drop x (tags a))"
      and y: "seam_tag_offset b t = Inr y" "y + ?w \<le> length (tags b)"
        "length (tags b) \<le> max_u32" "tags_of b t = take ?w (drop y (tags b))"
      using tA(3) tB(3) True by auto
    have "check_seam_boundary a b f t = Inr () \<longleftrightarrow> (\<forall>k<?w. tags a ! (x + k) = tags b ! (y + k))"
      using True A B x y by (simp add: check_seam_boundary_def, subst rfold_unit_iff) (auto split: if_splits)
    also have "\<dots> \<longleftrightarrow> tags_of a f = tags_of b t"
      using x y by (auto simp: list_eq_iff_nth_eq)
    finally show ?thesis .
  qed
qed

end
