(* ===== verification/QEC_Chunk_Stitch.thy ===== *)
theory QEC_Chunk_Stitch
  imports QEC_Chunk_Geometry "HOL-Library.Code_Target_Nat"
begin

text \<open>
  \<open>dem_stitch\<close> refines \<open>contract\<close>: when it accepts two chunks, the result is a well formed chunk whose
  abstraction is the contraction of theirs, and it accepts exactly the pairs with equal observable counts and
  matching, tagged seams.
\<close>

section \<open>Chunks with two seams\<close>

lemma two_seam_chunk:
  assumes s: "seams d = [\<lparr>seam_ident = t, row_begin = 0, row_end = x\<rparr>, \<lparr>seam_ident = f, row_begin = y, row_end = z\<rparr>]"
    and ft: "f \<noteq> t" and xyz: "x \<le> y" "y \<le> z" "z = sbm_rows (ed_H d)"
    and H: "sbm_ok (ed_H d)" "sbm_cols (ed_H d) = length (ed_rates d)"
    and OM: "sbm_ok (ed_O d) \<or> ed_O d = sbm_default"
      "0 < sbm_rows (ed_O d) \<or> 0 < sbm_cols (ed_O d) \<longrightarrow> sbm_cols (ed_O d) = length (ed_rates d)"
    and T: "tags d = T1 @ T2" "length T1 = x" "length T2 = z - y"
  shows "chunk_wf d" "composable f t d" "band_of d t = [0..<x]" "band_of d f = [y..<z]" "interior_of d = [x..<y]"
    "rows_of d f t = [0..<z]" "tags_of d t = T1" "tags_of d f = T2"
proof -
  have z: "z \<le> max_u32" using H(1) xyz(3) by (auto dest: sbm_okD)
  have n: "length (ed_rates d) \<le> max_u32" using sbm_okD(4) [OF H(1)] H(2) by simp
  show "chunk_wf d" using s ft H(1) OM n by (simp add: chunk_wf_def)
  have w: "seam_num_rows \<lparr>seam_ident = t, row_begin = 0, row_end = x\<rparr> = x"
    "seam_num_rows \<lparr>seam_ident = f, row_begin = y, row_end = z\<rparr> = z - y"
    using xyz z by (simp_all add: seam_num_rows_eq)
  have tot: "seam_total (seams d) = x + (z - y)"
    using xyz(1,2) z by (simp add: seam_total_def s w)
  have "ed_bands d = (if 0 < x then [(0, x)] else []) @ (if y < z then [(y, z)] else [])"
    using xyz(1,2) z by (cases "y < z") (auto simp: ed_bands_def s seam_num_rows_eq pair_less_def)
  then have "\<forall>i \<in> {1..<length (ed_bands d)}. snd (ed_bands d ! (i - 1)) \<le> fst (ed_bands d ! i)"
    using xyz by (auto split: if_splits)
  then have "ed_validate d = Inr ()"
    unfolding ed_validate_iff using n H(2) OM(2) xyz T tot by (simp add: s ed_num_faults_def)
  then show "composable f t d" by (simp add: composable_def reject_extra_seams_iff s)
  show b: "band_of d t = [0..<x]" "band_of d f = [y..<z]" using ft by (simp_all add: band_of_def s)
  have "in_some_seam (seams d) r \<longleftrightarrow> r < x \<or> y \<le> r" if "r < z" for r
    using that by (auto simp: in_some_seam_def s)
  then have "interior_of d = filter (\<lambda>r. x \<le> r \<and> r < y) [0..<z]"
    unfolding interior_of_def using xyz(3) by (intro filter_cong) auto
  also have upts: "[0..<z] = [0..<x] @ [x..<y] @ [y..<z]"
    using upt_add_eq_append [of 0 x "y - x"] upt_add_eq_append [of 0 y "z - y"] xyz(1,2) by simp
  also have "filter (\<lambda>r. x \<le> r \<and> r < y) ([0..<x] @ [x..<y] @ [y..<z]) = [x..<y]"
    by (simp add: filter_id_conv)
  finally show i: "interior_of d = [x..<y]" .
  show "rows_of d f t = [0..<z]"
    unfolding rows_of_def b i upts by simp
  show "tags_of d t = T1" "tags_of d f = T2"
    using ft T xyz z by (simp_all add: tags_of_def seam_tag_offset_def s b w)
qed

section \<open>The stitched chunk\<close>

definition stitchable :: "seam_id \<Rightarrow> seam_id \<Rightarrow> extended_dem \<Rightarrow> extended_dem \<Rightarrow> bool" where
  "stitchable f t a b \<longleftrightarrow> composable f t a \<and> composable f t b \<and> ed_num_observables a = ed_num_observables b \<and>
     has_seam a f \<and> has_seam b t \<and> tags_of a f = tags_of b t"

text \<open>
  The bounds within which nothing leaves 32 bits, and both chunks state their observables in the same way:
  an \<open>O\<close> aligned with the faults, or an empty one.
\<close>

definition obs_aligned :: "extended_dem \<Rightarrow> bool" where
  "obs_aligned d \<longleftrightarrow> sbm_cols (ed_O d) = length (ed_rates d)"

definition obs_empty :: "extended_dem \<Rightarrow> bool" where
  "obs_empty d \<longleftrightarrow> sbm_rows (ed_O d) = 0 \<and> sbm_cols (ed_O d) = 0"

definition chain_fits :: "extended_dem list \<Rightarrow> bool" where
  "chain_fits ds \<longleftrightarrow>
     sum_list (map (\<lambda>d. sbm_rows (ed_H d)) ds) < max_u32 \<and> sum_list (map (\<lambda>d. length (ed_rates d)) ds) < max_u32 \<and>
     sum_list (map (\<lambda>d. length (sbm_idx (ed_H d))) ds) \<le> max_u32 \<and> sum_list (map (\<lambda>d. length (sbm_idx (ed_O d))) ds) \<le> max_u32"

lemma chunk_rep_H:
  assumes "chunk_wf d" "composable f t d" "f \<noteq> t"
  shows "rep (ed_H d) (sbm_rows (ed_H d)) (length (ed_rates d)) (mult_at (ed_H d))"
    "nnz (sbm_rows (ed_H d)) (length (ed_rates d)) (mult_at (ed_H d)) = length (sbm_idx (ed_H d))"
  using rep_self [of "ed_H d"] chunk_rows(9) [OF assms] assms(1) rep_nnz
  by (auto simp: chunk_wf_def)

lemma rows_of_nth:
  shows "r < length (band_of d t) \<Longrightarrow> rows_of d f t ! r = band_of d t ! r"
    "length (band_of d t) \<le> r \<Longrightarrow> r < length (band_of d t) + length (interior_of d) \<Longrightarrow>
       rows_of d f t ! r = interior_of d ! (r - length (band_of d t))"
    "length (band_of d t) + length (interior_of d) \<le> r \<Longrightarrow>
       rows_of d f t ! r = band_of d f ! (r - (length (band_of d t) + length (interior_of d)))"
  by (auto simp: rows_of_def nth_append)

text \<open>The rows that the five pushes of \<open>dem_stitch\<close> assemble.\<close>

definition stitched_cell :: "seam_id \<Rightarrow> seam_id \<Rightarrow> extended_dem \<Rightarrow> extended_dem \<Rightarrow> nat \<Rightarrow> nat \<Rightarrow> nat" where
  "stitched_cell f t a b r c =
     (let n = length (ed_rates a); k = length (band_of a t) + length (interior_of a) in
      if c < n then if r < length (rows_of a f t) then mult_at (ed_H a) (rows_of a f t ! r) c else 0
      else if k \<le> r then mult_at (ed_H b) (rows_of b f t ! (r - k)) (c - n) else 0)"

lemma push5:
  assumes "rep x1 n1 nc f1" "rep x2 n2 nc f2" "rep x3 n3 nc f3" "rep x4 n4 nc f4" "rep x5 n5 nc f5" "rep x0 0 nc f0"
    and "n1 + n2 + n3 + n4 + n5 \<le> max_u32" "nc < max_u32"
    and "nnz n1 nc f1 + nnz n2 nc f2 + nnz n3 nc f3 + nnz n4 nc f4 + nnz n5 nc f5 \<le> max_u32"
  shows "\<exists>x. rfold push_rows [x1, x2, x3, x4, x5] x0 = Inr x \<and>
    length (sbm_idx x) = nnz n1 nc f1 + nnz n2 nc f2 + nnz n3 nc f3 + nnz n4 nc f4 + nnz n5 nc f5 \<and> rep x (n1 + n2 + n3 + n4 + n5) nc
    (\<lambda>r c. if r < n1 then f1 r c else if r < n1 + n2 then f2 (r - n1) c else if r < n1 + n2 + n3 then f3 (r - (n1 + n2)) c
       else if r < n1 + n2 + n3 + n4 then f4 (r - (n1 + n2 + n3)) c else f5 (r - (n1 + n2 + n3 + n4)) c)"
proof -
  note bnd = assms(7-9)
  have "\<exists>y1. push_rows x1 x0 = Inr y1 \<and> rep y1 (0 + n1) nc (\<lambda>r c. if r < 0 then f0 r c else f1 (r - 0) c)"
    by (rule push_rows_rep [OF assms(1,6)]) (use bnd in simp_all)
  then obtain y1 where y1: "push_rows x1 x0 = Inr y1" "rep y1 n1 nc f1" by auto
  have "\<exists>y2. push_rows x2 y1 = Inr y2 \<and> rep y2 (n1 + n2) nc (\<lambda>r c. if r < n1 then f1 r c else f2 (r - n1) c)"
    by (rule push_rows_rep [OF assms(2) y1(2)]) (use bnd in simp_all)
  then obtain y2 where y2: "push_rows x2 y1 = Inr y2" "rep y2 (n1 + n2) nc (\<lambda>r c. if r < n1 then f1 r c else f2 (r - n1) c)"
    by blast
  define g3 where "g3 = (\<lambda>r c. if r < n1 + n2 then if r < n1 then f1 r c else f2 (r - n1) c else f3 (r - (n1 + n2)) c)"
  have n3: "nnz (n1 + n2 + n3) nc g3 = nnz n1 nc f1 + nnz n2 nc f2 + nnz n3 nc f3" 
    using nnz_vstack [of "n1 + n2" n3 nc "\<lambda>r c. if r < n1 then f1 r c else f2 (r - n1) c" f3] nnz_vstack [of n1 n2 nc f1 f2]
    by (simp add: g3_def)
  have "\<exists>y3. push_rows x3 y2 = Inr y3 \<and> rep y3 (n1 + n2 + n3) nc g3"
    unfolding g3_def
    by (rule push_rows_rep [OF assms(3) y2(2)]) (use bnd nnz_vstack [of n1 n2 nc f1 f2] in simp_all)
  then obtain y3 where y3: "push_rows x3 y2 = Inr y3" "rep y3 (n1 + n2 + n3) nc g3" by blast
  define g4 where "g4 = (\<lambda>r c. if r < n1 + n2 + n3 then g3 r c else f4 (r - (n1 + n2 + n3)) c)"
  have n4: "nnz (n1 + n2 + n3 + n4) nc g4 = nnz n1 nc f1 + nnz n2 nc f2 + nnz n3 nc f3 + nnz n4 nc f4"
    using nnz_vstack [of "n1 + n2 + n3" n4 nc g3 f4] n3 by (simp add: g4_def)
  have "\<exists>y4. push_rows x4 y3 = Inr y4 \<and> rep y4 (n1 + n2 + n3 + n4) nc g4"
    unfolding g4_def by (rule push_rows_rep [OF assms(4) y3(2)]) (use bnd n3 in simp_all)
  then obtain y4 where y4: "push_rows x4 y3 = Inr y4" "rep y4 (n1 + n2 + n3 + n4) nc g4" by blast
  have "\<exists>y5. push_rows x5 y4 = Inr y5 \<and> rep y5 (n1 + n2 + n3 + n4 + n5) nc
      (\<lambda>r c. if r < n1 + n2 + n3 + n4 then g4 r c else f5 (r - (n1 + n2 + n3 + n4)) c)"
    by (rule push_rows_rep [OF assms(5) y4(2)]) (use bnd n4 in simp_all)
  then obtain y5 where y5: "push_rows x5 y4 = Inr y5" "rep y5 (n1 + n2 + n3 + n4 + n5) nc
      (\<lambda>r c. if r < n1 + n2 + n3 + n4 then g4 r c else f5 (r - (n1 + n2 + n3 + n4)) c)" by blast
  from y1(1) y2(1) y3(1) y4(1) y5(1) have "rfold push_rows [x1, x2, x3, x4, x5] x0 = Inr y5" by simp
  moreover have "rep y5 (n1 + n2 + n3 + n4 + n5) nc
    (\<lambda>r c. if r < n1 then f1 r c else if r < n1 + n2 then f2 (r - n1) c else if r < n1 + n2 + n3 then f3 (r - (n1 + n2)) c
       else if r < n1 + n2 + n3 + n4 then f4 (r - (n1 + n2 + n3)) c else f5 (r - (n1 + n2 + n3 + n4)) c)"
    by (rule rep_cong [OF y5(2)]) (auto simp: g3_def g4_def)
  moreover have "length (sbm_idx y5) = nnz n1 nc f1 + nnz n2 nc f2 + nnz n3 nc f3 + nnz n4 nc f4 + nnz n5 nc f5"
    using rep_nnz [OF y5(2)] nnz_vstack [of "n1 + n2 + n3 + n4" n5 nc g4 f5] n4 by simp
  ultimately show ?thesis by blast
qed

text \<open>A default-constructed \<open>O\<close> behaves as the empty matrix.\<close>

definition obs_norm :: "sparse_binary_matrix \<Rightarrow> sparse_binary_matrix" where
  "obs_norm m = (if m = sbm_default then m\<lparr>sbm_ptr := [0]\<rparr> else m)"

lemma obs_norm:
  assumes "sbm_ok m \<or> m = sbm_default"
  shows "rep (obs_norm m) (sbm_rows m) (sbm_cols m) (mult_at m)" "to_nested_csc (obs_norm m) = to_nested_csc m"
    "nested_csc (obs_norm m) = nested_csc m" "sbm_idx (obs_norm m) = sbm_idx m" "sbm_rows m \<le> max_u32" "sbm_cols m \<le> max_u32"
    "sbm_rows (obs_norm m) = sbm_rows m" "sbm_cols (obs_norm m) = sbm_cols m"
proof -
  have e: "sbm_ok \<lparr>sbm_layout = CSC, sbm_rows = 0, sbm_cols = 0, sbm_ptr = [0], sbm_idx = []\<rparr>"
    by (simp add: sbm_ok_def num_groups_def ptr_ok_def)
  show "rep (obs_norm m) (sbm_rows m) (sbm_cols m) (mult_at m)"
    using assms e by (auto simp: obs_norm_def rep_def sbm_default_def)
  show "to_nested_csc (obs_norm m) = to_nested_csc m" "nested_csc (obs_norm m) = nested_csc m"
    "sbm_idx (obs_norm m) = sbm_idx m" "sbm_rows (obs_norm m) = sbm_rows m" "sbm_cols (obs_norm m) = sbm_cols m"
    by (auto simp: obs_norm_def nested_csc_def to_nested_csc_def sbm_default_def groups_of_def)
  show "sbm_rows m \<le> max_u32" "sbm_cols m \<le> max_u32" using assms by (auto simp: sbm_default_def dest: sbm_okD)
qed

lemma hcat_obs:
  assumes a: "sbm_ok a \<or> a = sbm_default" and b: "sbm_ok b \<or> b = sbm_default" and rows: "sbm_rows a = sbm_rows b"
    and fit: "sbm_cols a + sbm_cols b < max_u32" "length (sbm_idx a) + length (sbm_idx b) \<le> max_u32"
  shows "\<exists>x. hcat a b = Inr x \<and> length (sbm_idx x) = length (sbm_idx a) + length (sbm_idx b) \<and>
    rep x (sbm_rows a) (sbm_cols a + sbm_cols b)
      (\<lambda>r c. if c < sbm_cols a then mult_at a r c else mult_at b r (c - sbm_cols a))"
proof -
  note A = obs_norm [OF a] and B = obs_norm [OF b]
  have n: "nnz (sbm_rows a) (sbm_cols a) (mult_at a) = length (sbm_idx a)"
    "nnz (sbm_rows b) (sbm_cols b) (mult_at b) = length (sbm_idx b)"
    using rep_nnz [OF A(1)] rep_nnz [OF B(1)] A(4) B(4) by simp_all
  obtain x where x: "hcat (obs_norm a) (obs_norm b) = Inr x"
      "rep x (sbm_rows a) (sbm_cols a + sbm_cols b)
        (\<lambda>r c. if c < sbm_cols a then mult_at a r c else mult_at b r (c - sbm_cols a))"
    using hcat_rep [OF A(1) B(1) [folded rows] fit(1)] fit(2) n rows by auto
  moreover have "hcat (obs_norm a) (obs_norm b) = hcat a b"
    by (simp add: hcat_def A(2,7,8) B(2,8) Let_def cong: if_cong)
  moreover have "length (sbm_idx x) = length (sbm_idx a) + length (sbm_idx b)"
    using rep_nnz [OF x(2)] n rows by (simp add: nnz_hcat)
  ultimately show ?thesis by auto
qed

lemma stitched_H:
  assumes wf: "chunk_wf a" "chunk_wf b" and ft: "f \<noteq> t" and st: "stitchable f t a b" and fit: "chain_fits [a, b]"
  defines "n \<equiv> length (ed_rates a)" and "m \<equiv> length (ed_rates b)"
    and "w \<equiv> length (band_of a f)" and "k \<equiv> length (band_of a t) + length (interior_of a)"
  shows "\<exists>sA sB aT aI aF bT bI bF con top top_int bot_int bot H0 H.
    get_seam a f = Inr sA \<and> get_seam b t = Inr sB \<and> seam_num_rows sA = w \<and>
    band_or_empty a t = Inr aT \<and> sbm_rows aT = length (band_of a t) \<and>
    extract_interior_rows (ed_H a) (seams a) = Inr aI \<and>
    extract_row_band (ed_H a) (row_begin sA) (row_end sA) = Inr aF \<and>
    extract_row_band (ed_H b) (row_begin sB) (row_end sB) = Inr bT \<and>
    extract_interior_rows (ed_H b) (seams b) = Inr bI \<and>
    band_or_empty b f = Inr bF \<and> sbm_rows bF = length (band_of b f) \<and>
    hcat aF bT = Inr con \<and> pad_right aT (n + m) = Inr top \<and> pad_right aI (n + m) = Inr top_int \<and>
    pad_left bI n (n + m) = Inr bot_int \<and> pad_left bF n (n + m) = Inr bot \<and> zero_matrix 0 (n + m) = Inr H0 \<and>
    rfold push_rows [top, top_int, con, bot_int, bot] H0 = Inr H \<and>
    rep H (k + w + length (interior_of b) + length (band_of b f)) (n + m) (stitched_cell f t a b) \<and>
    length (sbm_idx H) = length (sbm_idx (ed_H a)) + length (sbm_idx (ed_H b))"
proof -
  have cmp: "composable f t a" "composable f t b" and has: "has_seam a f" "has_seam b t" using st by (auto simp: stitchable_def)
  have lens: "length (band_of b t) = w"
    using st chunk_tags(1) [OF wf(1) cmp(1) ft, of f] chunk_tags(1) [OF wf(2) cmp(2) ft, of t]
    by (simp add: stitchable_def w_def)
  have fits: "sbm_rows (ed_H a) + sbm_rows (ed_H b) < max_u32" "n + m < max_u32"
    "length (sbm_idx (ed_H a)) + length (sbm_idx (ed_H b)) \<le> max_u32"
    using fit by (simp_all add: chain_fits_def n_def m_def)
  note A = chunk_bands [OF wf(1) cmp(1) ft] and B = chunk_bands [OF wf(2) cmp(2) ft]
  note rA = chunk_rows [OF wf(1) cmp(1) ft] and rB = chunk_rows [OF wf(2) cmp(2) ft]
  let ?ga = "mult_at (ed_H a)" and ?gb = "mult_at (ed_H b)"
  have nA: "nnz (length (band_of a t)) n (\<lambda>i. ?ga (band_of a t ! i)) + nnz (length (interior_of a)) n (\<lambda>i. ?ga (interior_of a ! i))
      + nnz w n (\<lambda>i. ?ga (band_of a f ! i)) = length (sbm_idx (ed_H a))"
    using nnz_chunk [OF wf(1) cmp(1) ft, of n ?ga] chunk_rep_H(2) [OF wf(1) cmp(1) ft] by (simp add: n_def w_def)
  have nB: "nnz w m (\<lambda>i. ?gb (band_of b t ! i)) + nnz (length (interior_of b)) m (\<lambda>i. ?gb (interior_of b ! i))
      + nnz (length (band_of b f)) m (\<lambda>i. ?gb (band_of b f ! i)) = length (sbm_idx (ed_H b))"
    using nnz_chunk [OF wf(2) cmp(2) ft, of m ?gb] chunk_rep_H(2) [OF wf(2) cmp(2) ft] lens by (simp add: m_def)
  obtain sA aF where aF: "get_seam a f = Inr sA" "seam_num_rows sA = w"
      "extract_row_band (ed_H a) (row_begin sA) (row_end sA) = Inr aF" "rep aF w n (\<lambda>i. ?ga (band_of a f ! i))"
    using A(1) [OF _ _ has(1)] fits by (auto simp: n_def w_def)
  obtain sB bT where bT: "get_seam b t = Inr sB"
      "extract_row_band (ed_H b) (row_begin sB) (row_end sB) = Inr bT" "rep bT w m (\<lambda>i. ?gb (band_of b t ! i))"
    using B(1) [OF _ _ has(2)] fits lens by (auto simp: m_def)
  obtain aT where aT: "band_or_empty a t = Inr aT" "rep aT (length (band_of a t)) n (\<lambda>i. ?ga (band_of a t ! i))"
    using A(2) [of t] fits by (auto simp: n_def)
  obtain bF where bF: "band_or_empty b f = Inr bF" "rep bF (length (band_of b f)) m (\<lambda>i. ?gb (band_of b f ! i))"
    using B(2) [of f] fits by (auto simp: m_def)
  obtain aI where aI: "extract_interior_rows (ed_H a) (seams a) = Inr aI"
      "rep aI (length (interior_of a)) n (\<lambda>i. ?ga (interior_of a ! i))"
    using A(3) fits by (auto simp: n_def)
  obtain bI where bI: "extract_interior_rows (ed_H b) (seams b) = Inr bI"
      "rep bI (length (interior_of b)) m (\<lambda>i. ?gb (interior_of b ! i))"
    using B(3) fits by (auto simp: m_def)
  let ?con = "\<lambda>r c. if c < n then ?ga (band_of a f ! r) c else ?gb (band_of b t ! r) (c - n)"
  obtain con where con: "hcat aF bT = Inr con" "rep con w (n + m) ?con"
    using hcat_rep [OF aF(4) bT(3) fits(2)] nA nB fits(3) by auto
  obtain top where top: "pad_right aT (n + m) = Inr top"
      "rep top (length (band_of a t)) (n + m) (\<lambda>r c. if c < n then ?ga (band_of a t ! r) c else 0)"
    using pad_right_rep [OF aT(2) fits(2)] by blast
  obtain ti where ti: "pad_right aI (n + m) = Inr ti"
      "rep ti (length (interior_of a)) (n + m) (\<lambda>r c. if c < n then ?ga (interior_of a ! r) c else 0)"
    using pad_right_rep [OF aI(2) fits(2)] by blast
  obtain bi where bi: "pad_left bI n (n + m) = Inr bi"
      "rep bi (length (interior_of b)) (n + m) (\<lambda>r c. if c < n then 0 else ?gb (interior_of b ! r) (c - n))"
    using pad_left_rep [OF bI(2) fits(2)] by blast
  obtain bo where bo: "pad_left bF n (n + m) = Inr bo"
      "rep bo (length (band_of b f)) (n + m) (\<lambda>r c. if c < n then 0 else ?gb (band_of b f ! r) (c - n))"
    using pad_left_rep [OF bF(2) fits(2)] by blast
  obtain H0 where H0: "zero_matrix 0 (n + m) = Inr H0" "rep H0 0 (n + m) (\<lambda>r c. 0)"
    using zero_matrix_rep [OF fits(2)] by blast
  have pad: "nnz x (n + m) (\<lambda>r c. if c < n then g r c else 0) = nnz x n g"
    "nnz x (n + m) (\<lambda>r c. if c < n then 0 else h r (c - n)) = nnz x m h" for x g h
    using nnz_hcat [of x n m g "\<lambda>r c. 0"] nnz_hcat [of x n m "\<lambda>r c. 0" h] by simp_all
  have tot: "k + w + length (interior_of b) + length (band_of b f) \<le> max_u32"
    using rA(3) rB(3) fits(1) lens by (simp add: rows_of_def k_def w_def)
  have sum: "nnz (length (band_of a t)) (n + m) (\<lambda>r c. if c < n then ?ga (band_of a t ! r) c else 0) +
      nnz (length (interior_of a)) (n + m) (\<lambda>r c. if c < n then ?ga (interior_of a ! r) c else 0) +
      nnz w (n + m) ?con +
      nnz (length (interior_of b)) (n + m) (\<lambda>r c. if c < n then 0 else ?gb (interior_of b ! r) (c - n)) +
      nnz (length (band_of b f)) (n + m) (\<lambda>r c. if c < n then 0 else ?gb (band_of b f ! r) (c - n))
      = length (sbm_idx (ed_H a)) + length (sbm_idx (ed_H b))"
    using pad(1) pad(2) [of "length (interior_of b)" "\<lambda>r. ?gb (interior_of b ! r)"]
      pad(2) [of "length (band_of b f)" "\<lambda>r. ?gb (band_of b f ! r)"] nnz_hcat [of w n m "\<lambda>r. ?ga (band_of a f ! r)" "\<lambda>r. ?gb (band_of b t ! r)"] nA nB by simp
  obtain H where H: "rfold push_rows [top, ti, con, bi, bo] H0 = Inr H"
    and rH: "rep H (k + w + length (interior_of b) + length (band_of b f)) (n + m) (stitched_cell f t a b)"
    and nH: "length (sbm_idx H) = length (sbm_idx (ed_H a)) + length (sbm_idx (ed_H b))"
  proof -
    obtain H where H: "rfold push_rows [top, ti, con, bi, bo] H0 = Inr H"
      "rep H (length (band_of a t) + length (interior_of a) + w + length (interior_of b) + length (band_of b f)) (n + m)
        (\<lambda>r c. if r < length (band_of a t) then if c < n then ?ga (band_of a t ! r) c else 0
          else if r < length (band_of a t) + length (interior_of a)
          then if c < n then ?ga (interior_of a ! (r - length (band_of a t))) c else 0
          else if r < length (band_of a t) + length (interior_of a) + w
          then ?con (r - (length (band_of a t) + length (interior_of a))) c
          else if r < length (band_of a t) + length (interior_of a) + w + length (interior_of b)
          then if c < n then 0 else ?gb (interior_of b ! (r - (length (band_of a t) + length (interior_of a) + w))) (c - n)
          else if c < n then 0
          else ?gb (band_of b f ! (r - (length (band_of a t) + length (interior_of a) + w + length (interior_of b)))) (c - n))"
      "length (sbm_idx H) = length (sbm_idx (ed_H a)) + length (sbm_idx (ed_H b))"
      using push5 [OF top(2) ti(2) con(2) bi(2) bo(2) H0(2)] tot fits(2,3) sum by (auto simp: k_def)
    have "rep H (k + w + length (interior_of b) + length (band_of b f)) (n + m) (stitched_cell f t a b)"
      unfolding k_def
      by (rule rep_cong [OF H(2)])
        (auto simp: stitched_cell_def Let_def n_def [symmetric] rows_of_def nth_append lens w_def [symmetric] diff_diff_add add.assoc)
    then show thesis using that H(1,3) by blast
  qed
  then show ?thesis using aF bT aT aI bI bF con top ti bi bo H0 H rH repD(2) [OF aT(2)] repD(2) [OF bF(2)] by blast
qed

lemma dem_stitch_ok:
  assumes wf: "chunk_wf a" "chunk_wf b" and ft: "f \<noteq> t" and st: "stitchable f t a b" and fit: "chain_fits [a, b]"
    and faults: "ed_rates a @ ed_rates b \<noteq> []"
    and obs: "obs_aligned a \<and> obs_aligned b \<or> obs_empty a \<and> obs_empty b"
  shows "\<exists>c. dem_stitch a b f t = Inr c \<and> chunk_wf c \<and> composable f t c \<and> has_seam c f \<and>
    abs_chunk f t c = contract (abs_chunk f t a) (abs_chunk f t b) \<and>
    sbm_rows (ed_H c) + length (band_of a f) = sbm_rows (ed_H a) + sbm_rows (ed_H b) \<and> ed_rates c = ed_rates a @ ed_rates b \<and>
    length (sbm_idx (ed_H c)) = length (sbm_idx (ed_H a)) + length (sbm_idx (ed_H b)) \<and>
    length (sbm_idx (ed_O c)) = length (sbm_idx (ed_O a)) + length (sbm_idx (ed_O b)) \<and>
    (obs_aligned a \<and> obs_aligned b \<longrightarrow> obs_aligned c) \<and> (obs_empty a \<and> obs_empty b \<longrightarrow> obs_empty c)"
proof -
  let ?n = "length (ed_rates a)" and ?m = "length (ed_rates b)" and ?w = "length (band_of a f)"
  let ?x = "length (band_of a t)" and ?k = "length (band_of a t) + length (interior_of a)"
  let ?y = "?k + ?w + length (interior_of b)" let ?z = "?y + length (band_of b f)"
  have cmp: "composable f t a" "composable f t b" and has: "has_seam a f" "has_seam b t"
    and obsn: "ed_num_observables a = ed_num_observables b" and tg: "tags_of a f = tags_of b t"
    using st by (auto simp: stitchable_def)
  have fits: "sbm_rows (ed_H a) + sbm_rows (ed_H b) < max_u32" "?n + ?m < max_u32"
    "length (sbm_idx (ed_O a)) + length (sbm_idx (ed_O b)) \<le> max_u32"
    using fit by (simp_all add: chain_fits_def)
  note rA = chunk_rows [OF wf(1) cmp(1) ft] and rB = chunk_rows [OF wf(2) cmp(2) ft]
  note tA = chunk_tags [OF wf(1) cmp(1) ft] and tB = chunk_tags [OF wf(2) cmp(2) ft]
  have w: "length (band_of b t) = ?w" using tA(1) [of f] tB(1) [of t] tg by simp
  have z: "?z \<le> max_u32" "?y \<le> max_u32" "?z + ?w = sbm_rows (ed_H a) + sbm_rows (ed_H b)"
    using rA(3) rB(3) fits(1) w by (simp_all add: rows_of_def)
  obtain sA sB aT aI aF bT bI bF con top top_int bot_int bot H0 H where
    S: "get_seam a f = Inr sA" "get_seam b t = Inr sB" "seam_num_rows sA = ?w"
    "band_or_empty a t = Inr aT" "sbm_rows aT = ?x" "extract_interior_rows (ed_H a) (seams a) = Inr aI"
    "extract_row_band (ed_H a) (row_begin sA) (row_end sA) = Inr aF"
    "extract_row_band (ed_H b) (row_begin sB) (row_end sB) = Inr bT"
    "extract_interior_rows (ed_H b) (seams b) = Inr bI" "band_or_empty b f = Inr bF" "sbm_rows bF = length (band_of b f)"
    "hcat aF bT = Inr con" "pad_right aT (?n + ?m) = Inr top" "pad_right aI (?n + ?m) = Inr top_int"
    "pad_left bI ?n (?n + ?m) = Inr bot_int" "pad_left bF ?n (?n + ?m) = Inr bot" "zero_matrix 0 (?n + ?m) = Inr H0"
    "rfold push_rows [top, top_int, con, bot_int, bot] H0 = Inr H"
    and rH: "rep H ?z (?n + ?m) (stitched_cell f t a b)"
    and nH: "length (sbm_idx H) = length (sbm_idx (ed_H a)) + length (sbm_idx (ed_H b))"
    using stitched_H [OF wf ft st fit] by blast
  have obs_ok: "sbm_ok (ed_O a) \<or> ed_O a = sbm_default" "sbm_ok (ed_O b) \<or> ed_O b = sbm_default"
    using wf by (auto simp: chunk_wf_def)
  have ocols: "sbm_cols (ed_O a) + sbm_cols (ed_O b) < max_u32"
    using obs fits(2) by (auto simp: obs_aligned_def obs_empty_def max_u32_def)
  obtain OM where OM: "hcat (ed_O a) (ed_O b) = Inr OM"
      "length (sbm_idx OM) = length (sbm_idx (ed_O a)) + length (sbm_idx (ed_O b))"
      "rep OM (sbm_rows (ed_O a)) (sbm_cols (ed_O a) + sbm_cols (ed_O b))
        (\<lambda>r c. if c < sbm_cols (ed_O a) then mult_at (ed_O a) r c else mult_at (ed_O b) r (c - sbm_cols (ed_O a)))"
    using hcat_obs [OF obs_ok _ ocols fits(3)] obsn by (auto simp: ed_num_observables_def)
  define c where "c = \<lparr>ed_H = H, ed_O = OM, ed_rates = ed_rates a @ ed_rates b,
     seams = [\<lparr>seam_ident = t, row_begin = 0, row_end = ?x\<rparr>, \<lparr>seam_ident = f, row_begin = ?y, row_end = ?z\<rparr>],
     tags = tags_of a t @ tags_of b f\<rparr>"
  have res: "dem_stitch a b f t = Inr c"
  proof -
    have v: "ed_validate a = Inr ()" "ed_validate b = Inr ()" "reject_extra_seams a f t = Inr ()"
      "reject_extra_seams b f t = Inr ()" using cmp by (auto simp: composable_def)
    have chk: "check_seam_boundary a b f t = Inr ()"
      using check_seam_boundary_iff [OF wf(1) cmp(1) wf(2) cmp(2) ft] tg by simp
    have nf: "\<not> max_u32 < ?n + ?m" and nz: "sbm_cols H \<noteq> 0"
      using fits(2) repD(3) [OF rH] faults by auto
    have u: "u32 (?x + length (interior_of a) + ?w + length (interior_of b)) = ?y" "u32 (?y + length (band_of b f)) = ?z"
      using z by simp_all
    show ?thesis
      using S(1-17) S(18) [simplified] v chk has obsn nf nz OM(1) rA(4,8) rB(4,8) u ft tA(2) [of t] tB(2) [of f]
      by (simp add: dem_stitch_def Let_def add_seam_def has_seam_def c_def)
  qed
  have sms: "seams c = [\<lparr>seam_ident = t, row_begin = 0, row_end = ?x\<rparr>, \<lparr>seam_ident = f, row_begin = ?y, row_end = ?z\<rparr>]"
    and cH: "?z = sbm_rows (ed_H c)" "sbm_ok (ed_H c)" "sbm_cols (ed_H c) = length (ed_rates c)"
    and cO: "sbm_ok (ed_O c) \<or> ed_O c = sbm_default"
      "0 < sbm_rows (ed_O c) \<or> 0 < sbm_cols (ed_O c) \<longrightarrow> sbm_cols (ed_O c) = length (ed_rates c)"
    and ct: "tags c = tags_of a t @ tags_of b f"
    using repD(1-3) [OF rH] repD(1-3) [OF OM(3)] obs by (auto simp: c_def obs_aligned_def obs_empty_def)
  have le: "?x \<le> ?y" "?y \<le> ?z" and lt: "length (tags_of a t) = ?x" "length (tags_of b f) = ?z - ?y"
    using tA(1) [of t] tB(1) [of f] by simp_all
  note cok = two_seam_chunk [OF sms ft le cH cO ct lt]
  have "abs_chunk f t c = contract (abs_chunk f t a) (abs_chunk f t b)"
  proof -
    have bit: "(r < ?z \<and> q < ?n + ?m \<and> odd (mult_at H r q)) \<longleftrightarrow>
      (if q < ?n then cm_bit (abs_chunk f t a) r q else ?k \<le> r \<and> cm_bit (abs_chunk f t b) (r - ?k) (q - ?n))" for r q
    proof (cases "r < ?z \<and> q < ?n + ?m")
      case True
      then have "mult_at H r q = stitched_cell f t a b r q" using repD(4) [OF rH] by blast
      then show ?thesis using True w by (auto simp: stitched_cell_def abs_chunk_def Let_def rows_of_def)
    next
      case False
      then show ?thesis using w by (auto simp: abs_chunk_def Let_def rows_of_def)
    qed
    have flip: "(r < sbm_rows (ed_O a) \<and> q < sbm_cols (ed_O a) + sbm_cols (ed_O b) \<and> odd (mult_at OM r q)) \<longleftrightarrow>
      (if q < ?n then cm_flip (abs_chunk f t a) r q else cm_flip (abs_chunk f t b) r (q - ?n))" for r q
      using repD(4) [OF OM(3), of r q] obs obsn
      by (auto simp: abs_chunk_def Let_def obs_aligned_def obs_empty_def ed_num_observables_def)
    have "cm_bit (abs_chunk f t c) = cm_bit (contract (abs_chunk f t a) (abs_chunk f t b))"
    proof (intro ext)
      fix r q
      have "cm_bit (abs_chunk f t c) r q \<longleftrightarrow> r < ?z \<and> q < ?n + ?m \<and> odd (mult_at H r q)"
        by (auto simp: abs_chunk_def Let_def cok(6)) (simp_all add: c_def)
      then show "cm_bit (abs_chunk f t c) r q = cm_bit (contract (abs_chunk f t a) (abs_chunk f t b)) r q"
        unfolding bit by (simp add: contract_def Let_def) (simp add: abs_chunk_def Let_def)
    qed
    moreover have "cm_flip (abs_chunk f t c) = cm_flip (contract (abs_chunk f t a) (abs_chunk f t b))"
    proof (intro ext)
      fix r q
      have "cm_flip (abs_chunk f t c) r q \<longleftrightarrow> r < sbm_rows (ed_O a) \<and> q < sbm_cols (ed_O a) + sbm_cols (ed_O b) \<and> odd (mult_at OM r q)"
        using repD(2,3) [OF OM(3)] by (simp add: abs_chunk_def Let_def c_def)
      then show "cm_flip (abs_chunk f t c) r q = cm_flip (contract (abs_chunk f t a) (abs_chunk f t b)) r q"
        unfolding flip by (simp add: contract_def Let_def) (simp add: abs_chunk_def Let_def)
    qed
    moreover have "ed_rates c = ed_rates a @ ed_rates b" "sbm_rows (ed_O c) = sbm_rows (ed_O a)"
      using repD(2) [OF OM(3)] by (simp_all add: c_def)
    ultimately show ?thesis
      by (intro chain_model.equality) (simp_all add: contract_def Let_def abs_chunk_def cok)
  qed
  moreover have "has_seam c f" by (simp add: has_seam_def c_def)
  moreover have "sbm_rows (ed_H c) + ?w = sbm_rows (ed_H a) + sbm_rows (ed_H b)"
    using z(3) repD(2) [OF rH] by (simp add: c_def)
  moreover have "(obs_aligned a \<and> obs_aligned b \<longrightarrow> obs_aligned c) \<and> (obs_empty a \<and> obs_empty b \<longrightarrow> obs_empty c)"
    using repD(2,3) [OF OM(3)] by (auto simp: obs_aligned_def obs_empty_def c_def)
  ultimately show ?thesis using res cok(1,2) nH OM(2) by (auto simp: c_def)
qed

lemma dem_stitch_stitchable:
  assumes "chunk_wf a" "chunk_wf b" "f \<noteq> t" "dem_stitch a b f t = Inr c"
  shows "stitchable f t a b"
proof -
  have p: "ed_validate a = Inr ()" "ed_validate b = Inr ()" "ed_num_observables a = ed_num_observables b"
    "has_seam a f" "has_seam b t" "reject_extra_seams a f t = Inr ()" "reject_extra_seams b f t = Inr ()"
    "check_seam_boundary a b f t = Inr ()"
    using assms(4) unfolding dem_stitch_def by (auto simp: rbind_Inr_iff split: if_splits)
  then have "composable f t a" "composable f t b" by (auto simp: composable_def)
  then show ?thesis using p check_seam_boundary_iff [of a f t b] assms by (auto simp: stitchable_def)
qed

definition demo_chunk :: extended_dem where
  "demo_chunk =
     \<lparr>ed_H = \<lparr>sbm_layout = CSC, sbm_rows = 2, sbm_cols = 1, sbm_ptr = [0, 2], sbm_idx = [0, 1]\<rparr>,
      ed_O = \<lparr>sbm_layout = CSC, sbm_rows = 1, sbm_cols = 1, sbm_ptr = [0, 1], sbm_idx = [0]\<rparr>,
      ed_rates = [1 / 10],
      seams = [\<lparr>seam_ident = prev_round, row_begin = 0, row_end = 1\<rparr>, \<lparr>seam_ident = next_round, row_begin = 1, row_end = 2\<rparr>],
      tags = [0, 0]\<rparr>"

lemma round_names: "next_round \<noteq> prev_round"
  by code_simp

lemma demo_chunk_ok:
  "chunk_wf demo_chunk" "composable next_round prev_round demo_chunk" "stitchable next_round prev_round demo_chunk demo_chunk"
  "obs_aligned demo_chunk"
proof -
  have ok: "sbm_ok (ed_H demo_chunk)" "sbm_ok (ed_O demo_chunk)"
    by (simp_all add: demo_chunk_def sbm_ok_def num_groups_def index_bound_def ptr_ok_def max_u32_def less_Suc_eq)
  have f: "seams demo_chunk = [\<lparr>seam_ident = prev_round, row_begin = 0, row_end = 1\<rparr>, \<lparr>seam_ident = next_round, row_begin = 1, row_end = 2\<rparr>]"
    "2 = sbm_rows (ed_H demo_chunk)" "sbm_cols (ed_H demo_chunk) = length (ed_rates demo_chunk)"
    "0 < sbm_rows (ed_O demo_chunk) \<or> 0 < sbm_cols (ed_O demo_chunk) \<longrightarrow> sbm_cols (ed_O demo_chunk) = length (ed_rates demo_chunk)"
    "tags demo_chunk = [0] @ [0]" by (simp_all add: demo_chunk_def)
  note two = two_seam_chunk [OF f(1) round_names _ _ f(2) ok(1) f(3) disjI1 [OF ok(2)] f(4,5), simplified]
  show "chunk_wf demo_chunk" "composable next_round prev_round demo_chunk" by (fact two(1,2))+
  have "tags_of demo_chunk next_round = tags_of demo_chunk prev_round" using two(7,8) by simp
  then show "stitchable next_round prev_round demo_chunk demo_chunk"
    using \<open>composable next_round prev_round demo_chunk\<close> by (simp add: stitchable_def has_seam_def demo_chunk_def)
  show "obs_aligned demo_chunk" by (simp add: obs_aligned_def demo_chunk_def)
qed

lemma demo_chunk_abs:
  "cm_faults (abs_chunk next_round prev_round demo_chunk) = 1" "cm_lead (abs_chunk next_round prev_round demo_chunk) = 1"
  "cm_body (abs_chunk next_round prev_round demo_chunk) = 0" "cm_bit (abs_chunk next_round prev_round demo_chunk) 0 0"
  "cm_bit (abs_chunk next_round prev_round demo_chunk) 1 0"
proof -
  have b: "band_of demo_chunk next_round = [1]" "band_of demo_chunk prev_round = [0]" "interior_of demo_chunk = []"
    using round_names by (simp_all add: band_of_def interior_of_def in_some_seam_def demo_chunk_def upt_rec)
  have "mult_at (ed_H demo_chunk) 0 0 = 1" "mult_at (ed_H demo_chunk) 1 0 = 1" "ed_rates demo_chunk = [1 / 10]"
    by (simp_all add: mult_at_def groups_def groups_of_def num_groups_def vslice_def demo_chunk_def)
  then show "cm_faults (abs_chunk next_round prev_round demo_chunk) = 1" "cm_lead (abs_chunk next_round prev_round demo_chunk) = 1"
    "cm_body (abs_chunk next_round prev_round demo_chunk) = 0" "cm_bit (abs_chunk next_round prev_round demo_chunk) 0 0"
    "cm_bit (abs_chunk next_round prev_round demo_chunk) 1 0"
    using b by (simp_all add: abs_chunk_def rows_of_def Let_def)
qed

text \<open>
  C6: \<open>dem_stitch\<close> refines the contraction of chunks. On well formed chunks within the 32-bit bounds, at least one
  fault in the pair and observables stated in the same way, it succeeds exactly when both chunks pass their checks,
  agree on the number of observables and have matching, equally tagged seams; the result is again a well formed
  chunk that passes the checks, and its rows, fault columns, observable flips, rates and tags are those of the
  contraction: the outgoing band of the left chunk and the incoming band of the right chunk share their rows, and
  every other row and column is kept.
\<close>
theorem dem_stitch_refines:
  assumes "chunk_wf a" "chunk_wf b" "f \<noteq> t" "chain_fits [a, b]" "ed_rates a @ ed_rates b \<noteq> []"
    and "obs_aligned a \<and> obs_aligned b \<or> obs_empty a \<and> obs_empty b"
  shows "case dem_stitch a b f t of
      Inl e \<Rightarrow> \<not> stitchable f t a b
    | Inr c \<Rightarrow> stitchable f t a b \<and> chunk_wf c \<and> composable f t c \<and>
        abs_chunk f t c = contract (abs_chunk f t a) (abs_chunk f t b)"
  using dem_stitch_ok [OF assms(1-3) _ assms(4-6)] dem_stitch_stitchable [OF assms(1-3)]
  by (cases "dem_stitch a b f t") auto

theorem dem_stitch_refines_witness:
  "\<exists>c. dem_stitch demo_chunk demo_chunk next_round prev_round = Inr c \<and>
     cm_bit (abs_chunk next_round prev_round c) 1 0 \<and> cm_bit (abs_chunk next_round prev_round c) 1 1 \<and>
     \<not> cm_bit (abs_chunk next_round prev_round c) 0 1"
proof -
  let ?A = "abs_chunk next_round prev_round demo_chunk"
  have "chain_fits [demo_chunk, demo_chunk]" "ed_rates demo_chunk @ ed_rates demo_chunk \<noteq> []"
    by (simp_all add: chain_fits_def max_u32_def demo_chunk_def)
  from dem_stitch_refines [OF demo_chunk_ok(1) demo_chunk_ok(1) round_names this] demo_chunk_ok(3,4)
  obtain c where "dem_stitch demo_chunk demo_chunk next_round prev_round = Inr c"
    "abs_chunk next_round prev_round c = contract ?A ?A"
    by (auto split: sum.splits)
  then show ?thesis using demo_chunk_abs by (auto simp: contract_def)
qed

text \<open>
  Two chunks without faults pass every check, but their stitch keeps the seams and loses all rows of \<open>H\<close>, so the
  next operation rejects it.
\<close>

definition bare_chunk :: "sparse_binary_matrix \<Rightarrow> sparse_binary_matrix \<Rightarrow> real list \<Rightarrow> extended_dem" where
  "bare_chunk H OM rates = \<lparr>ed_H = H, ed_O = OM, ed_rates = rates,
     seams = [\<lparr>seam_ident = 1, row_begin = 0, row_end = 1\<rparr>, \<lparr>seam_ident = 2, row_begin = 1, row_end = 2\<rparr>], tags = [0, 0]\<rparr>"

definition faultless_chunk :: extended_dem where
  "faultless_chunk =
     bare_chunk \<lparr>sbm_layout = CSC, sbm_rows = 2, sbm_cols = 0, sbm_ptr = [0], sbm_idx = []\<rparr>
       \<lparr>sbm_layout = CSC, sbm_rows = 1, sbm_cols = 0, sbm_ptr = [0], sbm_idx = []\<rparr> []"

lemma stitch_without_faults:
  "ed_validate faultless_chunk = Inr ()"
  "(case dem_stitch faultless_chunk faultless_chunk 2 1 of
      Inl _ \<Rightarrow> False | Inr c \<Rightarrow> sbm_rows (ed_H c) = 0 \<and> ed_validate c \<noteq> Inr ())"
  by code_simp+

text \<open>
  A chunk with a default-constructed \<open>O\<close> and one with an \<open>O\<close> of no rows and one column per fault pass the checks,
  but their stitch has an \<open>O\<close> with fewer columns than faults.
\<close>

lemma stitch_mixed_observables:
  "(let H = \<lparr>sbm_layout = CSC, sbm_rows = 2, sbm_cols = 1, sbm_ptr = [0, 2], sbm_idx = [0, 1]\<rparr>
    in case dem_stitch (bare_chunk H sbm_default [1])
       (bare_chunk H \<lparr>sbm_layout = CSC, sbm_rows = 0, sbm_cols = 1, sbm_ptr = [0, 0], sbm_idx = []\<rparr> [1]) 2 1 of
      Inl _ \<Rightarrow> False | Inr c \<Rightarrow> sbm_cols (ed_O c) = 1 \<and> length (ed_rates c) = 2 \<and> ed_validate c \<noteq> Inr ())"
  by code_simp

end
