(* ===== verification/QEC_Chunk_Chain.thy ===== *)
theory QEC_Chunk_Chain
  imports QEC_Chunk_Stitch
begin

text \<open>
  The one-pass operations on a whole chain. \<open>plan_chain\<close> gives every chunk the row at which its leading band
  starts; \<open>chain_row_map\<close> then sends a row of a chunk to that base plus its position in the order of the
  previous theory, and the columns that \<open>chain_h_columns\<close> writes are those of the contracted chain.
\<close>

section \<open>Specification of a chain\<close>

text \<open>The left fold that the code's comments name, and the same chain built from the right.\<close>

definition chain_of :: "chain_model list \<Rightarrow> chain_model" where
  "chain_of As = fold (\<lambda>B A. contract A B) (tl As) (hd As)"

fun chain_rec :: "chain_model list \<Rightarrow> chain_model" where
  "chain_rec [] = undefined"
| "chain_rec [A] = A"
| "chain_rec (A # B # As) = contract A (chain_rec (B # As))"

definition linked :: "chain_model list \<Rightarrow> bool" where
  "linked As \<longleftrightarrow> (\<forall>i. i + 1 < length As \<longrightarrow> cm_trail (As ! i) = cm_lead (As ! (i + 1)))"

lemma linked_Cons: "linked (A # B # As) \<longleftrightarrow> cm_trail A = cm_lead B \<and> linked (B # As)"
  unfolding linked_def by (auto simp: nth_Cons split: nat.splits)

lemma contract_lead [simp]: "cm_lead (contract A B) = cm_lead A" "cm_trail (contract A B) = cm_trail B"
  "cm_faults (contract A B) = cm_faults A + cm_faults B" "cm_obs (contract A B) = cm_obs A"
  "cm_rates (contract A B) = cm_rates A @ cm_rates B" "cm_body (contract A B) = cm_body A + cm_trail A + cm_body B"
  "cm_lead_tags (contract A B) = cm_lead_tags A" "cm_trail_tags (contract A B) = cm_trail_tags B"
  by (simp_all add: contract_def Let_def)

lemma contract_assoc:
  assumes "cm_trail A = cm_lead B"
  shows "contract (contract A B) C = contract A (contract B C)"
proof (rule chain_model.equality)
  show "cm_bit (contract (contract A B) C) = cm_bit (contract A (contract B C))"
    using assms by (intro ext) (auto simp: contract_def Let_def diff_diff_add add.assoc le_diff_conv2 add.commute add.left_commute)
  show "cm_flip (contract (contract A B) C) = cm_flip (contract A (contract B C))"
    by (intro ext) (auto simp: contract_def Let_def diff_diff_add)
qed (simp_all add: add.assoc)

lemma chain_of_rec: "linked As \<Longrightarrow> As \<noteq> [] \<Longrightarrow> chain_of As = chain_rec As"
proof -
  have "linked (A # As) \<Longrightarrow> fold (\<lambda>B A. contract A B) As A = chain_rec (A # As)" for A As
  proof (induction As arbitrary: A)
    case (Cons B As)
    have "linked (contract A B # As)" using Cons.prems
      by (cases As) (auto simp: linked_Cons, simp add: linked_def)
    then have "fold (\<lambda>B A. contract A B) (B # As) A = chain_rec (contract A B # As)" using Cons.IH by simp
    also have "\<dots> = chain_rec (A # B # As)"
      using Cons.prems by (cases As) (auto simp: linked_Cons contract_assoc)
    finally show ?case .
  qed simp
  then show "linked As \<Longrightarrow> As \<noteq> [] \<Longrightarrow> chain_of As = chain_rec As" by (cases As) (auto simp: chain_of_def)
qed

lemma chain_rec_fields:
  assumes "linked As" "As \<noteq> []"
  shows "cm_lead (chain_rec As) + cm_body (chain_rec As) = sum_list (map (\<lambda>A. cm_lead A + cm_body A) As)"
    "cm_lead (chain_rec As) = cm_lead (hd As)" "cm_trail (chain_rec As) = cm_trail (last As)"
    "cm_faults (chain_rec As) = sum_list (map cm_faults As)" "cm_obs (chain_rec As) = cm_obs (hd As)"
    "cm_rates (chain_rec As) = concat (map cm_rates As)"
    "cm_lead_tags (chain_rec As) = cm_lead_tags (hd As)" "cm_trail_tags (chain_rec As) = cm_trail_tags (last As)"
  using assms by (induction As rule: chain_rec.induct) (auto simp: linked_Cons)

section \<open>Positions of rows\<close>

definition row_pos :: "extended_dem \<Rightarrow> seam_id \<Rightarrow> seam_id \<Rightarrow> nat \<Rightarrow> nat" where
  "row_pos d f t r =
     (if r \<in> set (band_of d t) then r - hd (band_of d t)
      else if r \<in> set (band_of d f) then length (band_of d t) + length (interior_of d) + (r - hd (band_of d f))
      else length (band_of d t) + length (filter (\<lambda>r. \<not> in_some_seam (seams d) r) [0..<r]))"

lemma filter_upt_nth:
  assumes "P r" "r < n"
  shows "length (filter P [0..<r]) < length (filter P [0..<n])" "filter P [0..<n] ! length (filter P [0..<r]) = r"
proof -
  have "[0..<n] = [0..<r] @ r # [Suc r..<n]"
    using assms(2) upt_add_eq_append [of 0 r "n - r"] by (simp add: upt_conv_Cons)
  then show "length (filter P [0..<r]) < length (filter P [0..<n])" "filter P [0..<n] ! length (filter P [0..<r]) = r"
    using assms(1) by (simp_all add: nth_append)
qed

lemma band_of_upt: "\<exists>b e. band_of d i = [b..<e]"
proof (cases "find (\<lambda>s. seam_ident s = i) (seams d)")
  case None
  then have "band_of d i = [0..<0]" by (simp add: band_of_def)
  then show ?thesis by blast
qed (auto simp: band_of_def)

lemma row_pos_inverse:
  assumes "chunk_wf d" "composable f t d" "f \<noteq> t" "r < sbm_rows (ed_H d)"
  shows "row_pos d f t r < sbm_rows (ed_H d)" "rows_of d f t ! row_pos d f t r = r"
proof -
  note c = chunk_rows [OF assms(1-3)]
  obtain b e where t: "band_of d t = [b..<e]" using band_of_upt by blast
  obtain b' e' where f: "band_of d f = [b'..<e']" using band_of_upt by blast
  have r: "r \<in> set (rows_of d f t)" using c(2) assms(4) by simp
  have "row_pos d f t r < length (rows_of d f t) \<and> rows_of d f t ! row_pos d f t r = r"
  proof (cases "r \<in> set (band_of d t)")
    case True
    then show ?thesis using t by (auto simp: row_pos_def rows_of_def nth_append)
  next
    case nt: False
    show ?thesis
    proof (cases "r \<in> set (band_of d f)")
      case True
      then show ?thesis using t f nt by (auto simp: row_pos_def rows_of_def nth_append)
    next
      case False
      then have "r \<in> set (interior_of d)" using r nt by (simp add: rows_of_def)
      then have "\<not> in_some_seam (seams d) r" by (simp add: interior_of_def)
      from filter_upt_nth [of "\<lambda>r. \<not> in_some_seam (seams d) r", OF this assms(4)]
      show ?thesis using nt False by (simp add: row_pos_def rows_of_def nth_append interior_of_def)
    qed
  qed
  then show "row_pos d f t r < sbm_rows (ed_H d)" "rows_of d f t ! row_pos d f t r = r" using c(3) by simp_all
qed

lemma row_pos_eq_iff:
  assumes "chunk_wf d" "composable f t d" "f \<noteq> t" "r < sbm_rows (ed_H d)" "p < sbm_rows (ed_H d)"
  shows "row_pos d f t r = p \<longleftrightarrow> r = rows_of d f t ! p"
  using row_pos_inverse [OF assms(1-4)] chunk_rows(1,3) [OF assms(1-3)] assms(5)
  by (metis nth_eq_iff_index_eq)

text \<open>The loop of \<open>chain_row_map\<close> computes these positions.\<close>

lemma seam_band_eq:
  assumes "chunk_wf d" "composable f t d" "f \<noteq> t"
  shows "\<exists>b e. seam_band d i = Inr (b, e) \<and> band_of d i = [b..<e]"
  by (cases "find (\<lambda>s. seam_ident s = i) (seams d)")
    (auto simp: seam_band_def has_seam_find get_seam_def band_of_def)

lemma row_map_loop:
  assumes "chunk_wf d" "composable f t d" "f \<noteq> t" "base + sbm_rows (ed_H d) \<le> max_u32"
    and "band_of d t = [b..<e]" "band_of d f = [b'..<e']"
    and "to_base = base" "int_base = base + length (band_of d t)"
    and "from_base = base + length (band_of d t) + length (interior_of d)"
  shows "fst (fold (row_map_step (b, e) (b', e') to_base from_base int_base) [0..<sbm_rows (ed_H d)] ([], 0))
    = map (\<lambda>r. base + row_pos d f t r) [0..<sbm_rows (ed_H d)]"
proof -
  let ?P = "\<lambda>r. \<not> in_some_seam (seams d) r"
  note c = chunk_rows [OF assms(1-3)]
  have "fold (row_map_step (b, e) (b', e') to_base from_base int_base) [0..<k] ([], 0)
      = (map (\<lambda>r. base + row_pos d f t r) [0..<k], length (filter ?P [0..<k]))" if "k \<le> sbm_rows (ed_H d)" for k
    using that
  proof (induction k)
    case (Suc k)
    have k: "k \<in> set (rows_of d f t)" "k < sbm_rows (ed_H d)" using Suc.prems c(2) by auto
    have u: "u32 (base + row_pos d f t k) = base + row_pos d f t k"
      using row_pos_inverse(1) [OF assms(1-3) k(2)] assms(4) by simp
    have cases3: "(b \<le> k \<and> k < e) \<or> (b' \<le> k \<and> k < e') \<longleftrightarrow> in_some_seam (seams d) k"
    proof -
      have "k \<in> set (band_of d t) \<or> k \<in> set (band_of d f) \<longleftrightarrow> \<not> ?P k"
      proof
        assume "\<not> ?P k"
        then show "k \<in> set (band_of d t) \<or> k \<in> set (band_of d f)" using k by (auto simp: rows_of_def interior_of_def)
      next
        assume "k \<in> set (band_of d t) \<or> k \<in> set (band_of d f)"
        then have "k \<notin> set (interior_of d)" using c(1) by (auto simp: rows_of_def)
        then show "\<not> ?P k" using k(2) by (simp add: interior_of_def)
      qed
      then show ?thesis using assms(5,6) by simp
    qed
    have hd: "b \<le> k \<and> k < e \<Longrightarrow> hd (band_of d t) = b" "b' \<le> k \<and> k < e' \<Longrightarrow> hd (band_of d f) = b'"
      using assms(5,6) by auto
    show ?case using Suc u cases3 hd
      by (auto simp: row_map_step_def row_pos_def assms(5-9) add.assoc)
  qed simp
  then show ?thesis by simp
qed

section \<open>Chains the checks accept\<close>

definition chain_ok :: "seam_id \<Rightarrow> seam_id \<Rightarrow> extended_dem list \<Rightarrow> bool" where
  "chain_ok f t cs \<longleftrightarrow> cs \<noteq> [] \<and> (\<forall>c \<in> set cs. chunk_wf c \<and> composable f t c) \<and>
     (\<forall>i. i + 1 < length cs \<longrightarrow> stitchable f t (cs ! i) (cs ! (i + 1)))"

definition chunk_rise :: "seam_id \<Rightarrow> extended_dem \<Rightarrow> nat" where
  "chunk_rise t c = length (band_of c t) + length (interior_of c)"

lemma chain_ok_Cons:
  "chain_ok f t (c # d # cs) \<longleftrightarrow> chunk_wf c \<and> composable f t c \<and> stitchable f t c d \<and> chain_ok f t (d # cs)"
  unfolding chain_ok_def by (auto simp: nth_Cons split: nat.splits)

lemma chain_ok_hd: "chain_ok f t (c # cs) \<Longrightarrow> chunk_wf c \<and> composable f t c"
  by (simp add: chain_ok_def)

lemma chain_ok_nth: "chain_ok f t cs \<Longrightarrow> i < length cs \<Longrightarrow> chunk_wf (cs ! i) \<and> composable f t (cs ! i)"
  by (simp add: chain_ok_def)

lemma stitchable_width:
  "chunk_wf a \<Longrightarrow> chunk_wf b \<Longrightarrow> f \<noteq> t \<Longrightarrow> stitchable f t a b \<Longrightarrow> length (band_of a f) = length (band_of b t)"
  using chunk_tags(1) [of a f t f] chunk_tags(1) [of b f t t] by (auto simp: stitchable_def)

lemma abs_fields [simp]:
  "cm_lead (abs_chunk f t c) = length (band_of c t)" "cm_body (abs_chunk f t c) = length (interior_of c)"
  "cm_trail (abs_chunk f t c) = length (band_of c f)" "cm_faults (abs_chunk f t c) = length (ed_rates c)"
  "cm_obs (abs_chunk f t c) = ed_num_observables c" "cm_rates (abs_chunk f t c) = ed_rates c"
  "cm_lead_tags (abs_chunk f t c) = tags_of c t" "cm_trail_tags (abs_chunk f t c) = tags_of c f"
  by (simp_all add: abs_chunk_def Let_def ed_num_observables_def)

lemma linked_abs: "chain_ok f t cs \<Longrightarrow> f \<noteq> t \<Longrightarrow> linked (map (abs_chunk f t) cs)"
  by (auto simp: linked_def chain_ok_def intro!: stitchable_width)

lemma validate_chain_iff:
  assumes wf: "\<forall>c \<in> set cs. chunk_wf c" and ne: "cs \<noteq> []" and ft: "f \<noteq> t"
  shows "validate_chain cs f t = Inr () \<longleftrightarrow> chain_ok f t cs"
proof -
  let ?v = "\<lambda>c _. rbind (ed_validate c) (\<lambda>_. reject_extra_seams c f t)"
  have v: "rfold ?v cs () = Inr () \<longleftrightarrow> (\<forall>c \<in> set cs. composable f t c)"
    by (subst rfold_unit_iff) (auto simp: composable_def rbind_Inr_iff)
  have o: "rfold (\<lambda>i _. if ed_num_observables (cs ! i) \<noteq> ed_num_observables (cs ! 0)
      then Inl (Invalid_argument ''observable count mismatch at chunk'') else Inr ()) [1..<length cs] () = Inr ()
      \<longleftrightarrow> (\<forall>i. i + 1 < length cs \<longrightarrow> ed_num_observables (cs ! i) = ed_num_observables (cs ! (i + 1)))" (is "?O \<longleftrightarrow> ?E")
  proof -
    have "?O \<longleftrightarrow> (\<forall>i \<in> {1..<length cs}. ed_num_observables (cs ! i) = ed_num_observables (cs ! 0))"
      by (subst rfold_unit_iff) auto
    also have "\<dots> \<longleftrightarrow> ?E"
    proof
      assume E: ?E
      have "i < length cs \<Longrightarrow> ed_num_observables (cs ! i) = ed_num_observables (cs ! 0)" for i
        using E by (induction i) auto
      then show "\<forall>i \<in> {1..<length cs}. ed_num_observables (cs ! i) = ed_num_observables (cs ! 0)" by simp
    qed (auto, metis Suc_lessD atLeastLessThan_iff less_Suc0 linorder_not_less old.nat.exhaust le_numeral_extra(4) Suc_le_eq zero_less_Suc)
    finally show ?thesis .
  qed
  have b: "rfold (\<lambda>i _. if \<not> has_seam (cs ! i) f then Inl (Invalid_argument ''no seam with id (from_seam); cannot contract'')
        else if \<not> has_seam (cs ! (i + 1)) t then Inl (Invalid_argument ''no seam with id (to_seam); cannot contract'')
        else check_seam_boundary (cs ! i) (cs ! (i + 1)) f t) [0..<length cs - 1] () = Inr ()
      \<longleftrightarrow> (\<forall>i. i + 1 < length cs \<longrightarrow> has_seam (cs ! i) f \<and> has_seam (cs ! (i + 1)) t \<and> tags_of (cs ! i) f = tags_of (cs ! (i + 1)) t)"
    if cmp: "\<forall>c \<in> set cs. composable f t c"
  proof -
    have "check_seam_boundary (cs ! i) (cs ! (i + 1)) f t = Inr () \<longleftrightarrow> tags_of (cs ! i) f = tags_of (cs ! (i + 1)) t"
      if "i + 1 < length cs" for i
      using that wf cmp ft by (intro check_seam_boundary_iff) auto
    then show ?thesis by (subst rfold_unit_iff) (auto split: if_splits)
  qed
  show ?thesis
    unfolding validate_chain_def using v o b wf ne
    by (auto simp: rbind_Inr_iff chain_ok_def stitchable_def)
qed

lemma plan_rows_eq:
  assumes "chain_ok f t (c # cs)" "f \<noteq> t"
  shows "plan_rows f (c # cs) (base + length (band_of c t)) =
    Inr (map (\<lambda>i. base + sum_list (map (chunk_rise t) (take i (c # cs))) + length (band_of ((c # cs) ! i) t)) [0..<length (c # cs)],
         map (\<lambda>i. base + sum_list (map (chunk_rise t) (take (i + 1) (c # cs)))) [0..<length cs],
         base + sum_list (map (chunk_rise t) (c # cs)))"
  using assms
proof (induction cs arbitrary: c base)
  case Nil
  then have "num_interior_rows c = length (interior_of c)" using chunk_rows(4) chain_ok_hd by blast
  then show ?case by (simp add: chunk_rise_def)
next
  case (Cons d cs)
  have c: "chunk_wf c" "composable f t c" and d: "chunk_wf d" and st: "stitchable f t c d" and ok: "chain_ok f t (d # cs)"
    using Cons.prems by (auto simp: chain_ok_Cons dest: chain_ok_hd)
  have w: "length (band_of c f) = length (band_of d t)" by (rule stitchable_width [OF c(1) d Cons.prems(2) st])
  note r = chunk_rows(4,6) [OF c Cons.prems(2)]
  have e: "base + length (band_of c t) + num_interior_rows c + length (band_of c f) = (base + chunk_rise t c) + length (band_of d t)"
    using r w by (simp add: chunk_rise_def)
  have "plan_rows f (c # d # cs) (base + length (band_of c t)) =
      rbind (plan_rows f (d # cs) ((base + chunk_rise t c) + length (band_of d t))) (\<lambda>(ints, ss, n).
        Inr ((base + length (band_of c t)) # ints, (base + chunk_rise t c) # ss, n))"
    using r(2) e by (subst plan_rows.simps) (simp add: Let_def chunk_rise_def r(1) add.assoc del: plan_rows.simps)
  also have "\<dots> = Inr ((base + length (band_of c t)) #
        map (\<lambda>i. base + chunk_rise t c + sum_list (map (chunk_rise t) (take i (d # cs))) + length (band_of ((d # cs) ! i) t)) [0..<length (d # cs)],
      (base + chunk_rise t c) # map (\<lambda>i. base + chunk_rise t c + sum_list (map (chunk_rise t) (take (i + 1) (d # cs)))) [0..<length cs],
      base + chunk_rise t c + sum_list (map (chunk_rise t) (d # cs)))"
    unfolding Cons.IH [OF ok Cons.prems(2), of "base + chunk_rise t c"] by simp
  finally show ?case by (simp add: map_upt_Suc add.assoc del: upt_Suc plan_rows.simps)
qed

section \<open>The plan and the columns\<close>

definition faults_before :: "extended_dem list \<Rightarrow> nat \<Rightarrow> nat" where
  "faults_before cs i = sum_list (map (\<lambda>c. length (ed_rates c)) (take i cs))"

definition base_row :: "seam_id \<Rightarrow> extended_dem list \<Rightarrow> nat \<Rightarrow> nat" where
  "base_row t cs i = sum_list (map (chunk_rise t) (take i cs))"

lemma fault_offsets:
  assumes "\<forall>c \<in> set cs. ed_num_faults c = length (ed_rates c)"
  shows "dem_chunks_to_fault_offsets cs = map (faults_before cs) [0..<length cs + 1]"
  using assms
proof (induction cs rule: rev_induct)
  case (snoc c cs)
  have "map (faults_before (cs @ [c])) [0..<length cs + 1] = map (faults_before cs) [0..<length cs + 1]"
    by (rule map_cong) (auto simp: faults_before_def)
  then show ?case using snoc by (simp add: dem_chunks_to_fault_offsets_def faults_before_def)
qed (simp add: dem_chunks_to_fault_offsets_def faults_before_def)

lemma chain_faults: "chain_ok f t cs \<Longrightarrow> f \<noteq> t \<Longrightarrow> c \<in> set cs \<Longrightarrow> ed_num_faults c = length (ed_rates c)"
  using chunk_rows(8) by (auto simp: chain_ok_def)

lemma plan_chain_eq:
  assumes ok: "chain_ok f t cs" and ft: "f \<noteq> t"
  shows "\<exists>plan. plan_chain cs f t = Inr plan \<and>
    (\<forall>i \<le> length cs. col_off plan ! i = faults_before cs i) \<and> cl_num_faults plan = faults_before cs (length cs) \<and>
    (\<forall>i < length cs. interior_row plan ! i = base_row t cs i + length (band_of (cs ! i) t)) \<and>
    (\<forall>i. i + 1 < length cs \<longrightarrow> seam_row plan ! i = base_row t cs (i + 1)) \<and>
    trail_row plan = base_row t cs (length cs) \<and>
    cl_lead plan = length (band_of (hd cs) t) \<and> cl_trail plan = length (band_of (last cs) f)"
proof -
  obtain c cs' where cs: "cs = c # cs'" using ok by (cases cs) (auto simp: chain_ok_def)
  have "last cs \<in> set cs" "hd cs \<in> set cs" using cs by auto
  then have "chunk_wf (hd cs)" "composable f t (hd cs)" "chunk_wf (last cs)" "composable f t (last cs)"
    using ok by (auto simp: chain_ok_def)
  then have w: "seam_rows_or_zero (hd cs) t = Inr (length (band_of (hd cs) t))"
    "seam_rows_or_zero (last cs) f = Inr (length (band_of (last cs) f))"
    using chunk_rows(5,6) ft by blast+
  have off: "dem_chunks_to_fault_offsets cs = map (faults_before cs) [0..<length cs + 1]"
    using fault_offsets chain_faults [OF ok ft] by blast
  then have "last (dem_chunks_to_fault_offsets cs) = faults_before cs (length cs)" by simp
  then show ?thesis
    using w off plan_rows_eq [OF ok [unfolded cs] ft, of 0] cs
    by (auto simp: plan_chain_def base_row_def simp del: upt_Suc plan_rows.simps)
qed

definition mapped_cols :: "seam_id \<Rightarrow> seam_id \<Rightarrow> nat \<Rightarrow> nat \<Rightarrow> extended_dem \<Rightarrow> nat list list" where
  "mapped_cols f t cap base c =
     map (\<lambda>rows. filter (\<lambda>r. r < cap) (map (\<lambda>r. base + row_pos c f t r) rows)) (to_nested_csc (ed_H c))"

lemma chain_row_map_eq:
  assumes ok: "chain_ok f t cs" and ft: "f \<noteq> t" and fit: "chain_fits cs" and i: "i < length cs"
    and plan: "\<forall>i < length cs. interior_row plan ! i = base_row t cs i + length (band_of (cs ! i) t)"
      "\<forall>i. i + 1 < length cs \<longrightarrow> seam_row plan ! i = base_row t cs (i + 1)" "trail_row plan = base_row t cs (length cs)"
  shows "chain_row_map (cs ! i) i (length cs) plan f t
    = Inr (map (\<lambda>r. base_row t cs i + row_pos (cs ! i) f t r) [0..<sbm_rows (ed_H (cs ! i))])"
proof -
  let ?c = "cs ! i"
  have c: "chunk_wf ?c" "composable f t ?c" using chain_ok_nth [OF ok i] by auto
  obtain b e where t: "seam_band ?c t = Inr (b, e)" "band_of ?c t = [b..<e]" using seam_band_eq [OF c ft] by blast
  obtain b' e' where f: "seam_band ?c f = Inr (b', e')" "band_of ?c f = [b'..<e']" using seam_band_eq [OF c ft] by blast
  have suc: "base_row t cs (i + 1) = base_row t cs i + length (band_of ?c t) + length (interior_of ?c)"
    using i by (simp add: base_row_def take_Suc_conv_app_nth chunk_rise_def)
  have le: "base_row t cs i + sbm_rows (ed_H ?c) \<le> max_u32"
  proof -
    have rise: "chunk_rise t x \<le> sbm_rows (ed_H x)" if "x \<in> set cs" for x
      using chunk_rows(3) [of x f t] that ok ft by (auto simp: chain_ok_def rows_of_def chunk_rise_def)
    have "base_row t cs i \<le> sum_list (map (\<lambda>d. sbm_rows (ed_H d)) (take i cs))"
      unfolding base_row_def by (rule sum_list_mono) (use rise in \<open>auto dest: in_set_takeD\<close>)
    moreover have "sum_list (map (\<lambda>d. sbm_rows (ed_H d)) cs) = sum_list (map (\<lambda>d. sbm_rows (ed_H d)) (take i cs))
        + sbm_rows (ed_H ?c) + sum_list (map (\<lambda>d. sbm_rows (ed_H d)) (drop (Suc i) cs))"
      by (subst id_take_nth_drop [OF i]) simp
    ultimately show ?thesis using fit by (simp add: chain_fits_def)
  qed
  have to: "(if i = 0 then 0 else seam_row plan ! (i - 1)) = base_row t cs i"
    using plan(2) i by (cases i) (auto simp: base_row_def)
  have fr: "(if i + 1 < length cs then seam_row plan ! i else trail_row plan)
      = base_row t cs i + length (band_of ?c t) + length (interior_of ?c)"
  proof (cases "i + 1 < length cs")
    case False
    then have "length cs = i + 1" using i by simp
    then show ?thesis using plan(3) suc by simp
  qed (use plan(2) suc in auto)
  show ?thesis
    unfolding chain_row_map_def Let_def to fr t(1) f(1) using plan(1) i
      row_map_loop [OF c ft le t(2) f(2) refl refl refl] by simp
qed

lemma map_column_eq:
  "set rows \<subseteq> {..<n} \<Longrightarrow>
   map_column (map g [0..<n]) cap rows = Inr (filter (\<lambda>r. r < cap) (map g rows))"
  unfolding map_column_def by (subst rmap_pure [where g = g]) auto

lemma write_blocks:
  fixes offs :: "nat \<Rightarrow> nat"
  assumes "\<And>i pre. i < T \<Longrightarrow> length pre = offs i \<Longrightarrow>
      stp i (pre @ replicate (offs T - offs i) []) = Inr (pre @ B i @ replicate (offs T - offs (Suc i)) [])"
    and "\<And>i. i < T \<Longrightarrow> offs (Suc i) = offs i + length (B i)" "offs 0 = 0"
  shows "rfold stp [0..<T] (replicate (offs T) []) = Inr (concat (map B [0..<T]))"
proof -
  have "rfold stp [0..<k] (replicate (offs T) []) = Inr (concat (map B [0..<k]) @ replicate (offs T - offs k) []) \<and>
      length (concat (map B [0..<k])) = offs k" if "k \<le> T" for k
    using that
  proof (induction k)
    case (Suc k)
    then show ?case using assms(1) [of k "concat (map B [0..<k])"] assms(2) [of k] by (simp add: rfold_append)
  qed (simp add: assms(3))
  from this [of T] show ?thesis by simp
qed

lemma write_cols_block:
  assumes "length pre = off" "length src \<le> rest"
  shows "write_cols off src (pre @ replicate rest []) = Inr (pre @ src @ replicate (rest - length src) [])"
  using write_cols_eq [of "replicate (length src) []" src pre "replicate (rest - length src) []"] assms
  by (simp add: replicate_add [symmetric])

lemma faults_before_mono: "i \<le> j \<Longrightarrow> faults_before cs i \<le> faults_before cs j"
  unfolding faults_before_def by (metis le_add1 le_add_diff_inverse map_append sum_list_append take_add)

lemma chain_h_columns_eq:
  assumes ok: "chain_ok f t cs" and ft: "f \<noteq> t" and fit: "chain_fits cs"
    and plan: "\<forall>i \<le> length cs. col_off plan ! i = faults_before cs i" "cl_num_faults plan = faults_before cs (length cs)"
      "\<forall>i < length cs. interior_row plan ! i = base_row t cs i + length (band_of (cs ! i) t)"
      "\<forall>i. i + 1 < length cs \<longrightarrow> seam_row plan ! i = base_row t cs (i + 1)" "trail_row plan = base_row t cs (length cs)"
  shows "chain_h_columns cs plan f t cap = Inr (concat (map (\<lambda>i. mapped_cols f t cap (base_row t cs i) (cs ! i)) [0..<length cs]))"
  unfolding chain_h_columns_def plan(2)
proof (rule write_blocks)
  fix i and pre :: "nat list list" assume i: "i < length cs" and pre: "length pre = faults_before cs i"
  let ?c = "cs ! i"
  have c: "chunk_wf ?c" "composable f t ?c" using chain_ok_nth [OF ok i] by auto
  note n = nested_csc_rep [OF chunk_rep_H(1) [OF c ft]]
  have local: "rmap (map_column (map (\<lambda>r. base_row t cs i + row_pos ?c f t r) [0..<sbm_rows (ed_H ?c)]) cap) (nested_csc (ed_H ?c))
      = Inr (mapped_cols f t cap (base_row t cs i) ?c)"
    unfolding mapped_cols_def nested_csc_eq [OF repD(1) [OF chunk_rep_H(1) [OF c ft]]]
  proof (rule rmap_pure)
    fix rows assume "rows \<in> set (to_nested_csc (ed_H ?c))"
    then have "set rows \<subseteq> {..<sbm_rows (ed_H ?c)}" using n(1,3) by (auto simp: in_set_conv_nth)
    then show "map_column (map (\<lambda>r. base_row t cs i + row_pos ?c f t r) [0..<sbm_rows (ed_H ?c)]) cap rows =
        Inr (filter (\<lambda>r. r < cap) (map (\<lambda>r. base_row t cs i + row_pos ?c f t r) rows))" by (rule map_column_eq)
  qed
  have len: "length (mapped_cols f t cap (base_row t cs i) ?c) = length (ed_rates ?c)" using n(1) by (simp add: mapped_cols_def)
  have suc: "faults_before cs (Suc i) = faults_before cs i + length (ed_rates ?c)"
    using i by (simp add: faults_before_def take_Suc_conv_app_nth)
  show "rbind (chain_row_map ?c i (length cs) plan f t) (\<lambda>row_map. rbind (rmap (map_column row_map cap) (nested_csc (ed_H ?c)))
      (\<lambda>local. write_cols (col_off plan ! i) local (pre @ replicate (faults_before cs (length cs) - faults_before cs i) [])))
    = Inr (pre @ mapped_cols f t cap (base_row t cs i) ?c @ replicate (faults_before cs (length cs) - faults_before cs (Suc i)) [])"
    using write_cols_block [OF pre, of "mapped_cols f t cap (base_row t cs i) ?c" "faults_before cs (length cs) - faults_before cs i"]
      faults_before_mono [of "Suc i" "length cs" cs] i plan(1) suc len local
    by (simp add: chain_row_map_eq [OF ok ft fit i plan(3-5)])
next
  fix i assume i: "i < length cs"
  then have "chunk_wf (cs ! i)" "composable f t (cs ! i)" using chain_ok_nth [OF ok i] by auto
  then show "faults_before cs (Suc i) = faults_before cs i + length (mapped_cols f t cap (base_row t cs i) (cs ! i))"
    using nested_csc_rep(1) [OF chunk_rep_H(1) [of "cs ! i" f t]] ft i
    by (simp add: faults_before_def take_Suc_conv_app_nth mapped_cols_def)
qed (simp add: faults_before_def)

end
