(* ===== verification/QEC_Chunk_Fold.thy ===== *)
theory QEC_Chunk_Fold
  imports QEC_Chunk_Chain
begin

text \<open>
  The cells of the columns that the one-pass operations write, and what follows for \<open>dem_stitch_all\<close> and
  \<open>dem_chunks_to_pcm\<close>: the first is the left fold of \<open>dem_stitch\<close>, the second the parity-check matrix of the
  closed chain.
\<close>

section \<open>Blocks of columns\<close>

fun chain_blocks :: "(nat \<Rightarrow> extended_dem \<Rightarrow> nat list list) \<Rightarrow> seam_id \<Rightarrow> nat \<Rightarrow> extended_dem list \<Rightarrow> nat list list" where
  "chain_blocks g t base [] = []"
| "chain_blocks g t base (c # cs) = g base c @ chain_blocks g t (base + chunk_rise t c) cs"

lemma concat_blocks:
  "concat (map (\<lambda>i. g (base + base_row t cs i) (cs ! i)) [0..<length cs]) = chain_blocks g t base cs"
proof (induction cs arbitrary: base)
  case (Cons c cs)
  from Cons [of "base + chunk_rise t c"] show ?case
    by (simp add: map_upt_Suc base_row_def add.assoc del: upt_Suc)
qed simp

text \<open>The cell at row \<open>r\<close> and column \<open>c\<close> of a chain whose first row is \<open>base\<close>, before reduction modulo two.\<close>

fun chain_cell :: "(nat \<Rightarrow> extended_dem \<Rightarrow> nat \<Rightarrow> nat \<Rightarrow> nat) \<Rightarrow> seam_id \<Rightarrow> nat \<Rightarrow> extended_dem list \<Rightarrow> nat \<Rightarrow> nat \<Rightarrow> nat" where
  "chain_cell g t base [] r c = 0"
| "chain_cell g t base (d # ds) r c =
     (if c < length (ed_rates d) then g base d r c
      else chain_cell g t (base + chunk_rise t d) ds r (c - length (ed_rates d)))"

lemma blocks_rep:
  assumes "\<And>base d. d \<in> set ds \<Longrightarrow> cols_rep (B base d) nr (length (ed_rates d)) (g base d)"
  shows "cols_rep (chain_blocks B t base ds) nr (sum_list (map (\<lambda>d. length (ed_rates d)) ds)) (chain_cell g t base ds)"
  using assms
proof (induction ds arbitrary: base)
  case (Cons d ds)
  have "cols_rep (B base d) nr (length (ed_rates d)) (g base d)" using Cons.prems by simp
  moreover have "cols_rep (chain_blocks B t (base + chunk_rise t d) ds) nr (sum_list (map (\<lambda>d. length (ed_rates d)) ds))
      (chain_cell g t (base + chunk_rise t d) ds)" using Cons by simp
  ultimately show ?case by (auto simp: cols_rep_def nth_append)
qed (simp add: cols_rep_def)

definition H_cell :: "seam_id \<Rightarrow> seam_id \<Rightarrow> nat \<Rightarrow> extended_dem \<Rightarrow> nat \<Rightarrow> nat \<Rightarrow> nat" where
  "H_cell f t base d r c =
     (if base \<le> r \<and> r - base < sbm_rows (ed_H d) then mult_at (ed_H d) (rows_of d f t ! (r - base)) c else 0)"

lemma count_list_map_eq:
  "(\<And>x. x \<in> set xs \<Longrightarrow> h x = y \<longleftrightarrow> x = z) \<Longrightarrow> count_list (map h xs) y = count_list xs z"
  by (induction xs) auto

lemma count_list_map_none: "(\<And>x. x \<in> set xs \<Longrightarrow> h x \<noteq> y) \<Longrightarrow> count_list (map h xs) y = 0"
  by (auto simp: count_list_0_iff)

lemma count_list_filter_in: "P y \<Longrightarrow> count_list (filter P xs) y = count_list xs y"
  by (induction xs) auto

lemma mapped_cols_rep:
  assumes d: "chunk_wf d" "composable f t d" "f \<noteq> t"
  shows "cols_rep (mapped_cols f t cap base d) cap (length (ed_rates d)) (H_cell f t base d)"
proof -
  note n = nested_csc_rep [OF chunk_rep_H(1) [OF d]]
  have "count_list (mapped_cols f t cap base d ! c) r = H_cell f t base d r c" if c: "c < length (ed_rates d)" and r: "r < cap" for c r
  proof -
    let ?rows = "to_nested_csc (ed_H d) ! c"
    have b: "x \<in> set ?rows \<Longrightarrow> x < sbm_rows (ed_H d)" for x using n(3) [OF c] by auto
    have "count_list (mapped_cols f t cap base d ! c) r = count_list (map (\<lambda>r. base + row_pos d f t r) ?rows) r"
      using c r n(1) by (simp add: mapped_cols_def count_list_filter_in)
    also have "\<dots> = H_cell f t base d r c"
    proof (cases "base \<le> r \<and> r - base < sbm_rows (ed_H d)")
      case True
      then have "base + row_pos d f t x = r \<longleftrightarrow> x = rows_of d f t ! (r - base)" if "x \<in> set ?rows" for x
        using row_pos_eq_iff [OF d b [OF that], of "r - base"] by auto
      then have "count_list (map (\<lambda>r. base + row_pos d f t r) ?rows) r = count_list ?rows (rows_of d f t ! (r - base))"
        by (rule count_list_map_eq)
      moreover have "rows_of d f t ! (r - base) < sbm_rows (ed_H d)"
        using chunk_rows(2,3) [OF d] True nth_mem [of "r - base" "rows_of d f t"] by auto
      ultimately show ?thesis using n(2) [OF c] True by (simp add: H_cell_def)
    next
      case False
      then have "base + row_pos d f t x \<noteq> r" if "x \<in> set ?rows" for x
        using row_pos_inverse(1) [OF d b [OF that]] by auto
      then show ?thesis using False by (auto simp: H_cell_def intro!: count_list_map_none)
    qed
    finally show ?thesis .
  qed
  then show ?thesis using n(1) by (auto simp: cols_rep_def mapped_cols_def)
qed

lemma mapped_cols_length: "sum_list (map length (mapped_cols f t cap base d)) \<le> sum_list (map length (to_nested_csc (ed_H d)))"
  by (auto simp: mapped_cols_def comp_def intro!: sum_list_mono)

lemma blocks_length:
  assumes "\<And>base d. d \<in> set ds \<Longrightarrow> sum_list (map length (B base d)) \<le> w d"
  shows "sum_list (map length (chain_blocks B t base ds)) \<le> sum_list (map w ds)"
  using assms
proof (induction ds arbitrary: base)
  case (Cons d ds)
  from Cons.prems [of d base] Cons.IH [of "base + chunk_rise t d"] Cons.prems show ?case by (simp add: add_mono)
qed simp

section \<open>The columns of the contracted chain\<close>

lemma chain_bit:
  assumes "\<forall>d \<in> set ds. chunk_wf d \<and> composable f t d" "f \<noteq> t" "ds \<noteq> []"
    and "c < sum_list (map (\<lambda>d. length (ed_rates d)) ds)"
  shows "odd (chain_cell (H_cell f t) t base ds r c) \<longleftrightarrow>
    base \<le> r \<and> cm_bit (chain_rec (map (abs_chunk f t) ds)) (r - base) c"
  using assms
proof (induction ds arbitrary: base c rule: induct_list012)
  case (2 d)
  then show ?case using chunk_rows(3) [of d f t] by (auto simp: H_cell_def abs_chunk_def Let_def)
next
  case (3 d e ds)
  have d: "length (rows_of d f t) = sbm_rows (ed_H d)" using 3(3,4) chunk_rows(3) by auto
  show ?case
  proof (cases "c < length (ed_rates d)")
    case True
    then show ?thesis using d by (auto simp: H_cell_def contract_def Let_def) (auto simp: abs_chunk_def Let_def)
  next
    case False
    then have "odd (chain_cell (H_cell f t) t (base + chunk_rise t d) (e # ds) r (c - length (ed_rates d))) \<longleftrightarrow>
      base + chunk_rise t d \<le> r \<and>
      cm_bit (chain_rec (map (abs_chunk f t) (e # ds))) (r - (base + chunk_rise t d)) (c - length (ed_rates d))"
      using 3(3-6) by (intro 3(2)) auto
    then show ?thesis using False by (auto simp: contract_def Let_def chunk_rise_def diff_diff_add)
  qed
qed simp

lemma chain_bit_bound:
  assumes "chain_ok f t ds" "f \<noteq> t" "cm_bit (chain_rec (map (abs_chunk f t) ds)) r c"
  shows "r < base_row t ds (length ds) + length (band_of (last ds) f)" "c < faults_before ds (length ds)"
  using assms
proof (induction ds arbitrary: r c rule: induct_list012)
  case 1 { case 1 then show ?case by (simp add: chain_ok_def) next case 2 then show ?case by (simp add: chain_ok_def) }
next
  case (2 d)
  { case 1 then show ?case by (auto simp: abs_chunk_def Let_def rows_of_def base_row_def chunk_rise_def)
  next case 2 then show ?case by (auto simp: abs_chunk_def Let_def faults_before_def) }
next
  case (3 d e ds)
  have w: "length (band_of d f) = length (band_of e t)" if "chain_ok f t (d # e # ds)" "f \<noteq> t"
    using that stitchable_width [of d e f t] by (auto simp: chain_ok_Cons dest: chain_ok_hd)
  have lead: "length (band_of e t) \<le> base_row t (e # ds) (length (e # ds)) + length (band_of (last (e # ds)) f)"
    by (simp add: base_row_def chunk_rise_def)
  { case 1
    then have ok: "chain_ok f t (e # ds)" by (simp add: chain_ok_Cons)
    show ?case
    proof (cases "c < length (ed_rates d)")
      case True
      then have "r < chunk_rise t d + length (band_of e t)" using 1 w
        by (auto simp: contract_def Let_def abs_chunk_def rows_of_def chunk_rise_def)
      then show ?thesis using lead by (simp add: base_row_def)
    next
      case False
      then show ?thesis using 1 3(3) [OF ok 1(2), of "r - chunk_rise t d" "c - length (ed_rates d)"]
        by (auto simp: contract_def Let_def base_row_def chunk_rise_def)
    qed
  next case 2
    then have ok: "chain_ok f t (e # ds)" by (simp add: chain_ok_Cons)
    show ?case
    proof (cases "c < length (ed_rates d)")
      case False
      then show ?thesis using 2 3(4) [OF ok 2(2), of "r - chunk_rise t d" "c - length (ed_rates d)"]
        by (auto simp: contract_def Let_def faults_before_def chunk_rise_def)
    qed (simp add: faults_before_def)
  }
qed

lemma chain_total: "faults_before cs (length cs) = sum_list (map (\<lambda>d. length (ed_rates d)) cs)"
  by (simp add: faults_before_def)

lemma chain_rows_fit:
  assumes ok: "chain_ok f t cs" and ft: "f \<noteq> t" and fit: "chain_fits cs"
  shows "base_row t cs (length cs) + length (band_of (last cs) f) < max_u32"
proof -
  have ne: "cs \<noteq> []" using ok by (simp add: chain_ok_def)
  have rise: "chunk_rise t x + length (band_of x f) = sbm_rows (ed_H x)" if "x \<in> set cs" for x
    using chunk_rows(3) [of x f t] that ok ft by (auto simp: chain_ok_def rows_of_def chunk_rise_def)
  have split: "sum_list (map g cs) = sum_list (map g (butlast cs)) + g (last cs)" for g :: "extended_dem \<Rightarrow> nat"
    using arg_cong [OF append_butlast_last_id [OF ne], of "\<lambda>xs. sum_list (map g xs)"] by simp
  have "base_row t cs (length cs) + length (band_of (last cs) f)
      = sum_list (map (chunk_rise t) (butlast cs)) + (chunk_rise t (last cs) + length (band_of (last cs) f))"
    by (simp add: base_row_def split)
  also have "\<dots> \<le> sum_list (map (\<lambda>d. sbm_rows (ed_H d)) (butlast cs)) + sbm_rows (ed_H (last cs))"
    using ne by (intro add_mono sum_list_mono) (use rise in \<open>auto dest!: in_set_butlastD simp: rise [symmetric]\<close>)
  also have "\<dots> = sum_list (map (\<lambda>d. sbm_rows (ed_H d)) cs)" by (simp only: split)
  finally show ?thesis using fit by (simp add: chain_fits_def)
qed

lemma chain_matrix:
  assumes ok: "chain_ok f t cs" and ft: "f \<noteq> t" and fit: "chain_fits cs" and cap: "cap \<le> max_u32"
  shows "\<exists>m. rbind (from_nested_csc cap (faults_before cs (length cs)) (chain_blocks (mapped_cols f t cap) t 0 cs)) canonicalize = Inr m \<and>
    canonical m \<and> sbm_layout m = CSC \<and>
    rep m cap (faults_before cs (length cs)) (\<lambda>r c. chain_cell (H_cell f t) t 0 cs r c mod 2)"
proof -
  have ds: "\<And>d. d \<in> set cs \<Longrightarrow> chunk_wf d \<and> composable f t d" using ok by (auto simp: chain_ok_def)
  have cols: "cols_rep (chain_blocks (mapped_cols f t cap) t 0 cs) cap (faults_before cs (length cs)) (chain_cell (H_cell f t) t 0 cs)"
    unfolding chain_total by (rule blocks_rep) (use ds mapped_cols_rep ft in blast)
  have len: "sum_list (map length (to_nested_csc (ed_H d))) = length (sbm_idx (ed_H d))" if "d \<in> set cs" for d
    using cols_rep_length [OF cols_rep_nested [OF chunk_rep_H(1) [of d f t]]] chunk_rep_H(2) [of d f t] ds [OF that] ft by simp
  have "nnz cap (faults_before cs (length cs)) (chain_cell (H_cell f t) t 0 cs) = sum_list (map length (chain_blocks (mapped_cols f t cap) t 0 cs))"
    by (rule cols_rep_length [OF cols, symmetric])
  also have "\<dots> \<le> sum_list (map (\<lambda>d. length (sbm_idx (ed_H d))) cs)"
    by (rule blocks_length) (metis len mapped_cols_length)
  finally have n: "nnz cap (faults_before cs (length cs)) (chain_cell (H_cell f t) t 0 cs) \<le> max_u32"
    using fit by (simp add: chain_fits_def)
  have "faults_before cs (length cs) < max_u32" using fit by (simp add: chain_fits_def chain_total)
  from from_csc_rep [OF cols this cap n] obtain m where m:
    "from_nested_csc cap (faults_before cs (length cs)) (chain_blocks (mapped_cols f t cap) t 0 cs) = Inr m"
    "rep m cap (faults_before cs (length cs)) (chain_cell (H_cell f t) t 0 cs)" "sbm_layout m = CSC" by blast
  note d = repD [OF m(2)] and red = reduced_props [OF repD(1) [OF m(2)]]
  have "rep (reduced m) cap (faults_before cs (length cs)) (\<lambda>r c. chain_cell (H_cell f t) t 0 cs r c mod 2)"
    using red d mult_reduced [OF d(1)] by (simp add: rep_def)
  then show ?thesis
    using m red canonicalize_eq_reduced [OF d(1)] canonical_reduced [OF d(1)] by auto
qed

section \<open>Observables\<close>

definition O_block :: "nat \<Rightarrow> extended_dem \<Rightarrow> nat list list" where
  "O_block base d = (if sbm_cols (ed_O d) = 0 then replicate (length (ed_rates d)) [] else to_nested_csc (ed_O d))"

definition O_cell :: "nat \<Rightarrow> extended_dem \<Rightarrow> nat \<Rightarrow> nat \<Rightarrow> nat" where
  "O_cell base d r c = (if sbm_cols (ed_O d) = 0 then 0 else mult_at (ed_O d) r c)"

lemma chunk_obs:
  assumes "chunk_wf d" "composable f t d" "f \<noteq> t"
  shows "cols_rep (O_block base d) (ed_num_observables d) (length (ed_rates d)) (O_cell base d)"
    "length (O_block base d) = length (ed_rates d)"
    "sum_list (map length (O_block base d)) = length (sbm_idx (ed_O d))"
    "sbm_cols (ed_O d) \<noteq> 0 \<Longrightarrow> sbm_cols (ed_O d) = length (ed_rates d) \<and> nested_csc (ed_O d) = to_nested_csc (ed_O d)"
    "odd (O_cell base d r c) \<and> r < ed_num_observables d \<and> c < length (ed_rates d) \<longleftrightarrow> cm_flip (abs_chunk f t d) r c"
proof -
  have ok: "sbm_ok (ed_O d) \<or> ed_O d = sbm_default" using assms(1) by (simp add: chunk_wf_def)
  note N = obs_norm [OF ok]
  have al: "sbm_cols (ed_O d) \<noteq> 0 \<Longrightarrow> sbm_cols (ed_O d) = length (ed_rates d)"
    using assms(2) chunk_rows(8) [OF assms] by (auto simp: composable_def ed_validate_iff)
  have okc: "sbm_cols (ed_O d) \<noteq> 0 \<Longrightarrow> sbm_ok (ed_O d)" using ok by (auto simp: sbm_default_def)
  have zero: "sbm_idx (ed_O d) = []" if "sbm_cols (ed_O d) = 0"
    using rep_nnz [OF N(1)] N(4) that by simp
  show cr: "cols_rep (O_block base d) (ed_num_observables d) (length (ed_rates d)) (O_cell base d)"
  proof (cases "sbm_cols (ed_O d) = 0")
    case False
    then show ?thesis using cols_rep_nested [OF rep_self [OF okc]] al
      by (simp add: O_block_def cols_rep_def O_cell_def ed_num_observables_def)
  qed (simp add: O_block_def cols_rep_def O_cell_def)
  then show "length (O_block base d) = length (ed_rates d)" by (simp add: cols_rep_def)
  show "sum_list (map length (O_block base d)) = length (sbm_idx (ed_O d))"
  proof (cases "sbm_cols (ed_O d) = 0")
    case True
    then show ?thesis using zero by (simp add: O_block_def sum_list_replicate)
  next
    case False
    then show ?thesis using cols_rep_length [OF cols_rep_nested [OF rep_self [OF okc]]] num_entries [OF okc]
      by (simp add: O_block_def)
  qed
  show "sbm_cols (ed_O d) \<noteq> 0 \<Longrightarrow> sbm_cols (ed_O d) = length (ed_rates d) \<and> nested_csc (ed_O d) = to_nested_csc (ed_O d)"
    using al nested_csc_eq [OF okc] by simp
  show "odd (O_cell base d r c) \<and> r < ed_num_observables d \<and> c < length (ed_rates d) \<longleftrightarrow> cm_flip (abs_chunk f t d) r c"
    using al by (auto simp: O_cell_def abs_chunk_def Let_def ed_num_observables_def)
qed

lemma chain_o_columns_eq:
  assumes ok: "chain_ok f t cs" and ft: "f \<noteq> t"
    and plan: "\<forall>i \<le> length cs. col_off plan ! i = faults_before cs i" "cl_num_faults plan = faults_before cs (length cs)"
  shows "chain_o_columns cs plan = Inr (chain_blocks O_block t 0 cs)"
proof -
  have "chain_o_columns cs plan = Inr (concat (map (\<lambda>i. O_block (base_row t cs i) (cs ! i)) [0..<length cs]))"
    unfolding chain_o_columns_def plan(2)
  proof (rule write_blocks)
    fix i and pre :: "nat list list" assume i: "i < length cs" and pre: "length pre = faults_before cs i"
    let ?c = "cs ! i"
    have c: "chunk_wf ?c" "composable f t ?c" using chain_ok_nth [OF ok i] by auto
    note ob = chunk_obs [OF c ft]
    have suc: "faults_before cs (Suc i) = faults_before cs i + length (ed_rates ?c)"
      using i by (simp add: faults_before_def take_Suc_conv_app_nth)
    have le: "length (O_block 0 ?c) \<le> faults_before cs (length cs) - faults_before cs i"
      using faults_before_mono [of "Suc i" "length cs" cs] i suc ob(2) by simp
    show "(if sbm_cols (ed_O ?c) = 0 then Inr (pre @ replicate (faults_before cs (length cs) - faults_before cs i) [])
        else write_cols (col_off plan ! i) (nested_csc (ed_O ?c)) (pre @ replicate (faults_before cs (length cs) - faults_before cs i) []))
      = Inr (pre @ O_block (base_row t cs i) ?c @ replicate (faults_before cs (length cs) - faults_before cs (Suc i)) [])"
    proof (cases "sbm_cols (ed_O ?c) = 0")
      case True
      then show ?thesis using le suc ob(2) by (simp add: O_block_def replicate_add [symmetric])
    next
      case False
      then show ?thesis using write_cols_block [OF pre le] plan(1) i ob(2,4) suc by (simp add: O_block_def)
    qed
  next
    fix i assume i: "i < length cs"
    then have "chunk_wf (cs ! i)" "composable f t (cs ! i)" using chain_ok_nth [OF ok i] by auto
    then show "faults_before cs (Suc i) = faults_before cs i + length (O_block (base_row t cs i) (cs ! i))"
      using chunk_obs(2) ft i by (simp add: faults_before_def take_Suc_conv_app_nth)
  qed (simp add: faults_before_def)
  then show ?thesis using concat_blocks [of O_block 0 t cs] by simp
qed

lemma chain_obs_count: "chain_ok f t (c # cs) \<Longrightarrow> d \<in> set (c # cs) \<Longrightarrow> ed_num_observables d = ed_num_observables c"
proof (induction cs arbitrary: c)
  case (Cons e cs)
  then have ok: "chain_ok f t (e # cs)" and e: "ed_num_observables c = ed_num_observables e"
    by (auto simp: chain_ok_Cons stitchable_def)
  show ?case
  proof (cases "d = c")
    case False
    then have "d \<in> set (e # cs)" using Cons.prems(2) by simp
    then show ?thesis using Cons.IH [OF ok] e by simp
  qed simp
qed simp

lemma chain_obs_nth: "chain_ok f t cs \<Longrightarrow> d \<in> set cs \<Longrightarrow> ed_num_observables d = ed_num_observables (cs ! 0)"
  using chain_obs_count [of f t "hd cs" "tl cs" d] by (cases cs) auto

lemma chain_flip:
  assumes "\<forall>d \<in> set ds. chunk_wf d \<and> composable f t d \<and> ed_num_observables d = k" "f \<noteq> t" "ds \<noteq> []"
  shows "odd (chain_cell O_cell t base ds r c) \<and> r < k \<and> c < sum_list (map (\<lambda>d. length (ed_rates d)) ds) \<longleftrightarrow>
    cm_flip (chain_rec (map (abs_chunk f t) ds)) r c"
  using assms
proof (induction ds arbitrary: base c rule: induct_list012)
  case (2 d)
  then show ?case using chunk_obs(5) [of d f t base r c] by auto
next
  case (3 d e ds)
  have d: "odd (O_cell base d r c) \<and> r < k \<and> c < length (ed_rates d) \<longleftrightarrow> cm_flip (abs_chunk f t d) r c"
    using 3(3,4) chunk_obs(5) [of d f t base r c] by auto
  show ?case
  proof (cases "c < length (ed_rates d)")
    case True
    then show ?thesis using d by (auto simp: contract_def Let_def)
  next
    case False
    then have "odd (chain_cell O_cell t (base + chunk_rise t d) (e # ds) r (c - length (ed_rates d))) \<and> r < k \<and>
      c - length (ed_rates d) < sum_list (map (\<lambda>d. length (ed_rates d)) (e # ds)) \<longleftrightarrow>
      cm_flip (chain_rec (map (abs_chunk f t) (e # ds))) r (c - length (ed_rates d))"
      using 3(3-5) by (intro 3(2)) auto
    then show ?thesis using False by (auto simp: contract_def Let_def)
  qed
qed simp

lemma chain_obs_matrix:
  assumes ok: "chain_ok f t cs" and ft: "f \<noteq> t" and fit: "chain_fits cs"
  shows "\<exists>m. from_nested_csc (ed_num_observables (cs ! 0)) (faults_before cs (length cs)) (chain_blocks O_block t 0 cs) = Inr m \<and>
    rep m (ed_num_observables (cs ! 0)) (faults_before cs (length cs)) (chain_cell O_cell t 0 cs)"
proof -
  have ds: "chunk_wf d \<and> composable f t d \<and> ed_num_observables d = ed_num_observables (cs ! 0)" if "d \<in> set cs" for d
    using that ok chain_obs_nth [OF ok that] by (simp add: chain_ok_def)
  have cols: "cols_rep (chain_blocks O_block t 0 cs) (ed_num_observables (cs ! 0)) (faults_before cs (length cs)) (chain_cell O_cell t 0 cs)"
    unfolding chain_total
  proof (rule blocks_rep)
    fix base d assume "d \<in> set cs"
    then show "cols_rep (O_block base d) (ed_num_observables (cs ! 0)) (length (ed_rates d)) (O_cell base d)"
      using ds chunk_obs(1) [of d f t base] ft by metis
  qed
  have "nnz (ed_num_observables (cs ! 0)) (faults_before cs (length cs)) (chain_cell O_cell t 0 cs) = sum_list (map length (chain_blocks O_block t 0 cs))"
    by (rule cols_rep_length [OF cols, symmetric])
  also have "\<dots> \<le> sum_list (map (\<lambda>d. length (sbm_idx (ed_O d))) cs)"
    by (rule blocks_length) (use chunk_obs(3) ds ft in fastforce)
  finally have "nnz (ed_num_observables (cs ! 0)) (faults_before cs (length cs)) (chain_cell O_cell t 0 cs) \<le> max_u32"
    using fit by (simp add: chain_fits_def)
  moreover have "faults_before cs (length cs) < max_u32" using fit by (simp add: chain_fits_def chain_total)
  moreover have "ed_num_observables (cs ! 0) \<le> max_u32"
    using ok obs_norm(5) [of "ed_O (cs ! 0)"] by (auto simp: chain_ok_def chunk_wf_def ed_num_observables_def)
  ultimately show ?thesis using from_csc_rep [OF cols] by blast
qed

section \<open>Stitching the whole chain\<close>

lemma dem_stitch_all_ok:
  assumes ok: "chain_ok f t cs" and ft: "f \<noteq> t" and fit: "chain_fits cs" and len: "1 < length cs"
  shows "\<exists>c. dem_stitch_all cs f t = Inr c \<and> chunk_wf c \<and> composable f t c \<and>
    abs_chunk f t c = chain_of (map (abs_chunk f t) cs)"
proof -
  let ?n = "faults_before cs (length cs)" and ?y = "base_row t cs (length cs)"
  let ?x = "length (band_of (hd cs) t)" and ?z = "base_row t cs (length cs) + length (band_of (last cs) f)"
  let ?A = "chain_rec (map (abs_chunk f t) cs)"
  have ne: "cs \<noteq> []" using len by auto
  then have hd: "hd cs = cs ! 0" "last cs = cs ! (length cs - 1)" by (simp_all add: hd_conv_nth last_conv_nth)
  have ds: "\<forall>d \<in> set cs. chunk_wf d \<and> composable f t d" using ok by (auto simp: chain_ok_def)
  obtain plan where plan: "plan_chain cs f t = Inr plan"
    "\<forall>i \<le> length cs. col_off plan ! i = faults_before cs i" "cl_num_faults plan = ?n"
    "\<forall>i < length cs. interior_row plan ! i = base_row t cs i + length (band_of (cs ! i) t)"
    "\<forall>i. i + 1 < length cs \<longrightarrow> seam_row plan ! i = base_row t cs (i + 1)" "trail_row plan = ?y"
    "cl_lead plan = ?x" "cl_trail plan = length (band_of (last cs) f)"
    using plan_chain_eq [OF ok ft] by blast
  have z: "?z < max_u32" "?y < max_u32" "?n < max_u32"
    using chain_rows_fit [OF ok ft fit] fit by (simp_all add: chain_fits_def chain_total)
  have xy: "?x \<le> ?y" using ne by (cases cs) (simp_all add: base_row_def chunk_rise_def)
  obtain H where H: "rbind (from_nested_csc ?z ?n (chain_blocks (mapped_cols f t ?z) t 0 cs)) canonicalize = Inr H"
    "rep H ?z ?n (\<lambda>r c. chain_cell (H_cell f t) t 0 cs r c mod 2)"
    using chain_matrix [OF ok ft fit, of ?z] z by auto
  obtain OM where OM: "from_nested_csc (ed_num_observables (cs ! 0)) ?n (chain_blocks O_block t 0 cs) = Inr OM"
    "rep OM (ed_num_observables (cs ! 0)) ?n (chain_cell O_cell t 0 cs)"
    using chain_obs_matrix [OF ok ft fit] by blast
  define c where "c = \<lparr>ed_H = H, ed_O = OM, ed_rates = concat (map ed_rates cs),
     seams = [\<lparr>seam_ident = t, row_begin = 0, row_end = ?x\<rparr>, \<lparr>seam_ident = f, row_begin = ?y, row_end = ?z\<rparr>],
     tags = tags_of (hd cs) t @ tags_of (last cs) f\<rparr>"
  have n: "length (ed_rates c) = ?n" by (simp add: c_def length_concat chain_total comp_def)
  have hl: "chunk_wf (hd cs)" "composable f t (hd cs)" "chunk_wf (last cs)" "composable f t (last cs)"
    using ds ne by auto
  note tH = chunk_tags [OF hl(1,2) ft] and tL = chunk_tags [OF hl(3,4) ft]
  have res: "dem_stitch_all cs f t = Inr c"
  proof -
    have v: "validate_chain cs f t = Inr ()" using validate_chain_iff [OF _ ne ft] ds ok by blast
    have h: "chain_h_columns cs plan f t ?z = Inr (chain_blocks (mapped_cols f t ?z) t 0 cs)"
      unfolding chain_h_columns_eq [OF ok ft fit plan(2-6)]
      using concat_blocks [of "mapped_cols f t ?z" 0 t cs] by simp
    have o: "chain_o_columns cs plan = Inr (chain_blocks O_block t 0 cs)"
      by (rule chain_o_columns_eq [OF ok ft plan(2,3)])
    show ?thesis
      using v h o H(1) OM(1) plan(1,3,6-8) z xy len ne ft tH(2) [of t] tL(2) [of f]
      by (simp add: dem_stitch_all_def Let_def add_seam_def has_seam_def c_def hd)
  qed
  have sms: "seams c = [\<lparr>seam_ident = t, row_begin = 0, row_end = ?x\<rparr>, \<lparr>seam_ident = f, row_begin = ?y, row_end = ?z\<rparr>]"
    and cH: "?z = sbm_rows (ed_H c)" "sbm_ok (ed_H c)" "sbm_cols (ed_H c) = length (ed_rates c)"
    and cO: "sbm_ok (ed_O c) \<or> ed_O c = sbm_default"
      "0 < sbm_rows (ed_O c) \<or> 0 < sbm_cols (ed_O c) \<longrightarrow> sbm_cols (ed_O c) = length (ed_rates c)"
    and ct: "tags c = tags_of (hd cs) t @ tags_of (last cs) f"
    using repD(1-3) [OF H(2)] repD(1-3) [OF OM(2)] n by (auto simp: c_def)
  have le: "?y \<le> ?z" and lt: "length (tags_of (hd cs) t) = ?x" "length (tags_of (last cs) f) = ?z - ?y"
    using tH(1) [of t] tL(1) [of f] by simp_all
  note cok = two_seam_chunk [OF sms ft xy le cH cO ct lt]
  have lk: "linked (map (abs_chunk f t) cs)" "map (abs_chunk f t) cs \<noteq> []" using linked_abs [OF ok ft] ne by auto
  note A = chain_rec_fields [OF lk]
  have body: "?x + cm_body ?A = ?y"
    using A(1,2) ne by (simp add: base_row_def chunk_rise_def comp_def hd_map cong: map_cong)
  have "abs_chunk f t c = ?A"
  proof (rule chain_model.equality)
    show "cm_bit (abs_chunk f t c) = cm_bit ?A"
    proof (intro ext)
      fix r q
      have "cm_bit (abs_chunk f t c) r q \<longleftrightarrow> r < ?z \<and> q < ?n \<and> odd (mult_at H r q)"
        by (auto simp: abs_chunk_def Let_def cok(6) n) (simp_all add: c_def)
      also have "\<dots> \<longleftrightarrow> r < ?z \<and> q < ?n \<and> odd (chain_cell (H_cell f t) t 0 cs r q)"
        using repD(4) [OF H(2)] by (auto simp: odd_iff_mod_2_eq_one)
      also have "\<dots> \<longleftrightarrow> cm_bit ?A r q"
        using chain_bit [OF ds ft ne, of q 0 r] chain_bit_bound [OF ok ft, of r q] by (auto simp: chain_total)
      finally show "cm_bit (abs_chunk f t c) r q = cm_bit ?A r q" .
    qed
    show "cm_flip (abs_chunk f t c) = cm_flip ?A"
    proof (intro ext)
      fix r q
      have k: "\<forall>d \<in> set cs. chunk_wf d \<and> composable f t d \<and> ed_num_observables d = ed_num_observables (cs ! 0)"
        using ds chain_obs_nth [OF ok] by blast
      have "cm_flip (abs_chunk f t c) r q \<longleftrightarrow> r < ed_num_observables (cs ! 0) \<and> q < ?n \<and> odd (mult_at OM r q)"
        using repD(2,3) [OF OM(2)] by (simp add: abs_chunk_def Let_def c_def)
      also have "\<dots> \<longleftrightarrow> cm_flip ?A r q"
        using chain_flip [OF k ft ne, of 0 r q] repD(4) [OF OM(2), of r q] by (auto simp: chain_total)
      finally show "cm_flip (abs_chunk f t c) r q = cm_flip ?A r q" .
    qed
    have "ed_num_observables c = ed_num_observables (hd cs)"
      using repD(2) [OF OM(2)] by (simp add: c_def ed_num_observables_def hd)
    then show "cm_obs (abs_chunk f t c) = cm_obs ?A" using A(5) ne by (simp add: hd_map)
  qed (use A body ne n cok(3-8) in \<open>simp_all add: hd_map last_map chain_total comp_def c_def\<close>)
  then show ?thesis using res cok(1,2) chain_of_rec [OF lk] by auto
qed

lemma dem_stitch_all_chain:
  assumes "\<forall>c \<in> set cs. chunk_wf c" "f \<noteq> t" "1 < length cs" "dem_stitch_all cs f t = Inr c"
  shows "chain_ok f t cs"
proof -
  have "validate_chain cs f t = Inr ()" "cs \<noteq> []"
    using assms(3,4) by (auto simp: dem_stitch_all_def rbind_Inr_iff split: if_splits)
  then show ?thesis using validate_chain_iff [OF assms(1) _ assms(2)] by blast
qed

lemma stitch_fold:
  assumes "chain_ok f t (a # cs)" "f \<noteq> t" "chain_fits (a # cs)" "ed_rates a \<noteq> []"
    and "(\<forall>c \<in> set (a # cs). obs_aligned c) \<or> (\<forall>c \<in> set (a # cs). obs_empty c)"
  shows "\<exists>c. rfold (\<lambda>b a. dem_stitch a b f t) cs a = Inr c \<and> chunk_wf c \<and> composable f t c \<and>
    abs_chunk f t c = chain_of (map (abs_chunk f t) (a # cs))"
  using assms
proof (induction cs arbitrary: a)
  case Nil
  then show ?case by (simp add: chain_of_def chain_ok_def)
next
  case (Cons d cs)
  have ad: "chunk_wf a" "chunk_wf d" "stitchable f t a d" and okd: "chain_ok f t (d # cs)"
    using Cons.prems(1) by (auto simp: chain_ok_Cons dest: chain_ok_hd)
  have fit2: "chain_fits [a, d]" using Cons.prems(3) by (simp add: chain_fits_def)
  have obs2: "obs_aligned a \<and> obs_aligned d \<or> obs_empty a \<and> obs_empty d" using Cons.prems(5) by auto
  obtain c where c: "dem_stitch a d f t = Inr c" "chunk_wf c" "composable f t c" "has_seam c f"
    "abs_chunk f t c = contract (abs_chunk f t a) (abs_chunk f t d)"
    "sbm_rows (ed_H c) + length (band_of a f) = sbm_rows (ed_H a) + sbm_rows (ed_H d)" "ed_rates c = ed_rates a @ ed_rates d"
    "length (sbm_idx (ed_H c)) = length (sbm_idx (ed_H a)) + length (sbm_idx (ed_H d))"
    "length (sbm_idx (ed_O c)) = length (sbm_idx (ed_O a)) + length (sbm_idx (ed_O d))"
    "obs_aligned a \<and> obs_aligned d \<longrightarrow> obs_aligned c" "obs_empty a \<and> obs_empty d \<longrightarrow> obs_empty c"
    using dem_stitch_ok [OF ad(1,2) Cons.prems(2) ad(3) fit2 _ obs2] Cons.prems(4) by auto
  have eq: "tags_of c f = tags_of d f" "ed_num_observables c = ed_num_observables a"
    using arg_cong [OF c(5), of cm_trail_tags] arg_cong [OF c(5), of cm_obs] by simp_all
  have "chain_ok f t (c # cs)"
  proof (cases cs)
    case (Cons e es)
    then show ?thesis using okd c(2-4) eq ad(3) by (auto simp: chain_ok_Cons stitchable_def)
  qed (use c in \<open>simp add: chain_ok_def\<close>)
  moreover have "chain_fits (c # cs)" using Cons.prems(3) c(6-9) by (simp add: chain_fits_def)
  moreover have "(\<forall>x \<in> set (c # cs). obs_aligned x) \<or> (\<forall>x \<in> set (c # cs). obs_empty x)"
    using Cons.prems(5) c(10,11) by auto
  ultimately obtain r where "rfold (\<lambda>b a. dem_stitch a b f t) cs c = Inr r" "chunk_wf r" "composable f t r"
    "abs_chunk f t r = chain_of (map (abs_chunk f t) (c # cs))"
    using Cons.IH [of c] Cons.prems(2,4) c(7) by auto
  then show ?case using c(1,5) by (simp add: chain_of_def)
qed

lemma dem_chunks_to_pcm_ok:
  assumes ok: "chain_ok f t cs" and ft: "f \<noteq> t" and fit: "chain_fits cs"
  shows "\<exists>m. dem_chunks_to_pcm cs f t = Inr m \<and> canonical m \<and> sbm_layout m = CSC \<and>
    rep m (cm_lead (chain_of (map (abs_chunk f t) cs)) + cm_body (chain_of (map (abs_chunk f t) cs)))
      (cm_faults (chain_of (map (abs_chunk f t) cs)))
      (\<lambda>r c. if cm_bit (chain_of (map (abs_chunk f t) cs)) r c then 1 else 0)"
proof -
  let ?n = "faults_before cs (length cs)" and ?y = "base_row t cs (length cs)" and ?A = "chain_rec (map (abs_chunk f t) cs)"
  have ne: "cs \<noteq> []" and ds: "\<forall>d \<in> set cs. chunk_wf d \<and> composable f t d" using ok by (auto simp: chain_ok_def)
  have lk: "linked (map (abs_chunk f t) cs)" "map (abs_chunk f t) cs \<noteq> []" using linked_abs [OF ok ft] ne by auto
  note A = chain_rec_fields [OF lk]
  have y: "cm_lead ?A + cm_body ?A = ?y" "cm_faults ?A = ?n"
    using A(1,4) by (simp_all add: base_row_def chunk_rise_def [abs_def] comp_def chain_total)
  obtain plan where plan: "plan_chain cs f t = Inr plan"
    "\<forall>i \<le> length cs. col_off plan ! i = faults_before cs i" "cl_num_faults plan = ?n"
    "\<forall>i < length cs. interior_row plan ! i = base_row t cs i + length (band_of (cs ! i) t)"
    "\<forall>i. i + 1 < length cs \<longrightarrow> seam_row plan ! i = base_row t cs (i + 1)" "trail_row plan = ?y"
    using plan_chain_eq [OF ok ft] by blast
  have z: "?y < max_u32" "?n < max_u32"
    using chain_rows_fit [OF ok ft fit] fit by (simp_all add: chain_fits_def chain_total)
  obtain m where m: "rbind (from_nested_csc ?y ?n (chain_blocks (mapped_cols f t ?y) t 0 cs)) canonicalize = Inr m"
    "canonical m" "sbm_layout m = CSC" "rep m ?y ?n (\<lambda>r c. chain_cell (H_cell f t) t 0 cs r c mod 2)"
    using chain_matrix [OF ok ft fit, of ?y] z by auto
  have "chain_h_columns cs plan f t ?y = Inr (chain_blocks (mapped_cols f t ?y) t 0 cs)"
    unfolding chain_h_columns_eq [OF ok ft fit plan(2-6)] using concat_blocks [of "mapped_cols f t ?y" 0 t cs] by simp
  then have "dem_chunks_to_pcm cs f t = Inr m"
    using validate_chain_iff [OF _ ne ft] ds ok ne plan(1,3,6) z m(1) by (auto simp: dem_chunks_to_pcm_def)
  moreover have "rep m ?y ?n (\<lambda>r c. if cm_bit ?A r c then 1 else 0)"
  proof (rule rep_cong [OF m(4)])
    fix r c assume "c < ?n"
    then show "chain_cell (H_cell f t) t 0 cs r c mod 2 = (if cm_bit ?A r c then 1 else 0)"
      using chain_bit [OF ds ft ne, of c 0 r] by (cases "cm_bit ?A r c") (auto simp: chain_total odd_iff_mod_2_eq_one)
  qed
  ultimately show ?thesis using m(2,3) y by (simp add: chain_of_rec [OF lk])
qed

end
