(* ===== verification/QEC_Chunk_Close.thy ===== *)
theory QEC_Chunk_Close
  imports QEC_Chunk_Fold
begin

text \<open>
  Closing: \<open>dem_close\<close> gives the closed model of a chunk, and \<open>dem_close_all\<close>, which never builds the stitched
  chunk, gives the closed model of the contracted chain.
\<close>

section \<open>Closing one chunk\<close>

lemma write_obs:
  assumes "chunk_wf d" "composable f t d" "f \<noteq> t" "ed_num_observables d = k" "off + length (ed_rates d) \<le> n"
  shows "write_sparse_block (bit_mat k n P) (ed_O d) 0 off
    = Inr (bit_mat k n (\<lambda>r c. P r c \<noteq> (off \<le> c \<and> cm_flip (abs_chunk f t d) r (c - off))))"
proof (cases "ed_O d = sbm_default")
  case True
  then have "\<not> cm_flip (abs_chunk f t d) r c" for r c by (simp add: abs_chunk_def Let_def sbm_default_def)
  then show ?thesis using True by (simp add: write_block_default)
next
  case False
  then have ok: "sbm_ok (ed_O d)" using assms(1) by (simp add: chunk_wf_def)
  have "off + sbm_cols (ed_O d) \<le> n"
    using chunk_obs(4) [OF assms(1-3)] assms(5) by (cases "sbm_cols (ed_O d) = 0") auto
  from write_block_rep [OF rep_self [OF ok] _ this, of 0 k P] show ?thesis
    using assms(4) by (auto simp: ed_num_observables_def block_at_def abs_chunk_def Let_def intro!: bit_mat_cong)
qed

lemma write_band:
  assumes "rep a (length xs) (length (ed_rates d)) (\<lambda>r. mult_at (ed_H d) (xs ! r))" "cur + length xs \<le> nr" "off + length (ed_rates d) \<le> nc"
  shows "write_sparse_block (bit_mat nr nc P) a cur off = Inr (bit_mat nr nc (\<lambda>r c. P r c \<noteq>
    (cur \<le> r \<and> r - cur < length xs \<and> off \<le> c \<and> c - off < length (ed_rates d) \<and> odd (mult_at (ed_H d) (xs ! (r - cur)) (c - off)))))"
  unfolding write_block_rep [OF assms] by (auto simp: block_at_def intro!: bit_mat_cong)

lemma dem_close_ok:
  assumes d: "chunk_wf d" "composable f t d" "f \<noteq> t" and fit: "chain_fits [d]"
  shows "dem_close d t f = Inr (closed_model (abs_chunk f t d))"
proof -
  let ?A = "abs_chunk f t d" and ?n = "length (ed_rates d)" and ?l = "length (band_of d t)" and ?i = "length (interior_of d)"
  note r = chunk_rows [OF d]
  have fits: "sbm_rows (ed_H d) < max_u32" "?n < max_u32" using fit by (simp_all add: chain_fits_def)
  have v: "ed_validate d = Inr ()" "reject_extra_seams d f t = Inr ()" using d(2) by (auto simp: composable_def)
  have u: "u32 (?l + ?i) = ?l + ?i" using r(3) fits(1) by (simp add: rows_of_def)
  obtain I where I: "extract_interior_rows (ed_H d) (seams d) = Inr I" "rep I ?i ?n (\<lambda>j. mult_at (ed_H d) (interior_of d ! j))"
    using chunk_bands(3) [OF d fits] by blast
  let ?L = "\<lambda>r c. r < ?l \<and> c < ?n \<and> odd (mult_at (ed_H d) (band_of d t ! r) c)"
  have lead: "(if 0 < ?l then rbind (get_seam d t) (\<lambda>ls. rbind (extract_row_band (ed_H d) (row_begin ls) (row_end ls)) (\<lambda>lead_H.
      write_sparse_block (tensor_new [?l + ?i, ?n]) lead_H 0 0)) else Inr (tensor_new [?l + ?i, ?n])) = Inr (bit_mat (?l + ?i) ?n ?L)"
  proof (cases "0 < ?l")
    case True
    then have "has_seam d t" by (auto simp: has_seam_find band_of_def split: option.splits)
    then obtain s m where "get_seam d t = Inr s" "extract_row_band (ed_H d) (row_begin s) (row_end s) = Inr m"
      "rep m ?l ?n (\<lambda>r. mult_at (ed_H d) (band_of d t ! r))" using chunk_bands(1) [OF d fits] by blast
    then show ?thesis using True write_band [of m "band_of d t" d 0 "?l + ?i" 0 ?n] by (auto simp: tensor_new_bit_mat intro!: bit_mat_cong)
  qed (auto simp: tensor_new_bit_mat intro!: bit_mat_cong)
  have M: "write_sparse_block (bit_mat (?l + ?i) ?n ?L) I ?l 0 = Inr (bit_mat (?l + ?i) ?n (cm_bit ?A))"
    unfolding write_band [OF I(2) order_refl, of 0 ?n, simplified]
    by (auto simp: abs_chunk_def Let_def rows_of_def nth_append intro!: bit_mat_cong split: if_splits)
  have OM: "write_sparse_block (tensor_new [ed_num_observables d, ?n]) (ed_O d) 0 0 = Inr (bit_mat (ed_num_observables d) ?n (cm_flip ?A))"
    using write_obs [OF d refl, of 0 ?n] by (simp add: tensor_new_bit_mat)
  show ?thesis
    unfolding dem_close_def Let_def by (simp only: v rbind_simps r(4,5,8) u lead I(1) M OM closed_model_def abs_fields)
qed

section \<open>Closing a chain\<close>

lemma chain_rec_first:
  "q < length (ed_rates d) \<Longrightarrow> cm_bit (chain_rec (map (abs_chunk f t) (d # ds))) p q = cm_bit (abs_chunk f t d) p q"
  by (cases ds) (simp_all add: contract_def Let_def)

text \<open>The cells that the loop writes: all of the closed chain but the leading band of its first chunk.\<close>

definition loop_cells :: "seam_id \<Rightarrow> seam_id \<Rightarrow> extended_dem list \<Rightarrow> nat \<Rightarrow> nat \<Rightarrow> nat \<Rightarrow> nat \<Rightarrow> bool" where
  "loop_cells f t cs base off r q \<longleftrightarrow>
     (let A = chain_rec (map (abs_chunk f t) cs) in
      base \<le> r \<and> off \<le> q \<and> r - base < cm_lead A + cm_body A \<and> cm_bit A (r - base) (q - off) \<and>
      \<not> (r - base < length (band_of (hd cs) t) \<and> q - off < length (ed_rates (hd cs))))"

definition band_cells :: "extended_dem \<Rightarrow> nat list \<Rightarrow> nat \<Rightarrow> nat \<Rightarrow> nat \<Rightarrow> nat \<Rightarrow> bool" where
  "band_cells d xs cur off r c \<longleftrightarrow>
     cur \<le> r \<and> r - cur < length xs \<and> off \<le> c \<and> c - off < length (ed_rates d) \<and> odd (mult_at (ed_H d) (xs ! (r - cur)) (c - off))"

lemma abs_bit:
  "cm_bit (abs_chunk f t c) r q \<longleftrightarrow> r < length (rows_of c f t) \<and> q < length (ed_rates c) \<and> odd (mult_at (ed_H c) (rows_of c f t ! r) q)"
  by (simp add: abs_chunk_def Let_def)

lemma flip_outside: "chunk_wf c \<Longrightarrow> composable f t c \<Longrightarrow> f \<noteq> t \<Longrightarrow> \<not> q < length (ed_rates c) \<Longrightarrow> \<not> cm_flip (abs_chunk f t c) r q"
  using chunk_obs(5) [of c f t 0 r q] by auto

lemma loop_cells_last:
  "loop_cells f t [c] base off = band_cells c (interior_of c) (base + length (band_of c t)) off"
proof (intro ext)
  fix r q
  show "loop_cells f t [c] base off r q = band_cells c (interior_of c) (base + length (band_of c t)) off r q"
    unfolding loop_cells_def band_cells_def
    by (auto simp: Let_def abs_bit rows_of_def nth_append diff_diff_add)
qed

lemma loop_cells_Cons:
  assumes "length (band_of c f) = length (band_of d t)" "linked (map (abs_chunk f t) (d # ds))"
  shows "loop_cells f t (c # d # ds) base off r q \<longleftrightarrow>
    (((band_cells c (interior_of c) (base + length (band_of c t)) off r q
       \<noteq> band_cells c (band_of c f) (base + chunk_rise t c) off r q)
       \<noteq> band_cells d (band_of d t) (base + chunk_rise t c) (off + length (ed_rates c)) r q)
       \<noteq> loop_cells f t (d # ds) (base + chunk_rise t c) (off + length (ed_rates c)) r q)"
proof -
  let ?A = "chain_rec (map (abs_chunk f t) (d # ds))"
  have lead: "cm_lead ?A = length (band_of d t)" using chain_rec_fields(2) [OF assms(2)] by simp
  show ?thesis
  proof (cases "off \<le> q \<and> q - off < length (ed_rates c)")
    case True
    have "loop_cells f t (c # d # ds) base off r q \<longleftrightarrow>
      base \<le> r \<and> r - base < chunk_rise t c + length (band_of c f) + cm_body ?A \<and>
      cm_bit (abs_chunk f t c) (r - base) (q - off) \<and> \<not> r - base < length (band_of c t)"
      using True lead assms(1) by (auto simp: loop_cells_def Let_def contract_def chunk_rise_def)
    also have "\<dots> \<longleftrightarrow> band_cells c (interior_of c) (base + length (band_of c t)) off r q
       \<noteq> band_cells c (band_of c f) (base + chunk_rise t c) off r q"
      using True by (auto simp: band_cells_def abs_bit rows_of_def nth_append chunk_rise_def diff_diff_add add.assoc)
    finally have "loop_cells f t (c # d # ds) base off r q \<longleftrightarrow> band_cells c (interior_of c) (base + length (band_of c t)) off r q
       \<noteq> band_cells c (band_of c f) (base + chunk_rise t c) off r q" .
    moreover have "\<not> band_cells d (band_of d t) (base + chunk_rise t c) (off + length (ed_rates c)) r q"
      "\<not> loop_cells f t (d # ds) (base + chunk_rise t c) (off + length (ed_rates c)) r q"
      using True unfolding band_cells_def loop_cells_def Let_def by linarith+
    ultimately show ?thesis by blast
  next
    case False
    have first: "\<not> band_cells c xs cur off r q" for xs cur using False by (auto simp: band_cells_def)
    show ?thesis
    proof (cases "off \<le> q \<and> base + chunk_rise t c \<le> r")
      case True
      let ?r = "r - (base + chunk_rise t c)" and ?q = "q - (off + length (ed_rates c))"
      have "loop_cells f t (c # d # ds) base off r q \<longleftrightarrow> ?r < cm_lead ?A + cm_body ?A \<and> cm_bit ?A ?r ?q"
        using True False lead assms(1)
        by (auto simp: loop_cells_def Let_def contract_def chunk_rise_def diff_diff_add add.assoc)
      moreover have "loop_cells f t (d # ds) (base + chunk_rise t c) (off + length (ed_rates c)) r q \<longleftrightarrow>
          ?r < cm_lead ?A + cm_body ?A \<and> cm_bit ?A ?r ?q \<and> \<not> (?r < length (band_of d t) \<and> ?q < length (ed_rates d))"
        using True False by (auto simp: loop_cells_def Let_def)
      moreover have "band_cells d (band_of d t) (base + chunk_rise t c) (off + length (ed_rates c)) r q \<longleftrightarrow>
          ?r < length (band_of d t) \<and> ?q < length (ed_rates d) \<and> cm_bit ?A ?r ?q"
        using True False chain_rec_first [of ?q d f t ds ?r]
        by (auto simp: band_cells_def abs_bit rows_of_def nth_append)
      ultimately show ?thesis using first lead by auto
    next
      case no: False
      then show ?thesis using False by (auto simp: band_cells_def loop_cells_def Let_def contract_def chunk_rise_def)
    qed
  qed
qed

lemma write_band_cells:
  assumes "rep a (length xs) (length (ed_rates d)) (\<lambda>r. mult_at (ed_H d) (xs ! r))" "cur + length xs \<le> nr" "off + length (ed_rates d) \<le> nc"
  shows "write_sparse_block (bit_mat nr nc P) a cur off = Inr (bit_mat nr nc (\<lambda>r c. P r c \<noteq> band_cells d xs cur off r c))"
  unfolding write_band [OF assms] by (simp add: band_cells_def)

lemma write_interior:
  assumes d: "chunk_wf d" "composable f t d" "f \<noteq> t" "sbm_rows (ed_H d) < max_u32" "length (ed_rates d) < max_u32"
    and b: "cur + length (interior_of d) \<le> nr" "off + length (ed_rates d) \<le> nc"
  shows "\<exists>I. extract_interior_rows (ed_H d) (seams d) = Inr I \<and>
    (if 0 < sbm_rows I then rbind (write_sparse_block (bit_mat nr nc P) I cur off) (\<lambda>M. Inr (M, cur + sbm_rows I))
     else Inr (bit_mat nr nc P, cur))
    = Inr (bit_mat nr nc (\<lambda>r c. P r c \<noteq> band_cells d (interior_of d) cur off r c), cur + length (interior_of d))"
proof -
  obtain I where I: "extract_interior_rows (ed_H d) (seams d) = Inr I"
    "rep I (length (interior_of d)) (length (ed_rates d)) (\<lambda>j. mult_at (ed_H d) (interior_of d ! j))"
    using chunk_bands(3) [OF d] by blast
  show ?thesis
  proof (cases "interior_of d = []")
    case True
    then show ?thesis using I repD(2) [OF I(2)] by (auto simp: band_cells_def)
  next
    case False
    then show ?thesis using I repD(2) [OF I(2)] write_band_cells [OF I(2) b] by auto
  qed
qed

lemma write_contracted_eq:
  assumes c: "chunk_wf c" "composable f t c" "sbm_rows (ed_H c) < max_u32" "length (ed_rates c) < max_u32"
    and d: "chunk_wf d" "composable f t d" "sbm_rows (ed_H d) < max_u32" "length (ed_rates d) < max_u32"
    and ft: "f \<noteq> t" and st: "stitchable f t c d"
    and b: "cur + length (band_of c f) \<le> nr" "off + length (ed_rates c) + length (ed_rates d) \<le> nc"
  shows "write_contracted c d f t cur off (bit_mat nr nc P) = Inr (bit_mat nr nc (\<lambda>r q. (P r q
      \<noteq> band_cells c (band_of c f) cur off r q) \<noteq> band_cells d (band_of d t) cur (off + length (ed_rates c)) r q),
    cur + length (band_of c f))"
proof -
  have has: "has_seam c f" "has_seam d t" using st by (auto simp: stitchable_def)
  have w: "length (band_of c f) = length (band_of d t)" by (rule stitchable_width [OF c(1) d(1) ft st])
  obtain s m where c1: "get_seam c f = Inr s" "seam_num_rows s = length (band_of c f)"
    "extract_row_band (ed_H c) (row_begin s) (row_end s) = Inr m"
    "rep m (length (band_of c f)) (length (ed_rates c)) (\<lambda>r. mult_at (ed_H c) (band_of c f ! r))"
    using chunk_bands(1) [OF c(1,2) ft c(3,4) has(1)] by blast
  obtain s' m' where d1: "get_seam d t = Inr s'"
    "extract_row_band (ed_H d) (row_begin s') (row_end s') = Inr m'"
    "rep m' (length (band_of d t)) (length (ed_rates d)) (\<lambda>r. mult_at (ed_H d) (band_of d t ! r))"
    using chunk_bands(1) [OF d(1,2) ft d(3,4) has(2)] by blast
  have bc: "off + length (ed_rates c) \<le> nc" "cur + length (band_of d t) \<le> nr" using b w by simp_all
  show ?thesis
    unfolding write_contracted_def
    using has c1 d1 chunk_rows(8) [OF c(1,2) ft] write_band_cells [OF c1(4) b(1) bc(1)] write_band_cells [OF d1(3) bc(2) b(2)]
    by simp
qed

lemma close_loop_eq:
  assumes "chain_ok f t (c # cs)" "f \<noteq> t" "chain_fits (c # cs)"
    and "detector_error_matrix res = bit_mat nr nc P" "observables_flips_matrix res = bit_mat (ed_num_observables c) nc Q"
    and "base + base_row t (c # cs) (length (c # cs)) \<le> nr" "off + faults_before (c # cs) (length (c # cs)) \<le> nc"
  shows "close_loop f t (c # cs) (base + length (band_of c t)) off res =
    Inr (res\<lparr>detector_error_matrix := bit_mat nr nc (\<lambda>r q. P r q \<noteq> loop_cells f t (c # cs) base off r q),
      observables_flips_matrix := bit_mat (ed_num_observables c) nc
        (\<lambda>r q. Q r q \<noteq> (off \<le> q \<and> cm_flip (chain_rec (map (abs_chunk f t) (c # cs))) r (q - off))),
      error_rates := error_rates res @ concat (map ed_rates (c # cs))\<rparr>)"
  using assms
proof (induction cs arbitrary: c base off res P Q)
  case Nil
  have c: "chunk_wf c" "composable f t c" using chain_ok_hd [OF Nil(1)] by auto
  have fits: "sbm_rows (ed_H c) < max_u32" "length (ed_rates c) < max_u32" using Nil(3) by (simp_all add: chain_fits_def)
  have b: "base + length (band_of c t) + length (interior_of c) \<le> nr" "off + length (ed_rates c) \<le> nc"
    using Nil(6,7) by (simp_all add: base_row_def chunk_rise_def faults_before_def)
  from write_interior [OF c Nil(2) fits b, of P] obtain I where I: "extract_interior_rows (ed_H c) (seams c) = Inr I"
    "(if 0 < sbm_rows I then rbind (write_sparse_block (bit_mat nr nc P) I (base + length (band_of c t)) off)
         (\<lambda>M. Inr (M, base + length (band_of c t) + sbm_rows I)) else Inr (bit_mat nr nc P, base + length (band_of c t)))
     = Inr (bit_mat nr nc (\<lambda>r q. P r q \<noteq> loop_cells f t [c] base off r q), base + length (band_of c t) + length (interior_of c))"
    unfolding loop_cells_last by blast
  then show ?case
    by (simp only: close_loop.simps Nil(4,5) I rbind_simps split list.case write_obs [OF c Nil(2) refl b(2), of Q]
        list.map concat.simps append_Nil2 chain_rec.simps)
next
  case (Cons d ds)
  have c: "chunk_wf c" "composable f t c" and d: "chunk_wf d" "composable f t d" and st: "stitchable f t c d"
    and okd: "chain_ok f t (d # ds)" using Cons.prems(1) by (auto simp: chain_ok_Cons dest: chain_ok_hd)
  note ft = Cons.prems(2)
  have fits: "sbm_rows (ed_H c) < max_u32" "length (ed_rates c) < max_u32" "sbm_rows (ed_H d) < max_u32"
    "length (ed_rates d) < max_u32" and fitd: "chain_fits (d # ds)"
    using Cons.prems(3) by (simp_all add: chain_fits_def)
  have w: "length (band_of c f) = length (band_of d t)" by (rule stitchable_width [OF c(1) d(1) ft st])
  have rows: "base_row t (c # d # ds) (length (c # d # ds)) = chunk_rise t c + base_row t (d # ds) (length (d # ds))"
    "length (band_of d t) \<le> base_row t (d # ds) (length (d # ds))"
    "faults_before (c # d # ds) (length (c # d # ds)) = length (ed_rates c) + faults_before (d # ds) (length (d # ds))"
    "length (ed_rates d) \<le> faults_before (d # ds) (length (d # ds))"
    by (simp_all add: base_row_def chunk_rise_def faults_before_def)
  let ?cur1 = "base + chunk_rise t c"
  have b: "base + length (band_of c t) + length (interior_of c) \<le> nr" "off + length (ed_rates c) \<le> nc"
    "?cur1 + length (band_of c f) \<le> nr" "off + length (ed_rates c) + length (ed_rates d) \<le> nc"
    "?cur1 + base_row t (d # ds) (length (d # ds)) \<le> nr" "(off + length (ed_rates c)) + faults_before (d # ds) (length (d # ds)) \<le> nc"
    using Cons.prems(6,7) rows w unfolding chunk_rise_def by linarith+
  define P1 where "P1 = (\<lambda>r q. P r q \<noteq> band_cells c (interior_of c) (base + length (band_of c t)) off r q)"
  define P2 where "P2 = (\<lambda>r q. (P1 r q \<noteq> band_cells c (band_of c f) ?cur1 off r q)
      \<noteq> band_cells d (band_of d t) ?cur1 (off + length (ed_rates c)) r q)"
  define Q1 where "Q1 = (\<lambda>r q. Q r q \<noteq> (off \<le> q \<and> cm_flip (abs_chunk f t c) r (q - off)))"
  from write_interior [OF c ft fits(1,2) b(1,2), of P] obtain I where I: "extract_interior_rows (ed_H c) (seams c) = Inr I"
    "(if 0 < sbm_rows I then rbind (write_sparse_block (bit_mat nr nc P) I (base + length (band_of c t)) off)
         (\<lambda>M. Inr (M, base + length (band_of c t) + sbm_rows I)) else Inr (bit_mat nr nc P, base + length (band_of c t)))
     = Inr (bit_mat nr nc P1, ?cur1)"
    unfolding P1_def chunk_rise_def by (auto simp: add.assoc)
  have K: "write_contracted c d f t ?cur1 off (bit_mat nr nc P1) = Inr (bit_mat nr nc P2, ?cur1 + length (band_of d t))"
    unfolding P2_def using write_contracted_eq [OF c fits(1,2) d fits(3,4) ft st b(3,4), of P1] w by simp
  have OQ: "write_sparse_block (bit_mat (ed_num_observables c) nc Q) (ed_O c) 0 off = Inr (bit_mat (ed_num_observables c) nc Q1)"
    unfolding Q1_def by (rule write_obs [OF c ft refl b(2)])
  have k: "ed_num_observables d = ed_num_observables c" using st by (simp add: stitchable_def)
  let ?res = "res\<lparr>detector_error_matrix := bit_mat nr nc P2, observables_flips_matrix := bit_mat (ed_num_observables c) nc Q1,
    error_rates := error_rates res @ ed_rates c\<rparr>"
  have "close_loop f t (c # d # ds) (base + length (band_of c t)) off res
      = close_loop f t (d # ds) (?cur1 + length (band_of d t)) (off + length (ed_rates c)) ?res"
    by (subst close_loop.simps) (simp only: Cons.prems(4,5) I K OQ rbind_simps split list.case chunk_rows(8) [OF c ft])
  also have "\<dots> = Inr (?res\<lparr>detector_error_matrix := bit_mat nr nc (\<lambda>r q. P2 r q \<noteq> loop_cells f t (d # ds) ?cur1 (off + length (ed_rates c)) r q),
      observables_flips_matrix := bit_mat (ed_num_observables d) nc
        (\<lambda>r q. Q1 r q \<noteq> (off + length (ed_rates c) \<le> q \<and> cm_flip (chain_rec (map (abs_chunk f t) (d # ds))) r (q - (off + length (ed_rates c))))),
      error_rates := error_rates ?res @ concat (map ed_rates (d # ds))\<rparr>)"
    by (rule Cons.IH [OF okd ft fitd]) (use b(5,6) k in simp_all)
  also have "bit_mat nr nc (\<lambda>r q. P2 r q \<noteq> loop_cells f t (d # ds) ?cur1 (off + length (ed_rates c)) r q)
      = bit_mat nr nc (\<lambda>r q. P r q \<noteq> loop_cells f t (c # d # ds) base off r q)"
    unfolding P2_def P1_def loop_cells_Cons [OF w linked_abs [OF okd ft]] by (rule bit_mat_cong) blast
  also have "bit_mat (ed_num_observables d) nc
        (\<lambda>r q. Q1 r q \<noteq> (off + length (ed_rates c) \<le> q \<and> cm_flip (chain_rec (map (abs_chunk f t) (d # ds))) r (q - (off + length (ed_rates c)))))
      = bit_mat (ed_num_observables c) nc (\<lambda>r q. Q r q \<noteq> (off \<le> q \<and> cm_flip (chain_rec (map (abs_chunk f t) (c # d # ds))) r (q - off)))"
    unfolding k Q1_def by (rule bit_mat_cong) (auto simp: contract_def Let_def diff_diff_add flip_outside [OF c ft])
  finally show ?case by simp
qed

lemma contracted_widths:
  "chain_ok f t cs \<Longrightarrow> f \<noteq> t \<Longrightarrow>
   length (band_of (hd cs) t) + sum_list (map (\<lambda>c. length (interior_of c)) cs) + sum_list (map (\<lambda>c. length (band_of c f)) (butlast cs))
   = base_row t cs (length cs)"
proof (induction cs rule: induct_list012)
  case (3 c d ds)
  then have ok: "chain_ok f t (d # ds)" and w: "length (band_of c f) = length (band_of d t)"
    using stitchable_width [of c d f t] by (auto simp: chain_ok_Cons dest: chain_ok_hd)
  show ?case using 3(2) [OF ok 3(4)] w by (simp add: base_row_def chunk_rise_def)
qed (simp_all add: base_row_def chunk_rise_def chain_ok_def)

lemma dem_close_all_ok:
  assumes ok: "chain_ok f t cs" and ft: "f \<noteq> t" and fit: "chain_fits cs"
  shows "dem_close_all cs f t = Inr (closed_model (chain_of (map (abs_chunk f t) cs)))"
proof -
  obtain c cs' where cs: "cs = c # cs'" using ok by (cases cs) (auto simp: chain_ok_def)
  let ?n = "faults_before cs (length cs)" and ?y = "base_row t cs (length cs)" and ?A = "chain_rec (map (abs_chunk f t) cs)"
  let ?k = "ed_num_observables c" and ?l = "length (band_of c t)"
  have ds: "\<forall>d \<in> set cs. chunk_wf d \<and> composable f t d" using ok by (auto simp: chain_ok_def)
  then have c: "chunk_wf c" "composable f t c" by (auto simp: cs)
  have lk: "linked (map (abs_chunk f t) cs)" "map (abs_chunk f t) cs \<noteq> []" using linked_abs [OF ok ft] cs by auto
  note A = chain_rec_fields [OF lk]
  have y: "cm_lead ?A + cm_body ?A = ?y" "cm_faults ?A = ?n" "cm_obs ?A = ?k" "cm_rates ?A = concat (map ed_rates cs)"
    using A by (simp_all add: base_row_def chunk_rise_def [abs_def] comp_def chain_total) (simp add: cs)
  have checks: "rfold (\<lambda>c _. rbind (ed_validate c) (\<lambda>_. reject_extra_seams c f t)) cs () = Inr ()"
    "rfold (\<lambda>i _. if ed_num_observables (cs ! i) \<noteq> ?k
        then Inl (Invalid_argument ''dem_close_all: observable count mismatch at chunk'') else Inr ()) [1..<length cs] () = Inr ()"
    "rfold (\<lambda>i _. check_seam_boundary (cs ! i) (cs ! (i + 1)) f t) [0..<length cs - 1] () = Inr ()"
  proof -
    show "rfold (\<lambda>c _. rbind (ed_validate c) (\<lambda>_. reject_extra_seams c f t)) cs () = Inr ()"
      using ds by (subst rfold_unit_iff) (auto simp: composable_def)
    show "rfold (\<lambda>i _. if ed_num_observables (cs ! i) \<noteq> ?k
        then Inl (Invalid_argument ''dem_close_all: observable count mismatch at chunk'') else Inr ()) [1..<length cs] () = Inr ()"
    proof (subst rfold_unit_iff, intro ballI)
      fix i assume "i \<in> set [1..<length cs]"
      then have i: "i < length cs" by auto
      have "cs ! 0 = c" by (simp add: cs)
      then have "ed_num_observables (cs ! i) = ?k" using chain_obs_nth [OF ok nth_mem [OF i]] by simp
      then show "(if ed_num_observables (cs ! i) \<noteq> ?k
        then Inl (Invalid_argument ''dem_close_all: observable count mismatch at chunk'') else Inr ()) = Inr ()" by simp
    qed
    have "check_seam_boundary (cs ! i) (cs ! (i + 1)) f t = Inr ()" if "i + 1 < length cs" for i
      using that ok check_seam_boundary_iff [of "cs ! i" f t "cs ! (i + 1)"] ft by (auto simp: chain_ok_def stitchable_def)
    then show "rfold (\<lambda>i _. check_seam_boundary (cs ! i) (cs ! (i + 1)) f t) [0..<length cs - 1] () = Inr ()"
      by (subst rfold_unit_iff) auto
  qed
  have ws: "rmap (\<lambda>c. seam_rows_or_zero c f) (butlast cs) = Inr (map (\<lambda>c. length (band_of c f)) (butlast cs))"
    by (rule rmap_pure) (use ds ft chunk_rows(6) in \<open>auto dest!: in_set_butlastD\<close>)
  have lead: "seam_rows_or_zero (cs ! 0) t = Inr ?l" using chunk_rows(5) [OF c ft] by (simp add: cs)
  have offs: "last (dem_chunks_to_fault_offsets cs) = ?n"
    using fault_offsets [of cs] chain_faults [OF ok ft] by (simp add: upt_Suc)
  have ints: "map num_interior_rows cs = map (\<lambda>c. length (interior_of c)) cs"
    using ds ft chunk_rows(4) by (auto intro!: map_cong)
  have ndet: "?l + sum_list (map num_interior_rows cs) + sum_list (map (\<lambda>c. length (band_of c f)) (butlast cs)) = ?y"
  proof -
    have "hd cs = c" by (simp add: cs)
    then show ?thesis using contracted_widths [OF ok ft] unfolding ints by simp
  qed
  have fits: "sbm_rows (ed_H c) < max_u32" "length (ed_rates c) < max_u32" using fit by (simp_all add: chain_fits_def cs)
  have le: "?l \<le> ?y" "length (ed_rates c) \<le> ?n" by (simp_all add: cs base_row_def chunk_rise_def faults_before_def)
  have M1: "(if 0 < ?l \<and> has_seam (cs ! 0) t then rbind (get_seam (cs ! 0) t) (\<lambda>s.
        rbind (extract_row_band (ed_H (cs ! 0)) (row_begin s) (row_end s)) (\<lambda>lead_H.
          write_sparse_block (tensor_new [?y, ?n]) lead_H 0 0)) else Inr (tensor_new [?y, ?n]))
      = Inr (bit_mat ?y ?n (band_cells c (band_of c t) 0 0))"
  proof (cases "0 < ?l")
    case True
    then have "has_seam c t" by (auto simp: has_seam_find band_of_def split: option.splits)
    moreover from this obtain s m where "get_seam c t = Inr s" "extract_row_band (ed_H c) (row_begin s) (row_end s) = Inr m"
      "rep m ?l (length (ed_rates c)) (\<lambda>r. mult_at (ed_H c) (band_of c t ! r))" using chunk_bands(1) [OF c ft fits] by blast
    ultimately show ?thesis
      using True write_band_cells [of m "band_of c t" c 0 ?y 0 ?n] le by (simp add: tensor_new_bit_mat cs)
  next
    case False
    then have "band_cells c (band_of c t) 0 0 = (\<lambda>r c. False)" by (auto simp: band_cells_def fun_eq_iff)
    then show ?thesis using False by (simp add: tensor_new_bit_mat)
  qed
  have loop: "close_loop f t cs ?l 0
      \<lparr>detector_error_matrix = bit_mat ?y ?n (band_cells c (band_of c t) 0 0), error_rates = [],
       observables_flips_matrix = tensor_new [?k, ?n], error_ids = None\<rparr> = Inr (closed_model ?A)"
  proof -
    have "bit_mat ?y ?n (\<lambda>r q. band_cells c (band_of c t) 0 0 r q \<noteq> loop_cells f t cs 0 0 r q) = bit_mat ?y ?n (cm_bit ?A)"
    proof (rule bit_mat_cong)
      fix r q assume "r < ?y" "q < ?n"
      then show "(band_cells c (band_of c t) 0 0 r q \<noteq> loop_cells f t cs 0 0 r q) = cm_bit ?A r q"
        using y(1) chain_rec_first [of q c f t cs' r] le(1)
        by (cases "q < length (ed_rates c)")
          (auto simp: cs band_cells_def loop_cells_def Let_def abs_bit rows_of_def nth_append simp del: list.map)
    qed
    then show ?thesis
      using close_loop_eq [OF ok [unfolded cs] ft fit [unfolded cs], of _ ?y ?n "band_cells c (band_of c t) 0 0" "\<lambda>r q. False" 0 0] y
      by (simp add: closed_model_def cs [symmetric] tensor_new_bit_mat del: close_loop.simps)
  qed
  have h: "cs ! 0 = c" "cs \<noteq> []" by (simp_all add: cs)
  show ?thesis
    unfolding dem_close_all_def Let_def chain_of_rec [OF lk]
    by (simp only: h if_False checks rbind_simps lead [unfolded h] ws offs ndet M1 [unfolded h] loop)
qed

lemma stitched_fits:
  assumes ok: "chain_ok f t cs" and ft: "f \<noteq> t" and fit: "chain_fits cs"
    and c: "chunk_wf c" "composable f t c" "abs_chunk f t c = chain_of (map (abs_chunk f t) cs)"
  shows "chain_fits [c]"
proof -
  have ne: "cs \<noteq> []" using ok by (simp add: chain_ok_def)
  have lk: "linked (map (abs_chunk f t) cs)" "map (abs_chunk f t) cs \<noteq> []" using linked_abs [OF ok ft] ne by auto
  note A = chain_rec_fields [OF lk] and e = c(3) [unfolded chain_of_rec [OF lk]]
  have "length (band_of c t) + length (interior_of c) = base_row t cs (length cs)"
    "length (band_of c f) = length (band_of (last cs) f)" "length (ed_rates c) = faults_before cs (length cs)"
    using A(1,3,4) arg_cong [OF e, of cm_lead] arg_cong [OF e, of cm_body] arg_cong [OF e, of cm_trail] arg_cong [OF e, of cm_faults] ne
    by (simp_all add: base_row_def chunk_rise_def [abs_def] comp_def chain_total last_map)
  then have "sbm_rows (ed_H c) < max_u32" "length (ed_rates c) < max_u32"
    using chunk_rows(3) [OF c(1,2) ft] chain_rows_fit [OF ok ft fit] fit
    by (simp_all add: rows_of_def chain_fits_def chain_total)
  moreover have "length (sbm_idx (ed_H c)) \<le> max_u32" "length (sbm_idx (ed_O c)) \<le> max_u32"
    using c(1) sbm_okD(5) by (auto simp: chunk_wf_def sbm_default_def)
  ultimately show ?thesis by (simp add: chain_fits_def)
qed

section \<open>Properties\<close>

lemma demo_chain_ok: "chain_ok next_round prev_round [demo_chunk, demo_chunk]" "chain_fits [demo_chunk, demo_chunk]"
  using demo_chunk_ok by (auto simp: chain_ok_Cons) (simp_all add: chain_ok_def chain_fits_def demo_chunk_def max_u32_def)

text \<open>
  C7: \<open>dem_stitch_all\<close> builds in one pass what the left fold of \<open>dem_stitch\<close> builds. For a list of at least two well
  formed chunks within the 32-bit bounds it succeeds exactly on the chains whose chunks pass their checks and whose
  neighbours can be stitched; the result is a well formed chunk whose abstraction is the left fold of the contraction.
  If the observables are stated in the same way throughout and the first chunk has a fault, the fold of \<open>dem_stitch\<close>
  over such a chain succeeds too and its result has the same abstraction.
\<close>
theorem dem_stitch_all_is_fold:
  assumes "\<forall>c \<in> set chunks. chunk_wf c" "f \<noteq> t" "chain_fits chunks" "1 < length chunks"
  shows "case dem_stitch_all chunks f t of
      Inl e \<Rightarrow> \<not> chain_ok f t chunks
    | Inr c \<Rightarrow> chain_ok f t chunks \<and> chunk_wf c \<and> composable f t c \<and>
        abs_chunk f t c = chain_of (map (abs_chunk f t) chunks) \<and>
        (ed_rates (hd chunks) \<noteq> [] \<and> ((\<forall>c \<in> set chunks. obs_aligned c) \<or> (\<forall>c \<in> set chunks. obs_empty c)) \<longrightarrow>
           (\<exists>c'. rfold (\<lambda>b a. dem_stitch a b f t) (tl chunks) (hd chunks) = Inr c' \<and> abs_chunk f t c' = abs_chunk f t c))"
proof (cases "dem_stitch_all chunks f t")
  case (Inl e)
  then show ?thesis using dem_stitch_all_ok [OF _ assms(2-4)] by auto
next
  case (Inr c)
  have ok: "chain_ok f t chunks" by (rule dem_stitch_all_chain [OF assms(1,2,4) Inr])
  obtain a cs where cs: "chunks = a # cs" using assms(4) by (cases chunks) auto
  show ?thesis
    using Inr ok dem_stitch_all_ok [OF ok assms(2-4)] stitch_fold [OF ok [unfolded cs] assms(2) assms(3) [unfolded cs]]
    by (auto simp: cs)
qed

theorem dem_stitch_all_is_fold_witness:
  "\<exists>c c'. dem_stitch_all [demo_chunk, demo_chunk] next_round prev_round = Inr c \<and>
     dem_stitch demo_chunk demo_chunk next_round prev_round = Inr c' \<and>
     abs_chunk next_round prev_round c' = abs_chunk next_round prev_round c \<and>
     cm_bit (abs_chunk next_round prev_round c) 1 1"
proof -
  let ?A = "abs_chunk next_round prev_round demo_chunk"
  have "\<forall>c \<in> set [demo_chunk, demo_chunk]. chunk_wf c" "1 < length [demo_chunk, demo_chunk]" using demo_chunk_ok by auto
  moreover have "ed_rates demo_chunk \<noteq> []" by (simp add: demo_chunk_def)
  ultimately obtain c c' where "dem_stitch_all [demo_chunk, demo_chunk] next_round prev_round = Inr c"
    "abs_chunk next_round prev_round c = contract ?A ?A"
    "rfold (\<lambda>b a. dem_stitch a b next_round prev_round) [demo_chunk] demo_chunk = Inr c'"
    "abs_chunk next_round prev_round c' = abs_chunk next_round prev_round c"
    using dem_stitch_all_is_fold [OF _ round_names demo_chain_ok(2)] demo_chain_ok(1) demo_chunk_ok(4)
    by (auto simp: chain_of_def split: sum.splits)
  then show ?thesis using demo_chunk_abs by (auto simp: contract_def rbind_Inr_iff)
qed

text \<open>
  C2: The three ways to close a chain agree. On a chain that the checks accept, within the 32-bit bounds,
  \<open>dem_close_all\<close> returns exactly the detector error model that \<open>dem_close\<close> returns for the chunk of
  \<open>dem_stitch_all\<close>: the same dense detector matrix, observable matrix and rates, and no error ids. The sparse matrix
  of \<open>dem_chunks_to_pcm\<close>, built without the dense one, is canonical, in CSC layout, and densifies to that detector
  matrix.
\<close>
theorem dem_close_all_agrees:
  assumes "chain_ok f t chunks" "f \<noteq> t" "chain_fits chunks" "1 < length chunks"
  shows "\<exists>dem pcm. dem_close_all chunks f t = Inr dem \<and>
    rbind (dem_stitch_all chunks f t) (\<lambda>c. dem_close c t f) = Inr dem \<and>
    dem = closed_model (chain_of (map (abs_chunk f t) chunks)) \<and>
    dem_chunks_to_pcm chunks f t = Inr pcm \<and> canonical pcm \<and> sbm_layout pcm = CSC \<and>
    to_dense pcm = Inr (detector_error_matrix dem)"
proof -
  let ?A = "chain_of (map (abs_chunk f t) chunks)"
  obtain c where c: "dem_stitch_all chunks f t = Inr c" "chunk_wf c" "composable f t c" "abs_chunk f t c = ?A"
    using dem_stitch_all_ok [OF assms] by blast
  have close: "dem_close c t f = Inr (closed_model ?A)"
    using dem_close_ok [OF c(2,3) assms(2) stitched_fits [OF assms(1-3) c(2-4)]] c(4) by simp
  obtain pcm where pcm: "dem_chunks_to_pcm chunks f t = Inr pcm" "canonical pcm" "sbm_layout pcm = CSC"
    "rep pcm (cm_lead ?A + cm_body ?A) (cm_faults ?A) (\<lambda>r c. if cm_bit ?A r c then 1 else 0)"
    using dem_chunks_to_pcm_ok [OF assms(1-3)] by blast
  have "to_dense pcm = Inr (detector_error_matrix (closed_model ?A))"
    using to_dense_mult [OF repD(1) [OF pcm(4)]] repD [OF pcm(4)]
    by (auto simp: closed_model_def bit_mat_def mat_simps intro!: mat_eqI [of _ "cm_lead ?A + cm_body ?A" "cm_faults ?A"])
  then show ?thesis using c(1) close dem_close_all_ok [OF assms(1-3)] pcm(1-3) by auto
qed

theorem dem_close_all_agrees_witness:
  "\<exists>dem pcm. dem_close_all [demo_chunk, demo_chunk] next_round prev_round = Inr dem \<and>
     rbind (dem_stitch_all [demo_chunk, demo_chunk] next_round prev_round) (\<lambda>c. dem_close c prev_round next_round) = Inr dem \<and>
     dem_chunks_to_pcm [demo_chunk, demo_chunk] next_round prev_round = Inr pcm \<and>
     to_dense pcm = Inr (detector_error_matrix dem) \<and> error_rates dem = [1 / 10, 1 / 10]"
proof -
  have "1 < length [demo_chunk, demo_chunk]" "ed_rates demo_chunk = [1 / 10]" by (simp_all add: demo_chunk_def)
  then show ?thesis
    using dem_close_all_agrees [OF demo_chain_ok(1) round_names demo_chain_ok(2)]
    by (auto simp: closed_model_def chain_of_def)
qed

end
