(* ===== verification/QEC_Chunk_Merge.thy ===== *)
theory QEC_Chunk_Merge
  imports QEC_Chunk_Close
begin

text \<open>
  Merging equal fault columns. The support of a column over GF(2), its rows of \<open>H\<close> and of \<open>O\<close>, decides which
  columns \<open>dem_merge_duplicate_columns\<close> puts together.
\<close>

section \<open>Supports\<close>

definition odd_col :: "sparse_binary_matrix \<Rightarrow> nat \<Rightarrow> nat set" where
  "odd_col m c = {r. r < sbm_rows m \<and> odd (mult_at m r c)}"

definition fault_col :: "extended_dem \<Rightarrow> nat \<Rightarrow> nat set \<times> nat set" where
  "fault_col d j = (odd_col (ed_H d) j, if sbm_cols (ed_O d) = 0 then {} else odd_col (ed_O d) j)"

lemma canonical_columns_ok:
  assumes "sbm_ok m"
  shows "\<exists>cols. canonical_columns m = Inr cols \<and> length cols = sbm_cols m \<and>
    (\<forall>c < sbm_cols m. strictly_sorted (cols ! c) \<and> set (cols ! c) = odd_col m c) \<and>
    sum_list (map length cols) \<le> length (sbm_idx m)"
proof -
  note p = to_csc_props [OF assms]
  let ?m = "reduced (to_csc m)"
  note q = reduced_props [OF p(1)]
  have "to_nested_csc ?m = groups ?m" using q(2,3) p(2) by (simp add: to_nested_csc_groups to_csc_def)
  then have e: "canonical_columns m = Inr (groups ?m)"
    by (simp add: canonical_columns_def canonicalize_eq_reduced [OF p(1)])
  have n: "num_groups ?m = sbm_cols m" using q(3-5) p(2,4) by (simp add: num_groups_def)
  have r: "rep ?m (sbm_rows m) (sbm_cols m) (\<lambda>r c. mult_at m r c mod 2)"
    using q p mult_reduced [OF p(1)] by (auto simp: rep_def)
  have "strictly_sorted (groups ?m ! c)" if "c < sbm_cols m" for c
    using canonical_reduced [OF p(1)] n that by (simp add: canonical_def)
  moreover have "set (groups ?m ! c) = odd_col m c" if c: "c < sbm_cols m" for c
  proof -
    have g: "to_nested_csc ?m = groups ?m" by fact
    have "r \<in> set (groups ?m ! c) \<longleftrightarrow> r < sbm_rows m \<and> odd (mult_at m r c)" for r
    proof (cases "r < sbm_rows m")
      case True
      have "count_list (groups ?m ! c) r = mult_at m r c mod 2" using nested_csc_rep(2) [OF r c True] g by simp
      then show ?thesis using True count_list_0_iff [of "groups ?m ! c" r] by (auto simp: odd_iff_mod_2_eq_one)
    qed (use nested_csc_rep(3) [OF r c] g in auto)
    then show ?thesis by (auto simp: odd_col_def)
  qed
  moreover have "sum_list (map length (groups ?m)) \<le> length (sbm_idx m)"
  proof -
    have "sum_list (map length (groups ?m)) \<le> sum_list (map length (groups (to_csc m)))"
      unfolding q(1) using sum_odd_runs_le [of "groups (to_csc m)"] by simp
    also have "\<dots> = length (sbm_idx (to_csc m))" by (rule sum_length_groups [OF p(1)])
    also have "\<dots> = length (sbm_idx m)"
      using num_entries [OF p(1)] num_entries [OF assms] p by (auto intro!: nnz_cong)
    finally show ?thesis .
  qed
  ultimately show ?thesis using e n by auto
qed

lemma canonical_columns_default: "canonical_columns sbm_default = Inr []"
  by code_simp

section \<open>The map of groups\<close>

lemma map_emplace_fresh:
  assumes "k \<notin> fst ` set m"
  shows "map_of (map_emplace k v m) = (map_of m)(k \<mapsto> v)" "mset (map fst (map_emplace k v m)) = add_mset k (mset (map fst m))"
  using assms by (induction k v m rule: map_emplace.induct) (auto simp: fun_eq_iff)

lemma map_emplace_sorted:
  assumes "sorted_wrt vec_less (map fst m)" "k \<notin> fst ` set m"
  shows "sorted_wrt vec_less (map fst (map_emplace k v m))"
  using assms
proof (induction k v m rule: map_emplace.induct)
  case (2 k v k' v' m)
  have set: "fst ` set (map_emplace k v m) = insert k (fst ` set m)"
    using arg_cong [OF map_emplace_fresh(2) [of k m v], of set_mset] "2.prems"(2) by simp
  show ?case
  proof (cases "vec_less k k'")
    case True
    then show ?thesis using "2.prems" by (auto simp: vec_less_def intro: lexordp_trans)
  next
    case False
    then have "vec_less k' k" using "2.prems"(2) lexordp_linear [of k k'] by (auto simp: vec_less_def)
    then show ?thesis using "2.IH" "2.prems" False set by auto
  qed
qed simp

lemma map_update_keys: "map fst (map_update k h m) = map fst m"
  by (induction k h m rule: map_update.induct) auto

lemma map_update_lookup:
  "distinct (map fst m) \<Longrightarrow> map_of (map_update k h m) s = (if s = k then map_option h (map_of m k) else map_of m s)"
  by (induction k h m rule: map_update.induct) (auto simp: map_of_eq_None_iff rev_image_eqI)

lemma merge_step_sorted:
  "sorted_wrt vec_less (map fst m) \<Longrightarrow> sorted_wrt vec_less (map fst (merge_step mode sups rates j m))"
  by (auto simp: merge_step_def Let_def map_update_keys map_of_eq_None_iff intro!: map_emplace_sorted split: option.split)

lemma merge_fold_sorted: "sorted_wrt vec_less (map fst (fold (merge_step mode sups rates) js []))"
proof -
  have "sorted_wrt vec_less (map fst m) \<Longrightarrow> sorted_wrt vec_less (map fst (fold (merge_step mode sups rates) js m))" for m
    by (induction js arbitrary: m) (simp_all add: merge_step_sorted)
  then show ?thesis by simp
qed

definition combined :: "prior_combine_mode \<Rightarrow> real list \<Rightarrow> real" where
  "combined mode ps = (if mode = or_combine then (\<Prod>p\<leftarrow>ps. 1 - 2 * p) else sum_list ps)"

definition group_of :: "prior_combine_mode \<Rightarrow> nat list list \<Rightarrow> real list \<Rightarrow> nat \<Rightarrow> nat list \<Rightarrow> column_group" where
  "group_of mode sups rates j s =
     (let is = filter (\<lambda>i. sups ! i = s) [0..<j]
      in \<lparr>cg_representative = hd is, cg_accumulator = combined mode (map ((!) rates) is), cg_members = length is\<rparr>)"

lemma merge_fold:
  assumes "j \<le> length sups"
  shows "distinct (map fst (fold (merge_step mode sups rates) [0..<j] [])) \<and>
    map_of (fold (merge_step mode sups rates) [0..<j] []) =
      (\<lambda>s. if s \<in> set (take j sups) then Some (group_of mode sups rates j s) else None)"
  using assms
proof (induction j)
  case (Suc j)
  let ?m = "fold (merge_step mode sups rates) [0..<j] []"
  have j: "j < length sups" using Suc.prems by simp
  have D: "distinct (map fst ?m)" and M: "\<And>s. map_of ?m s = (if s \<in> set (take j sups) then Some (group_of mode sups rates j s) else None)"
    using Suc by auto
  have take: "set (take (Suc j) sups) = insert (sups ! j) (set (take j sups))"
    using j by (simp add: take_Suc_conv_app_nth)
  have other: "group_of mode sups rates (Suc j) s = group_of mode sups rates j s" if "s \<noteq> sups ! j" for s
    using that by (simp add: group_of_def)
  show ?case
  proof (cases "sups ! j \<in> set (take j sups)")
    case False
    then have "map_of ?m (sups ! j) = None" by (simp add: M)
    then have f: "sups ! j \<notin> fst ` set ?m" by (simp add: map_of_eq_None_iff)
    have "filter (\<lambda>i. sups ! i = sups ! j) [0..<j] = []"
      using False j by (auto simp: filter_empty_conv in_set_conv_nth)
    then have "group_of mode sups rates (Suc j) (sups ! j) = \<lparr>cg_representative = j,
        cg_accumulator = (if mode = or_combine then 1 - 2 * rates ! j else rates ! j), cg_members = 1\<rparr>"
      by (simp add: group_of_def combined_def Let_def)
    then have ms: "merge_step mode sups rates j ?m = map_emplace (sups ! j) (group_of mode sups rates (Suc j) (sups ! j)) ?m"
      using \<open>map_of ?m (sups ! j) = None\<close> by (simp add: merge_step_def Let_def)
    have "map_of (merge_step mode sups rates j ?m) s =
        (if s \<in> set (take (Suc j) sups) then Some (group_of mode sups rates (Suc j) s) else None)" for s
      unfolding ms map_emplace_fresh(1) [OF f] take by (cases "s = sups ! j") (simp_all add: M other)
    moreover have "distinct (map fst (merge_step mode sups rates j ?m))"
    proof -
      have "mset (map fst (merge_step mode sups rates j ?m)) = mset (sups ! j # map fst ?m)"
        unfolding ms map_emplace_fresh(2) [OF f] by simp
      then have "distinct (map fst (merge_step mode sups rates j ?m)) = distinct (sups ! j # map fst ?m)"
        by (rule mset_eq_imp_distinct_iff)
      then show ?thesis using D f by simp
    qed
    ultimately show ?thesis by (auto simp: fun_eq_iff)
  next
    case True
    then obtain i where i: "i < j" "sups ! i = sups ! j" using j by (auto simp: in_set_conv_nth)
    then have ne: "filter (\<lambda>i. sups ! i = sups ! j) [0..<j] \<noteq> []" by (auto simp: filter_empty_conv)
    have g: "group_of mode sups rates (Suc j) (sups ! j) = (group_of mode sups rates j (sups ! j))
        \<lparr>cg_accumulator := (if mode = or_combine then cg_accumulator (group_of mode sups rates j (sups ! j)) * (1 - 2 * rates ! j)
           else cg_accumulator (group_of mode sups rates j (sups ! j)) + rates ! j),
         cg_members := cg_members (group_of mode sups rates j (sups ! j)) + 1\<rparr>"
      using ne by (simp add: group_of_def combined_def Let_def)
    have m: "map_of ?m (sups ! j) = Some (group_of mode sups rates j (sups ! j))" using True M by simp
    let ?h = "\<lambda>g. g\<lparr>cg_accumulator := (if mode = or_combine then cg_accumulator g * (1 - 2 * rates ! j)
        else cg_accumulator g + rates ! j), cg_members := cg_members g + 1\<rparr>"
    have ms: "merge_step mode sups rates j ?m = map_update (sups ! j) ?h ?m"
      using m by (simp add: merge_step_def Let_def)
    have "map_of (merge_step mode sups rates j ?m) s =
        (if s \<in> set (take (Suc j) sups) then Some (group_of mode sups rates (Suc j) s) else None)" for s
      unfolding ms map_update_lookup [OF D] take by (cases "s = sups ! j") (simp_all add: M other True g del: map_update.simps)
    moreover have "distinct (map fst (merge_step mode sups rates j ?m))"
      unfolding ms map_update_keys by (rule D)
    ultimately show ?thesis by (auto simp: fun_eq_iff)
  qed
qed simp

section \<open>Supports of a chunk\<close>

definition supports_of :: "extended_dem \<Rightarrow> dem_column_supports \<Rightarrow> bool" where
  "supports_of d S \<longleftrightarrow>
     (let n = length (ed_rates d) in
      length (H_cols S) = n \<and> length (O_cols S) = n \<and> length (flat_cols S) = n \<and>
      sum_list (map length (H_cols S)) \<le> max_u32 \<and> sum_list (map length (O_cols S)) \<le> max_u32 \<and>
      (\<forall>j<n. strictly_sorted (H_cols S ! j) \<and> strictly_sorted (O_cols S ! j) \<and>
         (set (H_cols S ! j), set (O_cols S ! j)) = fault_col d j \<and>
         flat_cols S ! j = H_cols S ! j @ map (\<lambda>r. sbm_rows (ed_H d) + r) (O_cols S ! j)))"

lemma supports_new:
  assumes wf: "chunk_wf d" and v: "ed_validate d = Inr ()" and b: "sbm_rows (ed_H d) + sbm_rows (ed_O d) \<le> max_u32"
  shows "\<exists>S. dem_column_supports_new d = Inr S \<and> supports_of d S"
proof -
  let ?n = "length (ed_rates d)"
  have H: "sbm_ok (ed_H d)" and n: "ed_num_faults d = ?n" and cols: "sbm_cols (ed_H d) = ?n"
    using wf v by (auto simp: chunk_wf_def ed_num_faults_def ed_validate_iff)
  obtain hc where hc: "canonical_columns (ed_H d) = Inr hc" "length hc = ?n"
    "\<forall>c < ?n. strictly_sorted (hc ! c) \<and> set (hc ! c) = odd_col (ed_H d) c" "sum_list (map length hc) \<le> max_u32"
    using canonical_columns_ok [OF H] cols sbm_okD(5) [OF H] by fastforce
  obtain oc0 where oc0: "canonical_columns (ed_O d) = Inr oc0" "length oc0 = sbm_cols (ed_O d)"
    "\<forall>c < sbm_cols (ed_O d). strictly_sorted (oc0 ! c) \<and> set (oc0 ! c) = odd_col (ed_O d) c" "sum_list (map length oc0) \<le> max_u32"
  proof (cases "ed_O d = sbm_default")
    case True
    then show thesis using that canonical_columns_default by (simp add: sbm_default_def)
  next
    case False
    then have ok: "sbm_ok (ed_O d)" using wf by (simp add: chunk_wf_def)
    then show thesis using canonical_columns_ok [OF ok] sbm_okD(5) [OF ok] that by fastforce
  qed
  define oc where "oc = (if oc0 = [] then replicate ?n [] else oc0)"
  have al: "sbm_cols (ed_O d) \<noteq> 0 \<Longrightarrow> sbm_cols (ed_O d) = ?n" using v n by (auto simp: ed_validate_iff)
  have oc: "length oc = ?n" "sum_list (map length oc) \<le> max_u32"
    "\<forall>c < ?n. strictly_sorted (oc ! c) \<and> set (oc ! c) = (if sbm_cols (ed_O d) = 0 then {} else odd_col (ed_O d) c)"
    using oc0 al by (cases "oc0 = []"; force simp: oc_def sum_list_replicate)+
  have shift: "map (\<lambda>r. u32 (sbm_rows (ed_H d) + r)) (oc ! j) = map (\<lambda>r. sbm_rows (ed_H d) + r) (oc ! j)" if "j < ?n" for j
  proof (rule map_cong [OF refl])
    fix r assume "r \<in> set (oc ! j)"
    then have "r < sbm_rows (ed_O d)" using oc(3) that by (auto simp: odd_col_def split: if_splits)
    then show "u32 (sbm_rows (ed_H d) + r) = sbm_rows (ed_H d) + r" using b by simp
  qed
  have flat: "rmap (\<lambda>j. rbind (vget hc j) (\<lambda>h. rbind (vget oc j) (\<lambda>ob. Inr (h @ map (\<lambda>r. u32 (sbm_rows (ed_H d) + r)) ob)))) [0..<?n]
      = Inr (map (\<lambda>j. hc ! j @ map (\<lambda>r. sbm_rows (ed_H d) + r) (oc ! j)) [0..<?n])"
    by (rule rmap_pure) (use hc(2) oc(1) shift in simp)
  show ?thesis
    unfolding dem_column_supports_new_def hc(1) oc0(1) n Let_def rbind_simps oc_def [symmetric] flat
    using hc oc by (auto simp: supports_of_def Let_def fault_col_def)
qed

lemma strictly_sorted_eq: "strictly_sorted xs \<Longrightarrow> strictly_sorted ys \<Longrightarrow> set xs = set ys \<Longrightarrow> xs = ys"
  using strict_sorted_equal by blast

lemma flat_eq_iff:
  assumes "supports_of d S" "i < length (ed_rates d)" "j < length (ed_rates d)"
  shows "flat_cols S ! i = flat_cols S ! j \<longleftrightarrow> fault_col d i = fault_col d j"
proof
  let ?N = "sbm_rows (ed_H d)"
  have f: "strictly_sorted (H_cols S ! j)" "strictly_sorted (O_cols S ! j)" "(set (H_cols S ! j), set (O_cols S ! j)) = fault_col d j"
    "flat_cols S ! j = H_cols S ! j @ map (\<lambda>r. ?N + r) (O_cols S ! j)" if "j < length (ed_rates d)" for j
    using assms(1) that by (auto simp: supports_of_def Let_def)
  {
    assume e: "flat_cols S ! i = flat_cols S ! j"
    have parts: "filter (\<lambda>r. r < ?N) (flat_cols S ! j) = H_cols S ! j" "filter (\<lambda>r. \<not> r < ?N) (flat_cols S ! j) = map (\<lambda>r. ?N + r) (O_cols S ! j)"
      if "j < length (ed_rates d)" for j
    proof -
      have "\<forall>r \<in> set (H_cols S ! j). r < ?N" using f(3) [OF that] by (auto simp: fault_col_def odd_col_def)
      then show "filter (\<lambda>r. r < ?N) (flat_cols S ! j) = H_cols S ! j" "filter (\<lambda>r. \<not> r < ?N) (flat_cols S ! j) = map (\<lambda>r. ?N + r) (O_cols S ! j)"
        using f(4) [OF that] by (simp_all add: filter_id_conv filter_empty_conv)
    qed
    have "H_cols S ! i = H_cols S ! j" "map (\<lambda>r. ?N + r) (O_cols S ! i) = map (\<lambda>r. ?N + r) (O_cols S ! j)"
      using parts [OF assms(2)] parts [OF assms(3)] e by auto
    then show "fault_col d i = fault_col d j"
      using f(3) [OF assms(2)] f(3) [OF assms(3)] by (auto dest!: map_injective [rotated] simp: inj_on_def)
  }
  assume "fault_col d i = fault_col d j"
  then have "set (H_cols S ! i) = set (H_cols S ! j)" "set (O_cols S ! i) = set (O_cols S ! j)"
    using f(3) [OF assms(2)] f(3) [OF assms(3)] by (metis prod.inject)+
  then have "H_cols S ! i = H_cols S ! j" "O_cols S ! i = O_cols S ! j"
    using f(1,2) [OF assms(2)] f(1,2) [OF assms(3)] strictly_sorted_eq by blast+
  then show "flat_cols S ! i = flat_cols S ! j" using f(4) [OF assms(2)] f(4) [OF assms(3)] by simp
qed

text \<open>The rows of a fault in increasing order, those of the observables after all detectors.\<close>

definition fault_support :: "extended_dem \<Rightarrow> nat \<Rightarrow> nat list" where
  "fault_support d j = sorted_list_of_set (fst (fault_col d j)) @
     map (\<lambda>r. sbm_rows (ed_H d) + r) (sorted_list_of_set (snd (fault_col d j)))"

lemma flat_support:
  assumes "supports_of d S" "j < length (ed_rates d)"
  shows "flat_cols S ! j = fault_support d j"
proof -
  have f: "strictly_sorted (H_cols S ! j)" "strictly_sorted (O_cols S ! j)" "(set (H_cols S ! j), set (O_cols S ! j)) = fault_col d j"
    "flat_cols S ! j = H_cols S ! j @ map (\<lambda>r. sbm_rows (ed_H d) + r) (O_cols S ! j)"
    using assms by (auto simp: supports_of_def Let_def)
  have "sorted_list_of_set (set xs) = xs" if "strictly_sorted xs" for xs
    using that by (simp add: sorted_list_of_set.idem_if_sorted_distinct strict_sorted_iff)
  then show ?thesis using f unfolding fault_support_def f(3) [symmetric] by simp
qed

section \<open>The merged chunk\<close>

definition merged_prior :: "prior_combine_mode \<Rightarrow> real list \<Rightarrow> real" where
  "merged_prior mode ps =
     (if mode = or_combine then (1 - (\<Prod>p\<leftarrow>ps. 1 - 2 * p)) / 2 else if length ps = 1 then hd ps else min 1 (sum_list ps))"

lemma merged_rate_group:
  assumes "\<exists>i<n. sups ! i = s"
  shows "merged_rate mode rates (group_of mode sups rates n s)
    = merged_prior mode (map ((!) rates) (filter (\<lambda>i. sups ! i = s) [0..<n]))"
proof -
  define js where "js = filter (\<lambda>i. sups ! i = s) [0..<n]"
  have ne: "js \<noteq> []" using assms by (auto simp: js_def filter_empty_conv)
  show ?thesis
  proof (cases "length js = 1")
    case True
    then obtain j where "js = [j]" by (cases js) auto
    then show ?thesis
      unfolding merged_rate_def group_of_def Let_def js_def [symmetric] merged_prior_def combined_def by simp
  next
    case False
    then show ?thesis
      unfolding merged_rate_def group_of_def Let_def js_def [symmetric] merged_prior_def combined_def by simp
  qed
qed

lemma sum_columns_le:
  assumes "distinct js" "set js \<subseteq> {..<length cols}"
  shows "sum_list (map (\<lambda>i. length (cols ! i)) js) \<le> sum_list (map length cols)"
proof -
  have "sum_list (map (\<lambda>i. length (cols ! i)) js) = (\<Sum>i\<in>set js. length (cols ! i))"
    by (rule sum_list_distinct_conv_sum_set [OF assms(1)])
  also have "\<dots> \<le> (\<Sum>i<length cols. length (cols ! i))" by (rule sum_mono2) (use assms(2) in auto)
  also have "\<dots> = sum_list (map length cols)" by (simp add: sum_list_sum_nth atLeast0LessThan)
  finally show ?thesis .
qed

text \<open>A matrix made of selected columns that are sets of rows.\<close>

lemma merge_select_columns:
  assumes cols: "\<forall>i \<in> set js. i < length cols \<and> strictly_sorted (cols ! i) \<and> set (cols ! i) \<subseteq> {..<nr}"
    and dist: "distinct js" and b: "length js < max_u32" "nr \<le> max_u32" "sum_list (map length cols) \<le> max_u32"
  shows "\<exists>m. from_nested_csc nr (length js) (map ((!) cols) js) = Inr m \<and> sbm_ok m \<and> sbm_rows m = nr \<and>
    sbm_cols m = length js \<and> (\<forall>k < length js. odd_col m k = set (cols ! (js ! k)))"
proof -
  have cnt: "count_list xs x = (if x \<in> set xs then 1 else 0)" if "strictly_sorted xs" for xs x
    using strictly_sorted_count [OF that, of x] count_list_0_iff [of xs x] by (cases "count_list xs x") auto
  have "cols_rep (map ((!) cols) js) nr (length js) (\<lambda>r k. if r \<in> set (cols ! (js ! k)) then 1 else 0)"
    using cols cnt by (auto simp: cols_rep_def)
  moreover have "nnz nr (length js) (\<lambda>r k. if r \<in> set (cols ! (js ! k)) then 1 else 0) \<le> max_u32"
    using cols_rep_length [OF calculation] sum_columns_le [OF dist, of cols] cols b(3) by (simp add: comp_def subset_iff)
  ultimately obtain m where m: "from_nested_csc nr (length js) (map ((!) cols) js) = Inr m"
    "rep m nr (length js) (\<lambda>r k. if r \<in> set (cols ! (js ! k)) then 1 else 0)"
    using from_csc_rep b(1,2) by blast
  have "odd_col m k = set (cols ! (js ! k))" if "k < length js" for k
  proof -
    have "set (cols ! (js ! k)) \<subseteq> {..<nr}" using cols that by simp
    then show ?thesis using repD(2) [OF m(2)] repD(4) [OF m(2) _ that] by (auto simp: odd_col_def split: if_splits)
  qed
  then show ?thesis using m repD(1-3) [OF m(2)] by blast
qed

lemma merge_ok:
  assumes wf: "chunk_wf d" and v: "ed_validate d = Inr ()" and b: "sbm_rows (ed_H d) + sbm_rows (ed_O d) \<le> max_u32"
    and n: "length (ed_rates d) < max_u32" and ne: "ed_rates d \<noteq> []"
  shows "\<exists>r js. dem_merge_duplicate_columns d mode = Inr r \<and> chunk_wf r \<and> ed_validate r = Inr () \<and>
    seams r = seams d \<and> tags r = tags d \<and> sbm_rows (ed_H r) = sbm_rows (ed_H d) \<and> sbm_rows (ed_O r) = sbm_rows (ed_O d) \<and>
    length (ed_rates r) = length js \<and> set js \<subseteq> {..<length (ed_rates d)} \<and> length js \<le> length (ed_rates d) \<and>
    (\<forall>k < length js. fault_col r k = fault_col d (js ! k)) \<and> inj_on (fault_col d) (set js) \<and> distinct js \<and>
    fault_col d ` set js = fault_col d ` {..<length (ed_rates d)} \<and> sorted_wrt ord_class.lexordp (map (fault_support d) js) \<and>
    (\<forall>k < length js. ed_rates r ! k = merged_prior mode (map ((!) (ed_rates d))
       (filter (\<lambda>j. fault_col d j = fault_col d (js ! k)) [0..<length (ed_rates d)])))"
proof -
  let ?n = "length (ed_rates d)"
  obtain S where S: "dem_column_supports_new d = Inr S" "supports_of d S" using supports_new [OF wf v b] by blast
  have Sf: "length (flat_cols S) = ?n" "length (H_cols S) = ?n" "length (O_cols S) = ?n"
    and Sc: "sum_list (map length (H_cols S)) \<le> max_u32" "sum_list (map length (O_cols S)) \<le> max_u32"
    and Sj: "\<And>j. j < ?n \<Longrightarrow> strictly_sorted (H_cols S ! j) \<and> strictly_sorted (O_cols S ! j) \<and>
         (set (H_cols S ! j), set (O_cols S ! j)) = fault_col d j"
    using S(2) by (auto simp: supports_of_def Let_def)
  define m where "m = fold (merge_step mode (flat_cols S) (ed_rates d)) [0..<?n] []"
  have D: "distinct (map fst m)" and M: "map_of m = (\<lambda>s. if s \<in> set (flat_cols S) then Some (group_of mode (flat_cols S) (ed_rates d) ?n s) else None)"
    using merge_fold [of ?n "flat_cols S" mode "ed_rates d"] Sf by (simp_all add: m_def)
  have grp: "snd kg = group_of mode (flat_cols S) (ed_rates d) ?n (fst kg) \<and> fst kg \<in> set (flat_cols S)" if "kg \<in> set m" for kg
    using map_of_is_SomeI [OF D, of "fst kg" "snd kg"] that M by (auto split: if_splits)
  define js where "js = map (\<lambda>kg. cg_representative (snd kg)) m"
  have pos: "cg_representative (snd kg) < ?n \<and> flat_cols S ! cg_representative (snd kg) = fst kg" if "kg \<in> set m" for kg
  proof -
    let ?js = "filter (\<lambda>i. flat_cols S ! i = fst kg) [0..<?n]"
    have "?js \<noteq> []" using grp [OF that] Sf(1) by (auto simp: filter_empty_conv in_set_conv_nth)
    then have "hd ?js \<in> set ?js" by (rule hd_in_set)
    then show ?thesis using grp [OF that] by (simp add: group_of_def Let_def)
  qed
  have keys: "map (\<lambda>i. flat_cols S ! i) js = map fst m" using pos by (auto simp: js_def)
  have lt: "i < ?n" if "i \<in> set js" for i using pos that by (auto simp: js_def)
  have sorted: "sorted_wrt ord_class.lexordp (map (fault_support d) js)"
  proof -
    have "map (fault_support d) js = map fst m" using flat_support [OF S(2)] lt unfolding keys [symmetric] by (intro map_cong) auto
    moreover have "sorted_wrt vec_less (map fst m)" unfolding m_def by (rule merge_fold_sorted)
    ultimately show ?thesis by (simp add: vec_less_def [abs_def])
  qed
  have dist: "distinct js" using D unfolding keys [symmetric] by (simp add: distinct_map)
  have inj: "inj_on (fault_col d) (set js)"
  proof (rule inj_onI)
    fix x y assume "x \<in> set js" "y \<in> set js" "fault_col d x = fault_col d y"
    then show "x = y" using flat_eq_iff [OF S(2) lt lt] D unfolding keys [symmetric] by (auto simp: distinct_map inj_on_def)
  qed
  have len: "length js \<le> ?n"
    using card_mono [of "{..<?n}" "set js"] lt distinct_card [OF dist] by auto
  have img: "fault_col d ` set js = fault_col d ` {..<?n}"
  proof
    show "fault_col d ` set js \<subseteq> fault_col d ` {..<?n}" using lt by auto
    show "fault_col d ` {..<?n} \<subseteq> fault_col d ` set js"
    proof
      fix x assume "x \<in> fault_col d ` {..<?n}"
      then obtain j where j: "j < ?n" "x = fault_col d j" by auto
      then have "flat_cols S ! j \<in> set (flat_cols S)" using Sf(1) by simp
      then have "map_of m (flat_cols S ! j) \<noteq> None" by (simp add: M)
      then have "flat_cols S ! j \<in> set (map fst m)" by (simp add: map_of_eq_None_iff)
      then obtain i where "i \<in> set js" "flat_cols S ! i = flat_cols S ! j" unfolding keys [symmetric] by auto
      then have "i \<in> set js" "x = fault_col d i" using flat_eq_iff [OF S(2) lt j(1)] j(2) by auto
      then show "x \<in> fault_col d ` set js" by blast
    qed
  qed
  have sets: "set (H_cols S ! i) \<subseteq> {..<sbm_rows (ed_H d)}" "set (O_cols S ! i) \<subseteq> {..<sbm_rows (ed_O d)}" if "i < ?n" for i
    using Sj [OF that] by (auto simp: fault_col_def odd_col_def split: if_splits)
  have lis: "length js < max_u32" "length m = length js" using len n by (auto simp: js_def)
  obtain H where H: "from_nested_csc (sbm_rows (ed_H d)) (length js) (map ((!) (H_cols S)) js) = Inr H" "sbm_ok H"
    "sbm_rows H = sbm_rows (ed_H d)" "sbm_cols H = length js" "\<forall>k < length js. odd_col H k = set (H_cols S ! (js ! k))"
    using merge_select_columns [of "js" "H_cols S" "sbm_rows (ed_H d)"] lt Sj Sf sets(1) dist lis Sc b by auto
  obtain OM where OM: "from_nested_csc (sbm_rows (ed_O d)) (length js) (map ((!) (O_cols S)) js) = Inr OM" "sbm_ok OM"
    "sbm_rows OM = sbm_rows (ed_O d)" "sbm_cols OM = length js" "\<forall>k < length js. odd_col OM k = set (O_cols S ! (js ! k))"
    using merge_select_columns [of "js" "O_cols S" "sbm_rows (ed_O d)"] lt Sj Sf sets(2) dist lis Sc b by auto
  define r where "r = \<lparr>ed_H = H, ed_O = OM, ed_rates = map (\<lambda>kg. merged_rate mode (ed_rates d) (snd kg)) m, seams = seams d, tags = tags d\<rparr>"
  have nf: "ed_num_faults d = ?n" using wf by (simp add: chunk_wf_def ed_num_faults_def)
  have maps: "map (\<lambda>kg. H_cols S ! cg_representative (snd kg)) m = map ((!) (H_cols S)) js"
    "map (\<lambda>kg. O_cols S ! cg_representative (snd kg)) m = map ((!) (O_cols S)) js" by (simp_all add: js_def)
  have res: "dem_merge_duplicate_columns d mode = Inr r"
    unfolding dem_merge_duplicate_columns_def v nf S(1) Let_def rbind_simps m_def [symmetric] maps ed_num_observables_def
    using ne lis H(1) OM(1) by (simp add: r_def)
  have isn: "js \<noteq> []" using img ne by (auto simp: lessThan_empty_iff bot_nat_def)
  have fc: "fault_col r k = fault_col d (js ! k)" if "k < length js" for k
  proof -
    have "(set (H_cols S ! (js ! k)), set (O_cols S ! (js ! k))) = fault_col d (js ! k)" using Sj lt that by simp
    moreover have "fault_col r k = (odd_col H k, odd_col OM k)" using isn by (simp add: fault_col_def r_def OM(4))
    ultimately show ?thesis using H(5) OM(5) that by simp
  qed
  have rate: "ed_rates r ! k = merged_prior mode (map ((!) (ed_rates d)) (filter (\<lambda>j. fault_col d j = fault_col d (js ! k)) [0..<?n]))"
    if k: "k < length js" for k
  proof -
    have km: "k < length m" using k lis(2) by simp
    then have mk: "m ! k \<in> set m" "js ! k = cg_representative (snd (m ! k))" by (simp_all add: js_def)
    have "ed_rates r ! k = merged_rate mode (ed_rates d) (group_of mode (flat_cols S) (ed_rates d) ?n (fst (m ! k)))"
      using km grp [OF mk(1)] by (simp add: r_def)
    also have "\<dots> = merged_prior mode (map ((!) (ed_rates d)) (filter (\<lambda>i. flat_cols S ! i = fst (m ! k)) [0..<?n]))"
      by (rule merged_rate_group) (use pos [OF mk(1)] in blast)
    also have "filter (\<lambda>i. flat_cols S ! i = fst (m ! k)) [0..<?n] = filter (\<lambda>j. fault_col d j = fault_col d (js ! k)) [0..<?n]"
      using flat_eq_iff [OF S(2) _ lt [OF nth_mem [OF k]]] pos [OF mk(1)] mk(2) by (intro filter_cong) auto
    finally show ?thesis .
  qed
  have "chunk_wf r" using wf H(2) OM(2) lis len n by (simp add: chunk_wf_def r_def)
  moreover have "ed_validate r = Inr ()"
    using v H(3,4) OM(3,4) lis
    by (simp add: ed_validate_iff r_def ed_num_faults_def ed_bands_def)
  moreover have "length (ed_rates r) = length js" using lis by (simp add: r_def)
  ultimately show ?thesis using res fc rate inj dist img sorted len H(3) OM(3) lt by (auto simp: r_def)
qed

lemma unique_iff:
  assumes "chunk_wf d" "ed_validate d = Inr ()" "sbm_rows (ed_H d) + sbm_rows (ed_O d) \<le> max_u32"
  shows "are_dem_columns_unique d = Inr (inj_on (fault_col d) {..<length (ed_rates d)})"
proof -
  obtain S where S: "dem_column_supports_new d = Inr S" "supports_of d S" using supports_new [OF assms] by blast
  have len: "length (flat_cols S) = length (ed_rates d)" using S(2) by (simp add: supports_of_def Let_def)
  have "distinct (flat_cols S) \<longleftrightarrow> inj_on (fault_col d) {..<length (ed_rates d)}"
    unfolding distinct_conv_nth inj_on_def len using flat_eq_iff [OF S(2)] by auto
  then show ?thesis using S(1) assms(2) by (simp add: are_dem_columns_unique_def)
qed

text \<open>
  C10: \<open>dem_merge_duplicate_columns\<close> keeps one column for every distinct fault, compared over GF(2) on the rows of
  \<open>H\<close> and \<open>O\<close>, and no other, in the lexicographic order of their rows (those of \<open>O\<close> counted after those of \<open>H\<close>); the
  result passes its own uniqueness check. Seams, tags and row counts stay. The rate of
  a merged column combines the rates of exactly the columns equal to it: with \<open>or_combine\<close> the probability that an odd
  number of independent faults occurs, with \<open>sum_combine\<close> their sum capped at one (a single column keeps its rate).
\<close>
theorem dem_merge_correct:
  assumes "chunk_wf d" "ed_validate d = Inr ()" "sbm_rows (ed_H d) + sbm_rows (ed_O d) \<le> max_u32" "length (ed_rates d) < max_u32"
  shows "\<exists>r. dem_merge_duplicate_columns d mode = Inr r \<and> are_dem_columns_unique r = Inr True \<and>
    seams r = seams d \<and> tags r = tags d \<and> sbm_rows (ed_H r) = sbm_rows (ed_H d) \<and> sbm_rows (ed_O r) = sbm_rows (ed_O d) \<and>
    inj_on (fault_col r) {..<length (ed_rates r)} \<and>
    fault_col r ` {..<length (ed_rates r)} = fault_col d ` {..<length (ed_rates d)} \<and>
    sorted_wrt ord_class.lexordp (map (fault_support r) [0..<length (ed_rates r)]) \<and>
    (\<forall>k < length (ed_rates r). ed_rates r ! k =
       merged_prior mode (map ((!) (ed_rates d)) (filter (\<lambda>j. fault_col d j = fault_col r k) [0..<length (ed_rates d)])))"
proof (cases "ed_rates d = []")
  case True
  then have "dem_merge_duplicate_columns d mode = Inr d"
    using assms(2) by (simp add: dem_merge_duplicate_columns_def ed_num_faults_def)
  then show ?thesis using unique_iff [OF assms(1-3)] True by simp
next
  case False
  obtain r js where r: "dem_merge_duplicate_columns d mode = Inr r" "chunk_wf r" "ed_validate r = Inr ()"
    "seams r = seams d" "tags r = tags d" "sbm_rows (ed_H r) = sbm_rows (ed_H d)" "sbm_rows (ed_O r) = sbm_rows (ed_O d)"
    "length (ed_rates r) = length js" and fc: "\<And>k. k < length js \<Longrightarrow> fault_col r k = fault_col d (js ! k)"
    and inj: "inj_on (fault_col d) (set js)" "distinct js"
    and img: "fault_col d ` set js = fault_col d ` {..<length (ed_rates d)}" "sorted_wrt ord_class.lexordp (map (fault_support d) js)"
    and rate: "\<And>k. k < length js \<Longrightarrow> ed_rates r ! k = merged_prior mode (map ((!) (ed_rates d))
       (filter (\<lambda>j. fault_col d j = fault_col d (js ! k)) [0..<length (ed_rates d)]))"
    using merge_ok [OF assms False, of mode] by blast
  have i: "inj_on (fault_col r) {..<length (ed_rates r)}"
  proof (rule inj_onI)
    fix x y assume xy: "x \<in> {..<length (ed_rates r)}" "y \<in> {..<length (ed_rates r)}" "fault_col r x = fault_col r y"
    then have "js ! x = js ! y" using inj_onD [OF inj(1)] by (simp add: fc r(8))
    then show "x = y" using xy inj(2) by (simp add: r(8) nth_eq_iff_index_eq)
  qed
  have "fault_col r ` {..<length (ed_rates r)} = fault_col d ` ((!) js ` {..<length js})"
    by (auto simp: r(8) fc image_image)
  also have "(!) js ` {..<length js} = set js" by (auto simp: in_set_conv_nth image_iff)
  finally have im: "fault_col r ` {..<length (ed_rates r)} = fault_col d ` set js" .
  have "map (fault_support r) [0..<length (ed_rates r)] = map (fault_support d) js"
    by (rule nth_equalityI) (simp_all add: r(6,8) fault_support_def fc)
  then show ?thesis using r i im img rate fc unique_iff [OF r(2,3)] assms(3) by auto
qed

definition demo_dup_chunk :: extended_dem where
  "demo_dup_chunk =
     bare_chunk \<lparr>sbm_layout = CSC, sbm_rows = 2, sbm_cols = 2, sbm_ptr = [0, 2, 4], sbm_idx = [0, 1, 1, 0]\<rparr>
       \<lparr>sbm_layout = CSC, sbm_rows = 1, sbm_cols = 2, sbm_ptr = [0, 1, 2], sbm_idx = [0, 0]\<rparr> [1 / 10, 1 / 5]"

theorem dem_merge_correct_witness:
  "\<exists>r. dem_merge_duplicate_columns demo_dup_chunk or_combine = Inr r \<and> are_dem_columns_unique r = Inr True \<and> ed_rates r = [13 / 50]"
proof -
  have wf: "chunk_wf demo_dup_chunk"
    by (simp add: chunk_wf_def demo_dup_chunk_def bare_chunk_def sbm_ok_def num_groups_def index_bound_def ptr_ok_def
        max_u32_def numeral_2_eq_2 less_Suc_eq)
  have v: "ed_validate demo_dup_chunk = Inr ()" by code_simp
  have b: "sbm_rows (ed_H demo_dup_chunk) + sbm_rows (ed_O demo_dup_chunk) \<le> max_u32" "length (ed_rates demo_dup_chunk) < max_u32"
    by (simp_all add: demo_dup_chunk_def bare_chunk_def max_u32_def)
  obtain r where r: "dem_merge_duplicate_columns demo_dup_chunk or_combine = Inr r" "are_dem_columns_unique r = Inr True"
    using dem_merge_correct [OF wf v b] by blast
  have "(case dem_merge_duplicate_columns demo_dup_chunk or_combine of Inl _ \<Rightarrow> [] | Inr r \<Rightarrow> ed_rates r) = [13 / 50]"
    by code_simp
  then show ?thesis using r by auto
qed

end
