(* ===== verification/QEC_Chunk_Spec.thy ===== *)
theory QEC_Chunk_Spec
  imports QEC_Chunks
begin

text \<open>
  Declarative chunk specifications (\<open>dem_chunk_spec\<close>, \<open>dem_chunks_spec\<close> of \<open>extended_dem.h\<close> and
  \<open>extended_dem.cpp\<close>), their expansion into chunks, and the measurement maps of \<open>dem_chunks_memory.cpp\<close>. Values of
  the type \<open>int64_t\<close> are integers, counts of the type \<open>uint64_t\<close> natural numbers; \<open>sz_sub\<close> is their wrapping
  subtraction. Context strings of messages are left out.
\<close>

section \<open>Index lists\<close>

text \<open>Rows separated by \<open>-1\<close>; a value becomes a 32-bit index by truncation.\<close>

definition to_index :: "int \<Rightarrow> nat" where
  "to_index v = nat (v mod 4294967296)"

fun split_rows :: "int list \<Rightarrow> nat list \<Rightarrow> nat list list \<times> nat list" where
  "split_rows [] current = ([], current)"
| "split_rows (v # vs) current =
     (if v = -1 then (case split_rows vs [] of (nested, rest) \<Rightarrow> (current # nested, rest))
      else split_rows vs (current @ [to_index v]))"

definition sparse_from_terminated_rows :: "int list \<Rightarrow> nat \<Rightarrow> sparse_binary_matrix res" where
  "sparse_from_terminated_rows rows num_faults =
     (case split_rows rows [] of (nested, current) \<Rightarrow>
        if current \<noteq> []
        then Inl (Invalid_argument ''sparse_from_terminated_rows: input did not end with -1 terminator'')
        else rbind (from_nested_csr (u32 (length nested)) (u32 num_faults) nested) (\<lambda>m. Inr (to_csc m)))"

fun check_index_list :: "nat \<Rightarrow> int list \<Rightarrow> int list \<Rightarrow> unit res" where
  "check_index_list n [] row_cols = Inr ()"
| "check_index_list n (v # vs) row_cols =
     (if v = -1 then check_index_list n vs []
      else if v < 0 \<or> n \<le> nat v then Inl (Invalid_argument ''index out of range'')
      else if v \<in> set row_cols then Inl (Invalid_argument ''duplicate column index in a row'')
      else check_index_list n vs (v # row_cols))"

definition validate_index_list :: "int list \<Rightarrow> nat \<Rightarrow> unit res" where
  "validate_index_list rows num_faults =
     (if rows = [] then Inr ()
      else if last rows \<noteq> -1 then Inl (Invalid_argument ''must end with a -1 row terminator'')
      else check_index_list num_faults rows [])"

definition count_rows :: "int list \<Rightarrow> nat" where
  "count_rows rows = count_list rows (-1)"

section \<open>One phase\<close>

record seam_spec_entry =
  sse_id :: seam_id
  sse_H_sparse :: "int list"
  sse_O_sparse :: "int list"

record dem_chunk_spec =
  cs_num_faults :: nat
  cs_H_sparse :: "int list"
  cs_seam_specs :: "seam_spec_entry list"
  cs_O_sparse :: "int list"
  cs_error_rates :: "real list"
  cs_D_sparse :: "int list"
  cs_num_measurements :: "nat option"
  cs_m2o_sparse :: "int list"

definition chunk_spec_is_empty :: "dem_chunk_spec \<Rightarrow> bool" where
  "chunk_spec_is_empty s \<longleftrightarrow> cs_num_faults s = 0 \<and> cs_H_sparse s = [] \<and> cs_seam_specs s = [] \<and> cs_O_sparse s = [] \<and>
     cs_error_rates s = [] \<and> cs_D_sparse s = [] \<and> cs_num_measurements s = None \<and> cs_m2o_sparse s = []"

definition expand :: "seam_id list \<Rightarrow> dem_chunk_spec \<Rightarrow> dem_chunk_spec" where
  "expand ids s =
     (if cs_seam_specs s \<noteq> [] \<or> cs_H_sparse s = [] then s
      else s\<lparr>cs_seam_specs := map (\<lambda>i. \<lparr>sse_id = i, sse_H_sparse = cs_H_sparse s, sse_O_sparse = []\<rparr>) ids, cs_H_sparse := []\<rparr>)"

definition validate_chunk_spec :: "dem_chunk_spec \<Rightarrow> unit res" where
  "validate_chunk_spec s =
     (if max_u32 < cs_num_faults s then Inl (Invalid_argument ''num_faults exceeds uint32_t max'')
      else if cs_H_sparse s \<noteq> [] \<and> cs_seam_specs s \<noteq> []
      then Inl (Invalid_argument ''H_sparse and seam_specs are mutually exclusive'')
      else if length (cs_error_rates s) \<noteq> cs_num_faults s
      then Inl (Invalid_argument ''error_rates does not have num_faults entries'')
      else if list_ex (\<lambda>p. \<not> (0 \<le> p \<and> p \<le> 1)) (cs_error_rates s)
      then Inl (Invalid_argument ''error_rates out of [0,1]'')
      else rbind (validate_index_list (cs_H_sparse s) (cs_num_faults s)) (\<lambda>_.
           rbind (validate_index_list (cs_O_sparse s) (cs_num_faults s)) (\<lambda>_.
           rbind (rfold (\<lambda>e _. rbind (validate_index_list (sse_H_sparse e) (cs_num_faults s)) (\<lambda>_.
                              validate_index_list (sse_O_sparse e) (cs_num_faults s))) (cs_seam_specs s) ()) (\<lambda>_.
           if list_ex (\<lambda>v. v < -1) (cs_D_sparse s) then Inl (Invalid_argument ''D_sparse value is below -1'')
           else if cs_D_sparse s \<noteq> [] \<and> last (cs_D_sparse s) \<noteq> -1
           then Inl (Invalid_argument ''D_sparse must end with a -1 terminator'')
           else validate_index_list (cs_m2o_sparse s) (2 ^ 64 - 1)))))"

text \<open>One seam of \<open>dem_chunk_from_spec\<close>: its rows go below those already there.\<close>

definition add_seam_rows ::
  "nat \<Rightarrow> seam_spec_entry \<Rightarrow> extended_dem \<times> nat \<Rightarrow> (extended_dem \<times> nat) res" where
  "add_seam_rows num_faults e st =
     (case st of (d, row_cursor) \<Rightarrow>
        rbind (sparse_from_terminated_rows (sse_H_sparse e) num_faults) (\<lambda>seam_H.
        let seam_rows = sbm_rows seam_H in
        rbind (if sbm_rows (ed_H d) = 0 \<and> sbm_cols (ed_H d) = 0
               then if 0 < seam_rows then Inr seam_H else zero_matrix 0 (u32 num_faults)
               else if 0 < seam_rows then vstack (ed_H d) seam_H else Inr (ed_H d)) (\<lambda>H.
        rbind (add_seam (sse_id e) row_cursor (u32 (row_cursor + seam_rows)) (d\<lparr>ed_H := H\<rparr>)) (\<lambda>d1.
          Inr (d1\<lparr>tags := tags d1 @ [0..<seam_rows]\<rparr>, u32 (row_cursor + seam_rows))))))"

definition dem_chunk_from_spec :: "dem_chunk_spec \<Rightarrow> seam_id list \<Rightarrow> extended_dem res" where
  "dem_chunk_from_spec spec seam_names =
     rbind (validate_chunk_spec spec) (\<lambda>_.
     let working = expand seam_names spec; n = cs_num_faults working in
     if list_ex (\<lambda>e. sse_O_sparse e \<noteq> []) (cs_seam_specs working)
     then Inl (Invalid_argument ''per-seam O_sparse is not yet supported; use chunk-level O_sparse instead'')
     else
       rbind (rfold (add_seam_rows n) (cs_seam_specs working)
                (\<lparr>ed_H = sbm_default, ed_O = sbm_default, ed_rates = cs_error_rates working, seams = [], tags = []\<rparr>, 0)) (\<lambda>(d, row_cursor).
       rbind (if row_cursor = 0 then zero_matrix 0 (u32 n) else Inr (ed_H d)) (\<lambda>H.
       rbind (sparse_from_terminated_rows (cs_O_sparse working) n) (\<lambda>OM.
         Inr (d\<lparr>ed_H := H, ed_O := OM\<rparr>)))))"

section \<open>Phases and connections\<close>

type_synonym phase_id = seam_id

record dem_chunks_spec =
  phases :: "(phase_id \<times> dem_chunk_spec) list"
  connections :: "(phase_id \<times> phase_id) list"
  from_seam :: seam_id
  to_seam :: seam_id
  num_rounds :: "nat option"
  measurements_per_round :: "nat option"
  phases_supply_D_sparse :: "bool option"
  observable_names :: "string list"

abbreviation is_self :: "phase_id \<times> phase_id \<Rightarrow> bool" where
  "is_self c \<equiv> fst c = snd c"

definition spec_is_empty :: "dem_chunks_spec \<Rightarrow> bool" where
  "spec_is_empty s \<longleftrightarrow> phases s = [] \<and> connections s = []"

definition has_readout :: "dem_chunks_spec \<Rightarrow> bool" where
  "has_readout s \<longleftrightarrow> list_ex (\<lambda>e. cs_m2o_sparse (snd e) \<noteq> []) (phases s)"

definition has_repeating_phase :: "dem_chunks_spec \<Rightarrow> bool" where
  "has_repeating_phase s \<longleftrightarrow> list_ex is_self (connections s)"

definition minimum_rounds :: "dem_chunks_spec \<Rightarrow> nat" where
  "minimum_rounds s = 1 + length (filter (\<lambda>c. \<not> is_self c) (connections s))"

definition repeating_phase :: "dem_chunks_spec \<Rightarrow> phase_id res" where
  "repeating_phase s =
     (case filter is_self (connections s) of
        [] \<Rightarrow> Inl (Invalid_argument ''dem_chunks_spec: no self-connected (repeating) phase'')
      | [c] \<Rightarrow> Inr (fst c)
      | _ \<Rightarrow> Inl (Invalid_argument ''dem_chunks_spec: more than one self-connected phase''))"

text \<open>
  The walk of \<open>phase_sequence\<close> along the successors; a phase that is reached twice ends it. Its loop runs at most
  once per phase that has a successor, plus once.
\<close>

function phase_walk ::
  "(phase_id \<Rightarrow> phase_id list) \<Rightarrow> (phase_id \<times> phase_id) list \<Rightarrow> phase_id list \<Rightarrow> phase_id \<Rightarrow> phase_id list res" where
  "phase_walk emit succs visited current =
     (if current \<in> set visited
      then Inl (Invalid_argument ''dem_chunks_spec::phase_sequence: connection graph is cyclic; phase is reachable twice'')
      else case map_of succs current of
          None \<Rightarrow> Inr (emit current)
        | Some n \<Rightarrow> rbind (phase_walk emit succs (current # visited) n) (\<lambda>rest. Inr (emit current @ rest)))"
  by pat_completeness auto
termination
proof (relation "measure (\<lambda>(emit, succs, visited, current). card (fst ` set succs - set visited))", simp)
  fix emit :: "phase_id \<Rightarrow> phase_id list" and succs :: "(phase_id \<times> phase_id) list" and visited :: "phase_id list"
    and current :: phase_id and n :: phase_id
  assume "current \<notin> set visited" "map_of succs current = Some n"
  then have "current \<in> fst ` set succs - set visited" by (auto dest!: map_of_SomeD intro: rev_image_eqI)
  moreover have "fst ` set succs - set (current # visited) = (fst ` set succs - set visited) - {current}" by auto
  ultimately have "card (fst ` set succs - set (current # visited)) < card (fst ` set succs - set visited)"
    by (simp only:) (rule card_Diff1_less, auto)
  then show "((emit, succs, current # visited, n), emit, succs, visited, current) \<in>
      measure (\<lambda>(emit, succs, visited, current). card (fst ` set succs - set visited))" by simp
qed

definition phase_sequence :: "dem_chunks_spec \<Rightarrow> phase_id list res" where
  "phase_sequence s =
     (if phases s = [] then Inl (Invalid_argument ''dem_chunks_spec::phase_sequence: no phases defined'')
      else if connections s = [] then Inl (Invalid_argument ''dem_chunks_spec::phase_sequence: no connections defined'')
      else let selfs = filter is_self (connections s); chain = filter (\<lambda>c. \<not> is_self c) (connections s) in
      if 1 < length selfs then Inl (Invalid_argument ''dem_chunks_spec::phase_sequence: multiple self-loops'')
      else let has_rep = (selfs \<noteq> []); rep_phase = (if has_rep then fst (hd selfs) else 0) in
      if has_rep \<and> num_rounds s = None
      then Inl (Invalid_argument ''dem_chunks_spec::phase_sequence: num_rounds required when a self-loop is present'')
      else if has_rep \<and> the (num_rounds s) < 2
      then Inl (Invalid_argument ''dem_chunks_spec::phase_sequence: num_rounds must be >= 2'')
      else if chain = [] then Inr (replicate (the (num_rounds s)) rep_phase)
      else let entry = (case find (\<lambda>c. fst c \<notin> snd ` set chain) chain of Some c \<Rightarrow> fst c | None \<Rightarrow> fst (hd chain));
               non_repeating = length chain + 1;
               rounds = (if has_rep then the (num_rounds s) else non_repeating) in
      if has_rep \<and> rounds < non_repeating
      then Inl (Invalid_argument ''dem_chunks_spec::phase_sequence: num_rounds too small for the non-repeating phases'')
      else let rep_count = (if has_rep then rounds - non_repeating else 0) in
      if \<not> distinct (map fst chain)
      then Inl (Invalid_argument ''dem_chunks_spec::phase_sequence: phase has multiple non-self outgoing edges'')
      else rbind (phase_walk (\<lambda>p. p # (if has_rep \<and> p = rep_phase then replicate rep_count rep_phase else [])) chain [] entry) (\<lambda>seq.
        if length seq \<noteq> rounds then Inl (Invalid_argument ''dem_chunks_spec::phase_sequence: computed length differs from the expected one'')
        else Inr seq))"

definition find_index :: "'a \<Rightarrow> 'a list \<Rightarrow> nat" where
  "find_index x xs = length (takeWhile (\<lambda>y. y \<noteq> x) xs)"

record repeating_span =
  rs_prefix :: nat
  rs_length :: nat
  rs_suffix :: nat

definition repeating_rounds :: "dem_chunks_spec \<Rightarrow> repeating_span res" where
  "repeating_rounds s =
     rbind (repeating_phase s) (\<lambda>rep.
     let shortest = (case num_rounds s of
           Some n \<Rightarrow> s\<lparr>num_rounds := Some (min n (max 2 (minimum_rounds s)))\<rparr> | None \<Rightarrow> s) in
     rbind (phase_sequence shortest) (\<lambda>sequence.
     case num_rounds s of
       None \<Rightarrow> Inl Undefined_behaviour
     | Some n \<Rightarrow>
         let prefix = find_index rep sequence; suffix = find_index rep (rev sequence)
         in Inr \<lparr>rs_prefix = prefix, rs_length = sz_sub (sz_sub n prefix) suffix, rs_suffix = suffix\<rparr>))"

record phase_layout =
  pl_prefix :: "phase_id list"
  pl_repeating :: phase_id
  pl_suffix :: "phase_id list"

definition layout :: "dem_chunks_spec \<Rightarrow> phase_layout res" where
  "layout s =
     rbind (repeating_phase s) (\<lambda>rep.
     rbind (phase_sequence (s\<lparr>num_rounds := Some (max 2 (minimum_rounds s))\<rparr>)) (\<lambda>sequence.
       Inr \<lparr>pl_prefix = take (find_index rep sequence) sequence, pl_repeating = rep,
            pl_suffix = drop (length sequence - find_index rep (rev sequence)) sequence\<rparr>))"

definition get_phase :: "dem_chunks_spec \<Rightarrow> phase_id \<Rightarrow> dem_chunk_spec res" where
  "get_phase s i = (case find (\<lambda>e. fst e = i) (phases s) of
     Some e \<Rightarrow> Inr (snd e) | None \<Rightarrow> Inl (Invalid_argument ''dem_chunks_spec::get_phase: phase not found''))"

section \<open>Validation of a specification\<close>

definition has_D_sparse :: "dem_chunks_spec \<Rightarrow> bool" where
  "has_D_sparse s = (case phases_supply_D_sparse s of
     Some b \<Rightarrow> b | None \<Rightarrow> list_ex (\<lambda>e. cs_D_sparse (snd e) \<noteq> []) (phases s))"

definition measurements_of :: "dem_chunks_spec \<Rightarrow> dem_chunk_spec \<Rightarrow> nat res" where
  "measurements_of s p =
     (case cs_num_measurements p of Some n \<Rightarrow> Inr n
      | None \<Rightarrow> (case measurements_per_round s of Some n \<Rightarrow> Inr n
          | None \<Rightarrow> Inl (Invalid_argument ''dem_chunks_spec: a phase has no measurement count (num_measurements / measurements_per_round)'')))"

definition detectors_of :: "dem_chunks_spec \<Rightarrow> dem_chunk_spec \<Rightarrow> nat res" where
  "detectors_of s p =
     rbind (dem_chunk_from_spec p [to_seam s, from_seam s]) (\<lambda>chunk.
     rbind (seam_rows_or_zero chunk (to_seam s)) (\<lambda>w. Inr (w + num_interior_rows chunk)))"

definition in_chain :: "dem_chunks_spec \<Rightarrow> phase_id \<Rightarrow> bool" where
  "in_chain s i \<longleftrightarrow> list_ex (\<lambda>c. fst c = i \<or> snd c = i) (connections s)"

definition spec_num_observables :: "dem_chunks_spec \<Rightarrow> nat res" where
  "spec_num_observables s =
     (case filter (\<lambda>e. in_chain s (fst e)) (phases s) of
        [] \<Rightarrow> Inr 0
      | first # es \<Rightarrow>
          if list_ex (\<lambda>e. count_rows (cs_O_sparse (snd e)) \<noteq> count_rows (cs_O_sparse (snd first))) es
          then Inl (Invalid_argument ''dem_chunks_spec: phases disagree on the number of observable rows (O_sparse)'')
          else Inr (count_rows (cs_O_sparse (snd first))))"

text \<open>\<open>marks[k]\<close> is set for every row \<open>k\<close> that has an entry; rows past the vector are ignored.\<close>

fun mark_rows :: "int list \<Rightarrow> nat \<Rightarrow> bool list \<Rightarrow> bool list" where
  "mark_rows [] row marks = marks"
| "mark_rows (v # vs) row marks =
     (if v = -1 then mark_rows vs (row + 1) marks
      else mark_rows vs row (if row < length marks then marks[row := True] else marks))"

definition note_readouts :: "dem_chunks_spec \<Rightarrow> phase_id list \<Rightarrow> nat \<Rightarrow> nat \<Rightarrow> nat option list \<Rightarrow> nat option list res" where
  "note_readouts s sequence k i lasts =
     rbind (get_phase s (sequence ! i)) (\<lambda>p.
       let marks = mark_rows (cs_m2o_sparse p) 0 (replicate k False)
       in Inr (map (\<lambda>q. if marks ! q then Some i else lasts ! q) [0..<k]))"

definition check_flips :: "dem_chunks_spec \<Rightarrow> phase_id list \<Rightarrow> nat \<Rightarrow> nat option list \<Rightarrow> nat \<Rightarrow> unit res" where
  "check_flips s sequence k lasts i =
     rbind (get_phase s (sequence ! i)) (\<lambda>p.
       let marks = fold (\<lambda>e m. mark_rows (sse_O_sparse e) 0 m) (cs_seam_specs p)
                     (mark_rows (cs_O_sparse p) 0 (replicate k False))
       in if list_ex (\<lambda>q. marks ! q \<and> lasts ! q \<noteq> None \<and> the (lasts ! q) < i) [0..<k]
          then Inl (Invalid_argument ''dem_chunks_spec: a phase flips an observable after its last readout; a fault cannot change a record already read'')
          else Inr ())"

definition validate_readout_order :: "dem_chunks_spec \<Rightarrow> phase_id list \<Rightarrow> unit res" where
  "validate_readout_order s sequence =
     rbind (spec_num_observables s) (\<lambda>k.
     rbind (rfold (note_readouts s sequence k) [0..<length sequence] (replicate k None)) (\<lambda>lasts.
       rfold (\<lambda>i _. check_flips s sequence k lasts i) [0..<length sequence] ()))"

definition check_readout :: "dem_chunks_spec \<Rightarrow> nat \<Rightarrow> phase_id \<times> dem_chunk_spec \<Rightarrow> unit res" where
  "check_readout s k e =
     (let m2o = cs_m2o_sparse (snd e) in
      if m2o = [] then Inr ()
      else if list_ex (\<lambda>c. is_self c \<and> fst c = fst e) (connections s)
      then Inl (Invalid_argument ''dem_chunks_spec: phase carries m2o_sparse, which a repeating phase may not'')
      else if count_rows m2o \<noteq> k
      then Inl (Invalid_argument ''dem_chunks_spec: phase has a wrong number of m2o_sparse rows'')
      else
        rbind (if has_D_sparse s
               then if cs_num_measurements (snd e) = None \<and> measurements_per_round s = None
                    then Inl (Invalid_argument ''dem_chunks_spec: phase carries m2o_sparse but neither it nor the spec sets a measurement count'')
                    else measurements_of s (snd e)
               else detectors_of s (snd e)) (\<lambda>width.
        let l = Max (set m2o) in
        if 0 \<le> l \<and> width \<le> nat l
        then Inl (Invalid_argument ''dem_chunks_spec: m2o_sparse reads a measurement past the measurements its round has'')
        else Inr ()))"

definition validate_observables :: "dem_chunks_spec \<Rightarrow> unit res" where
  "validate_observables s =
     rbind (spec_num_observables s) (\<lambda>k.
     if observable_names s \<noteq> [] \<and> length (observable_names s) \<noteq> k
     then Inl (Invalid_argument ''dem_chunks_spec: wrong number of observable_names'')
     else if \<not> distinct (observable_names s)
     then Inl (Invalid_argument ''dem_chunks_spec: observable_names repeats a name'')
     else
       rbind (if has_readout s then phase_sequence (s\<lparr>num_rounds := Some (max 2 (minimum_rounds s))\<rparr>) else Inr []) (\<lambda>sequence.
       rbind (rfold (\<lambda>e _. check_readout s k e) (phases s) ()) (\<lambda>_.
         validate_readout_order s sequence)))"

definition validate_spec :: "dem_chunks_spec \<Rightarrow> unit res" where
  "validate_spec s =
     (if spec_is_empty s then Inl (Invalid_argument ''dem_chunks_spec: no phases or connections'')
      else if connections s = [] then Inl (Invalid_argument ''dem_chunks_spec: connections must not be empty'')
      else if phases s = [] then Inl (Invalid_argument ''dem_chunks_spec: phases must not be empty'')
      else if num_rounds s \<noteq> None \<and> the (num_rounds s) < 2
      then Inl (Invalid_argument ''dem_chunks_spec: num_rounds must be >= 2'')
      else
        rbind (rfold (\<lambda>e _. validate_chunk_spec (snd e)) (phases s) ()) (\<lambda>_.
        if list_ex (\<lambda>c. fst c \<notin> fst ` set (phases s) \<or> snd c \<notin> fst ` set (phases s)) (connections s)
        then Inl (Invalid_argument ''dem_chunks_spec: a connection names a phase which has no spec'')
        else
          rbind (validate_observables s) (\<lambda>_.
          let mapped = length (filter (\<lambda>e. cs_D_sparse (snd e) \<noteq> []) (phases s)) in
          if phases_supply_D_sparse s = None \<and> mapped \<noteq> 0 \<and> mapped \<noteq> length (phases s)
          then Inl (Invalid_argument ''dem_chunks_spec: either every phase carries D_sparse or none does'')
          else if has_D_sparse s \<and> list_ex (\<lambda>e. cs_num_measurements (snd e) = None \<and> measurements_per_round s = None) (phases s)
          then Inl (Invalid_argument ''dem_chunks_spec: phase carries D_sparse but neither it nor the spec sets a measurement count'')
          else Inr ())))"

section \<open>Expansion\<close>

definition dem_chunks_from_spec :: "dem_chunks_spec \<Rightarrow> extended_dem list res" where
  "dem_chunks_from_spec s =
     rbind (validate_spec s) (\<lambda>_. rbind (phase_sequence s) (\<lambda>seq.
     rmap (\<lambda>i. rbind (get_phase s (seq ! i)) (\<lambda>p.
         dem_chunk_from_spec p (to_seam s # (if i + 1 < length seq then [from_seam s] else []))))
       [0..<length seq]))"

record compact_chain =
  cc_chunks :: "extended_dem list"
  cc_repeating :: nat
  cc_repeat_rounds :: nat

definition compact_chain_repeating_visits :: nat where
  "compact_chain_repeating_visits = 2"

definition repeated_copies :: "nat \<Rightarrow> nat" where
  "repeated_copies repeat_rounds = (if repeat_rounds < compact_chain_repeating_visits then repeat_rounds else compact_chain_repeating_visits)"

definition elided_rounds :: "compact_chain \<Rightarrow> nat" where
  "elided_rounds c = cc_repeat_rounds c - repeated_copies (cc_repeat_rounds c)"

definition dem_chunks_to_compact_chain :: "dem_chunks_spec \<Rightarrow> compact_chain res" where
  "dem_chunks_to_compact_chain s =
     (if has_repeating_phase s
      then rbind (repeating_rounds s) (\<lambda>run.
           rbind (dem_chunks_from_spec (s\<lparr>num_rounds := Some (rs_prefix run + repeated_copies (rs_length run) + rs_suffix run)\<rparr>)) (\<lambda>chunks.
             Inr \<lparr>cc_chunks = chunks, cc_repeating = rs_prefix run, cc_repeat_rounds = rs_length run\<rparr>))
      else rbind (dem_chunks_from_spec s) (\<lambda>chunks.
             Inr \<lparr>cc_chunks = chunks, cc_repeating = length chunks, cc_repeat_rounds = 1\<rparr>))"

definition spec_to_o_chunked :: "dem_chunks_spec \<Rightarrow> chunked_observable_map res" where
  "spec_to_o_chunked s =
     rbind (dem_chunks_to_compact_chain s) (\<lambda>c.
       dem_chunks_to_o_chunked (cc_chunks c) (cc_repeating c) (repeated_copies (cc_repeat_rounds c)) (cc_repeat_rounds c))"

record sparse_chunk_model =
  scm_detector_error_matrix :: sparse_binary_matrix
  scm_observable_rows :: "nat list list"
  scm_error_rates :: "real list"

definition sparse_dem_from_chunks :: "extended_dem list \<Rightarrow> seam_id \<Rightarrow> seam_id \<Rightarrow> bool \<Rightarrow> sparse_chunk_model res" where
  "sparse_dem_from_chunks chunks f t with_priors =
     rbind (dem_chunks_to_pcm chunks f t) (\<lambda>H. rbind (dem_chunks_to_o_sparse chunks) (\<lambda>obs.
       Inr \<lparr>scm_detector_error_matrix = H, scm_observable_rows = obs,
            scm_error_rates = (if with_priors then concat (map ed_rates chunks) else [])\<rparr>))"

section \<open>Measurement maps\<close>

text \<open>The row of detector \<open>k\<close> of round \<open>r\<close> under the memory convention.\<close>

definition memory_row :: "nat \<Rightarrow> nat \<Rightarrow> nat \<Rightarrow> nat list" where
  "memory_row d r k = (if r = 0 then [k] else [u32 ((r - 1) * d + k), u32 (r * d + k)])"

definition dem_chunks_to_d_sparse :: "extended_dem list \<Rightarrow> seam_id \<Rightarrow> seam_id \<Rightarrow> nat list list res" where
  "dem_chunks_to_d_sparse chunks f t =
     (if chunks = [] then Inl (Invalid_argument ''dem_chunks_to_d_sparse: dem_chunks must be non-empty'')
      else
        rbind (seam_rows_or_zero (chunks ! 0) t) (\<lambda>w. rbind (if w = 0 then seam_rows_or_zero (chunks ! 0) f else Inr w) (\<lambda>d.
        if d = 0 then Inl (Invalid_argument ''dem_chunks_to_d_sparse: chunk 0 has no seam rows on either side, so its rounds cannot be counted'')
        else rbind (dem_chunks_to_rounds chunks f t) (\<lambda>T.
          if 0 < T \<and> max_u32 < (T - 1) * d + (d - 1)
          then Inl (Runtime_error ''dem_chunks_to_d_sparse: measurement bit index exceeds uint32_t max'')
          else Inr (concat (map (\<lambda>r. map (memory_row d r) [0..<d]) [0..<T]))))))"

fun d_rows :: "nat \<Rightarrow> nat \<Rightarrow> nat \<Rightarrow> nat \<Rightarrow> int list \<Rightarrow> nat list \<Rightarrow> nat list list res" where
  "d_rows previous_start previous_count start cnt [] row = Inr []"
| "d_rows previous_start previous_count start cnt (v # vs) row =
     (if v = -1 then rbind (d_rows previous_start previous_count start cnt vs []) (\<lambda>rows. Inr (row # rows))
      else let index = nat v in
        if previous_count \<le> index \<and> cnt \<le> index - previous_count
        then Inl (Invalid_argument ''dem_chunks_to_d_sparse: D_sparse index exceeds the measurements it may name'')
        else let measurement = (if previous_count \<le> index then start + (index - previous_count) else previous_start + index) in
        if max_u32 < measurement then Inl (Runtime_error ''measurement index exceeds uint32_t max'')
        else d_rows previous_start previous_count start cnt vs (row @ [measurement]))"

text \<open>A later entry for the same phase replaces an earlier one.\<close>

definition detectors_per_phase :: "dem_chunks_spec \<Rightarrow> (phase_id \<rightharpoonup> nat) res" where
  "detectors_per_phase s = rfold (\<lambda>e m. rbind (detectors_of s (snd e)) (\<lambda>n. Inr (m(fst e \<mapsto> n)))) (phases s) Map.empty"

definition d_phase ::
  "dem_chunks_spec \<Rightarrow> (phase_id \<rightharpoonup> nat) \<Rightarrow> phase_id \<Rightarrow> nat list list \<times> nat \<times> nat \<times> nat \<Rightarrow> (nat list list \<times> nat \<times> nat \<times> nat) res" where
  "d_phase s dets i st =
     (case st of (d_sparse, previous_start, previous_count, start) \<Rightarrow>
        rbind (get_phase s i) (\<lambda>p. rbind (measurements_of s p) (\<lambda>cnt.
        rbind (case dets i of Some n \<Rightarrow> Inr n | None \<Rightarrow> Inl (Out_of_range ''map::at'')) (\<lambda>detectors.
        rbind (d_rows previous_start previous_count start cnt (cs_D_sparse p) []) (\<lambda>rows.
          if length rows \<noteq> detectors
          then Inl (Invalid_argument ''dem_chunks_to_d_sparse: D_sparse has a wrong number of rows for the chunk'')
          else Inr (d_sparse @ rows, start, cnt, start + cnt))))))"

definition spec_to_d_sparse :: "dem_chunks_spec \<Rightarrow> nat list list res" where
  "spec_to_d_sparse s =
     (if \<not> has_D_sparse s
      then
        rbind (dem_chunks_to_compact_chain s) (\<lambda>c.
        rbind (dem_chunks_to_d_sparse (cc_chunks c) (from_seam s) (to_seam s)) (\<lambda>rows.
        if elided_rounds c = 0 then Inr rows
        else
          rbind (seam_rows_or_zero (hd (cc_chunks c)) (to_seam s)) (\<lambda>w.
          rbind (if w = 0 then rbind (get_seam (hd (cc_chunks c)) (from_seam s)) (\<lambda>x. Inr (seam_num_rows x)) else Inr w) (\<lambda>width.
          rbind (dem_chunk_rounds (cc_chunks c ! cc_repeating c) (from_seam s) (to_seam s)) (\<lambda>rounds_per_bulk.
          let compact_rounds = length rows div width; max_rounds = (max_u32 + 1) div width in
          if rounds_per_bulk = 0 then Inr rows
          else if max_rounds < compact_rounds \<or> (max_rounds - compact_rounds) div rounds_per_bulk < elided_rounds c
          then Inl (Runtime_error ''dem_chunks_to_d_sparse: measurement bit index exceeds uint32_t max'')
          else
            let rounds = compact_rounds + elided_rounds c * rounds_per_bulk
            in Inr (take (rounds * width) rows @
                    concat (map (\<lambda>r. map (memory_row width r) [0..<width]) [compact_rounds..<rounds])))))))
      else
        rbind (validate_spec s) (\<lambda>_. rbind (phase_sequence s) (\<lambda>sequence.
        rbind (detectors_per_phase s) (\<lambda>dets.
        rbind (rfold (d_phase s dets) sequence ([], 0, 0, 0)) (\<lambda>(d_sparse, previous_start, previous_count, start).
          Inr d_sparse)))))"

definition dem_chunks_measurement_count :: "dem_chunks_spec \<Rightarrow> nat option res" where
  "dem_chunks_measurement_count s =
     (if \<not> has_D_sparse s then Inr None
      else rbind (phase_sequence s) (\<lambda>sequence.
        rfold (\<lambda>i total. case total of
            None \<Rightarrow> Inr None
          | Some n \<Rightarrow> rbind (get_phase s i) (\<lambda>p.
              if cs_num_measurements p = None \<and> measurements_per_round s = None then Inr None
              else rbind (measurements_of s p) (\<lambda>k. Inr (Some (n + k)))))
          sequence (Some 0)))"

end
