(* ===== verification/QEC_Chunk_Phases.thy ===== *)
theory QEC_Chunk_Phases
  imports QEC_Chunk_Spec "HOL-Library.Multiset" "HOL-Library.Code_Target_Nat"
begin

text \<open>
  The order of the phases of a chunk specification. \<open>dem_chunks_spec::phase_sequence\<close> succeeds exactly when the
  connections other than the self-connection are the edges of a simple path, and then returns that path with the
  repeating phase expanded in place. From this follow the position of the repeating rounds
  (\<open>repeating_rounds\<close>) and the relation between the compact chain and the full one.
\<close>

section \<open>Paths in a successor map\<close>

fun follows :: "('a \<rightharpoonup> 'a) \<Rightarrow> 'a list \<Rightarrow> bool" where
  "follows m [] = False"
| "follows m [x] = (m x = None)"
| "follows m (x # y # zs) = (m x = Some y \<and> follows m (y # zs))"

abbreviation edges :: "'a list \<Rightarrow> ('a \<times> 'a) list" where
  "edges R \<equiv> zip R (tl R)"

lemma follows_not_Nil: "follows m R \<Longrightarrow> R \<noteq> []"
  by auto

lemma fst_edges: "map fst (edges R) = butlast R"
  by (induction R rule: induct_list012) auto

lemma snd_edges: "map snd (edges R) = tl R"
  by (cases R) (auto simp: map_snd_zip_take)

lemma length_edges: "length (edges R) = length R - 1"
  by (cases R) auto

lemma phase_walk_sound:
  "phase_walk emit succs visited cur = Inr seq \<Longrightarrow>
     \<exists>R. follows (map_of succs) (cur # R) \<and> distinct (cur # R) \<and> set (cur # R) \<inter> set visited = {} \<and>
         seq = concat (map emit (cur # R))"
proof (induction emit succs visited cur arbitrary: seq rule: phase_walk.induct)
  case (1 emit succs visited cur)
  show ?case
  proof (cases "map_of succs cur")
    case None
    then have "follows (map_of succs) [cur] \<and> distinct [cur] \<and> set [cur] \<inter> set visited = {} \<and> seq = concat (map emit [cur])"
      using "1.prems" by (auto simp: phase_walk.simps[of emit succs visited cur] split: if_splits)
    then show ?thesis by blast
  next
    case (Some n)
    then obtain rest where new: "cur \<notin> set visited" and rest: "phase_walk emit succs (cur # visited) n = Inr rest"
      and seq: "seq = emit cur @ rest"
      using "1.prems" by (auto simp: phase_walk.simps[of emit succs visited cur] rbind_Inr_iff split: if_splits)
    from "1.IH"[OF new Some rest] obtain R where "follows (map_of succs) (n # R)" "distinct (n # R)"
      "set (n # R) \<inter> set (cur # visited) = {}" "rest = concat (map emit (n # R))" by blast
    then have "follows (map_of succs) (cur # n # R) \<and> distinct (cur # n # R) \<and> set (cur # n # R) \<inter> set visited = {} \<and>
        seq = concat (map emit (cur # n # R))"
      using new Some seq by auto
    then show ?thesis by blast
  qed
qed

lemma phase_walk_complete:
  "follows (map_of succs) (cur # R) \<Longrightarrow> distinct (cur # R) \<Longrightarrow> set (cur # R) \<inter> set visited = {} \<Longrightarrow>
     phase_walk emit succs visited cur = Inr (concat (map emit (cur # R)))"
proof (induction R arbitrary: cur visited)
  case Nil
  then show ?case by (simp add: phase_walk.simps[of emit succs visited cur])
next
  case (Cons n R)
  have "phase_walk emit succs (cur # visited) n = Inr (concat (map emit (n # R)))"
    by (rule Cons.IH) (use Cons.prems in auto)
  then show ?case using Cons.prems by (simp add: phase_walk.simps[of emit succs visited cur])
qed

lemma follows_edges: "follows m R \<Longrightarrow> (x, y) \<in> set (edges R) \<Longrightarrow> m x = Some y"
  by (induction m R rule: follows.induct) auto

lemma path_of_chain:
  assumes f: "follows (map_of chain) R" and d: "distinct R"
  shows "length R \<le> length chain + 1"
    and "length R = length chain + 1 \<Longrightarrow> distinct (map fst chain) \<Longrightarrow> mset (edges R) = mset chain"
proof -
  have sub: "set (edges R) \<subseteq> set chain" using follows_edges[OF f] map_of_SomeD by fastforce
  have de: "distinct (edges R)" using d by (rule distinct_zipI1)
  have le: "length (edges R) \<le> length chain"
    using card_mono[OF _ sub] distinct_card[OF de] card_length[of chain] by simp
  then show "length R \<le> length chain + 1" by (simp add: length_edges)
  assume l: "length R = length chain + 1" and "distinct (map fst chain)"
  then have dc: "distinct chain" by (simp add: distinct_map)
  have "set (edges R) = set chain"
    by (rule card_subset_eq[OF _ sub]) (use l in \<open>simp_all add: distinct_card[OF de] distinct_card[OF dc] length_edges\<close>)
  then show "mset (edges R) = mset chain" using de dc by (simp add: set_eq_iff_mset_eq_distinct)
qed

lemma chain_of_path:
  assumes m: "mset (edges R) = mset chain" and d: "distinct R" and ne: "R \<noteq> []"
  shows "distinct (map fst chain)" and "follows (map_of chain) R"
    and "fst ` set chain = set (butlast R)" and "snd ` set chain = set (tl R)" and "length R = length chain + 1"
proof -
  have s: "set chain = set (edges R)" using mset_eq_setD[OF m] by simp
  have "mset (map fst chain) = mset (butlast R)" using m by (metis fst_edges mset_map)
  then show df: "distinct (map fst chain)" using d by (metis distinct_butlast mset_eq_imp_distinct_iff)
  show f: "fst ` set chain = set (butlast R)" using s fst_edges[of R] by (metis list.set_map)
  show "snd ` set chain = set (tl R)" using s snd_edges[of R] by (metis list.set_map)
  show "length R = length chain + 1" using mset_eq_length[OF m] ne by (cases R) (simp_all add: length_edges)
  have l: "map_of chain (last R) = None"
    using d ne f by (subst map_of_eq_None_iff) (metis append_butlast_last_id distinct_append disjoint_insert(1) list.set(2))
  have e: "map_of chain x = Some y" if "(x, y) \<in> set (edges R)" for x y
    using that s df by simp
  have "\<forall>Q. Q \<noteq> [] \<and> last Q = last R \<and> set (edges Q) \<subseteq> set (edges R) \<longrightarrow> follows (map_of chain) Q"
  proof
    fix Q show "Q \<noteq> [] \<and> last Q = last R \<and> set (edges Q) \<subseteq> set (edges R) \<longrightarrow> follows (map_of chain) Q"
      by (induction Q rule: induct_list012) (auto simp: l e)
  qed
  then show "follows (map_of chain) R" using ne by blast
qed

lemma path_entry:
  assumes m: "mset (edges R) = mset chain" and d: "distinct R" and ne: "R \<noteq> []" and c: "chain \<noteq> []"
  shows "(case find (\<lambda>c. fst c \<notin> snd ` set chain) chain of Some c \<Rightarrow> fst c | None \<Rightarrow> fst (hd chain)) = hd R"
proof -
  note p = chain_of_path[OF m d ne]
  obtain x y zs where R: "R = x # y # zs" using p(5) c by (cases R; cases "tl R") auto
  have unique: "fst c = x" if "c \<in> set chain" "fst c \<notin> snd ` set chain" for c
  proof -
    have "fst c \<in> set (butlast R)" using that(1) p(3) by blast
    then have "fst c \<in> set R" by (rule in_set_butlastD)
    then show ?thesis using that(2) p(4) R by auto
  qed
  have "(x, y) \<in> set chain" using mset_eq_setD[OF m] R by auto
  moreover have "x \<notin> snd ` set chain" using p(4) d R by simp
  ultimately have "find (\<lambda>c. fst c \<notin> snd ` set chain) chain \<noteq> None" by (auto simp: find_None_iff)
  then obtain c where c: "find (\<lambda>c. fst c \<notin> snd ` set chain) chain = Some c" by blast
  then have "c \<in> set chain" "fst c \<notin> snd ` set chain" by (auto simp: find_Some_iff)
  then show ?thesis using c unique R by simp
qed

section \<open>The sequence of the phases\<close>

definition expand_repeats :: "'a \<Rightarrow> nat \<Rightarrow> 'a list \<Rightarrow> 'a list" where
  "expand_repeats p n R = concat (map (\<lambda>q. replicate (if q = p then n else 1) q) R)"

definition emit_phase :: "bool \<Rightarrow> 'a \<Rightarrow> nat \<Rightarrow> 'a \<Rightarrow> 'a list" where
  "emit_phase h rep k p = p # (if h \<and> p = rep then replicate k rep else [])"

lemma concat_emit:
  "concat (map (emit_phase True rep k) R) = expand_repeats rep (Suc k) R"
  "concat (map (emit_phase False rep k) R) = R"
  by (induction R) (auto simp: emit_phase_def expand_repeats_def)

lemma expand_repeats_1: "expand_repeats p (Suc 0) R = R"
  by (induction R) (auto simp: expand_repeats_def)

lemma expand_repeats_absent: "p \<notin> set R \<Longrightarrow> expand_repeats p n R = R"
  by (induction R) (auto simp: expand_repeats_def)

lemma expand_repeats_append [simp]: "expand_repeats p n (R @ Q) = expand_repeats p n R @ expand_repeats p n Q"
  by (simp add: expand_repeats_def)

lemma expand_repeats_Cons [simp]: "expand_repeats p n (p # Q) = replicate n p @ expand_repeats p n Q"
  by (simp add: expand_repeats_def)

lemma length_emit:
  "distinct R \<Longrightarrow> length (concat (map (emit_phase h rep k) R)) = length R + (if h \<and> rep \<in> set R then k else 0)"
  by (induction R) (auto simp: emit_phase_def)

lemma walk_iff:
  assumes c: "chain \<noteq> []"
  defines "entry \<equiv> (case find (\<lambda>c. fst c \<notin> snd ` set chain) chain of Some c \<Rightarrow> fst c | None \<Rightarrow> fst (hd chain))"
  shows "distinct (map fst chain) \<and> phase_walk (emit_phase h rep k) chain [] entry = Inr seq \<and> length seq = length chain + 1 + k \<longleftrightarrow>
     (\<exists>R. R \<noteq> [] \<and> distinct R \<and> mset (edges R) = mset chain \<and> (h \<and> rep \<in> set R \<or> k = 0) \<and>
          seq = concat (map (emit_phase h rep k) R))" (is "?L \<longleftrightarrow> ?R")
proof
  assume L: ?L
  then obtain Q where f: "follows (map_of chain) (entry # Q)" and d: "distinct (entry # Q)"
    and seq: "seq = concat (map (emit_phase h rep k) (entry # Q))"
    using phase_walk_sound by blast
  have len: "length (entry # Q) + (if h \<and> rep \<in> set (entry # Q) then k else 0) = length chain + 1 + k"
    using L length_emit[OF d, of h rep k] seq by metis
  have "length (entry # Q) = length chain + 1 \<and> (h \<and> rep \<in> set (entry # Q) \<or> k = 0)"
    using len path_of_chain(1)[OF f d] by (cases "h \<and> rep \<in> set (entry # Q)") auto
  then show ?R using path_of_chain(2)[OF f d] L d seq by (intro exI[of _ "entry # Q"]) simp
next
  assume ?R
  then obtain R where R: "R \<noteq> []" "distinct R" "mset (edges R) = mset chain" and k: "h \<and> rep \<in> set R \<or> k = 0"
    and seq: "seq = concat (map (emit_phase h rep k) R)" by blast
  note p = chain_of_path[OF R(3,2,1)]
  obtain Q where Q: "R = entry # Q" using path_entry[OF R(3,2,1) c] R(1) unfolding entry_def by (cases R) auto
  have "phase_walk (emit_phase h rep k) chain [] entry = Inr seq"
    using phase_walk_complete[of chain entry Q "[]" "emit_phase h rep k"] p(2) R(2) Q seq by simp
  moreover have "length seq = length chain + 1 + k"
    using length_emit[OF R(2), of h rep k] seq k p(5) by auto
  ultimately show ?L using p(1) by blast
qed

text \<open>
  What a phase sequence is: a simple path through the phases whose edges are the connections between different
  phases, with the phase of the self-connection, if there is one, repeated so that the sequence has
  \<open>num_rounds\<close> rounds. A self-connection of a phase that is not on the path is only possible when nothing has to
  be repeated.
\<close>

definition is_phase_sequence :: "dem_chunks_spec \<Rightarrow> phase_id list \<Rightarrow> bool" where
  "is_phase_sequence s seq \<longleftrightarrow>
     (\<exists>R. R \<noteq> [] \<and> distinct R \<and> mset (edges R) = mset (filter (\<lambda>c. \<not> is_self c) (connections s)) \<and>
       (case filter is_self (connections s) of
          [] \<Rightarrow> seq = R
        | [c] \<Rightarrow> (\<exists>n. num_rounds s = Some n \<and> 2 \<le> n \<and> length R \<le> n \<and> (fst c \<in> set R \<or> n = length R) \<and>
                      seq = expand_repeats (fst c) (Suc n - length R) R)
        | _ \<Rightarrow> False))"

lemma edges_Nil_iff: "mset (edges R) = mset [] \<and> R \<noteq> [] \<longleftrightarrow> (\<exists>p. R = [p])"
  by (cases R; cases "tl R") auto

lemma phase_sequence_unfold:
  "phase_sequence s =
     (if phases s = [] then Inl (Invalid_argument ''dem_chunks_spec::phase_sequence: no phases defined'')
      else if connections s = [] then Inl (Invalid_argument ''dem_chunks_spec::phase_sequence: no connections defined'')
      else let selfs = filter is_self (connections s); chain = filter (\<lambda>c. \<not> is_self c) (connections s) in
      if 1 < length selfs then Inl (Invalid_argument ''dem_chunks_spec::phase_sequence: multiple self-loops'')
      else let has_rep = (selfs \<noteq> []); rep_phase = (if has_rep then fst (hd selfs) else 0) in
      if has_rep \<and> num_rounds s = None
      then Inl (Invalid_argument ''dem_chunks_spec::phase_sequence: num_rounds required when a self-loop is present'')
      else if has_rep \<and> the (num_rounds s) < 2
      then Inl (Invalid_argument ''dem_chunks_spec::phase_sequence: num_rounds must be >= 2'')
      else if chain = [] then Inr (replicate (the (num_rounds s)) rep_phase)
      else let entry = (case find (\<lambda>c. fst c \<notin> snd ` set chain) chain of Some c \<Rightarrow> fst c | None \<Rightarrow> fst (hd chain));
               non_repeating = length chain + 1;
               rounds = (if has_rep then the (num_rounds s) else non_repeating) in
      if has_rep \<and> rounds < non_repeating
      then Inl (Invalid_argument ''dem_chunks_spec::phase_sequence: num_rounds too small for the non-repeating phases'')
      else let rep_count = (if has_rep then rounds - non_repeating else 0) in
      if \<not> distinct (map fst chain)
      then Inl (Invalid_argument ''dem_chunks_spec::phase_sequence: phase has multiple non-self outgoing edges'')
      else rbind (phase_walk (emit_phase has_rep rep_phase rep_count) chain [] entry) (\<lambda>seq.
        if length seq \<noteq> rounds then Inl (Invalid_argument ''dem_chunks_spec::phase_sequence: computed length differs from the expected one'')
        else Inr seq))"
  unfolding phase_sequence_def emit_phase_def Let_def by (rule refl)

lemma phase_sequence_one_self:
  assumes selfs: "filter is_self (connections s) = [c]" and ne: "phases s \<noteq> []" "connections s \<noteq> []"
    and n: "num_rounds s = Some n" "2 \<le> n"
  defines "chain \<equiv> filter (\<lambda>c. \<not> is_self c) (connections s)"
  shows "phase_sequence s = Inr seq \<longleftrightarrow>
     (\<exists>R. R \<noteq> [] \<and> distinct R \<and> mset (edges R) = mset chain \<and> length R \<le> n \<and> (fst c \<in> set R \<or> n = length R) \<and>
        seq = expand_repeats (fst c) (Suc n - length R) R)" (is "_ \<longleftrightarrow> (\<exists>R. ?P R)")
proof (cases "chain = []")
  case True
  have "phase_sequence s = Inr (replicate n (fst c))"
    using selfs ne n True unfolding phase_sequence_unfold chain_def by simp
  moreover have "?P R \<longleftrightarrow> R = [fst c] \<and> seq = replicate n (fst c)" for R
    using n True edges_Nil_iff[of R] by (auto simp: expand_repeats_def)
  ultimately show ?thesis by auto
next
  case False
  define k where "k = n - (length chain + 1)"
  have len: "length R = length chain + 1" if "R \<noteq> []" "distinct R" "mset (edges R) = mset chain" for R
    using chain_of_path(5) that by blast
  show ?thesis
  proof (cases "n < length chain + 1")
    case True
    then have "\<nexists>x. phase_sequence s = Inr x"
      using selfs ne n False unfolding phase_sequence_unfold chain_def by (simp add: Let_def)
    moreover have "\<not> ?P R" for R using True len[of R] by linarith
    ultimately show ?thesis by auto
  next
    case le: False
    then have nk: "n = length chain + 1 + k" by (simp add: k_def)
    have "phase_sequence s = Inr seq \<longleftrightarrow>
        (\<exists>R. R \<noteq> [] \<and> distinct R \<and> mset (edges R) = mset chain \<and> (True \<and> fst c \<in> set R \<or> k = 0) \<and>
             seq = concat (map (emit_phase True (fst c) k) R))"
      unfolding walk_iff[OF False, of True "fst c" k seq, symmetric]
      using selfs ne n False nk unfolding phase_sequence_unfold chain_def[symmetric]
      by (auto simp: rbind_Inr_iff Let_def split: if_splits)
    also have "\<dots> \<longleftrightarrow> (\<exists>R. ?P R)"
      by (rule ex_cong) (use len nk in \<open>auto simp: concat_emit\<close>)
    finally show ?thesis .
  qed
qed

lemma phase_sequence_iff:
  "phase_sequence s = Inr seq \<longleftrightarrow> phases s \<noteq> [] \<and> connections s \<noteq> [] \<and> is_phase_sequence s seq"
proof (cases "phases s = [] \<or> connections s = []")
  case True
  then show ?thesis by (auto simp: phase_sequence_def)
next
  case False
  then have ne: "phases s \<noteq> []" "connections s \<noteq> []" by auto
  define chain where "chain = filter (\<lambda>c. \<not> is_self c) (connections s)"
  define selfs where "selfs = filter is_self (connections s)"
  consider "selfs = []" | c where "selfs = [c]" | c d cs where "selfs = c # d # cs"
    by (metis list.exhaust)
  then show ?thesis
  proof cases
    case 1
    then have c: "chain \<noteq> []" using ne(2) unfolding chain_def selfs_def by (cases "connections s") (auto split: if_splits)
    have "phase_sequence s = Inr seq \<longleftrightarrow> (\<exists>R. R \<noteq> [] \<and> distinct R \<and> mset (edges R) = mset chain \<and> seq = R)"
      using walk_iff[OF c, of False 0 0 seq] ne 1 c
      unfolding phase_sequence_unfold chain_def[symmetric] selfs_def[symmetric]
      by (simp add: concat_emit rbind_Inr_iff Let_def) (auto simp: conj_ac split: if_splits)
    then show ?thesis using ne 1 unfolding is_phase_sequence_def chain_def selfs_def by simp
  next
    case (2 c)
    have spec: "is_phase_sequence s seq \<longleftrightarrow> (\<exists>n. num_rounds s = Some n \<and> 2 \<le> n \<and>
        (\<exists>R. R \<noteq> [] \<and> distinct R \<and> mset (edges R) = mset chain \<and> length R \<le> n \<and> (fst c \<in> set R \<or> n = length R) \<and>
             seq = expand_repeats (fst c) (Suc n - length R) R))"
      using 2 unfolding is_phase_sequence_def chain_def selfs_def by auto
    show ?thesis
    proof (cases "\<exists>n. num_rounds s = Some n \<and> 2 \<le> n")
      case False
      then have "\<nexists>x. phase_sequence s = Inr x"
        using 2 ne unfolding phase_sequence_unfold selfs_def by (cases "num_rounds s") auto
      then show ?thesis using False spec by auto
    next
      case True
      then obtain n where n: "num_rounds s = Some n" "2 \<le> n" by blast
      have "phase_sequence s = Inr seq \<longleftrightarrow>
          (\<exists>R. R \<noteq> [] \<and> distinct R \<and> mset (edges R) = mset chain \<and> length R \<le> n \<and> (fst c \<in> set R \<or> n = length R) \<and>
             seq = expand_repeats (fst c) (Suc n - length R) R)"
        using 2 ne n unfolding chain_def selfs_def by (rule phase_sequence_one_self)
      then show ?thesis using spec n ne by simp
    qed
  next
    case (3 c d cs)
    then show ?thesis using ne unfolding is_phase_sequence_def phase_sequence_unfold selfs_def by simp
  qed
qed

section \<open>The repeating rounds\<close>

text \<open>The phase of a self-connection is on the chain of the other connections, or there are no other connections.\<close>

definition self_on_chain :: "dem_chunks_spec \<Rightarrow> bool" where
  "self_on_chain s \<longleftrightarrow>
     (let chain = filter (\<lambda>c. \<not> is_self c) (connections s)
      in list_all (\<lambda>c. chain = [] \<or> fst c \<in> set (map fst chain @ map snd chain)) (filter is_self (connections s)))"

lemma self_on_path:
  assumes on: "self_on_chain s" and selfs: "filter is_self (connections s) = [c]"
    and R: "R \<noteq> []" "distinct R" "mset (edges R) = mset (filter (\<lambda>c. \<not> is_self c) (connections s))"
    and p: "fst c \<in> set R \<or> n = length R" and n: "2 \<le> n"
  shows "fst c \<in> set R"
proof (cases "filter (\<lambda>c. \<not> is_self c) (connections s) = []")
  case True
  then have "\<exists>p. R = [p]" using R(1,3) by (simp only: edges_Nil_iff[symmetric]) simp
  then show ?thesis using p n by auto
next
  case False
  have "fst c \<in> set (butlast R) \<union> set (tl R)"
    using on selfs False chain_of_path(3,4)[OF R(3,2,1)] by (simp add: self_on_chain_def)
  then show ?thesis using in_set_butlastD[of "fst c" R] list.set_sel(2)[of R] R(1) by blast
qed

lemma minimum_rounds_path:
  assumes "R \<noteq> []" "distinct R" "mset (edges R) = mset (filter (\<lambda>c. \<not> is_self c) (connections s))"
  shows "minimum_rounds s = length R"
  using chain_of_path(5)[OF assms(3,2,1)] by (simp add: minimum_rounds_def)

lemma repeating_rounds_split:
  assumes seq: "phase_sequence s = Inr seq" and on: "self_on_chain s"
    and selfs: "filter is_self (connections s) = [c]" and n: "num_rounds s = Some n"
  obtains P Q where "fst c \<notin> set P" "fst c \<notin> set Q" "seq = P @ replicate (n - length P - length Q) (fst c) @ Q"
    "minimum_rounds s = length P + length Q + 1" "minimum_rounds s \<le> n" "2 \<le> n"
    "\<And>m. 2 \<le> m \<Longrightarrow> minimum_rounds s \<le> m \<Longrightarrow>
        phase_sequence (s\<lparr>num_rounds := Some m\<rparr>) = Inr (P @ replicate (m - length P - length Q) (fst c) @ Q)"
proof -
  have ne: "phases s \<noteq> []" "connections s \<noteq> []" and "is_phase_sequence s seq" using seq phase_sequence_iff by blast+
  then obtain R where R: "R \<noteq> []" "distinct R" "mset (edges R) = mset (filter (\<lambda>c. \<not> is_self c) (connections s))"
    and n2: "2 \<le> n" "length R \<le> n" and p: "fst c \<in> set R \<or> n = length R"
    and sR: "seq = expand_repeats (fst c) (Suc n - length R) R"
    using selfs n unfolding is_phase_sequence_def by auto
  have inR: "fst c \<in> set R" using self_on_path[OF on selfs R p n2(1)] .
  then obtain P Q where PQ: "R = P @ fst c # Q" by (auto simp: in_set_conv_decomp)
  have out: "fst c \<notin> set P" "fst c \<notin> set Q" using R(2) PQ by auto
  have expand: "expand_repeats (fst c) (Suc m - length R) R = P @ replicate (m - length P - length Q) (fst c) @ Q" for m
    using out by (simp add: PQ expand_repeats_absent)
  have mr: "minimum_rounds s = length R" using minimum_rounds_path[OF R] .
  have other: "phase_sequence (s\<lparr>num_rounds := Some m\<rparr>) = Inr (P @ replicate (m - length P - length Q) (fst c) @ Q)"
    if "2 \<le> m" "minimum_rounds s \<le> m" for m
    unfolding expand[symmetric] phase_sequence_iff is_phase_sequence_def
    using that ne selfs R inR mr by (auto intro!: exI[of _ R])
  show ?thesis
    by (rule that[OF out _ _ _ n2(1) other]) (use sR expand mr n2 PQ in auto)
qed

lemma find_index_append [simp]: "x \<notin> set P \<Longrightarrow> find_index x (P @ x # Q) = length P"
  unfolding find_index_def by (subst takeWhile_append2) auto

lemma find_index_replicate: "x \<notin> set P \<Longrightarrow> 0 < k \<Longrightarrow> find_index x (P @ replicate k x @ Q) = length P"
  using find_index_append[of x P "replicate (k - 1) x @ Q"] by (cases k) auto

lemma self_on_chain_rounds [simp]: "self_on_chain (s\<lparr>num_rounds := r\<rparr>) = self_on_chain s"
  by (simp add: self_on_chain_def)

lemma minimum_rounds_rounds [simp]: "minimum_rounds (s\<lparr>num_rounds := r\<rparr>) = minimum_rounds s"
  by (simp add: minimum_rounds_def)

lemma repeating_rounds_exact:
  assumes on: "self_on_chain s" and selfs: "filter is_self (connections s) = [c]" and n: "num_rounds s = Some n"
  shows "repeating_rounds s = Inr r \<longleftrightarrow>
     (\<exists>P Q. phase_sequence s = Inr (P @ replicate (rs_length r) (fst c) @ Q) \<and> fst c \<notin> set P \<and> fst c \<notin> set Q \<and>
            rs_prefix r = length P \<and> rs_suffix r = length Q \<and> 0 < rs_length r)" (is "_ \<longleftrightarrow> ?R")
proof -
  define m where "m = min n (max 2 (minimum_rounds s))"
  have rep: "repeating_phase s = Inr (fst c)" using selfs by (simp add: repeating_phase_def)
  have unf: "repeating_rounds s = rbind (phase_sequence (s\<lparr>num_rounds := Some m\<rparr>)) (\<lambda>sequence.
      let prefix = find_index (fst c) sequence; suffix = find_index (fst c) (rev sequence)
      in Inr \<lparr>rs_prefix = prefix, rs_length = sz_sub (sz_sub n prefix) suffix, rs_suffix = suffix\<rparr>)"
    by (simp add: repeating_rounds_def rep n m_def)
  have val: "repeating_rounds s = Inr \<lparr>rs_prefix = length P, rs_length = n - length P - length Q, rs_suffix = length Q\<rparr>"
    if "phase_sequence (s\<lparr>num_rounds := Some m\<rparr>) = Inr (P @ replicate (m - length P - length Q) (fst c) @ Q)"
      "fst c \<notin> set P" "fst c \<notin> set Q" "minimum_rounds s = length P + length Q + 1" "minimum_rounds s \<le> n" for P Q
  proof -
    have k: "0 < m - length P - length Q" using that(4,5) by (auto simp: m_def)
    have "find_index (fst c) (rev (P @ replicate (m - length P - length Q) (fst c) @ Q)) = length Q"
      using find_index_replicate[of "fst c" "rev Q" _ "rev P"] k that(3) by simp
    moreover note find_index_replicate[OF that(2) k, of Q]
    ultimately show ?thesis using that(4,5) by (simp add: unf that(1) Let_def)
  qed
  show ?thesis
  proof
    assume r: "repeating_rounds s = Inr r"
    then obtain seq0 where s0: "phase_sequence (s\<lparr>num_rounds := Some m\<rparr>) = Inr seq0"
      unfolding unf by (auto simp: rbind_Inr_iff)
    obtain P Q where PQ: "fst c \<notin> set P" "fst c \<notin> set Q" "seq0 = P @ replicate (m - length P - length Q) (fst c) @ Q"
      "minimum_rounds s = length P + length Q + 1" "minimum_rounds s \<le> m" "2 \<le> m"
      and other: "\<And>k. 2 \<le> k \<Longrightarrow> minimum_rounds s \<le> k \<Longrightarrow>
        phase_sequence (s\<lparr>num_rounds := Some k\<rparr>) = Inr (P @ replicate (k - length P - length Q) (fst c) @ Q)"
      using repeating_rounds_split[OF s0, of c m] on selfs by auto
    have mn: "m \<le> n" by (simp add: m_def)
    have "s\<lparr>num_rounds := Some n\<rparr> = s" using n by simp
    then have "phase_sequence s = Inr (P @ replicate (n - length P - length Q) (fst c) @ Q)"
      using other[of n] PQ(5,6) mn by simp
    moreover have "r = \<lparr>rs_prefix = length P, rs_length = n - length P - length Q, rs_suffix = length Q\<rparr>"
      using val[of P Q] s0 PQ mn r by simp
    ultimately show ?R using PQ mn by auto
  next
    assume ?R
    then obtain P Q where s1: "phase_sequence s = Inr (P @ replicate (rs_length r) (fst c) @ Q)"
      and PQ: "fst c \<notin> set P" "fst c \<notin> set Q" "rs_prefix r = length P" "rs_suffix r = length Q" "0 < rs_length r" by blast
    obtain P' Q' where PQ': "fst c \<notin> set P'" "fst c \<notin> set Q'"
      "P @ replicate (rs_length r) (fst c) @ Q = P' @ replicate (n - length P' - length Q') (fst c) @ Q'"
      "minimum_rounds s = length P' + length Q' + 1" "minimum_rounds s \<le> n" "2 \<le> n"
      and other: "\<And>k. 2 \<le> k \<Longrightarrow> minimum_rounds s \<le> k \<Longrightarrow>
        phase_sequence (s\<lparr>num_rounds := Some k\<rparr>) = Inr (P' @ replicate (k - length P' - length Q') (fst c) @ Q')"
      using repeating_rounds_split[OF s1 on selfs n] by auto
    have k: "0 < n - length P' - length Q'" using PQ'(4,5) by simp
    have lP: "length P = length P'"
      using find_index_replicate[OF PQ(1,5), of Q] find_index_replicate[OF PQ'(1) k, of Q'] PQ'(3) by simp
    have "find_index (fst c) (rev Q @ replicate (rs_length r) (fst c) @ rev P) = length Q"
      using find_index_replicate[of "fst c" "rev Q" _ "rev P"] PQ by simp
    moreover have "find_index (fst c) (rev Q' @ replicate (n - length P' - length Q') (fst c) @ rev P') = length Q'"
      using find_index_replicate[of "fst c" "rev Q'" _ "rev P'"] PQ'(2) k by simp
    ultimately have lQ: "length Q = length Q'" using arg_cong[OF PQ'(3), of rev] by simp
    have lr: "rs_length r = n - length P' - length Q'" using arg_cong[OF PQ'(3), of length] lP lQ by simp
    have "2 \<le> m" "minimum_rounds s \<le> m" using PQ'(5,6) by (auto simp: m_def)
    then show "repeating_rounds s = Inr r"
      using val[OF other PQ'(1,2,4,5)] lP lQ lr PQ(3,4) by simp
  qed
qed

section \<open>Properties\<close>

text \<open>A specification of three phases, the middle one repeating, for a given number of rounds.\<close>

definition plain_chunk_spec :: dem_chunk_spec where
  "plain_chunk_spec = \<lparr>cs_num_faults = 2, cs_H_sparse = [0, -1, 0, 1, -1], cs_seam_specs = [], cs_O_sparse = [1, -1],
     cs_error_rates = [1/100, 1/50], cs_D_sparse = [], cs_num_measurements = None, cs_m2o_sparse = []\<rparr>"

definition three_phases :: "nat \<Rightarrow> dem_chunks_spec" where
  "three_phases n = \<lparr>phases = [(1, plain_chunk_spec), (2, plain_chunk_spec), (3, plain_chunk_spec)],
     connections = [(2, 3), (2, 2), (1, 2)], from_seam = 7, to_seam = 8, num_rounds = Some n,
     measurements_per_round = None, phases_supply_D_sparse = None, observable_names = []\<rparr>"

lemma three_phases_sequence: "phase_sequence (three_phases 5) = Inr [1, 2, 2, 2, 3]"
  by code_simp

text \<open>
  C16: \<open>phase_sequence\<close> succeeds exactly when there are phases and connections, at most one connection is a
  self-connection, and the others are, in some order, the consecutive pairs of a list of distinct phases; it then
  returns that list, with the self-connected phase repeated so that the sequence has \<open>num_rounds\<close> entries. When the
  self-connected phase is on the chain, \<open>repeating_rounds\<close> succeeds exactly when \<open>phase_sequence\<close> does and reports
  the numbers of rounds before, of and after the repeating phase.
\<close>

theorem phase_sequence_exact:
  "(phase_sequence s = Inr seq \<longleftrightarrow> phases s \<noteq> [] \<and> connections s \<noteq> [] \<and> is_phase_sequence s seq) \<and>
   (self_on_chain s \<and> filter is_self (connections s) = [c] \<and> num_rounds s = Some n \<longrightarrow>
     (repeating_rounds s = Inr r \<longleftrightarrow>
     (\<exists>P Q. phase_sequence s = Inr (P @ replicate (rs_length r) (fst c) @ Q) \<and> fst c \<notin> set P \<and> fst c \<notin> set Q \<and>
            rs_prefix r = length P \<and> rs_suffix r = length Q \<and> 0 < rs_length r)))"
  using phase_sequence_iff repeating_rounds_exact by blast

theorem phase_sequence_exact_witness:
  "is_phase_sequence (three_phases 5) [1, 2, 2, 2, 3] \<and>
   repeating_rounds (three_phases 5) = Inr \<lparr>rs_prefix = 1, rs_length = 3, rs_suffix = 1\<rparr>"
proof -
  have on: "self_on_chain (three_phases 5)" by code_simp
  have selfs: "filter is_self (connections (three_phases 5)) = [(2, 2)]" "num_rounds (three_phases 5) = Some 5"
    by (simp_all add: three_phases_def)
  have ne: "phase_sequence (three_phases 5) = Inr ([1] @ replicate 3 2 @ [3])"
    using three_phases_sequence by (simp add: numeral_3_eq_3)
  have "repeating_rounds (three_phases 5) = Inr \<lparr>rs_prefix = 1, rs_length = 3, rs_suffix = 1\<rparr>"
    by (rule phase_sequence_exact[THEN conjunct2, THEN mp, of _ "(2, 2)" 5, THEN iffD2], use on selfs in simp,
        intro exI[of _ "[1]"] exI[of _ "[3]"]) (use ne in simp_all)
  moreover have "is_phase_sequence (three_phases 5) [1, 2, 2, 2, 3]"
    using phase_sequence_exact[THEN conjunct1, THEN iffD1, OF three_phases_sequence] by blast
  ultimately show ?thesis by blast
qed

text \<open>
  The condition on the self-connection is needed: for one of a phase that the chain does not visit,
  \<open>phase_sequence\<close> accepts the shortest chain and the number of repeating rounds wraps around.
\<close>

lemma off_chain_self_connection:
  "phase_sequence ((three_phases 2)\<lparr>connections := [(1, 2), (3, 3)]\<rparr>) = Inr [1, 2]"
  "repeating_rounds ((three_phases 2)\<lparr>connections := [(1, 2), (3, 3)]\<rparr>) =
     Inr \<lparr>rs_prefix = 2, rs_length = 18446744073709551614, rs_suffix = 2\<rparr>"
  by code_simp+

end
