(* ===== verification/QEC_Chunk_Compact.thy ===== *)
theory QEC_Chunk_Compact
  imports QEC_Chunk_Phases
begin

text \<open>
  The compact chain of a specification and the full one. The compact chain carries the repeating chunk at most twice;
  repeating its first copy once more per elided round gives the full chain, so what is computed from the compact
  chain (the observable map, the measurement map of the memory convention) is what the full chain gives.
\<close>

section \<open>What does not depend on the number of rounds\<close>

lemma rmap_Inr_iff:
  "rmap f xs = Inr ys \<longleftrightarrow> (\<forall>x \<in> set xs. \<exists>y. f x = Inr y) \<and> ys = map (\<lambda>x. projr (f x)) xs"
  by (induction xs arbitrary: ys) (auto simp: rbind_Inr_iff)

lemma rmap_map: "rmap f (map g xs) = rmap (\<lambda>x. f (g x)) xs"
  by (induction xs) auto

lemma spec_rounds_simps [simp]:
  "get_phase (s\<lparr>num_rounds := r\<rparr>) = get_phase s"
  "has_D_sparse (s\<lparr>num_rounds := r\<rparr>) = has_D_sparse s"
  "measurements_of (s\<lparr>num_rounds := r\<rparr>) = measurements_of s"
  "detectors_of (s\<lparr>num_rounds := r\<rparr>) = detectors_of s"
  "spec_num_observables (s\<lparr>num_rounds := r\<rparr>) = spec_num_observables s"
  "has_readout (s\<lparr>num_rounds := r\<rparr>) = has_readout s"
  "spec_is_empty (s\<lparr>num_rounds := r\<rparr>) = spec_is_empty s"
  "has_repeating_phase (s\<lparr>num_rounds := r\<rparr>) = has_repeating_phase s"
  by (simp_all add: get_phase_def has_D_sparse_def measurements_of_def detectors_of_def spec_num_observables_def in_chain_def
      has_readout_def spec_is_empty_def has_repeating_phase_def fun_eq_iff cong: option.case_cong)

lemma validate_observables_rounds [simp]: "validate_observables (s\<lparr>num_rounds := r\<rparr>) = validate_observables s"
proof -
  have "check_readout (s\<lparr>num_rounds := r\<rparr>) = check_readout s" "note_readouts (s\<lparr>num_rounds := r\<rparr>) = note_readouts s"
    "check_flips (s\<lparr>num_rounds := r\<rparr>) = check_flips s"
    by (intro ext, simp add: check_readout_def note_readouts_def check_flips_def cong: if_cong)+
  then show ?thesis by (simp add: validate_observables_def validate_readout_order_def cong: if_cong)
qed

lemma validate_spec_rounds:
  assumes "num_rounds s = Some n" "2 \<le> n" "2 \<le> m"
  shows "validate_spec (s\<lparr>num_rounds := Some m\<rparr>) = validate_spec s"
  using assms by (simp add: validate_spec_def cong: if_cong)

section \<open>The chunks of a sequence of phases\<close>

definition chunk_at :: "dem_chunks_spec \<Rightarrow> phase_id \<times> bool \<Rightarrow> extended_dem res" where
  "chunk_at s x = rbind (get_phase s (fst x)) (\<lambda>p. dem_chunk_from_spec p (to_seam s # (if snd x then [] else [from_seam s])))"

text \<open>The phases of a chain with a mark on the last one.\<close>

fun marked :: "'a list \<Rightarrow> ('a \<times> bool) list" where
  "marked [] = []"
| "marked [p] = [(p, True)]"
| "marked (p # q # ps) = (p, False) # marked (q # ps)"

lemma marked_append: "B \<noteq> [] \<Longrightarrow> marked (A @ B) = map (\<lambda>p. (p, False)) A @ marked B"
proof (induction A)
  case (Cons a A)
  then show ?case by (cases "A @ B") auto
qed simp

lemma marked_nth: "marked xs = map (\<lambda>i. (xs ! i, \<not> i + 1 < length xs)) [0..<length xs]"
proof (cases xs rule: rev_cases)
  case (snoc ys y)
  then show ?thesis by (auto simp: marked_append nth_append intro!: nth_equalityI)
qed simp

lemma length_marked [simp]: "length (marked xs) = length xs"
  by (simp add: marked_nth)

lemma chunk_at_rounds [simp]: "chunk_at (s\<lparr>num_rounds := r\<rparr>) = chunk_at s"
  by (simp add: chunk_at_def fun_eq_iff)

lemma dem_chunks_from_spec_marked:
  "dem_chunks_from_spec s =
     rbind (validate_spec s) (\<lambda>_. rbind (phase_sequence s) (\<lambda>seq. rmap (chunk_at s) (marked seq)))"
proof -
  have sw: "(if \<not> b then x else y) = (if b then y else x)" for b and x y :: "seam_id list" by simp
  have "rmap (\<lambda>i. rbind (get_phase s (seq ! i)) (\<lambda>p. dem_chunk_from_spec p
      (to_seam s # (if i + 1 < length seq then [from_seam s] else [])))) [0..<length seq] = rmap (chunk_at s) (marked seq)" for seq
    unfolding marked_nth rmap_map chunk_at_def by (simp only: fst_conv snd_conv sw)
  then show ?thesis unfolding dem_chunks_from_spec_def by simp
qed

lemma marked_repeated:
  "marked (P @ replicate (e + 2) x @ Q) =
     map (\<lambda>p. (p, False)) P @ replicate e (x, False) @ (x, False) # marked (x # Q)"
proof -
  have "marked (P @ replicate (e + 2) x @ Q) = marked ((P @ replicate (Suc e) x) @ x # Q)"
    by (simp add: replicate_app_Cons_same)
  also have "\<dots> = map (\<lambda>p. (p, False)) (P @ replicate (Suc e) x) @ marked (x # Q)" by (rule marked_append) simp
  also have "\<dots> = map (\<lambda>p. (p, False)) P @ replicate e (x, False) @ (x, False) # marked (x # Q)"
    by (simp add: replicate_app_Cons_same)
  finally show ?thesis .
qed

definition full_chain :: "compact_chain \<Rightarrow> extended_dem list" where
  "full_chain c = take (cc_repeating c) (cc_chunks c) @ replicate (elided_rounds c) (cc_chunks c ! cc_repeating c) @
     drop (cc_repeating c) (cc_chunks c)"

lemma elided_rounds_le2: "cc_repeat_rounds c \<le> 2 \<Longrightarrow> elided_rounds c = 0"
  by (auto simp: elided_rounds_def repeated_copies_def compact_chain_repeating_visits_def)

lemma full_chain_0: "elided_rounds c = 0 \<Longrightarrow> full_chain c = cc_chunks c"
  by (simp add: full_chain_def)

lemma rmap_repeated:
  fixes f :: "'a \<Rightarrow> 'b res"
  assumes ys: "rmap f (A @ x # B) = Inr ys"
  shows "rmap f (A @ replicate e x @ x # B) = Inr (take (length A) ys @ replicate e (ys ! length A) @ drop (length A) ys)"
proof -
  have "ys = map (\<lambda>x. projr (f x)) A @ projr (f x) # map (\<lambda>x. projr (f x)) B" using ys by (simp add: rmap_Inr_iff)
  then show ?thesis using ys by (auto simp: rmap_Inr_iff nth_append)
qed

lemma rmap_repeated_iff:
  "rmap f (A @ replicate e x @ x # B) = Inr zs \<longleftrightarrow>
     (\<exists>ys. rmap f (A @ x # B) = Inr ys \<and> zs = take (length A) ys @ replicate e (ys ! length A) @ drop (length A) ys)"
proof
  assume zs: "rmap f (A @ replicate e x @ x # B) = Inr zs"
  then have "\<exists>ys. rmap f (A @ x # B) = Inr ys" by (auto simp: rmap_Inr_iff)
  then obtain ys where "rmap f (A @ x # B) = Inr ys" by blast
  then show "\<exists>ys. rmap f (A @ x # B) = Inr ys \<and> zs = take (length A) ys @ replicate e (ys ! length A) @ drop (length A) ys"
    using rmap_repeated[of f A x B ys e] zs by auto
qed (use rmap_repeated in auto)

section \<open>The compact chain\<close>

lemma has_repeating_selfs:
  assumes "has_repeating_phase s" "phase_sequence s = Inr seq \<or> repeating_rounds s = Inr run"
  obtains c where "filter is_self (connections s) = [c]"
proof -
  have ne: "filter is_self (connections s) \<noteq> []"
    using assms(1) by (auto simp: has_repeating_phase_def list_ex_iff filter_empty_conv)
  have "\<not> 1 < length (filter is_self (connections s))"
    using assms(2) ne
    by (cases "filter is_self (connections s)"; cases "tl (filter is_self (connections s))")
      (auto simp: phase_sequence_def repeating_rounds_def repeating_phase_def split: if_splits)
  then show thesis using ne that by (cases "filter is_self (connections s)"; cases "tl (filter is_self (connections s))") auto
qed

lemma compact_sequence:
  assumes on: "self_on_chain s" and selfs: "filter is_self (connections s) = [c]" and n: "num_rounds s = Some n"
    and run: "repeating_rounds s = Inr r"
  obtains P Q where "phase_sequence s = Inr (P @ replicate (rs_length r) (fst c) @ Q)"
    "phase_sequence (s\<lparr>num_rounds := Some (rs_prefix r + repeated_copies (rs_length r) + rs_suffix r)\<rparr>) =
       Inr (P @ replicate (repeated_copies (rs_length r)) (fst c) @ Q)"
    "length P = rs_prefix r" "length Q = rs_suffix r" "0 < rs_length r" "2 \<le> n"
    "2 \<le> rs_prefix r + repeated_copies (rs_length r) + rs_suffix r" "minimum_rounds s = length P + length Q + 1"
proof -
  obtain A B where AB: "phase_sequence s = Inr (A @ replicate (rs_length r) (fst c) @ B)" "fst c \<notin> set A" "fst c \<notin> set B"
    "rs_prefix r = length A" "rs_suffix r = length B" "0 < rs_length r"
    using run repeating_rounds_exact[OF on selfs n] by auto
  obtain P Q where PQ: "fst c \<notin> set P" "fst c \<notin> set Q"
    "A @ replicate (rs_length r) (fst c) @ B = P @ replicate (n - length P - length Q) (fst c) @ Q"
    "minimum_rounds s = length P + length Q + 1" "minimum_rounds s \<le> n" "2 \<le> n"
    and other: "\<And>k. 2 \<le> k \<Longrightarrow> minimum_rounds s \<le> k \<Longrightarrow>
      phase_sequence (s\<lparr>num_rounds := Some k\<rparr>) = Inr (P @ replicate (k - length P - length Q) (fst c) @ Q)"
    using repeating_rounds_split[OF AB(1) on selfs n] by auto
  have k: "0 < n - length P - length Q" using PQ(4,5) by simp
  have "repeating_rounds s = Inr \<lparr>rs_prefix = length P, rs_length = n - length P - length Q, rs_suffix = length Q\<rparr>"
    unfolding repeating_rounds_exact[OF on selfs n] using AB(1) PQ(1-3) k by auto
  then have r: "rs_prefix r = length P" "rs_suffix r = length Q" "rs_length r = n - length P - length Q"
    using run by auto
  let ?k = "repeated_copies (rs_length r)"
  have cp: "0 < ?k" "rs_length r = 1 \<or> ?k = 2"
    using AB(6) by (auto simp: repeated_copies_def compact_chain_repeating_visits_def)
  have two: "2 \<le> length P + ?k + length Q" using cp PQ(4,6) r(3) by auto
  show thesis
  proof (rule that)
    show "phase_sequence s = Inr (P @ replicate (rs_length r) (fst c) @ Q)" using AB(1) PQ(3) r(3) by simp
    show "phase_sequence (s\<lparr>num_rounds := Some (rs_prefix r + ?k + rs_suffix r)\<rparr>) = Inr (P @ replicate ?k (fst c) @ Q)"
      using other[of "length P + ?k + length Q"] two cp PQ(4) r by simp
  qed (use r AB(6) PQ(4,6) two in auto)
qed

lemma compact_chain_repeating:
  assumes on: "self_on_chain s" and selfs: "filter is_self (connections s) = [c]" and n: "num_rounds s = Some n"
    and run: "repeating_rounds s = Inr r"
  defines "k \<equiv> rs_prefix r + repeated_copies (rs_length r) + rs_suffix r"
  shows "dem_chunks_from_spec s = Inr full \<longleftrightarrow>
     (\<exists>ys. dem_chunks_from_spec (s\<lparr>num_rounds := Some k\<rparr>) = Inr ys \<and>
        full = full_chain \<lparr>cc_chunks = ys, cc_repeating = rs_prefix r, cc_repeat_rounds = rs_length r\<rparr>)"
proof -
  obtain P Q where seq: "phase_sequence s = Inr (P @ replicate (rs_length r) (fst c) @ Q)"
    "phase_sequence (s\<lparr>num_rounds := Some k\<rparr>) = Inr (P @ replicate (repeated_copies (rs_length r)) (fst c) @ Q)"
    and l: "length P = rs_prefix r" "2 \<le> n" "2 \<le> k"
    using compact_sequence[OF on selfs n run] unfolding k_def by metis
  have v: "validate_spec (s\<lparr>num_rounds := Some k\<rparr>) = validate_spec s" by (rule validate_spec_rounds[OF n l(2,3)])
  show ?thesis
  proof (cases "rs_length r \<le> 2")
    case True
    then have "repeated_copies (rs_length r) = rs_length r"
      by (auto simp: repeated_copies_def compact_chain_repeating_visits_def)
    then show ?thesis
      using seq v True by (simp add: dem_chunks_from_spec_marked full_chain_0 elided_rounds_le2)
  next
    case False
    define e where "e = rs_length r - 2"
    have c2: "repeated_copies (rs_length r) = 2" and e: "rs_length r = e + 2"
      using False by (auto simp: repeated_copies_def compact_chain_repeating_visits_def e_def)
    have el: "elided_rounds \<lparr>cc_chunks = ys, cc_repeating = rs_prefix r, cc_repeat_rounds = rs_length r\<rparr> = e" for ys
      using c2 e by (simp add: elided_rounds_def)
    let ?A = "map (\<lambda>p. (p, False)) P" and ?B = "marked (fst c # Q)" and ?x = "(fst c, False)"
    have m1: "marked (P @ replicate (rs_length r) (fst c) @ Q) = ?A @ replicate e ?x @ ?x # ?B"
      unfolding e by (rule marked_repeated)
    have m2: "marked (P @ replicate 2 (fst c) @ Q) = ?A @ ?x # ?B"
      using marked_repeated[of P 0 "fst c" Q] by (simp only: add_0 replicate_0 append_Nil)
    show ?thesis
      unfolding dem_chunks_from_spec_marked seq v c2 chunk_at_rounds full_chain_def el
      by (cases "validate_spec s") (simp_all add: m1 m2 rmap_repeated_iff l(1))
  qed
qed

lemma compact_chain_iff:
  assumes on: "self_on_chain s"
  shows "dem_chunks_from_spec s = Inr full \<longleftrightarrow> (\<exists>c. dem_chunks_to_compact_chain s = Inr c \<and> full = full_chain c)"
proof (cases "has_repeating_phase s")
  case False
  have "full_chain \<lparr>cc_chunks = ys, cc_repeating = length ys, cc_repeat_rounds = 1\<rparr> = ys" for ys
    by (simp add: full_chain_0 elided_rounds_le2)
  then show ?thesis using False by (auto simp: dem_chunks_to_compact_chain_def rbind_Inr_iff)
next
  case True
  show ?thesis
  proof (cases "\<exists>r. repeating_rounds s = Inr r")
    case r: True
    then obtain r where r: "repeating_rounds s = Inr r" by blast
    obtain c where c: "filter is_self (connections s) = [c]" using has_repeating_selfs True r by blast
    obtain n where n: "num_rounds s = Some n"
      using r True by (cases "num_rounds s") (auto simp: repeating_rounds_def rbind_Inr_iff)
    show ?thesis
      unfolding compact_chain_repeating[OF on c n r] using True r by (auto simp: dem_chunks_to_compact_chain_def rbind_Inr_iff)
  next
    case no: False
    have "\<nexists>seq. phase_sequence s = Inr seq"
    proof
      assume "\<exists>seq. phase_sequence s = Inr seq"
      then obtain seq where seq: "phase_sequence s = Inr seq" by blast
      obtain c where c: "filter is_self (connections s) = [c]" using has_repeating_selfs True seq by blast
      obtain n where n: "num_rounds s = Some n"
        using seq c by (cases "num_rounds s") (auto simp: phase_sequence_def split: if_splits)
      obtain P Q where "fst c \<notin> set P" "fst c \<notin> set Q" "seq = P @ replicate (n - length P - length Q) (fst c) @ Q"
        "minimum_rounds s = length P + length Q + 1" "minimum_rounds s \<le> n"
        using repeating_rounds_split[OF seq on c n] by metis
      then have "repeating_rounds s = Inr \<lparr>rs_prefix = length P, rs_length = n - length P - length Q, rs_suffix = length Q\<rparr>"
        unfolding repeating_rounds_exact[OF on c n] using seq by auto
      then show False using no by blast
    qed
    then show ?thesis
      using no True by (auto simp: dem_chunks_from_spec_marked dem_chunks_to_compact_chain_def rbind_Inr_iff)
  qed
qed

lemma compact_chain_shape:
  assumes on: "self_on_chain s" and c: "dem_chunks_to_compact_chain s = Inr c"
  shows "cc_chunks c \<noteq> []" "length (cc_chunks c) \<le> minimum_rounds s + 1" "0 < cc_repeat_rounds c"
    "cc_repeating c + repeated_copies (cc_repeat_rounds c) \<le> length (cc_chunks c) \<or>
       cc_repeating c = length (cc_chunks c) \<and> cc_repeat_rounds c = 1"
proof -
  have "cc_chunks c \<noteq> [] \<and> length (cc_chunks c) \<le> minimum_rounds s + 1 \<and> 0 < cc_repeat_rounds c \<and>
    (cc_repeating c + repeated_copies (cc_repeat_rounds c) \<le> length (cc_chunks c) \<or>
       cc_repeating c = length (cc_chunks c) \<and> cc_repeat_rounds c = 1)"
  proof (cases "has_repeating_phase s")
    case False
    then obtain ys seq where ys: "c = \<lparr>cc_chunks = ys, cc_repeating = length ys, cc_repeat_rounds = 1\<rparr>"
      and seq: "phase_sequence s = Inr seq" "length ys = length seq"
      using c by (auto simp: dem_chunks_to_compact_chain_def dem_chunks_from_spec_marked rbind_Inr_iff dest: rmap_Inr_length)
    have "is_phase_sequence s seq" using seq(1) phase_sequence_iff by blast
    moreover have "filter is_self (connections s) = []"
      using False by (auto simp: has_repeating_phase_def list_ex_iff filter_empty_conv)
    ultimately have "seq \<noteq> []" "length seq = minimum_rounds s"
      using minimum_rounds_path[of seq s] by (auto simp: is_phase_sequence_def)
    then show ?thesis using ys seq by auto
  next
    case True
    then obtain r ys where r: "repeating_rounds s = Inr r" and ys: "c = \<lparr>cc_chunks = ys, cc_repeating = rs_prefix r, cc_repeat_rounds = rs_length r\<rparr>"
      and d: "dem_chunks_from_spec (s\<lparr>num_rounds := Some (rs_prefix r + repeated_copies (rs_length r) + rs_suffix r)\<rparr>) = Inr ys"
      using c by (auto simp: dem_chunks_to_compact_chain_def rbind_Inr_iff)
    obtain x where x: "filter is_self (connections s) = [x]" using has_repeating_selfs True r by blast
    obtain n where n: "num_rounds s = Some n"
      using r True by (cases "num_rounds s") (auto simp: repeating_rounds_def rbind_Inr_iff)
    obtain P Q where "phase_sequence (s\<lparr>num_rounds := Some (rs_prefix r + repeated_copies (rs_length r) + rs_suffix r)\<rparr>) =
         Inr (P @ replicate (repeated_copies (rs_length r)) (fst x) @ Q)"
      "length P = rs_prefix r" "length Q = rs_suffix r" "0 < rs_length r" "minimum_rounds s = length P + length Q + 1"
      using compact_sequence[OF on x n r] by metis
    then show ?thesis
      using d unfolding ys by (auto simp: dem_chunks_from_spec_marked rbind_Inr_iff repeated_copies_def
          compact_chain_repeating_visits_def dest!: rmap_Inr_length split: if_splits)
  qed
  then show "cc_chunks c \<noteq> []" "length (cc_chunks c) \<le> minimum_rounds s + 1" "0 < cc_repeat_rounds c"
    "cc_repeating c + repeated_copies (cc_repeat_rounds c) \<le> length (cc_chunks c) \<or>
       cc_repeating c = length (cc_chunks c) \<and> cc_repeat_rounds c = 1" by blast+
qed

section \<open>The measurement map of the memory convention\<close>

definition memory_rows :: "nat \<Rightarrow> nat \<Rightarrow> nat \<Rightarrow> nat list list" where
  "memory_rows d a b = concat (map (\<lambda>r. map (memory_row d r) [0..<d]) [a..<b])"

definition first_width :: "extended_dem list \<Rightarrow> seam_id \<Rightarrow> seam_id \<Rightarrow> nat res" where
  "first_width chunks f t =
     rbind (seam_rows_or_zero (chunks ! 0) t) (\<lambda>w. if w = 0 then seam_rows_or_zero (chunks ! 0) f else Inr w)"

lemma length_memory_rows [simp]: "length (memory_rows d a b) = (b - a) * d"
  by (simp add: memory_rows_def length_concat comp_def sum_list_triv)

lemma memory_rows_append: "a \<le> b \<Longrightarrow> b \<le> c \<Longrightarrow> memory_rows d a b @ memory_rows d b c = memory_rows d a c"
  unfolding memory_rows_def by (metis concat_append map_append upt_add_eq_append le_add_diff_inverse)

lemma rounds_iff:
  "dem_chunks_to_rounds chunks f t = Inr T \<longleftrightarrow>
     validate_dem_chunk_sequence chunks f t = Inr () \<and> (\<forall>c \<in> set chunks. \<exists>r. dem_chunk_rounds c f t = Inr r) \<and>
     T = sum_list (map (\<lambda>c. projr (dem_chunk_rounds c f t)) chunks)"
proof -
  have "rfold (\<lambda>c rounds. rbind (dem_chunk_rounds c f t) (\<lambda>r. Inr (rounds + r))) cs n = Inr T \<longleftrightarrow>
      (\<forall>c \<in> set cs. \<exists>r. dem_chunk_rounds c f t = Inr r) \<and> T = n + sum_list (map (\<lambda>c. projr (dem_chunk_rounds c f t)) cs)" for cs n
    by (induction cs arbitrary: n) (auto simp: rbind_Inr_iff)
  then show ?thesis by (simp add: dem_chunks_to_rounds_def rbind_Inr_iff)
qed

lemma d_sparse_iff:
  "dem_chunks_to_d_sparse chunks f t = Inr rows \<longleftrightarrow>
     chunks \<noteq> [] \<and> (\<exists>d T. first_width chunks f t = Inr d \<and> d \<noteq> 0 \<and> dem_chunks_to_rounds chunks f t = Inr T \<and>
       T * d \<le> max_u32 + 1 \<and> rows = memory_rows d 0 T)"
proof -
  have fits: "(0 < T \<and> max_u32 < (T - 1) * d + (d - 1)) \<longleftrightarrow> \<not> T * d \<le> max_u32 + 1" if "d \<noteq> 0" for T d
    using that by (cases T; cases d) (auto simp: algebra_simps)
  have "dem_chunks_to_d_sparse chunks f t =
     (if chunks = [] then Inl (Invalid_argument ''dem_chunks_to_d_sparse: dem_chunks must be non-empty'')
      else rbind (first_width chunks f t) (\<lambda>d.
        if d = 0 then Inl (Invalid_argument ''dem_chunks_to_d_sparse: chunk 0 has no seam rows on either side, so its rounds cannot be counted'')
        else rbind (dem_chunks_to_rounds chunks f t) (\<lambda>T.
          if 0 < T \<and> max_u32 < (T - 1) * d + (d - 1)
          then Inl (Runtime_error ''dem_chunks_to_d_sparse: measurement bit index exceeds uint32_t max'')
          else Inr (memory_rows d 0 T))))"
    unfolding dem_chunks_to_d_sparse_def first_width_def memory_rows_def rbind_assoc by (rule refl)
  note unf = this
  show ?thesis
  proof (cases "chunks = [] \<or> first_width chunks f t = Inr 0")
    case True
    then show ?thesis by (auto simp: unf)
  next
    case False
    then have d0: "d \<noteq> 0" if "first_width chunks f t = Inr d" for d using that by auto
    show ?thesis
    proof (cases "first_width chunks f t")
      case (Inr d)
      then show ?thesis using False unfolding unf rbind_Inr_iff
        by (cases "dem_chunks_to_rounds chunks f t") (simp_all only: Inr d0[OF Inr] rbind_simps fits[OF d0[OF Inr]] if_False simp_thms, auto split: if_splits)
    qed (use False in \<open>simp add: unf\<close>)
  qed
qed

lemma validate_sequence_iff:
  "validate_dem_chunk_sequence chunks f t = Inr () \<longleftrightarrow>
     chunks \<noteq> [] \<and> (\<exists>d. chunk_seam_width (chunks ! 0) f t = Inr d \<and> d \<noteq> 0 \<and>
       (\<forall>c \<in> set chunks. num_interior_rows c mod d = 0 \<and> list_all (\<lambda>s. seam_num_rows s = 0 \<or> seam_num_rows s = d) (seams c)))"
proof -
  have body: "(if A then Inl e1 else if B then Inl e2 else Inr ()) = (Inr () :: unit res) \<longleftrightarrow> \<not> A \<and> \<not> B" for A B e1 e2
    by simp
  have loop: "rfold (\<lambda>c _. if num_interior_rows c mod d \<noteq> 0 then Inl e1
        else if list_ex (\<lambda>s. seam_num_rows s \<noteq> 0 \<and> seam_num_rows s \<noteq> d) (seams c) then Inl e2 else Inr ()) chunks () = Inr () \<longleftrightarrow>
      (\<forall>c \<in> set chunks. num_interior_rows c mod d = 0 \<and> list_all (\<lambda>s. seam_num_rows s = 0 \<or> seam_num_rows s = d) (seams c))"
    for d e1 e2
    unfolding rfold_unit_iff[where u = "()"] body by (auto simp: list_ex_iff list_all_iff)
  show ?thesis
    unfolding validate_dem_chunk_sequence_def
    by (cases "chunks = []"; cases "chunk_seam_width (chunks ! 0) f t") (simp_all only: rbind_simps if_False if_True simp_thms sum.inject
        loop Inl_Inr_False if_distrib[of "\<lambda>x. x = Inr ()"] HOL.eq_commute[of "Inr _" "Inl _"], auto)
qed

lemma full_chain_facts:
  assumes "cc_chunks c \<noteq> []" "elided_rounds c \<noteq> 0 \<longrightarrow> cc_repeating c < length (cc_chunks c)"
  shows "full_chain c \<noteq> []" "full_chain c ! 0 = cc_chunks c ! 0" "set (full_chain c) = set (cc_chunks c)"
    "sum_list (map g (full_chain c)) = sum_list (map g (cc_chunks c)) + elided_rounds c * (g (cc_chunks c ! cc_repeating c) :: nat)"
proof -
  have "full_chain c \<noteq> [] \<and> full_chain c ! 0 = cc_chunks c ! 0 \<and> set (full_chain c) = set (cc_chunks c) \<and>
    sum_list (map g (full_chain c)) = sum_list (map g (cc_chunks c)) + elided_rounds c * (g (cc_chunks c ! cc_repeating c) :: nat)"
  proof (cases "elided_rounds c = 0")
    case True
    then show ?thesis using assms by (simp add: full_chain_0)
  next
    case False
    let ?p = "cc_repeating c" and ?x = "cc_chunks c ! cc_repeating c"
    have p: "?p < length (cc_chunks c)" using False assms by blast
    have split: "cc_chunks c = take ?p (cc_chunks c) @ ?x # drop (Suc ?p) (cc_chunks c)" using p by (rule id_take_nth_drop)
    have full: "full_chain c = take ?p (cc_chunks c) @ replicate (elided_rounds c) ?x @ ?x # drop (Suc ?p) (cc_chunks c)"
      using Cons_nth_drop_Suc[OF p] by (simp add: full_chain_def)
    have "full_chain c ! 0 = cc_chunks c ! 0"
      unfolding full using False p by (cases "elided_rounds c"; cases ?p) (auto simp: nth_append)
    moreover have "set (full_chain c) = set (cc_chunks c)"
      unfolding full by (subst (2) split) auto
    moreover have "sum_list (map g (full_chain c)) = sum_list (map g (cc_chunks c)) + elided_rounds c * g ?x"
      unfolding full by (subst (3) split) (simp add: sum_list_replicate)
    ultimately show ?thesis using full by simp
  qed
  then show "full_chain c \<noteq> []" "full_chain c ! 0 = cc_chunks c ! 0" "set (full_chain c) = set (cc_chunks c)"
    "sum_list (map g (full_chain c)) = sum_list (map g (cc_chunks c)) + elided_rounds c * (g (cc_chunks c ! cc_repeating c) :: nat)"
    by blast+
qed

lemma full_chain_rounds:
  assumes "cc_chunks c \<noteq> []" "elided_rounds c \<noteq> 0 \<longrightarrow> cc_repeating c < length (cc_chunks c)"
  shows "first_width (full_chain c) f t = first_width (cc_chunks c) f t"
    and "dem_chunks_to_rounds (full_chain c) f t = Inr T \<longleftrightarrow>
      (\<exists>C. dem_chunks_to_rounds (cc_chunks c) f t = Inr C \<and>
           T = C + elided_rounds c * projr (dem_chunk_rounds (cc_chunks c ! cc_repeating c) f t))"
  using full_chain_facts[OF assms] by (simp_all add: first_width_def rounds_iff validate_sequence_iff cong: if_cong) auto

text \<open>The part of \<open>dem_chunks_to_d_sparse(spec)\<close> after the rows of the compact chain, for elided rounds.\<close>

definition extend_rows :: "compact_chain \<Rightarrow> seam_id \<Rightarrow> seam_id \<Rightarrow> nat list list \<Rightarrow> nat list list res" where
  "extend_rows c f t rows =
     rbind (seam_rows_or_zero (hd (cc_chunks c)) t) (\<lambda>w.
     rbind (if w = 0 then rbind (get_seam (hd (cc_chunks c)) f) (\<lambda>x. Inr (seam_num_rows x)) else Inr w) (\<lambda>width.
     rbind (dem_chunk_rounds (cc_chunks c ! cc_repeating c) f t) (\<lambda>rounds_per_bulk.
     let compact_rounds = length rows div width; max_rounds = (max_u32 + 1) div width in
     if rounds_per_bulk = 0 then Inr rows
     else if max_rounds < compact_rounds \<or> (max_rounds - compact_rounds) div rounds_per_bulk < elided_rounds c
     then Inl (Runtime_error ''dem_chunks_to_d_sparse: measurement bit index exceeds uint32_t max'')
     else
       let rounds = compact_rounds + elided_rounds c * rounds_per_bulk
       in Inr (take (rounds * width) rows @ memory_rows width compact_rounds rounds))))"

lemma spec_to_d_sparse_memory:
  "\<not> has_D_sparse s \<Longrightarrow> spec_to_d_sparse s =
     rbind (dem_chunks_to_compact_chain s) (\<lambda>c.
     rbind (dem_chunks_to_d_sparse (cc_chunks c) (from_seam s) (to_seam s)) (\<lambda>rows.
       if elided_rounds c = 0 then Inr rows else extend_rows c (from_seam s) (to_seam s) rows))"
  unfolding spec_to_d_sparse_def extend_rows_def memory_rows_def by (simp only: not_False_eq_True if_True)

lemma width_of_first:
  assumes "first_width chunks f t = Inr d" "d \<noteq> 0" "chunks \<noteq> []"
  shows "rbind (seam_rows_or_zero (hd chunks) t) (\<lambda>w.
     rbind (if w = 0 then rbind (get_seam (hd chunks) f) (\<lambda>x. Inr (seam_num_rows x)) else Inr w) g) = g d"
  using assms unfolding first_width_def hd_conv_nth[OF assms(3)] seam_rows_or_zero_def
  by (auto simp: rbind_Inr_iff split: if_splits)

lemma extended_fits:
  fixes C e k d X :: nat
  assumes "0 < k" "0 < d"
  shows "\<not> (X div d < C \<or> (X div d - C) div k < e) \<longleftrightarrow> (C + e * k) * d \<le> X"
proof -
  have "\<not> (X div d < C \<or> (X div d - C) div k < e) \<longleftrightarrow> C + e * k \<le> X div d"
    using less_eq_div_iff_mult_less_eq[of k e "X div d - C"] assms(1) by (auto simp: not_less)
  then show ?thesis using less_eq_div_iff_mult_less_eq[of d "C + e * k" X] assms(2) by simp
qed

lemma extend_rows_full:
  assumes ne: "cc_chunks c \<noteq> []" and el: "elided_rounds c \<noteq> 0" "cc_repeating c < length (cc_chunks c)"
    and d: "first_width (cc_chunks c) f t = Inr d" "d \<noteq> 0" and C: "dem_chunks_to_rounds (cc_chunks c) f t = Inr C"
    and fit: "C * d \<le> max_u32 + 1"
  shows "extend_rows c f t (memory_rows d 0 C) = Inr rows \<longleftrightarrow> dem_chunks_to_d_sparse (full_chain c) f t = Inr rows"
proof -
  note full = full_chain_rounds[OF ne, of f t] full_chain_facts[OF ne]
  let ?x = "cc_chunks c ! cc_repeating c"
  obtain k where k: "dem_chunk_rounds ?x f t = Inr k" using C el(2) unfolding rounds_iff by force
  have fd: "dem_chunks_to_d_sparse (full_chain c) f t = Inr rows \<longleftrightarrow>
      (C + elided_rounds c * k) * d \<le> max_u32 + 1 \<and> rows = memory_rows d 0 (C + elided_rounds c * k)"
    using full el C d k unfolding d_sparse_iff by (auto simp: full)
  have ext: "extend_rows c f t (memory_rows d 0 C) =
      (if k = 0 then Inr (memory_rows d 0 C)
       else if (max_u32 + 1) div d < C \<or> ((max_u32 + 1) div d - C) div k < elided_rounds c
       then Inl (Runtime_error ''dem_chunks_to_d_sparse: measurement bit index exceeds uint32_t max'')
       else Inr (memory_rows d 0 (C + elided_rounds c * k)))"
    unfolding extend_rows_def width_of_first[OF d ne] k using d(2)
    by (simp add: Let_def memory_rows_append cong: if_cong)
  show ?thesis
  proof (cases "k = 0")
    case True
    then show ?thesis using fit unfolding ext fd k by auto
  next
    case False
    then show ?thesis
      unfolding ext fd k using extended_fits[of k d "max_u32 + 1" C "elided_rounds c"] d(2) by (simp only: if_False) auto
  qed
qed

lemma spec_to_d_sparse_full:
  assumes on: "self_on_chain s" and mem: "\<not> has_D_sparse s"
  shows "spec_to_d_sparse s = Inr rows \<longleftrightarrow>
     (\<exists>chunks. dem_chunks_from_spec s = Inr chunks \<and> dem_chunks_to_d_sparse chunks (from_seam s) (to_seam s) = Inr rows)"
proof (cases "dem_chunks_to_compact_chain s")
  case (Inl e)
  then show ?thesis by (simp add: spec_to_d_sparse_memory[OF mem] compact_chain_iff[OF on])
next
  case (Inr c)
  let ?f = "from_seam s" and ?t = "to_seam s"
  note shape = compact_chain_shape[OF on Inr]
  have rhs: "(\<exists>chunks. dem_chunks_from_spec s = Inr chunks \<and> dem_chunks_to_d_sparse chunks ?f ?t = Inr rows) \<longleftrightarrow>
      dem_chunks_to_d_sparse (full_chain c) ?f ?t = Inr rows"
    using Inr by (auto simp: compact_chain_iff[OF on])
  show ?thesis
  proof (cases "elided_rounds c = 0")
    case True
    then show ?thesis unfolding rhs by (simp add: spec_to_d_sparse_memory[OF mem] Inr full_chain_0 rbind_Inr_iff)
  next
    case False
    have rep: "cc_repeating c < length (cc_chunks c)"
      using shape(3,4) False elided_rounds_le2[of c]
      by (auto simp: repeated_copies_def compact_chain_repeating_visits_def split: if_splits)
    show ?thesis
    proof (cases "dem_chunks_to_d_sparse (cc_chunks c) ?f ?t")
      case (Inl e)
      have "\<not> dem_chunks_to_d_sparse (full_chain c) ?f ?t = Inr rows"
      proof
        assume "dem_chunks_to_d_sparse (full_chain c) ?f ?t = Inr rows"
        then have "\<exists>d C. first_width (cc_chunks c) ?f ?t = Inr d \<and> d \<noteq> 0 \<and> dem_chunks_to_rounds (cc_chunks c) ?f ?t = Inr C \<and> C * d \<le> max_u32 + 1"
          unfolding d_sparse_iff using full_chain_rounds[OF shape(1), of ?f ?t] rep
          by (auto intro: order_trans[rotated] simp: add_mult_distrib)
        then have "\<exists>r. dem_chunks_to_d_sparse (cc_chunks c) ?f ?t = Inr r" using shape(1) by (auto simp: d_sparse_iff)
        then show False using Inl by simp
      qed
      then show ?thesis unfolding rhs by (simp add: spec_to_d_sparse_memory[OF mem] Inr Inl)
    next
      case (Inr r)
      then obtain d C where r: "first_width (cc_chunks c) ?f ?t = Inr d" "d \<noteq> 0" "dem_chunks_to_rounds (cc_chunks c) ?f ?t = Inr C"
        "C * d \<le> max_u32 + 1" "r = memory_rows d 0 C" by (auto simp: d_sparse_iff)
      show ?thesis
        unfolding rhs using extend_rows_full[OF shape(1) False rep r(1-4), of rows] False Inr r(5)
        by (simp add: spec_to_d_sparse_memory[OF mem] \<open>dem_chunks_to_compact_chain s = Inr c\<close>)
    qed
  qed
qed

section \<open>Properties\<close>

text \<open>
  C17: For a specification whose self-connected phase, if any, is on the chain, expanding it succeeds exactly when
  building its compact chain does, and the full chain is the compact one with its repeating chunk inserted once per
  elided round. The compact chain has at most one chunk more than the shortest chain, whatever \<open>num_rounds\<close> is.
\<close>

theorem compact_chain_stands_for_full:
  assumes "self_on_chain s"
  shows "(dem_chunks_from_spec s = Inr full \<longleftrightarrow> (\<exists>c. dem_chunks_to_compact_chain s = Inr c \<and> full = full_chain c)) \<and>
     (\<forall>c. dem_chunks_to_compact_chain s = Inr c \<longrightarrow> length (cc_chunks c) \<le> minimum_rounds s + 1)"
  using compact_chain_iff[OF assms] compact_chain_shape(2)[OF assms] by blast

theorem compact_chain_stands_for_full_witness:
  "\<exists>c full. dem_chunks_to_compact_chain (three_phases 1000) = Inr c \<and> length (cc_chunks c) \<le> 4 \<and>
     dem_chunks_from_spec (three_phases 1000) = Inr full \<and> full = full_chain c"
proof -
  have on: "self_on_chain (three_phases 1000)" by code_simp
  have "(case dem_chunks_to_compact_chain (three_phases 1000) of Inr c \<Rightarrow> True | Inl _ \<Rightarrow> False)" by code_simp
  then obtain c where c: "dem_chunks_to_compact_chain (three_phases 1000) = Inr c" by (auto split: sum.splits)
  have "minimum_rounds (three_phases 1000) = 3" by (simp add: minimum_rounds_def three_phases_def)
  then show ?thesis using compact_chain_stands_for_full[OF on, of "full_chain c"] c by auto
qed

text \<open>
  C14: The measurement map that \<open>dem_chunks_to_d_sparse\<close> extrapolates from the compact chain of a specification
  without its own measurement maps is the one that the memory convention gives for the fully expanded chain, with the
  same 32-bit overflow check.
\<close>

theorem compact_measurement_map:
  assumes "self_on_chain s" and "\<not> has_D_sparse s"
  shows "spec_to_d_sparse s = Inr rows \<longleftrightarrow>
     (\<exists>chunks. dem_chunks_from_spec s = Inr chunks \<and> dem_chunks_to_d_sparse chunks (from_seam s) (to_seam s) = Inr rows)"
  using assms by (rule spec_to_d_sparse_full)

theorem compact_measurement_map_witness:
  "\<exists>rows chunks. spec_to_d_sparse (three_phases 6) = Inr rows \<and> dem_chunks_from_spec (three_phases 6) = Inr chunks \<and>
     dem_chunks_to_d_sparse chunks (from_seam (three_phases 6)) (to_seam (three_phases 6)) = Inr rows"
proof -
  have on: "self_on_chain (three_phases 6)" "\<not> has_D_sparse (three_phases 6)" by code_simp+
  have "(case spec_to_d_sparse (three_phases 6) of Inr c \<Rightarrow> True | Inl _ \<Rightarrow> False)" by code_simp
  then obtain rows where "spec_to_d_sparse (three_phases 6) = Inr rows" by (auto split: sum.splits)
  then show ?thesis using compact_measurement_map[OF on, of rows] by blast
qed

end
