(* ===== verification/QEC_Chunk_Build.thy ===== *)
theory QEC_Chunk_Build
  imports QEC_Chunk_Geometry QEC_Chunk_Phases
begin

text \<open>
  What \<open>dem_chunk_from_spec\<close> builds: whenever it succeeds, the chunk is well formed and valid, its seams are the
  requested ones, one below the other and covering all rows, its tags number the rows of each seam, and its matrices
  have an entry exactly where the index lists of the specification name one.
\<close>

section \<open>Index lists\<close>

definition index_rows :: "int list \<Rightarrow> nat list list" where
  "index_rows vs = fst (split_rows vs [])"

lemma check_index_split:
  assumes "check_index_list n vs cols = Inr ()" "n \<le> max_u32" "set cols \<subseteq> {0..<int n}" "distinct cols"
    and "set cur = nat ` set cols" "distinct cur"
  shows "\<forall>g \<in> set (fst (split_rows vs cur)). distinct g \<and> set g \<subseteq> {..<n}"
    and "length (fst (split_rows vs cur)) = count_rows vs"
    and "vs \<noteq> [] \<Longrightarrow> last vs = -1 \<Longrightarrow> snd (split_rows vs cur) = []"
proof -
  have "(\<forall>g \<in> set (fst (split_rows vs cur)). distinct g \<and> set g \<subseteq> {..<n}) \<and>
      length (fst (split_rows vs cur)) = count_rows vs \<and> (vs \<noteq> [] \<and> last vs = -1 \<longrightarrow> snd (split_rows vs cur) = [])"
    using assms
  proof (induction vs arbitrary: cols cur)
    case (Cons v vs)
    show ?case
    proof (cases "v = -1")
      case True
      have ih: "(\<forall>g \<in> set (fst (split_rows vs [])). distinct g \<and> set g \<subseteq> {..<n}) \<and>
          length (fst (split_rows vs [])) = count_rows vs \<and> (vs \<noteq> [] \<and> last vs = -1 \<longrightarrow> snd (split_rows vs []) = [])"
        by (rule Cons.IH[of "[]"]) (use Cons.prems True in auto)
      have "set cur \<subseteq> {..<n}" using Cons.prems(3,5) by (auto dest!: subsetD)
      then show ?thesis using ih True Cons.prems(6) by (auto simp: count_rows_def split: prod.split)
    next
      case False
      then have v: "0 \<le> v" "nat v < n" "v \<notin> set cols" and chk: "check_index_list n vs (v # cols) = Inr ()"
        using Cons.prems(1) by (auto split: if_splits)
      have idx: "to_index v = nat v"
        using v(1,2) Cons.prems(2) by (simp add: to_index_def max_u32_def)
      have new: "nat v \<notin> set cur" using v(1,3) Cons.prems(3,5) by (auto dest!: eq_nat_nat_iff[THEN iffD1, rotated 2] subsetD)
      have "(\<forall>g \<in> set (fst (split_rows vs (cur @ [to_index v]))). distinct g \<and> set g \<subseteq> {..<n}) \<and>
          length (fst (split_rows vs (cur @ [to_index v]))) = count_rows vs \<and>
          (vs \<noteq> [] \<and> last vs = -1 \<longrightarrow> snd (split_rows vs (cur @ [to_index v])) = [])"
        by (rule Cons.IH[OF chk]) (use Cons.prems v new idx in auto)
      then show ?thesis using False by (auto simp: count_rows_def)
    qed
  qed (simp add: count_rows_def)
  then show "\<forall>g \<in> set (fst (split_rows vs cur)). distinct g \<and> set g \<subseteq> {..<n}"
    "length (fst (split_rows vs cur)) = count_rows vs" "vs \<noteq> [] \<Longrightarrow> last vs = -1 \<Longrightarrow> snd (split_rows vs cur) = []" by blast+
qed

lemma valid_index_rows:
  assumes "validate_index_list vs n = Inr ()" "n \<le> max_u32"
  shows "\<forall>g \<in> set (index_rows vs). distinct g \<and> set g \<subseteq> {..<n}" "length (index_rows vs) = count_rows vs"
    "snd (split_rows vs []) = []"
  using assms check_index_split[of n vs "[]" "[]"]
  by (auto simp: validate_index_list_def index_rows_def count_rows_def split: if_splits)

definition entries_of :: "nat list list \<Rightarrow> nat \<Rightarrow> nat \<Rightarrow> nat" where
  "entries_of rs r c = (if c \<in> set (rs ! r) then 1 else 0)"

lemma count_list_distinct: "distinct xs \<Longrightarrow> count_list xs x = (if x \<in> set xs then 1 else 0)"
  by (induction xs) auto

lemma flatten_nested_Inr:
  assumes "flatten_nested f D K n bound nested = Inr x" "n \<le> max_u32"
  shows "length nested = n" "n < max_u32" "sum_list (map length nested) \<le> max_u32"
proof -
  have "n \<noteq> max_u32"
  proof
    assume "n = max_u32"
    then have "u32 (n + 1) = 0" by (simp add: u32_def max_u32_def)
    then show False using assms by (simp add: flatten_nested_def vset_def split: if_splits)
  qed
  then show "length nested = n" "n < max_u32" "sum_list (map length nested) \<le> max_u32"
    using assms by (auto simp: flatten_nested_def rbind_Inr_iff throw_if_nnz_exceeds_index_range_def split: if_splits)
qed

lemma terminated_rows_rep:
  assumes v: "validate_index_list vs n = Inr ()" "n \<le> max_u32" and m: "sparse_from_terminated_rows vs n = Inr m"
  shows "rep m (count_rows vs) n (entries_of (index_rows vs))"
proof -
  note g = valid_index_rows[OF v]
  have n: "u32 n = n" using v(2) by simp
  from m g(3) obtain m0 where m0: "from_nested_csr (u32 (count_rows vs)) n (index_rows vs) = Inr m0" "m = to_csc m0"
    using g(2) n by (auto simp: sparse_from_terminated_rows_def index_rows_def rbind_Inr_iff split: prod.splits if_splits)
  then obtain x where x: "flatten_nested ''sparse_binary_matrix::from_nested_csr'' ''num_rows'' ''column'' (u32 (count_rows vs)) n (index_rows vs) = Inr x"
    by (auto simp: from_nested_csr_def rbind_Inr_iff)
  note b = flatten_nested_Inr[OF x u32_le]
  have k: "u32 (count_rows vs) = count_rows vs" using b(1) g(2) by simp
  have at: "count_list (index_rows vs ! r) c = entries_of (index_rows vs) r c" if "r < count_rows vs" for r c
    using g(1,2) that nth_mem[of r "index_rows vs"] by (auto simp: entries_of_def count_list_distinct)
  have "rep m0 (count_rows vs) n (entries_of (index_rows vs))"
  proof -
    have "\<forall>g \<in> set (index_rows vs). \<forall>r \<in> set g. r < n" using g(1) by blast
    from from_nested_csr_groups[OF g(2) _ v(2) b(3) this] have "sbm_ok m0 \<and> sbm_layout m0 = CSR \<and>
      sbm_rows m0 = count_rows vs \<and> sbm_cols m0 = n \<and> groups m0 = index_rows vs" using m0(1) b(2) k by auto
    then show ?thesis using at by (auto simp: rep_def mult_at_def)
  qed
  then show ?thesis unfolding m0(2) rep_def using to_csc_props[of m0] by auto
qed

section \<open>Stacking\<close>

lemma entries_of_append:
  "r < length rs + length qs \<Longrightarrow>
     entries_of (rs @ qs) r c = (if r < length rs then entries_of rs r c else entries_of qs (r - length rs) c)"
  by (auto simp: entries_of_def nth_append)

lemma zero_matrix_Inr: "zero_matrix 0 nc = Inr m \<Longrightarrow> nc \<le> max_u32 \<Longrightarrow> rep m 0 nc f"
proof -
  assume m: "zero_matrix 0 nc = Inr m" and nc: "nc \<le> max_u32"
  then obtain x where "flatten_nested ''sparse_binary_matrix::from_nested_csc'' ''num_cols'' ''row'' nc 0 (replicate nc []) = Inr x"
    by (auto simp: zero_matrix_def from_nested_csc_def rbind_Inr_iff)
  from flatten_nested_Inr(2)[OF this nc] show "rep m 0 nc f" using zero_matrix_rep[of nc f] m by auto
qed

lemma vstack_Inr:
  assumes a: "rep a m nc f" and b: "rep b n nc g" and x: "vstack a b = Inr x"
  shows "rep x (m + n) nc (\<lambda>r c. if r < m then f r c else g (r - m) c)" "m + n \<le> max_u32"
proof -
  note A = repD[OF a] and B = repD[OF b]
  let ?cols = "map (\<lambda>c. to_nested_csc a ! c @ map (\<lambda>r. u32 (m + r)) (to_nested_csc b ! c)) [0..<nc]"
  have mn: "m + n \<le> max_u32" and fn: "from_nested_csc (m + n) nc ?cols = Inr x"
    using x A(2,3) B(2,3) by (auto simp: vstack_def Let_def split: if_splits)
  then obtain y where "flatten_nested ''sparse_binary_matrix::from_nested_csc'' ''num_cols'' ''row'' nc (m + n) ?cols = Inr y"
    by (auto simp: from_nested_csc_def rbind_Inr_iff)
  note fl = flatten_nested_Inr[OF this A(6)]
  have len: "length (to_nested_csc a) = nc" "length (to_nested_csc b) = nc"
    using nested_csc_rep(1)[OF a] nested_csc_rep(1)[OF b] by auto
  have "sum_list (map length ?cols) = (\<Sum>c<nc. length (to_nested_csc a ! c)) + (\<Sum>c<nc. length (to_nested_csc b ! c))"
    by (simp add: comp_def interv_sum_list_conv_sum_set_nat atLeast0LessThan sum.distrib)
  also have "\<dots> = sum_list (map length (to_nested_csc a)) + sum_list (map length (to_nested_csc b))"
    by (simp add: sum_list_sum_nth len atLeast0LessThan)
  also have "\<dots> = nnz m nc f + nnz n nc g"
    using cols_rep_length[OF cols_rep_nested[OF a]] cols_rep_length[OF cols_rep_nested[OF b]] by simp
  finally have "nnz m nc f + nnz n nc g \<le> max_u32" using fl(3) by simp
  from vstack_rep[OF a b mn fl(2) this] show "rep x (m + n) nc (\<lambda>r c. if r < m then f r c else g (r - m) c)"
    using x by auto
  show "m + n \<le> max_u32" by (rule mn)
qed

fun stacked_seams :: "nat \<Rightarrow> seam_spec_entry list \<Rightarrow> seam list" where
  "stacked_seams r [] = []"
| "stacked_seams r (e # es) =
     \<lparr>seam_ident = sse_id e, row_begin = r, row_end = r + count_rows (sse_H_sparse e)\<rparr> #
     stacked_seams (r + count_rows (sse_H_sparse e)) es"

definition all_rows :: "seam_spec_entry list \<Rightarrow> nat list list" where
  "all_rows es = concat (map (\<lambda>e. index_rows (sse_H_sparse e)) es)"

definition row_numbers :: "seam_spec_entry list \<Rightarrow> nat list" where
  "row_numbers es = concat (map (\<lambda>e. [0..<count_rows (sse_H_sparse e)]) es)"

definition built :: "nat \<Rightarrow> seam_spec_entry list \<Rightarrow> extended_dem \<Rightarrow> nat \<Rightarrow> bool" where
  "built n es d cur \<longleftrightarrow> cur = length (all_rows es) \<and> cur \<le> max_u32 \<and> seams d = stacked_seams 0 es \<and> distinct (map sse_id es) \<and>
     tags d = row_numbers es \<and>
     (sbm_rows (ed_H d) = 0 \<and> sbm_cols (ed_H d) = 0 \<and> cur = 0 \<or> rep (ed_H d) cur n (entries_of (all_rows es)))"

lemma stacked_seams_append:
  "(\<And>e. e \<in> set es \<Longrightarrow> length (index_rows (sse_H_sparse e)) = count_rows (sse_H_sparse e)) \<Longrightarrow>
   stacked_seams r (es @ fs) = stacked_seams r es @ stacked_seams (r + length (all_rows es)) fs"
  by (induction es arbitrary: r) (simp_all add: all_rows_def add.assoc)

lemma seam_idents_stacked [simp]: "map seam_ident (stacked_seams r es) = map sse_id es"
  by (induction es arbitrary: r) simp_all

lemma add_seam_rows_built:
  assumes b: "built n es d cur" and n: "n \<le> max_u32"
    and v: "\<And>x. x \<in> set (es @ [e]) \<Longrightarrow> validate_index_list (sse_H_sparse x) n = Inr ()"
    and st: "add_seam_rows n e (d, cur) = Inr (d', cur')"
  shows "built n (es @ [e]) d' cur'" "ed_rates d' = ed_rates d" "ed_O d' = ed_O d"
proof -
  let ?k = "count_rows (sse_H_sparse e)"
  have un: "u32 n = n" using n by simp
  from st obtain S where S: "sparse_from_terminated_rows (sse_H_sparse e) n = Inr S"
    by (auto simp: add_seam_rows_def rbind_Inr_iff Let_def split: prod.splits)
  have rS: "rep S ?k n (entries_of (index_rows (sse_H_sparse e)))" using terminated_rows_rep[OF v n S] by simp
  note DS = repD[OF rS]
  from st S obtain H where H: "(if sbm_rows (ed_H d) = 0 \<and> sbm_cols (ed_H d) = 0
        then if 0 < ?k then Inr S else zero_matrix 0 n
        else if 0 < ?k then vstack (ed_H d) S else Inr (ed_H d)) = Inr H"
    and dup: "\<not> has_seam (d\<lparr>ed_H := H\<rparr>) (sse_id e)" and cur': "cur' = u32 (cur + ?k)"
    and d': "d' = d\<lparr>ed_H := H, seams := seams d @ [\<lparr>seam_ident = sse_id e, row_begin = cur, row_end = u32 (cur + ?k)\<rparr>],
               tags := tags d @ [0..<?k]\<rparr>"
    by (auto simp: add_seam_rows_def add_seam_def rbind_Inr_iff Let_def DS(2) un split: if_splits)
  have len: "length (index_rows (sse_H_sparse x)) = count_rows (sse_H_sparse x)" if "x \<in> set (es @ [e])" for x
    using valid_index_rows(2)[OF v[OF that] n] .
  have k: "length (index_rows (sse_H_sparse e)) = ?k" using len by simp
  note B = b[unfolded built_def]
  have all: "all_rows (es @ [e]) = all_rows es @ index_rows (sse_H_sparse e)" by (simp add: all_rows_def)
  have rH: "rep H (cur + ?k) n (entries_of (all_rows (es @ [e]))) \<and> cur + ?k \<le> max_u32"
  proof (cases "sbm_rows (ed_H d) = 0 \<and> sbm_cols (ed_H d) = 0")
    case True
    then have c0: "cur = 0" using B repD(2)[of "ed_H d" cur n] by auto
    then have nil: "all_rows es = []" using B by simp
    show ?thesis
    proof (cases "0 < ?k")
      case True
      then have "H = S" using H \<open>sbm_rows (ed_H d) = 0 \<and> sbm_cols (ed_H d) = 0\<close> by simp
      then show ?thesis using rS DS(5) c0 by (simp add: all nil)
    next
      case False
      then have "zero_matrix 0 n = Inr H" using H True by simp
      then show ?thesis using zero_matrix_Inr[OF _ n] c0 False by simp
    qed
  next
    case False
    then have rep: "rep (ed_H d) cur n (entries_of (all_rows es))" using B by blast
    show ?thesis
    proof (cases "0 < ?k")
      case True
      then have vs: "vstack (ed_H d) S = Inr H" using H False by simp
      show ?thesis
        using vstack_Inr[OF rep rS vs] B unfolding all
        by (auto elim!: rep_cong simp: entries_of_append k)
    next
      case k0: False
      then have "H = ed_H d" using H False by simp
      moreover have "index_rows (sse_H_sparse e) = []" using k k0 by simp
      ultimately show ?thesis using rep B k0 by (simp add: all)
    qed
  qed
  have "cur' = cur + ?k" using rH cur' by simp
  moreover have "sse_id e \<notin> sse_id ` set es"
  proof -
    have "seam_ident ` set (seams d) = sse_id ` set es"
      using B by (metis list.set_map seam_idents_stacked)
    moreover have "sse_id e \<notin> seam_ident ` set (seams d)" using dup by (auto simp: has_seam_def list_ex_iff)
    ultimately show ?thesis by simp
  qed
  ultimately show "built n (es @ [e]) d' cur'"
    using B rH len unfolding built_def d'
    by (simp add: all k stacked_seams_append row_numbers_def)
  show "ed_rates d' = ed_rates d" "ed_O d' = ed_O d" by (simp_all add: d')
qed

lemma add_all_seams:
  assumes "built n es d cur" "n \<le> max_u32"
    and "\<And>x. x \<in> set (es @ fs) \<Longrightarrow> validate_index_list (sse_H_sparse x) n = Inr ()"
    and "rfold (add_seam_rows n) fs (d, cur) = Inr (d', cur')"
  shows "built n (es @ fs) d' cur' \<and> ed_rates d' = ed_rates d \<and> ed_O d' = ed_O d"
  using assms
proof (induction fs arbitrary: es d cur)
  case (Cons e fs)
  then obtain d1 c1 where 1: "add_seam_rows n e (d, cur) = Inr (d1, c1)" "rfold (add_seam_rows n) fs (d1, c1) = Inr (d', cur')"
    by (auto simp: rbind_Inr_iff)
  have s: "built n (es @ [e]) d1 c1" "ed_rates d1 = ed_rates d" "ed_O d1 = ed_O d"
    using add_seam_rows_built[OF Cons.prems(1,2) _ 1(1)] Cons.prems(3) by auto
  show ?case using Cons.IH[OF s(1) Cons.prems(2) _ 1(2)] Cons.prems(3) s(2,3) by simp
qed simp

section \<open>The chunk\<close>

lemma stacked_seams_bounds:
  "s \<in> set (stacked_seams r es) \<Longrightarrow> r \<le> row_begin s \<and> row_begin s \<le> row_end s \<and>
     row_end s \<le> r + sum_list (map (\<lambda>e. count_rows (sse_H_sparse e)) es)"
  by (induction es arbitrary: r) (auto simp: add.assoc dest!: add_leD1, fastforce+)

lemma stacked_seams_sorted: "sorted_wrt (\<lambda>s t. row_end s \<le> row_begin t) (stacked_seams r es)"
  by (induction es arbitrary: r) (auto dest: stacked_seams_bounds)

lemma stacked_valid:
  assumes s: "seams d = stacked_seams 0 es" and t: "length (tags d) = sum_list (map (\<lambda>e. count_rows (sse_H_sparse e)) es)"
    and H: "sbm_rows (ed_H d) = sum_list (map (\<lambda>e. count_rows (sse_H_sparse e)) es)" "sbm_rows (ed_H d) \<le> max_u32"
    and c: "sbm_cols (ed_H d) = ed_num_faults d" "sbm_cols (ed_O d) = ed_num_faults d"
  shows "ed_validate d = Inr ()" "num_interior_rows d = 0"
proof -
  let ?S = "stacked_seams 0 es"
  have bd: "row_begin x \<le> row_end x \<and> row_end x \<le> sbm_rows (ed_H d)" if "x \<in> set ?S" for x
    using stacked_seams_bounds[OF that] H(1) by simp
  have w: "seam_num_rows x = row_end x - row_begin x" if "x \<in> set ?S" for x
    using bd[OF that] H(2) by (simp add: seam_num_rows_eq)
  have "sum_list (map (\<lambda>x. row_end x - row_begin x) (stacked_seams r es)) = sum_list (map (\<lambda>e. count_rows (sse_H_sparse e)) es)" for r
    by (induction es arbitrary: r) auto
  note ends = this[of 0]
  have nums: "map seam_num_rows ?S = map (\<lambda>x. row_end x - row_begin x) ?S" using w by simp
  have tot: "seam_total (seams d) = sbm_rows (ed_H d)"
    unfolding seam_total_sum s nums ends using H by simp
  let ?B = "map (\<lambda>s. (row_begin s, row_end s)) (filter (\<lambda>s. 0 < seam_num_rows s) ?S)"
  have sw: "sorted_wrt (\<lambda>p q. snd p \<le> fst q) ?B"
    using sorted_wrt_filter[OF stacked_seams_sorted] by (simp add: sorted_wrt_map)
  have ne: "fst p < snd p" if "p \<in> set ?B" for p using that w by auto
  have "\<not> pair_less q p" if "p \<in> set ?B" "q \<in> set ?B" "snd p \<le> fst q" for p q
    using ne[OF that(1)] that(3) by (simp add: pair_less_def)
  then have "sorted_by pair_less ?B" using sw by (rule sorted_wrt_mono_rel)
  then have "ed_bands d = ?B" by (simp add: ed_bands_def s pairs.std_sort_id)
  then have "\<forall>i \<in> {1..<length (ed_bands d)}. snd (ed_bands d ! (i - 1)) \<le> fst (ed_bands d ! i)"
    using sorted_wrt_nth_less[OF sw] by auto
  then show "ed_validate d = Inr ()"
    unfolding ed_validate_iff using bd c t H tot s by simp
  show "num_interior_rows d = 0" using tot by (simp add: num_interior_rows_def)
qed

lemma validate_chunk_spec_lists:
  assumes "validate_chunk_spec spec = Inr ()"
  shows "cs_num_faults spec \<le> max_u32" "length (cs_error_rates spec) = cs_num_faults spec"
    "validate_index_list (cs_O_sparse spec) (cs_num_faults spec) = Inr ()"
    "\<And>e ids. e \<in> set (cs_seam_specs (expand ids spec)) \<Longrightarrow> validate_index_list (sse_H_sparse e) (cs_num_faults spec) = Inr ()"
proof -
  have l: "rfold (\<lambda>e _. rbind (validate_index_list (sse_H_sparse e) n) (\<lambda>_. validate_index_list (sse_O_sparse e) n)) es () = Inr () \<longleftrightarrow>
      (\<forall>e \<in> set es. validate_index_list (sse_H_sparse e) n = Inr () \<and> validate_index_list (sse_O_sparse e) n = Inr ())" for es n
    by (subst rfold_unit_iff[where u = "()"]) (simp add: rbind_Inr_iff)
  have v: "cs_num_faults spec \<le> max_u32" "length (cs_error_rates spec) = cs_num_faults spec"
    "validate_index_list (cs_H_sparse spec) (cs_num_faults spec) = Inr ()"
    "validate_index_list (cs_O_sparse spec) (cs_num_faults spec) = Inr ()"
    "\<forall>e \<in> set (cs_seam_specs spec). validate_index_list (sse_H_sparse e) (cs_num_faults spec) = Inr ()"
    using assms by (auto simp: validate_chunk_spec_def rbind_Inr_iff l split: if_splits)
  show "cs_num_faults spec \<le> max_u32" "length (cs_error_rates spec) = cs_num_faults spec"
    "validate_index_list (cs_O_sparse spec) (cs_num_faults spec) = Inr ()" by (rule v)+
  show "validate_index_list (sse_H_sparse e) (cs_num_faults spec) = Inr ()" if "e \<in> set (cs_seam_specs (expand ids spec))" for e ids
    using that v(3,5) by (auto simp: expand_def split: if_splits)
qed

lemma expand_fields [simp]:
  "cs_num_faults (expand ids spec) = cs_num_faults spec" "cs_O_sparse (expand ids spec) = cs_O_sparse spec"
  "cs_error_rates (expand ids spec) = cs_error_rates spec"
  by (simp_all add: expand_def)

lemma dem_chunk_from_spec_shape:
  assumes d: "dem_chunk_from_spec spec ids = Inr d"
  defines "es \<equiv> cs_seam_specs (expand ids spec)" and "n \<equiv> cs_num_faults spec"
  shows "chunk_wf d \<and> ed_validate d = Inr () \<and> num_interior_rows d = 0 \<and> ed_rates d = cs_error_rates spec \<and>
     seams d = stacked_seams 0 es \<and> tags d = row_numbers es \<and>
     rep (ed_H d) (length (all_rows es)) n (entries_of (all_rows es)) \<and>
     rep (ed_O d) (count_rows (cs_O_sparse spec)) n (entries_of (index_rows (cs_O_sparse spec)))"
proof -
  let ?d0 = "\<lparr>ed_H = sbm_default, ed_O = sbm_default, ed_rates = cs_error_rates spec, seams = [], tags = []\<rparr>"
  have v: "validate_chunk_spec spec = Inr ()"
    using d by (cases "validate_chunk_spec spec") (auto simp: dem_chunk_from_spec_def)
  note V = validate_chunk_spec_lists[OF v, folded n_def]
  have un: "u32 n = n" using V(1) by simp
  obtain d1 cur H OM where fold: "rfold (add_seam_rows n) es (?d0, 0) = Inr (d1, cur)"
    and H: "(if cur = 0 then zero_matrix 0 n else Inr (ed_H d1)) = Inr H"
    and OM: "sparse_from_terminated_rows (cs_O_sparse spec) n = Inr OM" and dd: "d = d1\<lparr>ed_H := H, ed_O := OM\<rparr>"
    using d un unfolding dem_chunk_from_spec_def v es_def n_def
    by (cases "list_ex (\<lambda>e. sse_O_sparse e \<noteq> []) (cs_seam_specs (expand ids spec))") (auto simp: Let_def rbind_Inr_iff cong: if_cong)
  have "built n [] ?d0 0" by (simp add: built_def all_rows_def row_numbers_def sbm_default_def)
  from add_all_seams[OF this V(1) _ fold] V(4)[of _ ids, folded es_def] have b: "built n es d1 cur" and r: "ed_rates d1 = cs_error_rates spec" by auto
  note B = b[unfolded built_def]
  have len: "length (index_rows (sse_H_sparse e)) = count_rows (sse_H_sparse e)" if "e \<in> set es" for e
    using valid_index_rows(2)[OF V(4)[OF that[unfolded es_def]] V(1)] .
  have sums: "length (all_rows es) = sum_list (map (\<lambda>e. count_rows (sse_H_sparse e)) es)"
    "length (row_numbers es) = sum_list (map (\<lambda>e. count_rows (sse_H_sparse e)) es)"
    using len by (auto simp: all_rows_def row_numbers_def length_concat comp_def intro!: arg_cong[of _ _ sum_list])
  have rH: "rep H cur n (entries_of (all_rows es))"
    using H B zero_matrix_Inr[OF _ V(1)] by (cases "cur = 0") auto
  have rO: "rep OM (count_rows (cs_O_sparse spec)) n (entries_of (index_rows (cs_O_sparse spec)))"
    by (rule terminated_rows_rep[OF V(3,1) OM])
  have nf: "ed_num_faults d = n" using V(1,2) r by (simp add: ed_num_faults_def dd)
  have "ed_validate d = Inr ()" "num_interior_rows d = 0"
    by (rule stacked_valid[of d es]; use B repD(2,3)[OF rH] repD(3)[OF rO] nf sums in \<open>simp add: dd\<close>)+
  moreover have "chunk_wf d"
    using repD(1)[OF rH] repD(1)[OF rO] V(1,2) r B by (auto simp: chunk_wf_def dd)
  ultimately show ?thesis using B rH rO r by (simp add: dd)
qed

text \<open>A list of rows, printed with the terminator \<open>-1\<close> after every row; printing is injective.\<close>

definition terminated :: "nat list list \<Rightarrow> int list" where
  "terminated rows = concat (map (\<lambda>r. map int r @ [-1]) rows)"

lemma terminated_append: "terminated (xs @ ys) = terminated xs @ terminated ys"
  by (simp add: terminated_def)

lemma split_terminated:
  "\<forall>v \<in> set vs. v = -1 \<or> 0 \<le> v \<and> v \<le> int max_u32 \<Longrightarrow>
   map int cur @ vs = terminated (fst (split_rows vs cur)) @ map int (snd (split_rows vs cur))"
proof (induction vs arbitrary: cur)
  case (Cons v vs)
  show ?case
  proof (cases "v = -1")
    case True
    then show ?thesis using Cons.IH [of "[]"] Cons.prems by (auto simp: terminated_def split: prod.split)
  next
    case False
    then have "int (to_index v) = v" using Cons.prems by (simp add: to_index_def max_u32_def)
    then show ?thesis using False Cons.IH [of "cur @ [to_index v]"] Cons.prems by simp
  qed
qed (simp add: terminated_def)

lemma check_index_values: "check_index_list n vs cols = Inr () \<Longrightarrow> \<forall>v \<in> set vs. v = -1 \<or> 0 \<le> v \<and> v < int n"
  by (induction n vs cols rule: check_index_list.induct) (auto split: if_splits simp: not_le nat_less_iff)

lemma index_rows_terminated:
  assumes "validate_index_list vs n = Inr ()" "n \<le> max_u32"
  shows "vs = terminated (index_rows vs)"
proof -
  have "\<forall>v \<in> set vs. v = -1 \<or> 0 \<le> v \<and> v < int n"
    using assms(1) check_index_values by (fastforce simp: validate_index_list_def split: if_splits)
  then have "\<forall>v \<in> set vs. v = -1 \<or> 0 \<le> v \<and> v \<le> int max_u32" using assms(2) by fastforce
  from split_terminated [OF this, of "[]"] valid_index_rows(3) [OF assms] show ?thesis by (simp add: index_rows_def)
qed

lemma all_rows_terminated:
  "(\<And>e. e \<in> set es \<Longrightarrow> validate_index_list (sse_H_sparse e) n = Inr ()) \<Longrightarrow> n \<le> max_u32 \<Longrightarrow>
   concat (map sse_H_sparse es) = terminated (all_rows es)"
proof (induction es)
  case (Cons e es)
  then have "sse_H_sparse e = terminated (index_rows (sse_H_sparse e))" by (intro index_rows_terminated) simp_all
  then show ?case using Cons by (simp add: all_rows_def terminated_append)
qed (simp add: all_rows_def terminated_def)

text \<open>
  C18: A chunk built from a specification is well formed and passes \<open>extended_dem::validate\<close>. Its seams are those of
  the specification (the named ones, each with the shared rows, for the shorthand form), in that order, each directly
  below the one before, and they cover all rows; the tags number the rows of every seam; the detector and observable
  matrices have a single entry exactly at the positions of the rows whose printed form, with \<open>-1\<close> after every row, are
  the index lists of the specification.
\<close>

theorem dem_chunk_from_spec_type:
  assumes d: "dem_chunk_from_spec spec ids = Inr d"
  defines "es \<equiv> (if cs_H_sparse spec = [] then cs_seam_specs spec
      else map (\<lambda>i. \<lparr>sse_id = i, sse_H_sparse = cs_H_sparse spec, sse_O_sparse = []\<rparr>) ids)"
    and "n \<equiv> cs_num_faults spec"
  shows "chunk_wf d \<and> ed_validate d = Inr () \<and> num_interior_rows d = 0 \<and> ed_rates d = cs_error_rates spec \<and>
     seams d = stacked_seams 0 es \<and> tags d = row_numbers es \<and>
     (\<exists>rows. concat (map sse_H_sparse es) = terminated rows \<and> rep (ed_H d) (length rows) n (entries_of rows)) \<and>
     (\<exists>rows. cs_O_sparse spec = terminated rows \<and> rep (ed_O d) (length rows) n (entries_of rows))"
proof -
  have v: "validate_chunk_spec spec = Inr ()"
    using d by (cases "validate_chunk_spec spec") (auto simp: dem_chunk_from_spec_def)
  note V = validate_chunk_spec_lists [OF v]
  have es: "es = cs_seam_specs (expand ids spec)"
    using v by (auto simp: es_def expand_def validate_chunk_spec_def split: if_splits)
  have "length (index_rows (cs_O_sparse spec)) = count_rows (cs_O_sparse spec)" by (rule valid_index_rows(2) [OF V(3,1)])
  then show ?thesis
    using dem_chunk_from_spec_shape [OF d, folded es] index_rows_terminated [OF V(3,1)] all_rows_terminated [of es, OF V(4) [of _ ids] V(1)]
    unfolding n_def es by metis
qed

theorem dem_chunk_from_spec_type_witness:
  "\<exists>d. dem_chunk_from_spec plain_chunk_spec [8, 7] = Inr d \<and> chunk_wf d \<and> ed_validate d = Inr () \<and>
     (\<exists>rows. [0, -1, 0, 1, -1, 0, -1, 0, 1, -1] = terminated rows \<and> rep (ed_H d) (length rows) 2 (entries_of rows))"
proof -
  have "(case dem_chunk_from_spec plain_chunk_spec [8, 7] of Inr c \<Rightarrow> True | Inl _ \<Rightarrow> False)" by code_simp
  then obtain d where d: "dem_chunk_from_spec plain_chunk_spec [8, 7] = Inr d" by (auto split: sum.splits)
  show ?thesis using dem_chunk_from_spec_type [OF d] d by (simp add: plain_chunk_spec_def)
qed

end
