(* ===== verification/QEC_Chunk_Observables.thy ===== *)
theory QEC_Chunk_Observables
  imports QEC_Chunk_Compact QEC_Chunk_Build
begin

text \<open>
  The two forms of the observable map of a specification. \<open>dem_chunks_to_o_chunked\<close> keeps one entry per chunk of the
  compact chain and is walked by the decoder through \<open>for_each_flip\<close>; \<open>dem_chunks_to_o_sparse\<close> lists the columns of
  the full chain per observable. Grouping the flips of the first by observable gives the second.
\<close>

section \<open>Grouping flips by observable\<close>

definition add_flips :: "(nat \<times> nat) list \<Rightarrow> nat list list \<Rightarrow> nat list list" where
  "add_flips ps os = map (\<lambda>k. os ! k @ map fst (filter (\<lambda>p. snd p = k) ps)) [0..<length os]"

lemma length_add_flips [simp]: "length (add_flips ps os) = length os"
  by (simp add: add_flips_def)

lemma add_flips_Nil [simp]: "add_flips [] os = os"
  by (simp add: add_flips_def map_nth)

lemma add_flips_append: "add_flips (ps @ qs) os = add_flips qs (add_flips ps os)"
  by (simp add: add_flips_def)

lemma add_flips_one: "k < length os \<Longrightarrow> os[k := os ! k @ [x]] = add_flips [(x, k)] os"
  by (auto simp: add_flips_def intro!: nth_equalityI)

definition column_flips :: "sparse_binary_matrix \<Rightarrow> nat \<Rightarrow> (nat \<times> nat) list" where
  "column_flips m off = concat (map (\<lambda>fc. map (Pair (off + fc)) (vslice (sbm_ptr m ! fc) (sbm_ptr m ! (fc + 1)) (sbm_idx m)))
     [0..<sbm_cols m])"

lemma walk_all:
  "off + sbm_cols m \<le> N \<Longrightarrow> walk_chunks N (\<lambda>_. True) (m # ms) off = column_flips m off @ walk_chunks N (\<lambda>_. True) ms (off + sbm_cols m)"
  by (auto simp: column_flips_def intro!: arg_cong[of _ _ concat])

lemma push_rows_flips:
  "\<forall>r \<in> set rs. r < length os \<Longrightarrow>
   rfold (\<lambda>row os. rbind (vget os row) (\<lambda>l. vset os row (l @ [x]))) rs os = Inr (add_flips (map (Pair x) rs) os)"
proof (induction rs arbitrary: os)
  case (Cons r rs)
  then show ?case using add_flips_append[of "[(x, r)]" "map (Pair x) rs" os] by (simp add: add_flips_one)
qed simp

lemma push_columns_flips:
  assumes "\<forall>fc \<in> set fcs. fc + 1 < length ptr \<and> off + fc \<le> max_u32" "\<forall>i \<in> set idx. i < length os"
  shows "rfold (\<lambda>fc os. rbind (vget ptr fc) (\<lambda>b. rbind (vget ptr (fc + 1)) (\<lambda>e.
        rfold (\<lambda>row os. rbind (vget os row) (\<lambda>l. vset os row (l @ [u32 (off + fc)]))) (vslice b e idx) os))) fcs os =
     Inr (add_flips (concat (map (\<lambda>fc. map (Pair (off + fc)) (vslice (ptr ! fc) (ptr ! (fc + 1)) idx)) fcs)) os)"
  using assms
proof (induction fcs arbitrary: os)
  case (Cons fc fcs)
  have "\<forall>r \<in> set (vslice (ptr ! fc) (ptr ! (fc + 1)) idx). r < length os"
    using Cons.prems(2) set_vslice_subset by fastforce
  then show ?case using Cons by (simp add: push_rows_flips add_flips_append)
qed simp

section \<open>The flat observable rows\<close>

text \<open>The matrix of a chunk in the chunked map, and what the two maps need of a chunk.\<close>

definition obs_matrix :: "nat \<Rightarrow> extended_dem \<Rightarrow> sparse_binary_matrix res" where
  "obs_matrix k c = (if sbm_cols (ed_O c) = 0 then from_nested_csc k (ed_num_faults c) (replicate (ed_num_faults c) [])
     else Inr (to_csc (ed_O c)))"

definition obs_chunk :: "nat \<Rightarrow> extended_dem \<Rightarrow> bool" where
  "obs_chunk k c \<longleftrightarrow> sbm_ok (ed_O c) \<and> sbm_rows (ed_O c) = k \<and> sbm_cols (ed_O c) = ed_num_faults c"

lemma obs_matrix_ok:
  assumes "obs_chunk k c"
  obtains m where "obs_matrix k c = Inr m" "sbm_cols m = ed_num_faults c" "length (sbm_ptr m) = sbm_cols m + 1"
    "\<forall>i \<in> set (sbm_idx m). i < k" "sbm_cols (ed_O c) \<noteq> 0 \<Longrightarrow> m = to_csc (ed_O c)"
proof (cases "sbm_cols (ed_O c) = 0")
  case True
  have "k \<le> max_u32" using assms by (auto simp: obs_chunk_def dest: sbm_okD)
  then obtain m where "from_nested_csc k 0 [] = Inr m" "sbm_ok m" "sbm_layout m = CSC" "sbm_rows m = k" "sbm_cols m = 0"
    using from_nested_csc_groups[of "[]" 0 k] by (auto simp: max_u32_def)
  then show ?thesis
    using that[of m] True assms sbm_okD(1,2)[of m]
    by (auto simp: obs_matrix_def obs_chunk_def num_groups_def index_bound_def ptr_ok_def)
next
  case False
  have ok: "sbm_ok (ed_O c)" "sbm_rows (ed_O c) = k" "sbm_cols (ed_O c) = ed_num_faults c"
    using assms by (auto simp: obs_chunk_def)
  note p = to_csc_props[OF ok(1)]
  show ?thesis
    by (rule that[of "to_csc (ed_O c)"]) (use False ok p sbm_okD(1,2)[OF p(1)] in
      \<open>auto simp: obs_matrix_def num_groups_def index_bound_def ptr_ok_def\<close>)
qed

definition obs_step :: "extended_dem \<Rightarrow> nat list list \<times> nat \<Rightarrow> (nat list list \<times> nat) res" where
  "obs_step c st = (case st of (o_sparse, coff) \<Rightarrow>
     let nc = ed_num_faults c in
     if 0 < nc \<and> max_u32 < coff + nc - 1
     then Inl (Runtime_error ''dem_chunks_to_o_sparse: global fault column exceeds uint32_t'')
     else if sbm_cols (ed_O c) = 0 then Inr (o_sparse, coff + nc)
     else let m = to_csc (ed_O c) in
       rbind (rfold (\<lambda>fc os. rbind (vget (sbm_ptr m) fc) (\<lambda>b. rbind (vget (sbm_ptr m) (fc + 1)) (\<lambda>e.
           rfold (\<lambda>row os. rbind (vget os row) (\<lambda>l. vset os row (l @ [u32 (coff + fc)])))
             (vslice b e (sbm_idx m)) os))) [0..<nc] o_sparse) (\<lambda>os.
         Inr (os, coff + nc)))"

lemma obs_step_flips:
  assumes c: "obs_chunk k c" and os: "length os = k" and st: "obs_step c (os, off) = Inr (os', off')"
    and m: "obs_matrix k c = Inr m"
  shows "os' = add_flips (column_flips m off) os \<and> off' = off + ed_num_faults c"
proof -
  obtain m' where m': "obs_matrix k c = Inr m'" "sbm_cols m' = ed_num_faults c" "length (sbm_ptr m') = sbm_cols m' + 1"
    "\<forall>i \<in> set (sbm_idx m'). i < k" "sbm_cols (ed_O c) \<noteq> 0 \<Longrightarrow> m' = to_csc (ed_O c)"
    using obs_matrix_ok[OF c] by blast
  then have mm: "m' = m" using m by simp
  show ?thesis
  proof (cases "sbm_cols (ed_O c) = 0")
    case True
    then have "ed_num_faults c = 0" using c by (simp add: obs_chunk_def)
    then show ?thesis using True st m'(2) mm by (auto simp: obs_step_def column_flips_def)
  next
    case False
    then have "m = to_csc (ed_O c)" using m'(5) mm by simp
    moreover have "\<forall>fc \<in> set [0..<ed_num_faults c]. fc + 1 < length (sbm_ptr m) \<and> off + fc \<le> max_u32"
      using st m'(2,3) mm by (auto simp: obs_step_def Let_def split: if_splits)
    from push_columns_flips[OF this, of "sbm_idx m" os] have
      "rfold (\<lambda>fc os. rbind (vget (sbm_ptr m) fc) (\<lambda>b. rbind (vget (sbm_ptr m) (fc + 1)) (\<lambda>e.
        rfold (\<lambda>row os. rbind (vget os row) (\<lambda>l. vset os row (l @ [u32 (off + fc)]))) (vslice b e (sbm_idx m)) os)))
        [0..<ed_num_faults c] os = Inr (add_flips (column_flips m off) os)"
      using m'(2,4) mm os by (simp add: column_flips_def)
    ultimately show ?thesis
      using st False by (auto simp: obs_step_def Let_def split: if_splits)
  qed
qed

lemma obs_loop_flips:
  assumes "\<forall>c \<in> set cs. obs_chunk k c" "length os = k" "rfold obs_step cs (os, off) = Inr (os', off')"
    and "rmap (obs_matrix k) cs = Inr ms" "off + sum_list (map ed_num_faults cs) \<le> N"
  shows "os' = add_flips (walk_chunks N (\<lambda>_. True) ms off) os"
  using assms
proof (induction cs arbitrary: os off ms)
  case (Cons c cs)
  from Cons.prems(3) obtain os1 off1 where 1: "obs_step c (os, off) = Inr (os1, off1)" "rfold obs_step cs (os1, off1) = Inr (os', off')"
    by (auto simp: rbind_Inr_iff)
  from Cons.prems(4) obtain m ms' where m: "obs_matrix k c = Inr m" "rmap (obs_matrix k) cs = Inr ms'" "ms = m # ms'"
    by (auto simp: rbind_Inr_iff)
  have c: "obs_chunk k c" using Cons.prems(1) by simp
  have cols: "sbm_cols m = ed_num_faults c" using obs_matrix_ok[OF c] m(1) by (metis sum.inject(2))
  have s: "os1 = add_flips (column_flips m off) os" "off1 = off + ed_num_faults c"
    using obs_step_flips[OF c Cons.prems(2) 1(1) m(1)] by auto
  have "os' = add_flips (walk_chunks N (\<lambda>_. True) ms' off1) os1"
    by (rule Cons.IH[OF _ _ 1(2) m(2)]) (use Cons.prems s in auto)
  moreover have "off + sbm_cols m \<le> N" using Cons.prems(5) cols by simp
  ultimately show ?case unfolding m(3) walk_all[OF \<open>off + sbm_cols m \<le> N\<close>] using s cols by (simp add: add_flips_append)
qed simp

lemma o_sparse_loop:
  assumes rows: "dem_chunks_to_o_sparse chunks = Inr rows"
  obtains off where "chunks \<noteq> []" "rfold obs_step chunks (replicate (ed_num_observables (chunks ! 0)) [], 0) = Inr (rows, off)"
    "\<forall>c \<in> set chunks. ed_num_observables c = ed_num_observables (chunks ! 0)"
proof -
  let ?k = "ed_num_observables (chunks ! 0)"
  have ne: "chunks \<noteq> []" using rows by (auto simp: dem_chunks_to_o_sparse_def)
  have unf: "dem_chunks_to_o_sparse chunks =
      rbind (rfold (\<lambda>c _. ed_validate c) chunks ()) (\<lambda>_.
      rbind (rfold (\<lambda>i _. if ed_num_observables (chunks ! i) \<noteq> ?k
                         then Inl (Invalid_argument ''dem_chunks_to_o_sparse: observable count mismatch at chunk'') else Inr ())
               [1..<length chunks] ()) (\<lambda>_.
      rbind (rfold obs_step chunks (replicate ?k [], 0)) (\<lambda>(o_sparse, coff). Inr o_sparse)))"
    unfolding dem_chunks_to_o_sparse_def obs_step_def Let_def using ne by (simp add: case_prod_unfold)
  from rows obtain off where off: "rfold obs_step chunks (replicate ?k [], 0) = Inr (rows, off)"
    and l: "rfold (\<lambda>i _. if ed_num_observables (chunks ! i) \<noteq> ?k
                         then Inl (Invalid_argument ''dem_chunks_to_o_sparse: observable count mismatch at chunk'') else Inr ())
               [1..<length chunks] () = Inr ()"
    unfolding unf by (auto simp: rbind_Inr_iff)
  have "\<forall>i \<in> {1..<length chunks}. ed_num_observables (chunks ! i) = ?k"
    using l unfolding rfold_unit_iff[where u = "()"] by (auto split: if_splits)
  then have "ed_num_observables (chunks ! i) = ?k" if "i < length chunks" for i using that by (cases "i = 0") auto
  then have "\<forall>c \<in> set chunks. ed_num_observables c = ?k" by (metis in_set_conv_nth)
  then show ?thesis by (rule that[OF ne off])
qed

section \<open>The chunked map\<close>

definition kept :: "nat \<Rightarrow> nat \<Rightarrow> 'a list \<Rightarrow> 'a list" where
  "kept p copies xs = take (p + 1) xs @ drop (p + max 1 copies) xs"

lemma filter_kept:
  assumes "p + copies \<le> L \<or> L \<le> p" "copies \<noteq> 0"
  shows "filter (\<lambda>i. \<not> (1 < copies \<and> p < i \<and> i < p + copies)) [0..<L] = kept p copies [0..<L]"
proof (cases "L \<le> p \<or> copies = 1")
  case True
  have "filter (\<lambda>i. \<not> (1 < copies \<and> p < i \<and> i < p + copies)) [0..<L] = [0..<L]"
    using True by (auto simp: filter_id_conv)
  then show ?thesis using True by (auto simp: kept_def simp del: drop_upt)
next
  case False
  then have c: "1 < copies" "p + copies \<le> L" using assms by auto
  have "[0..<L] = [0..<p + 1] @ [p + 1..<p + copies] @ [p + copies..<L]"
    using c upt_add_eq_append[of 0 "p + 1" "L - (p + 1)"] upt_add_eq_append[of "p + 1" "p + copies" "L - (p + copies)"]
    by (simp del: upt_Suc)
  moreover have "filter (\<lambda>i. \<not> (1 < copies \<and> p < i \<and> i < p + copies)) [0..<p + 1] = [0..<p + 1]"
    "filter (\<lambda>i. \<not> (1 < copies \<and> p < i \<and> i < p + copies)) [p + 1..<p + copies] = []"
    "filter (\<lambda>i. \<not> (1 < copies \<and> p < i \<and> i < p + copies)) [p + copies..<L] = [p + copies..<L]"
    using c by (auto simp: filter_id_conv filter_empty_conv simp del: upt_Suc)
  ultimately have "filter (\<lambda>i. \<not> (1 < copies \<and> p < i \<and> i < p + copies)) [0..<L] = [0..<p + 1] @ [p + copies..<L]"
    by (simp del: upt_Suc)
  then show ?thesis using c by (simp add: kept_def take_upt drop_upt max_def del: upt_Suc)
qed

lemma visits_split:
  "visits \<lparr>com_columns = A @ x # B, com_repeating = length A, com_repeat_count = R\<rparr> = A @ replicate R x @ B"
proof -
  have "concat (map (\<lambda>e. replicate (if e = p then R else 1) (cols ! e)) [a..<b]) = map (\<lambda>e. cols ! e) [a..<b]"
    if "b \<le> p \<or> p < a" for a b p and cols :: "sparse_binary_matrix list"
  proof -
    have "map (\<lambda>e. replicate (if e = p then R else 1) (cols ! e)) [a..<b] = map (\<lambda>e. [cols ! e]) [a..<b]" using that by auto
    then show ?thesis by (simp only: concat_map_singleton)
  qed
  note outside = this
  let ?cols = "A @ x # B" and ?p = "length A"
  have "[0..<length ?cols] = [0..<?p] @ ?p # [Suc ?p..<length ?cols]"
    using upt_conv_Cons[of ?p "length ?cols"] upt_add_eq_append[of 0 ?p "Suc (length B)"] by (simp del: upt_Suc)
  moreover have "map (\<lambda>e. ?cols ! e) [0..<?p] = A" by (rule nth_equalityI) (auto simp: nth_append simp del: upt_Suc)
  moreover have "map (\<lambda>e. ?cols ! e) [Suc ?p..<length ?cols] = B" by (rule nth_equalityI) (auto simp: nth_append simp del: upt_Suc)
  ultimately show ?thesis
    using outside[of ?p ?p 0 ?cols] outside[of "length ?cols" ?p "Suc ?p" ?cols] by (simp add: visits_def del: upt_Suc cong: if_cong)
qed

lemma num_error_columns_visits: "num_error_columns m = sum_list (map sbm_cols (visits m))"
proof -
  have "sum_list (map sbm_cols (concat (map (\<lambda>e. replicate (h e) (cols ! e)) es))) = sum_list (map (\<lambda>e. sbm_cols (cols ! e) * h e) es)"
    for h :: "nat \<Rightarrow> nat" and cols es by (induction es) (auto simp: sum_list_replicate)
  then show ?thesis unfolding num_error_columns_def visits_def by (rule sym)
qed

lemma chunk_at_observables:
  assumes "chunk_at s (x, b) = Inr d"
  obtains p where "get_phase s x = Inr p" "sparse_from_terminated_rows (cs_O_sparse p) (cs_num_faults p) = Inr (ed_O d)"
    "ed_rates d = cs_error_rates p" "obs_chunk (ed_num_observables d) d"
proof -
  obtain p ids where p: "get_phase s x = Inr p" and d: "dem_chunk_from_spec p ids = Inr d"
    using assms by (auto simp: chunk_at_def rbind_Inr_iff)
  note sh = dem_chunk_from_spec_shape[OF d]
  have v: "validate_chunk_spec p = Inr ()" using d by (cases "validate_chunk_spec p") (auto simp: dem_chunk_from_spec_def)
  have "sparse_from_terminated_rows (cs_O_sparse p) (cs_num_faults p) = Inr (ed_O d)"
    using d v by (cases "list_ex (\<lambda>e. sse_O_sparse e \<noteq> []) (cs_seam_specs (expand ids p))")
      (auto simp: dem_chunk_from_spec_def Let_def rbind_Inr_iff)
  moreover have "obs_chunk (ed_num_observables d) d"
    using sh validate_chunk_spec_lists(1,2)[OF v] by (auto simp: obs_chunk_def ed_num_observables_def ed_num_faults_def rep_def)
  ultimately show ?thesis using that[OF p] sh by blast
qed

lemma from_spec_observables:
  assumes "dem_chunks_from_spec s = Inr chunks" "c \<in> set chunks"
  shows "obs_chunk (ed_num_observables c) c"
proof -
  obtain seq where "rmap (chunk_at s) (marked seq) = Inr chunks"
    using assms(1) by (auto simp: dem_chunks_from_spec_marked rbind_Inr_iff)
  then obtain x b where "chunk_at s (x, b) = Inr c" using assms(2) by (force simp: rmap_Inr_iff)
  then show ?thesis using chunk_at_observables by metis
qed

lemma compact_copies_agree:
  assumes on: "self_on_chain s" and c: "dem_chunks_to_compact_chain s = Inr c" and two: "2 \<le> cc_repeat_rounds c"
  shows "ed_O (cc_chunks c ! (cc_repeating c + 1)) = ed_O (cc_chunks c ! cc_repeating c)"
    "ed_rates (cc_chunks c ! (cc_repeating c + 1)) = ed_rates (cc_chunks c ! cc_repeating c)"
proof -
  have rp: "has_repeating_phase s" using c two by (auto simp: dem_chunks_to_compact_chain_def rbind_Inr_iff split: if_splits)
  then obtain r ys where r: "repeating_rounds s = Inr r" and ys: "c = \<lparr>cc_chunks = ys, cc_repeating = rs_prefix r, cc_repeat_rounds = rs_length r\<rparr>"
    and d: "dem_chunks_from_spec (s\<lparr>num_rounds := Some (rs_prefix r + repeated_copies (rs_length r) + rs_suffix r)\<rparr>) = Inr ys"
    using c by (auto simp: dem_chunks_to_compact_chain_def rbind_Inr_iff)
  obtain x where x: "filter is_self (connections s) = [x]" using has_repeating_selfs rp r by blast
  obtain n where n: "num_rounds s = Some n"
    using r rp by (cases "num_rounds s") (auto simp: repeating_rounds_def rbind_Inr_iff)
  have k: "repeated_copies (rs_length r) = 2" using two ys by (simp add: repeated_copies_def compact_chain_repeating_visits_def)
  obtain P Q where seq: "phase_sequence (s\<lparr>num_rounds := Some (rs_prefix r + 2 + rs_suffix r)\<rparr>) = Inr (P @ replicate 2 (fst x) @ Q)"
    and lP: "length P = rs_prefix r" using compact_sequence[OF on x n r] unfolding k by metis
  obtain b M where M: "marked (fst x # Q) = (fst x, b) # M" by (cases Q) auto
  have mk: "marked (P @ replicate 2 (fst x) @ Q) = map (\<lambda>p. (p, False)) P @ (fst x, False) # (fst x, b) # M"
    using marked_repeated[of P 0 "fst x" Q] by (simp only: add_0 replicate_0 append_Nil M)
  have "rmap (chunk_at s) (marked (P @ replicate 2 (fst x) @ Q)) = Inr ys"
    using d seq by (auto simp: k dem_chunks_from_spec_marked rbind_Inr_iff)
  then have "chunk_at s (fst x, False) = Inr (ys ! length P)" "chunk_at s (fst x, b) = Inr (ys ! (length P + 1))"
    unfolding mk rmap_Inr_iff by (auto simp: nth_append)
  note at = this
  obtain p q where "get_phase s (fst x) = Inr p" "get_phase s (fst x) = Inr q"
    "sparse_from_terminated_rows (cs_O_sparse p) (cs_num_faults p) = Inr (ed_O (ys ! length P))"
    "sparse_from_terminated_rows (cs_O_sparse q) (cs_num_faults q) = Inr (ed_O (ys ! (length P + 1)))"
    "ed_rates (ys ! length P) = cs_error_rates p" "ed_rates (ys ! (length P + 1)) = cs_error_rates q"
    using chunk_at_observables[OF at(1)] chunk_at_observables[OF at(2)] by metis
  then show "ed_O (cc_chunks c ! (cc_repeating c + 1)) = ed_O (cc_chunks c ! cc_repeating c)"
    "ed_rates (cc_chunks c ! (cc_repeating c + 1)) = ed_rates (cc_chunks c ! cc_repeating c)"
    unfolding ys using lP by simp_all
qed

lemma visits_none: "visits \<lparr>com_columns = A, com_repeating = length A, com_repeat_count = R\<rparr> = A"
proof -
  have "map (\<lambda>e. replicate (if e = length A then R else 1) (A ! e)) [0..<length A] = map (\<lambda>e. [A ! e]) [0..<length A]" by auto
  then have "concat (map (\<lambda>e. replicate (if e = length A then R else 1) (A ! e)) [0..<length A]) = A"
    by (simp only: concat_map_singleton map_nth)
  then show ?thesis by (simp add: visits_def cong: if_cong)
qed

text \<open>The entries that the chunked map walks are the matrices of the chunks of the full chain.\<close>

lemma visits_full:
  assumes on: "self_on_chain s" and c: "dem_chunks_to_compact_chain s = Inr c" and agree: "f (cc_chunks c ! (cc_repeating c + 1)) = f (cc_chunks c ! cc_repeating c)
      \<or> cc_repeat_rounds c < 2"
  shows "visits \<lparr>com_columns = map f (kept (cc_repeating c) (repeated_copies (cc_repeat_rounds c)) (cc_chunks c)),
           com_repeating = cc_repeating c, com_repeat_count = cc_repeat_rounds c\<rparr> = map f (full_chain c)"
proof -
  let ?cs = "cc_chunks c" and ?p = "cc_repeating c" and ?R = "cc_repeat_rounds c"
  note shape = compact_chain_shape[OF on c]
  consider "?p = length ?cs" "?R = 1" | "?p < length ?cs" "?R = 1" | "?p + 2 \<le> length ?cs" "2 \<le> ?R"
    using shape(3,4) by (auto simp: repeated_copies_def compact_chain_repeating_visits_def split: if_splits)
  then show ?thesis
  proof cases
    case 1
    then show ?thesis using visits_none[of "map f ?cs" 1]
      by (simp add: kept_def full_chain_0 elided_rounds_le2 repeated_copies_def compact_chain_repeating_visits_def)
  next
    case 2
    obtain A x B where cs: "?cs = A @ x # B" "length A = ?p" using 2(1) id_take_nth_drop by fastforce
    show ?thesis using 2 visits_split[of "map f A" "f x" "map f B" 1] cs
      by (simp add: kept_def full_chain_0 elided_rounds_le2 repeated_copies_def compact_chain_repeating_visits_def)
  next
    case 3
    have p: "?p < length ?cs" "Suc ?p < length ?cs" using 3(1) by auto
    obtain A x y B where cs: "?cs = A @ x # y # B" "length A = ?p"
      using id_take_nth_drop[OF p(1)] Cons_nth_drop_Suc[OF p(2)] p by (metis length_take min.absorb4)
    have k: "repeated_copies ?R = 2" and el: "elided_rounds c = ?R - 2"
      using 3(2) by (simp_all add: elided_rounds_def repeated_copies_def compact_chain_repeating_visits_def)
    have fy: "f y = f x" using agree 3(2) cs by (simp add: nth_append)
    have "kept ?p 2 ?cs = A @ x # B" using cs by (simp add: kept_def flip: cs(2))
    moreover have "map f (full_chain c) = map f A @ replicate ?R (f x) @ map f B"
    proof -
      have "full_chain c = A @ replicate (?R - 2) x @ x # y # B"
        using cs by (simp add: full_chain_def el flip: cs(2))
      moreover have "replicate (?R - 2) (f x) @ f x # f x # map f B = replicate ?R (f x) @ map f B"
        using 3(2) by (metis append_Cons replicate_Suc replicate_app_Cons_same le_add_diff_inverse add_2_eq_Suc)
      ultimately show ?thesis using fy by simp
    qed
    ultimately show ?thesis using visits_split[of "map f A" "f x" "map f B" ?R] cs(2) k by simp
  qed
qed

lemma repeated_copies_pos: "0 < R \<Longrightarrow> repeated_copies R \<noteq> 0 \<and> repeated_copies R \<le> R"
  by (auto simp: repeated_copies_def compact_chain_repeating_visits_def)

lemma o_chunked_entries:
  assumes ne: "chain \<noteq> []" and k: "\<forall>d \<in> set chain. ed_num_observables d = k \<and> obs_matrix k d = Inr (f d)"
    and p: "p + copies \<le> length chain \<or> p = length chain" and copies: "copies \<noteq> 0" "copies \<le> R"
  shows "dem_chunks_to_o_chunked chain p copies R = Inr \<lparr>com_columns = map f (kept p copies chain), com_repeating = p, com_repeat_count = R\<rparr>"
proof -
  let ?k = "ed_num_observables (chain ! 0)"
  have k0: "?k = k" using ne k by simp
  have counts: "rfold (\<lambda>i _. if ed_num_observables (chain ! i) \<noteq> ?k
        then Inl (Invalid_argument ''dem_chunks_to_o_chunked: observable count mismatch at chunk'') else Inr ()) [1..<length chain] () = Inr ()"
    unfolding rfold_unit_iff[where u = "()"] using k k0 by auto
  have idx: "map (\<lambda>i. f (chain ! i)) (kept p copies [0..<length chain]) = map f (kept p copies chain)"
  proof -
    have "map (\<lambda>i. f (chain ! i)) [0..<length chain] = map f chain" by (rule nth_equalityI) auto
    then show ?thesis by (simp add: kept_def flip: take_map drop_map del: drop_upt)
  qed
  have "rmap (\<lambda>i. obs_matrix k (chain ! i)) (kept p copies [0..<length chain]) = Inr (map (\<lambda>i. f (chain ! i)) (kept p copies [0..<length chain]))"
    by (rule rmap_pure) (use k in \<open>auto simp: kept_def dest: in_set_takeD in_set_dropD simp del: drop_upt\<close>)
  moreover have "filter (\<lambda>i. \<not> (1 < copies \<and> p < i \<and> i < p + copies)) [0..<length chain] = kept p copies [0..<length chain]"
    by (rule filter_kept) (use p copies in auto)
  ultimately show ?thesis
    using ne p copies counts idx unfolding dem_chunks_to_o_chunked_def Let_def k0 obs_matrix_def by auto
qed

lemma o_chunked_full:
  assumes on: "self_on_chain s" and c: "dem_chunks_to_compact_chain s = Inr c"
    and k: "\<forall>d \<in> set (cc_chunks c). ed_num_observables d = k \<and> obs_chunk k d"
  shows "\<exists>m. spec_to_o_chunked s = Inr m \<and> visits m = map (\<lambda>d. projr (obs_matrix k d)) (full_chain c)"
proof -
  let ?f = "\<lambda>d. projr (obs_matrix k d)" and ?R = "cc_repeat_rounds c"
  note shape = compact_chain_shape[OF on c]
  have "\<forall>d \<in> set (cc_chunks c). ed_num_observables d = k \<and> obs_matrix k d = Inr (?f d)"
    using k obs_matrix_ok by (metis sum.sel(2))
  then have "dem_chunks_to_o_chunked (cc_chunks c) (cc_repeating c) (repeated_copies ?R) ?R =
      Inr \<lparr>com_columns = map ?f (kept (cc_repeating c) (repeated_copies ?R) (cc_chunks c)), com_repeating = cc_repeating c,
            com_repeat_count = ?R\<rparr>"
    by (rule o_chunked_entries[OF shape(1)]) (use shape(4) repeated_copies_pos[OF shape(3)] in auto)
  moreover have "?f (cc_chunks c ! (cc_repeating c + 1)) = ?f (cc_chunks c ! cc_repeating c) \<or> ?R < 2"
    using compact_copies_agree[OF on c] by (auto simp: obs_matrix_def ed_num_faults_def not_less)
  ultimately show ?thesis using visits_full[OF on c] c by (simp add: spec_to_o_chunked_def)
qed

lemma o_sparse_flips:
  assumes rows: "dem_chunks_to_o_sparse full = Inr rows" and k: "\<forall>d \<in> set full. obs_chunk (ed_num_observables d) d"
  shows "\<forall>d \<in> set full. ed_num_observables d = length rows \<and> obs_chunk (length rows) d"
    "rows = map (\<lambda>k. map fst (filter (\<lambda>p. snd p = k)
       (walk_chunks (sum_list (map ed_num_faults full)) (\<lambda>_. True) (map (\<lambda>d. projr (obs_matrix (length rows) d)) full) 0))) [0..<length rows]"
proof -
  let ?k = "ed_num_observables (full ! 0)"
  obtain off where loop: "rfold obs_step full (replicate ?k [], 0) = Inr (rows, off)" and same: "\<forall>d \<in> set full. ed_num_observables d = ?k"
    by (rule o_sparse_loop[OF rows]) blast
  have ch: "\<forall>d \<in> set full. obs_chunk ?k d" using k same by metis
  have "obs_matrix ?k d = Inr (projr (obs_matrix ?k d))" if "d \<in> set full" for d using obs_matrix_ok ch that by (metis sum.sel(2))
  then have "rmap (obs_matrix ?k) full = Inr (map (\<lambda>d. projr (obs_matrix ?k d)) full)" by (rule rmap_pure)
  from obs_loop_flips[OF ch _ loop this order.refl[of "0 + _"]] have
    "rows = add_flips (walk_chunks (sum_list (map ed_num_faults full)) (\<lambda>_. True) (map (\<lambda>d. projr (obs_matrix ?k d)) full) 0) (replicate ?k [])"
    by simp
  moreover from this have "length rows = ?k" by (metis length_add_flips length_replicate)
  ultimately show "\<forall>d \<in> set full. ed_num_observables d = length rows \<and> obs_chunk (length rows) d"
    "rows = map (\<lambda>k. map fst (filter (\<lambda>p. snd p = k)
       (walk_chunks (sum_list (map ed_num_faults full)) (\<lambda>_. True) (map (\<lambda>d. projr (obs_matrix (length rows) d)) full) 0))) [0..<length rows]"
    using same ch by (auto simp: add_flips_def cong: map_cong)
qed

lemma spec_observables_agree:
  assumes on: "self_on_chain s" and full: "dem_chunks_from_spec s = Inr full" and rows: "dem_chunks_to_o_sparse full = Inr rows"
  shows "\<exists>m. spec_to_o_chunked s = Inr m \<and> num_error_columns m = sum_list (map ed_num_faults full) \<and>
     rows = map (\<lambda>k. map fst (filter (\<lambda>p. snd p = k) (for_each_flip m (num_error_columns m) (\<lambda>_. True)))) [0..<length rows]"
proof -
  obtain c where c: "dem_chunks_to_compact_chain s = Inr c" "full = full_chain c" using compact_chain_iff[OF on] full by blast
  have k: "\<forall>d \<in> set full. obs_chunk (ed_num_observables d) d" using from_spec_observables[OF full] by blast
  note flips = o_sparse_flips[OF rows k]
  let ?f = "\<lambda>d. projr (obs_matrix (length rows) d)"
  note shape = compact_chain_shape[OF on c(1)]
  have "elided_rounds c \<noteq> 0 \<longrightarrow> cc_repeating c < length (cc_chunks c)"
    using shape(3,4) repeated_copies_pos[OF shape(3)] elided_rounds_le2[of c] by fastforce
  then have "set (cc_chunks c) = set full" using full_chain_facts(3)[OF shape(1)] c(2) by simp
  then obtain m where m: "spec_to_o_chunked s = Inr m" "visits m = map ?f full"
    using o_chunked_full[OF on c(1), of "length rows"] flips(1) c(2) by auto
  have "map (\<lambda>d. sbm_cols (?f d)) full = map ed_num_faults full"
    using flips(1) obs_matrix_ok by (intro map_cong refl) (metis sum.sel(2))
  then have n: "num_error_columns m = sum_list (map ed_num_faults full)"
    unfolding num_error_columns_visits m(2) by (simp only: map_map comp_def)
  show ?thesis using m n flips(2) by (auto simp: for_each_flip_def)
qed

text \<open>
  C15: The two observable maps of a specification agree. When \<open>dem_chunks_to_o_sparse\<close> accepts the full chain,
  \<open>spec_to_o_chunked\<close> accepts the specification, its map counts as many error columns as the full chain has faults, and
  the columns that \<open>for_each_flip\<close> reports for observable \<open>k\<close>, in its order, are row \<open>k\<close> of the sparse form: storing the
  repeating chunk once loses no flip.
\<close>

theorem chunked_observables_agree:
  assumes "self_on_chain s" "dem_chunks_from_spec s = Inr full" "dem_chunks_to_o_sparse full = Inr rows"
  shows "\<exists>m. spec_to_o_chunked s = Inr m \<and> num_error_columns m = sum_list (map ed_num_faults full) \<and>
     rows = map (\<lambda>k. map fst (filter (\<lambda>p. snd p = k) (for_each_flip m (num_error_columns m) (\<lambda>_. True)))) [0..<length rows]"
  using assms by (rule spec_observables_agree)

theorem chunked_observables_agree_witness:
  "\<exists>m full rows. dem_chunks_from_spec (three_phases 6) = Inr full \<and> dem_chunks_to_o_sparse full = Inr rows \<and>
     spec_to_o_chunked (three_phases 6) = Inr m \<and> num_error_columns m = sum_list (map ed_num_faults full) \<and>
     rows = map (\<lambda>k. map fst (filter (\<lambda>p. snd p = k) (for_each_flip m (num_error_columns m) (\<lambda>_. True)))) [0..<length rows]"
proof -
  have on: "self_on_chain (three_phases 6)" by code_simp
  have "(case rbind (dem_chunks_from_spec (three_phases 6)) dem_chunks_to_o_sparse of Inr c \<Rightarrow> True | Inl _ \<Rightarrow> False)" by code_simp
  then obtain full rows where "dem_chunks_from_spec (three_phases 6) = Inr full" "dem_chunks_to_o_sparse full = Inr rows"
    by (auto split: sum.splits simp: rbind_Inr_iff)
  then show ?thesis using chunked_observables_agree[OF on, of full rows] by blast
qed

end
