(* ===== verification/QEC_Template.thy ===== *)
theory QEC_Template
  imports QEC_Chunk_Observables
begin

text \<open>
  A chunk specification viewed as a shot of any length (\<open>decoding_task_experiment_template.h\<close> and \<open>.cpp\<close>): the phase,
  the chunk and the row, column and measurement offsets of a round, without expanding the shot. The constructor
  prebuilds the two chunks of every phase of the chain. The theorem of this theory says that the template answers as
  \<open>dem_chunks_from_spec\<close> does for the same number of rounds.
\<close>

lemma rbind_InrE: "rbind m f = Inr y \<Longrightarrow> (\<And>x. m = Inr x \<Longrightarrow> f x = Inr y \<Longrightarrow> thesis) \<Longrightarrow> thesis"
  by (cases m) auto

lemma ex_unit_eq: "(\<exists>x :: unit. P x) = P ()"
  by (metis (full_types) old.unit.exhaust)

lemma guard_Inr_iff [simp]: "(if b then Inl e else m) = Inr y \<longleftrightarrow> \<not> b \<and> m = Inr y"
  by simp

text \<open>Sums and products of \<open>std::size_t\<close> values.\<close>

definition u64 :: "nat \<Rightarrow> nat" where
  "u64 n = n mod 2 ^ 64"

lemma u64_id [simp]: "n < 2 ^ 64 \<Longrightarrow> u64 n = n"
  by (simp add: u64_def)

lemma u64_add [simp]: "u64 (u64 a + b) = u64 (a + b)" "u64 (a + u64 b) = u64 (a + b)" "u64 (u64 a) = u64 a"
  by (simp_all add: u64_def mod_add_left_eq mod_add_right_eq)

text \<open>A difference does not depend on how often its operands wrapped.\<close>

lemma u64_sub: "b \<le> a \<Longrightarrow> sz_sub (u64 a) (u64 b) = u64 (a - b)"
proof -
  assume "b \<le> a"
  then obtain c where a: "a = b + c" using le_Suc_ex by blast
  define M :: nat where "M = 2 ^ 64"
  define x where "x = b mod M"
  define y where "y = c mod M"
  have lt: "x < M" "y < M" by (simp_all add: x_def y_def M_def)
  have "(b + c) mod M = (x + y) mod M" by (simp only: x_def y_def mod_add_eq)
  also have "\<dots> = (if x + y < M then x + y else x + y - M)" using lt le_mod_geq[of M "x + y"] by (auto simp: not_less)
  finally have "(b + c) mod M = (if x + y < M then x + y else x + y - M)" .
  then have "sz_sub ((b + c) mod M) x = y" using lt unfolding sz_sub_def M_def[symmetric] by (auto split: if_splits)
  then show ?thesis unfolding a u64_def M_def[symmetric] x_def y_def by simp
qed

section \<open>The template\<close>

record phase_chunks =
  pc_inner :: extended_dem
  pc_last :: extended_dem
  pc_rows :: nat
  pc_faults :: nat
  pc_measurements :: "nat option"

record experiment_template =
  et_spec :: dem_chunks_spec
  et_repeats :: bool
  et_prefix :: "phase_id list"
  et_suffix :: "phase_id list"
  et_bulk :: phase_id
  et_last :: phase_id
  et_min_rounds :: nat
  et_max_span :: nat
  et_num_observables :: nat
  et_phases :: "(phase_id \<times> phase_chunks) list"
  et_prefix_rows :: "nat list"
  et_suffix_rows :: "nat list"
  et_bulk_rows :: nat

definition reaches_next_round :: "extended_dem \<Rightarrow> seam_id \<Rightarrow> bool res" where
  "reaches_next_round c f =
     (if \<not> has_seam c f then Inr False
      else rbind (get_seam c f) (\<lambda>band.
        Inr (list_ex (\<lambda>row. row_begin band \<le> row \<and> row < row_end band) (sbm_idx (to_csc (ed_H c))))))"

definition check_uniform_round ::
  "dem_chunks_spec \<Rightarrow> phase_id \<Rightarrow> phase_chunks \<Rightarrow> (phase_id \<times> nat) option \<Rightarrow> (phase_id \<times> nat) option res" where
  "check_uniform_round s i p uniform =
     rbind (seam_rows_or_zero (pc_inner p) (from_seam s)) (\<lambda>next.
     let u = (case uniform of None \<Rightarrow> (i, pc_rows p) | Some u \<Rightarrow> u) in
     if pc_rows p \<noteq> snd u
     then Inl (Invalid_argument ''experiment_template: without D_sparse rows every round needs the same detectors'')
     else if next \<noteq> 0 \<and> next \<noteq> pc_rows p
     then Inl (Invalid_argument ''experiment_template: without D_sparse rows every round needs the same detectors, but its outgoing seam differs'')
     else Inr (Some u))"

text \<open>The two chunks of a phase, its sizes, and its width in the measurement stream.\<close>

definition build_phase :: "dem_chunks_spec \<Rightarrow> dem_chunk_spec \<Rightarrow> phase_chunks res" where
  "build_phase s p =
     rbind (dem_chunk_from_spec p [to_seam s, from_seam s]) (\<lambda>inner.
     rbind (dem_chunk_from_spec p [to_seam s]) (\<lambda>last_chunk.
     if num_interior_rows inner \<noteq> 0
     then Inl (Invalid_argument ''experiment_template: phase spans more than one round'')
     else
       rbind (detectors_of s p) (\<lambda>rows.
       rbind (if \<not> has_D_sparse s then Inr (Some rows)
              else if cs_num_measurements p \<noteq> None \<or> measurements_per_round s \<noteq> None
              then rbind (measurements_of s p) (\<lambda>n. Inr (Some n))
              else Inr None) (\<lambda>measurements.
         Inr \<lparr>pc_inner = inner, pc_last = last_chunk, pc_rows = rows, pc_faults = ed_num_faults inner,
              pc_measurements = measurements\<rparr>))))"

type_synonym build_state = "(phase_id \<times> phase_chunks) list \<times> nat \<times> (phase_id \<times> nat) option"

text \<open>One entry of the loop over the phases. \<open>std::map::emplace\<close> keeps the first entry of an id, as \<open>map_of\<close> does.\<close>

definition add_phase :: "dem_chunks_spec \<Rightarrow> phase_id set \<Rightarrow> phase_id \<times> dem_chunk_spec \<Rightarrow> build_state \<Rightarrow> build_state res" where
  "add_phase s chain e st =
     (case st of (tbl, max_span, uniform) \<Rightarrow>
        if fst e \<notin> chain then Inr st
        else
          rbind (build_phase s (snd e)) (\<lambda>p.
          rbind (reaches_next_round (pc_inner p) (from_seam s)) (\<lambda>reaches.
          rbind (if \<not> has_D_sparse s then check_uniform_round s (fst e) p uniform else Inr uniform) (\<lambda>uniform'.
            Inr (tbl @ [(fst e, p)], if reaches then 1 else max_span, uniform')))))"

definition phases_at :: "(phase_id \<times> phase_chunks) list \<Rightarrow> phase_id \<Rightarrow> phase_chunks res" where
  "phases_at tbl i = (case map_of tbl i of Some p \<Rightarrow> Inr p | None \<Rightarrow> Inl (Out_of_range ''map::at''))"

text \<open>Running totals, from zero, of the rows of a list of phases.\<close>

definition running_rows :: "(phase_id \<times> phase_chunks) list \<Rightarrow> phase_id list \<Rightarrow> nat list res" where
  "running_rows tbl ids =
     rfold (\<lambda>i acc. rbind (phases_at tbl i) (\<lambda>p. Inr (acc @ [u64 (List.last acc + pc_rows p)]))) ids [0]"

definition check_suffix_width :: "(phase_id \<times> phase_chunks) list \<Rightarrow> phase_id \<Rightarrow> phase_id \<Rightarrow> unit res" where
  "check_suffix_width tbl bulk i =
     rbind (phases_at tbl i) (\<lambda>p. rbind (phases_at tbl bulk) (\<lambda>b.
       if pc_measurements p \<noteq> pc_measurements b
       then Inl (Invalid_argument ''experiment_template: a suffix phase precedes FINAL, so it needs the bulk measurement width'')
       else Inr ()))"

text \<open>Prefix, repeating phase and suffix, and the shortest shot.\<close>

definition template_layout :: "dem_chunks_spec \<Rightarrow> (phase_id list \<times> phase_id \<times> phase_id list \<times> phase_id \<times> nat) res" where
  "template_layout s =
     (if has_repeating_phase s
      then rbind (layout s) (\<lambda>l. Inr (pl_prefix l, pl_repeating l, pl_suffix l,
             if pl_suffix l = [] then pl_repeating l else List.last (pl_suffix l), max 2 (minimum_rounds s)))
      else rbind (phase_sequence s) (\<lambda>seq. Inr (seq, 0, [], List.last seq, length seq)))"

definition experiment_template_new :: "dem_chunks_spec \<Rightarrow> experiment_template res" where
  "experiment_template_new s =
     rbind (validate_spec s) (\<lambda>_.
     let repeats = has_repeating_phase s in
     rbind (template_layout s) (\<lambda>(prefix, bulk, suffix, last_phase, min_rounds).
     if repeats \<and> num_rounds s \<noteq> None \<and> the (num_rounds s) < min_rounds
     then Inl (Invalid_argument ''experiment_template: num_rounds is below the rounds the phase chain needs'')
     else
       rbind (spec_num_observables s) (\<lambda>k.
       let chain = set prefix \<union> set suffix \<union> (if repeats then {bulk} else {}) in
       rbind (rfold (add_phase s chain) (phases s) ([], 0, None)) (\<lambda>(tbl, max_span, uniform).
       rbind (rfold (\<lambda>i _. check_suffix_width tbl bulk (suffix ! i)) [0..<if repeats then length suffix - 1 else 0] ()) (\<lambda>_.
       rbind (running_rows tbl prefix) (\<lambda>prefix_rows.
       rbind (running_rows tbl suffix) (\<lambda>suffix_rows.
       rbind (if repeats then rbind (phases_at tbl bulk) (\<lambda>p. Inr (pc_rows p)) else Inr 0) (\<lambda>bulk_rows.
         Inr \<lparr>et_spec = s, et_repeats = repeats, et_prefix = prefix, et_suffix = suffix, et_bulk = bulk, et_last = last_phase,
              et_min_rounds = min_rounds, et_max_span = max_span, et_num_observables = k, et_phases = tbl,
              et_prefix_rows = prefix_rows, et_suffix_rows = suffix_rows, et_bulk_rows = bulk_rows\<rparr>)))))))) "

section \<open>Queries\<close>

definition et_readout :: "experiment_template \<Rightarrow> int list res" where
  "et_readout t = rbind (get_phase (et_spec t) (et_last t)) (\<lambda>p. Inr (cs_m2o_sparse p))"

definition reads_only_at_end :: "experiment_template \<Rightarrow> bool res" where
  "reads_only_at_end t =
     (if list_ex (\<lambda>e. fst e \<noteq> et_last t \<and> cs_m2o_sparse (snd e) \<noteq> []) (phases (et_spec t)) then Inr False
      else rbind (et_readout t) (\<lambda>r. Inr (r \<noteq> [])))"

definition check_round :: "experiment_template \<Rightarrow> nat \<Rightarrow> nat \<Rightarrow> nat \<Rightarrow> unit res" where
  "check_round t r last_round R =
     (if R < et_min_rounds t then Inl (Invalid_argument ''experiment_template: the shot is shorter than the minimum'')
      else if \<not> et_repeats t \<and> R \<noteq> et_min_rounds t
      then Inl (Invalid_argument ''experiment_template: a spec without a repeating phase admits only its own length'')
      else if last_round < r then Inl (Invalid_argument ''experiment_template: round is past the shot'')
      else Inr ())"

definition et_phase :: "experiment_template \<Rightarrow> nat \<Rightarrow> nat \<Rightarrow> phase_id res" where
  "et_phase t r R =
     (let tail = sz_sub R (length (et_suffix t)) in
      rbind (check_round t r (sz_sub R 1) R) (\<lambda>_.
        if r < length (et_prefix t) then vget (et_prefix t) r
        else if r < tail then Inr (et_bulk t) else vget (et_suffix t) (r - tail)))"

definition et_chunk :: "experiment_template \<Rightarrow> nat \<Rightarrow> nat \<Rightarrow> extended_dem res" where
  "et_chunk t r R =
     rbind (et_phase t r R) (\<lambda>i. rbind (phases_at (et_phases t) i) (\<lambda>p.
       Inr (if r + 1 < R then pc_inner p else pc_last p)))"

definition readout_of :: "experiment_template \<Rightarrow> nat \<Rightarrow> nat \<Rightarrow> int list res" where
  "readout_of t r R = rbind (et_phase t r R) (\<lambda>i. rbind (get_phase (et_spec t) i) (\<lambda>p. Inr (cs_m2o_sparse p)))"

definition add_sizes ::
  "experiment_template \<Rightarrow> (phase_chunks \<Rightarrow> nat res) \<Rightarrow> phase_id list \<Rightarrow> nat \<Rightarrow> nat res" where
  "add_sizes t sz ids tot =
     rfold (\<lambda>i tot. rbind (phases_at (et_phases t) i) (\<lambda>p. rbind (sz p) (\<lambda>n. Inr (u64 (tot + n))))) ids tot"

definition sum_before :: "experiment_template \<Rightarrow> nat \<Rightarrow> nat \<Rightarrow> (phase_chunks \<Rightarrow> nat res) \<Rightarrow> nat res" where
  "sum_before t r R sz =
     (let tail = sz_sub R (length (et_suffix t)); np = length (et_prefix t) in
      rbind (check_round t r R R) (\<lambda>_.
      rbind (add_sizes t sz (take r (et_prefix t)) 0) (\<lambda>tot.
      rbind (if et_repeats t \<and> np < r
             then rbind (phases_at (et_phases t) (et_bulk t)) (\<lambda>p. rbind (sz p) (\<lambda>n. Inr (u64 (tot + u64 (sz_sub (min r tail) np * n)))))
             else Inr tot) (\<lambda>tot.
        rbind (rmap (\<lambda>i. vget (et_suffix t) (i - tail)) [tail..<r]) (\<lambda>ids. add_sizes t sz ids tot)))))"

definition row_offset :: "experiment_template \<Rightarrow> nat \<Rightarrow> nat \<Rightarrow> nat res" where
  "row_offset t r R =
     (let tail = sz_sub R (length (et_suffix t)); np = length (et_prefix t) in
      rbind (check_round t r R R) (\<lambda>_.
      rbind (vget (et_prefix_rows t) (min r np)) (\<lambda>tot.
      let tot = (if et_repeats t \<and> np < r then u64 (tot + u64 (sz_sub (min r tail) np * et_bulk_rows t)) else tot) in
      if tail < r then rbind (vget (et_suffix_rows t) (r - tail)) (\<lambda>n. Inr (u64 (tot + n))) else Inr tot)))"

definition column_offset :: "experiment_template \<Rightarrow> nat \<Rightarrow> nat \<Rightarrow> nat res" where
  "column_offset t r R = sum_before t r R (\<lambda>p. Inr (pc_faults p))"

definition measurement_width :: "phase_chunks \<Rightarrow> nat res" where
  "measurement_width p = (case pc_measurements p of Some n \<Rightarrow> Inr n
     | None \<Rightarrow> Inl (Invalid_argument ''experiment_template: a phase has no measurement count (num_measurements / measurements_per_round)''))"

definition measurement_offset :: "experiment_template \<Rightarrow> nat \<Rightarrow> nat \<Rightarrow> nat res" where
  "measurement_offset t r R = sum_before t r R measurement_width"

section \<open>The rounds of a shot\<close>

definition admits :: "experiment_template \<Rightarrow> nat \<Rightarrow> bool" where
  "admits t R \<longleftrightarrow> et_min_rounds t \<le> R \<and> (et_repeats t \<or> R = et_min_rounds t)"

definition shot_phases :: "experiment_template \<Rightarrow> nat \<Rightarrow> phase_id list" where
  "shot_phases t R =
     (if et_repeats t then et_prefix t @ replicate (R - length (et_prefix t) - length (et_suffix t)) (et_bulk t) @ et_suffix t
      else et_prefix t)"

definition the_phase :: "experiment_template \<Rightarrow> phase_id \<Rightarrow> phase_chunks" where
  "the_phase t i = the (map_of (et_phases t) i)"

definition running_total :: "(phase_id \<Rightarrow> nat) \<Rightarrow> phase_id list \<Rightarrow> nat list" where
  "running_total g ids = map (\<lambda>j. sum_list (map g (take j ids))) [0..<length ids + 1]"

text \<open>What the constructor establishes.\<close>

definition et_ok :: "experiment_template \<Rightarrow> bool" where
  "et_ok t \<longleftrightarrow>
     (if et_repeats t then length (et_prefix t) + length (et_suffix t) < et_min_rounds t \<and> 2 \<le> et_min_rounds t
      else et_suffix t = [] \<and> et_min_rounds t = length (et_prefix t) \<and> 2 \<le> et_min_rounds t) \<and>
     (\<forall>i \<in> set (et_prefix t) \<union> set (et_suffix t) \<union> (if et_repeats t then {et_bulk t} else {}). map_of (et_phases t) i \<noteq> None) \<and>
     et_prefix_rows t = map u64 (running_total (\<lambda>i. pc_rows (the_phase t i)) (et_prefix t)) \<and>
     et_suffix_rows t = map u64 (running_total (\<lambda>i. pc_rows (the_phase t i)) (et_suffix t)) \<and>
     (et_repeats t \<longrightarrow> et_bulk_rows t = pc_rows (the_phase t (et_bulk t)))"

lemma et_okD:
  assumes "et_ok t"
  shows "et_repeats t \<Longrightarrow> length (et_prefix t) + length (et_suffix t) < et_min_rounds t"
    "\<not> et_repeats t \<Longrightarrow> et_suffix t = []" "\<not> et_repeats t \<Longrightarrow> et_min_rounds t = length (et_prefix t)" "2 \<le> et_min_rounds t"
    "i \<in> set (et_prefix t) \<union> set (et_suffix t) \<Longrightarrow> phases_at (et_phases t) i = Inr (the_phase t i)"
    "et_repeats t \<Longrightarrow> phases_at (et_phases t) (et_bulk t) = Inr (the_phase t (et_bulk t))"
    "et_prefix_rows t = map u64 (running_total (\<lambda>i. pc_rows (the_phase t i)) (et_prefix t))"
    "et_suffix_rows t = map u64 (running_total (\<lambda>i. pc_rows (the_phase t i)) (et_suffix t))"
    "et_repeats t \<Longrightarrow> et_bulk_rows t = pc_rows (the_phase t (et_bulk t))"
  using assms by (auto simp: et_ok_def phases_at_def the_phase_def split: if_splits option.splits)

lemma length_shot_phases [simp]: "et_ok t \<Longrightarrow> admits t R \<Longrightarrow> length (shot_phases t R) = R"
  using et_okD(1,3)[of t] by (auto simp: shot_phases_def admits_def)

lemma check_round_iff: "check_round t r l R = Inr () \<longleftrightarrow> admits t R \<and> r \<le> l"
  by (auto simp: check_round_def admits_def)

lemma check_round_error: "\<not> (admits t R \<and> r \<le> l) \<Longrightarrow> \<exists>m. check_round t r l R = Inl (Invalid_argument m)"
  by (auto simp: check_round_def admits_def)

lemma tail_sub: "et_ok t \<Longrightarrow> admits t R \<Longrightarrow> sz_sub R (length (et_suffix t)) = R - length (et_suffix t)"
  using et_okD(1,2)[of t] by (cases "et_repeats t") (auto simp: admits_def)

lemma et_phase_nth:
  assumes t: "et_ok t" "admits t R" and r: "r < R"
  shows "et_phase t r R = Inr (shot_phases t R ! r)"
proof -
  have "check_round t r (sz_sub R 1) R = Inr ()" using t r by (simp add: check_round_iff)
  then show ?thesis
    using t r et_okD(1-3)[OF t(1)] unfolding et_phase_def tail_sub[OF t]
    by (auto simp: admits_def shot_phases_def vget_def nth_append not_less Let_def)
qed

lemma phase_in_table:
  assumes "et_ok t" "i \<in> set (shot_phases t R)"
  shows "phases_at (et_phases t) i = Inr (the_phase t i)"
  using assms et_okD(5)[OF assms(1), of i] et_okD(6)[OF assms(1)] by (auto simp: shot_phases_def split: if_splits)

lemma et_chunk_nth:
  assumes t: "et_ok t" "admits t R" and r: "r < R"
  shows "et_chunk t r R = Inr (let p = the_phase t (shot_phases t R ! r) in if r + 1 < R then pc_inner p else pc_last p)"
  using phase_in_table[OF t(1), of "shot_phases t R ! r" R] et_phase_nth[OF assms] r t by (simp add: et_chunk_def Let_def)

section \<open>Offsets\<close>

lemma add_sizes_sum:
  assumes "\<forall>i \<in> set ids. phases_at (et_phases t) i = Inr (the_phase t i)" "\<forall>i \<in> set ids. sz (the_phase t i) = Inr (g i)"
  shows "add_sizes t sz ids (u64 n) = Inr (u64 (n + sum_list (map g ids)))"
  using assms unfolding add_sizes_def
proof (induction ids arbitrary: n)
  case (Cons i ids)
  from Cons.IH[of "n + g i"] Cons.prems show ?case by (simp add: add.assoc)
qed simp

lemma take_shot_phases:
  assumes t: "et_ok t" "admits t R" and r: "r \<le> R"
  defines "tail \<equiv> R - length (et_suffix t)"
  shows "take r (shot_phases t R) = take r (et_prefix t) @
    (if et_repeats t \<and> length (et_prefix t) < r then replicate (min r tail - length (et_prefix t)) (et_bulk t) else []) @
    take (r - tail) (et_suffix t)"
  using r et_okD(1-3)[OF t(1)] t(2)
  by (auto simp: shot_phases_def admits_def tail_def min_def not_less)

lemma suffix_ids:
  assumes "r \<le> tail + length xs"
  shows "rmap (\<lambda>i. vget xs (i - tail)) [tail..<r] = Inr (take (r - tail) xs)"
proof -
  have "rmap (\<lambda>i. vget xs (i - tail)) [tail..<r] = Inr (map (\<lambda>i. xs ! (i - tail)) [tail..<r])"
    by (rule rmap_pure) (use assms in \<open>auto simp: vget_def\<close>)
  also have "map (\<lambda>i. xs ! (i - tail)) [tail..<r] = take (r - tail) xs"
    by (rule nth_equalityI) (use assms in \<open>auto simp del: upt_Suc\<close>)
  finally show ?thesis .
qed

lemma sum_before_sum:
  assumes t: "et_ok t" "admits t R" and r: "r \<le> R" and sz: "\<forall>i \<in> set (shot_phases t R). sz (the_phase t i) = Inr (g i)"
  shows "sum_before t r R sz = Inr (u64 (sum_list (map g (take r (shot_phases t R)))))"
proof -
  let ?tail = "R - length (et_suffix t)" and ?np = "length (et_prefix t)"
  have sub: "set (et_prefix t) \<union> set (et_suffix t) \<subseteq> set (shot_phases t R)"
    using et_okD(2)[OF t(1)] by (auto simp: shot_phases_def)
  have at: "phases_at (et_phases t) i = Inr (the_phase t i)" if "i \<in> set (shot_phases t R)" for i
    using phase_in_table[OF t(1) that] .
  have P: "add_sizes t sz (take r (et_prefix t)) 0 = Inr (u64 (sum_list (map g (take r (et_prefix t)))))"
    using add_sizes_sum[where g = g and n = 0 and t = t and sz = sz and ids = "take r (et_prefix t)"] sub at sz by (auto dest!: in_set_takeD)
  have ge: "et_repeats t \<Longrightarrow> ?np < ?tail" and tl: "?tail + length (et_suffix t) = R"
    using et_okD(1,2)[OF t(1)] t(2) by (cases "et_repeats t"; auto simp: admits_def)+
  have "et_bulk t \<in> set (shot_phases t R)" if "et_repeats t" using that ge by (auto simp: shot_phases_def)
  then have B: "(if et_repeats t \<and> ?np < r
      then rbind (phases_at (et_phases t) (et_bulk t)) (\<lambda>p. rbind (sz p) (\<lambda>n. Inr (u64 (u64 a + u64 (sz_sub (min r ?tail) ?np * n)))))
      else Inr (u64 a)) = Inr (u64 (a + sum_list (map g (if et_repeats t \<and> ?np < r then replicate (min r ?tail - ?np) (et_bulk t) else []))))" for a
    using at sz ge by (auto simp: sum_list_replicate)
  have S: "rbind (rmap (\<lambda>i. vget (et_suffix t) (i - ?tail)) [?tail..<r]) (\<lambda>ids. add_sizes t sz ids (u64 a)) =
      Inr (u64 (a + sum_list (map g (take (r - ?tail) (et_suffix t)))))" for a
  proof -
    have "rmap (\<lambda>i. vget (et_suffix t) (i - ?tail)) [?tail..<r] = Inr (take (r - ?tail) (et_suffix t))"
      by (rule suffix_ids) (use r tl in simp)
    then show ?thesis by (simp, subst add_sizes_sum[where g = g]) (use sub at sz in \<open>auto dest!: in_set_takeD\<close>)
  qed
  have "check_round t r R R = Inr ()" using t r by (simp add: check_round_iff)
  then show ?thesis unfolding sum_before_def tail_sub[OF t] Let_def take_shot_phases[OF t r]
    by (simp only: rbind_simps P B S map_append sum_list_append add.assoc)
qed

lemma running_total_nth [simp]: "j \<le> length ids \<Longrightarrow> running_total g ids ! j = sum_list (map g (take j ids))"
  by (simp add: running_total_def del: upt_Suc)

lemma length_running_total [simp]: "length (running_total g ids) = length ids + 1"
  by (simp add: running_total_def)

lemma row_offset_sum:
  assumes t: "et_ok t" "admits t R" and r: "r \<le> R"
  shows "row_offset t r R = Inr (u64 (sum_list (map (\<lambda>i. pc_rows (the_phase t i)) (take r (shot_phases t R)))))"
proof -
  let ?tail = "R - length (et_suffix t)" and ?np = "length (et_prefix t)"
  have ge: "et_repeats t \<Longrightarrow> ?np < ?tail" and tl: "?tail + length (et_suffix t) = R"
    using et_okD(1,2)[OF t(1)] t(2) by (cases "et_repeats t"; auto simp: admits_def)+
  have "check_round t r R R = Inr ()" using t r by (simp add: check_round_iff)
  then show ?thesis
    unfolding row_offset_def tail_sub[OF t] Let_def take_shot_phases[OF t r] et_okD(7,8)[OF t(1)]
    using ge tl r et_okD(9)[OF t(1)] by (auto simp: vget_def sum_list_replicate min_def) (simp only: add.assoc)
qed

section \<open>The constructor\<close>

lemma add_phase_step:
  assumes "add_phase s chain e (tbl, m, u) = Inr (tbl', m', u')"
  shows "fst e \<notin> chain \<and> tbl' = tbl \<and> m' = m \<or>
    fst e \<in> chain \<and> (\<exists>p b. build_phase s (snd e) = Inr p \<and> tbl' = tbl @ [(fst e, p)] \<and>
       reaches_next_round (pc_inner p) (from_seam s) = Inr b \<and> m' = (if b then 1 else m))"
proof (cases "fst e \<in> chain")
  case True
  then obtain p b where "build_phase s (snd e) = Inr p" "reaches_next_round (pc_inner p) (from_seam s) = Inr b"
    "tbl' = tbl @ [(fst e, p)]" "m' = (if b then 1 else m)"
    using assms unfolding add_phase_def by (auto simp only: rbind_Inr_iff prod.case if_True if_False not_True_eq_False prod.inject sum.inject not_not)
  then show ?thesis using True by blast
next
  case False
  then show ?thesis using assms by (simp add: add_phase_def)
qed

lemma add_phases_table:
  assumes "rfold (add_phase s chain) es (tbl, m, u) = Inr (tbl', m', u')"
  shows "\<exists>ps. tbl' = tbl @ ps \<and>
     list_all2 (\<lambda>e q. fst q = fst e \<and> build_phase s (snd e) = Inr (snd q)) (filter (\<lambda>e. fst e \<in> chain) es) ps \<and>
     (\<forall>q \<in> set ps. \<exists>b. reaches_next_round (pc_inner (snd q)) (from_seam s) = Inr b \<and> (b \<longrightarrow> m' = 1)) \<and> (m' = m \<or> m' = 1)"
  using assms
proof (induction es arbitrary: tbl m u)
  case (Cons e es)
  obtain t1 m1 u1 where 1: "add_phase s chain e (tbl, m, u) = Inr (t1, m1, u1)"
    "rfold (add_phase s chain) es (t1, m1, u1) = Inr (tbl', m', u')"
    using Cons.prems by (auto simp: rbind_Inr_iff)
  obtain ps where ps: "tbl' = t1 @ ps"
    "list_all2 (\<lambda>e q. fst q = fst e \<and> build_phase s (snd e) = Inr (snd q)) (filter (\<lambda>e. fst e \<in> chain) es) ps"
    "\<forall>q \<in> set ps. \<exists>b. reaches_next_round (pc_inner (snd q)) (from_seam s) = Inr b \<and> (b \<longrightarrow> m' = 1)" "m' = m1 \<or> m' = 1"
    using Cons.IH[OF 1(2)] by auto
  from add_phase_step[OF 1(1)] show ?case
  proof
    assume "fst e \<notin> chain \<and> t1 = tbl \<and> m1 = m"
    then show ?thesis using ps by auto
  next
    assume "fst e \<in> chain \<and> (\<exists>p b. build_phase s (snd e) = Inr p \<and> t1 = tbl @ [(fst e, p)] \<and>
       reaches_next_round (pc_inner p) (from_seam s) = Inr b \<and> m1 = (if b then 1 else m))"
    then obtain p b where p: "fst e \<in> chain" "build_phase s (snd e) = Inr p" "t1 = tbl @ [(fst e, p)]"
       "reaches_next_round (pc_inner p) (from_seam s) = Inr b" "m1 = (if b then 1 else m)" by blast
    show ?thesis
      by (rule exI[of _ "(fst e, p) # ps"]) (use p ps in \<open>auto split: if_splits\<close>)
  qed
qed simp

lemma map_of_table:
  assumes "list_all2 (\<lambda>e q. fst q = fst e \<and> build_phase s (snd e) = Inr (snd q)) (filter (\<lambda>e. fst e \<in> chain) es) ps" "i \<in> chain"
  shows "rel_option (\<lambda>x p. build_phase s x = Inr p) (map_of es i) (map_of ps i)"
  using assms
proof (induction es arbitrary: ps)
  case (Cons e es)
  show ?case
  proof (cases "fst e \<in> chain")
    case True
    then obtain q qs where q: "ps = q # qs" "fst q = fst e" "build_phase s (snd e) = Inr (snd q)"
      "list_all2 (\<lambda>e q. fst q = fst e \<and> build_phase s (snd e) = Inr (snd q)) (filter (\<lambda>e. fst e \<in> chain) es) qs"
      using Cons.prems(1) by (auto simp: list_all2_Cons1)
    show ?thesis using q Cons.IH[OF q(4) Cons.prems(2)] by (cases e; cases q) auto
  next
    case False
    then show ?thesis using Cons by (cases e) auto
  qed
qed simp

lemma running_rows_total:
  assumes "running_rows tbl ids = Inr rs"
  shows "rs = map u64 (running_total (\<lambda>i. pc_rows (the (map_of tbl i))) ids)" "\<forall>i \<in> set ids. map_of tbl i \<noteq> None"
proof -
  have "running_rows tbl ids = Inr rs \<Longrightarrow> rs = map u64 (running_total (\<lambda>i. pc_rows (the (map_of tbl i))) ids) \<and> (\<forall>i \<in> set ids. map_of tbl i \<noteq> None)"
    for rs
  proof (induction ids arbitrary: rs rule: rev_induct)
    case Nil
    then show ?case by (auto simp: running_rows_def running_total_def)
  next
    case (snoc i ids)
    from snoc.prems obtain rs' p where r: "running_rows tbl ids = Inr rs'" "map_of tbl i = Some p" "rs = rs' @ [u64 (List.last rs' + pc_rows p)]"
      by (auto simp: running_rows_def rfold_append rbind_Inr_iff phases_at_def split: option.splits)
    note IH = snoc.IH[OF r(1)]
    have "List.last rs' = u64 (sum_list (map (\<lambda>i. pc_rows (the (map_of tbl i))) ids))"
      using IH by (simp add: running_total_def last_map)
    moreover have "running_total (\<lambda>i. pc_rows (the (map_of tbl i))) (ids @ [i]) =
        running_total (\<lambda>i. pc_rows (the (map_of tbl i))) ids @ [sum_list (map (\<lambda>i. pc_rows (the (map_of tbl i))) ids) + pc_rows (the (map_of tbl i))]"
      by (auto simp: running_total_def)
    ultimately show ?case using IH r by auto
  qed
  then show "rs = map u64 (running_total (\<lambda>i. pc_rows (the (map_of tbl i))) ids)" "\<forall>i \<in> set ids. map_of tbl i \<noteq> None" using assms by blast+
qed

lemma template_layout_phases:
  assumes on: "self_on_chain s" and l: "template_layout s = Inr (P, b, Q, lst, m)" and ne: "phases s \<noteq> []" "connections s \<noteq> []"
  shows "has_repeating_phase s \<Longrightarrow> m = max 2 (length P + length Q + 1) \<and>
      (\<forall>R \<ge> m. phase_sequence (s\<lparr>num_rounds := Some R\<rparr>) = Inr (P @ replicate (R - length P - length Q) b @ Q))"
    "\<not> has_repeating_phase s \<Longrightarrow> Q = [] \<and> m = length P \<and> 2 \<le> m \<and> (\<forall>R. phase_sequence (s\<lparr>num_rounds := Some R\<rparr>) = Inr P)"
proof -
  assume rep: "has_repeating_phase s"
  let ?m = "max 2 (minimum_rounds s)" and ?s = "s\<lparr>num_rounds := Some (max 2 (minimum_rounds s))\<rparr>"
  obtain seq where seq: "repeating_phase s = Inr b" "phase_sequence ?s = Inr seq"
    and PQ: "P = take (find_index b seq) seq" "Q = drop (length seq - find_index b (rev seq)) seq" "m = ?m"
    using l rep by (auto simp: template_layout_def layout_def rbind_Inr_iff)
  obtain c where c: "filter is_self (connections s) = [c]"
    using has_repeating_selfs[of ?s seq] rep seq(2) by auto
  then have b: "b = fst c" using seq(1) by (simp add: repeating_phase_def)
  obtain A B where AB: "fst c \<notin> set A" "fst c \<notin> set B" "seq = A @ replicate (?m - length A - length B) (fst c) @ B"
    "minimum_rounds s = length A + length B + 1"
    and other: "\<And>k. 2 \<le> k \<Longrightarrow> minimum_rounds s \<le> k \<Longrightarrow>
      phase_sequence (s\<lparr>num_rounds := Some k\<rparr>) = Inr (A @ replicate (k - length A - length B) (fst c) @ B)"
    using repeating_rounds_split[of ?s seq c ?m] seq(2) on c by auto
  have k: "0 < ?m - length A - length B" using AB(4) by simp
  have "find_index b seq = length A" using find_index_replicate[OF AB(1) k] AB(3) b by simp
  moreover have "find_index b (rev seq) = length B"
    using find_index_replicate[of "fst c" "rev B" "?m - length A - length B" "rev A"] AB(2,3) b k by simp
  ultimately have "P = A" "Q = B" using PQ(1,2) AB(3) by auto
  then show "m = max 2 (length P + length Q + 1) \<and>
      (\<forall>R \<ge> m. phase_sequence (s\<lparr>num_rounds := Some R\<rparr>) = Inr (P @ replicate (R - length P - length Q) b @ Q))"
    using AB(4) PQ(3) b other by auto
next
  assume rep: "\<not> has_repeating_phase s"
  then have selfs: "filter is_self (connections s) = []" by (auto simp: has_repeating_phase_def list_ex_iff filter_empty_conv)
  have seq: "phase_sequence s = Inr P" "Q = []" "m = length P" using l rep by (auto simp: template_layout_def rbind_Inr_iff)
  have same: "phase_sequence (s\<lparr>num_rounds := Some R\<rparr>) = Inr P" for R
    using seq(1) selfs by (simp add: phase_sequence_iff is_phase_sequence_def)
  obtain C where C: "C \<noteq> []" "distinct C" "mset (edges C) = mset (filter (\<lambda>c. \<not> is_self c) (connections s))" "P = C"
    using seq(1) selfs by (auto simp: phase_sequence_iff is_phase_sequence_def)
  have "filter (\<lambda>c. \<not> is_self c) (connections s) = connections s"
    using selfs by (auto simp: filter_empty_conv filter_id_conv)
  then have "2 \<le> length P" using minimum_rounds_path[OF C(1-3)] C(4) ne(2) by (cases "connections s") (auto simp: minimum_rounds_def)
  then show "Q = [] \<and> m = length P \<and> 2 \<le> m \<and> (\<forall>R. phase_sequence (s\<lparr>num_rounds := Some R\<rparr>) = Inr P)"
    using seq same by simp
qed

lemma template_new_steps:
  assumes "experiment_template_new s = Inr t"
  obtains u where "validate_spec s = Inr ()"
    "template_layout s = Inr (et_prefix t, et_bulk t, et_suffix t, et_last t, et_min_rounds t)"
    "rfold (add_phase s (set (et_prefix t) \<union> set (et_suffix t) \<union> (if et_repeats t then {et_bulk t} else {}))) (phases s) ([], 0, None) =
       Inr (et_phases t, et_max_span t, u)"
    "running_rows (et_phases t) (et_prefix t) = Inr (et_prefix_rows t)"
    "running_rows (et_phases t) (et_suffix t) = Inr (et_suffix_rows t)"
    "et_repeats t \<Longrightarrow> phases_at (et_phases t) (et_bulk t) = Inr (the_phase t (et_bulk t)) \<and> et_bulk_rows t = pc_rows (the_phase t (et_bulk t))"
    "et_spec t = s" "et_repeats t = has_repeating_phase s" "spec_num_observables s = Inr (et_num_observables t)"
proof -
  note e = assms[unfolded experiment_template_new_def Let_def]
  have v: "validate_spec s = Inr ()" using e by (cases "validate_spec s") simp_all
  obtain lay where "template_layout s = Inr lay" using e v by (cases "template_layout s") simp_all
  moreover obtain P b Q lst m where "lay = (P, b, Q, lst, m)" by (rule prod_cases5)
  ultimately have l: "template_layout s = Inr (P, b, Q, lst, m)" by simp
  have e1: "\<not> (has_repeating_phase s \<and> num_rounds s \<noteq> None \<and> the (num_rounds s) < m)"
    by (rule notI) (use e v l in simp)
  obtain k where k: "spec_num_observables s = Inr k"
    using e v l e1 by (cases "spec_num_observables s") (simp_all only: rbind_simps prod.case if_False, simp)
  let ?chain = "set P \<union> set Q \<union> (if has_repeating_phase s then {b} else {})"
  note e' = e[unfolded v l rbind_simps prod.case if_not_P[OF e1] k]
  obtain st where "rfold (add_phase s ?chain) (phases s) ([], 0, None) = Inr st"
    using e' by (cases "rfold (add_phase s ?chain) (phases s) ([], 0, None)") simp_all
  moreover obtain tbl ms u where "st = (tbl, ms, u)" by (rule prod_cases3)
  ultimately have f: "rfold (add_phase s ?chain) (phases s) ([], 0, None) = Inr (tbl, ms, u)" by simp
  note e2 = e'[unfolded f rbind_simps prod.case]
  obtain pr sr br where r: "running_rows tbl P = Inr pr" "running_rows tbl Q = Inr sr"
    "(if has_repeating_phase s then rbind (phases_at tbl b) (\<lambda>p. Inr (pc_rows p)) else Inr 0) = Inr br"
    "t = \<lparr>et_spec = s, et_repeats = has_repeating_phase s, et_prefix = P, et_suffix = Q, et_bulk = b, et_last = lst,
              et_min_rounds = m, et_max_span = ms, et_num_observables = k, et_phases = tbl,
              et_prefix_rows = pr, et_suffix_rows = sr, et_bulk_rows = br\<rparr>"
    using e2 by (elim rbind_InrE) (drule sum.inject(2)[THEN iffD1], drule sym, blast)
  show thesis
    by (rule that[of u]) (use v l k f r in \<open>auto simp: rbind_Inr_iff the_phase_def phases_at_def split: option.splits\<close>)
qed

lemma validate_spec_parts:
  assumes "validate_spec s = Inr ()"
  shows "phases s \<noteq> []" "connections s \<noteq> []" "2 \<le> R \<Longrightarrow> validate_spec (s\<lparr>num_rounds := Some R\<rparr>) = Inr ()"
    "has_D_sparse s \<Longrightarrow> e \<in> set (phases s) \<Longrightarrow> cs_num_measurements (snd e) \<noteq> None \<or> measurements_per_round s \<noteq> None"
proof -
  let ?mapped = "length (filter (\<lambda>e. cs_D_sparse (snd e) \<noteq> []) (phases s))"
  have v: "\<not> spec_is_empty s" "connections s \<noteq> []" "phases s \<noteq> []" "\<not> (num_rounds s \<noteq> None \<and> the (num_rounds s) < 2)"
    "rfold (\<lambda>e _. validate_chunk_spec (snd e)) (phases s) () = Inr ()"
    "\<not> list_ex (\<lambda>c. fst c \<notin> fst ` set (phases s) \<or> snd c \<notin> fst ` set (phases s)) (connections s)"
    "validate_observables s = Inr ()"
    "\<not> (phases_supply_D_sparse s = None \<and> ?mapped \<noteq> 0 \<and> ?mapped \<noteq> length (phases s))"
    "\<not> (has_D_sparse s \<and> list_ex (\<lambda>e. cs_num_measurements (snd e) = None \<and> measurements_per_round s = None) (phases s))"
  proof -
    note a = assms[unfolded validate_spec_def Let_def guard_Inr_iff rbind_Inr_iff ex_unit_eq]
    show "\<not> spec_is_empty s" "connections s \<noteq> []" "phases s \<noteq> []" "\<not> (num_rounds s \<noteq> None \<and> the (num_rounds s) < 2)"
      "rfold (\<lambda>e _. validate_chunk_spec (snd e)) (phases s) () = Inr ()"
      "\<not> list_ex (\<lambda>c. fst c \<notin> fst ` set (phases s) \<or> snd c \<notin> fst ` set (phases s)) (connections s)"
      "validate_observables s = Inr ()"
      "\<not> (phases_supply_D_sparse s = None \<and> ?mapped \<noteq> 0 \<and> ?mapped \<noteq> length (phases s))"
      "\<not> (has_D_sparse s \<and> list_ex (\<lambda>e. cs_num_measurements (snd e) = None \<and> measurements_per_round s = None) (phases s))"
      using a by satx+
  qed
  then show "phases s \<noteq> []" "connections s \<noteq> []" by blast+
  show "validate_spec (s\<lparr>num_rounds := Some R\<rparr>) = Inr ()" if "2 \<le> R"
    unfolding validate_spec_def Let_def using v that by (simp del: guard_Inr_iff)
  show "cs_num_measurements (snd e) \<noteq> None \<or> measurements_per_round s \<noteq> None" if "has_D_sparse s" "e \<in> set (phases s)"
    using v(9) that by (auto simp: list_ex_iff)
qed

lemma get_phase_map_of: "get_phase s i = (case map_of (phases s) i of Some x \<Rightarrow> Inr x
    | None \<Rightarrow> Inl (Invalid_argument ''dem_chunks_spec::get_phase: phase not found''))"
proof -
  have "map_option snd (find (\<lambda>e. fst e = i) ps) = map_of ps i" for ps :: "(phase_id \<times> dem_chunk_spec) list"
    by (induction ps) auto
  from this[of "phases s", symmetric] show ?thesis unfolding get_phase_def by (cases "find (\<lambda>e. fst e = i) (phases s)") (auto split: option.splits)
qed

lemma template_table:
  assumes "experiment_template_new s = Inr t" and "i \<in> set (et_prefix t) \<union> set (et_suffix t) \<union> (if et_repeats t then {et_bulk t} else {})"
    "map_of (et_phases t) i = Some p"
  shows "\<exists>x. get_phase s i = Inr x \<and> build_phase s x = Inr p"
    "\<exists>b. reaches_next_round (pc_inner p) (from_seam s) = Inr b \<and> (b \<longrightarrow> et_max_span t = 1)"
proof -
  let ?chain = "set (et_prefix t) \<union> set (et_suffix t) \<union> (if et_repeats t then {et_bulk t} else {})"
  obtain u where fold: "rfold (add_phase s ?chain) (phases s) ([], 0, None) = Inr (et_phases t, et_max_span t, u)"
    using template_new_steps[OF assms(1)] by metis
  obtain ps where ps: "et_phases t = ps"
     "list_all2 (\<lambda>e q. fst q = fst e \<and> build_phase s (snd e) = Inr (snd q)) (filter (\<lambda>e. fst e \<in> ?chain) (phases s)) ps"
     "\<forall>q \<in> set ps. \<exists>b. reaches_next_round (pc_inner (snd q)) (from_seam s) = Inr b \<and> (b \<longrightarrow> et_max_span t = 1)"
    using add_phases_table[OF fold] by auto
  have "rel_option (\<lambda>x p. build_phase s x = Inr p) (map_of (phases s) i) (map_of ps i)"
    by (rule map_of_table[OF ps(2) assms(2)])
  then show "\<exists>x. get_phase s i = Inr x \<and> build_phase s x = Inr p"
    using assms(3) ps(1) by (auto simp: get_phase_map_of option_rel_Some2)
  show "\<exists>b. reaches_next_round (pc_inner p) (from_seam s) = Inr b \<and> (b \<longrightarrow> et_max_span t = 1)"
    using ps(3) map_of_SomeD[OF assms(3)] ps(1) by force
qed

lemma template_new_ok:
  assumes on: "self_on_chain s" and t: "experiment_template_new s = Inr t"
  shows "et_ok t" "et_spec t = s" "spec_num_observables s = Inr (et_num_observables t)" "et_repeats t = has_repeating_phase s"
    "admits t R \<Longrightarrow> phase_sequence (s\<lparr>num_rounds := Some R\<rparr>) = Inr (shot_phases t R)"
    "et_repeats t \<Longrightarrow> et_min_rounds t = max 2 (length (et_prefix t) + length (et_suffix t) + 1)"
proof -
  obtain u where f: "validate_spec s = Inr ()"
    "template_layout s = Inr (et_prefix t, et_bulk t, et_suffix t, et_last t, et_min_rounds t)"
    "running_rows (et_phases t) (et_prefix t) = Inr (et_prefix_rows t)"
    "running_rows (et_phases t) (et_suffix t) = Inr (et_suffix_rows t)"
    "et_repeats t \<Longrightarrow> phases_at (et_phases t) (et_bulk t) = Inr (the_phase t (et_bulk t)) \<and> et_bulk_rows t = pc_rows (the_phase t (et_bulk t))"
    "et_spec t = s" "et_repeats t = has_repeating_phase s" "spec_num_observables s = Inr (et_num_observables t)"
    using template_new_steps[OF t] by metis
  then show "et_spec t = s" "spec_num_observables s = Inr (et_num_observables t)" "et_repeats t = has_repeating_phase s" by auto
  note l = template_layout_phases[OF on f(2) validate_spec_parts(1,2)[OF f(1)]]
  show "et_repeats t \<Longrightarrow> et_min_rounds t = max 2 (length (et_prefix t) + length (et_suffix t) + 1)" using l(1) f(7) by blast
  show "et_ok t"
    using l f(5,7) running_rows_total[OF f(3)] running_rows_total[OF f(4)]
    by (auto simp: et_ok_def the_phase_def phases_at_def split: option.splits)
  show "phase_sequence (s\<lparr>num_rounds := Some R\<rparr>) = Inr (shot_phases t R)" if "admits t R"
    using l f(7) that by (auto simp: admits_def shot_phases_def)
qed

lemma template_phase:
  assumes on: "self_on_chain s" and t: "experiment_template_new s = Inr t" and i: "i \<in> set (shot_phases t R)"
  shows "\<exists>x. get_phase s i = Inr x \<and> build_phase s x = Inr (the_phase t i)"
    "\<exists>b. reaches_next_round (pc_inner (the_phase t i)) (from_seam s) = Inr b \<and> (b \<longrightarrow> et_max_span t = 1)"
proof -
  have "i \<in> set (et_prefix t) \<union> set (et_suffix t) \<union> (if et_repeats t then {et_bulk t} else {})"
    using i by (auto simp: shot_phases_def split: if_splits)
  moreover have "map_of (et_phases t) i = Some (the_phase t i)"
    using phase_in_table[OF template_new_ok(1)[OF on t] i] by (auto simp: phases_at_def split: option.splits)
  ultimately show "\<exists>x. get_phase s i = Inr x \<and> build_phase s x = Inr (the_phase t i)"
    "\<exists>b. reaches_next_round (pc_inner (the_phase t i)) (from_seam s) = Inr b \<and> (b \<longrightarrow> et_max_span t = 1)"
    using template_table[OF t] by blast+
qed

lemma build_phase_facts:
  assumes "build_phase s x = Inr p"
  shows "dem_chunk_from_spec x [to_seam s, from_seam s] = Inr (pc_inner p)" "dem_chunk_from_spec x [to_seam s] = Inr (pc_last p)"
    "detectors_of s x = Inr (pc_rows p)" "pc_faults p = ed_num_faults (pc_inner p)"
    "ed_num_faults (pc_last p) = ed_num_faults (pc_inner p)"
    "\<not> has_D_sparse s \<Longrightarrow> pc_measurements p = Some (pc_rows p)"
    "has_D_sparse s \<Longrightarrow> cs_num_measurements x \<noteq> None \<or> measurements_per_round s \<noteq> None \<Longrightarrow> \<exists>n. measurements_of s x = Inr n \<and> pc_measurements p = Some n"
proof -
  obtain rows ms where b: "dem_chunk_from_spec x [to_seam s, from_seam s] = Inr (pc_inner p)" "dem_chunk_from_spec x [to_seam s] = Inr (pc_last p)"
    "detectors_of s x = Inr (pc_rows p)" "pc_faults p = ed_num_faults (pc_inner p)"
    and m: "(if \<not> has_D_sparse s then Inr (Some (pc_rows p))
              else if cs_num_measurements x \<noteq> None \<or> measurements_per_round s \<noteq> None
              then rbind (measurements_of s x) (\<lambda>n. Inr (Some n)) else Inr None) = Inr (pc_measurements p)"
    using assms unfolding build_phase_def by (elim rbind_InrE) (simp only: guard_Inr_iff, elim conjE rbind_InrE, auto)
  then show "dem_chunk_from_spec x [to_seam s, from_seam s] = Inr (pc_inner p)" "dem_chunk_from_spec x [to_seam s] = Inr (pc_last p)"
    "detectors_of s x = Inr (pc_rows p)" "pc_faults p = ed_num_faults (pc_inner p)" by blast+
  show "ed_num_faults (pc_last p) = ed_num_faults (pc_inner p)"
    using dem_chunk_from_spec_shape[OF b(1)] dem_chunk_from_spec_shape[OF b(2)] by (simp add: ed_num_faults_def)
  show "\<not> has_D_sparse s \<Longrightarrow> pc_measurements p = Some (pc_rows p)" using m by simp
  show "has_D_sparse s \<Longrightarrow> cs_num_measurements x \<noteq> None \<or> measurements_per_round s \<noteq> None \<Longrightarrow> \<exists>n. measurements_of s x = Inr n \<and> pc_measurements p = Some n"
    using m by (auto simp: rbind_Inr_iff split: if_splits)
qed

section \<open>Template and expansion agree\<close>

lemma to_seam_width:
  assumes a: "dem_chunk_from_spec x [i, j] = Inr a" and b: "dem_chunk_from_spec x [i] = Inr b"
  shows "seam_rows_or_zero b i = seam_rows_or_zero a i"
proof (cases "cs_seam_specs x \<noteq> [] \<or> cs_H_sparse x = []")
  case True
  then have "seams b = seams a"
    using dem_chunk_from_spec_shape[OF a] dem_chunk_from_spec_shape[OF b] by (simp add: expand_def)
  then show ?thesis by (simp add: seam_rows_or_zero_def has_seam_def get_seam_def)
next
  case False
  then obtain k where "hd (seams a) = hd (seams b)" "seams b = [k]" "seams a \<noteq> []" "seam_ident k = i"
    using dem_chunk_from_spec_shape[OF a] dem_chunk_from_spec_shape[OF b] by (simp add: expand_def)
  then show ?thesis by (cases "seams a") (auto simp: seam_rows_or_zero_def has_seam_def get_seam_def)
qed

definition round_rows :: "seam_id \<Rightarrow> extended_dem \<Rightarrow> nat" where
  "round_rows i c = projr (seam_rows_or_zero c i)"

lemma build_phase_rows:
  assumes "build_phase s x = Inr p"
  shows "round_rows (to_seam s) (pc_inner p) = pc_rows p" "round_rows (to_seam s) (pc_last p) = pc_rows p"
proof -
  note b = build_phase_facts[OF assms]
  have "num_interior_rows (pc_inner p) = 0" using dem_chunk_from_spec_shape[OF b(1)] by blast
  then show "round_rows (to_seam s) (pc_inner p) = pc_rows p"
    using b(3) by (auto simp: detectors_of_def b(1) rbind_Inr_iff round_rows_def)
  then show "round_rows (to_seam s) (pc_last p) = pc_rows p"
    using to_seam_width[OF b(1,2)] by (simp add: round_rows_def)
qed

definition shot_chunk :: "experiment_template \<Rightarrow> nat \<Rightarrow> nat \<Rightarrow> extended_dem" where
  "shot_chunk t R r = (let p = the_phase t (shot_phases t R ! r) in if r + 1 < R then pc_inner p else pc_last p)"

lemma template_chunks:
  assumes on: "self_on_chain s" and t: "experiment_template_new s = Inr t" and R: "admits t R"
  shows "dem_chunks_from_spec (s\<lparr>num_rounds := Some R\<rparr>) = Inr (map (shot_chunk t R) [0..<R])"
proof -
  note ok = template_new_ok[OF on t]
  have two: "2 \<le> R" using et_okD(4)[OF ok(1)] R by (auto simp: admits_def)
  obtain v where "validate_spec s = Inr ()" using template_new_steps[OF t] by metis
  then have v: "validate_spec (s\<lparr>num_rounds := Some R\<rparr>) = Inr ()" using validate_spec_parts(3) two by blast
  have len: "length (shot_phases t R) = R" using length_shot_phases[OF ok(1) R] .
  have "chunk_at s (shot_phases t R ! r, \<not> r + 1 < R) = Inr (shot_chunk t R r)" if "r < R" for r
  proof -
    have "shot_phases t R ! r \<in> set (shot_phases t R)" using that len by simp
    then obtain x where x: "get_phase s (shot_phases t R ! r) = Inr x" "build_phase s x = Inr (the_phase t (shot_phases t R ! r))"
      using template_phase(1)[OF on t] by blast
    show ?thesis using x build_phase_facts(1,2)[OF x(2)] by (auto simp: chunk_at_def shot_chunk_def Let_def)
  qed
  then have "rmap (chunk_at s) (marked (shot_phases t R)) = Inr (map (shot_chunk t R) [0..<R])"
    unfolding marked_nth len rmap_map by (intro rmap_pure) auto
  then show ?thesis unfolding dem_chunks_from_spec_marked v ok(5)[OF R] by simp
qed

lemma sum_shot:
  assumes "length xs = R" "r \<le> R" "\<And>j. j < R \<Longrightarrow> f (c j) = g (xs ! j)"
  shows "sum_list (map g (take r xs)) = sum_list (map f (take r (map c [0..<R])))"
  by (rule arg_cong[of _ _ sum_list], rule nth_equalityI) (use assms in auto)

lemma template_offsets:
  assumes on: "self_on_chain s" and t: "experiment_template_new s = Inr t" and R: "admits t R" and r: "r \<le> R"
  shows "row_offset t r R = Inr (u64 (sum_list (map (round_rows (to_seam s)) (take r (map (shot_chunk t R) [0..<R])))))"
    "column_offset t r R = Inr (u64 (sum_list (map ed_num_faults (take r (map (shot_chunk t R) [0..<R])))))"
proof -
  note ok = template_new_ok[OF on t]
  have len: "length (shot_phases t R) = R" using length_shot_phases[OF ok(1) R] .
  have bp: "\<exists>x. build_phase s x = Inr (the_phase t (shot_phases t R ! j))" if "j < R" for j
    using template_phase(1)[OF on t, of "shot_phases t R ! j" R] that len by auto
  have "round_rows (to_seam s) (shot_chunk t R j) = pc_rows (the_phase t (shot_phases t R ! j))"
    "ed_num_faults (shot_chunk t R j) = pc_faults (the_phase t (shot_phases t R ! j))" if "j < R" for j
    using bp[OF that] build_phase_rows build_phase_facts(4,5) by (auto simp: shot_chunk_def Let_def)
  note w = this
  show "row_offset t r R = Inr (u64 (sum_list (map (round_rows (to_seam s)) (take r (map (shot_chunk t R) [0..<R])))))"
    unfolding row_offset_sum[OF ok(1) R r] by (intro arg_cong[of _ _ Inr] arg_cong[of _ _ u64], rule sum_shot[OF len r]) (use w(1) in simp)
  show "column_offset t r R = Inr (u64 (sum_list (map ed_num_faults (take r (map (shot_chunk t R) [0..<R])))))"
  proof -
    have "column_offset t r R = Inr (u64 (sum_list (map (\<lambda>i. pc_faults (the_phase t i)) (take r (shot_phases t R)))))"
      unfolding column_offset_def by (rule sum_before_sum[OF ok(1) R r]) simp
    also have "\<dots> = Inr (u64 (sum_list (map ed_num_faults (take r (map (shot_chunk t R) [0..<R])))))"
      by (intro arg_cong[of _ _ Inr] arg_cong[of _ _ u64], rule sum_shot[OF len r]) (use w(2) in simp)
    finally show ?thesis .
  qed
qed

lemma template_measurements:
  assumes on: "self_on_chain s" and t: "experiment_template_new s = Inr t" and i: "i \<in> set (shot_phases t R)"
  shows "\<exists>n. pc_measurements (the_phase t i) = Some n" "\<not> has_D_sparse s \<Longrightarrow> pc_measurements (the_phase t i) = Some (pc_rows (the_phase t i))"
proof -
  obtain x where x: "get_phase s i = Inr x" "build_phase s x = Inr (the_phase t i)" using template_phase(1)[OF on t i] by blast
  obtain e where e: "e \<in> set (phases s)" "snd e = x" using x(1) by (auto simp: get_phase_map_of split: option.splits dest!: map_of_SomeD)
  obtain v where v: "validate_spec s = Inr ()" using template_new_steps[OF t] by metis
  show "\<exists>n. pc_measurements (the_phase t i) = Some n"
    using build_phase_facts(6,7)[OF x(2)] validate_spec_parts(4)[OF v _ e(1)] e(2) by (cases "has_D_sparse s") auto
  show "\<not> has_D_sparse s \<Longrightarrow> pc_measurements (the_phase t i) = Some (pc_rows (the_phase t i))"
    using build_phase_facts(6)[OF x(2)] .
qed

lemma template_measurement_offset:
  assumes on: "self_on_chain s" and t: "experiment_template_new s = Inr t" and R: "admits t R" and r: "r \<le> R"
  shows "measurement_offset t r R = Inr (u64 (sum_list (map (\<lambda>i. the (pc_measurements (the_phase t i))) (take r (shot_phases t R)))))"
    "\<not> has_D_sparse s \<Longrightarrow> measurement_offset t r R = row_offset t r R"
proof -
  note ok = template_new_ok[OF on t]
  show m: "measurement_offset t r R = Inr (u64 (sum_list (map (\<lambda>i. the (pc_measurements (the_phase t i))) (take r (shot_phases t R)))))"
    unfolding measurement_offset_def
    by (rule sum_before_sum[OF ok(1) R r]) (use template_measurements(1)[OF on t] in \<open>force simp: measurement_width_def\<close>)
  show "measurement_offset t r R = row_offset t r R" if "\<not> has_D_sparse s"
    unfolding m row_offset_sum[OF ok(1) R r]
    by (intro arg_cong[of _ _ Inr] arg_cong[of _ _ u64] arg_cong[of _ _ sum_list] map_cong refl)
      (use template_measurements(2)[OF on t _ that] in \<open>auto dest!: in_set_takeD\<close>)
qed

text \<open>A round has fewer than \<open>2\<^sup>3\<^sup>2\<close> rows and faults, so a shot of at most that many rounds counts without wrapping.\<close>

lemma sum_list_le_bound: "(\<And>x. f x \<le> b) \<Longrightarrow> sum_list (map f xs) \<le> length xs * (b :: nat)"
  by (induction xs) (auto simp: add_mono)

lemma shot_sum_bound:
  assumes "\<And>c. f c \<le> max_u32" "length chunks \<le> 2 ^ 32"
  shows "sum_list (map f (take r chunks)) < (2 :: nat) ^ 64"
proof -
  have "sum_list (map f (take r chunks)) \<le> length (take r chunks) * max_u32"
    by (rule sum_list_le_bound[OF assms(1)])
  also have "\<dots> \<le> 2 ^ 32 * max_u32" by (rule mult_le_mono1) (use assms(2) in simp)
  also have "\<dots> < 2 ^ 64" by (simp add: max_u32_def)
  finally show ?thesis .
qed

lemma round_rows_bound: "round_rows i c \<le> max_u32"
  by (auto simp: round_rows_def seam_rows_or_zero_def seam_num_rows_def u32_sub_def max_u32_def has_seam_def get_seam_def rbind_def
      find_None_iff list_ex_iff split: option.split sum.split)

lemma ed_num_faults_bound: "ed_num_faults c \<le> max_u32"
  by (simp add: ed_num_faults_def u32_def max_u32_def)

text \<open>
  C13: A template answers as the expansion of its specification. For every shot length that it admits, the chunk of round
  \<open>r\<close> is the chunk \<open>r\<close> that \<open>dem_chunks_from_spec\<close> builds for that many rounds, and the closed forms of \<open>row_offset\<close>
  and \<open>column_offset\<close> are the numbers of detector rows and of faults of the chunks before it, counted modulo \<open>2\<^sup>6\<^sup>4\<close> as
  the code does; up to \<open>2\<^sup>3\<^sup>2\<close> rounds both numbers are below that. Without measurement maps
  the measurements before a round are counted like its rows. A length that it does not admit is refused.
\<close>

theorem template_matches_spec:
  assumes "self_on_chain s" "experiment_template_new s = Inr t"
  shows "if admits t R
    then \<exists>chunks. dem_chunks_from_spec (s\<lparr>num_rounds := Some R\<rparr>) = Inr chunks \<and> length chunks = R \<and>
       (\<forall>r < R. et_chunk t r R = Inr (chunks ! r)) \<and>
       (\<forall>r \<le> R. row_offset t r R = Inr (sum_list (map (round_rows (to_seam s)) (take r chunks)) mod 2 ^ 64) \<and>
                 column_offset t r R = Inr (sum_list (map ed_num_faults (take r chunks)) mod 2 ^ 64) \<and>
                 (R \<le> 2 ^ 32 \<longrightarrow> sum_list (map (round_rows (to_seam s)) (take r chunks)) < 2 ^ 64 \<and>
                    sum_list (map ed_num_faults (take r chunks)) < 2 ^ 64) \<and>
                 (\<not> has_D_sparse s \<longrightarrow> measurement_offset t r R = row_offset t r R))
    else \<forall>r. (\<exists>m. et_chunk t r R = Inl (Invalid_argument m)) \<and> (\<exists>m. row_offset t r R = Inl (Invalid_argument m)) \<and>
       (\<exists>m. column_offset t r R = Inl (Invalid_argument m))"
proof (cases "admits t R")
  case True
  note ok = template_new_ok(1)[OF assms]
  let ?chunks = "map (shot_chunk t R) [0..<R]"
  have len: "R \<le> 2 ^ 32 \<Longrightarrow> length ?chunks \<le> 2 ^ 32" by simp
  have "\<forall>r < R. et_chunk t r R = Inr (?chunks ! r)" using et_chunk_nth[OF ok True] by (simp add: shot_chunk_def)
  moreover have "\<forall>r \<le> R. row_offset t r R = Inr (sum_list (map (round_rows (to_seam s)) (take r ?chunks)) mod 2 ^ 64) \<and>
      column_offset t r R = Inr (sum_list (map ed_num_faults (take r ?chunks)) mod 2 ^ 64) \<and>
      (R \<le> 2 ^ 32 \<longrightarrow> sum_list (map (round_rows (to_seam s)) (take r ?chunks)) < 2 ^ 64 \<and>
         sum_list (map ed_num_faults (take r ?chunks)) < 2 ^ 64) \<and>
      (\<not> has_D_sparse s \<longrightarrow> measurement_offset t r R = row_offset t r R)"
  proof (intro allI impI conjI)
    fix r assume r: "r \<le> R"
    show "row_offset t r R = Inr (sum_list (map (round_rows (to_seam s)) (take r ?chunks)) mod 2 ^ 64)"
      "column_offset t r R = Inr (sum_list (map ed_num_faults (take r ?chunks)) mod 2 ^ 64)"
      using template_offsets[OF assms True r] by (simp_all only: u64_def)
    show "sum_list (map (round_rows (to_seam s)) (take r ?chunks)) < 2 ^ 64" "sum_list (map ed_num_faults (take r ?chunks)) < 2 ^ 64" if "R \<le> 2 ^ 32"
      using shot_sum_bound[where f = "round_rows (to_seam s)", OF round_rows_bound len[OF that]]
        shot_sum_bound[where f = ed_num_faults, OF ed_num_faults_bound len[OF that]] by blast+
    show "measurement_offset t r R = row_offset t r R" if "\<not> has_D_sparse s"
      using template_measurement_offset(2)[OF assms True r that] .
  qed
  moreover have "length ?chunks = R" by simp
  ultimately show ?thesis using template_chunks[OF assms True] unfolding if_P[OF True] by blast
next
  case False
  have "(\<exists>m. et_chunk t r R = Inl (Invalid_argument m)) \<and> (\<exists>m. row_offset t r R = Inl (Invalid_argument m)) \<and>
     (\<exists>m. column_offset t r R = Inl (Invalid_argument m))" for r
  proof -
    obtain m n where "check_round t r (sz_sub R 1) R = Inl (Invalid_argument m)" "check_round t r R R = Inl (Invalid_argument n)"
      using check_round_error False by metis
    then show ?thesis by (simp add: et_chunk_def et_phase_def row_offset_def column_offset_def sum_before_def Let_def)
  qed
  then show ?thesis using False by simp
qed

theorem template_matches_spec_witness:
  "\<exists>t chunks. experiment_template_new (three_phases 3) = Inr t \<and>
     dem_chunks_from_spec (three_phases 9) = Inr chunks \<and> et_chunk t 5 9 = Inr (chunks ! 5) \<and>
     row_offset t 9 9 = Inr (sum_list (map (round_rows 8) chunks))"
proof -
  have on: "self_on_chain (three_phases 3)" by code_simp
  have "(case experiment_template_new (three_phases 3) of Inr t \<Rightarrow> admits t 9 | Inl _ \<Rightarrow> False)" by code_simp
  then obtain t where t: "experiment_template_new (three_phases 3) = Inr t" "admits t 9" by (auto split: sum.splits)
  have e: "(three_phases 3)\<lparr>num_rounds := Some 9\<rparr> = three_phases 9" "to_seam (three_phases 3) = 8" by (simp_all add: three_phases_def)
  obtain chunks where c: "dem_chunks_from_spec (three_phases 9) = Inr chunks" "length chunks = 9"
    "\<forall>r < 9. et_chunk t r 9 = Inr (chunks ! r)"
    "\<forall>r \<le> 9. row_offset t r 9 = Inr (sum_list (map (round_rows 8) (take r chunks)) mod 2 ^ 64) \<and>
       (9 \<le> (2 :: nat) ^ 32 \<longrightarrow> sum_list (map (round_rows 8) (take r chunks)) < 2 ^ 64)"
    using template_matches_spec[OF on t(1), of 9] unfolding if_P[OF t(2)] e by blast
  have "sum_list (map (round_rows 8) chunks) < 2 ^ 64" "row_offset t 9 9 = Inr (sum_list (map (round_rows 8) chunks) mod 2 ^ 64)"
    using spec[OF c(4), of 9] c(2) by simp_all
  then show ?thesis using t(1) c(1,3) by (intro exI[of _ t] exI[of _ chunks]) simp
qed

end
