(* ===== verification/QEC_Window.thy ===== *)
theory QEC_Window
  imports QEC_Template
begin

text \<open>
  Window requests (\<open>window_request.h\<close>) and the placement of decoding windows in a shot
  (\<open>decoding_task_decoding_window.h\<close>, \<open>.cpp\<close>): the construction rules of a request, the instances of a layer, the
  rounds, zones, ports and sends of one window, and the keys that say which windows of a layer share a model. Rounds
  are \<open>int64_t\<close>, modelled as integers: a sum or product of an unchecked window index or shot length that leaves the
  type is undefined behaviour. The bounds that a request passes are limited to \<open>2\<^sup>3\<^sup>1\<close> by its checks, so sums of them need
  none; prefix and suffix are lists in memory, taken to be far shorter than \<open>2\<^sup>6\<^sup>1\<close>. \<open>to_i64\<close> and \<open>to_size\<close> convert
  between \<open>size_t\<close> and \<open>int64_t\<close>. A template is shared through a pointer, modelled as an address with its target.
\<close>

section \<open>64-bit integers\<close>

definition i64 :: "int \<Rightarrow> bool" where
  "i64 i \<longleftrightarrow> - (2 ^ 63) \<le> i \<and> i < 2 ^ 63"

definition to_i64 :: "nat \<Rightarrow> int" where
  "to_i64 n = (if n < 2 ^ 63 then int n else int n - 2 ^ 64)"

definition to_size :: "int \<Rightarrow> nat" where
  "to_size i = (if i < 0 then nat (2 ^ 64 + i) else nat i)"

text \<open>A value computed through the given intermediate results.\<close>

definition i64_steps :: "int list \<Rightarrow> 'a \<Rightarrow> 'a res" where
  "i64_steps xs y = (if list_all i64 xs then Inr y else Inl Undefined_behaviour)"

section \<open>Requests\<close>

record round_range =
  rr_begin :: int
  rr_end :: int

definition rr_empty :: "round_range \<Rightarrow> bool" where
  "rr_empty r \<longleftrightarrow> rr_end r \<le> rr_begin r"

abbreviation rr :: "int \<Rightarrow> int \<Rightarrow> round_range" where
  "rr b e \<equiv> \<lparr>rr_begin = b, rr_end = e\<rparr>"

datatype port_disposition = Port_open | Port_closed
datatype send_mode = Send_delta | Send_residual
datatype input_boundary = Boundary_columns | Boundary_truncate
datatype parallel_resolution = Parallel_reject | Parallel_most_likely

record input_port =
  ip_disposition :: "port_disposition option"
  ip_prior :: "real option"
  ip_boundary :: "input_boundary option"

record output_port =
  op_disposition :: "port_disposition option"
  op_imports :: "round_range option"

record send_request =
  sr_id :: string
  sr_mode :: "send_mode option"
  sr_rounds :: "round_range list"

record column_options =
  merge_identical :: bool
  conflicting_parallel :: parallel_resolution

record window_request =
  wr_period :: int
  wr_offset :: int
  wr_commit :: "round_range option"
  wr_buffers :: "round_range list"
  wr_input :: input_port
  wr_output :: output_port
  wr_sends :: "send_request list"
  wr_columns :: column_options

definition window_round_limit :: int where
  "window_round_limit = 2 ^ 31"

definition floor_div :: "int \<Rightarrow> int \<Rightarrow> int" where
  "floor_div a b = (if 0 \<le> a then a div b else - ((- a + b - 1) div b))"

definition ceil_div :: "int \<Rightarrow> int \<Rightarrow> int" where
  "ceil_div a b = floor_div (a + b - 1) b"

definition is_default_send :: "send_request \<Rightarrow> bool" where
  "is_default_send s \<longleftrightarrow> (sr_id s = ''forward'' \<or> sr_id s = ''backward'') \<and> sr_mode s = None \<and> sr_rounds s = []"

definition trailing_buffer :: "window_request \<Rightarrow> round_range option" where
  "trailing_buffer q = find (\<lambda>b. rr_begin b = rr_end (the (wr_commit q))) (wr_buffers q)"

text \<open>
  \<open>std::sort\<close> by the first round. Ranges with the same first round may come in any order; every caller rejects them
  (they overlap or one of them is empty) before the order matters.
\<close>

definition sort_ranges :: "round_range list \<Rightarrow> round_range list" where
  "sort_ranges = sort_key rr_begin"

definition sorted_zones :: "window_request \<Rightarrow> round_range list" where
  "sorted_zones q = sort_ranges (wr_buffers q @ [the (wr_commit q)])"

definition reject :: "string \<Rightarrow> unit res" where
  "reject what = Inl (Invalid_argument (''window request: '' @ what))"

definition check_within :: "int \<Rightarrow> unit res" where
  "check_within v =
     (if window_round_limit < v \<or> v < - window_round_limit then reject ''beyond the rounds of any shot'' else Inr ())"

definition check_anchor :: "window_request \<Rightarrow> unit res" where
  "check_anchor q =
     (if wr_period q < 1 then reject ''period must be at least 1''
      else rbind (check_within (wr_period q)) (\<lambda>_. rbind (check_within (wr_offset q)) (\<lambda>_.
        case wr_commit q of
          None \<Rightarrow> reject ''no commit zone''
        | Some c \<Rightarrow> rbind (check_within (rr_begin c)) (\<lambda>_. rbind (check_within (rr_end c)) (\<lambda>_.
            if rr_empty c then reject ''the commit zone is empty'' else Inr ())))))"

definition check_send_round :: "round_range \<Rightarrow> round_range list \<Rightarrow> nat \<Rightarrow> unit res" where
  "check_send_round window rounds i =
     (let r = rounds ! i in
      rbind (check_within (rr_begin r)) (\<lambda>_. rbind (check_within (rr_end r)) (\<lambda>_.
        if rr_empty r then reject ''send has an empty round range''
        else if rr_begin r < rr_begin window \<or> rr_end window < rr_end r then reject ''send reaches past the window''
        else if 0 < i \<and> rr_begin r < rr_end (rounds ! (i - 1)) then reject ''send repeats a round''
        else Inr ())))"

definition check_send :: "window_request \<Rightarrow> round_range \<Rightarrow> send_request \<Rightarrow> string list \<Rightarrow> string list res" where
  "check_send q window s ids =
     (if sr_id s \<in> set ids then rbind (reject ''send is repeated'') (\<lambda>_. Inr ids)
      else let ids = ids @ [sr_id s] in
        if is_default_send s
        then if sr_id s = ''forward'' \<and> trailing_buffer q = None
             then rbind (reject ''a forward send needs a buffer zone after the commit zone'') (\<lambda>_. Inr ids) else Inr ids
        else if sr_mode s = None \<or> sr_rounds s = [] then rbind (reject ''send needs a mode and rounds'') (\<lambda>_. Inr ids)
        else let rounds = sort_ranges (sr_rounds s) in
          rbind (rfold (\<lambda>i _. check_send_round window rounds i) [0..<length rounds] ()) (\<lambda>_. Inr ids))"

definition check_sends :: "window_request \<Rightarrow> round_range \<Rightarrow> unit res" where
  "check_sends q window = rbind (rfold (check_send q window) (wr_sends q) []) (\<lambda>_. Inr ())"

definition check_buffer :: "round_range \<Rightarrow> unit res" where
  "check_buffer b = rbind (check_within (rr_begin b)) (\<lambda>_. rbind (check_within (rr_end b)) (\<lambda>_.
     if rr_empty b then reject ''a buffer zone is empty'' else Inr ()))"

definition check_contiguous :: "round_range list \<Rightarrow> nat \<Rightarrow> unit res" where
  "check_contiguous zones i =
     (if rr_begin (zones ! i) < rr_end (zones ! (i - 1)) then reject ''zones overlap''
      else if rr_end (zones ! (i - 1)) < rr_begin (zones ! i) then reject ''zones are not contiguous''
      else Inr ())"

definition check_ports :: "window_request \<Rightarrow> round_range \<Rightarrow> unit res" where
  "check_ports q window =
     (let input = wr_input q; outp = wr_output q in
      case ip_disposition input of
        None \<Rightarrow> reject ''the input port has no disposition''
      | Some disp \<Rightarrow>
          (case op_disposition outp of
             None \<Rightarrow> reject ''the output port has no disposition''
           | Some odisp \<Rightarrow>
               let open_input = (disp = Port_open); truncated = (ip_boundary input = Some Boundary_truncate) in
               if \<not> open_input \<and> ip_boundary input \<noteq> None then reject ''a closed input takes no boundary''
               else if open_input \<and> \<not> truncated \<and> ip_prior input = None then reject ''an open input needs a prior''
               else if \<not> open_input \<and> ip_prior input \<noteq> None then reject ''a closed input takes no prior''
               else if truncated \<and> ip_prior input \<noteq> None then reject ''a truncated input takes no prior''
               else if ip_prior input \<noteq> None \<and> \<not> (0 < the (ip_prior input) \<and> the (ip_prior input) < 1)
               then reject ''the input prior must be strictly between 0 and 1''
               else (case op_imports outp of
                   None \<Rightarrow> Inr ()
                 | Some im \<Rightarrow> rbind (check_within (rr_begin im)) (\<lambda>_. rbind (check_within (rr_end im)) (\<lambda>_.
                     if odisp = Port_open then reject ''an open output imports nothing''
                     else if rr_empty im then reject ''the imports are empty''
                     else if rr_begin im \<noteq> rr_end window then reject ''imports must start at the output wire''
                     else Inr ())))))"

definition check_request :: "window_request \<Rightarrow> unit res" where
  "check_request q =
     rbind (check_anchor q) (\<lambda>_.
     let zones = sorted_zones q; window = rr (rr_begin (hd zones)) (rr_end (List.last zones)) in
     rbind (rfold (\<lambda>b _. check_buffer b) (wr_buffers q) ()) (\<lambda>_.
     rbind (rfold (\<lambda>i _. check_contiguous zones i) [1..<length zones] ()) (\<lambda>_.
     rbind (check_ports q window) (\<lambda>_.
       check_sends q window))))"

section \<open>Spans and instances\<close>

definition zone_span :: "window_request \<Rightarrow> round_range" where
  "zone_span q = fold (\<lambda>b span. rr (min (rr_begin span) (rr_begin b)) (max (rr_end span) (rr_end b)))
     (wr_buffers q) (the (wr_commit q))"

definition clip_rounds :: "round_range \<Rightarrow> int \<Rightarrow> int \<Rightarrow> round_range" where
  "clip_rounds zone anchor e = rr (max 0 (anchor + rr_begin zone)) (min e (anchor + rr_end zone))"

definition clip_i64 :: "round_range \<Rightarrow> int \<Rightarrow> int \<Rightarrow> round_range res" where
  "clip_i64 zone anchor e = i64_steps [anchor + rr_begin zone, anchor + rr_end zone] (clip_rounds zone anchor e)"

text \<open>\<open>request.offset + k * request.period\<close>.\<close>

definition window_anchor :: "window_request \<Rightarrow> int \<Rightarrow> int res" where
  "window_anchor q k = i64_steps [k * wr_period q, wr_offset q + k * wr_period q] (wr_offset q + k * wr_period q)"

definition model_reach :: "experiment_template \<Rightarrow> window_request \<Rightarrow> round_range" where
  "model_reach t q =
     (let span = zone_span q; m = int (et_max_span t);
          imports_end = (if op_disposition (wr_output q) = Some Port_closed
             then (case op_imports (wr_output q) of Some im \<Rightarrow> rr_end im | None \<Rightarrow> rr_end span + m) else rr_end span)
      in rr (rr_begin span - 1) (max (rr_end span + m) imports_end))"

definition window_instances :: "window_request \<Rightarrow> nat \<Rightarrow> (int \<times> int) res" where
  "window_instances q nr =
     rbind (check_anchor q) (\<lambda>_.
     let R = to_i64 nr; period = wr_period q; commit = the (wr_commit q);
         b = floor_div (- wr_offset q - rr_end commit) period + 1;
         last_end = R - wr_offset q - rr_begin commit + period - 1;
         e = floor_div last_end period
     in i64_steps ([R - wr_offset q, R - wr_offset q - rr_begin commit, last_end + 1, last_end] @
          (if last_end < 0 then [- last_end, - last_end + period, - last_end + period - 1] else [])) (b, max e b))"

section \<open>Placement\<close>

record window_port =
  wp_exists :: bool
  wp_disposition :: port_disposition
  wp_boundary :: input_boundary
  wp_prior :: real
  wp_imports :: round_range

record window_send =
  ws_id :: string
  ws_mode :: send_mode
  ws_rounds :: "round_range list"
  ws_rows :: "nat list"

record affine_map =
  am_matrix :: sparse_binary_matrix
  am_offset :: "u8 list"
  am_input_sizes :: "nat list"
  am_output_sizes :: "nat list"

record window_model =
  wm_h :: sparse_binary_matrix
  wm_o :: sparse_binary_matrix
  wm_priors :: "real list"

datatype parallel_conflict = Other_zone | Boundary_conflict | Outside_rows | Observable_conflict

type_synonym template_ref = "(nat \<times> experiment_template) option"

record decoding_window =
  dw_context :: template_ref
  dw_k :: int
  dw_shot_rounds :: nat
  dw_rounds :: round_range
  dw_commit :: round_range
  dw_buffers :: "round_range list"
  dw_input :: window_port
  dw_output :: window_port
  dw_sends :: "window_send list"
  dw_model :: window_model
  dw_num_own_rows :: nat
  dw_num_fault_columns :: nat
  dw_num_virtual_outcome_columns :: nat
  dw_num_crossing_columns :: nat
  dw_num_logical_error_columns :: nat
  dw_commit_columns :: "nat \<times> nat"
  dw_parallel_conflicts :: "(nat \<times> nat \<times> parallel_conflict) list"
  dw_fault_column_sources :: "nat list list"
  dw_m2d :: affine_map
  dw_num_virtual_outcomes :: nat
  dw_num_measurements :: nat
  dw_m2o :: "affine_map option"

definition num_decoder_columns :: "decoding_window \<Rightarrow> nat" where
  "num_decoder_columns w = dw_num_fault_columns w + dw_num_virtual_outcome_columns w + dw_num_crossing_columns w"

definition affine_map_default :: affine_map where
  "affine_map_default = \<lparr>am_matrix = sbm_default, am_offset = [], am_input_sizes = [], am_output_sizes = []\<rparr>"

text \<open>The rows, counted from the first round of the window, of the rounds before \<open>r\<close>.\<close>

definition rel_row :: "experiment_template \<Rightarrow> nat \<Rightarrow> int \<Rightarrow> int \<Rightarrow> nat res" where
  "rel_row t R s r = rbind (row_offset t (to_size r) R) (\<lambda>a. rbind (row_offset t (to_size s) R) (\<lambda>b. Inr (sz_sub a b)))"

definition place_send_round ::
  "experiment_template \<Rightarrow> nat \<Rightarrow> int \<Rightarrow> int \<Rightarrow> round_range \<Rightarrow> window_send \<Rightarrow> window_send res" where
  "place_send_round t nr anchor s relative acc =
     rbind (clip_i64 relative anchor (to_i64 nr)) (\<lambda>clipped.
      if rr_empty clipped then Inr acc
      else rbind (rel_row t nr s (rr_begin clipped)) (\<lambda>b. rbind (rel_row t nr s (rr_end clipped)) (\<lambda>e.
        Inr (acc\<lparr>ws_rounds := ws_rounds acc @ [clipped], ws_rows := ws_rows acc @ [b..<e]\<rparr>))))"

definition send_rounds :: "experiment_template \<Rightarrow> window_request \<Rightarrow> send_request \<Rightarrow> round_range list" where
  "send_rounds t q r =
     (let first = (if sr_id r = ''forward'' then rr_begin (the (trailing_buffer q)) else rr_begin (the (wr_commit q))) in
      sort_ranges (if is_default_send r then [rr first (first + int (et_max_span t))] else sr_rounds r))"

definition place_send ::
  "experiment_template \<Rightarrow> window_request \<Rightarrow> nat \<Rightarrow> int \<Rightarrow> int \<Rightarrow> send_request \<Rightarrow> window_send res" where
  "place_send t q nr anchor s r =
     rfold (place_send_round t nr anchor s) (send_rounds t q r)
       \<lparr>ws_id = sr_id r,
        ws_mode = (case sr_mode r of Some m \<Rightarrow> m | None \<Rightarrow> if sr_id r = ''backward'' then Send_residual else Send_delta),
        ws_rounds = [], ws_rows = []\<rparr>"

definition place_window :: "template_ref \<Rightarrow> window_request \<Rightarrow> int \<Rightarrow> nat \<Rightarrow> decoding_window res" where
  "place_window context q k nr =
     (case context of
        None \<Rightarrow> Inl (Invalid_argument ''place_window: no template'')
      | Some (addr, t) \<Rightarrow>
          let R = to_i64 nr in
          rbind (window_anchor q k) (\<lambda>anchor.
          rbind (check_request q) (\<lambda>_.
          rbind (row_offset t nr nr) (\<lambda>_.
          let relative_end = rr_end (List.last (sorted_zones q)); m_span = int (et_max_span t) in
          rbind (clip_i64 (the (wr_commit q)) anchor R) (\<lambda>commit.
          if rr_empty commit then Inl (Invalid_argument ''place_window: window has no commit round in the shot'')
          else
            rbind (rmap (\<lambda>b. clip_i64 b anchor R) (wr_buffers q)) (\<lambda>buffers.
            let clipped = filter (\<lambda>z. \<not> rr_empty z) buffers;
                rounds = fold (\<lambda>z acc. rr (min (rr_begin acc) (rr_begin z)) (max (rr_end acc) (rr_end z))) clipped commit;
                s = rr_begin rounds; e = rr_end rounds;
                boundary = (case ip_boundary (wr_input q) of Some b \<Rightarrow> b | None \<Rightarrow> Boundary_columns);
                idisp = the (ip_disposition (wr_input q)); odisp = the (op_disposition (wr_output q)) in
            rbind (if e < R \<and> odisp = Port_closed
                   then clip_i64 (case op_imports (wr_output q) of Some im \<Rightarrow> im
                       | None \<Rightarrow> rr relative_end (relative_end + m_span)) anchor R
                   else Inr (rr 0 0)) (\<lambda>imports.
            rbind (rmap (place_send t q nr anchor s) (wr_sends q)) (\<lambda>sends.
              Inr \<lparr>dw_context = context, dw_k = k, dw_shot_rounds = nr, dw_rounds = rounds, dw_commit = commit,
                   dw_buffers = sort_ranges clipped,
                   dw_input = \<lparr>wp_exists = (0 < s), wp_disposition = idisp, wp_boundary = boundary,
                      wp_prior = (if 0 < s \<and> idisp = Port_open \<and> boundary = Boundary_columns then the (ip_prior (wr_input q)) else 0),
                      wp_imports = rr 0 0\<rparr>,
                   dw_output = \<lparr>wp_exists = (e < R), wp_disposition = odisp, wp_boundary = Boundary_columns, wp_prior = 0,
                      wp_imports = imports\<rparr>,
                   dw_sends = sends, dw_model = \<lparr>wm_h = sbm_default, wm_o = sbm_default, wm_priors = []\<rparr>,
                   dw_num_own_rows = 0, dw_num_fault_columns = 0, dw_num_virtual_outcome_columns = 0,
                   dw_num_crossing_columns = 0, dw_num_logical_error_columns = 0, dw_commit_columns = (0, 0),
                   dw_parallel_conflicts = [], dw_fault_column_sources = [], dw_m2d = affine_map_default,
                   dw_num_virtual_outcomes = 0, dw_num_measurements = 0, dw_m2o = None\<rparr>))))))))"

section \<open>Variants\<close>

record variant_key =
  vk_position :: "int option"
  vk_terminal :: "int option"

definition vk_bulk :: "variant_key \<Rightarrow> bool" where
  "vk_bulk v \<longleftrightarrow> vk_position v = None \<and> vk_terminal v = None"

record variant_bounds =
  vb_reach :: round_range
  vb_prefix_rounds :: int
  vb_end_rounds :: int

definition end_rounds :: "experiment_template \<Rightarrow> int" where
  "end_rounds t = max (int (length (et_suffix t))) 1"

definition first_bulk_index :: "experiment_template \<Rightarrow> window_request \<Rightarrow> int" where
  "first_bulk_index t q =
     ceil_div (int (length (et_prefix t)) - wr_offset q - rr_begin (model_reach t q)) (wr_period q)"

definition variant_bounds_of :: "experiment_template \<Rightarrow> window_request \<Rightarrow> variant_bounds res" where
  "variant_bounds_of t q = rbind (check_anchor q) (\<lambda>_.
     Inr \<lparr>vb_reach = model_reach t q, vb_prefix_rounds = int (length (et_prefix t)), vb_end_rounds = end_rounds t\<rparr>)"

definition key_at :: "variant_bounds \<Rightarrow> window_request \<Rightarrow> int \<Rightarrow> int \<Rightarrow> variant_key" where
  "key_at b q k R =
     (let anchor = wr_offset q + k * wr_period q in
      \<lparr>vk_position = (if anchor + rr_begin (vb_reach b) < vb_prefix_rounds b then Some k else None),
       vk_terminal = (if R - vb_end_rounds b < anchor + rr_end (vb_reach b) then Some (R - anchor) else None)\<rparr>)"

definition window_variant_of :: "variant_bounds \<Rightarrow> window_request \<Rightarrow> int \<Rightarrow> nat \<Rightarrow> variant_key res" where
  "window_variant_of b q k nr =
     (let R = to_i64 nr in
      rbind (window_anchor q k) (\<lambda>anchor.
        i64_steps ([anchor + rr_begin (vb_reach b), anchor + rr_end (vb_reach b), R - vb_end_rounds b] @
          (if R - vb_end_rounds b < anchor + rr_end (vb_reach b) then [R - anchor] else [])) (key_at b q k R)))"

definition window_variant :: "experiment_template \<Rightarrow> window_request \<Rightarrow> int \<Rightarrow> nat \<Rightarrow> variant_key res" where
  "window_variant t q k nr = rbind (variant_bounds_of t q) (\<lambda>b. window_variant_of b q k nr)"

definition variant_probe_rounds :: "experiment_template \<Rightarrow> window_request \<Rightarrow> nat res" where
  "variant_probe_rounds t q =
     rbind (check_request q) (\<lambda>_.
       if \<not> et_repeats t then Inr (et_min_rounds t + 1)
       else
         let k = first_bulk_index t q + 1;
             e = wr_offset q + k * wr_period q + rr_end (model_reach t q) + end_rounds t + 1
         in Inr (max (et_min_rounds t) (nat (max e 0))))"

record variant_instance =
  vi_key :: variant_key
  vi_k :: int
  vi_num_rounds :: nat

definition add_variant ::
  "experiment_template \<Rightarrow> window_request \<Rightarrow> nat \<Rightarrow> int \<Rightarrow> variant_instance list \<Rightarrow> variant_instance list res" where
  "add_variant t q R k acc =
     rbind (window_variant t q k R) (\<lambda>key.
       Inr (if list_ex (\<lambda>v. vi_key v = key) acc then acc
            else acc @ [\<lparr>vi_key = key, vi_k = k, vi_num_rounds = R\<rparr>]))"

text \<open>The bound of the outer loop is read once: it does not depend on the round.\<close>

definition variant_instances :: "experiment_template \<Rightarrow> window_request \<Rightarrow> variant_instance list res" where
  "variant_instances t q =
     rbind (variant_probe_rounds t q) (\<lambda>probe.
       rfold (\<lambda>R acc. rbind (window_instances q R) (\<lambda>(b, e). rfold (add_variant t q R) [b..e - 1] acc))
         [et_min_rounds t..<probe] [])"

end
