(* ===== verification/QEC_Window_Model.thy ===== *)
theory QEC_Window_Model
  imports QEC_Window
begin

text \<open>
  The model of a window (\<open>window_from_dem_chunks\<close> of \<open>decoding_task_decoding_window.cpp\<close>): the chunks of its rounds are
  closed into columns, the columns of the window are grouped and restricted to its rows, and the measurement maps give
  its detectors. A \<open>std::map\<close> is an association list in the order of its keys; the key of a class, a zone with a list
  of rows, is the list that starts with the zone, which has the same order. \<open>fail\<close> names the operation.
\<close>

section \<open>Closed chains by column\<close>

definition fail :: "string \<Rightarrow> 'a res" where
  "fail what = Inl (Invalid_argument (''window_from_dem_chunks: '' @ what))"

definition same_matrix :: "sparse_binary_matrix \<Rightarrow> sparse_binary_matrix \<Rightarrow> bool" where
  "same_matrix a b \<longleftrightarrow> sbm_layout a = sbm_layout b \<and> sbm_rows a = sbm_rows b \<and> sbm_cols a = sbm_cols b \<and>
     sbm_ptr a = sbm_ptr b \<and> sbm_idx a = sbm_idx b"

definition same_map :: "affine_map \<Rightarrow> affine_map \<Rightarrow> bool" where
  "same_map a b \<longleftrightarrow> sbm_rows (am_matrix a) = sbm_rows (am_matrix b) \<and> sbm_cols (am_matrix a) = sbm_cols (am_matrix b) \<and>
     to_nested_csr (am_matrix a) = to_nested_csr (am_matrix b) \<and> am_offset a = am_offset b \<and>
     am_input_sizes a = am_input_sizes b \<and> am_output_sizes a = am_output_sizes b"

fun cancel_pairs :: "nat list \<Rightarrow> nat list \<Rightarrow> nat list" where
  "cancel_pairs best [] = best"
| "cancel_pairs best (c # cs) =
     (if best \<noteq> [] \<and> List.last best = c then cancel_pairs (butlast best) cs else cancel_pairs (best @ [c]) cs)"

definition map_matrix :: "nat \<Rightarrow> nat \<Rightarrow> nat list list \<Rightarrow> sparse_binary_matrix res" where
  "map_matrix nrows ncols rows = from_nested_csr (u32 nrows) (u32 ncols) (map (\<lambda>row. cancel_pairs [] (sort row)) rows)"

record chain_columns =
  chc_num_rows :: nat
  chc_num_observables :: nat
  chc_rows :: "nat list list"
  chc_observables :: "nat list list"
  chc_priors :: "real list"

definition push_at :: "nat \<Rightarrow> nat \<Rightarrow> nat list list \<Rightarrow> nat list list res" where
  "push_at c x xss = rbind (vget xss c) (\<lambda>l. vset xss c (l @ [x]))"

definition close_columns :: "extended_dem list \<Rightarrow> seam_id \<Rightarrow> seam_id \<Rightarrow> chain_columns res" where
  "close_columns chunks f t =
     rbind (sparse_dem_from_chunks chunks f t True) (\<lambda>cl.
     let h = scm_detector_error_matrix cl; obs = scm_observable_rows cl; rows = to_nested_csc h in
     rbind (rfold (\<lambda>i acc. rfold (\<lambda>c acc. push_at c (u32 i) acc) (obs ! i) acc) [0..<length obs] (replicate (length rows) [])) (\<lambda>os.
       Inr \<lparr>chc_num_rows = sbm_rows h, chc_num_observables = length obs, chc_rows = rows, chc_observables = os,
            chc_priors = scm_error_rates cl\<rparr>))"

section \<open>Grouping fault columns\<close>

definition push_class :: "nat list \<Rightarrow> nat \<Rightarrow> (nat list \<times> nat list) list \<Rightarrow> (nat list \<times> nat list) list" where
  "push_class key j m = (case map_of m key of None \<Rightarrow> map_emplace key [j] m | Some _ \<Rightarrow> map_update key (\<lambda>l. l @ [j]) m)"

definition by_rate :: "real list \<Rightarrow> nat \<Rightarrow> nat list \<Rightarrow> nat list" where
  "by_rate rates first part = sort_key (\<lambda>j. - (rates ! (first + j))) part"

text \<open>The probability that an odd number of columns fire.\<close>

definition odd_rate :: "real list \<Rightarrow> nat \<Rightarrow> nat list \<Rightarrow> real" where
  "odd_rate rates first part = fold (\<lambda>j rate. rate + rates ! (first + j) - 2 * rate * rates ! (first + j)) part 0"

definition keep_likelier ::
  "real list \<Rightarrow> nat \<Rightarrow> nat list \<times> nat list \<Rightarrow> (nat list \<times> nat list) option \<times> real \<Rightarrow> (nat list \<times> nat list) option \<times> real" where
  "keep_likelier rates first ep st =
     (case st of (best, kept_rate) \<Rightarrow>
        let rate = odd_rate rates first (snd ep) in
        if kept_rate < rate \<or> (rate = kept_rate \<and> best \<noteq> None \<and> hd (snd ep) < hd (snd (the best))) then (Some ep, rate) else st)"

definition group_class ::
  "chain_columns \<Rightarrow> nat \<Rightarrow> column_options \<Rightarrow> nat list \<Rightarrow> nat list list \<Rightarrow> nat list list" where
  "group_class cl first opts members by_first =
     (let rates = chc_priors cl;
          by_effect = fold (\<lambda>j m. push_class (chc_observables cl ! (first + j)) j m) members [] in
      if conflicting_parallel opts \<noteq> Parallel_most_likely \<or> length by_effect = 1
      then fold (\<lambda>ep acc.
             if merge_identical opts then acc[hd (snd ep) := by_rate rates first (snd ep)]
             else fold (\<lambda>j acc. acc[j := [j]]) (snd ep) acc) by_effect by_first
      else
        let best = the (fst (fold (keep_likelier rates first) by_effect (None, -1)));
            rest = sort (concat (map snd (filter (\<lambda>ep. fst ep \<noteq> fst best) by_effect)))
        in by_first[hd members := by_rate rates first (snd best) @ by_rate rates first rest])"

definition group_fault_columns :: "chain_columns \<Rightarrow> nat \<Rightarrow> nat list \<Rightarrow> column_options \<Rightarrow> nat list list res" where
  "group_fault_columns cl first zone opts =
     (if \<not> merge_identical opts \<and> conflicting_parallel opts = Parallel_reject then Inr (map (\<lambda>j. [j]) [0..<length zone])
      else if length (chc_rows cl) < first + length zone then Inl Undefined_behaviour
      else
        let classes = fold (\<lambda>j m. push_class (zone ! j # chc_rows cl ! (first + j)) j m) [0..<length zone] []
        in Inr (filter (\<lambda>g. g \<noteq> []) (fold (\<lambda>km acc. group_class cl first opts (snd km) acc) classes (replicate (length zone) []))))"

section \<open>Parallel columns\<close>

definition conflict_of ::
  "decoding_window \<Rightarrow> chain_columns \<Rightarrow> nat \<Rightarrow> nat list \<Rightarrow> nat list list \<Rightarrow> nat \<Rightarrow> nat \<Rightarrow> parallel_conflict option" where
  "conflict_of w cl first zone os c other =
     (let sources = dw_fault_column_sources w; source = hd (sources ! c) in
      if dw_num_fault_columns w \<le> other then Some Boundary_conflict
      else if zone ! hd (sources ! other) \<noteq> zone ! source then Some Other_zone
      else if chc_rows cl ! (first + hd (sources ! other)) \<noteq> chc_rows cl ! (first + source) then Some Outside_rows
      else if os ! other \<noteq> os ! c then Some Observable_conflict
      else None)"

definition find_parallel_conflicts ::
  "decoding_window \<Rightarrow> chain_columns \<Rightarrow> nat \<Rightarrow> nat list \<Rightarrow> (nat \<times> nat \<times> parallel_conflict) list" where
  "find_parallel_conflicts w cl first zone =
     (let rows = to_nested_csc (wm_h (dw_model w)); os = to_nested_csc (wm_o (dw_model w)) in
      concat (map (\<lambda>c.
        if rows ! c = [] then []
        else case find (\<lambda>other. conflict_of w cl first zone os c other \<noteq> None) (filter (\<lambda>x. rows ! x = rows ! c) [0..<length rows]) of
            None \<Rightarrow> []
          | Some other \<Rightarrow> [(c, other, the (conflict_of w cl first zone os c other))])
        [fst (dw_commit_columns w)..<snd (dw_commit_columns w)]))"

section \<open>Measurement maps\<close>

record measurement_layout =
  ml_v_in :: nat
  ml_width :: "nat list"
  ml_start :: "nat list"

definition stream_width :: "experiment_template \<Rightarrow> int \<Rightarrow> nat \<Rightarrow> nat res" where
  "stream_width t r R = rbind (measurement_offset t (to_size (r + 1)) R) (\<lambda>a. rbind (measurement_offset t (to_size r) R) (\<lambda>b.
     Inr (sz_sub a b)))"

definition layout_measurements :: "experiment_template \<Rightarrow> round_range \<Rightarrow> nat \<Rightarrow> measurement_layout res" where
  "layout_measurements t rounds R =
     rbind (if 0 < rr_begin rounds then stream_width t (rr_begin rounds - 1) R else Inr 0) (\<lambda>v_in.
     rfold (\<lambda>r m. rbind (stream_width t r R) (\<lambda>w.
         Inr (m\<lparr>ml_width := ml_width m @ [w], ml_start := ml_start m @ [u64 (List.last (ml_start m) + w)]\<rparr>)))
       [rr_begin rounds..rr_end rounds - 1] \<lparr>ml_v_in = v_in, ml_width = [], ml_start = [v_in]\<rparr>)"

text \<open>The rows of one round from its \<open>D_sparse\<close> list, over the measurements of the previous round and its own.\<close>

fun m2d_values :: "nat \<Rightarrow> nat \<Rightarrow> nat \<Rightarrow> nat \<Rightarrow> int list \<Rightarrow> nat list \<Rightarrow> nat list list \<Rightarrow> nat list list res" where
  "m2d_values prev_start prev_width start width [] row rows = Inr rows"
| "m2d_values prev_start prev_width start width (v # vs) row rows =
     (if v = -1 then m2d_values prev_start prev_width start width vs [] (rows @ [row])
      else let index = to_size v in
        if index < prev_width then m2d_values prev_start prev_width start width vs (row @ [u32 (prev_start + index)]) rows
        else if index - prev_width < width
        then m2d_values prev_start prev_width start width vs (row @ [u32 (start + index - prev_width)]) rows
        else fail ''a D_sparse reads a measurement past its round'')"

definition m2d_round ::
  "experiment_template \<Rightarrow> decoding_window \<Rightarrow> measurement_layout \<Rightarrow> int \<Rightarrow> nat list list \<Rightarrow> nat list list res" where
  "m2d_round t w m r rows =
     (let R = dw_shot_rounds w; i = nat (r - rr_begin (dw_rounds w));
          prev_start = (if i = 0 then 0 else ml_start m ! (i - 1)); prev_width = (if i = 0 then ml_v_in m else ml_width m ! (i - 1)) in
      rbind (row_offset t (to_size (r + 1)) R) (\<lambda>a. rbind (row_offset t (to_size r) R) (\<lambda>b.
      let detectors = sz_sub a b in
      if \<not> has_D_sparse (et_spec t)
      then Inr (rows @ map (\<lambda>j. u32 (ml_start m ! i + j) # (if 0 < r then [u32 (prev_start + j)] else [])) [0..<detectors])
      else
        rbind (et_phase t (to_size r) R) (\<lambda>i'. rbind (get_phase (et_spec t) i') (\<lambda>p.
        rbind (m2d_values prev_start prev_width (ml_start m ! i) (ml_width m ! i) (cs_D_sparse p) [] rows) (\<lambda>rows'.
          if length rows' - length rows \<noteq> detectors then fail ''a D_sparse has a wrong number of rows'' else Inr rows'))))))"

definition window_wires :: "decoding_window \<Rightarrow> int list" where
  "window_wires w = (if rr_end (dw_commit w) < int (dw_shot_rounds w) then [rr_end (dw_commit w)] else []) @
     (if wp_exists (dw_output w) \<and> rr_end (dw_rounds w) \<noteq> rr_end (dw_commit w) then [rr_end (dw_rounds w)] else [])"

definition build_m2d :: "experiment_template \<Rightarrow> decoding_window \<Rightarrow> measurement_layout \<Rightarrow> affine_map res" where
  "build_m2d t w m =
     (let s = rr_begin (dw_rounds w); last_start = List.last (ml_start m) in
      rbind (rfold (m2d_round t w m) [s..rr_end (dw_rounds w) - 1] []) (\<lambda>rows.
      rbind (rmap (\<lambda>wire. rbind (vget (ml_width m) (nat (wire - 1 - s))) (\<lambda>width. rbind (vget (ml_start m) (nat (wire - 1 - s))) (\<lambda>start.
          Inr (map (\<lambda>j. [u32 (start + j)]) [0..<width])))) (window_wires w)) (\<lambda>wires.
      let all = rows @ concat wires in
      rbind (map_matrix (length all) last_start all) (\<lambda>mat.
        Inr \<lparr>am_matrix = mat, am_offset = replicate (length all) 0, am_input_sizes = [ml_v_in m, sz_sub last_start (ml_v_in m)],
             am_output_sizes = length rows # map length wires\<rparr>))))"

fun m2o_rows :: "nat \<Rightarrow> int list \<Rightarrow> nat list \<Rightarrow> nat list list" where
  "m2o_rows off [] row = []"
| "m2o_rows off (v # vs) row = (if v = -1 then row # m2o_rows off vs [] else m2o_rows off vs (row @ [u32 (off + to_size v)]))"

definition build_m2o :: "experiment_template \<Rightarrow> decoding_window \<Rightarrow> measurement_layout \<Rightarrow> affine_map res" where
  "build_m2o t w m =
     (let R = int (dw_shot_rounds w); last_start = List.last (ml_start m) in
      if rr_end (dw_rounds w) \<noteq> R then fail ''m2o needs the readout round''
      else
        rbind (et_readout t) (\<lambda>readout.
        if readout = [] then fail ''m2o needs the last phase's m2o_sparse''
        else
          rbind (reads_only_at_end t) (\<lambda>only.
          if \<not> only then fail ''m2o needs every readout map on the last phase''
          else
            rbind (vget (ml_start m) (nat (R - 1 - rr_begin (dw_rounds w)))) (\<lambda>start.
            let rows = m2o_rows (sz_sub start (ml_v_in m)) readout [] in
            rbind (map_matrix (length rows) (sz_sub last_start (ml_v_in m)) rows) (\<lambda>mat.
              Inr \<lparr>am_matrix = mat, am_offset = replicate (length rows) 0, am_input_sizes = [sz_sub last_start (ml_v_in m)],
                   am_output_sizes = [length rows]\<rparr>)))))"

section \<open>The window\<close>

definition rel_col :: "experiment_template \<Rightarrow> nat \<Rightarrow> int \<Rightarrow> int \<Rightarrow> nat res" where
  "rel_col t R s r = rbind (column_offset t (to_size r) R) (\<lambda>a. rbind (column_offset t (to_size s) R) (\<lambda>b. Inr (sz_sub a b)))"

definition vresize :: "'a list \<Rightarrow> nat \<Rightarrow> 'a \<Rightarrow> 'a list" where
  "vresize xs n x = take n xs @ replicate (n - length xs) x"

text \<open>The zone of a round: zero for the commit zone, one more than its index for a buffer.\<close>

definition zone_of_round :: "round_range list \<Rightarrow> int \<Rightarrow> nat" where
  "zone_of_round buffers r =
     fold (\<lambda>b z. if rr_begin (buffers ! b) \<le> r \<and> r < rr_end (buffers ! b) then b + 1 else z) [0..<length buffers] 0"

definition rows_in_window :: "chain_columns \<Rightarrow> nat option list \<Rightarrow> nat \<Rightarrow> nat list" where
  "rows_in_window cl window_row column =
     map (\<lambda>r. u32 (the (window_row ! r))) (filter (\<lambda>r. window_row ! r \<noteq> None) (chc_rows cl ! column))"

record window_parts =
  wpt_closed :: chain_columns
  wpt_row_shift :: nat
  wpt_col_shift :: nat
  wpt_rows :: "nat list"
  wpt_window_row :: "nat option list"
  wpt_zone :: "nat list"
  wpt_own_rows :: nat
  wpt_boundary_rows :: nat
  wpt_first_commit :: nat

text \<open>The chunks of the window, closed, and its rows, columns and zones.\<close>

definition window_chain :: "experiment_template \<Rightarrow> decoding_window \<Rightarrow> window_parts res" where
  "window_chain t w =
     (let nr = dw_shot_rounds w; R = int nr; m_span = int (et_max_span t); s = rr_begin (dw_rounds w); e = rr_end (dw_rounds w);
          open_input = (wp_exists (dw_input w) \<and> wp_disposition (dw_input w) = Port_open);
          truncated = (open_input \<and> wp_boundary (dw_input w) = Boundary_truncate);
          imports = wp_imports (dw_output w);
          lo = (if truncated then s - 1 else s); hi = max (min R (e + m_span)) (rr_end imports) in
      rbind (rel_row t nr lo s) (\<lambda>row_shift. rbind (rel_col t nr lo s) (\<lambda>col_shift.
      rbind (rmap (\<lambda>r. et_chunk t (to_size r) nr) [lo..hi - 1]) (\<lambda>chunks.
      rbind (close_columns chunks (from_seam (et_spec t)) (to_seam (et_spec t))) (\<lambda>cl.
      rbind (rel_row t nr s e) (\<lambda>own.
      rbind (if rr_empty imports then Inr []
             else rbind (rel_row t nr s (rr_begin imports)) (\<lambda>ib. rbind (rel_row t nr s (rr_end imports)) (\<lambda>ie. Inr [ib..<ie]))) (\<lambda>imported.
      let rows = map (\<lambda>i. row_shift + i) ([0..<own] @ imported) in
      rbind (rfold (\<lambda>i acc. vset acc (rows ! i) (Some i)) [0..<length rows] (replicate (chc_num_rows cl) None)) (\<lambda>window_row.
      rbind (rfold (\<lambda>r zs. rbind (rel_col t nr s (r + 1)) (\<lambda>n. Inr (vresize zs n (zone_of_round (dw_buffers w) r)))) [s..e - 1] []) (\<lambda>zone.
      rbind (rel_col t nr s (rr_begin (dw_commit w))) (\<lambda>first_commit.
      rbind (if open_input \<and> \<not> truncated then rel_row t nr s (s + 1) else Inr 0) (\<lambda>boundary.
        if length (chc_rows cl) < col_shift + length zone then Inl Undefined_behaviour
        else Inr \<lparr>wpt_closed = cl, wpt_row_shift = row_shift, wpt_col_shift = col_shift, wpt_rows = rows,
                  wpt_window_row = window_row, wpt_zone = zone, wpt_own_rows = own, wpt_boundary_rows = boundary,
                  wpt_first_commit = first_commit\<rparr>)))))))))))"

definition model_window :: "experiment_template \<Rightarrow> window_request \<Rightarrow> decoding_window \<Rightarrow> window_parts \<Rightarrow> decoding_window res" where
  "model_window t q w p =
     (let cl = wpt_closed p; shift = wpt_col_shift p; zone = wpt_zone p;
          open_input = (wp_exists (dw_input w) \<and> wp_disposition (dw_input w) = Port_open);
          truncated = (open_input \<and> wp_boundary (dw_input w) = Boundary_truncate);
          in_window = rows_in_window cl (wpt_window_row p) in
      rbind (group_fault_columns cl shift zone (wr_columns q)) (\<lambda>groups.
      let crossing = filter (\<lambda>c. in_window c \<noteq> []) [0..<shift];
          F = length groups; V = wpt_boundary_rows p; C = length crossing;
          K = (if open_input \<and> \<not> truncated then et_num_observables t else 0);
          cb = length (filter (\<lambda>g. hd g < wpt_first_commit p) groups);
          ce = length (filter (\<lambda>g. zone ! hd g = 0) groups);
          h_columns = map (\<lambda>g. in_window (shift + hd g)) groups @ map (\<lambda>j. [u32 j]) [0..<V] @ map in_window crossing;
          o_columns = map (\<lambda>g. chc_observables cl ! (shift + hd g)) groups @ replicate V [] @
             map (\<lambda>c. chc_observables cl ! c) crossing @ map (\<lambda>ob. [u32 ob]) [0..<K];
          priors = map (odd_rate (chc_priors cl) shift) groups @ replicate V (wp_prior (dw_input w)) @
             map (\<lambda>c. chc_priors cl ! c) crossing @ replicate K (wp_prior (dw_input w)) in
      rbind (from_nested_csc (u32 (length (wpt_rows p))) (u32 (F + V + C)) h_columns) (\<lambda>h0. rbind (canonicalize h0) (\<lambda>h.
      rbind (from_nested_csc (u32 (chc_num_observables cl)) (u32 (F + V + C + K)) o_columns) (\<lambda>o0. rbind (canonicalize o0) (\<lambda>ob.
      let w1 = w\<lparr>dw_num_own_rows := wpt_own_rows p, dw_fault_column_sources := groups, dw_num_fault_columns := F,
                 dw_num_virtual_outcome_columns := V, dw_num_crossing_columns := C, dw_num_logical_error_columns := K,
                 dw_commit_columns := (cb, cb + ce), dw_model := \<lparr>wm_h = h, wm_o = ob, wm_priors = priors\<rparr>\<rparr>
      in Inr (w1\<lparr>dw_parallel_conflicts := find_parallel_conflicts w1 cl shift zone\<rparr>)))))))"

definition window_from_dem_chunks :: "template_ref \<Rightarrow> window_request \<Rightarrow> int \<Rightarrow> nat \<Rightarrow> bool \<Rightarrow> decoding_window res" where
  "window_from_dem_chunks context q k nr with_m2o =
     rbind (place_window context q k nr) (\<lambda>w.
     let t = snd (the context) in
     rbind (window_chain t w) (\<lambda>p. rbind (model_window t q w p) (\<lambda>w.
     rbind (layout_measurements t (dw_rounds w) nr) (\<lambda>lay.
     if max_u32 < List.last (ml_start lay) then fail ''the window holds more measurements than its maps can index''
     else
       rbind (build_m2d t w lay) (\<lambda>m2d.
       rbind (if with_m2o then rbind (build_m2o t w lay) (\<lambda>m. Inr (Some m)) else Inr None) (\<lambda>m2o.
         Inr (w\<lparr>dw_num_virtual_outcomes := ml_v_in lay, dw_num_measurements := sz_sub (List.last (ml_start lay)) (ml_v_in lay),
                dw_m2d := m2d, dw_m2o := m2o\<rparr>)))))))"

section \<open>Windows that are the same up to a shift\<close>

definition rr_shift :: "round_range \<Rightarrow> int \<Rightarrow> round_range" where
  "rr_shift r d = (if rr_empty r then rr 0 0 else rr (rr_begin r - d) (rr_end r - d))"

definition port_fields :: "window_port \<Rightarrow> int \<Rightarrow> bool \<times> port_disposition \<times> input_boundary \<times> real \<times> round_range" where
  "port_fields p d = (wp_exists p, wp_disposition p, wp_boundary p, wp_prior p, rr_shift (wp_imports p) d)"

definition differ :: "string \<Rightarrow> unit res" where
  "differ what = Inl (Invalid_argument (''check_same_window_up_to_shift: windows differ in '' @ what))"

definition check_same_window_up_to_shift :: "decoding_window \<Rightarrow> decoding_window \<Rightarrow> unit res" where
  "check_same_window_up_to_shift a b =
     (let da = rr_begin (dw_rounds a); db = rr_begin (dw_rounds b);
          shifted = (\<lambda>rs d. map (\<lambda>r. rr_shift r d) rs) in
      if rr_end (dw_rounds a) - da \<noteq> rr_end (dw_rounds b) - db then differ ''their rounds''
      else if rr_shift (dw_commit a) da \<noteq> rr_shift (dw_commit b) db \<or> shifted (dw_buffers a) da \<noteq> shifted (dw_buffers b) db
      then differ ''their zones''
      else if port_fields (dw_input a) da \<noteq> port_fields (dw_input b) db then differ ''their input port''
      else if port_fields (dw_output a) da \<noteq> port_fields (dw_output b) db then differ ''their output port''
      else if length (dw_sends a) \<noteq> length (dw_sends b) then differ ''their sends''
      else
        rbind (rfold (\<lambda>i _. let x = dw_sends a ! i; y = dw_sends b ! i in
            if ws_id x \<noteq> ws_id y \<or> ws_mode x \<noteq> ws_mode y \<or> shifted (ws_rounds x) da \<noteq> shifted (ws_rounds y) db \<or> ws_rows x \<noteq> ws_rows y
            then differ ''a send'' else Inr ()) [0..<length (dw_sends a)] ()) (\<lambda>_.
        if dw_num_own_rows a \<noteq> dw_num_own_rows b \<or> dw_num_fault_columns a \<noteq> dw_num_fault_columns b \<or>
           dw_num_virtual_outcome_columns a \<noteq> dw_num_virtual_outcome_columns b \<or>
           dw_num_crossing_columns a \<noteq> dw_num_crossing_columns b \<or>
           dw_num_logical_error_columns a \<noteq> dw_num_logical_error_columns b \<or>
           dw_commit_columns a \<noteq> dw_commit_columns b \<or> dw_fault_column_sources a \<noteq> dw_fault_column_sources b \<or>
           \<not> same_matrix (wm_h (dw_model a)) (wm_h (dw_model b)) \<or> \<not> same_matrix (wm_o (dw_model a)) (wm_o (dw_model b)) \<or>
           wm_priors (dw_model a) \<noteq> wm_priors (dw_model b)
        then differ ''their model''
        else if dw_num_virtual_outcomes a \<noteq> dw_num_virtual_outcomes b \<or> dw_num_measurements a \<noteq> dw_num_measurements b \<or>
           \<not> same_map (dw_m2d a) (dw_m2d b) then differ ''their m2d''
        else (case (dw_m2o a, dw_m2o b) of
            (None, None) \<Rightarrow> Inr ()
          | (Some x, Some y) \<Rightarrow> if same_map x y then Inr () else differ ''their m2o''
          | _ \<Rightarrow> differ ''their m2o'')))"

definition check_translation_invariance :: "template_ref \<Rightarrow> window_request \<Rightarrow> unit res" where
  "check_translation_invariance context q =
     (case context of
        None \<Rightarrow> fail ''no template''
      | Some (addr, t) \<Rightarrow>
          rbind (check_request q) (\<lambda>_.
          if \<not> et_repeats t then Inr ()
          else
            let k = first_bulk_index t q;
                R = max (int (et_min_rounds t)) (wr_offset q + (k + 1) * wr_period q + rr_end (model_reach t q) + end_rounds t) in
            rbind (window_from_dem_chunks context q k (nat R) False) (\<lambda>a.
            rbind (window_from_dem_chunks context q (k + 1) (nat R) False) (\<lambda>b.
              check_same_window_up_to_shift a b))))"

end
