(* ===== verification/QEC_Window_Place.thy ===== *)
theory QEC_Window_Place
  imports QEC_Window
begin

text \<open>
  Where the windows of a layer lie: the instances are exactly the windows that commit a round of the shot, and the
  zones of a placed window split its rounds.
\<close>

section \<open>Instances\<close>

lemma floor_div_eq: "0 < b \<Longrightarrow> floor_div a b = a div b"
proof (cases "0 \<le> a")
  case False
  assume b: "0 < b"
  have "- a + b - 1 = b * (- (a div b)) + (b - 1 - a mod b)" using mult_div_mod_eq[of b a] by (simp add: algebra_simps)
  moreover have "0 \<le> b - 1 - a mod b" "b - 1 - a mod b < b" using b pos_mod_bound[of b a] pos_mod_sign[of b a] by linarith+
  ultimately have "(- a + b - 1) div b = - (a div b)" using int_div_pos_eq[of "- a + b - 1" b "- (a div b)"] by simp
  then show ?thesis using False by (simp add: floor_div_def)
qed (simp add: floor_div_def)

lemma le_div_iff: "0 < (b :: int) \<Longrightarrow> k \<le> a div b \<longleftrightarrow> k * b \<le> a"
proof
  assume "0 < b" "k \<le> a div b"
  then have "k * b \<le> a div b * b" by (simp add: mult_right_mono)
  then show "k * b \<le> a" using \<open>0 < b\<close> pos_mod_sign[of b a] minus_mod_eq_div_mult[of a b] by linarith
next
  assume b: "0 < b" "k * b \<le> a"
  then show "k \<le> a div b" using zdiv_mono1[of "k * b" a b] by simp
qed

lemma commit_clipped_iff:
  assumes "\<not> rr_empty c" "0 < R"
  shows "rr_empty (clip_rounds c a R) \<longleftrightarrow> a + rr_end c \<le> 0 \<or> R \<le> a + rr_begin c"
  using assms by (auto simp: rr_empty_def clip_rounds_def)

lemma check_anchorD:
  assumes "check_anchor q = Inr ()"
  shows "1 \<le> wr_period q" "\<exists>c. wr_commit q = Some c \<and> \<not> rr_empty c"
  using assms by (auto simp: check_anchor_def reject_def rbind_Inr_iff split: if_splits option.splits)

lemma i64_steps_Inr: "i64_steps xs y = Inr z \<longleftrightarrow> list_all i64 xs \<and> z = y"
  by (auto simp: i64_steps_def)

lemma i64I: "- (2 ^ 63) \<le> x \<Longrightarrow> x < 2 ^ 63 \<Longrightarrow> i64 x"
  by (simp add: i64_def)

lemma to_i64_int: "R \<le> 2 ^ 62 \<Longrightarrow> to_i64 R = int R"
  by (simp add: to_i64_def)

lemma check_within_iff: "check_within v = Inr u \<longleftrightarrow> - (2 ^ 31) \<le> v \<and> v \<le> 2 ^ 31"
  by (auto simp: check_within_def window_round_limit_def reject_def)

lemma check_anchor_limits:
  assumes "check_anchor q = Inr ()"
  shows "wr_period q \<le> 2 ^ 31" "- (2 ^ 31) \<le> wr_offset q" "wr_offset q \<le> 2 ^ 31"
    "- (2 ^ 31) \<le> rr_begin (the (wr_commit q))" "rr_end (the (wr_commit q)) \<le> 2 ^ 31"
  using assms by (auto simp: check_anchor_def reject_def rbind_Inr_iff check_within_iff split: if_splits option.splits)

lemma window_instances_iff:
  assumes "window_instances q R = Inr (b, e)" "0 < R" "R \<le> 2 ^ 62"
  shows "b \<le> k \<and> k < e \<longleftrightarrow> \<not> rr_empty (clip_rounds (the (wr_commit q)) (wr_offset q + k * wr_period q) (int R))"
proof -
  let ?p = "wr_period q" and ?c = "the (wr_commit q)" and ?o = "wr_offset q"
  have a: "check_anchor q = Inr ()" using assms(1) by (cases "check_anchor q") (auto simp: window_instances_def)
  have p: "0 < ?p" and c: "\<not> rr_empty ?c" using check_anchorD[OF a] by auto
  have b: "b = (- ?o - rr_end ?c) div ?p + 1" and e: "e = max ((int R - ?o - rr_begin ?c + ?p - 1) div ?p) b"
    using assms(1) a p by (auto simp: window_instances_def Let_def floor_div_eq i64_steps_Inr to_i64_int[OF assms(3)])
  have "b \<le> k \<longleftrightarrow> 0 < ?o + k * ?p + rr_end ?c"
    using le_div_iff[OF p, of k "- ?o - rr_end ?c"] unfolding b by linarith
  moreover have "k < (int R - ?o - rr_begin ?c + ?p - 1) div ?p \<longleftrightarrow> ?o + k * ?p + rr_begin ?c < int R"
    using le_div_iff[OF p, of "k + 1" "int R - ?o - rr_begin ?c + ?p - 1"] by (simp add: algebra_simps) linarith
  ultimately show ?thesis using commit_clipped_iff[OF c, of "int R" "?o + k * ?p"] assms(2) e by auto
qed

section \<open>Zones\<close>

abbreviation rset :: "round_range \<Rightarrow> int set" where
  "rset z \<equiv> {rr_begin z..<rr_end z}"

lemma rset_empty_iff: "rset z = {} \<longleftrightarrow> rr_empty z"
  by (auto simp: rr_empty_def)

fun contiguous :: "round_range list \<Rightarrow> bool" where
  "contiguous [] = True"
| "contiguous [z] = (\<not> rr_empty z)"
| "contiguous (z # y # zs) = (\<not> rr_empty z \<and> rr_end z = rr_begin y \<and> contiguous (y # zs))"

lemma contiguous_Cons:
  "contiguous (z # zs) \<longleftrightarrow> \<not> rr_empty z \<and> contiguous zs \<and> (zs \<noteq> [] \<longrightarrow> rr_end z = rr_begin (hd zs))"
  by (cases zs) auto

lemma contiguousD_nonempty: "contiguous zs \<Longrightarrow> z \<in> set zs \<Longrightarrow> \<not> rr_empty z"
  by (induction zs rule: contiguous.induct) auto

lemma contiguousI:
  "(\<And>i. Suc i < length zs \<Longrightarrow> rr_end (zs ! i) = rr_begin (zs ! Suc i)) \<Longrightarrow> (\<And>z. z \<in> set zs \<Longrightarrow> \<not> rr_empty z) \<Longrightarrow> contiguous zs"
proof (induction zs)
  case (Cons z zs)
  have "rr_end (zs ! i) = rr_begin (zs ! Suc i)" if "Suc i < length zs" for i using Cons.prems(1)[of "Suc i"] that by simp
  moreover have "rr_end z = rr_begin (hd zs)" if "zs \<noteq> []" using Cons.prems(1)[of 0] that by (simp add: hd_conv_nth)
  ultimately show ?case using Cons.IH Cons.prems(2) by (simp add: contiguous_Cons)
qed simp

lemma contiguous_union:
  "contiguous zs \<Longrightarrow> zs \<noteq> [] \<Longrightarrow> (\<Union>z \<in> set zs. rset z) = {rr_begin (hd zs)..<rr_end (List.last zs)} \<and> rr_begin (hd zs) < rr_end (List.last zs)"
proof (induction zs)
  case (Cons z zs)
  show ?case
  proof (cases "zs = []")
    case False
    then show ?thesis using Cons by (auto simp: contiguous_Cons rr_empty_def)
  qed (use Cons.prems in \<open>auto simp: contiguous_Cons rr_empty_def\<close>)
qed simp

lemma contiguous_disjoint: "contiguous zs \<Longrightarrow> i < length zs \<Longrightarrow> j < length zs \<Longrightarrow> i \<noteq> j \<Longrightarrow> rset (zs ! i) \<inter> rset (zs ! j) = {}"
proof (induction zs arbitrary: i j)
  case (Cons z zs)
  have later: "rset z \<inter> rset y = {}" if "y \<in> set zs" for y
  proof -
    have "zs \<noteq> []" "contiguous zs" using that Cons.prems(1) by (auto simp: contiguous_Cons)
    then have "rset y \<subseteq> {rr_begin (hd zs)..<rr_end (List.last zs)}" using contiguous_union[of zs] that by blast
    then show ?thesis using Cons.prems(1) \<open>zs \<noteq> []\<close> by (auto simp: contiguous_Cons)
  qed
  have zs: "contiguous zs" using Cons.prems(1) by (simp add: contiguous_Cons)
  show ?case
  proof (cases i)
    case 0
    then obtain j' where "j = Suc j'" "j' < length zs" using Cons.prems(3,4) by (cases j) auto
    then show ?thesis using 0 later[OF nth_mem] by (simp only: nth_Cons_0 nth_Cons_Suc)
  next
    case (Suc i')
    have i': "i' < length zs" using Suc Cons.prems(2) by simp
    show ?thesis
    proof (cases j)
      case 0
      then show ?thesis using Suc later[OF nth_mem[OF i']] by (simp only: nth_Cons_0 nth_Cons_Suc Int_commute)
    next
      case (Suc j')
      then have "j' < length zs" "i' \<noteq> j'" using \<open>i = Suc i'\<close> Cons.prems(3,4) by auto
      then show ?thesis using Suc \<open>i = Suc i'\<close> Cons.IH[OF zs i'] by (simp only: nth_Cons_Suc)
    qed
  qed
qed simp

text \<open>The smallest range around a list of ranges, as \<open>zone_span\<close> and \<open>place_window\<close> accumulate it.\<close>

abbreviation enclosing :: "round_range list \<Rightarrow> round_range \<Rightarrow> round_range" where
  "enclosing zs c \<equiv> fold (\<lambda>z acc. rr (min (rr_begin acc) (rr_begin z)) (max (rr_end acc) (rr_end z))) zs c"

lemma enclosing_bounds:
  "rr_begin (enclosing zs c) \<in> rr_begin ` set (c # zs)" "rr_end (enclosing zs c) \<in> rr_end ` set (c # zs)"
  "\<forall>z \<in> set (c # zs). rr_begin (enclosing zs c) \<le> rr_begin z \<and> rr_end z \<le> rr_end (enclosing zs c)"
proof -
  have "rr_begin (enclosing zs c) \<in> rr_begin ` set (c # zs) \<and> rr_end (enclosing zs c) \<in> rr_end ` set (c # zs) \<and>
    (\<forall>z \<in> set (c # zs). rr_begin (enclosing zs c) \<le> rr_begin z \<and> rr_end z \<le> rr_end (enclosing zs c))"
  proof (induction zs arbitrary: c)
    case (Cons z zs)
    let ?c = "rr (min (rr_begin c) (rr_begin z)) (max (rr_end c) (rr_end z))"
    from Cons[of ?c] show ?case by (auto simp: min_def max_def split: if_splits)
  qed simp
  then show "rr_begin (enclosing zs c) \<in> rr_begin ` set (c # zs)" "rr_end (enclosing zs c) \<in> rr_end ` set (c # zs)"
    "\<forall>z \<in> set (c # zs). rr_begin (enclosing zs c) \<le> rr_begin z \<and> rr_end z \<le> rr_end (enclosing zs c)" by blast+
qed

text \<open>The range around ranges that cover an interval is that interval.\<close>

lemma enclosing_cover:
  assumes ne: "\<forall>z \<in> set (c # zs). \<not> rr_empty z" and cover: "(\<Union>z \<in> set (c # zs). rset z) = {b..<e}"
  shows "enclosing zs c = rr b e"
proof -
  note h = enclosing_bounds[where zs = zs and c = c]
  have in_be: "b \<le> rr_begin z \<and> rr_end z \<le> e" if "z \<in> set (c # zs)" for z
  proof -
    have "rset z \<subseteq> {b..<e}" using cover that by blast
    moreover have "rr_begin z < rr_end z" using ne that by (auto simp: rr_empty_def)
    ultimately show ?thesis by auto
  qed
  have "b \<le> rr_begin (enclosing zs c)" "rr_end (enclosing zs c) \<le> e" using h(1,2) in_be by fastforce+
  moreover have lt: "b < e" using in_be[of c] ne by (auto simp: rr_empty_def)
  moreover have "rr_begin (enclosing zs c) \<le> b"
  proof -
    have "b \<in> (\<Union>z \<in> set (c # zs). rset z)" using cover lt by simp
    then obtain z where "z \<in> set (c # zs)" "b \<in> rset z" by blast
    then show ?thesis using h(3) by fastforce
  qed
  moreover have "e \<le> rr_end (enclosing zs c)"
  proof -
    have "e - 1 \<in> (\<Union>z \<in> set (c # zs). rset z)" using cover lt by simp
    then obtain z where "z \<in> set (c # zs)" "e - 1 \<in> rset z" by blast
    then show ?thesis using h(3) by fastforce
  qed
  ultimately show ?thesis by (simp add: round_range.equality antisym)
qed

lemma set_sorted_zones: "set (sorted_zones q) = insert (the (wr_commit q)) (set (wr_buffers q))" "sorted_zones q \<noteq> []"
proof -
  show "set (sorted_zones q) = insert (the (wr_commit q)) (set (wr_buffers q))" by (simp add: sorted_zones_def sort_ranges_def)
  then show "sorted_zones q \<noteq> []" by auto
qed

lemma check_requestD:
  assumes "check_request q = Inr ()"
  shows "check_anchor q = Inr ()" "contiguous (sorted_zones q)"
    "check_ports q (rr (rr_begin (hd (sorted_zones q))) (rr_end (List.last (sorted_zones q)))) = Inr ()"
    "check_sends q (rr (rr_begin (hd (sorted_zones q))) (rr_end (List.last (sorted_zones q)))) = Inr ()"
proof -
  let ?zs = "sorted_zones q" and ?w = "rr (rr_begin (hd (sorted_zones q))) (rr_end (List.last (sorted_zones q)))"
  have c: "check_anchor q = Inr ()" "rfold (\<lambda>b _. check_buffer b) (wr_buffers q) () = Inr ()"
    "rfold (\<lambda>i _. check_contiguous ?zs i) [1..<length ?zs] () = Inr ()" "check_ports q ?w = Inr ()" "check_sends q ?w = Inr ()"
    using assms[unfolded check_request_def Let_def rbind_Inr_iff ex_unit_eq] by blast+
  then show "check_anchor q = Inr ()" "check_ports q ?w = Inr ()" "check_sends q ?w = Inr ()" by blast+
  show "contiguous ?zs"
  proof (rule contiguousI)
    fix i assume "Suc i < length ?zs"
    then have "check_contiguous ?zs (Suc i) = Inr ()" using c(3)[unfolded rfold_unit_iff[where u = "()"]] by simp
    then show "rr_end (?zs ! i) = rr_begin (?zs ! Suc i)"
      by (auto simp: check_contiguous_def reject_def split: if_splits)
  next
    fix z assume "z \<in> set ?zs"
    then have "z = the (wr_commit q) \<or> z \<in> set (wr_buffers q)" by (simp add: set_sorted_zones)
    then show "\<not> rr_empty z"
    proof
      assume "z \<in> set (wr_buffers q)"
      then have "check_buffer z = Inr ()" using c(2)[unfolded rfold_unit_iff[where u = "()"]] by blast
      then show ?thesis by (auto simp: check_buffer_def reject_def rbind_Inr_iff split: if_splits)
    qed (use check_anchorD(2)[OF c(1)] in auto)
  qed
qed

lemma zone_span_sorted:
  assumes "check_request q = Inr ()"
  shows "zone_span q = rr (rr_begin (hd (sorted_zones q))) (rr_end (List.last (sorted_zones q)))"
    "(\<Union>z \<in> set (the (wr_commit q) # wr_buffers q). rset z) = rset (zone_span q)" "\<not> rr_empty (zone_span q)"
    "\<forall>z \<in> set (the (wr_commit q) # wr_buffers q). \<not> rr_empty z"
proof -
  note c = check_requestD(2)[OF assms]
  have ne: "\<forall>z \<in> set (the (wr_commit q) # wr_buffers q). \<not> rr_empty z"
    using c set_sorted_zones(1)[of q] by (metis contiguousD_nonempty list.set(2))
  note u = contiguous_union[OF c set_sorted_zones(2)]
  show z: "zone_span q = rr (rr_begin (hd (sorted_zones q))) (rr_end (List.last (sorted_zones q)))"
    unfolding zone_span_def by (rule enclosing_cover[OF ne]) (use u set_sorted_zones(1)[of q] in simp)
  show "(\<Union>z \<in> set (the (wr_commit q) # wr_buffers q). rset z) = rset (zone_span q)" "\<not> rr_empty (zone_span q)"
    "\<forall>z \<in> set (the (wr_commit q) # wr_buffers q). \<not> rr_empty z"
    unfolding z using u set_sorted_zones(1)[of q] ne by (simp_all add: rr_empty_def)
qed

lemma zone_within:
  assumes "check_request q = Inr ()" "z \<in> set (the (wr_commit q) # wr_buffers q)"
  shows "rr_begin (zone_span q) \<le> rr_begin z \<and> rr_end z \<le> rr_end (zone_span q) \<and> rr_begin z < rr_end z"
proof -
  have "rset z \<subseteq> rset (zone_span q)" "\<not> rr_empty z" using zone_span_sorted(2,4)[OF assms(1)] assms(2) by blast+
  then show ?thesis unfolding rr_empty_def not_le using atLeastLessThan_subset_iff[of "rr_begin z" "rr_end z"] by auto
qed

lemma rset_clip: "rset (clip_rounds z a R) = {0..<R} \<inter> ((+) a) ` rset z"
  by (auto simp: clip_rounds_def image_iff algebra_simps)

section \<open>Instances fit\<close>

abbreviation anchor_of :: "window_request \<Rightarrow> int \<Rightarrow> int" where
  "anchor_of q k \<equiv> wr_offset q + k * wr_period q"

lemma span_limits:
  assumes "check_request q = Inr ()"
  shows "- (2 ^ 31) \<le> rr_begin (zone_span q)" "rr_end (zone_span q) \<le> 2 ^ 31"
proof -
  have bufs: "rfold (\<lambda>b _. check_buffer b) (wr_buffers q) () = Inr ()"
    using assms[unfolded check_request_def Let_def rbind_Inr_iff ex_unit_eq] by blast
  have lim: "- (2 ^ 31) \<le> rr_begin z \<and> rr_end z \<le> 2 ^ 31" if "z \<in> set (the (wr_commit q) # wr_buffers q)" for z
  proof (cases "z = the (wr_commit q)")
    case False
    then have "check_buffer z = Inr ()" using bufs[unfolded rfold_unit_iff[where u = "()"]] that by auto
    then show ?thesis by (auto simp: check_buffer_def rbind_Inr_iff check_within_iff)
  qed (use check_anchor_limits[OF check_requestD(1)[OF assms]] in simp)
  note h = enclosing_bounds(1,2)[where zs = "wr_buffers q" and c = "the (wr_commit q)", folded zone_span_def]
  obtain y z where yz: "y \<in> set (the (wr_commit q) # wr_buffers q)" "rr_begin (zone_span q) = rr_begin y"
    "z \<in> set (the (wr_commit q) # wr_buffers q)" "rr_end (zone_span q) = rr_end z"
    using h by (elim imageE) metis
  show "- (2 ^ 31) \<le> rr_begin (zone_span q)" "rr_end (zone_span q) \<le> 2 ^ 31" using lim[OF yz(1)] lim[OF yz(3)] yz(2,4) by simp_all
qed

text \<open>A window that commits a round has an anchor near the shot, so no sum of the placement leaves \<open>int64_t\<close>.\<close>

lemma instance_fits:
  assumes q: "check_request q = Inr ()" and R: "R \<le> 2 ^ 62" and c: "\<not> rr_empty (clip_rounds (the (wr_commit q)) (anchor_of q k) (int R))"
  shows "- (2 ^ 31) \<le> anchor_of q k" "anchor_of q k \<le> int R + 2 ^ 31" "window_anchor q k = Inr (anchor_of q k)"
    "- (2 ^ 31) - 1 \<le> x \<Longrightarrow> x \<le> 2 ^ 31 + 1 \<Longrightarrow> i64 (anchor_of q k + x)"
proof -
  note L = check_anchor_limits[OF check_requestD(1)[OF q]]
  have a: "0 < anchor_of q k + rr_end (the (wr_commit q))" "anchor_of q k + rr_begin (the (wr_commit q)) < int R"
    using c by (auto simp: rr_empty_def clip_rounds_def)
  show l: "- (2 ^ 31) \<le> anchor_of q k" "anchor_of q k \<le> int R + 2 ^ 31" using a L by linarith+
  have R': "int R \<le> 2 ^ 62" using R by (metis of_nat_le_iff of_nat_numeral of_nat_power)
  show "window_anchor q k = Inr (anchor_of q k)"
    using l R' L by (simp add: window_anchor_def i64_steps_Inr i64_def)
  show "i64 (anchor_of q k + x)" if "- (2 ^ 31) - 1 \<le> x" "x \<le> 2 ^ 31 + 1"
    unfolding i64_def using l R' that by auto
qed

lemma clip_fits:
  assumes "check_request q = Inr ()" "R \<le> 2 ^ 62" "\<not> rr_empty (clip_rounds (the (wr_commit q)) (anchor_of q k) (int R))"
    "- (2 ^ 31) - 1 \<le> rr_begin z" "rr_begin z \<le> 2 ^ 31 + 1" "- (2 ^ 31) - 1 \<le> rr_end z" "rr_end z \<le> 2 ^ 31 + 1"
  shows "clip_i64 z (anchor_of q k) (to_i64 R) = Inr (clip_rounds z (anchor_of q k) (int R))"
  unfolding clip_i64_def i64_steps_def to_i64_int[OF assms(2)] using instance_fits(4)[OF assms(1-3)] assms(4-) by simp

lemma zone_fits:
  assumes "check_request q = Inr ()" "R \<le> 2 ^ 62" "\<not> rr_empty (clip_rounds (the (wr_commit q)) (anchor_of q k) (int R))"
    "rr_begin (zone_span q) \<le> rr_begin z" "rr_end z \<le> rr_end (zone_span q)" "rr_begin z \<le> rr_end z"
  shows "clip_i64 z (anchor_of q k) (to_i64 R) = Inr (clip_rounds z (anchor_of q k) (int R))"
  by (rule clip_fits[OF assms(1-3)]) (use span_limits[OF assms(1)] assms(4-) in linarith)+

text \<open>The imports of a closed output, before clipping.\<close>

definition requested_imports :: "experiment_template \<Rightarrow> window_request \<Rightarrow> round_range" where
  "requested_imports t q = (case op_imports (wr_output q) of Some im \<Rightarrow> im
     | None \<Rightarrow> rr (rr_end (zone_span q)) (rr_end (zone_span q) + int (et_max_span t)))"

lemma imports_fit:
  assumes q: "check_request q = Inr ()" and R: "R \<le> 2 ^ 62" and c: "\<not> rr_empty (clip_rounds (the (wr_commit q)) (anchor_of q k) (int R))"
    and m: "et_max_span t \<le> 1"
  shows "clip_i64 (requested_imports t q) (anchor_of q k) (to_i64 R) = Inr (clip_rounds (requested_imports t q) (anchor_of q k) (int R))"
proof (cases "op_imports (wr_output q)")
  case None
  have "rr_begin (zone_span q) < rr_end (zone_span q)" using zone_span_sorted(3)[OF q] by (simp add: rr_empty_def)
  then show ?thesis by (intro clip_fits[OF q R c]) (use None span_limits[OF q] m in \<open>simp_all add: requested_imports_def\<close>)
next
  case (Some im)
  have "- (2 ^ 31) \<le> rr_begin im \<and> rr_begin im \<le> 2 ^ 31 \<and> - (2 ^ 31) \<le> rr_end im \<and> rr_end im \<le> 2 ^ 31"
    using check_requestD(3)[OF q] Some
    by (auto simp: check_ports_def Let_def reject_def rbind_Inr_iff check_within_iff split: option.splits if_splits)
  then show ?thesis by (intro clip_fits[OF q R c]) (use Some in \<open>simp_all add: requested_imports_def\<close>)
qed

section \<open>The placed window\<close>

definition placed_input :: "window_request \<Rightarrow> int \<Rightarrow> window_port" where
  "placed_input q s =
     (let boundary = (case ip_boundary (wr_input q) of Some b \<Rightarrow> b | None \<Rightarrow> Boundary_columns); idisp = the (ip_disposition (wr_input q))
      in \<lparr>wp_exists = (0 < s), wp_disposition = idisp, wp_boundary = boundary,
          wp_prior = (if 0 < s \<and> idisp = Port_open \<and> boundary = Boundary_columns then the (ip_prior (wr_input q)) else 0),
          wp_imports = rr 0 0\<rparr>)"

definition placed_output :: "experiment_template \<Rightarrow> window_request \<Rightarrow> int \<Rightarrow> int \<Rightarrow> int \<Rightarrow> window_port" where
  "placed_output t q a R e =
     (let odisp = the (op_disposition (wr_output q)) in
      \<lparr>wp_exists = (e < R), wp_disposition = odisp, wp_boundary = Boundary_columns, wp_prior = 0,
       wp_imports = (if e < R \<and> odisp = Port_closed then clip_rounds (requested_imports t q) a R else rr 0 0)\<rparr>)"

lemma clipped_zones:
  assumes q: "check_request q = Inr ()" and c: "\<not> rr_empty (clip_rounds (the (wr_commit q)) a R)"
  defines "zs \<equiv> filter (\<lambda>z. \<not> rr_empty z) (map (\<lambda>b. clip_rounds b a R) (wr_buffers q))"
  shows "enclosing zs (clip_rounds (the (wr_commit q)) a R) = clip_rounds (zone_span q) a R"
    "(\<Union>z \<in> set (clip_rounds (the (wr_commit q)) a R # zs). rset z) = rset (clip_rounds (zone_span q) a R)"
proof -
  let ?c = "the (wr_commit q)"
  have "(\<Union>z \<in> set (clip_rounds ?c a R # zs). rset z) = (\<Union>z \<in> set (?c # wr_buffers q). rset (clip_rounds z a R))"
    unfolding zs_def by (fastforce simp: rr_empty_def)
  also have "\<dots> = {0..<R} \<inter> (+) a ` (\<Union>z \<in> set (?c # wr_buffers q). rset z)" unfolding rset_clip by blast
  also have "\<dots> = rset (clip_rounds (zone_span q) a R)" unfolding rset_clip zone_span_sorted(2)[OF q] by simp
  finally show u: "(\<Union>z \<in> set (clip_rounds ?c a R # zs). rset z) = rset (clip_rounds (zone_span q) a R)" .
  show "enclosing zs (clip_rounds ?c a R) = clip_rounds (zone_span q) a R"
    by (subst enclosing_cover[OF _ u]) (use c in \<open>auto simp: zs_def\<close>)
qed

definition placed :: "template_ref \<Rightarrow> experiment_template \<Rightarrow> window_request \<Rightarrow> int \<Rightarrow> nat \<Rightarrow> window_send list \<Rightarrow> decoding_window" where
  "placed ctx t q k nr sends =
     (let a = anchor_of q k; R = int nr; rounds = clip_rounds (zone_span q) a R in
      \<lparr>dw_context = ctx, dw_k = k, dw_shot_rounds = nr, dw_rounds = rounds, dw_commit = clip_rounds (the (wr_commit q)) a R,
       dw_buffers = sort_ranges (filter (\<lambda>z. \<not> rr_empty z) (map (\<lambda>b. clip_rounds b a R) (wr_buffers q))),
       dw_input = placed_input q (rr_begin rounds), dw_output = placed_output t q a R (rr_end rounds),
       dw_sends = sends, dw_model = \<lparr>wm_h = sbm_default, wm_o = sbm_default, wm_priors = []\<rparr>,
       dw_num_own_rows = 0, dw_num_fault_columns = 0, dw_num_virtual_outcome_columns = 0,
       dw_num_crossing_columns = 0, dw_num_logical_error_columns = 0, dw_commit_columns = (0, 0),
       dw_parallel_conflicts = [], dw_fault_column_sources = [], dw_m2d = affine_map_default,
       dw_num_virtual_outcomes = 0, dw_num_measurements = 0, dw_m2o = None\<rparr>)"

lemma place_window_eq:
  assumes q: "check_request q = Inr ()" and R: "nr \<le> 2 ^ 62" and c: "\<not> rr_empty (clip_rounds (the (wr_commit q)) (anchor_of q k) (int nr))"
    and m: "et_max_span t \<le> 1"
  shows "place_window (Some (addr, t)) q k nr =
     rbind (row_offset t nr nr) (\<lambda>_.
     rbind (rmap (place_send t q nr (anchor_of q k) (rr_begin (clip_rounds (zone_span q) (anchor_of q k) (int nr)))) (wr_sends q)) (\<lambda>sends.
       Inr (placed (Some (addr, t)) t q k nr sends)))"
proof -
  let ?a = "anchor_of q k"
  have e: "rr_end (List.last (sorted_zones q)) = rr_end (zone_span q)" using zone_span_sorted(1)[OF q] by simp
  have zone: "clip_i64 z ?a (int nr) = Inr (clip_rounds z ?a (int nr))" if "z \<in> set (the (wr_commit q) # wr_buffers q)" for z
    using zone_within[OF q that] by (intro zone_fits[OF q R c, unfolded to_i64_int[OF R]]) simp_all
  have commit: "clip_i64 (the (wr_commit q)) ?a (int nr) = Inr (clip_rounds (the (wr_commit q)) ?a (int nr))" by (rule zone) simp
  have bufs: "rmap (\<lambda>b. clip_i64 b ?a (int nr)) (wr_buffers q) = Inr (map (\<lambda>b. clip_rounds b ?a (int nr)) (wr_buffers q))"
    by (rule rmap_pure) (rule zone, simp)
  have imp: "(if b then clip_i64 (requested_imports t q) ?a (int nr) else Inr (rr 0 0)) =
      Inr (if b then clip_rounds (requested_imports t q) ?a (int nr) else rr 0 0)" for b
    using imports_fit[OF q R c m] by (simp add: to_i64_int[OF R])
  show ?thesis
    unfolding place_window_def option.case prod.case q rbind_simps Let_def instance_fits(3)[OF q R c] commit bufs if_not_P[OF c] clipped_zones(1)[OF q c] e
      requested_imports_def[symmetric] imp placed_def placed_input_def placed_output_def to_i64_int[OF R] ..
qed

lemma place_windowD:
  assumes "place_window (Some (addr, t)) q k nr = Inr w" and R: "nr \<le> 2 ^ 62"
  shows "check_request q = Inr ()" "\<exists>n. row_offset t nr nr = Inr n" "\<not> rr_empty (clip_rounds (the (wr_commit q)) (anchor_of q k) (int nr))"
proof -
  note e = assms(1)[unfolded place_window_def option.case prod.case Let_def]
  have a: "window_anchor q k = Inr (anchor_of q k)" using e by (cases "window_anchor q k") (auto simp: window_anchor_def i64_steps_def split: if_splits)
  note e = e[unfolded a rbind_simps]
  show q: "check_request q = Inr ()" using e by (cases "check_request q") simp_all
  note e = e[unfolded q rbind_simps]
  show n: "\<exists>n. row_offset t nr nr = Inr n" using e by (cases "row_offset t nr nr") simp_all
  then obtain n where n: "row_offset t nr nr = Inr n" by blast
  note e = e[unfolded n rbind_simps]
  have c: "clip_i64 (the (wr_commit q)) (anchor_of q k) (to_i64 nr) = Inr (clip_rounds (the (wr_commit q)) (anchor_of q k) (int nr))"
    using e by (cases "clip_i64 (the (wr_commit q)) (anchor_of q k) (to_i64 nr)") (auto simp: clip_i64_def i64_steps_Inr to_i64_int[OF R])
  show "\<not> rr_empty (clip_rounds (the (wr_commit q)) (anchor_of q k) (int nr))" using e[unfolded c rbind_simps guard_Inr_iff] by blast
qed

section \<open>Rows of rounds\<close>

definition shot_rows :: "experiment_template \<Rightarrow> nat \<Rightarrow> int \<Rightarrow> nat" where
  "shot_rows t nr r = sum_list (map (\<lambda>i. pc_rows (the_phase t i)) (take (nat r) (shot_phases t nr)))"

lemma to_size_nat [simp]: "0 \<le> r \<Longrightarrow> to_size r = nat r"
  by (simp add: to_size_def)

lemma sum_list_take_mono: "i \<le> j \<Longrightarrow> sum_list (map f (take i xs)) \<le> sum_list (map (f :: 'a \<Rightarrow> nat) (take j xs))"
  using sum_list_append[of "map f (take i xs)" "map f (take (j - i) (drop i xs))"]
  by (metis le_add1 le_add_diff_inverse map_append take_add)

lemma shot_rows_mono: "r \<le> r' \<Longrightarrow> shot_rows t nr r \<le> shot_rows t nr r'"
  unfolding shot_rows_def by (rule sum_list_take_mono) simp

lemma row_offset_shot: "et_ok t \<Longrightarrow> admits t nr \<Longrightarrow> 0 \<le> r \<Longrightarrow> r \<le> int nr \<Longrightarrow> row_offset t (to_size r) nr = Inr (u64 (shot_rows t nr r))"
  unfolding shot_rows_def using row_offset_sum[of t nr "nat r"] by simp

lemma row_offset_admits: "row_offset t nr nr = Inr n \<Longrightarrow> admits t nr"
  using check_round_error[of t nr nr nr] by (cases "admits t nr") (auto simp: row_offset_def Let_def)

lemma rel_row_shot:
  assumes "et_ok t" "admits t nr" "0 \<le> s" "s \<le> r" "r \<le> int nr"
  shows "rel_row t nr s r = Inr (u64 (shot_rows t nr r - shot_rows t nr s))"
  unfolding rel_row_def using u64_sub[OF shot_rows_mono[OF assms(4), of t nr]] row_offset_shot[OF assms(1,2), of r] row_offset_shot[OF assms(1,2), of s] shot_rows_mono[OF assms(4), of t nr] assms
  by simp

section \<open>Sends\<close>

lemma check_sendsD:
  assumes "check_sends q w = Inr ()" "r \<in> set (wr_sends q)"
  shows "is_default_send r \<Longrightarrow> sr_id r = ''forward'' \<Longrightarrow> \<exists>b. trailing_buffer q = Some b"
    "\<not> is_default_send r \<Longrightarrow> (\<forall>i < length (sr_rounds r). check_send_round w (sort_ranges (sr_rounds r)) i = Inr ())"
    "\<not> is_default_send r \<Longrightarrow> \<exists>m. sr_mode r = Some m"
proof -
  have "rfold (check_send q w) rs ids = Inr ids' \<Longrightarrow> r \<in> set rs \<Longrightarrow> \<exists>ids ids'. check_send q w r ids = Inr ids'" for rs ids ids'
    by (induction rs arbitrary: ids) (auto simp: rbind_Inr_iff)
  then obtain ids ids' where c: "check_send q w r ids = Inr ids'" using assms by (fastforce simp: check_sends_def rbind_Inr_iff)
  show "\<exists>b. trailing_buffer q = Some b" if "is_default_send r" "sr_id r = ''forward''"
    using c that by (auto simp: check_send_def reject_def Let_def split: if_splits)
  show "\<forall>i < length (sr_rounds r). check_send_round w (sort_ranges (sr_rounds r)) i = Inr ()" "\<exists>m. sr_mode r = Some m" if "\<not> is_default_send r"
  proof -
    have "rfold (\<lambda>i _. check_send_round w (sort_ranges (sr_rounds r)) i) [0..<length (sort_ranges (sr_rounds r))] () = Inr ()"
      "sr_mode r \<noteq> None"
      using c that by (auto simp: check_send_def reject_def Let_def rbind_Inr_iff split: if_splits)
    then show "\<forall>i < length (sr_rounds r). check_send_round w (sort_ranges (sr_rounds r)) i = Inr ()" "\<exists>m. sr_mode r = Some m"
      unfolding rfold_unit_iff[where u = "()"] by (auto simp: sort_ranges_def)
  qed
qed

lemma trailing_bufferD: "trailing_buffer q = Some b \<Longrightarrow> b \<in> set (wr_buffers q) \<and> rr_begin b = rr_end (the (wr_commit q))"
  by (auto simp: trailing_buffer_def find_Some_iff)

text \<open>The rounds of a send, before clipping, are ordered and lie in the window.\<close>

definition ordered_within :: "round_range \<Rightarrow> round_range list \<Rightarrow> bool" where
  "ordered_within w zs \<longleftrightarrow> sorted_wrt (\<lambda>y z. rr_end y \<le> rr_begin z) zs \<and>
     (\<forall>z \<in> set zs. rr_begin w \<le> rr_begin z \<and> rr_end z \<le> rr_end w)"

lemma sorted_steps:
  assumes "\<And>i. Suc i < length zs \<Longrightarrow> rr_end (zs ! i) \<le> rr_begin (zs ! Suc i)" "\<And>z. z \<in> set zs \<Longrightarrow> rr_begin z \<le> rr_end z"
  shows "sorted_wrt (\<lambda>y z. rr_end y \<le> rr_begin z) zs"
  using assms
proof (induction zs)
  case (Cons z zs)
  have IH: "sorted_wrt (\<lambda>y z. rr_end y \<le> rr_begin z) zs"
    by (rule Cons.IH) (use Cons.prems(1)[of "Suc _"] Cons.prems(2) in auto)
  moreover have "rr_end z \<le> rr_begin y" if y: "y \<in> set zs" for y
  proof -
    obtain x xs where x: "zs = x # xs" using list.set_cases[OF y] by metis
    have "rr_end z \<le> rr_begin x" using Cons.prems(1)[of 0] x by simp
    moreover have "y = x \<or> rr_end x \<le> rr_begin y" using IH y x by auto
    moreover have "rr_begin x \<le> rr_end x" using Cons.prems(2)[of x] x by simp
    ultimately show ?thesis by auto
  qed
  ultimately show ?case by simp
qed simp

lemma send_rounds_within:
  assumes q: "check_request q = Inr ()" and m: "et_max_span t \<le> 1" and r: "r \<in> set (wr_sends q)"
  shows "ordered_within (zone_span q) (send_rounds t q r)"
proof -
  note c = check_requestD(4)[OF q, folded zone_span_sorted(1)[OF q]]
  note zone = zone_within[OF q]
  show ?thesis
  proof (cases "is_default_send r")
    case True
    define z where "z = (if sr_id r = ''forward'' then the (trailing_buffer q) else the (wr_commit q))"
    have "z \<in> set (the (wr_commit q) # wr_buffers q)"
      using check_sendsD(1)[OF c r True] trailing_bufferD[of q] by (auto simp: z_def)
    moreover have "send_rounds t q r = [rr (rr_begin z) (rr_begin z + int (et_max_span t))]"
      using True by (simp add: send_rounds_def z_def sort_ranges_def Let_def)
    ultimately show ?thesis using zone[of z] m by (auto simp: ordered_within_def)
  next
    case False
    let ?zs = "sort_ranges (sr_rounds r)"
    have rounds: "send_rounds t q r = ?zs" using False by (simp add: send_rounds_def)
    have ch: "check_send_round (zone_span q) ?zs i = Inr ()" if "i < length ?zs" for i
      using check_sendsD(2)[OF c r False] that by (simp add: sort_ranges_def)
    have in_: "\<not> rr_empty (?zs ! i) \<and> rr_begin (zone_span q) \<le> rr_begin (?zs ! i) \<and> rr_end (?zs ! i) \<le> rr_end (zone_span q) \<and>
        (0 < i \<longrightarrow> rr_end (?zs ! (i - 1)) \<le> rr_begin (?zs ! i))" if "i < length ?zs" for i
      using ch[OF that] by (auto simp: check_send_round_def reject_def Let_def rbind_Inr_iff split: if_splits)
    have "sorted_wrt (\<lambda>y z. rr_end y \<le> rr_begin z) ?zs"
    proof (rule sorted_steps)
      show "rr_end (?zs ! i) \<le> rr_begin (?zs ! Suc i)" if "Suc i < length ?zs" for i using in_[OF that] by simp
      show "rr_begin z \<le> rr_end z" if z: "z \<in> set ?zs" for z
      proof -
        obtain i where "i < length ?zs" "z = ?zs ! i" using z by (auto simp: in_set_conv_nth)
        then show ?thesis using in_[of i] by (simp add: rr_empty_def)
      qed
    qed
    moreover have "rr_begin (zone_span q) \<le> rr_begin z \<and> rr_end z \<le> rr_end (zone_span q)" if "z \<in> set ?zs" for z
      using in_ that by (metis in_set_conv_nth)
    ultimately show ?thesis unfolding rounds ordered_within_def by blast
  qed
qed

lemma send_rounds_nonneg:
  assumes q: "check_request q = Inr ()" and r: "r \<in> set (wr_sends q)"
  shows "\<forall>z \<in> set (send_rounds t q r). rr_begin z \<le> rr_end z"
proof (cases "is_default_send r")
  case True
  then show ?thesis by (simp add: send_rounds_def sort_ranges_def Let_def)
next
  case False
  have "\<not> rr_empty (sort_ranges (sr_rounds r) ! i)" if "i < length (sort_ranges (sr_rounds r))" for i
  proof -
    have "check_send_round (rr (rr_begin (hd (sorted_zones q))) (rr_end (List.last (sorted_zones q)))) (sort_ranges (sr_rounds r)) i = Inr ()"
      using check_sendsD(2)[OF check_requestD(4)[OF q] r False] that by (simp add: sort_ranges_def)
    then show ?thesis by (auto simp: check_send_round_def reject_def Let_def rbind_Inr_iff split: if_splits)
  qed
  then have "\<forall>z \<in> set (sort_ranges (sr_rounds r)). rr_begin z \<le> rr_end z"
    unfolding rr_empty_def not_le by (metis in_set_conv_nth less_imp_le)
  then show ?thesis using False by (simp add: send_rounds_def)
qed

definition range_rows :: "experiment_template \<Rightarrow> nat \<Rightarrow> int \<Rightarrow> round_range \<Rightarrow> nat list" where
  "range_rows t nr s z = [u64 (shot_rows t nr (rr_begin z) - shot_rows t nr s)..<u64 (shot_rows t nr (rr_end z) - shot_rows t nr s)]"

lemma clip_within:
  assumes "rr_begin w \<le> rr_begin z \<and> rr_end z \<le> rr_end w" "\<not> rr_empty (clip_rounds z a R)"
  shows "rr_begin (clip_rounds w a R) \<le> rr_begin (clip_rounds z a R)" "rr_end (clip_rounds z a R) \<le> rr_end (clip_rounds w a R)"
    "0 \<le> rr_begin (clip_rounds z a R)" "rr_end (clip_rounds z a R) \<le> R" "rr_begin (clip_rounds z a R) < rr_end (clip_rounds z a R)"
  using assms by (auto simp: clip_rounds_def rr_empty_def)

lemma place_send_rounds:
  assumes t: "et_ok t" "admits t nr" and zs: "\<forall>z \<in> set zs. rr_begin w \<le> rr_begin z \<and> rr_end z \<le> rr_end w"
    and s: "s = rr_begin (clip_rounds w a (int nr))" and fit: "\<forall>z \<in> set zs. clip_i64 z a (to_i64 nr) = Inr (clip_rounds z a (int nr))"
  shows "rfold (place_send_round t nr a s) zs acc =
    (let cs = filter (\<lambda>z. \<not> rr_empty z) (map (\<lambda>z. clip_rounds z a (int nr)) zs) in
     Inr (acc\<lparr>ws_rounds := ws_rounds acc @ cs, ws_rows := ws_rows acc @ concat (map (range_rows t nr s) cs)\<rparr>))"
  using zs fit
proof (induction zs arbitrary: acc)
  case (Cons z zs)
  let ?c = "clip_rounds z a (int nr)"
  show ?case
  proof (cases "rr_empty ?c")
    case True
    then show ?thesis using Cons by (simp add: place_send_round_def)
  next
    case False
    note c = clip_within[OF bspec[OF Cons.prems(1) list.set_intros(1)] False]
    have s0: "0 \<le> s" using s by (simp add: clip_rounds_def)
    have "rel_row t nr s (rr_begin ?c) = Inr (u64 (shot_rows t nr (rr_begin ?c) - shot_rows t nr s))"
      "rel_row t nr s (rr_end ?c) = Inr (u64 (shot_rows t nr (rr_end ?c) - shot_rows t nr s))"
      using c s s0 by (intro rel_row_shot[OF t]; simp)+
    then show ?thesis using Cons False by (simp add: place_send_round_def range_rows_def Let_def)
  qed
qed simp

definition placed_send :: "experiment_template \<Rightarrow> window_request \<Rightarrow> nat \<Rightarrow> int \<Rightarrow> int \<Rightarrow> send_request \<Rightarrow> window_send" where
  "placed_send t q nr a s r =
     (let cs = filter (\<lambda>z. \<not> rr_empty z) (map (\<lambda>z. clip_rounds z a (int nr)) (send_rounds t q r)) in
      \<lparr>ws_id = sr_id r,
       ws_mode = (case sr_mode r of Some m \<Rightarrow> m | None \<Rightarrow> if sr_id r = ''backward'' then Send_residual else Send_delta),
       ws_rounds = cs, ws_rows = concat (map (range_rows t nr s) cs)\<rparr>)"

lemma place_window_template:
  assumes t: "et_ok t" "et_max_span t \<le> 1" and B: "nr \<le> 2 ^ 62"
  shows "place_window (Some (addr, t)) q k nr = Inr w \<longleftrightarrow>
    check_request q = Inr () \<and> admits t nr \<and> \<not> rr_empty (clip_rounds (the (wr_commit q)) (anchor_of q k) (int nr)) \<and>
    w = placed (Some (addr, t)) t q k nr (map (placed_send t q nr (anchor_of q k)
      (rr_begin (clip_rounds (zone_span q) (anchor_of q k) (int nr)))) (wr_sends q))" (is "?L \<longleftrightarrow> ?R")
proof -
  let ?a = "anchor_of q k" and ?s = "rr_begin (clip_rounds (zone_span q) (anchor_of q k) (int nr))"
  have sends: "rmap (place_send t q nr ?a ?s) (wr_sends q) = Inr (map (placed_send t q nr ?a ?s) (wr_sends q))"
    if q: "check_request q = Inr ()" and R: "admits t nr" and c: "\<not> rr_empty (clip_rounds (the (wr_commit q)) ?a (int nr))"
  proof (rule rmap_pure)
    fix r assume r: "r \<in> set (wr_sends q)"
    have w: "\<forall>z \<in> set (send_rounds t q r). rr_begin (zone_span q) \<le> rr_begin z \<and> rr_end z \<le> rr_end (zone_span q)"
      using send_rounds_within[OF q t(2) r] by (simp add: ordered_within_def)
    have fit: "\<forall>z \<in> set (send_rounds t q r). clip_i64 z ?a (to_i64 nr) = Inr (clip_rounds z ?a (int nr))"
      using w send_rounds_nonneg[OF q r] by (intro ballI zone_fits[OF q B c]) blast+
    from place_send_rounds[OF t(1) R w refl fit] show "place_send t q nr ?a ?s r = Inr (placed_send t q nr ?a ?s r)"
      by (simp add: place_send_def placed_send_def Let_def)
  qed
  show ?thesis
  proof
    assume L: ?L
    note D = place_windowD[OF L B]
    obtain n where n: "row_offset t nr nr = Inr n" using D(2) by blast
    note L' = L[unfolded place_window_eq[OF D(1) B D(3) t(2)] n rbind_simps sends[OF D(1) row_offset_admits[OF n] D(3)]]
    show ?R by (intro conjI D(1,3) row_offset_admits[OF n] Inr_inject[OF L', symmetric])
  next
    assume R: ?R
    then have D: "check_request q = Inr ()" "admits t nr" "\<not> rr_empty (clip_rounds (the (wr_commit q)) ?a (int nr))" by blast+
    obtain n where n: "row_offset t nr nr = Inr n" using row_offset_sum[OF t(1) D(2), of nr] by auto
    show ?L unfolding place_window_eq[OF D(1) B D(3) t(2)] n rbind_simps sends[OF D] using R by (simp only:)
  qed
qed

text \<open>Without a wrap-around the rows of ordered rounds are in order.\<close>

lemma range_rows_sorted:
  assumes "sorted_wrt (\<lambda>y z. rr_end y \<le> rr_begin z) cs" "\<forall>z \<in> set cs. rr_begin z \<le> rr_end z"
    and fit: "\<And>r. shot_rows t nr r < 2 ^ 64"
  shows "sorted_wrt (<) (concat (map (range_rows t nr s) cs))"
  using assms(1,2)
proof (induction cs)
  case (Cons z cs)
  have id: "u64 (shot_rows t nr a - shot_rows t nr b) = shot_rows t nr a - shot_rows t nr b" for a b
    using fit[of a] by (intro u64_id) simp
  have "x < y" if "x \<in> set (range_rows t nr s z)" "c \<in> set cs" "y \<in> set (range_rows t nr s c)" for x y c
  proof -
    have "rr_end z \<le> rr_begin c" using Cons.prems(1) that(2) by simp
    then show ?thesis using shot_rows_mono[of "rr_end z" "rr_begin c" t nr] that(1,3) by (auto simp: range_rows_def id)
  qed
  moreover have "sorted_wrt (<) (concat (map (range_rows t nr s) cs))" using Cons by simp
  moreover have "sorted_wrt (<) (range_rows t nr s z)" by (simp add: range_rows_def)
  ultimately show ?case by (auto simp: sorted_wrt_append)
qed simp

lemma shot_rows_bound:
  assumes "et_ok t" "admits t nr" "nr \<le> 2 ^ 32" "\<And>i. i \<in> set (shot_phases t nr) \<Longrightarrow> pc_rows (the_phase t i) \<le> max_u32"
  shows "shot_rows t nr r < 2 ^ 64"
proof -
  have "shot_rows t nr r = sum_list (map (\<lambda>i. min max_u32 (pc_rows (the_phase t i))) (take (nat r) (shot_phases t nr)))"
    unfolding shot_rows_def by (intro arg_cong[of _ _ sum_list] map_cong refl) (use assms(4) in \<open>auto dest!: in_set_takeD\<close>)
  also have "\<dots> < 2 ^ 64" by (rule shot_sum_bound) (use assms(3) length_shot_phases[OF assms(1,2)] in auto)
  finally show ?thesis .
qed

lemma sorted_wrt_filter_map:
  "sorted_wrt P xs \<Longrightarrow> (\<And>x y. P x y \<Longrightarrow> Q (f x) (f y)) \<Longrightarrow> sorted_wrt Q (filter p (map f xs))"
  by (induction xs) auto

lemma placed_send_rows:
  assumes q: "check_request q = Inr ()" and m: "et_max_span t \<le> 1" and r: "r \<in> set (wr_sends q)" and w: "w = clip_rounds (zone_span q) a (int nr)"
    and fit: "\<And>r. shot_rows t nr r < 2 ^ 64"
  shows "sorted_wrt (<) (ws_rows (placed_send t q nr a (rr_begin w) r))"
    "\<forall>i \<in> set (ws_rows (placed_send t q nr a (rr_begin w) r)). i < shot_rows t nr (rr_end w) - shot_rows t nr (rr_begin w)"
proof -
  let ?cs = "filter (\<lambda>z. \<not> rr_empty z) (map (\<lambda>z. clip_rounds z a (int nr)) (send_rounds t q r))"
  note ord = send_rounds_within[OF q m r, unfolded ordered_within_def]
  have "sorted_wrt (\<lambda>y z. rr_end y \<le> rr_begin z) ?cs"
    by (rule sorted_wrt_filter_map[OF conjunct1[OF ord]]) (auto simp: clip_rounds_def)
  moreover have "\<forall>z \<in> set ?cs. rr_begin z \<le> rr_end z" by (auto simp: rr_empty_def)
  ultimately show "sorted_wrt (<) (ws_rows (placed_send t q nr a (rr_begin w) r))"
    by (simp add: placed_send_def Let_def range_rows_sorted[OF _ _ fit])
  have "i < shot_rows t nr (rr_end w) - shot_rows t nr (rr_begin w)"
    if "z \<in> set (send_rounds t q r)" "\<not> rr_empty (clip_rounds z a (int nr))" "i \<in> set (range_rows t nr (rr_begin w) (clip_rounds z a (int nr)))" for i z
  proof -
    have "rr_end (clip_rounds z a (int nr)) \<le> rr_end w" unfolding w by (rule clip_within) (use ord that in auto)
    moreover have "u64 (shot_rows t nr x - shot_rows t nr (rr_begin w)) = shot_rows t nr x - shot_rows t nr (rr_begin w)" for x
      using fit[of x] by (intro u64_id) simp
    ultimately show ?thesis using shot_rows_mono[of _ "rr_end w" t nr] that(3) by (fastforce simp: range_rows_def)
  qed
  then show "\<forall>i \<in> set (ws_rows (placed_send t q nr a (rr_begin w) r)). i < shot_rows t nr (rr_end w) - shot_rows t nr (rr_begin w)"
    by (auto simp: placed_send_def Let_def)
qed

section \<open>What is placed\<close>

lemma template_phase_rows:
  assumes "self_on_chain s" "experiment_template_new s = Inr t" "i \<in> set (shot_phases t R)"
  shows "pc_rows (the_phase t i) \<le> max_u32"
  using template_phase(1)[OF assms] build_phase_rows(1) round_rows_bound by metis

lemma window_instances_ok:
  assumes "check_request q = Inr ()" "R \<le> 2 ^ 62"
  shows "\<exists>b e. window_instances q R = Inr (b, e)"
proof -
  note a = check_requestD(1)[OF assms(1)] and L = check_anchor_limits[OF check_requestD(1)[OF assms(1)]] and D = check_anchorD[OF check_requestD(1)[OF assms(1)]]
  have c: "rr_begin (the (wr_commit q)) < rr_end (the (wr_commit q))" using D(2) by (auto simp: rr_empty_def)
  have R': "int R \<le> 2 ^ 62" using assms(2) by (metis of_nat_le_iff of_nat_numeral of_nat_power)
  have "i64 (int R - wr_offset q)" "i64 (int R - wr_offset q - rr_begin (the (wr_commit q)))"
    "i64 (int R - wr_offset q - rr_begin (the (wr_commit q)) + wr_period q - 1 + 1)"
    "i64 (int R - wr_offset q - rr_begin (the (wr_commit q)) + wr_period q - 1)"
    "i64 (- (int R - wr_offset q - rr_begin (the (wr_commit q)) + wr_period q - 1))"
    "i64 (- (int R - wr_offset q - rr_begin (the (wr_commit q)) + wr_period q - 1) + wr_period q)"
    "i64 (- (int R - wr_offset q - rr_begin (the (wr_commit q)) + wr_period q - 1) + wr_period q - 1)"
    using L D(1) R' c by (simp_all add: i64_def)
  then show ?thesis by (simp only: window_instances_def a rbind_simps Let_def to_i64_int[OF assms(2)] i64_steps_def) simp
qed

lemma contiguous_count:
  "contiguous zs \<Longrightarrow> zs \<noteq> [] \<Longrightarrow>
     length (filter (\<lambda>z. x \<in> rset z) zs) = (if x \<in> {rr_begin (hd zs)..<rr_end (List.last zs)} then 1 else 0)"
proof (induction zs)
  case (Cons z zs)
  show ?case
  proof (cases "zs = []")
    case False
    have c: "contiguous zs" "rr_end z = rr_begin (hd zs)" "rr_begin z < rr_end z"
      using Cons.prems False by (auto simp: contiguous_Cons rr_empty_def)
    have "rr_begin (hd zs) < rr_end (List.last zs)" using contiguous_union[OF c(1) False] by blast
    then show ?thesis using Cons.IH[OF c(1) False] c(2,3) False by auto
  qed (use Cons.prems in \<open>auto simp: rr_empty_def\<close>)
qed simp

lemma length_filter_mset: "mset xs = mset ys \<Longrightarrow> length (filter P xs) = length (filter P ys)"
  by (metis mset_filter size_mset)

lemma zones_count:
  assumes "check_request q = Inr ()"
  shows "length (filter (\<lambda>z. x \<in> rset z) (the (wr_commit q) # wr_buffers q)) = (if x \<in> rset (zone_span q) then 1 else 0)"
proof -
  have "mset (the (wr_commit q) # wr_buffers q) = mset (sorted_zones q)" by (simp add: sorted_zones_def sort_ranges_def)
  then have "length (filter (\<lambda>z. x \<in> rset z) (the (wr_commit q) # wr_buffers q)) = length (filter (\<lambda>z. x \<in> rset z) (sorted_zones q))"
    by (rule length_filter_mset)
  then show ?thesis
    using contiguous_count[OF check_requestD(2)[OF assms] set_sorted_zones(2), of x] zone_span_sorted(1)[OF assms] by simp
qed

lemma mem_rset_clip: "r \<in> rset (clip_rounds z a R) \<longleftrightarrow> 0 \<le> r \<and> r < R \<and> r - a \<in> rset z"
  by (auto simp: clip_rounds_def)

lemma placed_zones:
  assumes q: "check_request q = Inr ()"
  shows "length (filter (\<lambda>z. r \<in> rset z) (dw_commit (placed ctx t q k nr sends) # dw_buffers (placed ctx t q k nr sends))) =
    (if r \<in> rset (dw_rounds (placed ctx t q k nr sends)) then 1 else 0)"
proof -
  let ?a = "anchor_of q k" and ?R = "int nr"
  let ?clip = "\<lambda>b. clip_rounds b ?a ?R"
  have "length (filter (\<lambda>z. r \<in> rset z) (?clip (the (wr_commit q)) # sort_ranges (filter (\<lambda>z. \<not> rr_empty z) (map ?clip (wr_buffers q))))) =
      length (filter (\<lambda>z. r \<in> rset z) (?clip (the (wr_commit q)) # filter (\<lambda>z. \<not> rr_empty z) (map ?clip (wr_buffers q))))"
    by (rule length_filter_mset) (simp add: sort_ranges_def)
  also have "\<dots> = length (filter (\<lambda>z. r \<in> rset z) (map ?clip (the (wr_commit q) # wr_buffers q)))"
  proof -
    have "filter (\<lambda>z. r \<in> rset z) (filter (\<lambda>z. \<not> rr_empty z) zs) = filter (\<lambda>z. r \<in> rset z) zs" for zs
      by (induction zs) (auto simp: rr_empty_def)
    then show ?thesis by simp
  qed
  also have "\<dots> = (if 0 \<le> r \<and> r < ?R then length (filter (\<lambda>z. r - ?a \<in> rset z) (the (wr_commit q) # wr_buffers q)) else 0)"
    unfolding filter_map comp_def mem_rset_clip length_map by (cases "0 \<le> r \<and> r < ?R") auto
  also have "\<dots> = (if r \<in> rset (?clip (zone_span q)) then 1 else 0)"
    unfolding mem_rset_clip zones_count[OF q] by simp
  finally show ?thesis by (simp only: placed_def Let_def decoding_window.simps)
qed

lemma template_max_span: "experiment_template_new s = Inr t \<Longrightarrow> et_max_span t \<le> 1"
proof -
  assume t: "experiment_template_new s = Inr t"
  obtain u where "rfold (add_phase s (set (et_prefix t) \<union> set (et_suffix t) \<union> (if et_repeats t then {et_bulk t} else {}))) (phases s) ([], 0, None) =
       Inr (et_phases t, et_max_span t, u)" using template_new_steps[OF t] by metis
  from add_phases_table[OF this] show ?thesis by auto
qed

lemma placed_buffers_sorted:
  assumes q: "check_request q = Inr ()"
  shows "sorted_wrt (\<lambda>y z. rr_end y \<le> rr_begin z) (dw_buffers (placed ctx t q k nr sends))"
proof -
  let ?bs = "dw_buffers (placed ctx t q k nr sends)"
  have b: "?bs = sort_key rr_begin (filter (\<lambda>z. \<not> rr_empty z) (map (\<lambda>b. clip_rounds b (anchor_of q k) (int nr)) (wr_buffers q)))"
    by (simp only: placed_def Let_def decoding_window.simps sort_ranges_def)
  have ne: "rr_begin z < rr_end z" if "z \<in> set ?bs" for z using that unfolding b by (auto simp: rr_empty_def)
  have le: "rr_begin (?bs ! i) \<le> rr_begin (?bs ! j)" if "i < j" "j < length ?bs" for i j
  proof -
    have "sorted (map rr_begin ?bs)" unfolding b by (rule sorted_sort_key)
    from sorted_nth_mono[OF this, of i j] show ?thesis using that by simp
  qed
  have "rr_end (?bs ! i) \<le> rr_begin (?bs ! j)" if ij: "i < j" "j < length ?bs" for i j
  proof (rule ccontr)
    let ?x = "rr_begin (?bs ! j)"
    assume "\<not> rr_end (?bs ! i) \<le> ?x"
    moreover have nj: "?x < rr_end (?bs ! j)" using ne[of "?bs ! j"] ij by simp
    ultimately have "?x \<in> rset (?bs ! i)" "?x \<in> rset (?bs ! j)" using le[OF ij] by auto
    then have "{i, j} \<subseteq> {n. n < length ?bs \<and> ?x \<in> rset (?bs ! n)}" using ij by auto
    then have "card {i, j} \<le> length (filter (\<lambda>z. ?x \<in> rset z) ?bs)" unfolding length_filter_conv_card by (intro card_mono) auto
    also have "\<dots> \<le> 1" using placed_zones[OF q, of ?x ctx t k nr sends] by (simp split: if_splits)
    finally show False using ij by simp
  qed
  then show ?thesis by (simp add: sorted_wrt_iff_nth_less)
qed

lemma placed_zone_sets:
  shows "rset (dw_commit (placed ctx t q k nr sends)) = {r. 0 \<le> r \<and> r < int nr \<and> r - anchor_of q k \<in> rset (the (wr_commit q))}"
    "(\<lambda>z. rset z) ` set (dw_buffers (placed ctx t q k nr sends)) =
       (\<lambda>b. {r. 0 \<le> r \<and> r < int nr \<and> r - anchor_of q k \<in> rset b}) ` set (wr_buffers q) - {{}}"
proof -
  let ?w = "placed ctx t q k nr sends"
  have z: "dw_commit ?w = clip_rounds (the (wr_commit q)) (anchor_of q k) (int nr)"
    "dw_buffers ?w = sort_ranges (filter (\<lambda>z. \<not> rr_empty z) (map (\<lambda>b. clip_rounds b (anchor_of q k) (int nr)) (wr_buffers q)))"
    by (simp_all only: placed_def Let_def decoding_window.simps)
  have clip: "rset (clip_rounds y (anchor_of q k) (int nr)) = {r. 0 \<le> r \<and> r < int nr \<and> r - anchor_of q k \<in> rset y}" for y
    using mem_rset_clip[of _ y "anchor_of q k" "int nr"] by blast
  show "rset (dw_commit ?w) = {r. 0 \<le> r \<and> r < int nr \<and> r - anchor_of q k \<in> rset (the (wr_commit q))}" unfolding z(1) clip ..
  have "(\<lambda>z. rset z) ` set (dw_buffers ?w) = (\<lambda>b. rset (clip_rounds b (anchor_of q k) (int nr))) ` set (wr_buffers q) - {{}}"
    unfolding z(2) sort_ranges_def set_sort set_filter set_map rset_empty_iff[symmetric] by blast
  then show "(\<lambda>z. rset z) ` set (dw_buffers ?w) =
      (\<lambda>b. {r. 0 \<le> r \<and> r < int nr \<and> r - anchor_of q k \<in> rset b}) ` set (wr_buffers q) - {{}}" unfolding clip .
qed

text \<open>The rows of the sends of a placed window, when the rows of the shot are counted without wrapping.\<close>

lemma placed_sends_rows:
  assumes t: "et_ok t" "et_max_span t \<le> 1" and q: "check_request q = Inr ()" and R: "admits t nr"
    and c: "\<not> rr_empty (clip_rounds (the (wr_commit q)) (anchor_of q k) (int nr))" and fit: "\<And>r. shot_rows t nr r < 2 ^ 64"
  defines "W \<equiv> clip_rounds (zone_span q) (anchor_of q k) (int nr)"
  shows "\<exists>n. rel_row t nr (rr_begin W) (rr_end W) = Inr n \<and> (\<forall>r \<in> set (wr_sends q).
     sorted_wrt (<) (ws_rows (placed_send t q nr (anchor_of q k) (rr_begin W) r)) \<and>
     (\<forall>i \<in> set (ws_rows (placed_send t q nr (anchor_of q k) (rr_begin W) r)). i < n))"
proof -
  have "rset (clip_rounds (the (wr_commit q)) (anchor_of q k) (int nr)) \<subseteq> rset W" unfolding W_def clipped_zones(2)[OF q c, symmetric] by simp
  then have "\<not> rr_empty W" using c unfolding rset_empty_iff[symmetric] by blast
  then have "rel_row t nr (rr_begin W) (rr_end W) = Inr (u64 (shot_rows t nr (rr_end W) - shot_rows t nr (rr_begin W)))"
    by (intro rel_row_shot[OF t(1) R]) (auto simp: W_def rr_empty_def clip_rounds_def)
  moreover have "u64 (shot_rows t nr (rr_end W) - shot_rows t nr (rr_begin W)) = shot_rows t nr (rr_end W) - shot_rows t nr (rr_begin W)"
    using fit[of "rr_end W"] by (intro u64_id) simp
  ultimately show ?thesis using placed_send_rows[OF q t(2) _ W_def[THEN meta_eq_to_obj_eq] fit] by auto
qed

text \<open>
  C12: For a shot of at most \<open>2\<^sup>3\<^sup>2\<close> rounds \<open>place_window\<close> succeeds exactly for a request that keeps the construction rules, a
  shot length that the template admits, and the instances that \<open>window_instances\<close> gives. The commit zone of the placed
  window is the commit zone of the request, moved to the anchor of the instance, as far as it lies in the shot, and its
  buffers are, in order, the buffers of the request moved and cut in the same way, without those that
  have no round in the shot. These zones split the rounds of the window: every round
  of the window is in exactly one of them, and no other round is. The rows of each send are rows of the window, listed
  once and in order.
\<close>

theorem place_window_exact:
  assumes "self_on_chain s" "experiment_template_new s = Inr t" "R \<le> 2 ^ 32"
  shows "((\<exists>w. place_window (Some (addr, t)) q k R = Inr w) \<longleftrightarrow>
       check_request q = Inr () \<and> admits t R \<and> (\<exists>b e. window_instances q R = Inr (b, e) \<and> b \<le> k \<and> k < e)) \<and>
     (\<forall>w. place_window (Some (addr, t)) q k R = Inr w \<longrightarrow>
       rset (dw_commit w) = {r. 0 \<le> r \<and> r < int R \<and> r - (wr_offset q + k * wr_period q) \<in> rset (the (wr_commit q))} \<and>
       (\<lambda>z. rset z) ` set (dw_buffers w) =
         (\<lambda>b. {r. 0 \<le> r \<and> r < int R \<and> r - (wr_offset q + k * wr_period q) \<in> rset b}) ` set (wr_buffers q) - {{}} \<and>
       sorted_wrt (\<lambda>y z. rr_end y \<le> rr_begin z) (dw_buffers w) \<and>
       (\<forall>r. length (filter (\<lambda>z. r \<in> rset z) (dw_commit w # dw_buffers w)) = (if r \<in> rset (dw_rounds w) then 1 else 0)) \<and>
       (\<exists>n. rel_row t R (rr_begin (dw_rounds w)) (rr_end (dw_rounds w)) = Inr n \<and>
          (\<forall>send \<in> set (dw_sends w). sorted_wrt (<) (ws_rows send) \<and> (\<forall>i \<in> set (ws_rows send). i < n))))"
proof (intro conjI allI impI)
  note ok = template_new_ok(1)[OF assms(1,2)] and m = template_max_span[OF assms(2)]
  have B: "R \<le> 2 ^ 62" using assms(3) by simp
  note place = place_window_template[OF ok m B, of addr q k]
  have inst: "(\<exists>b e. window_instances q R = Inr (b, e) \<and> b \<le> k \<and> k < e) \<longleftrightarrow>
      \<not> rr_empty (clip_rounds (the (wr_commit q)) (anchor_of q k) (int R))" if a: "check_request q = Inr ()" "admits t R"
  proof -
    have "0 < R" using a(2) et_okD(4)[OF ok] by (simp add: admits_def)
    moreover obtain b e where be: "window_instances q R = Inr (b, e)" using window_instances_ok[OF a(1) B] by blast
    ultimately show ?thesis using window_instances_iff[OF be _ B] by (metis Inr_inject prod.inject)
  qed
  show "(\<exists>w. place_window (Some (addr, t)) q k R = Inr w) \<longleftrightarrow>
     check_request q = Inr () \<and> admits t R \<and> (\<exists>b e. window_instances q R = Inr (b, e) \<and> b \<le> k \<and> k < e)"
    using place inst by blast
  fix w assume "place_window (Some (addr, t)) q k R = Inr w"
  then have q: "check_request q = Inr ()" and R: "admits t R" and c: "\<not> rr_empty (clip_rounds (the (wr_commit q)) (anchor_of q k) (int R))"
    and w: "w = placed (Some (addr, t)) t q k R (map (placed_send t q R (anchor_of q k)
      (rr_begin (clip_rounds (zone_span q) (anchor_of q k) (int R)))) (wr_sends q))" using place by blast+
  show "rset (dw_commit w) = {r. 0 \<le> r \<and> r < int R \<and> r - anchor_of q k \<in> rset (the (wr_commit q))}"
    "(\<lambda>z. rset z) ` set (dw_buffers w) = (\<lambda>b. {r. 0 \<le> r \<and> r < int R \<and> r - anchor_of q k \<in> rset b}) ` set (wr_buffers q) - {{}}"
    unfolding w by (rule placed_zone_sets)+
  show "sorted_wrt (\<lambda>y z. rr_end y \<le> rr_begin z) (dw_buffers w)" unfolding w by (rule placed_buffers_sorted[OF q])
  show "length (filter (\<lambda>z. r \<in> rset z) (dw_commit w # dw_buffers w)) = (if r \<in> rset (dw_rounds w) then 1 else 0)" for r
    unfolding w by (rule placed_zones[OF q])
  have fit: "shot_rows t R r < 2 ^ 64" for r
    using template_phase_rows[OF assms(1,2)] by (intro shot_rows_bound[OF ok R assms(3)])
  have f: "dw_rounds w = clip_rounds (zone_span q) (anchor_of q k) (int R)"
    "dw_sends w = map (placed_send t q R (anchor_of q k) (rr_begin (clip_rounds (zone_span q) (anchor_of q k) (int R)))) (wr_sends q)"
    unfolding w by (simp_all only: placed_def Let_def decoding_window.simps)
  show "\<exists>n. rel_row t R (rr_begin (dw_rounds w)) (rr_end (dw_rounds w)) = Inr n \<and>
      (\<forall>send \<in> set (dw_sends w). sorted_wrt (<) (ws_rows send) \<and> (\<forall>i \<in> set (ws_rows send). i < n))"
    unfolding f set_map ball_simps using placed_sends_rows[OF ok m q R c fit] by simp
qed

definition sample_request :: window_request where
  "sample_request = \<lparr>wr_period = 2, wr_offset = 0, wr_commit = Some (rr 0 2), wr_buffers = [rr 2 3, rr (-1) 0],
     wr_input = \<lparr>ip_disposition = Some Port_open, ip_prior = Some (1/100), ip_boundary = None\<rparr>,
     wr_output = \<lparr>op_disposition = Some Port_closed, op_imports = None\<rparr>,
     wr_sends = [\<lparr>sr_id = ''forward'', sr_mode = None, sr_rounds = []\<rparr>],
     wr_columns = \<lparr>merge_identical = False, conflicting_parallel = Parallel_reject\<rparr>\<rparr>"

theorem place_window_exact_witness:
  "\<exists>t w. experiment_template_new (three_phases 3) = Inr t \<and> place_window (Some (0, t)) sample_request 1 6 = Inr w \<and>
     rset (dw_commit w) = {2, 3} \<and> length (filter (\<lambda>z. 4 \<in> rset z) (dw_commit w # dw_buffers w)) = (if 4 \<in> rset (dw_rounds w) then 1 else 0)"
proof -
  have on: "self_on_chain (three_phases 3)" by code_simp
  have "(case experiment_template_new (three_phases 3) of Inr t \<Rightarrow> admits t 6 | Inl _ \<Rightarrow> False)" by code_simp
  then obtain t where t: "experiment_template_new (three_phases 3) = Inr t" "admits t 6" by (auto split: sum.splits)
  have "check_request sample_request = Inr ()" by code_simp
  moreover have "window_instances sample_request 6 = Inr (0, 3)" by code_simp
  ultimately have "\<exists>b e. check_request sample_request = Inr () \<and> window_instances sample_request 6 = Inr (b, e) \<and> b \<le> 1 \<and> 1 < e" by simp
  moreover have six: "(6 :: nat) \<le> 2 ^ 32" by simp
  note P = place_window_exact[OF on t(1) six, of 0 sample_request 1]
  ultimately obtain w where w: "place_window (Some (0, t)) sample_request 1 6 = Inr w" using conjunct1[OF P] t(2) by blast
  note Q = conjunct2[OF P, rule_format, OF w]
  have "rset (dw_commit w) = {r. 0 \<le> r \<and> r < 6 \<and> 2 \<le> r \<and> r < 4}" using conjunct1[OF Q] by (simp add: sample_request_def)
  also have "\<dots> = {2, 3}" by auto
  finally have c: "rset (dw_commit w) = {2, 3}" .
  have "\<forall>r. length (filter (\<lambda>z. r \<in> rset z) (dw_commit w # dw_buffers w)) = (if r \<in> rset (dw_rounds w) then 1 else 0)"
    using Q by (elim conjE)
  from spec[OF this, of 4] show ?thesis using t(1) w c by (intro exI conjI)
qed

end
