(* ===== verification/QEC_Window_Variants.thy ===== *)
theory QEC_Window_Variants
  imports QEC_Window_Model QEC_Window_Place
begin

text \<open>
  Windows with equal variant keys are the same problem up to a shift of rounds: everything that
  \<open>window_from_dem_chunks\<close> reads of the shot is the phases of the rounds within the reach of the model, and equal keys
  make those agree. The keys that \<open>variant_instances\<close> lists are all the keys that any shot has.
\<close>

section \<open>The phases of a range of rounds\<close>

definition phase_slice :: "experiment_template \<Rightarrow> nat \<Rightarrow> int \<Rightarrow> int \<Rightarrow> phase_id list" where
  "phase_slice t R s r = take (nat (r - s)) (drop (nat s) (shot_phases t R))"

lemma take_slice: "0 \<le> s \<Longrightarrow> s \<le> r \<Longrightarrow> take (nat r) (shot_phases t R) = take (nat s) (shot_phases t R) @ phase_slice t R s r"
  unfolding phase_slice_def by (metis add_diff_cancel_left' diff_add_cancel nat_add_distrib nat_diff_distrib take_add le_nat_iff
      ordered_cancel_comm_monoid_diff_class.add_diff_inverse eq_diff_eq nat_mono)

lemma shot_rows_slice: "0 \<le> s \<Longrightarrow> s \<le> r \<Longrightarrow> shot_rows t R r - shot_rows t R s = sum_list (map (\<lambda>i. pc_rows (the_phase t i)) (phase_slice t R s r))"
  unfolding shot_rows_def by (simp add: take_slice[of s r])

lemma sum_before_slice:
  assumes t: "et_ok t" "admits t R" and sr: "0 \<le> s" "s \<le> r" "r \<le> int R"
    and sz: "\<forall>i \<in> set (shot_phases t R). sz (the_phase t i) = Inr (g i)"
  shows "rbind (sum_before t (to_size r) R sz) (\<lambda>a. rbind (sum_before t (to_size s) R sz) (\<lambda>b. Inr (sz_sub a b))) =
    Inr (u64 (sum_list (map g (phase_slice t R s r))))"
proof -
  let ?A = "sum_list (map g (take (nat s) (shot_phases t R)))" and ?B = "sum_list (map g (phase_slice t R s r))"
  have "sum_before t (to_size r) R sz = Inr (u64 (?A + ?B))" "sum_before t (to_size s) R sz = Inr (u64 ?A)"
    using sum_before_sum[OF t _ sz, of "nat r"] sum_before_sum[OF t _ sz, of "nat s"] take_slice[OF sr(1,2), of t R] sr by auto
  then show ?thesis using u64_sub[of ?A "?A + ?B"] by simp
qed

lemma rel_row_slice:
  assumes "et_ok t" "admits t R" "0 \<le> s" "s \<le> r" "r \<le> int R"
  shows "rel_row t R s r = Inr (u64 (sum_list (map (\<lambda>i. pc_rows (the_phase t i)) (phase_slice t R s r))))"
  using rel_row_shot[OF assms] shot_rows_slice[OF assms(3,4)] by simp

lemma rel_col_slice:
  assumes "et_ok t" "admits t R" "0 \<le> s" "s \<le> r" "r \<le> int R"
  shows "rel_col t R s r = Inr (u64 (sum_list (map (\<lambda>i. pc_faults (the_phase t i)) (phase_slice t R s r))))"
  unfolding rel_col_def column_offset_def by (rule sum_before_slice[OF assms]) simp

text \<open>Two shots that agree, shifted by \<open>d\<close>, on the rounds from \<open>lo\<close> to \<open>hi\<close> (both of them rounds or ends).\<close>

definition agree_on :: "experiment_template \<Rightarrow> nat \<Rightarrow> nat \<Rightarrow> int \<Rightarrow> int \<Rightarrow> int \<Rightarrow> bool" where
  "agree_on t R R' d lo hi \<longleftrightarrow> 0 \<le> lo \<and> lo \<le> hi \<and> hi \<le> int R \<and> 0 \<le> lo + d \<and> hi + d \<le> int R' \<and>
     (\<forall>r. lo \<le> r \<and> r < hi \<longrightarrow> shot_phases t R ! nat r = shot_phases t R' ! nat (r + d) \<and> (r + 1 < int R \<longleftrightarrow> r + d + 1 < int R'))"

lemma slice_shift:
  assumes t: "et_ok t" "admits t R" "admits t R'" and ag: "agree_on t R R' d lo hi" and sr: "lo \<le> s" "s \<le> r" "r \<le> hi"
  shows "phase_slice t R' (s + d) (r + d) = phase_slice t R s r"
proof (rule nth_equalityI)
  have b: "0 \<le> s" "r \<le> int R" "0 \<le> s + d" "r + d \<le> int R'" using ag sr by (auto simp: agree_on_def)
  show l: "length (phase_slice t R' (s + d) (r + d)) = length (phase_slice t R s r)"
    using b sr(2) by (simp add: phase_slice_def length_shot_phases[OF t(1,2)] length_shot_phases[OF t(1,3)])
  fix i assume "i < length (phase_slice t R' (s + d) (r + d))"
  then have i: "i < nat (r - s)" by (simp add: phase_slice_def)
  have "nat s + i = nat (s + int i)" "nat (s + d) + i = nat (s + int i + d)" using b by auto
  moreover have "shot_phases t R ! nat (s + int i) = shot_phases t R' ! nat (s + int i + d)"
    using ag sr i unfolding agree_on_def by (metis (no_types, lifting) add_increasing2 less_le_trans of_nat_0_le_iff zless_nat_eq_int_zless less_diff_eq add.commute)
  ultimately show "phase_slice t R' (s + d) (r + d) ! i = phase_slice t R s r ! i"
    using i b by (simp add: phase_slice_def length_shot_phases[OF t(1,2)] length_shot_phases[OF t(1,3)])
qed

lemma chunk_shift:
  assumes t: "et_ok t" "admits t R" "admits t R'" and ag: "agree_on t R R' d lo hi" and r: "lo \<le> r" "r < hi"
  shows "et_chunk t (to_size (r + d)) R' = et_chunk t (to_size r) R" "et_phase t (to_size (r + d)) R' = et_phase t (to_size r) R"
proof -
  have b: "0 \<le> r" "r < int R" "0 \<le> r + d" "r + d < int R'" using ag r by (auto simp: agree_on_def)
  have e: "shot_phases t R ! nat r = shot_phases t R' ! nat (r + d)" "r + 1 < int R \<longleftrightarrow> r + d + 1 < int R'"
    using ag r by (auto simp: agree_on_def)
  have n: "nat r < R" "nat (r + d) < R'" "nat r + 1 < R \<longleftrightarrow> nat (r + d) + 1 < R'" using b e(2) by auto
  show "et_chunk t (to_size (r + d)) R' = et_chunk t (to_size r) R" "et_phase t (to_size (r + d)) R' = et_phase t (to_size r) R"
    using et_chunk_nth[OF t(1,2) n(1)] et_chunk_nth[OF t(1,3) n(2)] et_phase_nth[OF t(1,2) n(1)] et_phase_nth[OF t(1,3) n(2)] b e(1) n(3)
    by simp_all
qed

section \<open>Equal keys\<close>

text \<open>What equal keys say of the anchors \<open>a\<close>, \<open>a + d\<close> and the lengths of the two shots.\<close>

definition aligned :: "experiment_template \<Rightarrow> window_request \<Rightarrow> int \<Rightarrow> nat \<Rightarrow> nat \<Rightarrow> int \<Rightarrow> bool" where
  "aligned t q a R R' d \<longleftrightarrow>
     (let reach = model_reach t q; P = int (length (et_prefix t)) in
      (d = 0 \<or> (P \<le> a + rr_begin reach \<and> P \<le> a + d + rr_begin reach)) \<and>
      (int R' = int R + d \<or> (a + rr_end reach \<le> int R - end_rounds t \<and> a + d + rr_end reach \<le> int R' - end_rounds t)))"

definition key_of :: "experiment_template \<Rightarrow> window_request \<Rightarrow> int \<Rightarrow> nat \<Rightarrow> variant_key" where
  "key_of t q k R = key_at \<lparr>vb_reach = model_reach t q, vb_prefix_rounds = int (length (et_prefix t)), vb_end_rounds = end_rounds t\<rparr> q k (int R)"

lemma variant_aligned:
  assumes "key_of t q k R = key_of t q k' R'"
  shows "aligned t q (anchor_of q k) R R' (anchor_of q k' - anchor_of q k)"
  using assms unfolding key_of_def key_at_def Let_def aligned_def by (auto split: if_splits)

lemma reach_nonempty: "\<not> rr_empty (zone_span q) \<Longrightarrow> rr_begin (model_reach t q) + 1 < rr_end (model_reach t q)"
  "rr_begin (model_reach t q) = rr_begin (zone_span q) - 1" "rr_end (zone_span q) + int (et_max_span t) \<le> rr_end (model_reach t q)"
  by (auto simp: model_reach_def Let_def rr_empty_def)

lemma shot_phases_nth:
  assumes t: "et_ok t" "admits t R" and r: "0 \<le> r" "r < int R" and rep: "et_repeats t"
  shows "shot_phases t R ! nat r =
    (if r < int (length (et_prefix t)) then et_prefix t ! nat r
     else if r < int R - int (length (et_suffix t)) then et_bulk t
     else et_suffix t ! nat (r - (int R - int (length (et_suffix t)))))"
proof -
  have le: "length (et_prefix t) + length (et_suffix t) \<le> R" using et_okD(1)[OF t(1) rep] t(2) by (simp add: admits_def)
  have i: "nat (r - (int R - int (length (et_suffix t)))) = nat r - length (et_prefix t) - (R - length (et_prefix t) - length (et_suffix t))"
    if "\<not> r < int R - int (length (et_suffix t))" using that le by linarith
  show ?thesis using rep r le i by (auto simp: shot_phases_def nth_append)
qed

lemma aligned_agree:
  assumes t: "et_ok t" "admits t R" "admits t R'" and al: "aligned t q a R R' d" and ne: "\<not> rr_empty (zone_span q)"
    and lo: "0 \<le> lo" "a + rr_begin (model_reach t q) \<le> lo" "lo \<le> hi" and hi: "hi \<le> int R" "hi \<le> a + rr_end (model_reach t q)"
  shows "agree_on t R R' d lo hi"
proof -
  let ?P = "int (length (et_prefix t))" and ?S = "int (length (et_suffix t))"
  let ?rb = "rr_begin (model_reach t q)" and ?re = "rr_end (model_reach t q)"
  have 1: "d = 0 \<or> (?P \<le> a + ?rb \<and> ?P \<le> a + d + ?rb)"
    and 2: "int R' = int R + d \<or> (a + ?re \<le> int R - end_rounds t \<and> a + d + ?re \<le> int R' - end_rounds t)"
    using al by (auto simp: aligned_def Let_def)
  have er: "?S \<le> end_rounds t" "1 \<le> end_rounds t" by (auto simp: end_rounds_def)
  have bounds: "0 \<le> lo + d" "hi + d \<le> int R'" using 1 2 lo hi er by auto
  have "shot_phases t R ! nat r = shot_phases t R' ! nat (r + d) \<and> (r + 1 < int R \<longleftrightarrow> r + d + 1 < int R')" if r: "lo \<le> r" "r < hi" for r
  proof (cases "et_repeats t")
    case True
    have b: "0 \<le> r" "r < int R" "0 \<le> r + d" "r + d < int R'" using r lo hi bounds by auto
    show ?thesis
      unfolding shot_phases_nth[OF t(1,2) b(1,2) True] shot_phases_nth[OF t(1,3) b(3,4) True] using 1 2 er r lo hi by (auto simp: algebra_simps)
  next
    case False
    then have R: "int R = ?P" "int R' = ?P" using t(2,3) et_okD(3)[OF t(1) False] by (auto simp: admits_def)
    then have "d = 0" using 1 2 reach_nonempty(1)[OF ne, of t] er by auto
    then show ?thesis using R by simp
  qed
  then show ?thesis using lo hi bounds by (simp add: agree_on_def)
qed

definition rshift :: "int \<Rightarrow> round_range \<Rightarrow> round_range" where
  "rshift d z = rr (rr_begin z + d) (rr_end z + d)"

lemma rshift_simps [simp]: "rr_begin (rshift d z) = rr_begin z + d" "rr_end (rshift d z) = rr_end z + d" "rr_empty (rshift d z) = rr_empty z"
  by (simp_all add: rshift_def rr_empty_def)

lemma clip_shift:
  assumes al: "aligned t q a R R' d" and z: "rr_begin (zone_span q) \<le> rr_begin z" "rr_end z \<le> rr_end (model_reach t q)"
  shows "clip_rounds z (a + d) (int R') = rshift d (clip_rounds z a (int R))"
proof -
  have "1 \<le> end_rounds t" by (simp add: end_rounds_def)
  then show ?thesis
    using al z by (auto simp: aligned_def Let_def clip_rounds_def rshift_def reach_nonempty(2))
qed

lemma sort_key_map_mono:
  assumes "\<And>x y. f (g x) \<le> f (g y) \<longleftrightarrow> f x \<le> (f y :: 'a :: linorder)"
  shows "sort_key f (map g xs) = map g (sort_key f xs)"
proof (induction xs)
  case (Cons x xs)
  have "insort_key f (g x) (map g ys) = map g (insort_key f x ys)" for ys by (induction ys) (auto simp: assms)
  then show ?case using Cons by simp
qed simp

lemma sort_ranges_shift: "sort_ranges (map (rshift d) zs) = map (rshift d) (sort_ranges zs)"
  unfolding sort_ranges_def by (rule sort_key_map_mono) simp

lemma filter_map_shift: "filter (\<lambda>z. \<not> rr_empty z) (map (rshift d) zs) = map (rshift d) (filter (\<lambda>z. \<not> rr_empty z) zs)"
  by (induction zs) auto

section \<open>Shifted windows\<close>

definition shift_send :: "int \<Rightarrow> window_send \<Rightarrow> window_send" where
  "shift_send d x = x\<lparr>ws_rounds := map (rshift d) (ws_rounds x)\<rparr>"

definition shift_output :: "int \<Rightarrow> window_port \<Rightarrow> window_port" where
  "shift_output d p = (if wp_exists p \<and> wp_disposition p = Port_closed then p\<lparr>wp_imports := rshift d (wp_imports p)\<rparr> else p)"

definition shift_window :: "int \<Rightarrow> int \<Rightarrow> nat \<Rightarrow> decoding_window \<Rightarrow> decoding_window" where
  "shift_window d k R w = w\<lparr>dw_k := k, dw_shot_rounds := R, dw_rounds := rshift d (dw_rounds w), dw_commit := rshift d (dw_commit w),
     dw_buffers := map (rshift d) (dw_buffers w), dw_output := shift_output d (dw_output w),
     dw_sends := map (shift_send d) (dw_sends w)\<rparr>"

text \<open>Every phase of a shot has a width in the measurement stream.\<close>

definition measured :: "experiment_template \<Rightarrow> bool" where
  "measured t \<longleftrightarrow> (\<forall>R. \<forall>i \<in> set (shot_phases t R). pc_measurements (the_phase t i) \<noteq> None)"

definition same_variant :: "experiment_template \<Rightarrow> window_request \<Rightarrow> int \<Rightarrow> nat \<Rightarrow> int \<Rightarrow> nat \<Rightarrow> int \<Rightarrow> bool" where
  "same_variant t q k R k' R' d \<longleftrightarrow> et_ok t \<and> et_max_span t \<le> 1 \<and> measured t \<and> admits t R \<and> admits t R' \<and> check_request q = Inr () \<and>
     anchor_of q k' = anchor_of q k + d \<and> aligned t q (anchor_of q k) R R' d \<and>
     \<not> rr_empty (clip_rounds (the (wr_commit q)) (anchor_of q k) (int R)) \<and> R \<le> 2 ^ 62 \<and> R' \<le> 2 ^ 62"

abbreviation placed_rounds :: "window_request \<Rightarrow> int \<Rightarrow> nat \<Rightarrow> round_range" where
  "placed_rounds q k R \<equiv> clip_rounds (zone_span q) (anchor_of q k) (int R)"

lemma same_variantD:
  assumes "same_variant t q k R k' R' d"
  shows "et_ok t" "et_max_span t \<le> 1" "admits t R" "admits t R'" "check_request q = Inr ()"
    "anchor_of q k' = anchor_of q k + d" "aligned t q (anchor_of q k) R R' d"
    "\<not> rr_empty (clip_rounds (the (wr_commit q)) (anchor_of q k) (int R))" "\<not> rr_empty (zone_span q)" "measured t" "R \<le> 2 ^ 62" "R' \<le> 2 ^ 62"
  using assms zone_span_sorted(3) by (auto simp: same_variant_def)

lemma placed_rounds_bounds:
  assumes sv: "same_variant t q k R k' R' d"
  shows "0 \<le> rr_begin (placed_rounds q k R)" "rr_begin (placed_rounds q k R) < rr_end (placed_rounds q k R)"
    "rr_end (placed_rounds q k R) \<le> int R" "anchor_of q k + rr_begin (model_reach t q) < rr_begin (placed_rounds q k R)"
    "rr_end (placed_rounds q k R) + int (et_max_span t) \<le> anchor_of q k + rr_end (model_reach t q)"
    "rr_begin (placed_rounds q k R) \<le> rr_begin (clip_rounds (the (wr_commit q)) (anchor_of q k) (int R))"
    "rr_end (clip_rounds (the (wr_commit q)) (anchor_of q k) (int R)) \<le> rr_end (placed_rounds q k R)"
proof -
  let ?C = "clip_rounds (the (wr_commit q)) (anchor_of q k) (int R)"
  note D = same_variantD[OF sv]
  have sub: "rset ?C \<subseteq> rset (placed_rounds q k R)" unfolding clipped_zones(2)[OF D(5,8), symmetric] by simp
  have c: "rr_begin ?C < rr_end ?C" using D(8) by (simp add: rr_empty_def)
  then show le: "rr_begin (placed_rounds q k R) \<le> rr_begin ?C" "rr_end ?C \<le> rr_end (placed_rounds q k R)"
    using sub atLeastLessThan_subset_iff[of "rr_begin ?C" "rr_end ?C"] by auto
  show "rr_begin (placed_rounds q k R) < rr_end (placed_rounds q k R)" using le c by linarith
  show "0 \<le> rr_begin (placed_rounds q k R)" "rr_end (placed_rounds q k R) \<le> int R"
    "anchor_of q k + rr_begin (model_reach t q) < rr_begin (placed_rounds q k R)"
    by (auto simp: clip_rounds_def reach_nonempty(2))
  show "rr_end (placed_rounds q k R) + int (et_max_span t) \<le> anchor_of q k + rr_end (model_reach t q)"
    using reach_nonempty(3)[of q t] by (auto simp: clip_rounds_def)
qed

text \<open>The rounds from the one before the window, if there is one, to the end of the chunks it stitches.\<close>

lemma same_variant_agree:
  assumes sv: "same_variant t q k R k' R' d"
    and lo: "rr_begin (placed_rounds q k R) - 1 \<le> lo" "0 \<le> lo" "lo \<le> hi" and hi: "hi \<le> int R" "hi \<le> anchor_of q k + rr_end (model_reach t q)"
  shows "agree_on t R R' d lo hi"
  using aligned_agree[OF same_variantD(1,3,4,7,9)[OF sv] lo(2) _ lo(3) hi] placed_rounds_bounds(4)[OF sv] lo by simp

lemma placed_rounds_shift:
  assumes sv: "same_variant t q k R k' R' d"
  shows "placed_rounds q k' R' = rshift d (placed_rounds q k R)"
    "0 < rr_begin (placed_rounds q k R) + d \<longleftrightarrow> 0 < rr_begin (placed_rounds q k R)"
    "rr_begin (placed_rounds q k R) = 0 \<Longrightarrow> d = 0"
    "rr_end (placed_rounds q k R) + d < int R' \<longleftrightarrow> rr_end (placed_rounds q k R) < int R"
    "rr_end (clip_rounds (the (wr_commit q)) (anchor_of q k) (int R)) + d < int R' \<longleftrightarrow>
       rr_end (clip_rounds (the (wr_commit q)) (anchor_of q k) (int R)) < int R"
    "min (int R') (rr_end (placed_rounds q k R) + d + int (et_max_span t)) = min (int R) (rr_end (placed_rounds q k R) + int (et_max_span t)) + d"
proof -
  note D = same_variantD[OF sv] and B = placed_rounds_bounds[OF sv]
  have al: "d = 0 \<or> (0 \<le> anchor_of q k + rr_begin (model_reach t q) \<and> 0 \<le> anchor_of q k + d + rr_begin (model_reach t q))"
    "int R' = int R + d \<or> (anchor_of q k + rr_end (model_reach t q) < int R \<and> anchor_of q k + d + rr_end (model_reach t q) < int R')"
    using D(7) by (auto simp: aligned_def Let_def end_rounds_def)
  show "placed_rounds q k' R' = rshift d (placed_rounds q k R)"
    unfolding D(6) by (rule clip_shift[OF D(7)]) (use reach_nonempty(3)[of q t] in auto)
  show "0 < rr_begin (placed_rounds q k R) + d \<longleftrightarrow> 0 < rr_begin (placed_rounds q k R)" "rr_begin (placed_rounds q k R) = 0 \<Longrightarrow> d = 0"
    using al(1) B(4) by auto
  show "rr_end (placed_rounds q k R) + d < int R' \<longleftrightarrow> rr_end (placed_rounds q k R) < int R"
    "rr_end (clip_rounds (the (wr_commit q)) (anchor_of q k) (int R)) + d < int R' \<longleftrightarrow>
       rr_end (clip_rounds (the (wr_commit q)) (anchor_of q k) (int R)) < int R"
    "min (int R') (rr_end (placed_rounds q k R) + d + int (et_max_span t)) = min (int R) (rr_end (placed_rounds q k R) + int (et_max_span t)) + d"
    using al(2) B(5,7) by auto
qed

lemma range_rows_shift:
  assumes sv: "same_variant t q k R k' R' d"
    and z: "rr_begin (placed_rounds q k R) \<le> rr_begin z" "rr_begin z \<le> rr_end z" "rr_end z \<le> rr_end (placed_rounds q k R)"
  shows "range_rows t R' (rr_begin (placed_rounds q k R) + d) (rshift d z) = range_rows t R (rr_begin (placed_rounds q k R)) z"
proof -
  let ?s = "rr_begin (placed_rounds q k R)" and ?e = "rr_end (placed_rounds q k R)"
  note D = same_variantD[OF sv] and B = placed_rounds_bounds[OF sv]
  have ag: "agree_on t R R' d ?s ?e" by (rule same_variant_agree[OF sv]) (use B in auto)
  have "shot_rows t R' (r + d) - shot_rows t R' (?s + d) = shot_rows t R r - shot_rows t R ?s" if "?s \<le> r" "r \<le> ?e" for r
    using slice_shift[OF D(1,3,4) ag _ that(1,2)] that B(1) ag by (simp add: shot_rows_slice agree_on_def)
  then show ?thesis using z by (simp add: range_rows_def)
qed

lemma placed_send_shift:
  assumes sv: "same_variant t q k R k' R' d" and r: "r \<in> set (wr_sends q)"
  shows "placed_send t q R' (anchor_of q k') (rr_begin (placed_rounds q k R) + d) r =
    shift_send d (placed_send t q R (anchor_of q k) (rr_begin (placed_rounds q k R)) r)"
proof -
  note D = same_variantD[OF sv]
  let ?cs = "filter (\<lambda>z. \<not> rr_empty z) (map (\<lambda>z. clip_rounds z (anchor_of q k) (int R)) (send_rounds t q r))"
  have w: "rr_begin (zone_span q) \<le> rr_begin z \<and> rr_end z \<le> rr_end (zone_span q)" if "z \<in> set (send_rounds t q r)" for z
    using send_rounds_within[OF D(5,2) r] that by (simp add: ordered_within_def)
  have "clip_rounds z (anchor_of q k') (int R') = rshift d (clip_rounds z (anchor_of q k) (int R))" if "z \<in> set (send_rounds t q r)" for z
    unfolding D(6) by (rule clip_shift[OF D(7)]) (use w[OF that] reach_nonempty(3)[of q t] in auto)
  then have cs: "map (\<lambda>z. clip_rounds z (anchor_of q k') (int R')) (send_rounds t q r) =
      map (rshift d) (map (\<lambda>z. clip_rounds z (anchor_of q k) (int R)) (send_rounds t q r))" by simp
  have "range_rows t R' (rr_begin (placed_rounds q k R) + d) (rshift d z) = range_rows t R (rr_begin (placed_rounds q k R)) z"
    if z: "z \<in> set ?cs" for z
  proof (rule range_rows_shift[OF sv])
    obtain y where y: "z = clip_rounds y (anchor_of q k) (int R)" "y \<in> set (send_rounds t q r)" "\<not> rr_empty z" using z by auto
    show "rr_begin (placed_rounds q k R) \<le> rr_begin z" "rr_begin z \<le> rr_end z" "rr_end z \<le> rr_end (placed_rounds q k R)"
      using clip_within[OF w[OF y(2)], of "anchor_of q k" "int R"] y(1,3) by auto
  qed
  then have rows: "map (range_rows t R' (rr_begin (placed_rounds q k R) + d)) (map (rshift d) ?cs) = map (range_rows t R (rr_begin (placed_rounds q k R))) ?cs"
    by simp
  show ?thesis
    unfolding placed_send_def shift_send_def Let_def cs filter_map_shift rows by simp
qed

text \<open>The imports of a closed output start at the output wire and lie within the reach.\<close>

lemma requested_imports_bounds:
  assumes q: "check_request q = Inr ()" and c: "the (op_disposition (wr_output q)) = Port_closed"
  shows "rr_begin (requested_imports t q) = rr_end (zone_span q)" "rr_end (requested_imports t q) \<le> rr_end (model_reach t q)"
proof -
  have ports: "check_ports q (zone_span q) = Inr ()" using check_requestD(3)[OF q] zone_span_sorted(1)[OF q] by simp
  then have o: "op_disposition (wr_output q) = Some Port_closed"
    using c by (auto simp: check_ports_def Let_def reject_def split: option.splits)
  show "rr_begin (requested_imports t q) = rr_end (zone_span q)"
  proof (cases "op_imports (wr_output q)")
    case (Some i)
    then show ?thesis using ports
      by (auto simp: check_ports_def Let_def reject_def requested_imports_def rbind_Inr_iff split: option.splits if_splits)
  qed (simp add: requested_imports_def)
  show "rr_end (requested_imports t q) \<le> rr_end (model_reach t q)"
    using o by (auto simp: model_reach_def Let_def requested_imports_def split: option.splits)
qed

lemma placed_output_shift:
  assumes sv: "same_variant t q k R k' R' d"
  shows "placed_output t q (anchor_of q k') (int R') (rr_end (placed_rounds q k R) + d) =
    shift_output d (placed_output t q (anchor_of q k) (int R) (rr_end (placed_rounds q k R)))"
proof -
  note D = same_variantD[OF sv]
  have "clip_rounds (requested_imports t q) (anchor_of q k + d) (int R') = rshift d (clip_rounds (requested_imports t q) (anchor_of q k) (int R))"
    if c: "the (op_disposition (wr_output q)) = Port_closed"
    by (rule clip_shift[OF D(7)]) (use requested_imports_bounds[OF D(5) c] D(9) in \<open>auto simp: rr_empty_def\<close>)
  then show ?thesis
    unfolding placed_output_def shift_output_def Let_def D(6) placed_rounds_shift(4)[OF sv] by auto
qed

lemma placed_shift:
  assumes sv: "same_variant t q k R k' R' d"
  shows "placed ctx t q k' R' (map (placed_send t q R' (anchor_of q k') (rr_begin (placed_rounds q k' R'))) (wr_sends q)) =
    shift_window d k' R' (placed ctx t q k R (map (placed_send t q R (anchor_of q k) (rr_begin (placed_rounds q k R))) (wr_sends q)))"
proof -
  note D = same_variantD[OF sv] and S = placed_rounds_shift[OF sv]
  have zone: "clip_rounds z (anchor_of q k') (int R') = rshift d (clip_rounds z (anchor_of q k) (int R))"
    if "z \<in> set (the (wr_commit q) # wr_buffers q)" for z
    unfolding D(6) by (rule clip_shift[OF D(7)]) (use zone_within[OF D(5) that] reach_nonempty(3)[of q t] in auto)
  have commit: "clip_rounds (the (wr_commit q)) (anchor_of q k') (int R') = rshift d (clip_rounds (the (wr_commit q)) (anchor_of q k) (int R))"
    by (rule zone) simp
  have "map (\<lambda>b. clip_rounds b (anchor_of q k') (int R')) (wr_buffers q) = map (rshift d) (map (\<lambda>b. clip_rounds b (anchor_of q k) (int R)) (wr_buffers q))"
    using zone by simp
  then have bufs: "sort_ranges (filter (\<lambda>z. \<not> rr_empty z) (map (\<lambda>b. clip_rounds b (anchor_of q k') (int R')) (wr_buffers q))) =
      map (rshift d) (sort_ranges (filter (\<lambda>z. \<not> rr_empty z) (map (\<lambda>b. clip_rounds b (anchor_of q k) (int R)) (wr_buffers q))))"
    by (simp only: filter_map_shift sort_ranges_shift)
  have sends: "map (placed_send t q R' (anchor_of q k') (rr_begin (placed_rounds q k R) + d)) (wr_sends q) =
      map (shift_send d) (map (placed_send t q R (anchor_of q k) (rr_begin (placed_rounds q k R))) (wr_sends q))"
    using placed_send_shift[OF sv] by simp
  have input: "placed_input q (rr_begin (placed_rounds q k R) + d) = placed_input q (rr_begin (placed_rounds q k R))"
    unfolding placed_input_def S(2) ..
  show ?thesis
    unfolding placed_def shift_window_def Let_def commit bufs S(1) rshift_simps sends input placed_output_shift[OF sv] by simp
qed

section \<open>What the model reads of the shot\<close>

lemma upto_shift: "[a + d..b + d] = map (\<lambda>r. r + d) [a..b]" for a b d :: int
  by (rule nth_equalityI) auto

lemma rfold_map: "rfold f (map g xs) st = rfold (\<lambda>x. f (g x)) xs st"
proof (induction xs arbitrary: st)
  case (Cons x xs)
  then show ?case by (cases "f (g x) st") auto
qed simp

lemma rmap_cong: "xs = ys \<Longrightarrow> (\<And>x. x \<in> set ys \<Longrightarrow> f x = g x) \<Longrightarrow> rmap f xs = rmap g ys"
proof (induction xs arbitrary: ys)
  case (Cons x xs)
  then show ?case by (cases "g x") auto
qed auto

abbreviation reach_lo :: "window_request \<Rightarrow> int \<Rightarrow> nat \<Rightarrow> int" where
  "reach_lo q k R \<equiv> max 0 (rr_begin (placed_rounds q k R) - 1)"

abbreviation reach_hi :: "experiment_template \<Rightarrow> window_request \<Rightarrow> int \<Rightarrow> nat \<Rightarrow> int" where
  "reach_hi t q k R \<equiv> min (int R) (anchor_of q k + rr_end (model_reach t q))"

lemma reach_bounds:
  assumes "same_variant t q k R k' R' d"
  shows "reach_lo q k R \<le> rr_begin (placed_rounds q k R)" "rr_end (placed_rounds q k R) \<le> reach_hi t q k R"
    "agree_on t R R' d (reach_lo q k R) (reach_hi t q k R)"
  using placed_rounds_bounds[OF assms] by (auto intro!: same_variant_agree[OF assms])

lemma rel_shift:
  assumes sv: "same_variant t q k R k' R' d" and xy: "reach_lo q k R \<le> x" "x \<le> y" "y \<le> reach_hi t q k R"
  shows "rel_row t R' (x + d) (y + d) = rel_row t R x y" "rel_col t R' (x + d) (y + d) = rel_col t R x y"
proof -
  note D = same_variantD[OF sv] and A = reach_bounds(3)[OF sv]
  have b: "0 \<le> x" "y \<le> int R" "0 \<le> x + d" "y + d \<le> int R'" using A xy unfolding agree_on_def by linarith+
  note sl = slice_shift[OF D(1,3,4) A xy]
  show "rel_row t R' (x + d) (y + d) = rel_row t R x y" "rel_col t R' (x + d) (y + d) = rel_col t R x y"
    using b xy(2) by (simp_all add: rel_row_slice[OF D(1,3)] rel_row_slice[OF D(1,4)] rel_col_slice[OF D(1,3)] rel_col_slice[OF D(1,4)] sl)
qed

lemma zone_of_round_shift: "zone_of_round (map (rshift d) bufs) (r + d) = zone_of_round bufs r"
  unfolding zone_of_round_def by (auto intro!: fold_cong)

lemma imports_bounds:
  assumes sv: "same_variant t q k R k' R' d"
  defines "p \<equiv> placed_output t q (anchor_of q k) (int R) (rr_end (placed_rounds q k R))"
  shows "wp_exists p \<and> wp_disposition p = Port_closed \<Longrightarrow> \<not> rr_empty (wp_imports p) \<Longrightarrow>
      rr_begin (placed_rounds q k R) \<le> rr_begin (wp_imports p) \<and> rr_end (wp_imports p) \<le> reach_hi t q k R"
    "wp_exists p \<and> wp_disposition p = Port_closed \<Longrightarrow> rr_end (wp_imports p) \<le> reach_hi t q k R"
    "\<not> (wp_exists p \<and> wp_disposition p = Port_closed) \<Longrightarrow> wp_imports p = rr 0 0"
proof -
  note D = same_variantD[OF sv]
  have im: "wp_imports p = clip_rounds (requested_imports t q) (anchor_of q k) (int R)" "the (op_disposition (wr_output q)) = Port_closed"
    if "wp_exists p \<and> wp_disposition p = Port_closed" using that by (auto simp: p_def placed_output_def Let_def)
  show "wp_imports p = rr 0 0" if "\<not> (wp_exists p \<and> wp_disposition p = Port_closed)"
    using that by (auto simp: p_def placed_output_def Let_def)
  show e: "rr_end (wp_imports p) \<le> reach_hi t q k R" if c: "wp_exists p \<and> wp_disposition p = Port_closed"
    using im[OF c] requested_imports_bounds(2)[OF D(5), of t] by (simp add: clip_rounds_def)
  show "rr_begin (placed_rounds q k R) \<le> rr_begin (wp_imports p) \<and> rr_end (wp_imports p) \<le> reach_hi t q k R"
    if c: "wp_exists p \<and> wp_disposition p = Port_closed" "\<not> rr_empty (wp_imports p)"
  proof -
    have "rr_begin (placed_rounds q k R) \<le> rr_begin (wp_imports p)"
      using D(9) im[OF c(1)] requested_imports_bounds(1)[OF D(5), of t] by (simp add: clip_rounds_def rr_empty_def)
    then show ?thesis using e[OF c(1)] by blast
  qed
qed

text \<open>A window that \<open>place_window\<close> gives, and the shifted one.\<close>

definition the_placed :: "template_ref \<Rightarrow> experiment_template \<Rightarrow> window_request \<Rightarrow> int \<Rightarrow> nat \<Rightarrow> decoding_window" where
  "the_placed ctx t q k R = placed ctx t q k R (map (placed_send t q R (anchor_of q k) (rr_begin (placed_rounds q k R))) (wr_sends q))"

lemma the_placed_fields:
  "dw_shot_rounds (the_placed ctx t q k R) = R" "dw_rounds (the_placed ctx t q k R) = placed_rounds q k R"
  "dw_commit (the_placed ctx t q k R) = clip_rounds (the (wr_commit q)) (anchor_of q k) (int R)"
  "dw_input (the_placed ctx t q k R) = placed_input q (rr_begin (placed_rounds q k R))"
  "dw_output (the_placed ctx t q k R) = placed_output t q (anchor_of q k) (int R) (rr_end (placed_rounds q k R))"
  "dw_context (the_placed ctx t q k R) = ctx"
  by (simp_all add: the_placed_def placed_def Let_def)

lemma shift_window_fields:
  "dw_shot_rounds (shift_window d k R w) = R" "dw_rounds (shift_window d k R w) = rshift d (dw_rounds w)"
  "dw_commit (shift_window d k R w) = rshift d (dw_commit w)" "dw_buffers (shift_window d k R w) = map (rshift d) (dw_buffers w)"
  "dw_input (shift_window d k R w) = dw_input w" "dw_output (shift_window d k R w) = shift_output d (dw_output w)"
  by (simp_all add: shift_window_def)

lemma rfold_shift:
  fixes a b d :: int
  assumes "\<And>r st. a \<le> r \<Longrightarrow> r \<le> b \<Longrightarrow> f' (r + d) st = f r st"
  shows "rfold f' [a + d..b + d] st = rfold f [a..b] st"
  unfolding upto_shift rfold_map by (rule rfold_cong) (use assms in auto)

lemma rmap_shift:
  fixes a b d :: int
  assumes "\<And>r. a \<le> r \<Longrightarrow> r \<le> b \<Longrightarrow> f' (r + d) = f r"
  shows "rmap f' [a + d..b + d] = rmap f [a..b]"
  unfolding upto_shift rmap_map by (rule rmap_cong) (use assms in auto)

lemma window_chain_shift:
  assumes sv: "same_variant t q k R k' R' d"
  shows "window_chain t (shift_window d k' R' (the_placed ctx t q k R)) = window_chain t (the_placed ctx t q k R)"
proof -
  let ?w = "the_placed ctx t q k R"
  define s where "s = rr_begin (placed_rounds q k R)"
  define e where "e = rr_end (placed_rounds q k R)"
  define p where "p = placed_output t q (anchor_of q k) (int R) e"
  define open_input where "open_input = (wp_exists (dw_input ?w) \<and> wp_disposition (dw_input ?w) = Port_open)"
  define truncated where "truncated = (open_input \<and> wp_boundary (dw_input ?w) = Boundary_truncate)"
  define lo where "lo = (if truncated then s - 1 else s)"
  define hi where "hi = max (min (int R) (e + int (et_max_span t))) (rr_end (wp_imports p))"
  note D = same_variantD[OF sv] and B = placed_rounds_bounds[OF sv, folded s_def e_def] and S = placed_rounds_shift[OF sv, folded s_def e_def]
    and A = reach_bounds[OF sv, folded s_def e_def] and I = imports_bounds[OF sv, folded s_def e_def, folded p_def] and RS = rel_shift[OF sv, folded s_def]
  have lo: "max 0 (s - 1) \<le> lo" "lo \<le> s"
    using B(1) by (auto simp: lo_def truncated_def open_input_def the_placed_fields placed_input_def Let_def s_def[symmetric])
  have m: "min (int R) (e + int (et_max_span t)) \<le> reach_hi t q k R" "e \<le> min (int R) (e + int (et_max_span t))"
    using B(3,5) by linarith+
  have "rr_end (wp_imports p) \<le> reach_hi t q k R"
  proof (cases "wp_exists p \<and> wp_disposition p = Port_closed")
    case False
    then show ?thesis using I(3) m B(1,2) by simp
  qed (rule I(2))
  then have hi: "hi \<le> reach_hi t q k R" "e \<le> hi" using m unfolding hi_def by linarith+
  have hi': "max (min (int R') (e + d + int (et_max_span t))) (rr_end (wp_imports (shift_output d p))) = hi + d"
  proof (cases "wp_exists p \<and> wp_disposition p = Port_closed")
    case True
    then show ?thesis using S(6) by (simp add: shift_output_def hi_def)
  next
    case False
    have "0 \<le> s + d" using A(3) lo unfolding agree_on_def by linarith
    then show ?thesis using I(3)[OF False] S(6) B(1-3) False by (auto simp: shift_output_def hi_def)
  qed
  have im: "(if rr_empty (wp_imports (shift_output d p)) then Inr []
       else rbind (rel_row t R' (s + d) (rr_begin (wp_imports (shift_output d p)))) (\<lambda>ib. rbind (rel_row t R' (s + d) (rr_end (wp_imports (shift_output d p)))) (\<lambda>ie. Inr [ib..<ie]))) =
     (if rr_empty (wp_imports p) then Inr []
       else rbind (rel_row t R s (rr_begin (wp_imports p))) (\<lambda>ib. rbind (rel_row t R s (rr_end (wp_imports p))) (\<lambda>ie. Inr [ib..<ie])))"
  proof (cases "wp_exists p \<and> wp_disposition p = Port_closed")
    case True
    show ?thesis
    proof (cases "rr_empty (wp_imports p)")
      case False
      have be: "rr_begin (wp_imports p) \<le> rr_end (wp_imports p)" using False by (simp add: rr_empty_def)
      have "rel_row t R' (s + d) (rr_begin (wp_imports p) + d) = rel_row t R s (rr_begin (wp_imports p))"
        "rel_row t R' (s + d) (rr_end (wp_imports p) + d) = rel_row t R s (rr_end (wp_imports p))"
        by (rule RS(1); use be I(1)[OF True False] A(1) in linarith)+
      then show ?thesis using True False by (simp add: shift_output_def)
    qed (use True in \<open>simp add: shift_output_def\<close>)
  next
    case False
    then show ?thesis using I(3) by (simp add: shift_output_def rr_empty_def)
  qed
  have chunks: "rmap (\<lambda>r. et_chunk t (to_size r) R') [lo + d..hi + d - 1] = rmap (\<lambda>r. et_chunk t (to_size r) R) [lo..hi - 1]"
  proof -
    have "rmap (\<lambda>r. et_chunk t (to_size r) R') [lo + d..(hi - 1) + d] = rmap (\<lambda>r. et_chunk t (to_size r) R) [lo..hi - 1]"
      by (rule rmap_shift, rule chunk_shift(1)[OF D(1,3,4) A(3)]; use lo hi in linarith)
    then show ?thesis by (simp only: add_diff_eq diff_add_eq)
  qed
  have zone: "rfold (\<lambda>r zs. rbind (rel_col t R' (s + d) (r + 1)) (\<lambda>n. Inr (vresize zs n (zone_of_round (map (rshift d) bs) r)))) [s + d..e + d - 1] [] =
      rfold (\<lambda>r zs. rbind (rel_col t R s (r + 1)) (\<lambda>n. Inr (vresize zs n (zone_of_round bs r)))) [s..e - 1] []" for bs
  proof -
    have "rel_col t R' (s + d) (r + d + 1) = rel_col t R s (r + 1)" if "s \<le> r" "r \<le> e - 1" for r
      using RS(2)[OF A(1), of "r + 1"] that A(2) by (simp add: algebra_simps)
    then have "rfold (\<lambda>r zs. rbind (rel_col t R' (s + d) (r + 1)) (\<lambda>n. Inr (vresize zs n (zone_of_round (map (rshift d) bs) r)))) [s + d..(e - 1) + d] [] =
      rfold (\<lambda>r zs. rbind (rel_col t R s (r + 1)) (\<lambda>n. Inr (vresize zs n (zone_of_round bs r)))) [s..e - 1] []"
      by (intro rfold_shift) (simp only: zone_of_round_shift)
    then show ?thesis by (simp only: add_diff_eq diff_add_eq)
  qed
  have rel: "rel_row t R' (lo + d) (s + d) = rel_row t R lo s" "rel_col t R' (lo + d) (s + d) = rel_col t R lo s"
    "rel_row t R' (s + d) (e + d) = rel_row t R s e" "rel_row t R' (s + d) (s + d + 1) = rel_row t R s (s + 1)"
    "rel_col t R' (s + d) (rr_begin (dw_commit ?w) + d) = rel_col t R s (rr_begin (dw_commit ?w))"
  proof -
    show "rel_row t R' (lo + d) (s + d) = rel_row t R lo s" "rel_col t R' (lo + d) (s + d) = rel_col t R lo s"
      by (rule RS; use lo A B in linarith)+
    show "rel_row t R' (s + d) (e + d) = rel_row t R s e" by (rule RS; use A B in linarith)
    show "rel_row t R' (s + d) (s + d + 1) = rel_row t R s (s + 1)"
      using RS(1)[of s "s + 1"] A B(2) by (simp add: algebra_simps)
    show "rel_col t R' (s + d) (rr_begin (dw_commit ?w) + d) = rel_col t R s (rr_begin (dw_commit ?w))"
      unfolding the_placed_fields by (rule RS; use A B D(8) in \<open>auto simp: rr_empty_def\<close>)
  qed
  have lo': "(if truncated then s + d - 1 else s + d) = lo + d" by (simp add: lo_def)
  show ?thesis
    unfolding window_chain_def Let_def shift_window_fields rshift_simps the_placed_fields(1,2,5)
      s_def[symmetric] e_def[symmetric] p_def[symmetric] open_input_def[symmetric] truncated_def[symmetric] hi' lo' lo_def[symmetric] hi_def[symmetric]
      im chunks zone rel ..
qed

section \<open>The built window\<close>

lemma find_parallel_conflicts_shift: "find_parallel_conflicts (shift_window d k R w) = find_parallel_conflicts w"
proof -
  have "conflict_of (shift_window d k R w) = conflict_of w" by (intro ext) (simp add: conflict_of_def shift_window_def)
  moreover have "dw_model (shift_window d k R w) = dw_model w" "dw_commit_columns (shift_window d k R w) = dw_commit_columns w"
    by (simp_all add: shift_window_def)
  ultimately show ?thesis by (intro ext) (simp only: find_parallel_conflicts_def)
qed

lemma model_window_shift:
  "model_window t q (shift_window d k R w) p = rbind (model_window t q w p) (\<lambda>w. Inr (shift_window d k R w))"
proof -
  let ?f = "\<lambda>F V C K cb ce groups h ob priors. w\<lparr>dw_num_own_rows := wpt_own_rows p, dw_fault_column_sources := groups, dw_num_fault_columns := F,
                 dw_num_virtual_outcome_columns := V, dw_num_crossing_columns := C, dw_num_logical_error_columns := K,
                 dw_commit_columns := (cb, ce), dw_model := \<lparr>wm_h = h, wm_o = ob, wm_priors = priors\<rparr>\<rparr>"
  have upd: "(shift_window d k R w)\<lparr>dw_num_own_rows := wpt_own_rows p, dw_fault_column_sources := groups, dw_num_fault_columns := F,
                 dw_num_virtual_outcome_columns := V, dw_num_crossing_columns := C, dw_num_logical_error_columns := K,
                 dw_commit_columns := (cb, ce), dw_model := \<lparr>wm_h = h, wm_o = ob, wm_priors = priors\<rparr>\<rparr> =
      shift_window d k R (?f F V C K cb ce groups h ob priors)" for F V C K cb ce groups h ob priors
    by (simp add: shift_window_def)
  have con: "(shift_window d k R x)\<lparr>dw_parallel_conflicts := c\<rparr> = shift_window d k R (x\<lparr>dw_parallel_conflicts := c\<rparr>)" for x c
    by (simp add: shift_window_def)
  show ?thesis
    unfolding model_window_def Let_def shift_window_fields upd find_parallel_conflicts_shift con rbind_assoc rbind_simps ..
qed

lemma stream_width_slice:
  assumes t: "et_ok t" "measured t" "admits t R" and r: "0 \<le> r" "r < int R"
  shows "stream_width t r R = Inr (u64 (sum_list (map (\<lambda>i. the (pc_measurements (the_phase t i))) (phase_slice t R r (r + 1)))))"
  unfolding stream_width_def measurement_offset_def
proof (rule sum_before_slice[OF t(1,3)])
  show "\<forall>i \<in> set (shot_phases t R). measurement_width (the_phase t i) = Inr (the (pc_measurements (the_phase t i)))"
    using t(2) by (auto simp: measured_def measurement_width_def split: option.splits)
qed (use r in auto)

lemma stream_width_shift:
  assumes sv: "same_variant t q k R k' R' d" and r: "reach_lo q k R \<le> r" "r < reach_hi t q k R"
  shows "stream_width t (r + d) R' = stream_width t r R"
proof -
  note D = same_variantD[OF sv] and A = reach_bounds(3)[OF sv]
  have b: "0 \<le> r" "r < int R" "0 \<le> r + d" "r + d < int R'" using A r unfolding agree_on_def by linarith+
  have "phase_slice t R' (r + d) (r + d + 1) = phase_slice t R r (r + 1)"
    using slice_shift[OF D(1,3,4) A r(1), of "r + 1"] r(2) by (simp add: algebra_simps)
  then show ?thesis using stream_width_slice[OF D(1,10,3) b(1,2)] stream_width_slice[OF D(1,10,4) b(3,4)] by simp
qed

lemma layout_shift:
  assumes sv: "same_variant t q k R k' R' d"
  shows "layout_measurements t (rshift d (placed_rounds q k R)) R' = layout_measurements t (placed_rounds q k R) R"
proof -
  let ?s = "rr_begin (placed_rounds q k R)" and ?e = "rr_end (placed_rounds q k R)"
  note B = placed_rounds_bounds[OF sv] and S = placed_rounds_shift[OF sv] and A = reach_bounds[OF sv]
  have v: "(if 0 < ?s + d then stream_width t (?s + d - 1) R' else Inr 0) = (if 0 < ?s then stream_width t (?s - 1) R else Inr 0)"
    unfolding S(2) using stream_width_shift[OF sv, of "?s - 1"] A(2) B(2) by (auto simp: algebra_simps)
  have f: "rfold (\<lambda>r m. rbind (stream_width t r R') (\<lambda>w. Inr (m\<lparr>ml_width := ml_width m @ [w], ml_start := ml_start m @ [u64 (List.last (ml_start m) + w)]\<rparr>)))
       [?s + d..?e + d - 1] st =
     rfold (\<lambda>r m. rbind (stream_width t r R) (\<lambda>w. Inr (m\<lparr>ml_width := ml_width m @ [w], ml_start := ml_start m @ [u64 (List.last (ml_start m) + w)]\<rparr>)))
       [?s..?e - 1] st" for st
  proof -
    have "stream_width t (r + d) R' = stream_width t r R" if "?s \<le> r" "r \<le> ?e - 1" for r
      by (rule stream_width_shift[OF sv]) (use that A in linarith)+
    then have "rfold (\<lambda>r m. rbind (stream_width t r R') (\<lambda>w. Inr (m\<lparr>ml_width := ml_width m @ [w], ml_start := ml_start m @ [u64 (List.last (ml_start m) + w)]\<rparr>)))
       [?s + d..(?e - 1) + d] st =
     rfold (\<lambda>r m. rbind (stream_width t r R) (\<lambda>w. Inr (m\<lparr>ml_width := ml_width m @ [w], ml_start := ml_start m @ [u64 (List.last (ml_start m) + w)]\<rparr>)))
       [?s..?e - 1] st" by (intro rfold_shift) simp
    then show ?thesis by (simp only: add_diff_eq diff_add_eq)
  qed
  show ?thesis unfolding layout_measurements_def rshift_simps v f ..
qed

definition lies_at :: "window_request \<Rightarrow> int \<Rightarrow> nat \<Rightarrow> decoding_window \<Rightarrow> bool" where
  "lies_at q k R w \<longleftrightarrow> dw_shot_rounds w = R \<and> dw_rounds w = placed_rounds q k R \<and>
     dw_commit w = clip_rounds (the (wr_commit q)) (anchor_of q k) (int R) \<and> wp_exists (dw_output w) = (rr_end (placed_rounds q k R) < int R) \<and>
     rr_empty (wp_imports (dw_input w)) \<and>
     (wp_exists (dw_output w) \<and> wp_disposition (dw_output w) = Port_closed \<or> rr_empty (wp_imports (dw_output w)))"

lemma lies_at_cong:
  assumes "lies_at q k R w" "dw_shot_rounds w' = dw_shot_rounds w" "dw_rounds w' = dw_rounds w" "dw_commit w' = dw_commit w"
    "dw_input w' = dw_input w" "dw_output w' = dw_output w"
  shows "lies_at q k R w'"
  using assms(1) unfolding lies_at_def assms(2-) .

lemma the_placed_lies: "lies_at q k R (the_placed ctx t q k R)"
  by (auto simp: lies_at_def the_placed_fields placed_input_def placed_output_def Let_def rr_empty_def)

lemma model_window_lies:
  assumes "model_window t q w p = Inr w'" "lies_at q k R w"
  shows "lies_at q k R w'"
proof -
  have "\<exists>a b F V C K cc M pc. w' = w\<lparr>dw_num_own_rows := a, dw_fault_column_sources := b, dw_num_fault_columns := F,
                 dw_num_virtual_outcome_columns := V, dw_num_crossing_columns := C, dw_num_logical_error_columns := K,
                 dw_commit_columns := cc, dw_model := M, dw_parallel_conflicts := pc\<rparr>"
    using assms(1) unfolding model_window_def Let_def
    by (elim rbind_InrE) (drule sum.inject(2)[THEN iffD1], drule sym, blast)
  then obtain a b F V C K cc M pc where w': "w' = w\<lparr>dw_num_own_rows := a, dw_fault_column_sources := b, dw_num_fault_columns := F,
                 dw_num_virtual_outcome_columns := V, dw_num_crossing_columns := C, dw_num_logical_error_columns := K,
                 dw_commit_columns := cc, dw_model := M, dw_parallel_conflicts := pc\<rparr>" by blast
  show ?thesis unfolding w' by (rule lies_at_cong[OF assms(2)]) simp_all
qed

lemma m2d_round_rel:
  "m2d_round t w m r rows =
     (let R = dw_shot_rounds w; i = nat (r - rr_begin (dw_rounds w));
          prev_start = (if i = 0 then 0 else ml_start m ! (i - 1)); prev_width = (if i = 0 then ml_v_in m else ml_width m ! (i - 1)) in
      rbind (rel_row t R r (r + 1)) (\<lambda>detectors.
      if \<not> has_D_sparse (et_spec t)
      then Inr (rows @ map (\<lambda>j. u32 (ml_start m ! i + j) # (if 0 < r then [u32 (prev_start + j)] else [])) [0..<detectors])
      else
        rbind (et_phase t (to_size r) R) (\<lambda>i'. rbind (get_phase (et_spec t) i') (\<lambda>p.
        rbind (m2d_values prev_start prev_width (ml_start m ! i) (ml_width m ! i) (cs_D_sparse p) [] rows) (\<lambda>rows'.
          if length rows' - length rows \<noteq> detectors then fail ''a D_sparse has a wrong number of rows'' else Inr rows')))))"
  unfolding m2d_round_def rel_row_def Let_def by (simp only: rbind_assoc rbind_simps)

lemma m2d_round_shift:
  assumes sv: "same_variant t q k R k' R' d" and w: "lies_at q k R w"
    and r: "rr_begin (placed_rounds q k R) \<le> r" "r < rr_end (placed_rounds q k R)"
  shows "m2d_round t (shift_window d k' R' w) m (r + d) rows = m2d_round t w m r rows"
proof -
  note D = same_variantD[OF sv] and B = placed_rounds_bounds[OF sv] and S = placed_rounds_shift[OF sv] and A = reach_bounds[OF sv]
  have i: "r + d - (rr_begin (placed_rounds q k R) + d) = r - rr_begin (placed_rounds q k R)" by simp
  have rel: "rel_row t R' (r + d) (r + d + 1) = rel_row t R r (r + 1)"
    using rel_shift(1)[OF sv, of r "r + 1"] A r by (simp add: algebra_simps)
  have ph: "et_phase t (to_size (r + d)) R' = et_phase t (to_size r) R"
    by (rule chunk_shift(2)[OF D(1,3,4) A(3)]; use A r in linarith)
  have z: "0 < r + d \<longleftrightarrow> 0 < r" using S(2,3) B(1) r by (cases "rr_begin (placed_rounds q k R) = 0") auto
  have w': "dw_shot_rounds w = R" "dw_rounds w = placed_rounds q k R" using w by (simp_all add: lies_at_def)
  show ?thesis unfolding m2d_round_rel Let_def shift_window_fields w' rshift_simps i rel ph z ..
qed

lemma window_wires_shift:
  assumes sv: "same_variant t q k R k' R' d" and w: "lies_at q k R w"
  shows "window_wires (shift_window d k' R' w) = map (\<lambda>x. x + d) (window_wires w)"
proof -
  have o: "wp_exists (shift_output d (dw_output w)) = wp_exists (dw_output w)" by (simp add: shift_output_def)
  show ?thesis
    using w unfolding window_wires_def shift_window_fields o rshift_simps lies_at_def placed_rounds_shift(5)[OF sv]
    by (auto simp: placed_rounds_shift(5)[OF sv])
qed

lemma build_m2d_shift:
  assumes sv: "same_variant t q k R k' R' d" and w: "lies_at q k R w"
  shows "build_m2d t (shift_window d k' R' w) m = build_m2d t w m"
proof -
  let ?s = "rr_begin (placed_rounds q k R)" and ?e = "rr_end (placed_rounds q k R)"
  have w': "dw_rounds w = placed_rounds q k R" using w by (simp add: lies_at_def)
  have "rfold (m2d_round t (shift_window d k' R' w) m) [?s + d..(?e - 1) + d] [] = rfold (m2d_round t w m) [?s..?e - 1] []"
    by (rule rfold_shift, rule m2d_round_shift[OF sv w]) auto
  then have f: "rfold (m2d_round t (shift_window d k' R' w) m) [?s + d..?e + d - 1] [] = rfold (m2d_round t w m) [?s..?e - 1] []"
    by (simp only: add_diff_eq diff_add_eq)
  have i: "x + d - 1 - (?s + d) = x - 1 - ?s" for x by simp
  show ?thesis
    unfolding build_m2d_def Let_def shift_window_fields w' rshift_simps f window_wires_shift[OF sv w] rmap_map i ..
qed

lemma window_shift:
  assumes sv: "same_variant t q k R k' R' d"
  shows "window_from_dem_chunks (Some (addr, t)) q k' R' False =
    rbind (window_from_dem_chunks (Some (addr, t)) q k R False) (\<lambda>w. Inr (shift_window d k' R' w))"
proof -
  let ?ctx = "Some (addr, t)"
  note D = same_variantD[OF sv]
  have p1: "place_window ?ctx q k R = Inr (the_placed ?ctx t q k R)"
    using place_window_template[OF D(1,2,11)] D(3,5,8) by (simp add: the_placed_def)
  have sh: "the_placed ?ctx t q k' R' = shift_window d k' R' (the_placed ?ctx t q k R)"
    unfolding the_placed_def by (rule placed_shift[OF sv])
  have "dw_commit (the_placed ?ctx t q k' R') = rshift d (dw_commit (the_placed ?ctx t q k R))" unfolding sh shift_window_fields ..
  then have "\<not> rr_empty (clip_rounds (the (wr_commit q)) (anchor_of q k') (int R'))"
    using D(8) unfolding the_placed_fields by simp
  then have p2: "place_window ?ctx q k' R' = Inr (shift_window d k' R' (the_placed ?ctx t q k R))"
    using place_window_template[OF D(1,2,12), of addr q k'] D(4,5) sh by (simp add: the_placed_def)
  show ?thesis
  proof (cases "rbind (window_chain t (the_placed ?ctx t q k R)) (model_window t q (the_placed ?ctx t q k R))")
    case (Inl e)
    then show ?thesis
      unfolding window_from_dem_chunks_def p1 p2 rbind_simps Let_def option.sel snd_conv window_chain_shift[OF sv] model_window_shift
      by (cases "window_chain t (the_placed ?ctx t q k R)") auto
  next
    case (Inr w)
    then obtain p where p: "window_chain t (the_placed ?ctx t q k R) = Inr p" "model_window t q (the_placed ?ctx t q k R) p = Inr w"
      by (auto simp: rbind_Inr_iff)
    have lies: "lies_at q k R w" by (rule model_window_lies[OF p(2) the_placed_lies])
    then have rounds: "dw_rounds w = placed_rounds q k R" by (simp add: lies_at_def)
    have upd: "(shift_window d k' R' w)\<lparr>dw_num_virtual_outcomes := a, dw_num_measurements := b, dw_m2d := c, dw_m2o := e\<rparr> =
        shift_window d k' R' (w\<lparr>dw_num_virtual_outcomes := a, dw_num_measurements := b, dw_m2d := c, dw_m2o := e\<rparr>)" for a b c e
      by (simp add: shift_window_def)
    have if_bind: "rbind (if b then fail m else x) f = (if b then fail m else rbind x f)" for b m x and f :: "decoding_window \<Rightarrow> decoding_window res"
      by (simp add: fail_def)
    show ?thesis
      unfolding window_from_dem_chunks_def p1 p2 rbind_simps Let_def option.sel snd_conv window_chain_shift[OF sv] model_window_shift p
        shift_window_fields rounds layout_shift[OF sv] build_m2d_shift[OF sv lies] rbind_assoc if_bind upd if_False ..
  qed
qed

section \<open>Windows of one variant\<close>

lemma window_from_dem_chunksE:
  assumes w: "window_from_dem_chunks (Some (addr, t)) q k R with_m2o = Inr w"
  obtains w1 p w2 lay m2d m2o where "place_window (Some (addr, t)) q k R = Inr w1" "window_chain t w1 = Inr p" "model_window t q w1 p = Inr w2"
    "layout_measurements t (dw_rounds w2) R = Inr lay" "build_m2d t w2 lay = Inr m2d"
    "(if with_m2o then rbind (build_m2o t w2 lay) (\<lambda>m. Inr (Some m)) else Inr None) = Inr m2o"
    "w = w2\<lparr>dw_num_virtual_outcomes := ml_v_in lay, dw_num_measurements := sz_sub (List.last (ml_start lay)) (ml_v_in lay), dw_m2d := m2d, dw_m2o := m2o\<rparr>"
proof -
  note e = w[unfolded window_from_dem_chunks_def Let_def option.sel snd_conv]
  obtain w1 where w1: "place_window (Some (addr, t)) q k R = Inr w1" using e by (cases "place_window (Some (addr, t)) q k R") simp_all
  note e = e[unfolded w1 rbind_simps]
  obtain p where p: "window_chain t w1 = Inr p" using e by (cases "window_chain t w1") simp_all
  note e = e[unfolded p rbind_simps]
  obtain w2 where w2: "model_window t q w1 p = Inr w2" using e by (cases "model_window t q w1 p") simp_all
  note e = e[unfolded w2 rbind_simps]
  obtain lay where lay: "layout_measurements t (dw_rounds w2) R = Inr lay" using e by (cases "layout_measurements t (dw_rounds w2) R") simp_all
  note e = e[unfolded lay rbind_simps fail_def guard_Inr_iff, THEN conjunct2]
  obtain m2d where m2d: "build_m2d t w2 lay = Inr m2d" using e by (cases "build_m2d t w2 lay") simp_all
  note e = e[unfolded m2d rbind_simps]
  obtain m2o where m2o: "(if with_m2o then rbind (build_m2o t w2 lay) (\<lambda>m. Inr (Some m)) else Inr None) = Inr m2o"
    using e by (cases "if with_m2o then rbind (build_m2o t w2 lay) (\<lambda>m. Inr (Some m)) else Inr None") simp_all
  show thesis by (rule that[OF w1 p w2 lay m2d m2o]) (use e[unfolded m2o rbind_simps] in simp)
qed

lemma built_window_lies:
  assumes t: "et_ok t" "et_max_span t \<le> 1" "R \<le> 2 ^ 62" and w: "window_from_dem_chunks (Some (addr, t)) q k R False = Inr w"
  shows "lies_at q k R w" "dw_m2o w = None"
proof -
  obtain w1 p w2 lay m2d m2o where s: "place_window (Some (addr, t)) q k R = Inr w1" "model_window t q w1 p = Inr w2"
    "(if False then rbind (build_m2o t w2 lay) (\<lambda>m. Inr (Some m)) else Inr None) = Inr m2o"
    "w = w2\<lparr>dw_num_virtual_outcomes := ml_v_in lay, dw_num_measurements := sz_sub (List.last (ml_start lay)) (ml_v_in lay), dw_m2d := m2d, dw_m2o := m2o\<rparr>"
    by (rule window_from_dem_chunksE[OF w])
  have "w1 = the_placed (Some (addr, t)) t q k R" using s(1) place_window_template[OF t] by (simp add: the_placed_def)
  then have "lies_at q k R w1" using the_placed_lies by simp
  then have w2: "lies_at q k R w2" by (rule model_window_lies[OF s(2)])
  show "lies_at q k R w" unfolding s(4) by (rule lies_at_cong[OF w2]) simp_all
  show "dw_m2o w = None" using s(3) unfolding s(4) by simp
qed

lemma rr_shift_shift: "rr_shift (rshift d r) (x + d) = rr_shift r x"
  by (simp add: rr_shift_def)

lemma shifted_window_same:
  assumes w: "lies_at q k R w" and o: "dw_m2o w = None"
  shows "check_same_window_up_to_shift w (shift_window d k' R' w) = Inr ()"
proof -
  have maps: "map (\<lambda>r. rr_shift r (x + d)) (map (rshift d) rs) = map (\<lambda>r. rr_shift r x) rs" for rs x by (simp add: rr_shift_shift)
  have emp: "rr_empty r \<Longrightarrow> rr_shift r x = rr_shift r y" for r x y by (simp add: rr_shift_def)
  have inp: "port_fields (dw_input w) (x + d) = port_fields (dw_input w) x" for x
    using w emp by (simp add: port_fields_def lies_at_def)
  have outp: "port_fields (shift_output d (dw_output w)) (x + d) = port_fields (dw_output w) x" for x
    using w emp by (auto simp: port_fields_def shift_output_def rr_shift_shift lies_at_def)
  have sends: "rfold (\<lambda>i _. let x = dw_sends w ! i; y = map (shift_send d) (dw_sends w) ! i in
      if ws_id x \<noteq> ws_id y \<or> ws_mode x \<noteq> ws_mode y \<or> map (\<lambda>r. rr_shift r b) (ws_rounds x) \<noteq> map (\<lambda>r. rr_shift r (b + d)) (ws_rounds y) \<or>
         ws_rows x \<noteq> ws_rows y
      then differ ''a send'' else Inr ()) [0..<length (dw_sends w)] () = Inr ()" for b
    unfolding rfold_unit_iff[where u = "()"] by (simp add: shift_send_def Let_def rr_shift_shift)
  have rest: "dw_sends (shift_window d k' R' w) = map (shift_send d) (dw_sends w)"
    "dw_num_own_rows (shift_window d k' R' w) = dw_num_own_rows w"
    "dw_num_fault_columns (shift_window d k' R' w) = dw_num_fault_columns w"
    "dw_num_virtual_outcome_columns (shift_window d k' R' w) = dw_num_virtual_outcome_columns w"
    "dw_num_crossing_columns (shift_window d k' R' w) = dw_num_crossing_columns w"
    "dw_num_logical_error_columns (shift_window d k' R' w) = dw_num_logical_error_columns w"
    "dw_commit_columns (shift_window d k' R' w) = dw_commit_columns w" "dw_fault_column_sources (shift_window d k' R' w) = dw_fault_column_sources w"
    "dw_model (shift_window d k' R' w) = dw_model w" "dw_num_virtual_outcomes (shift_window d k' R' w) = dw_num_virtual_outcomes w"
    "dw_num_measurements (shift_window d k' R' w) = dw_num_measurements w" "dw_m2d (shift_window d k' R' w) = dw_m2d w"
    "dw_m2o (shift_window d k' R' w) = dw_m2o w" by (simp_all add: shift_window_def)
  show ?thesis
    unfolding check_same_window_up_to_shift_def Let_def shift_window_fields rest rshift_simps rr_shift_shift maps inp outp sends[unfolded Let_def] length_map o
    by (simp add: same_matrix_def same_map_def)
qed

lemma template_measured: "self_on_chain s \<Longrightarrow> experiment_template_new s = Inr t \<Longrightarrow> measured t"
  using template_measurements(1) by (fastforce simp: measured_def)

lemma variant_windows_shift:
  assumes on: "self_on_chain s" and t: "experiment_template_new s = Inr t" and q: "check_request q = Inr ()"
    and R: "admits t R" "admits t R'" "R \<le> 2 ^ 62" "R' \<le> 2 ^ 62" and key: "key_of t q k R = key_of t q k' R'"
    and c: "\<not> rr_empty (clip_rounds (the (wr_commit q)) (anchor_of q k) (int R))"
  defines "d \<equiv> (k' - k) * wr_period q"
  shows "window_from_dem_chunks (Some (addr, t)) q k' R' False =
      rbind (window_from_dem_chunks (Some (addr, t)) q k R False) (\<lambda>w. Inr (shift_window d k' R' w))"
    "window_from_dem_chunks (Some (addr, t)) q k R False = Inr w \<Longrightarrow> check_same_window_up_to_shift w (shift_window d k' R' w) = Inr ()"
proof -
  note ok = template_new_ok(1)[OF on t] and m = template_max_span[OF t]
  have d: "anchor_of q k' - anchor_of q k = d" by (simp add: d_def algebra_simps)
  have "same_variant t q k R k' R' d"
    using ok m template_measured[OF on t] R q variant_aligned[OF key] c d by (simp add: same_variant_def)
  then show "window_from_dem_chunks (Some (addr, t)) q k' R' False =
      rbind (window_from_dem_chunks (Some (addr, t)) q k R False) (\<lambda>w. Inr (shift_window d k' R' w))" by (rule window_shift)
  show "check_same_window_up_to_shift w (shift_window d k' R' w) = Inr ()" if "window_from_dem_chunks (Some (addr, t)) q k R False = Inr w"
    by (rule shifted_window_same[OF built_window_lies[OF ok m R(3) that]])
qed

section \<open>The variants of a layer\<close>

lemma reach_limits:
  assumes q: "check_request q = Inr ()" and m: "et_max_span t \<le> 1"
  shows "- (2 ^ 31) - 1 \<le> rr_begin (model_reach t q)" "rr_begin (model_reach t q) \<le> 2 ^ 31 + 1"
    "- (2 ^ 31) - 1 \<le> rr_end (model_reach t q)" "rr_end (model_reach t q) \<le> 2 ^ 31 + 1"
proof -
  note L = span_limits[OF q]
  have z: "rr_begin (zone_span q) < rr_end (zone_span q)" using zone_span_sorted(3)[OF q] by (simp add: rr_empty_def)
  show "- (2 ^ 31) - 1 \<le> rr_begin (model_reach t q)" "rr_begin (model_reach t q) \<le> 2 ^ 31 + 1" using L z unfolding reach_nonempty(2) by linarith+
  show "- (2 ^ 31) - 1 \<le> rr_end (model_reach t q)" using reach_nonempty(3)[of q t] L z by linarith
  have "rr_end im \<le> 2 ^ 31" if "op_imports (wr_output q) = Some im" for im
    using check_requestD(3)[OF q] that
    by (auto simp: check_ports_def Let_def reject_def rbind_Inr_iff check_within_iff split: option.splits if_splits)
  then show "rr_end (model_reach t q) \<le> 2 ^ 31 + 1" using L(2) m by (auto simp: model_reach_def Let_def split: option.split)
qed

lemma window_variant_key:
  assumes q: "check_request q = Inr ()" and m: "et_max_span t \<le> 1" and R: "R \<le> 2 ^ 62"
    and c: "\<not> rr_empty (clip_rounds (the (wr_commit q)) (anchor_of q k) (int R))" and e: "end_rounds t \<le> 2 ^ 61"
  shows "window_variant t q k R = Inr (key_of t q k R)"
proof -
  note F = instance_fits[OF q R c] and L = reach_limits[OF q m]
  have R': "int R \<le> 2 ^ 62" using R by (metis of_nat_le_iff of_nat_numeral of_nat_power)
  have "0 \<le> end_rounds t" by (simp add: end_rounds_def)
  then have "i64 (int R - end_rounds t)" "i64 (int R - anchor_of q k)" using e R' F(1,2) by (simp_all add: i64_def)
  then show ?thesis
    using check_requestD(1)[OF q] F(3) F(4)[OF L(1,2)] F(4)[OF L(3,4)]
    by (simp add: key_of_def window_variant_def variant_bounds_of_def window_variant_of_def to_i64_int[OF R] i64_steps_def Let_def)
qed

definition note_variant :: "experiment_template \<Rightarrow> window_request \<Rightarrow> nat \<times> int \<Rightarrow> variant_instance list \<Rightarrow> variant_instance list" where
  "note_variant t q Rk acc = (let key = key_of t q (snd Rk) (fst Rk) in
     if list_ex (\<lambda>v. vi_key v = key) acc then acc else acc @ [\<lparr>vi_key = key, vi_k = snd Rk, vi_num_rounds = fst Rk\<rparr>])"

lemma note_variants:
  "\<forall>v \<in> set (fold (note_variant t q) xs acc). v \<in> set acc \<or> (vi_num_rounds v, vi_k v) \<in> set xs \<and> vi_key v = key_of t q (vi_k v) (vi_num_rounds v)"
  "\<forall>x \<in> set xs. \<exists>v \<in> set (fold (note_variant t q) xs acc). vi_key v = key_of t q (snd x) (fst x)"
  "set acc \<subseteq> set (fold (note_variant t q) xs acc)"
  "distinct (map vi_key acc) \<Longrightarrow> distinct (map vi_key (fold (note_variant t q) xs acc))"
proof (induction xs arbitrary: acc)
  case (Cons x xs)
  have a: "set acc \<subseteq> set (note_variant t q x acc)" "\<exists>v \<in> set (note_variant t q x acc). vi_key v = key_of t q (snd x) (fst x)"
    "\<forall>v \<in> set (note_variant t q x acc). v \<in> set acc \<or> v = \<lparr>vi_key = key_of t q (snd x) (fst x), vi_k = snd x, vi_num_rounds = fst x\<rparr>"
    "distinct (map vi_key acc) \<Longrightarrow> distinct (map vi_key (note_variant t q x acc))" for acc
    by (auto simp: note_variant_def Let_def list_ex_iff)
  { case 1 show ?case using Cons.IH(1)[of "note_variant t q x acc"] a(3)[of acc] by (cases x) fastforce }
  { case 2 show ?case using Cons.IH(2,3)[of "note_variant t q x acc"] a(2)[of acc] by (cases x) fastforce }
  { case 3 show ?case using Cons.IH(3)[of "note_variant t q x acc"] a(1)[of acc] by auto }
  { case 4 then show ?case using Cons.IH(4)[of "note_variant t q x acc"] a(4)[of acc] by simp }
qed auto

definition instances_of :: "window_request \<Rightarrow> nat \<Rightarrow> (nat \<times> int) list" where
  "instances_of q R = map (Pair R) (case projr (window_instances q R) of (b, e) \<Rightarrow> [b..e - 1])"

lemma instances_of_iff:
  assumes "check_request q = Inr ()" "0 < R" "R \<le> 2 ^ 62"
  shows "(R, k) \<in> set (instances_of q R) \<longleftrightarrow> \<not> rr_empty (clip_rounds (the (wr_commit q)) (anchor_of q k) (int R))"
proof -
  obtain b e where be: "window_instances q R = Inr (b, e)" using window_instances_ok[OF assms(1,3)] by blast
  show ?thesis using window_instances_iff[OF be assms(2,3), of k] by (auto simp: instances_of_def be)
qed

lemma variant_instances_fold:
  assumes q: "check_request q = Inr ()" and p: "variant_probe_rounds t q = Inr P" and P: "P \<le> 2 ^ 62" and m: "et_max_span t \<le> 1"
    and e: "end_rounds t \<le> 2 ^ 61" and two: "2 \<le> et_min_rounds t"
  shows "variant_instances t q = Inr (fold (note_variant t q) (concat (map (instances_of q) [et_min_rounds t..<P])) [])"
proof -
  have step: "rbind (window_instances q R) (\<lambda>(b, e). rfold (add_variant t q R) [b..e - 1] acc) = Inr (fold (note_variant t q) (instances_of q R) acc)"
    if R: "R \<in> set [et_min_rounds t..<P]" for R acc
  proof -
    have R': "R \<le> 2 ^ 62" "0 < R" using R P two by auto
    obtain b e' where be: "window_instances q R = Inr (b, e')" using window_instances_ok[OF q R'(1)] by blast
    have "rfold (add_variant t q R) ks acc = Inr (fold (note_variant t q) (map (Pair R) ks) acc)" if "set ks \<subseteq> {b..e' - 1}" for ks
      using that
    proof (induction ks arbitrary: acc)
      case (Cons k ks)
      have "\<not> rr_empty (clip_rounds (the (wr_commit q)) (anchor_of q k) (int R))"
        using window_instances_iff[OF be R'(2,1), of k] Cons.prems by simp
      then have "add_variant t q R k acc = Inr (note_variant t q (R, k) acc)"
        by (simp add: add_variant_def window_variant_key[OF q m R'(1) _ e] note_variant_def Let_def)
      then show ?case using Cons by simp
    qed simp
    then show ?thesis by (simp add: be instances_of_def)
  qed
  have "rfold (\<lambda>R acc. rbind (window_instances q R) (\<lambda>(b, e). rfold (add_variant t q R) [b..e - 1] acc)) Rs acc =
      Inr (fold (note_variant t q) (concat (map (instances_of q) Rs)) acc)" if "set Rs \<subseteq> set [et_min_rounds t..<P]" for Rs acc
    using that by (induction Rs arbitrary: acc) (simp_all add: step)
  then show ?thesis by (simp add: variant_instances_def p)
qed

text \<open>Every window has a window of the same key in a short shot.\<close>

definition probe_end :: "experiment_template \<Rightarrow> window_request \<Rightarrow> int" where
  "probe_end t q = anchor_of q (first_bulk_index t q + 1) + rr_end (model_reach t q) + end_rounds t"

lemma first_bulk:
  assumes "1 \<le> wr_period q"
  shows "first_bulk_index t q \<le> k \<longleftrightarrow> int (length (et_prefix t)) \<le> anchor_of q k + rr_begin (model_reach t q)"
proof -
  let ?p = "wr_period q" and ?x = "int (length (et_prefix t)) - wr_offset q - rr_begin (model_reach t q)"
  have "first_bulk_index t q = (?x + ?p - 1) div ?p" using assms by (simp add: first_bulk_index_def ceil_div_def floor_div_eq)
  moreover have "k + 1 \<le> (?x + ?p - 1) div ?p \<longleftrightarrow> (k + 1) * ?p \<le> ?x + ?p - 1" using assms by (intro le_div_iff) simp
  ultimately show ?thesis by (simp add: algebra_simps) linarith
qed

lemma anchor_mono: "1 \<le> wr_period q \<Longrightarrow> k < k' \<Longrightarrow> anchor_of q k + wr_period q \<le> anchor_of q k'"
  using mult_right_mono[of "k + 1" k' "wr_period q"] by (simp add: algebra_simps)

lemma key_of_None:
  "int (length (et_prefix t)) \<le> anchor_of q k + rr_begin (model_reach t q) \<Longrightarrow> vk_position (key_of t q k R) = None"
  "anchor_of q k + rr_begin (model_reach t q) < int (length (et_prefix t)) \<Longrightarrow> vk_position (key_of t q k R) = Some k"
  "anchor_of q k + rr_end (model_reach t q) \<le> int R - end_rounds t \<Longrightarrow> vk_terminal (key_of t q k R) = None"
  "int R - end_rounds t < anchor_of q k + rr_end (model_reach t q) \<Longrightarrow> vk_terminal (key_of t q k R) = Some (int R - anchor_of q k)"
  by (simp_all add: key_of_def key_at_def Let_def)

lemma key_of_eqI:
  "vk_position (key_of t q k R) = vk_position (key_of t q k' R') \<Longrightarrow> vk_terminal (key_of t q k R) = vk_terminal (key_of t q k' R') \<Longrightarrow>
   key_of t q k R = key_of t q k' R'"
  by simp

lemma short_shot:
  assumes t: "et_min_rounds t = max 2 (length (et_prefix t) + length (et_suffix t) + 1)"
    and q: "check_request q = Inr ()" and R: "et_min_rounds t \<le> R"
    and c: "\<not> rr_empty (clip_rounds (the (wr_commit q)) (anchor_of q k) (int R))"
  shows "\<exists>k' R'. et_min_rounds t \<le> R' \<and> int R' \<le> probe_end t q \<and> key_of t q k' R' = key_of t q k R \<and>
    \<not> rr_empty (clip_rounds (the (wr_commit q)) (anchor_of q k') (int R'))"
proof -
  let ?P = "int (length (et_prefix t))" and ?S = "int (length (et_suffix t))" and ?C = "the (wr_commit q)"
  let ?rb = "rr_begin (model_reach t q)" and ?re = "rr_end (model_reach t q)" and ?E = "end_rounds t" and ?kb = "first_bulk_index t q"
  let ?A = "anchor_of q" and ?p = "wr_period q"
  have p: "1 \<le> ?p" using check_anchorD(1)[OF check_requestD(1)[OF q]] .
  have z: "rr_begin (zone_span q) \<le> rr_begin ?C" "rr_end ?C \<le> rr_end (zone_span q)" "rr_begin ?C < rr_end ?C"
    using zone_within[OF q, of ?C] by auto
  have re: "?rb < rr_begin ?C" "rr_end ?C \<le> ?re" "?rb + 2 \<le> ?re" using z reach_nonempty(2,3)[where t = t and q = q] by auto
  have E: "?S \<le> ?E" "1 \<le> ?E" by (auto simp: end_rounds_def)
  have kb: "?P \<le> ?A ?kb + ?rb" using first_bulk[OF p, where t = t and k = ?kb] by simp
  have pe: "probe_end t q = ?A ?kb + ?p + ?re + ?E" by (simp add: probe_end_def algebra_simps)
  have mn: "int (et_min_rounds t) + ?p \<le> probe_end t q" "int (et_min_rounds t) \<le> probe_end t q" using kb re(3) E p unfolding pe t by auto
  have clip: "rr_empty (clip_rounds ?C a (int R')) \<longleftrightarrow> a + rr_end ?C \<le> 0 \<or> int R' \<le> a + rr_begin ?C" if "et_min_rounds t \<le> R'" for a R'
    by (rule commit_clipped_iff) (use z(3) that t in \<open>auto simp: rr_empty_def\<close>)
  have cR: "0 < ?A k + rr_end ?C" "?A k + rr_begin ?C < int R" using c clip[OF R, of "?A k"] by auto
  show ?thesis
  proof (cases "int R \<le> probe_end t q")
    case True
    then show ?thesis using R c by blast
  next
    case long: False
    have top: "et_min_rounds t \<le> nat (probe_end t q)" "int (nat (probe_end t q)) = probe_end t q" using mn by auto
    consider "k < ?kb" | "?kb \<le> k" "?A k + ?re \<le> int R - ?E" | "?kb \<le> k" "int R - ?E < ?A k + ?re" by linarith
    then show ?thesis
    proof cases
      case 1
      have a: "?A k + ?p \<le> ?A ?kb" by (rule anchor_mono[OF p 1])
      have "?A k + ?rb < ?P" using 1 first_bulk[OF p, where t = t and k = k] by linarith
      then have "key_of t q k (nat (probe_end t q)) = key_of t q k R"
        using a p long top(2) pe by (intro key_of_eqI) (simp_all only: key_of_None)
      moreover have "\<not> rr_empty (clip_rounds ?C (?A k) (int (nat (probe_end t q))))"
        unfolding clip[OF top(1)] using cR(1) a p re z(3) E top(2) pe by linarith
      ultimately show ?thesis using top by (intro exI[of _ k] exI[of _ "nat (probe_end t q)"]) simp
    next
      case 2
      have "?P \<le> ?A k + ?rb" using 2(1) first_bulk[OF p, where t = t and k = k] by simp
      then have "key_of t q ?kb (nat (probe_end t q)) = key_of t q k R"
        using 2 kb p top(2) pe by (intro key_of_eqI) (simp_all only: key_of_None)
      moreover have "\<not> rr_empty (clip_rounds ?C (?A ?kb) (int (nat (probe_end t q))))"
        unfolding clip[OF top(1)] using kb p re z(3) E top(2) pe by linarith
      ultimately show ?thesis using top by (intro exI[of _ ?kb] exI[of _ "nat (probe_end t q)"]) simp
    next
      case 3
      define T where "T = int R - ?A k"
      define kc where "kc = (int (et_min_rounds t) - wr_offset q - T + ?p - 1) div ?p"
      define k' where "k' = max ?kb kc"
      have kc: "kc \<le> j \<longleftrightarrow> int (et_min_rounds t) \<le> ?A j + T" for j
        using le_div_iff[of ?p "j + 1" "int (et_min_rounds t) - wr_offset q - T + ?p - 1"] p
        unfolding kc_def by (simp add: algebra_simps) linarith
      have low: "int (et_min_rounds t) \<le> ?A k' + T" using kc[of k'] by (simp add: k'_def)
      have T: "T < ?re + ?E" "rr_begin ?C < T" using 3(2) cR(2) by (auto simp: T_def)
      have high: "?A k' + T \<le> probe_end t q"
      proof (cases "kc \<le> ?kb")
        case True
        then show ?thesis using T(1) p pe by (simp add: k'_def)
      next
        case False
        then have "?A (kc - 1) + T < int (et_min_rounds t)" using kc[of "kc - 1"] by linarith
        moreover have "?A kc = ?A (kc - 1) + ?p" by (simp add: algebra_simps)
        ultimately show ?thesis using False mn(1) by (simp add: k'_def)
      qed
      have R': "int (nat (?A k' + T)) = ?A k' + T" "et_min_rounds t \<le> nat (?A k' + T)" using low by auto
      have P: "?P \<le> ?A k' + ?rb" "?P \<le> ?A k + ?rb" using first_bulk[OF p, where t = t and k = k'] first_bulk[OF p, where t = t and k = k] 3(1) by (auto simp: k'_def)
      have "vk_terminal (key_of t q k' (nat (?A k' + T))) = Some (int (nat (?A k' + T)) - ?A k')" using T(1) R'(1) by (intro key_of_None(4)) simp
      also have "\<dots> = vk_terminal (key_of t q k R)" using key_of_None(4)[OF 3(2)] R'(1) by (simp add: T_def)
      finally have "key_of t q k' (nat (?A k' + T)) = key_of t q k R" using P by (intro key_of_eqI) (simp_all only: key_of_None)
      moreover have "\<not> rr_empty (clip_rounds ?C (?A k') (int (nat (?A k' + T))))"
        unfolding clip[OF R'(2)] using P re z(3) T(2) R'(1) by linarith
      ultimately show ?thesis using R' high by (intro exI[of _ k'] exI[of _ "nat (?A k' + T)"]) simp
    qed
  qed
qed

lemma end_rounds_bound:
  assumes "et_ok t" "et_min_rounds t \<le> 2 ^ 61"
  shows "end_rounds t \<le> 2 ^ 61"
proof -
  have "length (et_suffix t) \<le> 2 ^ 61" using assms(2) et_okD(1,2)[OF assms(1)] by (cases "et_repeats t") auto
  then have "int (length (et_suffix t)) \<le> 2 ^ 61" by (metis of_nat_le_iff of_nat_numeral of_nat_power)
  then show ?thesis by (simp add: end_rounds_def)
qed

lemma probe_end_bound:
  assumes q: "check_request q = Inr ()" and m: "et_max_span t \<le> 1"
    and t: "et_min_rounds t = max 2 (length (et_prefix t) + length (et_suffix t) + 1)" and b: "et_min_rounds t \<le> 2 ^ 61"
  shows "probe_end t q + 1 \<le> 2 ^ 62"
proof -
  let ?kb = "first_bulk_index t q" and ?p = "wr_period q"
  have p: "1 \<le> ?p" "?p \<le> 2 ^ 31"
    using check_anchorD(1)[OF check_requestD(1)[OF q]] check_anchor_limits(1)[OF check_requestD(1)[OF q]] by blast+
  have "anchor_of q (?kb - 1) + rr_begin (model_reach t q) < int (length (et_prefix t))"
    using first_bulk[OF p(1), where t = t and k = "?kb - 1"] by linarith
  then have "anchor_of q ?kb - ?p + rr_begin (model_reach t q) < int (length (et_prefix t))" by (simp add: algebra_simps)
  moreover have "probe_end t q = anchor_of q ?kb + ?p + rr_end (model_reach t q) + end_rounds t" by (simp add: probe_end_def algebra_simps)
  moreover have "int (length (et_prefix t)) + end_rounds t \<le> 2 ^ 61"
  proof -
    have "length (et_prefix t) + length (et_suffix t) + 1 \<le> 2 ^ 61" using t b by linarith
    then have "int (length (et_prefix t) + length (et_suffix t) + 1) \<le> 2 ^ 61" by (metis of_nat_le_iff of_nat_numeral of_nat_power)
    then show ?thesis by (simp add: end_rounds_def)
  qed
  ultimately show ?thesis using reach_limits[OF q m] p by simp
qed

lemma variants_complete:
  assumes on: "self_on_chain s" and t: "experiment_template_new s = Inr t" and q: "check_request q = Inr ()" and b: "et_min_rounds t \<le> 2 ^ 61"
  obtains vs where "variant_instances t q = Inr vs" "distinct (map vi_key vs)"
    "\<And>v. v \<in> set vs \<Longrightarrow> admits t (vi_num_rounds v) \<and> vi_num_rounds v \<le> 2 ^ 62 \<and> vi_key v = key_of t q (vi_k v) (vi_num_rounds v) \<and>
       \<not> rr_empty (clip_rounds (the (wr_commit q)) (anchor_of q (vi_k v)) (int (vi_num_rounds v)))"
    "\<And>k R. admits t R \<Longrightarrow> \<not> rr_empty (clip_rounds (the (wr_commit q)) (anchor_of q k) (int R)) \<Longrightarrow> \<exists>v \<in> set vs. vi_key v = key_of t q k R"
proof -
  note ok = template_new_ok[OF on t] and two = et_okD(4)[OF template_new_ok(1)[OF on t]]
  note m = template_max_span[OF t]
  obtain P where P: "variant_probe_rounds t q = Inr P" using q by (cases "et_repeats t") (simp_all add: variant_probe_rounds_def Let_def)
  let ?xs = "concat (map (instances_of q) [et_min_rounds t..<P])"
  let ?vs = "fold (note_variant t q) ?xs []"
  note N = note_variants[where t = t and q = q and xs = ?xs and acc = "[]"]
  have PR: "if et_repeats t then int P = max (int (et_min_rounds t)) (max (probe_end t q + 1) 0) else P = et_min_rounds t + 1"
    using P q by (auto simp: variant_probe_rounds_def Let_def probe_end_def split: if_splits)
  have PB: "P \<le> 2 ^ 62"
  proof (cases "et_repeats t")
    case True
    have "int P \<le> 2 ^ 62" using PR True probe_end_bound[OF q m ok(6)[OF True] b] b by simp
    then show ?thesis by (metis of_nat_le_iff of_nat_numeral of_nat_power)
  qed (use PR b in simp)
  have e: "end_rounds t \<le> 2 ^ 61" by (rule end_rounds_bound[OF ok(1) b])
  have inst: "(R, k) \<in> set ?xs \<longleftrightarrow> et_min_rounds t \<le> R \<and> R < P \<and> \<not> rr_empty (clip_rounds (the (wr_commit q)) (anchor_of q k) (int R))" for R k
  proof -
    have "(R, k) \<in> set (instances_of q x) \<Longrightarrow> x = R" for x by (auto simp: instances_of_def)
    then have "(R, k) \<in> set ?xs \<longleftrightarrow> et_min_rounds t \<le> R \<and> R < P \<and> (R, k) \<in> set (instances_of q R)" by fastforce
    then show ?thesis using instances_of_iff[OF q, of R k] two PB by auto
  qed
  have short: "\<exists>k' R'. (R', k') \<in> set ?xs \<and> key_of t q k' R' = key_of t q k R"
    if R: "admits t R" and c: "\<not> rr_empty (clip_rounds (the (wr_commit q)) (anchor_of q k) (int R))" for k R
  proof (cases "et_repeats t")
    case True
    have "et_min_rounds t \<le> R" using R by (simp add: admits_def)
    from short_shot[OF ok(6)[OF True] q this c] show ?thesis using inst PR True by fastforce
  next
    case False
    then have "R = et_min_rounds t" using R by (simp add: admits_def)
    then show ?thesis using inst[of R k] c PR False by auto
  qed
  show thesis
  proof (rule that)
    show "variant_instances t q = Inr ?vs" by (rule variant_instances_fold[OF q P PB m e two])
    show "distinct (map vi_key ?vs)" using N(4) by simp
    show "admits t (vi_num_rounds v) \<and> vi_num_rounds v \<le> 2 ^ 62 \<and> vi_key v = key_of t q (vi_k v) (vi_num_rounds v) \<and>
       \<not> rr_empty (clip_rounds (the (wr_commit q)) (anchor_of q (vi_k v)) (int (vi_num_rounds v)))" if "v \<in> set ?vs" for v
      using bspec[OF N(1) that] inst PR PB by (cases "et_repeats t") (auto simp: admits_def)
    show "\<exists>v \<in> set ?vs. vi_key v = key_of t q k R"
      if "admits t R" "\<not> rr_empty (clip_rounds (the (wr_commit q)) (anchor_of q k) (int R))" for k R
      using short[OF that] N(2) by fastforce
  qed
qed

text \<open>
  C11: The variants that \<open>variant_instances\<close> lists serve every window of every shot of at most \<open>2\<^sup>6\<^sup>2\<close> rounds. They have
  distinct keys, and each is the key of an instance of an admitted shot. Every window of an admitted shot has the key of
  one of them, and building it gives what building the window of that variant gives: the same error, or the same window
  with its rounds, zones, imports and sends moved by the distance of the two anchors and nothing else
  changed but its index and the length of the shot; \<open>check_same_window_up_to_shift\<close> accepts the two.
\<close>

theorem variants_serve_layer:
  assumes "self_on_chain s" "experiment_template_new s = Inr t" "check_request q = Inr ()" "et_min_rounds t \<le> 2 ^ 61"
  shows "\<exists>vs. variant_instances t q = Inr vs \<and> distinct (map vi_key vs) \<and>
     (\<forall>v \<in> set vs. admits t (vi_num_rounds v) \<and> window_variant t q (vi_k v) (vi_num_rounds v) = Inr (vi_key v)) \<and>
     (\<forall>k R b e. admits t R \<and> R \<le> 2 ^ 62 \<and> window_instances q R = Inr (b, e) \<and> b \<le> k \<and> k < e \<longrightarrow>
        (\<exists>v \<in> set vs. window_variant t q k R = Inr (vi_key v) \<and>
           (\<forall>addr. window_from_dem_chunks (Some (addr, t)) q k R False =
              rbind (window_from_dem_chunks (Some (addr, t)) q (vi_k v) (vi_num_rounds v) False)
                (\<lambda>x. Inr (shift_window ((k - vi_k v) * wr_period q) k R x))) \<and>
           (\<forall>addr x y. window_from_dem_chunks (Some (addr, t)) q (vi_k v) (vi_num_rounds v) False = Inr x \<and>
              window_from_dem_chunks (Some (addr, t)) q k R False = Inr y \<longrightarrow> check_same_window_up_to_shift x y = Inr ())))"
proof -
  note ok = template_new_ok(1)[OF assms(1,2)] and m = template_max_span[OF assms(2)]
  obtain vs where vs: "variant_instances t q = Inr vs" "distinct (map vi_key vs)"
    "\<And>v. v \<in> set vs \<Longrightarrow> admits t (vi_num_rounds v) \<and> vi_num_rounds v \<le> 2 ^ 62 \<and> vi_key v = key_of t q (vi_k v) (vi_num_rounds v) \<and>
       \<not> rr_empty (clip_rounds (the (wr_commit q)) (anchor_of q (vi_k v)) (int (vi_num_rounds v)))"
    "\<And>k R. admits t R \<Longrightarrow> \<not> rr_empty (clip_rounds (the (wr_commit q)) (anchor_of q k) (int R)) \<Longrightarrow> \<exists>v \<in> set vs. vi_key v = key_of t q k R"
    using variants_complete[OF assms] by metis
  have e: "end_rounds t \<le> 2 ^ 61" by (rule end_rounds_bound[OF ok assms(4)])
  note key = window_variant_key[OF assms(3) m _ _ e]
  have serve: "\<exists>v \<in> set vs. window_variant t q k R = Inr (vi_key v) \<and>
      (\<forall>addr. window_from_dem_chunks (Some (addr, t)) q k R False =
         rbind (window_from_dem_chunks (Some (addr, t)) q (vi_k v) (vi_num_rounds v) False)
           (\<lambda>x. Inr (shift_window ((k - vi_k v) * wr_period q) k R x))) \<and>
      (\<forall>addr x y. window_from_dem_chunks (Some (addr, t)) q (vi_k v) (vi_num_rounds v) False = Inr x \<and>
         window_from_dem_chunks (Some (addr, t)) q k R False = Inr y \<longrightarrow> check_same_window_up_to_shift x y = Inr ())"
    if R: "admits t R" "R \<le> 2 ^ 62" and be: "window_instances q R = Inr (b, e)" "b \<le> k" "k < e" for k R b e
  proof -
    have "0 < R" using R et_okD(4)[OF ok] by (simp add: admits_def)
    then have c: "\<not> rr_empty (clip_rounds (the (wr_commit q)) (anchor_of q k) (int R))"
      using window_instances_iff[OF be(1) _ R(2), of k] be(2,3) by blast
    obtain v where v: "v \<in> set vs" "vi_key v = key_of t q k R" using vs(4)[OF R(1) c] by blast
    note f = vs(3)[OF v(1)]
    have f': "admits t (vi_num_rounds v)" "vi_num_rounds v \<le> 2 ^ 62" "key_of t q (vi_k v) (vi_num_rounds v) = key_of t q k R"
      "\<not> rr_empty (clip_rounds (the (wr_commit q)) (anchor_of q (vi_k v)) (int (vi_num_rounds v)))" using f v(2) by simp_all
    note same = variant_windows_shift[OF assms(1-3) f'(1) R(1) f'(2) R(2) f'(3,4)]
    show ?thesis
    proof (intro bexI[OF _ v(1)] conjI allI impI)
      show "window_variant t q k R = Inr (vi_key v)" using key[OF R(2) c] v(2) by simp
      show "window_from_dem_chunks (Some (addr, t)) q k R False =
         rbind (window_from_dem_chunks (Some (addr, t)) q (vi_k v) (vi_num_rounds v) False)
           (\<lambda>x. Inr (shift_window ((k - vi_k v) * wr_period q) k R x))" for addr by (rule same(1))
      show "check_same_window_up_to_shift x y = Inr ()"
        if "window_from_dem_chunks (Some (addr, t)) q (vi_k v) (vi_num_rounds v) False = Inr x \<and>
          window_from_dem_chunks (Some (addr, t)) q k R False = Inr y" for addr x y
        using same(2)[OF conjunct1[OF that]] conjunct2[OF that, unfolded same(1)[of addr] conjunct1[OF that] rbind_simps sum.inject] by simp
    qed
  qed
  have "window_variant t q (vi_k v) (vi_num_rounds v) = Inr (vi_key v)" if "v \<in> set vs" for v using vs(3)[OF that] key by simp
  then show ?thesis using vs(1-3) serve by (intro exI[of _ vs]) auto
qed

theorem variants_serve_layer_witness:
  "\<exists>t vs v. experiment_template_new (three_phases 3) = Inr t \<and> variant_instances t sample_request = Inr vs \<and> distinct (map vi_key vs) \<and>
     v \<in> set vs \<and> window_variant t sample_request 40 1000 = Inr (vi_key v)"
proof -
  have on: "self_on_chain (three_phases 3)" and q: "check_request sample_request = Inr ()" by code_simp+
  have "(case experiment_template_new (three_phases 3) of Inr t \<Rightarrow> admits t 1000 \<and> et_min_rounds t \<le> 2 ^ 61 | Inl _ \<Rightarrow> False)" by code_simp
  then obtain t where t: "experiment_template_new (three_phases 3) = Inr t" "admits t 1000" "et_min_rounds t \<le> 2 ^ 61" by (auto split: sum.splits)
  have inst: "window_instances sample_request 1000 = Inr (0, 500)" "(0 :: int) \<le> 40" "(40 :: int) < 500" by code_simp simp_all
  have "admits t 1000 \<and> 1000 \<le> (2 :: nat) ^ 62 \<and> window_instances sample_request 1000 = Inr (0, 500) \<and> (0 :: int) \<le> 40 \<and> (40 :: int) < 500"
    using t(2) inst by simp
  note prem = this
  from variants_serve_layer[OF on t(1) q t(3)] show ?thesis
  proof (elim exE conjE)
    fix vs
    assume vs: "variant_instances t sample_request = Inr vs" "distinct (map vi_key vs)"
    assume "\<forall>k R b e. admits t R \<and> R \<le> 2 ^ 62 \<and> window_instances sample_request R = Inr (b, e) \<and> b \<le> k \<and> k < e \<longrightarrow>
        (\<exists>v \<in> set vs. window_variant t sample_request k R = Inr (vi_key v) \<and>
           (\<forall>addr. window_from_dem_chunks (Some (addr, t)) sample_request k R False =
              rbind (window_from_dem_chunks (Some (addr, t)) sample_request (vi_k v) (vi_num_rounds v) False)
                (\<lambda>x. Inr (shift_window ((k - vi_k v) * wr_period sample_request) k R x))) \<and>
           (\<forall>addr x y. window_from_dem_chunks (Some (addr, t)) sample_request (vi_k v) (vi_num_rounds v) False = Inr x \<and>
              window_from_dem_chunks (Some (addr, t)) sample_request k R False = Inr y \<longrightarrow> check_same_window_up_to_shift x y = Inr ()))"
    from this[THEN spec, THEN spec, THEN spec, THEN spec, THEN mp, OF prem]
    obtain v where "v \<in> set vs" "window_variant t sample_request 40 1000 = Inr (vi_key v)" by blast
    then show ?thesis using t(1) vs by blast
  qed
qed

end
