(* ===== verification/Spec2Isabelle.thy ===== *)
theory Spec2Isabelle
  imports QEC_Pcm_Theorems QEC_Pcm_Formats QEC_Dem QEC_Graph QEC_Surface_Schedule QEC_Hetmap QEC_Lut_Theorems QEC_Factory QEC_Sliding_Stream QEC_Chunk_Merge QEC_Window_Variants
begin

text \<open>
  A verification development for CUDA-QX, the libraries for quantum error correction on top of CUDA-Q. It covers
  the core logic of the C++ libraries under \<open>libs/core\<close> and \<open>libs/qec\<close>: the data structures that describe codes and
  their error models, the decoders that are implemented in the repository itself, and the machinery that cuts long
  experiments into chunks and windows.

  \<^bold>\<open>The parts and how they interact.\<close> A code (\<open>code.cpp\<close>, \<open>surface_code.cpp\<close>) supplies stabilizers and observables,
  from which \<open>stabilizer_utils.cpp\<close> derives parity-check matrices. A noise model turns a circuit into a detector
  error model (\<open>detector_error_model.cpp\<close>): a matrix of detectors against error mechanisms, their rates and the
  observables they flip. The matrices are dense tensors (\<open>tensor.h\<close>) or compressed rows or columns
  (\<open>sparse_binary_matrix.cpp\<close>), and \<open>pcm_utils.cpp\<close> sorts, slices, merges and prints them by rounds. A decoder
  (\<open>decoder.cpp\<close>, \<open>lut.cpp\<close>, \<open>sliding_window.cpp\<close>) is made by a factory from a decoder input and a parameter map
  (\<open>heterogeneous_map.h\<close>), receives measurements round by round and accumulates corrections. Experiments of any length
  are described by chunks that share seams (\<open>extended_dem.cpp\<close>), by specifications of repeating phases, and by
  decoding windows placed on them (\<open>lib/decoding_task\<close>).

  \<^bold>\<open>Conventions\<close> (theory \<open>QEC_Prelude\<close>). A C++ operation that can throw returns \<open>exn + 'a\<close>; the constructor of
  \<open>exn\<close> is the exception class (\<open>overflow_error\<close> is counted under \<open>Runtime_error\<close>), and \<open>Undefined_behaviour\<close> stands
  for an access outside a container. \<open>rbind\<close>, \<open>rfold\<close> and \<open>rmap\<close> are sequencing and the loops of the code. 8-bit values
  are words; 32-bit indices are natural numbers with \<open>u32\<close> and \<open>u32_sub\<close> where the code computes at that width; \<open>size_t\<close>
  and \<open>uint64_t\<close> are natural numbers, with \<open>sz_sub\<close> where a difference can wrap and \<open>u64\<close> around the sums and products
  over a shot of any length; other sums of sizes (lengths of containers, widths of rounds) are taken to stay below
  \<open>2\<^sup>6\<^sup>4\<close>. \<open>int64_t\<close> are integers; the placement of windows, where the code combines unchecked indices and lengths,
  is undefined behaviour outside the type. \<open>double\<close> are reals. \<open>std::sort\<close> is \<open>std_sort\<close>; the locales \<open>strict_weak\<close> and \<open>strict_total\<close> state what it asks of a comparator and
  what the caller gets, and every comparator of the code interprets one of them. Messages are shortened; logging and
  timing are left out.

  \<^bold>\<open>The theories, in the order of the code.\<close>

  \<^item> \<open>QEC_Tensor\<close> (\<open>tensor.h\<close>, \<open>xtensor_impl.cpp\<close>): shape, strides, checked access. The locale \<open>matrix_store\<close> is the
    read-after-write contract of a matrix.

  \<^item> \<open>QEC_Sparse\<close> (\<open>sparse_binary_matrix.cpp\<close>): every constructor and conversion. Conversions keep the multiplicity of
    each cell and are inverse on canonical matrices; \<open>canonicalize\<close> keeps the value over GF(2); the compressed
    constructors accept exactly the well-formed inputs; dense and nested round trips.

  \<^item> \<open>QEC_Round_Layout\<close>, \<open>QEC_Pcm_Sort\<close>, \<open>QEC_Pcm_Utils\<close>, \<open>QEC_Pcm_Theorems\<close>, \<open>QEC_Pcm_Formats\<close> (\<open>round_layout.h\<close>,
    \<open>pcm_utils.cpp\<close>): rounds partition the rows (locale \<open>round_partition\<close>); the column comparator is a strict total order;
    reordering, merging, slicing by rounds (dense and sparse forms agree), print and parse round trips.

  \<^item> \<open>QEC_Dem\<close> (\<open>detector_error_model.cpp\<close>): import from Stim (the parser is a parameter), dense against sparse
    projection, and canonicalisation, which keeps the distribution described by the model.

  \<^item> \<open>QEC_Graph\<close> (\<open>graph.cpp\<close>): a symmetric-adjacency invariant of all operations; depth-first connectivity is
    reachability, with a termination proof of the search.

  \<^item> \<open>QEC_Stabilizers\<close>, \<open>QEC_Surface_Code\<close>, \<open>QEC_Surface_Theorems\<close>, \<open>QEC_Surface_Schedule\<close>: block structure of parity
    matrices; for every orientation and odd distance the generated surface code is a stabilizer code with
    anticommuting logical operators, and its CNOT schedule matches the parity checks and is free of conflicts.

  \<^item> \<open>QEC_Hetmap\<close> (\<open>heterogeneous_map.h\<close>): typed lookup after insertion, with the related types of the code.

  \<^item> \<open>QEC_Decoder_Init\<close>, \<open>QEC_Decoder\<close>, \<open>QEC_Decoder_Theorems\<close>, \<open>QEC_Factory\<close> (\<open>decoder_init.cpp\<close>, \<open>decoder.cpp\<close>):
    invariant of decoder inputs; the realtime buffer decodes a shot once, from its whole detector vector, however it
    is split (locale \<open>decode_plugin\<close>: what the base class may assume of a concrete decoder); device pinning of the factory.
    The CUDA runtime is a parameter.

  \<^item> \<open>QEC_Lut\<close>, \<open>QEC_Lut_Theorems\<close> (\<open>lut.cpp\<close>): the table holds a minimum-weight error set for every reachable syndrome;
    the decoder interprets \<open>decode_plugin\<close> and never fails in realtime.

  \<^item> \<open>QEC_Sliding_Window\<close>, \<open>QEC_Sliding_Geometry\<close>, \<open>QEC_Sliding_Theorems\<close>, \<open>QEC_Sliding_Exact\<close>, \<open>QEC_Sliding_Stream\<close>
    (\<open>sliding_window.cpp\<close>): over any inner decoder that meets the locale \<open>inner_decoder\<close>, and for lookup-table decoders
    by interpretation, committed corrections have the measured syndrome when all windows converge. The layer buffer holds the
    rounds after the decoded windows in every reachable state, also after calls that throw; an exception of an inner
    decoder leaves its window waiting, so only without one are there fewer rounds than a window.

  \<^item> \<open>QEC_Chunks\<close>, \<open>QEC_Chunk_Matrix\<close>, \<open>QEC_Chunk_Geometry\<close>, \<open>QEC_Chunk_Stitch\<close>, \<open>QEC_Chunk_Chain\<close>,
    \<open>QEC_Chunk_Fold\<close>, \<open>QEC_Chunk_Close\<close>, \<open>QEC_Chunk_Merge\<close> (\<open>extended_dem.cpp\<close>): a chunk abstracts to a \<open>chain_model\<close>;
    \<open>dem_stitch\<close> refines the contraction of models, the one-pass stitch is the left fold of pairwise ones, the dense
    and sparse closings agree with closing the stitched chunk, and merging equal columns combines their rates.

  \<^item> \<open>QEC_Chunk_Spec\<close>, \<open>QEC_Chunk_Phases\<close>, \<open>QEC_Chunk_Build\<close>, \<open>QEC_Chunk_Compact\<close>, \<open>QEC_Chunk_Observables\<close>
    (\<open>extended_dem.cpp\<close>, \<open>dem_chunks_memory.cpp\<close>): which phase sequences a specification describes, that the chunks it
    builds are well formed, and that the compact chain stands for the full one in the measurement and observable maps.

  \<^item> \<open>QEC_Template\<close> (\<open>decoding_task_experiment_template.cpp\<close>): the phases of an experiment laid out for any shot length;
    chunks and offsets agree with the expansion of the specification for that length, modulo \<open>2\<^sup>6\<^sup>4\<close>.

  \<^item> \<open>QEC_Window\<close>, \<open>QEC_Window_Place\<close>, \<open>QEC_Window_Model\<close>, \<open>QEC_Window_Variants\<close> (\<open>window_request.h\<close>,
    \<open>decoding_task_decoding_window.cpp\<close>): requests and their checks, placement of a window in a shot, its detector model
    and measurement maps, and the variants of a layer. A template is passed as an address with its value, because the
    code compares the pointers. Placement succeeds exactly for valid requests and instances, its zones are the moved and
    clipped ones and tile the rounds of the window, and every window is the window of a listed variant, moved by the
    distance of their anchors.

  \<^bold>\<open>Bounds and termination.\<close> No definition uses fuel. Loops over containers are folds over lists; the searches (the
  depth-first search of the graph, the walk along the phases) have termination proofs by the number of unvisited
  nodes; the enumeration of error sets follows \<open>std::prev_permutation\<close>, which decreases in the lexicographic order.
  Where 32 bits matter, the theorems carry the bound as a hypothesis (for the column order, fewer than \<open>2\<^sup>3\<^sup>1\<close> columns,
  since the counter of \<open>std::iota\<close> is an \<open>int\<close>) or derive it from a checked matrix. Offsets in a shot are stated modulo
  \<open>2\<^sup>6\<^sup>4\<close>, exact up to \<open>2\<^sup>3\<^sup>2\<close> rounds; windows are placed for at most that many, and variants serve shots of
  at most \<open>2\<^sup>6\<^sup>2\<close>. The inner lookup tables of a sliding window are created in one CUDA state (whether a
  requested device exists and can be selected is the same for all); what a plug-in does to the device is left open in
  \<open>QEC_Factory\<close>.

  \<^bold>\<open>Parameters.\<close> The Stim parser (\<open>stim\<close>), the CUDA runtime (\<open>cuda\<close>), the random permutation of column shuffling, the
  operator class of CUDA-Q and its conversion to Pauli words, the clock, and the inner decoders of windows are
  arguments of the definitions that use them; the hypotheses on them are the locales \<open>decode_plugin\<close> and \<open>inner_decoder\<close>,
  interpreted on the lookup-table decoder.

  \<^bold>\<open>Not modelled.\<close> The executor of decoding task graphs (threads, futures and plug-in nodes), YAML configuration
  (field lists over a third-party parser), the TensorRT and GPU plug-ins (computations of those libraries), dynamic
  loading, quantum kernels and sampling, language bindings, logging. In \<open>tensor.h\<close> the arithmetic operators and
  ownership modes, in \<open>pcm_utils.cpp\<close> the random matrix generators, and in \<open>extended_dem.cpp\<close> the registry of display
  names and the builder from CSS matrices are left out.
\<close>

end
